(* ===== verification/Prelude.thy ===== *)
theory Prelude
  imports Main "HOL-Library.Word" "HOL-Library.Monad_Syntax"
begin

unbundle bit_operations_syntax

text \<open>
  Shared vocabulary of the development: the machine types of the C++ sources, the bounds-checked
  block copy that models \<^verbatim>\<open>std::memcpy\<close> and \<^verbatim>\<open>std::copy_n\<close> on vectors, \<^verbatim>\<open>std::bit_ceil\<close>,
  \<^verbatim>\<open>std::clamp\<close>, and the generic facts on lists, words and powers of two that the component
  theories use.  The collections \<open>word_size_simps\<close> and \<open>blit_simps\<close> carry the component proofs.
\<close>

named_theorems word_size_simps \<open>moving sizes between nat and the 64-bit size type\<close>
named_theorems blit_simps \<open>bounds-checked block copies\<close>

section \<open>Machine types\<close>

type_synonym size_t = "64 word"
type_synonym uint64_t = "64 word"
type_synonym uint32_t = "32 word"
type_synonym byte = "8 word"

text \<open>The size of a container as the code reads it: \<^verbatim>\<open>xs.size()\<close>, a \<^verbatim>\<open>std::size_t\<close>.\<close>

definition size_of :: "'a list \<Rightarrow> size_t" where
  "size_of xs = word_of_nat (length xs)"

text \<open>A container that exists in memory has a size its type can represent.\<close>

definition in_memory :: "'a list \<Rightarrow> bool" where
  "in_memory xs \<longleftrightarrow> length xs < 2 ^ 64"

lemma unat_size_of [word_size_simps]: "in_memory xs \<Longrightarrow> unat (size_of xs) = length xs"
  by (simp add: size_of_def in_memory_def unat_of_nat)

lemma in_memory_Nil [simp]: "in_memory []"
  by (simp add: in_memory_def)

lemma in_memory_take [simp]: "in_memory xs \<Longrightarrow> in_memory (take n xs)"
  by (simp add: in_memory_def)

section \<open>Bounds-checked block copy\<close>

text \<open>
  \<open>blit xs i ys\<close> overwrites \<open>xs\<close> from index \<open>i\<close> with \<open>ys\<close>.  A copy that would leave the
  destination is undefined behaviour in C++, and \<open>None\<close> here.
\<close>

definition blit :: "'a list \<Rightarrow> nat \<Rightarrow> 'a list \<Rightarrow> 'a list option" where
  "blit xs i ys =
     (if i + length ys \<le> length xs then Some (take i xs @ ys @ drop (i + length ys) xs) else None)"

text \<open>\<open>segment xs i n\<close> reads \<open>n\<close> elements from index \<open>i\<close>; reading past the end is \<open>None\<close>.\<close>

definition segment :: "'a list \<Rightarrow> nat \<Rightarrow> nat \<Rightarrow> 'a list option" where
  "segment xs i n = (if i + n \<le> length xs then Some (take n (drop i xs)) else None)"

lemma blit_Some [blit_simps]:
  "i + length ys \<le> length xs \<Longrightarrow> blit xs i ys = Some (take i xs @ ys @ drop (i + length ys) xs)"
  by (simp add: blit_def)

lemma segment_Some [blit_simps]:
  "i + n \<le> length xs \<Longrightarrow> segment xs i n = Some (take n (drop i xs))"
  by (simp add: segment_def)

lemma length_blit: "blit xs i ys = Some zs \<Longrightarrow> length zs = length xs"
  by (auto simp: blit_def split: if_splits)

lemma nth_blit:
  "blit xs i ys = Some zs \<Longrightarrow> j < length xs \<Longrightarrow>
     zs ! j = (if i \<le> j \<and> j < i + length ys then ys ! (j - i) else xs ! j)"
  by (auto simp: blit_def nth_append split: if_splits)

section \<open>Powers of two\<close>

text \<open>\<^verbatim>\<open>std::bit_ceil\<close>: the smallest power of two that is not below \<open>n\<close>.\<close>

function bit_ceil_from :: "nat \<Rightarrow> nat \<Rightarrow> nat" where
  "bit_ceil_from p n = (if 0 < p \<and> p < n then bit_ceil_from (2 * p) n else p)"
  by pat_completeness auto
termination
  by (relation "measure (\<lambda>(p, n). n - p)") auto

declare bit_ceil_from.simps [simp del]

definition bit_ceil :: "nat \<Rightarrow> nat" where
  "bit_ceil n = bit_ceil_from 1 n"

lemma bit_ceil_from_power:
  "\<exists>k. bit_ceil_from (2 ^ i) n = 2 ^ k \<and> i \<le> k \<and> n \<le> 2 ^ k \<and> (k = i \<or> 2 ^ (k - 1) < n)"
proof (induction "n - 2 ^ i" arbitrary: i rule: less_induct)
  case less
  show ?case
  proof (cases "2 ^ i < n")
    case False
    then show ?thesis
      by (subst bit_ceil_from.simps) auto
  next
    case True
    then have "n - 2 ^ Suc i < n - 2 ^ i"
      by (intro diff_less_mono2) simp_all
    from less.hyps [OF this] obtain k where
      k: "bit_ceil_from (2 ^ Suc i) n = 2 ^ k" "Suc i \<le> k" "n \<le> 2 ^ k" "k = Suc i \<or> 2 ^ (k - 1) < n"
      by blast
    then have "2 ^ (k - 1) < n"
      using True by auto
    moreover have "bit_ceil_from (2 ^ i) n = bit_ceil_from (2 ^ Suc i) n"
      using True by (subst bit_ceil_from.simps) simp
    ultimately show ?thesis
      using k by (metis Suc_leD)
  qed
qed

lemma bit_ceil_power: "\<exists>k. bit_ceil n = 2 ^ k \<and> n \<le> 2 ^ k \<and> (k = 0 \<or> 2 ^ (k - 1) < n)"
  using bit_ceil_from_power [of 0 n] by (auto simp: bit_ceil_def)

section \<open>Clamping\<close>

definition clamp :: "'a::linorder \<Rightarrow> 'a \<Rightarrow> 'a \<Rightarrow> 'a" where
  "clamp x lo hi = (if x < lo then lo else if hi < x then hi else x)"

lemma clamp_bounds: "lo \<le> hi \<Longrightarrow> lo \<le> clamp x lo hi \<and> clamp x lo hi \<le> hi"
  by (auto simp: clamp_def)

section \<open>Word arithmetic\<close>

lemma unat_size_bound: "unat (w :: size_t) < 2 ^ 64"
  using unsigned_less [of w] by simp

lemma unat_and_mask:
  fixes w :: size_t
  shows "unat (w AND (word_of_nat (2 ^ k) - 1)) = unat w mod 2 ^ k"
proof -
  have "(word_of_nat (2 ^ k) :: size_t) - 1 = mask k"
    by (simp add: mask_eq_decr_exp)
  then have "w AND (word_of_nat (2 ^ k) - 1) = take_bit k w"
    by (simp add: take_bit_eq_mask)
  then have "unat (w AND (word_of_nat (2 ^ k) - 1)) = unat (take_bit k w)"
    by (rule arg_cong)
  also have "\<dots> = take_bit k (unat w)"
    by (simp only: unsigned_take_bit_eq)
  finally show ?thesis
    by (simp only: take_bit_eq_mod)
qed

lemma unat_add_mod_power:
  fixes w v :: size_t
  assumes "k \<le> 64"
  shows "unat (w + v) mod 2 ^ k = (unat w + unat v) mod 2 ^ k"
proof -
  have "(2::nat) ^ k dvd 2 ^ 64"
    using assms by (rule le_imp_power_dvd)
  then show ?thesis
    by (simp add: unat_word_ariths mod_mod_cancel)
qed

end
