(* ===== verification/Ring_Buffer.thy ===== *)
theory Ring_Buffer
  imports Prelude
begin

text \<open>
  The single-producer/single-consumer ring of \<^verbatim>\<open>core/include/rta/dsp/RingBuffer.h\<close>.  Indices
  are the monotonic 64-bit counters of the class and wrap at \<open>2 ^ 64\<close> exactly as the code's do;
  storage accesses are bounds-checked, so that \<open>None\<close> is an out-of-range \<^verbatim>\<open>memcpy\<close>.  The
  theory proves that every operation stays inside the storage, implements a bounded FIFO
  (\<open>ring_contents\<close>), and keeps the invariant \<open>ring_inv\<close>; the contract is the locale
  \<open>sample_fifo\<close>, interpreted on the ring at the end.
\<close>

section \<open>State and operations\<close>

record 'a ring =
  storage :: "'a list"
  ring_mask :: size_t
  writeIndex :: uint64_t
  readIndex :: uint64_t

datatype ring_error = InvalidCapacity

text \<open>The constructor: \<open>z\<close> is the value-initialised element \<^verbatim>\<open>T{}\<close>.\<close>

definition RingBuffer_new :: "'a \<Rightarrow> nat \<Rightarrow> ring_error + 'a ring" where
  "RingBuffer_new z minCapacity =
     (if minCapacity = 0 then Inl InvalidCapacity
      else let capacity = bit_ceil minCapacity in
        Inr \<lparr>storage = replicate capacity z, ring_mask = word_of_nat capacity - 1,
             writeIndex = 0, readIndex = 0\<rparr>)"

definition ring_capacity :: "'a ring \<Rightarrow> size_t" where
  "ring_capacity r = size_of (storage r)"

definition availableToRead :: "'a ring \<Rightarrow> size_t" where
  "availableToRead r = writeIndex r - readIndex r"

definition availableToWrite :: "'a ring \<Rightarrow> size_t" where
  "availableToWrite r = ring_capacity r - availableToRead r"

text \<open>
  The two-segment copies of \<^verbatim>\<open>write\<close> and \<^verbatim>\<open>peek\<close>: up to the physical end of the storage,
  then from its start.
\<close>

definition copy_in :: "'a list \<Rightarrow> size_t \<Rightarrow> 'a list \<Rightarrow> 'a list option" where
  "copy_in st start src =
     (let first = min (size_of src) (size_of st - start) in
      do {
        st1 \<leftarrow> (if first > 0 then blit st (unat start) (take (unat first) src) else Some st);
        (if size_of src > first then blit st1 0 (drop (unat first) src) else Some st1)
      })"

definition copy_out :: "'a list \<Rightarrow> size_t \<Rightarrow> size_t \<Rightarrow> 'a list option" where
  "copy_out st start count =
     (let first = min count (size_of st - start) in
      do {
        a \<leftarrow> (if first > 0 then segment st (unat start) (unat first) else Some []);
        b \<leftarrow> (if count > first then segment st 0 (unat (count - first)) else Some []);
        Some (a @ b)
      })"

text \<open>\<^verbatim>\<open>write\<close>: all of \<open>src\<close> or nothing; the Boolean is the code's return value.\<close>

definition RingBuffer_write :: "'a ring \<Rightarrow> 'a list \<Rightarrow> (bool \<times> 'a ring) option" where
  "RingBuffer_write r src =
     (let wr = writeIndex r; rd = readIndex r in
      if size_of src > ring_capacity r - (wr - rd) then Some (False, r)
      else do {
        st \<leftarrow> copy_in (storage r) (wr AND ring_mask r) src;
        Some (True, r\<lparr>storage := st, writeIndex := wr + size_of src\<rparr>)
      })"

text \<open>
  \<^verbatim>\<open>peek\<close> into a destination of \<open>n\<close> elements, \<open>offset\<close> past the read position; the result is
  the list of elements copied, its length the returned count.
\<close>

definition RingBuffer_peek :: "'a ring \<Rightarrow> size_t \<Rightarrow> size_t \<Rightarrow> 'a list option" where
  "RingBuffer_peek r n offset =
     (let rd = readIndex r; wr = writeIndex r; available = wr - rd in
      if offset \<ge> available then Some []
      else copy_out (storage r) ((rd + offset) AND ring_mask r) (min n (available - offset)))"

definition RingBuffer_discard :: "'a ring \<Rightarrow> size_t \<Rightarrow> size_t \<times> 'a ring" where
  "RingBuffer_discard r count =
     (let rd = readIndex r; wr = writeIndex r; n = min count (wr - rd) in
      (n, r\<lparr>readIndex := rd + n\<rparr>))"

definition RingBuffer_read :: "'a ring \<Rightarrow> size_t \<Rightarrow> ('a list \<times> 'a ring) option" where
  "RingBuffer_read r n = do {
     xs \<leftarrow> RingBuffer_peek r n 0;
     Some (xs, snd (RingBuffer_discard r (size_of xs)))
   }"

definition RingBuffer_reset :: "'a ring \<Rightarrow> 'a ring" where
  "RingBuffer_reset r = r\<lparr>readIndex := 0, writeIndex := 0\<rparr>"

section \<open>Invariant and abstraction\<close>

text \<open>
  The storage is a power of two no larger than \<open>2 ^ 63\<close> with its mask, and the counters differ
  by at most the capacity.
\<close>

definition ring_shape :: "'a list \<Rightarrow> size_t \<Rightarrow> bool" where
  "ring_shape st m \<longleftrightarrow> (\<exists>k < 64. length st = 2 ^ k \<and> m = word_of_nat (2 ^ k) - 1)"

definition ring_inv :: "'a ring \<Rightarrow> bool" where
  "ring_inv r \<longleftrightarrow> ring_shape (storage r) (ring_mask r) \<and>
     unat (writeIndex r - readIndex r) \<le> length (storage r)"

text \<open>The elements between the two counters, oldest first.\<close>

definition window :: "'a list \<Rightarrow> size_t \<Rightarrow> nat \<Rightarrow> 'a list" where
  "window st i n = map (\<lambda>j. st ! ((unat i + j) mod length st)) [0..<n]"

definition ring_contents :: "'a ring \<Rightarrow> 'a list" where
  "ring_contents r = window (storage r) (readIndex r) (unat (writeIndex r - readIndex r))"

lemma ring_shapeE:
  assumes "ring_shape st m"
  obtains k where "k < 64" "length st = 2 ^ k" "m = word_of_nat (2 ^ k) - 1"
  using assms by (auto simp: ring_shape_def)

lemma ring_shape_pos: "ring_shape st m \<Longrightarrow> 0 < length st"
  by (auto simp: ring_shape_def)

lemma ring_shape_in_memory: "ring_shape st m \<Longrightarrow> in_memory st"
  unfolding ring_shape_def in_memory_def
  by (metis power_strict_increasing_iff one_less_numeral_iff semiring_norm(76))

lemma ring_shape_mask:
  assumes "ring_shape st m"
  shows "unat (w AND m) = unat w mod length st"
  using assms by (elim ring_shapeE) (simp only: unat_and_mask)

lemma ring_shape_add:
  fixes w v :: size_t
  assumes "ring_shape st m"
  shows "unat (w + v) mod length st = (unat w + unat v) mod length st"
proof -
  obtain k where "k < 64" "length st = 2 ^ k"
    using assms by (rule ring_shapeE)
  then show ?thesis
    using unat_add_mod_power [of k w v] by simp
qed

lemma length_window [simp]: "length (window st i n) = n"
  by (simp add: window_def)

lemma nth_window [simp]: "j < n \<Longrightarrow> window st i n ! j = st ! ((unat i + j) mod length st)"
  by (simp add: window_def)

lemma take_window: "take n (window st i m) = window st i (min n m)"
  by (simp add: list_eq_iff_nth_eq)

lemma drop_window:
  assumes "ring_shape st m" "unat v \<le> n"
  shows "drop (unat v) (window st i n) = window st (i + v) (n - unat v)"
proof (rule nth_equalityI)
  fix j assume "j < length (drop (unat v) (window st i n))"
  then have j: "unat v + j < n"
    by simp
  have "(unat (i + v) + j) mod length st = (unat i + (unat v + j)) mod length st"
    using mod_add_cong [OF ring_shape_add [OF assms(1), of i v] refl, of j]
    by (simp add: add.assoc)
  then show "drop (unat v) (window st i n) ! j = window st (i + v) (n - unat v) ! j"
    using j assms(2) by simp
qed (use assms(2) in simp)

lemma ring_inv_avail: "ring_inv r \<Longrightarrow> unat (availableToRead r) = length (ring_contents r)"
  by (simp add: ring_contents_def availableToRead_def)

lemma ring_capacity_unat: "ring_inv r \<Longrightarrow> unat (ring_capacity r) = length (storage r)"
  by (auto simp: ring_inv_def ring_capacity_def intro: unat_size_of ring_shape_in_memory)

lemma ring_contents_le: "ring_inv r \<Longrightarrow> length (ring_contents r) \<le> length (storage r)"
  by (simp add: ring_inv_def ring_contents_def)

section \<open>The two-segment copies stay in bounds\<close>

lemma wrapped_index:
  fixes s L i :: nat
  assumes "s < L" "i < L"
  shows "(s + i) mod L = (if s + i < L then s + i else s + i - L)"
  using assms by (auto simp: mod_if)

lemma unat_size_diff:
  assumes "in_memory st" "unat start < length st"
  shows "unat (size_of st - start) = length st - unat start"
proof -
  have "start \<le> size_of st"
    using assms by (simp add: word_le_nat_alt unat_size_of)
  then show ?thesis
    using assms by (simp add: unat_sub unat_size_of)
qed

lemma unat_min: "unat (min a b) = min (unat a) (unat b)"
  by (simp add: min_def word_le_nat_alt)

lemma copy_in_Some:
  assumes "in_memory st" "in_memory src" "length src \<le> length st" "unat start < length st"
  shows "\<exists>st'. copy_in st start src = Some st' \<and> length st' = length st \<and>
    (\<forall>i < length st. st' ! ((unat start + i) mod length st) =
       (if i < length src then src ! i else st ! ((unat start + i) mod length st)))"
proof -
  let ?s = "unat start" and ?L = "length st" and ?n = "length src"
  define f where "f = min (size_of src) (size_of st - start)"
  have first: "unat f = min ?n (?L - ?s)"
    using assms by (simp add: f_def unat_min unat_size_diff unat_size_of)
  have pos: "f > 0 \<longleftrightarrow> 0 < ?n"
    using first assms(4) by (auto simp: word_less_nat_alt)
  have more: "size_of src > f \<longleftrightarrow> ?n > ?L - ?s"
    using first assms(2) by (auto simp: word_less_nat_alt unat_size_of)
  note copy = copy_in_def Let_def f_def [symmetric] first pos more
  show ?thesis
  proof (cases "?n \<le> ?L - ?s")
    case True
    then have "copy_in st start src = Some (take ?s st @ src @ drop (?s + ?n) st)"
      using assms by (cases "?n = 0") (simp_all add: copy blit_simps)
    moreover have "(take ?s st @ src @ drop (?s + ?n) st) ! ((?s + i) mod ?L) =
       (if i < ?n then src ! i else st ! ((?s + i) mod ?L))" if "i < ?L" for i
      using True assms that by (auto simp: wrapped_index nth_append)
    ultimately show ?thesis
      using True assms by auto
  next
    case False
    let ?a = "take ?s st @ take (?L - ?s) src" and ?b = "drop (?L - ?s) src"
    have "copy_in st start src = Some (?b @ drop (?n - (?L - ?s)) ?a)"
      using False assms by (cases "src = []") (simp_all add: copy blit_simps)
    moreover have "(?b @ drop (?n - (?L - ?s)) ?a) ! ((?s + i) mod ?L) =
       (if i < ?n then src ! i else st ! ((?s + i) mod ?L))" if "i < ?L" for i
      using False assms that by (auto simp: wrapped_index nth_append)
    ultimately show ?thesis
      using False assms by auto
  qed
qed

lemma copy_out_window:
  assumes "ring_shape st m" "unat count \<le> length st"
  shows "copy_out st (i AND m) count = Some (window st i (unat count))"
proof -
  let ?s = "unat (i AND m)" and ?L = "length st" and ?n = "unat count"
  have s: "?s = unat i mod ?L" "?s < ?L"
    using assms(1) ring_shape_pos [OF assms(1)] by (simp_all add: ring_shape_mask)
  have mem: "in_memory st"
    using assms(1) by (rule ring_shape_in_memory)
  define f where "f = min count (size_of st - (i AND m))"
  have first: "unat f = min ?n (?L - ?s)"
    using s(2) mem by (simp add: f_def unat_min unat_size_diff)
  have pos: "f > 0 \<longleftrightarrow> 0 < ?n"
    using first s(2) by (auto simp: word_less_nat_alt)
  have more: "count > f \<longleftrightarrow> ?n > ?L - ?s"
    using first by (auto simp: word_less_nat_alt)
  have rest: "unat (count - f) = ?n - min ?n (?L - ?s)"
    using first by (simp add: unat_sub f_def)
  note copy = copy_out_def Let_def f_def [symmetric] first pos more rest
  have "copy_out st (i AND m) count =
      Some (take ?n (drop ?s st) @ take (?n - (?L - ?s)) st)"
    using assms(2) s(2)
    by (cases "?n = 0"; cases "?n \<le> ?L - ?s") (simp_all add: copy blit_simps)
  moreover have "take ?n (drop ?s st) @ take (?n - (?L - ?s)) st = window st i ?n"
  proof (rule nth_equalityI)
    show "length (take ?n (drop ?s st) @ take (?n - (?L - ?s)) st) = length (window st i ?n)"
      using assms(2) s(2) by (auto simp: min_def)
  next
    fix j assume "j < length (take ?n (drop ?s st) @ take (?n - (?L - ?s)) st)"
    then have j: "j < ?n"
      using assms(2) s(2) by (auto simp: min_def split: if_splits)
    have "(unat i + j) mod ?L = (?s + j) mod ?L"
      by (simp add: s(1) mod_simps)
    then show "(take ?n (drop ?s st) @ take (?n - (?L - ?s)) st) ! j = window st i ?n ! j"
      using j assms(2) s(2) by (auto simp: wrapped_index nth_append add.commute)
  qed
  ultimately show ?thesis
    by simp
qed

section \<open>Functional behaviour of the operations\<close>

lemma RingBuffer_new_inv:
  assumes "0 < n" "n \<le> 2 ^ 63"
  shows "\<exists>r. RingBuffer_new z n = Inr r \<and> ring_inv r \<and> ring_contents r = [] \<and>
    n \<le> length (storage r) \<and> length (storage r) < 2 * n"
proof -
  obtain k where k: "bit_ceil n = 2 ^ k" "n \<le> 2 ^ k" "k = 0 \<or> 2 ^ (k - 1) < n"
    using bit_ceil_power by blast
  have "k < 64"
  proof (rule ccontr)
    assume "\<not> k < 64"
    then have "(2::nat) ^ 63 \<le> 2 ^ (k - 1)"
      by (intro power_increasing) simp_all
    with k(3) assms \<open>\<not> k < 64\<close> show False
      by auto
  qed
  moreover have "2 ^ k < 2 * n"
    using k(3) assms(1) by (cases k) auto
  ultimately show ?thesis
    using assms k
    by (auto simp: RingBuffer_new_def Let_def ring_inv_def ring_shape_def ring_contents_def
        window_def)
qed

lemma RingBuffer_new_rejects: "RingBuffer_new z 0 = Inl InvalidCapacity"
  by (simp add: RingBuffer_new_def)

lemma window_after_write:
  assumes shape: "ring_shape st m" and av: "a + length src \<le> length st"
    and wr: "unat wr mod length st = (unat rd + a) mod length st"
    and len: "length st' = length st"
    and upd: "\<forall>i < length st. st' ! ((unat wr + i) mod length st) =
       (if i < length src then src ! i else st ! ((unat wr + i) mod length st))"
  shows "window st' rd (a + length src) = window st rd a @ src"
proof (rule nth_equalityI)
  fix j assume "j < length (window st' rd (a + length src))"
  then have j: "j < a + length src"
    by simp
  let ?L = "length st"
  show "window st' rd (a + length src) ! j = (window st rd a @ src) ! j"
  proof (cases "j < a")
    case True
    have "(unat wr + (?L - a + j)) mod ?L = (unat rd + a + (?L - a + j)) mod ?L"
      using wr by (metis mod_add_left_eq)
    also have "unat rd + a + (?L - a + j) = unat rd + j + ?L"
      using av by simp
    finally have "(unat wr + (?L - a + j)) mod ?L = (unat rd + j) mod ?L"
      by simp
    with True j av len upd [rule_format, of "?L - a + j"] show ?thesis
      by (auto simp: nth_append)
  next
    case False
    have "(unat wr + (j - a)) mod ?L = (unat rd + a + (j - a)) mod ?L"
      using wr by (metis mod_add_left_eq)
    with False have "(unat wr + (j - a)) mod ?L = (unat rd + j) mod ?L"
      by simp
    with False j av len upd [rule_format, of "j - a"] show ?thesis
      by (auto simp: nth_append)
  qed
qed simp

lemma RingBuffer_write_fits:
  assumes inv: "ring_inv r" and mem: "in_memory src"
    and fits: "length (ring_contents r) + length src \<le> length (storage r)"
  obtains r' where "RingBuffer_write r src = Some (True, r')" "ring_inv r'"
    "ring_contents r' = ring_contents r @ src" "length (storage r') = length (storage r)"
    "readIndex r' = readIndex r"
proof -
  let ?st = "storage r" and ?a = "unat (writeIndex r - readIndex r)"
  have shape: "ring_shape ?st (ring_mask r)" and a: "?a \<le> length ?st"
    using inv by (auto simp: ring_inv_def)
  have memst: "in_memory ?st"
    using shape by (rule ring_shape_in_memory)
  have fits': "?a + length src \<le> length ?st"
    using fits by (simp add: ring_contents_def)
  have guard: "\<not> size_of src > ring_capacity r - (writeIndex r - readIndex r)"
    using fits' a ring_capacity_unat [OF inv] mem
    by (simp add: word_less_nat_alt unat_size_of unat_sub word_le_nat_alt)
  have start: "unat (writeIndex r AND ring_mask r) = unat (writeIndex r) mod length ?st"
    using shape by (rule ring_shape_mask)
  then have lt: "unat (writeIndex r AND ring_mask r) < length ?st"
    using ring_shape_pos [OF shape] by simp
  obtain st' where st': "copy_in ?st (writeIndex r AND ring_mask r) src = Some st'"
    "length st' = length ?st"
    "\<forall>i < length ?st. st' ! ((unat (writeIndex r AND ring_mask r) + i) mod length ?st) =
       (if i < length src then src ! i
        else ?st ! ((unat (writeIndex r AND ring_mask r) + i) mod length ?st))"
    using copy_in_Some [OF memst mem _ lt] fits' by auto
  let ?r' = "r\<lparr>storage := st', writeIndex := writeIndex r + size_of src\<rparr>"
  have upd: "\<forall>i < length ?st. st' ! ((unat (writeIndex r) + i) mod length ?st) =
       (if i < length src then src ! i else ?st ! ((unat (writeIndex r) + i) mod length ?st))"
    using st'(3) by (simp add: start mod_simps)
  have wr: "unat (writeIndex r) mod length ?st = (unat (readIndex r) + ?a) mod length ?st"
    using ring_shape_add [OF shape, of "readIndex r" "writeIndex r - readIndex r"] by simp
  have "unat ((writeIndex r - readIndex r) + size_of src) = ?a + length src"
  proof -
    have "?a + length src < 2 ^ 64"
      using fits' memst by (simp add: in_memory_def)
    then show ?thesis
      using mem by (simp add: unat_word_ariths unat_size_of)
  qed
  then have len: "unat (writeIndex r + size_of src - readIndex r) = ?a + length src"
    by (simp add: algebra_simps)
  have "ring_contents ?r' = ring_contents r @ src"
    using window_after_write [OF shape fits' wr st'(2) upd] by (simp add: ring_contents_def len)
  moreover have "ring_inv ?r'"
    using shape fits' st'(2) by (simp add: ring_inv_def ring_shape_def len)
  ultimately show thesis
    using that guard st'(1,2) by (simp add: RingBuffer_write_def Let_def)
qed

lemma RingBuffer_write_full:
  assumes "ring_inv r" "in_memory src"
    and "length (storage r) < length (ring_contents r) + length src"
  shows "RingBuffer_write r src = Some (False, r)"
proof -
  have "size_of src > ring_capacity r - (writeIndex r - readIndex r)"
    using assms ring_capacity_unat [OF assms(1)] ring_contents_le [OF assms(1)]
    by (simp add: word_less_nat_alt unat_size_of unat_sub word_le_nat_alt ring_contents_def)
  then show ?thesis
    by (simp add: RingBuffer_write_def)
qed

lemma RingBuffer_peek_contents:
  assumes inv: "ring_inv r"
  shows "RingBuffer_peek r n off = Some (take (unat n) (drop (unat off) (ring_contents r)))"
proof (cases "off \<ge> writeIndex r - readIndex r")
  case True
  then show ?thesis
    by (simp add: RingBuffer_peek_def ring_contents_def word_le_nat_alt)
next
  case False
  let ?d = "writeIndex r - readIndex r"
  have shape: "ring_shape (storage r) (ring_mask r)" and le: "unat ?d \<le> length (storage r)"
    using inv by (auto simp: ring_inv_def)
  have off: "unat off < unat ?d" and sub: "unat (?d - off) = unat ?d - unat off"
    using False by (auto simp: word_le_nat_alt unat_sub)
  have cnt: "unat (min n (?d - off)) = min (unat n) (unat ?d - unat off)"
    by (simp add: unat_min sub)
  have "RingBuffer_peek r n off =
      Some (window (storage r) (readIndex r + off) (unat (min n (?d - off))))"
    using False copy_out_window [OF shape, of "min n (?d - off)" "readIndex r + off"] le
    by (simp add: RingBuffer_peek_def cnt Let_def)
  also have "window (storage r) (readIndex r + off) (unat (min n (?d - off))) =
      take (unat n) (window (storage r) (readIndex r + off) (unat ?d - unat off))"
    by (simp add: take_window cnt)
  also have "window (storage r) (readIndex r + off) (unat ?d - unat off) =
      drop (unat off) (ring_contents r)"
    using drop_window [OF shape, of off "unat ?d" "readIndex r"] off by (simp add: ring_contents_def)
  finally show ?thesis .
qed

lemma RingBuffer_discard_contents:
  assumes inv: "ring_inv r"
  shows "fst (RingBuffer_discard r c) = min c (availableToRead r)" (is ?A)
    and "ring_contents (snd (RingBuffer_discard r c)) = drop (unat c) (ring_contents r)" (is ?B)
    and "ring_inv (snd (RingBuffer_discard r c))" (is ?C)
    and "storage (snd (RingBuffer_discard r c)) = storage r" (is ?D)
proof -
  let ?d = "writeIndex r - readIndex r"
  let ?n = "min c ?d"
  have shape: "ring_shape (storage r) (ring_mask r)" and le: "unat ?d \<le> length (storage r)"
    using inv by (auto simp: ring_inv_def)
  have n: "unat ?n = min (unat c) (unat ?d)"
    by (simp add: unat_min)
  have d: "unat (writeIndex r - (readIndex r + ?n)) = unat ?d - unat ?n"
  proof -
    have "writeIndex r - (readIndex r + ?n) = ?d - ?n"
      by simp
    also have "unat (?d - ?n) = unat ?d - unat ?n"
      by (simp add: unat_sub)
    finally show ?thesis .
  qed
  have snd: "snd (RingBuffer_discard r c) = r\<lparr>readIndex := readIndex r + ?n\<rparr>"
    by (simp add: RingBuffer_discard_def Let_def)
  show ?A ?D
    by (simp_all add: RingBuffer_discard_def availableToRead_def Let_def)
  show ?C
    using shape le unfolding snd by (simp add: ring_inv_def d)
  have "ring_contents (snd (RingBuffer_discard r c)) =
      window (storage r) (readIndex r + ?n) (unat ?d - unat ?n)"
    unfolding snd by (simp add: ring_contents_def d)
  also have "\<dots> = drop (unat ?n) (ring_contents r)"
    using drop_window [OF shape, of ?n "unat ?d" "readIndex r"] n by (simp add: ring_contents_def)
  also have "\<dots> = drop (unat c) (ring_contents r)"
    unfolding n by (simp add: ring_contents_def min_def)
  finally show ?B .
qed

lemma RingBuffer_reset_contents:
  assumes "ring_inv r"
  shows "ring_inv (RingBuffer_reset r)" "ring_contents (RingBuffer_reset r) = []"
  using assms by (simp_all add: ring_inv_def RingBuffer_reset_def ring_contents_def window_def)

section \<open>The contract of a sample queue\<close>

text \<open>
  What the clients of the ring (the capture bus, the spectrum engines) rely on: an all-or-nothing
  bounded enqueue, a non-consuming look at any window, and a drop of a prefix, all described over
  the list of queued samples.  \<open>enq\<close> and \<open>look\<close> return \<open>None\<close> only on a memory error, which
  the contract excludes.
\<close>

locale sample_fifo =
  fixes enq :: "'q \<Rightarrow> 'a list \<Rightarrow> (bool \<times> 'q) option"
    and look :: "'q \<Rightarrow> size_t \<Rightarrow> size_t \<Rightarrow> 'a list option"
    and drp :: "'q \<Rightarrow> size_t \<Rightarrow> size_t \<times> 'q"
    and avail :: "'q \<Rightarrow> size_t"
    and room :: "'q \<Rightarrow> size_t"
    and cap :: "'q \<Rightarrow> nat"
    and contents :: "'q \<Rightarrow> 'a list"
    and invar :: "'q \<Rightarrow> bool"
  assumes enq_fits: "invar q \<Longrightarrow> in_memory xs \<Longrightarrow> length (contents q) + length xs \<le> cap q \<Longrightarrow>
      \<exists>q'. enq q xs = Some (True, q') \<and> invar q' \<and> contents q' = contents q @ xs \<and> cap q' = cap q"
    and enq_full: "invar q \<Longrightarrow> in_memory xs \<Longrightarrow> cap q < length (contents q) + length xs \<Longrightarrow>
      enq q xs = Some (False, q)"
    and look_contents: "invar q \<Longrightarrow> look q n off = Some (take (unat n) (drop (unat off) (contents q)))"
    and drp_contents: "invar q \<Longrightarrow> contents (snd (drp q n)) = drop (unat n) (contents q)"
    and drp_count: "invar q \<Longrightarrow> fst (drp q n) = min n (avail q)"
    and drp_invar: "invar q \<Longrightarrow> invar (snd (drp q n))"
    and drp_cap: "invar q \<Longrightarrow> cap (snd (drp q n)) = cap q"
    and avail_contents: "invar q \<Longrightarrow> unat (avail q) = length (contents q)"
    and room_contents: "invar q \<Longrightarrow> unat (room q) = cap q - length (contents q)"
    and contents_cap: "invar q \<Longrightarrow> length (contents q) \<le> cap q"
    and cap_in_memory: "invar q \<Longrightarrow> cap q < 2 ^ 64"
begin

lemma contents_in_memory: "invar q \<Longrightarrow> in_memory (contents q)"
  using contents_cap cap_in_memory by (fastforce simp: in_memory_def)

lemma look_prefix: "invar q \<Longrightarrow> look q n 0 = Some (take (unat n) (contents q))"
  by (simp add: look_contents)

lemma drp_all: "invar q \<Longrightarrow> contents (snd (drp q (avail q))) = []"
  by (simp add: drp_contents avail_contents)

lemma drp_all_count: "invar q \<Longrightarrow> unat (fst (drp q (avail q))) = length (contents q)"
  by (simp add: drp_count avail_contents)

end

lemma availableToWrite_room:
  assumes "ring_inv r"
  shows "unat (availableToWrite r) = length (storage r) - length (ring_contents r)"
proof -
  have "availableToRead r \<le> ring_capacity r"
    using assms by (simp add: word_le_nat_alt ring_capacity_unat ring_inv_avail ring_contents_le)
  then show ?thesis
    using assms by (simp add: availableToWrite_def unat_sub ring_capacity_unat ring_inv_avail)
qed

interpretation ring: sample_fifo RingBuffer_write RingBuffer_peek RingBuffer_discard
  availableToRead availableToWrite "\<lambda>r. length (storage r)" ring_contents ring_inv
proof (unfold_locales, goal_cases)
  case (1 q xs)
  then obtain q' where "RingBuffer_write q xs = Some (True, q')" "ring_inv q'"
    "ring_contents q' = ring_contents q @ xs" "length (storage q') = length (storage q)"
    by (rule RingBuffer_write_fits)
  then show ?case
    by blast
next
  case (11 q)
  then show ?case
    using ring_shape_in_memory by (auto simp: ring_inv_def in_memory_def)
qed (simp_all add: RingBuffer_write_full RingBuffer_peek_contents RingBuffer_discard_contents
    ring_inv_avail availableToWrite_room ring_contents_le)

text \<open>\<^verbatim>\<open>read\<close> is \<^verbatim>\<open>peek\<close> then \<^verbatim>\<open>discard\<close> of what was copied.\<close>

lemma RingBuffer_read_contents:
  assumes "ring_inv r"
  obtains r' where "RingBuffer_read r n = Some (take (unat n) (ring_contents r), r')"
    "ring_inv r'" "ring_contents r' = drop (unat n) (ring_contents r)"
proof -
  let ?xs = "take (unat n) (ring_contents r)"
  have "unat (size_of ?xs) = length ?xs"
    using ring.contents_in_memory [OF assms] by (intro unat_size_of) simp
  then have "drop (unat (size_of ?xs)) (ring_contents r) = drop (unat n) (ring_contents r)"
    by (simp add: min_def)
  then show thesis
    using that assms
    by (simp add: RingBuffer_read_def RingBuffer_peek_contents RingBuffer_discard_contents)
qed

section \<open>Properties\<close>

text \<open>
  Property C6: \<^verbatim>\<open>RingBuffer::write\<close> is all-or-nothing and memory-safe.  On a well-formed ring it never
  leaves the storage; it succeeds exactly when the block fits in the free space, and then appends the
  whole block to the queue; otherwise it returns false and changes nothing.  This holds across the
  wrap-around of the 64-bit indices.
\<close>

theorem RingBuffer_write_all_or_nothing:
  assumes "ring_inv r" "in_memory src"
  shows "\<exists>r'. RingBuffer_write r src =
        Some (length (ring_contents r) + length src \<le> length (storage r), r') \<and> ring_inv r' \<and>
      length (storage r') = length (storage r) \<and>
      (if length (ring_contents r) + length src \<le> length (storage r)
       then ring_contents r' = ring_contents r @ src else r' = r)"
proof (cases "length (ring_contents r) + length src \<le> length (storage r)")
  case True
  then show ?thesis
    using ring.enq_fits [OF assms] by auto
next
  case False
  then show ?thesis
    using RingBuffer_write_full [OF assms] assms(1) by simp
qed

text \<open>A ring whose write index has wrapped past \<open>2 ^ 64\<close> while its read index has not.\<close>

definition wrapped_ring :: "nat ring" where
  "wrapped_ring = \<lparr>storage = [10, 20, 30, 40], ring_mask = 3, writeIndex = 1, readIndex = 0xFFFFFFFFFFFFFFFF\<rparr>"

lemma wrapped_ring_inv: "ring_inv wrapped_ring"
proof -
  have "ring_shape [10, 20, 30, 40 :: nat] 3"
    unfolding ring_shape_def by (rule exI [of _ 2]) simp
  then show ?thesis
    by (simp add: ring_inv_def wrapped_ring_def)
qed

lemma wrapped_ring_contents: "ring_contents wrapped_ring = [40, 10]"
  by (simp add: ring_contents_def wrapped_ring_def window_def upt_rec)

lemma wrapped_ring_size: "length (storage wrapped_ring) = 4"
  by (simp add: wrapped_ring_def)

theorem RingBuffer_write_all_or_nothing_witness:
  "\<exists>r'. RingBuffer_write wrapped_ring [50, 60] = Some (True, r') \<and> ring_contents r' = [40, 10, 50, 60]"
proof -
  have "in_memory [50, 60 :: nat]"
    by (simp add: in_memory_def)
  then show ?thesis
    using RingBuffer_write_all_or_nothing [OF wrapped_ring_inv, of "[50, 60]"]
    by (auto simp: wrapped_ring_contents wrapped_ring_size)
qed

text \<open>
  The overlapping-block protocol of the consumer.  \<^verbatim>\<open>peek(dst, offset)\<close> copies exactly the
  queued samples from \<open>offset\<close> on, as many as the destination holds, and consumes nothing;
  \<^verbatim>\<open>discard(count)\<close> drops exactly that prefix, reports how many samples it dropped, and leaves every
  later sample in place.
\<close>

theorem RingBuffer_peek_discard:
  assumes "ring_inv r"
  shows "RingBuffer_peek r n off = Some (take (unat n) (drop (unat off) (ring_contents r))) \<and>
    ring_contents (snd (RingBuffer_discard r c)) = drop (unat c) (ring_contents r) \<and>
    unat (fst (RingBuffer_discard r c)) = min (unat c) (length (ring_contents r)) \<and>
    ring_inv (snd (RingBuffer_discard r c))"
  using assms
  by (simp add: RingBuffer_peek_contents RingBuffer_discard_contents unat_min ring_inv_avail)

theorem RingBuffer_peek_discard_witness:
  "RingBuffer_peek wrapped_ring 4 1 = Some [10] \<and>
   ring_contents (snd (RingBuffer_discard wrapped_ring 1)) = [10]"
  using RingBuffer_peek_discard [OF wrapped_ring_inv, of 4 1 1] by (simp add: wrapped_ring_contents)

end
