(* ===== verification/Ring_Concurrent.thy ===== *)
theory Ring_Concurrent
  imports Ring_Buffer
begin

text \<open>
  The ring of \<^verbatim>\<open>RingBuffer.h\<close> shared by its two threads.  Every atomic load, every atomic store and
  every copied element of \<^verbatim>\<open>write\<close>, \<^verbatim>\<open>peek\<close> and \<^verbatim>\<open>discard\<close> is one step, and the two threads
  interleave freely.  The release/acquire pairs of the class are modelled as atomic reads and writes
  of one shared memory.  The ghost lists \<open>s_sent\<close> and \<open>s_recvd\<close> record what has been
  published by a completed \<^verbatim>\<open>write\<close> and what has been dropped by a completed \<^verbatim>\<open>discard\<close>.
\<close>

section \<open>Threads and steps\<close>

datatype 'a producer =
    PIdle
  | PLoaded "'a list" uint64_t \<comment> \<open>\<^verbatim>\<open>write\<close> has loaded its own index\<close>
  | PCopy "'a list" uint64_t nat \<comment> \<open>space was checked; \<open>k\<close> elements are copied\<close>

datatype 'a consumer =
    CIdle
  | CPeekLoaded size_t size_t uint64_t \<comment> \<open>\<^verbatim>\<open>peek(dst, offset)\<close> has loaded its own index\<close>
  | CPeekCopy size_t size_t uint64_t "'a list" \<comment> \<open>\<open>count\<close> is fixed; the elements copied so far\<close>
  | CDiscLoaded size_t uint64_t
  | CDiscReady size_t uint64_t

record 'a spsc =
  s_ring :: "'a ring"
  s_prod :: "'a producer"
  s_cons :: "'a consumer"
  s_sent :: "'a list"
  s_recvd :: "'a list"

definition cell :: "'a ring \<Rightarrow> uint64_t \<Rightarrow> nat" where
  "cell r i = unat (i AND ring_mask r)"

inductive spsc_step :: "'a spsc \<Rightarrow> 'a spsc \<Rightarrow> bool" where
  p_start: "s_prod s = PIdle \<Longrightarrow> in_memory src \<Longrightarrow>
     spsc_step s (s\<lparr>s_prod := PLoaded src (writeIndex (s_ring s))\<rparr>)"
| p_refuse: "s_prod s = PLoaded src wr \<Longrightarrow>
     size_of src > ring_capacity (s_ring s) - (wr - readIndex (s_ring s)) \<Longrightarrow>
     spsc_step s (s\<lparr>s_prod := PIdle\<rparr>)"
| p_accept: "s_prod s = PLoaded src wr \<Longrightarrow>
     \<not> size_of src > ring_capacity (s_ring s) - (wr - readIndex (s_ring s)) \<Longrightarrow>
     spsc_step s (s\<lparr>s_prod := PCopy src wr 0\<rparr>)"
| p_cell: "s_prod s = PCopy src wr k \<Longrightarrow> k < length src \<Longrightarrow>
     spsc_step s (s\<lparr>s_prod := PCopy src wr (Suc k),
       s_ring := (s_ring s)\<lparr>storage :=
         (storage (s_ring s))[cell (s_ring s) (wr + word_of_nat k) := src ! k]\<rparr>\<rparr>)"
| p_publish: "s_prod s = PCopy src wr (length src) \<Longrightarrow>
     spsc_step s (s\<lparr>s_prod := PIdle, s_sent := s_sent s @ src,
       s_ring := (s_ring s)\<lparr>writeIndex := wr + size_of src\<rparr>\<rparr>)"
| c_peek: "s_cons s = CIdle \<Longrightarrow>
     spsc_step s (s\<lparr>s_cons := CPeekLoaded n off (readIndex (s_ring s))\<rparr>)"
| c_empty: "s_cons s = CPeekLoaded n off rd \<Longrightarrow> off \<ge> writeIndex (s_ring s) - rd \<Longrightarrow>
     spsc_step s (s\<lparr>s_cons := CIdle\<rparr>)"
| c_snap: "s_cons s = CPeekLoaded n off rd \<Longrightarrow> \<not> off \<ge> writeIndex (s_ring s) - rd \<Longrightarrow>
     spsc_step s (s\<lparr>s_cons := CPeekCopy (min n (writeIndex (s_ring s) - rd - off)) off rd []\<rparr>)"
| c_cell: "s_cons s = CPeekCopy c off rd acc \<Longrightarrow> length acc < unat c \<Longrightarrow>
     spsc_step s (s\<lparr>s_cons := CPeekCopy c off rd
       (acc @ [storage (s_ring s) ! cell (s_ring s) (rd + off + word_of_nat (length acc))])\<rparr>)"
| c_done: "s_cons s = CPeekCopy c off rd acc \<Longrightarrow> length acc = unat c \<Longrightarrow>
     spsc_step s (s\<lparr>s_cons := CIdle\<rparr>)"
| c_discard: "s_cons s = CIdle \<Longrightarrow>
     spsc_step s (s\<lparr>s_cons := CDiscLoaded n (readIndex (s_ring s))\<rparr>)"
| c_count: "s_cons s = CDiscLoaded n rd \<Longrightarrow>
     spsc_step s (s\<lparr>s_cons := CDiscReady (min n (writeIndex (s_ring s) - rd)) rd\<rparr>)"
| c_drop: "s_cons s = CDiscReady n rd \<Longrightarrow>
     spsc_step s (s\<lparr>s_cons := CIdle, s_recvd := s_recvd s @ take (unat n) (ring_contents (s_ring s)),
       s_ring := (s_ring s)\<lparr>readIndex := rd + n\<rparr>\<rparr>)"

definition spsc_init :: "'a ring \<Rightarrow> 'a spsc" where
  "spsc_init r = \<lparr>s_ring = r, s_prod = PIdle, s_cons = CIdle, s_sent = [], s_recvd = []\<rparr>"

inductive spsc_reachable :: "'a ring \<Rightarrow> 'a spsc \<Rightarrow> bool" for r where
  start: "spsc_reachable r (spsc_init r)"
| step: "spsc_reachable r s \<Longrightarrow> spsc_step s t \<Longrightarrow> spsc_reachable r t"

section \<open>The invariant of the two threads\<close>

fun producer_ok :: "'a ring \<Rightarrow> 'a producer \<Rightarrow> bool" where
  "producer_ok r PIdle = True"
| "producer_ok r (PLoaded src wr) \<longleftrightarrow> in_memory src \<and> wr = writeIndex r"
| "producer_ok r (PCopy src wr k) \<longleftrightarrow> in_memory src \<and> wr = writeIndex r \<and> k \<le> length src \<and>
     length (ring_contents r) + length src \<le> length (storage r) \<and>
     (\<forall>j < k. storage r ! ((unat wr + j) mod length (storage r)) = src ! j)"

fun consumer_ok :: "'a ring \<Rightarrow> 'a consumer \<Rightarrow> bool" where
  "consumer_ok r CIdle = True"
| "consumer_ok r (CPeekLoaded n off rd) \<longleftrightarrow> rd = readIndex r"
| "consumer_ok r (CPeekCopy c off rd acc) \<longleftrightarrow> rd = readIndex r \<and> length acc \<le> unat c \<and>
     unat off + unat c \<le> length (ring_contents r) \<and>
     acc = take (length acc) (drop (unat off) (ring_contents r))"
| "consumer_ok r (CDiscLoaded n rd) \<longleftrightarrow> rd = readIndex r"
| "consumer_ok r (CDiscReady n rd) \<longleftrightarrow> rd = readIndex r \<and> unat n \<le> length (ring_contents r)"

definition spsc_inv :: "'a spsc \<Rightarrow> bool" where
  "spsc_inv s \<longleftrightarrow> ring_inv (s_ring s) \<and> s_sent s = s_recvd s @ ring_contents (s_ring s) \<and>
     producer_ok (s_ring s) (s_prod s) \<and> consumer_ok (s_ring s) (s_cons s)"

lemma ring_inv_shape: "ring_inv r \<Longrightarrow> ring_shape (storage r) (ring_mask r)"
  by (simp add: ring_inv_def)

lemma cell_offset:
  assumes "ring_inv r" "k < 2 ^ 64"
  shows "cell r (i + word_of_nat k) = (unat i + k) mod length (storage r)"
  using assms ring_inv_shape [OF assms(1)]
  by (simp add: cell_def ring_shape_mask ring_shape_add unat_of_nat)

lemma write_index_mod:
  assumes "ring_inv r"
  shows "(unat (writeIndex r) + k) mod length (storage r) =
    (unat (readIndex r) + length (ring_contents r) + k) mod length (storage r)"
proof (rule mod_add_cong [OF _ refl])
  show "unat (writeIndex r) mod length (storage r) =
      (unat (readIndex r) + length (ring_contents r)) mod length (storage r)"
    using ring_shape_add [OF ring_inv_shape [OF assms], of "readIndex r" "writeIndex r - readIndex r"]
    by (simp add: ring_contents_def)
qed

text \<open>Two offsets less than one capacity apart fall on different cells.\<close>

lemma cells_differ:
  fixes x i j L :: nat
  assumes "i < j" "j < L"
  shows "(x + i) mod L \<noteq> (x + j) mod L"
proof
  assume "(x + i) mod L = (x + j) mod L"
  then have "L dvd (x + j) - (x + i)"
    by (metis mod_eq_dvd_iff_nat add_le_mono1 add.commute assms(1) less_imp_le)
  with assms show False
    by (simp add: nat_dvd_not_less)
qed

lemma cell_write_keeps:
  assumes inv: "ring_inv r" and k: "length (ring_contents r) + k < length (storage r)"
  defines "c \<equiv> (unat (writeIndex r) + k) mod length (storage r)"
  shows "ring_contents (r\<lparr>storage := (storage r)[c := x]\<rparr>) = ring_contents r"
    and "ring_inv (r\<lparr>storage := (storage r)[c := x]\<rparr>)"
proof -
  let ?L = "length (storage r)"
  show "ring_inv (r\<lparr>storage := (storage r)[c := x]\<rparr>)"
    using inv by (auto simp: ring_inv_def ring_shape_def)
  have c: "c = (unat (readIndex r) + (length (ring_contents r) + k)) mod ?L"
    unfolding c_def using write_index_mod [OF inv, of k] by (simp add: add.assoc)
  have "(storage r)[c := x] ! ((unat (readIndex r) + j) mod ?L) =
      storage r ! ((unat (readIndex r) + j) mod ?L)" if "j < length (ring_contents r)" for j
    using cells_differ [of j "length (ring_contents r) + k" ?L "unat (readIndex r)"] that k
    by (simp add: c)
  then show "ring_contents (r\<lparr>storage := (storage r)[c := x]\<rparr>) = ring_contents r"
    by (simp add: ring_contents_def window_def)
qed

lemma p_cell_inv:
  assumes "spsc_inv s" "s_prod s = PCopy src wr k" "k < length src"
  shows "spsc_inv (s\<lparr>s_prod := PCopy src wr (Suc k),
       s_ring := (s_ring s)\<lparr>storage :=
         (storage (s_ring s))[cell (s_ring s) (wr + word_of_nat k) := src ! k]\<rparr>\<rparr>)"
proof -
  let ?r = "s_ring s" let ?L = "length (storage ?r)"
  have inv: "ring_inv ?r" and p: "in_memory src" "wr = writeIndex ?r"
      "length (ring_contents ?r) + length src \<le> ?L"
      "\<forall>j < k. storage ?r ! ((unat wr + j) mod ?L) = src ! j"
    using assms by (auto simp: spsc_inv_def)
  have c: "cell ?r (wr + word_of_nat k) = (unat wr + k) mod ?L"
    using inv p(1) assms(3) by (intro cell_offset) (simp_all add: in_memory_def)
  let ?r' = "?r\<lparr>storage := (storage ?r)[(unat wr + k) mod ?L := src ! k]\<rparr>"
  have keeps: "ring_contents ?r' = ring_contents ?r" "ring_inv ?r'"
    using cell_write_keeps [OF inv, of k "src ! k"] p(2,3) assms(3) by auto
  have pos: "0 < ?L"
    using p(3) assms(3) by linarith
  have "storage ?r' ! ((unat wr + j) mod ?L) = src ! j" if "j < Suc k" for j
  proof (cases "j = k")
    case True
    then show ?thesis using pos by simp
  next
    case False
    then show ?thesis
      using that p(3,4) assms(3) cells_differ [of j k ?L "unat wr"] by auto
  qed
  then have "producer_ok ?r' (PCopy src wr (Suc k))"
    using p assms(3) keeps by simp
  moreover have "consumer_ok ?r' (s_cons s)"
    using assms(1) keeps(1) by (cases "s_cons s") (simp_all add: spsc_inv_def)
  ultimately show ?thesis
    using assms(1) keeps unfolding spsc_inv_def c by auto
qed

lemma consumer_ok_grow:
  assumes "consumer_ok r c" "ring_contents r' = ring_contents r @ xs" "readIndex r' = readIndex r"
  shows "consumer_ok r' c"
  using assms by (cases c) auto

lemma publish_contents:
  assumes inv: "ring_inv r" and mem: "in_memory src"
    and fits: "length (ring_contents r) + length src \<le> length (storage r)"
    and cells: "\<forall>j < length src. storage r ! ((unat (writeIndex r) + j) mod length (storage r)) = src ! j"
  shows "ring_contents (r\<lparr>writeIndex := writeIndex r + size_of src\<rparr>) = ring_contents r @ src" (is ?C)
    and "ring_inv (r\<lparr>writeIndex := writeIndex r + size_of src\<rparr>)" (is ?I)
proof -
  define d where "d = writeIndex r - readIndex r"
  have fits': "unat d + length src \<le> length (storage r)"
    using fits by (simp add: ring_contents_def d_def)
  have "writeIndex r + size_of src - readIndex r = d + size_of src"
    by (simp add: d_def algebra_simps)
  moreover have "unat (d + size_of src) = unat d + length src"
    using mem fits' ring.cap_in_memory [OF inv] by (simp add: unat_word_ariths unat_size_of)
  ultimately have len: "unat (writeIndex r + size_of src - readIndex r) = unat d + length src"
    by (simp only:)
  have "unat (writeIndex r) mod length (storage r) = (unat (readIndex r) + unat d) mod length (storage r)"
    using ring_shape_add [OF ring_inv_shape [OF inv], of "readIndex r" d] by (simp add: d_def)
  then have "window (storage r) (readIndex r) (unat d + length src) =
      window (storage r) (readIndex r) (unat d) @ src"
    using cells fits'
    by (intro window_after_write [OF ring_inv_shape [OF inv], where wr = "writeIndex r"]) simp_all
  then show ?C
    by (simp add: ring_contents_def len d_def)
  show ?I
    using inv fits' by (simp add: ring_inv_def len)
qed

lemma p_publish_inv:
  assumes "spsc_inv s" "s_prod s = PCopy src wr (length src)"
  shows "spsc_inv (s\<lparr>s_prod := PIdle, s_sent := s_sent s @ src,
       s_ring := (s_ring s)\<lparr>writeIndex := wr + size_of src\<rparr>\<rparr>)"
proof -
  let ?r = "s_ring s" let ?r' = "?r\<lparr>writeIndex := wr + size_of src\<rparr>"
  have inv: "ring_inv ?r" and p: "wr = writeIndex ?r" "in_memory src"
      "length (ring_contents ?r) + length src \<le> length (storage ?r)"
      "\<forall>j < length src. storage ?r ! ((unat wr + j) mod length (storage ?r)) = src ! j"
    using assms by (auto simp: spsc_inv_def)
  have r': "ring_contents ?r' = ring_contents ?r @ src" "ring_inv ?r'"
    unfolding p(1) by (rule publish_contents [OF inv p(2,3) p(4) [unfolded p(1)]])+
  moreover have "consumer_ok ?r' (s_cons s)"
    using assms(1) consumer_ok_grow [OF _ r'(1)] by (simp add: spsc_inv_def)
  ultimately show ?thesis
    using assms(1) by (simp add: spsc_inv_def)
qed

lemma p_accept_inv:
  assumes "spsc_inv s" "s_prod s = PLoaded src wr"
    and guard: "\<not> size_of src > ring_capacity (s_ring s) - (wr - readIndex (s_ring s))"
  shows "spsc_inv (s\<lparr>s_prod := PCopy src wr 0\<rparr>)"
proof -
  let ?r = "s_ring s"
  have inv: "ring_inv ?r" and p: "in_memory src" "wr = writeIndex ?r"
    using assms by (auto simp: spsc_inv_def)
  have "availableToWrite ?r = ring_capacity ?r - (wr - readIndex ?r)"
    by (simp add: availableToWrite_def availableToRead_def p(2))
  with guard have "length src \<le> length (storage ?r) - length (ring_contents ?r)"
    using availableToWrite_room [OF inv] p(1) by (simp add: word_less_nat_alt unat_size_of)
  then show ?thesis
    using assms(1) p ring_contents_le [OF inv] by (simp add: spsc_inv_def)
qed

lemma c_snap_inv:
  assumes "spsc_inv s" "s_cons s = CPeekLoaded n off rd"
    and "\<not> off \<ge> writeIndex (s_ring s) - rd"
  shows "spsc_inv (s\<lparr>s_cons := CPeekCopy (min n (writeIndex (s_ring s) - rd - off)) off rd []\<rparr>)"
proof -
  let ?d = "writeIndex (s_ring s) - rd"
  have rd: "rd = readIndex (s_ring s)"
    using assms by (simp add: spsc_inv_def)
  have "unat (?d - off) = unat ?d - unat off" "unat off < unat ?d"
    using assms(3) by (simp_all add: word_le_nat_alt unat_sub)
  then have "unat off + unat (min n (?d - off)) \<le> unat ?d"
    by (simp add: unat_min)
  then show ?thesis
    using assms(1) rd by (simp add: spsc_inv_def ring_contents_def)
qed

lemma c_cell_inv:
  assumes "spsc_inv s" "s_cons s = CPeekCopy c off rd acc" "length acc < unat c"
  shows "spsc_inv (s\<lparr>s_cons := CPeekCopy c off rd
       (acc @ [storage (s_ring s) ! cell (s_ring s) (rd + off + word_of_nat (length acc))])\<rparr>)"
proof -
  let ?r = "s_ring s" and ?l = "length acc"
  have inv: "ring_inv ?r" and c: "rd = readIndex ?r" "unat off + unat c \<le> length (ring_contents ?r)"
      "acc = take ?l (drop (unat off) (ring_contents ?r))"
    using assms by (auto simp: spsc_inv_def)
  have "?l < 2 ^ 64"
    using assms(3) unat_size_bound [of c] by simp
  then have "cell ?r (rd + off + word_of_nat ?l) = (unat (rd + off) + ?l) mod length (storage ?r)"
    by (rule cell_offset [OF inv])
  also have "\<dots> = (unat rd + unat off + ?l) mod length (storage ?r)"
    by (rule mod_add_cong [OF ring_shape_add [OF ring_inv_shape [OF inv]] refl])
  finally have "cell ?r (rd + off + word_of_nat ?l) = (unat rd + (unat off + ?l)) mod length (storage ?r)"
    by (simp only: add.assoc)
  then have "storage ?r ! cell ?r (rd + off + word_of_nat ?l) = ring_contents ?r ! (unat off + ?l)"
    using c(1,2) assms(3) by (simp add: ring_contents_def)
  then have "acc @ [storage ?r ! cell ?r (rd + off + word_of_nat ?l)] =
      take (Suc ?l) (drop (unat off) (ring_contents ?r))"
    using c(2,3) assms(3) by (simp add: take_Suc_conv_app_nth)
  then show ?thesis
    using assms c by (simp add: spsc_inv_def)
qed

lemma c_drop_inv:
  assumes "spsc_inv s" "s_cons s = CDiscReady n rd"
  shows "spsc_inv (s\<lparr>s_cons := CIdle, s_recvd := s_recvd s @ take (unat n) (ring_contents (s_ring s)),
       s_ring := (s_ring s)\<lparr>readIndex := rd + n\<rparr>\<rparr>)"
proof -
  let ?r = "s_ring s"
  have inv: "ring_inv ?r" and c: "rd = readIndex ?r" "unat n \<le> length (ring_contents ?r)"
    using assms by (auto simp: spsc_inv_def)
  have "min n (writeIndex ?r - readIndex ?r) = n"
    using c(2) by (simp add: min_def word_le_nat_alt ring_contents_def)
  then have r': "snd (RingBuffer_discard ?r n) = ?r\<lparr>readIndex := rd + n\<rparr>"
    by (simp add: RingBuffer_discard_def Let_def c(1))
  note d = RingBuffer_discard_contents [OF inv, of n, unfolded r']
  have "producer_ok (?r\<lparr>readIndex := rd + n\<rparr>) (s_prod s)"
    using assms(1) d(2) by (cases "s_prod s") (auto simp: spsc_inv_def)
  then show ?thesis
    using assms(1) d by (simp add: spsc_inv_def)
qed

lemma spsc_step_inv:
  assumes "spsc_step s t" "spsc_inv s"
  shows "spsc_inv t"
  using assms(1)
proof cases
  case p_accept
  then show ?thesis using assms(2) by (blast intro: p_accept_inv)
next
  case p_cell
  then show ?thesis using assms(2) by (blast intro: p_cell_inv)
next
  case p_publish
  then show ?thesis using assms(2) by (blast intro: p_publish_inv)
next
  case c_snap
  then show ?thesis using assms(2) by (blast intro: c_snap_inv)
next
  case c_cell
  then show ?thesis using assms(2) by (blast intro: c_cell_inv)
next
  case c_drop
  then show ?thesis using assms(2) by (blast intro: c_drop_inv)
next
  case (c_count n rd)
  have "unat (min n (writeIndex (s_ring s) - readIndex (s_ring s))) \<le> length (ring_contents (s_ring s))"
    by (simp add: ring_contents_def unat_min)
  then show ?thesis
    using assms(2) c_count by (simp add: spsc_inv_def)
qed (use assms(2) in \<open>simp_all add: spsc_inv_def\<close>)

lemma spsc_reachable_inv:
  assumes "spsc_reachable r s" "ring_inv r" "ring_contents r = []"
  shows "spsc_inv s"
  using assms
proof (induction rule: spsc_reachable.induct)
  case start
  then show ?case by (simp add: spsc_inv_def spsc_init_def)
next
  case (step s t)
  then show ?case by (blast intro: spsc_step_inv)
qed

section \<open>Properties of every interleaving\<close>

text \<open>
  Property C7: whatever the interleaving of the two threads, the samples published by the producer
  are exactly those already dropped by the consumer followed by the current contents of the ring, in
  order and without loss or duplication; and every element a running \<^verbatim>\<open>peek\<close> has copied is the
  element at that position of the queue, never a torn or overwritten one.
\<close>

theorem spsc_fifo:
  assumes "spsc_reachable r s" "ring_inv r" "ring_contents r = []"
  shows "ring_inv (s_ring s) \<and> s_sent s = s_recvd s @ ring_contents (s_ring s) \<and>
    (\<forall>c off rd acc. s_cons s = CPeekCopy c off rd acc \<longrightarrow>
       acc = take (length acc) (drop (unat off) (ring_contents (s_ring s))) \<and>
       unat off + unat c \<le> length (ring_contents (s_ring s)))"
  using spsc_reachable_inv [OF assms] by (auto simp: spsc_inv_def)

text \<open>
  Property C12: no data race on the storage.  In every reachable state in which the producer is about
  to store an element and the consumer is about to load one, the two touch different cells, and both
  cells are inside the storage.
\<close>

theorem spsc_no_data_race:
  assumes "spsc_reachable r s" "ring_inv r" "ring_contents r = []"
    and prod: "s_prod s = PCopy src wr k" "k < length src"
    and cons: "s_cons s = CPeekCopy c off rd acc" "length acc < unat c"
  shows "cell (s_ring s) (wr + word_of_nat k) \<noteq> cell (s_ring s) (rd + off + word_of_nat (length acc)) \<and>
    cell (s_ring s) (wr + word_of_nat k) < length (storage (s_ring s)) \<and>
    cell (s_ring s) (rd + off + word_of_nat (length acc)) < length (storage (s_ring s))"
proof -
  let ?r = "s_ring s" let ?L = "length (storage ?r)" and ?a = "length (ring_contents ?r)"
  have J: "spsc_inv s"
    using assms(1-3) by (rule spsc_reachable_inv)
  have inv: "ring_inv ?r" and p: "in_memory src" "wr = writeIndex ?r" "?a + length src \<le> ?L"
    and q: "rd = readIndex ?r" "unat off + unat c \<le> ?a"
    using J prod cons by (auto simp: spsc_inv_def)
  have len: "length acc < 2 ^ 64" "k < 2 ^ 64"
    using cons(2) unat_size_bound [of c] p(1) prod(2) by (simp_all add: in_memory_def)
  have w: "cell ?r (wr + word_of_nat k) = (unat rd + (?a + k)) mod ?L"
    using cell_offset [OF inv len(2), of wr] write_index_mod [OF inv, of k]
    by (simp add: p(2) q(1) add.assoc)
  have x: "cell ?r (rd + off + word_of_nat (length acc)) = (unat rd + (unat off + length acc)) mod ?L"
    using cell_offset [OF inv len(1), of "rd + off"]
      mod_add_cong [OF ring_shape_add [OF ring_inv_shape [OF inv], of rd off] refl, of "length acc"]
    by (simp add: add.assoc)
  have "0 < ?L" "unat off + length acc < ?a + k" "?a + k < ?L"
    using p(3) q(2) prod(2) cons(2) by linarith+
  then show ?thesis
    using cells_differ [of "unat off + length acc" "?a + k" ?L "unat rd"]
    unfolding w x by (simp add: eq_commute)
qed

section \<open>A concrete run\<close>

text \<open>
  A two-element ring in which one sample has been published, a second \<^verbatim>\<open>write\<close> is about to copy and
  a \<^verbatim>\<open>peek\<close> is about to read: the states the two properties above speak about do occur.
\<close>

definition two_ring :: "nat ring" where
  "two_ring = \<lparr>storage = [0, 0], ring_mask = 1, writeIndex = 0, readIndex = 0\<rparr>"

lemma two_ring_inv: "ring_inv two_ring" "ring_contents two_ring = []"
proof -
  have "ring_shape [0 :: nat, 0] 1"
    unfolding ring_shape_def by (rule exI [of _ 1]) simp
  then show "ring_inv two_ring"
    by (simp add: ring_inv_def two_ring_def)
  show "ring_contents two_ring = []"
    by (simp add: ring_contents_def two_ring_def window_def)
qed

definition two_ring_busy :: "nat spsc" where
  "two_ring_busy =
     \<lparr>s_ring = \<lparr>storage = [7, 0], ring_mask = 1, writeIndex = 1, readIndex = 0\<rparr>,
      s_prod = PCopy [8] 1 0, s_cons = CPeekCopy 1 0 0 [], s_sent = [7], s_recvd = []\<rparr>"

lemma two_ring_busy_reachable: "spsc_reachable two_ring two_ring_busy"
proof -
  let ?R = "spsc_reachable two_ring"
  note go = spsc_reachable.step
  have "?R (spsc_init two_ring)"
    by (rule spsc_reachable.start)
  then have "?R ((spsc_init two_ring)\<lparr>s_prod := PLoaded [7] 0\<rparr>)" (is "spsc_reachable _ ?s1")
    by (rule go) (use p_start [of "spsc_init two_ring" "[7]"] in
        \<open>simp add: spsc_init_def two_ring_def in_memory_def\<close>)
  then have "?R (?s1\<lparr>s_prod := PCopy [7] 0 0\<rparr>)" (is "spsc_reachable _ ?s2")
    by (rule go) (use p_accept [of ?s1 "[7]" 0] in
        \<open>simp add: spsc_init_def two_ring_def size_of_def ring_capacity_def\<close>)
  then have "?R (?s2\<lparr>s_prod := PCopy [7] 0 1, s_ring := two_ring\<lparr>storage := [7, 0]\<rparr>\<rparr>)" (is "spsc_reachable _ ?s3")
    by (rule go) (use p_cell [of ?s2 "[7]" 0 0] in
        \<open>simp add: spsc_init_def two_ring_def cell_def\<close>)
  then have "?R (?s3\<lparr>s_prod := PIdle, s_sent := [7],
      s_ring := two_ring\<lparr>storage := [7, 0], writeIndex := 1\<rparr>\<rparr>)" (is "spsc_reachable _ ?s4")
    by (rule go) (use p_publish [of ?s3 "[7]" 0] in
        \<open>simp add: spsc_init_def two_ring_def size_of_def\<close>)
  then have "?R (?s4\<lparr>s_prod := PLoaded [8] 1\<rparr>)" (is "spsc_reachable _ ?s5")
    by (rule go) (use p_start [of ?s4 "[8]"] in
        \<open>simp add: spsc_init_def two_ring_def in_memory_def\<close>)
  then have "?R (?s5\<lparr>s_prod := PCopy [8] 1 0\<rparr>)" (is "spsc_reachable _ ?s6")
    by (rule go) (use p_accept [of ?s5 "[8]" 1] in
        \<open>simp add: spsc_init_def two_ring_def size_of_def ring_capacity_def\<close>)
  then have "?R (?s6\<lparr>s_cons := CPeekLoaded 1 0 0\<rparr>)" (is "spsc_reachable _ ?s7")
    by (rule go) (use c_peek [of ?s6 1 0] in \<open>simp add: spsc_init_def two_ring_def\<close>)
  then have "?R (?s7\<lparr>s_cons := CPeekCopy 1 0 0 []\<rparr>)" (is "spsc_reachable _ ?s8")
    by (rule go) (use c_snap [of ?s7 1 0 0] in \<open>simp add: spsc_init_def two_ring_def\<close>)
  moreover have "?s8 = two_ring_busy"
    by (simp add: two_ring_busy_def spsc_init_def two_ring_def)
  ultimately show ?thesis
    by simp
qed

theorem spsc_fifo_witness:
  "spsc_reachable two_ring two_ring_busy \<and> ring_contents (s_ring two_ring_busy) = [7]"
  using spsc_fifo [OF two_ring_busy_reachable two_ring_inv] two_ring_busy_reachable
  by (simp add: two_ring_busy_def)

theorem spsc_no_data_race_witness:
  "spsc_reachable two_ring two_ring_busy \<and> cell (s_ring two_ring_busy) 1 \<noteq> cell (s_ring two_ring_busy) 0"
  using spsc_no_data_race [OF two_ring_busy_reachable two_ring_inv, of "[8]" 1 0 1 0 0 "[]"]
    two_ring_busy_reachable
  by (simp add: two_ring_busy_def)

end
