(* ===== verification/Doubles.thy ===== *)
theory Doubles
  imports Complex_Main
begin

text \<open>
  The floating-point values the code branches on.  A \<^verbatim>\<open>float\<close> or \<^verbatim>\<open>double\<close> is a real number, an
  infinity or a NaN; comparisons are the IEEE ones, in which every ordered comparison with a NaN is
  false.  Rounding is not modelled: finite arithmetic, where a component uses it, is exact.
\<close>

datatype double = NaN | NegInf | Fin real | PosInf

fun isfinite :: "double \<Rightarrow> bool" where
  "isfinite (Fin _) = True"
| "isfinite _ = False"

fun dlt :: "double \<Rightarrow> double \<Rightarrow> bool" where
  "dlt NaN _ = False"
| "dlt _ NaN = False"
| "dlt NegInf y = (y \<noteq> NegInf)"
| "dlt (Fin x) (Fin y) = (x < y)"
| "dlt (Fin _) PosInf = True"
| "dlt (Fin _) NegInf = False"
| "dlt PosInf _ = False"

definition deq :: "double \<Rightarrow> double \<Rightarrow> bool" where
  "deq x y \<longleftrightarrow> x = y \<and> x \<noteq> NaN"

definition dle :: "double \<Rightarrow> double \<Rightarrow> bool" where
  "dle x y \<longleftrightarrow> dlt x y \<or> deq x y"

lemma dlt_NaN [simp]: "\<not> dlt x NaN"
  by (cases x) simp_all

lemma dlt_irrefl [simp]: "\<not> dlt x x"
  by (cases x) simp_all

lemma dlt_trans: "dlt x y \<Longrightarrow> dlt y z \<Longrightarrow> dlt x z"
  by (cases x; cases y; cases z) auto

lemma dle_Fin [simp]: "dle (Fin x) (Fin y) \<longleftrightarrow> x \<le> y"
  by (auto simp: dle_def deq_def)

lemma dle_NaN [simp]: "\<not> dle x NaN" "\<not> dle NaN x"
  by (auto simp: dle_def deq_def)

lemma dlt_Fin_posE:
  assumes "dlt (Fin 0) x"
  obtains r where "x = Fin r" "0 < r" | "x = PosInf"
  using assms by (cases x) auto

end
