(* ===== verification/Spectrum_Frames.thy ===== *)
theory Spectrum_Frames
  imports Ring_Buffer Doubles
begin

text \<open>
  The sample path of \<^verbatim>\<open>core/src/dsp/SpectrumEngine.cpp\<close>: \<^verbatim>\<open>process\<close> accepts whatever block size
  the driver delivers, buffers it in the ring, and \<^verbatim>\<open>drainFrames\<close> cuts overlapping frames of
  \<open>fftSize\<close> samples every \<open>hopSize\<close> samples.  The frames handed to \<^verbatim>\<open>analyseFrame\<close> are
  recorded in order.  The pump is written over the queue operations it calls, proved once inside
  the queue contract, and instantiated with the ring.
\<close>

section \<open>The frame pump over queue operations\<close>

datatype pump_error = InvalidArgument | CannotDrain | ShortFrame | MemoryFault

text \<open>\<open>None\<close> is an exhausted fuel, \<open>Some (Inl e)\<close> a thrown exception.\<close>

type_synonym ('a, 'q) pump_result = "(pump_error + 'a list list \<times> 'q) option"

definition prepend_frames :: "'a list list \<Rightarrow> ('a, 'q) pump_result \<Rightarrow> ('a, 'q) pump_result" where
  "prepend_frames fs = map_option (map_sum id (map_prod ((@) fs) id))"

fun drain_frames ::
  "('q \<Rightarrow> size_t \<Rightarrow> size_t \<Rightarrow> 'a list option) \<Rightarrow> ('q \<Rightarrow> size_t \<Rightarrow> size_t \<times> 'q) \<Rightarrow> ('q \<Rightarrow> size_t) \<Rightarrow>
   size_t \<Rightarrow> size_t \<Rightarrow> nat \<Rightarrow> 'q \<Rightarrow> ('a, 'q) pump_result" where
  "drain_frames look drp avail N H 0 q = None"
| "drain_frames look drp avail N H (Suc fuel) q =
     (if avail q \<ge> N then
        (case look q N 0 of
           None \<Rightarrow> Some (Inl MemoryFault)
         | Some frame \<Rightarrow>
             if size_of frame \<noteq> N then Some (Inl ShortFrame)
             else prepend_frames [frame] (drain_frames look drp avail N H fuel (snd (drp q H))))
      else Some (Inr ([], q)))"

text \<open>Every turn of the drain loop drops at least one sample, so the backlog bounds the turns.\<close>

definition drain_fuel :: "('q \<Rightarrow> size_t) \<Rightarrow> 'q \<Rightarrow> nat" where
  "drain_fuel avail q = Suc (unat (avail q))"

fun pump ::
  "('q \<Rightarrow> 'a list \<Rightarrow> (bool \<times> 'q) option) \<Rightarrow> ('q \<Rightarrow> size_t \<Rightarrow> size_t \<Rightarrow> 'a list option) \<Rightarrow>
   ('q \<Rightarrow> size_t \<Rightarrow> size_t \<times> 'q) \<Rightarrow> ('q \<Rightarrow> size_t) \<Rightarrow> ('q \<Rightarrow> size_t) \<Rightarrow> size_t \<Rightarrow> size_t \<Rightarrow> nat \<Rightarrow>
   'q \<Rightarrow> 'a list \<Rightarrow> ('a, 'q) pump_result" where
  "pump enq look drp avail room N H 0 q xs = None"
| "pump enq look drp avail room N H (Suc fuel) q xs =
     (if xs = [] then Some (Inr ([], q))
      else if room q = 0 then
        (case drain_frames look drp avail N H (drain_fuel avail q) q of
           None \<Rightarrow> None
         | Some (Inl e) \<Rightarrow> Some (Inl e)
         | Some (Inr (fs, q1)) \<Rightarrow>
             if room q1 = 0 then Some (Inl CannotDrain)
             else prepend_frames fs (pump enq look drp avail room N H fuel q1 xs))
      else
        (let count = min (room q) (size_of xs) in
         case enq q (take (unat count) xs) of
           None \<Rightarrow> Some (Inl MemoryFault)
         | Some (_, q1) \<Rightarrow>
             (case drain_frames look drp avail N H (drain_fuel avail q1) q1 of
                None \<Rightarrow> None
              | Some (Inl e) \<Rightarrow> Some (Inl e)
              | Some (Inr (fs, q2)) \<Rightarrow>
                  prepend_frames fs
                    (pump enq look drp avail room N H fuel q2 (drop (unat count) xs)))))"

section \<open>The specification: overlapping frames of a stream\<close>

function frames_of :: "nat \<Rightarrow> nat \<Rightarrow> 'a list \<Rightarrow> 'a list list" where
  "frames_of N H S = (if 0 < H \<and> H \<le> N \<and> N \<le> length S then take N S # frames_of N H (drop H S) else [])"
  by pat_completeness auto
termination
  by (relation "measure (\<lambda>(N, H, S). length S)") auto

declare frames_of.simps [simp del]

definition tail_of :: "nat \<Rightarrow> nat \<Rightarrow> 'a list \<Rightarrow> 'a list" where
  "tail_of N H S = drop (length (frames_of N H S) * H) S"

lemma frames_of_short [simp]: "length S < N \<Longrightarrow> frames_of N H S = []"
  by (subst frames_of.simps) simp

lemma frames_of_step:
  "0 < H \<Longrightarrow> H \<le> N \<Longrightarrow> N \<le> length S \<Longrightarrow> frames_of N H S = take N S # frames_of N H (drop H S)"
  by (subst frames_of.simps) simp

lemma tail_of_short [simp]: "length S < N \<Longrightarrow> tail_of N H S = S"
  by (simp add: tail_of_def)

lemma tail_of_step:
  "0 < H \<Longrightarrow> H \<le> N \<Longrightarrow> N \<le> length S \<Longrightarrow> tail_of N H S = tail_of N H (drop H S)"
  by (simp add: tail_of_def frames_of_step add.commute)

text \<open>Frame \<open>i\<close> is the window of \<open>N\<close> samples that starts at \<open>i * H\<close>.\<close>

lemma frames_of_nth:
  assumes "i < length (frames_of N H S)"
  shows "frames_of N H S ! i = take N (drop (i * H) S) \<and> i * H + N \<le> length S"
  using assms
proof (induction N H S arbitrary: i rule: frames_of.induct)
  case (1 N H S)
  have *: "0 < H \<and> H \<le> N \<and> N \<le> length S"
    using "1.prems" by (subst (asm) frames_of.simps) (simp split: if_splits)
  then have eq: "frames_of N H S = take N S # frames_of N H (drop H S)"
    by (simp add: frames_of_step)
  show ?case
  proof (cases i)
    case 0
    then show ?thesis using * eq by simp
  next
    case (Suc j)
    then have "frames_of N H (drop H S) ! j = take N (drop (j * H) (drop H S)) \<and>
        j * H + N \<le> length (drop H S)"
      using "1.IH" * "1.prems" eq by simp
    then show ?thesis
      using Suc eq * by (auto simp: add.commute)
  qed
qed

lemma frames_of_length:
  assumes "i < length (frames_of N H S)"
  shows "length (frames_of N H S ! i) = N"
  using frames_of_nth [OF assms] by auto

lemma tail_of_length: "0 < H \<Longrightarrow> H \<le> N \<Longrightarrow> length (tail_of N H S) < N"
proof (induction N H S rule: frames_of.induct)
  case (1 N H S)
  show ?case
  proof (cases "N \<le> length S")
    case True
    then show ?thesis using "1.IH" "1.prems" by (simp add: tail_of_step)
  next
    case False
    then show ?thesis by simp
  qed
qed

text \<open>Cutting the stream in two and framing the parts in turn gives the same frames.\<close>

lemma frames_of_append:
  assumes "0 < H" "H \<le> N"
  shows "frames_of N H (S @ T) = frames_of N H S @ frames_of N H (tail_of N H S @ T) \<and>
    tail_of N H (S @ T) = tail_of N H (tail_of N H S @ T)"
  using assms
proof (induction N H S rule: frames_of.induct)
  case (1 N H S)
  show ?case
  proof (cases "N \<le> length S")
    case True
    then have "frames_of N H (drop H S @ T) =
        frames_of N H (drop H S) @ frames_of N H (tail_of N H (drop H S) @ T) \<and>
        tail_of N H (drop H S @ T) = tail_of N H (tail_of N H (drop H S) @ T)"
      using "1.IH" "1.prems" by simp
    then show ?thesis
      using True "1.prems" by (simp add: frames_of_step tail_of_step)
  next
    case False
    then show ?thesis by simp
  qed
qed

section \<open>The pump implements the specification\<close>

context sample_fifo
begin

lemma drain_frames_spec:
  assumes "invar q" "0 < unat H" "unat H \<le> unat N" "length (contents q) < fuel"
  shows "\<exists>q'. drain_frames look drp avail N H fuel q =
      Some (Inr (frames_of (unat N) (unat H) (contents q), q')) \<and> invar q' \<and>
      contents q' = tail_of (unat N) (unat H) (contents q) \<and> cap q' = cap q"
  using assms
proof (induction fuel arbitrary: q)
  case 0
  then show ?case by simp
next
  case (Suc fuel)
  show ?case
  proof (cases "unat N \<le> length (contents q)")
    case True
    let ?q = "snd (drp q H)"
    have look: "look q N 0 = Some (take (unat N) (contents q))"
      using Suc.prems(1) by (rule look_prefix)
    have "in_memory (take (unat N) (contents q))"
      using contents_in_memory [OF Suc.prems(1)] by simp
    then have size: "size_of (take (unat N) (contents q)) = N"
      using True by (simp add: word_unat_eq_iff unat_size_of)
    have "\<exists>q'. drain_frames look drp avail N H fuel ?q =
        Some (Inr (frames_of (unat N) (unat H) (contents ?q), q')) \<and> invar q' \<and>
        contents q' = tail_of (unat N) (unat H) (contents ?q) \<and> cap q' = cap ?q"
      using Suc.prems True by (intro Suc.IH) (simp_all add: drp_invar drp_contents)
    then show ?thesis
      using True Suc.prems look size
      by (auto simp: word_le_nat_alt avail_contents prepend_frames_def drp_contents drp_cap
          frames_of_step tail_of_step)
  next
    case False
    then show ?thesis
      using Suc.prems by (simp add: word_le_nat_alt avail_contents)
  qed
qed

lemma drain_frames_enough:
  assumes "invar q" "0 < unat H" "unat H \<le> unat N"
  obtains q' where "drain_frames look drp avail N H (drain_fuel avail q) q =
      Some (Inr (frames_of (unat N) (unat H) (contents q), q'))" "invar q'"
    "contents q' = tail_of (unat N) (unat H) (contents q)" "cap q' = cap q"
  using drain_frames_spec [OF assms, of "drain_fuel avail q"] avail_contents [OF assms(1)]
  by (auto simp: drain_fuel_def)

lemma pump_spec:
  assumes "invar q" "0 < unat H" "unat H \<le> unat N" "unat N \<le> cap q"
    "length (contents q) < unat N" "in_memory xs" "length xs < fuel"
  shows "\<exists>q'. pump enq look drp avail room N H fuel q xs =
      Some (Inr (frames_of (unat N) (unat H) (contents q @ xs), q')) \<and> invar q' \<and>
      contents q' = tail_of (unat N) (unat H) (contents q @ xs) \<and> cap q' = cap q"
  using assms
proof (induction fuel arbitrary: q xs)
  case 0
  then show ?case by simp
next
  case (Suc fuel)
  let ?F = "frames_of (unat N) (unat H)" and ?T = "tail_of (unat N) (unat H)"
  show ?case
  proof (cases "xs = []")
    case True
    then show ?thesis using Suc.prems by simp
  next
    case False
    have room: "unat (room q) = cap q - length (contents q)"
      using Suc.prems(1) by (rule room_contents)
    then have room0: "room q \<noteq> 0"
      using Suc.prems(4,5) by (auto simp: unat_eq_0 [symmetric])
    define c where "c = min (room q) (size_of xs)"
    have c: "unat c = min (cap q - length (contents q)) (length xs)"
      using room Suc.prems(6) by (simp add: c_def unat_min unat_size_of)
    then have cpos: "0 < unat c"
      using False Suc.prems(4,5) by simp
    let ?ys = "take (unat c) xs" and ?zs = "drop (unat c) xs"
    have mem: "in_memory ?ys" "in_memory ?zs"
      using Suc.prems(6) by (auto simp: in_memory_def)
    have shorter: "length ?zs < fuel"
      using Suc.prems(7) cpos False by (cases xs) auto
    have fits: "length (contents q) + length ?ys \<le> cap q"
      using c contents_cap [OF Suc.prems(1)] by simp
    obtain q1 where q1: "enq q ?ys = Some (True, q1)" "invar q1" "contents q1 = contents q @ ?ys"
        "cap q1 = cap q"
      using enq_fits [OF Suc.prems(1) mem(1) fits] by blast
    obtain q2 where q2: "drain_frames look drp avail N H (drain_fuel avail q1) q1 =
        Some (Inr (?F (contents q1), q2))" "invar q2" "contents q2 = ?T (contents q1)" "cap q2 = cap q1"
      using drain_frames_enough [OF q1(2) Suc.prems(2,3)] by blast
    have "\<exists>q'. pump enq look drp avail room N H fuel q2 ?zs =
        Some (Inr (?F (contents q2 @ ?zs), q')) \<and> invar q' \<and> contents q' = ?T (contents q2 @ ?zs) \<and>
        cap q' = cap q2"
      using Suc.prems q1 q2 mem(2) shorter tail_of_length [OF Suc.prems(2,3)]
      by (intro Suc.IH) auto
    moreover have "contents q @ xs = contents q1 @ ?zs"
      using q1(3) by simp
    ultimately show ?thesis
      using False room0 q1 q2 frames_of_append [OF Suc.prems(2,3), of "contents q1" ?zs]
      by (auto simp: c_def [symmetric] Let_def prepend_frames_def)
  qed
qed

end

declare drain_frames.simps(2) [simp del] pump.simps(2) [simp del]

section \<open>The engine\<close>

datatype Averaging = Linear | Exponential

record SpectrumConfig =
  cfg_fftSize :: size_t
  cfg_hopSize :: size_t
  cfg_sampleRate :: double
  cfg_averaging :: Averaging
  cfg_timeConstantSeconds :: double

record 'a SpectrumEngine =
  se_config :: SpectrumConfig
  se_pending :: "'a ring"
  se_frames :: "'a list list"

definition bufferCapacity :: "size_t \<Rightarrow> nat" where
  "bufferCapacity fftSize = bit_ceil (max (unat (fftSize * 4)) 4096)"

definition has_single_bit :: "size_t \<Rightarrow> bool" where
  "has_single_bit w \<longleftrightarrow> w \<noteq> 0 \<and> w AND (w - 1) = 0"

text \<open>The constructor, with the checks of its members' constructors in initialisation order.\<close>

definition SpectrumEngine_new :: "'a \<Rightarrow> SpectrumConfig \<Rightarrow> pump_error + 'a SpectrumEngine" where
  "SpectrumEngine_new z c =
     (if cfg_fftSize c = 0 then Inl InvalidArgument
      else if cfg_fftSize c < 4 \<or> \<not> has_single_bit (cfg_fftSize c) then Inl InvalidArgument
      else case RingBuffer_new z (bufferCapacity (cfg_fftSize c)) of
        Inl _ \<Rightarrow> Inl InvalidArgument
      | Inr r \<Rightarrow>
        if cfg_hopSize c = 0 \<or> cfg_hopSize c > cfg_fftSize c then Inl InvalidArgument
        else if \<not> dlt (Fin 0) (cfg_sampleRate c) then Inl InvalidArgument
        else if cfg_averaging c = Exponential \<and> \<not> dlt (Fin 0) (cfg_timeConstantSeconds c) then Inl InvalidArgument
        else Inr \<lparr>se_config = c, se_pending = r, se_frames = []\<rparr>)"

abbreviation ring_pump :: "size_t \<Rightarrow> size_t \<Rightarrow> nat \<Rightarrow> 'a ring \<Rightarrow> 'a list \<Rightarrow> ('a, 'a ring) pump_result" where
  "ring_pump \<equiv> pump RingBuffer_write RingBuffer_peek RingBuffer_discard availableToRead availableToWrite"

definition SpectrumEngine_drainFrames :: "'a SpectrumEngine \<Rightarrow> (pump_error + 'a SpectrumEngine) option" where
  "SpectrumEngine_drainFrames e =
     map_option (map_sum id (\<lambda>(fs, q). e\<lparr>se_pending := q, se_frames := se_frames e @ fs\<rparr>))
       (drain_frames RingBuffer_peek RingBuffer_discard availableToRead
          (cfg_fftSize (se_config e)) (cfg_hopSize (se_config e))
          (drain_fuel availableToRead (se_pending e)) (se_pending e))"

definition SpectrumEngine_process :: "'a SpectrumEngine \<Rightarrow> 'a list \<Rightarrow> (pump_error + 'a SpectrumEngine) option" where
  "SpectrumEngine_process e samples =
     map_option (map_sum id (\<lambda>(fs, q). e\<lparr>se_pending := q, se_frames := se_frames e @ fs\<rparr>))
       (ring_pump (cfg_fftSize (se_config e)) (cfg_hopSize (se_config e))
          (Suc (length samples)) (se_pending e) samples)"

definition SpectrumEngine_reset :: "'a SpectrumEngine \<Rightarrow> 'a SpectrumEngine" where
  "SpectrumEngine_reset e = e\<lparr>se_pending := RingBuffer_reset (se_pending e), se_frames := []\<rparr>"

text \<open>Successive calls of \<^verbatim>\<open>process\<close>, stopping at the first exception.\<close>

fun process_all :: "'a SpectrumEngine \<Rightarrow> 'a list list \<Rightarrow> (pump_error + 'a SpectrumEngine) option" where
  "process_all e [] = Some (Inr e)"
| "process_all e (b # bs) =
     (case SpectrumEngine_process e b of
        None \<Rightarrow> None
      | Some (Inl x) \<Rightarrow> Some (Inl x)
      | Some (Inr e') \<Rightarrow> process_all e' bs)"

definition engine_inv :: "'a SpectrumEngine \<Rightarrow> bool" where
  "engine_inv e \<longleftrightarrow> ring_inv (se_pending e) \<and>
     0 < unat (cfg_hopSize (se_config e)) \<and>
     unat (cfg_hopSize (se_config e)) \<le> unat (cfg_fftSize (se_config e)) \<and>
     unat (cfg_fftSize (se_config e)) \<le> length (storage (se_pending e)) \<and>
     length (ring_contents (se_pending e)) < unat (cfg_fftSize (se_config e))"

abbreviation engine_frames :: "'a SpectrumEngine \<Rightarrow> 'a list \<Rightarrow> 'a list list" where
  "engine_frames e \<equiv> frames_of (unat (cfg_fftSize (se_config e))) (unat (cfg_hopSize (se_config e)))"

abbreviation engine_tail :: "'a SpectrumEngine \<Rightarrow> 'a list \<Rightarrow> 'a list" where
  "engine_tail e \<equiv> tail_of (unat (cfg_fftSize (se_config e))) (unat (cfg_hopSize (se_config e)))"

lemma SpectrumEngine_process_spec:
  assumes "engine_inv e" "in_memory xs"
  obtains e' where "SpectrumEngine_process e xs = Some (Inr e')" "engine_inv e'"
    "se_config e' = se_config e"
    "se_frames e' = se_frames e @ engine_frames e (ring_contents (se_pending e) @ xs)"
    "ring_contents (se_pending e') = engine_tail e (ring_contents (se_pending e) @ xs)"
proof -
  let ?N = "cfg_fftSize (se_config e)" and ?H = "cfg_hopSize (se_config e)"
  let ?S = "ring_contents (se_pending e) @ xs"
  have h: "0 < unat ?H" "unat ?H \<le> unat ?N" "unat ?N \<le> length (storage (se_pending e))"
    "ring_inv (se_pending e)" "length (ring_contents (se_pending e)) < unat ?N"
    using assms(1) by (auto simp: engine_inv_def)
  obtain q where q: "ring_pump ?N ?H (Suc (length xs)) (se_pending e) xs =
      Some (Inr (engine_frames e ?S, q))" "ring_inv q" "ring_contents q = engine_tail e ?S"
      "length (storage q) = length (storage (se_pending e))"
    using ring.pump_spec [OF h(4) h(1) h(2) h(3) h(5) assms(2), of "Suc (length xs)"] by auto
  have "length (engine_tail e ?S) < unat ?N"
    using h by (intro tail_of_length)
  then have "engine_inv (e\<lparr>se_pending := q, se_frames := se_frames e @ engine_frames e ?S\<rparr>)"
    using h q by (simp add: engine_inv_def)
  then show thesis
    using q that [of "e\<lparr>se_pending := q, se_frames := se_frames e @ engine_frames e ?S\<rparr>"]
    by (simp add: SpectrumEngine_process_def)
qed

lemma process_all_spec:
  assumes "engine_inv e" "\<forall>b \<in> set bs. in_memory b"
  shows "\<exists>e'. process_all e bs = Some (Inr e') \<and> engine_inv e' \<and> se_config e' = se_config e \<and>
    se_frames e' = se_frames e @ engine_frames e (ring_contents (se_pending e) @ concat bs) \<and>
    ring_contents (se_pending e') = engine_tail e (ring_contents (se_pending e) @ concat bs)"
  using assms
proof (induction bs arbitrary: e)
  case Nil
  then show ?case by (auto simp: engine_inv_def)
next
  case (Cons b bs)
  let ?S = "ring_contents (se_pending e) @ b"
  obtain e1 where e1: "SpectrumEngine_process e b = Some (Inr e1)" "engine_inv e1"
      "se_config e1 = se_config e" "se_frames e1 = se_frames e @ engine_frames e ?S"
      "ring_contents (se_pending e1) = engine_tail e ?S"
    using SpectrumEngine_process_spec [OF Cons.prems(1), of b] Cons.prems(2) by auto
  from Cons.IH [OF e1(2)] Cons.prems obtain e2 where
    "process_all e1 bs = Some (Inr e2)" "engine_inv e2" "se_config e2 = se_config e1"
    "se_frames e2 = se_frames e1 @ engine_frames e1 (ring_contents (se_pending e1) @ concat bs)"
    "ring_contents (se_pending e2) = engine_tail e1 (ring_contents (se_pending e1) @ concat bs)"
    by auto
  moreover have "engine_frames e (?S @ concat bs) =
      engine_frames e ?S @ engine_frames e (engine_tail e ?S @ concat bs) \<and>
      engine_tail e (?S @ concat bs) = engine_tail e (engine_tail e ?S @ concat bs)"
    using Cons.prems(1) by (intro frames_of_append) (auto simp: engine_inv_def)
  ultimately show ?case
    using e1 by auto
qed

lemma SpectrumEngine_new_inv:
  assumes new: "SpectrumEngine_new z c = Inr e" and N: "unat (cfg_fftSize c) \<le> 2 ^ 60"
  shows "engine_inv e \<and> se_config e = c \<and> se_frames e = [] \<and> ring_contents (se_pending e) = []"
proof -
  let ?N = "unat (cfg_fftSize c)" let ?m = "max (unat (cfg_fftSize c * 4)) 4096"
  obtain r where r: "RingBuffer_new z (bufferCapacity (cfg_fftSize c)) = Inr r"
      "e = \<lparr>se_config = c, se_pending = r, se_frames = []\<rparr>"
    and h: "cfg_hopSize c \<noteq> 0" "cfg_hopSize c \<le> cfg_fftSize c" "cfg_fftSize c \<noteq> 0"
    using new by (auto simp: SpectrumEngine_new_def not_less split: if_splits sum.splits)
  have four: "unat (cfg_fftSize c * 4) = ?N * 4"
    using N by (simp add: unat_word_ariths)
  obtain k where k: "bit_ceil ?m = 2 ^ k" "?m \<le> 2 ^ k" "k = 0 \<or> 2 ^ (k - 1) < ?m"
    using bit_ceil_power by blast
  have "2 ^ k < 2 * ?m"
    using k(3) by (cases k) auto
  then have cap: "?m \<le> bufferCapacity (cfg_fftSize c)" "bufferCapacity (cfg_fftSize c) \<le> 2 ^ 63"
      "0 < bufferCapacity (cfg_fftSize c)"
    using k(1,2) N by (simp_all add: bufferCapacity_def four)
  from RingBuffer_new_inv [OF cap(3,2), of z] r(1) have
    "ring_inv r" "ring_contents r = []" "bufferCapacity (cfg_fftSize c) \<le> length (storage r)"
    by auto
  moreover have "0 < unat (cfg_hopSize c)" "unat (cfg_hopSize c) \<le> ?N" "0 < ?N"
    using h by (simp_all add: unat_gt_0 word_le_nat_alt)
  ultimately show ?thesis
    using r(2) cap(1) four by (simp add: engine_inv_def)
qed

section \<open>Properties\<close>

text \<open>
  The spectrum engine analyses exactly the overlapping frames of the sample stream,
  whatever block sizes the driver delivers.  Feeding any list of blocks to a freshly constructed
  engine returns without exception; frame \<open>i\<close> handed to the analysis is the window of \<open>fftSize\<close>
  samples starting at sample \<open>i * hopSize\<close> of the concatenated blocks; and the samples left in
  the buffer are the rest of the stream, shorter than one frame.
\<close>

theorem SpectrumEngine_frames:
  assumes new: "SpectrumEngine_new z c = Inr e" and N: "unat (cfg_fftSize c) \<le> 2 ^ 60"
    and mem: "\<forall>b \<in> set blocks. in_memory b"
  shows "\<exists>e'. process_all e blocks = Some (Inr e') \<and>
    (\<forall>i < length (se_frames e'). se_frames e' ! i =
        take (unat (cfg_fftSize c)) (drop (i * unat (cfg_hopSize c)) (concat blocks)) \<and>
        length (se_frames e' ! i) = unat (cfg_fftSize c)) \<and>
    ring_contents (se_pending e') = drop (length (se_frames e') * unat (cfg_hopSize c)) (concat blocks) \<and>
    length (ring_contents (se_pending e')) < unat (cfg_fftSize c)"
proof -
  have e: "engine_inv e" "se_config e = c" "se_frames e = []" "ring_contents (se_pending e) = []"
    using SpectrumEngine_new_inv [OF new N] by auto
  obtain e' where e': "process_all e blocks = Some (Inr e')" "engine_inv e'" "se_config e' = c"
      "se_frames e' = engine_frames e (concat blocks)"
      "ring_contents (se_pending e') = engine_tail e (concat blocks)"
    using process_all_spec [OF e(1) mem] e by auto
  moreover have "length (ring_contents (se_pending e')) < unat (cfg_fftSize c)"
    using e'(2,3) by (simp add: engine_inv_def)
  ultimately show ?thesis
    using frames_of_nth [of _ "unat (cfg_fftSize c)" "unat (cfg_hopSize c)" "concat blocks"]
      frames_of_length [of _ "unat (cfg_fftSize c)" "unat (cfg_hopSize c)" "concat blocks"] e(2)
    by (auto simp: tail_of_def)
qed

definition small_config :: SpectrumConfig where
  "small_config = \<lparr>cfg_fftSize = 4, cfg_hopSize = 2, cfg_sampleRate = Fin 48000,
     cfg_averaging = Linear, cfg_timeConstantSeconds = Fin 1\<rparr>"

lemma small_config_new: "\<exists>e. SpectrumEngine_new (0 :: nat) small_config = Inr e"
proof -
  have "bufferCapacity 4 = 4096"
    by (simp add: bufferCapacity_def bit_ceil_def bit_ceil_from.simps)
  then obtain r where "RingBuffer_new (0 :: nat) (bufferCapacity 4) = Inr r"
    using RingBuffer_new_inv [of 4096 0] by auto
  then show ?thesis
    by (simp add: SpectrumEngine_new_def small_config_def has_single_bit_def)
qed

theorem SpectrumEngine_frames_witness:
  "\<exists>e e'. SpectrumEngine_new (0 :: nat) small_config = Inr e \<and>
     process_all e [[1, 2, 3], [4, 5], [6]] = Some (Inr e') \<and>
     ring_contents (se_pending e') = drop (length (se_frames e') * 2) [1, 2, 3, 4, 5, 6]"
proof -
  obtain e where e: "SpectrumEngine_new (0 :: nat) small_config = Inr e"
    using small_config_new by blast
  have "\<forall>b \<in> set [[1, 2, 3], [4, 5], [6 :: nat]]. in_memory b"
    by (simp add: in_memory_def)
  from SpectrumEngine_frames [OF e _ this] e show ?thesis
    by (auto simp: small_config_def)
qed

end
