(* ===== verification/Channel_Config.thy ===== *)
theory Channel_Config
  imports Prelude
begin

text \<open>
  The role tables of \<^verbatim>\<open>platform/types\<close>: \<^verbatim>\<open>ChannelConfig\<close> (what each input channel is for and which
  transfer function it belongs to) and \<^verbatim>\<open>OutputRoutingConfig\<close> (which outputs the generator drives).
  The three tables share one contract, the locale \<open>slot_table\<close>: bounds-checked writes, total reads
  with a default outside the table, last write wins.  The lookups of \<^verbatim>\<open>ChannelConfig\<close> that scan the
  table are related to the list of matching channels.
\<close>

section \<open>The input side: ChannelConfig\<close>

datatype ChannelRole = Unused | Measurement | Reference

definition kMaxChannels :: int where
  "kMaxChannels = 64"

record ChannelConfig =
  cc_roles :: "ChannelRole list"
  cc_tfIndex :: "int list"
  cc_configEpoch :: uint64_t

definition ChannelConfig_new :: ChannelConfig where
  "ChannelConfig_new =
     \<lparr>cc_roles = replicate (nat kMaxChannels) Unused, cc_tfIndex = replicate (nat kMaxChannels) 0,
      cc_configEpoch = 0\<rparr>"

fun ChannelRole_toString :: "ChannelRole \<Rightarrow> string" where
  "ChannelRole_toString Unused = ''Unused''"
| "ChannelRole_toString Measurement = ''Measurement''"
| "ChannelRole_toString Reference = ''Reference''"

definition setRole :: "ChannelConfig \<Rightarrow> int \<Rightarrow> ChannelRole \<Rightarrow> bool \<times> ChannelConfig" where
  "setRole c channel r =
     (if channel < 0 \<or> channel \<ge> kMaxChannels then (False, c)
      else (True, c\<lparr>cc_roles := (cc_roles c)[nat channel := r],
                    cc_configEpoch := cc_configEpoch c + 1\<rparr>))"

definition role :: "ChannelConfig \<Rightarrow> int \<Rightarrow> ChannelRole" where
  "role c channel =
     (if channel < 0 \<or> channel \<ge> kMaxChannels then Unused else cc_roles c ! nat channel)"

definition setTransferFunction :: "ChannelConfig \<Rightarrow> int \<Rightarrow> int \<Rightarrow> bool \<times> ChannelConfig" where
  "setTransferFunction c channel tf =
     (if channel < 0 \<or> channel \<ge> kMaxChannels \<or> tf < 0 \<or> tf \<ge> kMaxChannels then (False, c)
      else (True, c\<lparr>cc_tfIndex := (cc_tfIndex c)[nat channel := tf],
                    cc_configEpoch := cc_configEpoch c + 1\<rparr>))"

definition transferFunction :: "ChannelConfig \<Rightarrow> int \<Rightarrow> int" where
  "transferFunction c channel =
     (if channel < 0 \<or> channel \<ge> kMaxChannels then 0 else cc_tfIndex c ! nat channel)"

text \<open>\<^verbatim>\<open>snapshot\<close> overwrites every element of the caller's array; the result is that array.\<close>

definition snapshot :: "ChannelConfig \<Rightarrow> int \<Rightarrow> ChannelRole list" where
  "snapshot c numChannelsReceived =
     (let receivedClamped = (if numChannelsReceived < 0 then 0 else numChannelsReceived) in
      map (\<lambda>ch. if ch < receivedClamped then cc_roles c ! nat ch else Unused) [0..kMaxChannels - 1])"

text \<open>The two scans, from channel \<open>ch\<close> to the end of the table.\<close>

function scan_first :: "ChannelConfig \<Rightarrow> ChannelRole \<Rightarrow> int \<Rightarrow> int" where
  "scan_first c r ch =
     (if ch < kMaxChannels then (if cc_roles c ! nat ch = r then ch else scan_first c r (ch + 1)) else -1)"
  by pat_completeness auto
termination
  by (relation "measure (\<lambda>(c, r, ch). nat (kMaxChannels - ch))") auto

definition firstChannelWithRole :: "ChannelConfig \<Rightarrow> ChannelRole \<Rightarrow> int" where
  "firstChannelWithRole c r = scan_first c r 0"

function scan_all :: "ChannelConfig \<Rightarrow> ChannelRole \<Rightarrow> int \<Rightarrow> nat \<Rightarrow> int list \<Rightarrow> nat \<times> int list" where
  "scan_all c r ch found out =
     (if ch < kMaxChannels then
        (if cc_roles c ! nat ch = r
         then scan_all c r (ch + 1) (Suc found) (if found < length out then out[found := ch] else out)
         else scan_all c r (ch + 1) found out)
      else (found, out))"
  by pat_completeness auto
termination
  by (relation "measure (\<lambda>(c, r, ch, found, out). nat (kMaxChannels - ch))") auto

declare scan_first.simps [simp del] scan_all.simps [simp del]

text \<open>\<open>channelsWithRole\<close> returns the count and the caller's array after the call.\<close>

definition channelsWithRole :: "ChannelConfig \<Rightarrow> ChannelRole \<Rightarrow> int list \<Rightarrow> nat \<times> int list" where
  "channelsWithRole c r out =
     (let (found, out') = scan_all c r 0 0 out in (min found (length out), out'))"

section \<open>The output side: OutputRoutingConfig\<close>

datatype OutputRole = NotRouted | Routed

definition OutputRoutingConfig_new :: "OutputRole list" where
  "OutputRoutingConfig_new = replicate (nat kMaxChannels) NotRouted"

definition output_setRole :: "OutputRole list \<Rightarrow> int \<Rightarrow> OutputRole \<Rightarrow> bool \<times> OutputRole list" where
  "output_setRole t channel r =
     (if channel < 0 \<or> channel \<ge> kMaxChannels then (False, t) else (True, t[nat channel := r]))"

definition output_role :: "OutputRole list \<Rightarrow> int \<Rightarrow> OutputRole" where
  "output_role t channel =
     (if channel < 0 \<or> channel \<ge> kMaxChannels then NotRouted else t ! nat channel)"

section \<open>The contract of a channel table\<close>

definition config_ok :: "ChannelConfig \<Rightarrow> bool" where
  "config_ok c \<longleftrightarrow> length (cc_roles c) = nat kMaxChannels \<and> length (cc_tfIndex c) = nat kMaxChannels \<and>
     (\<forall>tf \<in> set (cc_tfIndex c). 0 \<le> tf \<and> tf < kMaxChannels)"

definition in_table :: "int \<Rightarrow> bool" where
  "in_table ch \<longleftrightarrow> 0 \<le> ch \<and> ch < kMaxChannels"

locale slot_table =
  fixes setv :: "'t \<Rightarrow> int \<Rightarrow> 'v \<Rightarrow> bool \<times> 't"
    and getv :: "'t \<Rightarrow> int \<Rightarrow> 'v"
    and ok :: "'t \<Rightarrow> bool"
    and valid :: "'v \<Rightarrow> bool"
    and dflt :: 'v
  assumes set_ok: "ok t \<Longrightarrow> in_table ch \<Longrightarrow> valid v \<Longrightarrow> fst (setv t ch v) \<and> ok (snd (setv t ch v))"
    and get_set: "ok t \<Longrightarrow> in_table ch \<Longrightarrow> valid v \<Longrightarrow>
      getv (snd (setv t ch v)) ch' = (if ch' = ch then v else getv t ch')"
    and set_refused: "\<not> (in_table ch \<and> valid v) \<Longrightarrow> setv t ch v = (False, t)"
    and get_outside: "\<not> in_table ch \<Longrightarrow> getv t ch = dflt"
begin

lemma set_result: "ok t \<Longrightarrow> fst (setv t ch v) \<longleftrightarrow> in_table ch \<and> valid v"
  using set_ok [of t ch v] set_refused [of ch v t] by (cases "in_table ch \<and> valid v") auto

lemma set_keeps_ok: "ok t \<Longrightarrow> ok (snd (setv t ch v))"
  using set_ok [of t ch v] set_refused [of ch v t] by (cases "in_table ch \<and> valid v") auto

text \<open>After any sequence of writes a slot holds the last accepted value written to it.\<close>

lemma last_write:
  assumes "ok t"
  shows "getv (fold (\<lambda>(c, v) t. snd (setv t c v)) ws t) ch =
    (case find (\<lambda>(c, v). c = ch \<and> in_table c \<and> valid v) (rev ws) of
       None \<Rightarrow> getv t ch | Some (_, v) \<Rightarrow> v) \<and>
    ok (fold (\<lambda>(c, v) t. snd (setv t c v)) ws t)"
  using assms
proof (induction ws rule: rev_induct)
  case Nil
  then show ?case by simp
next
  case (snoc w ws)
  obtain c v where w: "w = (c, v)" by (cases w)
  then show ?case
    using snoc set_refused [of c v] set_keeps_ok get_set [of _ c v]
    by (cases "in_table c \<and> valid v") (auto simp: split_def)
qed

end

lemma role_upd:
  "config_ok c \<Longrightarrow> in_table ch \<Longrightarrow>
     role (snd (setRole c ch v)) ch' = (if ch' = ch then v else role c ch')"
  by (auto simp: config_ok_def in_table_def role_def setRole_def nth_list_update)

lemma transferFunction_upd:
  "config_ok c \<Longrightarrow> in_table ch \<Longrightarrow> in_table tf \<Longrightarrow>
     transferFunction (snd (setTransferFunction c ch tf)) ch' =
       (if ch' = ch then tf else transferFunction c ch')"
  by (auto simp: config_ok_def in_table_def transferFunction_def setTransferFunction_def nth_list_update)

interpretation role_table: slot_table setRole role config_ok "\<lambda>_. True" Unused
  by unfold_locales
    (auto simp: role_upd, auto simp: config_ok_def in_table_def setRole_def role_def)

lemma set_list_update_all: "\<forall>x \<in> set xs. P x \<Longrightarrow> P v \<Longrightarrow> \<forall>x \<in> set (xs[i := v]). P x"
  using set_update_subset_insert [of xs i v] by auto

interpretation tf_table: slot_table setTransferFunction transferFunction config_ok in_table 0
  by unfold_locales
    (simp_all add: transferFunction_upd, auto simp: config_ok_def in_table_def setTransferFunction_def
      transferFunction_def intro: set_list_update_all [rule_format])

interpretation output_table: slot_table output_setRole output_role
  "\<lambda>t. length t = nat kMaxChannels" "\<lambda>_. True" NotRouted
  by unfold_locales
    (auto simp: in_table_def output_setRole_def output_role_def nth_list_update)

lemma config_ok_new: "config_ok ChannelConfig_new"
  by (auto simp: config_ok_def ChannelConfig_new_def kMaxChannels_def)

section \<open>Scans of the table\<close>

text \<open>The channels from \<open>ch\<close> on that hold a role, ascending.\<close>

definition holders :: "ChannelConfig \<Rightarrow> ChannelRole \<Rightarrow> int \<Rightarrow> int list" where
  "holders c r ch = filter (\<lambda>i. role c i = r) [ch..kMaxChannels - 1]"

lemma holders_step:
  assumes "0 \<le> ch" "ch < kMaxChannels"
  shows "holders c r ch = (if cc_roles c ! nat ch = r then [ch] else []) @ holders c r (ch + 1)"
proof -
  have "[ch..kMaxChannels - 1] = ch # [ch + 1..kMaxChannels - 1]"
    using assms by (simp add: upto_rec1)
  then show ?thesis
    using assms by (simp add: holders_def role_def)
qed

lemma holders_end: "kMaxChannels \<le> ch \<Longrightarrow> holders c r ch = []"
  by (simp add: holders_def)

lemma scan_first_holders:
  "0 \<le> ch \<Longrightarrow> scan_first c r ch = (case holders c r ch of [] \<Rightarrow> -1 | x # _ \<Rightarrow> x)"
proof (induction c r ch rule: scan_first.induct)
  case (1 c r ch)
  show ?case
  proof (cases "ch < kMaxChannels")
    case True
    then show ?thesis
      using 1 by (subst scan_first.simps) (simp add: holders_step)
  next
    case False
    then show ?thesis
      by (subst scan_first.simps) (simp add: holders_end)
  qed
qed

lemma blit_at:
  "found < length out \<Longrightarrow> take (Suc found) (out[found := x]) = take found out @ [x]"
  by (simp add: take_Suc_conv_app_nth take_update_swap list_update_append)

lemma scan_all_holders:
  "0 \<le> ch \<Longrightarrow> fst (scan_all c r ch found out) = found + length (holders c r ch) \<and>
     snd (scan_all c r ch found out) =
       take found out @ take (length out - found) (holders c r ch) @ drop (found + length (holders c r ch)) out"
proof (induction c r ch found out rule: scan_all.induct)
  case (1 c r ch found out)
  consider "kMaxChannels \<le> ch" | "ch < kMaxChannels" "cc_roles c ! nat ch \<noteq> r"
    | "ch < kMaxChannels" "cc_roles c ! nat ch = r" "found < length out"
    | "ch < kMaxChannels" "cc_roles c ! nat ch = r" "length out \<le> found"
    by linarith
  then show ?case
  proof cases
    case 1
    then show ?thesis
      by (subst (1 2) scan_all.simps) (simp add: holders_end)
  next
    case 2
    then show ?thesis
      using 1 by (subst (1 2) scan_all.simps) (simp add: holders_step)
  next
    case 3
    have eq: "scan_all c r ch found out = scan_all c r (ch + 1) (Suc found) (out[found := ch])"
      using 3 by (subst scan_all.simps) simp
    have "length out - found = Suc (length out - Suc found)"
      using 3 by simp
    then show ?thesis
      using "1.IH"(1) "1.prems" 3 unfolding eq by (simp add: holders_step blit_at)
  next
    case 4
    have eq: "scan_all c r ch found out = scan_all c r (ch + 1) (Suc found) out"
      using 4 by (subst scan_all.simps) simp
    show ?thesis
      using "1.IH"(1) "1.prems" 4 unfolding eq by (simp add: holders_step)
  qed
qed

section \<open>Properties\<close>

text \<open>
  the role table as its readers see it.  After any sequence of \<^verbatim>\<open>setRole\<close> calls on the
  initial table, the role of a channel is the last role set for it by a call with an index inside the
  table, \<open>Unused\<close> if there was none or the index is outside; and the snapshot taken by the audio
  callback for a block of \<open>n\<close> received channels has this role below \<open>n\<close> and \<open>Unused\<close> from
  \<open>n\<close> on.
\<close>

theorem ChannelConfig_last_write:
  fixes ws :: "(int \<times> ChannelRole) list"
  defines "c \<equiv> fold (\<lambda>(ch, r) c. snd (setRole c ch r)) ws ChannelConfig_new"
  shows "role c ch = (case find (\<lambda>(k, r). k = ch \<and> in_table k) (rev ws) of None \<Rightarrow> Unused | Some (_, r) \<Rightarrow> r)
    \<and> (0 \<le> ch \<and> ch < kMaxChannels \<longrightarrow> snapshot c n ! nat ch = (if ch < n then role c ch else Unused))"
proof -
  have "role ChannelConfig_new ch = Unused"
    by (auto simp: role_def ChannelConfig_new_def)
  then have "role c ch = (case find (\<lambda>(k, r). k = ch \<and> in_table k) (rev ws) of None \<Rightarrow> Unused | Some (_, r) \<Rightarrow> r)"
    using role_table.last_write [OF config_ok_new, of ws ch] unfolding c_def by (auto split: option.splits)
  moreover have "snapshot c n ! nat ch = (if ch < n then role c ch else Unused)"
    if "0 \<le> ch" "ch < kMaxChannels"
    using that by (auto simp: snapshot_def role_def kMaxChannels_def Let_def)
  ultimately show ?thesis
    by blast
qed

theorem ChannelConfig_last_write_witness:
  "role (fold (\<lambda>(ch, r) c. snd (setRole c ch r)) [(3, Reference), (64, Measurement), (3, Measurement)] ChannelConfig_new) 3
     = Measurement \<and>
   snapshot (fold (\<lambda>(ch, r) c. snd (setRole c ch r)) [(3, Reference), (64, Measurement), (3, Measurement)] ChannelConfig_new) 2 ! 3
     = Unused"
  using ChannelConfig_last_write [of "[(3, Reference), (64, Measurement), (3, Measurement)]" 3 2]
  by (simp add: in_table_def kMaxChannels_def)

text \<open>
  \<^verbatim>\<open>channelsWithRole\<close> fills the caller's buffer with the channels that hold the role, in
  ascending order, up to the buffer's own size, returns how many it wrote, and leaves the rest of the
  buffer as it was; \<^verbatim>\<open>firstChannelWithRole\<close> is the first of them, or \<open>-1\<close>.
\<close>

theorem channelsWithRole_lists_holders:
  defines "hs \<equiv> \<lambda>c r. filter (\<lambda>i. role c i = r) [0..kMaxChannels - 1]"
  shows "fst (channelsWithRole c r out) = min (length (hs c r)) (length out) \<and>
    snd (channelsWithRole c r out) = take (length out) (hs c r) @ drop (length (hs c r)) out \<and>
    firstChannelWithRole c r = (case hs c r of [] \<Rightarrow> -1 | x # _ \<Rightarrow> x)"
proof -
  have hs: "hs c r = holders c r 0"
    by (simp add: hs_def holders_def)
  show ?thesis
    using scan_all_holders [of 0 c r 0 out] scan_first_holders [of 0 c r]
    unfolding hs channelsWithRole_def firstChannelWithRole_def
    by (auto simp: split_def Let_def)
qed

end
