(* ===== verification/Capture_Bus.thy ===== *)
theory Capture_Bus
  imports Ring_Buffer Channel_Config Doubles
begin

text \<open>
  The capture bus of \<^verbatim>\<open>platform/types/src/CaptureBus.cpp\<close>: one ring per channel, written by the audio
  callback (\<^verbatim>\<open>pushFromCallback\<close>) and read by the analysis thread, with drop counters and the resync gate
  that lets the consumer empty every ring on one callback boundary.  Here every member function runs
  alone; \<^verbatim>\<open>Capture_Gate\<close> interleaves the callback with the consumer.  The rings are used through
  the queue contract \<open>sample_fifo\<close> only.
\<close>

section \<open>State\<close>

record 'a bus =
  rings :: "'a ring list"
  config :: ChannelConfig
  drops :: "uint64_t list"
  active :: bool
  epoch :: uint64_t
  consumerAttached :: bool
  resyncPending :: bool
  resyncFrames :: uint64_t
  resyncLostFrames :: uint64_t
  resyncSeq :: uint64_t
  resyncAckTimeouts :: uint64_t
  gateSeen :: uint64_t
  gateSeenAtRaise :: uint64_t
  consumerWaiting :: bool
  consumerRaisedAt :: int
  consumerAckTimeout :: int
  consumerWriterMask :: uint64_t
  busSampleRate :: double
  preparedChannels :: int

definition kFixedRingCapacitySamples :: nat where
  "kFixedRingCapacitySamples = 65536"

section \<open>Operations\<close>

text \<open>The constructor; a ring capacity of zero makes the ring's own constructor throw.\<close>

definition CaptureBus_new :: "'a \<Rightarrow> nat \<Rightarrow> ring_error + 'a bus" where
  "CaptureBus_new z ringCapacity =
     (case RingBuffer_new z ringCapacity of
        Inl e \<Rightarrow> Inl e
      | Inr r \<Rightarrow> Inr \<lparr>rings = replicate (nat kMaxChannels) r, config = ChannelConfig_new,
          drops = replicate (nat kMaxChannels) 0, active = False, epoch = 0, consumerAttached = False,
          resyncPending = False, resyncFrames = 0, resyncLostFrames = 0, resyncSeq = 0,
          resyncAckTimeouts = 0, gateSeen = 0, gateSeenAtRaise = 0, consumerWaiting = False,
          consumerRaisedAt = 0, consumerAckTimeout = 500, consumerWriterMask = 0,
          busSampleRate = Fin 0, preparedChannels = 0\<rparr>)"

definition raiseGate :: "'a bus \<Rightarrow> 'a bus" where
  "raiseGate b = b\<lparr>gateSeenAtRaise := gateSeen b, resyncSeq := resyncSeq b + 1, resyncPending := True\<rparr>"

definition prepare :: "'a bus \<Rightarrow> double \<Rightarrow> int \<Rightarrow> 'a bus" where
  "prepare b rate numChannels =
     (let clamped = (if numChannels < 0 then 0 else if numChannels > kMaxChannels then kMaxChannels else numChannels);
          b1 = b\<lparr>drops := map (\<lambda>_. 0) (drops b), resyncFrames := 0, busSampleRate := rate,
                 preparedChannels := clamped\<rparr>;
          b2 = (if consumerAttached b1 then raiseGate b1 else b1)
      in b2\<lparr>epoch := epoch b2 + 1\<rparr>)"

definition writerMask :: "ChannelConfig \<Rightarrow> uint64_t" where
  "writerMask c =
     fold (\<lambda>ch mask. if role c ch \<noteq> Unused then mask OR push_bit (nat ch) 1 else mask) [0..kMaxChannels - 1] 0"

definition attachConsumer :: "'a bus \<Rightarrow> 'a bus" where
  "attachConsumer b = b\<lparr>consumerWriterMask := writerMask (config b), consumerAttached := True\<rparr>"

definition detachConsumer :: "'a bus \<Rightarrow> 'a bus" where
  "detachConsumer b = b\<lparr>consumerAttached := False, resyncPending := False\<rparr>"

definition setResyncAckTimeout :: "'a bus \<Rightarrow> int \<Rightarrow> 'a bus" where
  "setResyncAckTimeout b timeout = b\<lparr>consumerAckTimeout := timeout\<rparr>"

definition setActive :: "'a bus \<Rightarrow> bool \<Rightarrow> 'a bus" where
  "setActive b a = b\<lparr>active := a\<rparr>"

text \<open>\<^verbatim>\<open>discard(availableToRead())\<close> on every ring, with the running maximum of the counts.\<close>

fun drain_rings :: "'a ring list \<Rightarrow> size_t \<Rightarrow> size_t \<times> 'a ring list" where
  "drain_rings [] largest = (largest, [])"
| "drain_rings (r # rs) largest =
     (let (discarded, r') = RingBuffer_discard r (availableToRead r);
          (l, rs') = drain_rings rs (if discarded > largest then discarded else largest)
      in (l, r' # rs'))"

definition drainAsConsumer :: "'a bus \<Rightarrow> size_t \<times> 'a bus" where
  "drainAsConsumer b = (let (l, rs) = drain_rings (rings b) 0 in (l, b\<lparr>rings := rs\<rparr>))"

text \<open>\<open>now\<close> is the reading of the steady clock.\<close>

definition serviceResyncAsConsumer :: "'a bus \<Rightarrow> int \<Rightarrow> bool \<times> 'a bus" where
  "serviceResyncAsConsumer b now =
     (let mask = writerMask (config b);
          b = (if mask \<noteq> consumerWriterMask b then raiseGate (b\<lparr>consumerWriterMask := mask\<rparr>) else b)
      in if \<not> resyncPending b then (False, b\<lparr>consumerWaiting := False\<rparr>)
         else
           let b = (if \<not> consumerWaiting b then b\<lparr>consumerWaiting := True, consumerRaisedAt := now\<rparr> else b);
               acknowledged = (gateSeen b \<noteq> gateSeenAtRaise b);
               idle = (\<not> active b);
               timedOut = (now - consumerRaisedAt b \<ge> consumerAckTimeout b)
           in if \<not> acknowledged \<and> \<not> idle \<and> \<not> timedOut then (False, b)
              else
                let b = (if timedOut \<and> \<not> acknowledged \<and> \<not> idle
                         then b\<lparr>resyncAckTimeouts := resyncAckTimeouts b + 1\<rparr> else b);
                    (largest, b) = drainAsConsumer b
                in (True, b\<lparr>resyncLostFrames := resyncLostFrames b + largest, resyncSeq := resyncSeq b + 1,
                            consumerWaiting := False, resyncPending := False\<rparr>))"

text \<open>
  The callback's input: \<open>None\<close> is the null pointer; otherwise an array of channel pointers, each
  null or an array of samples.  Reading past either array is \<open>None\<close>.
\<close>

type_synonym 'a input = "'a list option list option"

definition push_channel :: "ChannelRole list \<Rightarrow> 'a list option list \<Rightarrow> int \<Rightarrow> int \<Rightarrow> 'a bus \<Rightarrow> 'a bus option" where
  "push_channel roles input numSamples ch b =
     (let idx = nat ch in
      if roles ! idx = Unused then Some b
      else if idx \<ge> length input then None
      else case input ! idx of
        None \<Rightarrow> Some b
      | Some src \<Rightarrow>
          do {
            block \<leftarrow> segment src 0 (nat numSamples);
            (written, r) \<leftarrow> RingBuffer_write (rings b ! idx) block;
            Some (if written then b\<lparr>rings := (rings b)[idx := r]\<rparr>
                  else b\<lparr>drops := (drops b)[idx := drops b ! idx + word_of_int numSamples]\<rparr>)
          })"

fun push_channels :: "ChannelRole list \<Rightarrow> 'a list option list \<Rightarrow> int \<Rightarrow> int list \<Rightarrow> 'a bus \<Rightarrow> 'a bus option" where
  "push_channels roles input n [] b = Some b"
| "push_channels roles input n (ch # chs) b =
     do { b' \<leftarrow> push_channel roles input n ch b; push_channels roles input n chs b' }"

definition pushFromCallback :: "'a bus \<Rightarrow> 'a input \<Rightarrow> int \<Rightarrow> int \<Rightarrow> 'a bus option" where
  "pushFromCallback b input numChannels numSamples =
     (if \<not> active b then Some b
      else case input of
        None \<Rightarrow> Some b
      | Some ptrs \<Rightarrow>
          if numChannels \<le> 0 \<or> numSamples \<le> 0 then Some b
          else if resyncPending b then
            Some (b\<lparr>gateSeen := gateSeen b + 1,
                    resyncFrames := resyncFrames b + word_of_int numSamples,
                    resyncLostFrames := resyncLostFrames b + word_of_int numSamples\<rparr>)
          else
            (let roles = snapshot (config b) numChannels;
                 prepared = preparedChannels b;
                 limit = (if numChannels < prepared then numChannels else prepared)
             in push_channels roles ptrs numSamples [0..limit - 1] b))"

definition bus_ring :: "'a bus \<Rightarrow> int \<Rightarrow> 'a ring option" where
  "bus_ring b channel =
     (if channel < 0 \<or> channel \<ge> preparedChannels b then None else Some (rings b ! nat channel))"

definition dropCount :: "'a bus \<Rightarrow> int \<Rightarrow> uint64_t" where
  "dropCount b channel = (if channel < 0 \<or> channel \<ge> kMaxChannels then 0 else drops b ! nat channel)"

definition totalDrops :: "'a bus \<Rightarrow> uint64_t" where
  "totalDrops b = fold (\<lambda>ch total. total + drops b ! nat ch) [0..preparedChannels b - 1] 0"

section \<open>Invariant\<close>

definition bus_inv :: "'a bus \<Rightarrow> bool" where
  "bus_inv b \<longleftrightarrow> length (rings b) = nat kMaxChannels \<and> length (drops b) = nat kMaxChannels \<and>
     (\<forall>r \<in> set (rings b). ring_inv r \<and> length (storage r) = length (storage (rings b ! 0))) \<and>
     0 \<le> preparedChannels b \<and> preparedChannels b \<le> kMaxChannels"

abbreviation chan_contents :: "'a bus \<Rightarrow> int \<Rightarrow> 'a list" where
  "chan_contents b ch \<equiv> ring_contents (rings b ! nat ch)"

definition bus_capacity :: "'a bus \<Rightarrow> nat" where
  "bus_capacity b = length (storage (rings b ! 0))"

lemma bus_inv_cong:
  "rings b' = rings b \<Longrightarrow> length (drops b') = length (drops b) \<Longrightarrow> preparedChannels b' = preparedChannels b \<Longrightarrow>
     bus_inv b' = bus_inv b"
  by (simp only: bus_inv_def)

lemma bus_inv_ring:
  assumes "bus_inv b" "in_table ch"
  shows "ring_inv (rings b ! nat ch) \<and> length (storage (rings b ! nat ch)) = bus_capacity b"
proof -
  have "nat ch < length (rings b)"
    using assms by (auto simp: bus_inv_def in_table_def)
  then have "rings b ! nat ch \<in> set (rings b)"
    by simp
  then show ?thesis
    using assms(1) unfolding bus_inv_def bus_capacity_def by blast
qed

lemma bus_inv_upd:
  assumes "bus_inv b" "in_table ch" "ring_inv r" "length (storage r) = bus_capacity b"
  shows "bus_inv (b\<lparr>rings := (rings b)[nat ch := r]\<rparr>)"
    "bus_capacity (b\<lparr>rings := (rings b)[nat ch := r]\<rparr>) = bus_capacity b"
proof -
  have len: "length (rings b) = 64" "nat ch < length (rings b)"
    using assms(1,2) by (auto simp: bus_inv_def in_table_def kMaxChannels_def)
  then show cap: "bus_capacity (b\<lparr>rings := (rings b)[nat ch := r]\<rparr>) = bus_capacity b"
    using assms(4) by (cases "nat ch = 0") (auto simp: bus_capacity_def)
  have "\<forall>q \<in> set ((rings b)[nat ch := r]). ring_inv q \<and> length (storage q) = bus_capacity b"
    using assms by (intro set_list_update_all) (auto simp: bus_inv_def bus_capacity_def)
  then show "bus_inv (b\<lparr>rings := (rings b)[nat ch := r]\<rparr>)"
    using assms(1) cap unfolding bus_inv_def by (simp add: bus_capacity_def)
qed

section \<open>One block into one channel\<close>

text \<open>What a channel's ring and drop counter look like after it was offered a block, or none.\<close>

definition chan_effect :: "'a bus \<Rightarrow> 'a bus \<Rightarrow> int \<Rightarrow> 'a list option \<Rightarrow> bool" where
  "chan_effect b b' ch blk \<longleftrightarrow>
     (case blk of
        None \<Rightarrow> chan_contents b' ch = chan_contents b ch \<and> drops b' ! nat ch = drops b ! nat ch
      | Some xs \<Rightarrow>
          if length (chan_contents b ch) + length xs \<le> bus_capacity b
          then chan_contents b' ch = chan_contents b ch @ xs \<and> drops b' ! nat ch = drops b ! nat ch
          else chan_contents b' ch = chan_contents b ch \<and>
            drops b' ! nat ch = drops b ! nat ch + word_of_nat (length xs))"

definition same_but_rings :: "'a bus \<Rightarrow> 'a bus \<Rightarrow> bool" where
  "same_but_rings b b' \<longleftrightarrow> (\<exists>rs ds. b' = b\<lparr>rings := rs, drops := ds\<rparr>)"

lemma same_but_ringsI:
  "same_but_rings b b" "same_but_rings b (b\<lparr>rings := rs\<rparr>)" "same_but_rings b (b\<lparr>drops := ds\<rparr>)"
proof -
  have "b = b\<lparr>rings := rings b, drops := drops b\<rparr>" "b\<lparr>rings := rs\<rparr> = b\<lparr>rings := rs, drops := drops b\<rparr>"
    "b\<lparr>drops := ds\<rparr> = b\<lparr>rings := rings b, drops := ds\<rparr>"
    by simp_all
  then show "same_but_rings b b" "same_but_rings b (b\<lparr>rings := rs\<rparr>)" "same_but_rings b (b\<lparr>drops := ds\<rparr>)"
    unfolding same_but_rings_def by blast+
qed

text \<open>The block channel \<open>ch\<close> is offered: its first \<open>n\<close> samples, if it has a role and a pointer.\<close>

definition offered :: "ChannelRole list \<Rightarrow> 'a list option list \<Rightarrow> int \<Rightarrow> int \<Rightarrow> 'a list option" where
  "offered roles ptrs n ch =
     (if roles ! nat ch = Unused then None else map_option (take (nat n)) (ptrs ! nat ch))"

definition channel_readable :: "'a list option list \<Rightarrow> int \<Rightarrow> int \<Rightarrow> bool" where
  "channel_readable ptrs n ch \<longleftrightarrow> nat ch < length ptrs \<and>
     (case ptrs ! nat ch of None \<Rightarrow> True | Some xs \<Rightarrow> nat n \<le> length xs)"

lemma same_but_rings_trans:
  "same_but_rings b b' \<Longrightarrow> same_but_rings b' b'' \<Longrightarrow> same_but_rings b b''"
  unfolding same_but_rings_def by (elim exE) (intro exI, simp)

lemma same_but_ringsD:
  assumes "same_but_rings b b'"
  shows "config b' = config b" "preparedChannels b' = preparedChannels b" "active b' = active b"
    "resyncPending b' = resyncPending b"
  using assms by (auto simp: same_but_rings_def)

lemma push_channel_spec:
  assumes inv: "bus_inv b" and ch: "in_table ch" and rd: "channel_readable ptrs n ch"
    and n: "0 < n" "n < 2 ^ 31"
  obtains b' where "push_channel roles ptrs n ch b = Some b'" "bus_inv b'" "same_but_rings b b'"
    "bus_capacity b' = bus_capacity b" "chan_effect b b' ch (offered roles ptrs n ch)"
    "\<forall>ch'. in_table ch' \<longrightarrow> ch' \<noteq> ch \<longrightarrow>
       rings b' ! nat ch' = rings b ! nat ch' \<and> drops b' ! nat ch' = drops b ! nat ch'"
proof (cases "offered roles ptrs n ch")
  case None
  then have "push_channel roles ptrs n ch b = Some b"
    using rd by (auto simp: push_channel_def offered_def channel_readable_def split: if_splits)
  with None inv show thesis
    by (intro that) (auto simp: chan_effect_def same_but_ringsI)
next
  case (Some xs)
  let ?r = "rings b ! nat ch"
  have seg: "roles ! nat ch \<noteq> Unused" "nat ch < length ptrs"
    "\<exists>src. ptrs ! nat ch = Some src \<and> segment src 0 (nat n) = Some xs" and len: "length xs = nat n"
    using Some rd by (auto simp: offered_def channel_readable_def segment_def split: if_splits option.splits)
  have ring: "ring_inv ?r" "length (storage ?r) = bus_capacity b"
    using bus_inv_ring [OF inv ch] by auto
  have mem: "in_memory xs"
    using len n by (simp add: in_memory_def nat_less_iff)
  have idx: "nat ch < length (rings b)" "nat ch < length (drops b)"
    and diff: "\<And>ch'. in_table ch' \<Longrightarrow> ch' \<noteq> ch \<Longrightarrow> nat ch \<noteq> nat ch'"
    using inv ch by (auto simp: bus_inv_def in_table_def)
  have cnt: "(word_of_int n :: uint64_t) = word_of_nat (length xs)"
    using len n by simp
  show thesis
  proof (cases "length (ring_contents ?r) + length xs \<le> bus_capacity b")
    case True
    obtain r where r: "RingBuffer_write ?r xs = Some (True, r)" "ring_inv r"
        "ring_contents r = ring_contents ?r @ xs" "length (storage r) = bus_capacity b"
      using ring.enq_fits [OF ring(1) mem] True ring(2) by auto
    let ?b = "b\<lparr>rings := (rings b)[nat ch := r]\<rparr>"
    have "push_channel roles ptrs n ch b = Some ?b"
      using seg r(1) by (auto simp: push_channel_def)
    moreover have "chan_effect b ?b ch (offered roles ptrs n ch)"
      using True Some r(3) idx by (simp add: chan_effect_def)
    moreover have "same_but_rings b ?b"
      by (rule same_but_ringsI)
    ultimately show thesis
      using bus_inv_upd [OF inv ch r(2,4)] diff by (intro that) auto
  next
    case False
    let ?b = "b\<lparr>drops := (drops b)[nat ch := drops b ! nat ch + word_of_int n]\<rparr>"
    have "RingBuffer_write ?r xs = Some (False, ?r)"
      using ring.enq_full [OF ring(1) mem] False ring(2) by simp
    then have "push_channel roles ptrs n ch b = Some ?b"
      using seg by (auto simp: push_channel_def Let_def)
    moreover have "chan_effect b ?b ch (offered roles ptrs n ch)"
      using False Some idx cnt by (simp add: chan_effect_def)
    moreover have "bus_inv ?b" "bus_capacity ?b = bus_capacity b" "same_but_rings b ?b"
      using inv by (simp_all add: bus_inv_def bus_capacity_def same_but_ringsI)
    ultimately show thesis
      using diff by (intro that) auto
  qed
qed

lemma chan_effect_frame:
  assumes "rings b' ! nat ch = rings b ! nat ch" "drops b' ! nat ch = drops b ! nat ch"
    "bus_capacity b' = bus_capacity b"
  shows "chan_effect b' c ch blk = chan_effect b c ch blk" "chan_effect c b' ch blk = chan_effect c b ch blk"
  using assms by (simp_all add: chan_effect_def split: option.split)

lemma push_channels_spec:
  assumes "bus_inv b" "distinct chs" "\<forall>ch \<in> set chs. in_table ch \<and> channel_readable ptrs n ch"
    and n: "0 < n" "n < 2 ^ 31"
  shows "\<exists>b'. push_channels roles ptrs n chs b = Some b' \<and> bus_inv b' \<and> same_but_rings b b' \<and>
    bus_capacity b' = bus_capacity b \<and>
    (\<forall>ch. in_table ch \<longrightarrow> chan_effect b b' ch (if ch \<in> set chs then offered roles ptrs n ch else None))"
  using assms(1-3)
proof (induction chs arbitrary: b)
  case Nil
  then show ?case
    by (simp add: same_but_ringsI chan_effect_def)
next
  case (Cons c chs)
  have c: "in_table c" "channel_readable ptrs n c"
    using Cons.prems by auto
  obtain b1 where b1: "push_channel roles ptrs n c b = Some b1" "bus_inv b1" "same_but_rings b b1"
    "bus_capacity b1 = bus_capacity b" "chan_effect b b1 c (offered roles ptrs n c)"
    "\<forall>ch'. in_table ch' \<longrightarrow> ch' \<noteq> c \<longrightarrow>
       rings b1 ! nat ch' = rings b ! nat ch' \<and> drops b1 ! nat ch' = drops b ! nat ch'"
    using push_channel_spec [OF Cons.prems(1) c n] by metis
  obtain b2 where b2: "push_channels roles ptrs n chs b1 = Some b2" "bus_inv b2" "same_but_rings b1 b2"
    "bus_capacity b2 = bus_capacity b1"
    "\<forall>ch. in_table ch \<longrightarrow> chan_effect b1 b2 ch (if ch \<in> set chs then offered roles ptrs n ch else None)"
    using Cons.IH [OF b1(2)] Cons.prems by auto
  have "chan_effect b b2 ch (if ch \<in> set (c # chs) then offered roles ptrs n ch else None)"
    if ch: "in_table ch" for ch
  proof (cases "ch = c")
    case True
    then have "chan_contents b2 ch = chan_contents b1 ch \<and> drops b2 ! nat ch = drops b1 ! nat ch"
      using b2(5) ch Cons.prems(2) by (auto simp: chan_effect_def)
    then show ?thesis
      using True b1(5) by (cases "offered roles ptrs n c") (simp_all add: chan_effect_def)
  next
    case False
    then have "chan_effect b b2 ch = chan_effect b1 b2 ch"
      using chan_effect_frame(1) [of b1 ch b b2] b1(4,6) ch by (intro ext) simp
    then show ?thesis
      using False b2(5) ch by simp
  qed
  then show ?case
    using b1 b2 same_but_rings_trans [OF b1(3) b2(3)] by auto
qed

section \<open>The consumer's drain\<close>

lemma drain_rings_spec:
  assumes "\<forall>r \<in> set rs. ring_inv r"
  shows "length (snd (drain_rings rs l)) = length rs \<and>
    (\<forall>i < length rs. ring_inv (snd (drain_rings rs l) ! i) \<and> ring_contents (snd (drain_rings rs l) ! i) = [] \<and>
       length (storage (snd (drain_rings rs l) ! i)) = length (storage (rs ! i))) \<and>
    unat (fst (drain_rings rs l)) = fold max (map (\<lambda>r. length (ring_contents r)) rs) (unat l)"
  using assms
proof (induction rs arbitrary: l)
  case Nil
  then show ?case by simp
next
  case (Cons r rs)
  have r: "ring_inv r" and rs: "\<forall>r \<in> set rs. ring_inv r"
    using Cons.prems by auto
  obtain d r' where dr: "RingBuffer_discard r (availableToRead r) = (d, r')"
    by fastforce
  have d: "unat d = length (ring_contents r)" "ring_contents r' = []" "ring_inv r'"
      "length (storage r') = length (storage r)"
    using ring.drp_all [OF r] ring.drp_all_count [OF r] ring.drp_invar [OF r] ring.drp_cap [OF r] dr
    by (metis fst_conv snd_conv)+
  let ?l = "if d > l then d else l"
  have "unat ?l = max (length (ring_contents r)) (unat l)"
    using d(1) by (auto simp: word_less_nat_alt max_def)
  then show ?case
    using Cons.IH [OF rs, of ?l] dr d
    by (auto simp: split_def Let_def nth_Cons split: nat.splits)
qed

lemma drainAsConsumer_spec:
  assumes inv: "bus_inv b"
  shows "bus_inv (snd (drainAsConsumer b))" (is ?A)
    and "\<forall>ch. in_table ch \<longrightarrow> chan_contents (snd (drainAsConsumer b)) ch = []" (is ?B)
    and "snd (drainAsConsumer b) = b\<lparr>rings := rings (snd (drainAsConsumer b))\<rparr>" (is ?C)
    and "unat (fst (drainAsConsumer b)) = fold max (map (\<lambda>r. length (ring_contents r)) (rings b)) 0" (is ?D)
    and "bus_capacity (snd (drainAsConsumer b)) = bus_capacity b" (is ?E)
proof -
  have all: "\<forall>r \<in> set (rings b). ring_inv r" and len: "length (rings b) = 64"
    using inv by (auto simp: bus_inv_def kMaxChannels_def)
  let ?rs = "snd (drain_rings (rings b) 0)"
  note spec = drain_rings_spec [OF all, of 0]
  have b': "snd (drainAsConsumer b) = b\<lparr>rings := ?rs\<rparr>"
    by (simp add: drainAsConsumer_def split_def Let_def)
  have cap: "\<forall>i < 64. length (storage (?rs ! i)) = length (storage (rings b ! 0))"
    using spec len inv nth_mem unfolding bus_inv_def by metis
  then show ?E
    unfolding b' by (simp add: bus_capacity_def)
  show ?C ?D
    using spec by (simp_all add: b' drainAsConsumer_def split_def Let_def)
  show ?B
    unfolding b' using spec len by (auto simp: in_table_def kMaxChannels_def)
  have rs: "\<forall>r \<in> set ?rs. ring_inv r \<and> length (storage r) = length (storage (?rs ! 0))"
    using spec len cap by (auto simp: in_set_conv_nth)
  have "length ?rs = nat kMaxChannels" "length (drops b) = nat kMaxChannels" "0 \<le> preparedChannels b"
      "preparedChannels b \<le> kMaxChannels"
    using inv conjunct1 [OF spec] unfolding bus_inv_def by metis+
  with rs show ?A
    unfolding b' bus_inv_def by auto
qed

text \<open>The state at the point where \<^verbatim>\<open>serviceResyncAsConsumer\<close> has checked the writer mask.\<close>

definition after_mask_check :: "'a bus \<Rightarrow> 'a bus" where
  "after_mask_check b =
     (if writerMask (config b) \<noteq> consumerWriterMask b
      then raiseGate (b\<lparr>consumerWriterMask := writerMask (config b)\<rparr>) else b)"

definition after_clock :: "'a bus \<Rightarrow> int \<Rightarrow> 'a bus" where
  "after_clock b now = (if \<not> consumerWaiting b then b\<lparr>consumerWaiting := True, consumerRaisedAt := now\<rparr> else b)"

definition may_drain :: "'a bus \<Rightarrow> int \<Rightarrow> bool" where
  "may_drain b now \<longleftrightarrow> resyncPending b \<and>
     (gateSeen b \<noteq> gateSeenAtRaise b \<or> \<not> active b \<or> now - consumerRaisedAt (after_clock b now) \<ge> consumerAckTimeout b)"

lemma after_mask_check_frame [simp]:
  "rings (after_mask_check b) = rings b" "config (after_mask_check b) = config b"
  "drops (after_mask_check b) = drops b" "preparedChannels (after_mask_check b) = preparedChannels b"
  "active (after_mask_check b) = active b" "resyncLostFrames (after_mask_check b) = resyncLostFrames b"
  "consumerWriterMask (after_mask_check b) = writerMask (config b)"
  by (auto simp: after_mask_check_def raiseGate_def)

lemma service_result:
  "fst (serviceResyncAsConsumer b now) \<longleftrightarrow> may_drain (after_mask_check b) now"
  by (auto simp: serviceResyncAsConsumer_def after_mask_check_def [symmetric] may_drain_def after_clock_def
      Let_def split_def)

lemma service_waits:
  assumes "\<not> may_drain (after_mask_check b) now"
  shows "rings (snd (serviceResyncAsConsumer b now)) = rings b \<and>
    drops (snd (serviceResyncAsConsumer b now)) = drops b \<and>
    preparedChannels (snd (serviceResyncAsConsumer b now)) = preparedChannels b \<and>
    resyncPending (snd (serviceResyncAsConsumer b now)) = resyncPending (after_mask_check b)"
  using assms
  by (auto simp: serviceResyncAsConsumer_def after_mask_check_def [symmetric] may_drain_def after_clock_def
      Let_def split_def)

lemma service_drains:
  assumes "may_drain (after_mask_check b) now"
  obtains c where "rings c = rings b" "config c = config b" "drops c = drops b"
    "preparedChannels c = preparedChannels b" "active c = active b" "resyncLostFrames c = resyncLostFrames b"
    "consumerWriterMask c = writerMask (config b)"
    "snd (serviceResyncAsConsumer b now) =
       (let (largest, d) = drainAsConsumer c in
        d\<lparr>resyncLostFrames := resyncLostFrames d + largest, resyncSeq := resyncSeq d + 1,
          consumerWaiting := False, resyncPending := False\<rparr>)"
proof -
  define k where "k = after_clock (after_mask_check b) now"
  define c where "c = (if now - consumerRaisedAt k \<ge> consumerAckTimeout k \<and> gateSeen k = gateSeenAtRaise k \<and> active k
    then k\<lparr>resyncAckTimeouts := resyncAckTimeouts k + 1\<rparr> else k)"
  have k: "rings k = rings b" "config k = config b" "drops k = drops b"
    "preparedChannels k = preparedChannels b" "active k = active b" "resyncLostFrames k = resyncLostFrames b"
    "consumerWriterMask k = writerMask (config b)"
    by (simp_all add: k_def after_clock_def)
  have c: "rings c = rings b" "config c = config b" "drops c = drops b"
    "preparedChannels c = preparedChannels b" "active c = active b" "resyncLostFrames c = resyncLostFrames b"
    "consumerWriterMask c = writerMask (config b)"
    by (simp_all add: c_def k)
  have "resyncPending (after_mask_check b)"
    "gateSeen k \<noteq> gateSeenAtRaise k \<or> \<not> active k \<or> now - consumerRaisedAt k \<ge> consumerAckTimeout k"
    using assms by (auto simp: may_drain_def k_def after_clock_def)
  then have "snd (serviceResyncAsConsumer b now) =
       (let (largest, d) = drainAsConsumer c in
        d\<lparr>resyncLostFrames := resyncLostFrames d + largest, resyncSeq := resyncSeq d + 1,
          consumerWaiting := False, resyncPending := False\<rparr>)"
    unfolding serviceResyncAsConsumer_def after_mask_check_def [symmetric] after_clock_def [symmetric]
      k_def [symmetric] Let_def c_def
    by (simp add: split_def) blast
  with c show thesis
    by (rule that)
qed

section \<open>Whole blocks\<close>

lemma snapshot_nth:
  "in_table ch \<Longrightarrow> snapshot c n ! nat ch = (if ch < n then role c ch else Unused)"
  by (auto simp: snapshot_def role_def in_table_def kMaxChannels_def Let_def)

abbreviation delivered :: "'a bus \<Rightarrow> 'a list option list \<Rightarrow> int \<Rightarrow> int \<Rightarrow> int \<Rightarrow> 'a list option" where
  "delivered b ptrs numChannels n ch \<equiv>
     (if ch < numChannels \<and> ch < preparedChannels b \<and> role (config b) ch \<noteq> Unused
      then map_option (take (nat n)) (ptrs ! nat ch) else None)"

lemma push_gate_down:
  assumes inv: "bus_inv b" and run: "active b" "\<not> resyncPending b" and m: "0 < m" and n: "0 < n" "n < 2 ^ 31"
    and rd: "\<forall>ch. 0 \<le> ch \<and> ch < m \<longrightarrow> channel_readable ptrs n ch"
  shows "\<exists>b'. pushFromCallback b (Some ptrs) m n = Some b' \<and> bus_inv b' \<and> same_but_rings b b' \<and>
    bus_capacity b' = bus_capacity b \<and> (\<forall>ch. in_table ch \<longrightarrow> chan_effect b b' ch (delivered b ptrs m n ch))"
proof -
  let ?limit = "if m < preparedChannels b then m else preparedChannels b"
  let ?roles = "snapshot (config b) m"
  have tab: "\<forall>ch \<in> set [0..?limit - 1]. in_table ch \<and> channel_readable ptrs n ch"
    using inv rd by (auto simp: bus_inv_def in_table_def)
  obtain b' where b': "push_channels ?roles ptrs n [0..?limit - 1] b = Some b'" "bus_inv b'"
      "same_but_rings b b'" "bus_capacity b' = bus_capacity b"
      "\<forall>ch. in_table ch \<longrightarrow> chan_effect b b' ch (if ch \<in> set [0..?limit - 1] then offered ?roles ptrs n ch else None)"
    using push_channels_spec [OF inv _ tab n, of ?roles] by auto
  have "(if ch \<in> set [0..?limit - 1] then offered ?roles ptrs n ch else None) = delivered b ptrs m n ch"
    if "in_table ch" for ch
    using that by (auto simp: offered_def snapshot_nth in_table_def)
  then have "\<forall>ch. in_table ch \<longrightarrow> chan_effect b b' ch (delivered b ptrs m n ch)"
    using b'(5) by simp
  moreover have "pushFromCallback b (Some ptrs) m n = Some b'"
    using run m n b'(1) by (simp add: pushFromCallback_def Let_def)
  ultimately show ?thesis
    using b' by blast
qed

text \<open>A block as the callback hands it over: channel pointers, channel count, sample count.\<close>

type_synonym 'a block = "'a list option list \<times> int \<times> int"

fun push_all :: "'a bus \<Rightarrow> 'a block list \<Rightarrow> 'a bus option" where
  "push_all b [] = Some b"
| "push_all b ((ptrs, m, n) # blocks) =
     do { b' \<leftarrow> pushFromCallback b (Some ptrs) m n; push_all b' blocks }"

text \<open>
  A block that delivers every prepared channel: at least as many channels as prepared, every pointer
  set, every array of the announced length.
\<close>

fun whole_block :: "int \<Rightarrow> 'a block \<Rightarrow> bool" where
  "whole_block prepared (ptrs, m, n) \<longleftrightarrow> 0 < m \<and> prepared \<le> m \<and> 0 < n \<and> n < 2 ^ 31 \<and> nat m \<le> length ptrs \<and>
     list_all (\<lambda>p. case p of None \<Rightarrow> False | Some xs \<Rightarrow> length xs = nat n) ptrs"

definition samples_of :: "'a block \<Rightarrow> int \<Rightarrow> 'a list" where
  "samples_of blk ch = the (fst blk ! nat ch)"

definition routed :: "'a bus \<Rightarrow> int \<Rightarrow> bool" where
  "routed b ch \<longleftrightarrow> 0 \<le> ch \<and> ch < preparedChannels b \<and> role (config b) ch \<noteq> Unused"

text \<open>Which of a sequence of blocks of sizes \<open>ns\<close> fit, starting from \<open>len\<close> queued samples.\<close>

fun accepts :: "nat \<Rightarrow> nat \<Rightarrow> nat list \<Rightarrow> bool list" where
  "accepts cap len [] = []"
| "accepts cap len (n # ns) =
     (if len + n \<le> cap then True # accepts cap (len + n) ns else False # accepts cap len ns)"

fun selected :: "bool list \<Rightarrow> 'b list list \<Rightarrow> 'b list" where
  "selected (a # as) (x # xs) = (if a then x @ selected as xs else selected as xs)"
| "selected _ _ = []"

lemma push_whole:
  assumes inv: "bus_inv b" and run: "active b" "\<not> resyncPending b"
    and w: "whole_block (preparedChannels b) (ptrs, m, n)"
  shows "\<exists>b'. pushFromCallback b (Some ptrs) m n = Some b' \<and> bus_inv b' \<and> same_but_rings b b' \<and>
    bus_capacity b' = bus_capacity b \<and>
    (\<forall>ch. routed b ch \<longrightarrow> length (samples_of (ptrs, m, n) ch) = nat n \<and>
       chan_effect b b' ch (Some (samples_of (ptrs, m, n) ch)))"
proof -
  have lens: "\<exists>xs. ptrs ! nat ch = Some xs \<and> length xs = nat n" if "0 \<le> ch" "ch < m" for ch
  proof -
    have "ptrs ! nat ch \<in> set ptrs"
      using that w by (intro nth_mem) auto
    then show ?thesis
      using w by (auto simp: list_all_iff split: option.splits)
  qed
  have nm: "nat ch < length ptrs" if "0 \<le> ch" "ch < m" for ch
    using that w by auto
  have "\<forall>ch. 0 \<le> ch \<and> ch < m \<longrightarrow> channel_readable ptrs n ch"
    using lens nm by (fastforce simp: channel_readable_def)
  then obtain b' where b': "pushFromCallback b (Some ptrs) m n = Some b'" "bus_inv b'" "same_but_rings b b'"
      "bus_capacity b' = bus_capacity b" "\<forall>ch. in_table ch \<longrightarrow> chan_effect b b' ch (delivered b ptrs m n ch)"
    using push_gate_down [OF inv run, of m n ptrs] w by auto
  have "length (samples_of (ptrs, m, n) ch) = nat n \<and> chan_effect b b' ch (Some (samples_of (ptrs, m, n) ch))"
    if r: "routed b ch" for ch
  proof -
    have ch: "0 \<le> ch" "ch < m" "in_table ch"
      using r w inv by (auto simp: routed_def bus_inv_def in_table_def)
    then have "delivered b ptrs m n ch = Some (samples_of (ptrs, m, n) ch)"
      using lens [of ch] r by (auto simp: routed_def samples_of_def)
    then show ?thesis
      using b'(5) ch lens [of ch] by (auto simp: samples_of_def)
  qed
  with b' show ?thesis
    by blast
qed

lemma push_all_aligned:
  assumes "bus_inv b" "active b" "\<not> resyncPending b" "\<forall>blk \<in> set blocks. whole_block (preparedChannels b) blk"
    and "\<forall>ch. routed b ch \<longrightarrow> length (chan_contents b ch) = len"
  shows "\<exists>b'. push_all b blocks = Some b' \<and> bus_inv b' \<and> same_but_rings b b' \<and>
    (\<forall>ch. routed b ch \<longrightarrow> chan_contents b' ch = chan_contents b ch @
       selected (accepts (bus_capacity b) len (map (\<lambda>(_, _, n). nat n) blocks)) (map (\<lambda>blk. samples_of blk ch) blocks))"
  using assms
proof (induction blocks arbitrary: b len)
  case Nil
  then show ?case
    by (simp add: same_but_ringsI)
next
  case (Cons blk blocks)
  obtain ptrs m n where blk: "blk = (ptrs, m, n)"
    by (cases blk)
  have w: "whole_block (preparedChannels b) (ptrs, m, n)"
    using Cons.prems(4) blk by auto
  obtain b1 where b1: "pushFromCallback b (Some ptrs) m n = Some b1" "bus_inv b1" "same_but_rings b b1"
      "bus_capacity b1 = bus_capacity b"
      "\<forall>ch. routed b ch \<longrightarrow> length (samples_of blk ch) = nat n \<and> chan_effect b b1 ch (Some (samples_of blk ch))"
    using push_whole [OF Cons.prems(1-3) w] blk by auto
  note same = same_but_ringsD [OF b1(3)]
  have routed: "routed b1 = routed b"
    using same by (auto simp: routed_def fun_eq_iff)
  let ?len = "if len + nat n \<le> bus_capacity b then len + nat n else len"
  have eff: "chan_contents b1 ch =
      (if len + nat n \<le> bus_capacity b then chan_contents b ch @ samples_of blk ch else chan_contents b ch)"
    if "routed b ch" for ch
    using b1(5) Cons.prems(5) that by (auto simp: chan_effect_def split: if_splits)
  have "\<forall>ch. routed b1 ch \<longrightarrow> length (chan_contents b1 ch) = ?len"
    using eff routed Cons.prems(5) b1(5) by auto
  moreover have "\<forall>blk \<in> set blocks. whole_block (preparedChannels b1) blk"
    using same Cons.prems(4) by auto
  ultimately obtain b2 where b2: "push_all b1 blocks = Some b2" "bus_inv b2" "same_but_rings b1 b2"
    "\<forall>ch. routed b ch \<longrightarrow> chan_contents b2 ch = chan_contents b1 ch @
       selected (accepts (bus_capacity b) ?len (map (\<lambda>(_, _, n). nat n) blocks)) (map (\<lambda>blk. samples_of blk ch) blocks)"
    using Cons.IH [of b1 ?len] b1(2,4) same Cons.prems(2,3) routed by auto
  show ?case
    using b1(1) b2 eff same_but_rings_trans [OF b1(3) b2(3)] blk by auto
qed

section \<open>Properties\<close>

text \<open>
  Property C22: no sample is lost without being counted.  A block pushed while the bus is active and the
  gate is down reaches, for every channel that the block delivers, the bus was prepared for, has a role
  and a non-null pointer, either the channel's ring as a whole or, when the ring has no room for it, its
  drop counter with the block's full length; every other channel's ring and counter stay as they were.
  No access leaves an array.
\<close>

theorem pushFromCallback_accounting:
  assumes "bus_inv b" "active b" "\<not> resyncPending b" "0 < m" "0 < n" "n < 2 ^ 31"
    and "\<forall>ch. 0 \<le> ch \<and> ch < m \<longrightarrow> channel_readable ptrs n ch"
  shows "\<exists>b'. pushFromCallback b (Some ptrs) m n = Some b' \<and> bus_inv b' \<and> config b' = config b \<and>
    (\<forall>ch. 0 \<le> ch \<and> ch < kMaxChannels \<longrightarrow>
      (if ch < m \<and> ch < preparedChannels b \<and> role (config b) ch \<noteq> Unused \<and> ptrs ! nat ch \<noteq> None
       then (if length (chan_contents b ch) + nat n \<le> bus_capacity b
             then chan_contents b' ch = chan_contents b ch @ take (nat n) (the (ptrs ! nat ch)) \<and>
                  dropCount b' ch = dropCount b ch
             else chan_contents b' ch = chan_contents b ch \<and>
                  dropCount b' ch = dropCount b ch + word_of_nat (nat n))
       else chan_contents b' ch = chan_contents b ch \<and> dropCount b' ch = dropCount b ch))"
proof -
  obtain b' where b': "pushFromCallback b (Some ptrs) m n = Some b'" "bus_inv b'" "same_but_rings b b'"
      "\<forall>ch. in_table ch \<longrightarrow> chan_effect b b' ch (delivered b ptrs m n ch)"
    using push_gate_down [OF assms] by auto
  have len: "length (take (nat n) xs) = nat n" if "0 \<le> ch" "ch < m" "ptrs ! nat ch = Some xs" for ch xs
    using assms(7) that by (auto simp: channel_readable_def)
  have "if ch < m \<and> ch < preparedChannels b \<and> role (config b) ch \<noteq> Unused \<and> ptrs ! nat ch \<noteq> None
       then (if length (chan_contents b ch) + nat n \<le> bus_capacity b
             then chan_contents b' ch = chan_contents b ch @ take (nat n) (the (ptrs ! nat ch)) \<and>
                  dropCount b' ch = dropCount b ch
             else chan_contents b' ch = chan_contents b ch \<and>
                  dropCount b' ch = dropCount b ch + word_of_nat (nat n))
       else chan_contents b' ch = chan_contents b ch \<and> dropCount b' ch = dropCount b ch"
    if ch: "0 \<le> ch" "ch < kMaxChannels" for ch
  proof -
    have "chan_effect b b' ch (delivered b ptrs m n ch)"
      using b'(4) ch by (simp add: in_table_def)
    moreover have "dropCount b' ch = drops b' ! nat ch" "dropCount b ch = drops b ! nat ch"
      using ch by (simp_all add: dropCount_def)
    ultimately show ?thesis
      using len [OF ch(1)] by (cases "ptrs ! nat ch") (auto simp: chan_effect_def split: if_splits)
  qed
  then show ?thesis
    using b' same_but_ringsD [OF b'(3)] by blast
qed

text \<open>
  while the resync gate is up, or the bus is inactive, the callback touches no ring and no
  drop counter.  A gated block acknowledges the gate and its length is added to both lost-frame
  counters; an inactive bus changes nothing at all.
\<close>

theorem pushFromCallback_gated:
  "(resyncPending b \<or> \<not> active b \<longrightarrow>
     (\<exists>b'. pushFromCallback b input m n = Some b' \<and> rings b' = rings b \<and> drops b' = drops b)) \<and>
   (\<not> active b \<longrightarrow> pushFromCallback b input m n = Some b) \<and>
   (resyncPending b \<and> active b \<and> 0 < m \<and> 0 < n \<longrightarrow>
     (\<exists>b'. pushFromCallback b (Some ptrs) m n = Some b' \<and> gateSeen b' = gateSeen b + 1 \<and>
        resyncLostFrames b' = resyncLostFrames b + word_of_int n \<and>
        resyncFrames b' = resyncFrames b + word_of_int n))"
  by (auto simp: pushFromCallback_def split: option.splits)

text \<open>
  \<^verbatim>\<open>serviceResyncAsConsumer\<close> drains everything or nothing.  It returns true exactly when a
  resync is pending (after it has compared the set of written channels) and a callback acknowledged the
  gate, the bus is idle, or the wait timed out; then every one of the 64 rings is empty, the gate is
  down, and the largest backlog is added to the lost frames.  When it returns false no ring has changed
  and the gate is as it was, or up if the set of written channels changed.
\<close>

theorem serviceResync_drains_all_or_nothing:
  assumes "bus_inv b" and "serviceResyncAsConsumer b now = (done, b')"
  shows "bus_inv b' \<and> (done \<longleftrightarrow> may_drain (after_mask_check b) now) \<and>
    (if done then
       (\<forall>ch. in_table ch \<longrightarrow> chan_contents b' ch = []) \<and> \<not> resyncPending b' \<and>
       resyncLostFrames b' = resyncLostFrames b +
         word_of_nat (fold max (map (\<lambda>r. length (ring_contents r)) (rings b)) 0)
     else rings b' = rings b \<and>
       resyncPending b' = (resyncPending b \<or> writerMask (config b) \<noteq> consumerWriterMask b))"
proof -
  have d: "done = may_drain (after_mask_check b) now" and b': "b' = snd (serviceResyncAsConsumer b now)"
    using assms(2) service_result [of b now] by auto
  show ?thesis
  proof (cases "done")
    case False
    have "resyncPending (after_mask_check b) = (resyncPending b \<or> writerMask (config b) \<noteq> consumerWriterMask b)"
      by (simp add: after_mask_check_def raiseGate_def)
    moreover have "bus_inv b'"
      using service_waits [of b now] False d assms(1) bus_inv_cong [of b' b] by (simp add: b')
    ultimately show ?thesis
      using service_waits [of b now] False d b' by auto
  next
    case True
    then have "may_drain (after_mask_check b) now"
      using d by simp
    then obtain c where c: "rings c = rings b" "config c = config b" "drops c = drops b"
      "preparedChannels c = preparedChannels b" "active c = active b" "resyncLostFrames c = resyncLostFrames b"
      "consumerWriterMask c = writerMask (config b)" "b' = (let (largest, d) = drainAsConsumer c in
        d\<lparr>resyncLostFrames := resyncLostFrames d + largest, resyncSeq := resyncSeq d + 1,
          consumerWaiting := False, resyncPending := False\<rparr>)"
      unfolding b' by (rule service_drains)
    have inv: "bus_inv c"
      using assms(1) bus_inv_cong [of c b] c by simp
    obtain l e where le: "drainAsConsumer c = (l, e)"
      by fastforce
    note spec = drainAsConsumer_spec [OF inv, unfolded le fst_conv snd_conv]
    obtain rs where rs: "e = c\<lparr>rings := rs\<rparr>"
      using spec(3) by blast
    have l: "l = word_of_nat (fold max (map (\<lambda>r. length (ring_contents r)) (rings b)) 0)"
      using arg_cong [OF spec(4), of "word_of_nat :: nat \<Rightarrow> size_t"] c(1) by simp
    have "bus_inv b'"
      using spec(1) bus_inv_cong [of b' e] by (simp add: c(8) le)
    then show ?thesis
      using True d spec(2) l rs c le by simp
  qed
qed

lemma drainAsConsumer_frame:
  "config (snd (drainAsConsumer b)) = config b" "preparedChannels (snd (drainAsConsumer b)) = preparedChannels b"
  "active (snd (drainAsConsumer b)) = active b"
  by (simp_all add: drainAsConsumer_def split_def Let_def)

lemma service_frame:
  assumes "may_drain (after_mask_check b) now"
  shows "config (snd (serviceResyncAsConsumer b now)) = config b \<and>
    preparedChannels (snd (serviceResyncAsConsumer b now)) = preparedChannels b \<and>
    active (snd (serviceResyncAsConsumer b now)) = active b \<and>
    \<not> resyncPending (snd (serviceResyncAsConsumer b now))"
  by (rule service_drains [OF assms]) (simp add: drainAsConsumer_frame split_def Let_def)

lemma length_accepts [simp]: "length (accepts cap len ns) = length ns"
  by (induction cap len ns rule: accepts.induct) auto

lemma service_empties:
  assumes "bus_inv b" "may_drain (after_mask_check b) now"
  shows "bus_inv (snd (serviceResyncAsConsumer b now)) \<and>
    (\<forall>ch. in_table ch \<longrightarrow> chan_contents (snd (serviceResyncAsConsumer b now)) ch = [])"
proof -
  obtain c where c: "rings c = rings b" "config c = config b" "drops c = drops b"
      "preparedChannels c = preparedChannels b" "active c = active b" "resyncLostFrames c = resyncLostFrames b"
      "consumerWriterMask c = writerMask (config b)" "snd (serviceResyncAsConsumer b now) =
      (let (largest, d) = drainAsConsumer c in
        d\<lparr>resyncLostFrames := resyncLostFrames d + largest, resyncSeq := resyncSeq d + 1,
          consumerWaiting := False, resyncPending := False\<rparr>)"
    by (rule service_drains [OF assms(2)])
  have inv: "bus_inv c"
    using assms(1) bus_inv_cong [of c b] c by simp
  have rings: "rings (snd (serviceResyncAsConsumer b now)) = rings (snd (drainAsConsumer c))"
    "length (drops (snd (serviceResyncAsConsumer b now))) = length (drops (snd (drainAsConsumer c)))"
    "preparedChannels (snd (serviceResyncAsConsumer b now)) = preparedChannels (snd (drainAsConsumer c))"
    unfolding c(8) by (simp_all add: split_def Let_def)
  show ?thesis
    using drainAsConsumer_spec(1,2) [OF inv] bus_inv_cong [OF rings] rings(1) by simp
qed

text \<open>
  Property C14: after a completed resync the routed channels stay aligned in time.  Whatever whole blocks
  the callback pushes afterwards, every routed ring holds exactly the same blocks of the sequence (one
  accept/refuse decision per block, common to all routed channels), each with its own samples, in order,
  from the same first block on.
\<close>

theorem resync_then_push_aligned:
  assumes "bus_inv b" "serviceResyncAsConsumer b now = (True, b1)" "active b"
    and "\<forall>blk \<in> set blocks. whole_block (preparedChannels b) blk"
  shows "\<exists>b2 acc. push_all b1 blocks = Some b2 \<and> length acc = length blocks \<and>
    (\<forall>ch. routed b ch \<longrightarrow> chan_contents b2 ch = selected acc (map (\<lambda>blk. samples_of blk ch) blocks))"
proof -
  have md: "may_drain (after_mask_check b) now" and b1: "b1 = snd (serviceResyncAsConsumer b now)"
    using assms(2) service_result [of b now] by auto
  note frame = service_frame [OF md, folded b1]
  note empty = service_empties [OF assms(1) md, folded b1]
  have routed: "routed b1 = routed b" "\<And>ch. routed b ch \<Longrightarrow> in_table ch"
    using frame assms(1) by (auto simp: routed_def fun_eq_iff in_table_def bus_inv_def)
  have "\<forall>ch. routed b1 ch \<longrightarrow> length (chan_contents b1 ch) = 0"
    using empty routed by simp
  then obtain b2 where "push_all b1 blocks = Some b2"
    "\<forall>ch. routed b1 ch \<longrightarrow> chan_contents b2 ch = chan_contents b1 ch @
       selected (accepts (bus_capacity b1) 0 (map (\<lambda>(_, _, n). nat n) blocks)) (map (\<lambda>blk. samples_of blk ch) blocks)"
    using push_all_aligned [of b1 blocks 0] empty frame assms(3,4) by auto
  then show ?thesis
    using routed empty by (intro exI conjI) auto
qed

section \<open>A concrete bus\<close>

text \<open>
  Two prepared channels, a reference and a measurement, on rings of four samples, with a resync pending
  that a callback has acknowledged.
\<close>

definition demo_ring :: "nat ring" where
  "demo_ring = \<lparr>storage = [0, 0, 0, 0], ring_mask = 3, writeIndex = 0, readIndex = 0\<rparr>"

definition demo_bus :: "bool \<Rightarrow> nat bus" where
  "demo_bus pending = \<lparr>rings = replicate 64 demo_ring,
     config = snd (setRole (snd (setRole ChannelConfig_new 0 Reference)) 1 Measurement),
     drops = replicate 64 0, active = True, epoch = 1, consumerAttached = True,
     resyncPending = pending, resyncFrames = 0, resyncLostFrames = 0, resyncSeq = 0,
     resyncAckTimeouts = 0, gateSeen = 1, gateSeenAtRaise = 0, consumerWaiting = False,
     consumerRaisedAt = 0, consumerAckTimeout = 500, consumerWriterMask = 3,
     busSampleRate = Fin 48000, preparedChannels = 2\<rparr>"

lemma demo_ring_inv: "ring_inv demo_ring" "ring_contents demo_ring = []"
proof -
  have "ring_shape [0 :: nat, 0, 0, 0] 3"
    unfolding ring_shape_def by (rule exI [of _ 2]) simp
  then show "ring_inv demo_ring" "ring_contents demo_ring = []"
    by (simp_all add: ring_inv_def ring_contents_def demo_ring_def window_def)
qed

lemma demo_bus_inv: "bus_inv (demo_bus p)"
  using demo_ring_inv(1) by (simp add: bus_inv_def demo_bus_def kMaxChannels_def)

lemma demo_bus_facts:
  "role (config (demo_bus p)) 0 = Reference" "role (config (demo_bus p)) 1 = Measurement"
  "preparedChannels (demo_bus p) = 2" "active (demo_bus p)" "resyncPending (demo_bus p) = p"
  "ring_contents (rings (demo_bus p) ! 0) = []" "ring_contents (rings (demo_bus p) ! Suc 0) = []"
  "bus_capacity (demo_bus p) = 4" "dropCount (demo_bus p) 1 = 0"
  using demo_ring_inv(2)
  by (simp_all add: demo_bus_def role_def setRole_def ChannelConfig_new_def kMaxChannels_def
      bus_capacity_def dropCount_def demo_ring_def)

theorem pushFromCallback_accounting_witness:
  "(\<exists>b'. pushFromCallback (demo_bus False) (Some [Some [1, 2, 3], Some [4, 5, 6]]) 2 3 = Some b' \<and>
      chan_contents b' 1 = [4, 5, 6]) \<and>
   (\<exists>b'. pushFromCallback (demo_bus False) (Some [None, Some [1, 2, 3, 4, 5]]) 2 5 = Some b' \<and>
      chan_contents b' 1 = [] \<and> dropCount b' 1 = 5)"
proof
  have "\<forall>ch. 0 \<le> ch \<and> ch < 2 \<longrightarrow> channel_readable [Some [1, 2, 3], Some [4, 5, 6 :: nat]] 3 ch"
    by (auto simp: channel_readable_def nth_Cons split: nat.splits option.splits)
  from pushFromCallback_accounting [OF demo_bus_inv _ _ _ _ _ this, of False] show
    "\<exists>b'. pushFromCallback (demo_bus False) (Some [Some [1, 2, 3], Some [4, 5, 6]]) 2 3 = Some b' \<and>
      chan_contents b' 1 = [4, 5, 6]"
    by (auto simp: demo_bus_facts kMaxChannels_def dest!: spec [where x = 1])
next
  have "\<forall>ch. 0 \<le> ch \<and> ch < 2 \<longrightarrow> channel_readable [None, Some [1, 2, 3, 4, 5 :: nat]] 5 ch"
    by (auto simp: channel_readable_def nth_Cons split: nat.splits option.splits)
  from pushFromCallback_accounting [OF demo_bus_inv _ _ _ _ _ this, of False] show
    "\<exists>b'. pushFromCallback (demo_bus False) (Some [None, Some [1, 2, 3, 4, 5]]) 2 5 = Some b' \<and>
      chan_contents b' 1 = [] \<and> dropCount b' 1 = 5"
    by (auto simp: demo_bus_facts kMaxChannels_def dest!: spec [where x = 1])
qed

theorem pushFromCallback_gated_witness:
  "\<exists>b'. pushFromCallback (demo_bus True) (Some [Some [1, 2], Some [4, 5]]) 2 2 = Some b' \<and>
     resyncLostFrames b' = 2 \<and> gateSeen b' = 2"
  using pushFromCallback_gated [of "demo_bus True" None 2 2 "[Some [1, 2], Some [4, 5]]"]
  by (auto simp: demo_bus_facts) (auto simp: demo_bus_def)

lemma demo_writerMask: "writerMask (config (demo_bus p)) = 3"
  by (simp add: demo_bus_def) code_simp

lemma demo_service: "\<exists>b'. serviceResyncAsConsumer (demo_bus True) 0 = (True, b')"
proof -
  have "may_drain (after_mask_check (demo_bus True)) 0"
    using demo_writerMask [of True]
    by (simp add: after_mask_check_def may_drain_def) (simp add: demo_bus_def)
  then show ?thesis
    using service_result [of "demo_bus True" 0] by (cases "serviceResyncAsConsumer (demo_bus True) 0") auto
qed

theorem serviceResync_drains_all_or_nothing_witness:
  "\<exists>b'. serviceResyncAsConsumer (demo_bus True) 0 = (True, b') \<and> \<not> resyncPending b' \<and> chan_contents b' 1 = []"
proof -
  obtain b' where b': "serviceResyncAsConsumer (demo_bus True) 0 = (True, b')"
    using demo_service by blast
  show ?thesis
    using serviceResync_drains_all_or_nothing [OF demo_bus_inv b'] b'
    by (auto simp: in_table_def kMaxChannels_def dest!: spec [where x = 1])
qed

theorem resync_then_push_aligned_witness:
  "\<exists>b1 b2 acc. serviceResyncAsConsumer (demo_bus True) 0 = (True, b1) \<and>
     push_all b1 [([Some [1, 2], Some [3, 4]], 2, 2)] = Some b2 \<and>
     chan_contents b2 0 = selected acc [[1, 2]] \<and> chan_contents b2 1 = selected acc [[3, 4]]"
proof -
  obtain b1 where b1: "serviceResyncAsConsumer (demo_bus True) 0 = (True, b1)"
    using demo_service by blast
  have "\<forall>blk \<in> set [([Some [1, 2], Some [3, 4 :: nat]], 2, 2)]. whole_block (preparedChannels (demo_bus True)) blk"
    by (simp add: demo_bus_facts)
  from resync_then_push_aligned [OF demo_bus_inv b1 _ this] obtain b2 acc where
    "push_all b1 [([Some [1, 2], Some [3, 4]], 2, 2)] = Some b2"
    "\<forall>ch. routed (demo_bus True) ch \<longrightarrow> chan_contents b2 ch =
        selected acc (map (\<lambda>blk. samples_of blk ch) [([Some [1, 2], Some [3, 4]], 2, 2)])"
    by (auto simp: demo_bus_facts)
  moreover have "routed (demo_bus True) 0" "routed (demo_bus True) 1"
    by (simp_all add: routed_def demo_bus_facts)
  ultimately show ?thesis
    using b1 by (fastforce simp: samples_of_def)
qed

end
