(* ===== verification/Capture_Gate.thy ===== *)
theory Capture_Gate
  imports Capture_Bus
begin

text \<open>
  The resync gate of \<^verbatim>\<open>CaptureBus\<close> shared by three threads: the audio callback running
  \<^verbatim>\<open>pushFromCallback\<close>, the consumer running \<^verbatim>\<open>serviceResyncAsConsumer\<close>, and the device thread
  running \<^verbatim>\<open>prepare\<close> and \<^verbatim>\<open>setActive\<close>.  Every atomic load and store of the gate protocol is one
  step; the write of one ring and the drain of one ring are one step each (\<^verbatim>\<open>Ring_Concurrent\<close> refines
  those), with the ring reduced to the list of its samples.  The question the class comment asks is when
  the drain can run while a callback is still mid-block.
\<close>

section \<open>Threads and steps\<close>

datatype callback =
    CbIdle
  | CbEntered \<comment> \<open>has loaded \<open>active\<close> as true\<close>
  | CbSeen \<comment> \<open>has loaded the gate as up, has not yet bumped \<open>gateSeen\<close>\<close>
  | CbWrite nat \<comment> \<open>has loaded the gate as down, next ring to write\<close>

datatype reason = Acknowledged | Idle | TimedOut

datatype servicing =
    SvIdle
  | SvLoaded uint64_t \<comment> \<open>\<^verbatim>\<open>raiseGate\<close> has loaded \<open>gateSeen\<close>\<close>
  | SvMarked \<comment> \<open>\<^verbatim>\<open>raiseGate\<close> has stored the mark\<close>
  | SvPending \<comment> \<open>the gate was found up\<close>
  | SvDrain reason nat \<comment> \<open>draining, next ring to empty\<close>

datatype device = DvIdle | DvLoaded uint64_t | DvMarked

record 'a gate =
  g_rings :: "'a list list"
  g_cap :: nat
  g_active :: bool
  g_pending :: bool
  g_seen :: uint64_t
  g_mark :: uint64_t
  g_cb :: callback
  g_sv :: servicing
  g_dev :: device

text \<open>
  Two scheduling assumptions can be switched on.  \<open>prompt\<close>: the consumer does not begin to raise the
  gate while a callback sits between its load of an earlier gate and its bump of \<open>gateSeen\<close>.
  \<open>quiet\<close>: the bus is made inactive only when no callback is running.
\<close>

inductive gate_step :: "bool \<Rightarrow> bool \<Rightarrow> 'a gate \<Rightarrow> 'a gate \<Rightarrow> bool" for prompt quiet where
  cb_enter: "g_cb s = CbIdle \<Longrightarrow> g_dev s = DvIdle \<Longrightarrow> g_active s \<Longrightarrow>
     gate_step prompt quiet s (s\<lparr>g_cb := CbEntered\<rparr>)"
| cb_gated: "g_cb s = CbEntered \<Longrightarrow> g_pending s \<Longrightarrow> gate_step prompt quiet s (s\<lparr>g_cb := CbSeen\<rparr>)"
| cb_bump: "g_cb s = CbSeen \<Longrightarrow> gate_step prompt quiet s (s\<lparr>g_cb := CbIdle, g_seen := g_seen s + 1\<rparr>)"
| cb_open: "g_cb s = CbEntered \<Longrightarrow> \<not> g_pending s \<Longrightarrow> gate_step prompt quiet s (s\<lparr>g_cb := CbWrite 0\<rparr>)"
| cb_write: "g_cb s = CbWrite k \<Longrightarrow> k < length (g_rings s) \<Longrightarrow> length (g_rings s ! k) + length blk \<le> g_cap s \<Longrightarrow>
     gate_step prompt quiet s (s\<lparr>g_cb := CbWrite (Suc k), g_rings := (g_rings s)[k := g_rings s ! k @ blk]\<rparr>)"
| cb_skip: "g_cb s = CbWrite k \<Longrightarrow> k < length (g_rings s) \<Longrightarrow>
     gate_step prompt quiet s (s\<lparr>g_cb := CbWrite (Suc k)\<rparr>)"
| cb_leave: "g_cb s = CbWrite (length (g_rings s)) \<Longrightarrow> gate_step prompt quiet s (s\<lparr>g_cb := CbIdle\<rparr>)"
| sv_load: "g_sv s = SvIdle \<Longrightarrow> (prompt \<longrightarrow> g_cb s \<noteq> CbSeen) \<Longrightarrow>
     gate_step prompt quiet s (s\<lparr>g_sv := SvLoaded (g_seen s)\<rparr>)"
| sv_mark: "g_sv s = SvLoaded v \<Longrightarrow> gate_step prompt quiet s (s\<lparr>g_sv := SvMarked, g_mark := v\<rparr>)"
| sv_raise: "g_sv s = SvMarked \<Longrightarrow> gate_step prompt quiet s (s\<lparr>g_sv := SvPending, g_pending := True\<rparr>)"
| sv_found: "g_sv s = SvIdle \<Longrightarrow> g_pending s \<Longrightarrow> gate_step prompt quiet s (s\<lparr>g_sv := SvPending\<rparr>)"
| sv_wait: "g_sv s = SvPending \<Longrightarrow> gate_step prompt quiet s (s\<lparr>g_sv := SvIdle\<rparr>)"
| sv_acked: "g_sv s = SvPending \<Longrightarrow> g_seen s \<noteq> g_mark s \<Longrightarrow>
     gate_step prompt quiet s (s\<lparr>g_sv := SvDrain Acknowledged 0\<rparr>)"
| sv_idle: "g_sv s = SvPending \<Longrightarrow> \<not> g_active s \<Longrightarrow>
     gate_step prompt quiet s (s\<lparr>g_sv := SvDrain Idle 0\<rparr>)"
| sv_timeout: "g_sv s = SvPending \<Longrightarrow> gate_step prompt quiet s (s\<lparr>g_sv := SvDrain TimedOut 0\<rparr>)"
| sv_drain: "g_sv s = SvDrain r k \<Longrightarrow> k < length (g_rings s) \<Longrightarrow>
     gate_step prompt quiet s (s\<lparr>g_sv := SvDrain r (Suc k), g_rings := (g_rings s)[k := []]\<rparr>)"
| sv_lower: "g_sv s = SvDrain r (length (g_rings s)) \<Longrightarrow>
     gate_step prompt quiet s (s\<lparr>g_sv := SvIdle, g_pending := False\<rparr>)"
| dv_load: "g_dev s = DvIdle \<Longrightarrow> g_cb s = CbIdle \<Longrightarrow>
     gate_step prompt quiet s (s\<lparr>g_dev := DvLoaded (g_seen s)\<rparr>)"
| dv_mark: "g_dev s = DvLoaded v \<Longrightarrow> gate_step prompt quiet s (s\<lparr>g_dev := DvMarked, g_mark := v\<rparr>)"
| dv_raise: "g_dev s = DvMarked \<Longrightarrow> gate_step prompt quiet s (s\<lparr>g_dev := DvIdle, g_pending := True\<rparr>)"
| dv_start: "g_dev s = DvIdle \<Longrightarrow> gate_step prompt quiet s (s\<lparr>g_active := True\<rparr>)"
| dv_stop: "g_dev s = DvIdle \<Longrightarrow> (quiet \<longrightarrow> g_cb s = CbIdle) \<Longrightarrow>
     gate_step prompt quiet s (s\<lparr>g_active := False\<rparr>)"

definition gate_init :: "nat \<Rightarrow> nat \<Rightarrow> 'a gate" where
  "gate_init channels cap =
     \<lparr>g_rings = replicate channels [], g_cap = cap, g_active = False, g_pending = False, g_seen = 0,
      g_mark = 0, g_cb = CbIdle, g_sv = SvIdle, g_dev = DvIdle\<rparr>"

inductive gate_reach :: "bool \<Rightarrow> bool \<Rightarrow> nat \<Rightarrow> nat \<Rightarrow> 'a gate \<Rightarrow> bool" for prompt quiet channels cap where
  start: "gate_reach prompt quiet channels cap (gate_init channels cap)"
| step: "gate_reach prompt quiet channels cap s \<Longrightarrow> gate_step prompt quiet s t \<Longrightarrow>
     gate_reach prompt quiet channels cap t"

fun mid_block :: "callback \<Rightarrow> bool" where
  "mid_block (CbWrite k) = True"
| "mid_block _ = False"

fun draining :: "servicing \<Rightarrow> bool" where
  "draining (SvDrain r k) = True"
| "draining _ = False"

section \<open>The invariant under the two assumptions\<close>

fun sv_ok :: "'a gate \<Rightarrow> servicing \<Rightarrow> bool" where
  "sv_ok s SvIdle = True"
| "sv_ok s (SvLoaded v) \<longleftrightarrow> (\<not> g_pending s \<or> mid_block (g_cb s) \<longrightarrow> v = g_seen s) \<and> (g_cb s = CbSeen \<longrightarrow> g_pending s)"
| "sv_ok s SvMarked \<longleftrightarrow> (\<not> g_pending s \<or> mid_block (g_cb s) \<longrightarrow> g_mark s = g_seen s) \<and>
     (g_cb s = CbSeen \<longrightarrow> g_pending s)"
| "sv_ok s SvPending \<longleftrightarrow> g_pending s"
| "sv_ok s (SvDrain r k) \<longleftrightarrow> g_pending s \<and> k \<le> length (g_rings s) \<and>
     (r \<noteq> TimedOut \<longrightarrow> \<not> mid_block (g_cb s) \<and> (\<forall>i < k. g_rings s ! i = []))"

definition gate_inv :: "'a gate \<Rightarrow> bool" where
  "gate_inv s \<longleftrightarrow> sv_ok s (g_sv s) \<and>
     (g_pending s \<and> mid_block (g_cb s) \<longrightarrow> g_mark s = g_seen s) \<and>
     (g_dev s \<noteq> DvIdle \<longrightarrow> g_cb s = CbIdle) \<and> (\<forall>v. g_dev s = DvLoaded v \<longrightarrow> v = g_seen s) \<and>
     (\<not> g_active s \<longrightarrow> g_cb s = CbIdle)"

lemma gate_inv_init: "gate_inv (gate_init channels cap)"
  by (simp add: gate_inv_def gate_init_def)

lemma gate_step_inv:
  assumes "gate_step True True s t" and inv: "gate_inv s"
  shows "gate_inv t"
proof -
  have sv: "sv_ok s (g_sv s)" and mk: "g_pending s \<and> mid_block (g_cb s) \<longrightarrow> g_mark s = g_seen s"
    and dv: "g_dev s \<noteq> DvIdle \<longrightarrow> g_cb s = CbIdle" "\<forall>v. g_dev s = DvLoaded v \<longrightarrow> v = g_seen s"
    and ac: "\<not> g_active s \<longrightarrow> g_cb s = CbIdle"
    using inv by (auto simp: gate_inv_def)
  show ?thesis
    using assms(1)
  proof (cases rule: gate_step.cases)
    case (sv_drain r k)
    then show ?thesis
      using sv mk dv ac by (auto simp: gate_inv_def nth_list_update less_Suc_eq)
  qed (use sv mk dv ac in \<open>cases "g_sv s"; simp add: gate_inv_def\<close>)+
qed

lemma gate_reach_inv: "gate_reach True True channels cap s \<Longrightarrow> gate_inv s"
  by (induction rule: gate_reach.induct) (auto intro: gate_inv_init gate_step_inv)

lemma gate_reach_rings: "gate_reach prompt quiet channels cap s \<Longrightarrow> length (g_rings s) = channels"
proof (induction rule: gate_reach.induct)
  case start
  then show ?case by (simp add: gate_init_def)
next
  case (step s t)
  show ?case
    using step.hyps(2) step.IH by (cases rule: gate_step.cases) auto
qed

section \<open>Properties of the gate\<close>

text \<open>
  Property C13: the drain never races the callback, and leaves every ring empty.  If the consumer starts
  raising the gate only when no callback is between observing an earlier gate and acknowledging it, and
  the bus is made inactive only between callbacks, then in every interleaving a drain that was started by
  an acknowledgement or by an idle bus runs with the gate up and no callback mid-block, every ring it has
  passed is still empty, and at the moment it lowers the gate all rings are empty together.
\<close>

theorem gate_drain_exclusive:
  assumes "gate_reach True True channels cap s" "g_sv s = SvDrain r k" "r \<noteq> TimedOut"
  shows "g_pending s \<and> \<not> mid_block (g_cb s) \<and> k \<le> channels \<and> take k (g_rings s) = replicate k []"
proof -
  have inv: "sv_ok s (SvDrain r k)" and len: "length (g_rings s) = channels"
    using gate_reach_inv [OF assms(1)] gate_reach_rings [OF assms(1)] assms(2) by (auto simp: gate_inv_def)
  then have "take k (g_rings s) = replicate k []"
    using assms(3) by (intro nth_equalityI) simp_all
  with inv len assms(3) show ?thesis
    by simp
qed

text \<open>A run of the protocol, one step at a time.\<close>

lemma gate_go:
  assumes "gate_reach p q channels cap s" "gate_step p q s t'" "t' = t"
  shows "gate_reach p q channels cap t"
  using assms by (auto intro: gate_reach.step)

definition gate_at :: "nat list list \<Rightarrow> bool \<Rightarrow> bool \<Rightarrow> uint64_t \<Rightarrow> uint64_t \<Rightarrow> callback \<Rightarrow> servicing \<Rightarrow> nat gate" where
  "gate_at rs a p seen mark cb sv =
     \<lparr>g_rings = rs, g_cap = 4, g_active = a, g_pending = p, g_seen = seen, g_mark = mark, g_cb = cb,
      g_sv = sv, g_dev = DvIdle\<rparr>"

text \<open>A consumer raises the gate, a callback acknowledges it, the consumer drains the only ring.\<close>

lemma gate_run_acked:
  "gate_reach p True 1 4 (gate_at [[]] True True 1 0 CbIdle (SvDrain Acknowledged 0))"
proof -
  let ?R = "gate_reach p True 1 4"
  have "?R (gate_init 1 4)"
    by (rule gate_reach.start)
  then have "?R (gate_at [[]] True False 0 0 CbIdle SvIdle)"
    by (rule gate_go [OF _ gate_step.dv_start]) (simp_all add: gate_init_def gate_at_def)
  then have "?R (gate_at [[]] True False 0 0 CbIdle (SvLoaded 0))"
    by (rule gate_go [OF _ gate_step.sv_load]) (simp_all add: gate_at_def)
  then have "?R (gate_at [[]] True False 0 0 CbIdle SvMarked)"
    by (rule gate_go [OF _ gate_step.sv_mark]) (simp_all add: gate_at_def)
  then have "?R (gate_at [[]] True True 0 0 CbIdle SvPending)"
    by (rule gate_go [OF _ gate_step.sv_raise]) (simp_all add: gate_at_def)
  then have "?R (gate_at [[]] True True 0 0 CbEntered SvPending)"
    by (rule gate_go [OF _ gate_step.cb_enter]) (simp_all add: gate_at_def)
  then have "?R (gate_at [[]] True True 0 0 CbSeen SvPending)"
    by (rule gate_go [OF _ gate_step.cb_gated]) (simp_all add: gate_at_def)
  then have "?R (gate_at [[]] True True 1 0 CbIdle SvPending)"
    by (rule gate_go [OF _ gate_step.cb_bump]) (simp_all add: gate_at_def)
  then show ?thesis
    by (rule gate_go [OF _ gate_step.sv_acked]) (simp_all add: gate_at_def)
qed

theorem gate_drain_exclusive_witness:
  "gate_reach True True 1 4 (gate_at [[]] True True 1 0 CbIdle (SvDrain Acknowledged 0)) \<and>
   \<not> mid_block (g_cb (gate_at [[]] True True 1 0 CbIdle (SvDrain Acknowledged 0)))"
  using gate_drain_exclusive [OF gate_run_acked] gate_run_acked by (simp add: gate_at_def)

text \<open>
  the acknowledgement can be stale.  Without the first assumption a callback that observed
  the previous gate and was delayed before its counter bump acknowledges the next gate in its place, and
  the consumer drains while the following callback is mid-block: the drain completes with a sample left
  in a ring it has already passed.
\<close>

theorem gate_stale_acknowledgement:
  "\<exists>s :: nat gate. gate_reach False True 1 4 s \<and> g_sv s = SvDrain Acknowledged (length (g_rings s)) \<and>
     mid_block (g_cb s) \<and> g_rings s \<noteq> [[]]"
proof -
  let ?R = "gate_reach False True 1 4"
  have "?R (gate_at [[]] True True 1 0 CbIdle (SvDrain Acknowledged 0))"
    by (rule gate_run_acked)
  then have "?R (gate_at [[]] True True 1 0 CbEntered (SvDrain Acknowledged 0))"
    by (rule gate_go [OF _ gate_step.cb_enter]) (simp_all add: gate_at_def)
  then have "?R (gate_at [[]] True True 1 0 CbSeen (SvDrain Acknowledged 0))"
    by (rule gate_go [OF _ gate_step.cb_gated]) (simp_all add: gate_at_def)
  then have "?R (gate_at [[]] True True 1 0 CbSeen (SvDrain Acknowledged 1))"
    by (rule gate_go [OF _ gate_step.sv_drain [where k = 0]]) (simp_all add: gate_at_def)
  then have "?R (gate_at [[]] True False 1 0 CbSeen SvIdle)"
    by (rule gate_go [OF _ gate_step.sv_lower]) (simp_all add: gate_at_def)
  then have "?R (gate_at [[]] True False 1 0 CbSeen (SvLoaded 1))"
    by (rule gate_go [OF _ gate_step.sv_load]) (simp_all add: gate_at_def)
  then have "?R (gate_at [[]] True False 2 0 CbIdle (SvLoaded 1))"
    by (rule gate_go [OF _ gate_step.cb_bump]) (simp_all add: gate_at_def)
  then have "?R (gate_at [[]] True False 2 0 CbEntered (SvLoaded 1))"
    by (rule gate_go [OF _ gate_step.cb_enter]) (simp_all add: gate_at_def)
  then have "?R (gate_at [[]] True False 2 0 (CbWrite 0) (SvLoaded 1))"
    by (rule gate_go [OF _ gate_step.cb_open]) (simp_all add: gate_at_def)
  then have "?R (gate_at [[]] True False 2 1 (CbWrite 0) SvMarked)"
    by (rule gate_go [OF _ gate_step.sv_mark]) (simp_all add: gate_at_def)
  then have "?R (gate_at [[]] True True 2 1 (CbWrite 0) SvPending)"
    by (rule gate_go [OF _ gate_step.sv_raise]) (simp_all add: gate_at_def)
  then have "?R (gate_at [[]] True True 2 1 (CbWrite 0) (SvDrain Acknowledged 0))"
    by (rule gate_go [OF _ gate_step.sv_acked]) (simp_all add: gate_at_def)
  then have "?R (gate_at [[]] True True 2 1 (CbWrite 0) (SvDrain Acknowledged 1))"
    by (rule gate_go [OF _ gate_step.sv_drain [where k = 0]]) (simp_all add: gate_at_def)
  then have "?R (gate_at [[7]] True True 2 1 (CbWrite 1) (SvDrain Acknowledged 1))"
    by (rule gate_go [OF _ gate_step.cb_write [where blk = "[7]" and k = 0]]) (simp_all add: gate_at_def)
  then show ?thesis
    by (intro exI conjI) (assumption, simp_all add: gate_at_def)
qed

text \<open>
  an inactive bus does not mean that no callback is in flight.  When the bus is made inactive
  while a callback is mid-block, the consumer takes the idle path at once and drains beside it.
\<close>

theorem gate_idle_in_flight:
  "\<exists>s :: nat gate. gate_reach True False 1 4 s \<and> g_sv s = SvDrain Idle (length (g_rings s)) \<and>
     mid_block (g_cb s) \<and> g_rings s \<noteq> [[]]"
proof -
  let ?R = "gate_reach True False 1 4"
  have "?R (gate_init 1 4)"
    by (rule gate_reach.start)
  then have "?R (gate_at [[]] True False 0 0 CbIdle SvIdle)"
    by (rule gate_go [OF _ gate_step.dv_start]) (simp_all add: gate_init_def gate_at_def)
  then have "?R (gate_at [[]] True False 0 0 CbEntered SvIdle)"
    by (rule gate_go [OF _ gate_step.cb_enter]) (simp_all add: gate_at_def)
  then have "?R (gate_at [[]] True False 0 0 (CbWrite 0) SvIdle)"
    by (rule gate_go [OF _ gate_step.cb_open]) (simp_all add: gate_at_def)
  then have "?R (gate_at [[]] True False 0 0 (CbWrite 0) (SvLoaded 0))"
    by (rule gate_go [OF _ gate_step.sv_load]) (simp_all add: gate_at_def)
  then have "?R (gate_at [[]] True False 0 0 (CbWrite 0) SvMarked)"
    by (rule gate_go [OF _ gate_step.sv_mark]) (simp_all add: gate_at_def)
  then have "?R (gate_at [[]] True True 0 0 (CbWrite 0) SvPending)"
    by (rule gate_go [OF _ gate_step.sv_raise]) (simp_all add: gate_at_def)
  then have "?R (gate_at [[]] False True 0 0 (CbWrite 0) SvPending)"
    by (rule gate_go [OF _ gate_step.dv_stop]) (simp_all add: gate_at_def)
  then have "?R (gate_at [[]] False True 0 0 (CbWrite 0) (SvDrain Idle 0))"
    by (rule gate_go [OF _ gate_step.sv_idle]) (simp_all add: gate_at_def)
  then have "?R (gate_at [[]] False True 0 0 (CbWrite 0) (SvDrain Idle 1))"
    by (rule gate_go [OF _ gate_step.sv_drain [where k = 0]]) (simp_all add: gate_at_def)
  then have "?R (gate_at [[7]] False True 0 0 (CbWrite 1) (SvDrain Idle 1))"
    by (rule gate_go [OF _ gate_step.cb_write [where blk = "[7]" and k = 0]]) (simp_all add: gate_at_def)
  then show ?thesis
    by (intro exI conjI) (assumption, simp_all add: gate_at_def)
qed

end
