(* ===== verification/Routing_Plan.thy ===== *)
theory Routing_Plan
  imports Channel_Config
begin

text \<open>
  The routing decision of \<^verbatim>\<open>app/src/measure/RoutingPlan.h\<close> and the hop arithmetic of
  \<^verbatim>\<open>PairedDrain.h\<close>: which measurement channel is paired with which reference channel, which
  references are read once per hop, and how many whole hops a group of rings can advance together.
\<close>

section \<open>Routes\<close>

definition kMaxTransferFunctions :: nat where
  "kMaxTransferFunctions = 8"

record TransferRoute =
  tfIndex :: int
  referenceChannel :: int
  measurementChannel :: int

record RoutingPlan =
  routes :: "TransferRoute list"
  distinctReferences :: "int list"
  unroutedMeasurements :: "int list"

text \<open>The inner loop: the lowest reference channel below \<open>n\<close> with this index, or \<open>-1\<close>.\<close>

definition find_reference :: "ChannelConfig \<Rightarrow> int \<Rightarrow> int \<Rightarrow> int" where
  "find_reference c n tf =
     (case find (\<lambda>r. role c r = Reference \<and> transferFunction c r = tf) [0..n - 1] of
        None \<Rightarrow> -1 | Some r \<Rightarrow> r)"

definition plan_channel :: "ChannelConfig \<Rightarrow> int \<Rightarrow> int \<Rightarrow> RoutingPlan \<Rightarrow> RoutingPlan" where
  "plan_channel c n m plan =
     (if role c m \<noteq> Measurement then plan
      else
        let tf = transferFunction c m; r = find_reference c n tf in
        if r < 0 then plan\<lparr>unroutedMeasurements := unroutedMeasurements plan @ [m]\<rparr>
        else plan\<lparr>routes := routes plan @ [\<lparr>tfIndex = tf, referenceChannel = r, measurementChannel = m\<rparr>],
                  distinctReferences :=
                    (if r \<in> set (distinctReferences plan) then distinctReferences plan
                     else distinctReferences plan @ [r])\<rparr>)"

definition planRouting :: "ChannelConfig \<Rightarrow> int \<Rightarrow> RoutingPlan" where
  "planRouting c channelCount =
     (let n = clamp channelCount 0 kMaxChannels;
          plan = fold (plan_channel c n) [0..n - 1]
                   \<lparr>routes = [], distinctReferences = [], unroutedMeasurements = []\<rparr>
      in plan\<lparr>distinctReferences := sort (distinctReferences plan)\<rparr>)"

section \<open>Hops of a group of rings\<close>

fun min_element :: "size_t list \<Rightarrow> size_t" where
  "min_element [] = 0"
| "min_element [x] = x"
| "min_element (x # y # ys) = min_element ((if y < x then y else x) # ys)"

definition pairedHopCount :: "size_t list \<Rightarrow> size_t \<Rightarrow> size_t" where
  "pairedHopCount available hop = (if hop = 0 \<or> available = [] then 0 else min_element available div hop)"

definition pairedHopCount2 :: "size_t \<Rightarrow> size_t \<Rightarrow> size_t \<Rightarrow> size_t" where
  "pairedHopCount2 r m hop = pairedHopCount [r, m] hop"

lemma min_element_least:
  "xs \<noteq> [] \<Longrightarrow> min_element xs \<in> set xs \<and> (\<forall>x \<in> set xs. min_element xs \<le> x)"
proof (induction xs rule: min_element.induct)
  case (3 x y ys)
  let ?z = "if y < x then y else x"
  have "min_element (?z # ys) \<in> set (?z # ys)" "\<forall>w \<in> set (?z # ys). min_element (?z # ys) \<le> w"
    using "3.IH" by auto
  moreover have "?z \<le> x" "?z \<le> y" "?z \<in> {x, y}"
    by auto
  ultimately show ?case
    by (auto intro: order_trans)
qed auto

lemma pairedHopCount_unat:
  assumes "hop \<noteq> 0" "av \<noteq> []"
  shows "unat (pairedHopCount av hop) = Min (unat ` set av) div unat hop"
proof -
  have "Min (unat ` set av) = unat (min_element av)"
    using min_element_least [OF assms(2)]
    by (intro Min_eqI) (auto simp: word_le_nat_alt)
  then show ?thesis
    using assms by (simp add: pairedHopCount_def unat_div_distrib)
qed

section \<open>What the plan contains\<close>

lemma find_reference_cases:
  "find_reference c n tf = -1 \<and> (\<forall>r. 0 \<le> r \<and> r < n \<longrightarrow> \<not> (role c r = Reference \<and> transferFunction c r = tf)) \<or>
   0 \<le> find_reference c n tf \<and> find_reference c n tf < n \<and>
   role c (find_reference c n tf) = Reference \<and> transferFunction c (find_reference c n tf) = tf \<and>
   (\<forall>r. 0 \<le> r \<and> r < find_reference c n tf \<longrightarrow> \<not> (role c r = Reference \<and> transferFunction c r = tf))"
proof (cases "find (\<lambda>r. role c r = Reference \<and> transferFunction c r = tf) [0..n - 1]")
  case None
  then have "find_reference c n tf = -1"
    by (simp add: find_reference_def)
  moreover have "\<forall>r. 0 \<le> r \<and> r < n \<longrightarrow> \<not> (role c r = Reference \<and> transferFunction c r = tf)"
    using None by (auto simp: find_None_iff)
  ultimately show ?thesis
    by blast
next
  case (Some r)
  then obtain i where i: "i < length [0..n - 1]" "[0..n - 1] ! i = r"
      "role c r = Reference \<and> transferFunction c r = tf"
      "\<forall>j < i. \<not> (role c ([0..n - 1] ! j) = Reference \<and> transferFunction c ([0..n - 1] ! j) = tf)"
    by (auto simp: find_Some_iff)
  have nth: "\<And>j. j < nat n \<Longrightarrow> [0..n - 1] ! j = int j"
    by (simp add: nth_upto)
  have "\<not> (role c k = Reference \<and> transferFunction c k = tf)" if "0 \<le> k" "k < r" for k
  proof -
    have "nat k < i" "[0..n - 1] ! nat k = k"
      using i(1,2) that nth [of i] nth [of "nat k"] by auto
    then show ?thesis
      using i(4) by metis
  qed
  moreover have "0 \<le> r" "r < n"
    using i(1,2) nth [of i] by auto
  ultimately show ?thesis
    using Some i(3) by (auto simp: find_reference_def)
qed

definition route_for :: "ChannelConfig \<Rightarrow> int \<Rightarrow> int \<Rightarrow> TransferRoute" where
  "route_for c n m = \<lparr>tfIndex = transferFunction c m,
     referenceChannel = find_reference c n (transferFunction c m), measurementChannel = m\<rparr>"

definition has_reference :: "ChannelConfig \<Rightarrow> int \<Rightarrow> int \<Rightarrow> bool" where
  "has_reference c n m \<longleftrightarrow> 0 \<le> find_reference c n (transferFunction c m)"

lemma fold_plan_channel:
  assumes "distinct (distinctReferences p)" "set (distinctReferences p) = referenceChannel ` set (routes p)"
  shows "routes (fold (plan_channel c n) ms p) = routes p @
      map (route_for c n) (filter (\<lambda>m. role c m = Measurement \<and> has_reference c n m) ms) \<and>
    unroutedMeasurements (fold (plan_channel c n) ms p) = unroutedMeasurements p @
      filter (\<lambda>m. role c m = Measurement \<and> \<not> has_reference c n m) ms \<and>
    distinct (distinctReferences (fold (plan_channel c n) ms p)) \<and>
    set (distinctReferences (fold (plan_channel c n) ms p)) =
      referenceChannel ` set (routes (fold (plan_channel c n) ms p))"
  using assms
proof (induction ms arbitrary: p)
  case Nil
  then show ?case by simp
next
  case (Cons m ms)
  let ?p = "plan_channel c n m p"
  have "distinct (distinctReferences ?p) \<and> set (distinctReferences ?p) = referenceChannel ` set (routes ?p)"
    using Cons.prems by (auto simp: plan_channel_def Let_def)
  moreover have "routes ?p = routes p @ (if role c m = Measurement \<and> has_reference c n m then [route_for c n m] else [])"
    "unroutedMeasurements ?p = unroutedMeasurements p @
       (if role c m = Measurement \<and> \<not> has_reference c n m then [m] else [])"
    by (auto simp: plan_channel_def has_reference_def route_for_def Let_def)
  ultimately show ?case
    using Cons.IH [of ?p] by auto
qed

lemma planRouting_lists:
  fixes c count
  defines "n \<equiv> clamp count 0 kMaxChannels"
  shows "routes (planRouting c count) =
      map (route_for c n) (filter (\<lambda>m. role c m = Measurement \<and> has_reference c n m) [0..n - 1])"
    and "unroutedMeasurements (planRouting c count) =
      filter (\<lambda>m. role c m = Measurement \<and> \<not> has_reference c n m) [0..n - 1]"
    and "distinctReferences (planRouting c count) =
      sorted_list_of_set (referenceChannel ` set (routes (planRouting c count)))"
proof -
  let ?p = "fold (plan_channel c n) [0..n - 1] \<lparr>routes = [], distinctReferences = [], unroutedMeasurements = []\<rparr>"
  have plan: "planRouting c count = ?p\<lparr>distinctReferences := sort (distinctReferences ?p)\<rparr>"
    by (simp add: planRouting_def n_def Let_def)
  note lists = fold_plan_channel [of "\<lparr>routes = [], distinctReferences = [], unroutedMeasurements = []\<rparr>" c n "[0..n - 1]", simplified]
  show "routes (planRouting c count) =
      map (route_for c n) (filter (\<lambda>m. role c m = Measurement \<and> has_reference c n m) [0..n - 1])"
    "unroutedMeasurements (planRouting c count) =
      filter (\<lambda>m. role c m = Measurement \<and> \<not> has_reference c n m) [0..n - 1]"
    using lists unfolding plan by simp_all
  have "distinct (distinctReferences ?p)" "set (distinctReferences ?p) = referenceChannel ` set (routes ?p)"
    using lists by auto
  then have "sort (distinctReferences ?p) = sorted_list_of_set (referenceChannel ` set (routes ?p))"
    by (metis sorted_list_of_set_sort_remdups distinct_remdups_id)
  then show "distinctReferences (planRouting c count) =
      sorted_list_of_set (referenceChannel ` set (routes (planRouting c count)))"
    unfolding plan by simp
qed

lemma planRouting_route:
  assumes "r \<in> set (routes (planRouting c count))"
  shows "0 \<le> measurementChannel r \<and> measurementChannel r < clamp count 0 kMaxChannels \<and>
    0 \<le> referenceChannel r \<and> referenceChannel r < clamp count 0 kMaxChannels \<and>
    role c (measurementChannel r) = Measurement \<and> role c (referenceChannel r) = Reference \<and>
    tfIndex r = transferFunction c (measurementChannel r) \<and>
    transferFunction c (referenceChannel r) = transferFunction c (measurementChannel r) \<and>
    (\<forall>k. 0 \<le> k \<and> k < referenceChannel r \<longrightarrow>
       \<not> (role c k = Reference \<and> transferFunction c k = transferFunction c (measurementChannel r)))"
proof -
  let ?n = "clamp count 0 kMaxChannels"
  obtain m where m: "m \<in> set [0..?n - 1]" "role c m = Measurement" "has_reference c ?n m" "r = route_for c ?n m"
    using assms unfolding planRouting_lists(1) by auto
  then show ?thesis
    using find_reference_cases [of c ?n "transferFunction c m"] by (auto simp: route_for_def has_reference_def)
qed

section \<open>Properties\<close>

text \<open>
  Property C33: the routing plan pairs every measurement channel correctly and reads every reference once.
  The measurement channels of the routes, in ascending order and without repetition, together with the
  unrouted ones are exactly the measurement channels below the channel count; a route names the lowest
  reference channel of its transfer function; a channel is unrouted only if no reference channel shares
  its index; and the distinct references are the sorted, repetition-free list of the routes' references.
\<close>

theorem planRouting_pairs:
  fixes c :: ChannelConfig and count :: int
  defines "n \<equiv> clamp count 0 kMaxChannels" and "plan \<equiv> planRouting c count"
  shows "sorted_wrt (<) (map measurementChannel (routes plan)) \<and>
    set (map measurementChannel (routes plan)) \<union> set (unroutedMeasurements plan) =
      {m. 0 \<le> m \<and> m < n \<and> role c m = Measurement} \<and>
    (\<forall>r \<in> set (routes plan). 0 \<le> referenceChannel r \<and> referenceChannel r < n \<and>
       role c (referenceChannel r) = Reference \<and> tfIndex r = transferFunction c (measurementChannel r) \<and>
       transferFunction c (referenceChannel r) = transferFunction c (measurementChannel r) \<and>
       (\<forall>k. 0 \<le> k \<and> k < referenceChannel r \<longrightarrow>
          \<not> (role c k = Reference \<and> transferFunction c k = transferFunction c (measurementChannel r)))) \<and>
    (\<forall>m \<in> set (unroutedMeasurements plan). \<forall>k. 0 \<le> k \<and> k < n \<longrightarrow>
       \<not> (role c k = Reference \<and> transferFunction c k = transferFunction c m)) \<and>
    distinctReferences plan = sorted_list_of_set (referenceChannel ` set (routes plan))"
proof -
  have ms: "map measurementChannel (routes plan) = filter (\<lambda>m. role c m = Measurement \<and> has_reference c n m) [0..n - 1]"
    unfolding plan_def planRouting_lists(1) n_def [symmetric] by (simp add: route_for_def o_def)
  have "sorted_wrt (<) [0..n - 1]"
    by (simp add: sorted_wrt_iff_nth_less)
  then have "sorted_wrt (<) (map measurementChannel (routes plan))"
    unfolding ms by (rule sorted_wrt_filter)
  moreover have "set (map measurementChannel (routes plan)) \<union> set (unroutedMeasurements plan) =
      {m. 0 \<le> m \<and> m < n \<and> role c m = Measurement}"
    using arg_cong [OF ms, of set] planRouting_lists(2) [of c count, folded n_def plan_def] by auto
  moreover have "\<not> (role c k = Reference \<and> transferFunction c k = transferFunction c m)"
    if "m \<in> set (unroutedMeasurements plan)" "0 \<le> k" "k < n" for m k
    using that find_reference_cases [of c n "transferFunction c m"]
    unfolding plan_def planRouting_lists(2) n_def [symmetric] has_reference_def by auto
  ultimately show ?thesis
    using planRouting_route [of _ c count] planRouting_lists(3) [of c count]
    unfolding plan_def n_def by blast
qed

text \<open>
  Two measurement channels share the reference on channel 2; a third names an index with no reference.
\<close>

definition demo_routing :: ChannelConfig where
  "demo_routing = (let c = ChannelConfig_new; c = snd (setRole c 0 Measurement); c = snd (setRole c 1 Measurement);
     c = snd (setRole c 2 Reference); c = snd (setRole c 3 Measurement); c = snd (setTransferFunction c 3 5) in c)"

theorem planRouting_pairs_witness:
  "list_all (\<lambda>r. role demo_routing (referenceChannel r) = Reference) (routes (planRouting demo_routing 4)) \<and>
   map measurementChannel (routes (planRouting demo_routing 4)) = [0, 1] \<and>
   distinctReferences (planRouting demo_routing 4) = [2] \<and> unroutedMeasurements (planRouting demo_routing 4) = [3]"
proof (intro conjI)
  show "list_all (\<lambda>r. role demo_routing (referenceChannel r) = Reference) (routes (planRouting demo_routing 4))"
    using planRouting_pairs [of demo_routing 4] unfolding list_all_iff by blast
qed code_simp+

end
