(* ===== verification/Analysis_Drain.thy ===== *)
theory Analysis_Drain
  imports Capture_Bus Routing_Plan
begin

text \<open>
  The consumer side of the capture path, \<^verbatim>\<open>app/src/measure/AnalysisThread.cpp\<close>: \<^verbatim>\<open>drainPaired\<close> advances
  one reference ring and every measurement ring routed against it hop by hop, \<^verbatim>\<open>drainRole\<close> drains one
  ring alone, \<^verbatim>\<open>drain\<close> chooses between them, and \<^verbatim>\<open>RawCaptureBuffer\<close> accumulates a one-shot capture.
  The analysers and the SPL meters are represented by the sequence of hops each is given.
\<close>

section \<open>The one-shot capture\<close>

record 'a raw_capture =
  rc_reference :: "'a list"
  rc_measurement :: "'a list"
  rc_length :: nat
  rc_written :: nat

definition RawCapture_arm :: "'a \<Rightarrow> nat \<Rightarrow> 'a raw_capture" where
  "RawCapture_arm z len =
     \<lparr>rc_reference = replicate len z, rc_measurement = replicate len z, rc_length = len, rc_written = 0\<rparr>"

definition RawCapture_feedHop :: "'a raw_capture \<Rightarrow> 'a list \<Rightarrow> 'a list \<Rightarrow> 'a raw_capture option" where
  "RawCapture_feedHop c referenceHop measurementHop =
     (let hopLen = min (length referenceHop) (length measurementHop);
          remaining = (if rc_written c < rc_length c then rc_length c - rc_written c else 0);
          n = min hopLen remaining
      in if n = 0 then Some c
         else do {
           r \<leftarrow> blit (rc_reference c) (rc_written c) (take n referenceHop);
           m \<leftarrow> blit (rc_measurement c) (rc_written c) (take n measurementHop);
           Some (c\<lparr>rc_reference := r, rc_measurement := m, rc_written := rc_written c + n\<rparr>)
         })"

definition RawCapture_isFull :: "'a raw_capture \<Rightarrow> bool" where
  "RawCapture_isFull c \<longleftrightarrow> rc_written c \<ge> rc_length c"

section \<open>The thread's state\<close>

text \<open>
  \<open>an_pairs ! i\<close> is what analyser \<open>i\<close> was given by \<^verbatim>\<open>pushPair\<close>, \<open>an_single\<close> what analyser 0 was
  given by \<^verbatim>\<open>pushMeasurement\<close> (\<open>False\<close>) and \<^verbatim>\<open>pushReference\<close> (\<open>True\<close>), \<open>an_spl\<close> the hops
  handed to \<^verbatim>\<open>feedSpl\<close> with their channel.
\<close>

record 'a analysis =
  an_bus :: "'a bus"
  an_scratch :: "'a list list"
  an_fresh :: nat
  an_pairs :: "('a list \<times> 'a list) list list"
  an_hopCounts :: "uint64_t list"
  an_single :: "(bool \<times> 'a list) list"
  an_spl :: "(int \<times> 'a list) list"
  an_locCapturing :: bool
  an_locRoute :: int
  an_locBuffer :: "'a raw_capture"
  an_locResult :: "('a list \<times> 'a list) option"
  an_locArm :: "(int \<times> nat) option"

definition feedSpl :: "int \<Rightarrow> 'a analysis \<Rightarrow> 'a analysis" where
  "feedSpl ch s = s\<lparr>an_spl := an_spl s @ [(ch, an_scratch s ! nat ch)]\<rparr>"

text \<open>\<^verbatim>\<open>ring(ch)->peek(scratch)\<close>: a null ring is a memory error, a short read leaves the scratch's tail.\<close>

definition peek_into :: "int \<Rightarrow> 'a analysis \<Rightarrow> (size_t \<times> 'a analysis) option" where
  "peek_into ch s = do {
     r \<leftarrow> bus_ring (an_bus s) ch;
     xs \<leftarrow> RingBuffer_peek r (size_of (an_scratch s ! nat ch)) 0;
     Some (size_of xs, s\<lparr>an_scratch := (an_scratch s)[nat ch := xs @ drop (length xs) (an_scratch s ! nat ch)]\<rparr>)
   }"

definition discard_ring :: "int \<Rightarrow> size_t \<Rightarrow> 'a analysis \<Rightarrow> 'a analysis option" where
  "discard_ring ch n s = do {
     r \<leftarrow> bus_ring (an_bus s) ch;
     Some (s\<lparr>an_bus := (an_bus s)\<lparr>rings := (rings (an_bus s))[nat ch := snd (RingBuffer_discard r n)]\<rparr>\<rparr>)
   }"

section \<open>drainPaired\<close>

definition group_available :: "'a bus \<Rightarrow> int \<Rightarrow> 'a ring \<Rightarrow> TransferRoute list \<Rightarrow> size_t list" where
  "group_available b refChannel refRing rts =
     availableToRead refRing #
       map (\<lambda>r. case bus_ring b (measurementChannel r) of None \<Rightarrow> 0 | Some q \<Rightarrow> availableToRead q)
         (filter (\<lambda>r. referenceChannel r = refChannel) rts)"

text \<open>The peek loop: \<open>(False, _)\<close> when a measurement ring came up short.\<close>

fun peek_routes :: "int \<Rightarrow> size_t \<Rightarrow> TransferRoute list \<Rightarrow> 'a analysis \<Rightarrow> (bool \<times> 'a analysis) option" where
  "peek_routes refChannel hop [] s = Some (True, s)"
| "peek_routes refChannel hop (r # rs) s =
     (if referenceChannel r \<noteq> refChannel then peek_routes refChannel hop rs s
      else do {
        (n, s') \<leftarrow> peek_into (measurementChannel r) s;
        if n \<noteq> hop then Some (False, s') else peek_routes refChannel hop rs s'
      })"

definition push_route :: "nat \<Rightarrow> int \<Rightarrow> TransferRoute \<Rightarrow> 'a analysis \<Rightarrow> 'a analysis" where
  "push_route routeIndex refChannel r s =
     (let refScratch = an_scratch s ! nat refChannel;
          measurementScratch = an_scratch s ! nat (measurementChannel r)
      in if routeIndex < an_fresh s
         then s\<lparr>an_pairs := (an_pairs s)[routeIndex := an_pairs s ! routeIndex @ [(refScratch, measurementScratch)]],
                an_hopCounts := (an_hopCounts s)[routeIndex := an_hopCounts s ! routeIndex + 1]\<rparr>
         else s)"

definition locate_route :: "nat \<Rightarrow> int \<Rightarrow> TransferRoute \<Rightarrow> 'a analysis \<Rightarrow> 'a analysis option" where
  "locate_route routeIndex refChannel r s =
     (if an_locCapturing s \<and> an_locRoute s \<ge> 0 \<and> routeIndex = nat (an_locRoute s) then
        do {
          c \<leftarrow> RawCapture_feedHop (an_locBuffer s) (an_scratch s ! nat refChannel)
                 (an_scratch s ! nat (measurementChannel r));
          Some (if RawCapture_isFull c
                then s\<lparr>an_locBuffer := c, an_locResult := Some (rc_reference c, rc_measurement c),
                       an_locCapturing := False\<rparr>
                else s\<lparr>an_locBuffer := c\<rparr>)
        }
      else Some s)"

fun consume_routes :: "nat \<Rightarrow> int \<Rightarrow> size_t \<Rightarrow> TransferRoute list \<Rightarrow> 'a analysis \<Rightarrow> 'a analysis option" where
  "consume_routes routeIndex refChannel hop [] s = Some s"
| "consume_routes routeIndex refChannel hop (r # rs) s =
     (if referenceChannel r \<noteq> refChannel then consume_routes (Suc routeIndex) refChannel hop rs s
      else do {
        s1 \<leftarrow> discard_ring (measurementChannel r) hop s;
        let s2 = feedSpl (measurementChannel r) s1;
        s3 \<leftarrow> (if routeIndex \<ge> kMaxTransferFunctions then Some s2
                else locate_route routeIndex refChannel r (push_route routeIndex refChannel r s2));
        consume_routes (Suc routeIndex) refChannel hop rs s3
      })"

text \<open>\<open>exits i\<close> is the answer of \<^verbatim>\<open>threadShouldExit()\<close> at the top of hop \<open>i\<close>.\<close>

fun drain_hops :: "(nat \<Rightarrow> bool) \<Rightarrow> nat \<Rightarrow> nat \<Rightarrow> int \<Rightarrow> size_t \<Rightarrow> RoutingPlan \<Rightarrow> 'a analysis \<Rightarrow> 'a analysis option" where
  "drain_hops exits i 0 refChannel hop plan s = Some s"
| "drain_hops exits i (Suc left) refChannel hop plan s =
     (if exits i then Some s
      else do {
        (n, s1) \<leftarrow> peek_into refChannel s;
        if n \<noteq> hop then Some s1
        else do {
          (allPeeked, s2) \<leftarrow> peek_routes refChannel hop (routes plan) s1;
          if \<not> allPeeked then Some s2
          else do {
            s3 \<leftarrow> discard_ring refChannel hop s2;
            s4 \<leftarrow> consume_routes 0 refChannel hop (routes plan) s3;
            drain_hops exits (Suc i) left refChannel hop plan s4
          }
        }
      })"

definition drainPaired :: "(nat \<Rightarrow> bool) \<Rightarrow> int \<Rightarrow> RoutingPlan \<Rightarrow> 'a analysis \<Rightarrow> 'a analysis option" where
  "drainPaired exits refChannel plan s =
     (case bus_ring (an_bus s) refChannel of
        None \<Rightarrow> Some s
      | Some refRing \<Rightarrow>
          (let hop = size_of (an_scratch s ! nat refChannel) in
           if hop = 0 then Some s
           else drain_hops exits 0
             (unat (pairedHopCount (group_available (an_bus s) refChannel refRing (routes plan)) hop))
             refChannel hop plan s))"

section \<open>drainRole and drain\<close>

fun drain_single :: "(nat \<Rightarrow> bool) \<Rightarrow> nat \<Rightarrow> nat \<Rightarrow> int \<Rightarrow> bool \<Rightarrow> size_t \<Rightarrow> 'a analysis \<Rightarrow> 'a analysis option" where
  "drain_single exits i 0 ch isReference hop s = Some s"
| "drain_single exits i (Suc left) ch isReference hop s =
     (if exits i then Some s
      else do {
        (n, s1) \<leftarrow> peek_into ch s;
        if n \<noteq> hop then Some s1
        else do {
          s2 \<leftarrow> discard_ring ch hop s1;
          let s3 = (if 0 < an_fresh s2
                    then s2\<lparr>an_single := an_single s2 @ [(isReference, an_scratch s2 ! nat ch)]\<rparr> else s2);
          drain_single exits (Suc i) left ch isReference hop (feedSpl ch s3)
        }
      })"

definition drainRole :: "(nat \<Rightarrow> bool) \<Rightarrow> ChannelRole \<Rightarrow> bool \<Rightarrow> 'a analysis \<Rightarrow> 'a analysis option" where
  "drainRole exits r isReference s =
     (let channel = firstChannelWithRole (config (an_bus s)) r in
      if channel < 0 then Some s
      else case bus_ring (an_bus s) channel of
        None \<Rightarrow> Some s
      | Some q \<Rightarrow>
          (let hop = size_of (an_scratch s ! nat channel) in
           if hop = 0 then Some s
           else drain_single exits 0 (unat (availableToRead q div hop)) channel isReference hop s))"

fun drain_references :: "(nat \<Rightarrow> bool) \<Rightarrow> int list \<Rightarrow> RoutingPlan \<Rightarrow> 'a analysis \<Rightarrow> 'a analysis option" where
  "drain_references exits [] plan s = Some s"
| "drain_references exits (r # rs) plan s =
     do { s' \<leftarrow> drainPaired exits r plan s; drain_references exits rs plan s' }"

text \<open>\<open>z\<close> is the value \<^verbatim>\<open>arm\<close> fills the capture with; \<open>exits\<close> answers every stop check of the call.\<close>

definition drain :: "'a \<Rightarrow> (nat \<Rightarrow> bool) \<Rightarrow> 'a analysis \<Rightarrow> 'a analysis option" where
  "drain z exits s =
     (let s = (case an_locArm s of
                 None \<Rightarrow> s
               | Some (route, len) \<Rightarrow> s\<lparr>an_locArm := None, an_locRoute := route,
                   an_locBuffer := RawCapture_arm z len, an_locCapturing := True\<rparr>);
          plan = planRouting (config (an_bus s)) (preparedChannels (an_bus s))
      in if routes plan = [] then
           do { s' \<leftarrow> drainRole exits Measurement False s; drainRole exits Reference True s' }
         else drain_references exits (distinctReferences plan) plan s)"

section \<open>Invariants\<close>

definition capture_ok :: "'a raw_capture \<Rightarrow> bool" where
  "capture_ok c \<longleftrightarrow> length (rc_reference c) = rc_length c \<and> length (rc_measurement c) = rc_length c \<and>
     rc_written c \<le> rc_length c"

definition analysis_ok :: "nat \<Rightarrow> 'a analysis \<Rightarrow> bool" where
  "analysis_ok hop s \<longleftrightarrow> bus_inv (an_bus s) \<and> 0 < hop \<and> hop < 2 ^ 64 \<and>
     length (an_scratch s) = nat kMaxChannels \<and> (\<forall>x \<in> set (an_scratch s). length x = hop) \<and>
     length (an_pairs s) = kMaxTransferFunctions \<and> length (an_hopCounts s) = kMaxTransferFunctions \<and>
     an_fresh s \<le> kMaxTransferFunctions \<and> capture_ok (an_locBuffer s)"

abbreviation queue :: "'a analysis \<Rightarrow> int \<Rightarrow> 'a list" where
  "queue s ch \<equiv> chan_contents (an_bus s) ch"

text \<open>What a hop leaves alone: everything of the bus but its rings, and the set of fresh analysers.\<close>

definition an_frame :: "'a analysis \<Rightarrow> 'a analysis \<Rightarrow> bool" where
  "an_frame s t \<longleftrightarrow> same_but_rings (an_bus s) (an_bus t) \<and> an_fresh t = an_fresh s"

definition plan_ok :: "int \<Rightarrow> RoutingPlan \<Rightarrow> bool" where
  "plan_ok n plan \<longleftrightarrow> distinct (map measurementChannel (routes plan)) \<and>
     (\<forall>r \<in> set (routes plan). 0 \<le> measurementChannel r \<and> measurementChannel r < n \<and>
        0 \<le> referenceChannel r \<and> referenceChannel r < n) \<and>
     (\<forall>r \<in> set (routes plan). \<forall>q \<in> set (routes plan). measurementChannel r \<noteq> referenceChannel q)"

text \<open>The measurement channels routed against one reference.\<close>

definition measured :: "int \<Rightarrow> TransferRoute list \<Rightarrow> int set" where
  "measured refChannel rs = measurementChannel ` {r \<in> set rs. referenceChannel r = refChannel}"

lemma measured_simps [simp]:
  "measured ref [] = {}"
  "measured ref (r # rs) =
     (if referenceChannel r = ref then insert (measurementChannel r) (measured ref rs) else measured ref rs)"
  by (auto simp: measured_def)

lemma an_frame_refl: "an_frame s s"
  by (simp add: an_frame_def same_but_ringsI)

lemma an_frame_trans: "an_frame s t \<Longrightarrow> an_frame t u \<Longrightarrow> an_frame s u"
  by (auto simp: an_frame_def intro: same_but_rings_trans)

lemma an_frameD:
  assumes "an_frame s t"
  shows "preparedChannels (an_bus t) = preparedChannels (an_bus s)" "an_fresh t = an_fresh s"
  using assms same_but_ringsD by (auto simp: an_frame_def)

lemma scratch_length: "analysis_ok hop s \<Longrightarrow> in_table ch \<Longrightarrow> length (an_scratch s ! nat ch) = hop"
  by (auto simp: analysis_ok_def in_table_def kMaxChannels_def)

lemma prepared_in_table:
  "analysis_ok hop s \<Longrightarrow> 0 \<le> ch \<Longrightarrow> ch < preparedChannels (an_bus s) \<Longrightarrow> in_table ch"
  by (auto simp: analysis_ok_def bus_inv_def in_table_def)

lemma analysis_ring:
  assumes "analysis_ok hop s" "0 \<le> ch" "ch < preparedChannels (an_bus s)"
  shows "bus_ring (an_bus s) ch = Some (rings (an_bus s) ! nat ch)" "ring_inv (rings (an_bus s) ! nat ch)"
  using assms bus_inv_ring [of "an_bus s" ch] prepared_in_table [OF assms]
  by (auto simp: bus_ring_def analysis_ok_def)

section \<open>One hop\<close>

lemma peek_into_full:
  assumes ok: "analysis_ok hop s" and ch: "0 \<le> ch" "ch < preparedChannels (an_bus s)"
    and full: "hop \<le> length (queue s ch)"
  shows "peek_into ch s = Some (word_of_nat hop, s\<lparr>an_scratch := (an_scratch s)[nat ch := take hop (queue s ch)]\<rparr>)"
proof -
  have len: "length (an_scratch s ! nat ch) = hop" and h: "hop < 2 ^ 64"
    using scratch_length [OF ok prepared_in_table [OF ok ch]] ok by (auto simp: analysis_ok_def)
  then have "unat (size_of (an_scratch s ! nat ch)) = hop"
    by (simp add: unat_size_of in_memory_def)
  then have "RingBuffer_peek (rings (an_bus s) ! nat ch) (size_of (an_scratch s ! nat ch)) 0 = Some (take hop (queue s ch))"
    using ring.look_prefix [OF analysis_ring(2) [OF ok ch]] by simp
  moreover have "length (take hop (queue s ch)) = hop"
    using full by simp
  ultimately show ?thesis
    using analysis_ring(1) [OF ok ch] len by (simp add: peek_into_def size_of_def)
qed

lemma analysis_ok_scratch:
  assumes "analysis_ok hop s" "length x = hop"
  shows "analysis_ok hop (s\<lparr>an_scratch := (an_scratch s)[i := x]\<rparr>)"
  using assms set_list_update_all [of "an_scratch s" "\<lambda>x. length x = hop" x i]
  by (simp add: analysis_ok_def)

lemma peek_routes_full:
  assumes "analysis_ok hop s" "distinct (map measurementChannel rs)"
    and "\<forall>r \<in> set rs. 0 \<le> measurementChannel r \<and> measurementChannel r < preparedChannels (an_bus s)"
    and "\<forall>ch \<in> measured refChannel rs. hop \<le> length (queue s ch)"
  shows "\<exists>sc. peek_routes refChannel (word_of_nat hop) rs s = Some (True, s\<lparr>an_scratch := sc\<rparr>) \<and>
    analysis_ok hop (s\<lparr>an_scratch := sc\<rparr>) \<and>
    (\<forall>ch. in_table ch \<longrightarrow> sc ! nat ch =
       (if ch \<in> measured refChannel rs then take hop (queue s ch) else an_scratch s ! nat ch))"
  using assms
proof (induction rs arbitrary: s)
  case Nil
  then show ?case
    by (intro exI [of _ "an_scratch s"]) simp
next
  case (Cons r rs)
  show ?case
  proof (cases "referenceChannel r = refChannel")
    case False
    then show ?thesis
      using Cons by simp
  next
    case True
    let ?m = "measurementChannel r" let ?t = "s\<lparr>an_scratch := (an_scratch s)[nat ?m := take hop (queue s ?m)]\<rparr>"
    have m: "0 \<le> ?m" "?m < preparedChannels (an_bus s)" "hop \<le> length (queue s ?m)"
      using Cons.prems True by auto
    note tab = prepared_in_table [OF Cons.prems(1) m(1,2)]
    have t: "analysis_ok hop ?t"
      using Cons.prems(1) m(3) by (intro analysis_ok_scratch) simp_all
    obtain sc where sc: "peek_routes refChannel (word_of_nat hop) rs ?t = Some (True, ?t\<lparr>an_scratch := sc\<rparr>)"
      "analysis_ok hop (?t\<lparr>an_scratch := sc\<rparr>)"
      "\<forall>ch. in_table ch \<longrightarrow> sc ! nat ch =
         (if ch \<in> measured refChannel rs then take hop (queue s ch) else an_scratch ?t ! nat ch)"
      using Cons.IH [OF t] Cons.prems True by auto
    have "an_scratch ?t ! nat ch = (if ch = ?m then take hop (queue s ch) else an_scratch s ! nat ch)"
      if "in_table ch" for ch
      using that tab Cons.prems(1) by (auto simp: analysis_ok_def in_table_def nth_list_update)
    then have "\<forall>ch. in_table ch \<longrightarrow> sc ! nat ch =
         (if ch \<in> measured refChannel (r # rs) then take hop (queue s ch) else an_scratch s ! nat ch)"
      using sc(3) True by auto
    moreover have "peek_routes refChannel (word_of_nat hop) (r # rs) s = Some (True, s\<lparr>an_scratch := sc\<rparr>)"
      using sc(1) True peek_into_full [OF Cons.prems(1) m] by simp
    ultimately show ?thesis
      using sc(2) by auto
  qed
qed

lemma discard_ring_full:
  assumes ok: "analysis_ok hop s" and ch: "0 \<le> ch" "ch < preparedChannels (an_bus s)"
  obtains t where "discard_ring ch (word_of_nat hop) s = Some t" "analysis_ok hop t" "an_frame s t"
    "\<exists>b. t = s\<lparr>an_bus := b\<rparr>"
    "\<forall>c. in_table c \<longrightarrow> queue t c = (if c = ch then drop hop (queue s c) else queue s c)"
proof -
  let ?r = "rings (an_bus s) ! nat ch"
  let ?q = "snd (RingBuffer_discard ?r (word_of_nat hop))"
  let ?b = "(an_bus s)\<lparr>rings := (rings (an_bus s))[nat ch := ?q]\<rparr>"
  note ring = analysis_ring [OF ok ch] and tab = prepared_in_table [OF ok ch]
  have inv: "bus_inv (an_bus s)" and hop: "unat (word_of_nat hop :: size_t) = hop"
    using ok by (auto simp: analysis_ok_def unat_of_nat)
  have q: "ring_inv ?q" "ring_contents ?q = drop hop (ring_contents ?r)" "length (storage ?q) = bus_capacity (an_bus s)"
    using ring.drp_invar [OF ring(2)] ring.drp_contents [OF ring(2)] ring.drp_cap [OF ring(2)] hop
      bus_inv_ring [OF inv tab] by auto
  have "bus_inv ?b"
    using bus_inv_upd(1) [OF inv tab q(1,3)] .
  then have "analysis_ok hop (s\<lparr>an_bus := ?b\<rparr>)"
    using ok by (simp add: analysis_ok_def)
  moreover have "an_frame s (s\<lparr>an_bus := ?b\<rparr>)"
    by (simp add: an_frame_def same_but_ringsI)
  moreover have "\<forall>c. in_table c \<longrightarrow> queue (s\<lparr>an_bus := ?b\<rparr>) c = (if c = ch then drop hop (queue s c) else queue s c)"
    using q(2) inv tab by (auto simp: bus_inv_def in_table_def nth_list_update)
  ultimately show thesis
    using ring(1) by (intro that [of "s\<lparr>an_bus := ?b\<rparr>"]) (auto simp: discard_ring_def)
qed

text \<open>A fed hop fills the next free positions, up to the capture's length.\<close>

definition fed :: "'a raw_capture \<Rightarrow> 'a list \<Rightarrow> 'a list \<Rightarrow> nat" where
  "fed c x y = min (min (length x) (length y)) (rc_length c - rc_written c)"

lemma fed_bounds:
  assumes "capture_ok c"
  shows "rc_written c + fed c x y \<le> rc_length c" "fed c x y \<le> length x" "fed c x y \<le> length y"
proof -
  have "fed c x y \<le> rc_length c - rc_written c" "rc_written c \<le> rc_length c"
    using assms by (auto simp: fed_def capture_ok_def)
  then show "rc_written c + fed c x y \<le> rc_length c"
    by linarith
qed (simp_all add: fed_def)

lemma feedHop_spec:
  assumes "capture_ok c"
  shows "RawCapture_feedHop c x y = Some (c\<lparr>
      rc_reference := take (rc_written c) (rc_reference c) @ take (fed c x y) x @
        drop (rc_written c + fed c x y) (rc_reference c),
      rc_measurement := take (rc_written c) (rc_measurement c) @ take (fed c x y) y @
        drop (rc_written c + fed c x y) (rc_measurement c),
      rc_written := rc_written c + fed c x y\<rparr>)"
proof -
  let ?n = "fed c x y"
  have n: "(if rc_written c < rc_length c then rc_length c - rc_written c else 0) = rc_length c - rc_written c"
    by simp
  have "rc_written c + length (take ?n x) \<le> length (rc_reference c)"
    "rc_written c + length (take ?n y) \<le> length (rc_measurement c)"
    "length (take ?n x) = ?n" "length (take ?n y) = ?n"
    using assms fed_bounds [OF assms, of x y] by (simp_all add: capture_ok_def)
  then show ?thesis
    unfolding RawCapture_feedHop_def Let_def n fed_def [symmetric]
    by (cases "?n = 0") (simp_all add: blit_Some)
qed

lemma feedHop_ok:
  assumes "capture_ok c"
  shows "\<exists>d. RawCapture_feedHop c x y = Some d \<and> capture_ok d"
  using feedHop_spec [OF assms, of x y] fed_bounds [OF assms, of x y] assms by (simp add: capture_ok_def)

lemma locate_route_ok:
  assumes "analysis_ok hop s"
  shows "\<exists>t. locate_route i ref r s = Some t \<and> analysis_ok hop t \<and> an_bus t = an_bus s \<and>
    an_scratch t = an_scratch s \<and> an_fresh t = an_fresh s \<and> an_pairs t = an_pairs s"
proof -
  obtain d where d: "RawCapture_feedHop (an_locBuffer s) (an_scratch s ! nat ref) (an_scratch s ! nat (measurementChannel r)) = Some d"
    "capture_ok d"
    using feedHop_ok assms by (metis analysis_ok_def)
  then show ?thesis
    using assms by (auto simp: locate_route_def analysis_ok_def)
qed

definition pushed :: "'a analysis \<Rightarrow> nat \<Rightarrow> int \<Rightarrow> TransferRoute list \<Rightarrow> nat \<Rightarrow> bool" where
  "pushed s i refChannel rs j \<longleftrightarrow> i \<le> j \<and> j < i + length rs \<and> j < an_fresh s \<and>
     referenceChannel (rs ! (j - i)) = refChannel"

lemma push_route_effect:
  assumes "analysis_ok hop s" "i < kMaxTransferFunctions"
  shows "analysis_ok hop (push_route i ref r s)" "an_bus (push_route i ref r s) = an_bus s"
    "an_scratch (push_route i ref r s) = an_scratch s" "an_fresh (push_route i ref r s) = an_fresh s"
    "\<forall>j < kMaxTransferFunctions. an_pairs (push_route i ref r s) ! j = an_pairs s ! j @
       (if j = i \<and> j < an_fresh s then [(an_scratch s ! nat ref, an_scratch s ! nat (measurementChannel r))] else [])"
  using assms by (auto simp: push_route_def analysis_ok_def Let_def nth_list_update)

lemma consume_route_full:
  assumes ok: "analysis_ok hop s" and ch: "0 \<le> measurementChannel r" "measurementChannel r < preparedChannels (an_bus s)"
    and ref: "referenceChannel r = refChannel"
  obtains t where "consume_routes i refChannel (word_of_nat hop) (r # rs) s =
      consume_routes (Suc i) refChannel (word_of_nat hop) rs t"
    "analysis_ok hop t" "an_frame s t" "an_scratch t = an_scratch s"
    "\<forall>c. in_table c \<longrightarrow> queue t c = (if c = measurementChannel r then drop hop (queue s c) else queue s c)"
    "\<forall>j < kMaxTransferFunctions. an_pairs t ! j = an_pairs s ! j @
       (if j = i \<and> j < an_fresh s then [(an_scratch s ! nat refChannel, an_scratch s ! nat (measurementChannel r))] else [])"
proof -
  let ?m = "measurementChannel r"
  obtain s1 where s1: "discard_ring ?m (word_of_nat hop) s = Some s1" "analysis_ok hop s1" "an_frame s s1"
      "\<exists>b. s1 = s\<lparr>an_bus := b\<rparr>"
      "\<forall>c. in_table c \<longrightarrow> queue s1 c = (if c = ?m then drop hop (queue s c) else queue s c)"
    using discard_ring_full [OF ok ch] by metis
  let ?s2 = "feedSpl ?m s1"
  have s2: "analysis_ok hop ?s2" "an_bus ?s2 = an_bus s1" "an_scratch ?s2 = an_scratch s" "an_fresh ?s2 = an_fresh s"
      "an_pairs ?s2 = an_pairs s"
    using s1(2,4) by (auto simp: feedSpl_def analysis_ok_def)
  show thesis
  proof (cases "i \<ge> kMaxTransferFunctions")
    case True
    then show thesis
      using s1 s2 ref by (intro that [of ?s2]) (auto simp: an_frame_def)
  next
    case False
    let ?s3 = "push_route i refChannel r ?s2"
    have i: "i < kMaxTransferFunctions"
      using False by simp
    note s3 = push_route_effect [OF s2(1) i, of refChannel r]
    obtain t where t: "locate_route i refChannel r ?s3 = Some t" "analysis_ok hop t" "an_bus t = an_bus ?s3"
      "an_scratch t = an_scratch ?s3" "an_fresh t = an_fresh ?s3" "an_pairs t = an_pairs ?s3"
      using locate_route_ok [OF s3(1)] by metis
    show thesis
    proof (rule that [of t])
      show "consume_routes i refChannel (word_of_nat hop) (r # rs) s = consume_routes (Suc i) refChannel (word_of_nat hop) rs t"
        using s1(1) t(1) ref False by (simp add: Let_def)
      show "an_frame s t"
        using s1(3) t(3,5) s3(2,4) s2(2,4) by (simp add: an_frame_def)
    qed (use t s3 s2 s1(5) in auto)
  qed
qed

lemma consume_routes_full:
  assumes "analysis_ok hop s" "distinct (map measurementChannel rs)"
    and "\<forall>r \<in> set rs. 0 \<le> measurementChannel r \<and> measurementChannel r < preparedChannels (an_bus s)"
  shows "\<exists>t. consume_routes i refChannel (word_of_nat hop) rs s = Some t \<and> analysis_ok hop t \<and> an_frame s t \<and>
    an_scratch t = an_scratch s \<and>
    (\<forall>c. in_table c \<longrightarrow> queue t c = (if c \<in> measured refChannel rs then drop hop (queue s c) else queue s c)) \<and>
    (\<forall>j < kMaxTransferFunctions. an_pairs t ! j = an_pairs s ! j @
       (if pushed s i refChannel rs j
        then [(an_scratch s ! nat refChannel, an_scratch s ! nat (measurementChannel (rs ! (j - i))))] else []))"
  using assms
proof (induction rs arbitrary: i s)
  case Nil
  then show ?case
    by (simp add: an_frame_refl pushed_def)
next
  case (Cons r rs)
  have m: "0 \<le> measurementChannel r" "measurementChannel r < preparedChannels (an_bus s)"
    using Cons.prems by auto
  have shift: "pushed s i refChannel (r # rs) j =
      (if j = i then j < an_fresh s \<and> referenceChannel r = refChannel else pushed s (Suc i) refChannel rs j)" for j
    by (auto simp: pushed_def nth_Cons' Suc_diff_Suc)
  show ?case
  proof (cases "referenceChannel r = refChannel")
    case False
    moreover have "\<not> pushed s (Suc i) refChannel rs i"
      by (simp add: pushed_def)
    ultimately have "pushed s i refChannel (r # rs) j = pushed s (Suc i) refChannel rs j" for j
      by (auto simp: shift)
    moreover have "(r # rs) ! (j - i) = rs ! (j - Suc i)" if "pushed s (Suc i) refChannel rs j" for j
      using that by (auto simp: pushed_def nth_Cons')
    ultimately show ?thesis
      using Cons.IH [of s "Suc i"] Cons.prems False by (auto simp: if_distrib cong: if_cong)
  next
    case True
    obtain t where t: "consume_routes i refChannel (word_of_nat hop) (r # rs) s =
        consume_routes (Suc i) refChannel (word_of_nat hop) rs t"
      "analysis_ok hop t" "an_frame s t" "an_scratch t = an_scratch s"
      "\<forall>c. in_table c \<longrightarrow> queue t c = (if c = measurementChannel r then drop hop (queue s c) else queue s c)"
      "\<forall>j < kMaxTransferFunctions. an_pairs t ! j = an_pairs s ! j @
         (if j = i \<and> j < an_fresh s then [(an_scratch s ! nat refChannel, an_scratch s ! nat (measurementChannel r))] else [])"
      using consume_route_full [OF Cons.prems(1) m True] by metis
    note frame = an_frameD [OF t(3)]
    obtain u where u: "consume_routes (Suc i) refChannel (word_of_nat hop) rs t = Some u" "analysis_ok hop u" "an_frame t u"
      "an_scratch u = an_scratch s"
      "\<forall>c. in_table c \<longrightarrow> queue u c = (if c \<in> measured refChannel rs then drop hop (queue t c) else queue t c)"
      "\<forall>j < kMaxTransferFunctions. an_pairs u ! j = an_pairs t ! j @
         (if pushed t (Suc i) refChannel rs j
          then [(an_scratch s ! nat refChannel, an_scratch s ! nat (measurementChannel (rs ! (j - Suc i))))] else [])"
      using Cons.IH [OF t(2), of "Suc i"] Cons.prems frame t(4) by auto
    have notin: "measurementChannel r \<notin> measured refChannel rs"
      using Cons.prems(2) by (auto simp: measured_def)
    have q: "\<forall>c. in_table c \<longrightarrow>
        queue u c = (if c \<in> measured refChannel (r # rs) then drop hop (queue s c) else queue s c)"
      using u(5) t(5) notin True by auto
    have "an_pairs u ! j = an_pairs s ! j @
       (if pushed s i refChannel (r # rs) j
        then [(an_scratch s ! nat refChannel, an_scratch s ! nat (measurementChannel ((r # rs) ! (j - i))))] else [])"
      if "j < kMaxTransferFunctions" for j
    proof -
      have "pushed t (Suc i) refChannel rs j = pushed s (Suc i) refChannel rs j"
        by (simp add: pushed_def frame)
      moreover have "j \<noteq> i \<and> (r # rs) ! (j - i) = rs ! (j - Suc i)" if "pushed s (Suc i) refChannel rs j"
        using that by (auto simp: pushed_def nth_Cons')
      moreover have "\<not> pushed s (Suc i) refChannel rs i"
        by (simp add: pushed_def)
      ultimately show ?thesis
        using u(6) t(6) that True by (simp add: shift)
    qed
    with q u t(1) an_frame_trans [OF t(3) u(3)] show ?thesis
      by auto
  qed
qed

section \<open>All hops of a group\<close>

definition group_ok :: "int \<Rightarrow> RoutingPlan \<Rightarrow> 'a analysis \<Rightarrow> bool" where
  "group_ok refChannel plan s \<longleftrightarrow> plan_ok (preparedChannels (an_bus s)) plan \<and> 0 \<le> refChannel \<and>
     refChannel < preparedChannels (an_bus s) \<and> refChannel \<notin> measured refChannel (routes plan)"

abbreviation members :: "int \<Rightarrow> RoutingPlan \<Rightarrow> int set" where
  "members refChannel plan \<equiv> insert refChannel (measured refChannel (routes plan))"

text \<open>The pair of time slices of hop \<open>n\<close> for the route in slot \<open>j\<close>.\<close>

definition slice_pair :: "nat \<Rightarrow> int \<Rightarrow> RoutingPlan \<Rightarrow> 'a analysis \<Rightarrow> nat \<Rightarrow> nat \<Rightarrow> 'a list \<times> 'a list" where
  "slice_pair hop refChannel plan s j n =
     (take hop (drop (n * hop) (queue s refChannel)),
      take hop (drop (n * hop) (queue s (measurementChannel (routes plan ! j)))))"

lemma drain_hop_full:
  assumes ok: "analysis_ok hop s" and g: "group_ok refChannel plan s"
    and full: "\<forall>c \<in> members refChannel plan. hop \<le> length (queue s c)" and run: "\<not> exits i"
  obtains t where "drain_hops exits i (Suc left) refChannel (word_of_nat hop) plan s =
      drain_hops exits (Suc i) left refChannel (word_of_nat hop) plan t"
    "analysis_ok hop t" "an_frame s t"
    "\<forall>c. in_table c \<longrightarrow> queue t c = (if c \<in> members refChannel plan then drop hop (queue s c) else queue s c)"
    "\<forall>j < kMaxTransferFunctions. an_pairs t ! j = an_pairs s ! j @
       (if pushed s 0 refChannel (routes plan) j then [slice_pair hop refChannel plan s j 0] else [])"
proof -
  let ?rs = "routes plan"
  have ref: "0 \<le> refChannel" "refChannel < preparedChannels (an_bus s)" "refChannel \<notin> measured refChannel ?rs"
    and rs: "distinct (map measurementChannel ?rs)"
      "\<forall>r \<in> set ?rs. 0 \<le> measurementChannel r \<and> measurementChannel r < preparedChannels (an_bus s)"
    using g by (auto simp: group_ok_def plan_ok_def)
  note tab = prepared_in_table [OF ok ref(1,2)]
  let ?s1 = "s\<lparr>an_scratch := (an_scratch s)[nat refChannel := take hop (queue s refChannel)]\<rparr>"
  have p: "peek_into refChannel s = Some (word_of_nat hop, ?s1)" and s1: "analysis_ok hop ?s1"
    using peek_into_full [OF ok ref(1,2)] analysis_ok_scratch [OF ok] full by simp_all
  obtain sc where sc: "peek_routes refChannel (word_of_nat hop) ?rs ?s1 = Some (True, ?s1\<lparr>an_scratch := sc\<rparr>)"
      "analysis_ok hop (?s1\<lparr>an_scratch := sc\<rparr>)"
      "\<forall>ch. in_table ch \<longrightarrow> sc ! nat ch =
         (if ch \<in> measured refChannel ?rs then take hop (queue s ch) else an_scratch ?s1 ! nat ch)"
    using peek_routes_full [OF s1 rs(1), of refChannel] rs(2) full by auto
  let ?s2 = "s\<lparr>an_scratch := sc\<rparr>"
  have s2: "analysis_ok hop ?s2"
    using sc(2) by simp
  obtain s3 where s3: "discard_ring refChannel (word_of_nat hop) ?s2 = Some s3" "analysis_ok hop s3" "an_frame ?s2 s3"
      "\<exists>b. s3 = ?s2\<lparr>an_bus := b\<rparr>"
      and q3: "\<forall>c. in_table c \<longrightarrow> queue s3 c = (if c = refChannel then drop hop (queue ?s2 c) else queue ?s2 c)"
    by (rule discard_ring_full [OF s2 ref(1)]) (use ref(2) in simp)
  have sc3: "an_scratch s3 = sc" "an_pairs s3 = an_pairs s"
    using s3(4) by auto
  note frame = an_frameD [OF s3(3)]
  obtain t where t: "consume_routes 0 refChannel (word_of_nat hop) ?rs s3 = Some t" "analysis_ok hop t" "an_frame s3 t"
    "\<forall>c. in_table c \<longrightarrow> queue t c = (if c \<in> measured refChannel ?rs then drop hop (queue s3 c) else queue s3 c)"
    "\<forall>j < kMaxTransferFunctions. an_pairs t ! j = an_pairs s3 ! j @
       (if pushed s3 0 refChannel ?rs j
        then [(sc ! nat refChannel, sc ! nat (measurementChannel (?rs ! j)))] else [])"
    using consume_routes_full [OF s3(2) rs(1), of 0 refChannel] rs(2) frame sc3 by auto
  have scref: "sc ! nat refChannel = take hop (queue s refChannel)"
    using sc(3) tab ref(3) ok by (simp add: analysis_ok_def in_table_def)
  have scm: "sc ! nat (measurementChannel (?rs ! j)) = take hop (queue s (measurementChannel (?rs ! j)))"
    if "pushed s 0 refChannel ?rs j" for j
  proof -
    have "?rs ! j \<in> set ?rs" "referenceChannel (?rs ! j) = refChannel"
      using that by (auto simp: pushed_def)
    then show ?thesis
      using sc(3) rs(2) prepared_in_table [OF ok] by (auto simp: measured_def)
  qed
  show thesis
  proof (rule that [of t])
    show "drain_hops exits i (Suc left) refChannel (word_of_nat hop) plan s =
        drain_hops exits (Suc i) left refChannel (word_of_nat hop) plan t"
      using run p sc(1) s3(1) t(1) by simp
    show "an_frame s t"
      using s3(3) an_frame_trans [OF _ t(3), of s] by (simp add: an_frame_def)
    show "\<forall>c. in_table c \<longrightarrow> queue t c = (if c \<in> members refChannel plan then drop hop (queue s c) else queue s c)"
      using t(4) q3 ref(3) by auto
    have "pushed s3 0 refChannel ?rs = pushed s 0 refChannel ?rs"
      using frame by (auto simp: pushed_def fun_eq_iff)
    then show "\<forall>j < kMaxTransferFunctions. an_pairs t ! j = an_pairs s ! j @
       (if pushed s 0 refChannel (routes plan) j then [slice_pair hop refChannel plan s j 0] else [])"
      using t(5) sc3 scref scm by (auto simp: slice_pair_def)
  qed (rule t(2))
qed

lemma slice_pair_later:
  assumes "queue t refChannel = drop hop (queue s refChannel)"
    "queue t (measurementChannel (routes plan ! j)) = drop hop (queue s (measurementChannel (routes plan ! j)))"
  shows "slice_pair hop refChannel plan t j n = slice_pair hop refChannel plan s j (Suc n)"
  using assms by (simp add: slice_pair_def add.commute)

lemma drain_hops_full:
  assumes "analysis_ok hop s" "group_ok refChannel plan s"
    and "\<forall>c \<in> members refChannel plan. left * hop \<le> length (queue s c)"
  shows "\<exists>t k. drain_hops exits i left refChannel (word_of_nat hop) plan s = Some t \<and> analysis_ok hop t \<and>
    an_frame s t \<and> k \<le> left \<and> ((\<forall>j. \<not> exits j) \<longrightarrow> k = left) \<and>
    (\<forall>c. in_table c \<longrightarrow> queue t c = (if c \<in> members refChannel plan then drop (k * hop) (queue s c) else queue s c)) \<and>
    (\<forall>j < kMaxTransferFunctions. an_pairs t ! j = an_pairs s ! j @
       (if pushed s 0 refChannel (routes plan) j then map (slice_pair hop refChannel plan s j) [0..<k] else []))"
  using assms
proof (induction left arbitrary: i s)
  case 0
  then show ?case
    by (intro exI [of _ s] exI [of _ 0]) (simp add: an_frame_refl)
next
  case (Suc left)
  show ?case
  proof (cases "exits i")
    case True
    then show ?thesis
      using Suc.prems(1) by (intro exI [of _ s] exI [of _ 0]) (auto simp: an_frame_refl)
  next
    case False
    have full: "\<forall>c \<in> members refChannel plan. hop \<le> length (queue s c)"
      using Suc.prems(3) by fastforce
    obtain t where t: "drain_hops exits i (Suc left) refChannel (word_of_nat hop) plan s =
        drain_hops exits (Suc i) left refChannel (word_of_nat hop) plan t"
      "analysis_ok hop t" "an_frame s t"
      "\<forall>c. in_table c \<longrightarrow> queue t c = (if c \<in> members refChannel plan then drop hop (queue s c) else queue s c)"
      "\<forall>j < kMaxTransferFunctions. an_pairs t ! j = an_pairs s ! j @
         (if pushed s 0 refChannel (routes plan) j then [slice_pair hop refChannel plan s j 0] else [])"
      using drain_hop_full [where exits = exits and i = i and left = left, OF Suc.prems(1,2) full False] by metis
    note frame = an_frameD [OF t(3)]
    have mem: "in_table c" if "c \<in> members refChannel plan" for c
      using that Suc.prems(2) prepared_in_table [OF Suc.prems(1), of c]
      by (auto simp: group_ok_def plan_ok_def measured_def)
    have "group_ok refChannel plan t"
      using Suc.prems(2) frame by (simp add: group_ok_def)
    moreover have "\<forall>c \<in> members refChannel plan. left * hop \<le> length (queue t c)"
      using Suc.prems(3) t(4) mem by auto
    ultimately obtain u k where u: "drain_hops exits (Suc i) left refChannel (word_of_nat hop) plan t = Some u"
      "analysis_ok hop u" "an_frame t u" "k \<le> left" "(\<forall>j. \<not> exits j) \<longrightarrow> k = left"
      "\<forall>c. in_table c \<longrightarrow> queue u c = (if c \<in> members refChannel plan then drop (k * hop) (queue t c) else queue t c)"
      "\<forall>j < kMaxTransferFunctions. an_pairs u ! j = an_pairs t ! j @
         (if pushed t 0 refChannel (routes plan) j then map (slice_pair hop refChannel plan t j) [0..<k] else [])"
      using Suc.IH [OF t(2), of "Suc i"] by auto
    have q: "\<forall>c. in_table c \<longrightarrow> queue u c =
        (if c \<in> members refChannel plan then drop (Suc k * hop) (queue s c) else queue s c)"
      using u(6) t(4) by (simp add: add.commute)
    have "an_pairs u ! j = an_pairs s ! j @
       (if pushed s 0 refChannel (routes plan) j then map (slice_pair hop refChannel plan s j) [0..<Suc k] else [])"
      if j: "j < kMaxTransferFunctions" for j
    proof (cases "pushed s 0 refChannel (routes plan) j")
      case True
      then have "measurementChannel (routes plan ! j) \<in> members refChannel plan"
        by (auto simp: pushed_def measured_def)
      then have "slice_pair hop refChannel plan t j n = slice_pair hop refChannel plan s j (Suc n)" for n
        using t(4) mem by (intro slice_pair_later) auto
      moreover have "[0..<Suc k] = 0 # map Suc [0..<k]"
        by (simp add: upt_conv_Cons map_Suc_upt del: upt_Suc)
      moreover have "pushed t 0 refChannel (routes plan) j"
        using True frame by (simp add: pushed_def)
      ultimately show ?thesis
        using u(7) t(5) j True by (simp add: o_def del: upt_Suc)
    next
      case False
      moreover from this have "\<not> pushed t 0 refChannel (routes plan) j"
        using frame by (simp add: pushed_def)
      ultimately show ?thesis
        using u(7) t(5) j by simp
    qed
    then show ?thesis
      using t(1) u q an_frame_trans [OF t(3) u(3)] by (intro exI [of _ u] exI [of _ "Suc k"]) auto
  qed
qed

lemma planRouting_group_ok:
  assumes ok: "analysis_ok hop s"
    and plan: "plan = planRouting (config (an_bus s)) (preparedChannels (an_bus s))"
    and ref: "refChannel \<in> set (distinctReferences plan)"
  shows "group_ok refChannel plan s"
proof -
  have n: "clamp (preparedChannels (an_bus s)) 0 kMaxChannels = preparedChannels (an_bus s)"
    using ok by (auto simp: analysis_ok_def bus_inv_def clamp_def)
  have r: "\<forall>r \<in> set (routes plan). 0 \<le> measurementChannel r \<and> measurementChannel r < preparedChannels (an_bus s) \<and>
      0 \<le> referenceChannel r \<and> referenceChannel r < preparedChannels (an_bus s) \<and>
      role (config (an_bus s)) (measurementChannel r) = Measurement \<and> role (config (an_bus s)) (referenceChannel r) = Reference"
    using planRouting_route [of _ "config (an_bus s)" "preparedChannels (an_bus s)"] unfolding plan n by blast
  have "distinct (map measurementChannel (routes plan))"
    unfolding plan planRouting_lists(1) by (simp add: route_for_def o_def)
  moreover obtain q where q: "q \<in> set (routes plan)" "referenceChannel q = refChannel"
    using ref unfolding plan planRouting_lists(3) by auto
  moreover have ne: "measurementChannel a \<noteq> referenceChannel b" if "a \<in> set (routes plan)" "b \<in> set (routes plan)" for a b
    using r that by (metis ChannelRole.distinct(5))
  ultimately show ?thesis
    using r ne [OF _ q(1)] by (auto simp: group_ok_def plan_ok_def measured_def)
qed

lemma group_available_lengths:
  assumes ok: "analysis_ok hop s" and g: "group_ok refChannel plan s"
  shows "unat ` set (group_available (an_bus s) refChannel (rings (an_bus s) ! nat refChannel) (routes plan)) =
    (\<lambda>c. length (queue s c)) ` members refChannel plan"
proof -
  have "unat (availableToRead (rings (an_bus s) ! nat c)) = length (queue s c) \<and>
      bus_ring (an_bus s) c = Some (rings (an_bus s) ! nat c)"
    if "c \<in> members refChannel plan" for c
    using that g analysis_ring [OF ok, of c] ring.avail_contents
    by (auto simp: group_ok_def plan_ok_def measured_def)
  note len = this
  then have "(case bus_ring (an_bus s) (measurementChannel r) of None \<Rightarrow> 0 | Some q \<Rightarrow> availableToRead q) =
      availableToRead (rings (an_bus s) ! nat (measurementChannel r))"
    if "r \<in> set (routes plan)" "referenceChannel r = refChannel" for r
    using that by (auto simp: measured_def)
  then have "set (group_available (an_bus s) refChannel (rings (an_bus s) ! nat refChannel) (routes plan)) =
      (\<lambda>c. availableToRead (rings (an_bus s) ! nat c)) ` members refChannel plan"
    by (auto simp: group_available_def measured_def image_iff)
  then show ?thesis
    using len by (simp add: image_image)
qed

section \<open>Properties\<close>

text \<open>
  Property C15: the paired drain keeps reference and measurement in step.  For a reference channel of the
  current routing plan, \<^verbatim>\<open>drainPaired\<close> never fails; whenever it stops, all rings of the group have
  advanced by the same whole number of hops and every other ring is untouched; unless the thread is asked
  to exit, that number is the shortest backlog of the group divided by the hop; and every analyser that is
  current and belongs to the group has received exactly one pair per hop, the reference and the
  measurement samples of the same time slice, in order.
\<close>

theorem drainPaired_aligned:
  assumes "analysis_ok hop s"
    and "plan = planRouting (config (an_bus s)) (preparedChannels (an_bus s))"
    and "refChannel \<in> set (distinctReferences plan)"
  shows "\<exists>t k. drainPaired exits refChannel plan s = Some t \<and> analysis_ok hop t \<and>
    ((\<forall>j. \<not> exits j) \<longrightarrow> k = Min ((\<lambda>c. length (queue s c)) ` members refChannel plan) div hop) \<and>
    (\<forall>c. in_table c \<longrightarrow> queue t c = (if c \<in> members refChannel plan then drop (k * hop) (queue s c) else queue s c)) \<and>
    (\<forall>j < kMaxTransferFunctions. an_pairs t ! j = an_pairs s ! j @
       (if pushed s 0 refChannel (routes plan) j then map (slice_pair hop refChannel plan s j) [0..<k] else []))"
proof -
  have g: "group_ok refChannel plan s"
    by (rule planRouting_group_ok [OF assms])
  then have ref: "0 \<le> refChannel" "refChannel < preparedChannels (an_bus s)"
    by (auto simp: group_ok_def)
  let ?r = "rings (an_bus s) ! nat refChannel"
  let ?av = "group_available (an_bus s) refChannel ?r (routes plan)"
  have hop: "size_of (an_scratch s ! nat refChannel) = word_of_nat hop" "unat (word_of_nat hop :: size_t) = hop" "0 < hop"
    using scratch_length [OF assms(1) prepared_in_table [OF assms(1) ref]] assms(1)
    by (auto simp: analysis_ok_def unat_of_nat size_of_def)
  then have nz: "(word_of_nat hop :: size_t) \<noteq> 0"
    by (metis unat_0 less_numeral_extra(3))
  let ?h = "unat (pairedHopCount ?av (word_of_nat hop))"
  have h: "?h = Min ((\<lambda>c. length (queue s c)) ` members refChannel plan) div hop"
    using pairedHopCount_unat [OF nz, of ?av] group_available_lengths [OF assms(1) g] hop(2)
    by (simp add: group_available_def)
  have fin: "finite ((\<lambda>c. length (queue s c)) ` members refChannel plan)"
    by (simp add: measured_def)
  have "?h * hop \<le> length (queue s c)" if "c \<in> members refChannel plan" for c
  proof -
    have "Min ((\<lambda>c. length (queue s c)) ` members refChannel plan) \<le> length (queue s c)"
      using fin that by (intro Min_le) auto
    then show ?thesis
      unfolding h using div_times_less_eq_dividend le_trans by blast
  qed
  then obtain t k where tk: "drain_hops exits 0 ?h refChannel (word_of_nat hop) plan s = Some t" "analysis_ok hop t"
    "(\<forall>j. \<not> exits j) \<longrightarrow> k = ?h"
    "\<forall>c. in_table c \<longrightarrow> queue t c = (if c \<in> members refChannel plan then drop (k * hop) (queue s c) else queue s c)"
    "\<forall>j < kMaxTransferFunctions. an_pairs t ! j = an_pairs s ! j @
       (if pushed s 0 refChannel (routes plan) j then map (slice_pair hop refChannel plan s j) [0..<k] else [])"
    using drain_hops_full [OF assms(1) g, of ?h exits 0] by blast
  moreover have "drainPaired exits refChannel plan s = drain_hops exits 0 ?h refChannel (word_of_nat hop) plan s"
    using analysis_ring(1) [OF assms(1) ref] nz by (simp add: drainPaired_def hop(1) Let_def)
  ultimately show ?thesis
    unfolding h [symmetric] by (intro exI [of _ t] exI [of _ k]) simp
qed

text \<open>Two rings of three samples each, drained with a hop of two: one pair, one sample left in each.\<close>

definition loaded_ring :: "nat list \<Rightarrow> nat ring" where
  "loaded_ring xs = \<lparr>storage = xs @ [0], ring_mask = 3, writeIndex = 3, readIndex = 0\<rparr>"

definition loaded_analysis :: "nat analysis" where
  "loaded_analysis =
     \<lparr>an_bus = (demo_bus False)\<lparr>rings := (replicate 64 demo_ring)[0 := loaded_ring [1, 2, 3], 1 := loaded_ring [5, 6, 7]]\<rparr>,
      an_scratch = replicate 64 [0, 0], an_fresh = 8, an_pairs = replicate 8 [], an_hopCounts = replicate 8 0,
      an_single = [], an_spl = [], an_locCapturing = False, an_locRoute = -1,
      an_locBuffer = RawCapture_arm 0 0, an_locResult = None, an_locArm = None\<rparr>"

lemma loaded_ring_facts:
  "ring_inv (loaded_ring [a, b, c])" "ring_contents (loaded_ring [a, b, c]) = [a, b, c]"
  "length (storage (loaded_ring [a, b, c])) = 4"
proof -
  have "ring_shape [a, b, c, 0] 3"
    unfolding ring_shape_def by (rule exI [of _ 2]) simp
  then show "ring_inv (loaded_ring [a, b, c])" "ring_contents (loaded_ring [a, b, c]) = [a, b, c]"
    "length (storage (loaded_ring [a, b, c])) = 4"
    by (simp_all add: ring_inv_def ring_contents_def loaded_ring_def window_def upt_rec)
qed

lemma loaded_analysis_ok: "analysis_ok 2 loaded_analysis"
proof -
  have tab: "in_table 0" "in_table 1" and cap: "bus_capacity (demo_bus False) = 4"
    by (simp_all add: in_table_def kMaxChannels_def demo_bus_facts)
  let ?b0 = "(demo_bus False)\<lparr>rings := (rings (demo_bus False))[nat 0 := loaded_ring [1, 2, 3]]\<rparr>"
  have b0: "bus_inv ?b0" "bus_capacity ?b0 = 4"
    using bus_inv_upd [OF demo_bus_inv tab(1) loaded_ring_facts(1)] loaded_ring_facts(3) cap by metis+
  have "bus_inv (?b0\<lparr>rings := (rings ?b0)[nat 1 := loaded_ring [5, 6, 7]]\<rparr>)"
    using bus_inv_upd(1) [OF b0(1) tab(2) loaded_ring_facts(1)] loaded_ring_facts(3) b0(2) by metis
  moreover have "?b0\<lparr>rings := (rings ?b0)[nat 1 := loaded_ring [5, 6, 7]]\<rparr> = an_bus loaded_analysis"
    by (simp add: loaded_analysis_def demo_bus_def)
  ultimately show ?thesis
    unfolding analysis_ok_def
    by (simp add: loaded_analysis_def kMaxChannels_def kMaxTransferFunctions_def capture_ok_def RawCapture_arm_def)
qed

definition loaded_plan :: RoutingPlan where
  "loaded_plan = \<lparr>routes = [\<lparr>tfIndex = 0, referenceChannel = 0, measurementChannel = 1\<rparr>],
     distinctReferences = [0], unroutedMeasurements = []\<rparr>"

lemma loaded_plan_planned:
  "loaded_plan = planRouting (config (an_bus loaded_analysis)) (preparedChannels (an_bus loaded_analysis))"
  by (simp add: loaded_analysis_def demo_bus_def loaded_plan_def) code_simp

lemma loaded_queues:
  "ring_contents (rings (an_bus loaded_analysis) ! 0) = [1, 2, 3]"
  "ring_contents (rings (an_bus loaded_analysis) ! Suc 0) = [5, 6, 7]"
  using loaded_ring_facts(2) by (simp_all add: loaded_analysis_def)

theorem drainPaired_aligned_witness:
  "\<exists>t. drainPaired (\<lambda>_. False) 0 loaded_plan loaded_analysis = Some t \<and>
     queue t 0 = [3] \<and> queue t 1 = [7] \<and> an_pairs t ! 0 = [([1, 2], [5, 6])]"
proof -
  have m: "members 0 loaded_plan = {0, 1}"
    by (auto simp: loaded_plan_def)
  have p: "pushed loaded_analysis 0 0 (routes loaded_plan) 0"
    by (simp add: pushed_def loaded_plan_def loaded_analysis_def)
  have Min: "Min ((\<lambda>c. length (queue loaded_analysis c)) ` members 0 loaded_plan) = 3"
    unfolding m by (simp add: loaded_queues)
  have "(0 :: int) \<in> set (distinctReferences loaded_plan)"
    by (simp add: loaded_plan_def)
  from drainPaired_aligned [OF loaded_analysis_ok loaded_plan_planned this, where exits = "\<lambda>_. False", unfolded Min m]
  obtain t where t: "drainPaired (\<lambda>_. False) 0 loaded_plan loaded_analysis = Some t"
    "\<forall>c. in_table c \<longrightarrow> queue t c = (if c \<in> {0, 1} then drop 2 (queue loaded_analysis c) else queue loaded_analysis c)"
    "\<forall>j < kMaxTransferFunctions. an_pairs t ! j = an_pairs loaded_analysis ! j @
       (if pushed loaded_analysis 0 0 (routes loaded_plan) j then map (slice_pair 2 0 loaded_plan loaded_analysis j) [0..<1] else [])"
    by (auto simp: loaded_queues)
  have "an_pairs t ! 0 = [slice_pair 2 0 loaded_plan loaded_analysis 0 0]"
    using t(3) p by (simp add: kMaxTransferFunctions_def) (simp add: loaded_analysis_def)
  also have "slice_pair 2 0 loaded_plan loaded_analysis 0 0 = ([1, 2], [5, 6])"
    using loaded_queues by (simp add: slice_pair_def loaded_plan_def)
  finally show ?thesis
    using t(1) spec [OF t(2), of 0] spec [OF t(2), of 1] loaded_queues
    by (simp add: in_table_def kMaxChannels_def)
qed

fun feed_all :: "'a raw_capture \<Rightarrow> ('a list \<times> 'a list) list \<Rightarrow> 'a raw_capture option" where
  "feed_all c [] = Some c"
| "feed_all c ((x, y) # hops) = do { d \<leftarrow> RawCapture_feedHop c x y; feed_all d hops }"

definition captured :: "'a \<Rightarrow> nat \<Rightarrow> 'a list \<Rightarrow> 'a list \<Rightarrow> 'a raw_capture" where
  "captured z len xs ys = \<lparr>rc_reference = take len xs @ replicate (len - length xs) z,
     rc_measurement = take len ys @ replicate (len - length ys) z, rc_length = len, rc_written = min len (length xs)\<rparr>"

lemma feed_captured:
  assumes "length xs = length ys" "length x = length y"
  shows "RawCapture_feedHop (captured z len xs ys) x y = Some (captured z len (xs @ x) (ys @ y))"
proof -
  have ok: "capture_ok (captured z len xs ys)"
    using assms by (auto simp: capture_ok_def captured_def)
  have n: "fed (captured z len xs ys) x y = min (length x) (len - length xs)"
    using assms by (auto simp: fed_def captured_def)
  show ?thesis
    unfolding feedHop_spec [OF ok] n using assms
    by (cases "length xs \<le> len") (auto simp: captured_def min_def)
qed

text \<open>
  a Locate capture is the paired stream itself.  Whatever hops of equal reference and
  measurement length are fed after \<^verbatim>\<open>arm(length)\<close>, the capture holds the first \<open>length\<close> samples of
  the two concatenated streams, without gap or repetition, followed by the zero fill while it is not yet
  full; it reports full exactly when that many samples have arrived; no copy leaves the buffers.
\<close>

theorem RawCapture_records_stream:
  assumes "\<forall>(x, y) \<in> set hops. length x = length y"
  shows "\<exists>c. feed_all (RawCapture_arm z len) hops = Some c \<and>
    rc_reference c = take len (concat (map fst hops)) @ replicate (len - length (concat (map fst hops))) z \<and>
    rc_measurement c = take len (concat (map snd hops)) @ replicate (len - length (concat (map snd hops))) z \<and>
    (RawCapture_isFull c \<longleftrightarrow> len \<le> length (concat (map fst hops)))"
proof -
  have "feed_all (captured z len xs ys) hops =
      Some (captured z len (xs @ concat (map fst hops)) (ys @ concat (map snd hops)))"
    if "length xs = length ys" for xs ys
    using assms that
  proof (induction hops arbitrary: xs ys)
    case (Cons h hops)
    then show ?case
      by (cases h) (simp add: feed_captured)
  qed simp
  moreover have "RawCapture_arm z len = captured z len [] []"
    by (simp add: RawCapture_arm_def captured_def)
  ultimately have "feed_all (RawCapture_arm z len) hops =
      Some (captured z len (concat (map fst hops)) (concat (map snd hops)))"
    by simp
  then show ?thesis
    by (simp add: captured_def RawCapture_isFull_def)
qed

theorem RawCapture_records_stream_witness:
  "\<exists>c. feed_all (RawCapture_arm (0 :: nat) 3) [([1, 2], [5, 6]), ([3, 4], [7, 8])] = Some c \<and>
     rc_reference c = [1, 2, 3] \<and> rc_measurement c = [5, 6, 7] \<and> RawCapture_isFull c"
  using RawCapture_records_stream [of "[([1, 2], [5, 6]), ([3, 4], [7, 8])]" "0 :: nat" 3] by simp

end
