(* ===== verification/Sample_Source.thy ===== *)
theory Sample_Source
  imports Complex_Main Prelude
begin

text \<open>
  The interface every generator of \<^verbatim>\<open>core/src/gen\<close> offers: a \<^verbatim>\<open>nextSample\<close>, and a \<^verbatim>\<open>process\<close> that fills a block
  by calling it once per element.  \<open>bounded_source\<close> adds a state invariant and the peak it guarantees.
\<close>

section \<open>The interface of a generator\<close>

locale sample_source =
  fixes next_sample :: "'s \<Rightarrow> real \<times> 's" and fill :: "'s \<Rightarrow> nat \<Rightarrow> real list \<times> 's"
  assumes fill_0: "fill s 0 = ([], s)"
    and fill_Suc: "fill s (Suc n) =
      (let (x, s1) = next_sample s; (xs, s2) = fill s1 n in (x # xs, s2))"
begin

lemma fill_length: "length (fst (fill s n)) = n"
  by (induction n arbitrary: s) (simp_all add: fill_0 fill_Suc case_prod_beta)

lemma fill_state: "snd (fill s n) = ((\<lambda>s. snd (next_sample s)) ^^ n) s"
  by (induction n arbitrary: s) (simp_all add: fill_0 fill_Suc case_prod_beta funpow_Suc_right del: funpow.simps(2))

lemma fill_nth: "i < n \<Longrightarrow> fst (fill s n) ! i = fst (next_sample (((\<lambda>s. snd (next_sample s)) ^^ i) s))"
proof (induction n arbitrary: s i)
  case (Suc n)
  show ?case
    by (cases i) (use Suc in \<open>simp_all add: fill_Suc case_prod_beta funpow_Suc_right del: funpow.simps(2)\<close>)
qed simp

text \<open>A block rendered in two calls is the block rendered in one.\<close>

lemma fill_add:
  "fill s (m + n) =
     (fst (fill s m) @ fst (fill (snd (fill s m)) n), snd (fill (snd (fill s m)) n))"
  by (induction m arbitrary: s) (simp_all add: fill_0 fill_Suc case_prod_beta)

end

locale bounded_source = sample_source next_sample fill
  for next_sample :: "'s \<Rightarrow> real \<times> 's" and fill :: "'s \<Rightarrow> nat \<Rightarrow> real list \<times> 's" +
  fixes ok :: "'s \<Rightarrow> bool" and peak :: "'s \<Rightarrow> real"
  assumes next_ok: "ok s \<Longrightarrow> ok (snd (next_sample s))"
    and next_peak: "peak (snd (next_sample s)) = peak s"
    and next_bounded: "ok s \<Longrightarrow> \<bar>fst (next_sample s)\<bar> \<le> peak s"
begin

lemma fill_ok: "ok s \<Longrightarrow> ok (snd (fill s n))"
  by (induction n arbitrary: s) (simp_all add: fill_0 fill_Suc case_prod_beta next_ok)

lemma fill_bounded: "ok s \<Longrightarrow> \<forall>x \<in> set (fst (fill s n)). \<bar>x\<bar> \<le> peak s"
proof (induction n arbitrary: s)
  case (Suc n)
  then show ?case
    using Suc.IH [OF next_ok [OF Suc.prems]] next_bounded [OF Suc.prems]
    by (simp add: fill_Suc case_prod_beta next_peak)
qed (simp add: fill_0)

end

end
