(* ===== verification/Prng.thy ===== *)
theory Prng
  imports Complex_Main Prelude
begin

text \<open>
  The random number generators of \<^verbatim>\<open>core/include/rta/gen/Prng.h\<close>: PCG32 for the noise samples,
  SplitMix64 for deriving one seed and sequence per channel from a master seed.  All arithmetic is on
  64-bit and 32-bit words.  The theory proves that the mixing function is a bijection, so that no two
  channels of one master seed share a seed or a sequence, and that uniform samples stay in range.
\<close>

section \<open>PCG32\<close>

record Pcg32 =
  pcg_state :: uint64_t
  pcg_inc :: uint64_t

definition pcg_step :: "Pcg32 \<Rightarrow> Pcg32" where
  "pcg_step g = g\<lparr>pcg_state := pcg_state g * 6364136223846793005 + pcg_inc g\<rparr>"

definition pcg_reseed :: "uint64_t \<Rightarrow> uint64_t \<Rightarrow> Pcg32" where
  "pcg_reseed seed sequence =
     (let g = \<lparr>pcg_state = 0, pcg_inc = push_bit 1 sequence OR 1\<rparr>;
          g = pcg_step g;
          g = g\<lparr>pcg_state := pcg_state g + seed\<rparr>
      in pcg_step g)"

definition nextUInt32 :: "Pcg32 \<Rightarrow> uint32_t \<times> Pcg32" where
  "nextUInt32 g =
     (let old = pcg_state g;
          xorshifted = (ucast (drop_bit 27 (drop_bit 18 old XOR old)) :: uint32_t);
          rot = (ucast (drop_bit 59 old) :: uint32_t)
      in (drop_bit (unat rot) xorshifted OR push_bit (unat ((0 - rot) AND 31)) xorshifted, pcg_step g))"

definition nextUniform :: "Pcg32 \<Rightarrow> real \<times> Pcg32" where
  "nextUniform g = (let (x, g') = nextUInt32 g in (real (unat x) * (1 / 2 ^ 32) * 2 - 1, g'))"

section \<open>SplitMix64 and the channel seeds\<close>

definition splitMix64 :: "uint64_t \<Rightarrow> uint64_t \<times> uint64_t" where
  "splitMix64 state =
     (let state = state + 0x9E3779B97F4A7C15; z = state;
          z = (z XOR drop_bit 30 z) * 0xBF58476D1CE4E5B9;
          z = (z XOR drop_bit 27 z) * 0x94D049BB133111EB
      in (z XOR drop_bit 31 z, state))"

text \<open>The loop of \<^verbatim>\<open>forChannel\<close>: two draws per turn, \<open>channel + 1\<close> turns.\<close>

fun channel_draws :: "nat \<Rightarrow> uint64_t \<Rightarrow> uint64_t \<times> uint64_t \<Rightarrow> uint64_t \<times> uint64_t" where
  "channel_draws 0 mixer acc = acc"
| "channel_draws (Suc n) mixer acc =
     (let (seed, mixer) = splitMix64 mixer; (sequence, mixer) = splitMix64 mixer
      in channel_draws n mixer (seed, sequence))"

definition forChannel :: "uint64_t \<Rightarrow> nat \<Rightarrow> Pcg32" where
  "forChannel master channel =
     (let (seed, sequence) = channel_draws (channel + 1) master (0, 0) in pcg_reseed seed sequence)"

section \<open>The mixing function is a bijection\<close>

definition mix64 :: "uint64_t \<Rightarrow> uint64_t" where
  "mix64 z = (let z = (z XOR drop_bit 30 z) * 0xBF58476D1CE4E5B9;
                  z = (z XOR drop_bit 27 z) * 0x94D049BB133111EB
              in z XOR drop_bit 31 z)"

lemma splitMix64_mix: "splitMix64 s = (mix64 (s + 0x9E3779B97F4A7C15), s + 0x9E3779B97F4A7C15)"
  by (simp add: splitMix64_def mix64_def Let_def)

lemma xorshift_inj:
  fixes x y :: uint64_t
  assumes "x XOR drop_bit k x = y XOR drop_bit k y" "0 < k"
  shows "x = y"
proof (rule bit_eqI)
  have bits: "(bit x i \<noteq> bit x (k + i)) = (bit y i \<noteq> bit y (k + i))" for i
    using arg_cong [OF assms(1), of "\<lambda>w. bit w i"] by (simp add: bit_simps)
  show "bit x i = bit y i" for i
  proof (induction "64 - i" arbitrary: i rule: less_induct)
    case less
    show ?case
    proof (cases "i < 64")
      case True
      then have "bit x (k + i) = bit y (k + i)" by (intro less) (use assms(2) in arith)
      then show ?thesis using bits [of i] by auto
    next
      case False
      then show ?thesis by (auto dest: bit_imp_le_length)
    qed
  qed
qed

lemma times_inj:
  fixes x y a b :: uint64_t
  assumes "x * a = y * a" "a * b = 1"
  shows "x = y"
proof -
  have "x * a * b = y * a * b" using assms(1) by simp
  then show ?thesis using assms(2) by (simp add: mult.assoc)
qed

lemma mix64_inj: "inj mix64"
proof (rule injI)
  fix x y
  assume "mix64 x = mix64 y"
  then have 1: "(let z = (x XOR drop_bit 30 x) * 0xBF58476D1CE4E5B9 in (z XOR drop_bit 27 z) * 0x94D049BB133111EB) =
     (let z = (y XOR drop_bit 30 y) * 0xBF58476D1CE4E5B9 in (z XOR drop_bit 27 z) * 0x94D049BB133111EB)"
    unfolding mix64_def Let_def by (rule xorshift_inj) simp
  have "(x XOR drop_bit 30 x) * 0xBF58476D1CE4E5B9 = (y XOR drop_bit 30 y) * 0xBF58476D1CE4E5B9"
    by (rule xorshift_inj [of _ 27], rule times_inj [of _ "0x94D049BB133111EB" _ "0x319642b2d24d8ec3"])
      (use 1 in \<open>simp_all add: Let_def\<close>)
  then have "x XOR drop_bit 30 x = y XOR drop_bit 30 y"
    by (rule times_inj [of _ _ _ "0x96de1b173f119089"]) simp
  then show "x = y" by (rule xorshift_inj) simp
qed

lemma channel_draws_closed:
  "channel_draws n s acc =
     (if n = 0 then acc
      else (mix64 (s + word_of_nat (2 * n - 1) * 0x9E3779B97F4A7C15),
            mix64 (s + word_of_nat (2 * n) * 0x9E3779B97F4A7C15)))"
proof (induction n arbitrary: s acc)
  case (Suc n)
  let ?G = "0x9E3779B97F4A7C15 :: uint64_t"
  have "channel_draws (Suc n) s acc = channel_draws n (s + ?G + ?G) (mix64 (s + ?G), mix64 (s + ?G + ?G))"
    by (simp add: splitMix64_mix)
  then show ?case
    by (simp only: Suc) (cases n, simp_all add: algebra_simps)
qed simp

text \<open>The words SplitMix64 hands out from one master seed are pairwise different for a whole period.\<close>

lemma draw_inj:
  assumes "mix64 (s + word_of_nat i * 0x9E3779B97F4A7C15) = mix64 (s + word_of_nat j * 0x9E3779B97F4A7C15)"
    "i < 2 ^ 64" "j < 2 ^ 64"
  shows "i = j"
proof -
  have "s + word_of_nat i * 0x9E3779B97F4A7C15 = s + word_of_nat j * 0x9E3779B97F4A7C15"
    using assms(1) by (rule injD [OF mix64_inj])
  then have "(word_of_nat i :: uint64_t) * 0x9E3779B97F4A7C15 = word_of_nat j * 0x9E3779B97F4A7C15"
    by simp
  then have "(word_of_nat i :: uint64_t) = word_of_nat j"
    by (rule times_inj [of _ _ _ "0xf1de83e19937733d"]) simp
  then have "unat (word_of_nat i :: uint64_t) = unat (word_of_nat j :: uint64_t)" by simp
  then show ?thesis using assms(2,3) by (simp add: unat_of_nat)
qed

lemma lcg_mult_inj:
  fixes x y :: uint64_t
  shows "x * 6364136223846793005 = y * 6364136223846793005 \<Longrightarrow> x = y"
  by (erule times_inj [of _ _ _ "0xc097ef87329e28a5"]) simp

lemma pcg_reseed_inj:
  assumes "pcg_reseed seed sequence = pcg_reseed seed' sequence'"
  shows "seed = seed'"
  using assms by (auto simp: pcg_reseed_def pcg_step_def Let_def dest: lcg_mult_inj)

section \<open>The period of the generator\<close>

text \<open>\<open>geo n\<close> is \<open>1 + a + \<dots> + a\<^sup>n\<^sup>-\<^sup>1\<close> for the multiplier \<open>a\<close>.\<close>

definition geo :: "int \<Rightarrow> nat \<Rightarrow> int" where
  "geo a n = (\<Sum>i<n. a ^ i)"

lemma geo_Suc: "geo a (Suc n) = 1 + a * geo a n"
  by (simp add: geo_def sum.lessThan_Suc_shift sum_distrib_left del: sum.lessThan_Suc)

lemma geo_mult: "geo a (m * n) = geo a m * geo (a ^ m) n"
proof (induction n)
  case (Suc n)
  have split: "geo a (k + l) = geo a k + a ^ k * geo a l" for k l
    by (induction k) (simp_all add: geo_Suc algebra_simps, simp add: geo_def)
  have snoc: "geo (a ^ m) (Suc n) = geo (a ^ m) n + (a ^ m) ^ n"
    by (simp add: geo_def)
  show ?case
    using split [of "m * n" m] by (simp add: Suc snoc power_mult algebra_simps)
qed (simp add: geo_def)

lemma geo_odd: "odd a \<Longrightarrow> odd n \<Longrightarrow> odd (geo a n)"
  by (simp add: geo_def even_sum_iff)

lemma geo_pow2:
  assumes "a mod 4 = 1"
  shows "\<exists>u. odd u \<and> geo a (2 ^ k) = 2 ^ k * u"
proof (induction k)
  case 0
  show ?case by (auto simp: geo_def intro: exI [of _ 1])
next
  case (Suc k)
  then obtain u where u: "odd u" "geo a (2 ^ k) = 2 ^ k * u" by auto
  have "(a ^ (2 ^ k)) mod 4 = 1" using power_mod [of a 4 "2 ^ k"] assms by simp
  then obtain v where v: "a ^ (2 ^ k) = 4 * v + 1" by (metis mult_div_mod_eq)
  have "geo a (2 ^ Suc k) = geo a (2 ^ k) * (1 + a ^ (2 ^ k))"
    using geo_mult [of a "2 ^ k" 2] by (simp add: geo_def numeral_2_eq_2 mult.commute)
  also have "\<dots> = 2 ^ Suc k * (u * (2 * v + 1))" using u v by (simp add: algebra_simps)
  finally show ?case using u(1) by (intro exI [of _ "u * (2 * v + 1)"]) simp
qed

lemma pow2_times_odd: "0 < n \<Longrightarrow> \<exists>k m. n = 2 ^ k * m \<and> odd (m :: nat)"
proof (induction n rule: less_induct)
  case (less n)
  show ?case
  proof (cases "odd n")
    case True
    then show ?thesis by (intro exI [of _ 0] exI [of _ n]) simp
  next
    case False
    then obtain h where h: "n = 2 * h" by blast
    then obtain k m where "h = 2 ^ k * m" "odd m" using less.IH [of h] less.prems by auto
    then show ?thesis using h by (intro exI [of _ "Suc k"] exI [of _ m]) simp
  qed
qed

lemma geo_dvd_iff:
  assumes "a mod 4 = 1"
  shows "2 ^ e dvd geo a n \<longleftrightarrow> 2 ^ e dvd n"
proof (cases "n = 0")
  case False
  then obtain k m where n: "n = 2 ^ k * m" "odd m"
    using pow2_times_odd [of n] by blast
  obtain u where u: "odd u" "geo a (2 ^ k) = 2 ^ k * u" using geo_pow2 [OF assms] by blast
  have "odd a" using assms by presburger
  then have odd: "odd (u * geo (a ^ 2 ^ k) m)" using u(1) n(2) by (simp add: geo_odd)
  have eq: "geo a n = 2 ^ k * (u * geo (a ^ 2 ^ k) m)" using geo_mult [of a "2 ^ k" m] u(2) by (simp add: n(1))
  show ?thesis
  proof (cases "e \<le> k")
    case True
    then have "2 ^ e dvd geo a n" "2 ^ e dvd n"
      unfolding eq by (simp_all add: n(1) le_imp_power_dvd dvd_mult2)
    then show ?thesis by simp
  next
    case False
    then have "(2 :: int) ^ e = 2 ^ k * (2 * 2 ^ (e - k - 1))" "(2 :: nat) ^ e = 2 ^ k * (2 * 2 ^ (e - k - 1))"
      by (simp_all flip: power_Suc power_add)
    then show ?thesis using odd n(2) unfolding eq by (auto simp: n(1) dest: dvd_mult_left)
  qed
qed (simp add: geo_def)

lemma pcg_step_pow:
  "pcg_state ((pcg_step ^^ n) g) =
     pcg_state g + of_int (geo 6364136223846793005 n) * (6364136223846793004 * pcg_state g + pcg_inc g) \<and>
   pcg_inc ((pcg_step ^^ n) g) = pcg_inc g"
  by (induction n) (simp_all add: geo_Suc pcg_step_def algebra_simps, simp add: geo_def)

text \<open>An odd word can be cancelled from a product that is zero.\<close>

lemma odd_cancel:
  fixes u :: uint64_t
  assumes "odd u"
  shows "of_int i * u = 0 \<longleftrightarrow> 2 ^ 64 dvd i"
proof -
  have "u = of_int (uint u)" by simp
  then have "of_int i * u = (of_int (i * uint u) :: uint64_t)" by simp
  then have "of_int i * u = 0 \<longleftrightarrow> 2 ^ 64 dvd i * uint u" by (simp only: word_of_int_eq_0_iff len_num1 len_num0) simp
  also have "\<dots> \<longleftrightarrow> 2 ^ 64 dvd i"
  proof -
    have "odd (uint u)" using assms by (simp add: bit_uint_iff flip: bit_0)
    then have "coprime ((2 :: int) ^ 64) (uint u)"
      by (intro iffD2 [OF coprime_power_left_iff] disjI1) (simp add: coprime_left_2_iff_odd)
    then show ?thesis by (simp add: coprime_dvd_mult_left_iff)
  qed
  finally show ?thesis .
qed

lemma pcg_step_period:
  assumes "odd (pcg_inc g)"
  shows "(pcg_step ^^ n) g = g \<longleftrightarrow> 2 ^ 64 dvd n"
proof -
  have "odd (6364136223846793004 * pcg_state g + pcg_inc g)" using assms by simp
  note cancel = odd_cancel [OF this]
  have "(pcg_step ^^ n) g = g \<longleftrightarrow> of_int (geo 6364136223846793005 n) * (6364136223846793004 * pcg_state g + pcg_inc g) = 0"
    using pcg_step_pow [of n g] by (auto intro: Pcg32.equality)
  also have "\<dots> \<longleftrightarrow> 2 ^ 64 dvd n"
    unfolding cancel by (rule geo_dvd_iff) simp
  finally show ?thesis .
qed

lemma pcg_reseed_inc_odd: "odd (pcg_inc (pcg_reseed seed sequence))"
  by (simp add: pcg_reseed_def pcg_step_def Let_def even_or_iff)

lemma nextUInt32_snd: "snd (nextUInt32 g) = pcg_step g"
  by (simp add: nextUInt32_def Let_def)

lemma nextUniform_step: "snd (nextUniform g) = pcg_step g"
  by (simp add: nextUniform_def nextUInt32_def Let_def)

lemma nextUniform_range: "- 1 \<le> fst (nextUniform g) \<and> fst (nextUniform g) < 1"
proof -
  have "unat x < 2 ^ 32" for x :: uint32_t
    using unsigned_less [where ?'b = 32 and ?'a = nat, of x] by simp
  then have "real (unat x) < real (2 ^ 32)" for x :: uint32_t
    by (simp only: of_nat_less_iff)
  note upper = this [of "fst (nextUInt32 g)"]
  have "0 \<le> real (unat (fst (nextUInt32 g)))" by (rule of_nat_0_le_iff)
  with upper show ?thesis by (simp add: nextUniform_def case_prod_beta)
qed

section \<open>Properties\<close>

text \<open>
  The uniform samples drawn for a channel all lie in \<open>[-1, 1)\<close>, and the generator behind
  them has the full period of its 64-bit state: after any seeding with any sequence selector it returns to
  a state exactly after a multiple of \<open>2\<^sup>6\<^sup>4\<close> samples.
\<close>

theorem Pcg32_full_period:
  "- 1 \<le> fst (nextUniform (((\<lambda>g. snd (nextUniform g)) ^^ n) (pcg_reseed seed sequence))) \<and>
   fst (nextUniform (((\<lambda>g. snd (nextUniform g)) ^^ n) (pcg_reseed seed sequence))) < 1 \<and>
   (((\<lambda>g. snd (nextUniform g)) ^^ n) (pcg_reseed seed sequence) = pcg_reseed seed sequence \<longleftrightarrow> 2 ^ 64 dvd n)"
  by (simp add: nextUniform_range nextUniform_step pcg_step_period pcg_reseed_inc_odd)

text \<open>
  two channels derived from one master seed never share a word of the seeding stream: the seed
  and the sequence selector of either are four different words, and the generators they start are different.
\<close>

theorem ChannelSeeds_distinct:
  assumes "m < n" "n < 2 ^ 63 - 1"
  shows "distinct [fst (channel_draws (m + 1) master (0, 0)), snd (channel_draws (m + 1) master (0, 0)),
                   fst (channel_draws (n + 1) master (0, 0)), snd (channel_draws (n + 1) master (0, 0))] \<and>
         forChannel master m \<noteq> forChannel master n"
    (is "?four \<and> ?gen")
proof (rule conjI)
  show four: ?four
    using assms
    by (auto simp: channel_draws_closed simp del: of_nat_Suc of_nat_add of_nat_mult dest!: draw_inj) presburger
  then show ?gen
    by (auto simp: forChannel_def case_prod_beta dest: pcg_reseed_inj)
qed

theorem ChannelSeeds_distinct_witness:
  "distinct [fst (channel_draws 1 7 (0, 0)), snd (channel_draws 1 7 (0, 0)),
             fst (channel_draws 6 7 (0, 0)), snd (channel_draws 6 7 (0, 0))] \<and>
   forChannel 7 0 \<noteq> forChannel 7 5"
  using ChannelSeeds_distinct [of 0 5 7] by simp

end
