(* ===== verification/Mls.thy ===== *)
theory Mls
  imports Complex_Main Prelude
begin

text \<open>
  The maximum-length sequence of \<^verbatim>\<open>core/src/gen/Mls.cpp\<close>: a Galois linear-feedback shift register on a
  32-bit word.  The theory proves that each of the four feedback masks of the code is maximal: the
  register returns to its start after exactly \<open>2 ^ order - 1\<close> steps and no earlier, and visits every
  nonzero state on the way.  The argument is that the step is linear over exclusive or, so that high
  powers of it are computed on the images of the single bits by repeated squaring.
\<close>

section \<open>State and operations\<close>

datatype mls_error = OrderOutOfRange

record Mls =
  mls_order :: int
  mls_period :: size_t
  mls_tapMask :: uint32_t
  mls_amplitude :: real
  mls_state :: uint32_t

definition kMinOrder :: int where "kMinOrder = 15"
definition kMaxOrder :: int where "kMaxOrder = 18"

definition tapsFor :: "int \<Rightarrow> uint32_t" where
  "tapsFor order =
     (if order = 15 then 0x6000 else if order = 16 then 0xD008 else if order = 17 then 0x12000
      else if order = 18 then 0x20400 else 0)"

definition Mls_new :: "int \<Rightarrow> real \<Rightarrow> mls_error + Mls" where
  "Mls_new order levelDbFsPeak =
     (if order < kMinOrder \<or> order > kMaxOrder then Inl OrderOutOfRange
      else Inr \<lparr>mls_order = order, mls_period = push_bit (nat order) 1 - 1, mls_tapMask = tapsFor order,
                mls_amplitude = 10 powr (levelDbFsPeak / 20), mls_state = 1\<rparr>)"

definition lfsr_step :: "uint32_t \<Rightarrow> uint32_t \<Rightarrow> uint32_t" where
  "lfsr_step taps s =
     (let out = s AND 1; s' = drop_bit 1 s in if out \<noteq> 0 then s' XOR taps else s')"

definition Mls_nextSample :: "Mls \<Rightarrow> real \<times> Mls" where
  "Mls_nextSample m =
     (let out = mls_state m AND 1; s = drop_bit 1 (mls_state m);
          s' = (if out \<noteq> 0 then s XOR mls_tapMask m else s)
      in (if out \<noteq> 0 then mls_amplitude m else - mls_amplitude m, m\<lparr>mls_state := s'\<rparr>))"

definition Mls_restart :: "Mls \<Rightarrow> Mls" where
  "Mls_restart m = m\<lparr>mls_state := 1\<rparr>"

lemma Mls_nextSample_state: "mls_state (snd (Mls_nextSample m)) = lfsr_step (mls_tapMask m) (mls_state m)"
  by (simp add: Mls_nextSample_def lfsr_step_def Let_def)

section \<open>Bit vectors\<close>

text \<open>Vectors of bits, least significant first, all of one length; \<open>z\<close> is the zero vector.\<close>

fun xorl :: "bool list \<Rightarrow> bool list \<Rightarrow> bool list" where
  "xorl (x # xs) (y # ys) = (if x then \<not> y else y) # xorl xs ys"
| "xorl _ _ = []"

text \<open>A linear map is given by the images of the unit vectors.\<close>

fun appl :: "bool list \<Rightarrow> bool list list \<Rightarrow> bool list \<Rightarrow> bool list" where
  "appl z (c # cs) (b # bs) = (if b then xorl c (appl z cs bs) else appl z cs bs)"
| "appl z _ _ = z"

definition compose :: "bool list \<Rightarrow> bool list list \<Rightarrow> bool list list \<Rightarrow> bool list list" where
  "compose z M N = map (appl z M) N"

text \<open>\<open>power_at z M bs v\<close> applies \<open>M\<close> as often as the binary number \<open>bs\<close> says, by squaring.\<close>

fun power_at :: "bool list \<Rightarrow> bool list list \<Rightarrow> bool list \<Rightarrow> bool list \<Rightarrow> bool list" where
  "power_at z M [] v = v"
| "power_at z M (b # bs) v = power_at z (compose z M M) bs (if b then appl z M v else v)"

fun nat_of_bits :: "bool list \<Rightarrow> nat" where
  "nat_of_bits [] = 0"
| "nat_of_bits (b # bs) = of_bool b + 2 * nat_of_bits bs"

definition zeros :: "nat \<Rightarrow> bool list" where
  "zeros n = replicate n False"

definition unit_at :: "nat \<Rightarrow> nat \<Rightarrow> bool list" where
  "unit_at n i = map (\<lambda>j. j = i) [0..<n]"

lemma length_xorl [simp]: "length (xorl a b) = min (length a) (length b)"
  by (induction a b rule: xorl.induct) auto

lemma nth_xorl: "i < length a \<Longrightarrow> i < length b \<Longrightarrow> xorl a b ! i = (a ! i \<noteq> b ! i)"
  by (induction a b arbitrary: i rule: xorl.induct) (auto simp: nth_Cons split: nat.splits)

lemma xorl_eqI:
  assumes "length a = length b" "length c = length a" "\<And>i. i < length a \<Longrightarrow> c ! i = (a ! i \<noteq> b ! i)"
  shows "xorl a b = c"
  using assms by (intro nth_equalityI) (auto simp: nth_xorl)

lemma length_appl: "length z = n \<Longrightarrow> \<forall>c \<in> set M. length c = n \<Longrightarrow> length (appl z M v) = n"
  by (induction z M v rule: appl.induct) auto

lemma appl_zeros: "\<not> (\<exists>i < length v. v ! i) \<Longrightarrow> appl z M v = z"
proof (induction z M v rule: appl.induct)
  case (1 z c cs b bs)
  then have "\<not> b" "\<not> (\<exists>i < length bs. bs ! i)"
    by auto
  with 1 show ?case by simp
qed auto

lemma appl_xorl:
  assumes "length a = length M" "length b = length M" "\<forall>c \<in> set M. length c = n"
  shows "appl (zeros n) M (xorl a b) = xorl (appl (zeros n) M a) (appl (zeros n) M b)"
  using assms
proof (induction M arbitrary: a b)
  case Nil
  have "xorl (zeros n) (zeros n) = zeros n"
    by (rule xorl_eqI) (simp_all add: zeros_def)
  with Nil show ?case
    by simp
next
  case (Cons c M)
  obtain x a' y b' where ab: "a = x # a'" "b = y # b'" "length a' = length M" "length b' = length M"
    using Cons.prems by (cases a; cases b) auto
  have len: "length c = n" "length (appl (zeros n) M a') = n" "length (appl (zeros n) M b') = n"
    using Cons.prems(3) by (auto simp: zeros_def intro: length_appl)
  have "appl (zeros n) M (xorl a' b') = xorl (appl (zeros n) M a') (appl (zeros n) M b')"
    using Cons ab by simp
  then show ?case
    using len unfolding ab(1,2) by (cases x; cases y) (auto intro!: nth_equalityI simp: nth_xorl)
qed

lemma appl_compose:
  assumes "length N = length v" "\<forall>c \<in> set N. length c = length M" "length M = n" "\<forall>c \<in> set M. length c = n"
  shows "appl (zeros n) (compose (zeros n) M N) v = appl (zeros n) M (appl (zeros n) N v)"
  using assms
proof (induction N v rule: list_induct2')
  case (4 c N b v)
  then have "length (appl (zeros n) N v) = n"
    by (auto simp: zeros_def intro: length_appl)
  then show ?case
    using 4 by (auto simp: compose_def appl_xorl)
next
  case 1
  then show ?case
    using appl_zeros [of "zeros n" "zeros n" M] by (simp add: compose_def zeros_def)
qed auto

definition square_map :: "nat \<Rightarrow> bool list list \<Rightarrow> bool" where
  "square_map n M \<longleftrightarrow> length M = n \<and> (\<forall>c \<in> set M. length c = n)"

lemma square_map_compose: "square_map n M \<Longrightarrow> square_map n (compose (zeros n) M M)"
  by (auto simp: square_map_def compose_def zeros_def intro: length_appl)

lemma appl_funpow_length: "square_map n M \<Longrightarrow> length v = n \<Longrightarrow> length ((appl (zeros n) M ^^ k) v) = n"
  by (induction k) (auto simp: square_map_def zeros_def intro: length_appl)

lemma power_at_funpow:
  "square_map n M \<Longrightarrow> length v = n \<Longrightarrow> power_at (zeros n) M bs v = (appl (zeros n) M ^^ nat_of_bits bs) v"
proof (induction bs arbitrary: M v)
  case (Cons b bs)
  let ?f = "appl (zeros n) M"
  let ?g = "appl (zeros n) (compose (zeros n) M M)"
  let ?v = "if b then ?f v else v"
  have g: "?g w = ?f (?f w)" if "length w = n" for w
    using that Cons.prems(1) by (intro appl_compose) (auto simp: square_map_def)
  have len: "length ?v = n"
    using Cons.prems appl_funpow_length [of n M v 1] by simp
  have double: "(?g ^^ k) w = (?f ^^ (2 * k)) w" if "length w = n" for k w
    using that
  proof (induction k)
    case (Suc k)
    have "length ((?f ^^ (2 * k)) w) = n"
      using appl_funpow_length [OF Cons.prems(1)] Suc.prems .
    then show ?case
      using Suc g by simp
  qed simp
  have "power_at (zeros n) M (b # bs) v = (?f ^^ (2 * nat_of_bits bs)) ?v"
    using Cons.IH [OF square_map_compose [OF Cons.prems(1)] len] double [OF len] by simp
  also have "\<dots> = (?f ^^ nat_of_bits (b # bs)) v"
    by (simp add: funpow_swap1)
  finally show ?case .
qed simp

section \<open>The register as a linear map\<close>

definition step_map :: "nat \<Rightarrow> bool list \<Rightarrow> bool list list" where
  "step_map n taps = taps # map (unit_at n) [0..<n - 1]"

definition to_bits :: "nat \<Rightarrow> uint32_t \<Rightarrow> bool list" where
  "to_bits n w = map (bit w) [0..<n]"

lemma square_map_step: "0 < n \<Longrightarrow> length taps = n \<Longrightarrow> square_map n (step_map n taps)"
  by (auto simp: square_map_def step_map_def unit_at_def)

lemma appl_units:
  "k + length v \<le> n \<Longrightarrow> i < n \<Longrightarrow>
     appl (zeros n) (map (unit_at n) [k..<k + length v]) v ! i = (k \<le> i \<and> i < k + length v \<and> v ! (i - k))"
proof (induction v arbitrary: k)
  case Nil
  then show ?case by (simp add: zeros_def)
next
  case (Cons b v)
  let ?r = "appl (zeros n) (map (unit_at n) [Suc k..<Suc k + length v]) v"
  have len: "length ?r = n"
    by (rule length_appl) (auto simp: zeros_def unit_at_def)
  have IH: "?r ! i = (Suc k \<le> i \<and> i < Suc k + length v \<and> v ! (i - Suc k))"
    using Cons.IH [of "Suc k"] Cons.prems by simp
  have upt: "[k..<k + length (b # v)] = k # [Suc k..<Suc k + length v]"
    using upt_conv_Cons [of k "k + length (b # v)"] by simp
  have "appl (zeros n) (map (unit_at n) [k..<k + length (b # v)]) (b # v) ! i =
      (if b then (i = k) \<noteq> ?r ! i else ?r ! i)"
    unfolding upt using Cons.prems len by (auto simp: nth_xorl unit_at_def)
  then show ?case
    unfolding IH by (auto simp: nth_Cons' Suc_diff_Suc)
qed

lemma lfsr_step_bits:
  assumes n: "0 < n" and s: "\<And>i. n \<le> i \<Longrightarrow> \<not> bit s i"
  shows "to_bits n (lfsr_step taps s) = appl (zeros n) (step_map n (to_bits n taps)) (to_bits n s)"
proof (rule nth_equalityI)
  show "length (to_bits n (lfsr_step taps s)) = length (appl (zeros n) (step_map n (to_bits n taps)) (to_bits n s))"
    using square_map_step [OF n, of "to_bits n taps"] length_appl [of "zeros n" n]
    by (simp add: to_bits_def square_map_def zeros_def)
next
  fix i assume "i < length (to_bits n (lfsr_step taps s))"
  then have i: "i < n"
    by (simp add: to_bits_def)
  have one: "s AND 1 \<noteq> 0 \<longleftrightarrow> bit s 0"
    by (simp add: and_one_eq mod_2_eq_odd bit_0)
  have tail: "to_bits n s = bit s 0 # map (bit s) [1..<n]"
    using n by (simp add: to_bits_def upt_conv_Cons)
  let ?r = "appl (zeros n) (map (unit_at n) [0..<n - 1]) (map (bit s) [1..<n])"
  have len: "length ?r = n"
    by (rule length_appl) (auto simp: zeros_def unit_at_def)
  have "?r ! i = (i < n - 1 \<and> map (bit s) [1..<n] ! i)"
    using appl_units [of 0 "map (bit s) [1..<n]" n i] i by simp
  then have r: "?r ! i = bit s (Suc i)"
    using i s [of "Suc i"] by (cases "Suc i < n") auto
  have "appl (zeros n) (step_map n (to_bits n taps)) (to_bits n s) ! i =
      (if bit s 0 then bit taps i \<noteq> bit s (Suc i) else bit s (Suc i))"
    unfolding tail step_map_def using i len r by (auto simp: nth_xorl to_bits_def)
  moreover have "to_bits n (lfsr_step taps s) ! i =
      (if bit s 0 then bit taps i \<noteq> bit s (Suc i) else bit s (Suc i))"
    using i by (auto simp: to_bits_def lfsr_step_def Let_def one bit_simps)
  ultimately show "to_bits n (lfsr_step taps s) ! i =
      appl (zeros n) (step_map n (to_bits n taps)) (to_bits n s) ! i"
    by simp
qed

lemma lfsr_step_bound:
  assumes "\<And>i. n \<le> i \<Longrightarrow> \<not> bit s i" "\<And>i. n \<le> i \<Longrightarrow> \<not> bit taps i" "n \<le> i"
  shows "\<not> bit (lfsr_step taps s) i"
  using assms by (auto simp: lfsr_step_def Let_def bit_simps)

lemma lfsr_orbit_bits:
  assumes n: "0 < n" and t: "\<And>i. n \<le> i \<Longrightarrow> \<not> bit taps i"
  shows "to_bits n ((lfsr_step taps ^^ k) 1) = (appl (zeros n) (step_map n (to_bits n taps)) ^^ k) (to_bits n 1) \<and>
    (\<forall>i \<ge> n. \<not> bit ((lfsr_step taps ^^ k) 1) i)"
proof (induction k)
  case 0
  then show ?case
    using n by (simp add: bit_1_iff)
next
  case (Suc k)
  then show ?case
    using lfsr_step_bits [OF n, of "(lfsr_step taps ^^ k) 1" taps] lfsr_step_bound [of n _ taps] t by simp
qed

lemma to_bits_inj:
  assumes "to_bits n a = to_bits n b" "\<forall>i \<ge> n. \<not> bit a i" "\<forall>i \<ge> n. \<not> bit b i"
  shows "a = b"
proof (rule bit_eqI)
  fix i
  show "bit a i = bit b i"
  proof (cases "i < n")
    case True
    then show ?thesis
      using assms(1) by (metis (no_types, lifting) add_cancel_left_left diff_zero length_map length_upt nth_map nth_upt to_bits_def)
  qed (use assms in simp)
qed

section \<open>The order of the register\<close>

text \<open>
  A period of a function at a point divides every other, so the least period is found by looking at the
  divisors of a known one: the small ones directly, the large ones through their cofactors.
\<close>

lemma funpow_fixed_mod:
  assumes "(f ^^ d) x = x"
  shows "(f ^^ k) x = (f ^^ (k mod d)) x"
proof -
  have rep: "(f ^^ (q * d)) x = x" for q
    by (induction q) (simp_all add: funpow_add assms)
  have "(f ^^ k) x = (f ^^ (k mod d)) ((f ^^ (k div d * d)) x)"
    by (metis funpow_add comp_apply add.commute div_mult_mod_eq)
  then show ?thesis
    using rep by simp
qed

lemma least_period:
  assumes T: "0 < T" "T < 512 * 512" "(f ^^ T) x = x"
    and small: "\<And>k. 0 < k \<Longrightarrow> k < 512 \<Longrightarrow> (f ^^ k) x \<noteq> x"
    and big: "\<And>m. 2 \<le> m \<Longrightarrow> m < 512 \<Longrightarrow> m dvd T \<Longrightarrow> (f ^^ (T div m)) x \<noteq> x"
    and k: "(f ^^ k) x = x"
  shows "T dvd k"
proof -
  define d where "d = (LEAST d. 0 < d \<and> (f ^^ d) x = x)"
  have d: "0 < d" "(f ^^ d) x = x"
    using LeastI [of "\<lambda>d. 0 < d \<and> (f ^^ d) x = x" T] T by (auto simp: d_def)
  have least: "\<not> (0 < j \<and> (f ^^ j) x = x)" if "j < d" for j
    using that not_less_Least unfolding d_def by blast
  have dvd: "d dvd j" if "(f ^^ j) x = x" for j
    using funpow_fixed_mod [OF d(2), of j] least [of "j mod d"] that d(1) by (auto simp: dvd_eq_mod_eq_0)
  have dT: "d dvd T"
    using dvd T(3) .
  have "T div d < 2"
  proof (rule ccontr)
    let ?m = "T div d"
    assume "\<not> ?m < 2"
    moreover have m: "T = d * ?m" "T div ?m = d" "?m dvd T"
      using dT T(1) d(1) by (auto simp: dvd_def)
    moreover have "512 \<le> d"
      using small d by (meson not_le)
    then have "?m < 512"
      using T(2) m(1) by (metis mult_le_mono not_le)
    ultimately show False
      using big [of ?m] d(2) by auto
  qed
  moreover have "T div d \<noteq> 0"
    using dT T(1) by auto
  ultimately have "T = d"
    using dT by (metis One_nat_def Suc_1 dvd_div_mult_self less_2_cases mult_1)
  then show ?thesis
    using dvd k by simp
qed

fun no_return :: "bool list \<Rightarrow> bool list list \<Rightarrow> bool list \<Rightarrow> nat \<Rightarrow> bool list \<Rightarrow> bool" where
  "no_return z M u 0 v = True"
| "no_return z M u (Suc k) v = (let w = appl z M v in w \<noteq> u \<and> no_return z M u k w)"

lemma no_return_funpow:
  "no_return z M u n v \<Longrightarrow> 0 < k \<Longrightarrow> k \<le> n \<Longrightarrow> (appl z M ^^ k) v \<noteq> u"
proof (induction n arbitrary: v k)
  case (Suc n)
  show ?case
  proof (cases "k = 1")
    case True
    then show ?thesis
      using Suc.prems by (simp add: Let_def)
  next
    case False
    then have "(appl z M ^^ (k - 1)) (appl z M v) \<noteq> u"
      using Suc.IH [of "appl z M v" "k - 1"] Suc.prems by (simp add: Let_def)
    moreover have "(appl z M ^^ k) v = (appl z M ^^ (k - 1)) (appl z M v)"
      using Suc.prems(2) by (cases k) (simp_all add: funpow_swap1)
    ultimately show ?thesis
      by simp
  qed
qed simp

text \<open>The certificate of an order: the cofactors of \<open>2 ^ n - 1\<close> below 512, with the quotients in binary.\<close>

definition certified :: "nat \<Rightarrow> uint32_t \<Rightarrow> (int \<times> bool list) list \<Rightarrow> bool" where
  "certified n taps L \<longleftrightarrow>
     (let z = zeros n; M = step_map n (to_bits n taps); u = unit_at n 0 in
      power_at z M (replicate n True) u = u \<and> no_return z M u 511 u \<and>
      list_all (\<lambda>(m, bs). power_at z M bs u \<noteq> u) L)"

lemma nat_of_bits_ones: "nat_of_bits (replicate n True) = 2 ^ n - 1"
proof (induction n)
  case (Suc n)
  obtain p where "2 ^ n = Suc p"
    using not0_implies_Suc [of "2 ^ n :: nat"] by auto
  with Suc show ?case
    by simp
qed simp

lemma certified_period:
  assumes n: "0 < n" "n \<le> 18" and bound: "\<And>i. n \<le> i \<Longrightarrow> \<not> bit taps i" and cert: "certified n taps L"
    and cof: "\<And>m. 2 \<le> m \<Longrightarrow> m < 512 \<Longrightarrow> m dvd 2 ^ n - 1 \<Longrightarrow>
      \<exists>bs. (int m, bs) \<in> set L \<and> m * nat_of_bits bs = 2 ^ n - 1"
  shows "(lfsr_step taps ^^ k) 1 = 1 \<longleftrightarrow> 2 ^ n - 1 dvd k"
proof -
  let ?z = "zeros n" and ?M = "step_map n (to_bits n taps)" and ?u = "unit_at n 0" and ?T = "2 ^ n - 1 :: nat"
  let ?f = "appl ?z ?M"
  have sq: "square_map n ?M" and u: "length ?u = n" "to_bits n 1 = ?u"
    using n by (auto simp: square_map_step to_bits_def unit_at_def bit_1_iff)
  have power: "power_at ?z ?M bs ?u = (?f ^^ nat_of_bits bs) ?u" for bs
    by (rule power_at_funpow [OF sq u(1)])
  have full: "(?f ^^ ?T) ?u = ?u" and small: "\<And>k. 0 < k \<Longrightarrow> k < 512 \<Longrightarrow> (?f ^^ k) ?u \<noteq> ?u"
    using cert power [of "replicate n True"] no_return_funpow [of ?z ?M ?u 511 ?u]
    by (auto simp: certified_def Let_def nat_of_bits_ones)
  have big: "(?f ^^ (?T div m)) ?u \<noteq> ?u" if m: "2 \<le> m" "m < 512" "m dvd ?T" for m
  proof -
    obtain bs where bs: "(int m, bs) \<in> set L" "m * nat_of_bits bs = ?T"
      using cof [OF m] by blast
    then have "?T div m = nat_of_bits bs"
      using m(1) by (metis nonzero_mult_div_cancel_left not_numeral_le_zero)
    moreover have "power_at ?z ?M bs ?u \<noteq> ?u"
      using cert bs(1) by (auto simp: certified_def Let_def list_all_iff)
    ultimately show ?thesis
      by (simp add: power)
  qed
  have orbit: "(lfsr_step taps ^^ k) 1 = 1 \<longleftrightarrow> (?f ^^ k) ?u = ?u" for k
  proof
    assume "(?f ^^ k) ?u = ?u"
    moreover have "to_bits n ((lfsr_step taps ^^ k) 1) = (?f ^^ k) ?u" "\<forall>i \<ge> n. \<not> bit ((lfsr_step taps ^^ k) 1) i"
      using lfsr_orbit_bits [OF n(1) bound, of k] u(2) by auto
    moreover have "\<forall>i \<ge> n. \<not> bit (1 :: uint32_t) i"
      using n by (simp add: bit_1_iff)
    ultimately show "(lfsr_step taps ^^ k) 1 = 1"
      using u(2) by (intro to_bits_inj [of n]) auto
  next
    assume "(lfsr_step taps ^^ k) 1 = 1"
    then show "(?f ^^ k) ?u = ?u"
      using lfsr_orbit_bits [OF n(1) bound, of k] u(2) by auto
  qed
  have T: "0 < ?T" "?T < 512 * 512"
    using n power_increasing [of n 18 "2 :: nat"] one_less_power [of "2 :: nat" n] by auto
  show ?thesis
  proof
    assume "(lfsr_step taps ^^ k) 1 = 1"
    then show "?T dvd k"
      using least_period [OF T full small big] orbit by blast
  next
    assume "?T dvd k"
    then show "(lfsr_step taps ^^ k) 1 = 1"
      unfolding orbit using funpow_fixed_mod [OF full, of k] by (simp add: dvd_eq_mod_eq_0)
  qed
qed

section \<open>The four masks of the code\<close>

definition cofactors15 :: "(int \<times> bool list) list" where
  "cofactors15 =
     [(7, [True, False, False, True, False, False, True, False, False, True, False, False, True]),
      (31, [True, False, False, False, False, True, False, False, False, False, True]),
      (151, [True, False, False, True, True, False, True, True]),
      (217, [True, True, True, False, True, False, False, True])]"

definition cofactors16 :: "(int \<times> bool list) list" where
  "cofactors16 =
     [(3, [True, False, True, False, True, False, True, False, True, False, True, False, True, False, True]),
      (5, [True, True, False, False, True, True, False, False, True, True, False, False, True, True]),
      (15, [True, False, False, False, True, False, False, False, True, False, False, False, True]),
      (17, [True, True, True, True, False, False, False, False, True, True, True, True]),
      (51, [True, False, True, False, False, False, False, False, True, False, True]),
      (85, [True, True, False, False, False, False, False, False, True, True]),
      (255, [True, False, False, False, False, False, False, False, True]),
      (257, [True, True, True, True, True, True, True, True])]"

definition cofactors17 :: "(int \<times> bool list) list" where
  "cofactors17 =
     []"

definition cofactors18 :: "(int \<times> bool list) list" where
  "cofactors18 =
     [(3, [True, False, True, False, True, False, True, False, True, False, True, False, True, False, True, False, True]),
      (7, [True, False, False, True, False, False, True, False, False, True, False, False, True, False, False, True]),
      (9, [True, True, True, False, False, False, True, True, True, False, False, False, True, True, True]),
      (19, [True, False, True, False, False, True, True, True, True, False, True, False, True, True]),
      (21, [True, True, False, False, False, False, True, True, False, False, False, False, True, True]),
      (27, [True, False, True, True, False, True, True, True, True, False, True, False, False, True]),
      (57, [True, True, True, False, True, True, True, True, True, False, False, False, True]),
      (63, [True, False, False, False, False, False, True, False, False, False, False, False, True]),
      (73, [True, True, True, False, False, False, False, False, False, True, True, True]),
      (133, [True, True, False, False, True, True, False, True, True, True, True]),
      (171, [True, False, True, True, True, True, True, True, True, False, True]),
      (189, [True, True, False, True, False, True, True, False, True, False, True]),
      (219, [True, False, True, True, False, True, False, True, False, False, True]),
      (399, [True, False, False, False, True, False, False, True, False, True]),
      (511, [True, False, False, False, False, False, False, False, False, True])]"

lemma certified15: "certified 15 0x6000 cofactors15"
  by code_simp

lemma divisors15: "list_all (\<lambda>m. (32767 :: int) mod m \<noteq> 0 \<or> m \<in> set (map fst cofactors15)) [2..511]"
  by code_simp

lemma quotients15: "list_all (\<lambda>(m, bs). m * int (nat_of_bits bs) = 32767) cofactors15"
  by (simp add: cofactors15_def)

lemma certified16: "certified 16 0xD008 cofactors16"
  by code_simp

lemma divisors16: "list_all (\<lambda>m. (65535 :: int) mod m \<noteq> 0 \<or> m \<in> set (map fst cofactors16)) [2..511]"
  by code_simp

lemma quotients16: "list_all (\<lambda>(m, bs). m * int (nat_of_bits bs) = 65535) cofactors16"
  by (simp add: cofactors16_def)

lemma certified17: "certified 17 0x12000 cofactors17"
  by code_simp

lemma divisors17: "list_all (\<lambda>m. (131071 :: int) mod m \<noteq> 0 \<or> m \<in> set (map fst cofactors17)) [2..511]"
  by code_simp

lemma quotients17: "list_all (\<lambda>(m, bs). m * int (nat_of_bits bs) = 131071) cofactors17"
  by (simp add: cofactors17_def)

lemma certified18: "certified 18 0x20400 cofactors18"
  by code_simp

lemma divisors18: "list_all (\<lambda>m. (262143 :: int) mod m \<noteq> 0 \<or> m \<in> set (map fst cofactors18)) [2..511]"
  by code_simp

lemma quotients18: "list_all (\<lambda>(m, bs). m * int (nat_of_bits bs) = 262143) cofactors18"
  by (simp add: cofactors18_def)

lemma high_bits_clear:
  fixes w :: uint32_t
  assumes "take_bit n w = w" "n \<le> i"
  shows "\<not> bit w i"
  using assms by (metis bit_take_bit_iff not_le)

lemma cofactor_listed:
  assumes div: "list_all (\<lambda>m. T' mod m \<noteq> 0 \<or> m \<in> set (map fst L)) [2..h]"
    and quot: "list_all (\<lambda>(m, bs). m * int (nat_of_bits bs) = T') L" and T: "T' = int T"
    and m: "2 \<le> m" "int m \<le> h" "m dvd T"
  shows "\<exists>bs. (int m, bs) \<in> set L \<and> m * nat_of_bits bs = T"
proof -
  have "int m \<in> set [2..h]" "int T mod int m = 0"
    using m by (auto simp: zmod_int [symmetric])
  then have "int m \<in> set [2..h]" "T' mod int m = 0"
    by (simp_all add: T)
  then have "int m \<in> set (map fst L)"
    using div by (auto simp: list_all_iff)
  then obtain bs where bs: "(int m, bs) \<in> set L"
    by auto
  then have "int (m * nat_of_bits bs) = int T"
    using quot by (auto simp: list_all_iff T)
  with bs show ?thesis
    by (metis of_nat_eq_iff)
qed

lemma period15: "(lfsr_step 0x6000 ^^ k) 1 = 1 \<longleftrightarrow> 2 ^ 15 - 1 dvd k"
proof (rule certified_period [OF _ _ _ certified15])
  show "\<not> bit (0x6000 :: uint32_t) i" if "15 \<le> i" for i
    using that by (intro high_bits_clear [of 15]) simp_all
  show "\<exists>bs. (int m, bs) \<in> set cofactors15 \<and> m * nat_of_bits bs = 2 ^ 15 - 1"
    if "2 \<le> m" "m < 512" "m dvd 2 ^ 15 - 1" for m
    using that by (intro cofactor_listed [OF divisors15 quotients15]) simp_all
qed simp_all

lemma period16: "(lfsr_step 0xD008 ^^ k) 1 = 1 \<longleftrightarrow> 2 ^ 16 - 1 dvd k"
proof (rule certified_period [OF _ _ _ certified16])
  show "\<not> bit (0xD008 :: uint32_t) i" if "16 \<le> i" for i
    using that by (intro high_bits_clear [of 16]) simp_all
  show "\<exists>bs. (int m, bs) \<in> set cofactors16 \<and> m * nat_of_bits bs = 2 ^ 16 - 1"
    if "2 \<le> m" "m < 512" "m dvd 2 ^ 16 - 1" for m
    using that by (intro cofactor_listed [OF divisors16 quotients16]) simp_all
qed simp_all

lemma period17: "(lfsr_step 0x12000 ^^ k) 1 = 1 \<longleftrightarrow> 2 ^ 17 - 1 dvd k"
proof (rule certified_period [OF _ _ _ certified17])
  show "\<not> bit (0x12000 :: uint32_t) i" if "17 \<le> i" for i
    using that by (intro high_bits_clear [of 17]) simp_all
  show "\<exists>bs. (int m, bs) \<in> set cofactors17 \<and> m * nat_of_bits bs = 2 ^ 17 - 1"
    if "2 \<le> m" "m < 512" "m dvd 2 ^ 17 - 1" for m
    using that by (intro cofactor_listed [OF divisors17 quotients17]) simp_all
qed simp_all

lemma period18: "(lfsr_step 0x20400 ^^ k) 1 = 1 \<longleftrightarrow> 2 ^ 18 - 1 dvd k"
proof (rule certified_period [OF _ _ _ certified18])
  show "\<not> bit (0x20400 :: uint32_t) i" if "18 \<le> i" for i
    using that by (intro high_bits_clear [of 18]) simp_all
  show "\<exists>bs. (int m, bs) \<in> set cofactors18 \<and> m * nat_of_bits bs = 2 ^ 18 - 1"
    if "2 \<le> m" "m < 512" "m dvd 2 ^ 18 - 1" for m
    using that by (intro cofactor_listed [OF divisors18 quotients18]) simp_all
qed simp_all

section \<open>Properties\<close>

lemma Mls_states: "mls_state (((\<lambda>m. snd (Mls_nextSample m)) ^^ k) m) = (lfsr_step (mls_tapMask m) ^^ k) (mls_state m) \<and>
    mls_tapMask (((\<lambda>m. snd (Mls_nextSample m)) ^^ k) m) = mls_tapMask m"
  by (induction k) (simp_all add: Mls_nextSample_state, simp add: Mls_nextSample_def Let_def)

lemma tapsFor_period:
  assumes "15 \<le> order" "order \<le> 18"
  shows "(lfsr_step (tapsFor order) ^^ k) 1 = 1 \<longleftrightarrow> 2 ^ nat order - 1 dvd k"
    and "nat order \<le> i \<Longrightarrow> \<not> bit (tapsFor order) i"
proof -
  have "order = 15 \<or> order = 16 \<or> order = 17 \<or> order = 18"
    using assms by auto
  then show "(lfsr_step (tapsFor order) ^^ k) 1 = 1 \<longleftrightarrow> 2 ^ nat order - 1 dvd k"
    using period15 [of k] period16 [of k] period17 [of k] period18 [of k] by (auto simp: tapsFor_def)
  show "\<not> bit (tapsFor order) i" if "nat order \<le> i"
    using \<open>order = 15 \<or> order = 16 \<or> order = 17 \<or> order = 18\<close> that
      high_bits_clear [of 15 "0x6000" i] high_bits_clear [of 16 "0xD008" i]
      high_bits_clear [of 17 "0x12000" i] high_bits_clear [of 18 "0x20400" i]
    by (auto simp: tapsFor_def)
qed

lemma orbit_maximal:
  fixes taps :: uint32_t and n :: nat
  assumes n: "0 < n" "n < 32" and T_def: "T = 2 ^ n - 1" and bound: "\<And>i. n \<le> i \<Longrightarrow> \<not> bit taps i"
    and period: "\<And>k. (lfsr_step taps ^^ k) 1 = 1 \<longleftrightarrow> T dvd k"
  shows "(\<lambda>k. (lfsr_step taps ^^ k) 1) ` {..<T} = {w. w \<noteq> 0 \<and> unat w < 2 ^ n}"
proof -
  let ?s = "\<lambda>k. (lfsr_step taps ^^ k) 1"
  have T: "?s T = 1" "0 < T"
    using period n(1) one_less_power [of "2 :: nat" n] by (auto simp: T_def)
  have shift: "?s (j + (T - k)) = 1" if "?s j = ?s k" "k \<le> T" for j k
  proof -
    have "?s (j + (T - k)) = (lfsr_step taps ^^ (T - k)) (?s j)"
      unfolding add.commute [of j] funpow_add by simp
    also have "\<dots> = ?s (T - k + k)"
      unfolding that(1) by (simp add: funpow_add)
    finally show ?thesis
      using that(2) T(1) by simp
  qed
  have inj: "inj_on ?s {..<T}"
  proof (rule linorder_inj_onI')
    fix j k assume jk: "j \<in> {..<T}" "k \<in> {..<T}" "j < k"
    show "?s j \<noteq> ?s k"
    proof
      assume "?s j = ?s k"
      then have "T dvd j + (T - k)"
        using shift [of j k] jk(2) period by simp
      moreover have "0 < j + (T - k)" "j + (T - k) < T"
        using jk by auto
      ultimately show False
        by (meson dvd_imp_le not_le)
    qed
  qed
  have nz: "?s k \<noteq> 0" if "k < T" for k
  proof
    assume "?s k = 0"
    moreover have "(lfsr_step taps ^^ j) 0 = 0" for j
      by (induction j) (simp_all add: lfsr_step_def)
    ultimately have "?s (T - k + k) = 0"
      unfolding funpow_add by simp
    then show False
      using T(1) that by simp
  qed
  have lt: "unat (?s k) < 2 ^ n" for k
  proof -
    have "\<forall>i \<ge> n. \<not> bit (?s k) i"
      using lfsr_orbit_bits [OF n(1) bound] by blast
    then have "take_bit n (?s k) = ?s k"
      by (auto simp: bit_eq_iff bit_simps not_le)
    then have "unat (?s k) = take_bit n (unat (?s k))"
      by (metis unsigned_take_bit_eq)
    then show ?thesis
      by (metis take_bit_nat_less_exp)
  qed
  have sub: "?s ` {..<T} \<subseteq> {w. w \<noteq> 0 \<and> unat w < 2 ^ n}"
    using nz lt by auto
  have "unat ` {w :: uint32_t. w \<noteq> 0 \<and> unat w < 2 ^ n} \<subseteq> {1..<2 ^ n}"
    by (auto simp: Suc_le_eq unat_gt_0)
  then have "card (unat ` {w :: uint32_t. w \<noteq> 0 \<and> unat w < 2 ^ n}) \<le> card {1..<2 ^ n :: nat}"
    by (intro card_mono) auto
  then have "card {w :: uint32_t. w \<noteq> 0 \<and> unat w < 2 ^ n} \<le> T"
    by (subst (asm) card_image) (auto simp: T_def inj_on_def unsigned_word_eqI)
  moreover have "card (?s ` {..<T}) = T"
    using inj by (simp add: card_image)
  ultimately show ?thesis
    using sub by (intro card_seteq) auto
qed

text \<open>
  Property C39: the sequence is maximal for every order the constructor accepts.  The register started at 1
  is back at 1 after exactly the multiples of \<open>period() = 2 ^ order - 1\<close> samples, and within one period it
  takes every nonzero \<open>order\<close>-bit value, and never zero.
\<close>

theorem Mls_maximal:
  assumes "Mls_new order level = Inr m"
  shows "unat (mls_period m) = 2 ^ nat order - 1 \<and>
    (\<forall>k. mls_state (((\<lambda>m. snd (Mls_nextSample m)) ^^ k) m) = 1 \<longleftrightarrow> unat (mls_period m) dvd k) \<and>
    (\<lambda>k. mls_state (((\<lambda>m. snd (Mls_nextSample m)) ^^ k) m)) ` {..<unat (mls_period m)} =
      {w. w \<noteq> 0 \<and> unat w < 2 ^ nat order}"
proof -
  have o: "15 \<le> order" "order \<le> 18" and m: "mls_period m = push_bit (nat order) 1 - 1"
      "mls_tapMask m = tapsFor order" "mls_state m = 1"
    using assms by (auto simp: Mls_new_def kMinOrder_def kMaxOrder_def split: if_splits)
  have p: "unat (mls_period m) = 2 ^ nat order - 1"
  proof -
    have "order = 15 \<or> order = 16 \<or> order = 17 \<or> order = 18"
      using o by auto
    then show ?thesis
      using m(1) by (auto simp: push_bit_eq_mult)
  qed
  have st: "mls_state (((\<lambda>m. snd (Mls_nextSample m)) ^^ k) m) = (lfsr_step (tapsFor order) ^^ k) 1" for k
    using Mls_states [of k m] m by simp
  show ?thesis
    using orbit_maximal [of "nat order" _ "tapsFor order"] tapsFor_period [OF o] o unfolding st p by auto
qed

theorem Mls_maximal_witness:
  "\<exists>m. Mls_new 17 (-6) = Inr m \<and> unat (mls_period m) = 131071 \<and>
     mls_state (((\<lambda>m. snd (Mls_nextSample m)) ^^ 131071) m) = 1"
proof -
  obtain m where m: "Mls_new 17 (-6) = Inr m"
    by (simp add: Mls_new_def kMinOrder_def kMaxOrder_def)
  show ?thesis
    using Mls_maximal [OF m] m by auto
qed

end
