(* ===== verification/Generators.thy ===== *)
theory Generators
  imports Sample_Source Prng Mls
begin

text \<open>
  The signal generators of \<^verbatim>\<open>core/src/gen\<close>: \<^verbatim>\<open>Oscillator\<close> and \<^verbatim>\<open>DualSine\<close> (Oscillator.cpp), \<^verbatim>\<open>WhiteNoise\<close>
  and \<^verbatim>\<open>PinkNoise\<close> (Noise.cpp) and the block form of \<^verbatim>\<open>Mls\<close>.  Finite doubles and floats are real numbers,
  so a narrowing cast is the identity.  Every generator is shown to be a \<open>bounded_source\<close>; the oscillator
  is phase-continuous under frequency changes, and the level constant of the pink filter is the root of the
  energy of the impulse response of the filter the code runs.
\<close>

section \<open>Oscillator and DualSine\<close>

record Oscillator =
  sampleRateHz :: real
  frequencyHz :: real
  osc_phase :: real
  osc_amplitude :: real

definition dbToAmplitude :: "real \<Rightarrow> real" where
  "dbToAmplitude db = 10 powr (db / 20)"

definition Oscillator_new :: "real \<Rightarrow> real \<Rightarrow> real \<Rightarrow> Oscillator" where
  "Oscillator_new sampleRate freq levelDbFsPeak =
     \<lparr>sampleRateHz = sampleRate, frequencyHz = freq, osc_phase = 0, osc_amplitude = dbToAmplitude levelDbFsPeak\<rparr>"

definition setFrequency :: "Oscillator \<Rightarrow> real \<Rightarrow> Oscillator" where
  "setFrequency osc hz = osc\<lparr>frequencyHz := hz\<rparr>"

definition setLevelDbFsPeak :: "Oscillator \<Rightarrow> real \<Rightarrow> Oscillator" where
  "setLevelDbFsPeak osc db = osc\<lparr>osc_amplitude := dbToAmplitude db\<rparr>"

text \<open>The loop \<^verbatim>\<open>while (phase_ >= 1.0) phase_ -= 1.0\<close>.\<close>

function wrap_turns :: "real \<Rightarrow> real" where
  "wrap_turns p = (if p \<ge> 1 then wrap_turns (p - 1) else p)"
  by pat_completeness auto
termination
  by (relation "measure (\<lambda>p. nat \<lceil>p\<rceil>)") simp_all

declare wrap_turns.simps [simp del]

definition Oscillator_nextSample :: "Oscillator \<Rightarrow> real \<times> Oscillator" where
  "Oscillator_nextSample osc =
     (let sample = osc_amplitude osc * sin (2 * pi * osc_phase osc);
          phase = osc_phase osc + frequencyHz osc / sampleRateHz osc
      in (sample, osc\<lparr>osc_phase := wrap_turns phase\<rparr>))"

fun Oscillator_process :: "Oscillator \<Rightarrow> nat \<Rightarrow> real list \<times> Oscillator" where
  "Oscillator_process osc 0 = ([], osc)"
| "Oscillator_process osc (Suc n) =
     (let (x, osc1) = Oscillator_nextSample osc; (xs, osc2) = Oscillator_process osc1 n in (x # xs, osc2))"

record DualSine =
  osc1 :: Oscillator
  osc2 :: Oscillator

definition kPairToPerToneDb :: real where
  "kPairToPerToneDb = 6.0205999132796239"

definition DualSine_new :: "real \<Rightarrow> real \<Rightarrow> real \<Rightarrow> real \<Rightarrow> DualSine" where
  "DualSine_new sampleRate f1Hz f2Hz levelDbFsPeak =
     \<lparr>osc1 = Oscillator_new sampleRate f1Hz (levelDbFsPeak - kPairToPerToneDb),
      osc2 = Oscillator_new sampleRate f2Hz (levelDbFsPeak - kPairToPerToneDb)\<rparr>"

definition DualSine_nextSample :: "DualSine \<Rightarrow> real \<times> DualSine" where
  "DualSine_nextSample d =
     (let (x, o1) = Oscillator_nextSample (osc1 d); (y, o2) = Oscillator_nextSample (osc2 d)
      in (x + y, d\<lparr>osc1 := o1, osc2 := o2\<rparr>))"

fun DualSine_process :: "DualSine \<Rightarrow> nat \<Rightarrow> real list \<times> DualSine" where
  "DualSine_process d 0 = ([], d)"
| "DualSine_process d (Suc n) =
     (let (x, d1) = DualSine_nextSample d; (xs, d2) = DualSine_process d1 n in (x # xs, d2))"

lemma wrap_turns_range: "0 \<le> p \<Longrightarrow> 0 \<le> wrap_turns p \<and> wrap_turns p < 1"
  by (induction p rule: wrap_turns.induct) (subst (1 2) wrap_turns.simps, simp)

lemma wrap_turns_sin: "sin (2 * pi * (wrap_turns p + q)) = sin (2 * pi * (p + q))"
proof (induction p rule: wrap_turns.induct)
  case (1 p)
  have "2 * pi * (p - 1 + q) = 2 * pi * (p + q) - 2 * pi" by (simp add: algebra_simps)
  then have "sin (2 * pi * (p - 1 + q)) = sin (2 * pi * (p + q))" by (simp add: sin_diff)
  with 1 show ?case by (subst wrap_turns.simps) simp
qed

text \<open>One sample per requested frequency: the frequency is set, then a sample is rendered.\<close>

fun osc_glide :: "Oscillator \<Rightarrow> real list \<Rightarrow> real list \<times> Oscillator" where
  "osc_glide osc [] = ([], osc)"
| "osc_glide osc (f # fs) =
     (let (x, o1) = Oscillator_nextSample (setFrequency osc f); (xs, o2) = osc_glide o1 fs in (x # xs, o2))"

lemma osc_glide_closed:
  assumes "i < length fs"
  shows "fst (osc_glide osc fs) ! i =
    osc_amplitude osc * sin (2 * pi * (osc_phase osc + sum_list (take i fs) / sampleRateHz osc))"
  using assms
proof (induction fs arbitrary: osc i)
  case (Cons f fs)
  show ?case
  proof (cases i)
    case 0
    then show ?thesis by (simp add: case_prod_beta Oscillator_nextSample_def setFrequency_def Let_def)
  next
    case (Suc j)
    with Cons.prems have "j < length fs" by simp
    from Cons.IH [OF this] show ?thesis
      by (simp add: Suc case_prod_beta Oscillator_nextSample_def setFrequency_def Let_def wrap_turns_sin
          add_divide_distrib add.assoc)
  qed
qed simp

lemma osc_glide_phase:
  assumes "0 < sampleRateHz osc" "\<forall>f \<in> set fs. 0 \<le> f" "0 \<le> osc_phase osc" "osc_phase osc < 1"
  shows "0 \<le> osc_phase (snd (osc_glide osc fs)) \<and> osc_phase (snd (osc_glide osc fs)) < 1"
  using assms
proof (induction fs arbitrary: osc)
  case (Cons f fs)
  define o1 where "o1 = snd (Oscillator_nextSample (setFrequency osc f))"
  have "0 \<le> osc_phase o1 \<and> osc_phase o1 < 1"
    using Cons.prems wrap_turns_range [of "osc_phase osc + f / sampleRateHz osc"]
    by (simp add: o1_def Oscillator_nextSample_def setFrequency_def Let_def)
  moreover have "sampleRateHz o1 = sampleRateHz osc"
    by (simp add: o1_def Oscillator_nextSample_def setFrequency_def Let_def)
  ultimately show ?case
    using Cons.IH [of o1] Cons.prems by (simp add: case_prod_beta flip: o1_def)
qed simp

section \<open>White and pink noise\<close>

definition kDefaultNoiseLevelDbFsRms :: real where
  "kDefaultNoiseLevelDbFsRms = - 12"

record WhiteNoise =
  white_rng :: Pcg32
  white_levelDbFsRms :: real
  white_scale :: real

definition white_setLevelDbFsRms :: "WhiteNoise \<Rightarrow> real \<Rightarrow> WhiteNoise" where
  "white_setLevelDbFsRms w db = w\<lparr>white_levelDbFsRms := db, white_scale := 10 powr (db / 20) * sqrt 3\<rparr>"

definition WhiteNoise_new :: "Pcg32 \<Rightarrow> real \<Rightarrow> WhiteNoise" where
  "WhiteNoise_new rng db =
     white_setLevelDbFsRms
       \<lparr>white_rng = rng, white_levelDbFsRms = kDefaultNoiseLevelDbFsRms, white_scale = 0\<rparr> db"

definition WhiteNoise_nextSample :: "WhiteNoise \<Rightarrow> real \<times> WhiteNoise" where
  "WhiteNoise_nextSample w =
     (let (u, rng) = nextUniform (white_rng w) in (u * white_scale w, w\<lparr>white_rng := rng\<rparr>))"

fun WhiteNoise_process :: "WhiteNoise \<Rightarrow> nat \<Rightarrow> real list \<times> WhiteNoise" where
  "WhiteNoise_process w 0 = ([], w)"
| "WhiteNoise_process w (Suc n) =
     (let (x, w1) = WhiteNoise_nextSample w; (xs, w2) = WhiteNoise_process w1 n in (x # xs, w2))"

definition kRmsGainVsWhite :: real where
  "kRmsGainVsWhite = 3.0525275463333927"

text \<open>The seven state words of the filter, \<^verbatim>\<open>b0_\<close> to \<^verbatim>\<open>b6_\<close>.\<close>

record kellett =
  b0 :: real
  b1 :: real
  b2 :: real
  b3 :: real
  b4 :: real
  b5 :: real
  b6 :: real

record PinkNoise =
  pink_rng :: Pcg32
  pink_levelDbFsRms :: real
  pink_scale :: real
  pink_filter :: kellett

definition pink_setLevelDbFsRms :: "PinkNoise \<Rightarrow> real \<Rightarrow> PinkNoise" where
  "pink_setLevelDbFsRms p db =
     p\<lparr>pink_levelDbFsRms := db, pink_scale := 10 powr (db / 20) * sqrt 3 / kRmsGainVsWhite\<rparr>"

definition kellett_zero :: kellett where
  "kellett_zero = \<lparr>b0 = 0, b1 = 0, b2 = 0, b3 = 0, b4 = 0, b5 = 0, b6 = 0\<rparr>"

definition PinkNoise_new :: "Pcg32 \<Rightarrow> real \<Rightarrow> PinkNoise" where
  "PinkNoise_new rng db =
     pink_setLevelDbFsRms
       \<lparr>pink_rng = rng, pink_levelDbFsRms = kDefaultNoiseLevelDbFsRms, pink_scale = 0, pink_filter = kellett_zero\<rparr> db"

text \<open>The filter inside \<^verbatim>\<open>PinkNoise::nextSample\<close>, from one white sample to one unscaled output.\<close>

definition kellett_step :: "kellett \<Rightarrow> real \<Rightarrow> real \<times> kellett" where
  "kellett_step k w =
     (let k = k\<lparr>b0 := 0.99886 * b0 k + w * 0.0555179\<rparr>;
          k = k\<lparr>b1 := 0.99332 * b1 k + w * 0.0750759\<rparr>;
          k = k\<lparr>b2 := 0.96900 * b2 k + w * 0.1538520\<rparr>;
          k = k\<lparr>b3 := 0.86650 * b3 k + w * 0.3104856\<rparr>;
          k = k\<lparr>b4 := 0.55000 * b4 k + w * 0.5329522\<rparr>;
          k = k\<lparr>b5 := - 0.76160 * b5 k - w * 0.0168980\<rparr>;
          out = b0 k + b1 k + b2 k + b3 k + b4 k + b5 k + b6 k + w * 0.5362;
          k = k\<lparr>b6 := w * 0.115926\<rparr>
      in (out, k))"

definition PinkNoise_nextSample :: "PinkNoise \<Rightarrow> real \<times> PinkNoise" where
  "PinkNoise_nextSample p =
     (let (w, rng) = nextUniform (pink_rng p); (out, k) = kellett_step (pink_filter p) w
      in (out * pink_scale p, p\<lparr>pink_rng := rng, pink_filter := k\<rparr>))"

fun PinkNoise_process :: "PinkNoise \<Rightarrow> nat \<Rightarrow> real list \<times> PinkNoise" where
  "PinkNoise_process p 0 = ([], p)"
| "PinkNoise_process p (Suc n) =
     (let (x, p1) = PinkNoise_nextSample p; (xs, p2) = PinkNoise_process p1 n in (x # xs, p2))"

fun Mls_process :: "Mls \<Rightarrow> nat \<Rightarrow> real list \<times> Mls" where
  "Mls_process m 0 = ([], m)"
| "Mls_process m (Suc n) =
     (let (x, m1) = Mls_nextSample m; (xs, m2) = Mls_process m1 n in (x # xs, m2))"

section \<open>Every generator is a bounded source\<close>

lemma abs_nextUniform: "\<bar>fst (nextUniform g)\<bar> \<le> 1"
  using nextUniform_range [of g] by linarith

interpretation osc: bounded_source Oscillator_nextSample Oscillator_process
  "\<lambda>osc. 0 \<le> osc_amplitude osc" osc_amplitude
proof unfold_locales
  fix s :: Oscillator assume "0 \<le> osc_amplitude s"
  then show "\<bar>fst (Oscillator_nextSample s)\<bar> \<le> osc_amplitude s"
    using mult_left_mono [of "\<bar>sin (2 * pi * osc_phase s)\<bar>" 1 "osc_amplitude s"]
    by (simp add: Oscillator_nextSample_def Let_def abs_mult abs_sin_le_one)
qed (simp_all add: Oscillator_nextSample_def Let_def case_prod_beta)

interpretation dual: bounded_source DualSine_nextSample DualSine_process
  "\<lambda>d. 0 \<le> osc_amplitude (osc1 d) \<and> 0 \<le> osc_amplitude (osc2 d)"
  "\<lambda>d. osc_amplitude (osc1 d) + osc_amplitude (osc2 d)"
proof unfold_locales
  fix s :: DualSine
  assume ok: "0 \<le> osc_amplitude (osc1 s) \<and> 0 \<le> osc_amplitude (osc2 s)"
  then show "0 \<le> osc_amplitude (osc1 (snd (DualSine_nextSample s))) \<and>
      0 \<le> osc_amplitude (osc2 (snd (DualSine_nextSample s)))"
    by (simp add: DualSine_nextSample_def case_prod_beta osc.next_peak)
  show "\<bar>fst (DualSine_nextSample s)\<bar> \<le> osc_amplitude (osc1 s) + osc_amplitude (osc2 s)"
    using ok osc.next_bounded [of "osc1 s"] osc.next_bounded [of "osc2 s"]
    by (simp add: DualSine_nextSample_def case_prod_beta)
qed (simp_all add: DualSine_nextSample_def Let_def case_prod_beta osc.next_peak)

interpretation white: bounded_source WhiteNoise_nextSample WhiteNoise_process
  "\<lambda>w. 0 \<le> white_scale w" white_scale
proof unfold_locales
  fix s :: WhiteNoise assume "0 \<le> white_scale s"
  then show "\<bar>fst (WhiteNoise_nextSample s)\<bar> \<le> white_scale s"
    using mult_right_mono [OF abs_nextUniform [of "white_rng s"], of "white_scale s"]
    by (simp add: WhiteNoise_nextSample_def case_prod_beta abs_mult)
qed (simp_all add: WhiteNoise_nextSample_def Let_def case_prod_beta)

interpretation mls: bounded_source Mls_nextSample Mls_process "\<lambda>m. 0 \<le> mls_amplitude m" mls_amplitude
  by unfold_locales (simp_all add: Mls_nextSample_def Let_def case_prod_beta)

text \<open>A one-pole path driven by samples in \<open>[-1, 1]\<close> stays within its steady-state gain.\<close>

definition pole_peak :: "real \<Rightarrow> real \<Rightarrow> real" where
  "pole_peak p g = g / (1 - p)"

lemma one_pole:
  assumes "\<bar>b\<bar> \<le> pole_peak p g" "\<bar>w\<bar> \<le> 1" "0 \<le> p" "p < 1" "0 \<le> g"
  shows "\<bar>p * b + w * g\<bar> \<le> pole_peak p g"
proof -
  have "\<bar>p * b + w * g\<bar> \<le> p * \<bar>b\<bar> + \<bar>w\<bar> * g" using assms(3,5) abs_triangle_ineq [of "p * b" "w * g"] by (simp add: abs_mult)
  also have "\<dots> \<le> p * pole_peak p g + g"
    using mult_left_mono [OF assms(1,3)] mult_right_mono [OF assms(2,5)] by simp
  also have "\<dots> = pole_peak p g" using assms(4) by (simp add: pole_peak_def field_simps)
  finally show ?thesis .
qed

definition kellett_ok :: "kellett \<Rightarrow> bool" where
  "kellett_ok k \<longleftrightarrow>
     \<bar>b0 k\<bar> \<le> pole_peak 0.99886 0.0555179 \<and> \<bar>b1 k\<bar> \<le> pole_peak 0.99332 0.0750759 \<and>
     \<bar>b2 k\<bar> \<le> pole_peak 0.969 0.153852 \<and> \<bar>b3 k\<bar> \<le> pole_peak 0.8665 0.3104856 \<and>
     \<bar>b4 k\<bar> \<le> pole_peak 0.55 0.5329522 \<and> \<bar>b5 k\<bar> \<le> pole_peak 0.7616 0.016898 \<and> \<bar>b6 k\<bar> \<le> 0.115926"

definition kellett_peak :: real where
  "kellett_peak = pole_peak 0.99886 0.0555179 + pole_peak 0.99332 0.0750759 + pole_peak 0.969 0.153852 +
     pole_peak 0.8665 0.3104856 + pole_peak 0.55 0.5329522 + pole_peak 0.7616 0.016898 + 0.115926 + 0.5362"

lemma kellett_ok_zero: "kellett_ok kellett_zero"
  by (simp add: kellett_ok_def kellett_zero_def pole_peak_def)

lemma kellett_step_ok:
  assumes "kellett_ok k" "\<bar>w\<bar> \<le> 1"
  shows "kellett_ok (snd (kellett_step k w))" and "\<bar>fst (kellett_step k w)\<bar> \<le> kellett_peak"
proof -
  note bounds = assms(1) [unfolded kellett_ok_def]
  have p: "\<bar>0.99886 * b0 k + w * 0.0555179\<bar> \<le> pole_peak 0.99886 0.0555179"
    "\<bar>0.99332 * b1 k + w * 0.0750759\<bar> \<le> pole_peak 0.99332 0.0750759"
    "\<bar>0.969 * b2 k + w * 0.153852\<bar> \<le> pole_peak 0.969 0.153852"
    "\<bar>0.8665 * b3 k + w * 0.3104856\<bar> \<le> pole_peak 0.8665 0.3104856"
    "\<bar>0.55 * b4 k + w * 0.5329522\<bar> \<le> pole_peak 0.55 0.5329522"
    "\<bar>0.7616 * b5 k + w * 0.016898\<bar> \<le> pole_peak 0.7616 0.016898"
    by (rule one_pole; use bounds assms(2) in simp)+
  have "\<bar>- 0.7616 * b5 k - w * 0.016898\<bar> = \<bar>0.7616 * b5 k + w * 0.016898\<bar>"
    using abs_minus_cancel [of "0.7616 * b5 k + w * 0.016898"] by (simp add: algebra_simps)
  then have p5: "\<bar>- 0.7616 * b5 k - w * 0.016898\<bar> \<le> pole_peak 0.7616 0.016898"
    using p(6) by simp
  have w: "\<bar>w * 0.115926\<bar> \<le> 0.115926" "\<bar>w * 0.5362\<bar> \<le> 0.5362"
    using assms(2) by (simp_all add: abs_mult)
  have b6: "\<bar>b6 k\<bar> \<le> 0.115926" using bounds by simp
  have step: "kellett_step k w =
     ((0.99886 * b0 k + w * 0.0555179) + (0.99332 * b1 k + w * 0.0750759) + (0.969 * b2 k + w * 0.153852) +
      (0.8665 * b3 k + w * 0.3104856) + (0.55 * b4 k + w * 0.5329522) + (- 0.7616 * b5 k - w * 0.016898) +
      b6 k + w * 0.5362,
      \<lparr>b0 = 0.99886 * b0 k + w * 0.0555179, b1 = 0.99332 * b1 k + w * 0.0750759, b2 = 0.969 * b2 k + w * 0.153852,
       b3 = 0.8665 * b3 k + w * 0.3104856, b4 = 0.55 * b4 k + w * 0.5329522,
       b5 = - 0.7616 * b5 k - w * 0.016898, b6 = w * 0.115926\<rparr>)"
    by (simp add: kellett_step_def Let_def)
  show "kellett_ok (snd (kellett_step k w))"
    unfolding step kellett_ok_def by (simp only: snd_conv kellett.simps p p5 w)
  show "\<bar>fst (kellett_step k w)\<bar> \<le> kellett_peak"
    unfolding step fst_conv kellett_peak_def
    by (intro order_trans [OF abs_triangle_ineq] add_mono p(1-5) p5 w b6)
qed

interpretation pink: bounded_source PinkNoise_nextSample PinkNoise_process
  "\<lambda>p. 0 \<le> pink_scale p \<and> kellett_ok (pink_filter p)" "\<lambda>p. kellett_peak * pink_scale p"
proof unfold_locales
  fix s :: PinkNoise
  assume ok: "0 \<le> pink_scale s \<and> kellett_ok (pink_filter s)"
  note step = kellett_step_ok [OF conjunct2 [OF ok] abs_nextUniform]
  show "0 \<le> pink_scale (snd (PinkNoise_nextSample s)) \<and> kellett_ok (pink_filter (snd (PinkNoise_nextSample s)))"
    using ok step(1) by (simp add: PinkNoise_nextSample_def case_prod_beta)
  show "\<bar>fst (PinkNoise_nextSample s)\<bar> \<le> kellett_peak * pink_scale s"
    using ok mult_right_mono [OF step(2) conjunct1 [OF ok]]
    by (simp add: PinkNoise_nextSample_def case_prod_beta abs_mult)
qed (simp_all add: PinkNoise_nextSample_def Let_def case_prod_beta)

section \<open>The level of pink noise\<close>

text \<open>The pole and gain of the six recursive paths, as the derivation beside \<^verbatim>\<open>kRmsGainVsWhite\<close> lists them.\<close>

definition poles :: "(real \<times> real) list" where
  "poles = [(0.99886, 0.0555179), (0.99332, 0.0750759), (0.96900, 0.1538520), (0.86650, 0.3104856),
            (0.55000, 0.5329522), (- 0.76160, - 0.0168980)]"

definition pink_variance :: real where
  "pink_variance =
     (\<Sum>(p, g) \<leftarrow> poles. \<Sum>(q, h) \<leftarrow> poles. g * h / (1 - p * q)) + 0.5362\<^sup>2 + 0.115926\<^sup>2 +
     2 * 0.5362 * (\<Sum>(p, g) \<leftarrow> poles. g) + 2 * 0.115926 * (\<Sum>(p, g) \<leftarrow> poles. g * p)"

text \<open>The output \<open>n\<close> samples after a unit impulse into the filter at rest.\<close>

definition pink_impulse_response :: "nat \<Rightarrow> real" where
  "pink_impulse_response n =
     (if n = 0 then fst (kellett_step kellett_zero 1)
      else fst (kellett_step (((\<lambda>k. snd (kellett_step k 0)) ^^ (n - 1)) (snd (kellett_step kellett_zero 1))) 0))"

definition pole_sum :: "nat \<Rightarrow> real" where
  "pole_sum n = (\<Sum>(p, g) \<leftarrow> poles. g * p ^ n)"

lemma kellett_decay:
  "((\<lambda>k. snd (kellett_step k 0)) ^^ n) (snd (kellett_step kellett_zero 1)) =
     \<lparr>b0 = 0.0555179 * 0.99886 ^ n, b1 = 0.0750759 * 0.99332 ^ n, b2 = 0.153852 * 0.969 ^ n,
      b3 = 0.3104856 * 0.8665 ^ n, b4 = 0.5329522 * 0.55 ^ n, b5 = - 0.016898 * (- 0.7616) ^ n,
      b6 = (if n = 0 then 0.115926 else 0)\<rparr>"
  by (induction n) (simp_all add: kellett_step_def kellett_zero_def Let_def)

lemma pink_impulse_response_closed:
  "pink_impulse_response n = pole_sum n + (if n = 0 then 0.5362 else if n = 1 then 0.115926 else 0)"
proof (cases n)
  case 0
  then show ?thesis
    by (simp add: pink_impulse_response_def pole_sum_def poles_def kellett_step_def kellett_zero_def Let_def)
next
  case (Suc m)
  then show ?thesis
    by (simp add: pink_impulse_response_def kellett_decay)
      (simp add: pole_sum_def poles_def kellett_step_def Let_def)
qed

lemma sums_sum_list:
  fixes f :: "'a \<Rightarrow> nat \<Rightarrow> real"
  shows "(\<And>x. x \<in> set xs \<Longrightarrow> f x sums l x) \<Longrightarrow> (\<lambda>n. \<Sum>x \<leftarrow> xs. f x n) sums (\<Sum>x \<leftarrow> xs. l x)"
  by (induction xs) (simp_all add: sums_add sums_zero)

lemma pole_sum_energy:
  "(\<lambda>n. (pole_sum n)\<^sup>2) sums (\<Sum>(p, g) \<leftarrow> poles. \<Sum>(q, h) \<leftarrow> poles. g * h / (1 - p * q))"
proof -
  have "(\<lambda>n. \<Sum>x \<leftarrow> poles. \<Sum>y \<leftarrow> poles. snd x * snd y * (fst x * fst y) ^ n) sums
      (\<Sum>x \<leftarrow> poles. \<Sum>y \<leftarrow> poles. snd x * snd y * (1 / (1 - fst x * fst y)))"
  proof (intro sums_sum_list sums_mult geometric_sums)
    fix x y assume "x \<in> set poles" "y \<in> set poles"
    then show "norm (fst x * fst y) < 1"
      by (auto simp: poles_def abs_mult)
  qed
  moreover have "(pole_sum n)\<^sup>2 = (\<Sum>x \<leftarrow> poles. \<Sum>y \<leftarrow> poles. snd x * snd y * (fst x * fst y) ^ n)" for n
  proof -
    have "(pole_sum n)\<^sup>2 = (\<Sum>x \<leftarrow> poles. snd x * fst x ^ n) * (\<Sum>y \<leftarrow> poles. snd y * fst y ^ n)"
      by (simp add: pole_sum_def power2_eq_square case_prod_unfold)
    also have "\<dots> = (\<Sum>x \<leftarrow> poles. \<Sum>y \<leftarrow> poles. snd x * fst x ^ n * (snd y * fst y ^ n))"
      by (simp add: sum_list_mult_const sum_list_const_mult)
    finally show ?thesis by (simp add: power_mult_distrib mult.assoc mult.left_commute)
  qed
  ultimately show ?thesis by (simp add: case_prod_unfold)
qed

lemma pink_energy: "(\<lambda>n. (pink_impulse_response n)\<^sup>2) sums pink_variance"
proof -
  define d :: "nat \<Rightarrow> real" where "d n = (if n = 0 then 0.5362 else if n = 1 then 0.115926 else 0)" for n
  have "(\<lambda>n. 2 * pole_sum n * d n + (d n)\<^sup>2) sums (\<Sum>n \<in> {0, 1}. 2 * pole_sum n * d n + (d n)\<^sup>2)"
    by (rule sums_finite) (auto simp: d_def)
  from sums_add [OF pole_sum_energy this]
  have "(\<lambda>n. (pole_sum n + d n)\<^sup>2) sums
      ((\<Sum>(p, g) \<leftarrow> poles. \<Sum>(q, h) \<leftarrow> poles. g * h / (1 - p * q)) + (\<Sum>n \<in> {0, 1}. 2 * pole_sum n * d n + (d n)\<^sup>2))"
    by (simp add: power2_sum algebra_simps)
  moreover have "(\<Sum>n \<in> {0, 1}. 2 * pole_sum n * d n + (d n)\<^sup>2) =
      0.5362\<^sup>2 + 0.115926\<^sup>2 + 2 * 0.5362 * (\<Sum>(p, g) \<leftarrow> poles. g) + 2 * 0.115926 * (\<Sum>(p, g) \<leftarrow> poles. g * p)"
    by (simp add: d_def pole_sum_def algebra_simps)
  ultimately show ?thesis
    by (simp only: pink_variance_def pink_impulse_response_closed d_def add.assoc)
qed

section \<open>Properties\<close>

text \<open>
  An oscillator is phase-continuous: whatever sequence of frequencies it is set to, one per
  sample, its output is the sine of the accumulated phase with no jump at a change, and the accumulator stays
  in \<open>[0, 1)\<close> turns, however many whole turns one sample advances.
\<close>

theorem Oscillator_phase_continuous:
  assumes "0 < rate" "\<forall>f \<in> set fs. 0 \<le> f" "i < length fs"
  shows "fst (osc_glide (Oscillator_new rate f0 db) fs) ! i =
           10 powr (db / 20) * sin (2 * pi * (sum_list (take i fs) / rate)) \<and>
         0 \<le> osc_phase (snd (osc_glide (Oscillator_new rate f0 db) fs)) \<and>
         osc_phase (snd (osc_glide (Oscillator_new rate f0 db) fs)) < 1"
  using assms osc_glide_closed [of i fs "Oscillator_new rate f0 db"]
    osc_glide_phase [of "Oscillator_new rate f0 db" fs]
  by (simp add: Oscillator_new_def dbToAmplitude_def)

theorem Oscillator_phase_continuous_witness:
  "fst (osc_glide (Oscillator_new 48000 1000 0) [1000, 2500, 96000]) ! 2 =
     10 powr (0 / 20) * sin (2 * pi * (sum_list (take 2 [1000, 2500, 96000]) / 48000)) \<and>
   0 \<le> osc_phase (snd (osc_glide (Oscillator_new 48000 1000 0) [1000, 2500, 96000])) \<and>
   osc_phase (snd (osc_glide (Oscillator_new 48000 1000 0) [1000, 2500, 96000])) < 1"
  by (rule Oscillator_phase_continuous) simp_all

text \<open>
  every generator stays within the peak its level implies, in blocks of any size: a tone within
  its amplitude, a pair of tones within the sum of the two amplitudes, white noise within its scale, a
  maximum-length sequence within its amplitude, and pink noise, whose filter is stable, within the summed
  steady-state gains of its paths.
\<close>

theorem generators_bounded:
  "(\<forall>x \<in> set (fst (Oscillator_process (Oscillator_new rate f db) n)). \<bar>x\<bar> \<le> 10 powr (db / 20)) \<and>
   (\<forall>x \<in> set (fst (DualSine_process (DualSine_new rate f f' db) n)).
      \<bar>x\<bar> \<le> 2 * 10 powr ((db - kPairToPerToneDb) / 20)) \<and>
   (\<forall>x \<in> set (fst (WhiteNoise_process (WhiteNoise_new rng db) n)). \<bar>x\<bar> \<le> 10 powr (db / 20) * sqrt 3) \<and>
   (\<forall>x \<in> set (fst (PinkNoise_process (PinkNoise_new rng db) n)).
      \<bar>x\<bar> \<le> kellett_peak * (10 powr (db / 20) * sqrt 3 / kRmsGainVsWhite)) \<and>
   (\<forall>m. Mls_new order db = Inr m \<longrightarrow> (\<forall>x \<in> set (fst (Mls_process m n)). \<bar>x\<bar> \<le> 10 powr (db / 20)))"
proof (intro conjI allI impI)
  show "\<forall>x \<in> set (fst (PinkNoise_process (PinkNoise_new rng db) n)).
      \<bar>x\<bar> \<le> kellett_peak * (10 powr (db / 20) * sqrt 3 / kRmsGainVsWhite)"
    using pink.fill_bounded [of "PinkNoise_new rng db" n]
    by (simp add: PinkNoise_new_def pink_setLevelDbFsRms_def kellett_ok_zero kRmsGainVsWhite_def)
  fix m assume "Mls_new order db = Inr m"
  then show "\<forall>x \<in> set (fst (Mls_process m n)). \<bar>x\<bar> \<le> 10 powr (db / 20)"
    using mls.fill_bounded [of m n] by (auto simp: Mls_new_def split: if_splits)
qed (use osc.fill_bounded [of "Oscillator_new rate f db" n] dual.fill_bounded [of "DualSine_new rate f f' db" n]
    white.fill_bounded [of "WhiteNoise_new rng db" n] in
    \<open>simp_all add: Oscillator_new_def DualSine_new_def WhiteNoise_new_def white_setLevelDbFsRms_def dbToAmplitude_def\<close>)

theorem generators_bounded_witness:
  "\<forall>x \<in> set (fst (Mls_process \<lparr>mls_order = 15, mls_period = push_bit 15 1 - 1, mls_tapMask = 0x6000,
       mls_amplitude = 10 powr (0 / 20), mls_state = 1\<rparr> 4)). \<bar>x\<bar> \<le> 10 powr (0 / 20)"
  using generators_bounded [of 48000 1000 0 4 2000 "pcg_reseed 1 2" 15]
  by (simp add: Mls_new_def kMinOrder_def kMaxOrder_def tapsFor_def)

text \<open>
  The level constant of the pink filter is right.  The energy of the impulse response of the
  filter that \<^verbatim>\<open>nextSample\<close> runs converges to the closed form derived beside the constant, and the square of
  \<^verbatim>\<open>kRmsGainVsWhite\<close> agrees with that value to within \<open>10\<^sup>-\<^sup>1\<^sup>3\<close>.
\<close>

theorem PinkNoise_rms_gain:
  "(\<lambda>n. (pink_impulse_response n)\<^sup>2) sums pink_variance \<and> \<bar>kRmsGainVsWhite\<^sup>2 - pink_variance\<bar> < 1 / 10 ^ 13"
  using pink_energy by (simp add: pink_variance_def poles_def power2_eq_square kRmsGainVsWhite_def)

end
