(* ===== verification/Ramped_Gain.thy ===== *)
theory Ramped_Gain
  imports Complex_Main Prelude
begin

text \<open>
  The click-free start/stop ramp of \<^verbatim>\<open>core/src/gen/Oscillator.cpp\<close> (\<^verbatim>\<open>RampedGain\<close>).  Samples and
  gains are real numbers; the ramp position is the code's integer.  The theory proves the invariant that
  the state and the position agree, that the gain never jumps by more than one ramp step whatever the
  requests between two samples, and that a ramp completes within its length.
\<close>

section \<open>State and operations\<close>

datatype RampState = Idle | Rising | Running | Falling

record RampedGain =
  rg_target :: bool
  rg_len :: int
  rg_pos :: int
  rg_state :: RampState
  rg_seconds :: real

text \<open>\<^verbatim>\<open>std::lround\<close>: to nearest, halves away from zero.\<close>

definition lround :: "real \<Rightarrow> int" where
  "lround x = (if x \<ge> 0 then \<lfloor>x + 1 / 2\<rfloor> else - \<lfloor>- x + 1 / 2\<rfloor>)"

definition ramp_length :: "real \<Rightarrow> real \<Rightarrow> int" where
  "ramp_length rate secs = max 1 (lround (rate * secs))"

definition RampedGain_new :: "real \<Rightarrow> real \<Rightarrow> RampedGain" where
  "RampedGain_new rate secs =
     \<lparr>rg_target = False, rg_len = ramp_length rate secs, rg_pos = 0, rg_state = Idle, rg_seconds = secs\<rparr>"

definition requestOn :: "RampedGain \<Rightarrow> RampedGain" where
  "requestOn g = g\<lparr>rg_target := True\<rparr>"

definition requestOff :: "RampedGain \<Rightarrow> RampedGain" where
  "requestOff g = g\<lparr>rg_target := False\<rparr>"

text \<open>The three parts of \<^verbatim>\<open>nextGain\<close>: turn, evaluate, advance.\<close>

definition ramp_turn :: "RampedGain \<Rightarrow> RampState" where
  "ramp_turn g =
     (if rg_target g \<and> (rg_state g = Idle \<or> rg_state g = Falling) then Rising
      else if \<not> rg_target g \<and> (rg_state g = Running \<or> rg_state g = Rising) then Falling
      else rg_state g)"

definition ramp_value :: "RampState \<Rightarrow> int \<Rightarrow> int \<Rightarrow> real" where
  "ramp_value st pos len =
     (case st of Idle \<Rightarrow> 0 | Running \<Rightarrow> 1
      | _ \<Rightarrow> 0.5 * (1 - cos (pi * (real_of_int pos / real_of_int len))))"

definition ramp_advance :: "RampState \<Rightarrow> int \<Rightarrow> int \<Rightarrow> int \<times> RampState" where
  "ramp_advance st pos len =
     (case st of
        Rising \<Rightarrow> (let p = (if pos < len then pos + 1 else pos) in (p, if p \<ge> len then Running else Rising))
      | Falling \<Rightarrow> (let p = (if pos > 0 then pos - 1 else pos) in (p, if p \<le> 0 then Idle else Falling))
      | _ \<Rightarrow> (pos, st))"

definition nextGain :: "RampedGain \<Rightarrow> real \<times> RampedGain" where
  "nextGain g =
     (let st = ramp_turn g; gain = ramp_value st (rg_pos g) (rg_len g);
          (p, st') = ramp_advance st (rg_pos g) (rg_len g)
      in (gain, g\<lparr>rg_pos := p, rg_state := st'\<rparr>))"

fun RampedGain_apply :: "RampedGain \<Rightarrow> real list \<Rightarrow> real list \<times> RampedGain" where
  "RampedGain_apply g [] = ([], g)"
| "RampedGain_apply g (x # xs) =
     (let (k, g1) = nextGain g; (ys, g2) = RampedGain_apply g1 xs in (x * k # ys, g2))"

definition RampedGain_prepare :: "RampedGain \<Rightarrow> real \<Rightarrow> RampedGain" where
  "RampedGain_prepare g rate = g\<lparr>rg_len := ramp_length rate (rg_seconds g), rg_pos := 0, rg_state := Idle\<rparr>"

section \<open>Invariant\<close>

definition ramp_inv :: "RampedGain \<Rightarrow> bool" where
  "ramp_inv g \<longleftrightarrow> 1 \<le> rg_len g \<and> 0 \<le> rg_pos g \<and> rg_pos g \<le> rg_len g \<and>
     (case rg_state g of Idle \<Rightarrow> rg_pos g = 0 | Running \<Rightarrow> rg_pos g = rg_len g
      | Rising \<Rightarrow> rg_pos g < rg_len g | Falling \<Rightarrow> 0 < rg_pos g)"

text \<open>The gain as a function of the position alone.\<close>

definition ramp_curve :: "RampedGain \<Rightarrow> real" where
  "ramp_curve g = 0.5 * (1 - cos (pi * (real_of_int (rg_pos g) / real_of_int (rg_len g))))"

lemma ramp_inv_new: "ramp_inv (RampedGain_new rate secs)"
  by (simp add: ramp_inv_def RampedGain_new_def ramp_length_def)

lemma ramp_inv_requests [simp]: "ramp_inv (requestOn g) = ramp_inv g" "ramp_inv (requestOff g) = ramp_inv g"
  by (simp_all add: ramp_inv_def requestOn_def requestOff_def split: RampState.split)

lemma request_fields [simp]:
  "rg_target (requestOn g)" "rg_len (requestOn g) = rg_len g" "rg_pos (requestOn g) = rg_pos g"
  "\<not> rg_target (requestOff g)" "rg_len (requestOff g) = rg_len g" "rg_pos (requestOff g) = rg_pos g"
  "rg_state (requestOn g) = rg_state g" "rg_state (requestOff g) = rg_state g"
  by (simp_all add: requestOn_def requestOff_def)

lemma ramp_inv_prepare: "ramp_inv (RampedGain_prepare g rate)"
  by (simp add: ramp_inv_def RampedGain_prepare_def ramp_length_def)

lemma nextGain_frame [simp]:
  "rg_target (snd (nextGain g)) = rg_target g" "rg_len (snd (nextGain g)) = rg_len g"
  by (simp_all add: nextGain_def Let_def split_def)

lemma nextGain_inv: "ramp_inv g \<Longrightarrow> ramp_inv (snd (nextGain g))"
  by (cases "rg_state g"; cases "rg_target g")
    (auto simp: ramp_inv_def nextGain_def ramp_turn_def ramp_advance_def Let_def)

lemma nextGain_curve: "ramp_inv g \<Longrightarrow> fst (nextGain g) = ramp_curve g"
  by (cases "rg_state g"; cases "rg_target g")
    (auto simp: ramp_inv_def nextGain_def ramp_turn_def ramp_value_def ramp_curve_def Let_def split_def)

lemma nextGain_pos:
  assumes "ramp_inv g"
  shows "rg_pos (snd (nextGain g)) =
    (if rg_target g then min (rg_pos g + 1) (rg_len g) else max (rg_pos g - 1) 0)"
  using assms
  by (cases "rg_state g"; cases "rg_target g")
    (auto simp: ramp_inv_def nextGain_def ramp_turn_def ramp_advance_def Let_def)

lemma nextGain_state:
  assumes "ramp_inv g"
  shows "rg_state (snd (nextGain g)) =
    (if rg_target g then (if rg_pos g + 1 \<ge> rg_len g then Running else Rising)
     else (if rg_pos g \<le> 1 then Idle else Falling))"
  using assms
  by (cases "rg_state g"; cases "rg_target g")
    (auto simp: ramp_inv_def nextGain_def ramp_turn_def ramp_advance_def Let_def)

lemma ramp_curve_bounds: "0 \<le> ramp_curve g \<and> ramp_curve g \<le> 1"
  by (simp add: ramp_curve_def)

lemma cos_lipschitz: "\<bar>cos x - cos y\<bar> \<le> \<bar>x - y\<bar>" for x y :: real
proof -
  have "\<bar>cos x - cos y\<bar> = 2 * \<bar>sin ((x + y) / 2)\<bar> * \<bar>sin ((y - x) / 2)\<bar>"
    by (simp add: cos_diff_cos abs_mult)
  also have "\<dots> \<le> 2 * 1 * \<bar>(y - x) / 2\<bar>"
    by (intro mult_mono abs_sin_x_le_abs_x abs_sin_le_one) auto
  finally show ?thesis
    by (simp add: abs_minus_commute)
qed

lemma ramp_curve_step:
  assumes "1 \<le> rg_len g" "rg_len h = rg_len g" "\<bar>rg_pos h - rg_pos g\<bar> \<le> 1"
  shows "\<bar>ramp_curve h - ramp_curve g\<bar> \<le> pi / (2 * real_of_int (rg_len g))"
proof -
  let ?L = "real_of_int (rg_len g)"
  have L: "0 < ?L"
    using assms(1) by simp
  have "ramp_curve h - ramp_curve g =
      (cos (pi * (real_of_int (rg_pos g) / ?L)) - cos (pi * (real_of_int (rg_pos h) / ?L))) / 2"
    by (simp add: ramp_curve_def assms(2) field_simps)
  then have "\<bar>ramp_curve h - ramp_curve g\<bar> =
      \<bar>cos (pi * (real_of_int (rg_pos g) / ?L)) - cos (pi * (real_of_int (rg_pos h) / ?L))\<bar> / 2"
    by (simp only: abs_divide abs_numeral)
  also have "\<dots> \<le> \<bar>pi * (real_of_int (rg_pos g) / ?L) - pi * (real_of_int (rg_pos h) / ?L)\<bar> / 2"
    using cos_lipschitz by (simp add: divide_right_mono)
  also have "\<dots> = pi * (real_of_int \<bar>rg_pos h - rg_pos g\<bar> / ?L) / 2"
    using L by (simp add: right_diff_distrib [symmetric] diff_divide_distrib [symmetric] abs_mult
        abs_minus_commute)
  also have "\<dots> \<le> pi * (1 / ?L) / 2"
    using L assms(3) by (intro divide_right_mono mult_left_mono) (simp_all add: of_int_le_1_iff)
  finally show ?thesis
    by simp
qed

section \<open>Properties\<close>

text \<open>A run: before every sample the control thread may or may not change the target.\<close>

definition ramp_request :: "bool option \<Rightarrow> RampedGain \<Rightarrow> RampedGain" where
  "ramp_request r g = (case r of None \<Rightarrow> g | Some on \<Rightarrow> if on then requestOn g else requestOff g)"

lemma ramp_request_frame [simp]:
  "ramp_inv (ramp_request r g) = ramp_inv g" "ramp_curve (ramp_request r g) = ramp_curve g"
  "rg_len (ramp_request r g) = rg_len g"
  unfolding ramp_request_def by (auto split: option.split) (simp_all add: requestOn_def requestOff_def ramp_curve_def)

fun ramp_run :: "RampedGain \<Rightarrow> bool option list \<Rightarrow> real list \<times> RampedGain" where
  "ramp_run g [] = ([], g)"
| "ramp_run g (r # rs) =
     (let (k, g1) = nextGain (ramp_request r g); (ks, g2) = ramp_run g1 rs in (k # ks, g2))"

lemma ramp_run_curve:
  assumes "ramp_inv g" "rs \<noteq> []"
  shows "hd (fst (ramp_run g rs)) = ramp_curve g"
proof -
  obtain r rs' where rs: "rs = r # rs'"
    using assms(2) by (cases rs) auto
  then show ?thesis
    using nextGain_curve [of "ramp_request r g"] assms(1) by (simp add: Let_def split_def)
qed

text \<open>
  Property C37: the output ramp is click-free.  Starting from any reachable state and whatever on and off
  requests arrive between samples, every gain lies between 0 and 1 and two successive gains differ by at
  most \<open>\<pi> / (2 L)\<close> for a ramp of \<open>L\<close> samples, also through a reversal in the middle of a ramp; the
  state invariant is kept.
\<close>

theorem RampedGain_click_free:
  assumes "ramp_inv g"
  shows "ramp_inv (snd (ramp_run g rs)) \<and> length (fst (ramp_run g rs)) = length rs \<and>
    (\<forall>k \<in> set (fst (ramp_run g rs)). 0 \<le> k \<and> k \<le> 1) \<and>
    (\<forall>i. Suc i < length rs \<longrightarrow> \<bar>fst (ramp_run g rs) ! Suc i - fst (ramp_run g rs) ! i\<bar> \<le> pi / (2 * real_of_int (rg_len g)))"
  using assms
proof (induction rs arbitrary: g)
  case Nil
  then show ?case by simp
next
  case (Cons r rs)
  let ?g0 = "ramp_request r g"
  let ?g1 = "snd (nextGain ?g0)"
  have g0: "ramp_inv ?g0" "ramp_curve ?g0 = ramp_curve g" "rg_len ?g0 = rg_len g"
    using Cons.prems by simp_all
  have g1: "ramp_inv ?g1" "rg_len ?g1 = rg_len g"
    using nextGain_inv [OF g0(1)] g0(3) by simp_all
  note IH = Cons.IH [OF g1(1)]
  have run: "fst (ramp_run g (r # rs)) = ramp_curve g # fst (ramp_run ?g1 rs)"
    "snd (ramp_run g (r # rs)) = snd (ramp_run ?g1 rs)"
    using nextGain_curve [OF g0(1)] g0(2) by (simp_all add: Let_def split_def)
  have "\<bar>fst (ramp_run g (r # rs)) ! Suc i - fst (ramp_run g (r # rs)) ! i\<bar> \<le> pi / (2 * real_of_int (rg_len g))"
    if "Suc i < length (r # rs)" for i
  proof (cases i)
    case 0
    have pos: "0 \<le> rg_pos ?g0" "rg_pos ?g0 \<le> rg_len ?g0" "1 \<le> rg_len ?g0"
      using g0(1) by (simp_all add: ramp_inv_def)
    have "\<bar>rg_pos ?g1 - rg_pos ?g0\<bar> \<le> 1"
      using nextGain_pos [OF g0(1)] pos by auto
    then have "\<bar>ramp_curve ?g1 - ramp_curve ?g0\<bar> \<le> pi / (2 * real_of_int (rg_len g))"
      using ramp_curve_step [of ?g0 ?g1] pos(3) g0(3) g1(2) by simp
    moreover have "fst (ramp_run ?g1 rs) ! 0 = ramp_curve ?g1"
    proof -
      have "rs \<noteq> []" and "length (fst (ramp_run ?g1 rs)) = length rs"
        using that 0 IH by auto
      then show ?thesis
        using ramp_run_curve [OF g1(1), of rs] by (metis hd_conv_nth length_0_conv)
    qed
    ultimately show ?thesis
      using 0 run(1) g0(2) by simp
  next
    case (Suc j)
    then show ?thesis
      using IH that run(1) g1(2) by simp
  qed
  then show ?case
    using IH run ramp_curve_bounds [of g] by simp
qed

theorem RampedGain_click_free_witness:
  "\<bar>fst (ramp_run (RampedGain_new 48000 (1 / 100)) [Some True, None, Some False]) ! 2 -
     fst (ramp_run (RampedGain_new 48000 (1 / 100)) [Some True, None, Some False]) ! 1\<bar> \<le> pi / 960"
proof -
  let ?rs = "[Some True, None, Some False]" and ?g = "RampedGain_new 48000 (1 / 100)"
  have len: "rg_len ?g = 480"
    by (simp add: RampedGain_new_def ramp_length_def lround_def)
  have "Suc 1 < length ?rs \<longrightarrow>
      \<bar>fst (ramp_run ?g ?rs) ! Suc 1 - fst (ramp_run ?g ?rs) ! 1\<bar> \<le> pi / (2 * real_of_int (rg_len ?g))"
    using RampedGain_click_free [OF ramp_inv_new, of 48000 "1 / 100" ?rs] by blast
  then show ?thesis
    unfolding len by (simp add: eval_nat_numeral)
qed

lemma ramp_run_hold:
  assumes "ramp_inv g"
  shows "rg_target (snd (ramp_run g (replicate n None))) = rg_target g \<and>
    rg_len (snd (ramp_run g (replicate n None))) = rg_len g \<and>
    rg_pos (snd (ramp_run g (replicate n None))) =
      (if rg_target g then min (rg_pos g + int n) (rg_len g) else max (rg_pos g - int n) 0) \<and>
    ramp_inv (snd (ramp_run g (replicate n None))) \<and>
    (0 < n \<longrightarrow> rg_state (snd (ramp_run g (replicate n None))) \<in> (if rg_target g then {Rising, Running} else {Falling, Idle}))"
  using assms
proof (induction n arbitrary: g)
  case 0
  then show ?case by (simp add: ramp_inv_def)
next
  case (Suc n)
  have step: "snd (ramp_run g (replicate (Suc n) None)) = snd (ramp_run (snd (nextGain g)) (replicate n None))"
    by (simp add: ramp_request_def Let_def split_def)
  show ?case
    using Suc.IH [OF nextGain_inv [OF Suc.prems]] nextGain_pos [OF Suc.prems] nextGain_state [OF Suc.prems] Suc.prems
    unfolding step by (cases n) (auto simp: ramp_inv_def)
qed

text \<open>
  A ramp completes.  After \<open>requestOn\<close> (\<open>requestOff\<close>) and as many samples as the ramp is
  long, from any state of the machine and with no further request, the gate is fully open
  (\<open>Running\<close>, gain 1) (closed, \<open>Idle\<close>, gain 0) on the next sample.
\<close>

theorem RampedGain_completes:
  assumes "ramp_inv g" "nat (rg_len g) \<le> n"
  shows "rg_state (snd (ramp_run (requestOn g) (replicate n None))) = Running \<and>
    fst (nextGain (snd (ramp_run (requestOn g) (replicate n None)))) = 1 \<and>
    rg_state (snd (ramp_run (requestOff g) (replicate n None))) = Idle \<and>
    fst (nextGain (snd (ramp_run (requestOff g) (replicate n None)))) = 0"
proof -
  let ?on = "snd (ramp_run (requestOn g) (replicate n None))"
  let ?off = "snd (ramp_run (requestOff g) (replicate n None))"
  have len: "1 \<le> rg_len g" "0 \<le> rg_pos g" "rg_pos g \<le> rg_len g" "rg_len g \<le> int n"
    using assms by (auto simp: ramp_inv_def)
  then have n: "0 < n"
    by linarith
  have on: "rg_pos ?on = rg_len ?on" "ramp_inv ?on" "rg_state ?on \<in> {Rising, Running}"
    using ramp_run_hold [of "requestOn g" n] assms(1) len n by simp_all
  have off: "rg_pos ?off = 0" "ramp_inv ?off" "rg_state ?off \<in> {Falling, Idle}"
    using ramp_run_hold [of "requestOff g" n] assms(1) len n by simp_all
  have "1 \<le> rg_len ?on"
    using on(2) by (simp add: ramp_inv_def)
  then have "ramp_curve ?on = 1" "ramp_curve ?off = 0"
    using on(1) off(1) by (simp_all add: ramp_curve_def)
  moreover have "rg_state ?on = Running" "rg_state ?off = Idle"
    using on off by (auto simp: ramp_inv_def)
  ultimately show ?thesis
    using nextGain_curve [OF on(2)] nextGain_curve [OF off(2)] by simp
qed

theorem RampedGain_completes_witness:
  "rg_state (snd (ramp_run (requestOn (RampedGain_new 4 1)) (replicate 4 None))) = Running"
  using RampedGain_completes [OF ramp_inv_new, of 4 1 4]
  by (simp add: RampedGain_new_def ramp_length_def lround_def)

end
