(* ===== verification/Sweep.thy ===== *)
theory Sweep
  imports Sample_Source Ramped_Gain
begin

text \<open>
  The exponential sine sweep and its inverse filter (\<^verbatim>\<open>core/src/gen/Sweep.cpp\<close>): construction with its
  argument checks, synchronisation and fade floors, the closed-form phase, the fade envelope, rendering and the
  inverse filter.  Doubles are real numbers, \<^verbatim>\<open>kPi\<close> is \<open>pi\<close>, sample counts are naturals.
\<close>

section \<open>State and operations\<close>

datatype sweep_error = SampleRateNotPositive | StartHzNotPositive | EndHzNotAboveStart | DurationNotPositive

record SweepConfig =
  cfg_sampleRate :: real
  cfg_startHz :: real
  cfg_endHz :: real
  cfg_durationSec :: real
  cfg_levelDbFsPeak :: real
  cfg_fadeInSec :: real
  cfg_fadeInOctaves :: real
  cfg_fadeOutSec :: real

record Sweep =
  sw_sampleRate :: real
  sw_startHz :: real
  sw_endHz :: real
  sw_amplitude :: real
  lengthL :: real
  phaseK :: real
  lengthSamples :: nat
  sw_durationSec :: real
  sw_fadeOutSec :: real
  fadeInSamples :: nat
  fadeOutSamples :: nat
  sw_n :: nat

definition raisedCosine :: "real \<Rightarrow> real" where
  "raisedCosine p = 0.5 * (1 - cos (pi * p))"

definition amplitudeFromDbFsPeak :: "real \<Rightarrow> real" where
  "amplitudeFromDbFsPeak db = 10 powr (db / 20)"

definition roundToSamples :: "real \<Rightarrow> real \<Rightarrow> nat" where
  "roundToSamples seconds rate = nat (lround (seconds * rate))"

definition sweep_build :: "SweepConfig \<Rightarrow> Sweep" where
  "sweep_build c =
     (let octaveSpan = ln (cfg_endHz c / cfg_startHz c);
          l = cfg_durationSec c / octaveSpan;
          integerCycles = max 1 (real_of_int (lround (cfg_startHz c * l)));
          l = integerCycles / cfg_startHz c;
          dur = l * octaveSpan;
          octaveFloorSec = (if cfg_fadeInOctaves c > 0 then cfg_fadeInOctaves c * ln 2 * l else 0);
          fadeInSec = max (max (cfg_fadeInSec c) (2 / cfg_startHz c)) octaveFloorSec;
          fin = roundToSamples fadeInSec (cfg_sampleRate c);
          foutSec = max (cfg_fadeOutSec c) (2 / cfg_endHz c);
          fout = roundToSamples foutSec (cfg_sampleRate c)
      in \<lparr>sw_sampleRate = cfg_sampleRate c, sw_startHz = cfg_startHz c, sw_endHz = cfg_endHz c,
          sw_amplitude = amplitudeFromDbFsPeak (cfg_levelDbFsPeak c), lengthL = l,
          phaseK = 2 * pi * cfg_startHz c * l, lengthSamples = roundToSamples dur (cfg_sampleRate c),
          sw_durationSec = dur, sw_fadeOutSec = foutSec, fadeInSamples = (if fin < 2 then 2 else fin),
          fadeOutSamples = (if fout < 2 then 2 else fout), sw_n = 0\<rparr>)"

definition Sweep_new :: "SweepConfig \<Rightarrow> sweep_error + Sweep" where
  "Sweep_new c =
     (if \<not> (cfg_sampleRate c > 0) then Inl SampleRateNotPositive
      else if \<not> (cfg_startHz c > 0) then Inl StartHzNotPositive
      else if \<not> (cfg_endHz c > cfg_startHz c) then Inl EndHzNotAboveStart
      else if \<not> (cfg_durationSec c > 0) then Inl DurationNotPositive
      else Inr (sweep_build c))"

definition fadeInOctavesAchieved :: "Sweep \<Rightarrow> real" where
  "fadeInOctavesAchieved s = real (fadeInSamples s) / sw_sampleRate s / (ln 2 * lengthL s)"

definition validBandLowHz :: "Sweep \<Rightarrow> real" where
  "validBandLowHz s = sw_startHz s * exp (real (fadeInSamples s) / sw_sampleRate s / lengthL s)"

definition validBandHighHz :: "Sweep \<Rightarrow> real" where
  "validBandHighHz s = sw_endHz s * exp (- sw_fadeOutSec s / lengthL s)"

definition phaseAt :: "Sweep \<Rightarrow> nat \<Rightarrow> real" where
  "phaseAt s n = (let t = real n / sw_sampleRate s in phaseK s * (exp (t / lengthL s) - 1))"

definition instantaneousFrequency :: "Sweep \<Rightarrow> nat \<Rightarrow> real" where
  "instantaneousFrequency s n = (let t = real n / sw_sampleRate s in sw_startHz s * exp (t / lengthL s))"

definition fadeEnvelope :: "Sweep \<Rightarrow> nat \<Rightarrow> real" where
  "fadeEnvelope s n =
     (if n < fadeInSamples s then raisedCosine (real n / real (fadeInSamples s - 1))
      else if fadeOutSamples s > 0 \<and> lengthSamples s > 0 \<and>
              n \<le> lengthSamples s - 1 \<and> lengthSamples s - 1 - n < fadeOutSamples s
      then raisedCosine (real (lengthSamples s - 1 - n) / real (fadeOutSamples s - 1))
      else 1)"

definition Sweep_nextSample :: "Sweep \<Rightarrow> real \<times> Sweep" where
  "Sweep_nextSample s =
     (if sw_n s \<ge> lengthSamples s then (0, s)
      else (sw_amplitude s * sin (phaseAt s (sw_n s)) * fadeEnvelope s (sw_n s), s\<lparr>sw_n := sw_n s + 1\<rparr>))"

fun Sweep_process :: "Sweep \<Rightarrow> nat \<Rightarrow> real list \<times> Sweep" where
  "Sweep_process s 0 = ([], s)"
| "Sweep_process s (Suc n) =
     (let (x, s1) = Sweep_nextSample s; (xs, s2) = Sweep_process s1 n in (x # xs, s2))"

definition Sweep_restart :: "Sweep \<Rightarrow> Sweep" where
  "Sweep_restart s = s\<lparr>sw_n := 0\<rparr>"

definition buildInverseFilter :: "Sweep \<Rightarrow> real list" where
  "buildInverseFilter s =
     (let n = lengthSamples s;
          forward = map (\<lambda>i. sw_amplitude s * sin (phaseAt s i) * fadeEnvelope s i) [0..<n]
      in map (\<lambda>m. let original = n - 1 - m; envelope = instantaneousFrequency s original / sw_endHz s
                  in forward ! original * envelope) [0..<n])"

text \<open>The member initialisers of \<^verbatim>\<open>Sweep::Config\<close>.\<close>

definition SweepConfig_default :: SweepConfig where
  "SweepConfig_default =
     \<lparr>cfg_sampleRate = 48000, cfg_startHz = 20, cfg_endHz = 20000, cfg_durationSec = 10, cfg_levelDbFsPeak = - 6,
      cfg_fadeInSec = 0.02, cfg_fadeInOctaves = 2, cfg_fadeOutSec = 0.02\<rparr>"

section \<open>Construction\<close>

text \<open>What the constructor accepts.\<close>

definition sweep_valid :: "SweepConfig \<Rightarrow> bool" where
  "sweep_valid c \<longleftrightarrow> 0 < cfg_sampleRate c \<and> 0 < cfg_startHz c \<and> cfg_startHz c < cfg_endHz c \<and> 0 < cfg_durationSec c"

lemma Sweep_new_Inr: "Sweep_new c = Inr s \<longleftrightarrow> sweep_valid c \<and> s = sweep_build c"
  by (auto simp: Sweep_new_def sweep_valid_def)

lemma lround_mono: "x \<le> y \<Longrightarrow> lround x \<le> lround y"
  unfolding lround_def by (auto intro!: floor_mono) linarith+

lemma lround_le: "0 \<le> x \<Longrightarrow> real_of_int (lround x) \<le> x + 1 / 2 \<and> 0 \<le> lround x"
  by (auto simp: lround_def)

lemma roundToSamples_mono: "x \<le> y \<Longrightarrow> 0 \<le> rate \<Longrightarrow> roundToSamples x rate \<le> roundToSamples y rate"
  by (auto simp: roundToSamples_def intro!: nat_mono lround_mono mult_right_mono)

lemmas sweep_build_simps = sweep_build_def Let_def

lemma sweep_rates [simp]:
  "sw_sampleRate (sweep_build c) = cfg_sampleRate c" "sw_startHz (sweep_build c) = cfg_startHz c"
  "sw_endHz (sweep_build c) = cfg_endHz c" "sw_n (sweep_build c) = 0"
  "sw_amplitude (sweep_build c) = 10 powr (cfg_levelDbFsPeak c / 20)"
  by (simp_all add: sweep_build_simps amplitudeFromDbFsPeak_def)

lemma sweep_validD:
  assumes "sweep_valid c"
  shows "0 < cfg_sampleRate c" "0 < cfg_startHz c" "0 < cfg_endHz c" "0 < ln (cfg_endHz c / cfg_startHz c)"
  using assms by (auto simp: sweep_valid_def)

lemma sweep_cycles:
  "sweep_valid c \<Longrightarrow> cfg_startHz c * lengthL (sweep_build c) =
    max 1 (real_of_int (lround (cfg_startHz c * (cfg_durationSec c / ln (cfg_endHz c / cfg_startHz c)))))"
  using sweep_validD(2) [of c] by (simp add: sweep_build_simps)

lemma sweep_L_pos: "sweep_valid c \<Longrightarrow> 0 < lengthL (sweep_build c)"
proof -
  assume v: "sweep_valid c"
  have "0 < cfg_startHz c * lengthL (sweep_build c)" unfolding sweep_cycles [OF v] by simp
  then show ?thesis using sweep_validD(2) [OF v] by (simp add: zero_less_mult_iff)
qed

lemma sweep_duration: "sw_durationSec (sweep_build c) = lengthL (sweep_build c) * ln (cfg_endHz c / cfg_startHz c)"
  by (simp add: sweep_build_simps)

lemma sweep_end_frequency:
  "sweep_valid c \<Longrightarrow> cfg_startHz c * exp (sw_durationSec (sweep_build c) / lengthL (sweep_build c)) = cfg_endHz c"
  using sweep_L_pos [of c] sweep_validD [of c] by (simp add: sweep_duration)

lemma sweep_samples:
  "lengthSamples (sweep_build c) = roundToSamples (sw_durationSec (sweep_build c)) (cfg_sampleRate c)"
  by (simp add: sweep_build_simps)

lemma sweep_fades: "2 \<le> fadeInSamples (sweep_build c)" "2 \<le> fadeOutSamples (sweep_build c)"
  by (simp_all add: sweep_build_simps)

text \<open>Every rendered sample lies before the nominal end, so its frequency is at most the end frequency.\<close>

lemma sweep_frequency_le_end:
  assumes v: "sweep_valid c" and n: "n < lengthSamples (sweep_build c)"
  shows "0 < instantaneousFrequency (sweep_build c) n"
    and "instantaneousFrequency (sweep_build c) n \<le> cfg_endHz c"
proof -
  let ?s = "sweep_build c"
  note pos = sweep_validD [OF v] sweep_L_pos [OF v]
  have dur: "0 \<le> sw_durationSec ?s * cfg_sampleRate c" using pos by (simp add: sweep_duration)
  have "real (lengthSamples ?s) \<le> sw_durationSec ?s * cfg_sampleRate c + 1 / 2"
    using lround_le [OF dur] by (simp add: sweep_samples roundToSamples_def)
  then have "real n \<le> sw_durationSec ?s * cfg_sampleRate c" using n by linarith
  then have "real n / cfg_sampleRate c \<le> sw_durationSec ?s" using pos by (simp add: field_simps)
  then have "real n / cfg_sampleRate c / lengthL ?s \<le> sw_durationSec ?s / lengthL ?s"
    using pos by (intro divide_right_mono) simp_all
  then have "cfg_startHz c * exp (real n / cfg_sampleRate c / lengthL ?s) \<le>
      cfg_startHz c * exp (sw_durationSec ?s / lengthL ?s)"
    using pos(2) by simp
  then show "instantaneousFrequency ?s n \<le> cfg_endHz c"
    by (simp only: instantaneousFrequency_def Let_def sweep_end_frequency [OF v] sweep_rates)
  show "0 < instantaneousFrequency ?s n" using pos by (simp add: instantaneousFrequency_def)
qed

section \<open>Rendering\<close>

lemma raisedCosine_range: "0 \<le> raisedCosine p \<and> raisedCosine p \<le> 1"
  using cos_ge_minus_one [of "pi * p"] cos_le_one [of "pi * p"] by (simp add: raisedCosine_def)

lemma fadeEnvelope_range: "0 \<le> fadeEnvelope s n \<and> fadeEnvelope s n \<le> 1"
  by (simp add: fadeEnvelope_def raisedCosine_range)

lemma fadeEnvelope_first: "0 < fadeInSamples s \<Longrightarrow> fadeEnvelope s 0 = 0"
  by (simp add: fadeEnvelope_def raisedCosine_def)

lemma fadeEnvelope_last:
  "fadeInSamples s < lengthSamples s \<Longrightarrow> 0 < fadeOutSamples s \<Longrightarrow> fadeEnvelope s (lengthSamples s - 1) = 0"
  by (simp add: fadeEnvelope_def raisedCosine_def)

definition sweep_sample :: "Sweep \<Rightarrow> nat \<Rightarrow> real" where
  "sweep_sample s i = (if i < lengthSamples s then sw_amplitude s * sin (phaseAt s i) * fadeEnvelope s i else 0)"

lemma sweep_sample_bounded:
  assumes "0 \<le> sw_amplitude s"
  shows "\<bar>sweep_sample s i\<bar> \<le> sw_amplitude s"
proof -
  have "\<bar>sin (phaseAt s i)\<bar> * fadeEnvelope s i \<le> 1 * 1"
    using fadeEnvelope_range by (intro mult_mono) (simp_all add: abs_sin_le_one)
  then have "sw_amplitude s * (\<bar>sin (phaseAt s i)\<bar> * fadeEnvelope s i) \<le> sw_amplitude s * 1"
    using assms by (intro mult_left_mono) simp_all
  then show ?thesis using assms fadeEnvelope_range [of s i] by (simp add: sweep_sample_def abs_mult mult.assoc)
qed

lemma sweep_frame [simp]: "phaseAt (s\<lparr>sw_n := k\<rparr>) i = phaseAt s i" "fadeEnvelope (s\<lparr>sw_n := k\<rparr>) i = fadeEnvelope s i"
  "sweep_sample (s\<lparr>sw_n := k\<rparr>) i = sweep_sample s i"
  by (simp_all add: phaseAt_def fadeEnvelope_def sweep_sample_def)

lemma Sweep_nextSample_eq:
  "Sweep_nextSample s =
     (sweep_sample s (sw_n s), if sw_n s < lengthSamples s then s\<lparr>sw_n := sw_n s + 1\<rparr> else s)"
  by (simp add: Sweep_nextSample_def sweep_sample_def)

interpretation sweep: bounded_source Sweep_nextSample Sweep_process "\<lambda>s. 0 \<le> sw_amplitude s" sw_amplitude
  by unfold_locales (simp_all add: Sweep_nextSample_eq sweep_sample_bounded Let_def)

lemma Sweep_process_closed: "fst (Sweep_process s n) = map (\<lambda>i. sweep_sample s (sw_n s + i)) [0..<n]"
proof (induction n arbitrary: s)
  case (Suc n)
  have shift: "map (\<lambda>i. sweep_sample s (sw_n s + i)) [0..<Suc n] =
      sweep_sample s (sw_n s) # map (\<lambda>i. sweep_sample s (Suc (sw_n s + i))) [0..<n]"
    unfolding upt_conv_Cons [OF zero_less_Suc] map_Suc_upt [symmetric] by simp
  have over: "sweep_sample s (sw_n s + i) = 0" "sweep_sample s (Suc (sw_n s + i)) = 0"
    if "\<not> sw_n s < lengthSamples s" for i
    using that by (simp_all add: sweep_sample_def)
  show ?case
    unfolding shift by (cases "sw_n s < lengthSamples s") (simp_all add: Suc Sweep_nextSample_eq case_prod_beta over)
qed simp

lemma Sweep_process_frame: "\<exists>j. snd (Sweep_process s k) = s\<lparr>sw_n := j\<rparr>"
proof (induction k arbitrary: s)
  case 0
  show ?case by (auto intro: exI [of _ "sw_n s"])
next
  case (Suc k)
  then obtain j where "snd (Sweep_process (snd (Sweep_nextSample s)) k) = (snd (Sweep_nextSample s))\<lparr>sw_n := j\<rparr>"
    by blast
  then show ?case by (auto simp: case_prod_beta Sweep_nextSample_eq)
qed

lemma inverse_filter_nth:
  assumes "m < lengthSamples s"
  shows "buildInverseFilter s ! m =
    sweep_sample s (lengthSamples s - 1 - m) * (instantaneousFrequency s (lengthSamples s - 1 - m) / sw_endHz s)"
  using assms by (simp add: buildInverseFilter_def Let_def sweep_sample_def)

lemma inverse_filter_bounded:
  assumes v: "sweep_valid c" and m: "m < lengthSamples (sweep_build c)"
  shows "\<bar>buildInverseFilter (sweep_build c) ! m\<bar> \<le> 10 powr (cfg_levelDbFsPeak c / 20)"
proof -
  let ?s = "sweep_build c"
  let ?n = "lengthSamples ?s - 1 - m"
  have "?n < lengthSamples ?s" using m by simp
  note freq = sweep_frequency_le_end [OF v this]
  have "\<bar>sweep_sample ?s ?n\<bar> * (instantaneousFrequency ?s ?n / cfg_endHz c) \<le> sw_amplitude ?s * 1"
    using freq sweep_validD(3) [OF v] sweep_sample_bounded [of ?s ?n]
    by (intro mult_mono) (simp_all add: field_simps)
  then show ?thesis
    using freq sweep_validD(3) [OF v] by (simp add: inverse_filter_nth [OF m] abs_mult)
qed

text \<open>A sweep of at most as many octaves as its fade-in asks for is all fade-in.\<close>

lemma narrow_sweep_all_fade:
  assumes v: "sweep_valid c" and "cfg_fadeInOctaves c > 0"
    and "ln (cfg_endHz c / cfg_startHz c) \<le> cfg_fadeInOctaves c * ln 2"
  shows "lengthSamples (sweep_build c) \<le> fadeInSamples (sweep_build c)"
proof -
  let ?l = "lengthL (sweep_build c)"
  let ?fin = "max (max (cfg_fadeInSec c) (2 / cfg_startHz c)) (cfg_fadeInOctaves c * ln 2 * ?l)"
  have "sw_durationSec (sweep_build c) \<le> cfg_fadeInOctaves c * ln 2 * ?l"
    using assms(3) sweep_L_pos [OF v] by (simp add: sweep_duration mult.commute)
  then have "lengthSamples (sweep_build c) \<le> roundToSamples ?fin (cfg_sampleRate c)"
    unfolding sweep_samples using sweep_validD(1) [OF v] by (intro roundToSamples_mono) auto
  moreover have "fadeInSamples (sweep_build c) = max 2 (roundToSamples ?fin (cfg_sampleRate c))"
    using assms(2) by (simp add: sweep_build_simps)
  ultimately show ?thesis by simp
qed

lemma short_sweep_ends_unfaded:
  assumes "2 \<le> lengthSamples s" "lengthSamples s \<le> fadeInSamples s"
  shows "0 < fadeEnvelope s (lengthSamples s - 1)"
proof -
  define p where "p = real (lengthSamples s - 1) / real (fadeInSamples s - 1)"
  have p: "0 < p" "p \<le> 1" using assms by (simp_all add: p_def)
  then have "cos (pi * p) < cos 0" by (intro cos_monotone_0_pi) simp_all
  moreover have "lengthSamples s - 1 < fadeInSamples s" using assms by arith
  ultimately show ?thesis by (simp add: fadeEnvelope_def raisedCosine_def p_def)
qed

section \<open>Properties\<close>

text \<open>
  Construction rejects exactly the invalid configurations, with the error of the first check
  that fails, and a sweep it builds is synchronised: \<open>f\<^sub>1 L\<close> is a whole number of at least one cycle, nearest to
  what the requested duration asks for, the phase constant is that many whole turns, and the frequency
  reaches \<open>f\<^sub>2\<close> exactly at the synchronised duration.
\<close>

theorem Sweep_synchronised:
  "case Sweep_new c of
     Inl e \<Rightarrow> (e = SampleRateNotPositive \<and> cfg_sampleRate c \<le> 0) \<or>
              (e = StartHzNotPositive \<and> 0 < cfg_sampleRate c \<and> cfg_startHz c \<le> 0) \<or>
              (e = EndHzNotAboveStart \<and> 0 < cfg_sampleRate c \<and> 0 < cfg_startHz c \<and> cfg_endHz c \<le> cfg_startHz c) \<or>
              (e = DurationNotPositive \<and> 0 < cfg_sampleRate c \<and> 0 < cfg_startHz c \<and>
               cfg_startHz c < cfg_endHz c \<and> cfg_durationSec c \<le> 0)
   | Inr s \<Rightarrow> sweep_valid c \<and>
       (\<exists>N::int. 1 \<le> N \<and> sw_startHz s * lengthL s = N \<and> phaseK s = 2 * pi * N \<and>
          N = max 1 (lround (cfg_startHz c * (cfg_durationSec c / ln (cfg_endHz c / cfg_startHz c))))) \<and>
       sw_startHz s * exp (sw_durationSec s / lengthL s) = cfg_endHz c"
proof (cases "sweep_valid c")
  case True
  define N where "N = max 1 (lround (cfg_startHz c * (cfg_durationSec c / ln (cfg_endHz c / cfg_startHz c))))"
  have N: "cfg_startHz c * lengthL (sweep_build c) = real_of_int N"
    unfolding sweep_cycles [OF True] N_def by (simp add: of_int_max)
  moreover have "phaseK (sweep_build c) = 2 * pi * (cfg_startHz c * lengthL (sweep_build c))"
    by (simp add: sweep_build_simps)
  moreover have "1 \<le> N" by (simp add: N_def)
  moreover have "Sweep_new c = Inr (sweep_build c)" using True by (simp add: Sweep_new_Inr)
  ultimately show ?thesis
    using True sweep_end_frequency [OF True] by (auto simp: N_def intro!: exI [of _ N])
next
  case False
  then show ?thesis by (auto simp: Sweep_new_def sweep_valid_def)
qed

text \<open>
  A built sweep renders, in blocks of any size and again after a restart, the closed-form
  samples; the output never exceeds the amplitude, starts from silence, ends in silence when the fade-in is
  shorter than the sweep, and is zero for ever after.  The inverse filter has one tap per sample, is the
  reversed sweep weighted by frequency, and stays within the amplitude.
\<close>

theorem Sweep_render:
  assumes "Sweep_new c = Inr s"
  shows "fst (Sweep_process (Sweep_restart (snd (Sweep_process s k))) n) = map (sweep_sample s) [0..<n] \<and>
    (\<forall>i. \<bar>sweep_sample s i\<bar> \<le> 10 powr (cfg_levelDbFsPeak c / 20)) \<and>
    sweep_sample s 0 = 0 \<and> (\<forall>i \<ge> lengthSamples s. sweep_sample s i = 0) \<and>
    (fadeInSamples s < lengthSamples s \<longrightarrow> sweep_sample s (lengthSamples s - 1) = 0) \<and>
    length (buildInverseFilter s) = lengthSamples s \<and>
    (\<forall>m < lengthSamples s.
       buildInverseFilter s ! m = sweep_sample s (lengthSamples s - 1 - m) *
         (instantaneousFrequency s (lengthSamples s - 1 - m) / cfg_endHz c) \<and>
       \<bar>buildInverseFilter s ! m\<bar> \<le> 10 powr (cfg_levelDbFsPeak c / 20))"
proof -
  have v: "sweep_valid c" and s: "s = sweep_build c" using assms by (simp_all add: Sweep_new_Inr)
  obtain j where "snd (Sweep_process s k) = s\<lparr>sw_n := j\<rparr>" using Sweep_process_frame by blast
  then have "fst (Sweep_process (Sweep_restart (snd (Sweep_process s k))) n) = map (sweep_sample s) [0..<n]"
    by (simp add: Sweep_restart_def Sweep_process_closed)
  moreover have "sweep_sample s 0 = 0" "fadeInSamples s < lengthSamples s \<Longrightarrow> sweep_sample s (lengthSamples s - 1) = 0"
    using sweep_fades [of c] fadeEnvelope_last [of "sweep_build c"]
    by (simp_all add: s sweep_sample_def fadeEnvelope_first)
  moreover have "length (buildInverseFilter s) = lengthSamples s"
    by (simp add: buildInverseFilter_def Let_def)
  moreover have "\<forall>i. \<bar>sweep_sample s i\<bar> \<le> 10 powr (cfg_levelDbFsPeak c / 20)"
    using sweep_sample_bounded [of s] by (simp add: s)
  ultimately show ?thesis
    using inverse_filter_bounded [OF v] inverse_filter_nth [of _ s] by (simp add: s sweep_sample_def [of _ "Suc _"] sweep_sample_def)
qed

theorem Sweep_render_witness:
  "fst (Sweep_process (Sweep_restart (snd (Sweep_process (sweep_build SweepConfig_default) 3))) 2) =
     map (sweep_sample (sweep_build SweepConfig_default)) [0..<2] \<and>
   sweep_sample (sweep_build SweepConfig_default) 0 = 0"
proof -
  have "Sweep_new SweepConfig_default = Inr (sweep_build SweepConfig_default)"
    by (simp add: Sweep_new_def SweepConfig_default_def)
  from Sweep_render [OF this, of 3 2] show ?thesis by blast
qed

text \<open>
  the fade-in can swallow the fade-out.  A sweep of at most as many octaves as
  \<^verbatim>\<open>fadeInOctaves\<close> asks for (two by default) is all fade-in: at every one of its samples the envelope is that
  of the fade-in, and at its last sample the envelope is not zero, so the sweep stops with a step.
\<close>

theorem Sweep_narrow_ends_unfaded:
  assumes "Sweep_new c = Inr s" "cfg_fadeInOctaves c > 0" "2 \<le> lengthSamples s"
    and "ln (cfg_endHz c / cfg_startHz c) \<le> cfg_fadeInOctaves c * ln 2"
  shows "(\<forall>n < lengthSamples s. fadeEnvelope s n = raisedCosine (real n / real (fadeInSamples s - 1))) \<and>
    0 < fadeEnvelope s (lengthSamples s - 1)"
proof -
  have v: "sweep_valid c" and s: "s = sweep_build c" using assms(1) by (simp_all add: Sweep_new_Inr)
  have "lengthSamples s \<le> fadeInSamples s"
    unfolding s using narrow_sweep_all_fade [OF v assms(2,4)] .
  then show ?thesis
    using short_sweep_ends_unfaded [OF assms(3)] by (simp add: fadeEnvelope_def)
qed

definition octave_sweep :: SweepConfig where
  "octave_sweep = SweepConfig_default\<lparr>cfg_startHz := 1, cfg_endHz := 2, cfg_durationSec := ln 2\<rparr>"

lemma octave_sweep_length: "2 \<le> lengthSamples (sweep_build octave_sweep)"
proof -
  have "exp (1 / 2) < (2 :: real)"
    using exp_bound [of "1 / 2"] by (simp add: power2_eq_square)
  then have "(1 / 2 :: real) < ln 2"
    using ln_less_cancel_iff [of "exp (1 / 2)" "2 :: real"] by simp
  then have "2 \<le> lround (ln 2 * 48000)" unfolding lround_def by (auto simp: le_floor_iff)
  then show ?thesis
    by (simp add: sweep_build_simps octave_sweep_def SweepConfig_default_def roundToSamples_def lround_def [of 1])
qed

theorem Sweep_narrow_ends_unfaded_witness:
  "0 < fadeEnvelope (sweep_build octave_sweep) (lengthSamples (sweep_build octave_sweep) - 1)"
proof -
  have "Sweep_new octave_sweep = Inr (sweep_build octave_sweep)"
    by (simp add: Sweep_new_def octave_sweep_def SweepConfig_default_def)
  from Sweep_narrow_ends_unfaded [OF this _ octave_sweep_length] show ?thesis
    by (simp add: octave_sweep_def SweepConfig_default_def)
qed

end
