(* ===== verification/Output_Engine.thy ===== *)
theory Output_Engine
  imports Generators Sweep Channel_Config
begin

text \<open>
  The generator output path (\<^verbatim>\<open>platform/types/src/OutputEngine.cpp\<close>) and the policy over it
  (\<^verbatim>\<open>app/src/measure/OutputPolicy.h\<close>): one active source rendered through a scratch block in chunks, a master
  gain, and one gain per output.  The operations are those of one thread at a time; the message and audio
  threads together are the subject of theory \<open>Output_Swap\<close>.  The theory proves that chunking is invisible,
  what each output receives sample by sample, that a disarmed engine falls silent and becomes quiescent, that
  a source built for another device configuration is never heard, and that the policies route exactly the
  outputs they name.
\<close>

section \<open>State\<close>

datatype SourceVariant =
    NoSource
  | SrcOscillator Oscillator
  | SrcDualSine DualSine
  | SrcWhiteNoise WhiteNoise
  | SrcPinkNoise PinkNoise
  | SrcSweep Sweep
  | SrcMls Mls

definition kScratchCapacity :: nat where "kScratchCapacity = 2048"
definition kPlaceholderSampleRate :: real where "kPlaceholderSampleRate = 48000"

record OutputEngine =
  slot :: SourceVariant
  master :: RampedGain
  outputGates :: "RampedGain list"
  routing :: "OutputRole list"
  scratch :: "real list"
  publishedIdle :: bool
  armed :: bool
  renderedSamples :: uint64_t
  outputEpoch :: uint64_t
  slotEpoch :: uint64_t
  oe_sampleRate :: real
  preparedOutputChannels :: int

section \<open>Operations of the message and device threads\<close>

definition OutputEngine_new :: OutputEngine where
  "OutputEngine_new =
     \<lparr>slot = NoSource, master = RampedGain_new kPlaceholderSampleRate 0.010,
      outputGates = replicate (nat kMaxChannels) (RampedGain_new kPlaceholderSampleRate 0.010),
      routing = OutputRoutingConfig_new, scratch = replicate kScratchCapacity 0, publishedIdle = True,
      armed = False, renderedSamples = 0, outputEpoch = 0, slotEpoch = 0,
      oe_sampleRate = kPlaceholderSampleRate, preparedOutputChannels = 0\<rparr>"

definition OutputEngine_prepare :: "OutputEngine \<Rightarrow> real \<Rightarrow> int \<Rightarrow> OutputEngine" where
  "OutputEngine_prepare e sampleRate numOutputChannels =
     e\<lparr>outputEpoch := outputEpoch e + 1, armed := False, oe_sampleRate := sampleRate,
       preparedOutputChannels := numOutputChannels, master := RampedGain_prepare (master e) sampleRate,
       outputGates := map (\<lambda>g. RampedGain_prepare g sampleRate) (outputGates e), publishedIdle := True\<rparr>"

definition sourceIsQuiescent :: "OutputEngine \<Rightarrow> bool" where
  "sourceIsQuiescent e \<longleftrightarrow> publishedIdle e \<and> \<not> armed e"

definition setSource :: "OutputEngine \<Rightarrow> SourceVariant \<Rightarrow> bool \<times> OutputEngine" where
  "setSource e source =
     (if \<not> sourceIsQuiescent e then (False, e) else (True, e\<lparr>slot := source, slotEpoch := outputEpoch e\<rparr>))"

definition armSource :: "OutputEngine \<Rightarrow> OutputEngine" where
  "armSource e = e\<lparr>renderedSamples := 0, armed := True\<rparr>"

definition disarmSource :: "OutputEngine \<Rightarrow> OutputEngine" where
  "disarmSource e = e\<lparr>armed := False\<rparr>"

definition routeOutput :: "OutputEngine \<Rightarrow> int \<Rightarrow> bool \<Rightarrow> bool \<times> OutputEngine" where
  "routeOutput e outputChannel active =
     (let (ok, table) = output_setRole (routing e) outputChannel (if active then Routed else NotRouted)
      in if \<not> ok then (False, e)
         else (let i = nat outputChannel; gate = outputGates e ! i
               in (True, e\<lparr>routing := table,
                           outputGates := (outputGates e)[i := (if active then requestOn gate else requestOff gate)]\<rparr>)))"

section \<open>The audio callback\<close>

text \<open>\<^verbatim>\<open>std::visit\<close> over the slot: an empty slot fills the block with zeros.\<close>

definition source_process :: "SourceVariant \<Rightarrow> nat \<Rightarrow> real list \<times> SourceVariant" where
  "source_process v n =
     (case v of
        NoSource \<Rightarrow> (replicate n 0, NoSource)
      | SrcOscillator s \<Rightarrow> apsnd SrcOscillator (Oscillator_process s n)
      | SrcDualSine s \<Rightarrow> apsnd SrcDualSine (DualSine_process s n)
      | SrcWhiteNoise s \<Rightarrow> apsnd SrcWhiteNoise (WhiteNoise_process s n)
      | SrcPinkNoise s \<Rightarrow> apsnd SrcPinkNoise (PinkNoise_process s n)
      | SrcSweep s \<Rightarrow> apsnd SrcSweep (Sweep_process s n)
      | SrcMls s \<Rightarrow> apsnd SrcMls (Mls_process s n))"

text \<open>A null destination still advances the gate once per sample.\<close>

fun ramp_skip :: "RampedGain \<Rightarrow> nat \<Rightarrow> RampedGain" where
  "ramp_skip g 0 = g"
| "ramp_skip g (Suc n) = ramp_skip (snd (nextGain g)) n"

text \<open>
  The loop over the channels of one chunk: \<open>ys\<close> is the scratch block after the master stage.  A null entry
  of the pointer array is \<open>None\<close>; indexing past the array or past a destination is undefined, and \<open>None\<close>.
\<close>

fun fan_out :: "nat \<Rightarrow> nat \<Rightarrow> real list \<Rightarrow> RampedGain list \<Rightarrow> real list option list \<Rightarrow>
    (RampedGain list \<times> real list option list) option" where
  "fan_out 0 offset ys gates outs = Some (gates, outs)"
| "fan_out (Suc c) offset ys (g # gates) (None # outs) =
     do { (gates', outs') \<leftarrow> fan_out c offset ys gates outs;
          Some (ramp_skip g (length ys) # gates', None # outs') }"
| "fan_out (Suc c) offset ys (g # gates) (Some dest # outs) =
     (let (zs, g') = RampedGain_apply g ys in
      do { dest' \<leftarrow> blit dest offset zs;
           (gates', outs') \<leftarrow> fan_out c offset ys gates outs;
           Some (g' # gates', Some dest' # outs') })"
| "fan_out (Suc c) offset ys gates outs = None"

fun clear_outputs :: "nat \<Rightarrow> nat \<Rightarrow> real list option list \<Rightarrow> real list option list option" where
  "clear_outputs 0 n outs = Some outs"
| "clear_outputs (Suc c) n (None # outs) = do { outs' \<leftarrow> clear_outputs c n outs; Some (None # outs') }"
| "clear_outputs (Suc c) n (Some dest # outs) =
     do { dest' \<leftarrow> blit dest 0 (replicate n 0);
          outs' \<leftarrow> clear_outputs c n outs;
          Some (Some dest' # outs') }"
| "clear_outputs (Suc c) n [] = None"

function render_chunks :: "nat \<Rightarrow> nat \<Rightarrow> nat \<Rightarrow> real list option list \<Rightarrow> OutputEngine \<Rightarrow>
    (real list option list \<times> OutputEngine) option" where
  "render_chunks channels offset remaining outs e =
     (if remaining = 0 then Some (outs, e)
      else (let chunk = (if remaining < kScratchCapacity then remaining else kScratchCapacity);
                (xs, slot') = source_process (slot e) chunk;
                (ys, master') = RampedGain_apply (master e) xs
            in do { scratch' \<leftarrow> blit (scratch e) 0 ys;
                    (gates', outs') \<leftarrow> fan_out channels offset ys (outputGates e) outs;
                    render_chunks channels (offset + chunk) (remaining - chunk) outs'
                      (e\<lparr>slot := slot', master := master', scratch := scratch', outputGates := gates',
                         renderedSamples := renderedSamples e + word_of_nat chunk\<rparr>) }))"
  by pat_completeness auto
termination
  by (relation "measure (\<lambda>(channels, offset, remaining, outs, e). remaining)") (auto simp: kScratchCapacity_def)

declare render_chunks.simps [simp del]

definition OutputEngine_render :: "OutputEngine \<Rightarrow> real list option list option \<Rightarrow> int \<Rightarrow> int \<Rightarrow>
    (real list option list option \<times> OutputEngine) option" where
  "OutputEngine_render e output numOutputChannels numSamples =
     (case output of
        None \<Rightarrow> Some (None, e)
      | Some outs \<Rightarrow>
          (let channels = nat (max 0 (min numOutputChannels kMaxChannels));
               wantsPlaying = (armed e \<and> slotEpoch e = outputEpoch e);
               e1 = e\<lparr>master := (if wantsPlaying then requestOn (master e) else requestOff (master e))\<rparr>;
               needsRender = (wantsPlaying \<or> rg_state (master e1) \<noteq> Idle)
           in if \<not> needsRender
              then do { outs' \<leftarrow> clear_outputs channels (nat numSamples) outs;
                        Some (Some outs', e1\<lparr>publishedIdle := True\<rparr>) }
              else do { (outs', e2) \<leftarrow> render_chunks channels 0 (nat numSamples) outs e1;
                        Some (Some outs', e2\<lparr>publishedIdle := (rg_state (master e2) = Idle)\<rparr>) }))"

section \<open>The policy of the application\<close>

datatype SoloMode = StrictSolo | Additive

definition over_outputs :: "(int \<Rightarrow> bool) \<Rightarrow> OutputEngine \<Rightarrow> OutputEngine" where
  "over_outputs on e = fold (\<lambda>ch e. snd (routeOutput e ch (on ch))) [0..kMaxChannels - 1] e"

definition muteAll :: "OutputEngine \<Rightarrow> OutputEngine" where
  "muteAll e = over_outputs (\<lambda>ch. False) e"

definition soloOutput :: "OutputEngine \<Rightarrow> int \<Rightarrow> OutputEngine" where
  "soloOutput e outputChannel = over_outputs (\<lambda>ch. ch = outputChannel) e"

definition routeOutputSet :: "OutputEngine \<Rightarrow> int list \<Rightarrow> OutputEngine" where
  "routeOutputSet e outputs = over_outputs (\<lambda>ch. ch \<in> set outputs) e"

definition applyToggle :: "OutputEngine \<Rightarrow> int \<Rightarrow> bool \<Rightarrow> SoloMode \<Rightarrow> OutputEngine" where
  "applyToggle e outputChannel on mode =
     (if mode = StrictSolo \<and> on then soloOutput e outputChannel else snd (routeOutput e outputChannel on))"

section \<open>A source seen through the slot\<close>

definition source_next :: "SourceVariant \<Rightarrow> real \<times> SourceVariant" where
  "source_next v =
     (case v of
        NoSource \<Rightarrow> (0, NoSource)
      | SrcOscillator s \<Rightarrow> apsnd SrcOscillator (Oscillator_nextSample s)
      | SrcDualSine s \<Rightarrow> apsnd SrcDualSine (DualSine_nextSample s)
      | SrcWhiteNoise s \<Rightarrow> apsnd SrcWhiteNoise (WhiteNoise_nextSample s)
      | SrcPinkNoise s \<Rightarrow> apsnd SrcPinkNoise (PinkNoise_nextSample s)
      | SrcSweep s \<Rightarrow> apsnd SrcSweep (Sweep_nextSample s)
      | SrcMls s \<Rightarrow> apsnd SrcMls (Mls_nextSample s))"

interpretation src: sample_source source_next source_process
proof unfold_locales
  show "source_process s 0 = ([], s)" for s
    by (cases s) (simp_all add: source_process_def)
  show "source_process s (Suc n) =
      (let (x, s1) = source_next s; (xs, s2) = source_process s1 n in (x # xs, s2))" for s n
    by (cases s) (simp_all add: source_process_def source_next_def case_prod_beta apsnd_def map_prod_def)
qed

section \<open>Gains over blocks\<close>

lemma length_apply [simp]: "length (fst (RampedGain_apply g xs)) = length xs"
  by (induction xs arbitrary: g) (simp_all add: case_prod_beta)

lemma apply_append:
  "RampedGain_apply g (xs @ ys) =
     (fst (RampedGain_apply g xs) @ fst (RampedGain_apply (snd (RampedGain_apply g xs)) ys),
      snd (RampedGain_apply (snd (RampedGain_apply g xs)) ys))"
  by (induction xs arbitrary: g) (simp_all add: case_prod_beta)

lemma ramp_skip_apply: "ramp_skip g (length xs) = snd (RampedGain_apply g xs)"
  by (induction xs arbitrary: g) (simp_all add: case_prod_beta)

text \<open>The gains a gate gives to the next \<open>n\<close> samples when nobody changes its target.\<close>

definition gains :: "RampedGain \<Rightarrow> nat \<Rightarrow> real list" where
  "gains g n = fst (ramp_run g (replicate n None))"

lemma apply_gains: "fst (RampedGain_apply g xs) = map2 (*) xs (gains g (length xs))"
  by (induction xs arbitrary: g) (simp_all add: gains_def ramp_request_def case_prod_beta)

lemma apply_run: "snd (RampedGain_apply g xs) = snd (ramp_run g (replicate (length xs) None))"
  by (induction xs arbitrary: g) (simp_all add: ramp_request_def case_prod_beta)

lemma apply_inv: "ramp_inv g \<Longrightarrow> ramp_inv (snd (RampedGain_apply g xs))"
  by (induction xs arbitrary: g) (simp_all add: case_prod_beta nextGain_inv)

lemma apply_target [simp]: "rg_target (snd (RampedGain_apply g xs)) = rg_target g"
  by (induction xs arbitrary: g) (simp_all add: case_prod_beta)

section \<open>Chunking is invisible\<close>

definition written :: "nat \<Rightarrow> 'a list \<Rightarrow> 'a list \<Rightarrow> 'a list" where
  "written offset zs d = take offset d @ zs @ drop (offset + length zs) d"

lemma blit_written: "offset + length zs \<le> length d \<Longrightarrow> blit d offset zs = Some (written offset zs d)"
  by (simp add: blit_def written_def)

lemma length_written: "offset + length zs \<le> length d \<Longrightarrow> length (written offset zs d) = length d"
  by (simp add: written_def)

lemma written_written:
  assumes "offset + length a + length b \<le> length d"
  shows "written (offset + length a) b (written offset a d) = written offset (a @ b) d"
  using assms by (simp add: written_def ac_simps)

lemma written_Nil [simp]: "written offset [] d = d"
  by (simp add: written_def)

text \<open>The channels a callback hands over can hold \<open>n\<close> samples, or are null.\<close>

definition writable :: "nat \<Rightarrow> nat \<Rightarrow> real list option list \<Rightarrow> bool" where
  "writable channels n outs \<longleftrightarrow> channels \<le> length outs \<and> (\<forall>ch < channels. \<forall>d. outs ! ch = Some d \<longrightarrow> n \<le> length d)"

lemma writable_Cons:
  "writable (Suc c) n (dest # outs) \<longleftrightarrow> (\<forall>d. dest = Some d \<longrightarrow> n \<le> length d) \<and> writable c n outs"
  by (auto simp: writable_def less_Suc_eq_0_disj)

lemma not_writable_Nil [simp]: "\<not> writable (Suc c) n []"
  by (simp add: writable_def)

definition on_channels :: "nat \<Rightarrow> (RampedGain \<Rightarrow> real list \<Rightarrow> real list) \<Rightarrow> RampedGain list \<Rightarrow>
    real list option list \<Rightarrow> real list option list" where
  "on_channels channels f gates outs =
     map2 (\<lambda>g. map_option (f g)) (take channels gates) (take channels outs) @ drop channels outs"

lemma fan_out_spec:
  assumes "writable c (offset + length ys) outs" "c \<le> length gates"
  shows "fan_out c offset ys gates outs =
     Some (map (\<lambda>g. snd (RampedGain_apply g ys)) (take c gates) @ drop c gates,
           on_channels c (\<lambda>g. written offset (fst (RampedGain_apply g ys))) gates outs)"
  using assms
proof (induction c arbitrary: gates outs)
  case (Suc c)
  obtain g gates' where g: "gates = g # gates'" using Suc.prems(2) by (cases gates) auto
  obtain dest outs' where outs: "outs = dest # outs'" using Suc.prems(1) by (cases outs) auto
  have IH: "fan_out c offset ys gates' outs' =
     Some (map (\<lambda>g. snd (RampedGain_apply g ys)) (take c gates') @ drop c gates',
           on_channels c (\<lambda>g. written offset (fst (RampedGain_apply g ys))) gates' outs')"
    using Suc by (simp add: g outs writable_Cons)
  show ?case
    using Suc.prems(1)
    by (cases dest) (simp_all add: g outs IH on_channels_def ramp_skip_apply case_prod_beta writable_Cons blit_written)
qed (simp add: on_channels_def)

lemma clear_outputs_spec:
  "writable c n outs \<Longrightarrow> c \<le> length gates \<Longrightarrow>
     clear_outputs c n outs = Some (on_channels c (\<lambda>g. written 0 (replicate n 0)) gates outs)"
proof (induction c arbitrary: gates outs)
  case (Suc c)
  obtain g gates' where g: "gates = g # gates'" using Suc.prems(2) by (cases gates) auto
  obtain dest outs' where outs: "outs = dest # outs'" using Suc.prems(1) by (cases outs) auto
  have IH: "clear_outputs c n outs' = Some (on_channels c (\<lambda>g. written 0 (replicate n 0)) gates' outs')"
    using Suc by (simp add: g outs writable_Cons)
  show ?case
    using Suc.prems(1) by (cases dest) (simp_all add: g outs IH on_channels_def writable_Cons blit_written)
qed (simp add: on_channels_def)

lemma on_channels_nth:
  assumes "c \<le> length gates" "c \<le> length outs" "ch < length outs"
  shows "on_channels c f gates outs ! ch = (if ch < c then map_option (f (gates ! ch)) (outs ! ch) else outs ! ch)"
  using assms by (auto simp: on_channels_def nth_append)

lemma length_on_channels:
  "c \<le> length gates \<Longrightarrow> c \<le> length outs \<Longrightarrow> length (on_channels c f gates outs) = length outs"
  by (simp add: on_channels_def)

lemma on_channels_id: "c \<le> length gates \<Longrightarrow> c \<le> length outs \<Longrightarrow> (\<And>g d. f g d = d) \<Longrightarrow> on_channels c f gates outs = outs"
  by (intro nth_equalityI) (simp_all add: length_on_channels on_channels_nth, auto simp: map_option_case split: option.split)

lemma on_channels_comp:
  assumes "c \<le> length gates" "c \<le> length outs"
    and "\<And>g ch d. ch < c \<Longrightarrow> outs ! ch = Some d \<Longrightarrow> f (k g) (h g d) = r g d"
  shows "on_channels c f (map k (take c gates) @ drop c gates) (on_channels c h gates outs) = on_channels c r gates outs"
proof (intro nth_equalityI)
  fix ch assume "ch < length (on_channels c f (map k (take c gates) @ drop c gates) (on_channels c h gates outs))"
  then have ch: "ch < length outs" using assms(1,2) by (simp add: length_on_channels)
  show "on_channels c f (map k (take c gates) @ drop c gates) (on_channels c h gates outs) ! ch = on_channels c r gates outs ! ch"
    using ch assms by (cases "outs ! ch") (auto simp: on_channels_nth length_on_channels nth_append)
qed (use assms in \<open>simp add: length_on_channels\<close>)

lemma writable_written:
  assumes "writable c n outs" "c \<le> length gates"
    and "\<And>g ch d. ch < c \<Longrightarrow> outs ! ch = Some d \<Longrightarrow> length (f g d) = length d"
  shows "writable c n (on_channels c f gates outs)"
  using assms by (auto simp: writable_def length_on_channels on_channels_nth)

text \<open>What the engine keeps: its sizes, and every gain in a consistent state.\<close>

definition engine_inv :: "OutputEngine \<Rightarrow> bool" where
  "engine_inv e \<longleftrightarrow> length (outputGates e) = nat kMaxChannels \<and> length (scratch e) = kScratchCapacity \<and>
     length (routing e) = nat kMaxChannels \<and> ramp_inv (master e) \<and> list_all ramp_inv (outputGates e)"

text \<open>The block after the master stage, had it been rendered in one piece.\<close>

definition mastered :: "OutputEngine \<Rightarrow> nat \<Rightarrow> real list" where
  "mastered e n = fst (RampedGain_apply (master e) (fst (source_process (slot e) n)))"

lemma length_mastered [simp]: "length (mastered e n) = n"
  by (simp add: mastered_def src.fill_length)

text \<open>The engine after a block of \<open>n\<close> samples on \<open>c\<close> channels, but for the contents of the scratch.\<close>

definition advanced :: "nat \<Rightarrow> nat \<Rightarrow> real list \<Rightarrow> OutputEngine \<Rightarrow> OutputEngine" where
  "advanced c n scr e =
     e\<lparr>slot := snd (source_process (slot e) n),
       master := snd (RampedGain_apply (master e) (fst (source_process (slot e) n))), scratch := scr,
       outputGates := map (\<lambda>g. snd (RampedGain_apply g (mastered e n))) (take c (outputGates e)) @ drop c (outputGates e),
       renderedSamples := renderedSamples e + word_of_nat n\<rparr>"

lemma mastered_add: "mastered e (m + n) = mastered e m @ mastered (advanced c m scr e) n"
  by (simp add: mastered_def advanced_def src.fill_add apply_append)

lemma advanced_add:
  assumes "c \<le> length (outputGates e)"
  shows "advanced c n scr' (advanced c m scr e) = advanced c (m + n) scr' e"
proof -
  have "mastered (advanced c m scr e) n = mastered (advanced c m scr' e) n"
    by (simp add: mastered_def advanced_def)
  then show ?thesis
    using assms mastered_add [of e m n c scr]
    by (simp add: advanced_def [of c n] advanced_def [of c "m + n"])
      (simp add: advanced_def [of c m] src.fill_add apply_append o_def)
qed

lemma engine_inv_advanced:
  assumes "engine_inv e" "length scr = kScratchCapacity" "c \<le> nat kMaxChannels"
  shows "engine_inv (advanced c n scr e)"
proof -
  have "list_all ramp_inv (take c (outputGates e))" "list_all ramp_inv (drop c (outputGates e))"
    using assms(1) unfolding engine_inv_def by (metis append_take_drop_id list_all_append)+
  then have "list_all ramp_inv (map (\<lambda>g. snd (RampedGain_apply g (mastered e n))) (take c (outputGates e)))"
    by (auto simp: list_all_iff apply_inv)
  with \<open>list_all ramp_inv (drop c (outputGates e))\<close> show ?thesis
    using assms by (simp add: engine_inv_def advanced_def apply_inv)
qed

definition chan_write :: "nat \<Rightarrow> real list \<Rightarrow> RampedGain \<Rightarrow> real list \<Rightarrow> real list" where
  "chan_write offset ys g = written offset (fst (RampedGain_apply g ys))"

lemma render_chunk_step:
  assumes "engine_inv e" "c \<le> nat kMaxChannels" "writable c (offset + n) outs" "0 < n"
  defines "m \<equiv> (if n < kScratchCapacity then n else kScratchCapacity)"
  shows "\<exists>scr. length scr = kScratchCapacity \<and>
    render_chunks c offset n outs e =
    render_chunks c (offset + m) (n - m) (on_channels c (chan_write offset (mastered e m)) (outputGates e) outs)
      (advanced c m scr e)"
proof -
  have m: "m \<le> n" "m \<le> kScratchCapacity" by (simp_all add: m_def)
  have len: "length (outputGates e) = nat kMaxChannels" "length (scratch e) = kScratchCapacity"
    using assms(1) by (simp_all add: engine_inv_def)
  have "writable c (offset + length (mastered e m)) outs"
    using assms(3) m(1) by (fastforce simp: writable_def)
  then have fan: "fan_out c offset (mastered e m) (outputGates e) outs =
      Some (map (\<lambda>g. snd (RampedGain_apply g (mastered e m))) (take c (outputGates e)) @ drop c (outputGates e),
        on_channels c (chan_write offset (mastered e m)) (outputGates e) outs)"
    using assms(2) len by (simp add: fan_out_spec chan_write_def [abs_def])
  have blit: "blit (scratch e) 0 (mastered e m) = Some (written 0 (mastered e m) (scratch e))"
    using m(2) len by (intro blit_written) simp
  have "render_chunks c offset n outs e =
    render_chunks c (offset + m) (n - m) (on_channels c (chan_write offset (mastered e m)) (outputGates e) outs)
      (advanced c m (written 0 (mastered e m) (scratch e)) e)"
    using assms(4) fan blit
    by (subst render_chunks.simps) (simp add: case_prod_beta advanced_def flip: m_def mastered_def)
  moreover have "length (written 0 (mastered e m) (scratch e)) = kScratchCapacity"
    using m(2) len by (simp add: length_written)
  ultimately show ?thesis by blast
qed

lemma render_chunks_spec:
  assumes "engine_inv e" "c \<le> nat kMaxChannels" "writable c (offset + n) outs"
  shows "\<exists>scr. length scr = kScratchCapacity \<and>
    render_chunks c offset n outs e =
      Some (on_channels c (chan_write offset (mastered e n)) (outputGates e) outs, advanced c n scr e)"
  using assms
proof (induction n arbitrary: offset outs e rule: less_induct)
  case (less n)
  have len: "c \<le> length (outputGates e)" "c \<le> length outs"
    using less.prems by (simp_all add: engine_inv_def writable_def)
  show ?case
  proof (cases "n = 0")
    case True
    have "on_channels c (chan_write offset (mastered e 0)) (outputGates e) outs = outs"
      using len by (intro on_channels_id) (simp_all add: chan_write_def mastered_def src.fill_0)
    moreover have "advanced c 0 (scratch e) e = e"
      using len by (simp add: advanced_def mastered_def src.fill_0)
    ultimately show ?thesis
      using True less.prems(1) by (subst render_chunks.simps) (auto simp: engine_inv_def intro!: exI [of _ "scratch e"])
  next
    case False
    define m where "m = (if n < kScratchCapacity then n else kScratchCapacity)"
    have m: "0 < m" "m \<le> n" using False by (simp_all add: m_def kScratchCapacity_def)
    let ?outs = "on_channels c (chan_write offset (mastered e m)) (outputGates e) outs"
    obtain scr where scr: "length scr = kScratchCapacity"
      "render_chunks c offset n outs e = render_chunks c (offset + m) (n - m) ?outs (advanced c m scr e)"
      using render_chunk_step [OF less.prems] False unfolding m_def by blast
    have inv: "engine_inv (advanced c m scr e)"
      using less.prems(1) scr(1) less.prems(2) by (rule engine_inv_advanced)
    have short: "\<And>ch d. ch < c \<Longrightarrow> outs ! ch = Some d \<Longrightarrow> offset + n \<le> length d"
      using less.prems(3) by (simp add: writable_def)
    have wr: "writable c (offset + m + (n - m)) ?outs"
      using less.prems(3) len m(2)
      by (intro writable_written) (auto simp: chan_write_def intro!: length_written dest!: short)
    obtain scr' where scr': "length scr' = kScratchCapacity"
      "render_chunks c (offset + m) (n - m) ?outs (advanced c m scr e) =
        Some (on_channels c (chan_write (offset + m) (mastered (advanced c m scr e) (n - m)))
               (outputGates (advanced c m scr e)) ?outs, advanced c (n - m) scr' (advanced c m scr e))"
      using less.IH [of "n - m" "advanced c m scr e" "offset + m" ?outs] m inv wr less.prems(2) by auto
    have "on_channels c (chan_write (offset + m) (mastered (advanced c m scr e) (n - m)))
            (outputGates (advanced c m scr e)) ?outs =
          on_channels c (chan_write offset (mastered e n)) (outputGates e) outs"
    proof -
      have join: "chan_write (offset + m) (mastered (advanced c m scr e) (n - m)) (snd (RampedGain_apply g (mastered e m)))
          (chan_write offset (mastered e m) g d) = chan_write offset (mastered e n) g d"
        if "ch < c" "outs ! ch = Some d" for g ch d
        using short [OF that] m(2) mastered_add [of e m "n - m" c scr]
          written_written [of offset "fst (RampedGain_apply g (mastered e m))"
            "fst (RampedGain_apply (snd (RampedGain_apply g (mastered e m))) (mastered (advanced c m scr e) (n - m)))" d]
        by (simp add: chan_write_def apply_append)
      have "outputGates (advanced c m scr e) =
          map (\<lambda>g. snd (RampedGain_apply g (mastered e m))) (take c (outputGates e)) @ drop c (outputGates e)"
        by (simp add: advanced_def)
      then show ?thesis
        by (simp only:) (rule on_channels_comp [OF len], rule join)
    qed
    moreover have "advanced c (n - m) scr' (advanced c m scr e) = advanced c n scr' e"
      using advanced_add [OF len(1)] m(2) by simp
    ultimately show ?thesis
      using scr(2) scr' by auto
  qed
qed

section \<open>One block\<close>

lemma length_gains [simp]: "length (gains g n) = n"
  by (induction n arbitrary: g) (simp_all add: gains_def case_prod_beta)

lemma idle_gains:
  assumes "ramp_inv g" "\<not> rg_target g" "rg_state g = Idle"
  shows "gains g n = replicate n 0 \<and> snd (ramp_run g (replicate n None)) = g"
proof -
  have "nextGain g = (0, g)"
    using assms by (simp add: nextGain_def ramp_turn_def ramp_value_def ramp_advance_def)
  then show ?thesis by (induction n) (simp_all add: gains_def ramp_request_def case_prod_beta)
qed

lemma map2_mult_zero: "length xs = n \<Longrightarrow> map2 (*) xs (replicate n 0) = replicate n (0 :: real)"
  by (intro nth_equalityI) simp_all

lemma map2_zero_mult: "length xs = n \<Longrightarrow> map2 (*) (replicate n 0) xs = replicate n (0 :: real)"
  by (intro nth_equalityI) simp_all

definition wantsPlaying :: "OutputEngine \<Rightarrow> bool" where
  "wantsPlaying e \<longleftrightarrow> armed e \<and> slotEpoch e = outputEpoch e"

definition requested :: "OutputEngine \<Rightarrow> RampedGain" where
  "requested e = (if wantsPlaying e then requestOn (master e) else requestOff (master e))"

definition playing :: "OutputEngine \<Rightarrow> bool" where
  "playing e \<longleftrightarrow> wantsPlaying e \<or> rg_state (master e) \<noteq> Idle"

definition channel_count :: "int \<Rightarrow> nat" where
  "channel_count num = nat (max 0 (min num kMaxChannels))"

text \<open>What the block adds to output \<open>ch\<close>: source, master gain and output gain, multiplied sample by sample.\<close>

definition heard :: "OutputEngine \<Rightarrow> nat \<Rightarrow> nat \<Rightarrow> real list" where
  "heard e ch n =
     map (\<lambda>i. fst (source_process (slot e) n) ! i * gains (requested e) n ! i * gains (outputGates e ! ch) n ! i) [0..<n]"

lemma heard_chan_write:
  "n \<le> length d \<Longrightarrow>
     chan_write 0 (mastered (e\<lparr>master := requested e\<rparr>) n) (outputGates e ! ch) d = heard e ch n @ drop n d"
proof -
  have "fst (RampedGain_apply (outputGates e ! ch) (mastered (e\<lparr>master := requested e\<rparr>) n)) = heard e ch n"
    by (intro nth_equalityI) (simp_all add: apply_gains mastered_def heard_def src.fill_length)
  then show ?thesis by (simp add: chan_write_def written_def heard_def)
qed

lemma engine_inv_requested: "engine_inv e \<Longrightarrow> engine_inv (e\<lparr>master := requested e\<rparr>)"
  by (simp add: engine_inv_def requested_def)

lemma idle_silent:
  assumes "engine_inv e" "\<not> playing e"
  shows "heard e ch n = replicate n 0"
proof -
  have "gains (requested e) n = replicate n 0"
    using assms by (intro conjunct1 [OF idle_gains]) (simp_all add: playing_def requested_def engine_inv_def)
  then show ?thesis by (intro nth_equalityI) (simp_all add: heard_def)
qed

lemma render_spec:
  assumes inv: "engine_inv e" and wr: "writable (channel_count num) (nat n) outs"
  shows "\<exists>outs' e' scr. OutputEngine_render e (Some outs) num n = Some (Some outs', e') \<and>
    length outs' = length outs \<and>
    (\<forall>ch < length outs. outs' ! ch =
       (if ch < channel_count num then map_option (\<lambda>d. heard e ch (nat n) @ drop (nat n) d) (outs ! ch) else outs ! ch)) \<and>
    length scr = kScratchCapacity \<and>
    e' = (if playing e
          then (advanced (channel_count num) (nat n) scr (e\<lparr>master := requested e\<rparr>))
                 \<lparr>publishedIdle := (rg_state (master (advanced (channel_count num) (nat n) scr (e\<lparr>master := requested e\<rparr>))) = Idle)\<rparr>
          else e\<lparr>master := requested e, publishedIdle := True\<rparr>)"
proof -
  let ?c = "channel_count num"
  let ?e1 = "e\<lparr>master := requested e\<rparr>"
  have c: "?c \<le> nat kMaxChannels" by (simp add: channel_count_def nat_le_iff kMaxChannels_def)
  have len: "?c \<le> length (outputGates e)" "?c \<le> length outs"
    using c inv wr by (simp_all add: engine_inv_def writable_def)
  have need: "wantsPlaying e \<or> rg_state (requested e) \<noteq> Idle \<longleftrightarrow> playing e"
    by (simp add: playing_def requested_def)
  have render: "OutputEngine_render e (Some outs) num n =
     (if \<not> playing e then do { outs' \<leftarrow> clear_outputs ?c (nat n) outs; Some (Some outs', ?e1\<lparr>publishedIdle := True\<rparr>) }
      else do { (outs', e2) \<leftarrow> render_chunks ?c 0 (nat n) outs ?e1;
                Some (Some outs', e2\<lparr>publishedIdle := (rg_state (master e2) = Idle)\<rparr>) })"
    unfolding need [symmetric]
    by (simp add: OutputEngine_render_def Let_def channel_count_def requested_def wantsPlaying_def)
  show ?thesis
  proof (cases "playing e")
    case True
    obtain scr where scr: "length scr = kScratchCapacity"
      "render_chunks ?c 0 (nat n) outs ?e1 =
        Some (on_channels ?c (chan_write 0 (mastered ?e1 (nat n))) (outputGates e) outs, advanced ?c (nat n) scr ?e1)"
      using render_chunks_spec [OF engine_inv_requested [OF inv] c, of 0 "nat n" outs] wr by auto
    have "on_channels ?c (chan_write 0 (mastered ?e1 (nat n))) (outputGates e) outs ! ch =
       (if ch < ?c then map_option (\<lambda>d. heard e ch (nat n) @ drop (nat n) d) (outs ! ch) else outs ! ch)"
      if "ch < length outs" for ch
      using that len wr by (cases "outs ! ch") (auto simp: on_channels_nth writable_def heard_chan_write)
    then show ?thesis
      using render scr True len by (simp add: length_on_channels) (auto intro: exI [of _ scr])
  next
    case False
    have "on_channels ?c (\<lambda>g. written 0 (replicate (nat n) 0)) (outputGates e) outs ! ch =
       (if ch < ?c then map_option (\<lambda>d. heard e ch (nat n) @ drop (nat n) d) (outs ! ch) else outs ! ch)"
      if "ch < length outs" for ch
      using that len wr
      by (cases "outs ! ch") (auto simp: on_channels_nth writable_def written_def idle_silent [OF inv False])
    then show ?thesis
      using render clear_outputs_spec [OF wr len(1)] False len inv
      by (simp add: length_on_channels) (auto simp: engine_inv_def intro: exI [of _ "scratch e"])
  qed
qed

section \<open>Routing and its policies\<close>

text \<open>Every output's gate aims where its role says.\<close>

definition gates_follow :: "OutputEngine \<Rightarrow> bool" where
  "gates_follow e \<longleftrightarrow> (\<forall>ch. in_table ch \<longrightarrow> (rg_target (outputGates e ! nat ch) \<longleftrightarrow> output_role (routing e) ch = Routed))"

lemma engine_inv_new: "engine_inv OutputEngine_new"
  by (simp add: engine_inv_def OutputEngine_new_def OutputRoutingConfig_new_def ramp_inv_new list_all_length)

lemma gates_follow_new: "gates_follow OutputEngine_new"
  by (auto simp: gates_follow_def OutputEngine_new_def RampedGain_new_def output_role_def in_table_def OutputRoutingConfig_new_def)

lemma list_all_update: "list_all P xs \<Longrightarrow> P v \<Longrightarrow> list_all P (xs[i := v])"
  using set_update_subset_insert [of xs i v] by (auto simp: list_all_iff)

lemma routeOutput_refused: "\<not> in_table ch \<Longrightarrow> routeOutput e ch on = (False, e)"
  by (auto simp: routeOutput_def output_setRole_def in_table_def)

lemma routeOutput_eq:
  "in_table ch \<Longrightarrow> routeOutput e ch on =
     (True, e\<lparr>routing := (routing e)[nat ch := (if on then Routed else NotRouted)],
              outputGates := (outputGates e)[nat ch := (if on then requestOn else requestOff) (outputGates e ! nat ch)]\<rparr>)"
  by (simp add: routeOutput_def output_setRole_def in_table_def Let_def)

lemma routeOutput_inv:
  assumes "engine_inv e"
  shows "engine_inv (snd (routeOutput e ch on))"
proof (cases "in_table ch")
  case True
  then have "ramp_inv (outputGates e ! nat ch)"
    using assms by (auto simp: engine_inv_def list_all_length in_table_def)
  then show ?thesis
    using True assms
    by (auto simp: routeOutput_eq engine_inv_def intro!: list_all_update)
qed (simp add: routeOutput_refused assms)

lemma routeOutput_spec:
  assumes "engine_inv e" "in_table ch" "in_table k"
  shows "output_role (routing (snd (routeOutput e ch on))) k =
      (if k = ch then (if on then Routed else NotRouted) else output_role (routing e) k) \<and>
    rg_target (outputGates (snd (routeOutput e ch on)) ! nat k) = (if k = ch then on else rg_target (outputGates e ! nat k))"
proof -
  have idx: "nat k < length (routing e)" "nat k < length (outputGates e)" "nat k = nat ch \<longleftrightarrow> k = ch"
    using assms by (auto simp: engine_inv_def in_table_def)
  have k: "0 \<le> k" "k < kMaxChannels" using assms(3) by (simp_all add: in_table_def)
  from idx show ?thesis
    using assms(2) k by (cases "k = ch") (auto simp: routeOutput_eq output_role_def nth_list_update)
qed

lemma over_outputs_spec:
  assumes "engine_inv e"
  shows "engine_inv (over_outputs on e) \<and>
    (in_table k \<longrightarrow> output_role (routing (over_outputs on e)) k = (if on k then Routed else NotRouted) \<and>
       rg_target (outputGates (over_outputs on e) ! nat k) = on k)"
proof -
  have "engine_inv (fold (\<lambda>ch e. snd (routeOutput e ch (on ch))) chs e) \<and>
    (in_table k \<longrightarrow> k \<in> set chs \<longrightarrow>
       output_role (routing (fold (\<lambda>ch e. snd (routeOutput e ch (on ch))) chs e)) k = (if on k then Routed else NotRouted) \<and>
       rg_target (outputGates (fold (\<lambda>ch e. snd (routeOutput e ch (on ch))) chs e) ! nat k) = on k)"
    if "\<forall>ch \<in> set chs. in_table ch" for chs
    using that
  proof (induction chs rule: rev_induct)
    case (snoc ch chs)
    then show ?case
      using routeOutput_spec [of "fold (\<lambda>ch e. snd (routeOutput e ch (on ch))) chs e" ch k "on ch"]
      by (auto simp: routeOutput_inv)
  qed (simp add: assms)
  from this [of "[0..kMaxChannels - 1]"] show ?thesis
    by (auto simp: over_outputs_def in_table_def)
qed

lemma gates_follow_route:
  assumes "engine_inv e" "gates_follow e"
  shows "gates_follow (snd (routeOutput e ch on))"
  using assms routeOutput_spec [OF assms(1), of ch _ on] routeOutput_refused [of ch e on]
  by (cases "in_table ch") (auto simp: gates_follow_def)

section \<open>Properties\<close>

text \<open>
  Property C34: one callback, sample by sample.  For buffers that hold the block (null entries allowed), a
  call never leaves its buffers and writes to every output it was handed the product of the source, the
  master gain and that output's gain, whatever the block length and however it splits into scratch chunks;
  a channel past the received count is not touched.  While nothing is to be played this product is silence and
  the source does not move; otherwise it moves by exactly the block.  The published idle flag is the state of
  the master gain, and the engine invariant is kept.
\<close>

theorem render_pointwise:
  assumes "engine_inv e" "writable (channel_count num) (nat n) outs"
  shows "\<exists>outs' e'. OutputEngine_render e (Some outs) num n = Some (Some outs', e') \<and> engine_inv e' \<and>
    length outs' = length outs \<and>
    (\<forall>ch < length outs. outs' ! ch =
       (if ch < channel_count num
        then map_option (\<lambda>d. map (\<lambda>i. fst (source_process (slot e) (nat n)) ! i * gains (requested e) (nat n) ! i *
                                  gains (outputGates e ! ch) (nat n) ! i) [0..<nat n] @ drop (nat n) d) (outs ! ch)
        else outs ! ch)) \<and>
    slot e' = (if playing e then snd (source_process (slot e) (nat n)) else slot e) \<and>
    (\<not> playing e \<longrightarrow> (\<forall>ch. heard e ch (nat n) = replicate (nat n) 0)) \<and>
    publishedIdle e' = (rg_state (master e') = Idle)"
proof -
  have c: "channel_count num \<le> nat kMaxChannels" by (simp add: channel_count_def nat_le_iff kMaxChannels_def)
  obtain outs' e' scr where r: "OutputEngine_render e (Some outs) num n = Some (Some outs', e')"
    "length outs' = length outs"
    "\<forall>ch < length outs. outs' ! ch =
       (if ch < channel_count num then map_option (\<lambda>d. heard e ch (nat n) @ drop (nat n) d) (outs ! ch) else outs ! ch)"
    "length scr = kScratchCapacity"
    "e' = (if playing e
          then (advanced (channel_count num) (nat n) scr (e\<lparr>master := requested e\<rparr>))
                 \<lparr>publishedIdle := (rg_state (master (advanced (channel_count num) (nat n) scr (e\<lparr>master := requested e\<rparr>))) = Idle)\<rparr>
          else e\<lparr>master := requested e, publishedIdle := True\<rparr>)"
    using render_spec [OF assms] by blast
  have adv: "engine_inv (advanced (channel_count num) (nat n) scr (e\<lparr>master := requested e\<rparr>))"
    using engine_inv_requested [OF assms(1)] r(4) c by (rule engine_inv_advanced)
  have "engine_inv e'"
    using r(5) adv engine_inv_requested [OF assms(1)] by (simp add: engine_inv_def)
  moreover have "publishedIdle e' = (rg_state (master e') = Idle)"
    using r(5) by (auto simp: playing_def requested_def)
  moreover have "slot e' = (if playing e then snd (source_process (slot e) (nat n)) else slot e)"
    using r(5) by (simp add: advanced_def)
  ultimately show ?thesis
    using r(1-3) idle_silent [OF assms(1)] by (auto simp: heard_def)
qed

theorem render_pointwise_witness:
  "\<exists>outs' e'. OutputEngine_render OutputEngine_new (Some [None, Some [1, 2, 3]]) 2 2 = Some (Some outs', e') \<and>
     outs' ! 1 = Some [0, 0, 3]"
proof -
  have "writable (channel_count 2) (nat 2) [None, Some [1, 2, 3]]"
    by (auto simp: writable_def channel_count_def kMaxChannels_def less_Suc_eq numeral_2_eq_2)
  from render_pointwise [OF engine_inv_new this]
  obtain outs' e' where "OutputEngine_render OutputEngine_new (Some [None, Some [1, 2, 3]]) 2 2 = Some (Some outs', e')"
    "outs' ! 1 = map_option (\<lambda>d. heard OutputEngine_new 1 2 @ drop 2 d) (Some [1, 2, 3])"
    by (auto simp: channel_count_def kMaxChannels_def heard_def)
  moreover have "heard OutputEngine_new 1 2 = [0, 0]"
    using idle_silent [OF engine_inv_new, of 1 2]
    by (simp add: playing_def wantsPlaying_def OutputEngine_new_def RampedGain_new_def numeral_2_eq_2)
  ultimately show ?thesis by auto
qed

text \<open>Successive callbacks, each with its own buffers, channel count and length.\<close>

fun render_all :: "OutputEngine \<Rightarrow> (real list option list \<times> int \<times> int) list \<Rightarrow> OutputEngine option" where
  "render_all e [] = Some e"
| "render_all e ((outs, num, n) # blocks) =
     do { (_, e') \<leftarrow> OutputEngine_render e (Some outs) num n; render_all e' blocks }"

text \<open>How far a falling master gain has still to go.\<close>

definition fall_left :: "OutputEngine \<Rightarrow> int" where
  "fall_left e = rg_pos (master e)"

lemma disarmed_block:
  assumes "engine_inv e" "\<not> armed e" "writable (channel_count num) (nat n) outs"
  shows "\<exists>outs' e'. OutputEngine_render e (Some outs) num n = Some (Some outs', e') \<and> engine_inv e' \<and> \<not> armed e' \<and>
    fall_left e' = max 0 (fall_left e - int (nat n)) \<and> publishedIdle e' = (rg_state (master e') = Idle) \<and>
    rg_state (master e') \<in> {Idle, Falling, rg_state (master e)} \<and>
    (0 < n \<longrightarrow> rg_state (master e') \<in> {Idle, Falling})"
proof -
  have c: "channel_count num \<le> nat kMaxChannels" by (simp add: channel_count_def nat_le_iff kMaxChannels_def)
  have off: "requested e = requestOff (master e)" using assms(2) by (simp add: requested_def wantsPlaying_def)
  have ramp: "ramp_inv (requested e)" using assms(1) by (simp add: off engine_inv_def)
  have pos: "0 \<le> rg_pos (master e)" using assms(1) by (simp add: engine_inv_def ramp_inv_def)
  obtain outs' e' scr where r: "OutputEngine_render e (Some outs) num n = Some (Some outs', e')"
    "length scr = kScratchCapacity"
    "e' = (if playing e
          then (advanced (channel_count num) (nat n) scr (e\<lparr>master := requested e\<rparr>))
                 \<lparr>publishedIdle := (rg_state (master (advanced (channel_count num) (nat n) scr (e\<lparr>master := requested e\<rparr>))) = Idle)\<rparr>
          else e\<lparr>master := requested e, publishedIdle := True\<rparr>)"
    using render_spec [OF assms(1,3)] by blast
  have inv: "engine_inv e'"
    using r(3) engine_inv_advanced [OF engine_inv_requested [OF assms(1)] r(2) c] engine_inv_requested [OF assms(1)]
    by (simp add: engine_inv_def)
  have master: "master e' = (if playing e then snd (ramp_run (requested e) (replicate (nat n) None)) else requested e)"
    using r(3) by (simp add: advanced_def apply_run src.fill_length)
  have idle: "rg_state (master e) = Idle" "rg_pos (master e) = 0" if "\<not> playing e"
    using that assms(1) by (auto simp: playing_def engine_inv_def ramp_inv_def)
  have hold: "fall_left e' = max 0 (fall_left e - int (nat n)) \<and>
      (0 < n \<longrightarrow> rg_state (master e') \<in> {Idle, Falling}) \<and> (\<not> 0 < n \<longrightarrow> rg_state (master e') = rg_state (master e))"
    using ramp_run_hold [OF ramp, of "nat n"] pos idle by (auto simp: master fall_left_def off max_def)
  moreover have "\<not> armed e'" "publishedIdle e' = (rg_state (master e') = Idle)"
    using r(3) assms(2) by (auto simp: advanced_def off playing_def)
  ultimately show ?thesis
    using r(1) inv by (metis insert_iff)
qed

lemma disarmed_blocks:
  assumes "engine_inv f" "\<not> armed f" "\<forall>(outs, num, n) \<in> set bs. 0 < n \<and> writable (channel_count num) (nat n) outs"
    and "bs \<noteq> []"
  shows "\<exists>e'. render_all f bs = Some e' \<and> engine_inv e' \<and> \<not> armed e' \<and>
      fall_left e' = max 0 (fall_left f - (\<Sum>(outs, num, n) \<leftarrow> bs. n)) \<and>
      publishedIdle e' = (rg_state (master e') = Idle) \<and> rg_state (master e') \<in> {Idle, Falling}"
  using assms
proof (induction bs arbitrary: f)
  case (Cons b bs)
  obtain outs num n where b: "b = (outs, num, n)" by (cases b)
  obtain outs' f' where f': "OutputEngine_render f (Some outs) num n = Some (Some outs', f')" "engine_inv f'" "\<not> armed f'"
    "fall_left f' = max 0 (fall_left f - n)" "publishedIdle f' = (rg_state (master f') = Idle)"
    "rg_state (master f') \<in> {Idle, Falling}"
    using disarmed_block [OF Cons.prems(1,2), of num n outs] Cons.prems(3) by (auto simp: b)
  have nonneg: "0 \<le> (\<Sum>(outs, num, n) \<leftarrow> bs. n)"
    using Cons.prems(3) by (intro sum_list_nonneg) fastforce
  show ?case
  proof (cases "bs = []")
    case True
    then show ?thesis using f' by (simp add: b)
  next
    case False
    then show ?thesis
      using Cons.IH [OF f'(2,3)] Cons.prems(3) f'(1,4) nonneg by (auto simp: b)
  qed
qed simp

lemma disarmed_drains:
  assumes "engine_inv e" "\<not> armed e" "blocks \<noteq> []"
    and "\<forall>(outs, num, n) \<in> set blocks. 0 < n \<and> writable (channel_count num) (nat n) outs"
    and "rg_len (master e) \<le> (\<Sum>(outs, num, n) \<leftarrow> blocks. n)"
  shows "\<exists>e'. render_all e blocks = Some e' \<and> engine_inv e' \<and> \<not> armed e' \<and> sourceIsQuiescent e' \<and> \<not> playing e'"
proof -
  obtain e' where e': "render_all e blocks = Some e'" "engine_inv e'" "\<not> armed e'"
    "fall_left e' = max 0 (fall_left e - (\<Sum>(outs, num, n) \<leftarrow> blocks. n))"
    "publishedIdle e' = (rg_state (master e') = Idle)" "rg_state (master e') \<in> {Idle, Falling}"
    using disarmed_blocks [OF assms(1,2,4,3)] by auto
  have "fall_left e \<le> rg_len (master e)" using assms(1) by (simp add: engine_inv_def ramp_inv_def fall_left_def)
  then have "rg_pos (master e') = 0" using e'(4) assms(5) by (simp add: fall_left_def)
  then have "rg_state (master e') = Idle" using e'(2,6) by (auto simp: engine_inv_def ramp_inv_def)
  then show ?thesis
    using e'(1-3,5) by (simp add: sourceIsQuiescent_def playing_def wantsPlaying_def)
qed

text \<open>
  Property C35: a disarmed engine becomes quiescent.  Once the source is disarmed, callbacks of any
  sizes that together deliver at least the length of the master ramp leave the engine quiescent, so the next
  \<^verbatim>\<open>setSource\<close> is accepted; and a quiescent engine is silent on every output.
\<close>

theorem disarm_becomes_quiescent:
  assumes "engine_inv e" "blocks \<noteq> []"
    and "\<forall>(outs, num, n) \<in> set blocks. 0 < n \<and> writable (channel_count num) (nat n) outs"
    and "rg_len (master e) \<le> (\<Sum>(outs, num, n) \<leftarrow> blocks. n)"
  shows "\<exists>e'. render_all (disarmSource e) blocks = Some e' \<and> sourceIsQuiescent e' \<and> fst (setSource e' source) \<and>
    (\<forall>ch k. heard e' ch k = replicate k 0)"
proof -
  have "engine_inv (disarmSource e)" "\<not> armed (disarmSource e)" "rg_len (master (disarmSource e)) = rg_len (master e)"
    using assms(1) by (simp_all add: engine_inv_def disarmSource_def)
  then show ?thesis
    using disarmed_drains [of "disarmSource e" blocks] assms(2-4) idle_silent by (auto simp: setSource_def)
qed

theorem disarm_becomes_quiescent_witness:
  "\<exists>e'. render_all (disarmSource OutputEngine_new) [([], 0, 300), ([Some (replicate 400 1)], 1, 400)] = Some e' \<and>
     sourceIsQuiescent e' \<and> fst (setSource e' NoSource) \<and> (\<forall>ch k. heard e' ch k = replicate k 0)"
  by (rule disarm_becomes_quiescent [OF engine_inv_new])
    (auto simp: writable_def channel_count_def kMaxChannels_def OutputEngine_new_def RampedGain_new_def
      kPlaceholderSampleRate_def ramp_length_def lround_def)

text \<open>
  A source built for another device configuration is never heard.  After the device is prepared
  again, arming the engine without setting a new source leaves every output silent and the old source where
  it was, for every block; setting a source for the current configuration is accepted and ends that.
\<close>

theorem stale_source_silent:
  assumes "engine_inv e" "slotEpoch e = outputEpoch e"
  shows "\<not> wantsPlaying (armSource (OutputEngine_prepare e rate num)) \<and>
    \<not> playing (armSource (OutputEngine_prepare e rate num)) \<and>
    heard (armSource (OutputEngine_prepare e rate num)) ch n = replicate n 0 \<and>
    fst (setSource (OutputEngine_prepare e rate num) source) \<and>
    wantsPlaying (armSource (snd (setSource (OutputEngine_prepare e rate num) source)))"
proof -
  let ?p = "armSource (OutputEngine_prepare e rate num)"
  have "engine_inv ?p"
    using assms(1) by (auto simp: engine_inv_def OutputEngine_prepare_def armSource_def ramp_inv_prepare list_all_iff)
  moreover have "\<not> wantsPlaying ?p"
    using assms(2) by (simp add: wantsPlaying_def armSource_def OutputEngine_prepare_def)
  moreover from this have "\<not> playing ?p"
    by (simp add: playing_def armSource_def OutputEngine_prepare_def RampedGain_prepare_def)
  ultimately show ?thesis
    using idle_silent [of ?p]
    by (simp add: setSource_def sourceIsQuiescent_def OutputEngine_prepare_def wantsPlaying_def armSource_def)
qed

theorem stale_source_silent_witness:
  "heard (armSource (OutputEngine_prepare OutputEngine_new 96000 2)) 0 5 = replicate 5 0"
  using stale_source_silent [OF engine_inv_new, of 96000 2 0 5] by (simp add: OutputEngine_new_def)

text \<open>
  the policies route exactly what they say, on any engine state: after \<^verbatim>\<open>muteAll\<close> no output, after
  \<^verbatim>\<open>soloOutput\<close> only the named one, after \<^verbatim>\<open>routeOutputSet\<close> the listed ones that exist; a strict-solo
  toggle on solos, every other toggle changes only its own channel; an index outside the table changes nothing.
  Role and gate target agree throughout.
\<close>

theorem policies_route_exactly:
  assumes "engine_inv e" "gates_follow e" "in_table k"
  shows "(output_role (routing (muteAll e)) k = NotRouted \<and> \<not> rg_target (outputGates (muteAll e) ! nat k)) \<and>
    (output_role (routing (soloOutput e ch)) k = Routed \<longleftrightarrow> k = ch) \<and>
    (rg_target (outputGates (soloOutput e ch) ! nat k) \<longleftrightarrow> k = ch) \<and>
    (output_role (routing (routeOutputSet e chs)) k = Routed \<longleftrightarrow> k \<in> set chs) \<and>
    (rg_target (outputGates (routeOutputSet e chs) ! nat k) \<longleftrightarrow> k \<in> set chs) \<and>
    output_role (routing (applyToggle e ch on mode)) k =
      (if k = ch then (if on then Routed else NotRouted)
       else if mode = StrictSolo \<and> on then NotRouted else output_role (routing e) k) \<and>
    gates_follow (muteAll e) \<and> gates_follow (soloOutput e ch) \<and> gates_follow (routeOutputSet e chs) \<and>
    gates_follow (applyToggle e ch on mode)"
proof -
  note over = over_outputs_spec [OF assms(1)]
  have follow: "gates_follow (over_outputs f e)" for f
    using over [of f] by (auto simp: gates_follow_def)
  have toggle: "output_role (routing (snd (routeOutput e ch on))) k =
      (if k = ch then (if on then Routed else NotRouted) else output_role (routing e) k)"
    using routeOutput_spec [OF assms(1) _ assms(3), of ch on] routeOutput_refused [of ch e on] assms(3)
    by (cases "in_table ch") auto
  show ?thesis
    using over [of "\<lambda>ch. False" k] over [of "\<lambda>c. c = ch" k] over [of "\<lambda>c. c \<in> set chs" k] assms(3) follow toggle
      gates_follow_route [OF assms(1,2), of ch on]
    by (cases "k = ch"; cases on) (simp_all add: muteAll_def soloOutput_def routeOutputSet_def applyToggle_def)
qed

theorem policies_route_exactly_witness:
  "output_role (routing (soloOutput OutputEngine_new 3)) 3 = Routed \<and>
   output_role (routing (soloOutput OutputEngine_new 3)) 5 \<noteq> Routed"
  using policies_route_exactly [OF engine_inv_new gates_follow_new, of 3 3]
    policies_route_exactly [OF engine_inv_new gates_follow_new, of 5 3]
  by (simp add: in_table_def kMaxChannels_def)

end
