(* ===== verification/Output_Swap.thy ===== *)
theory Output_Swap
  imports Output_Engine
begin

text \<open>
  The swap protocol of \<^verbatim>\<open>OutputEngine\<close> between the message thread (\<^verbatim>\<open>armSource\<close>, \<^verbatim>\<open>disarmSource\<close>,
  \<^verbatim>\<open>setSource\<close>) and the audio callback (\<^verbatim>\<open>render\<close>), at the granularity of the atomic accesses to \<^verbatim>\<open>armed_\<close>
  and \<^verbatim>\<open>publishedIdle_\<close> and of the two sections that touch the slot: the move assignment in \<^verbatim>\<open>setSource\<close> and
  the rendering loop.  Memory accesses are sequentially consistent, which only removes behaviours.  The master
  gain is reduced to whether it is idle; a block that plays may leave it idle or not (a block of no samples
  leaves it idle).
\<close>

section \<open>States and steps\<close>

text \<open>The callback: outside, between the loads and the decision, inside the rendering loop.\<close>

datatype audio_at = AudioOut | AudioLoaded bool | AudioRendering bool

text \<open>The message thread: outside \<^verbatim>\<open>setSource\<close>, having seen \<^verbatim>\<open>publishedIdle_\<close>, or assigning the slot.\<close>

datatype message_at = MsgOut | MsgSawIdle | MsgAssigning

record swap =
  sw_armed :: bool
  sw_published :: bool
  sw_masterIdle :: bool
  audio :: audio_at
  message :: message_at

definition swap_start :: swap where
  "swap_start = \<lparr>sw_armed = False, sw_published = True, sw_masterIdle = True, audio = AudioOut, message = MsgOut\<rparr>"

text \<open>
  \<open>patient\<close> is a discipline of the caller that the code does not impose: the source is only disarmed after the
  callback has published that it is playing.
\<close>

inductive swap_step :: "bool \<Rightarrow> swap \<Rightarrow> swap \<Rightarrow> bool" for patient where
  arm: "message s = MsgOut \<Longrightarrow> swap_step patient s (s\<lparr>sw_armed := True\<rparr>)"
| disarm: "message s = MsgOut \<Longrightarrow> patient \<longrightarrow> \<not> sw_armed s \<or> \<not> sw_published s \<Longrightarrow>
    swap_step patient s (s\<lparr>sw_armed := False\<rparr>)"
| check_idle: "message s = MsgOut \<Longrightarrow>
    swap_step patient s (s\<lparr>message := (if sw_published s then MsgSawIdle else MsgOut)\<rparr>)"
| check_armed: "message s = MsgSawIdle \<Longrightarrow>
    swap_step patient s (s\<lparr>message := (if sw_armed s then MsgOut else MsgAssigning)\<rparr>)"
| assigned: "message s = MsgAssigning \<Longrightarrow> swap_step patient s (s\<lparr>message := MsgOut\<rparr>)"
| load: "audio s = AudioOut \<Longrightarrow> swap_step patient s (s\<lparr>audio := AudioLoaded (sw_armed s \<and> epochOk)\<rparr>)"
| play: "audio s = AudioLoaded wants \<Longrightarrow> wants \<or> \<not> sw_masterIdle s \<Longrightarrow>
    swap_step patient s (s\<lparr>audio := AudioRendering wants\<rparr>)"
| clear: "audio s = AudioLoaded wants \<Longrightarrow> \<not> (wants \<or> \<not> sw_masterIdle s) \<Longrightarrow>
    swap_step patient s (s\<lparr>audio := AudioOut, sw_published := True\<rparr>)"
| publish: "audio s = AudioRendering wants \<Longrightarrow>
    swap_step patient s (s\<lparr>audio := AudioOut, sw_masterIdle := idle, sw_published := idle\<rparr>)"

inductive swap_reach :: "bool \<Rightarrow> swap \<Rightarrow> bool" for patient where
  start: "swap_reach patient swap_start"
| step: "swap_reach patient s \<Longrightarrow> swap_step patient s s' \<Longrightarrow> swap_reach patient s'"

text \<open>Both threads touch the slot.\<close>

definition slot_race :: "swap \<Rightarrow> bool" where
  "slot_race s \<longleftrightarrow> message s = MsgAssigning \<and> (\<exists>wants. audio s = AudioRendering wants)"

section \<open>Exclusion under the discipline\<close>

definition swap_inv :: "swap \<Rightarrow> bool" where
  "swap_inv s \<longleftrightarrow>
     (audio s = AudioOut \<longrightarrow> sw_published s = sw_masterIdle s) \<and>
     (\<forall>wants. audio s = AudioLoaded wants \<longrightarrow> sw_published s = sw_masterIdle s \<and>
        (wants \<longrightarrow> sw_armed s \<or> \<not> sw_published s)) \<and>
     (\<forall>wants. audio s = AudioRendering wants \<longrightarrow> \<not> sw_published s \<or> sw_armed s) \<and>
     (message s = MsgAssigning \<longrightarrow> sw_published s \<and> \<not> sw_armed s) \<and>
     (message s = MsgSawIdle \<longrightarrow> sw_published s \<or> sw_armed s)"

inductive_cases swap_step_cases: "swap_step patient s s'"

lemma swap_inv_step:
  assumes "swap_step True s s'" "swap_inv s"
  shows "swap_inv s'"
  using assms(1)
proof (rule swap_step_cases)
  fix wants
  assume "s' = s\<lparr>audio := AudioRendering wants\<rparr>" "audio s = AudioLoaded wants" "wants \<or> \<not> sw_masterIdle s"
  then show ?thesis using assms(2) by (cases wants) (auto simp: swap_inv_def)
qed (use assms(2) in \<open>auto simp: swap_inv_def split: if_splits\<close>)

lemma swap_reach_inv: "swap_reach True s \<Longrightarrow> swap_inv s"
proof (induction rule: swap_reach.induct)
  case start
  show ?case by (simp add: swap_inv_def swap_start_def)
qed (rule swap_inv_step)

section \<open>Properties\<close>

text \<open>
  Property C36: with a caller that disarms only after the callback has published that it is playing, in no
  interleaving does \<^verbatim>\<open>setSource\<close> assign the slot while the callback renders from it.
\<close>

theorem swap_exclusive:
  assumes "swap_reach True s"
  shows "\<not> slot_race s"
  using swap_reach_inv [OF assms] by (auto simp: swap_inv_def slot_race_def)

lemma swap_plays:
  "swap_reach True \<lparr>sw_armed = True, sw_published = True, sw_masterIdle = True, audio = AudioRendering True, message = MsgOut\<rparr>"
proof -
  let ?armed = "swap_start\<lparr>sw_armed := True\<rparr>"
  have 1: "swap_reach True ?armed"
    using swap_reach.step [OF swap_reach.start swap_step.arm [of swap_start]] by (simp add: swap_start_def)
  have 2: "swap_reach True (?armed\<lparr>audio := AudioLoaded True\<rparr>)"
    using swap_reach.step [OF 1 swap_step.load [of ?armed True True]] by (simp add: swap_start_def)
  have 3: "swap_reach True (?armed\<lparr>audio := AudioRendering True\<rparr>)"
    using swap_reach.step [OF 2 swap_step.play [of "?armed\<lparr>audio := AudioLoaded True\<rparr>" True True]] by simp
  then show ?thesis by (simp add: swap_start_def)
qed

theorem swap_exclusive_witness:
  "\<not> slot_race \<lparr>sw_armed = True, sw_published = True, sw_masterIdle = True, audio = AudioRendering True, message = MsgOut\<rparr>"
  by (rule swap_exclusive [OF swap_plays])

text \<open>
  The code alone does not exclude it.  \<^verbatim>\<open>armSource\<close> leaves \<^verbatim>\<open>publishedIdle_\<close> true until the end of
  the first rendered block, so an arm followed by a disarm within that block makes the engine look quiescent
  while the callback is rendering, and \<^verbatim>\<open>setSource\<close> then assigns the slot under the callback.
\<close>

theorem swap_race_reachable: "\<exists>s. swap_reach False s \<and> slot_race s"
proof -
  let ?a = "swap_start\<lparr>sw_armed := True\<rparr>"
  let ?b = "?a\<lparr>audio := AudioRendering True\<rparr>"
  let ?c = "?b\<lparr>sw_armed := False\<rparr>"
  have "swap_reach False ?a"
    using swap_reach.step [OF swap_reach.start swap_step.arm [of swap_start]] by (simp add: swap_start_def)
  then have "swap_reach False (?a\<lparr>audio := AudioLoaded True\<rparr>)"
    using swap_reach.step [OF _ swap_step.load [of ?a False True]] by (simp add: swap_start_def)
  then have "swap_reach False ?b"
    using swap_reach.step [OF _ swap_step.play [of "?a\<lparr>audio := AudioLoaded True\<rparr>" True False]] by simp
  then have "swap_reach False ?c"
    using swap_reach.step [OF _ swap_step.disarm [of ?b False]] by (simp add: swap_start_def)
  then have "swap_reach False (?c\<lparr>message := MsgSawIdle\<rparr>)"
    using swap_reach.step [OF _ swap_step.check_idle [of ?c False]] by (simp add: swap_start_def)
  then have "swap_reach False (?c\<lparr>message := MsgAssigning\<rparr>)"
    using swap_reach.step [OF _ swap_step.check_armed [of "?c\<lparr>message := MsgSawIdle\<rparr>" False]] by simp
  moreover have "slot_race (?c\<lparr>message := MsgAssigning\<rparr>)" by (auto simp: slot_race_def)
  ultimately show ?thesis by blast
qed

end
