(* ===== verification/Level_Meters.thy ===== *)
theory Level_Meters
  imports Ramped_Gain
begin

text \<open>
  The time-weighted detector (\<^verbatim>\<open>core/src/meter/Detector.cpp\<close>), the percentile convention and the integrating
  meter (\<^verbatim>\<open>core/src/meter/Leq.cpp\<close>), the dose accumulator (\<^verbatim>\<open>core/src/meter/Dose.cpp\<close>) and the exposure level.
  Samples and levels are real numbers; counts are naturals.
\<close>

section \<open>Detector\<close>

datatype TimeWeighting = Fast | Slow | Impulse

datatype meter_error = SampleRateInvalid | EmptyLevels | PercentOutOfRange | BasesDiffer

definition kLevelFloorDb :: real where "kLevelFloorDb = - 200"

definition riseSeconds :: "TimeWeighting \<Rightarrow> real" where
  "riseSeconds w = (case w of Fast \<Rightarrow> 0.125 | Slow \<Rightarrow> 1 | Impulse \<Rightarrow> 0.035)"

definition decaySeconds :: "TimeWeighting \<Rightarrow> real" where
  "decaySeconds w = (case w of Fast \<Rightarrow> 0.125 | Slow \<Rightarrow> 1 | Impulse \<Rightarrow> 1.5)"

definition computeAlpha :: "real \<Rightarrow> real \<Rightarrow> real" where
  "computeAlpha rate tau = 1 - exp (- 1 / (rate * tau))"

definition weighting_toString :: "TimeWeighting \<Rightarrow> string" where
  "weighting_toString w = (case w of Fast \<Rightarrow> ''Fast'' | Slow \<Rightarrow> ''Slow'' | Impulse \<Rightarrow> ''Impulse'')"

record Detector =
  det_weighting :: TimeWeighting
  det_sampleRate :: real
  alphaRise :: real
  alphaDecay :: real
  meanSquare :: real

definition Detector_new :: "TimeWeighting \<Rightarrow> real \<Rightarrow> meter_error + Detector" where
  "Detector_new w rate =
     (if rate \<le> 0 then Inl SampleRateInvalid
      else Inr \<lparr>det_weighting = w, det_sampleRate = rate, alphaRise = computeAlpha rate (riseSeconds w),
                alphaDecay = computeAlpha rate (decaySeconds w), meanSquare = 0\<rparr>)"

definition Detector_reset :: "Detector \<Rightarrow> real \<Rightarrow> Detector" where
  "Detector_reset d initial = d\<lparr>meanSquare := initial\<rparr>"

definition processSample :: "Detector \<Rightarrow> real \<Rightarrow> real \<times> Detector" where
  "processSample d x =
     (let squared = x * x; alpha = (if squared > meanSquare d then alphaRise d else alphaDecay d);
          m = meanSquare d + alpha * (squared - meanSquare d)
      in (m, d\<lparr>meanSquare := m\<rparr>))"

fun Detector_process :: "Detector \<Rightarrow> real list \<Rightarrow> real \<times> Detector" where
  "Detector_process d [] = (meanSquare d, d)"
| "Detector_process d (x # xs) = Detector_process (snd (processSample d x)) xs"

text \<open>The overload that writes the trace into a second span, as far as both reach.\<close>

fun Detector_trace :: "Detector \<Rightarrow> real list \<Rightarrow> real list \<Rightarrow> real list \<times> Detector" where
  "Detector_trace d (x # xs) (out # outs) =
     (let (m, d1) = processSample d x; (ms, d2) = Detector_trace d1 xs outs in (m # ms, d2))"
| "Detector_trace d _ outs = (outs, d)"

definition Detector_levelDb :: "Detector \<Rightarrow> real \<Rightarrow> real" where
  "Detector_levelDb d referenceOffsetDb =
     (if meanSquare d \<le> 0 then kLevelFloorDb + referenceOffsetDb
      else (let db = 10 * log 10 (meanSquare d)
            in if db < kLevelFloorDb then kLevelFloorDb + referenceOffsetDb else db + referenceOffsetDb))"

section \<open>Percentiles and the integrating meter\<close>

definition percentileLevelDb :: "real list \<Rightarrow> real \<Rightarrow> meter_error + real" where
  "percentileLevelDb levels n =
     (if levels = [] then Inl EmptyLevels
      else if \<not> n \<ge> 0 \<or> \<not> n \<le> 100 then Inl PercentOutOfRange
      else (let sorted = sort levels; count = length sorted;
                pos = real (count - 1) * (1 - n / 100);
                lo = nat \<lfloor>pos\<rfloor>; frac = pos - real lo; hi = min (lo + 1) (count - 1)
            in Inr (sorted ! lo + frac * (sorted ! hi - sorted ! lo))))"

record Leq =
  leq_sampleRate :: real
  leq_offsetDb :: real
  historyIntervalSamples :: nat
  leq_sumSquares :: real
  leq_maxSquare :: real
  leq_count :: nat
  leq_detector :: Detector
  leq_history :: "real list"

definition Leq_new :: "real \<Rightarrow> real \<Rightarrow> TimeWeighting \<Rightarrow> meter_error + Leq" where
  "Leq_new rate offset w =
     (case Detector_new w rate of
        Inl err \<Rightarrow> Inl err
      | Inr det \<Rightarrow> Inr \<lparr>leq_sampleRate = rate, leq_offsetDb = offset,
          historyIntervalSamples = nat (lround (0.1 * rate)), leq_sumSquares = 0, leq_maxSquare = 0,
          leq_count = 0, leq_detector = det, leq_history = []\<rparr>)"

definition Leq_reset :: "Leq \<Rightarrow> Leq" where
  "Leq_reset l = l\<lparr>leq_sumSquares := 0, leq_maxSquare := 0, leq_count := 0,
                   leq_detector := Detector_reset (leq_detector l) 0, leq_history := []\<rparr>"

text \<open>One turn of the loop; the remainder by a zero interval is undefined, and \<open>None\<close>.\<close>

definition leq_sample :: "Leq \<Rightarrow> real \<Rightarrow> Leq option" where
  "leq_sample l x =
     (let sq = x * x;
          l = l\<lparr>leq_sumSquares := leq_sumSquares l + sq, leq_maxSquare := max (leq_maxSquare l) sq,
                leq_count := leq_count l + 1, leq_detector := snd (processSample (leq_detector l) x)\<rparr>
      in if historyIntervalSamples l = 0 then None
         else if leq_count l mod historyIntervalSamples l = 0
         then Some (l\<lparr>leq_history := leq_history l @ [Detector_levelDb (leq_detector l) (leq_offsetDb l)]\<rparr>)
         else Some l)"

fun Leq_process :: "Leq \<Rightarrow> real list \<Rightarrow> Leq option" where
  "Leq_process l [] = Some l"
| "Leq_process l (x # xs) = do { l' \<leftarrow> leq_sample l x; Leq_process l' xs }"

definition leqDb :: "Leq \<Rightarrow> real" where
  "leqDb l =
     (if leq_count l = 0 then kLevelFloorDb
      else (let meanSq = leq_sumSquares l / real (leq_count l)
            in if meanSq \<le> 0 then kLevelFloorDb + leq_offsetDb l
               else (let db = 10 * log 10 meanSq
                     in if db < kLevelFloorDb then kLevelFloorDb + leq_offsetDb l else db + leq_offsetDb l)))"

definition selDb :: "Leq \<Rightarrow> real" where
  "selDb l = (if leq_count l = 0 then kLevelFloorDb else leqDb l + 10 * log 10 (real (leq_count l) / leq_sampleRate l))"

definition Leq_peakDb :: "Leq \<Rightarrow> real" where
  "Leq_peakDb l =
     (if leq_maxSquare l \<le> 0 then kLevelFloorDb + leq_offsetDb l else 10 * log 10 (leq_maxSquare l) + leq_offsetDb l)"

definition Leq_maxDb :: "Leq \<Rightarrow> real" where
  "Leq_maxDb l = (case leq_history l of [] \<Rightarrow> kLevelFloorDb | h # hs \<Rightarrow> fold max hs h)"

definition Leq_minDb :: "Leq \<Rightarrow> real" where
  "Leq_minDb l = (case leq_history l of [] \<Rightarrow> kLevelFloorDb | h # hs \<Rightarrow> fold min hs h)"

definition Leq_percentileDb :: "Leq \<Rightarrow> real \<Rightarrow> meter_error + real" where
  "Leq_percentileDb l n =
     (if leq_history l = [] then Inl EmptyLevels else percentileLevelDb (sort (leq_history l)) n)"

section \<open>Dose\<close>

record DoseSettings =
  criterionLevelDb :: real
  criterionSeconds :: real
  dose_q :: real
  thresholdDb :: real

definition DoseSettings_default :: DoseSettings where
  "DoseSettings_default = \<lparr>criterionLevelDb = 85, criterionSeconds = 28800, dose_q = 10, thresholdDb = 80\<rparr>"

definition exchangeDenominator :: "real \<Rightarrow> real" where
  "exchangeDenominator exchangeRateDb = exchangeRateDb / log 10 2"

record Dose =
  dose_settings :: DoseSettings
  accumulated :: real
  secondsBelow :: real
  secondsTotal :: real

definition Dose_new :: "DoseSettings \<Rightarrow> Dose" where
  "Dose_new s = \<lparr>dose_settings = s, accumulated = 0, secondsBelow = 0, secondsTotal = 0\<rparr>"

definition Dose_reset :: "Dose \<Rightarrow> Dose" where
  "Dose_reset d = d\<lparr>accumulated := 0, secondsBelow := 0, secondsTotal := 0\<rparr>"

definition addBlock :: "Dose \<Rightarrow> real \<Rightarrow> real \<Rightarrow> Dose" where
  "addBlock d blockLeqDb blockSeconds =
     (if \<not> blockSeconds > 0 then d
      else (let d = d\<lparr>secondsTotal := secondsTotal d + blockSeconds\<rparr>
            in if blockLeqDb < thresholdDb (dose_settings d)
               then d\<lparr>secondsBelow := secondsBelow d + blockSeconds\<rparr>
               else d\<lparr>accumulated := accumulated d +
                        blockSeconds * 10 powr ((blockLeqDb - criterionLevelDb (dose_settings d)) / dose_q (dose_settings d))\<rparr>))"

definition Dose_percent :: "Dose \<Rightarrow> real" where
  "Dose_percent d =
     (if \<not> criterionSeconds (dose_settings d) > 0 then 0 else 100 * accumulated d / criterionSeconds (dose_settings d))"

definition projectedPercent :: "Dose \<Rightarrow> real option" where
  "projectedPercent d =
     (if \<not> secondsTotal d > 0 then None else Some (Dose_percent d * (criterionSeconds (dose_settings d) / secondsTotal d)))"

definition twaDb :: "Dose \<Rightarrow> real option" where
  "twaDb d =
     (let p = Dose_percent d
      in if \<not> p > 0 then None else Some (dose_q (dose_settings d) * log 10 (p / 100) + criterionLevelDb (dose_settings d)))"

definition exposureLevelDb :: "real \<Rightarrow> real \<Rightarrow> real option" where
  "exposureLevelDb leq seconds = (if \<not> seconds > 0 then None else Some (leq + 10 * log 10 (seconds / (8 * 3600))))"

section \<open>The detector follows an exponential\<close>

lemma tau_pos: "0 < riseSeconds w" "0 < decaySeconds w"
  by (simp_all add: riseSeconds_def decaySeconds_def split: TimeWeighting.split)

text \<open>The part of a gap that survives one sample.\<close>

definition decay_factor :: "real \<Rightarrow> real \<Rightarrow> real" where
  "decay_factor rate tau = exp (- 1 / (rate * tau))"

lemma decay_factor_pow: "decay_factor rate tau ^ n = exp (- (real n / (rate * tau)))"
  by (simp add: decay_factor_def flip: exp_of_nat_mult)

lemma decay_factor_range: "0 < rate \<Longrightarrow> 0 < tau \<Longrightarrow> 0 < decay_factor rate tau \<and> decay_factor rate tau < 1"
  by (simp add: decay_factor_def)

definition det_ok :: "Detector \<Rightarrow> bool" where
  "det_ok d \<longleftrightarrow> 0 < det_sampleRate d \<and> 0 \<le> meanSquare d \<and>
     alphaRise d = computeAlpha (det_sampleRate d) (riseSeconds (det_weighting d)) \<and>
     alphaDecay d = computeAlpha (det_sampleRate d) (decaySeconds (det_weighting d))"

text \<open>The factor that applies while the input power is \<open>p\<close>.\<close>

definition det_factor :: "Detector \<Rightarrow> real \<Rightarrow> real" where
  "det_factor d p =
     decay_factor (det_sampleRate d)
       (if p > meanSquare d then riseSeconds (det_weighting d) else decaySeconds (det_weighting d))"

lemma det_factor_range: "det_ok d \<Longrightarrow> 0 < det_factor d p \<and> det_factor d p < 1"
  using decay_factor_range [of "det_sampleRate d"] tau_pos by (simp add: det_factor_def det_ok_def)

lemma processSample_gap:
  assumes "det_ok d"
  shows "fst (processSample d x) = x * x + (meanSquare d - x * x) * det_factor d (x * x)"
    and "meanSquare (snd (processSample d x)) = fst (processSample d x)"
proof -
  define k where "k = det_factor d (x * x)"
  have "(if x * x > meanSquare d then alphaRise d else alphaDecay d) = 1 - k"
    using assms by (simp add: k_def det_ok_def det_factor_def computeAlpha_def decay_factor_def)
  then have "fst (processSample d x) = meanSquare d + (1 - k) * (x * x - meanSquare d)"
    by (simp only: processSample_def Let_def fst_conv)
  then show "fst (processSample d x) = x * x + (meanSquare d - x * x) * det_factor d (x * x)"
    by (simp add: algebra_simps flip: k_def)
  show "meanSquare (snd (processSample d x)) = fst (processSample d x)"
    by (simp add: processSample_def Let_def)
qed

lemma processSample_between:
  assumes "det_ok d"
  shows "min (meanSquare d) (x * x) \<le> fst (processSample d x) \<and> fst (processSample d x) \<le> max (meanSquare d) (x * x)"
proof -
  define k where "k = det_factor d (x * x)"
  have k: "0 \<le> k" "k \<le> 1" using det_factor_range [OF assms, of "x * x"] by (simp_all add: k_def)
  show ?thesis
  proof (cases "x * x \<le> meanSquare d")
    case True
    then have "0 \<le> (meanSquare d - x * x) * k" "(meanSquare d - x * x) * k \<le> meanSquare d - x * x"
      using k by (simp_all add: mult_left_le)
    then show ?thesis using True by (simp add: processSample_gap [OF assms] flip: k_def)
  next
    case False
    then have "0 \<le> (x * x - meanSquare d) * k" "(x * x - meanSquare d) * k \<le> x * x - meanSquare d"
      using k by (simp_all add: mult_left_le)
    then show ?thesis using False by (simp add: processSample_gap [OF assms] algebra_simps flip: k_def)
  qed
qed

lemma processSample_ok: "det_ok d \<Longrightarrow> det_ok (snd (processSample d x))"
proof -
  assume d: "det_ok d"
  have "0 \<le> meanSquare (snd (processSample d x))"
    using processSample_between [OF d, of x] processSample_gap(2) [OF d, of x] d
    by (auto simp: det_ok_def min_def split: if_splits intro: order_trans [OF zero_le_square])
  then show "det_ok (snd (processSample d x))" using d by (simp add: det_ok_def processSample_def Let_def)
qed

text \<open>For a constant input the detector stays on its side of the input power, so one factor applies throughout.\<close>

lemma Detector_constant:
  assumes "det_ok d"
  shows "fst (Detector_process d (replicate n x)) = x * x + (meanSquare d - x * x) * det_factor d (x * x) ^ n"
  using assms
proof (induction n arbitrary: d)
  case (Suc n)
  let ?d = "snd (processSample d x)"
  define k where "k = det_factor d (x * x)"
  have k: "0 < k" "k < 1" using det_factor_range [OF Suc.prems] by (simp_all add: k_def)
  have gap: "meanSquare ?d - x * x = (meanSquare d - x * x) * k"
    using processSample_gap [OF Suc.prems] by (simp add: k_def)
  have "x * x > meanSquare ?d \<longleftrightarrow> x * x > meanSquare d"
    using gap k(1) by (metis diff_gt_0_iff_gt minus_diff_eq mult_minus_left neg_0_less_iff_less zero_less_mult_pos2 mult_pos_pos)
  then have "det_factor ?d (x * x) = k"
    by (simp add: det_factor_def k_def) (simp add: processSample_def Let_def)
  then show ?case
    using Suc.IH [OF processSample_ok [OF Suc.prems], of x] gap by (simp add: k_def)
qed simp

lemma Detector_process_ok:
  "det_ok d \<Longrightarrow> det_ok (snd (Detector_process d xs)) \<and> fst (Detector_process d xs) = meanSquare (snd (Detector_process d xs))"
  by (induction xs arbitrary: d) (simp_all add: processSample_ok)

lemma Detector_process_bound:
  "det_ok d \<Longrightarrow> meanSquare d \<le> M \<Longrightarrow> \<forall>x \<in> set xs. x * x \<le> M \<Longrightarrow> fst (Detector_process d xs) \<le> M"
proof (induction xs arbitrary: d)
  case (Cons x xs)
  have "meanSquare (snd (processSample d x)) \<le> M"
    using processSample_between [OF Cons.prems(1), of x] processSample_gap(2) [OF Cons.prems(1), of x] Cons.prems(2,3)
    by (auto simp: max_def split: if_splits)
  then show ?case using Cons.IH [OF processSample_ok [OF Cons.prems(1)]] Cons.prems(3) by simp
qed simp

lemma Detector_new_ok: "Detector_new w rate = Inr d \<Longrightarrow> det_ok d \<and> meanSquare d = 0"
  by (auto simp: Detector_new_def det_ok_def split: if_splits)

section \<open>The integrating meter over a stream\<close>

lemma leq_sample_Some:
  assumes "0 < historyIntervalSamples l"
  obtains l' where "leq_sample l x = Some l'" "historyIntervalSamples l' = historyIntervalSamples l"
    "leq_sumSquares l' = leq_sumSquares l + x * x" "leq_maxSquare l' = max (leq_maxSquare l) (x * x)"
    "leq_count l' = Suc (leq_count l)" "leq_detector l' = snd (processSample (leq_detector l) x)"
    "leq_offsetDb l' = leq_offsetDb l" "leq_sampleRate l' = leq_sampleRate l"
    "length (leq_history l') = length (leq_history l) + (if Suc (leq_count l) mod historyIntervalSamples l = 0 then 1 else 0)"
  using assms by (cases "Suc (leq_count l) mod historyIntervalSamples l = 0") (simp_all add: leq_sample_def Let_def)

lemma Leq_process_append: "Leq_process l (xs @ ys) = do { l' \<leftarrow> Leq_process l xs; Leq_process l' ys }"
  by (induction xs arbitrary: l) (simp_all add: Option.bind_assoc)

lemma div_Suc_interval: "0 < k \<Longrightarrow> Suc n div k = n div k + (if Suc n mod k = 0 then 1 else (0 :: nat))"
  by (simp add: div_Suc)

lemma Leq_process_spec:
  assumes "0 < historyIntervalSamples l" "length (leq_history l) = leq_count l div historyIntervalSamples l"
  shows "\<exists>l'. Leq_process l xs = Some l' \<and> historyIntervalSamples l' = historyIntervalSamples l \<and>
    leq_sumSquares l' = leq_sumSquares l + (\<Sum>x \<leftarrow> xs. x * x) \<and>
    leq_maxSquare l' = fold (\<lambda>x m. max m (x * x)) xs (leq_maxSquare l) \<and>
    leq_count l' = leq_count l + length xs \<and> leq_offsetDb l' = leq_offsetDb l \<and> leq_sampleRate l' = leq_sampleRate l \<and>
    leq_detector l' = snd (Detector_process (leq_detector l) xs) \<and>
    length (leq_history l') = leq_count l' div historyIntervalSamples l"
  using assms
proof (induction xs arbitrary: l)
  case (Cons x xs)
  obtain l1 where l1: "leq_sample l x = Some l1" "historyIntervalSamples l1 = historyIntervalSamples l"
    "leq_sumSquares l1 = leq_sumSquares l + x * x" "leq_maxSquare l1 = max (leq_maxSquare l) (x * x)"
    "leq_count l1 = Suc (leq_count l)" "leq_detector l1 = snd (processSample (leq_detector l) x)"
    "leq_offsetDb l1 = leq_offsetDb l" "leq_sampleRate l1 = leq_sampleRate l"
    "length (leq_history l1) = length (leq_history l) + (if Suc (leq_count l) mod historyIntervalSamples l = 0 then 1 else 0)"
    by (rule leq_sample_Some [OF Cons.prems(1), of x])
  have "length (leq_history l1) = leq_count l1 div historyIntervalSamples l1"
    using Cons.prems l1(2,5,9) div_Suc_interval [of "historyIntervalSamples l" "leq_count l"] by simp
  with Cons.IH [of l1] Cons.prems(1) l1 show ?case by auto
qed simp

lemma fold_max_squares:
  "fold (\<lambda>x m. max m (x * x)) xs m = Max (insert m ((\<lambda>x. x * x) ` set xs))" for m :: real
proof (induction xs arbitrary: m)
  case (Cons x xs)
  then show ?case by (cases "xs = []") (simp_all add: insert_commute max.assoc)
qed simp

lemma energy_pos: "\<exists>x \<in> set xs. x \<noteq> 0 \<Longrightarrow> 0 < (\<Sum>x \<leftarrow> xs. x * x)" for xs :: "real list"
proof (induction xs)
  case (Cons x xs)
  have nonneg: "0 \<le> (\<Sum>x \<leftarrow> xs. x * x)" by (intro sum_list_nonneg) auto
  show ?case
  proof (cases "x = 0")
    case False
    then have "0 < x * x" by (metis not_real_square_gt_zero)
    then show ?thesis using nonneg by simp
  qed (use Cons in simp)
qed simp

lemma interval_pos: "5 \<le> rate \<Longrightarrow> 0 < nat (lround (0.1 * rate))"
  by (simp add: lround_def)

lemma Leq_low_rate:
  assumes "Leq_new rate offset w = Inr l" "rate < 5"
  shows "Leq_process l [x] = None"
proof -
  have "0 < rate" using assms(1) by (auto simp: Leq_new_def Detector_new_def split: if_splits)
  then have "lround (0.1 * rate) = 0" using assms(2) by (simp add: lround_def floor_eq_iff)
  then have "historyIntervalSamples l = 0" using assms(1) by (auto simp: Leq_new_def split: sum.splits)
  then show ?thesis by (simp add: leq_sample_def Let_def)
qed

text \<open>A fresh meter after one block.\<close>

lemma Leq_process_new:
  assumes "Leq_new rate offset w = Inr l" "5 \<le> rate"
  shows "\<exists>l'. Leq_process l xs = Some l' \<and> leq_count l' = length xs \<and> leq_sumSquares l' = (\<Sum>x \<leftarrow> xs. x * x) \<and>
    leq_maxSquare l' = Max (insert 0 ((\<lambda>x. x * x) ` set xs)) \<and>
    length (leq_history l') = length xs div nat (lround (0.1 * rate)) \<and>
    ((\<exists>x \<in> set xs. x \<noteq> 0) \<longrightarrow>
       leqDb l' = max kLevelFloorDb (10 * log 10 ((\<Sum>x \<leftarrow> xs. x * x) / real (length xs))) + offset \<and>
       selDb l' = leqDb l' + 10 * log 10 (real (length xs) / rate))"
proof -
  have new: "historyIntervalSamples l = nat (lround (0.1 * rate))" "leq_count l = 0" "leq_history l = []"
    "leq_sumSquares l = 0" "leq_maxSquare l = 0" "leq_offsetDb l = offset" "leq_sampleRate l = rate"
    using assms(1) by (auto simp: Leq_new_def split: sum.splits)
  obtain l' where l': "Leq_process l xs = Some l'" "leq_sumSquares l' = (\<Sum>x \<leftarrow> xs. x * x)"
    "leq_maxSquare l' = fold (\<lambda>x m. max m (x * x)) xs 0" "leq_count l' = length xs"
    "leq_offsetDb l' = offset" "leq_sampleRate l' = rate"
    "length (leq_history l') = leq_count l' div nat (lround (0.1 * rate))"
    using Leq_process_spec [of l xs] interval_pos [OF assms(2)] new by auto
  have "leqDb l' = max kLevelFloorDb (10 * log 10 ((\<Sum>x \<leftarrow> xs. x * x) / real (length xs))) + offset \<and>
      selDb l' = leqDb l' + 10 * log 10 (real (length xs) / rate)"
    if "\<exists>x \<in> set xs. x \<noteq> 0"
    using energy_pos [OF that] that l'(2,4,5,6) by (auto simp: leqDb_def selDb_def Let_def max_def divide_le_0_iff)
  then show ?thesis using l' fold_max_squares [of xs 0] by auto
qed

section \<open>Properties\<close>

text \<open>
  the detector has the response its time constants define.  Seeded with any non-negative mean
  square and fed any number of equal samples, its state is on the exponential from the seed to the input power
  with the rise time constant if the input is above the seed and the decay constant otherwise, for all three
  weightings; and for any input the state never leaves the range of the seed and the input powers.
\<close>

theorem Detector_exponential:
  assumes "Detector_new w rate = Inr d" "0 \<le> m"
  shows "fst (Detector_process (Detector_reset d m) (replicate n x)) =
      x * x + (m - x * x) * exp (- (real n / (rate * (if x * x > m then riseSeconds w else decaySeconds w)))) \<and>
    (\<forall>xs M. m \<le> M \<longrightarrow> (\<forall>y \<in> set xs. y * y \<le> M) \<longrightarrow>
       0 \<le> fst (Detector_process (Detector_reset d m) xs) \<and> fst (Detector_process (Detector_reset d m) xs) \<le> M)"
proof -
  let ?d = "Detector_reset d m"
  have ok: "det_ok ?d" using Detector_new_ok [OF assms(1)] assms(2) by (simp add: det_ok_def Detector_reset_def)
  have fields: "det_weighting ?d = w" "det_sampleRate ?d = rate" "meanSquare ?d = m"
    using assms(1) by (auto simp: Detector_reset_def Detector_new_def split: if_splits)
  have "fst (Detector_process ?d (replicate n x)) = x * x + (m - x * x) * det_factor ?d (x * x) ^ n"
    using Detector_constant [OF ok] by (simp add: fields)
  moreover have "det_factor ?d (x * x) ^ n = exp (- (real n / (rate * (if x * x > m then riseSeconds w else decaySeconds w))))"
    by (simp add: det_factor_def fields decay_factor_pow)
  moreover have "0 \<le> fst (Detector_process ?d xs)" for xs
    using Detector_process_ok [OF ok, of xs] by (simp add: det_ok_def)
  ultimately show ?thesis
    using Detector_process_bound [OF ok] by (simp add: fields)
qed

theorem Detector_exponential_witness:
  "fst (Detector_process (Detector_reset
      \<lparr>det_weighting = Impulse, det_sampleRate = 48000, alphaRise = computeAlpha 48000 (riseSeconds Impulse),
       alphaDecay = computeAlpha 48000 (decaySeconds Impulse), meanSquare = 0\<rparr> 4) (replicate 3 1)) =
     1 + 3 * exp (- (3 / (48000 * decaySeconds Impulse)))"
  using Detector_exponential [of Impulse 48000
      "\<lparr>det_weighting = Impulse, det_sampleRate = 48000, alphaRise = computeAlpha 48000 (riseSeconds Impulse),
        alphaDecay = computeAlpha 48000 (decaySeconds Impulse), meanSquare = 0\<rparr>" 4 3 1]
  by (simp add: Detector_new_def)

text \<open>
  The integrating meter reads the energy of the whole stream however it was delivered.  For a rate
  of at least 5 Hz, any sequence of blocks is accepted; the count, the energy and the sampled peak are those
  of the concatenated stream; the equivalent level of a stream that is not all zeros is the level of its mean
  square, floored; one history entry was taken per whole interval; and the exposure level adds the duration in
  decibels.
\<close>

theorem Leq_stream:
  assumes "Leq_new rate offset w = Inr l" "5 \<le> rate"
  shows "\<exists>l'. foldl (\<lambda>acc blk. Option.bind acc (\<lambda>l. Leq_process l blk)) (Some l) blocks = Some l' \<and>
    leq_count l' = length (concat blocks) \<and> leq_sumSquares l' = (\<Sum>x \<leftarrow> concat blocks. x * x) \<and>
    leq_maxSquare l' = Max (insert 0 ((\<lambda>x. x * x) ` set (concat blocks))) \<and>
    length (leq_history l') = length (concat blocks) div nat (lround (0.1 * rate)) \<and>
    ((\<exists>x \<in> set (concat blocks). x \<noteq> 0) \<longrightarrow>
       leqDb l' = max kLevelFloorDb (10 * log 10 ((\<Sum>x \<leftarrow> concat blocks. x * x) / real (length (concat blocks)))) + offset \<and>
       selDb l' = leqDb l' + 10 * log 10 (real (length (concat blocks)) / rate))"
proof -
  have chunks: "foldl (\<lambda>acc blk. Option.bind acc (\<lambda>l. Leq_process l blk)) (Some l) blocks = Leq_process l (concat blocks)"
    by (induction blocks rule: rev_induct) (simp_all add: Leq_process_append)
  show ?thesis
    unfolding chunks by (rule Leq_process_new [OF assms])
qed

theorem Leq_stream_witness:
  "\<exists>l l'. Leq_new 10 94 Fast = Inr l \<and>
     foldl (\<lambda>acc blk. Option.bind acc (\<lambda>l. Leq_process l blk)) (Some l) [[1, - 2], [], [3]] = Some l' \<and>
     leq_sumSquares l' = 14 \<and> length (leq_history l') = 3"
proof -
  obtain l where l: "Leq_new 10 94 Fast = Inr l" by (simp add: Leq_new_def Detector_new_def)
  from Leq_stream [OF this, of "[[1, - 2], [], [3]]"] show ?thesis
    using l by (auto simp: lround_def)
qed

text \<open>
  the dose is the declared one.  Over any blocks the dose counts exactly the blocks at or above
  the threshold, each by its duration times the exchange formula, and the elapsed and below-threshold times
  add up; and for a positive criterion time, a constant level at or above the threshold held for exactly that
  time has that level as its time-weighted average, and one exchange rate more doubles the dose.
\<close>

theorem Dose_declared:
  assumes "0 < criterionSeconds s" "\<forall>(L, t) \<in> set bs. 0 < t" "thresholdDb s \<le> L" "0 < Q" "dose_q s = exchangeDenominator Q"
  defines "d \<equiv> fold (\<lambda>(L, t) d. addBlock d L t) bs (Dose_new s)"
  shows "Dose_percent d = 100 / criterionSeconds s *
        (\<Sum>(L, t) \<leftarrow> filter (\<lambda>(L, t). thresholdDb s \<le> L) bs. t * 10 powr ((L - criterionLevelDb s) / dose_q s)) \<and>
      secondsTotal d = (\<Sum>(L, t) \<leftarrow> bs. t) \<and>
      secondsBelow d = (\<Sum>(L, t) \<leftarrow> filter (\<lambda>(L, t). \<not> thresholdDb s \<le> L) bs. t) \<and>
      twaDb (addBlock (Dose_new s) L (criterionSeconds s)) = Some L \<and>
      Dose_percent (addBlock (Dose_new s) (L + Q) t) = 2 * Dose_percent (addBlock (Dose_new s) L t)"
proof -
  have fold: "dose_settings (fold (\<lambda>(L, t) d. addBlock d L t) bs e) = dose_settings e \<and>
      accumulated (fold (\<lambda>(L, t) d. addBlock d L t) bs e) = accumulated e +
        (\<Sum>(L, t) \<leftarrow> filter (\<lambda>(L, t). thresholdDb (dose_settings e) \<le> L) bs.
           t * 10 powr ((L - criterionLevelDb (dose_settings e)) / dose_q (dose_settings e))) \<and>
      secondsTotal (fold (\<lambda>(L, t) d. addBlock d L t) bs e) = secondsTotal e + (\<Sum>(L, t) \<leftarrow> bs. t) \<and>
      secondsBelow (fold (\<lambda>(L, t) d. addBlock d L t) bs e) = secondsBelow e +
        (\<Sum>(L, t) \<leftarrow> filter (\<lambda>(L, t). \<not> thresholdDb (dose_settings e) \<le> L) bs. t)" for e
    using assms(2) by (induction bs arbitrary: e) (auto simp: addBlock_def Let_def)
  have q: "0 < dose_q s" using assms(4,5) by (simp add: exchangeDenominator_def)
  have "Q / dose_q s = log 10 2" using assms(4,5) by (simp add: exchangeDenominator_def)
  then have "10 powr (Q / dose_q s) = 2" by simp
  then have double: "10 powr ((L + Q - criterionLevelDb s) / dose_q s) = 2 * 10 powr ((L - criterionLevelDb s) / dose_q s)"
    by (simp add: add_divide_distrib diff_divide_distrib powr_add powr_diff)
  have "Dose_percent (addBlock (Dose_new s) L (criterionSeconds s)) = 100 * 10 powr ((L - criterionLevelDb s) / dose_q s)"
    using assms(1,3) by (simp add: Dose_percent_def addBlock_def Dose_new_def)
  then have "twaDb (addBlock (Dose_new s) L (criterionSeconds s)) = Some L"
    using q assms(1,3) by (simp add: twaDb_def addBlock_def Dose_new_def)
  moreover have "Dose_percent (addBlock (Dose_new s) (L + Q) t) = 2 * Dose_percent (addBlock (Dose_new s) L t)"
    using assms(3,4) double by (simp add: Dose_percent_def addBlock_def Dose_new_def)
  ultimately show ?thesis
    using fold [of "Dose_new s"] assms(1) by (simp add: d_def Dose_percent_def Dose_new_def)
qed

theorem Dose_declared_witness:
  "Dose_percent (fold (\<lambda>(L, t) d. addBlock d L t) [(85, 14400), (70, 60)]
      (Dose_new \<lparr>criterionLevelDb = 85, criterionSeconds = 28800, dose_q = exchangeDenominator 3, thresholdDb = 80\<rparr>)) = 50"
  using Dose_declared [of "\<lparr>criterionLevelDb = 85, criterionSeconds = 28800, dose_q = exchangeDenominator 3, thresholdDb = 80\<rparr>"
      "[(85, 14400), (70, 60)]" 90 3 1]
  by simp

end
