(* ===== verification/Level_Histogram.thy ===== *)
theory Level_Histogram
  imports Level_Meters Doubles Prelude
begin

text \<open>
  The percentile accumulator of \<^verbatim>\<open>core/src/meter/LevelHistogram.cpp\<close>: 2000 saturating 32-bit bins of 0.1 dB and
  two out-of-span counters.  Levels are doubles with their non-finite values.  The theory proves, for fewer
  than \<open>2\<^sup>3\<^sup>2\<close> samples, that the table counts its input exactly, that merging two tables is adding the two
  streams, and that a percentile read from the bins is within half a bin of the exact one.
\<close>

section \<open>State and operations\<close>

datatype LnAbsence = LnNone | BelowSpan | AboveSpan | NoData

definition kBinWidthDb :: real where "kBinWidthDb = 0.1"
definition kBinCount :: nat where "kBinCount = 2000"

record LevelHistogram =
  baseDb :: real
  counts :: "uint32_t list"
  belowSpan :: uint32_t
  aboveSpan :: uint32_t
  hist_total :: uint64_t

definition addSaturating :: "uint32_t \<Rightarrow> uint64_t \<Rightarrow> uint32_t" where
  "addSaturating counter amount =
     (let sum = (ucast counter :: uint64_t) + amount in if sum > 0xFFFFFFFF then 0xFFFFFFFF else ucast sum)"

definition LevelHistogram_new :: "real \<Rightarrow> LevelHistogram" where
  "LevelHistogram_new base =
     \<lparr>baseDb = base, counts = replicate kBinCount 0, belowSpan = 0, aboveSpan = 0, hist_total = 0\<rparr>"

definition LevelHistogram_reset :: "LevelHistogram \<Rightarrow> LevelHistogram" where
  "LevelHistogram_reset h = h\<lparr>counts := map (\<lambda>_. 0) (counts h), belowSpan := 0, aboveSpan := 0, hist_total := 0\<rparr>"

definition LevelHistogram_add :: "LevelHistogram \<Rightarrow> double \<Rightarrow> LevelHistogram" where
  "LevelHistogram_add h level =
     (let h = h\<lparr>hist_total := hist_total h + 1\<rparr>
      in case level of
           Fin x \<Rightarrow>
             (let pos = \<lfloor>(x - baseDb h) / kBinWidthDb\<rfloor>
              in if pos < 0 then h\<lparr>belowSpan := addSaturating (belowSpan h) 1\<rparr>
                 else if pos \<ge> int kBinCount then h\<lparr>aboveSpan := addSaturating (aboveSpan h) 1\<rparr>
                 else h\<lparr>counts := (counts h)[nat pos := addSaturating (counts h ! nat pos) 1]\<rparr>)
         | _ \<Rightarrow> if dlt (Fin 0) level then h\<lparr>aboveSpan := addSaturating (aboveSpan h) 1\<rparr>
                else h\<lparr>belowSpan := addSaturating (belowSpan h) 1\<rparr>)"

definition binCentreDb :: "LevelHistogram \<Rightarrow> nat \<Rightarrow> real" where
  "binCentreDb h bin = baseDb h + (real bin + 0.5) * kBinWidthDb"

definition topDb :: "LevelHistogram \<Rightarrow> real" where
  "topDb h = baseDb h + real kBinCount * kBinWidthDb"

definition hist_count :: "LevelHistogram \<Rightarrow> nat \<Rightarrow> uint32_t" where
  "hist_count h bin = (if bin < kBinCount then counts h ! bin else 0)"

text \<open>Where the k-th smallest sample sits: its bin's centre, or the side it is off.\<close>

datatype Pick = InSpan real | OffSpan LnAbsence

fun pick_bins :: "LevelHistogram \<Rightarrow> nat \<Rightarrow> uint32_t list \<Rightarrow> uint64_t \<Rightarrow> Pick" where
  "pick_bins h bin [] remaining = OffSpan AboveSpan"
| "pick_bins h bin (c # cs) remaining =
     (if remaining < ucast c then InSpan (binCentreDb h bin) else pick_bins h (Suc bin) cs (remaining - ucast c))"

definition pick :: "LevelHistogram \<Rightarrow> uint64_t \<Rightarrow> Pick" where
  "pick h k =
     (if k < ucast (belowSpan h) then OffSpan BelowSpan
      else pick_bins h 0 (counts h) (k - ucast (belowSpan h)))"

definition hist_percentile :: "LevelHistogram \<Rightarrow> real \<Rightarrow> meter_error + real option \<times> LnAbsence" where
  "hist_percentile h n =
     (if \<not> n \<ge> 0 \<or> \<not> n \<le> 100 then Inl PercentOutOfRange
      else if hist_total h = 0 then Inr (None, NoData)
      else (let pos = real (unat (hist_total h - 1)) * (1 - n / 100);
                lo = (word_of_int \<lfloor>pos\<rfloor> :: uint64_t);
                frac = pos - real (unat lo);
                hi = min (lo + 1) (hist_total h - 1)
            in case pick h lo of
                 OffSpan side \<Rightarrow> Inr (None, side)
               | InSpan a \<Rightarrow>
                   if frac = 0 then Inr (Some a, LnNone)
                   else (case pick h hi of
                           OffSpan side \<Rightarrow> Inr (None, side)
                         | InSpan b \<Rightarrow> Inr (Some (a + frac * (b - a)), LnNone))))"

definition hist_percentileDb :: "LevelHistogram \<Rightarrow> real \<Rightarrow> meter_error + real option" where
  "hist_percentileDb h n = (case hist_percentile h n of Inl err \<Rightarrow> Inl err | Inr (db, _) \<Rightarrow> Inr db)"

definition LevelHistogram_merge :: "LevelHistogram \<Rightarrow> LevelHistogram \<Rightarrow> meter_error + LevelHistogram" where
  "LevelHistogram_merge h other =
     (if \<not> baseDb h = baseDb other then Inl BasesDiffer
      else Inr (h\<lparr>counts := map2 (\<lambda>c o1. addSaturating c (ucast o1)) (counts h) (counts other),
                  belowSpan := addSaturating (belowSpan h) (ucast (belowSpan other)),
                  aboveSpan := addSaturating (aboveSpan h) (ucast (aboveSpan other)),
                  hist_total := hist_total h + hist_total other\<rparr>))"

section \<open>Counting\<close>

text \<open>The bin of a level: below, a bin, or above.\<close>

datatype place = Under | Bin nat | Over

definition place_of :: "real \<Rightarrow> double \<Rightarrow> place" where
  "place_of base level =
     (case level of
        Fin x \<Rightarrow> (let pos = \<lfloor>(x - base) / kBinWidthDb\<rfloor>
                  in if pos < 0 then Under else if pos \<ge> int kBinCount then Over else Bin (nat pos))
      | PosInf \<Rightarrow> Over
      | _ \<Rightarrow> Under)"

lemma place_of_Bin: "place_of base level = Bin b \<Longrightarrow> b < kBinCount"
  by (auto simp: place_of_def Let_def nat_less_iff split: double.splits if_splits)

definition tally :: "real \<Rightarrow> double list \<Rightarrow> place \<Rightarrow> nat" where
  "tally base xs p = length (filter (\<lambda>x. place_of base x = p) xs)"

definition counts_exactly :: "LevelHistogram \<Rightarrow> real \<Rightarrow> double list \<Rightarrow> bool" where
  "counts_exactly h base xs \<longleftrightarrow> baseDb h = base \<and> length (counts h) = kBinCount \<and>
     unat (belowSpan h) = tally base xs Under \<and> unat (aboveSpan h) = tally base xs Over \<and>
     (\<forall>b < kBinCount. unat (counts h ! b) = tally base xs (Bin b)) \<and> unat (hist_total h) = length xs"

lemma unat_ucast_up [simp]: "unat (ucast c :: uint64_t) = unat (c :: uint32_t)"
proof -
  have "unat c < 2 ^ 64" using unsigned_less [where ?'b = 32 and ?'a = nat, of c] by simp
  then show ?thesis by (simp add: unsigned_ucast_eq take_bit_nat_eq_self)
qed

lemma addSaturating_nat:
  assumes "unat c + unat n < 2 ^ 32"
  shows "unat (addSaturating c n) = unat c + unat n"
proof -
  have sum: "unat ((ucast c :: uint64_t) + n) = unat c + unat n"
    using assms by (simp add: unat_word_ariths)
  then have "\<not> (ucast c :: uint64_t) + n > 0xFFFFFFFF"
    using assms by (simp add: word_less_nat_alt)
  then show ?thesis
    using assms sum by (simp add: addSaturating_def Let_def unsigned_ucast_eq take_bit_nat_eq_self)
qed

lemma tally_le: "tally base xs p \<le> length xs"
  by (simp add: tally_def)

lemma tally_append: "tally base (xs @ ys) p = tally base xs p + tally base ys p"
  by (simp add: tally_def)

lemma counts_exactly_new: "counts_exactly (LevelHistogram_new base) base []"
  by (simp add: counts_exactly_def LevelHistogram_new_def tally_def)

lemma add_by_place:
  "LevelHistogram_add h x =
     (let h = h\<lparr>hist_total := hist_total h + 1\<rparr>
      in case place_of (baseDb h) x of
           Under \<Rightarrow> h\<lparr>belowSpan := addSaturating (belowSpan h) 1\<rparr>
         | Over \<Rightarrow> h\<lparr>aboveSpan := addSaturating (aboveSpan h) 1\<rparr>
         | Bin b \<Rightarrow> h\<lparr>counts := (counts h)[b := addSaturating (counts h ! b) 1]\<rparr>)"
  by (cases x) (simp_all add: LevelHistogram_add_def place_of_def Let_def)

lemma counts_exactly_add:
  assumes "counts_exactly h base xs" "Suc (length xs) < 2 ^ 32"
  shows "counts_exactly (LevelHistogram_add h x) base (xs @ [x])"
proof -
  have base: "baseDb h = base" using assms(1) by (simp add: counts_exactly_def)
  have total: "unat (hist_total h + 1) = Suc (length xs)"
    using assms by (simp add: counts_exactly_def unat_word_ariths)
  have sat: "unat (addSaturating c 1) = Suc (tally base xs p)" if "unat c = tally base xs p" for c p
    using that assms(2) tally_le [of base xs p] by (subst addSaturating_nat) simp_all
  show ?thesis
  proof (cases "place_of base x")
    case (Bin b)
    then have b: "b < kBinCount" by (rule place_of_Bin)
    then show ?thesis
      using assms(1) total sat [of "counts h ! b" "Bin b"]
      by (auto simp: add_by_place base Bin counts_exactly_def tally_append tally_def [of _ "[x]"] Let_def nth_list_update)
  qed (use assms(1) total sat [of "belowSpan h" Under] sat [of "aboveSpan h" Over] in
      \<open>auto simp: add_by_place base counts_exactly_def tally_append tally_def [of _ "[x]"] Let_def\<close>)
qed

lemma counts_exactly_fold:
  "length xs < 2 ^ 32 \<Longrightarrow> counts_exactly (fold (\<lambda>x h. LevelHistogram_add h x) xs (LevelHistogram_new base)) base xs"
  by (induction xs rule: rev_induct) (simp_all add: counts_exactly_new counts_exactly_add)

lemma counts_exactly_unique:
  assumes "counts_exactly g base xs" "counts_exactly h base xs"
  shows "g = h"
proof -
  have "counts g = counts h"
    using assms by (intro nth_equalityI) (auto simp: counts_exactly_def word_unat_eq_iff)
  then show ?thesis
    using assms by (intro LevelHistogram.equality) (auto simp: counts_exactly_def word_unat_eq_iff)
qed

lemma counts_exactly_merge:
  assumes "counts_exactly g base xs" "counts_exactly h base ys" "length xs + length ys < 2 ^ 32"
  shows "\<exists>m. LevelHistogram_merge g h = Inr m \<and> counts_exactly m base (xs @ ys)"
proof -
  have sat: "unat (addSaturating c (ucast d)) = tally base xs p + tally base ys p"
    if "unat c = tally base xs p" "unat d = tally base ys p" for c and d :: uint32_t and p
    using that assms(3) tally_le [of base xs p] tally_le [of base ys p] by (subst addSaturating_nat) simp_all
  have "unat (hist_total g + hist_total h) = length xs + length ys"
    using assms by (simp add: counts_exactly_def unat_word_ariths)
  then show ?thesis
    using assms sat by (auto simp: LevelHistogram_merge_def counts_exactly_def tally_append)
qed

section \<open>Order statistics from the bins\<close>

text \<open>The place of a finite level as a number: \<open>-1\<close> below, the bin, \<open>kBinCount\<close> above.\<close>

definition rank :: "real \<Rightarrow> real \<Rightarrow> int" where
  "rank base x = max (- 1) (min (int kBinCount) \<lfloor>(x - base) / kBinWidthDb\<rfloor>)"

lemma rank_mono: "x \<le> y \<Longrightarrow> rank base x \<le> rank base y"
  unfolding rank_def kBinWidthDb_def by (intro max.mono min.mono floor_mono order_refl) simp

lemma rank_place:
  "place_of base (Fin x) = Under \<longleftrightarrow> rank base x = - 1"
  "place_of base (Fin x) = Over \<longleftrightarrow> rank base x = int kBinCount"
  "b < kBinCount \<Longrightarrow> place_of base (Fin x) = Bin b \<longleftrightarrow> rank base x = int b"
proof -
  define p where "p = \<lfloor>(x - base) / kBinWidthDb\<rfloor>"
  have place: "place_of base (Fin x) = (if p < 0 then Under else if p \<ge> int kBinCount then Over else Bin (nat p))"
    by (simp only: place_of_def double.case Let_def p_def)
  have rank: "rank base x = max (- 1) (min (int kBinCount) p)" by (simp only: rank_def p_def)
  show "place_of base (Fin x) = Under \<longleftrightarrow> rank base x = - 1"
    "place_of base (Fin x) = Over \<longleftrightarrow> rank base x = int kBinCount"
    "b < kBinCount \<Longrightarrow> place_of base (Fin x) = Bin b \<longleftrightarrow> rank base x = int b"
    unfolding place rank by (auto simp: max_def min_def)
qed

definition upto_rank :: "real \<Rightarrow> real list \<Rightarrow> int \<Rightarrow> nat" where
  "upto_rank base xs t = length (filter (\<lambda>x. rank base x \<le> t) xs)"

lemma upto_rank_step:
  "upto_rank base xs t = upto_rank base xs (t - 1) + length (filter (\<lambda>x. rank base x = t) xs)"
  by (induction xs) (auto simp: upto_rank_def)

lemma sorted_rank:
  assumes "sorted xs" "k < length xs"
  shows "rank base (xs ! k) \<le> t \<longleftrightarrow> k < upto_rank base xs t"
  using assms
proof (induction xs arbitrary: k)
  case (Cons x xs)
  have tail: "k < upto_rank base (x # xs) t \<longleftrightarrow> False" if "t < rank base x" for k
  proof -
    have "\<forall>y \<in> set xs. \<not> rank base y \<le> t"
      using Cons.prems(1) that rank_mono [of x _ base] by fastforce
    then have "filter (\<lambda>x. rank base x \<le> t) (x # xs) = []" using that by (simp add: filter_empty_conv)
    then show ?thesis by (simp add: upto_rank_def)
  qed
  show ?case
  proof (cases "rank base x \<le> t")
    case True
    then show ?thesis using Cons by (cases k) (simp_all add: upto_rank_def)
  next
    case False
    have "x \<le> (x # xs) ! k" using Cons.prems by (cases k) auto
    then have "\<not> rank base ((x # xs) ! k) \<le> t" using False rank_mono [of x "(x # xs) ! k" base] by linarith
    then show ?thesis using tail [of k] False by simp
  qed
qed simp

lemma upto_rank_sort: "upto_rank base (sort xs) t = upto_rank base xs t"
  by (simp add: upto_rank_def filter_sort)

lemma tally_rank:
  "b < kBinCount \<Longrightarrow> tally base (map Fin xs) (Bin b) = length (filter (\<lambda>x. rank base x = int b) xs)"
  "tally base (map Fin xs) Under = upto_rank base xs (- 1)"
proof -
  have low: "rank base x \<le> - 1 \<longleftrightarrow> rank base x = - 1" for x by (auto simp: rank_def)
  show "b < kBinCount \<Longrightarrow> tally base (map Fin xs) (Bin b) = length (filter (\<lambda>x. rank base x = int b) xs)"
    by (induction xs) (simp_all add: tally_def rank_place)
  show "tally base (map Fin xs) Under = upto_rank base xs (- 1)"
    by (induction xs) (simp_all add: tally_def rank_place upto_rank_def low)
qed

definition pick_of_rank :: "LevelHistogram \<Rightarrow> int \<Rightarrow> Pick" where
  "pick_of_rank h t =
     (if t < 0 then OffSpan BelowSpan else if t < int kBinCount then InSpan (binCentreDb h (nat t)) else OffSpan AboveSpan)"

lemma pick_bins_rank:
  assumes "counts_exactly h base (map Fin xs)" "k < length xs" "bin \<le> kBinCount"
    "upto_rank base xs (int bin - 1) \<le> k" "unat r = k - upto_rank base xs (int bin - 1)"
  shows "pick_bins h bin (drop bin (counts h)) r = pick_of_rank h (rank base (sort xs ! k))"
  using assms(3-5)
proof (induction "kBinCount - bin" arbitrary: bin r)
  case 0
  have "\<not> rank base (sort xs ! k) \<le> int bin - 1"
    using 0 assms(2) sorted_rank [of "sort xs" k base "int bin - 1"] by (simp add: upto_rank_sort)
  moreover have "bin = kBinCount" "drop bin (counts h) = []"
    using 0 assms(1) by (simp_all add: counts_exactly_def)
  ultimately show ?case by (simp add: pick_of_rank_def)
next
  case (Suc m)
  have bin: "bin < kBinCount" using Suc(2) by simp
  then have drop: "drop bin (counts h) = counts h ! bin # drop (Suc bin) (counts h)"
    using assms(1) by (simp add: counts_exactly_def Cons_nth_drop_Suc)
  have c: "unat (counts h ! bin) = length (filter (\<lambda>x. rank base x = int bin) xs)"
    using assms(1) bin tally_rank(1) by (simp add: counts_exactly_def)
  have next_bin: "upto_rank base xs (int bin) = upto_rank base xs (int bin - 1) + unat (counts h ! bin)"
    using upto_rank_step [of base xs "int bin"] c by simp
  have above: "\<not> rank base (sort xs ! k) \<le> int bin - 1"
    using Suc.prems(2) assms(2) sorted_rank [of "sort xs" k base "int bin - 1"] by (simp add: upto_rank_sort)
  have at: "rank base (sort xs ! k) \<le> int bin \<longleftrightarrow> unat r < unat (counts h ! bin)"
    using sorted_rank [of "sort xs" k base "int bin"] assms(2) Suc.prems(2,3) next_bin by (auto simp: upto_rank_sort)
  show ?case
  proof (cases "unat r < unat (counts h ! bin)")
    case True
    then have "rank base (sort xs ! k) = int bin" using at above by linarith
    then show ?thesis using True bin by (simp add: drop pick_of_rank_def word_less_nat_alt)
  next
    case False
    then have "unat (r - ucast (counts h ! bin)) = k - upto_rank base xs (int (Suc bin) - 1)"
      using next_bin Suc.prems(3) by (subst unat_sub) (simp_all add: word_le_nat_alt)
    moreover have "upto_rank base xs (int (Suc bin) - 1) \<le> k"
      using False next_bin Suc.prems(2,3) by simp
    ultimately have "pick_bins h (Suc bin) (drop (Suc bin) (counts h)) (r - ucast (counts h ! bin)) =
        pick_of_rank h (rank base (sort xs ! k))"
      using Suc(1) [of "Suc bin"] Suc(2) bin by simp
    then show ?thesis using False by (simp add: drop word_less_nat_alt)
  qed
qed

lemma pick_rank:
  assumes "counts_exactly h base (map Fin xs)" "unat k < length xs"
  shows "pick h k = pick_of_rank h (rank base (sort xs ! unat k))"
proof -
  have below: "unat (belowSpan h) = upto_rank base xs (- 1)"
    using assms(1) tally_rank(2) by (simp add: counts_exactly_def)
  show ?thesis
  proof (cases "unat k < unat (belowSpan h)")
    case True
    then have "rank base (sort xs ! unat k) \<le> - 1"
      using sorted_rank [of "sort xs" "unat k" base "- 1"] assms(2) below by (simp add: upto_rank_sort)
    then show ?thesis using True by (simp add: pick_def pick_of_rank_def word_less_nat_alt)
  next
    case False
    then have "pick_bins h 0 (drop 0 (counts h)) (k - ucast (belowSpan h)) = pick_of_rank h (rank base (sort xs ! unat k))"
      using assms below by (intro pick_bins_rank) (simp_all add: unat_sub word_le_nat_alt)
    then show ?thesis using False by (simp add: pick_def word_less_nat_alt)
  qed
qed

lemma centre_near:
  assumes "0 \<le> rank base x" "rank base x < int kBinCount" "baseDb h = base"
  shows "\<bar>binCentreDb h (nat (rank base x)) - x\<bar> \<le> kBinWidthDb / 2"
proof -
  have r: "rank base x = \<lfloor>(x - base) / kBinWidthDb\<rfloor>"
    using assms(1,2) unfolding rank_def by linarith
  define p where "p = real_of_int (rank base x)"
  have "p \<le> (x - base) / kBinWidthDb" "(x - base) / kBinWidthDb < p + 1"
    unfolding p_def r by linarith+
  moreover have "binCentreDb h (nat (rank base x)) = base + (p + 0.5) * kBinWidthDb"
    using assms(1,3) by (simp add: binCentreDb_def p_def)
  ultimately have "binCentreDb h (nat (rank base x)) = base + (p + 0.5) * 0.1" "p * 0.1 \<le> x - base" "x - base < (p + 1) * 0.1"
    by (simp_all add: kBinWidthDb_def field_simps)
  then show ?thesis unfolding kBinWidthDb_def by (simp add: field_simps) (simp add: abs_if split: if_splits)
qed

lemma off_span:
  "rank base x < 0 \<longleftrightarrow> x < base" "int kBinCount \<le> rank base x \<longleftrightarrow> base + real kBinCount * kBinWidthDb \<le> x"
  by (auto simp: rank_def kBinWidthDb_def kBinCount_def max_def min_def le_floor_iff floor_less_iff divide_simps)

text \<open>A weighted mean of two values moves by no more than its parts.\<close>

lemma interpolation_near:
  fixes a b u v f w :: real
  assumes "\<bar>a - u\<bar> \<le> w" "\<bar>b - v\<bar> \<le> w" "0 \<le> f" "f \<le> 1"
  shows "\<bar>(a + f * (b - a)) - (u + f * (v - u))\<bar> \<le> w"
proof -
  have "(a + f * (b - a)) - (u + f * (v - u)) = (1 - f) * (a - u) + f * (b - v)" by (simp add: algebra_simps)
  also have "\<bar>\<dots>\<bar> \<le> (1 - f) * \<bar>a - u\<bar> + f * \<bar>b - v\<bar>"
    using assms(3,4) abs_triangle_ineq [of "(1 - f) * (a - u)" "f * (b - v)"] by (simp add: abs_mult)
  also have "\<dots> \<le> (1 - f) * w + f * w" using assms by (intro add_mono mult_left_mono) simp_all
  finally show ?thesis by (simp add: algebra_simps)
qed

section \<open>Properties\<close>

text \<open>
  Merging is counting both streams.  Two histograms with the same base, filled from two streams of
  together fewer than \<open>2\<^sup>3\<^sup>2\<close> levels, non-finite ones included, merge into exactly the histogram of the
  concatenated stream, in either order; different bases are refused.
\<close>

theorem merge_is_concatenation:
  assumes "length xs + length ys < 2 ^ 32"
  defines "H \<equiv> \<lambda>base zs. fold (\<lambda>x h. LevelHistogram_add h x) zs (LevelHistogram_new base)"
  shows "LevelHistogram_merge (H base xs) (H base ys) = Inr (H base (xs @ ys)) \<and>
    LevelHistogram_merge (H base ys) (H base xs) = Inr (H base (xs @ ys)) \<and>
    (base \<noteq> base' \<longrightarrow> LevelHistogram_merge (H base xs) (H base' ys) = Inl BasesDiffer)"
proof -
  have exact: "counts_exactly (H b zs) b zs" if "length zs < 2 ^ 32" for b zs
    unfolding H_def using that by (rule counts_exactly_fold)
  have len: "length xs < 2 ^ 32" "length ys < 2 ^ 32" using assms(1) by simp_all
  obtain m where m: "LevelHistogram_merge (H base xs) (H base ys) = Inr m" "counts_exactly m base (xs @ ys)"
    using counts_exactly_merge [OF exact exact] len assms(1) by blast
  obtain m' where m': "LevelHistogram_merge (H base ys) (H base xs) = Inr m'" "counts_exactly m' base (ys @ xs)"
    using counts_exactly_merge [OF exact exact, of ys xs] len assms(1) by (auto simp: add.commute)
  have "counts_exactly m' base (xs @ ys)"
    using m'(2) by (simp add: counts_exactly_def tally_append add.commute)
  moreover have all: "counts_exactly (H base (xs @ ys)) base (xs @ ys)"
    using assms(1) by (intro exact) simp
  ultimately have "m = H base (xs @ ys)" "m' = H base (xs @ ys)"
    using m(2) counts_exactly_unique by blast+
  moreover have "baseDb (H b zs) = b" if "length zs < 2 ^ 32" for b zs
    using exact [OF that, of b] by (simp add: counts_exactly_def)
  ultimately show ?thesis
    using m(1) m'(1) len by (auto simp: LevelHistogram_merge_def)
qed

theorem merge_is_concatenation_witness:
  "LevelHistogram_merge
     (fold (\<lambda>x h. LevelHistogram_add h x) [Fin 1, NaN] (LevelHistogram_new (- 20)))
     (fold (\<lambda>x h. LevelHistogram_add h x) [PosInf] (LevelHistogram_new (- 20))) =
   Inr (fold (\<lambda>x h. LevelHistogram_add h x) [Fin 1, NaN, PosInf] (LevelHistogram_new (- 20)))"
  using merge_is_concatenation [of "[Fin 1, NaN]" "[PosInf]" "- 20"] by simp

text \<open>What the histogram reports for one order statistic, by where its value lies.\<close>

lemma pick_cases:
  assumes "counts_exactly h base (map Fin xs)" "unat k < length xs"
  defines "x \<equiv> sort xs ! unat k"
  shows "x < base \<Longrightarrow> pick h k = OffSpan BelowSpan"
    "topDb h \<le> x \<Longrightarrow> pick h k = OffSpan AboveSpan"
    "base \<le> x \<Longrightarrow> x < topDb h \<Longrightarrow> \<exists>a. pick h k = InSpan a \<and> \<bar>a - x\<bar> \<le> kBinWidthDb / 2"
proof -
  have base: "baseDb h = base" using assms(1) by (simp add: counts_exactly_def)
  have pick: "pick h k = pick_of_rank h (rank base x)"
    unfolding x_def by (rule pick_rank [OF assms(1,2)])
  have top: "topDb h \<le> x \<longleftrightarrow> int kBinCount \<le> rank base x" and low: "x < base \<longleftrightarrow> rank base x < 0"
    using off_span [of base x] by (simp_all add: topDb_def base)
  show "x < base \<Longrightarrow> pick h k = OffSpan BelowSpan"
    by (simp add: pick pick_of_rank_def low)
  show "topDb h \<le> x \<Longrightarrow> pick h k = OffSpan AboveSpan"
    by (simp add: pick pick_of_rank_def top)
  assume "base \<le> x" "x < topDb h"
  then have r: "0 \<le> rank base x" "rank base x < int kBinCount" using top low by linarith+
  then show "\<exists>a. pick h k = InSpan a \<and> \<bar>a - x\<bar> \<le> kBinWidthDb / 2"
    using centre_near [OF r base] by (simp add: pick pick_of_rank_def)
qed

text \<open>
  Property C31: a percentile read from the bins is right to half a bin, and absent exactly when it has to
  be.  For any non-empty stream of fewer than \<open>2\<^sup>3\<^sup>2\<close> finite levels and any \<open>n\<close> from 0 to 100 the exact percentile
  lies between two neighbouring order statistics of the stream (the same one twice when the rank is whole).
  If the lower one is under the base, the histogram answers \<^verbatim>\<open>BelowSpan\<close>; otherwise, if the upper one reaches the top
  of the span, it answers \<^verbatim>\<open>AboveSpan\<close>; in every other case it answers a value within 0.05 dB of the exact
  percentile.  Samples outside the span that the rank does not touch do no harm.
\<close>

theorem percentile_within_half_bin:
  fixes xs :: "real list" and base n :: real
  assumes "xs \<noteq> []" "length xs < 2 ^ 32" "0 \<le> n" "n \<le> 100"
  defines "h \<equiv> fold (\<lambda>x h. LevelHistogram_add h x) (map Fin xs) (LevelHistogram_new base)"
    and "pos \<equiv> real (length xs - 1) * (1 - n / 100)"
  shows "\<exists>v r. percentileLevelDb xs n = Inr v \<and> hist_percentile h n = Inr r \<and>
    (if sort xs ! nat \<lfloor>pos\<rfloor> < base then r = (None, BelowSpan)
     else if topDb h \<le> sort xs ! nat \<lceil>pos\<rceil> then r = (None, AboveSpan)
     else \<exists>q. r = (Some q, LnNone) \<and> \<bar>q - v\<bar> \<le> kBinWidthDb / 2)"
proof -
  have exact: "counts_exactly h base (map Fin xs)"
    unfolding h_def using assms(2) by (intro counts_exactly_fold) simp
  then have tot: "unat (hist_total h) = length xs"
    by (simp add: counts_exactly_def)
  then have ne: "hist_total h \<noteq> 0" using assms(1) by auto
  have tot1: "unat (hist_total h - 1) = length xs - 1"
    using tot ne by (simp add: unat_minus_one)
  have pos: "0 \<le> pos" "pos \<le> real (length xs - 1)"
    using assms(3,4) mult_left_le [of "1 - n / 100" "real (length xs - 1)"] by (simp_all add: pos_def)
  define lo where "lo = (word_of_int \<lfloor>pos\<rfloor> :: uint64_t)"
  define hi where "hi = min (lo + 1) (hist_total h - 1)"
  have fl: "0 \<le> \<lfloor>pos\<rfloor>" "nat \<lfloor>pos\<rfloor> \<le> length xs - 1" using pos by linarith+
  have lo: "unat lo = nat \<lfloor>pos\<rfloor>"
  proof -
    have "take_bit 64 \<lfloor>pos\<rfloor> = \<lfloor>pos\<rfloor>"
      using fl assms(2) by (intro take_bit_int_eq_self) (simp_all, linarith)
    then show ?thesis by (simp add: lo_def unsigned_of_int)
  qed
  have lo1: "unat (lo + 1) = nat \<lfloor>pos\<rfloor> + 1" using lo fl assms(2) by (simp add: unat_word_ariths)
  have hi: "unat hi = min (nat \<lfloor>pos\<rfloor> + 1) (length xs - 1)"
    using lo1 tot1 by (auto simp: hi_def min_def word_le_nat_alt)
  define f where "f = pos - real (unat lo)"
  have f: "0 \<le> f" "f \<le> 1" using fl pos unfolding f_def lo by linarith+
  let ?u = "sort xs ! unat lo" and ?v = "sort xs ! unat hi"
  have len: "unat lo < length xs" "unat hi < length xs"
    using fl length_greater_0_conv [of xs] assms(1) unfolding lo hi by linarith+
  have up: "nat \<lceil>pos\<rceil> = (if f = 0 then unat lo else unat hi)"
  proof (cases "f = 0")
    case True
    then have "pos = of_int \<lfloor>pos\<rfloor>" using fl(1) unfolding f_def lo by linarith
    then have "\<lceil>pos\<rceil> = \<lfloor>pos\<rfloor>" by (metis ceiling_of_int)
    then show ?thesis using True lo by simp
  next
    case False
    then have "pos \<noteq> of_int \<lfloor>pos\<rfloor>" using fl(1) unfolding f_def lo by linarith
    then have "\<lceil>pos\<rceil> = \<lfloor>pos\<rfloor> + 1" by (simp add: ceiling_altdef)
    moreover have "\<lceil>pos\<rceil> \<le> int (length xs - 1)" using pos(2) by (simp add: ceiling_le_iff)
    ultimately show ?thesis using False fl(1) hi by (simp add: nat_add_distrib min_def) linarith
  qed
  have le: "?u \<le> ?v" using len lo hi fl(2) by (intro sorted_nth_mono) simp_all
  note at_lo = pick_cases [OF exact len(1)] and at_hi = pick_cases [OF exact len(2)]
  have v: "percentileLevelDb xs n = Inr (?u + f * (?v - ?u))"
    using assms(1,3,4) unfolding percentileLevelDb_def Let_def hi f_def lo pos_def by simp
  have r: "hist_percentile h n =
      (case pick h lo of OffSpan side \<Rightarrow> Inr (None, side)
       | InSpan a \<Rightarrow> if f = 0 then Inr (Some a, LnNone)
           else (case pick h hi of OffSpan side \<Rightarrow> Inr (None, side)
                 | InSpan b \<Rightarrow> Inr (Some (a + f * (b - a)), LnNone)))"
    using assms(3,4) ne unfolding hist_percentile_def Let_def tot1 f_def hi_def lo_def pos_def by simp
  consider "?u < base" | "base \<le> ?u" "topDb h \<le> ?u" | "base \<le> ?u" "?u < topDb h" by linarith
  then show ?thesis
  proof cases
    case 1
    then show ?thesis using at_lo(1) v r lo by simp
  next
    case 2
    then have "topDb h \<le> sort xs ! nat \<lceil>pos\<rceil>" using le by (simp add: up)
    then show ?thesis using 2 at_lo(2) v r lo by simp
  next
    case 3
    then obtain a where a: "pick h lo = InSpan a" "\<bar>a - ?u\<bar> \<le> kBinWidthDb / 2" using at_lo(3) by blast
    show ?thesis
    proof (cases "f = 0 \<or> topDb h \<le> ?v")
      case True
      then show ?thesis using 3 a at_hi(2) v r lo up by (cases "f = 0") simp_all
    next
      case False
      then obtain b where b: "pick h hi = InSpan b" "\<bar>b - ?v\<bar> \<le> kBinWidthDb / 2" using 3 le at_hi(3) by force
      have "\<bar>(a + f * (b - a)) - (?u + f * (?v - ?u))\<bar> \<le> kBinWidthDb / 2"
        using a(2) b(2) f by (rule interpolation_near)
      then show ?thesis using False 3 a(1) b(1) v r lo up by simp
    qed
  qed
qed

theorem percentile_within_half_bin_witness:
  "(\<exists>v q. percentileLevelDb [61, 70, 58] 50 = Inr v \<and>
     hist_percentile (fold (\<lambda>x h. LevelHistogram_add h x) (map Fin [61, 70, 58]) (LevelHistogram_new 0)) 50 =
       Inr (Some q, LnNone) \<and> \<bar>q - v\<bar> \<le> kBinWidthDb / 2) \<and>
   hist_percentile (fold (\<lambda>x h. LevelHistogram_add h x) (map Fin [61, 70, 58]) (LevelHistogram_new 60)) 100 =
     Inr (None, BelowSpan)"
proof
  define xs :: "real list" where "xs = [61, 70, 58]"
  have len: "xs \<noteq> []" "length xs < 2 ^ 32" "length xs = 3" by (simp_all add: xs_def)
  have sorted: "sort xs = [58, 61, 70]" by (simp add: xs_def)
  have top: "topDb (fold (\<lambda>x h. LevelHistogram_add h x) (map Fin xs) (LevelHistogram_new base)) = base + 200" for base
    using counts_exactly_fold [of "map Fin xs" base] len(2)
    by (simp add: topDb_def counts_exactly_def kBinCount_def kBinWidthDb_def)
  show "\<exists>v q. percentileLevelDb [61, 70, 58] 50 = Inr v \<and>
     hist_percentile (fold (\<lambda>x h. LevelHistogram_add h x) (map Fin [61, 70, 58]) (LevelHistogram_new 0)) 50 =
       Inr (Some q, LnNone) \<and> \<bar>q - v\<bar> \<le> kBinWidthDb / 2"
    using percentile_within_half_bin [OF len(1,2), of 50 0]
    unfolding top unfolding sorted len(3) xs_def [symmetric] by auto
  show "hist_percentile (fold (\<lambda>x h. LevelHistogram_add h x) (map Fin [61, 70, 58]) (LevelHistogram_new 60)) 100 =
     Inr (None, BelowSpan)"
    using percentile_within_half_bin [OF len(1,2), of 100 60]
    unfolding top unfolding sorted len(3) xs_def [symmetric] by auto
qed

end
