(* ===== verification/Frequency_Weighting.thy ===== *)
theory Frequency_Weighting
  imports Level_Meters
begin

text \<open>
  The frequency weightings A, C and Z (\<^verbatim>\<open>core/src/dsp/Weighting.cpp\<close>) and the cascade of second-order sections
  they run on (\<^verbatim>\<open>core/include/rta/dsp/Biquad.h\<close>), over the reals.  The theory proves that the digital response is
  the analytic curve at the warped frequency the bilinear transform prescribes, that every designed cascade is
  stable at every sample rate, and that filtering does not depend on how a stream is cut.
\<close>

section \<open>Second-order sections\<close>

record Coeffs =
  bq_b0 :: real
  bq_b1 :: real
  bq_b2 :: real
  bq_a1 :: real
  bq_a2 :: real

record BiquadState =
  bq_s1 :: real
  bq_s2 :: real

definition BiquadState_default :: BiquadState where
  "BiquadState_default = \<lparr>bq_s1 = 0, bq_s2 = 0\<rparr>"

definition Biquad_processSample :: "Coeffs \<Rightarrow> BiquadState \<Rightarrow> real \<Rightarrow> real \<times> BiquadState" where
  "Biquad_processSample c s x =
     (let y = bq_b0 c * x + bq_s1 s
      in (y, \<lparr>bq_s1 = bq_b1 c * x - bq_a1 c * y + bq_s2 s, bq_s2 = bq_b2 c * x - bq_a2 c * y\<rparr>))"

record BiquadCascade =
  cas_sections :: "Coeffs list"
  cas_state :: "BiquadState list"

definition BiquadCascade_new :: "Coeffs list \<Rightarrow> BiquadCascade" where
  "BiquadCascade_new sections =
     \<lparr>cas_sections = sections, cas_state = replicate (length sections) BiquadState_default\<rparr>"

fun run_sections :: "Coeffs list \<Rightarrow> BiquadState list \<Rightarrow> real \<Rightarrow> real \<times> BiquadState list" where
  "run_sections (c # cs) (s # ss) x =
     (let (y, s') = Biquad_processSample c s x; (z, ss') = run_sections cs ss y in (z, s' # ss'))"
| "run_sections _ ss x = (x, ss)"

definition cascade_processSample :: "BiquadCascade \<Rightarrow> real \<Rightarrow> real \<times> BiquadCascade" where
  "cascade_processSample c x =
     (let (y, ss) = run_sections (cas_sections c) (cas_state c) x in (y, c\<lparr>cas_state := ss\<rparr>))"

fun cascade_process :: "BiquadCascade \<Rightarrow> real list \<Rightarrow> real list \<times> BiquadCascade" where
  "cascade_process c [] = ([], c)"
| "cascade_process c (x # xs) =
     (let (y, c) = cascade_processSample c x; (ys, c) = cascade_process c xs in (y # ys, c))"

definition cascade_reset :: "BiquadCascade \<Rightarrow> BiquadCascade" where
  "cascade_reset c = c\<lparr>cas_state := map (\<lambda>_. BiquadState_default) (cas_state c)\<rparr>"

definition sectionPoleRadius :: "Coeffs \<Rightarrow> real" where
  "sectionPoleRadius c =
     (let disc = bq_a1 c * bq_a1 c - 4 * bq_a2 c
      in if disc < 0 then sqrt (max 0 (bq_a2 c))
         else (let root = sqrt disc; p1 = (- bq_a1 c + root) * (1 / 2); p2 = (- bq_a1 c - root) * (1 / 2)
               in max \<bar>p1\<bar> \<bar>p2\<bar>))"

definition maxPoleRadius :: "BiquadCascade \<Rightarrow> real" where
  "maxPoleRadius c = foldl (\<lambda>worst s. max worst (sectionPoleRadius s)) 0 (cas_sections c)"

definition sectionAttenuationDb :: "Coeffs \<Rightarrow> real \<Rightarrow> real" where
  "sectionAttenuationDb c w =
     (let cw = cos w; sw = sin w; c2w = cos (2 * w); s2w = sin (2 * w);
          nRe = bq_b0 c + bq_b1 c * cw + bq_b2 c * c2w;
          nIm = - (bq_b1 c * sw + bq_b2 c * s2w);
          dRe = 1 + bq_a1 c * cw + bq_a2 c * c2w;
          dIm = - (bq_a1 c * sw + bq_a2 c * s2w);
          nMagSq = nRe * nRe + nIm * nIm;
          dMagSq = dRe * dRe + dIm * dIm
      in 10 * log 10 dMagSq - 10 * log 10 nMagSq)"

definition attenuationDb :: "Coeffs list \<Rightarrow> real \<Rightarrow> real" where
  "attenuationDb sections w = foldl (\<lambda>total c. total + sectionAttenuationDb c w) 0 sections"

section \<open>The weightings\<close>

datatype WeightingType = WeightA | WeightC | WeightZ

definition kF1 :: real where "kF1 = 20.598997"
definition kF2 :: real where "kF2 = 107.65265"
definition kF3 :: real where "kF3 = 737.86223"
definition kF4 :: real where "kF4 = 12194.217"

definition kTwoPi :: real where "kTwoPi = 2 * pi"

definition bracketA :: "real \<Rightarrow> real" where
  "bracketA f =
     (let f2 = f * f
      in (f2 * f2) / ((f2 + kF1 * kF1) * sqrt (f2 + kF2 * kF2) * sqrt (f2 + kF3 * kF3) * (f2 + kF4 * kF4)))"

definition bracketC :: "real \<Rightarrow> real" where
  "bracketC f = (let f2 = f * f in f2 / ((f2 + kF1 * kF1) * (f2 + kF4 * kF4)))"

definition analogGainA :: real where "analogGainA = 1 / bracketA 1000"
definition analogGainC :: real where "analogGainC = 1 / bracketC 1000"

definition bilinear :: "real \<Rightarrow> real \<Rightarrow> real" where
  "bilinear w fs2 = (fs2 - w) / (fs2 + w)"

definition designA :: "real \<Rightarrow> Coeffs list" where
  "designA rate =
     (let fs2 = 2 * rate;
          w1 = kTwoPi * kF1; w2 = kTwoPi * kF2; w3 = kTwoPi * kF3; w4 = kTwoPi * kF4;
          kZpk = analogGainA * kTwoPi * kTwoPi;
          p4 = bilinear w4 fs2; p1 = bilinear w1 fs2; p2 = bilinear w2 fs2; p3 = bilinear w3 fs2;
          kDigital = kZpk * (fs2 * fs2 * fs2 * fs2) /
            ((fs2 + w4) * (fs2 + w4) * (fs2 + w1) * (fs2 + w1) * (fs2 + w2) * (fs2 + w3))
      in [\<lparr>bq_b0 = kDigital * 1, bq_b1 = kDigital * 2, bq_b2 = kDigital * 1, bq_a1 = -2 * p4, bq_a2 = p4 * p4\<rparr>,
          \<lparr>bq_b0 = 1, bq_b1 = -2, bq_b2 = 1, bq_a1 = - (p2 + p3), bq_a2 = p2 * p3\<rparr>,
          \<lparr>bq_b0 = 1, bq_b1 = -2, bq_b2 = 1, bq_a1 = -2 * p1, bq_a2 = p1 * p1\<rparr>])"

definition designC :: "real \<Rightarrow> Coeffs list" where
  "designC rate =
     (let fs2 = 2 * rate;
          w1 = kTwoPi * kF1; w4 = kTwoPi * kF4;
          kZpk = analogGainC * kTwoPi * kTwoPi;
          p4 = bilinear w4 fs2; p1 = bilinear w1 fs2;
          kDigital = kZpk * (fs2 * fs2) / ((fs2 + w4) * (fs2 + w4) * (fs2 + w1) * (fs2 + w1))
      in [\<lparr>bq_b0 = kDigital * 1, bq_b1 = kDigital * 2, bq_b2 = kDigital * 1, bq_a1 = -2 * p4, bq_a2 = p4 * p4\<rparr>,
          \<lparr>bq_b0 = 1, bq_b1 = -2, bq_b2 = 1, bq_a1 = -2 * p1, bq_a2 = p1 * p1\<rparr>])"

fun weightingType_toString :: "WeightingType \<Rightarrow> string" where
  "weightingType_toString WeightA = ''A''"
| "weightingType_toString WeightC = ''C''"
| "weightingType_toString WeightZ = ''Z''"

record Weighting =
  wg_type :: WeightingType
  wg_sampleRate :: real
  wg_cascade :: BiquadCascade

datatype weighting_error = WeightingRate | FrequencyOutOfDomain

fun weighting_sections :: "WeightingType \<Rightarrow> real \<Rightarrow> Coeffs list" where
  "weighting_sections WeightA rate = designA rate"
| "weighting_sections WeightC rate = designC rate"
| "weighting_sections WeightZ rate = []"

definition Weighting_new :: "WeightingType \<Rightarrow> real \<Rightarrow> weighting_error + Weighting" where
  "Weighting_new type rate =
     (if \<not> rate > 0 then Inl WeightingRate
      else Inr \<lparr>wg_type = type, wg_sampleRate = rate, wg_cascade = BiquadCascade_new (weighting_sections type rate)\<rparr>)"

definition analyticDb :: "real \<Rightarrow> WeightingType \<Rightarrow> weighting_error + real" where
  "analyticDb frequencyHz type =
     (if \<not> frequencyHz > 0 then Inl FrequencyOutOfDomain
      else Inr (case type of
                  WeightA \<Rightarrow> 20 * log 10 (analogGainA * bracketA frequencyHz)
                | WeightC \<Rightarrow> 20 * log 10 (analogGainC * bracketC frequencyHz)
                | WeightZ \<Rightarrow> 0))"

definition responseDb :: "Weighting \<Rightarrow> real \<Rightarrow> weighting_error + real" where
  "responseDb wg frequencyHz =
     (if \<not> frequencyHz > 0 then Inl FrequencyOutOfDomain
      else (let omega = kTwoPi * frequencyHz / wg_sampleRate wg
            in Inr (- attenuationDb (cas_sections (wg_cascade wg)) omega)))"

definition Weighting_reset :: "Weighting \<Rightarrow> Weighting" where
  "Weighting_reset wg = wg\<lparr>wg_cascade := cascade_reset (wg_cascade wg)\<rparr>"

definition Weighting_process :: "Weighting \<Rightarrow> real list \<Rightarrow> real list \<times> Weighting" where
  "Weighting_process wg xs =
     (let (ys, c) = cascade_process (wg_cascade wg) xs in (ys, wg\<lparr>wg_cascade := c\<rparr>))"

section \<open>Filtering a stream\<close>

lemma cascade_process_length [simp]: "length (fst (cascade_process c xs)) = length xs"
  by (induction xs arbitrary: c) (simp_all add: case_prod_beta)

lemma cascade_process_append:
  "cascade_process c (xs @ ys) =
     (fst (cascade_process c xs) @ fst (cascade_process (snd (cascade_process c xs)) ys),
      snd (cascade_process (snd (cascade_process c xs)) ys))"
  by (induction xs arbitrary: c) (simp_all add: case_prod_beta)

lemma Weighting_process_length [simp]: "length (fst (Weighting_process wg xs)) = length xs"
  by (simp add: Weighting_process_def case_prod_beta)

lemma Weighting_process_append:
  "Weighting_process wg (xs @ ys) =
     (fst (Weighting_process wg xs) @ fst (Weighting_process (snd (Weighting_process wg xs)) ys),
      snd (Weighting_process (snd (Weighting_process wg xs)) ys))"
  by (simp add: Weighting_process_def cascade_process_append case_prod_beta)

lemma Weighting_process_Nil [simp]: "Weighting_process wg [] = ([], wg)"
  by (simp add: Weighting_process_def)

lemma run_sections_state: "run_sections [] ss x = (x, ss)"
  by simp

lemma Z_is_flat: "cas_sections (wg_cascade wg) = [] \<Longrightarrow> Weighting_process wg xs = (xs, wg)"
proof -
  assume flat: "cas_sections (wg_cascade wg) = []"
  have "cascade_process c xs = (xs, c)" if "cas_sections c = []" for c
    using that by (induction xs) (simp_all add: cascade_processSample_def)
  then show ?thesis
    using flat by (simp add: Weighting_process_def)
qed

section \<open>The response\<close>

text \<open>The squared magnitude of \<open>1 - p z\<^sup>-\<^sup>1\<close> at angle \<open>2 h\<close>.\<close>

definition root_mag :: "real \<Rightarrow> real \<Rightarrow> real" where
  "root_mag p h = (1 - p)\<^sup>2 * (cos h)\<^sup>2 + (1 + p)\<^sup>2 * (sin h)\<^sup>2"

lemma pair_mag:
  "(1 - (p + q) * cos (2 * h) + p * q * cos (2 * (2 * h)))\<^sup>2 +
   ((p + q) * sin (2 * h) - p * q * sin (2 * (2 * h)))\<^sup>2 = root_mag p h * root_mag q h"
proof -
  have one: "(sin h)\<^sup>2 + (cos h)\<^sup>2 = 1" and two: "(sin (2 * h))\<^sup>2 + (cos (2 * h))\<^sup>2 = 1"
    by simp_all
  have mag: "root_mag r h = 1 - 2 * r * cos (2 * h) + r\<^sup>2" for r
    unfolding root_mag_def cos_double using one by algebra
  show ?thesis
    unfolding mag cos_double [of "2 * h"] sin_double [of "2 * h"] using two by algebra
qed

lemma section_response:
  assumes "bq_b0 c = k" "bq_b1 c = 2 * e * k" "bq_b2 c = k" "e * e = 1" "bq_a1 c = - (p + q)" "bq_a2 c = p * q"
  shows "sectionAttenuationDb c (2 * h) =
           10 * log 10 (root_mag p h * root_mag q h) - 10 * log 10 (k\<^sup>2 * (root_mag (- e) h)\<^sup>2)"
proof -
  have n: "(k + 2 * e * k * cos (2 * h) + k * cos (2 * (2 * h))) * (k + 2 * e * k * cos (2 * h) + k * cos (2 * (2 * h))) +
      - (2 * e * k * sin (2 * h) + k * sin (2 * (2 * h))) * - (2 * e * k * sin (2 * h) + k * sin (2 * (2 * h))) =
      k\<^sup>2 * (root_mag (- e) h)\<^sup>2"
    using pair_mag [of "- e" "- e" h] assms(4) by algebra
  have d: "(1 + - (p + q) * cos (2 * h) + p * q * cos (2 * (2 * h))) * (1 + - (p + q) * cos (2 * h) + p * q * cos (2 * (2 * h))) +
      - (- (p + q) * sin (2 * h) + p * q * sin (2 * (2 * h))) * - (- (p + q) * sin (2 * h) + p * q * sin (2 * (2 * h))) =
      root_mag p h * root_mag q h"
    using pair_mag [of p q h] by algebra
  show ?thesis
    unfolding sectionAttenuationDb_def Let_def assms n d ..
qed

lemma root_mag_bilinear:
  assumes "0 < F" "0 < v" "cos h \<noteq> 0"
  shows "root_mag (bilinear v F) h = 4 * (cos h)\<^sup>2 * (v\<^sup>2 + (F * tan h)\<^sup>2) / (F + v)\<^sup>2"
proof -
  have *: "1 - bilinear v F = 2 * v / (F + v)" "1 + bilinear v F = 2 * F / (F + v)"
    using assms by (simp_all add: bilinear_def field_simps)
  have "(F * tan h)\<^sup>2 * (cos h)\<^sup>2 = F\<^sup>2 * (sin h)\<^sup>2"
    using assms by (simp add: tan_def power_mult_distrib power_divide)
  then show ?thesis
    unfolding root_mag_def * by (auto simp: power_divide power_mult_distrib add_divide_distrib [symmetric] algebra_simps)
qed

lemma root_mag_one: "cos h \<noteq> 0 \<Longrightarrow> root_mag 1 h = 4 * (cos h)\<^sup>2 * (tan h)\<^sup>2"
  by (simp add: root_mag_def tan_def field_simps)

lemma root_mag_minus_one: "root_mag (- 1) h = 4 * (cos h)\<^sup>2"
  by (simp add: root_mag_def)

definition warped :: "real \<Rightarrow> real \<Rightarrow> real" where
  "warped rate f = rate / pi * tan (pi * f / rate)"

lemma kF_pos: "0 < kF1" "0 < kF2" "0 < kF3" "0 < kF4" and kTwoPi_pos: "0 < kTwoPi"
  by (simp_all add: kF1_def kF2_def kF3_def kF4_def kTwoPi_def)

lemma bracket_pos: "0 < f \<Longrightarrow> 0 < bracketA f" "0 < f \<Longrightarrow> 0 < bracketC f"
  using kF_pos by (simp_all add: bracketA_def bracketC_def Let_def add_pos_pos)

lemma gain_pos: "0 < analogGainA" "0 < analogGainC"
  using bracket_pos [of 1000] by (simp_all add: analogGainA_def analogGainC_def)

lemma warped_angle:
  assumes "0 < rate" "0 < f" "f < rate / 2"
  shows "0 < cos (pi * f / rate)" "0 < tan (pi * f / rate)" "0 < warped rate f"
    "2 * rate * tan (pi * f / rate) = kTwoPi * warped rate f"
proof -
  have "0 < pi * f / rate" "pi * f / rate < pi / 2"
    using assms by (simp_all add: field_simps)
  then show c: "0 < cos (pi * f / rate)" and t: "0 < tan (pi * f / rate)"
    by (simp_all add: cos_gt_zero tan_gt_zero)
  show "0 < warped rate f"
    using t assms(1) by (simp add: warped_def)
  show "2 * rate * tan (pi * f / rate) = kTwoPi * warped rate f"
    using pi_gt_zero by (simp add: warped_def kTwoPi_def)
qed

text \<open>A pole of the design, seen at the warped frequency.\<close>

lemma pole_mag:
  assumes "0 < rate" "0 < f" "f < rate / 2" "0 < fi"
  shows "root_mag (bilinear (kTwoPi * fi) (2 * rate)) (pi * f / rate) =
           4 * (cos (pi * f / rate))\<^sup>2 * kTwoPi\<^sup>2 * ((warped rate f)\<^sup>2 + fi\<^sup>2) / (2 * rate + kTwoPi * fi)\<^sup>2"
proof -
  have "root_mag (bilinear (kTwoPi * fi) (2 * rate)) (pi * f / rate) =
      4 * (cos (pi * f / rate))\<^sup>2 * ((kTwoPi * fi)\<^sup>2 + (2 * rate * tan (pi * f / rate))\<^sup>2) / (2 * rate + kTwoPi * fi)\<^sup>2"
    using assms warped_angle(1) [OF assms(1-3)] kTwoPi_pos by (intro root_mag_bilinear) simp_all
  also have "(kTwoPi * fi)\<^sup>2 + (2 * rate * tan (pi * f / rate))\<^sup>2 = kTwoPi\<^sup>2 * ((warped rate f)\<^sup>2 + fi\<^sup>2)"
    unfolding warped_angle(4) [OF assms(1-3)] by (simp add: power_mult_distrib algebra_simps)
  finally show ?thesis
    by simp
qed

lemma zero_mag:
  assumes "0 < rate" "0 < f" "f < rate / 2"
  shows "root_mag 1 (pi * f / rate) =
           4 * (cos (pi * f / rate))\<^sup>2 * kTwoPi\<^sup>2 * (warped rate f)\<^sup>2 / (2 * rate)\<^sup>2"
proof -
  have "(tan (pi * f / rate))\<^sup>2 = (kTwoPi * warped rate f)\<^sup>2 / (2 * rate)\<^sup>2"
    using warped_angle(4) [OF assms] assms(1) by (metis nonzero_mult_div_cancel_left power_divide mult_pos_pos less_numeral_extra(3) zero_less_numeral)
  then show ?thesis
    using warped_angle(1) [OF assms] by (simp add: root_mag_one power_mult_distrib)
qed

text \<open>The powers of the rate, of the half-angle cosine and of the pole normalisations cancel.\<close>

lemma cancel_A:
  fixes G K R Q x a1 a2 a3 a4 s1 s2 s3 s4 :: real
  assumes "0 < K" "0 < R" "0 < Q" "0 < a1" "0 < a2" "0 < a3" "0 < a4" "0 < s1" "0 < s2" "0 < s3" "0 < s4"
  shows "(G * K * K * (R * R * R * R) / (s4 * s4 * s1 * s1 * s2 * s3))\<^sup>2 * (Q / K\<^sup>2)\<^sup>2 / (Q * a4 / s4\<^sup>2 * (Q * a4 / s4\<^sup>2)) *
      ((Q * x / R\<^sup>2)\<^sup>2 / (Q * a2 / s2\<^sup>2 * (Q * a3 / s3\<^sup>2))) * ((Q * x / R\<^sup>2)\<^sup>2 / (Q * a1 / s1\<^sup>2 * (Q * a1 / s1\<^sup>2))) =
    G\<^sup>2 * (x * x)\<^sup>2 / (a1\<^sup>2 * a2 * a3 * a4\<^sup>2)"
  using assms by (simp add: field_simps power2_eq_square)

lemma cancel_C:
  fixes G K R Q x a1 a4 s1 s4 :: real
  assumes "0 < K" "0 < R" "0 < Q" "0 < a1" "0 < a4" "0 < s1" "0 < s4"
  shows "(G * K * K * (R * R) / (s4 * s4 * s1 * s1))\<^sup>2 * (Q / K\<^sup>2)\<^sup>2 / (Q * a4 / s4\<^sup>2 * (Q * a4 / s4\<^sup>2)) *
      ((Q * x / R\<^sup>2)\<^sup>2 / (Q * a1 / s1\<^sup>2 * (Q * a1 / s1\<^sup>2))) = G\<^sup>2 * x\<^sup>2 / (a1\<^sup>2 * a4\<^sup>2)"
  using assms by (simp add: field_simps power2_eq_square)

lemma bracketA_squared:
  "(g * bracketA x)\<^sup>2 = g\<^sup>2 * (x\<^sup>2 * x\<^sup>2)\<^sup>2 / ((x\<^sup>2 + kF1\<^sup>2)\<^sup>2 * (x\<^sup>2 + kF2\<^sup>2) * (x\<^sup>2 + kF3\<^sup>2) * (x\<^sup>2 + kF4\<^sup>2)\<^sup>2)"
proof -
  have "(sqrt (x * x + kF2 * kF2))\<^sup>2 = x\<^sup>2 + kF2\<^sup>2" "(sqrt (x * x + kF3 * kF3))\<^sup>2 = x\<^sup>2 + kF3\<^sup>2"
    by (simp_all add: power2_eq_square)
  then show ?thesis
    by (simp add: bracketA_def Let_def power_mult_distrib power_divide power2_eq_square [symmetric])
qed

lemma bracketC_squared:
  "(g * bracketC x)\<^sup>2 = g\<^sup>2 * (x\<^sup>2)\<^sup>2 / ((x\<^sup>2 + kF1\<^sup>2)\<^sup>2 * (x\<^sup>2 + kF4\<^sup>2)\<^sup>2)"
  by (simp add: bracketC_def Let_def power_mult_distrib power_divide power2_eq_square [symmetric])

lemma db_ratio: "0 < n \<Longrightarrow> 0 < d \<Longrightarrow> 10 * log 10 d - 10 * log 10 n = - (10 * log 10 (n / d))"
  by (simp add: log_divide algebra_simps)

lemma db_product: "0 < x \<Longrightarrow> 0 < y \<Longrightarrow> - (10 * log 10 x) + - (10 * log 10 y) = - (10 * log 10 (x * y))"
  by (simp add: log_mult algebra_simps)

lemma db_square: "0 < x \<Longrightarrow> 10 * log 10 (x\<^sup>2) = 20 * log 10 x"
  by (simp add: log_nat_power)

text \<open>The three kinds of roots at one frequency, over the common factor \<open>unit_mag\<close>.\<close>

definition unit_mag :: "real \<Rightarrow> real \<Rightarrow> real" where
  "unit_mag rate f = 4 * (cos (pi * f / rate))\<^sup>2 * kTwoPi\<^sup>2"

definition pole_at :: "real \<Rightarrow> real \<Rightarrow> real \<Rightarrow> real" where
  "pole_at rate f v = root_mag (bilinear (kTwoPi * v) (2 * rate)) (pi * f / rate)"

lemma design_mags:
  assumes "0 < rate" "0 < f" "f < rate / 2"
  shows "0 < unit_mag rate f" "root_mag (- 1) (pi * f / rate) = unit_mag rate f / kTwoPi\<^sup>2"
    "root_mag 1 (pi * f / rate) = unit_mag rate f * (warped rate f)\<^sup>2 / (2 * rate)\<^sup>2"
    "0 < root_mag (- 1) (pi * f / rate)" "0 < root_mag 1 (pi * f / rate)"
    "0 < v \<Longrightarrow> pole_at rate f v = unit_mag rate f * ((warped rate f)\<^sup>2 + v\<^sup>2) / (2 * rate + kTwoPi * v)\<^sup>2"
    "0 < v \<Longrightarrow> 0 < pole_at rate f v" "0 < v \<Longrightarrow> 0 < (warped rate f)\<^sup>2 + v\<^sup>2" "0 < v \<Longrightarrow> 0 < 2 * rate + kTwoPi * v"
proof -
  note ang = warped_angle [OF assms]
  show Q: "0 < unit_mag rate f"
    using ang(1) kTwoPi_pos by (simp add: unit_mag_def)
  show N: "root_mag (- 1) (pi * f / rate) = unit_mag rate f / kTwoPi\<^sup>2"
    using kTwoPi_pos by (simp add: root_mag_minus_one unit_mag_def)
  show M: "root_mag 1 (pi * f / rate) = unit_mag rate f * (warped rate f)\<^sup>2 / (2 * rate)\<^sup>2"
    using zero_mag [OF assms] by (simp add: unit_mag_def)
  show "0 < root_mag (- 1) (pi * f / rate)" "0 < root_mag 1 (pi * f / rate)"
    using N M Q assms(1) kTwoPi_pos ang(3) by simp_all
  show a: "0 < v \<Longrightarrow> 0 < (warped rate f)\<^sup>2 + v\<^sup>2"
    by (simp add: add_nonneg_pos)
  show s: "0 < v \<Longrightarrow> 0 < 2 * rate + kTwoPi * v"
    using assms(1) kTwoPi_pos by (simp add: add_pos_pos)
  show P: "0 < v \<Longrightarrow> pole_at rate f v = unit_mag rate f * ((warped rate f)\<^sup>2 + v\<^sup>2) / (2 * rate + kTwoPi * v)\<^sup>2"
    using pole_mag [OF assms] by (simp add: unit_mag_def pole_at_def)
  show "0 < v \<Longrightarrow> 0 < pole_at rate f v"
    using P Q a s by simp
qed

text \<open>The two shapes of section in the designs: zeros at \<open>z = -1\<close> with the gain, or at \<open>z = 1\<close>.\<close>

lemma low_pass_section:
  assumes "0 < rate" "0 < f" "f < rate / 2" "0 < v" "0 < k"
  shows "sectionAttenuationDb \<lparr>bq_b0 = k * 1, bq_b1 = k * 2, bq_b2 = k * 1, bq_a1 = -2 * bilinear (kTwoPi * v) (2 * rate),
             bq_a2 = bilinear (kTwoPi * v) (2 * rate) * bilinear (kTwoPi * v) (2 * rate)\<rparr> (2 * (pi * f / rate)) =
         - (10 * log 10 (k\<^sup>2 * (root_mag (- 1) (pi * f / rate))\<^sup>2 / (pole_at rate f v * pole_at rate f v)))"
  using design_mags(4,5,7) [OF assms(1-3)] assms(4,5)
  by (subst section_response [where k = k and e = 1 and p = "bilinear (kTwoPi * v) (2 * rate)"
        and q = "bilinear (kTwoPi * v) (2 * rate)"]) (simp_all add: db_ratio pole_at_def [symmetric])

lemma high_pass_section:
  assumes "0 < rate" "0 < f" "f < rate / 2" "0 < u" "0 < v"
    and "a1 = - (bilinear (kTwoPi * u) (2 * rate) + bilinear (kTwoPi * v) (2 * rate))"
  shows "sectionAttenuationDb \<lparr>bq_b0 = 1, bq_b1 = -2, bq_b2 = 1, bq_a1 = a1,
             bq_a2 = bilinear (kTwoPi * u) (2 * rate) * bilinear (kTwoPi * v) (2 * rate)\<rparr> (2 * (pi * f / rate)) =
         - (10 * log 10 ((root_mag 1 (pi * f / rate))\<^sup>2 / (pole_at rate f u * pole_at rate f v)))"
  using design_mags(4,5,7) [OF assms(1-3)] assms(4-6)
  by (subst section_response [where k = 1 and e = "-1" and p = "bilinear (kTwoPi * u) (2 * rate)"
        and q = "bilinear (kTwoPi * v) (2 * rate)"]) (simp_all add: db_ratio pole_at_def [symmetric])

lemma designA_response:
  assumes ok: "0 < rate" "0 < f" "f < rate / 2"
  shows "- attenuationDb (designA rate) (2 * (pi * f / rate)) = 20 * log 10 (analogGainA * bracketA (warped rate f))"
proof -
  let ?h = "pi * f / rate" and ?x = "warped rate f" and ?R = "2 * rate" and ?P = "pole_at rate f"
  define k where "k = analogGainA * kTwoPi * kTwoPi * (?R * ?R * ?R * ?R) /
    ((?R + kTwoPi * kF4) * (?R + kTwoPi * kF4) * (?R + kTwoPi * kF1) * (?R + kTwoPi * kF1) * (?R + kTwoPi * kF2) *
     (?R + kTwoPi * kF3))"
  note mags = design_mags [OF ok]
  have k: "0 < k"
    using gain_pos kTwoPi_pos ok(1) kF_pos mags(9) by (simp add: k_def)
  let ?n0 = "k\<^sup>2 * (root_mag (- 1) ?h)\<^sup>2 / (?P kF4 * ?P kF4)"
  let ?n1 = "\<lambda>u v. (root_mag 1 ?h)\<^sup>2 / (?P u * ?P v)"
  have pos: "0 < ?n0" "0 < ?n1 kF2 kF3" "0 < ?n1 kF1 kF1"
    using k mags(4,5,7) kF_pos by simp_all
  have "attenuationDb (designA rate) (2 * ?h) =
      - (10 * log 10 ?n0) + - (10 * log 10 (?n1 kF2 kF3)) + - (10 * log 10 (?n1 kF1 kF1))"
    unfolding attenuationDb_def designA_def Let_def k_def [symmetric] foldl_Cons foldl_Nil
    using low_pass_section [OF ok kF_pos(4) k] high_pass_section [OF ok kF_pos(2,3) refl]
      high_pass_section [OF ok kF_pos(1,1), of "-2 * bilinear (kTwoPi * kF1) ?R"] by simp
  also have "\<dots> = - (10 * log 10 (?n0 * ?n1 kF2 kF3 * ?n1 kF1 kF1))"
    by (simp only: db_product pos mult_pos_pos)
  also have "?n0 * ?n1 kF2 kF3 * ?n1 kF1 kF1 = (analogGainA * bracketA ?x)\<^sup>2"
    unfolding bracketA_squared k_def mags(2,3) mags(6) [OF kF_pos(1)] mags(6) [OF kF_pos(2)] mags(6) [OF kF_pos(3)]
      mags(6) [OF kF_pos(4)]
    by (rule cancel_A) (use kTwoPi_pos ok(1) mags(1,8,9) kF_pos in \<open>simp_all\<close>)
  finally show ?thesis
    using gain_pos bracket_pos warped_angle(3) [OF ok] by (simp add: db_square)
qed

lemma designC_response:
  assumes ok: "0 < rate" "0 < f" "f < rate / 2"
  shows "- attenuationDb (designC rate) (2 * (pi * f / rate)) = 20 * log 10 (analogGainC * bracketC (warped rate f))"
proof -
  let ?h = "pi * f / rate" and ?x = "warped rate f" and ?R = "2 * rate" and ?P = "pole_at rate f"
  define k where "k = analogGainC * kTwoPi * kTwoPi * (?R * ?R) /
    ((?R + kTwoPi * kF4) * (?R + kTwoPi * kF4) * (?R + kTwoPi * kF1) * (?R + kTwoPi * kF1))"
  note mags = design_mags [OF ok]
  have k: "0 < k"
    using gain_pos kTwoPi_pos ok(1) kF_pos mags(9) by (simp add: k_def)
  let ?n0 = "k\<^sup>2 * (root_mag (- 1) ?h)\<^sup>2 / (?P kF4 * ?P kF4)" and ?n1 = "(root_mag 1 ?h)\<^sup>2 / (?P kF1 * ?P kF1)"
  have pos: "0 < ?n0" "0 < ?n1"
    using k mags(4,5,7) kF_pos by simp_all
  have "attenuationDb (designC rate) (2 * ?h) = - (10 * log 10 ?n0) + - (10 * log 10 ?n1)"
    unfolding attenuationDb_def designC_def Let_def k_def [symmetric] foldl_Cons foldl_Nil
    using low_pass_section [OF ok kF_pos(4) k]
      high_pass_section [OF ok kF_pos(1,1), of "-2 * bilinear (kTwoPi * kF1) ?R"] by simp
  also have "\<dots> = - (10 * log 10 (?n0 * ?n1))"
    by (simp only: db_product pos)
  also have "?n0 * ?n1 = (analogGainC * bracketC ?x)\<^sup>2"
    unfolding bracketC_squared k_def mags(2,3) mags(6) [OF kF_pos(1)] mags(6) [OF kF_pos(4)]
    by (rule cancel_C) (use kTwoPi_pos ok(1) mags(1,8,9) kF_pos in \<open>simp_all\<close>)
  finally show ?thesis
    using gain_pos bracket_pos warped_angle(3) [OF ok] by (simp add: db_square)
qed

text \<open>
  Property C28: a constructed weighting responds at a frequency below half the sample rate exactly as the analytic
  curve does at the frequency the bilinear transform warps it to, \<open>rate / \<pi> tan (\<pi> f / rate)\<close>: poles, zeros and gain of
  the designed sections are those of the standard's curve, and the warping is their only error.
\<close>

theorem weighting_response_exact:
  assumes "Weighting_new type rate = Inr wg" and "0 < f" and "f < rate / 2"
  shows "responseDb wg f = analyticDb (warped rate f) type"
proof -
  have ok: "0 < rate" "wg_sampleRate wg = rate" "cas_sections (wg_cascade wg) = weighting_sections type rate"
    using assms(1) by (auto simp: Weighting_new_def BiquadCascade_new_def split: if_splits)
  have omega: "kTwoPi * f / rate = 2 * (pi * f / rate)"
    by (simp add: kTwoPi_def)
  have "responseDb wg f = Inr (- attenuationDb (weighting_sections type rate) (2 * (pi * f / rate)))"
    using ok assms(2) by (simp only: responseDb_def Let_def omega not_True_eq_False if_False)
  then show ?thesis
    using designA_response [OF ok(1) assms(2,3)] designC_response [OF ok(1) assms(2,3)]
      warped_angle(3) [OF ok(1) assms(2,3)]
    by (cases type) (simp_all add: analyticDb_def attenuationDb_def)
qed

theorem weighting_response_exact_witness:
  "map_sum id (\<lambda>wg. responseDb wg 1000) (Weighting_new WeightA 48000) = Inr (analyticDb (warped 48000 1000) WeightA)"
proof -
  obtain wg where "Weighting_new WeightA 48000 = Inr wg"
    by (simp add: Weighting_new_def)
  then show ?thesis
    using weighting_response_exact [of WeightA 48000 wg 1000] by simp
qed

lemma bilinear_stable: "0 < v \<Longrightarrow> 0 < F \<Longrightarrow> \<bar>bilinear v F\<bar> < 1"
  by (simp add: bilinear_def abs_if field_simps)

lemma two_poles_radius:
  "sectionPoleRadius \<lparr>bq_b0 = b0, bq_b1 = b1, bq_b2 = b2, bq_a1 = - (p + q), bq_a2 = p * q\<rparr> = max \<bar>p\<bar> \<bar>q\<bar>"
proof -
  have disc: "- (p + q) * - (p + q) - 4 * (p * q) = (p - q)\<^sup>2"
    by (simp add: power2_eq_square algebra_simps)
  have "sectionPoleRadius \<lparr>bq_b0 = b0, bq_b1 = b1, bq_b2 = b2, bq_a1 = - (p + q), bq_a2 = p * q\<rparr> =
      max \<bar>(p + q + \<bar>p - q\<bar>) * (1 / 2)\<bar> \<bar>(p + q - \<bar>p - q\<bar>) * (1 / 2)\<bar>"
    unfolding sectionPoleRadius_def Let_def Coeffs.select_convs disc real_sqrt_abs by (simp add: add.commute)
  also have "\<dots> = max \<bar>p\<bar> \<bar>q\<bar>"
    by (cases "p \<ge> q") (simp_all add: max.commute)
  finally show ?thesis .
qed

lemma double_pole_radius:
  "sectionPoleRadius \<lparr>bq_b0 = b0, bq_b1 = b1, bq_b2 = b2, bq_a1 = -2 * p, bq_a2 = p * p\<rparr> = \<bar>p\<bar>"
  using two_poles_radius [of b0 b1 b2 p p] by simp

lemma weighting_stable:
  assumes "Weighting_new type rate = Inr wg"
  shows "maxPoleRadius (wg_cascade wg) < 1"
proof -
  have ok: "0 < rate" "cas_sections (wg_cascade wg) = weighting_sections type rate"
    using assms by (auto simp: Weighting_new_def BiquadCascade_new_def split: if_splits)
  have b: "\<bar>bilinear (kTwoPi * v) (2 * rate)\<bar> < 1" if "0 < v" for v
    using bilinear_stable that kTwoPi_pos ok(1) by simp
  show ?thesis
    using b kF_pos
    unfolding maxPoleRadius_def ok(2)
    by (cases type)
      (simp_all only: weighting_sections.simps designA_def designC_def Let_def two_poles_radius double_pole_radius
        foldl_Cons foldl_Nil max_less_iff_conj zero_less_one simp_thms)
qed

end
