(* ===== verification/Measurement_Blocks.thy ===== *)
theory Measurement_Blocks
  imports Level_Meters Doubles Prelude
begin

text \<open>
  The measurement blocks of \<^verbatim>\<open>core/src/meter/Block.cpp\<close>, the windowed recomputation over them, and the alarm
  arithmetic of \<^verbatim>\<open>core/src/meter/Alarm.cpp\<close>.  Counters keep their 32 and 64 bits; levels and energies are real
  numbers.  The theory proves that the blocks partition the stream they were pushed, that a window over them
  reads what the integrating meter reads, and that the headroom formula and the alarm latch mean what they say.
\<close>

section \<open>Blocks and flags\<close>

record Block =
  blockIndex :: uint64_t
  blk_samples :: uint32_t
  blk_dropped :: uint32_t
  blk_sumSquares :: real
  blk_maxFastDb :: real
  blk_maxSlowDb :: real
  blk_peakDb :: real
  blk_flags :: uint32_t

definition Block_default :: Block where
  "Block_default = \<lparr>blockIndex = 0, blk_samples = 0, blk_dropped = 0, blk_sumSquares = 0, blk_maxFastDb = kLevelFloorDb,
     blk_maxSlowDb = kLevelFloorDb, blk_peakDb = kLevelFloorDb, blk_flags = 0\<rparr>"

datatype BlockFlag = Overload | UnderRange | Dropped | CalibrationInvalid | Gap

definition flagMask :: "BlockFlag \<Rightarrow> uint32_t" where
  "flagMask f = (case f of Overload \<Rightarrow> 1 | UnderRange \<Rightarrow> 2 | Dropped \<Rightarrow> 4 | CalibrationInvalid \<Rightarrow> 8 | Gap \<Rightarrow> 16)"

definition hasFlag :: "uint32_t \<Rightarrow> BlockFlag \<Rightarrow> bool" where
  "hasFlag flags f \<longleftrightarrow> flags AND flagMask f \<noteq> 0"

definition excludesFromWindow :: "BlockFlag \<Rightarrow> bool" where
  "excludesFromWindow f \<longleftrightarrow> f = CalibrationInvalid"

definition kExcludingFlags :: uint32_t where
  "kExcludingFlags = flagMask CalibrationInvalid"

section \<open>The accumulator\<close>

definition kReadyCapacity :: nat where "kReadyCapacity = 4"

record BlockAccumulator =
  acc_blockSamples :: uint32_t
  acc_pending :: uint32_t
  acc_nextIndex :: uint64_t
  acc_sumSquares :: real
  acc_maxFast :: real
  acc_maxSlow :: real
  acc_maxPeak :: real
  acc_dropped :: uint32_t
  acc_flags :: uint32_t
  acc_fast :: Detector
  acc_slow :: Detector
  acc_ready :: "Block list"
  acc_readyHead :: nat
  acc_readyCount :: nat

definition levelDbFloored :: "real \<Rightarrow> real" where
  "levelDbFloored ms =
     (if \<not> ms > 0 then kLevelFloorDb
      else (let db = 10 * log 10 ms in if db < kLevelFloorDb then kLevelFloorDb else db))"

definition BlockAccumulator_new :: "uint32_t \<Rightarrow> real \<Rightarrow> meter_error + BlockAccumulator" where
  "BlockAccumulator_new blockSamples rate =
     (case Detector_new Fast rate of
        Inl err \<Rightarrow> Inl err
      | Inr fast \<Rightarrow>
          (case Detector_new Slow rate of
             Inl err \<Rightarrow> Inl err
           | Inr slow \<Rightarrow>
               Inr \<lparr>acc_blockSamples = (if blockSamples = 0 then 1 else blockSamples), acc_pending = 0, acc_nextIndex = 0,
                    acc_sumSquares = 0, acc_maxFast = 0, acc_maxSlow = 0, acc_maxPeak = 0, acc_dropped = 0, acc_flags = 0,
                    acc_fast = fast, acc_slow = slow, acc_ready = replicate kReadyCapacity Block_default,
                    acc_readyHead = 0, acc_readyCount = 0\<rparr>))"

definition BlockAccumulator_reset :: "BlockAccumulator \<Rightarrow> BlockAccumulator" where
  "BlockAccumulator_reset a =
     a\<lparr>acc_pending := 0, acc_nextIndex := 0, acc_sumSquares := 0, acc_maxFast := 0, acc_maxSlow := 0, acc_maxPeak := 0,
       acc_dropped := 0, acc_flags := 0, acc_fast := Detector_reset (acc_fast a) 0,
       acc_slow := Detector_reset (acc_slow a) 0, acc_readyHead := 0, acc_readyCount := 0\<rparr>"

definition noteDroppedSamples :: "BlockAccumulator \<Rightarrow> uint32_t \<Rightarrow> BlockAccumulator" where
  "noteDroppedSamples a count =
     (if count = 0 then a
      else a\<lparr>acc_dropped := acc_dropped a + count, acc_flags := acc_flags a OR flagMask Gap\<rparr>)"

definition setFlag :: "BlockAccumulator \<Rightarrow> BlockFlag \<Rightarrow> BlockAccumulator" where
  "setFlag a f = a\<lparr>acc_flags := acc_flags a OR flagMask f\<rparr>"

definition closeBlock :: "BlockAccumulator \<Rightarrow> BlockAccumulator" where
  "closeBlock a =
     (let b = \<lparr>blockIndex = acc_nextIndex a, blk_samples = acc_blockSamples a, blk_dropped = acc_dropped a,
               blk_sumSquares = acc_sumSquares a, blk_maxFastDb = levelDbFloored (acc_maxFast a),
               blk_maxSlowDb = levelDbFloored (acc_maxSlow a), blk_peakDb = levelDbFloored (acc_maxPeak a),
               blk_flags = acc_flags a\<rparr>;
          place = (acc_readyHead a + acc_readyCount a) mod kReadyCapacity
      in a\<lparr>acc_nextIndex := acc_nextIndex a + 1, acc_ready := (acc_ready a)[place := b],
           acc_readyCount := acc_readyCount a + 1, acc_pending := 0, acc_sumSquares := 0, acc_maxFast := 0,
           acc_maxSlow := 0, acc_maxPeak := 0, acc_dropped := 0, acc_flags := 0\<rparr>)"

text \<open>The inner loop over the samples one block still takes.\<close>

fun acc_samples :: "BlockAccumulator \<Rightarrow> real list \<Rightarrow> real list \<Rightarrow> BlockAccumulator" where
  "acc_samples a (x # xs) (p # ps) =
     (let (mf, fast) = processSample (acc_fast a) x; (ms, slow) = processSample (acc_slow a) x
      in acc_samples
           (a\<lparr>acc_sumSquares := acc_sumSquares a + x * x, acc_maxFast := max (acc_maxFast a) mf,
              acc_maxSlow := max (acc_maxSlow a) ms, acc_maxPeak := max (acc_maxPeak a) (p * p),
              acc_fast := fast, acc_slow := slow\<rparr>) xs ps)"
| "acc_samples a _ _ = a"

lemma acc_samples_frame [simp]:
  "acc_blockSamples (acc_samples a xs ps) = acc_blockSamples a" "acc_pending (acc_samples a xs ps) = acc_pending a"
  "acc_readyCount (acc_samples a xs ps) = acc_readyCount a" "acc_readyHead (acc_samples a xs ps) = acc_readyHead a"
  "acc_ready (acc_samples a xs ps) = acc_ready a" "acc_nextIndex (acc_samples a xs ps) = acc_nextIndex a"
  "acc_dropped (acc_samples a xs ps) = acc_dropped a" "acc_flags (acc_samples a xs ps) = acc_flags a"
  by (induction a xs ps rule: acc_samples.induct) (simp_all add: case_prod_beta)

lemma acc_samples_energy:
  "length xs = length ps \<Longrightarrow> acc_sumSquares (acc_samples a xs ps) = acc_sumSquares a + (\<Sum>x \<leftarrow> xs. x * x)"
  by (induction a xs ps rule: acc_samples.induct) (simp_all add: case_prod_beta)

text \<open>The outer loop of \<^verbatim>\<open>push\<close>, on what is left of the two spans; it returns how many samples it took.\<close>

function push_loop :: "BlockAccumulator \<Rightarrow> real list \<Rightarrow> real list \<Rightarrow> nat \<times> BlockAccumulator" where
  "push_loop a ws ps =
     (if ws = [] then (0, a)
      else if acc_readyCount a \<ge> kReadyCapacity then (0, a)
      else (let room = unat (acc_blockSamples a - acc_pending a);
                n = min room (length ws);
                a1 = acc_samples a (take n ws) (take n ps);
                a2 = a1\<lparr>acc_pending := acc_pending a1 + word_of_nat n\<rparr>;
                a3 = (if acc_pending a2 \<ge> acc_blockSamples a2 then closeBlock a2 else a2);
                (consumed, a4) = push_loop a3 (drop n ws) (drop n ps)
            in (n + consumed, a4)))"
  by pat_completeness auto
termination
proof (relation "measures [\<lambda>(a, ws, ps). length ws, \<lambda>(a, ws, ps). kReadyCapacity - acc_readyCount a]", goal_cases)
  case (2 a ws ps room n a1 a2 a3)
  show ?case
  proof (cases "room = 0")
    case True
    then have "acc_pending a = acc_blockSamples a" using 2(3) by (simp add: unat_eq_zero)
    then have "acc_readyCount a3 = acc_readyCount a + 1" using 2 True by (simp add: closeBlock_def Let_def)
    then show ?thesis using 2(2,4) True by simp
  qed (use 2 in \<open>auto simp: min_def\<close>)
qed simp

declare push_loop.simps [simp del]

definition BlockAccumulator_push :: "BlockAccumulator \<Rightarrow> real list \<Rightarrow> real list \<Rightarrow> nat \<times> BlockAccumulator" where
  "BlockAccumulator_push a weighted peakStream =
     (if length weighted \<noteq> length peakStream then (0, a) else push_loop a weighted peakStream)"

definition BlockAccumulator_poll :: "BlockAccumulator \<Rightarrow> Block option \<times> BlockAccumulator" where
  "BlockAccumulator_poll a =
     (if acc_readyCount a = 0 then (None, a)
      else (Some (acc_ready a ! acc_readyHead a),
            a\<lparr>acc_readyHead := (acc_readyHead a + 1) mod kReadyCapacity, acc_readyCount := acc_readyCount a - 1\<rparr>))"

section \<open>The window\<close>

record WindowResult =
  win_leqDb :: "real option"
  win_maxFastDb :: real
  win_maxSlowDb :: real
  win_peakDb :: real
  win_blocks :: uint64_t
  win_samples :: uint64_t
  win_seconds :: real
  bufferFill :: real
  excludedBlocks :: uint64_t
  overloadBlocks :: uint64_t
  underRangeBlocks :: uint64_t
  droppedBlocks :: uint64_t
  gapBlocks :: uint64_t
  droppedSamplesTotal :: uint64_t

definition WindowResult_default :: WindowResult where
  "WindowResult_default =
     \<lparr>win_leqDb = None, win_maxFastDb = kLevelFloorDb, win_maxSlowDb = kLevelFloorDb, win_peakDb = kLevelFloorDb,
      win_blocks = 0, win_samples = 0, win_seconds = 0, bufferFill = 0, excludedBlocks = 0, overloadBlocks = 0,
      underRangeBlocks = 0, droppedBlocks = 0, gapBlocks = 0, droppedSamplesTotal = 0\<rparr>"

text \<open>The locals of the loop in \<^verbatim>\<open>combineBlocks\<close>.\<close>

record combine_state =
  cs_result :: WindowResult
  cs_sumSquares :: real
  cs_samples :: uint64_t
  cs_maxFast :: real
  cs_maxSlow :: real
  cs_peak :: real

definition count_flags :: "WindowResult \<Rightarrow> Block \<Rightarrow> WindowResult" where
  "count_flags r b =
     (let r = (if hasFlag (blk_flags b) Overload then r\<lparr>overloadBlocks := overloadBlocks r + 1\<rparr> else r);
          r = (if hasFlag (blk_flags b) UnderRange then r\<lparr>underRangeBlocks := underRangeBlocks r + 1\<rparr> else r);
          r = (if hasFlag (blk_flags b) Dropped then r\<lparr>droppedBlocks := droppedBlocks r + 1\<rparr> else r);
          r = (if hasFlag (blk_flags b) Gap then r\<lparr>gapBlocks := gapBlocks r + 1\<rparr> else r)
      in r\<lparr>droppedSamplesTotal := droppedSamplesTotal r + ucast (blk_dropped b)\<rparr>)"

definition combine_block :: "Block \<Rightarrow> combine_state \<Rightarrow> combine_state" where
  "combine_block b cs =
     (let r = count_flags (cs_result cs) b
      in if blk_flags b AND kExcludingFlags \<noteq> 0
         then cs\<lparr>cs_result := r\<lparr>excludedBlocks := excludedBlocks r + 1\<rparr>\<rparr>
         else \<lparr>cs_result = r\<lparr>win_blocks := win_blocks r + 1\<rparr>, cs_sumSquares = cs_sumSquares cs + blk_sumSquares b,
               cs_samples = cs_samples cs + ucast (blk_samples b), cs_maxFast = max (cs_maxFast cs) (blk_maxFastDb b),
               cs_maxSlow = max (cs_maxSlow cs) (blk_maxSlowDb b), cs_peak = max (cs_peak cs) (blk_peakDb b)\<rparr>)"

definition combine_start :: combine_state where
  "combine_start = \<lparr>cs_result = WindowResult_default, cs_sumSquares = 0, cs_samples = 0, cs_maxFast = kLevelFloorDb,
     cs_maxSlow = kLevelFloorDb, cs_peak = kLevelFloorDb\<rparr>"

definition combineBlocks :: "Block list \<Rightarrow> real \<Rightarrow> real \<Rightarrow> uint64_t \<Rightarrow> WindowResult" where
  "combineBlocks blocks rate offset windowBlocks =
     (let cs = fold combine_block blocks combine_start;
          r = (cs_result cs)\<lparr>win_samples := cs_samples cs,
                win_seconds := (if rate > 0 then real (unat (cs_samples cs)) / rate else 0)\<rparr>;
          r = (if windowBlocks > 0
               then (let fill = real (length blocks) / real (unat windowBlocks) in r\<lparr>bufferFill := (if fill > 1 then 1 else fill)\<rparr>)
               else r)
      in if cs_samples cs > 0 \<and> cs_sumSquares cs > 0
         then r\<lparr>win_leqDb := Some (10 * log 10 (cs_sumSquares cs / real (unat (cs_samples cs))) + offset),
                win_maxFastDb := cs_maxFast cs + offset, win_maxSlowDb := cs_maxSlow cs + offset,
                win_peakDb := cs_peak cs + offset\<rparr>
         else if cs_samples cs > 0
         then r\<lparr>win_leqDb := Some (kLevelFloorDb + offset), win_maxFastDb := cs_maxFast cs + offset,
                win_maxSlowDb := cs_maxSlow cs + offset, win_peakDb := cs_peak cs + offset\<rparr>
         else r)"

definition calibrationOffsetDb :: "real \<Rightarrow> real \<Rightarrow> real" where
  "calibrationOffsetDb calibratorLevelDb measuredLevelDb = calibratorLevelDb - measuredLevelDb"

section \<open>Headroom and the alarm latch\<close>

text \<open>The inputs of \<^verbatim>\<open>headroomDb\<close> are finite; its guards against NaN have nothing to do then.\<close>

definition headroomDb :: "real \<Rightarrow> real \<Rightarrow> real \<Rightarrow> real \<Rightarrow> real option" where
  "headroomDb windowSeconds elapsedSeconds elapsedLeqDb limitDb =
     (if \<not> windowSeconds > 0 then None
      else if \<not> elapsedSeconds \<ge> 0 then None
      else (let remaining = windowSeconds - elapsedSeconds
            in if \<not> remaining > 0 then None
               else (let budget = windowSeconds * 10 powr (limitDb / 10);
                         spent = elapsedSeconds * 10 powr (elapsedLeqDb / 10);
                         bracket = (budget - spent) / remaining
                     in if \<not> bracket > 0 then None else Some (10 * log 10 bracket))))"

datatype Transition = NoTransition | Fired | Cleared

record AlarmLatch =
  alarm_active :: bool

definition AlarmLatch_new :: AlarmLatch where
  "AlarmLatch_new = \<lparr>alarm_active = False\<rparr>"

definition AlarmLatch_update :: "AlarmLatch \<Rightarrow> WindowResult \<Rightarrow> real \<Rightarrow> Transition \<times> AlarmLatch" where
  "AlarmLatch_update a windowed limitDb =
     (case win_leqDb windowed of
        None \<Rightarrow> (NoTransition, a)
      | Some leq \<Rightarrow>
          (let over = (leq > limitDb)
           in if over = alarm_active a then (NoTransition, a)
              else (if over then Fired else Cleared, a\<lparr>alarm_active := over\<rparr>)))"

definition AlarmLatch_reset :: "AlarmLatch \<Rightarrow> AlarmLatch" where
  "AlarmLatch_reset a = a\<lparr>alarm_active := False\<rparr>"

section \<open>The blocks partition the stream\<close>

definition energy :: "real list \<Rightarrow> real" where
  "energy xs = (\<Sum>x \<leftarrow> xs. x * x)"

lemma energy_append [simp]: "energy (xs @ ys) = energy xs + energy ys"
  by (simp add: energy_def)

lemma energy_concat: "energy (concat xss) = sum_list (map energy xss)"
  by (induction xss) (simp_all add: energy_def)

text \<open>The finished blocks that wait, oldest first.\<close>

definition waiting :: "BlockAccumulator \<Rightarrow> Block list" where
  "waiting a = map (\<lambda>i. acc_ready a ! ((acc_readyHead a + i) mod kReadyCapacity)) [0..<acc_readyCount a]"

text \<open>The accumulator has \<open>cur\<close> in its unfinished block, and only plain blocks wait.\<close>

definition acc_rel :: "BlockAccumulator \<Rightarrow> real list \<Rightarrow> bool" where
  "acc_rel a cur \<longleftrightarrow> length (acc_ready a) = kReadyCapacity \<and> acc_readyHead a < kReadyCapacity \<and>
     acc_readyCount a \<le> kReadyCapacity \<and> unat (acc_pending a) = length cur \<and>
     length cur < unat (acc_blockSamples a) \<and> acc_sumSquares a = energy cur \<and> acc_flags a = 0 \<and>
     (\<forall>b \<in> set (waiting a). blk_flags b = 0 \<and> blk_samples b = acc_blockSamples a)"

lemma slots_differ: "i < c \<Longrightarrow> c < 4 \<Longrightarrow> (h + i) mod 4 \<noteq> (h + c) mod (4 :: nat)"
  by presburger

lemma waiting_closeBlock:
  assumes "length (acc_ready a) = kReadyCapacity" "acc_readyCount a < kReadyCapacity"
  shows "\<exists>b. waiting (closeBlock a) = waiting a @ [b] \<and> blk_sumSquares b = acc_sumSquares a \<and>
    blk_flags b = acc_flags a \<and> blk_samples b = acc_blockSamples a"
  using assms slots_differ [of _ "acc_readyCount a" "acc_readyHead a"]
  by (simp add: waiting_def closeBlock_def Let_def kReadyCapacity_def nth_list_update) (metis atLeastLessThan_iff)

lemma closeBlock_fields [simp]:
  "acc_readyCount (closeBlock a) = Suc (acc_readyCount a)" "acc_pending (closeBlock a) = 0"
  "acc_sumSquares (closeBlock a) = 0" "acc_flags (closeBlock a) = 0" "acc_blockSamples (closeBlock a) = acc_blockSamples a"
  "acc_readyHead (closeBlock a) = acc_readyHead a" "length (acc_ready (closeBlock a)) = length (acc_ready a)"
  by (simp_all add: closeBlock_def Let_def)

lemma waiting_cong:
  "acc_ready a = acc_ready b \<Longrightarrow> acc_readyHead a = acc_readyHead b \<Longrightarrow> acc_readyCount a = acc_readyCount b \<Longrightarrow> waiting a = waiting b"
  by (simp add: waiting_def)

text \<open>One turn of the loop: \<open>n\<close> samples join the block, which closes when it is full.\<close>

definition take_in :: "BlockAccumulator \<Rightarrow> nat \<Rightarrow> real list \<Rightarrow> real list \<Rightarrow> BlockAccumulator" where
  "take_in a n ws ps =
     (let a1 = acc_samples a (take n ws) (take n ps); a2 = a1\<lparr>acc_pending := acc_pending a1 + word_of_nat n\<rparr>
      in if acc_pending a2 \<ge> acc_blockSamples a2 then closeBlock a2 else a2)"

lemma take_in_spec:
  assumes "acc_rel a cur" "length ws = length ps" "acc_readyCount a < kReadyCapacity"
  defines "n \<equiv> min (unat (acc_blockSamples a - acc_pending a)) (length ws)"
  shows "length cur + n = unat (acc_blockSamples a) \<and> acc_rel (take_in a n ws ps) [] \<and>
      map blk_sumSquares (waiting (take_in a n ws ps)) = map blk_sumSquares (waiting a) @ [energy (cur @ take n ws)] \<or>
    n = length ws \<and> acc_rel (take_in a n ws ps) (cur @ ws) \<and> waiting (take_in a n ws ps) = waiting a"
proof -
  have rel: "unat (acc_pending a) = length cur" "length cur < unat (acc_blockSamples a)"
    using assms(1) by (simp_all add: acc_rel_def)
  have room: "unat (acc_blockSamples a - acc_pending a) = unat (acc_blockSamples a) - length cur"
    using rel by (simp add: unat_sub word_le_nat_alt)
  have n: "n \<le> length ws" "length cur + n \<le> unat (acc_blockSamples a)" using room rel by (simp_all add: n_def)
  have bound: "unat (acc_blockSamples a) < 2 ^ 32" using unsigned_less [where ?'b = 32 and ?'a = nat, of "acc_blockSamples a"] by simp
  define a2 where "a2 = (acc_samples a (take n ws) (take n ps))\<lparr>acc_pending := acc_pending a + word_of_nat n\<rparr>"
  have pend: "unat (acc_pending a2) = length cur + n"
    using n(2) bound rel(1) by (simp add: a2_def unat_word_ariths unat_of_nat)
  have sum: "acc_sumSquares a2 = energy (cur @ take n ws)"
    using assms(1,2) acc_samples_energy [of "take n ws" "take n ps" a] by (simp add: a2_def acc_rel_def energy_def)
  have fields: "acc_blockSamples a2 = acc_blockSamples a" "acc_readyCount a2 = acc_readyCount a"
    "acc_readyHead a2 = acc_readyHead a" "acc_ready a2 = acc_ready a" "acc_flags a2 = acc_flags a"
    by (simp_all add: a2_def)
  have wait: "waiting a2 = waiting a" using fields by (intro waiting_cong) simp_all
  have ti: "take_in a n ws ps = (if acc_pending a2 \<ge> acc_blockSamples a then closeBlock a2 else a2)"
    by (simp add: take_in_def Let_def a2_def)
  show ?thesis
  proof (cases "length cur + n = unat (acc_blockSamples a)")
    case True
    then have t: "take_in a n ws ps = closeBlock a2" using pend by (simp add: ti word_le_nat_alt)
    obtain b where b: "waiting (closeBlock a2) = waiting a @ [b]" "blk_sumSquares b = acc_sumSquares a2"
      "blk_flags b = acc_flags a" "blk_samples b = acc_blockSamples a"
      using waiting_closeBlock [of a2] assms(1,3) fields wait by (auto simp: acc_rel_def)
    have "acc_rel (closeBlock a2) []"
      using assms(1,3) b fields rel(2) by (auto simp: acc_rel_def energy_def)
    then show ?thesis using True t b(1,2) sum by simp
  next
    case False
    then have all: "n = length ws" using n(2) room rel(2) by (simp add: n_def)
    have t: "take_in a n ws ps = a2" using False pend n(2) by (simp add: ti word_le_nat_alt)
    have "acc_rel a2 (cur @ ws)"
      using assms(1) pend sum fields wait False n(2) all by (auto simp: acc_rel_def)
    then show ?thesis using t all wait by simp
  qed
qed

lemma push_loop_unfold:
  assumes "ws \<noteq> []" "acc_readyCount a < kReadyCapacity"
  defines "n \<equiv> min (unat (acc_blockSamples a - acc_pending a)) (length ws)"
  shows "push_loop a ws ps =
    (n + fst (push_loop (take_in a n ws ps) (drop n ws) (drop n ps)), snd (push_loop (take_in a n ws ps) (drop n ws) (drop n ps)))"
  using assms(1,2) unfolding n_def by (subst push_loop.simps) (simp add: take_in_def Let_def case_prod_beta)

lemma take_in_samples [simp]: "acc_blockSamples (take_in a n ws ps) = acc_blockSamples a"
  by (simp add: take_in_def Let_def)

lemma push_loop_spec:
  assumes "acc_rel a cur" "length ws = length ps"
  shows "\<exists>chunks rest. cur @ take (fst (push_loop a ws ps)) ws = concat chunks @ rest \<and>
    (\<forall>c \<in> set chunks. length c = unat (acc_blockSamples a)) \<and> acc_rel (snd (push_loop a ws ps)) rest \<and>
    acc_blockSamples (snd (push_loop a ws ps)) = acc_blockSamples a \<and>
    map blk_sumSquares (waiting (snd (push_loop a ws ps))) = map blk_sumSquares (waiting a) @ map energy chunks \<and>
    fst (push_loop a ws ps) \<le> length ws \<and>
    (fst (push_loop a ws ps) < length ws \<longrightarrow> acc_readyCount (snd (push_loop a ws ps)) = kReadyCapacity)"
  using assms
proof (induction "length ws" arbitrary: a cur ws ps rule: less_induct)
  case less
  show ?case
  proof (cases "ws = [] \<or> acc_readyCount a \<ge> kReadyCapacity")
    case True
    then have "push_loop a ws ps = (0, a)" by (subst push_loop.simps) auto
    then show ?thesis
      using less.prems True by (intro exI [of _ "[]"] exI [of _ cur]) (auto simp: acc_rel_def)
  next
    case False
    define n where "n = min (unat (acc_blockSamples a - acc_pending a)) (length ws)"
    define t where "t = take_in a n ws ps"
    have ws: "ws \<noteq> []" "acc_readyCount a < kReadyCapacity" using False by auto
    have loop: "push_loop a ws ps = (n + fst (push_loop t (drop n ws) (drop n ps)), snd (push_loop t (drop n ws) (drop n ps)))"
      using push_loop_unfold [OF ws] by (simp add: n_def t_def)
    have rel: "length cur < unat (acc_blockSamples a)" "unat (acc_pending a) = length cur"
      using less.prems(1) by (simp_all add: acc_rel_def)
    then have n: "0 < n" "n \<le> length ws" using ws(1) by (simp_all add: n_def unat_sub word_le_nat_alt)
    have bs: "acc_blockSamples t = acc_blockSamples a" by (simp add: t_def)
    have len: "length (drop n ws) < length ws" "length (drop n ws) = length (drop n ps)"
      using n less.prems(2) by simp_all
    consider (full) "length cur + n = unat (acc_blockSamples a)" "acc_rel t []"
        "map blk_sumSquares (waiting t) = map blk_sumSquares (waiting a) @ [energy (cur @ take n ws)]"
      | (part) "n = length ws" "acc_rel t (cur @ ws)" "waiting t = waiting a"
      using take_in_spec [OF less.prems ws(2)] unfolding n_def [symmetric] t_def [symmetric] by blast
    then show ?thesis
    proof cases
      case full
      let ?c = "fst (push_loop t (drop n ws) (drop n ps))"
      obtain chunks rest where IH: "[] @ take ?c (drop n ws) = concat chunks @ rest"
        "\<forall>c \<in> set chunks. length c = unat (acc_blockSamples t)" "acc_rel (snd (push_loop t (drop n ws) (drop n ps))) rest"
        "acc_blockSamples (snd (push_loop t (drop n ws) (drop n ps))) = acc_blockSamples t"
        "map blk_sumSquares (waiting (snd (push_loop t (drop n ws) (drop n ps)))) = map blk_sumSquares (waiting t) @ map energy chunks"
        "?c \<le> length (drop n ws)"
        "?c < length (drop n ws) \<longrightarrow> acc_readyCount (snd (push_loop t (drop n ws) (drop n ps))) = kReadyCapacity"
        using less.hyps [OF len(1) full(2) len(2)] by blast
      have "cur @ take (n + ?c) ws = concat ((cur @ take n ws) # chunks) @ rest"
        using IH(1) by (simp add: take_add)
      moreover have "length (cur @ take n ws) = unat (acc_blockSamples a)" using full(1) n(2) by simp
      ultimately show ?thesis
        using IH full(3) bs n(2) loop by (intro exI [of _ "(cur @ take n ws) # chunks"] exI [of _ rest]) auto
    next
      case part
      then have "push_loop t (drop n ws) (drop n ps) = (0, t)" by (subst push_loop.simps) simp
      then show ?thesis
        using part bs loop by (intro exI [of _ "[]"] exI [of _ "cur @ ws"]) simp
    qed
  qed
qed

text \<open>The caller that drains after every push.\<close>

fun poll_all :: "nat \<Rightarrow> BlockAccumulator \<Rightarrow> Block list \<times> BlockAccumulator" where
  "poll_all 0 a = ([], a)"
| "poll_all (Suc fuel) a =
     (case BlockAccumulator_poll a of
        (None, a') \<Rightarrow> ([], a')
      | (Some b, a') \<Rightarrow> (let (bs, a'') = poll_all fuel a' in (b # bs, a'')))"

fun measure_hops :: "BlockAccumulator \<Rightarrow> (real list \<times> real list) list \<Rightarrow> Block list \<times> BlockAccumulator" where
  "measure_hops a [] = ([], a)"
| "measure_hops a ((ws, ps) # hops) =
     (let (_, a1) = BlockAccumulator_push a ws ps; (bs, a2) = poll_all kReadyCapacity a1; (bs', a3) = measure_hops a2 hops
      in (bs @ bs', a3))"

lemma poll_spec:
  assumes "acc_rel a cur" "0 < acc_readyCount a"
  shows "\<exists>b a'. BlockAccumulator_poll a = (Some b, a') \<and> waiting a = b # waiting a' \<and> acc_rel a' cur \<and>
    acc_readyCount a' = acc_readyCount a - 1 \<and> acc_blockSamples a' = acc_blockSamples a"
proof -
  obtain m where m: "acc_readyCount a = Suc m" using assms(2) gr0_conv_Suc by blast
  let ?a = "a\<lparr>acc_readyHead := (acc_readyHead a + 1) mod kReadyCapacity, acc_readyCount := m\<rparr>"
  have head: "acc_readyHead a < kReadyCapacity" using assms(1) by (simp add: acc_rel_def)
  have "waiting a = acc_ready a ! acc_readyHead a # waiting ?a"
    unfolding waiting_def m upt_conv_Cons [OF zero_less_Suc] map_Suc_upt [symmetric]
    using head by (simp add: mod_simps)
  then show ?thesis
    using assms m by (auto simp: BlockAccumulator_poll_def acc_rel_def kReadyCapacity_def)
qed

lemma poll_all_spec:
  assumes "acc_rel a cur" "acc_readyCount a \<le> fuel"
  shows "fst (poll_all fuel a) = waiting a \<and> acc_rel (snd (poll_all fuel a)) cur \<and>
    acc_readyCount (snd (poll_all fuel a)) = 0 \<and> acc_blockSamples (snd (poll_all fuel a)) = acc_blockSamples a"
  using assms
proof (induction fuel arbitrary: a)
  case 0
  then show ?case by (simp add: waiting_def)
next
  case (Suc fuel)
  show ?case
  proof (cases "acc_readyCount a = 0")
    case True
    then show ?thesis using Suc.prems by (simp add: BlockAccumulator_poll_def waiting_def)
  next
    case False
    then obtain b a' where a': "BlockAccumulator_poll a = (Some b, a')" "waiting a = b # waiting a'" "acc_rel a' cur"
      "acc_readyCount a' = acc_readyCount a - 1" "acc_blockSamples a' = acc_blockSamples a"
      using poll_spec [OF Suc.prems(1)] by auto
    then show ?thesis using Suc.IH [of a'] Suc.prems(2) by (simp add: case_prod_beta)
  qed
qed

definition plain_block :: "uint32_t \<Rightarrow> Block \<Rightarrow> bool" where
  "plain_block n b \<longleftrightarrow> blk_flags b AND kExcludingFlags = 0 \<and> blk_samples b = n"

lemma length_concat_equal: "\<forall>c \<in> set cs. length c = n \<Longrightarrow> length (concat cs) = length cs * n"
  by (induction cs) simp_all

lemma push_hop_spec:
  assumes "acc_rel a cur" "acc_readyCount a = 0" "length ws = length ps" "length ws \<le> unat (acc_blockSamples a)"
  shows "\<exists>chunks rest. cur @ ws = concat chunks @ rest \<and> (\<forall>c \<in> set chunks. length c = unat (acc_blockSamples a)) \<and>
    acc_rel (snd (BlockAccumulator_push a ws ps)) rest \<and>
    acc_blockSamples (snd (BlockAccumulator_push a ws ps)) = acc_blockSamples a \<and>
    map blk_sumSquares (waiting (snd (BlockAccumulator_push a ws ps))) = map energy chunks"
proof -
  let ?c = "fst (push_loop a ws ps)" and ?a = "snd (push_loop a ws ps)"
  have none: "waiting a = []" using assms(2) by (simp add: waiting_def)
  obtain chunks rest where r: "cur @ take ?c ws = concat chunks @ rest"
    "\<forall>c \<in> set chunks. length c = unat (acc_blockSamples a)" "acc_rel ?a rest" "acc_blockSamples ?a = acc_blockSamples a"
    "map blk_sumSquares (waiting ?a) = map energy chunks" "?c \<le> length ws"
    "?c < length ws \<longrightarrow> acc_readyCount ?a = kReadyCapacity"
    using push_loop_spec [OF assms(1,3)] none by auto
  have "?c = length ws"
  proof (rule ccontr)
    assume "?c \<noteq> length ws"
    then have "acc_readyCount ?a = kReadyCapacity" using r(6,7) by simp
    then have "length chunks = 4" using arg_cong [OF r(5), of length] by (simp add: waiting_def kReadyCapacity_def)
    then have "length cur + ?c \<ge> 4 * unat (acc_blockSamples a)"
      using arg_cong [OF r(1), of length] length_concat_equal [OF r(2)] r(6) by simp
    then show False using assms(1,4) r(6) by (simp add: acc_rel_def)
  qed
  then show ?thesis using r assms(3) by (auto simp: BlockAccumulator_push_def)
qed

lemma measure_hops_spec:
  assumes "acc_rel a cur" "acc_readyCount a = 0"
    "\<forall>(ws, ps) \<in> set hops. length ws = length ps \<and> length ws \<le> unat (acc_blockSamples a)"
  shows "\<exists>chunks rest. cur @ concat (map fst hops) = concat chunks @ rest \<and> length rest < unat (acc_blockSamples a) \<and>
    (\<forall>c \<in> set chunks. length c = unat (acc_blockSamples a)) \<and>
    map blk_sumSquares (fst (measure_hops a hops)) = map energy chunks \<and>
    (\<forall>b \<in> set (fst (measure_hops a hops)). plain_block (acc_blockSamples a) b)"
  using assms
proof (induction hops arbitrary: a cur)
  case Nil
  then show ?case by (intro exI [of _ "[]"] exI [of _ cur]) (simp add: acc_rel_def)
next
  case (Cons hop hops)
  obtain ws ps where hop: "hop = (ws, ps)" by (cases hop)
  define a1 where "a1 = snd (BlockAccumulator_push a ws ps)"
  define a2 where "a2 = snd (poll_all kReadyCapacity a1)"
  obtain c1 r1 where p: "cur @ ws = concat c1 @ r1" "\<forall>c \<in> set c1. length c = unat (acc_blockSamples a)"
    "acc_rel a1 r1" "acc_blockSamples a1 = acc_blockSamples a" "map blk_sumSquares (waiting a1) = map energy c1"
    using push_hop_spec [OF Cons.prems(1,2), of ws ps] Cons.prems(3) unfolding a1_def by (auto simp: hop)
  have q: "fst (poll_all kReadyCapacity a1) = waiting a1" "acc_rel a2 r1" "acc_readyCount a2 = 0"
    "acc_blockSamples a2 = acc_blockSamples a"
    using poll_all_spec [OF p(3), of kReadyCapacity] p(3,4) by (simp_all add: a2_def acc_rel_def)
  obtain c2 r2 where IH: "r1 @ concat (map fst hops) = concat c2 @ r2" "length r2 < unat (acc_blockSamples a)"
    "\<forall>c \<in> set c2. length c = unat (acc_blockSamples a)" "map blk_sumSquares (fst (measure_hops a2 hops)) = map energy c2"
    "\<forall>b \<in> set (fst (measure_hops a2 hops)). plain_block (acc_blockSamples a) b"
    using Cons.IH [OF q(2,3)] Cons.prems(3) q(4) by auto
  have run: "fst (measure_hops a (hop # hops)) = waiting a1 @ fst (measure_hops a2 hops)"
    by (simp add: hop case_prod_beta q(1) flip: a1_def a2_def)
  have "\<forall>b \<in> set (waiting a1). plain_block (acc_blockSamples a) b"
    using p(3,4) by (simp add: acc_rel_def plain_block_def)
  moreover have "cur @ concat (map fst (hop # hops)) = concat (c1 @ c2) @ r2"
    using p(1) IH(1) by (simp add: hop) (metis append.assoc)
  ultimately show ?case
    using p(2,5) IH(2-5) run by (intro exI [of _ "c1 @ c2"] exI [of _ r2]) auto
qed

lemma combine_plain:
  assumes "\<forall>b \<in> set bs. plain_block n b"
  shows "cs_sumSquares (fold combine_block bs cs) = cs_sumSquares cs + sum_list (map blk_sumSquares bs) \<and>
    cs_samples (fold combine_block bs cs) = cs_samples cs + word_of_nat (length bs) * ucast n \<and>
    excludedBlocks (cs_result (fold combine_block bs cs)) = excludedBlocks (cs_result cs)"
  using assms
proof (induction bs arbitrary: cs)
  case (Cons b bs)
  have "blk_flags b AND kExcludingFlags = 0" "blk_samples b = n" using Cons.prems by (simp_all add: plain_block_def)
  then have "cs_sumSquares (combine_block b cs) = cs_sumSquares cs + blk_sumSquares b"
    "cs_samples (combine_block b cs) = cs_samples cs + ucast n"
    "excludedBlocks (cs_result (combine_block b cs)) = excludedBlocks (cs_result cs)"
    by (simp_all add: combine_block_def Let_def count_flags_def)
  then show ?case using Cons.IH [of "combine_block b cs"] Cons.prems by (simp add: algebra_simps)
qed simp

lemma unat_ucast_32_64: "unat (ucast (n :: uint32_t) :: uint64_t) = unat n"
proof -
  have "unat n < 2 ^ 64" using unsigned_less [where ?'b = 32 and ?'a = nat, of n] by simp
  then show ?thesis by (simp add: unsigned_ucast_eq take_bit_nat_eq_self)
qed

lemma unat_nat64: "m < 2 ^ 64 \<Longrightarrow> unat (word_of_nat m :: uint64_t) = m"
  by (simp add: unat_of_nat)

lemma combine_plain_window:
  assumes "\<forall>b \<in> set bs. plain_block n b" "length bs * unat n < 2 ^ 64" "0 < unat n"
  shows "unat (win_samples (combineBlocks bs rate offset w)) = length bs * unat n \<and>
    excludedBlocks (combineBlocks bs rate offset w) = 0 \<and>
    win_leqDb (combineBlocks bs rate offset w) =
      (if bs = [] then None
       else Some ((if 0 < sum_list (map blk_sumSquares bs)
                   then 10 * log 10 (sum_list (map blk_sumSquares bs) / real (length bs * unat n))
                   else kLevelFloorDb) + offset))"
proof -
  let ?cs = "fold combine_block bs combine_start"
  have cs: "cs_sumSquares ?cs = sum_list (map blk_sumSquares bs)" "cs_samples ?cs = word_of_nat (length bs) * ucast n"
    "excludedBlocks (cs_result ?cs) = 0"
    using combine_plain [OF assms(1), of combine_start] by (simp_all add: combine_start_def WindowResult_default_def)
  have "unat (word_of_nat (length bs * unat n) :: uint64_t) = length bs * unat n"
    using assms(2) by (rule unat_nat64)
  moreover have "(word_of_nat (length bs * unat n) :: uint64_t) = word_of_nat (length bs) * ucast n"
  proof -
    have "(word_of_nat (unat (ucast n :: uint64_t)) :: uint64_t) = ucast n" by simp
    then have "(word_of_nat (unat n) :: uint64_t) = ucast n" by (simp only: unat_ucast_32_64)
    then show ?thesis by simp
  qed
  ultimately have samples: "unat (cs_samples ?cs) = length bs * unat n" using cs(2) by simp
  have pos: "cs_samples ?cs > 0 \<longleftrightarrow> bs \<noteq> []"
    using samples assms(3) by (simp add: word_less_nat_alt)
  have leq: "win_leqDb (cs_result ?cs) = None"
  proof -
    have keep: "win_leqDb (cs_result (fold combine_block bs c)) = win_leqDb (cs_result c)" for c
      by (induction bs arbitrary: c) (simp_all add: combine_block_def count_flags_def Let_def)
    show ?thesis by (simp add: keep combine_start_def WindowResult_default_def)
  qed
  have fields: "win_samples (combineBlocks bs rate offset w) = cs_samples ?cs"
    "excludedBlocks (combineBlocks bs rate offset w) = excludedBlocks (cs_result ?cs)"
    "win_leqDb (combineBlocks bs rate offset w) =
       (if cs_samples ?cs > 0 \<and> cs_sumSquares ?cs > 0
        then Some (10 * log 10 (cs_sumSquares ?cs / real (unat (cs_samples ?cs))) + offset)
        else if cs_samples ?cs > 0 then Some (kLevelFloorDb + offset) else win_leqDb (cs_result ?cs))"
    by (simp_all add: combineBlocks_def Let_def)
  show ?thesis
    unfolding fields leq cs(1,3) samples pos by simp
qed

lemma floor_log: "log 10 (1 / 10 ^ 20) = (- 20 :: real)"
proof -
  have "log 10 ((10 :: real) ^ 20) = real 20" by (rule log_pow_cancel) simp_all
  moreover have "log 10 (1 / (10 :: real) ^ 20) = log 10 1 - log 10 (10 ^ 20)" by (rule log_divide_pos) simp_all
  ultimately show ?thesis by simp
qed

section \<open>Properties\<close>

text \<open>
  Property C30: a window over the blocks reads the stream.  For a fresh accumulator of \<open>N\<close> samples per block fed in
  hops of at most \<open>N\<close> samples and polled after each, one block comes out per \<open>N\<close> samples, the blocks carry
  the energies of the successive \<open>N\<close>-sample pieces, no block is excluded, and the windowed level is that of the
  mean square of exactly those samples; where that is not below the floor it is what the integrating
  meter reports for the same samples.
\<close>

theorem window_reads_stream:
  fixes hops :: "(real list \<times> real list) list" and offset :: real
  assumes "BlockAccumulator_new N rate = Inr a" "0 < unat N"
    and "\<forall>(ws, ps) \<in> set hops. length ws = length ps \<and> length ws \<le> unat N"
    and "length (concat (map fst hops)) < 2 ^ 64"
  defines "bs \<equiv> fst (measure_hops a hops)"
  defines "xs \<equiv> take (length bs * unat N) (concat (map fst hops))"
  defines "w \<equiv> combineBlocks bs rate offset 0"
  shows "length bs = length (concat (map fst hops)) div unat N \<and> length xs = length bs * unat N \<and>
    (\<exists>pieces. xs = concat pieces \<and> (\<forall>c \<in> set pieces. length c = unat N) \<and> map blk_sumSquares bs = map energy pieces) \<and>
    excludedBlocks w = 0 \<and> unat (win_samples w) = length xs \<and>
    win_leqDb w = (if xs = [] then None
      else Some ((if 0 < energy xs then 10 * log 10 (energy xs / real (length xs)) else kLevelFloorDb) + offset)) \<and>
    (\<forall>l l'. Leq_new rate offset Fast = Inr l \<longrightarrow> 5 \<le> rate \<longrightarrow> Leq_process l xs = Some l' \<longrightarrow>
       1 / 10 ^ 20 \<le> energy xs / real (length xs) \<longrightarrow> win_leqDb w = Some (leqDb l'))"
proof -
  have new: "acc_rel a []" "acc_readyCount a = 0" "acc_blockSamples a = N"
    using assms(1,2) by (auto simp: BlockAccumulator_new_def acc_rel_def kReadyCapacity_def waiting_def energy_def split: sum.splits)
  obtain chunks rest where m: "concat (map fst hops) = concat chunks @ rest" "length rest < unat N"
    "\<forall>c \<in> set chunks. length c = unat N" "map blk_sumSquares bs = map energy chunks" "\<forall>b \<in> set bs. plain_block N b"
    using measure_hops_spec [OF new(1,2), of hops] assms(3) new(3) by (auto simp: bs_def)
  have len: "length bs = length chunks" using arg_cong [OF m(4), of length] by simp
  have cat: "length (concat chunks) = length bs * unat N" using length_concat_equal [OF m(3)] len by simp
  have xs: "xs = concat chunks" using m(1) cat by (simp add: xs_def)
  have div: "length bs = length (concat (map fst hops)) div unat N"
  proof -
    have "length (concat (map fst hops)) = length bs * unat N + length rest" using m(1) cat by simp
    then show ?thesis using m(2) by simp
  qed
  have small: "length bs * unat N < 2 ^ 64" using assms(4) m(1) cat by simp
  have en: "sum_list (map blk_sumSquares bs) = energy xs" using m(4) xs by (simp add: energy_concat)
  have nil: "bs = [] \<longleftrightarrow> xs = []" using cat assms(2) xs by (metis length_0_conv mult_is_0 neq0_conv)
  note win = combine_plain_window [OF m(5) small assms(2), of rate offset 0]
  have leq: "win_leqDb w = (if xs = [] then None
      else Some ((if 0 < energy xs then 10 * log 10 (energy xs / real (length xs)) else kLevelFloorDb) + offset))"
    using win by (simp add: w_def en nil xs cat)
  have "win_leqDb w = Some (leqDb l')"
    if l: "Leq_new rate offset Fast = Inr l" "5 \<le> rate" "Leq_process l xs = Some l'"
      "1 / 10 ^ 20 \<le> energy xs / real (length xs)" for l l'
  proof -
    have pos: "0 < energy xs / real (length xs)" by (rule less_le_trans [OF _ l(4)]) simp
    then have ne: "xs \<noteq> []" by auto
    from pos have e: "0 < energy xs" by (simp add: zero_less_divide_iff)
    have "\<exists>x \<in> set xs. x \<noteq> 0"
    proof (rule ccontr)
      assume "\<not> (\<exists>x \<in> set xs. x \<noteq> 0)"
      then have "energy xs = 0" unfolding energy_def by (induction xs) auto
      then show False using e by simp
    qed
    then have level: "leqDb l' = max kLevelFloorDb (10 * log 10 (energy xs / real (length xs))) + offset"
      using Leq_process_new [OF l(1,2), of xs] l(3) by (simp add: energy_def)
    note floor_log
    moreover have "log 10 (1 / 10 ^ 20) \<le> log 10 (energy xs / real (length xs))"
      by (intro log_le_cancel_iff [THEN iffD2] pos l(4)) simp_all
    ultimately have "kLevelFloorDb \<le> 10 * log 10 (energy xs / real (length xs))"
      unfolding kLevelFloorDb_def by linarith
    then show ?thesis using leq ne e level by simp
  qed
  then show ?thesis
    using div leq win m(3,4) xs cat by (auto simp: w_def)
qed

theorem window_reads_stream_witness:
  "\<exists>a. BlockAccumulator_new 2 48000 = Inr a \<and>
     win_leqDb (combineBlocks (fst (measure_hops a [([1, 2], [0, 0]), ([3], [0]), ([], []), ([4, 5], [0, 0])])) 48000 94 0) =
       Some (10 * log 10 (30 / 4) + 94)"
proof -
  let ?hops = "[([1, 2], [0, 0]), ([3], [0]), ([], []), ([4, 5], [0, 0])] :: (real list \<times> real list) list"
  obtain a where a: "BlockAccumulator_new 2 48000 = Inr a" by (simp add: BlockAccumulator_new_def Detector_new_def)
  define bs where "bs = fst (measure_hops a ?hops)"
  have "length bs = 2 \<and> win_leqDb (combineBlocks bs 48000 94 0) = Some (10 * log 10 (30 / 4) + 94)"
    using window_reads_stream [OF a, of ?hops 94] unfolding bs_def [symmetric]
    by (auto simp: energy_def)
  then show ?thesis using a unfolding bs_def by blast
qed

lemma headroom_absent:
  assumes "0 < T" "0 \<le> t" "t < T"
  shows "headroomDb T t L limit = None \<longleftrightarrow> T * 10 powr (limit / 10) \<le> t * 10 powr (L / 10)"
  using assms by (auto simp: headroomDb_def Let_def divide_le_0_iff not_less)

text \<open>
  The headroom is the level that exactly fills the window.  Inside a window, if the formula
  gives a level then running at it for the remaining time makes the energy average of the whole window
  exactly the limit, and any higher level exceeds it; if it gives none, the energy already spent is at
  least the whole budget, so no level at all keeps the limit strictly.
\<close>

theorem headroom_fills_window:
  assumes "0 < T" "0 \<le> t" "t < T"
  shows "case headroomDb T t L limit of
      Some A \<Rightarrow> 10 * log 10 ((t * 10 powr (L / 10) + (T - t) * 10 powr (A / 10)) / T) = limit \<and>
        (\<forall>B > A. 10 * log 10 ((t * 10 powr (L / 10) + (T - t) * 10 powr (B / 10)) / T) > limit)
    | None \<Rightarrow> (\<forall>B. 10 * log 10 ((t * 10 powr (L / 10) + (T - t) * 10 powr (B / 10)) / T) > limit)"
proof -
  define E where "E B = t * 10 powr (L / 10) + (T - t) * 10 powr (B / 10)" for B :: real
  have pos: "0 < E B" for B using assms by (simp add: E_def add_nonneg_pos)
  have level: "10 * log 10 (E B / T) > limit \<longleftrightarrow> E B > T * 10 powr (limit / 10)" for B
  proof -
    have "10 * log 10 (E B / T) > limit \<longleftrightarrow> limit / 10 < log 10 (E B / T)" by linarith
    also have "\<dots> \<longleftrightarrow> 10 powr (limit / 10) < E B / T" using pos [of B] assms(1) by (intro less_log_iff) simp_all
    finally show ?thesis using assms(1) by (simp add: field_simps)
  qed
  show ?thesis
  proof (cases "headroomDb T t L limit")
    case None
    then have "T * 10 powr (limit / 10) \<le> t * 10 powr (L / 10)" using headroom_absent [OF assms] by simp
    moreover have "0 < (T - t) * 10 powr (B / 10)" for B :: real using assms(3) by simp
    ultimately have "E B > T * 10 powr (limit / 10)" for B unfolding E_def by (smt (verit))
    then show ?thesis using None level by (simp add: E_def)
  next
    case (Some A)
    define k where "k = (T * 10 powr (limit / 10) - t * 10 powr (L / 10)) / (T - t)"
    have k: "0 < k" "A = 10 * log 10 k" using Some assms by (auto simp: headroomDb_def Let_def k_def split: if_splits)
    then have "10 powr (A / 10) = k" by simp
    then have E: "E A = T * 10 powr (limit / 10)" using assms(3) by (simp add: E_def k_def)
    then have at: "10 * log 10 (E A / T) = limit" using assms(1) by simp
    have "E B > E A" if "B > A" for B using that assms(3) by (simp add: E_def)
    then have over: "\<forall>B > A. 10 * log 10 (E B / T) > limit" using level E by simp
    show ?thesis
      unfolding Some option.case using at over unfolding E_def by blast
  qed
qed

theorem headroom_fills_window_witness:
  "case headroomDb 900 450 90 100 of
      Some A \<Rightarrow> 10 * log 10 ((450 * 10 powr (90 / 10) + (900 - 450) * 10 powr (A / 10)) / 900) = 100 \<and>
        (\<forall>B > A. 10 * log 10 ((450 * 10 powr (90 / 10) + (900 - 450) * 10 powr (B / 10)) / 900) > 100)
    | None \<Rightarrow> (\<forall>B. 10 * log 10 ((450 * 10 powr (90 / 10) + (900 - 450) * 10 powr (B / 10)) / 900) > 100)"
  by (rule headroom_fills_window) simp_all

lemma alarm_run:
  "alarm_active (snd (AlarmLatch_update a w limit)) = (case win_leqDb w of None \<Rightarrow> alarm_active a | Some L \<Rightarrow> L > limit)"
  "fst (AlarmLatch_update a w limit) =
     (if alarm_active (snd (AlarmLatch_update a w limit)) = alarm_active a then NoTransition
      else if alarm_active (snd (AlarmLatch_update a w limit)) then Fired else Cleared)"
  by (auto simp: AlarmLatch_update_def Let_def split: option.splits)

text \<open>
  after any sequence of windows the alarm is active exactly when the last window that had a level
  was above the limit (windows without one change nothing), and a transition is reported exactly when
  the state changed, with its direction.
\<close>

theorem AlarmLatch_follows_window:
  "alarm_active (fold (\<lambda>w a. snd (AlarmLatch_update a w limit)) ws AlarmLatch_new) =
     (case List.map_filter win_leqDb ws of [] \<Rightarrow> False | ls \<Rightarrow> last ls > limit) \<and>
   fst (AlarmLatch_update a w limit) =
     (if alarm_active (snd (AlarmLatch_update a w limit)) = alarm_active a then NoTransition
      else if alarm_active (snd (AlarmLatch_update a w limit)) then Fired else Cleared)"
proof -
  have "alarm_active (fold (\<lambda>w a. snd (AlarmLatch_update a w limit)) ws AlarmLatch_new) =
     (case List.map_filter win_leqDb ws of [] \<Rightarrow> False | ls \<Rightarrow> last ls > limit)"
  proof (induction ws rule: rev_induct)
    case (snoc w ws)
    then show ?case
      by (cases "win_leqDb w") (auto simp: alarm_run map_filter_def split: list.splits)
  qed (simp add: AlarmLatch_new_def map_filter_def)
  then show ?thesis using alarm_run(2) by simp
qed

end
