(* ===== verification/Spl_History.thy ===== *)
theory Spl_History
  imports Measurement_Blocks
begin

text \<open>
  What a logged channel remembers of its blocks (\<^verbatim>\<open>app/src/measure/SplHistory.cpp\<close>) and the alarms over
  their sliding window (\<^verbatim>\<open>app/src/measure/SplAlarms.cpp\<close>), on top of the blocks, windows, headroom and latch
  of \<open>Measurement_Blocks\<close>.
\<close>

section \<open>History\<close>

datatype SplMarkerKind = MarkerAlarm | MarkerOverload | MarkerNote | MarkerReset | MarkerGap

text \<open>\<^verbatim>\<open>MarkerQuantity\<close>: at most 31 characters, read up to the first NUL.\<close>

definition marker_quantity :: "string \<Rightarrow> string" where
  "marker_quantity s = takeWhile (\<lambda>c. c \<noteq> CHR 0x00) (take 31 s)"

record SplMarker =
  mk_blockIndex :: uint64_t
  mk_kind :: SplMarkerKind
  mk_direction :: int
  mk_quantity :: string
  mk_metricIndex :: "nat option"
  mk_window :: uint64_t
  mk_value :: real

definition kMaxMarkers :: nat where
  "kMaxMarkers = 4096"

record SplHistory =
  h_capacity :: uint64_t
  h_ring :: "Block list"
  h_pushedCount :: uint64_t
  h_firstIndex :: uint64_t
  h_markers :: "SplMarker list"
  h_overflowedMarkers :: uint64_t

definition capacityBlocks :: "real \<Rightarrow> real \<Rightarrow> uint64_t" where
  "capacityBlocks spanSeconds blockSeconds =
     (if \<not> spanSeconds > 0 \<or> \<not> blockSeconds > 0 then 0
      else word_of_int \<lfloor>spanSeconds / blockSeconds + 1 / 2\<rfloor>)"

definition SplHistory_new :: "uint64_t \<Rightarrow> SplHistory" where
  "SplHistory_new capacity =
     \<lparr>h_capacity = capacity, h_ring = replicate (unat capacity) Block_default, h_pushedCount = 0,
      h_firstIndex = 0, h_markers = [], h_overflowedMarkers = 0\<rparr>"

definition SplHistory_push :: "Block \<Rightarrow> SplHistory \<Rightarrow> SplHistory" where
  "SplHistory_push block h =
     (if h_capacity h = 0 then h
      else let h = (if h_pushedCount h = 0 then h\<lparr>h_firstIndex := blockIndex block\<rparr> else h);
               h = h\<lparr>h_ring := (h_ring h)[unat (h_pushedCount h mod h_capacity h) := block]\<rparr>
           in h\<lparr>h_pushedCount := h_pushedCount h + 1\<rparr>)"

definition addMarker :: "SplMarker \<Rightarrow> SplHistory \<Rightarrow> SplHistory" where
  "addMarker marker h =
     (if length (h_markers h) \<ge> kMaxMarkers then h\<lparr>h_overflowedMarkers := h_overflowedMarkers h + 1\<rparr>
      else h\<lparr>h_markers := h_markers h @ [marker]\<rparr>)"

definition SplHistory_size :: "SplHistory \<Rightarrow> uint64_t" where
  "SplHistory_size h = (if h_pushedCount h < h_capacity h then h_pushedCount h else h_capacity h)"

definition oldestBlockIndex :: "SplHistory \<Rightarrow> uint64_t option" where
  "oldestBlockIndex h =
     (if h_pushedCount h = 0 then None
      else if h_pushedCount h \<le> h_capacity h then Some (h_firstIndex h)
      else Some (h_firstIndex h + h_pushedCount h - h_capacity h))"

definition newestBlockIndex :: "SplHistory \<Rightarrow> uint64_t option" where
  "newestBlockIndex h =
     (if h_pushedCount h = 0 then None else Some (h_firstIndex h + h_pushedCount h - 1))"

definition SplHistory_at :: "uint64_t \<Rightarrow> SplHistory \<Rightarrow> Block option" where
  "SplHistory_at idx h =
     (case (oldestBlockIndex h, newestBlockIndex h) of
        (Some oldest, Some newest) \<Rightarrow>
          if idx < oldest \<or> idx > newest then None
          else Some (h_ring h ! unat ((idx - h_firstIndex h) mod h_capacity h))
      | _ \<Rightarrow> None)"

section \<open>Alarms\<close>

definition windowLeqAt :: "Block list \<Rightarrow> real \<Rightarrow> real \<Rightarrow> uint64_t \<Rightarrow> nat \<Rightarrow> real option" where
  "windowLeqAt blocks rate offset windowBlocks start =
     win_leqDb (combineBlocks (take (unat windowBlocks) (drop start blocks)) rate offset windowBlocks)"

definition better :: "real option \<Rightarrow> real option \<Rightarrow> real option" where
  "better best v =
     (case v of None \<Rightarrow> best | Some x \<Rightarrow> (case best of None \<Rightarrow> Some x | Some b \<Rightarrow> if x > b then Some x else best))"

text \<open>The start positions of the two loops: one block apart, or one window apart.\<close>

definition sliding_starts :: "nat \<Rightarrow> nat \<Rightarrow> nat list" where
  "sliding_starts n w = [0..<n - w + 1]"

definition fixed_starts :: "nat \<Rightarrow> nat \<Rightarrow> nat list" where
  "fixed_starts n w = map (\<lambda>k. k * w) [0..<n div w]"

definition slidingMaxLeqDb :: "Block list \<Rightarrow> real \<Rightarrow> real \<Rightarrow> uint64_t \<Rightarrow> real option" where
  "slidingMaxLeqDb blocks rate offset windowBlocks =
     (if windowBlocks = 0 \<or> length blocks < unat windowBlocks then None
      else foldl (\<lambda>best start. better best (windowLeqAt blocks rate offset windowBlocks start)) None
             (sliding_starts (length blocks) (unat windowBlocks)))"

definition consecutiveFixedMaxLeqDb :: "Block list \<Rightarrow> real \<Rightarrow> real \<Rightarrow> uint64_t \<Rightarrow> real option" where
  "consecutiveFixedMaxLeqDb blocks rate offset windowBlocks =
     (if windowBlocks = 0 \<or> length blocks < unat windowBlocks then None
      else foldl (\<lambda>best start. better best (windowLeqAt blocks rate offset windowBlocks start)) None
             (fixed_starts (length blocks) (unat windowBlocks)))"

record SplAlarmSpec =
  spec_metricId :: string
  spec_limitDb :: real
  spec_windowBlocks :: uint64_t

text \<open>The floor of the published levels (\<^verbatim>\<open>Levels.h\<close>); the meters below have a lower one.\<close>

definition measure_kLevelFloorDb :: real where
  "measure_kLevelFloorDb = -120"

datatype SplAlarmState = AlarmFilling | AlarmClear | AlarmFired

record SplAlarm =
  al_spec :: SplAlarmSpec
  al_metricIndex :: "nat option"
  al_latch :: AlarmLatch
  al_state :: SplAlarmState
  al_windowEverFull :: bool
  al_sinceBlock :: "uint64_t option"
  al_headroomDb :: "real option"
  al_valueDb :: real

definition SplAlarm_new :: "SplAlarmSpec \<Rightarrow> nat option \<Rightarrow> SplAlarm" where
  "SplAlarm_new spec metricIndex =
     \<lparr>al_spec = spec, al_metricIndex = metricIndex, al_latch = AlarmLatch_new, al_state = AlarmFilling,
      al_windowEverFull = False, al_sinceBlock = None, al_headroomDb = None, al_valueDb = measure_kLevelFloorDb\<rparr>"

definition window_tail :: "uint64_t \<Rightarrow> Block list \<Rightarrow> Block list" where
  "window_tail windowBlocks blocks = drop (length blocks - min (unat windowBlocks) (length blocks)) blocks"

definition SplAlarm_headroom ::
  "SplAlarmSpec \<Rightarrow> Block list \<Rightarrow> real \<Rightarrow> real \<Rightarrow> real \<Rightarrow> WindowResult \<Rightarrow> bool \<Rightarrow> real option" where
  "SplAlarm_headroom spec tail rate blockSeconds offset windowed windowFull =
     (if \<not> windowFull then
        (case win_leqDb windowed of
           None \<Rightarrow> None
         | Some leq \<Rightarrow>
             (let windowSeconds = real (unat (spec_windowBlocks spec)) * blockSeconds;
                  excludedSecondsSoFar = real (unat (excludedBlocks windowed)) * blockSeconds
              in headroomDb (windowSeconds - excludedSecondsSoFar) (win_seconds windowed) leq (spec_limitDb spec)))
      else if spec_windowBlocks spec > 0 then
        (let recent = take (unat (spec_windowBlocks spec - 1)) (drop 1 tail);
             recentResult = combineBlocks recent rate offset (word_of_nat (length recent));
             sRecent = win_seconds recentResult;
             recentLeqDb = (case win_leqDb recentResult of None \<Rightarrow> 0 | Some x \<Rightarrow> x)
         in headroomDb (sRecent + blockSeconds) sRecent recentLeqDb (spec_limitDb spec))
      else None)"

definition SplAlarm_update ::
  "Block list \<Rightarrow> real \<Rightarrow> real \<Rightarrow> real \<Rightarrow> uint64_t \<Rightarrow> SplAlarm \<times> SplHistory \<Rightarrow> SplAlarm \<times> SplHistory" where
  "SplAlarm_update blocks rate blockSeconds offset currentBlockIndex ah =
     (let (a, history) = ah;
          spec = al_spec a;
          tail = window_tail (spec_windowBlocks spec) blocks;
          windowed = combineBlocks tail rate offset (spec_windowBlocks spec);
          windowFull = (length tail = unat (spec_windowBlocks spec));
          a = (case win_leqDb windowed of None \<Rightarrow> a | Some leq \<Rightarrow> a\<lparr>al_valueDb := leq\<rparr>);
          a = a\<lparr>al_headroomDb := SplAlarm_headroom spec tail rate blockSeconds offset windowed windowFull\<rparr>;
          forLatch = (if windowFull then windowed else WindowResult_default);
          (transition, latch) = AlarmLatch_update (al_latch a) forLatch (spec_limitDb spec);
          a = a\<lparr>al_latch := latch\<rparr>;
          a = (if windowFull \<and> \<not> al_windowEverFull a \<and> win_leqDb windowed \<noteq> None then
                 (let a = a\<lparr>al_windowEverFull := True\<rparr>
                  in if transition = NoTransition then a\<lparr>al_state := AlarmClear\<rparr> else a)
               else a)
      in if transition \<noteq> NoTransition then
           (a\<lparr>al_state := (if transition = Fired then AlarmFired else AlarmClear),
              al_sinceBlock := Some currentBlockIndex\<rparr>,
            addMarker \<lparr>mk_blockIndex = currentBlockIndex, mk_kind = MarkerAlarm,
              mk_direction = (if transition = Fired then 1 else -1),
              mk_quantity = marker_quantity (spec_metricId spec), mk_metricIndex = al_metricIndex a,
              mk_window = spec_windowBlocks spec,
              mk_value = (case win_leqDb windowed of None \<Rightarrow> 0 | Some leq \<Rightarrow> leq)\<rparr> history)
         else (a, history))"

record SplAlarmReading =
  rd_metricId :: string
  rd_limitDb :: real
  rd_valueDb :: real
  rd_headroomDb :: "real option"
  rd_state :: SplAlarmState
  rd_windowBlocks :: uint64_t
  rd_sinceBlock :: "uint64_t option"

definition SplAlarm_report :: "SplAlarm \<Rightarrow> SplAlarmReading" where
  "SplAlarm_report a =
     \<lparr>rd_metricId = spec_metricId (al_spec a), rd_limitDb = spec_limitDb (al_spec a),
      rd_valueDb = al_valueDb a, rd_headroomDb = al_headroomDb a, rd_state = al_state a,
      rd_windowBlocks = spec_windowBlocks (al_spec a), rd_sinceBlock = al_sinceBlock a\<rparr>"

definition SplAlarms_new :: "SplAlarmSpec list \<Rightarrow> nat option list \<Rightarrow> SplAlarm list" where
  "SplAlarms_new specs metricIndices =
     map (\<lambda>i. SplAlarm_new (specs ! i) (if i < length metricIndices then metricIndices ! i else None))
       [0..<length specs]"

fun SplAlarms_update ::
  "Block list \<Rightarrow> real \<Rightarrow> real \<Rightarrow> real \<Rightarrow> uint64_t \<Rightarrow> SplAlarm list \<times> SplHistory \<Rightarrow> SplAlarm list \<times> SplHistory"
where
  "SplAlarms_update blocks rate blockSeconds offset idx ([], history) = ([], history)"
| "SplAlarms_update blocks rate blockSeconds offset idx (a # as, history) =
     (let (a', history') = SplAlarm_update blocks rate blockSeconds offset idx (a, history);
          (as', history'') = SplAlarms_update blocks rate blockSeconds offset idx (as, history')
      in (a' # as', history''))"

definition SplAlarms_reports :: "SplAlarm list \<Rightarrow> SplAlarmReading list" where
  "SplAlarms_reports as = map SplAlarm_report as"

section \<open>The history is the recent past\<close>

text \<open>Blocks as the accumulator hands them over: consecutive indices, which do not wrap.\<close>

definition consecutive_from :: "nat \<Rightarrow> Block list \<Rightarrow> bool" where
  "consecutive_from f bs \<longleftrightarrow> f + length bs < 2 ^ 64 \<and> (\<forall>k < length bs. unat (blockIndex (bs ! k)) = f + k)"

definition history_rel :: "nat \<Rightarrow> nat \<Rightarrow> Block list \<Rightarrow> SplHistory \<Rightarrow> bool" where
  "history_rel cap f bs h \<longleftrightarrow>
     unat (h_capacity h) = cap \<and> length (h_ring h) = cap \<and> unat (h_pushedCount h) = length bs \<and>
     (bs \<noteq> [] \<longrightarrow> unat (h_firstIndex h) = f) \<and>
     (\<forall>k < length bs. length bs \<le> k + cap \<longrightarrow> h_ring h ! (k mod cap) = bs ! k)"

lemma unat_inc: "unat (w :: uint64_t) + 1 < 2 ^ 64 \<Longrightarrow> unat (w + 1) = unat w + 1"
  by (simp add: unat_word_ariths)

lemma mod_same_window:
  assumes "k < n" and "n \<le> k + cap" and "(k :: nat) mod cap = n mod cap"
  shows "n = k + cap"
proof -
  have "cap dvd n - k"
    using assms mod_eq_dvd_iff_nat [of k n cap] by simp
  then have "cap \<le> n - k"
    using assms by (intro dvd_imp_le) auto
  then show ?thesis
    using assms by simp
qed

lemma history_push_rel:
  assumes rel: "history_rel cap f bs h" and cap: "0 < cap" and cons: "consecutive_from f (bs @ [b])"
  shows "history_rel cap f (bs @ [b]) (SplHistory_push b h)"
proof -
  have len: "length bs + 1 < 2 ^ 64" and bi: "bs = [] \<Longrightarrow> unat (blockIndex b) = f"
    using cons by (auto simp: consecutive_from_def)
  have cap0: "h_capacity h \<noteq> 0" and idx: "unat (h_pushedCount h mod h_capacity h) = length bs mod cap"
    using rel cap by (auto simp: history_rel_def unat_mod)
  have empty: "h_pushedCount h = 0 \<longleftrightarrow> bs = []"
    using rel by (metis history_rel_def length_0_conv unat_eq_zero)
  have ring: "(h_ring h)[length bs mod cap := b] ! (k mod cap) = (bs @ [b]) ! k"
    if "k < length (bs @ [b])" "length (bs @ [b]) \<le> k + cap" for k
  proof (cases "k = length bs")
    case True
    then show ?thesis
      using rel cap by (simp add: history_rel_def)
  next
    case False
    then have "k < length bs" "length bs \<le> k + cap" "length bs \<noteq> k + cap"
      using that by auto
    then have "k mod cap \<noteq> length bs mod cap"
      using mod_same_window by blast
    then show ?thesis
      using rel \<open>k < length bs\<close> \<open>length bs \<le> k + cap\<close> by (simp add: history_rel_def nth_append)
  qed
  show ?thesis
    using rel cap0 idx empty bi len ring
    by (auto simp: history_rel_def SplHistory_push_def Let_def unat_inc)
qed

lemma history_rel_fold:
  assumes "0 < unat capacity" and "consecutive_from f bs"
  shows "history_rel (unat capacity) f bs (fold SplHistory_push bs (SplHistory_new capacity))"
  using assms(2)
proof (induction bs rule: rev_induct)
  case Nil
  then show ?case
    by (simp add: history_rel_def SplHistory_new_def)
next
  case (snoc b bs)
  then have "consecutive_from f bs"
    by (auto simp: consecutive_from_def nth_append split: if_splits)
  with snoc assms(1) show ?case
    by (simp add: history_push_rel)
qed

lemma history_window:
  assumes rel: "history_rel cap f bs h" and cap: "0 < cap" and cons: "consecutive_from f bs"
    and capw: "f + length bs + cap < 2 ^ 64" and ne: "bs \<noteq> []"
  shows "map_option unat (oldestBlockIndex h) = Some (f + (length bs - cap))"
    and "map_option unat (newestBlockIndex h) = Some (f + length bs - 1)"
proof -
  have n0: "h_pushedCount h \<noteq> 0" "0 < length bs"
    using rel ne by (auto simp: history_rel_def)
  have "unat (h_firstIndex h + h_pushedCount h) = f + length bs"
    using rel ne capw by (simp add: history_rel_def unat_word_ariths)
  then have sub: "unat (h_firstIndex h + h_pushedCount h - c) = f + length bs - unat c"
    if "unat c \<le> f + length bs" for c
    using that by (simp add: unat_sub word_le_nat_alt)
  show "map_option unat (oldestBlockIndex h) = Some (f + (length bs - cap))"
    using n0 rel ne sub [of "h_capacity h"]
    by (auto simp: oldestBlockIndex_def history_rel_def word_le_nat_alt)
  show "map_option unat (newestBlockIndex h) = Some (f + length bs - 1)"
    using n0 sub [of 1] by (cases bs) (simp_all add: newestBlockIndex_def)
qed

text \<open>
  After any run of consecutively numbered blocks the history answers a block index with exactly
  the block of that index while it is among the last \<open>capacity\<close> ones, and with an absence before and after:
  the ring rolls, and no stale block is ever returned.
\<close>

theorem SplHistory_recent_past:
  assumes "0 < unat capacity" and "consecutive_from f bs" and "f + length bs + unat capacity < 2 ^ 64"
  shows "SplHistory_at idx (fold SplHistory_push bs (SplHistory_new capacity)) =
           (if f + (length bs - unat capacity) \<le> unat idx \<and> unat idx < f + length bs
            then Some (bs ! (unat idx - f)) else None)"
proof (cases "bs = []")
  case True
  then show ?thesis
    by (simp add: SplHistory_at_def oldestBlockIndex_def SplHistory_new_def)
next
  case False
  let ?h = "fold SplHistory_push bs (SplHistory_new capacity)"
  let ?cap = "unat capacity"
  have rel: "history_rel ?cap f bs ?h"
    using assms history_rel_fold by blast
  obtain oldest newest where ends: "oldestBlockIndex ?h = Some oldest" "newestBlockIndex ?h = Some newest"
      "unat oldest = f + (length bs - ?cap)" "unat newest = f + length bs - 1"
    using history_window [OF rel assms(1,2,3) False] by auto
  have first: "unat (h_firstIndex ?h) = f" and cap: "unat (h_capacity ?h) = ?cap"
    using rel False by (auto simp: history_rel_def)
  have out: "(idx < oldest \<or> idx > newest) \<longleftrightarrow>
      \<not> (f + (length bs - ?cap) \<le> unat idx \<and> unat idx < f + length bs)"
    using ends(3,4) False by (cases bs) (auto simp: word_less_nat_alt)
  have "h_ring ?h ! unat ((idx - h_firstIndex ?h) mod h_capacity ?h) = bs ! (unat idx - f)"
    if "f + (length bs - ?cap) \<le> unat idx" "unat idx < f + length bs"
  proof -
    have "unat ((idx - h_firstIndex ?h) mod h_capacity ?h) = (unat idx - f) mod ?cap"
      using that first cap by (simp add: unat_mod unat_sub word_le_nat_alt)
    moreover have "unat idx - f < length bs" "length bs \<le> (unat idx - f) + ?cap"
      using that by auto
    ultimately show ?thesis
      using rel by (simp add: history_rel_def)
  qed
  then show ?thesis
    using ends(1,2) out by (auto simp: SplHistory_at_def)
qed

theorem SplHistory_recent_past_witness:
  "map (\<lambda>i. map_option blockIndex
          (SplHistory_at i (fold SplHistory_push (map (\<lambda>i. Block_default\<lparr>blockIndex := i\<rparr>) [5, 6, 7])
             (SplHistory_new 2)))) [4, 5, 6, 7, 8] = [None, None, Some 6, Some 7, None]"
proof -
  let ?bs = "map (\<lambda>i. Block_default\<lparr>blockIndex := i\<rparr>) [5, 6, 7]"
  have "consecutive_from 5 ?bs"
    by (auto simp: consecutive_from_def less_Suc_eq numeral_3_eq_3)
  note at = SplHistory_recent_past [of 2 5 ?bs, OF _ this]
  show ?thesis
    using at [of 4] at [of 5] at [of 6] at [of 7] at [of 8] by simp
qed

section \<open>The alarm follows the judged windows\<close>

text \<open>
  What an alarm compares with its limit: the level of the window ending at the newest block, once the window is
  full and holds a block that counts.
\<close>

definition alarm_reading :: "SplAlarmSpec \<Rightarrow> real \<Rightarrow> real \<Rightarrow> Block list \<Rightarrow> real option" where
  "alarm_reading spec rate offset blocks =
     (let tail = window_tail (spec_windowBlocks spec) blocks
      in if length tail = unat (spec_windowBlocks spec)
         then win_leqDb (combineBlocks tail rate offset (spec_windowBlocks spec)) else None)"

definition judged :: "SplAlarmSpec \<Rightarrow> real \<Rightarrow> real \<Rightarrow> (Block list \<times> uint64_t) list \<Rightarrow> (uint64_t \<times> real) list" where
  "judged spec rate offset obs =
     List.map_filter (\<lambda>(blocks, i). map_option (Pair i) (alarm_reading spec rate offset blocks)) obs"

text \<open>The crossings of the limit in a sequence of readings, from a state below or above it.\<close>

fun crossings :: "bool \<Rightarrow> real \<Rightarrow> (uint64_t \<times> real) list \<Rightarrow> (uint64_t \<times> int \<times> real) list" where
  "crossings over limit [] = []"
| "crossings over limit ((i, v) # rest) =
     (if (v > limit) = over then crossings over limit rest
      else (i, if v > limit then 1 else -1, v) # crossings (v > limit) limit rest)"

definition above_after :: "bool \<Rightarrow> real \<Rightarrow> (uint64_t \<times> real) list \<Rightarrow> bool" where
  "above_after over limit js = (if js = [] then over else snd (last js) > limit)"

lemma above_after_snoc [simp]: "above_after over limit (js @ [(i, v)]) = (v > limit)"
  by (simp add: above_after_def)

lemma crossings_append:
  "crossings over limit (xs @ ys) = crossings over limit xs @ crossings (above_after over limit xs) limit ys"
  by (induction over limit xs rule: crossings.induct) (auto simp: above_after_def)

lemma judged_append [simp]: "judged spec rate offset (xs @ ys) = judged spec rate offset xs @ judged spec rate offset ys"
  by (simp add: judged_def map_filter_def)

definition alarm_run ::
  "SplAlarmSpec \<Rightarrow> real \<Rightarrow> real \<Rightarrow> real \<Rightarrow> (Block list \<times> uint64_t) list \<Rightarrow> SplAlarm \<times> SplHistory \<Rightarrow> SplAlarm \<times> SplHistory"
where
  "alarm_run spec rate blockSeconds offset obs =
     fold (\<lambda>(blocks, i). SplAlarm_update blocks rate blockSeconds offset i) obs"

definition marker_facts :: "SplMarker \<Rightarrow> uint64_t \<times> int \<times> real" where
  "marker_facts m = (mk_blockIndex m, mk_direction m, mk_value m)"

definition alarm_inv :: "SplAlarmSpec \<Rightarrow> (uint64_t \<times> real) list \<Rightarrow> SplAlarm \<times> SplHistory \<Rightarrow> bool" where
  "alarm_inv spec js ah \<longleftrightarrow>
     (let (a, h) = ah; limit = spec_limitDb spec; cs = crossings False limit js
      in al_spec a = spec \<and> alarm_active (al_latch a) = above_after False limit js \<and>
         al_windowEverFull a = (js \<noteq> []) \<and>
         al_state a = (if js = [] then AlarmFilling else if snd (last js) > limit then AlarmFired else AlarmClear) \<and>
         al_sinceBlock a = (if cs = [] then None else Some (fst (last cs))) \<and>
         map marker_facts (h_markers h) = take kMaxMarkers cs \<and>
         h_overflowedMarkers h = word_of_nat (length cs - kMaxMarkers))"

lemma update_unjudged:
  assumes "alarm_reading (al_spec a) rate offset blocks = None"
  obtains a' where "SplAlarm_update blocks rate blockSeconds offset i (a, h) = (a', h)"
    and "al_spec a' = al_spec a" "al_latch a' = al_latch a" "al_windowEverFull a' = al_windowEverFull a"
      "al_state a' = al_state a" "al_sinceBlock a' = al_sinceBlock a"
  using assms that
  by (auto simp: SplAlarm_update_def alarm_reading_def AlarmLatch_update_def WindowResult_default_def Let_def
      split: if_splits option.splits)

lemma update_judged:
  assumes "alarm_reading (al_spec a) rate offset blocks = Some v"
    and "limit = spec_limitDb (al_spec a)" and "crossed = ((v > limit) \<noteq> alarm_active (al_latch a))"
  obtains a' m where
      "SplAlarm_update blocks rate blockSeconds offset i (a, h) = (a', if crossed then addMarker m h else h)"
    and "marker_facts m = (i, if v > limit then 1 else -1, v)"
    and "al_spec a' = al_spec a" "alarm_active (al_latch a') = (v > limit)" "al_windowEverFull a'"
      "al_state a' = (if crossed then if v > limit then AlarmFired else AlarmClear
                      else if al_windowEverFull a then al_state a else AlarmClear)"
      "al_sinceBlock a' = (if crossed then Some i else al_sinceBlock a)"
proof -
  have full: "length (window_tail (spec_windowBlocks (al_spec a)) blocks) = unat (spec_windowBlocks (al_spec a))"
    and leq: "win_leqDb (combineBlocks (window_tail (spec_windowBlocks (al_spec a)) blocks) rate offset
                (spec_windowBlocks (al_spec a))) = Some v"
    using assms(1) by (auto simp: alarm_reading_def Let_def split: if_splits)
  let ?r = "SplAlarm_update blocks rate blockSeconds offset i (a, h)"
  let ?m = "\<lparr>mk_blockIndex = i, mk_kind = MarkerAlarm, mk_direction = (if v > limit then 1 else -1),
              mk_quantity = marker_quantity (spec_metricId (al_spec a)), mk_metricIndex = al_metricIndex a,
              mk_window = spec_windowBlocks (al_spec a), mk_value = v\<rparr>"
  note upd = full leq SplAlarm_update_def AlarmLatch_update_def Let_def assms(2,3)
  show ?thesis
  proof (rule that [of "fst ?r" ?m])
    show "?r = (fst ?r, if crossed then addMarker ?m h else h)"
      by (simp add: upd)
    show "al_state (fst ?r) = (if crossed then if v > limit then AlarmFired else AlarmClear
        else if al_windowEverFull a then al_state a else AlarmClear)"
      by (simp add: upd)
  qed (simp_all add: upd marker_facts_def)
qed

lemma addMarker_facts:
  assumes "map marker_facts (h_markers h) = take kMaxMarkers cs"
    and "h_overflowedMarkers h = word_of_nat (length cs - kMaxMarkers)"
  shows "map marker_facts (h_markers (addMarker m h)) = take kMaxMarkers (cs @ [marker_facts m])"
    and "h_overflowedMarkers (addMarker m h) = word_of_nat (length (cs @ [marker_facts m]) - kMaxMarkers)"
proof -
  have len: "length (h_markers h) = min (length cs) kMaxMarkers"
    using arg_cong [OF assms(1), of length] by simp
  show "map marker_facts (h_markers (addMarker m h)) = take kMaxMarkers (cs @ [marker_facts m])"
    using assms(1) len by (auto simp: addMarker_def min_def)
  show "h_overflowedMarkers (addMarker m h) = word_of_nat (length (cs @ [marker_facts m]) - kMaxMarkers)"
    using assms(2) len by (auto simp: addMarker_def min_def Suc_diff_le)
qed

lemma alarm_inv_update:
  assumes "alarm_inv spec js (a, h)"
  shows "alarm_inv spec (js @ judged spec rate offset [(blocks, i)])
           (SplAlarm_update blocks rate blockSeconds offset i (a, h))"
proof (cases "alarm_reading spec rate offset blocks")
  case None
  have spec: "al_spec a = spec"
    using assms by (simp add: alarm_inv_def Let_def)
  from None [folded spec] obtain a' where
      "SplAlarm_update blocks rate blockSeconds offset i (a, h) = (a', h)"
      "al_spec a' = al_spec a" "al_latch a' = al_latch a" "al_windowEverFull a' = al_windowEverFull a"
      "al_state a' = al_state a" "al_sinceBlock a' = al_sinceBlock a"
    by (rule update_unjudged)
  then show ?thesis
    using assms None by (simp add: alarm_inv_def judged_def map_filter_def)
next
  case (Some v)
  have spec: "al_spec a = spec"
    using assms by (simp add: alarm_inv_def Let_def)
  let ?limit = "spec_limitDb spec"
  let ?crossed = "(v > ?limit) \<noteq> above_after False ?limit js"
  from Some [folded spec] obtain a' m where upd:
      "SplAlarm_update blocks rate blockSeconds offset i (a, h) = (a', if ?crossed then addMarker m h else h)"
      "marker_facts m = (i, if v > ?limit then 1 else -1, v)"
      "al_spec a' = al_spec a" "alarm_active (al_latch a') = (v > ?limit)" "al_windowEverFull a'"
      "al_state a' = (if ?crossed then if v > ?limit then AlarmFired else AlarmClear
                      else if al_windowEverFull a then al_state a else AlarmClear)"
      "al_sinceBlock a' = (if ?crossed then Some i else al_sinceBlock a)"
    by (rule update_judged [where limit = ?limit and crossed = ?crossed])
      (use assms in \<open>simp_all add: alarm_inv_def Let_def\<close>)
  have j: "judged spec rate offset [(blocks, i)] = [(i, v)]"
    using Some by (simp add: judged_def map_filter_def)
  have cs: "crossings False ?limit (js @ [(i, v)]) =
      crossings False ?limit js @ (if ?crossed then [marker_facts m] else [])"
    using upd(2) by (auto simp: crossings_append)
  show ?thesis
    unfolding j
    using assms upd addMarker_facts [of h "crossings False ?limit js" m]
    by (cases ?crossed) (auto simp: alarm_inv_def cs above_after_def Let_def split: if_splits)
qed

lemma alarm_inv_run:
  "alarm_inv spec (judged spec rate offset obs)
     (alarm_run spec rate blockSeconds offset obs (SplAlarm_new spec mi, SplHistory_new cap))"
proof (induction obs rule: rev_induct)
  case Nil
  then show ?case
    by (simp add: alarm_inv_def alarm_run_def judged_def map_filter_def SplAlarm_new_def SplHistory_new_def
        AlarmLatch_new_def above_after_def)
next
  case (snoc ob obs)
  then show ?case
    using alarm_inv_update
    by (cases ob; cases "alarm_run spec rate blockSeconds offset obs (SplAlarm_new spec mi, SplHistory_new cap)")
      (auto simp: alarm_run_def)
qed

text \<open>
  Property C29: over any sequence of block closures an alarm stays \<open>Filling\<close> until its window is full and holds a
  block that counts, and from then on shows the side of the limit the last such window is on; a partial or a
  wholly excluded window neither fires nor clears it. Its markers are exactly the crossings of the limit, in
  order, each with the block, the direction and the very level compared; past 4096 they are counted, not kept,
  and \<open>sinceBlock\<close> is the block of the last crossing.
\<close>

theorem SplAlarm_follows_windows:
  assumes "alarm_run spec rate blockSeconds offset obs (SplAlarm_new spec mi, SplHistory_new cap) = (a, h)"
    and "js = judged spec rate offset obs" and "cs = crossings False (spec_limitDb spec) js"
  shows "rd_state (SplAlarm_report a) =
           (if js = [] then AlarmFilling
            else if snd (last js) > spec_limitDb spec then AlarmFired else AlarmClear) \<and>
         rd_sinceBlock (SplAlarm_report a) = (if cs = [] then None else Some (fst (last cs))) \<and>
         map marker_facts (h_markers h) = take kMaxMarkers cs \<and>
         h_overflowedMarkers h = word_of_nat (length cs - kMaxMarkers)"
  using alarm_inv_run [of spec rate offset obs blockSeconds mi cap] assms
  by (simp add: alarm_inv_def SplAlarm_report_def Let_def)

definition loud_block :: Block where
  "loud_block = Block_default\<lparr>blk_sumSquares := 100, blk_samples := 1\<rparr>"

definition quiet_block :: Block where
  "quiet_block = Block_default\<lparr>blk_sumSquares := 1, blk_samples := 1\<rparr>"

lemma log_100: "log 10 100 = (2 :: real)"
  using log_pow_cancel [of 10 2] by simp

lemma one_block_readings:
  "alarm_reading \<lparr>spec_metricId = [], spec_limitDb = 10, spec_windowBlocks = 1\<rparr> 1 0 [loud_block] = Some 20"
  "alarm_reading \<lparr>spec_metricId = [], spec_limitDb = 10, spec_windowBlocks = 1\<rparr> 1 0 [loud_block, quiet_block] = Some 0"
  by (simp_all add: alarm_reading_def window_tail_def combineBlocks_def combine_block_def combine_start_def
      count_flags_def loud_block_def quiet_block_def Block_default_def kExcludingFlags_def hasFlag_def Let_def log_100)

theorem SplAlarm_follows_windows_witness:
  "(let spec = \<lparr>spec_metricId = [], spec_limitDb = 10, spec_windowBlocks = 1\<rparr>;
        (a, h) = alarm_run spec 1 1 0 [([], 6), ([loud_block], 7), ([loud_block, quiet_block], 8)]
                   (SplAlarm_new spec None, SplHistory_new 4)
    in rd_state (SplAlarm_report a) = AlarmClear \<and> rd_sinceBlock (SplAlarm_report a) = Some 8 \<and>
       map marker_facts (h_markers h) = [(7, 1, 20), (8, -1, 0)] \<and> h_overflowedMarkers h = 0)"
proof -
  let ?spec = "\<lparr>spec_metricId = [], spec_limitDb = 10, spec_windowBlocks = 1\<rparr> :: SplAlarmSpec"
  let ?obs = "[([], 6), ([loud_block], 7), ([loud_block, quiet_block], 8)] :: (Block list \<times> uint64_t) list"
  have j: "judged ?spec 1 0 ?obs = [(7, 20), (8, 0)]"
    by (simp add: judged_def map_filter_def one_block_readings)
      (simp add: alarm_reading_def window_tail_def)
  obtain a h where run: "alarm_run ?spec 1 1 0 ?obs (SplAlarm_new ?spec None, SplHistory_new 4) = (a, h)"
    by (metis surj_pair)
  show ?thesis
    using SplAlarm_follows_windows [OF run j [symmetric] refl]
    by (simp add: run kMaxMarkers_def Let_def)
qed

section \<open>The two window policies\<close>

definition window_levels :: "Block list \<Rightarrow> real \<Rightarrow> real \<Rightarrow> uint64_t \<Rightarrow> real set" where
  "window_levels blocks rate offset w =
     {v. \<exists>start. w \<noteq> 0 \<and> start + unat w \<le> length blocks \<and> windowLeqAt blocks rate offset w start = Some v}"

lemma best_of_levels:
  assumes "foldl (\<lambda>best start. better best (g start)) b0 starts = r"
  shows "(case r of None \<Rightarrow> b0 = None \<and> (\<forall>s \<in> set starts. g s = None)
          | Some m \<Rightarrow> (b0 = Some m \<or> (\<exists>s \<in> set starts. g s = Some m)) \<and>
                      (\<forall>b. b0 = Some b \<longrightarrow> b \<le> m) \<and> (\<forall>s \<in> set starts. \<forall>v. g s = Some v \<longrightarrow> v \<le> m))"
  using assms
proof (induction starts arbitrary: b0)
  case Nil
  then show ?case
    by (auto split: option.splits)
next
  case (Cons s starts)
  then have "foldl (\<lambda>best start. better best (g start)) (better b0 (g s)) starts = r"
    by simp
  from Cons.IH [OF this] show ?case
    by (auto simp: better_def split: option.splits if_splits)
qed

lemma fixed_starts_slide:
  "start \<in> set (fixed_starts n w) \<Longrightarrow> start + w \<le> n"
  by (auto simp: fixed_starts_def) (metis Suc_leI div_times_less_eq_dividend le_trans mult_Suc mult_le_mono1 add.commute)

lemma sliding_starts_set: "w \<le> n \<Longrightarrow> start \<in> set (sliding_starts n w) \<longleftrightarrow> start + w \<le> n"
  by (auto simp: sliding_starts_def)

lemma sliding_max:
  "slidingMaxLeqDb blocks rate offset w =
     (if window_levels blocks rate offset w = {} then None else Some (Max (window_levels blocks rate offset w)))"
proof (cases "w = 0 \<or> length blocks < unat w")
  case True
  then show ?thesis
    by (auto simp: slidingMaxLeqDb_def window_levels_def)
next
  case False
  let ?g = "windowLeqAt blocks rate offset w"
  let ?starts = "sliding_starts (length blocks) (unat w)"
  have L: "window_levels blocks rate offset w = {v. \<exists>s \<in> set ?starts. ?g s = Some v}"
    using False by (auto simp: window_levels_def sliding_starts_set)
  have "finite {v. \<exists>s \<in> set ?starts. ?g s = Some v}"
    by (rule finite_subset [of _ "(the \<circ> ?g) ` set ?starts"]) force+
  moreover have "(case slidingMaxLeqDb blocks rate offset w of None \<Rightarrow> \<forall>s \<in> set ?starts. ?g s = None
      | Some m \<Rightarrow> (\<exists>s \<in> set ?starts. ?g s = Some m) \<and> (\<forall>s \<in> set ?starts. \<forall>v. ?g s = Some v \<longrightarrow> v \<le> m))"
    using best_of_levels [of ?g None ?starts, OF refl] False
    by (simp add: slidingMaxLeqDb_def split: option.splits)
  ultimately show ?thesis
    unfolding L by (cases "slidingMaxLeqDb blocks rate offset w") (auto intro!: Max_eqI [symmetric])
qed

text \<open>
  The sliding policy the alarms run reads the greatest level over every window position, so it is
  never below the level of the consecutive fixed windows: whatever those would report, it reports at least.
\<close>

theorem sliding_is_conservative:
  "slidingMaxLeqDb blocks rate offset w =
     (if window_levels blocks rate offset w = {} then None else Some (Max (window_levels blocks rate offset w))) \<and>
   (case consecutiveFixedMaxLeqDb blocks rate offset w of None \<Rightarrow> True
    | Some m \<Rightarrow> \<exists>m'. slidingMaxLeqDb blocks rate offset w = Some m' \<and> m \<le> m')"
proof (cases "consecutiveFixedMaxLeqDb blocks rate offset w")
  case (Some m)
  then have ok: "w \<noteq> 0" "unat w \<le> length blocks"
    by (auto simp: consecutiveFixedMaxLeqDb_def split: if_splits)
  obtain start where start: "start \<in> set (fixed_starts (length blocks) (unat w))"
      "windowLeqAt blocks rate offset w start = Some m"
    using Some best_of_levels [of "windowLeqAt blocks rate offset w" None, OF refl] ok
    by (fastforce simp: consecutiveFixedMaxLeqDb_def split: option.splits if_splits)
  let ?starts = "sliding_starts (length blocks) (unat w)"
  have "start \<in> set ?starts"
    using fixed_starts_slide [OF start(1)] ok by (simp add: sliding_starts_set)
  then have "\<exists>m'. slidingMaxLeqDb blocks rate offset w = Some m' \<and> m \<le> m'"
    using best_of_levels [of "windowLeqAt blocks rate offset w" None ?starts, OF refl] start(2) ok
    by (auto simp: slidingMaxLeqDb_def split: option.splits)
  then show ?thesis
    using Some sliding_max by auto
qed (simp add: sliding_max)

end
