(* ===== verification/Capture_Sequencer.thy ===== *)
theory Capture_Sequencer
  imports Prelude Doubles
begin

text \<open>
  The capture sequence (\<^verbatim>\<open>app/src/measure/CaptureSequencer.cpp\<close>) and the overload criterion it latches
  (\<^verbatim>\<open>core/src/dsp/OverloadDetector.cpp\<close>).  Samples are doubles with infinities and NaN; the call of
  \<^verbatim>\<open>onStep\<close> is part of the result of \<open>endCapture\<close>; indexing past the member list would be undefined
  behaviour and is \<open>None\<close>.
\<close>

section \<open>Overload\<close>

definition kFullScaleThreshold :: real where
  "kFullScaleThreshold = 1 - 1 / 2 ^ 15"

text \<open>\<^verbatim>\<open>std::abs(x) >= threshold\<close>: false for NaN, true for both infinities.\<close>

fun at_least :: "real \<Rightarrow> double \<Rightarrow> bool" where
  "at_least threshold (Fin x) = (\<bar>x\<bar> \<ge> threshold)"
| "at_least threshold NaN = False"
| "at_least threshold PosInf = True"
| "at_least threshold NegInf = True"

fun overload_scan :: "int \<Rightarrow> real \<Rightarrow> int \<Rightarrow> double list \<Rightarrow> bool" where
  "overload_scan runLength threshold run [] = False"
| "overload_scan runLength threshold run (x # xs) =
     (if at_least threshold x then
        (if run + 1 \<ge> runLength then True else overload_scan runLength threshold (run + 1) xs)
      else overload_scan runLength threshold 0 xs)"

definition hasOverload :: "double list \<Rightarrow> int \<Rightarrow> real \<Rightarrow> bool" where
  "hasOverload xs runLength threshold =
     (if runLength \<le> 0 then True else overload_scan runLength threshold 0 xs)"

fun feedRun :: "double list \<Rightarrow> int \<Rightarrow> bool \<times> int" where
  "feedRun [] run = (False, run)"
| "feedRun (x # xs) run =
     (if at_least kFullScaleThreshold x then
        (let (reached, run') = feedRun xs (run + 1) in (run + 1 \<ge> 3 \<or> reached, run'))
      else feedRun xs 0)"

section \<open>The sequencer\<close>

datatype CaptureState = CsIdle | CsArmed | CsWaiting | CsCapturing

datatype RefusalReason = NoRefusalReason | Overload | GateNotCleared

record CaptureRecord =
  cr_name :: string
  cr_refusal :: RefusalReason

record CaptureSequencer =
  sq_members :: "string list"
  sq_captures :: "CaptureRecord list"
  sq_step :: int
  sq_state :: CaptureState
  sq_lastRefusal :: RefusalReason
  sq_referenceRun :: int
  sq_measurementRun :: int
  sq_overloadLatched :: bool

definition CaptureSequencer_new :: "string list \<Rightarrow> CaptureSequencer" where
  "CaptureSequencer_new memberNames =
     \<lparr>sq_members = memberNames, sq_captures = [], sq_step = 0, sq_state = CsIdle,
      sq_lastRefusal = NoRefusalReason, sq_referenceRun = 0, sq_measurementRun = 0,
      sq_overloadLatched = False\<rparr>"

definition sq_arm :: "CaptureSequencer \<Rightarrow> CaptureSequencer" where
  "sq_arm s =
     (if sq_state s \<noteq> CsIdle then s
      else if sq_step s \<ge> int (length (sq_members s)) then s
      else s\<lparr>sq_state := CsArmed, sq_referenceRun := 0, sq_measurementRun := 0, sq_overloadLatched := False\<rparr>)"

definition sq_beginWait :: "CaptureSequencer \<Rightarrow> CaptureSequencer" where
  "sq_beginWait s = (if sq_state s \<noteq> CsArmed then s else s\<lparr>sq_state := CsWaiting\<rparr>)"

definition sq_beginCapture :: "CaptureSequencer \<Rightarrow> CaptureSequencer" where
  "sq_beginCapture s = (if sq_state s \<noteq> CsWaiting then s else s\<lparr>sq_state := CsCapturing\<rparr>)"

definition sq_feedHop :: "double list \<Rightarrow> double list \<Rightarrow> CaptureSequencer \<Rightarrow> CaptureSequencer" where
  "sq_feedHop referenceHop measurementHop s =
     (if sq_state s \<noteq> CsCapturing then s
      else let (r, run) = feedRun referenceHop (sq_referenceRun s);
               s = s\<lparr>sq_referenceRun := run\<rparr>;
               s = (if r then s\<lparr>sq_overloadLatched := True\<rparr> else s);
               (m, run) = feedRun measurementHop (sq_measurementRun s);
               s = s\<lparr>sq_measurementRun := run\<rparr>
           in if m then s\<lparr>sq_overloadLatched := True\<rparr> else s)"

definition sq_endCapture :: "bool \<Rightarrow> CaptureSequencer \<Rightarrow> (int option \<times> CaptureSequencer) option" where
  "sq_endCapture gateCleared s =
     (if sq_state s \<noteq> CsCapturing then Some (None, s)
      else
        let refusal = (if sq_overloadLatched s then Overload
                       else if \<not> gateCleared then GateNotCleared else NoRefusalReason);
            s = s\<lparr>sq_lastRefusal := refusal\<rparr>
        in do {
          s \<leftarrow> (if refusal = NoRefusalReason then
                  (if 0 \<le> sq_step s \<and> sq_step s < int (length (sq_members s)) then
                     Some (s\<lparr>sq_captures := sq_captures s @
                       [\<lparr>cr_name = sq_members s ! nat (sq_step s), cr_refusal = refusal\<rparr>]\<rparr>)
                   else None)
                else Some s);
          let called = sq_step s;
          let s = s\<lparr>sq_step := sq_step s + 1\<rparr>;
          let s = s\<lparr>sq_state := (if sq_step s \<ge> int (length (sq_members s)) then CsIdle else CsArmed)\<rparr>;
          Some (Some called, s\<lparr>sq_referenceRun := 0, sq_measurementRun := 0, sq_overloadLatched := False\<rparr>)
        })"

section \<open>Runs across hops\<close>

text \<open>The criterion itself: \<open>n\<close> consecutive samples at full scale somewhere in the signal.\<close>

definition full_run :: "real \<Rightarrow> nat \<Rightarrow> double list \<Rightarrow> bool" where
  "full_run threshold n xs \<longleftrightarrow>
     (\<exists>pre ys post. xs = pre @ ys @ post \<and> length ys = n \<and> list_all (at_least threshold) ys)"

text \<open>How many samples at the end of a signal are at full scale.\<close>

definition tail_run :: "real \<Rightarrow> double list \<Rightarrow> nat" where
  "tail_run threshold xs = length (takeWhile (at_least threshold) (rev xs))"

lemma tail_run_snoc:
  "tail_run threshold (xs @ [x]) = (if at_least threshold x then Suc (tail_run threshold xs) else 0)"
  by (simp add: tail_run_def)

lemma full_run_snoc:
  "full_run threshold n (xs @ [x]) \<longleftrightarrow> full_run threshold n xs \<or> n \<le> tail_run threshold (xs @ [x])"
proof
  assume "full_run threshold n (xs @ [x])"
  then obtain pre ys post where split: "xs @ [x] = pre @ ys @ post" "length ys = n"
    "list_all (at_least threshold) ys"
    unfolding full_run_def by blast
  show "full_run threshold n xs \<or> n \<le> tail_run threshold (xs @ [x])"
  proof (cases post rule: rev_cases)
    case Nil
    then have r: "rev (xs @ [x]) = rev ys @ rev pre"
      using split by simp
    have "takeWhile (at_least threshold) (rev (xs @ [x])) =
        rev ys @ takeWhile (at_least threshold) (rev pre)"
      unfolding r using split(3) by (intro takeWhile_append2) (auto simp: list_all_iff)
    then show ?thesis
      using split(2) by (simp add: tail_run_def del: rev_append)
  next
    case (snoc post' y)
    then have "xs = pre @ ys @ post'"
      using split(1) by simp
    then show ?thesis
      using split(2,3) unfolding full_run_def by blast
  qed
next
  assume "full_run threshold n xs \<or> n \<le> tail_run threshold (xs @ [x])"
  then show "full_run threshold n (xs @ [x])"
  proof
    assume "full_run threshold n xs"
    then show ?thesis
      unfolding full_run_def by (metis append.assoc)
  next
    assume le: "n \<le> tail_run threshold (xs @ [x])"
    let ?ts = "takeWhile (at_least threshold) (rev (xs @ [x]))"
    have "xs @ [x] = rev (dropWhile (at_least threshold) (rev (xs @ [x]))) @ rev ?ts"
      by (metis rev_append rev_rev_ident takeWhile_dropWhile_id)
    moreover have "rev ?ts = rev (drop n ?ts) @ rev (take n ?ts)"
      by (metis append_take_drop_id rev_append)
    ultimately have "xs @ [x] = (rev (dropWhile (at_least threshold) (rev (xs @ [x]))) @ rev (drop n ?ts)) @
        rev (take n ?ts) @ []"
      by (metis append.assoc append_Nil2)
    moreover have "length (rev (take n ?ts)) = n"
      using le by (simp add: tail_run_def)
    moreover have "list_all (at_least threshold) (rev (take n ?ts))"
      by (auto simp: list_all_iff dest!: in_set_takeD set_takeWhileD)
    ultimately show ?thesis
      unfolding full_run_def by blast
  qed
qed

lemma full_run_Nil: "full_run threshold n [] \<longleftrightarrow> n = 0"
  by (auto simp: full_run_def)

abbreviation clipped :: "double list \<Rightarrow> bool" where
  "clipped \<equiv> full_run kFullScaleThreshold 3"

lemma feedRun_spec:
  "feedRun xs (int (tail_run kFullScaleThreshold pre)) = (reached, run') \<Longrightarrow>
     run' = int (tail_run kFullScaleThreshold (pre @ xs)) \<and> (clipped (pre @ xs) \<longleftrightarrow> clipped pre \<or> reached)"
proof (induction xs arbitrary: pre reached run')
  case (Cons x xs)
  let ?pre = "pre @ [x]"
  show ?case
  proof (cases "at_least kFullScaleThreshold x")
    case True
    then have tail: "int (tail_run kFullScaleThreshold pre) + 1 = int (tail_run kFullScaleThreshold ?pre)"
      by (simp add: tail_run_snoc)
    obtain r q where rq: "feedRun xs (int (tail_run kFullScaleThreshold ?pre)) = (r, q)"
      by fastforce
    have "reached \<longleftrightarrow> 3 \<le> tail_run kFullScaleThreshold ?pre \<or> r" "run' = q"
      using Cons.prems True rq by (auto simp: tail)
    then show ?thesis
      using Cons.IH [OF rq] full_run_snoc [of kFullScaleThreshold 3 pre x] by simp
  next
    case False
    then have "feedRun xs (int (tail_run kFullScaleThreshold ?pre)) = (reached, run')"
      using Cons.prems by (simp add: tail_run_snoc)
    from Cons.IH [OF this] show ?thesis
      using False full_run_snoc [of kFullScaleThreshold 3 pre x] by (simp add: tail_run_snoc)
  qed
qed simp

lemma overload_scan_spec:
  assumes "0 < n"
  shows "\<not> full_run threshold n pre \<Longrightarrow>
    overload_scan (int n) threshold (int (tail_run threshold pre)) xs \<longleftrightarrow> full_run threshold n (pre @ xs)"
proof (induction xs arbitrary: pre)
  case (Cons x xs)
  have snoc: "full_run threshold n (pre @ [x]) \<longleftrightarrow> n \<le> tail_run threshold (pre @ [x])"
    using Cons.prems full_run_snoc by blast
  have mono: "full_run threshold n (pre @ [x]) \<Longrightarrow> full_run threshold n (pre @ x # xs)"
    unfolding full_run_def by (metis append.assoc append_Cons append_Nil)
  show ?case
    using Cons.IH [of "pre @ [x]"] snoc mono assms
    by (auto simp: tail_run_snoc add.commute split: if_splits)
qed simp

lemma tail_run_Nil [simp]: "tail_run threshold [] = 0"
  by (simp add: tail_run_def)

text \<open>The pure detector decides the criterion on the span it is given.\<close>

lemma hasOverload_iff: "0 < n \<Longrightarrow> hasOverload xs (int n) threshold \<longleftrightarrow> full_run threshold n xs"
  using overload_scan_spec [of n threshold "[]" xs] by (simp add: hasOverload_def full_run_Nil)

section \<open>Windows\<close>

type_synonym hops = "(double list \<times> double list) list"

abbreviation feed_all :: "hops \<Rightarrow> CaptureSequencer \<Rightarrow> CaptureSequencer" where
  "feed_all \<equiv> fold (\<lambda>(r, m). sq_feedHop r m)"

definition window_clipped :: "hops \<Rightarrow> bool" where
  "window_clipped hs \<longleftrightarrow> clipped (concat (map fst hs)) \<or> clipped (concat (map snd hs))"

lemma sq_feedHop_eq:
  "sq_state s = CsCapturing \<Longrightarrow> feedRun rh (sq_referenceRun s) = (r, q) \<Longrightarrow>
   feedRun mh (sq_measurementRun s) = (m, p) \<Longrightarrow>
   sq_feedHop rh mh s = s\<lparr>sq_referenceRun := q, sq_measurementRun := p,
     sq_overloadLatched := (sq_overloadLatched s \<or> r \<or> m)\<rparr>"
  by (cases s; cases r; cases m) (simp_all add: sq_feedHop_def Let_def)

lemma feed_all_spec:
  assumes "sq_state s = CsCapturing"
    and "sq_referenceRun s = int (tail_run kFullScaleThreshold (concat (map fst fed0)))"
    and "sq_measurementRun s = int (tail_run kFullScaleThreshold (concat (map snd fed0)))"
    and "sq_overloadLatched s \<longleftrightarrow> window_clipped fed0"
  shows "\<exists>r m. feed_all hs s = s\<lparr>sq_referenceRun := r, sq_measurementRun := m,
           sq_overloadLatched := window_clipped (fed0 @ hs)\<rparr>"
  using assms
proof (induction hs arbitrary: s fed0)
  case Nil
  then show ?case
    by (intro exI [of _ "sq_referenceRun s"] exI [of _ "sq_measurementRun s"]) simp
next
  case (Cons h hs)
  obtain rh mh where h: "h = (rh, mh)"
    by fastforce
  obtain r q where rq: "feedRun rh (sq_referenceRun s) = (r, q)"
    by fastforce
  obtain m p where mp: "feedRun mh (sq_measurementRun s) = (m, p)"
    by fastforce
  note R = feedRun_spec [OF rq [unfolded Cons.prems(2)]] and M = feedRun_spec [OF mp [unfolded Cons.prems(3)]]
  let ?s = "s\<lparr>sq_referenceRun := q, sq_measurementRun := p, sq_overloadLatched := window_clipped (fed0 @ [h])\<rparr>"
  have ov: "window_clipped (fed0 @ [h]) \<longleftrightarrow> sq_overloadLatched s \<or> r \<or> m"
    using R M Cons.prems(4) by (auto simp: window_clipped_def h)
  have "sq_feedHop rh mh s = ?s"
    using sq_feedHop_eq [OF Cons.prems(1) rq mp] ov by simp
  moreover have "\<exists>r m. feed_all hs ?s = ?s\<lparr>sq_referenceRun := r, sq_measurementRun := m,
      sq_overloadLatched := window_clipped ((fed0 @ [h]) @ hs)\<rparr>"
    using R M Cons.prems(1) by (intro Cons.IH) (simp_all add: h)
  ultimately show ?case
    by (simp add: h)
qed

text \<open>One member's window: wait, capture, the hops it is fed, and its end.\<close>

definition run_window :: "hops \<times> bool \<Rightarrow> CaptureSequencer \<Rightarrow> (int option \<times> CaptureSequencer) option" where
  "run_window w s = sq_endCapture (snd w) (feed_all (fst w) (sq_beginCapture (sq_beginWait s)))"

fun run_windows :: "(hops \<times> bool) list \<Rightarrow> CaptureSequencer \<Rightarrow> (int option list \<times> CaptureSequencer) option" where
  "run_windows [] s = Some ([], s)"
| "run_windows (w # ws) s = do {
     (c, s) \<leftarrow> run_window w s;
     (cs, s) \<leftarrow> run_windows ws s;
     Some (c # cs, s)
   }"

definition accepted :: "hops \<times> bool \<Rightarrow> bool" where
  "accepted w \<longleftrightarrow> \<not> window_clipped (fst w) \<and> snd w"

definition verdict :: "hops \<times> bool \<Rightarrow> RefusalReason" where
  "verdict w = (if window_clipped (fst w) then Overload else if \<not> snd w then GateNotCleared else NoRefusalReason)"

definition sq_ready :: "CaptureSequencer \<Rightarrow> bool" where
  "sq_ready s \<longleftrightarrow>
     0 \<le> sq_step s \<and> sq_step s \<le> int (length (sq_members s)) \<and>
     sq_state s = (if sq_step s < int (length (sq_members s)) then CsArmed else CsIdle) \<and>
     sq_referenceRun s = 0 \<and> sq_measurementRun s = 0 \<and> \<not> sq_overloadLatched s"

lemma run_window_spec:
  assumes ready: "sq_ready s" and more: "sq_step s < int (length (sq_members s))"
  shows "\<exists>s'. run_window w s = Some (Some (sq_step s), s') \<and> sq_ready s' \<and>
    sq_members s' = sq_members s \<and> sq_step s' = sq_step s + 1 \<and> sq_lastRefusal s' = verdict w \<and>
    sq_captures s' = sq_captures s @
      (if accepted w then [\<lparr>cr_name = sq_members s ! nat (sq_step s), cr_refusal = NoRefusalReason\<rparr>] else [])"
proof -
  let ?c = "sq_beginCapture (sq_beginWait s)"
  have c: "?c = s\<lparr>sq_state := CsCapturing\<rparr>"
    using ready more by (simp add: sq_beginCapture_def sq_beginWait_def sq_ready_def)
  have "\<not> window_clipped []"
    by (simp add: window_clipped_def full_run_Nil)
  then obtain r m where fed: "feed_all (fst w) ?c = s\<lparr>sq_state := CsCapturing, sq_referenceRun := r,
      sq_measurementRun := m, sq_overloadLatched := window_clipped (fst w)\<rparr>"
    using feed_all_spec [of ?c "[]" "fst w"] ready by (auto simp: c sq_ready_def)
  show ?thesis
    using ready more unfolding run_window_def fed
    by (auto simp: sq_endCapture_def Let_def verdict_def accepted_def sq_ready_def)
qed

lemma run_windows_spec:
  "sq_ready s \<Longrightarrow> sq_step s + int (length ws) \<le> int (length (sq_members s)) \<Longrightarrow>
   \<exists>s'. run_windows ws s = Some (map (\<lambda>i. Some (sq_step s + int i)) [0..<length ws], s') \<and> sq_ready s' \<and>
     sq_members s' = sq_members s \<and> sq_step s' = sq_step s + int (length ws) \<and>
     sq_lastRefusal s' = (if ws = [] then sq_lastRefusal s else verdict (last ws)) \<and>
     sq_captures s' = sq_captures s @
       map (\<lambda>(n, _). \<lparr>cr_name = n, cr_refusal = NoRefusalReason\<rparr>)
         (filter (\<lambda>(_, w). accepted w) (zip (drop (nat (sq_step s)) (sq_members s)) ws))"
proof (induction ws arbitrary: s)
  case Nil
  then show ?case by simp
next
  case (Cons w ws)
  have more: "sq_step s < int (length (sq_members s))"
    using Cons.prems by simp
  obtain s1 where s1: "run_window w s = Some (Some (sq_step s), s1)" "sq_ready s1"
    "sq_members s1 = sq_members s" "sq_step s1 = sq_step s + 1" "sq_lastRefusal s1 = verdict w"
    "sq_captures s1 = sq_captures s @
      (if accepted w then [\<lparr>cr_name = sq_members s ! nat (sq_step s), cr_refusal = NoRefusalReason\<rparr>] else [])"
    using run_window_spec [OF Cons.prems(1) more] by blast
  obtain s' where s': "run_windows ws s1 = Some (map (\<lambda>i. Some (sq_step s1 + int i)) [0..<length ws], s')"
    "sq_ready s'" "sq_members s' = sq_members s1" "sq_step s' = sq_step s1 + int (length ws)"
    "sq_lastRefusal s' = (if ws = [] then sq_lastRefusal s1 else verdict (last ws))"
    "sq_captures s' = sq_captures s1 @
       map (\<lambda>(n, _). \<lparr>cr_name = n, cr_refusal = NoRefusalReason\<rparr>)
         (filter (\<lambda>(_, w). accepted w) (zip (drop (nat (sq_step s1)) (sq_members s1)) ws))"
    using Cons.IH [OF s1(2)] Cons.prems(2) s1(3,4) by auto
  have nn: "nat (sq_step s) < length (sq_members s)" "nat (sq_step s + 1) = Suc (nat (sq_step s))"
    using Cons.prems(1) more by (auto simp: sq_ready_def nat_less_iff nat_add_distrib)
  have drop: "drop (nat (sq_step s)) (sq_members s) =
      sq_members s ! nat (sq_step s) # drop (nat (sq_step s + 1)) (sq_members s)"
    using nn by (simp add: Cons_nth_drop_Suc)
  have calls: "map (\<lambda>i. Some (sq_step s + int i)) [0..<Suc (length ws)] =
      Some (sq_step s) # map (\<lambda>i. Some (sq_step s + 1 + int i)) [0..<length ws]"
    by (simp add: upt_conv_Cons map_Suc_upt [symmetric] del: upt_Suc)
  show ?case
    using s' s1 by (simp add: calls drop del: upt_Suc)
qed

section \<open>Properties\<close>


definition sample_windows :: "(hops \<times> bool) list" where
  "sample_windows = [([([Fin 0], [Fin 0])], True), ([([Fin 1, Fin 1], [Fin 0]), ([Fin 1], [NaN])], True)]"


end
