(* ===== verification/Spl_Meter.thy ===== *)
theory Spl_Meter
  imports Frequency_Weighting Spl_History Capture_Sequencer
begin

text \<open>
  One weighted chain of a logged channel (\<^verbatim>\<open>app/src/measure/SplMeter.cpp\<close>) and the configuration it is built from
  (\<^verbatim>\<open>SplConfig.h\<close>): the weighting filters, the detector that ticks every 100 ms, the overload run, the block
  accumulator and the buffer of finished blocks.  The theory proves that how a stream is cut into hops leaves no
  trace: the blocks are those of the whole stream.
\<close>

section \<open>Configuration\<close>

record SplMetricSpec =
  ms_id :: string
  ms_weighting :: WeightingType
  ms_detector :: TimeWeighting
  ms_windowBlocks :: uint64_t

definition nioshRelDose :: DoseSettings where
  "nioshRelDose = \<lparr>criterionLevelDb = 85, criterionSeconds = 8 * 3600, dose_q = exchangeDenominator 3, thresholdDb = 80\<rparr>"

definition oshaPelDose :: DoseSettings where
  "oshaPelDose = \<lparr>criterionLevelDb = 90, criterionSeconds = 8 * 3600, dose_q = exchangeDenominator 5, thresholdDb = 90\<rparr>"

definition kMaxMetrics :: nat where
  "kMaxMetrics = 16"

record SplConfig =
  cf_blockSeconds :: real
  cf_referenceOffsetDb :: real
  cf_calibrated :: bool
  cf_logSpanSeconds :: real
  cf_segmentBlocks :: uint64_t
  cf_lnPercents :: "real list"
  cf_metrics :: "SplMetricSpec list"
  cf_alarms :: "SplAlarmSpec list"
  cf_dose :: "DoseSettings list"

definition SplConfig_default :: SplConfig where
  "SplConfig_default = \<lparr>cf_blockSeconds = 1, cf_referenceOffsetDb = 0, cf_calibrated = False,
     cf_logSpanSeconds = 8 * 3600, cf_segmentBlocks = 3600, cf_lnPercents = [1, 5, 10, 50, 90, 95],
     cf_metrics = [], cf_alarms = [], cf_dose = [nioshRelDose, oshaPelDose]\<rparr>"

definition histogramBaseDb :: "SplConfig \<Rightarrow> real" where
  "histogramBaseDb config = measure_kLevelFloorDb + cf_referenceOffsetDb config"

definition acceptedMetricCount :: "SplConfig \<Rightarrow> nat" where
  "acceptedMetricCount config =
     (if length (cf_metrics config) < kMaxMetrics then length (cf_metrics config) else kMaxMetrics)"

definition refusedMetricCount :: "SplConfig \<Rightarrow> nat" where
  "refusedMetricCount config = length (cf_metrics config) - acceptedMetricCount config"

definition blockSecondsBelowRecommendedFloor :: "SplConfig \<Rightarrow> real \<Rightarrow> real \<Rightarrow> real \<Rightarrow> bool" where
  "blockSecondsBelowRecommendedFloor config rate scratchSamples readyCapacity =
     (if \<not> rate > 0 \<or> \<not> cf_blockSeconds config > 0 \<or> \<not> readyCapacity > 0 then True
      else cf_blockSeconds config * rate < scratchSamples / readyCapacity)"

definition SplConfig_windowBlocks :: "SplConfig \<Rightarrow> real \<Rightarrow> uint64_t" where
  "SplConfig_windowBlocks config windowSeconds =
     (if \<not> cf_blockSeconds config > 0 \<or> \<not> windowSeconds > 0 then 0
      else word_of_int \<lfloor>windowSeconds / cf_blockSeconds config + 1 / 2\<rfloor>)"

section \<open>The meter\<close>

definition blockSamplesFor :: "real \<Rightarrow> real \<Rightarrow> uint32_t" where
  "blockSamplesFor blockSeconds rate =
     (if \<not> blockSeconds > 0 \<or> \<not> rate > 0 then 1
      else (let samples = blockSeconds * rate + 1 / 2 in if samples < 1 then 1 else word_of_int \<lfloor>samples\<rfloor>))"

definition lnSamplesPerTickFor :: "real \<Rightarrow> uint64_t" where
  "lnSamplesPerTickFor rate =
     (if \<not> rate > 0 then 1
      else (let samples = 0.1 * rate + 1 / 2 in if samples < 1 then 1 else word_of_int \<lfloor>samples\<rfloor>))"

definition ticksPerBlockFor :: "real \<Rightarrow> uint64_t" where
  "ticksPerBlockFor blockSeconds =
     (if \<not> blockSeconds > 0 then 1
      else (let ticks = blockSeconds / 0.1 + 1 / 2 in if ticks < 1 then 1 else word_of_int \<lfloor>ticks\<rfloor>))"

definition lnTickBufferCapacity :: "real \<Rightarrow> nat" where
  "lnTickBufferCapacity blockSeconds =
     (let generous = (word_of_nat kReadyCapacity + 2) * ticksPerBlockFor blockSeconds
      in unat (if generous < 16 then 16 else generous))"

definition kScratchSamples :: nat where "kScratchSamples = 1024"
definition kOverloadRunLength :: int where "kOverloadRunLength = 3"
definition kReadyBufferCapacity :: nat where "kReadyBufferCapacity = kScratchSamples"

record SplMeter =
  sm_weightingType :: WeightingType
  sm_sampleRate :: real
  sm_referenceOffsetDb :: real
  sm_main :: Weighting
  sm_peak :: Weighting
  sm_accumulator :: BlockAccumulator
  sm_overloadRun :: int
  sm_lnDetector :: Detector
  sm_lnSampleCounter :: uint64_t
  sm_lnSamplesPerTick :: uint64_t
  sm_lnTicks :: "real list"
  sm_lnCapacity :: nat
  sm_overflowedLnTicks :: uint64_t
  sm_readyBuffer :: "Block list"
  sm_readyHead :: nat
  sm_readyCount :: nat

datatype spl_error = BadWeighting weighting_error | BadMeter meter_error

definition SplMeter_new :: "SplConfig \<Rightarrow> WeightingType \<Rightarrow> real \<Rightarrow> spl_error + SplMeter" where
  "SplMeter_new config weighting rate =
     (case (Weighting_new weighting rate, Weighting_new WeightC rate) of
        (Inr main, Inr peak) \<Rightarrow>
          (case (BlockAccumulator_new (blockSamplesFor (cf_blockSeconds config) rate) rate, Detector_new Fast rate) of
             (Inr acc, Inr det) \<Rightarrow>
               Inr \<lparr>sm_weightingType = weighting, sm_sampleRate = rate, sm_referenceOffsetDb = cf_referenceOffsetDb config,
                    sm_main = main, sm_peak = peak, sm_accumulator = acc, sm_overloadRun = 0, sm_lnDetector = det,
                    sm_lnSampleCounter = 0, sm_lnSamplesPerTick = lnSamplesPerTickFor rate, sm_lnTicks = [],
                    sm_lnCapacity = lnTickBufferCapacity (cf_blockSeconds config), sm_overflowedLnTicks = 0,
                    sm_readyBuffer = replicate kReadyBufferCapacity Block_default, sm_readyHead = 0, sm_readyCount = 0\<rparr>
           | (Inl err, _) \<Rightarrow> Inl (BadMeter err)
           | (_, Inl err) \<Rightarrow> Inl (BadMeter err))
      | (Inl err, _) \<Rightarrow> Inl (BadWeighting err)
      | (_, Inl err) \<Rightarrow> Inl (BadWeighting err))"

definition SplMeter_reset :: "SplMeter \<Rightarrow> SplMeter" where
  "SplMeter_reset m =
     m\<lparr>sm_main := Weighting_reset (sm_main m), sm_peak := Weighting_reset (sm_peak m),
       sm_accumulator := BlockAccumulator_reset (sm_accumulator m), sm_overloadRun := 0,
       sm_lnDetector := Detector_reset (sm_lnDetector m) 0, sm_lnSampleCounter := 0, sm_lnTicks := [],
       sm_overflowedLnTicks := 0, sm_readyHead := 0, sm_readyCount := 0\<rparr>"

definition SplMeter_noteDroppedSamples :: "uint32_t \<Rightarrow> SplMeter \<Rightarrow> SplMeter" where
  "SplMeter_noteDroppedSamples count m = m\<lparr>sm_accumulator := noteDroppedSamples (sm_accumulator m) count\<rparr>"

definition SplMeter_setFlag :: "BlockFlag \<Rightarrow> SplMeter \<Rightarrow> SplMeter" where
  "SplMeter_setFlag flag m = m\<lparr>sm_accumulator := setFlag (sm_accumulator m) flag\<rparr>"

definition SplMeter_poll :: "SplMeter \<Rightarrow> Block option \<times> SplMeter" where
  "SplMeter_poll m =
     (if sm_readyCount m > 0 then
        (Some (sm_readyBuffer m ! sm_readyHead m),
         m\<lparr>sm_readyHead := (sm_readyHead m + 1) mod kReadyBufferCapacity, sm_readyCount := sm_readyCount m - 1\<rparr>)
      else (let (b, a) = BlockAccumulator_poll (sm_accumulator m) in (b, m\<lparr>sm_accumulator := a\<rparr>)))"

text \<open>The loop over the weighted samples of a segment: detector, sample count and ticks.\<close>

fun ln_feed :: "uint64_t \<Rightarrow> nat \<Rightarrow> real list \<Rightarrow> Detector \<times> uint64_t \<times> real list \<times> uint64_t \<Rightarrow>
    Detector \<times> uint64_t \<times> real list \<times> uint64_t" where
  "ln_feed perTick cap [] s = s"
| "ln_feed perTick cap (x # xs) (det, counter, ticks, lost) =
     (let det = snd (processSample det x);
          counter = counter + 1;
          (ticks, lost) =
            (if counter mod perTick = 0 then
               if length ticks < cap then (ticks @ [Detector_levelDb det 0], lost) else (ticks, lost + 1)
             else (ticks, lost))
      in ln_feed perTick cap xs (det, counter, ticks, lost))"

text \<open>The loop over the raw samples of a segment: the run of full-scale samples flags the pending block.\<close>

fun overload_feed :: "real list \<Rightarrow> int \<times> BlockAccumulator \<Rightarrow> int \<times> BlockAccumulator" where
  "overload_feed [] s = s"
| "overload_feed (x # xs) (run, a) =
     (if \<bar>x\<bar> \<ge> kFullScaleThreshold then
        (let run = run + 1
         in overload_feed xs (run, if run \<ge> kOverloadRunLength then setFlag a BlockFlag.Overload else a))
      else overload_feed xs (0, a))"

definition store_block :: "Block \<Rightarrow> SplMeter \<Rightarrow> SplMeter" where
  "store_block b m =
     (if sm_readyCount m < kReadyBufferCapacity then
        m\<lparr>sm_readyBuffer := (sm_readyBuffer m)[(sm_readyHead m + sm_readyCount m) mod kReadyBufferCapacity := b],
          sm_readyCount := sm_readyCount m + 1\<rparr>
      else m\<lparr>sm_accumulator := noteDroppedSamples (setFlag (sm_accumulator m) Dropped) (blk_samples b + blk_dropped b)\<rparr>)"

lemma store_block_queue [simp]: "acc_readyCount (sm_accumulator (store_block b m)) = acc_readyCount (sm_accumulator m)"
  by (simp add: store_block_def noteDroppedSamples_def setFlag_def)

function drain_acc :: "SplMeter \<Rightarrow> SplMeter" where
  "drain_acc m =
     (case BlockAccumulator_poll (sm_accumulator m) of
        (None, a) \<Rightarrow> m\<lparr>sm_accumulator := a\<rparr>
      | (Some b, a) \<Rightarrow> drain_acc (store_block b (m\<lparr>sm_accumulator := a\<rparr>)))"
  by pat_completeness auto
termination
  by (relation "measure (\<lambda>m. acc_readyCount (sm_accumulator m))")
    (auto simp: BlockAccumulator_poll_def split: if_splits)

declare drain_acc.simps [simp del]

text \<open>One turn of the loop in \<^verbatim>\<open>push\<close>; \<open>False\<close> is its early return.\<close>

definition meter_segment :: "real list \<Rightarrow> SplMeter \<Rightarrow> bool \<times> SplMeter" where
  "meter_segment seg m =
     (let (main, w) = Weighting_process (sm_main m) seg;
          (peak, p) = Weighting_process (sm_peak m) seg;
          (det, counter, ticks, lost) =
            ln_feed (sm_lnSamplesPerTick m) (sm_lnCapacity m) main
              (sm_lnDetector m, sm_lnSampleCounter m, sm_lnTicks m, sm_overflowedLnTicks m);
          (run, a) = overload_feed seg (sm_overloadRun m, sm_accumulator m);
          (consumed, a) = BlockAccumulator_push a main peak;
          m = drain_acc (m\<lparr>sm_main := w, sm_peak := p, sm_lnDetector := det, sm_lnSampleCounter := counter,
                sm_lnTicks := ticks, sm_overflowedLnTicks := lost, sm_overloadRun := run, sm_accumulator := a\<rparr>)
      in if consumed < length seg then
           (False, m\<lparr>sm_accumulator :=
              noteDroppedSamples (setFlag (sm_accumulator m) Dropped) (word_of_nat (length seg - consumed))\<rparr>)
         else (True, m))"

text \<open>The loop itself; \<open>None\<close> when it makes no progress, which is for ever.\<close>

function meter_loop :: "real list \<Rightarrow> SplMeter \<Rightarrow> SplMeter option" where
  "meter_loop hop m =
     (if hop = [] then Some m
      else let room = unat (acc_blockSamples (sm_accumulator m) - acc_pending (sm_accumulator m));
               n = min (min kScratchSamples room) (length hop)
           in if n = 0 then None
              else (case meter_segment (take n hop) m of
                      (False, m') \<Rightarrow> Some m'
                    | (True, m') \<Rightarrow> meter_loop (drop n hop) m'))"
  by pat_completeness auto
termination
  by (relation "measure (\<lambda>(hop, m). length hop)") auto

declare meter_loop.simps [simp del]

definition SplMeter_push :: "real list \<Rightarrow> SplMeter \<Rightarrow> SplMeter option" where
  "SplMeter_push hop m = meter_loop hop (m\<lparr>sm_lnTicks := []\<rparr>)"

definition blockLevelDb :: "Block \<Rightarrow> real \<Rightarrow> real" where
  "blockLevelDb block referenceOffsetDb =
     (if blk_samples block = 0 \<or> \<not> blk_sumSquares block > 0 then kLevelFloorDb + referenceOffsetDb
      else 10 * log 10 (blk_sumSquares block / real (unat (blk_samples block))) + referenceOffsetDb)"

section \<open>A segment is its samples\<close>

lemma ln_feed_append: "ln_feed perTick cap (xs @ ys) s = ln_feed perTick cap ys (ln_feed perTick cap xs s)"
proof (induction xs arbitrary: s)
  case (Cons x xs)
  then show ?case
    by (cases s) (simp add: Let_def case_prod_beta)
qed simp

text \<open>The overload loop touches the flags only.\<close>

fun overload_flags :: "real list \<Rightarrow> int \<times> uint32_t \<Rightarrow> int \<times> uint32_t" where
  "overload_flags [] s = s"
| "overload_flags (x # xs) (run, f) =
     (if \<bar>x\<bar> \<ge> kFullScaleThreshold
      then overload_flags xs (run + 1, if run + 1 \<ge> kOverloadRunLength then f OR flagMask BlockFlag.Overload else f)
      else overload_flags xs (0, f))"

lemma overload_feed_flags:
  "overload_feed xs (run, a) =
     (fst (overload_flags xs (run, acc_flags a)), a\<lparr>acc_flags := snd (overload_flags xs (run, acc_flags a))\<rparr>)"
  by (induction xs arbitrary: run a) (simp_all add: setFlag_def Let_def)

lemma overload_flags_append: "overload_flags (xs @ ys) s = overload_flags ys (overload_flags xs s)"
  by (induction xs s rule: overload_flags.induct) simp_all

lemma acc_update_swap:
  "a\<lparr>acc_pending := n, acc_sumSquares := q, acc_maxFast := mf, acc_maxSlow := ms, acc_maxPeak := mp, acc_fast := df,
      acc_slow := ds\<rparr> =
   a\<lparr>acc_sumSquares := q, acc_maxFast := mf, acc_maxSlow := ms, acc_maxPeak := mp, acc_fast := df, acc_slow := ds\<rparr>
    \<lparr>acc_pending := n\<rparr>"
  "a\<lparr>acc_flags := f, acc_sumSquares := q, acc_maxFast := mf, acc_maxSlow := ms, acc_maxPeak := mp, acc_fast := df,
      acc_slow := ds\<rparr> =
   a\<lparr>acc_sumSquares := q, acc_maxFast := mf, acc_maxSlow := ms, acc_maxPeak := mp, acc_fast := df, acc_slow := ds\<rparr>
    \<lparr>acc_flags := f\<rparr>"
  by simp_all

lemma acc_samples_pending: "acc_samples (a\<lparr>acc_pending := n\<rparr>) xs ps = (acc_samples a xs ps)\<lparr>acc_pending := n\<rparr>"
proof (induction a xs ps rule: acc_samples.induct)
  case (1 a x xs p ps)
  show ?case
    using 1 [OF refl prod.collapse refl prod.collapse]
    by (simp add: case_prod_beta acc_update_swap)
qed simp_all

lemma acc_samples_flags: "acc_samples (a\<lparr>acc_flags := f\<rparr>) xs ps = (acc_samples a xs ps)\<lparr>acc_flags := f\<rparr>"
proof (induction a xs ps rule: acc_samples.induct)
  case (1 a x xs p ps)
  show ?case
    using 1 [OF refl prod.collapse refl prod.collapse]
    by (simp add: case_prod_beta acc_update_swap)
qed simp_all

lemma acc_samples_append:
  "length xs = length ps \<Longrightarrow> acc_samples a (xs @ ys) (ps @ qs) = acc_samples (acc_samples a xs ps) ys qs"
  by (induction a xs ps rule: acc_samples.induct) (simp_all add: case_prod_beta)

text \<open>What a segment does to the meter before a full block is closed.\<close>

definition absorb :: "real list \<Rightarrow> SplMeter \<Rightarrow> SplMeter" where
  "absorb xs m =
     (let (main, w) = Weighting_process (sm_main m) xs;
          (peak, p) = Weighting_process (sm_peak m) xs;
          (det, counter, ticks, lost) =
            ln_feed (sm_lnSamplesPerTick m) (sm_lnCapacity m) main
              (sm_lnDetector m, sm_lnSampleCounter m, sm_lnTicks m, sm_overflowedLnTicks m);
          (run, f) = overload_flags xs (sm_overloadRun m, acc_flags (sm_accumulator m));
          a = acc_samples (sm_accumulator m) main peak
      in m\<lparr>sm_main := w, sm_peak := p, sm_lnDetector := det, sm_lnSampleCounter := counter,
           sm_lnTicks := ticks, sm_overflowedLnTicks := lost, sm_overloadRun := run,
           sm_accumulator := a\<lparr>acc_flags := f, acc_pending := acc_pending a + word_of_nat (length xs)\<rparr>\<rparr>)"

lemma absorb_append: "absorb (xs @ ys) m = absorb ys (absorb xs m)"
  by (simp add: absorb_def Let_def case_prod_beta Weighting_process_append ln_feed_append overload_flags_append
      acc_samples_append acc_samples_pending acc_samples_flags add.assoc)

definition acc_idle :: "BlockAccumulator \<Rightarrow> bool" where
  "acc_idle a \<longleftrightarrow> acc_readyCount a = 0 \<and> length (acc_ready a) = kReadyCapacity \<and> acc_readyHead a < kReadyCapacity \<and>
     acc_pending a < acc_blockSamples a"

definition settle :: "SplMeter \<Rightarrow> SplMeter" where
  "settle m =
     (if acc_pending (sm_accumulator m) \<ge> acc_blockSamples (sm_accumulator m)
      then drain_acc (m\<lparr>sm_accumulator := closeBlock (sm_accumulator m)\<rparr>) else m)"

definition tick :: "real \<Rightarrow> SplMeter \<Rightarrow> SplMeter" where
  "tick x m = settle (absorb [x] m)"

lemma push_within_room:
  assumes "ws \<noteq> []" "length ws = length ps" "acc_readyCount a = 0"
    and "length ws \<le> unat (acc_blockSamples a - acc_pending a)"
  shows "BlockAccumulator_push a ws ps = (length ws, take_in a (length ws) ws ps)"
proof -
  have "push_loop t [] ps' = (0, t)" for t ps'
    by (subst push_loop.simps) simp
  then show ?thesis
    using assms push_loop_unfold [of ws a ps]
    by (simp add: BlockAccumulator_push_def min_absorb2 kReadyCapacity_def)
qed

lemma drain_acc_none [simp]: "acc_readyCount (sm_accumulator m) = 0 \<Longrightarrow> drain_acc m = m"
  by (subst drain_acc.simps) (simp add: BlockAccumulator_poll_def)

lemma meter_segment_settle:
  assumes "acc_idle (sm_accumulator m)" "seg \<noteq> []"
    and "length seg \<le> unat (acc_blockSamples (sm_accumulator m) - acc_pending (sm_accumulator m))"
  shows "meter_segment seg m = (True, settle (absorb seg m))"
proof -
  let ?ws = "fst (Weighting_process (sm_main m) seg)" and ?ps = "fst (Weighting_process (sm_peak m) seg)"
  let ?f = "snd (overload_flags seg (sm_overloadRun m, acc_flags (sm_accumulator m)))"
  let ?a = "(sm_accumulator m)\<lparr>acc_flags := ?f\<rparr>"
  have "?ws \<noteq> []"
    using assms(2) by (metis Weighting_process_length length_0_conv)
  then have "BlockAccumulator_push ?a ?ws ?ps = (length seg, take_in ?a (length seg) ?ws ?ps)"
    using push_within_room [of ?ws ?ps ?a] assms by (simp add: acc_idle_def)
  then show ?thesis
    using assms(1)
    by (simp add: meter_segment_def absorb_def settle_def overload_feed_flags Let_def case_prod_beta take_in_def
        acc_samples_flags acc_idle_def)
qed

lemma absorb_pending [simp]:
  "acc_pending (sm_accumulator (absorb xs m)) = acc_pending (sm_accumulator m) + word_of_nat (length xs)"
  "acc_blockSamples (sm_accumulator (absorb xs m)) = acc_blockSamples (sm_accumulator m)"
  "acc_readyCount (sm_accumulator (absorb xs m)) = acc_readyCount (sm_accumulator m)"
  "acc_readyHead (sm_accumulator (absorb xs m)) = acc_readyHead (sm_accumulator m)"
  "acc_ready (sm_accumulator (absorb xs m)) = acc_ready (sm_accumulator m)"
  "acc_nextIndex (sm_accumulator (absorb xs m)) = acc_nextIndex (sm_accumulator m)"
  "acc_dropped (sm_accumulator (absorb xs m)) = acc_dropped (sm_accumulator m)"
  by (simp_all add: absorb_def Let_def case_prod_beta)

lemma pending_plus:
  assumes "acc_pending a < acc_blockSamples a" "n \<le> unat (acc_blockSamples a - acc_pending a)"
  shows "unat (acc_pending a + word_of_nat n) = unat (acc_pending a) + n"
    and "unat (acc_pending a) + n \<le> unat (acc_blockSamples a)"
proof -
  have room: "unat (acc_blockSamples a - acc_pending a) = unat (acc_blockSamples a) - unat (acc_pending a)"
    using assms(1) by (simp add: unat_sub word_le_nat_alt word_less_nat_alt)
  show le: "unat (acc_pending a) + n \<le> unat (acc_blockSamples a)"
    using assms room by (simp add: word_less_nat_alt)
  then have "unat (acc_pending a) + n < 2 ^ 32"
    using unsigned_less [where ?'b = 32 and ?'a = nat, of "acc_blockSamples a"] by simp
  then show "unat (acc_pending a + word_of_nat n) = unat (acc_pending a) + n"
    by (simp add: unat_word_ariths unat_of_nat)
qed

text \<open>Fewer samples than the block still takes leave it open.\<close>

lemma settle_open:
  assumes "acc_idle (sm_accumulator m)"
    and "length xs < unat (acc_blockSamples (sm_accumulator m) - acc_pending (sm_accumulator m))"
  shows "settle (absorb xs m) = absorb xs m" "acc_idle (sm_accumulator (absorb xs m))"
    "unat (acc_blockSamples (sm_accumulator (absorb xs m)) - acc_pending (sm_accumulator (absorb xs m))) =
       unat (acc_blockSamples (sm_accumulator m) - acc_pending (sm_accumulator m)) - length xs"
proof -
  let ?a = "sm_accumulator m"
  have lt: "acc_pending ?a < acc_blockSamples ?a"
    using assms(1) by (simp add: acc_idle_def)
  have p: "unat (acc_pending ?a + word_of_nat (length xs)) = unat (acc_pending ?a) + length xs"
    using pending_plus [OF lt] assms(2) by simp
  have room: "unat (acc_blockSamples ?a - acc_pending ?a) = unat (acc_blockSamples ?a) - unat (acc_pending ?a)"
    using lt by (simp add: unat_sub word_le_nat_alt word_less_nat_alt)
  then have less: "acc_pending ?a + word_of_nat (length xs) < acc_blockSamples ?a"
    using p assms(2) by (simp add: word_less_nat_alt)
  then show "settle (absorb xs m) = absorb xs m" "acc_idle (sm_accumulator (absorb xs m))"
    using assms(1) by (simp_all add: settle_def acc_idle_def)
  show "unat (acc_blockSamples (sm_accumulator (absorb xs m)) - acc_pending (sm_accumulator (absorb xs m))) =
       unat (acc_blockSamples ?a - acc_pending ?a) - length xs"
    using less p room by (simp add: unat_sub word_le_nat_alt word_less_nat_alt)
qed

lemma segment_ticks:
  assumes "acc_idle (sm_accumulator m)" "seg \<noteq> []"
    and "length seg \<le> unat (acc_blockSamples (sm_accumulator m) - acc_pending (sm_accumulator m))"
  shows "settle (absorb seg m) = fold tick seg m"
  using assms
proof (induction seg arbitrary: m)
  case (Cons x xs)
  show ?case
  proof (cases "xs = []")
    case False
    then have short: "length [x] < unat (acc_blockSamples (sm_accumulator m) - acc_pending (sm_accumulator m))"
      using Cons.prems(3) by (cases xs) auto
    note one = settle_open [OF Cons.prems(1) short]
    have "settle (absorb (x # xs) m) = settle (absorb xs (absorb [x] m))"
      using absorb_append [of "[x]" xs m] by simp
    also have "\<dots> = fold tick xs (absorb [x] m)"
      using Cons.IH [OF one(2) False] one(3) Cons.prems(3) by simp
    also have "absorb [x] m = tick x m"
      by (simp add: tick_def one(1))
    finally show ?thesis
      by simp
  qed (simp add: tick_def)
qed simp

section \<open>Closing a block\<close>

definition closed_block :: "BlockAccumulator \<Rightarrow> Block" where
  "closed_block a = \<lparr>blockIndex = acc_nextIndex a, blk_samples = acc_blockSamples a, blk_dropped = acc_dropped a,
     blk_sumSquares = acc_sumSquares a, blk_maxFastDb = levelDbFloored (acc_maxFast a),
     blk_maxSlowDb = levelDbFloored (acc_maxSlow a), blk_peakDb = levelDbFloored (acc_maxPeak a), blk_flags = acc_flags a\<rparr>"

definition meter_queue :: "SplMeter \<Rightarrow> Block list" where
  "meter_queue m =
     map (\<lambda>i. sm_readyBuffer m ! ((sm_readyHead m + i) mod kReadyBufferCapacity)) [0..<sm_readyCount m]"

definition queue_ok :: "SplMeter \<Rightarrow> bool" where
  "queue_ok m \<longleftrightarrow> length (sm_readyBuffer m) = kReadyBufferCapacity \<and> sm_readyHead m < kReadyBufferCapacity \<and>
     sm_readyCount m \<le> kReadyBufferCapacity"

lemma store_block_fits:
  assumes "queue_ok m" "sm_readyCount m < kReadyBufferCapacity"
  shows "meter_queue (store_block b m) = meter_queue m @ [b]" "queue_ok (store_block b m)"
    "sm_readyCount (store_block b m) = Suc (sm_readyCount m)" "sm_accumulator (store_block b m) = sm_accumulator m"
    "sm_overloadRun (store_block b m) = sm_overloadRun m" "sm_main (store_block b m) = sm_main m"
proof -
  let ?c = kReadyBufferCapacity
  have ne: "((sm_readyHead m + sm_readyCount m) mod ?c = (sm_readyHead m + i) mod ?c) = False" if "i < sm_readyCount m" for i
    using that assms mod_same_window [of "sm_readyHead m + i" "sm_readyHead m + sm_readyCount m" ?c] by fastforce
  show "meter_queue (store_block b m) = meter_queue m @ [b]"
    using assms by (simp add: meter_queue_def store_block_def queue_ok_def nth_list_update ne)
qed (use assms in \<open>simp_all add: store_block_def queue_ok_def\<close>)

lemma settle_full:
  assumes "acc_readyCount (sm_accumulator m) = 0" "length (acc_ready (sm_accumulator m)) = kReadyCapacity"
    "acc_readyHead (sm_accumulator m) < kReadyCapacity"
    and "acc_pending (sm_accumulator m) \<ge> acc_blockSamples (sm_accumulator m)"
  obtains a where "settle m = store_block (closed_block (sm_accumulator m)) (m\<lparr>sm_accumulator := a\<rparr>)"
    and "acc_readyCount a = 0" "length (acc_ready a) = kReadyCapacity" "acc_readyHead a < kReadyCapacity"
      "acc_pending a = 0" "acc_blockSamples a = acc_blockSamples (sm_accumulator m)"
      "acc_nextIndex a = acc_nextIndex (sm_accumulator m) + 1" "acc_dropped a = 0" "acc_sumSquares a = 0" "acc_flags a = 0"
proof -
  let ?a = "closeBlock (sm_accumulator m)"
  define a where "a = snd (BlockAccumulator_poll ?a)"
  have poll: "BlockAccumulator_poll ?a = (Some (closed_block (sm_accumulator m)), a)"
    using assms(1-3) by (simp add: a_def BlockAccumulator_poll_def closeBlock_def closed_block_def Let_def)
  have fields: "acc_readyCount a = 0" "length (acc_ready a) = kReadyCapacity" "acc_readyHead a < kReadyCapacity"
      "acc_pending a = 0" "acc_blockSamples a = acc_blockSamples (sm_accumulator m)"
      "acc_nextIndex a = acc_nextIndex (sm_accumulator m) + 1" "acc_dropped a = 0" "acc_sumSquares a = 0" "acc_flags a = 0"
    using assms(1-3) by (simp_all add: a_def BlockAccumulator_poll_def closeBlock_def Let_def kReadyCapacity_def)
  have "settle m = drain_acc (store_block (closed_block (sm_accumulator m)) (m\<lparr>sm_accumulator := a\<rparr>))"
    using assms(4) by (simp add: settle_def, subst drain_acc.simps) (simp add: poll)
  then show thesis
    using that fields by simp
qed

section \<open>The reference: blocks of the whole stream\<close>

definition loud :: "real \<Rightarrow> bool" where
  "loud x \<longleftrightarrow> \<bar>x\<bar> \<ge> kFullScaleThreshold"

text \<open>The third or a later sample of a run of full-scale samples.\<close>

definition clip_at :: "real list \<Rightarrow> nat \<Rightarrow> bool" where
  "clip_at stream i \<longleftrightarrow> 2 \<le> i \<and> i < length stream \<and> loud (stream ! i) \<and> loud (stream ! (i - 1)) \<and> loud (stream ! (i - 2))"

definition overload_flag :: "real list \<Rightarrow> nat \<Rightarrow> nat \<Rightarrow> uint32_t" where
  "overload_flag stream lo hi = (if list_ex (clip_at stream) [lo..<hi] then flagMask BlockFlag.Overload else 0)"

definition block_facts :: "Block \<Rightarrow> uint64_t \<times> uint32_t \<times> uint32_t \<times> real \<times> uint32_t" where
  "block_facts b = (blockIndex b, blk_samples b, blk_dropped b, blk_sumSquares b, blk_flags b)"

definition stream_block ::
  "uint32_t \<Rightarrow> real list \<Rightarrow> real list \<Rightarrow> nat \<Rightarrow> uint64_t \<times> uint32_t \<times> uint32_t \<times> real \<times> uint32_t" where
  "stream_block n stream weighted k =
     (word_of_nat k, n, 0, energy (take (unat n) (drop (k * unat n) weighted)),
      overload_flag stream (k * unat n) (Suc k * unat n))"

definition loud_tail :: "real list \<Rightarrow> nat" where
  "loud_tail stream = length (takeWhile loud (rev stream))"

lemma clip_at_append [simp]: "i < length stream \<Longrightarrow> clip_at (stream @ ys) i = clip_at stream i"
  by (auto simp: clip_at_def nth_append)

lemma clip_at_last: "clip_at (stream @ [x]) (length stream) \<longleftrightarrow> loud x \<and> loud_tail stream \<ge> 2"
proof (cases stream rule: rev_cases)
  case (snoc ys y)
  then show ?thesis
    by (cases ys rule: rev_cases) (auto simp: clip_at_def loud_tail_def nth_append)
qed (simp add: clip_at_def loud_tail_def)

lemma loud_tail_snoc: "loud_tail (stream @ [x]) = (if loud x then Suc (loud_tail stream) else 0)"
  by (simp add: loud_tail_def)

lemma overload_flag_append: "hi \<le> length stream \<Longrightarrow> overload_flag (stream @ ys) lo hi = overload_flag stream lo hi"
  by (simp add: overload_flag_def list_ex_iff)

lemma overload_step:
  assumes "lo \<le> length stream"
  shows "overload_flags [x] (int (loud_tail stream), overload_flag stream lo (length stream)) =
           (int (loud_tail (stream @ [x])), overload_flag (stream @ [x]) lo (Suc (length stream)))"
proof -
  have "list_ex (clip_at (stream @ [x])) [lo..<length stream] = list_ex (clip_at stream) [lo..<length stream]"
    by (simp add: list_ex_iff)
  then have "overload_flag (stream @ [x]) lo (Suc (length stream)) =
      (if loud x \<and> loud_tail stream \<ge> 2 then flagMask BlockFlag.Overload else overload_flag stream lo (length stream))"
    using assms by (simp add: overload_flag_def clip_at_last)
  then show ?thesis
    by (auto simp: loud_tail_snoc loud_def kOverloadRunLength_def overload_flag_def)
qed

lemma stream_block_append:
  "Suc k * unat n \<le> length stream \<Longrightarrow> length weighted = length stream \<Longrightarrow>
     stream_block n (stream @ [x]) (weighted @ [y]) k = stream_block n stream weighted k"
  by (simp add: stream_block_def overload_flag_append)

text \<open>The meter after \<open>stream\<close>, of whose blocks those in \<open>out\<close> were polled.\<close>

definition meter_inv :: "uint32_t \<Rightarrow> Weighting \<Rightarrow> real list \<Rightarrow> Block list \<Rightarrow> SplMeter \<Rightarrow> bool" where
  "meter_inv n w stream out m \<longleftrightarrow>
     (let a = sm_accumulator m; b = unat n; q = length stream div b; ys = fst (Weighting_process w stream)
      in acc_blockSamples a = n \<and> acc_idle a \<and> unat (acc_pending a) = length stream mod b \<and>
         acc_nextIndex a = word_of_nat q \<and> acc_dropped a = 0 \<and> acc_sumSquares a = energy (drop (q * b) ys) \<and>
         acc_flags a = overload_flag stream (q * b) (length stream) \<and>
         sm_overloadRun m = int (loud_tail stream) \<and> sm_main m = snd (Weighting_process w stream) \<and> queue_ok m \<and>
         map block_facts (out @ meter_queue m) = map (stream_block n stream ys) [0..<q])"

lemma meter_invE:
  assumes "meter_inv n w stream out m"
  shows "acc_blockSamples (sm_accumulator m) = n" "acc_idle (sm_accumulator m)" "0 < unat n"
    "unat (acc_pending (sm_accumulator m)) = length stream mod unat n"
    "acc_nextIndex (sm_accumulator m) = word_of_nat (length stream div unat n)" "acc_dropped (sm_accumulator m) = 0"
    "acc_sumSquares (sm_accumulator m) = energy (drop (length stream div unat n * unat n) (fst (Weighting_process w stream)))"
    "acc_flags (sm_accumulator m) = overload_flag stream (length stream div unat n * unat n) (length stream)"
    "sm_overloadRun m = int (loud_tail stream)" "sm_main m = snd (Weighting_process w stream)" "queue_ok m"
    "map block_facts (out @ meter_queue m) = map (stream_block n stream (fst (Weighting_process w stream))) [0..<length stream div unat n]"
proof -
  have "acc_pending (sm_accumulator m) < n"
    using assms by (auto simp: meter_inv_def acc_idle_def Let_def)
  then show "0 < unat n"
    by (simp add: word_less_nat_alt)
qed (use assms in \<open>simp_all add: meter_inv_def Let_def\<close>)

text \<open>The fields one sample changes.\<close>

lemma absorb_one:
  assumes "meter_inv n w stream out m"
  obtains y where "fst (Weighting_process w (stream @ [x])) = fst (Weighting_process w stream) @ [y]"
    and "sm_main (absorb [x] m) = snd (Weighting_process w (stream @ [x]))"
    and "acc_sumSquares (sm_accumulator (absorb [x] m)) = acc_sumSquares (sm_accumulator m) + y * y"
    and "acc_flags (sm_accumulator (absorb [x] m)) =
           overload_flag (stream @ [x]) (length stream div unat n * unat n) (Suc (length stream))"
    and "sm_overloadRun (absorb [x] m) = int (loud_tail (stream @ [x]))"
    and "meter_queue (absorb [x] m) = meter_queue m" "queue_ok (absorb [x] m) = queue_ok m"
      "sm_readyCount (absorb [x] m) = sm_readyCount m"
proof -
  note inv = meter_invE [OF assms]
  let ?ws = "fst (Weighting_process (sm_main m) [x])" and ?ps = "fst (Weighting_process (sm_peak m) [x])"
  have "length ?ws = 1"
    by simp
  then obtain y where y: "?ws = [y]"
    by (metis One_nat_def length_0_conv length_Suc_conv)
  have st: "overload_flags [x] (sm_overloadRun m, acc_flags (sm_accumulator m)) =
      (int (loud_tail (stream @ [x])), overload_flag (stream @ [x]) (length stream div unat n * unat n) (Suc (length stream)))"
    unfolding inv(8,9) by (rule overload_step) (simp add: div_times_less_eq_dividend)
  have "acc_sumSquares (acc_samples (sm_accumulator m) ?ws ?ps) = acc_sumSquares (sm_accumulator m) + y * y"
    using acc_samples_energy [of ?ws ?ps] y by simp
  then show thesis
    using st y inv(10)
    by (intro that [of y])
      (simp_all add: absorb_def Let_def case_prod_beta Weighting_process_append meter_queue_def queue_ok_def)
qed

lemma energy_single [simp]: "energy [y] = y * y"
  by (simp add: energy_def)

lemma energy_snoc: "k \<le> length ys \<Longrightarrow> energy (drop k (ys @ [y])) = energy (drop k ys) + y * y"
  by (simp add: energy_def)

lemma stream_blocks_append:
  assumes "0 < unat n" "length ys = length stream" "q \<le> length stream div unat n"
  shows "map (stream_block n (stream @ [x]) (ys @ [y])) [0..<q] = map (stream_block n stream ys) [0..<q]"
proof (rule map_cong [OF refl])
  fix k assume "k \<in> set [0..<q]"
  then have "Suc k \<le> length stream div unat n"
    using assms(3) by simp
  then have "Suc k * unat n \<le> length stream"
    using assms(1) by (simp only: less_eq_div_iff_mult_less_eq)
  then show "stream_block n (stream @ [x]) (ys @ [y]) k = stream_block n stream ys k"
    using assms(2) by (rule stream_block_append)
qed

lemma room_of_inv:
  assumes "meter_inv n w stream out m"
  shows "unat (acc_blockSamples (sm_accumulator m) - acc_pending (sm_accumulator m)) = unat n - length stream mod unat n"
  using meter_invE(1,2,4) [OF assms] by (simp add: acc_idle_def unat_sub word_le_nat_alt word_less_nat_alt)

lemma tick_open:
  assumes inv: "meter_inv n w stream out m" and notfull: "Suc (length stream) mod unat n \<noteq> 0"
  shows "meter_inv n w (stream @ [x]) out (tick x m)" "sm_readyCount (tick x m) = sm_readyCount m"
proof -
  note I = meter_invE [OF inv]
  obtain y where y: "fst (Weighting_process w (stream @ [x])) = fst (Weighting_process w stream) @ [y]"
      "sm_main (absorb [x] m) = snd (Weighting_process w (stream @ [x]))"
      "acc_sumSquares (sm_accumulator (absorb [x] m)) = acc_sumSquares (sm_accumulator m) + y * y"
      "acc_flags (sm_accumulator (absorb [x] m)) =
         overload_flag (stream @ [x]) (length stream div unat n * unat n) (Suc (length stream))"
      "sm_overloadRun (absorb [x] m) = int (loud_tail (stream @ [x]))"
      "meter_queue (absorb [x] m) = meter_queue m" "queue_ok (absorb [x] m) = queue_ok m"
      "sm_readyCount (absorb [x] m) = sm_readyCount m"
    using absorb_one [OF inv] by blast
  have md: "Suc (length stream) mod unat n = Suc (length stream mod unat n)"
      "Suc (length stream) div unat n = length stream div unat n"
    using notfull by (auto simp: mod_Suc div_Suc split: if_splits)
  have lt: "Suc (length stream mod unat n) < unat n"
    using md(1) I(3) by (metis mod_less_divisor)
  have room: "length [x] < unat (acc_blockSamples (sm_accumulator m) - acc_pending (sm_accumulator m))"
    using room_of_inv [OF inv] lt by simp
  note op = settle_open [OF I(2) room]
  have pend: "unat (acc_pending (sm_accumulator m) + 1) = Suc (length stream mod unat n)"
    using pending_plus(1) [of "sm_accumulator m" 1] I(2,4) room by (simp add: acc_idle_def)
  have tick: "tick x m = absorb [x] m"
    by (simp add: tick_def op(1))
  have blocks: "map (stream_block n (stream @ [x]) (fst (Weighting_process w stream) @ [y])) [0..<length stream div unat n] =
      map (stream_block n stream (fst (Weighting_process w stream))) [0..<length stream div unat n]"
    using I(3) by (intro stream_blocks_append) simp_all
  have sum: "energy (drop (length stream div unat n * unat n) (fst (Weighting_process w stream) @ [y])) =
      energy (drop (length stream div unat n * unat n) (fst (Weighting_process w stream))) + y * y"
    by (rule energy_snoc) (simp add: div_times_less_eq_dividend)
  show "meter_inv n w (stream @ [x]) out (tick x m)"
    unfolding tick meter_inv_def Let_def using I op(2) y(2-7) pend
    by (simp add: y(1) md blocks sum)
  show "sm_readyCount (tick x m) = sm_readyCount m"
    by (simp add: tick y)
qed

lemma tick_full:
  assumes inv: "meter_inv n w stream out m" and full: "Suc (length stream) mod unat n = 0"
    and fits: "sm_readyCount m < kReadyBufferCapacity"
  shows "meter_inv n w (stream @ [x]) out (tick x m)" "sm_readyCount (tick x m) = Suc (sm_readyCount m)"
proof -
  note I = meter_invE [OF inv]
  let ?q = "length stream div unat n" and ?ys = "fst (Weighting_process w stream)"
  obtain y where y: "fst (Weighting_process w (stream @ [x])) = ?ys @ [y]"
      "sm_main (absorb [x] m) = snd (Weighting_process w (stream @ [x]))"
      "acc_sumSquares (sm_accumulator (absorb [x] m)) = acc_sumSquares (sm_accumulator m) + y * y"
      "acc_flags (sm_accumulator (absorb [x] m)) = overload_flag (stream @ [x]) (?q * unat n) (Suc (length stream))"
      "sm_overloadRun (absorb [x] m) = int (loud_tail (stream @ [x]))"
      "meter_queue (absorb [x] m) = meter_queue m" "queue_ok (absorb [x] m) = queue_ok m"
      "sm_readyCount (absorb [x] m) = sm_readyCount m"
    using absorb_one [OF inv] by blast
  have md: "Suc (length stream mod unat n) = unat n" "Suc (length stream) div unat n = Suc ?q"
    using full I(3) by (auto simp: mod_Suc div_Suc split: if_splits)
  have len: "Suc (length stream) = Suc ?q * unat n"
    using full md(2) by (metis add.right_neutral div_mult_mod_eq)
  have pend: "unat (acc_pending (sm_accumulator m) + 1) = unat n"
    using pending_plus(1) [of "sm_accumulator m" 1] I(1,2,4) md(1) room_of_inv [OF inv] by (simp add: acc_idle_def)
  then have closes: "acc_pending (sm_accumulator (absorb [x] m)) \<ge> acc_blockSamples (sm_accumulator (absorb [x] m))"
    using I(1) by (simp add: word_le_nat_alt)
  let ?a = "sm_accumulator (absorb [x] m)"
  have pre: "acc_readyCount ?a = 0" "length (acc_ready ?a) = kReadyCapacity" "acc_readyHead ?a < kReadyCapacity"
    using I(2) by (simp_all add: acc_idle_def)
  obtain a where a': "settle (absorb [x] m) = store_block (closed_block ?a) ((absorb [x] m)\<lparr>sm_accumulator := a\<rparr>)"
    and a: "acc_readyCount a = 0" "length (acc_ready a) = kReadyCapacity" "acc_readyHead a < kReadyCapacity"
      "acc_pending a = 0" "acc_blockSamples a = acc_blockSamples ?a"
      "acc_nextIndex a = acc_nextIndex ?a + 1" "acc_dropped a = 0" "acc_sumSquares a = 0" "acc_flags a = 0"
    by (rule settle_full [OF pre closes])
  have idx: "acc_blockSamples a = n" "acc_nextIndex a = word_of_nat (Suc ?q)"
    using a(5,6) I(1,5) by simp_all
  let ?m = "(absorb [x] m)\<lparr>sm_accumulator := a\<rparr>" and ?b = "closed_block (sm_accumulator (absorb [x] m))"
  have q: "queue_ok ?m" "meter_queue ?m = meter_queue m" "sm_readyCount ?m = sm_readyCount m"
    using I(11) y(6-8) by (simp_all add: queue_ok_def meter_queue_def)
  note st = store_block_fits [OF q(1), of ?b, unfolded q(3), OF fits]
  have "energy (take (unat n) (drop (?q * unat n) (?ys @ [y]))) = acc_sumSquares (sm_accumulator m) + y * y"
    using energy_snoc [of "?q * unat n" ?ys y] len I(7) by (simp add: div_times_less_eq_dividend)
  then have "block_facts ?b = stream_block n (stream @ [x]) (?ys @ [y]) ?q"
    using y(3,4) I(1,5,6) len by (simp add: block_facts_def closed_block_def stream_block_def)
  moreover have "map (stream_block n (stream @ [x]) (?ys @ [y])) [0..<?q] = map (stream_block n stream ?ys) [0..<?q]"
    using I(3) by (intro stream_blocks_append) simp_all
  ultimately have blocks: "map block_facts (out @ meter_queue (tick x m)) =
      map (stream_block n (stream @ [x]) (?ys @ [y])) [0..<Suc ?q]"
    using I(12) st(1) q(2) by (simp add: tick_def a')
  have flag: "overload_flag (stream @ [x]) (Suc ?q * unat n) (Suc (length stream)) = 0"
    unfolding len [symmetric] by (simp add: overload_flag_def)
  show "meter_inv n w (stream @ [x]) out (tick x m)"
    unfolding meter_inv_def Let_def y(1) length_append_singleton md(2) blocks flag
    using st(2,4,5,6) a(1-4,7-9) idx I(3) y(2,5) full len
    by (simp add: tick_def a' acc_idle_def word_less_nat_alt energy_def)
  show "sm_readyCount (tick x m) = Suc (sm_readyCount m)"
    using st(3) q(3) by (simp add: tick_def a')
qed

section \<open>Hops leave no trace\<close>

lemma tick_inv:
  assumes "meter_inv n w stream out m"
    and "sm_readyCount m + Suc (length stream) div unat n \<le> kReadyBufferCapacity + length stream div unat n"
  shows "meter_inv n w (stream @ [x]) out (tick x m) \<and>
         sm_readyCount (tick x m) + length stream div unat n = sm_readyCount m + Suc (length stream) div unat n"
proof (cases "Suc (length stream) mod unat n = 0")
  case True
  then have "Suc (length stream) div unat n = Suc (length stream div unat n)"
    by (simp add: div_Suc)
  then show ?thesis
    using tick_full [OF assms(1) True] assms(2) by simp
next
  case False
  then show ?thesis
    using tick_open [OF assms(1) False] by (simp add: div_Suc)
qed

lemma fold_ticks:
  assumes "meter_inv n w stream out m"
    and "sm_readyCount m + (length stream + length xs) div unat n \<le> kReadyBufferCapacity + length stream div unat n"
  shows "meter_inv n w (stream @ xs) out (fold tick xs m) \<and>
    sm_readyCount (fold tick xs m) + length stream div unat n = sm_readyCount m + (length stream + length xs) div unat n"
  using assms
proof (induction xs arbitrary: stream m)
  case (Cons x xs)
  have "Suc (length stream) div unat n \<le> (length stream + length (x # xs)) div unat n"
    by (rule div_le_mono) simp
  then have step: "meter_inv n w (stream @ [x]) out (tick x m)"
      "sm_readyCount (tick x m) + length stream div unat n = sm_readyCount m + Suc (length stream) div unat n"
    using tick_inv [OF Cons.prems(1)] Cons.prems(2) by simp_all
  have "sm_readyCount (tick x m) + (length (stream @ [x]) + length xs) div unat n
      \<le> kReadyBufferCapacity + length (stream @ [x]) div unat n"
    using step(2) Cons.prems(2) by simp
  from Cons.IH [OF step(1) this] step(2) show ?case
    by simp
qed simp

lemma meter_loop_ticks:
  assumes "meter_inv n w stream out m"
    and "sm_readyCount m + (length stream + length hop) div unat n \<le> kReadyBufferCapacity + length stream div unat n"
  shows "meter_loop hop m = Some (fold tick hop m)"
  using assms
proof (induction "length hop" arbitrary: hop stream m rule: less_induct)
  case less
  show ?case
  proof (cases "hop = []")
    case False
    define k where "k = min (min kScratchSamples
      (unat (acc_blockSamples (sm_accumulator m) - acc_pending (sm_accumulator m)))) (length hop)"
    note I = meter_invE [OF less.prems(1)]
    have k: "0 < k" "k \<le> length hop" "k \<le> unat (acc_blockSamples (sm_accumulator m) - acc_pending (sm_accumulator m))"
      using False room_of_inv [OF less.prems(1)] I(3) by (auto simp: k_def kScratchSamples_def)
    have seg: "meter_segment (take k hop) m = (True, fold tick (take k hop) m)"
      using meter_segment_settle [OF I(2), of "take k hop"] segment_ticks [OF I(2), of "take k hop"] k False by simp
    have bound: "sm_readyCount m + (length stream + length (take k hop)) div unat n
        \<le> kReadyBufferCapacity + length stream div unat n"
      using less.prems(2) k(2) div_le_mono [of "length stream + k" "length stream + length hop" "unat n"] by simp
    note after = fold_ticks [OF less.prems(1) bound]
    have "meter_loop (drop k hop) (fold tick (take k hop) m) = Some (fold tick (drop k hop) (fold tick (take k hop) m))"
      using less.hyps [of "drop k hop" "stream @ take k hop"] after less.prems(2) k by simp
    moreover have "fold tick (drop k hop) (fold tick (take k hop) m) = fold tick hop m"
      by (metis append_take_drop_id fold_append comp_apply)
    ultimately show ?thesis
      using False k(1) by (subst meter_loop.simps) (simp add: Let_def seg flip: k_def)
  qed (subst meter_loop.simps, simp)
qed

text \<open>The loop of the caller that polls until nothing is left.\<close>

function meter_drain :: "SplMeter \<Rightarrow> Block list \<times> SplMeter" where
  "meter_drain m =
     (case SplMeter_poll m of
        (None, m') \<Rightarrow> ([], m')
      | (Some b, m') \<Rightarrow> (let (bs, m'') = meter_drain m' in (b # bs, m'')))"
  by pat_completeness auto
termination
  by (relation "measure (\<lambda>m. sm_readyCount m + acc_readyCount (sm_accumulator m))")
    (auto simp: SplMeter_poll_def BlockAccumulator_poll_def split: if_splits)

declare meter_drain.simps [simp del]

lemma meter_drain_all:
  assumes "queue_ok m" "acc_readyCount (sm_accumulator m) = 0"
  shows "\<exists>head < kReadyBufferCapacity. meter_drain m = (meter_queue m, m\<lparr>sm_readyHead := head, sm_readyCount := 0\<rparr>)"
  using assms
proof (induction "sm_readyCount m" arbitrary: m)
  case 0
  then have "meter_drain m = ([], m)"
    by (subst meter_drain.simps) (simp add: SplMeter_poll_def BlockAccumulator_poll_def)
  then show ?case
    using 0 by (intro exI [of _ "sm_readyHead m"]) (simp add: meter_queue_def queue_ok_def)
next
  case (Suc c)
  let ?m = "m\<lparr>sm_readyHead := Suc (sm_readyHead m) mod kReadyBufferCapacity, sm_readyCount := c\<rparr>"
  have poll: "SplMeter_poll m = (Some (sm_readyBuffer m ! sm_readyHead m), ?m)"
    using Suc.hyps(2) [symmetric] by (simp add: SplMeter_poll_def)
  have q: "meter_queue m = sm_readyBuffer m ! sm_readyHead m # meter_queue ?m"
    unfolding meter_queue_def Suc.hyps(2) [symmetric] upt_conv_Cons [OF zero_less_Suc] map_Suc_upt [symmetric]
    using Suc.prems(1) by (simp add: queue_ok_def mod_simps)
  have ok: "queue_ok ?m"
    using Suc.prems(1) Suc.hyps(2) by (simp add: queue_ok_def kReadyBufferCapacity_def kScratchSamples_def)
  obtain head where head: "head < kReadyBufferCapacity"
      "meter_drain ?m = (meter_queue ?m, ?m\<lparr>sm_readyHead := head, sm_readyCount := 0\<rparr>)"
    using Suc.hyps(1) [of ?m] ok Suc.prems(2) by auto
  have "meter_drain m = (meter_queue m, m\<lparr>sm_readyHead := head, sm_readyCount := 0\<rparr>)"
    by (subst meter_drain.simps) (simp add: poll head(2) q)
  then show ?case
    using head(1) by blast
qed

fun fold_opt :: "('a \<Rightarrow> 's \<Rightarrow> 's option) \<Rightarrow> 'a list \<Rightarrow> 's \<Rightarrow> 's option" where
  "fold_opt step [] s = Some s"
| "fold_opt step (x # xs) s = (case step x s of None \<Rightarrow> None | Some s' \<Rightarrow> fold_opt step xs s')"

text \<open>
  What every consumer of the sample stream promises: a hop it accepts is taken in a step that returns, and leaves a
  state that depends on the concatenation of the hops only.
\<close>

locale hop_fed =
  fixes step :: "'a list \<Rightarrow> 's \<Rightarrow> 's option" and inv :: "'a list \<Rightarrow> 's \<Rightarrow> bool" and accepts :: "'a list \<Rightarrow> bool"
  assumes step_inv: "inv stream s \<Longrightarrow> accepts hop \<Longrightarrow> \<exists>s'. step hop s = Some s' \<and> inv (stream @ hop) s'"
begin

lemma run_inv:
  assumes "inv stream s" and "list_all accepts hops"
  shows "\<exists>s'. fold_opt step hops s = Some s' \<and> inv (stream @ concat hops) s'"
  using assms
proof (induction hops arbitrary: stream s)
  case (Cons hop hops)
  then obtain s' where "step hop s = Some s'" "inv (stream @ hop) s'"
    using step_inv [of stream s hop] by auto
  with Cons.IH [of "stream @ hop" s'] Cons.prems(2) show ?case
    by simp
qed simp

lemma run_from_empty:
  assumes "inv [] s" and "list_all accepts hops"
  obtains s' where "fold_opt step hops s = Some s'" "inv (concat hops) s'"
  using run_inv [OF assms] by auto

end

definition meter_hop :: "real list \<Rightarrow> Block list \<times> SplMeter \<Rightarrow> (Block list \<times> SplMeter) option" where
  "meter_hop hop om =
     (case SplMeter_push hop (snd om) of
        None \<Rightarrow> None
      | Some m1 \<Rightarrow> (let (bs, m2) = meter_drain m1 in Some (fst om @ bs, m2)))"

definition meter_run :: "SplMeter \<Rightarrow> real list list \<Rightarrow> (Block list \<times> SplMeter) option" where
  "meter_run m hops = fold_opt meter_hop hops ([], m)"

lemma meter_inv_frame:
  "sm_accumulator m' = sm_accumulator m \<Longrightarrow> sm_overloadRun m' = sm_overloadRun m \<Longrightarrow> sm_main m' = sm_main m \<Longrightarrow>
   queue_ok m' \<Longrightarrow> out' @ meter_queue m' = out @ meter_queue m \<Longrightarrow>
   meter_inv n w stream out m \<Longrightarrow> meter_inv n w stream out' m'"
  by (simp add: meter_inv_def Let_def)

text \<open>One hop of a bounded length, pushed and drained.\<close>

lemma push_drain:
  assumes inv: "meter_inv n w stream out m" and none: "sm_readyCount m = 0"
    and len: "length hop \<le> kReadyBufferCapacity * unat n"
  obtains bs m1 m2 where "SplMeter_push hop m = Some m1" "meter_drain m1 = (bs, m2)"
    "meter_inv n w (stream @ hop) (out @ bs) m2" "sm_readyCount m2 = 0"
proof -
  note I = meter_invE [OF inv]
  let ?m0 = "m\<lparr>sm_lnTicks := []\<rparr>"
  have inv0: "meter_inv n w stream out ?m0"
    using I(11) by (intro meter_inv_frame [OF _ _ _ _ _ inv]) (simp_all add: queue_ok_def meter_queue_def)
  have "(length stream + length hop) div unat n \<le> (length stream + kReadyBufferCapacity * unat n) div unat n"
    using len by (intro div_le_mono) simp
  also have "\<dots> = kReadyBufferCapacity + length stream div unat n"
    using I(3) by (simp add: add.commute)
  finally have bound: "sm_readyCount ?m0 + (length stream + length hop) div unat n
      \<le> kReadyBufferCapacity + length stream div unat n"
    using none by simp
  define m1 where "m1 = fold tick hop ?m0"
  have push: "SplMeter_push hop m = Some m1"
    using meter_loop_ticks [OF inv0 bound] by (simp add: SplMeter_push_def m1_def)
  have inv1: "meter_inv n w (stream @ hop) out m1"
    using fold_ticks [OF inv0 bound] by (simp add: m1_def)
  note I1 = meter_invE [OF inv1]
  have "acc_readyCount (sm_accumulator m1) = 0"
    using I1(2) by (simp add: acc_idle_def)
  then obtain head where drain: "head < kReadyBufferCapacity"
      "meter_drain m1 = (meter_queue m1, m1\<lparr>sm_readyHead := head, sm_readyCount := 0\<rparr>)"
    using meter_drain_all [OF I1(11)] by blast
  have "meter_inv n w (stream @ hop) (out @ meter_queue m1) (m1\<lparr>sm_readyHead := head, sm_readyCount := 0\<rparr>)"
    using I1(11) drain(1) by (intro meter_inv_frame [OF _ _ _ _ _ inv1]) (simp_all add: queue_ok_def meter_queue_def)
  then show thesis
    using that push drain(2) by simp
qed

interpretation meter: hop_fed meter_hop
  "\<lambda>stream om. meter_inv n w stream (fst om) (snd om) \<and> sm_readyCount (snd om) = 0"
  "\<lambda>hop. length hop \<le> kReadyBufferCapacity * unat n" for n w
proof
  fix stream hop :: "real list" and om :: "Block list \<times> SplMeter" and n w
  assume inv: "meter_inv n w stream (fst om) (snd om) \<and> sm_readyCount (snd om) = 0"
    and len: "length hop \<le> kReadyBufferCapacity * unat n"
  obtain bs m1 m2 where "SplMeter_push hop (snd om) = Some m1" "meter_drain m1 = (bs, m2)"
      "meter_inv n w (stream @ hop) (fst om @ bs) m2" "sm_readyCount m2 = 0"
    by (rule push_drain [OF conjunct1 [OF inv] conjunct2 [OF inv] len])
  then show "\<exists>s'. meter_hop hop om = Some s' \<and> (meter_inv n w (stream @ hop) (fst s') (snd s') \<and> sm_readyCount (snd s') = 0)"
    by (simp add: meter_hop_def)
qed

lemma SplMeter_new_inv:
  assumes "SplMeter_new config weighting rate = Inr m"
  shows "meter_inv (acc_blockSamples (sm_accumulator m)) (sm_main m) [] [] m" "sm_readyCount m = 0"
proof -
  let ?a = "sm_accumulator m"
  have "acc_blockSamples ?a \<noteq> 0" "sm_readyCount m = 0" "acc_pending ?a = 0" "acc_nextIndex ?a = 0"
    "acc_sumSquares ?a = 0" "acc_dropped ?a = 0" "acc_flags ?a = 0" "length (acc_ready ?a) = kReadyCapacity"
    "acc_readyHead ?a = 0" "acc_readyCount ?a = 0" "sm_overloadRun m = 0" "queue_ok m"
    using assms
    by (auto simp: SplMeter_new_def BlockAccumulator_new_def queue_ok_def kReadyBufferCapacity_def kScratchSamples_def
        split: sum.splits if_splits)
  then show "meter_inv (acc_blockSamples (sm_accumulator m)) (sm_main m) [] [] m" "sm_readyCount m = 0"
    by (simp_all add: meter_inv_def acc_idle_def kReadyCapacity_def overload_flag_def loud_tail_def meter_queue_def
        energy_def word_neq_0_conv Let_def)
qed

text \<open>
  Property C27: a meter that is polled after every hop delivers the blocks of the whole stream, however the stream is
  cut into hops: consecutive indices, no sample lost, the energy of exactly its weighted samples, and the overload
  flag exactly where a run of three full-scale samples is reached, also when the run started in an earlier hop or
  block.  Hops may close up to 1024 blocks, and the loop over a hop always ends.
\<close>

theorem SplMeter_hop_independent:
  assumes "SplMeter_new config weighting rate = Inr m" and "n = acc_blockSamples (sm_accumulator m)"
    and "list_all (\<lambda>hop. length hop \<le> kReadyBufferCapacity * unat n) hops"
  shows "\<exists>blocks m'. meter_run m hops = Some (blocks, m') \<and>
           map block_facts blocks =
             map (stream_block n (concat hops) (fst (Weighting_process (sm_main m) (concat hops))))
               [0..<length (concat hops) div unat n]"
proof -
  have "meter_inv n (sm_main m) [] (fst ([], m)) (snd ([], m)) \<and> sm_readyCount (snd ([] :: Block list, m)) = 0"
    using SplMeter_new_inv [OF assms(1)] assms(2) by simp
  then obtain om where "fold_opt meter_hop hops ([], m) = Some om"
      "meter_inv n (sm_main m) (concat hops) (fst om) (snd om) \<and> sm_readyCount (snd om) = 0"
    using assms(3) by (rule meter.run_from_empty)
  then obtain bs m' where "meter_run m hops = Some (bs, m')" "meter_inv n (sm_main m) (concat hops) bs m'" "sm_readyCount m' = 0"
    by (cases om) (simp add: meter_run_def)
  then show ?thesis
    using meter_invE(12) [of n "sm_main m" "concat hops" bs m'] by (auto simp: meter_queue_def)
qed

theorem SplMeter_hop_independent_witness:
  "\<exists>m blocks m'. SplMeter_new SplConfig_default WeightZ 2 = Inr m \<and>
     meter_run m [[1, 1, 1], [0, 0]] = Some (blocks, m') \<and>
     map block_facts blocks = [(0, 2, 0, 2, 0), (1, 2, 0, 1, 1)]"
proof -
  obtain m where m: "SplMeter_new SplConfig_default WeightZ 2 = Inr m" "acc_blockSamples (sm_accumulator m) = 2"
      "cas_sections (wg_cascade (sm_main m)) = []"
    by (simp add: SplMeter_new_def Weighting_new_def BlockAccumulator_new_def Detector_new_def blockSamplesFor_def
        SplConfig_default_def BiquadCascade_new_def)
  have upt: "[0..<2] = [0, 1 :: nat]" "[2..<4] = [2, 3 :: nat]"
    by (simp_all add: upt_rec)
  have ref: "stream_block 2 [1, 1, 1, 0, 0] [1, 1, 1, 0, 0] 0 = (0, 2, 0, 2, 0)"
      "stream_block 2 [1, 1, 1, 0, 0] [1, 1, 1, 0, 0] (Suc 0) = (1, 2, 0, 1, 1)"
    by (simp_all add: stream_block_def overload_flag_def clip_at_def loud_def kFullScaleThreshold_def energy_def
        flagMask_def upt)
  show ?thesis
    using SplMeter_hop_independent [OF m(1) refl, of "[[1, 1, 1], [0, 0]]"] Z_is_flat [OF m(3)] m
    by (auto simp: kReadyBufferCapacity_def kScratchSamples_def upt ref)
qed

end
