(* ===== verification/Spl_Session.thy ===== *)
theory Spl_Session
  imports Spl_Meter
begin

text \<open>
  A logging session (\<^verbatim>\<open>app/src/measure/SplSession.cpp\<close>): for every logged channel one chain per weighting that the
  configured metrics name, each with its meter and a window of its latest blocks.  The theory proves that each
  window holds exactly the latest blocks of the channel's stream under its own weighting, and that every accepted
  metric, the dose and the percentiles find a chain of the weighting they are defined for.
\<close>

section \<open>State\<close>

definition kMaxLoggedChannels :: nat where "kMaxLoggedChannels = 64"
definition kMaxWindowBlocks :: nat where "kMaxWindowBlocks = 3600"

record Chain =
  ch_weighting :: WeightingType
  ch_meter :: SplMeter
  ch_window :: "Block list"
  ch_capacity :: nat
  ch_blocks :: uint64_t
  ch_flagsSeen :: uint32_t
  ch_droppedSamplesTotal :: uint64_t
  ch_newlyClosed :: "Block list"

record ChannelState =
  st_chains :: "Chain list"
  st_lastBusDropCount :: uint64_t
  st_dropBaselineSet :: bool

record SplSession =
  ss_config :: SplConfig
  ss_refusedMetrics :: nat
  ss_blockSecondsTooSmall :: bool
  ss_sampleRate :: real
  ss_running :: bool
  ss_windowCapacity :: nat
  ss_weightings :: "WeightingType list"
  ss_channels :: "ChannelState option list"

definition SplSession_new :: SplSession where
  "SplSession_new = \<lparr>ss_config = SplConfig_default, ss_refusedMetrics = 0, ss_blockSecondsTooSmall = False,
     ss_sampleRate = 0, ss_running = False, ss_windowCapacity = 1, ss_weightings = [],
     ss_channels = replicate kMaxLoggedChannels None\<rparr>"

definition Chain_new :: "SplConfig \<Rightarrow> WeightingType \<Rightarrow> real \<Rightarrow> nat \<Rightarrow> spl_error + Chain" where
  "Chain_new config w rate windowCapacity =
     (case SplMeter_new config w rate of
        Inl err \<Rightarrow> Inl err
      | Inr meter \<Rightarrow> Inr \<lparr>ch_weighting = w, ch_meter = meter, ch_window = [], ch_capacity = windowCapacity, ch_blocks = 0,
                         ch_flagsSeen = 0, ch_droppedSamplesTotal = 0, ch_newlyClosed = []\<rparr>)"

section \<open>Starting and stopping\<close>

definition SplSession_stop :: "SplSession \<Rightarrow> SplSession" where
  "SplSession_stop s =
     s\<lparr>ss_channels := map (\<lambda>_. None) (ss_channels s), ss_weightings := [], ss_refusedMetrics := 0,
       ss_blockSecondsTooSmall := False, ss_running := False\<rparr>"

fun named_weightings :: "WeightingType list \<Rightarrow> SplMetricSpec list \<Rightarrow> WeightingType list" where
  "named_weightings ws [] = ws"
| "named_weightings ws (spec # specs) =
     named_weightings (if ms_weighting spec \<in> set ws then ws else ws @ [ms_weighting spec]) specs"

definition session_weightings :: "SplMetricSpec list \<Rightarrow> WeightingType list" where
  "session_weightings specs =
     (let ws = named_weightings [] specs;
          ws = (if ws = [] then [WeightZ] else ws)
      in if WeightA \<in> set ws then ws else ws @ [WeightA])"

definition longest_window :: "SplMetricSpec list \<Rightarrow> uint64_t" where
  "longest_window specs = foldl (\<lambda>longest spec. max longest (ms_windowBlocks spec)) 1 specs"

fun new_chains :: "SplConfig \<Rightarrow> real \<Rightarrow> nat \<Rightarrow> WeightingType list \<Rightarrow> spl_error + Chain list" where
  "new_chains config rate cap [] = Inr []"
| "new_chains config rate cap (w # ws) =
     (case Chain_new config w rate cap of
        Inl err \<Rightarrow> Inl err
      | Inr c \<Rightarrow> (case new_chains config rate cap ws of Inl err \<Rightarrow> Inl err | Inr cs \<Rightarrow> Inr (c # cs)))"

definition channel_index :: "int \<Rightarrow> nat option" where
  "channel_index channel = (if channel < 0 \<or> nat channel \<ge> kMaxLoggedChannels then None else Some (nat channel))"

fun start_channels :: "int list \<Rightarrow> SplSession \<Rightarrow> spl_error + SplSession" where
  "start_channels [] s = Inr s"
| "start_channels (channel # channels) s =
     (case channel_index channel of
        None \<Rightarrow> start_channels channels s
      | Some i \<Rightarrow>
          (case new_chains (ss_config s) (ss_sampleRate s) (ss_windowCapacity s) (ss_weightings s) of
             Inl err \<Rightarrow> Inl err
           | Inr cs \<Rightarrow>
               start_channels channels (s\<lparr>ss_channels := (ss_channels s)
                 [i := Some \<lparr>st_chains = cs, st_lastBusDropCount = 0, st_dropBaselineSet = False\<rparr>]\<rparr>)))"

definition SplSession_start :: "SplConfig \<Rightarrow> real \<Rightarrow> int list \<Rightarrow> SplSession \<Rightarrow> spl_error + SplSession" where
  "SplSession_start config rate channels s =
     (let s = SplSession_stop s;
          refused = refusedMetricCount config;
          config = (if refused \<noteq> 0 then config\<lparr>cf_metrics := take kMaxMetrics (cf_metrics config)\<rparr> else config);
          s = s\<lparr>ss_config := config, ss_sampleRate := rate, ss_refusedMetrics := refused,
                ss_blockSecondsTooSmall :=
                  blockSecondsBelowRecommendedFloor config rate (real kScratchSamples) (real kReadyCapacity),
                ss_weightings := session_weightings (cf_metrics config),
                ss_windowCapacity := min (unat (longest_window (cf_metrics config))) kMaxWindowBlocks\<rparr>
      in case start_channels channels s of Inl err \<Rightarrow> Inl err | Inr s \<Rightarrow> Inr (s\<lparr>ss_running := True\<rparr>))"

section \<open>Looking things up\<close>

definition session_state :: "int \<Rightarrow> SplSession \<Rightarrow> ChannelState option" where
  "session_state channel s = (case channel_index channel of None \<Rightarrow> None | Some i \<Rightarrow> ss_channels s ! i)"

definition session_chain :: "int \<Rightarrow> WeightingType \<Rightarrow> SplSession \<Rightarrow> Chain option" where
  "session_chain channel w s =
     (case session_state channel s of None \<Rightarrow> None | Some st \<Rightarrow> find (\<lambda>c. ch_weighting c = w) (st_chains st))"

definition logsChannel :: "int \<Rightarrow> SplSession \<Rightarrow> bool" where
  "logsChannel channel s \<longleftrightarrow>
     ss_running s \<and> (case session_state channel s of None \<Rightarrow> False | Some st \<Rightarrow> st_chains st \<noteq> [])"

section \<open>Feeding\<close>

definition noteDropCount :: "int \<Rightarrow> uint64_t \<Rightarrow> SplSession \<Rightarrow> SplSession" where
  "noteDropCount channel busDropCount s =
     (case channel_index channel of
        None \<Rightarrow> s
      | Some i \<Rightarrow>
          (case ss_channels s ! i of
             None \<Rightarrow> s
           | Some st \<Rightarrow>
               (if \<not> st_dropBaselineSet st then
                  s\<lparr>ss_channels := (ss_channels s)
                      [i := Some (st\<lparr>st_lastBusDropCount := busDropCount, st_dropBaselineSet := True\<rparr>)]\<rparr>
                else if busDropCount \<le> st_lastBusDropCount st then s
                else (let delta = busDropCount - st_lastBusDropCount st;
                          count = ucast (min delta 0xFFFFFFFF)
                      in s\<lparr>ss_channels := (ss_channels s)
                           [i := Some (st\<lparr>st_lastBusDropCount := busDropCount,
                              st_chains := map (\<lambda>c. c\<lparr>ch_meter := SplMeter_noteDroppedSamples count (ch_meter c)\<rparr>)
                                             (st_chains st)\<rparr>)]\<rparr>))))"

text \<open>One finished block: counted, and rolled into the window.\<close>

definition chain_block :: "Block \<Rightarrow> Chain \<Rightarrow> Chain" where
  "chain_block b c =
     (let c = c\<lparr>ch_blocks := ch_blocks c + 1, ch_flagsSeen := ch_flagsSeen c OR blk_flags b,
                ch_droppedSamplesTotal := ch_droppedSamplesTotal c + ucast (blk_dropped b),
                ch_newlyClosed := ch_newlyClosed c @ [b]\<rparr>
      in if length (ch_window c) < ch_capacity c then c\<lparr>ch_window := ch_window c @ [b]\<rparr>
         else if ch_window c \<noteq> [] then c\<lparr>ch_window := tl (ch_window c) @ [b]\<rparr>
         else c)"

definition feed_chain :: "real list \<Rightarrow> Chain \<Rightarrow> Chain option" where
  "feed_chain hop c =
     (case SplMeter_push hop (ch_meter c) of
        None \<Rightarrow> None
      | Some m \<Rightarrow> (let (blocks, m') = meter_drain m in Some (fold chain_block blocks (c\<lparr>ch_newlyClosed := [], ch_meter := m'\<rparr>))))"

fun feed_chains :: "real list \<Rightarrow> Chain list \<Rightarrow> Chain list option" where
  "feed_chains hop [] = Some []"
| "feed_chains hop (c # cs) =
     (case feed_chain hop c of
        None \<Rightarrow> None
      | Some c' \<Rightarrow> (case feed_chains hop cs of None \<Rightarrow> None | Some cs' \<Rightarrow> Some (c' # cs')))"

definition feedHop :: "int \<Rightarrow> real list \<Rightarrow> SplSession \<Rightarrow> SplSession option" where
  "feedHop channel hop s =
     (case channel_index channel of
        None \<Rightarrow> Some s
      | Some i \<Rightarrow>
          (case ss_channels s ! i of
             None \<Rightarrow> Some s
           | Some st \<Rightarrow>
               (case feed_chains hop (st_chains st) of
                  None \<Rightarrow> None
                | Some cs \<Rightarrow> Some (s\<lparr>ss_channels := (ss_channels s)[i := Some (st\<lparr>st_chains := cs\<rparr>)]\<rparr>))))"

section \<open>Reading\<close>

definition session_blockCount :: "int \<Rightarrow> SplSession \<Rightarrow> uint64_t" where
  "session_blockCount channel s =
     (case session_state channel s of
        None \<Rightarrow> 0
      | Some st \<Rightarrow>
          (case st_chains st of
             [] \<Rightarrow> 0
           | c # cs \<Rightarrow> foldl (\<lambda>blocks c. min blocks (ch_blocks c)) (ch_blocks c) (c # cs)))"

definition session_flagsSeen :: "int \<Rightarrow> SplSession \<Rightarrow> uint32_t" where
  "session_flagsSeen channel s =
     (case session_state channel s of
        None \<Rightarrow> 0
      | Some st \<Rightarrow> foldl (\<lambda>flags c. flags OR ch_flagsSeen c) 0 (st_chains st))"

definition session_droppedSamplesTotal :: "int \<Rightarrow> SplSession \<Rightarrow> uint64_t" where
  "session_droppedSamplesTotal channel s =
     (case session_state channel s of
        None \<Rightarrow> 0
      | Some st \<Rightarrow> (case st_chains st of [] \<Rightarrow> 0 | c # _ \<Rightarrow> ch_droppedSamplesTotal c))"

definition newlyClosedBlocks :: "int \<Rightarrow> WeightingType \<Rightarrow> SplSession \<Rightarrow> Block list" where
  "newlyClosedBlocks channel w s = (case session_chain channel w s of None \<Rightarrow> [] | Some c \<Rightarrow> ch_newlyClosed c)"

definition newlyTickedLnLevelsDb :: "int \<Rightarrow> WeightingType \<Rightarrow> SplSession \<Rightarrow> real list" where
  "newlyTickedLnLevelsDb channel w s =
     (case session_chain channel w s of None \<Rightarrow> [] | Some c \<Rightarrow> sm_lnTicks (ch_meter c))"

definition session_overflowedLnTicks :: "int \<Rightarrow> WeightingType \<Rightarrow> SplSession \<Rightarrow> uint64_t" where
  "session_overflowedLnTicks channel w s =
     (case session_chain channel w s of None \<Rightarrow> 0 | Some c \<Rightarrow> sm_overflowedLnTicks (ch_meter c))"

definition latestBlock :: "int \<Rightarrow> SplSession \<Rightarrow> Block option" where
  "latestBlock channel s =
     (case session_state channel s of
        None \<Rightarrow> None
      | Some st \<Rightarrow>
          (case st_chains st of
             [] \<Rightarrow> None
           | c # _ \<Rightarrow> if ch_window c = [] then None else Some (last (ch_window c))))"

definition session_window_first :: "int \<Rightarrow> SplSession \<Rightarrow> Block list" where
  "session_window_first channel s =
     (case session_state channel s of
        None \<Rightarrow> []
      | Some st \<Rightarrow> (case st_chains st of [] \<Rightarrow> [] | c # _ \<Rightarrow> ch_window c))"

definition session_window :: "int \<Rightarrow> WeightingType \<Rightarrow> SplSession \<Rightarrow> Block list" where
  "session_window channel w s = (case session_chain channel w s of None \<Rightarrow> [] | Some c \<Rightarrow> ch_window c)"

text \<open>\<open>fillMetricWindows\<close> into storage for \<open>room\<close> windows: the windows it writes, in order.\<close>

definition fillMetricWindows :: "int \<Rightarrow> nat \<Rightarrow> SplSession \<Rightarrow> Block list list" where
  "fillMetricWindows channel room s =
     (if \<not> ss_running s then []
      else map (\<lambda>spec. session_window channel (ms_weighting spec) s) (take room (cf_metrics (ss_config s))))"

section \<open>A chain keeps the latest blocks\<close>

definition latest :: "nat \<Rightarrow> 'a list \<Rightarrow> 'a list" where
  "latest k xs = drop (length xs - k) xs"

lemma latest_snoc:
  assumes "0 < k"
  shows "latest k (xs @ [x]) = (if length (latest k xs) < k then latest k xs @ [x] else tl (latest k xs) @ [x])"
  using assms by (auto simp: latest_def drop_Suc tl_drop Suc_diff_le)

lemma latest_map: "latest k (map f xs) = map f (latest k xs)"
  by (simp add: latest_def drop_map)

lemma latest_Nil [simp]: "latest k [] = []"
  by (simp add: latest_def)

definition chain_inv :: "uint32_t \<Rightarrow> real \<Rightarrow> nat \<Rightarrow> real list \<Rightarrow> Block list \<Rightarrow> Chain \<Rightarrow> bool" where
  "chain_inv n rate cap stream blocks c \<longleftrightarrow>
     (\<exists>wg. Weighting_new (ch_weighting c) rate = Inr wg \<and> meter_inv n wg stream blocks (ch_meter c)) \<and>
     sm_readyCount (ch_meter c) = 0 \<and> 0 < cap \<and> ch_capacity c = cap \<and> ch_window c = latest cap blocks \<and>
     ch_blocks c = word_of_nat (length blocks)"

lemma chain_block_fields [simp]:
  "ch_meter (chain_block b c) = ch_meter c" "ch_weighting (chain_block b c) = ch_weighting c"
  "ch_capacity (chain_block b c) = ch_capacity c" "ch_blocks (chain_block b c) = ch_blocks c + 1"
  "ch_newlyClosed (chain_block b c) = ch_newlyClosed c @ [b]"
  by (simp_all add: chain_block_def Let_def)

lemma chain_block_window:
  assumes "0 < ch_capacity c" "ch_window c = latest (ch_capacity c) blocks"
  shows "ch_window (chain_block b c) = latest (ch_capacity c) (blocks @ [b])"
  using assms by (simp add: chain_block_def Let_def latest_snoc)

lemma chain_blocks_fold:
  assumes "0 < ch_capacity c" "ch_window c = latest (ch_capacity c) blocks" "ch_blocks c = word_of_nat (length blocks)"
  shows "ch_window (fold chain_block bs c) = latest (ch_capacity c) (blocks @ bs)"
    and "ch_blocks (fold chain_block bs c) = word_of_nat (length (blocks @ bs))"
    and "ch_newlyClosed (fold chain_block bs c) = ch_newlyClosed c @ bs"
    and "ch_meter (fold chain_block bs c) = ch_meter c" "ch_weighting (fold chain_block bs c) = ch_weighting c"
    and "ch_capacity (fold chain_block bs c) = ch_capacity c"
proof -
  have "ch_window (fold chain_block bs c) = latest (ch_capacity c) (blocks @ bs) \<and>
      ch_blocks (fold chain_block bs c) = word_of_nat (length (blocks @ bs)) \<and>
      ch_newlyClosed (fold chain_block bs c) = ch_newlyClosed c @ bs \<and>
      ch_meter (fold chain_block bs c) = ch_meter c \<and> ch_weighting (fold chain_block bs c) = ch_weighting c \<and>
      ch_capacity (fold chain_block bs c) = ch_capacity c"
    using assms
  proof (induction bs arbitrary: c blocks)
    case (Cons b bs)
    from Cons.IH [of "chain_block b c" "blocks @ [b]"] Cons.prems chain_block_window [OF Cons.prems(1,2), of b] show ?case
      by (simp add: add.commute add.left_commute)
  qed simp
  then show "ch_window (fold chain_block bs c) = latest (ch_capacity c) (blocks @ bs)"
    "ch_blocks (fold chain_block bs c) = word_of_nat (length (blocks @ bs))"
    "ch_newlyClosed (fold chain_block bs c) = ch_newlyClosed c @ bs"
    "ch_meter (fold chain_block bs c) = ch_meter c" "ch_weighting (fold chain_block bs c) = ch_weighting c"
    "ch_capacity (fold chain_block bs c) = ch_capacity c"
    by blast+
qed

lemma feed_chain_inv:
  assumes inv: "chain_inv n rate cap stream blocks c" and len: "length hop \<le> kReadyBufferCapacity * unat n"
  obtains c' where "feed_chain hop c = Some c'" "ch_weighting c' = ch_weighting c"
    "chain_inv n rate cap (stream @ hop) (blocks @ ch_newlyClosed c') c'"
proof -
  obtain wg where wg: "Weighting_new (ch_weighting c) rate = Inr wg" "meter_inv n wg stream blocks (ch_meter c)"
    and c: "sm_readyCount (ch_meter c) = 0" "0 < cap" "ch_capacity c = cap" "ch_window c = latest cap blocks"
      "ch_blocks c = word_of_nat (length blocks)"
    using inv unfolding chain_inv_def by blast
  obtain bs m1 m2 where m: "SplMeter_push hop (ch_meter c) = Some m1" "meter_drain m1 = (bs, m2)"
      "meter_inv n wg (stream @ hop) (blocks @ bs) m2" "sm_readyCount m2 = 0"
    by (rule push_drain [OF wg(2) c(1) len])
  let ?c = "c\<lparr>ch_newlyClosed := [], ch_meter := m2\<rparr>"
  have "0 < ch_capacity ?c" "ch_window ?c = latest (ch_capacity ?c) blocks" "ch_blocks ?c = word_of_nat (length blocks)"
    using c by simp_all
  note f = chain_blocks_fold [OF this, of bs]
  have "chain_inv n rate cap (stream @ hop) (blocks @ bs) (fold chain_block bs ?c)"
    using f c wg(1) m(3,4) by (auto simp: chain_inv_def)
  then show thesis
    using that [of "fold chain_block bs ?c"] f m(1,2) by (simp add: feed_chain_def)
qed

section \<open>A channel\<close>

text \<open>The blocks of a stream under one weighting.\<close>

definition weighted_blocks ::
  "uint32_t \<Rightarrow> real \<Rightarrow> WeightingType \<Rightarrow> real list \<Rightarrow> (uint64_t \<times> uint32_t \<times> uint32_t \<times> real \<times> uint32_t) list" where
  "weighted_blocks n rate w stream =
     (case Weighting_new w rate of
        Inl _ \<Rightarrow> []
      | Inr wg \<Rightarrow> map (stream_block n stream (fst (Weighting_process wg stream))) [0..<length stream div unat n])"

lemma chain_inv_facts:
  assumes "chain_inv n rate cap stream blocks c"
  shows "map block_facts (ch_window c) = latest cap (weighted_blocks n rate (ch_weighting c) stream)"
    and "ch_blocks c = word_of_nat (length stream div unat n)"
proof -
  obtain wg where "Weighting_new (ch_weighting c) rate = Inr wg" "meter_inv n wg stream blocks (ch_meter c)"
    and c: "sm_readyCount (ch_meter c) = 0" "ch_window c = latest cap blocks" "ch_blocks c = word_of_nat (length blocks)"
    using assms unfolding chain_inv_def by blast
  then have facts: "map block_facts blocks = weighted_blocks n rate (ch_weighting c) stream"
    using meter_invE(12) [of n wg stream blocks "ch_meter c"] by (simp add: weighted_blocks_def meter_queue_def)
  then show "map block_facts (ch_window c) = latest cap (weighted_blocks n rate (ch_weighting c) stream)"
    by (simp add: c(2) latest_map flip: facts)
  have "length blocks = length stream div unat n"
    using arg_cong [OF facts, of length] \<open>Weighting_new (ch_weighting c) rate = Inr wg\<close> by (simp add: weighted_blocks_def)
  then show "ch_blocks c = word_of_nat (length stream div unat n)"
    by (simp add: c(3))
qed

definition chains_inv :: "uint32_t \<Rightarrow> real \<Rightarrow> nat \<Rightarrow> real list \<Rightarrow> Chain list \<Rightarrow> bool" where
  "chains_inv n rate cap stream cs \<longleftrightarrow> (\<forall>c \<in> set cs. \<exists>blocks. chain_inv n rate cap stream blocks c)"

lemma feed_chains_inv:
  assumes "chains_inv n rate cap stream cs" and "length hop \<le> kReadyBufferCapacity * unat n"
  shows "\<exists>cs'. feed_chains hop cs = Some cs' \<and> chains_inv n rate cap (stream @ hop) cs' \<and>
           map ch_weighting cs' = map ch_weighting cs"
  using assms(1)
proof (induction cs)
  case (Cons c cs)
  then obtain blocks where c: "chain_inv n rate cap stream blocks c" and cs: "chains_inv n rate cap stream cs"
    by (auto simp: chains_inv_def)
  obtain c' where "feed_chain hop c = Some c'" "ch_weighting c' = ch_weighting c"
      "chain_inv n rate cap (stream @ hop) (blocks @ ch_newlyClosed c') c'"
    by (rule feed_chain_inv [OF c assms(2)])
  with Cons.IH [OF cs] show ?case
    by (fastforce simp: chains_inv_def)
qed (simp add: chains_inv_def)

text \<open>What a started session knows about channel number \<open>i\<close>.\<close>

definition session_inv ::
  "uint32_t \<Rightarrow> real \<Rightarrow> nat \<Rightarrow> WeightingType list \<Rightarrow> SplMetricSpec list \<Rightarrow> nat \<Rightarrow> real list \<Rightarrow> SplSession \<Rightarrow> bool" where
  "session_inv n rate cap ws specs i stream s \<longleftrightarrow>
     ss_running s \<and> cf_metrics (ss_config s) = specs \<and> length (ss_channels s) = kMaxLoggedChannels \<and>
     (\<exists>st. ss_channels s ! i = Some st \<and> map ch_weighting (st_chains st) = ws \<and> chains_inv n rate cap stream (st_chains st))"

interpretation session: hop_fed "feedHop channel" "session_inv n rate cap ws specs (nat channel)"
  "\<lambda>hop. length hop \<le> kReadyBufferCapacity * unat n \<and> channel_index channel \<noteq> None"
  for channel n rate cap ws specs
proof
  fix stream hop :: "real list" and s channel n rate cap ws specs
  assume inv: "session_inv n rate cap ws specs (nat channel) stream s"
    and ok: "length hop \<le> kReadyBufferCapacity * unat n \<and> channel_index channel \<noteq> None"
  then have idx: "channel_index channel = Some (nat channel)" "nat channel < kMaxLoggedChannels"
    by (auto simp: channel_index_def split: if_splits)
  obtain st where st: "ss_channels s ! nat channel = Some st" "map ch_weighting (st_chains st) = ws"
      "chains_inv n rate cap stream (st_chains st)"
    using inv by (auto simp: session_inv_def)
  obtain cs' where "feed_chains hop (st_chains st) = Some cs'" "chains_inv n rate cap (stream @ hop) cs'"
      "map ch_weighting cs' = ws"
    using feed_chains_inv [OF st(3)] ok st(2) by auto
  then show "\<exists>s'. feedHop channel hop s = Some s' \<and> session_inv n rate cap ws specs (nat channel) (stream @ hop) s'"
    using inv idx st by (auto simp: feedHop_def session_inv_def)
qed

lemma session_inv_window:
  assumes inv: "session_inv n rate cap ws specs (nat channel) stream s" and w: "w \<in> set ws"
    and idx: "channel_index channel = Some (nat channel)"
  shows "map block_facts (session_window channel w s) = latest cap (weighted_blocks n rate w stream)"
proof -
  obtain st where st: "ss_channels s ! nat channel = Some st" "map ch_weighting (st_chains st) = ws"
      "chains_inv n rate cap stream (st_chains st)"
    using inv by (auto simp: session_inv_def)
  have "find (\<lambda>c. ch_weighting c = w) (st_chains st) \<noteq> None"
    using w st(2) by (auto simp: find_None_iff)
  then obtain c where c: "find (\<lambda>c. ch_weighting c = w) (st_chains st) = Some c"
    by blast
  then have "c \<in> set (st_chains st)" "ch_weighting c = w"
    by (auto simp: find_Some_iff)
  then obtain blocks where "chain_inv n rate cap stream blocks c"
    using st(3) by (auto simp: chains_inv_def)
  then show ?thesis
    using chain_inv_facts(1) c \<open>ch_weighting c = w\<close> st(1) idx
    by (auto simp: session_window_def session_chain_def session_state_def)
qed

lemma session_inv_count:
  assumes inv: "session_inv n rate cap ws specs (nat channel) stream s" and "ws \<noteq> []"
    and idx: "channel_index channel = Some (nat channel)"
  shows "session_blockCount channel s = word_of_nat (length stream div unat n)"
proof -
  obtain st where st: "ss_channels s ! nat channel = Some st" "map ch_weighting (st_chains st) = ws"
      "chains_inv n rate cap stream (st_chains st)"
    using inv by (auto simp: session_inv_def)
  then obtain c cs where cs: "st_chains st = c # cs"
    using assms(2) by (cases "st_chains st") auto
  have each: "\<forall>d \<in> set (c # cs). ch_blocks d = word_of_nat (length stream div unat n)"
    using st(3) chain_inv_facts(2) by (auto simp: chains_inv_def cs)
  have "foldl (\<lambda>blocks d. min blocks (ch_blocks d)) k ds = k" if "\<forall>d \<in> set ds. ch_blocks d = k" for k ds
    using that by (induction ds) simp_all
  from this [of "c # cs" "word_of_nat (length stream div unat n)"] each show ?thesis
    using st(1) idx by (simp add: session_blockCount_def session_state_def cs)
qed

section \<open>A started session\<close>

definition session_block_samples :: "SplConfig \<Rightarrow> real \<Rightarrow> uint32_t" where
  "session_block_samples config rate =
     (let n = blockSamplesFor (cf_blockSeconds config) rate in if n = 0 then 1 else n)"

definition session_capacity :: "SplConfig \<Rightarrow> nat" where
  "session_capacity config = min (unat (longest_window (take kMaxMetrics (cf_metrics config)))) kMaxWindowBlocks"

lemma SplMeter_new_parts:
  assumes "SplMeter_new config w rate = Inr m"
  shows "Weighting_new w rate = Inr (sm_main m)" "acc_blockSamples (sm_accumulator m) = session_block_samples config rate"
  using assms
  by (auto simp: SplMeter_new_def BlockAccumulator_new_def session_block_samples_def Let_def split: sum.splits if_splits)

lemma Chain_new_inv:
  assumes "Chain_new config w rate cap = Inr c" and "0 < cap"
  shows "ch_weighting c = w" "chain_inv (session_block_samples config rate) rate cap [] [] c"
proof -
  obtain m where m: "SplMeter_new config w rate = Inr m" and c: "c = \<lparr>ch_weighting = w, ch_meter = m, ch_window = [],
      ch_capacity = cap, ch_blocks = 0, ch_flagsSeen = 0, ch_droppedSamplesTotal = 0, ch_newlyClosed = []\<rparr>"
    using assms(1) by (auto simp: Chain_new_def split: sum.splits)
  show "ch_weighting c = w" "chain_inv (session_block_samples config rate) rate cap [] [] c"
    using SplMeter_new_inv [OF m] SplMeter_new_parts [OF m] assms(2) by (simp_all add: c chain_inv_def)
qed

lemma new_chains_inv:
  "new_chains config rate cap ws = Inr cs \<Longrightarrow> 0 < cap \<Longrightarrow>
     map ch_weighting cs = ws \<and> chains_inv (session_block_samples config rate) rate cap [] cs"
proof (induction ws arbitrary: cs)
  case (Cons w ws)
  then obtain c cs' where "Chain_new config w rate cap = Inr c" "new_chains config rate cap ws = Inr cs'" "cs = c # cs'"
    by (auto split: sum.splits)
  with Cons show ?case
    using Chain_new_inv by (fastforce simp: chains_inv_def)
qed (simp add: chains_inv_def)

lemma start_channels_frame:
  assumes "start_channels channels s = Inr s'"
  shows "ss_config s' = ss_config s \<and> ss_weightings s' = ss_weightings s \<and> ss_windowCapacity s' = ss_windowCapacity s \<and>
         ss_sampleRate s' = ss_sampleRate s \<and> length (ss_channels s') = length (ss_channels s)"
  using assms
proof (induction channels arbitrary: s)
  case (Cons channel channels)
  then show ?case
    by (fastforce split: option.splits sum.splits)
qed simp

lemma start_channels_fresh:
  assumes "start_channels channels s = Inr s'" "length (ss_channels s) = kMaxLoggedChannels"
    "channel_index channel = Some i"
    and "channel \<in> set channels \<or>
      (\<exists>cs. new_chains (ss_config s) (ss_sampleRate s) (ss_windowCapacity s) (ss_weightings s) = Inr cs \<and>
        ss_channels s ! i = Some \<lparr>st_chains = cs, st_lastBusDropCount = 0, st_dropBaselineSet = False\<rparr>)"
  shows "\<exists>cs. new_chains (ss_config s) (ss_sampleRate s) (ss_windowCapacity s) (ss_weightings s) = Inr cs \<and>
        ss_channels s' ! i = Some \<lparr>st_chains = cs, st_lastBusDropCount = 0, st_dropBaselineSet = False\<rparr>"
  using assms
proof (induction channels arbitrary: s)
  case (Cons ch channels)
  show ?case
  proof (cases "channel_index ch")
    case None
    then show ?thesis
      using Cons.IH [of s] Cons.prems by auto
  next
    case (Some j)
    obtain cs where cs: "new_chains (ss_config s) (ss_sampleRate s) (ss_windowCapacity s) (ss_weightings s) = Inr cs"
      using Cons.prems(1) Some by (auto split: sum.splits)
    let ?s = "s\<lparr>ss_channels := (ss_channels s)[j := Some \<lparr>st_chains = cs, st_lastBusDropCount = 0, st_dropBaselineSet = False\<rparr>]\<rparr>"
    have run: "start_channels channels ?s = Inr s'"
      using Cons.prems(1) Some cs by simp
    have i: "i < length (ss_channels s)"
      using Cons.prems(2,3) by (auto simp: channel_index_def split: if_splits)
    have "channel \<in> set channels \<or> (\<exists>cs. new_chains (ss_config ?s) (ss_sampleRate ?s) (ss_windowCapacity ?s) (ss_weightings ?s) = Inr cs \<and>
        ss_channels ?s ! i = Some \<lparr>st_chains = cs, st_lastBusDropCount = 0, st_dropBaselineSet = False\<rparr>)"
      using Cons.prems(3,4) Some cs i by (cases "i = j") auto
    then show ?thesis
      using Cons.IH [OF run _ Cons.prems(3)] Cons.prems(2) by simp
  qed
qed simp

lemma named_weightings_set: "set (named_weightings ws specs) = set ws \<union> ms_weighting ` set specs"
  by (induction ws specs rule: named_weightings.induct) auto

lemma session_weightings_cover:
  "WeightA \<in> set (session_weightings specs)" "spec \<in> set specs \<Longrightarrow> ms_weighting spec \<in> set (session_weightings specs)"
  "session_weightings specs \<noteq> []"
  using named_weightings_set [of "[]" specs] by (auto simp: session_weightings_def Let_def)

lemma longest_window_pos: "0 < longest_window specs"
proof -
  have "k \<le> foldl (\<lambda>longest spec. max longest (ms_windowBlocks spec)) k specs" for k
  proof (induction specs arbitrary: k)
    case (Cons spec specs)
    have "k \<le> max k (ms_windowBlocks spec)"
      by simp
    also have "\<dots> \<le> foldl (\<lambda>longest spec. max longest (ms_windowBlocks spec)) (max k (ms_windowBlocks spec)) specs"
      by (rule Cons.IH)
    finally show ?case
      by simp
  qed simp
  from this [of 1] have "1 \<le> longest_window specs"
    by (simp add: longest_window_def)
  then show ?thesis
    by (simp add: word_le_nat_alt word_less_nat_alt)
qed

text \<open>What a successful start leaves behind for a logged channel.\<close>

lemma session_start_fresh:
  assumes start: "SplSession_start config rate channels s0 = Inr s" and len: "length (ss_channels s0) = kMaxLoggedChannels"
    and ch: "channel \<in> set channels" "channel_index channel = Some i"
    and specs: "specs = take kMaxMetrics (cf_metrics config)" and cap: "cap = session_capacity config"
  obtains config' cs where "new_chains config' rate cap (session_weightings specs) = Inr cs"
    "session_block_samples config' rate = session_block_samples config rate"
    "ss_channels s ! i = Some \<lparr>st_chains = cs, st_lastBusDropCount = 0, st_dropBaselineSet = False\<rparr>"
    "ss_running s" "cf_metrics (ss_config s) = specs" "length (ss_channels s) = kMaxLoggedChannels"
    "ss_weightings s = session_weightings specs" "ss_sampleRate s = rate"
    "cf_referenceOffsetDb (ss_config s) = cf_referenceOffsetDb config"
proof -
  define config' where "config' =
    (if refusedMetricCount config \<noteq> 0 then config\<lparr>cf_metrics := take kMaxMetrics (cf_metrics config)\<rparr> else config)"
  have cfg: "cf_metrics config' = specs" "session_block_samples config' rate = session_block_samples config rate"
      "cf_referenceOffsetDb config' = cf_referenceOffsetDb config"
    by (auto simp: specs config'_def refusedMetricCount_def acceptedMetricCount_def session_block_samples_def split: if_splits)
  define s1 where "s1 = (SplSession_stop s0)\<lparr>ss_config := config', ss_sampleRate := rate,
    ss_refusedMetrics := refusedMetricCount config,
    ss_blockSecondsTooSmall :=
      blockSecondsBelowRecommendedFloor config' rate (real kScratchSamples) (real kReadyCapacity),
    ss_weightings := session_weightings (cf_metrics config'),
    ss_windowCapacity := min (unat (longest_window (cf_metrics config'))) kMaxWindowBlocks\<rparr>"
  have s1: "ss_config s1 = config'" "ss_sampleRate s1 = rate"
      "ss_weightings s1 = session_weightings specs" "ss_windowCapacity s1 = cap"
      "length (ss_channels s1) = kMaxLoggedChannels"
    using len by (simp_all add: s1_def SplSession_stop_def cfg cap specs session_capacity_def)
  have "SplSession_start config rate channels s0 =
      (case start_channels channels s1 of Inl err \<Rightarrow> Inl err | Inr s \<Rightarrow> Inr (s\<lparr>ss_running := True\<rparr>))"
    unfolding SplSession_start_def Let_def config'_def [symmetric] s1_def ..
  then obtain s2 where s2: "start_channels channels s1 = Inr s2" "s = s2\<lparr>ss_running := True\<rparr>"
    using start by (auto split: sum.splits)
  obtain cs where cs: "new_chains config' rate cap (session_weightings specs) = Inr cs"
      "ss_channels s2 ! i = Some \<lparr>st_chains = cs, st_lastBusDropCount = 0, st_dropBaselineSet = False\<rparr>"
    using start_channels_fresh [OF s2(1) s1(5) ch(2)] ch(1) s1 by auto
  show thesis
    using that [OF cs(1) cfg(2)] cs(2) start_channels_frame [OF s2(1)] s1 s2(2) cfg by simp
qed

lemma session_capacity_pos: "0 < session_capacity config"
  using longest_window_pos by (simp add: session_capacity_def kMaxWindowBlocks_def word_less_nat_alt)

lemma session_start_inv:
  assumes start: "SplSession_start config rate channels s0 = Inr s" and len: "length (ss_channels s0) = kMaxLoggedChannels"
    and ch: "channel \<in> set channels" "channel_index channel = Some i"
  shows "session_inv (session_block_samples config rate) rate (session_capacity config)
           (session_weightings (take kMaxMetrics (cf_metrics config))) (take kMaxMetrics (cf_metrics config)) i [] s"
proof -
  obtain config' cs where f: "new_chains config' rate (session_capacity config) (session_weightings (take kMaxMetrics (cf_metrics config))) = Inr cs"
    "session_block_samples config' rate = session_block_samples config rate"
    "ss_channels s ! i = Some \<lparr>st_chains = cs, st_lastBusDropCount = 0, st_dropBaselineSet = False\<rparr>"
    "ss_running s" "cf_metrics (ss_config s) = take kMaxMetrics (cf_metrics config)" "length (ss_channels s) = kMaxLoggedChannels"
    by (rule session_start_fresh [OF start len ch refl refl])
  show ?thesis
    using new_chains_inv [OF f(1) session_capacity_pos] f(2-) by (simp add: session_inv_def)
qed

text \<open>
  Property C26: after any hops on a logged channel, each of which closes at most 1024 blocks of a chain, every accepted metric is given the window of its own weighting, and
  that window is exactly the latest blocks of the whole stream under this weighting, as many as the longest accepted
  metric asks for and at most 3600; the dose and the percentiles always find an A-weighted window; and all chains
  have counted the same blocks.
\<close>

theorem metric_windows_own_weighting:
  assumes "SplSession_start config rate channels s0 = Inr s" and "length (ss_channels s0) = kMaxLoggedChannels"
    and "channel \<in> set channels" and "channel_index channel = Some i"
    and "n = session_block_samples config rate" and "cap = session_capacity config"
    and "list_all (\<lambda>hop. length hop \<le> kReadyBufferCapacity * unat n) hops"
  shows "\<exists>s'. fold_opt (feedHop channel) hops s = Some s' \<and>
           map (map block_facts) (fillMetricWindows channel kMaxMetrics s') =
             map (\<lambda>spec. latest cap (weighted_blocks n rate (ms_weighting spec) (concat hops)))
               (take kMaxMetrics (cf_metrics config)) \<and>
           map block_facts (session_window channel WeightA s') = latest cap (weighted_blocks n rate WeightA (concat hops)) \<and>
           session_blockCount channel s' = word_of_nat (length (concat hops) div unat n)"
proof -
  let ?specs = "take kMaxMetrics (cf_metrics config)"
  let ?inv = "session_inv n rate cap (session_weightings ?specs) ?specs (nat channel)"
  have i: "i = nat channel" "channel_index channel = Some (nat channel)"
    using assms(4) by (auto simp: channel_index_def split: if_splits)
  have "?inv [] s"
    using session_start_inv [OF assms(1-4)] assms(5,6) i(1) by simp
  moreover have "list_all (\<lambda>hop. length hop \<le> kReadyBufferCapacity * unat n \<and> channel_index channel \<noteq> None) hops"
    using assms(7) i(2) by (simp add: list_all_iff)
  ultimately obtain s' where s': "fold_opt (feedHop channel) hops s = Some s'" "?inv (concat hops) s'"
    by (rule session.run_from_empty)
  have "ss_running s'" "cf_metrics (ss_config s') = ?specs"
    using s'(2) by (auto simp: session_inv_def)
  then have "map (map block_facts) (fillMetricWindows channel kMaxMetrics s') =
      map (\<lambda>spec. latest cap (weighted_blocks n rate (ms_weighting spec) (concat hops))) ?specs"
    using session_inv_window [OF s'(2) session_weightings_cover(2) i(2)] by (simp add: fillMetricWindows_def)
  then show ?thesis
    using s'(1) session_inv_window [OF s'(2) session_weightings_cover(1) i(2)]
      session_inv_count [OF s'(2) session_weightings_cover(3) i(2)] by blast
qed

definition sample_config :: SplConfig where
  "sample_config = SplConfig_default\<lparr>cf_metrics :=
     [\<lparr>ms_id = ''LZeq'', ms_weighting = WeightZ, ms_detector = Fast, ms_windowBlocks = 2\<rparr>]\<rparr>"

theorem metric_windows_own_weighting_witness:
  "\<exists>s s'. SplSession_start sample_config 2 [0] SplSession_new = Inr s \<and>
     fold_opt (feedHop 0) [[1, 2, 3], [4, 5, 6]] s = Some s' \<and>
     map (map block_facts) (fillMetricWindows 0 kMaxMetrics s') = [[(1, 2, 0, 25, 1), (2, 2, 0, 61, 1)]]"
proof -
  let ?hops = "[[1, 2, 3], [4, 5, 6]] :: real list list"
  obtain wg where wg: "Weighting_new WeightZ 2 = Inr wg" "cas_sections (wg_cascade wg) = []"
    by (simp add: Weighting_new_def BiquadCascade_new_def)
  have n: "session_block_samples sample_config 2 = 2"
    by (simp add: session_block_samples_def blockSamplesFor_def sample_config_def SplConfig_default_def)
  have cap: "session_capacity sample_config = 2"
    by (simp add: session_capacity_def longest_window_def sample_config_def kMaxMetrics_def kMaxWindowBlocks_def max_def)
  have upt: "[0..<3] = [0, 1, 2 :: nat]" "[0..<2] = [0, 1 :: nat]" "[2..<4] = [2, 3 :: nat]" "[4..<6] = [4, 5 :: nat]"
    by (simp_all add: upt_rec)
  have "weighted_blocks 2 2 WeightZ (concat ?hops) = [(0, 2, 0, 5, 0), (1, 2, 0, 25, 1), (2, 2, 0, 61, 1)]"
    by (simp add: weighted_blocks_def wg Z_is_flat stream_block_def overload_flag_def clip_at_def loud_def
        kFullScaleThreshold_def energy_def flagMask_def upt)
  then have blocks: "latest 2 (weighted_blocks 2 2 WeightZ (concat ?hops)) = [(1, 2, 0, 25, 1), (2, 2, 0, 61, 1)]"
    by (simp add: latest_def)
  obtain s where s: "SplSession_start sample_config 2 [0] SplSession_new = Inr s"
    by (simp add: SplSession_start_def Let_def channel_index_def kMaxLoggedChannels_def Chain_new_def SplMeter_new_def
        Weighting_new_def BlockAccumulator_new_def Detector_new_def session_weightings_def sample_config_def
        SplConfig_default_def refusedMetricCount_def acceptedMetricCount_def kMaxMetrics_def split: sum.splits)
  have idx: "channel_index 0 = Some 0"
    by (simp add: channel_index_def kMaxLoggedChannels_def)
  have "list_all (\<lambda>hop. length hop \<le> kReadyBufferCapacity * unat (2 :: uint32_t)) ?hops"
    by (simp add: kReadyBufferCapacity_def kScratchSamples_def)
  from metric_windows_own_weighting [OF s _ _ idx n [symmetric] cap [symmetric] this] obtain s' where
      "fold_opt (feedHop 0) ?hops s = Some s'"
      "map (map block_facts) (fillMetricWindows 0 kMaxMetrics s') =
         map (\<lambda>spec. latest 2 (weighted_blocks 2 2 (ms_weighting spec) (concat ?hops)))
           (take kMaxMetrics (cf_metrics sample_config))"
    by (auto simp: SplSession_new_def)
  then show ?thesis
    using s blocks by (auto simp: sample_config_def kMaxMetrics_def)
qed

end
