(* ===== verification/Spl_Channel.thy ===== *)
theory Spl_Channel
  imports Spl_Session Level_Histogram "HOL-Library.Multiset"
begin

text \<open>
  What a logged channel remembers between two publishes (\<^verbatim>\<open>app/src/measure/SplChannelState.cpp\<close>): history, alarms
  grouped by the weighting of the metric they name, percentile histogram and doses.  The theory proves that the
  grouping cannot be seen from outside: every published alarm is the alarm of its own configuration entry, run alone
  on the windows of its own metric's weighting.
\<close>

section \<open>The window at a closed block\<close>

definition windowAtClose :: "Block list \<Rightarrow> Block list \<Rightarrow> nat \<Rightarrow> Block list" where
  "windowAtClose newly fullWindow i =
     (if i \<ge> length newly then []
      else if length newly \<le> length fullWindow then
        (let trim = length newly - 1 - i in take (length fullWindow - trim) fullWindow)
      else (let count = min (length fullWindow) (i + 1) in take count (drop (i + 1 - count) newly)))"

record ChainBlockAtClose =
  cc_weighting :: WeightingType
  cc_block :: Block
  cc_window :: "Block list"

section \<open>Alarm groups\<close>

record Bucket =
  bu_weighting :: "WeightingType option"
  bu_specs :: "SplAlarmSpec list"
  bu_metricIndices :: "nat option list"
  bu_configIndices :: "nat list"

record AlarmGroup =
  ag_weighting :: "WeightingType option"
  ag_alarms :: "SplAlarm list"

text \<open>The first metric with the alarm's id: its weighting and its index.\<close>

fun named_metric :: "string \<Rightarrow> nat \<Rightarrow> SplMetricSpec list \<Rightarrow> WeightingType option \<times> nat option" where
  "named_metric name i [] = (None, None)"
| "named_metric name i (m # ms) =
     (if ms_id m = name then (Some (ms_weighting m), Some i) else named_metric name (Suc i) ms)"

fun add_to_bucket :: "WeightingType option \<Rightarrow> SplAlarmSpec \<Rightarrow> nat option \<Rightarrow> nat \<Rightarrow> Bucket list \<Rightarrow> Bucket list" where
  "add_to_bucket w spec mi ci [] =
     [\<lparr>bu_weighting = w, bu_specs = [spec], bu_metricIndices = [mi], bu_configIndices = [ci]\<rparr>]"
| "add_to_bucket w spec mi ci (b # bs) =
     (if bu_weighting b = w then
        b\<lparr>bu_specs := bu_specs b @ [spec], bu_metricIndices := bu_metricIndices b @ [mi],
          bu_configIndices := bu_configIndices b @ [ci]\<rparr> # bs
      else b # add_to_bucket w spec mi ci bs)"

fun fill_buckets :: "SplMetricSpec list \<Rightarrow> nat \<Rightarrow> SplAlarmSpec list \<Rightarrow> Bucket list \<Rightarrow> Bucket list" where
  "fill_buckets metrics ci [] bs = bs"
| "fill_buckets metrics ci (spec # specs) bs =
     (let (w, mi) = named_metric (spec_metricId spec) 0 metrics
      in fill_buckets metrics (Suc ci) specs (add_to_bucket w spec mi ci bs))"

definition bucket_group :: "Bucket \<Rightarrow> AlarmGroup" where
  "bucket_group b = \<lparr>ag_weighting = bu_weighting b, ag_alarms = SplAlarms_new (bu_specs b) (bu_metricIndices b)\<rparr>"

definition buildAlarmGroups :: "SplConfig \<Rightarrow> AlarmGroup list \<times> nat list" where
  "buildAlarmGroups config =
     (let buckets = fill_buckets (cf_metrics config) 0 (cf_alarms config) []
      in (map bucket_group buckets, concat (map bu_configIndices buckets)))"

section \<open>The channel's state\<close>

record SplChannelState =
  cs_sampleRate :: real
  cs_blockSeconds :: real
  cs_referenceOffsetDb :: real
  cs_lnPercents :: "real list"
  cs_history :: SplHistory
  cs_alarmGroups :: "AlarmGroup list"
  cs_alarmPublishOrder :: "nat list"
  cs_lnHistogram :: LevelHistogram
  cs_dose :: "Dose list"

definition SplChannelState_new :: "SplConfig \<Rightarrow> real \<Rightarrow> SplChannelState" where
  "SplChannelState_new config rate =
     (let (groups, order) = buildAlarmGroups config
      in \<lparr>cs_sampleRate = rate, cs_blockSeconds = cf_blockSeconds config,
          cs_referenceOffsetDb = cf_referenceOffsetDb config, cs_lnPercents = cf_lnPercents config,
          cs_history = SplHistory_new (capacityBlocks (cf_logSpanSeconds config) (cf_blockSeconds config)),
          cs_alarmGroups = groups, cs_alarmPublishOrder = order,
          cs_lnHistogram = LevelHistogram_new (histogramBaseDb config), cs_dose = map Dose_new (cf_dose config)\<rparr>)"

text \<open>The dose of one finished block of the A-weighted chain.\<close>

definition dose_block :: "SplChannelState \<Rightarrow> Block \<Rightarrow> Dose list" where
  "dose_block s b =
     (if hasFlag (blk_flags b) CalibrationInvalid then cs_dose s
      else (let result = combineBlocks [b] (cs_sampleRate s) (cs_referenceOffsetDb s) 1
            in case win_leqDb result of
                 None \<Rightarrow> cs_dose s
               | Some leq \<Rightarrow> map (\<lambda>d. addBlock d leq (win_seconds result)) (cs_dose s)))"

text \<open>The alarm groups in order, all of them writing their transitions into the one history.\<close>

fun update_groups ::
  "ChainBlockAtClose list \<Rightarrow> real \<Rightarrow> real \<Rightarrow> real \<Rightarrow> uint64_t \<Rightarrow> AlarmGroup list \<times> SplHistory \<Rightarrow> AlarmGroup list \<times> SplHistory"
where
  "update_groups atClose rate blockSeconds offset idx ([], history) = ([], history)"
| "update_groups atClose rate blockSeconds offset idx (g # gs, history) =
     (let (g', history') =
        (case ag_weighting g of
           None \<Rightarrow> (g, history)
         | Some w \<Rightarrow>
             (case find (\<lambda>c. cc_weighting c = w) atClose of
                None \<Rightarrow> (g, history)
              | Some c \<Rightarrow>
                  (let (alarms', history') = SplAlarms_update (cc_window c) rate blockSeconds offset idx (ag_alarms g, history)
                   in (g\<lparr>ag_alarms := alarms'\<rparr>, history'))));
          (gs', history'') = update_groups atClose rate blockSeconds offset idx (gs, history')
      in (g' # gs', history''))"

definition onBlockClosed :: "ChainBlockAtClose list \<Rightarrow> SplChannelState \<Rightarrow> SplChannelState" where
  "onBlockClosed atClose s =
     (case atClose of
        [] \<Rightarrow> s
      | front # _ \<Rightarrow>
          (let s = s\<lparr>cs_history := SplHistory_push (cc_block front) (cs_history s)\<rparr>;
               s = (case find (\<lambda>c. cc_weighting c = WeightA) atClose of
                      None \<Rightarrow> s
                    | Some a \<Rightarrow> s\<lparr>cs_dose := dose_block s (cc_block a)\<rparr>);
               (groups, history) = update_groups atClose (cs_sampleRate s) (cs_blockSeconds s) (cs_referenceOffsetDb s)
                                     (blockIndex (cc_block front)) (cs_alarmGroups s, cs_history s)
           in s\<lparr>cs_alarmGroups := groups, cs_history := history\<rparr>))"

definition feedLnTicks :: "real list \<Rightarrow> SplChannelState \<Rightarrow> SplChannelState" where
  "feedLnTicks levels s =
     s\<lparr>cs_lnHistogram := foldl (\<lambda>h raw. LevelHistogram_add h (Fin (raw + cs_referenceOffsetDb s))) (cs_lnHistogram s) levels\<rparr>"

section \<open>Publishing\<close>

record SplMetricReading =
  mr_id :: string
  mr_valueDb :: real
  mr_leqBufferFill :: real

record SplBlockView =
  vw_blockIndex :: uint64_t
  vw_blockSamples :: uint32_t
  vw_sampleRate :: real
  vw_referenceOffsetDb :: real
  vw_calibrated :: bool
  vw_metrics :: "SplMetricReading list"
  vw_refusedMetrics :: uint32_t
  vw_maxFastDb :: real
  vw_maxSlowDb :: real
  vw_peakCDb :: real
  vw_flags :: uint32_t
  vw_droppedSamples :: uint32_t
  vw_alarms :: "SplAlarmReading list"
  vw_markersOverflowed :: uint32_t
  vw_logDroppedBlocks :: uint32_t
  vw_logWriteFailed :: bool
  vw_calibrationInvalid :: bool
  vw_lnTicksOverflowed :: uint32_t
  vw_blockSecondsBelowRecommendedFloor :: bool
  vw_dosePercent :: "real option list"
  vw_doseProjected :: "real option list"
  vw_lnDb :: "real option list"

definition SplBlockView_default :: SplBlockView where
  "SplBlockView_default = \<lparr>vw_blockIndex = 0, vw_blockSamples = 0, vw_sampleRate = 0, vw_referenceOffsetDb = 0,
     vw_calibrated = False, vw_metrics = [], vw_refusedMetrics = 0, vw_maxFastDb = measure_kLevelFloorDb,
     vw_maxSlowDb = measure_kLevelFloorDb, vw_peakCDb = measure_kLevelFloorDb, vw_flags = 0, vw_droppedSamples = 0,
     vw_alarms = [], vw_markersOverflowed = 0, vw_logDroppedBlocks = 0, vw_logWriteFailed = False,
     vw_calibrationInvalid = False, vw_lnTicksOverflowed = 0, vw_blockSecondsBelowRecommendedFloor = False,
     vw_dosePercent = replicate 2 None, vw_doseProjected = replicate 2 None, vw_lnDb = replicate 6 None\<rparr>"

definition SplAlarmReading_default :: SplAlarmReading where
  "SplAlarmReading_default = \<lparr>rd_metricId = [], rd_limitDb = 0, rd_valueDb = measure_kLevelFloorDb, rd_headroomDb = None,
     rd_state = AlarmFilling, rd_windowBlocks = 0, rd_sinceBlock = None\<rparr>"

fun place_readings :: "nat list \<Rightarrow> 'r list \<Rightarrow> 'r list \<Rightarrow> 'r list" where
  "place_readings (ci # order) (r # rs) out = place_readings order rs (if ci < length out then out[ci := r] else out)"
| "place_readings _ _ out = out"

text \<open>A dose is absent until its accumulator has seen a block; the slot keeps what the view had.\<close>

fun dose_slots :: "(Dose \<Rightarrow> 'd option) \<Rightarrow> Dose list \<Rightarrow> 'd option list \<Rightarrow> 'd option list" where
  "dose_slots f (d # ds) (slot # slots) = (if secondsTotal d > 0 then f d else slot) # dose_slots f ds slots"
| "dose_slots f _ slots = slots"

fun percentile_slots :: "LevelHistogram \<Rightarrow> real list \<Rightarrow> meter_error + real option list" where
  "percentile_slots h [] = Inr []"
| "percentile_slots h (n # ns) =
     (case hist_percentileDb h n of
        Inl err \<Rightarrow> Inl err
      | Inr db \<Rightarrow> (case percentile_slots h ns of Inl err \<Rightarrow> Inl err | Inr dbs \<Rightarrow> Inr (db # dbs)))"

definition fillPublish :: "SplChannelState \<Rightarrow> SplBlockView \<Rightarrow> meter_error + SplBlockView" where
  "fillPublish s view =
     (let view = view\<lparr>vw_markersOverflowed := ucast (h_overflowedMarkers (cs_history s))\<rparr>;
          flattened = concat (map (\<lambda>g. SplAlarms_reports (ag_alarms g)) (cs_alarmGroups s));
          view = view\<lparr>vw_alarms := place_readings (cs_alarmPublishOrder s) flattened
                                     (replicate (length flattened) SplAlarmReading_default)\<rparr>;
          view = view\<lparr>vw_dosePercent := dose_slots (\<lambda>d. Some (Dose_percent d)) (cs_dose s) (vw_dosePercent view),
                      vw_doseProjected := dose_slots projectedPercent (cs_dose s) (vw_doseProjected view)\<rparr>
      in case percentile_slots (cs_lnHistogram s) (cs_lnPercents s) of
           Inl err \<Rightarrow> Inl err
         | Inr dbs \<Rightarrow> Inr (view\<lparr>vw_lnDb := dbs\<rparr>))"


section \<open>Alarms do not see each other\<close>

text \<open>What one update makes of the alarm itself; the history only receives its markers.\<close>

definition alarm_step :: "real \<Rightarrow> real \<Rightarrow> real \<Rightarrow> Block list \<times> uint64_t \<Rightarrow> SplAlarm \<Rightarrow> SplAlarm" where
  "alarm_step rate blockSeconds offset ob a =
     fst (SplAlarm_update (fst ob) rate blockSeconds offset (snd ob) (a, SplHistory_new 1))"

lemma update_ignores_history:
  "fst (SplAlarm_update blocks rate blockSeconds offset idx (a, h)) = alarm_step rate blockSeconds offset (blocks, idx) a"
  unfolding alarm_step_def SplAlarm_update_def Let_def split_beta fst_conv snd_conv if_distrib [of fst] ..

lemma alarms_update_map:
  "fst (SplAlarms_update blocks rate blockSeconds offset idx (as, h)) = map (alarm_step rate blockSeconds offset (blocks, idx)) as"
proof (induction as arbitrary: h)
  case (Cons a as)
  then show ?case
    using update_ignores_history [of blocks rate blockSeconds offset idx a h] by (simp add: split_beta)
qed simp

lemma alarm_run_steps:
  "fst (alarm_run spec rate blockSeconds offset obs (a, h)) = fold (alarm_step rate blockSeconds offset) obs a"
proof (induction obs arbitrary: a h)
  case (Cons ob obs)
  obtain a' h' where u: "SplAlarm_update (fst ob) rate blockSeconds offset (snd ob) (a, h) = (a', h')"
    by fastforce
  then have "a' = alarm_step rate blockSeconds offset ob a"
    using update_ignores_history [of "fst ob" rate blockSeconds offset "snd ob" a h] by simp
  then show ?case
    using Cons.IH [of a' h'] u by (simp add: alarm_run_def split_beta)
qed (simp add: alarm_run_def)

definition observe :: "ChainBlockAtClose list \<Rightarrow> WeightingType \<Rightarrow> (Block list \<times> uint64_t) option" where
  "observe atClose w =
     map_option (\<lambda>c. (cc_window c, blockIndex (cc_block (hd atClose)))) (find (\<lambda>c. cc_weighting c = w) atClose)"

definition group_step :: "real \<Rightarrow> real \<Rightarrow> real \<Rightarrow> ChainBlockAtClose list \<Rightarrow> AlarmGroup \<Rightarrow> AlarmGroup" where
  "group_step rate blockSeconds offset atClose g =
     (case Option.bind (ag_weighting g) (observe atClose) of
        None \<Rightarrow> g
      | Some ob \<Rightarrow> g\<lparr>ag_alarms := map (alarm_step rate blockSeconds offset ob) (ag_alarms g)\<rparr>)"

lemma update_groups_map:
  assumes "idx = blockIndex (cc_block (hd atClose))"
  shows "fst (update_groups atClose rate blockSeconds offset idx (gs, h)) = map (group_step rate blockSeconds offset atClose) gs"
proof (induction gs arbitrary: h)
  case (Cons g gs)
  have "fst (SplAlarms_update blocks rate blockSeconds offset idx (ag_alarms g, h)) =
      map (alarm_step rate blockSeconds offset (blocks, idx)) (ag_alarms g)" for blocks
    by (rule alarms_update_map)
  then show ?case
    using Cons.IH assms
    by (auto simp: group_step_def observe_def split_beta Let_def split: option.split)
qed simp

text \<open>What happens to a channel between publishes: closed blocks and detector ticks, in any order.\<close>

datatype channel_event = BlocksClosed "ChainBlockAtClose list" | LnTicks "real list"

fun channel_step :: "channel_event \<Rightarrow> SplChannelState \<Rightarrow> SplChannelState" where
  "channel_step (BlocksClosed atClose) s = onBlockClosed atClose s"
| "channel_step (LnTicks levels) s = feedLnTicks levels s"

fun closed_blocks :: "channel_event list \<Rightarrow> ChainBlockAtClose list list" where
  "closed_blocks [] = []"
| "closed_blocks (BlocksClosed atClose # es) = atClose # closed_blocks es"
| "closed_blocks (LnTicks _ # es) = closed_blocks es"

fun ticked_levels :: "channel_event list \<Rightarrow> real list" where
  "ticked_levels [] = []"
| "ticked_levels (BlocksClosed _ # es) = ticked_levels es"
| "ticked_levels (LnTicks levels # es) = levels @ ticked_levels es"

definition observations :: "WeightingType option \<Rightarrow> ChainBlockAtClose list list \<Rightarrow> (Block list \<times> uint64_t) list" where
  "observations w events = List.map_filter (\<lambda>atClose. Option.bind w (observe atClose)) events"

text \<open>The blocks that count for the dose: those of the A-weighted chain, unless the calibration was found invalid.\<close>

definition dose_blocks :: "ChainBlockAtClose list list \<Rightarrow> Block list" where
  "dose_blocks events =
     filter (\<lambda>b. \<not> hasFlag (blk_flags b) CalibrationInvalid)
       (List.map_filter (\<lambda>atClose. map_option cc_block (find (\<lambda>c. cc_weighting c = WeightA) atClose)) events)"

definition dose_add :: "real \<Rightarrow> real \<Rightarrow> Block \<Rightarrow> Dose \<Rightarrow> Dose" where
  "dose_add rate offset b d =
     (let result = combineBlocks [b] rate offset 1
      in case win_leqDb result of None \<Rightarrow> d | Some leq \<Rightarrow> addBlock d leq (win_seconds result))"

definition channel_after :: "channel_event list \<Rightarrow> SplChannelState \<Rightarrow> SplChannelState \<Rightarrow> bool" where
  "channel_after es s s' \<longleftrightarrow>
     cs_sampleRate s' = cs_sampleRate s \<and> cs_blockSeconds s' = cs_blockSeconds s \<and>
     cs_referenceOffsetDb s' = cs_referenceOffsetDb s \<and> cs_lnPercents s' = cs_lnPercents s \<and>
     cs_alarmPublishOrder s' = cs_alarmPublishOrder s \<and>
     cs_alarmGroups s' =
       map (\<lambda>g. g\<lparr>ag_alarms := map (fold (alarm_step (cs_sampleRate s) (cs_blockSeconds s) (cs_referenceOffsetDb s))
         (observations (ag_weighting g) (closed_blocks es))) (ag_alarms g)\<rparr>) (cs_alarmGroups s) \<and>
     cs_dose s' = map (fold (dose_add (cs_sampleRate s) (cs_referenceOffsetDb s)) (dose_blocks (closed_blocks es))) (cs_dose s) \<and>
     cs_lnHistogram s' =
       foldl (\<lambda>h raw. LevelHistogram_add h (Fin (raw + cs_referenceOffsetDb s))) (cs_lnHistogram s) (ticked_levels es)"

lemma dose_block_map:
  "dose_block s b =
     map (if hasFlag (blk_flags b) CalibrationInvalid then id else dose_add (cs_sampleRate s) (cs_referenceOffsetDb s) b) (cs_dose s)"
  by (simp add: dose_block_def dose_add_def [abs_def] Let_def map_idI split: option.split)

lemma closed_step:
  "channel_after [BlocksClosed atClose] s (onBlockClosed atClose s)"
proof (cases atClose)
  case Nil
  have "Option.bind w (observe []) = None" for w
    by (cases w) (simp_all add: observe_def)
  then show ?thesis
    using Nil by (simp add: channel_after_def onBlockClosed_def observations_def dose_blocks_def map_filter_def map_idI)
next
  case (Cons front rest)
  have groups: "fst (update_groups (front # rest) rate blockSeconds offset (blockIndex (cc_block front)) (gs, h)) =
      map (group_step rate blockSeconds offset (front # rest)) gs" for rate blockSeconds offset gs h
    by (rule update_groups_map) simp
  have one: "group_step rate blockSeconds offset (front # rest) g = g\<lparr>ag_alarms :=
      map (fold (alarm_step rate blockSeconds offset) (observations (ag_weighting g) [front # rest])) (ag_alarms g)\<rparr>"
    for rate blockSeconds offset g
    by (cases "Option.bind (ag_weighting g) (observe (front # rest))")
       (simp_all add: group_step_def observations_def map_filter_def)
  show ?thesis
    using groups one unfolding Cons
    by (simp add: channel_after_def onBlockClosed_def Let_def split_beta dose_block_map dose_blocks_def map_filter_def
        split: option.split)
qed

lemma ticks_step: "channel_after [LnTicks levels] s (feedLnTicks levels s)"
  by (simp add: channel_after_def feedLnTicks_def observations_def dose_blocks_def map_filter_def)

lemma closed_blocks_append [simp]: "closed_blocks (es @ es') = closed_blocks es @ closed_blocks es'"
  by (induction es rule: closed_blocks.induct) simp_all

lemma ticked_levels_append [simp]: "ticked_levels (es @ es') = ticked_levels es @ ticked_levels es'"
  by (induction es rule: ticked_levels.induct) simp_all

lemma observations_append [simp]: "observations w (xs @ ys) = observations w xs @ observations w ys"
  by (simp add: observations_def map_filter_def)

lemma dose_blocks_append [simp]: "dose_blocks (xs @ ys) = dose_blocks xs @ dose_blocks ys"
  by (simp add: dose_blocks_def map_filter_def)

lemma channel_after_trans:
  assumes "channel_after es s s'" "channel_after es' s' s''"
  shows "channel_after (es @ es') s s''"
  using assms by (simp add: channel_after_def)

lemma channel_after_fold: "channel_after es s (fold channel_step es s)"
proof (induction es arbitrary: s)
  case Nil
  show ?case
    by (simp add: channel_after_def observations_def dose_blocks_def map_filter_def map_idI)
next
  case (Cons e es)
  have "channel_after [e] s (channel_step e s)"
    by (cases e) (simp_all add: closed_step ticks_step)
  from channel_after_trans [OF this Cons.IH] show ?case
    by simp
qed

section \<open>The grouping is a permutation\<close>

definition metric_of :: "SplMetricSpec list \<Rightarrow> SplAlarmSpec \<Rightarrow> WeightingType option \<times> nat option" where
  "metric_of metrics spec = named_metric (spec_metricId spec) 0 metrics"

definition bucket_ok :: "SplMetricSpec list \<Rightarrow> SplAlarmSpec list \<Rightarrow> Bucket \<Rightarrow> bool" where
  "bucket_ok metrics specs b \<longleftrightarrow>
     bu_specs b = map ((!) specs) (bu_configIndices b) \<and>
     bu_metricIndices b = map (\<lambda>ci. snd (metric_of metrics (specs ! ci))) (bu_configIndices b) \<and>
     (\<forall>ci \<in> set (bu_configIndices b). fst (metric_of metrics (specs ! ci)) = bu_weighting b)"

definition all_indices :: "Bucket list \<Rightarrow> nat list" where
  "all_indices bs = concat (map bu_configIndices bs)"

lemma bucket_ok_snoc:
  assumes "bucket_ok metrics specs b" "metric_of metrics (specs ! ci) = (bu_weighting b, mi)"
  shows "bucket_ok metrics specs (b\<lparr>bu_specs := bu_specs b @ [specs ! ci], bu_metricIndices := bu_metricIndices b @ [mi],
    bu_configIndices := bu_configIndices b @ [ci]\<rparr>)"
  unfolding bucket_ok_def using assms(2) assms(1) [unfolded bucket_ok_def]
  by (elim conjE) (intro conjI; simp)

lemma add_to_bucket_ok:
  assumes "\<forall>b \<in> set bs. bucket_ok metrics specs b" "metric_of metrics (specs ! ci) = (w, mi)"
  shows "\<forall>b \<in> set (add_to_bucket w (specs ! ci) mi ci bs). bucket_ok metrics specs b"
  using assms(1)
proof (induction bs)
  case Nil
  then show ?case
    using assms(2) by (simp add: bucket_ok_def)
next
  case (Cons b bs)
  then show ?case
    using assms(2) bucket_ok_snoc [of metrics specs b ci mi] by (cases "bu_weighting b = w") simp_all
qed

lemma add_to_bucket_indices: "mset (all_indices (add_to_bucket w spec mi ci bs)) = add_mset ci (mset (all_indices bs))"
  by (induction bs) (simp_all add: all_indices_def)

lemma fill_buckets_ok:
  assumes "\<forall>b \<in> set bs. bucket_ok metrics (pre @ specs) b" "mset (all_indices bs) = mset [0..<length pre]"
  shows "(\<forall>b \<in> set (fill_buckets metrics (length pre) specs bs). bucket_ok metrics (pre @ specs) b) \<and>
         mset (all_indices (fill_buckets metrics (length pre) specs bs)) = mset [0..<length (pre @ specs)]"
  using assms
proof (induction specs arbitrary: pre bs)
  case (Cons spec specs)
  obtain w mi where m: "named_metric (spec_metricId spec) 0 metrics = (w, mi)"
    by fastforce
  have "metric_of metrics ((pre @ spec # specs) ! length pre) = (w, mi)"
    using m by (simp add: metric_of_def)
  from add_to_bucket_ok [OF Cons.prems(1) this]
  have "\<forall>b \<in> set (add_to_bucket w spec mi (length pre) bs). bucket_ok metrics ((pre @ [spec]) @ specs) b"
    by simp
  moreover have "mset (all_indices (add_to_bucket w spec mi (length pre) bs)) = mset [0..<length (pre @ [spec])]"
    using Cons.prems(2) by (simp add: add_to_bucket_indices)
  ultimately show ?case
    using Cons.IH [where pre = "pre @ [spec]"] m by simp
qed simp

lemma bucket_alarms:
  assumes "bucket_ok metrics specs b"
  shows "ag_alarms (bucket_group b) =
    map (\<lambda>ci. SplAlarm_new (specs ! ci) (snd (metric_of metrics (specs ! ci)))) (bu_configIndices b)"
  using assms by (auto simp: bucket_ok_def bucket_group_def SplAlarms_new_def intro: nth_equalityI)

lemma place_readings_other: "j \<notin> set order \<Longrightarrow> place_readings order rs out ! j = out ! j"
  by (induction order rs out rule: place_readings.induct) auto

lemma place_readings_length [simp]: "length (place_readings order rs out) = length out"
  by (induction order rs out rule: place_readings.induct) auto

lemma place_readings_map:
  assumes "distinct order" "\<forall>ci \<in> set order. ci < length out" "j \<in> set order"
  shows "place_readings order (map f order) out ! j = f j"
  using assms
proof (induction order arbitrary: out)
  case (Cons ci order)
  show ?case
  proof (cases "j = ci")
    case True
    then show ?thesis
      using Cons.prems place_readings_other [of j order "map f order" "out[ci := f ci]"] by simp
  next
    case False
    then show ?thesis
      using Cons by simp
  qed
qed simp

lemma place_readings_permutation:
  assumes "mset order = mset [0..<n]"
  shows "place_readings order (map f order) (replicate n x) = map f [0..<n]"
proof (rule nth_equalityI)
  have order: "distinct order" "set order = {0..<n}"
    using assms mset_eq_imp_distinct_iff [of order "[0..<n]"] mset_eq_setD [of order "[0..<n]"] by simp_all
  fix j assume "j < length (place_readings order (map f order) (replicate n x))"
  then show "place_readings order (map f order) (replicate n x) ! j = map f [0..<n] ! j"
    using place_readings_map [of order "replicate n x" j f] order by simp
qed simp

lemma buildAlarmGroups_ok:
  assumes "buckets = fill_buckets (cf_metrics config) 0 (cf_alarms config) []"
  shows "\<forall>b \<in> set buckets. bucket_ok (cf_metrics config) (cf_alarms config) b"
    and "mset (all_indices buckets) = mset [0..<length (cf_alarms config)]"
  using fill_buckets_ok [of "[]" "cf_metrics config" "[]" "cf_alarms config"] assms by (simp_all add: all_indices_def)

lemma flattened_readings:
  assumes "\<forall>b \<in> set buckets. bucket_ok metrics specs b"
  shows "concat (map (\<lambda>g. SplAlarms_reports (map (F (ag_weighting g)) (ag_alarms g))) (map bucket_group buckets)) =
    map (\<lambda>ci. SplAlarm_report (F (fst (metric_of metrics (specs ! ci)))
      (SplAlarm_new (specs ! ci) (snd (metric_of metrics (specs ! ci)))))) (all_indices buckets)"
proof -
  have "SplAlarms_reports (map (F (ag_weighting (bucket_group b))) (ag_alarms (bucket_group b))) =
      map (\<lambda>ci. SplAlarm_report (F (fst (metric_of metrics (specs ! ci)))
        (SplAlarm_new (specs ! ci) (snd (metric_of metrics (specs ! ci)))))) (bu_configIndices b)" if "b \<in> set buckets" for b
    using bucket_alarms [of metrics specs b] assms that
    by (simp add: SplAlarms_reports_def bucket_group_def [of b, THEN arg_cong, of ag_weighting] bucket_ok_def)
  then show ?thesis
    by (simp add: all_indices_def map_concat comp_def cong: map_cong)
qed

lemma percentile_slots_ok:
  assumes "list_all (\<lambda>n. 0 \<le> n \<and> n \<le> 100) ns"
  obtains dbs where "percentile_slots h ns = Inr dbs" "map Inr dbs = map (hist_percentileDb h) ns"
  using assms
proof (induction ns arbitrary: thesis)
  case (Cons n ns)
  have "hist_percentile h n \<noteq> Inl err" for err
    using Cons.prems(2) by (simp add: hist_percentile_def Let_def split: Pick.split)
  then obtain db where "hist_percentileDb h n = Inr db"
    by (cases "hist_percentile h n") (auto simp: hist_percentileDb_def split: prod.splits)
  moreover obtain dbs where "percentile_slots h ns = Inr dbs" "map Inr dbs = map (hist_percentileDb h) ns"
    using Cons.IH Cons.prems(2) by auto
  ultimately show ?case
    using Cons.prems(1) [of "db # dbs"] by simp
qed simp

lemma dose_slots_map:
  assumes "length ds = length slots" "set slots \<subseteq> {None}"
  shows "dose_slots f ds slots = map (\<lambda>d. if secondsTotal d > 0 then f d else None) ds"
  using assms by (induction f ds slots rule: dose_slots.induct) auto

section \<open>What a channel publishes\<close>

definition alarm_alone :: "SplConfig \<Rightarrow> real \<Rightarrow> ChainBlockAtClose list list \<Rightarrow> SplAlarmSpec \<Rightarrow> SplAlarm" where
  "alarm_alone config rate events spec =
     fst (alarm_run spec rate (cf_blockSeconds config) (cf_referenceOffsetDb config)
       (observations (fst (metric_of (cf_metrics config) spec)) events)
       (SplAlarm_new spec (snd (metric_of (cf_metrics config) spec)), SplHistory_new 1))"

lemma published_readings:
  assumes "s = fold channel_step es (SplChannelState_new config rate)"
  shows "place_readings (cs_alarmPublishOrder s) (concat (map (\<lambda>g. SplAlarms_reports (ag_alarms g)) (cs_alarmGroups s)))
           (replicate (length (concat (map (\<lambda>g. SplAlarms_reports (ag_alarms g)) (cs_alarmGroups s)))) x) =
         map (\<lambda>spec. SplAlarm_report (alarm_alone config rate (closed_blocks es) spec)) (cf_alarms config)"
proof -
  define buckets where "buckets = fill_buckets (cf_metrics config) 0 (cf_alarms config) []"
  let ?steps = "\<lambda>w. fold (alarm_step rate (cf_blockSeconds config) (cf_referenceOffsetDb config))
    (observations w (closed_blocks es))"
  let ?report = "\<lambda>ci. SplAlarm_report (alarm_alone config rate (closed_blocks es) (cf_alarms config ! ci))"
  have after: "channel_after es (SplChannelState_new config rate) s"
    using channel_after_fold assms by simp
  have new: "cs_alarmGroups (SplChannelState_new config rate) = map bucket_group buckets"
      "cs_alarmPublishOrder (SplChannelState_new config rate) = all_indices buckets"
      "cs_sampleRate (SplChannelState_new config rate) = rate"
      "cs_blockSeconds (SplChannelState_new config rate) = cf_blockSeconds config"
      "cs_referenceOffsetDb (SplChannelState_new config rate) = cf_referenceOffsetDb config"
    by (simp_all add: SplChannelState_new_def buildAlarmGroups_def buckets_def all_indices_def Let_def)
  have "concat (map (\<lambda>g. SplAlarms_reports (ag_alarms g)) (cs_alarmGroups s)) =
      concat (map (\<lambda>g. SplAlarms_reports (map (?steps (ag_weighting g)) (ag_alarms g))) (map bucket_group buckets))"
    using after new by (simp add: channel_after_def comp_def)
  also have "\<dots> = map ?report (all_indices buckets)"
    using flattened_readings [OF buildAlarmGroups_ok(1) [OF buckets_def], of ?steps]
    by (simp add: alarm_alone_def alarm_run_steps)
  finally have flat: "concat (map (\<lambda>g. SplAlarms_reports (ag_alarms g)) (cs_alarmGroups s)) = map ?report (all_indices buckets)" .
  have perm: "mset (all_indices buckets) = mset [0..<length (cf_alarms config)]"
    by (rule buildAlarmGroups_ok(2) [OF buckets_def])
  then have "length (all_indices buckets) = length (cf_alarms config)"
    by (metis diff_zero length_upt size_mset)
  moreover have "map ?report [0..<length (cf_alarms config)] =
      map (\<lambda>spec. SplAlarm_report (alarm_alone config rate (closed_blocks es) spec)) (cf_alarms config)"
    by (rule nth_equalityI) simp_all
  ultimately show ?thesis
    using place_readings_permutation [OF perm, of ?report x] after new flat by (simp add: channel_after_def)
qed

lemma alarm_alone_state:
  assumes "js = judged spec rate (cf_referenceOffsetDb config) (observations (fst (metric_of (cf_metrics config) spec)) events)"
  shows "rd_state (SplAlarm_report (alarm_alone config rate events spec)) =
     (if js = [] then AlarmFilling else if snd (last js) > spec_limitDb spec then AlarmFired else AlarmClear)"
proof -
  let ?run = "alarm_run spec rate (cf_blockSeconds config) (cf_referenceOffsetDb config)
    (observations (fst (metric_of (cf_metrics config) spec)) events)
    (SplAlarm_new spec (snd (metric_of (cf_metrics config) spec)), SplHistory_new 1)"
  have "alarm_inv spec js ?run"
    unfolding assms by (rule alarm_inv_run)
  then show ?thesis
    by (simp add: alarm_alone_def SplAlarm_report_def alarm_inv_def Let_def split_beta)
qed

text \<open>
  Property C25: a channel publishes, in configuration order, for every alarm exactly what this alarm reports when it is
  run alone on the windows of the weighting its own metric names, whatever other alarms are configured and however
  closed blocks and detector ticks interleave; an alarm that names no metric stays as it was built.  The doses are
  those of the A-weighted blocks whose calibration holds, absent while there are none, and the percentiles are those of
  all ticks; publishing fails for no configuration whose percentages lie in 0 to 100.
\<close>

theorem channel_publishes_own_readings:
  assumes "list_all (\<lambda>n. 0 \<le> n \<and> n \<le> 100) (cf_lnPercents config)" and "length (cf_dose config) = 2"
    and "s = fold channel_step es (SplChannelState_new config rate)"
    and "doses = map (\<lambda>settings. fold (dose_add rate (cf_referenceOffsetDb config)) (dose_blocks (closed_blocks es))
                   (Dose_new settings)) (cf_dose config)"
    and "hist = foldl LevelHistogram_add (LevelHistogram_new (histogramBaseDb config))
                  (map (\<lambda>raw. Fin (raw + cf_referenceOffsetDb config)) (ticked_levels es))"
  shows "\<exists>view. fillPublish s SplBlockView_default = Inr view \<and>
     vw_alarms view =
       map (\<lambda>spec. SplAlarm_report (alarm_alone config rate (closed_blocks es) spec)) (cf_alarms config) \<and>
     vw_dosePercent view = map (\<lambda>d. if secondsTotal d > 0 then Some (Dose_percent d) else None) doses \<and>
     vw_doseProjected view = map projectedPercent doses \<and>
     map Inr (vw_lnDb view) = map (hist_percentileDb hist) (cf_lnPercents config)"
proof -
  have after: "channel_after es (SplChannelState_new config rate) s"
    using channel_after_fold assms(3) by simp
  have new: "cs_dose s = doses" "cs_lnHistogram s = hist" "cs_lnPercents s = cf_lnPercents config"
    using after assms(4,5)
    by (simp_all add: channel_after_def SplChannelState_new_def buildAlarmGroups_def Let_def foldl_map)
  obtain dbs where dbs: "percentile_slots hist (cf_lnPercents config) = Inr dbs"
      "map Inr dbs = map (hist_percentileDb hist) (cf_lnPercents config)"
    using assms(1) by (rule percentile_slots_ok)
  have "length doses = 2"
    using assms(2,4) by simp
  then have doses: "dose_slots f doses [None, None] = map (\<lambda>d. if secondsTotal d > 0 then f d else None) doses" for f :: "Dose \<Rightarrow> real option"
    by (intro dose_slots_map) simp_all
  have "(if secondsTotal d > 0 then projectedPercent d else None) = projectedPercent d" for d
    by (simp add: projectedPercent_def)
  then show ?thesis
    using dbs published_readings [OF assms(3)] new
    by (simp add: fillPublish_def SplBlockView_default_def Let_def doses numeral_2_eq_2)
qed

definition two_weightings :: SplConfig where
  "two_weightings = SplConfig_default\<lparr>
     cf_metrics := [\<lparr>ms_id = ''a'', ms_weighting = WeightA, ms_detector = Fast, ms_windowBlocks = 1\<rparr>,
                    \<lparr>ms_id = ''c'', ms_weighting = WeightC, ms_detector = Fast, ms_windowBlocks = 1\<rparr>],
     cf_alarms := map (\<lambda>name. \<lparr>spec_metricId = name, spec_limitDb = 10, spec_windowBlocks = 1\<rparr>) [''c'', ''a'', ''x'', ''c'']\<rparr>"

definition closing_event :: "ChainBlockAtClose list" where
  "closing_event = [\<lparr>cc_weighting = WeightA, cc_block = quiet_block, cc_window = [quiet_block]\<rparr>,
                    \<lparr>cc_weighting = WeightC, cc_block = loud_block, cc_window = [loud_block]\<rparr>]"

lemma single_block_readings:
  "alarm_reading \<lparr>spec_metricId = name, spec_limitDb = 10, spec_windowBlocks = 1\<rparr> 1 0 [loud_block] = Some 20"
  "alarm_reading \<lparr>spec_metricId = name, spec_limitDb = 10, spec_windowBlocks = 1\<rparr> 1 0 [quiet_block] = Some 0"
  by (simp_all add: alarm_reading_def window_tail_def combineBlocks_def combine_block_def combine_start_def
      count_flags_def loud_block_def quiet_block_def Block_default_def kExcludingFlags_def hasFlag_def Let_def log_100)

theorem channel_publishes_own_readings_witness:
  "\<exists>view. fillPublish (fold channel_step [BlocksClosed closing_event, LnTicks []] (SplChannelState_new two_weightings 1))
            SplBlockView_default = Inr view \<and>
     map rd_metricId (vw_alarms view) = [''c'', ''a'', ''x'', ''c''] \<and>
     map rd_state (vw_alarms view) = [AlarmFired, AlarmClear, AlarmFilling, AlarmFired]"
proof -
  let ?es = "[BlocksClosed closing_event, LnTicks []]"
  have "list_all (\<lambda>n. 0 \<le> n \<and> n \<le> 100) (cf_lnPercents two_weightings)" "length (cf_dose two_weightings) = 2"
    by (simp_all add: two_weightings_def SplConfig_default_def)
  from channel_publishes_own_readings [OF this refl refl refl, of ?es 1] obtain view where
    view: "fillPublish (fold channel_step ?es (SplChannelState_new two_weightings 1)) SplBlockView_default = Inr view"
      "vw_alarms view = map (\<lambda>spec. SplAlarm_report (alarm_alone two_weightings 1 (closed_blocks ?es) spec)) (cf_alarms two_weightings)"
    by blast
  have ids: "rd_metricId (SplAlarm_report (alarm_alone two_weightings 1 events spec)) = spec_metricId spec" for events spec
    using alarm_inv_run [of spec] by (auto simp: alarm_alone_def SplAlarm_report_def alarm_inv_def Let_def split_beta)
  let ?spec = "\<lambda>name. \<lparr>spec_metricId = name, spec_limitDb = 10, spec_windowBlocks = 1\<rparr> :: SplAlarmSpec"
  have specs: "cf_alarms two_weightings = map ?spec [''c'', ''a'', ''x'', ''c'']"
    by (simp add: two_weightings_def)
  have obs: "observations (fst (metric_of (cf_metrics two_weightings) (?spec ''c''))) (closed_blocks ?es) = [([loud_block], 0)]"
      "observations (fst (metric_of (cf_metrics two_weightings) (?spec ''a''))) (closed_blocks ?es) = [([quiet_block], 0)]"
      "observations (fst (metric_of (cf_metrics two_weightings) (?spec ''x''))) (closed_blocks ?es) = []"
    by (simp_all add: observations_def map_filter_def metric_of_def two_weightings_def closing_event_def observe_def
        quiet_block_def Block_default_def)
  have states: "rd_state (SplAlarm_report (alarm_alone two_weightings 1 (closed_blocks ?es) (?spec ''c''))) = AlarmFired"
      "rd_state (SplAlarm_report (alarm_alone two_weightings 1 (closed_blocks ?es) (?spec ''a''))) = AlarmClear"
      "rd_state (SplAlarm_report (alarm_alone two_weightings 1 (closed_blocks ?es) (?spec ''x''))) = AlarmFilling"
    by (simp_all only: alarm_alone_state [OF refl] obs)
      (simp_all add: judged_def map_filter_def two_weightings_def SplConfig_default_def single_block_readings)
  show ?thesis
    using view(1) by (simp add: view(2) specs ids states del: fold.simps closed_blocks.simps)
qed

end
