(* ===== verification/Session_Text.thy ===== *)
theory Session_Text
  imports Prelude
begin

text \<open>
  The text layer of the session file (\<^verbatim>\<open>app/src/trace/SessionCodecDetail.h\<close> and the line splitting at
  the top of \<^verbatim>\<open>decodeIndex\<close>): escaping, one \<^verbatim>\<open>key=value\<close> line per field, decimal numbers through
  \<^verbatim>\<open>std::to_chars\<close> and \<^verbatim>\<open>std::from_chars\<close>.  The contract a number format has to meet so that a field
  survives the trip is the locale \<open>numeric_text\<close>; the integers of the code are interpreted in it, and the
  two floating-point formats of the standard library are arguments that the codec's theorems require to
  meet it.
\<close>

section \<open>Characters, escaping, lines\<close>

abbreviation newline :: char where "newline \<equiv> CHR 0x0A"
abbreviation carriage_return :: char where "carriage_return \<equiv> CHR 0x0D"
abbreviation backslash :: char where "backslash \<equiv> CHR 0x5C"

fun escape :: "string \<Rightarrow> string" where
  "escape [] = []"
| "escape (c # s) =
     (if c = backslash then backslash # backslash # escape s
      else if c = newline then backslash # CHR ''n'' # escape s
      else c # escape s)"

fun unescape :: "string \<Rightarrow> string" where
  "unescape [] = []"
| "unescape [c] = [c]"
| "unescape (c # d # s) =
     (if c = backslash then (if d = CHR ''n'' then newline else d) # unescape s
      else c # unescape (d # s))"

definition writeLine :: "string \<Rightarrow> string \<Rightarrow> string \<Rightarrow> string" where
  "writeLine out key v = out @ key @ ''='' @ escape v @ [newline]"

definition splitLine :: "string \<Rightarrow> (string \<times> string) option" where
  "splitLine line =
     (case dropWhile (\<lambda>c. c \<noteq> CHR ''='') line of
        [] \<Rightarrow> None
      | _ # v \<Rightarrow> Some (takeWhile (\<lambda>c. c \<noteq> CHR ''='') line, v))"

definition stripTrailingCr :: "string \<Rightarrow> string" where
  "stripTrailingCr line =
     (if line \<noteq> [] \<and> last line = carriage_return then butlast line else line)"

text \<open>The splitting loop of \<^verbatim>\<open>decodeIndex\<close>: \<open>text\<close> is what is left from \<^verbatim>\<open>start\<close> on.\<close>

function split_lines :: "string \<Rightarrow> string list" where
  "split_lines text =
     (case dropWhile (\<lambda>c. c \<noteq> newline) text of
        [] \<Rightarrow> [stripTrailingCr text]
      | _ # rest \<Rightarrow> stripTrailingCr (takeWhile (\<lambda>c. c \<noteq> newline) text) # split_lines rest)"
  by pat_completeness auto
termination
proof (relation "measure length")
  fix s c rest
  assume "dropWhile (\<lambda>c. c \<noteq> newline) s = c # rest"
  then have "length (c # rest) \<le> length s"
    by (metis length_dropWhile_le)
  then show "(rest, s) \<in> measure length"
    by simp
qed simp

declare split_lines.simps [simp del]

section \<open>Numbers\<close>

text \<open>
  \<^verbatim>\<open>std::to_chars\<close> on a signed integer: an optional minus sign and the decimal digits without leading
  zeros.  \<^verbatim>\<open>std::from_chars\<close>: the longest prefix of that shape, an error when there is none or when the
  value does not fit the type, and otherwise the value and where it stopped.
\<close>

fun decimal :: "nat \<Rightarrow> string" where
  "decimal n =
     (if n < 10 then [char_of (48 + n)] else decimal (n div 10) @ [char_of (48 + n mod 10)])"

declare decimal.simps [simp del]

definition to_chars_int :: "int \<Rightarrow> string" where
  "to_chars_int i = (if i < 0 then CHR ''-'' # decimal (nat (- i)) else decimal (nat i))"

definition is_digit :: "char \<Rightarrow> bool" where
  "is_digit c \<longleftrightarrow> 48 \<le> (of_char c :: nat) \<and> (of_char c :: nat) \<le> 57"

definition decimal_value :: "string \<Rightarrow> nat" where
  "decimal_value s = foldl (\<lambda>n c. 10 * n + (of_char c - 48)) 0 s"

definition from_chars_int :: "int \<Rightarrow> int \<Rightarrow> string \<Rightarrow> (int \<times> string) option" where
  "from_chars_int lo hi s =
     (let negative = (s \<noteq> [] \<and> hd s = CHR ''-'');
          body = (if negative then tl s else s);
          ds = takeWhile is_digit body;
          v = (if negative then - int (decimal_value ds) else int (decimal_value ds))
      in if ds = [] then None
         else if v < lo \<or> hi < v then None
         else Some (v, dropWhile is_digit body))"

definition is_int32 :: "int \<Rightarrow> bool" where
  "is_int32 i \<longleftrightarrow> - (2 ^ 31) \<le> i \<and> i \<le> 2 ^ 31 - 1"

definition is_int64 :: "int \<Rightarrow> bool" where
  "is_int64 i \<longleftrightarrow> - (2 ^ 63) \<le> i \<and> i \<le> 2 ^ 63 - 1"

definition from_chars_i32 :: "string \<Rightarrow> (int \<times> string) option" where
  "from_chars_i32 = from_chars_int (- (2 ^ 31)) (2 ^ 31 - 1)"

definition from_chars_i64 :: "string \<Rightarrow> (int \<times> string) option" where
  "from_chars_i64 = from_chars_int (- (2 ^ 63)) (2 ^ 63 - 1)"

text \<open>\<^verbatim>\<open>tryParse\<close>: the whole of a non-empty value has to be consumed.\<close>

definition tryParse :: "(string \<Rightarrow> ('a \<times> string) option) \<Rightarrow> string \<Rightarrow> 'a option" where
  "tryParse from_chars v =
     (if v = [] then None
      else case from_chars v of
             Some (x, rest) \<Rightarrow> (if rest = [] then Some x else None)
           | None \<Rightarrow> None)"

definition writeNumeric :: "('a \<Rightarrow> string) \<Rightarrow> string \<Rightarrow> string \<Rightarrow> 'a \<Rightarrow> string" where
  "writeNumeric to_chars out key x = writeLine out key (to_chars x)"

section \<open>Facts on the text layer\<close>

named_theorems line_simps \<open>what the reader sees of the lines the writer produced\<close>

lemma unescape_Cons: "c \<noteq> backslash \<Longrightarrow> unescape (c # s) = c # unescape s"
  by (cases s) simp_all

lemma unescape_escape [simp]: "unescape (escape s) = s"
  by (induction s) (simp_all add: unescape_Cons)

lemma escape_no_newline [simp]: "newline \<notin> set (escape s)"
  by (induction s) auto

lemma escape_eq_Nil [simp]: "escape s = [] \<longleftrightarrow> s = []"
  by (cases s) auto

lemma last_escape: "s \<noteq> [] \<Longrightarrow> last (escape s) = carriage_return \<longleftrightarrow> last s = carriage_return"
  by (induction s) auto

text \<open>The strings a line can carry: those that do not end in a carriage return.\<close>

definition no_trailing_cr :: "string \<Rightarrow> bool" where
  "no_trailing_cr s \<longleftrightarrow> s = [] \<or> last s \<noteq> carriage_return"

lemma stripTrailingCr_ident: "no_trailing_cr line \<Longrightarrow> stripTrailingCr line = line"
  by (auto simp: stripTrailingCr_def no_trailing_cr_def)

lemma stripTrailingCr_snoc [simp]: "stripTrailingCr (line @ [carriage_return]) = line"
  by (simp add: stripTrailingCr_def)

definition field_line :: "string \<Rightarrow> string \<Rightarrow> string" where
  "field_line key v = key @ ''='' @ escape v"

lemma writeLine_field_line: "writeLine out key v = out @ field_line key v @ [newline]"
  by (simp add: writeLine_def field_line_def)

lemma field_line_no_newline [line_simps]: "newline \<notin> set key \<Longrightarrow> newline \<notin> set (field_line key v)"
  by (simp add: field_line_def)

lemma field_line_not_Nil [line_simps]: "field_line key v \<noteq> []"
  by (simp add: field_line_def)

lemma field_line_strip [line_simps]:
  "no_trailing_cr v \<Longrightarrow> stripTrailingCr (field_line key v) = field_line key v"
  by (rule stripTrailingCr_ident)
     (cases "v = []", simp_all add: no_trailing_cr_def field_line_def last_escape)

lemma splitLine_field_line [line_simps]:
  "CHR ''='' \<notin> set key \<Longrightarrow> splitLine (field_line key v) = Some (key, escape v)"
  by (simp add: splitLine_def field_line_def dropWhile_append3 takeWhile_append
        dropWhile_eq_Nil_conv[THEN iffD2] split: list.splits)

lemma split_lines_Cons:
  "newline \<notin> set line \<Longrightarrow>
     split_lines (line @ newline # text) = stripTrailingCr line # split_lines text"
  by (subst split_lines.simps) (simp add: dropWhile_append takeWhile_append dropWhile_eq_Nil_conv[THEN iffD2])

lemma split_lines_last: "newline \<notin> set line \<Longrightarrow> split_lines line = [stripTrailingCr line]"
  by (subst split_lines.simps) (auto split: list.splits dest: dropWhile_eq_Cons_conv [THEN iffD1] simp: in_set_conv_decomp)

lemma split_lines_concat:
  assumes "\<forall>l \<in> set ls. newline \<notin> set l"
  shows "split_lines (concat (map (\<lambda>l. l @ [newline]) ls)) = map stripTrailingCr ls @ [[]]"
  using assms
proof (induction ls)
  case Nil
  then show ?case
    by (simp add: split_lines_last stripTrailingCr_def)
next
  case (Cons l ls)
  then show ?case
    by (simp add: split_lines_Cons)
qed

section \<open>Number formats\<close>

locale numeric_text =
  fixes to_chars :: "'a \<Rightarrow> string"
    and from_chars :: "string \<Rightarrow> ('a \<times> string) option"
    and printable :: "'a \<Rightarrow> bool"
  assumes from_to: "printable x \<Longrightarrow> from_chars (to_chars x) = Some (x, [])"
    and to_nonempty: "printable x \<Longrightarrow> to_chars x \<noteq> []"
    and to_no_cr: "printable x \<Longrightarrow> carriage_return \<notin> set (to_chars x)"
begin

lemma tryParse_to: "printable x \<Longrightarrow> tryParse from_chars (to_chars x) = Some x"
  by (simp add: tryParse_def from_to to_nonempty)

lemma to_no_trailing_cr: "printable x \<Longrightarrow> no_trailing_cr (to_chars x)"
  by (metis last_in_set no_trailing_cr_def to_no_cr)

end

lemma of_char_digit: "n < 10 \<Longrightarrow> of_char (char_of (48 + n) :: char) = (48 + n :: nat)"
  by (simp add: of_char_of)

lemma decimal_not_Nil [simp]: "decimal n \<noteq> []"
  by (subst decimal.simps) simp

lemma decimal_digits: "c \<in> set (decimal n) \<Longrightarrow> is_digit c"
proof (induction n rule: decimal.induct)
  case (1 n)
  then show ?case
    by (subst (asm) (2) decimal.simps)
       (auto simp: is_digit_def of_char_digit split: if_splits)
qed

lemma decimal_value_snoc: "decimal_value (s @ [c]) = 10 * decimal_value s + (of_char c - 48)"
  by (simp add: decimal_value_def)

lemma decimal_value_decimal [simp]: "decimal_value (decimal n) = n"
proof (induction n rule: decimal.induct)
  case (1 n)
  show ?case
  proof (cases "n < 10")
    case True
    then show ?thesis
      by (subst decimal.simps) (simp add: decimal_value_def of_char_digit)
  next
    case False
    then show ?thesis
      using 1 by (subst decimal.simps) (simp add: decimal_value_snoc of_char_digit)
  qed
qed

lemma takeWhile_decimal [simp]: "takeWhile is_digit (decimal n) = decimal n"
  by (auto simp: takeWhile_eq_all_conv dest: decimal_digits)

lemma dropWhile_decimal [simp]: "dropWhile is_digit (decimal n) = []"
  by (auto simp: dropWhile_eq_Nil_conv dest: decimal_digits)

lemma not_digit_marks: "\<not> is_digit (CHR ''-'')" "\<not> is_digit carriage_return"
  by (simp_all add: is_digit_def)

lemma hd_decimal: "hd (decimal n) \<noteq> CHR ''-''"
  using decimal_digits [of "hd (decimal n)" n] not_digit_marks by (auto dest: hd_in_set)

lemma from_to_chars_int:
  "lo \<le> i \<Longrightarrow> i \<le> hi \<Longrightarrow> from_chars_int lo hi (to_chars_int i) = Some (i, [])"
  by (auto simp: from_chars_int_def to_chars_int_def hd_decimal Let_def intro: decimal_digits)

lemma to_chars_int_plain: "to_chars_int i \<noteq> [] \<and> carriage_return \<notin> set (to_chars_int i)"
  using decimal_digits not_digit_marks by (auto simp: to_chars_int_def)

lemma escape_plain: "newline \<notin> set s \<Longrightarrow> backslash \<notin> set s \<Longrightarrow> escape s = s"
  by (induction s) auto

lemma to_chars_int_no_escape: "escape (to_chars_int i) = to_chars_int i"
proof (rule escape_plain)
  have "\<not> is_digit newline" "\<not> is_digit backslash"
    by (simp_all add: is_digit_def)
  then show "newline \<notin> set (to_chars_int i)" "backslash \<notin> set (to_chars_int i)"
    using decimal_digits by (auto simp: to_chars_int_def)
qed

interpretation i32: numeric_text to_chars_int from_chars_i32 is_int32
  by unfold_locales (simp_all add: from_to_chars_int to_chars_int_plain is_int32_def from_chars_i32_def)

interpretation i64: numeric_text to_chars_int from_chars_i64 is_int64
  by unfold_locales (simp_all add: from_to_chars_int to_chars_int_plain is_int64_def from_chars_i64_def)

end
