(* ===== verification/Session_Codec.thy ===== *)
theory Session_Codec
  imports Session_Text
begin

text \<open>
  The index of a session (\<^verbatim>\<open>app/src/trace/SessionCodec.h\<close>, \<^verbatim>\<open>SessionCodec.cpp\<close>, \<^verbatim>\<open>SessionDecode.cpp\<close>, the
  metadata of \<^verbatim>\<open>Trace.h\<close> and the pane of \<^verbatim>\<open>Workspace.h\<close>): the document, its encoder as a sequence of
  appended lines and its decoder as a pass over the lines with the section it is in.  A \<^verbatim>\<open>double\<close> and a
  \<^verbatim>\<open>float\<close> are their bit patterns here; how the standard library prints and reads them is the argument
  \<open>float_charconv\<close>.  \<open>Malformed\<close> inside the pass is \<open>None\<close>.
\<close>

section \<open>The document\<close>

text \<open>The documented behaviour of \<^verbatim>\<open>std::to_chars\<close> and \<^verbatim>\<open>std::from_chars\<close> on floating-point values.\<close>

record float_charconv =
  to_chars_double :: "64 word \<Rightarrow> string"
  from_chars_double :: "string \<Rightarrow> (64 word \<times> string) option"
  to_chars_float :: "32 word \<Rightarrow> string"
  from_chars_float :: "string \<Rightarrow> (32 word \<times> string) option"

definition is_nan64 :: "64 word \<Rightarrow> bool" where
  "is_nan64 b \<longleftrightarrow> take_bit 11 (drop_bit 52 b) = 2047 \<and> take_bit 52 b \<noteq> 0"

definition is_nan32 :: "32 word \<Rightarrow> bool" where
  "is_nan32 b \<longleftrightarrow> take_bit 8 (drop_bit 23 b) = 255 \<and> take_bit 23 b \<noteq> 0"

definition charconv_exact :: "float_charconv \<Rightarrow> bool" where
  "charconv_exact cc \<longleftrightarrow>
     numeric_text (to_chars_double cc) (from_chars_double cc) (\<lambda>x. \<not> is_nan64 x) \<and>
     numeric_text (to_chars_float cc) (from_chars_float cc) (\<lambda>x. \<not> is_nan32 x)"

datatype LevelUnit = DbFs | DbSpl

record CaptureMeta =
  m_id :: string
  m_capturedAtUnixMs :: int
  m_deviceName :: string
  m_channelRoles :: string
  m_sampleRate :: "64 word"
  m_fftSize :: int
  m_window :: string
  m_averagingType :: string
  m_averagingDepth :: int
  m_effectiveAverages :: "64 word"
  m_appliedDelaySamples :: int
  m_calibrationOffsetDb :: "32 word"
  m_calibrationUnit :: LevelUnit

definition CaptureMeta_default :: CaptureMeta where
  "CaptureMeta_default = \<lparr>m_id = [], m_capturedAtUnixMs = 0, m_deviceName = [], m_channelRoles = [],
     m_sampleRate = 0, m_fftSize = 0, m_window = [], m_averagingType = [], m_averagingDepth = 0,
     m_effectiveAverages = 0, m_appliedDelaySamples = 0, m_calibrationOffsetDb = 0,
     m_calibrationUnit = DbFs\<rparr>"

record LibraryEntry =
  e_traceId :: string
  e_name :: string
  e_group :: string
  e_shadeIndex :: int
  e_visible :: bool

definition LibraryEntry_default :: LibraryEntry where
  "LibraryEntry_default =
     \<lparr>e_traceId = [], e_name = [], e_group = [], e_shadeIndex = 0, e_visible = True\<rparr>"

text \<open>\<open>0x3F800000\<close> is the bit pattern of \<^verbatim>\<open>1.0f\<close>.\<close>

record PaneSpec =
  p_view :: string
  p_weight :: "32 word"

definition PaneSpec_default :: PaneSpec where
  "PaneSpec_default = \<lparr>p_view = ''rta'', p_weight = 0x3F800000\<rparr>"

datatype AveragingMode = Global | Pinned

record TransferFunctionSpec =
  tf_name :: string
  tf_measurementChannel :: int
  tf_referenceChannel :: int
  tf_delaySamples :: int
  tf_trimDb :: "64 word"
  tf_polarityInverted :: bool
  tf_memberOfAverage :: bool
  tf_averagingMode :: AveragingMode
  tf_fifoDepth :: int

definition TransferFunctionSpec_default :: TransferFunctionSpec where
  "TransferFunctionSpec_default = \<lparr>tf_name = [], tf_measurementChannel = -1,
     tf_referenceChannel = -1, tf_delaySamples = 0, tf_trimDb = 0, tf_polarityInverted = False,
     tf_memberOfAverage = False, tf_averagingMode = Global, tf_fifoDepth = 16\<rparr>"

datatype AverageModeName = Db | Power

record AverageSpec =
  av_mode :: AverageModeName
  av_members :: "string list"

definition AverageSpec_default :: AverageSpec where
  "AverageSpec_default = \<lparr>av_mode = Db, av_members = []\<rparr>"

record RoutingSpec =
  r_deviceName :: string
  r_inputChannelCount :: int
  r_bound :: bool

definition RoutingSpec_default :: RoutingSpec where
  "RoutingSpec_default = \<lparr>r_deviceName = [], r_inputChannelCount = 0, r_bound = False\<rparr>"

definition kSchemaVersion :: int where
  "kSchemaVersion = 3"

record SessionDocument =
  schemaVersion :: int
  captures :: "CaptureMeta list"
  entries :: "LibraryEntry list"
  panes :: "PaneSpec list"
  transferFunctions :: "TransferFunctionSpec list"
  average :: "AverageSpec option"
  routing :: "RoutingSpec option"

definition SessionDocument_default :: SessionDocument where
  "SessionDocument_default = \<lparr>schemaVersion = kSchemaVersion, captures = [], entries = [],
     panes = [], transferFunctions = [], average = None, routing = None\<rparr>"

datatype DecodeStatus = Ok | Malformed | NewerSchema

record CurrentDevice =
  cd_name :: string
  cd_inputChannelCount :: int

section \<open>The encoder\<close>

definition encode_capture :: "float_charconv \<Rightarrow> string \<Rightarrow> CaptureMeta \<Rightarrow> string" where
  "encode_capture cc out m =
     (let out = out @ ''[capture]'' @ [newline];
          out = writeLine out ''id'' (m_id m);
          out = writeNumeric to_chars_int out ''capturedAtUnixMs'' (m_capturedAtUnixMs m);
          out = writeLine out ''deviceName'' (m_deviceName m);
          out = writeLine out ''channelRoles'' (m_channelRoles m);
          out = writeNumeric (to_chars_double cc) out ''sampleRate'' (m_sampleRate m);
          out = writeNumeric to_chars_int out ''fftSize'' (m_fftSize m);
          out = writeLine out ''window'' (m_window m);
          out = writeLine out ''averagingType'' (m_averagingType m);
          out = writeNumeric to_chars_int out ''averagingDepth'' (m_averagingDepth m);
          out = writeNumeric (to_chars_double cc) out ''effectiveAverages'' (m_effectiveAverages m);
          out = writeNumeric to_chars_int out ''appliedDelaySamples'' (m_appliedDelaySamples m);
          out = writeNumeric (to_chars_float cc) out ''calibrationOffsetDb'' (m_calibrationOffsetDb m)
      in writeLine out ''calibrationUnit''
           (if m_calibrationUnit m = DbSpl then ''dbspl'' else ''dbfs''))"

definition encode_entry :: "string \<Rightarrow> LibraryEntry \<Rightarrow> string" where
  "encode_entry out e =
     (let out = out @ ''[entry]'' @ [newline];
          out = writeLine out ''traceId'' (e_traceId e);
          out = writeLine out ''name'' (e_name e);
          out = writeLine out ''group'' (e_group e);
          out = writeNumeric to_chars_int out ''shadeIndex'' (e_shadeIndex e)
      in writeLine out ''visible'' (if e_visible e then ''1'' else ''0''))"

definition encode_pane :: "float_charconv \<Rightarrow> string \<Rightarrow> PaneSpec \<Rightarrow> string" where
  "encode_pane cc out p =
     (let out = out @ ''[pane]'' @ [newline];
          out = writeLine out ''view'' (p_view p)
      in writeNumeric (to_chars_float cc) out ''weight'' (p_weight p))"

definition encode_tf :: "float_charconv \<Rightarrow> string \<Rightarrow> TransferFunctionSpec \<Rightarrow> string" where
  "encode_tf cc out tf =
     (let out = out @ ''[tf]'' @ [newline];
          out = writeLine out ''name'' (tf_name tf);
          out = writeNumeric to_chars_int out ''measurementChannel'' (tf_measurementChannel tf);
          out = writeNumeric to_chars_int out ''referenceChannel'' (tf_referenceChannel tf);
          out = writeNumeric to_chars_int out ''delaySamples'' (tf_delaySamples tf);
          out = writeNumeric (to_chars_double cc) out ''trimDb'' (tf_trimDb tf);
          out = writeLine out ''polarity'' (if tf_polarityInverted tf then ''1'' else ''0'');
          out = writeLine out ''memberOfAverage'' (if tf_memberOfAverage tf then ''1'' else ''0'');
          out = writeLine out ''averagingMode''
                  (if tf_averagingMode tf = Pinned then ''pinned'' else ''global'')
      in writeNumeric to_chars_int out ''fifoDepth'' (tf_fifoDepth tf))"

definition encode_average :: "string \<Rightarrow> AverageSpec option \<Rightarrow> string" where
  "encode_average out av =
     (case av of
        None \<Rightarrow> out
      | Some a \<Rightarrow>
          (let out = out @ ''[average]'' @ [newline];
               out = writeLine out ''mode'' (if av_mode a = Power then ''power'' else ''db'')
           in foldl (\<lambda>out member. writeLine out ''member'' member) out (av_members a)))"

definition encode_routing :: "string \<Rightarrow> RoutingSpec option \<Rightarrow> string" where
  "encode_routing out ro =
     (case ro of
        None \<Rightarrow> out
      | Some r \<Rightarrow>
          (let out = out @ ''[routing]'' @ [newline];
               out = writeLine out ''deviceName'' (r_deviceName r)
           in writeNumeric to_chars_int out ''inputChannelCount'' (r_inputChannelCount r)))"

definition encodeIndex :: "float_charconv \<Rightarrow> SessionDocument \<Rightarrow> string" where
  "encodeIndex cc doc =
     (let out = writeNumeric to_chars_int [] ''schema'' (schemaVersion doc);
          out = foldl (encode_capture cc) out (captures doc);
          out = foldl encode_entry out (entries doc);
          out = foldl (encode_pane cc) out (panes doc);
          out = foldl (encode_tf cc) out (transferFunctions doc);
          out = encode_average out (average doc)
      in encode_routing out (routing doc))"

section \<open>The decoder\<close>

definition capture_field :: "float_charconv \<Rightarrow> string \<Rightarrow> string \<Rightarrow> CaptureMeta \<Rightarrow> CaptureMeta option" where
  "capture_field cc key v m =
     (if key = ''id'' then Some (m\<lparr>m_id := v\<rparr>)
      else if key = ''capturedAtUnixMs'' then
        map_option (\<lambda>x. m\<lparr>m_capturedAtUnixMs := x\<rparr>) (tryParse from_chars_i64 v)
      else if key = ''deviceName'' then Some (m\<lparr>m_deviceName := v\<rparr>)
      else if key = ''channelRoles'' then Some (m\<lparr>m_channelRoles := v\<rparr>)
      else if key = ''sampleRate'' then
        map_option (\<lambda>x. m\<lparr>m_sampleRate := x\<rparr>) (tryParse (from_chars_double cc) v)
      else if key = ''fftSize'' then
        map_option (\<lambda>x. m\<lparr>m_fftSize := x\<rparr>) (tryParse from_chars_i32 v)
      else if key = ''window'' then Some (m\<lparr>m_window := v\<rparr>)
      else if key = ''averagingType'' then Some (m\<lparr>m_averagingType := v\<rparr>)
      else if key = ''averagingDepth'' then
        map_option (\<lambda>x. m\<lparr>m_averagingDepth := x\<rparr>) (tryParse from_chars_i32 v)
      else if key = ''effectiveAverages'' then
        map_option (\<lambda>x. m\<lparr>m_effectiveAverages := x\<rparr>) (tryParse (from_chars_double cc) v)
      else if key = ''appliedDelaySamples'' then
        map_option (\<lambda>x. m\<lparr>m_appliedDelaySamples := x\<rparr>) (tryParse from_chars_i32 v)
      else if key = ''calibrationOffsetDb'' then
        map_option (\<lambda>x. m\<lparr>m_calibrationOffsetDb := x\<rparr>) (tryParse (from_chars_float cc) v)
      else if key = ''calibrationUnit'' then
        (if v = ''dbspl'' then Some (m\<lparr>m_calibrationUnit := DbSpl\<rparr>)
         else if v = ''dbfs'' then Some (m\<lparr>m_calibrationUnit := DbFs\<rparr>)
         else None)
      else None)"

text \<open>The three flags that are written as \<^verbatim>\<open>1\<close> or \<^verbatim>\<open>0\<close> and refused with any other value.\<close>

definition flag_value :: "string \<Rightarrow> bool option" where
  "flag_value v = (if v = ''1'' then Some True else if v = ''0'' then Some False else None)"

definition entry_field :: "string \<Rightarrow> string \<Rightarrow> LibraryEntry \<Rightarrow> LibraryEntry option" where
  "entry_field key v e =
     (if key = ''traceId'' then Some (e\<lparr>e_traceId := v\<rparr>)
      else if key = ''name'' then Some (e\<lparr>e_name := v\<rparr>)
      else if key = ''group'' then Some (e\<lparr>e_group := v\<rparr>)
      else if key = ''shadeIndex'' then
        map_option (\<lambda>x. e\<lparr>e_shadeIndex := x\<rparr>) (tryParse from_chars_i32 v)
      else if key = ''visible'' then map_option (\<lambda>b. e\<lparr>e_visible := b\<rparr>) (flag_value v)
      else None)"

definition pane_field :: "float_charconv \<Rightarrow> string \<Rightarrow> string \<Rightarrow> PaneSpec \<Rightarrow> PaneSpec option" where
  "pane_field cc key v p =
     (if key = ''view'' then Some (p\<lparr>p_view := v\<rparr>)
      else if key = ''weight'' then
        map_option (\<lambda>x. p\<lparr>p_weight := x\<rparr>) (tryParse (from_chars_float cc) v)
      else None)"

definition tf_field ::
  "float_charconv \<Rightarrow> string \<Rightarrow> string \<Rightarrow> TransferFunctionSpec \<Rightarrow> TransferFunctionSpec option" where
  "tf_field cc key v tf =
     (if key = ''name'' then Some (tf\<lparr>tf_name := v\<rparr>)
      else if key = ''measurementChannel'' then
        map_option (\<lambda>x. tf\<lparr>tf_measurementChannel := x\<rparr>) (tryParse from_chars_i32 v)
      else if key = ''referenceChannel'' then
        map_option (\<lambda>x. tf\<lparr>tf_referenceChannel := x\<rparr>) (tryParse from_chars_i32 v)
      else if key = ''delaySamples'' then
        map_option (\<lambda>x. tf\<lparr>tf_delaySamples := x\<rparr>) (tryParse from_chars_i32 v)
      else if key = ''trimDb'' then
        map_option (\<lambda>x. tf\<lparr>tf_trimDb := x\<rparr>) (tryParse (from_chars_double cc) v)
      else if key = ''polarity'' then
        map_option (\<lambda>b. tf\<lparr>tf_polarityInverted := b\<rparr>) (flag_value v)
      else if key = ''memberOfAverage'' then
        map_option (\<lambda>b. tf\<lparr>tf_memberOfAverage := b\<rparr>) (flag_value v)
      else if key = ''averagingMode'' then
        (if v = ''global'' then Some (tf\<lparr>tf_averagingMode := Global\<rparr>)
         else if v = ''pinned'' then Some (tf\<lparr>tf_averagingMode := Pinned\<rparr>)
         else None)
      else if key = ''fifoDepth'' then
        map_option (\<lambda>x. tf\<lparr>tf_fifoDepth := x\<rparr>) (tryParse from_chars_i32 v)
      else None)"

definition average_field :: "string \<Rightarrow> string \<Rightarrow> AverageSpec \<Rightarrow> AverageSpec option" where
  "average_field key v a =
     (if key = ''mode'' then
        (if v = ''db'' then Some (a\<lparr>av_mode := Db\<rparr>)
         else if v = ''power'' then Some (a\<lparr>av_mode := Power\<rparr>)
         else None)
      else if key = ''member'' then Some (a\<lparr>av_members := av_members a @ [v]\<rparr>)
      else None)"

definition routing_field :: "string \<Rightarrow> string \<Rightarrow> RoutingSpec \<Rightarrow> RoutingSpec option" where
  "routing_field key v r =
     (if key = ''deviceName'' then Some (r\<lparr>r_deviceName := v\<rparr>)
      else if key = ''inputChannelCount'' then
        map_option (\<lambda>x. r\<lparr>r_inputChannelCount := x\<rparr>) (tryParse from_chars_i32 v)
      else None)"

datatype Section =
  SecNone | SecCapture | SecEntry | SecPane | SecTf | SecAverage | SecRouting

text \<open>\<^verbatim>\<open>xs.back()\<close> updated in place, \<open>None\<close> (that is, \<^verbatim>\<open>Malformed\<close>) when there is none.\<close>

definition update_back :: "('a \<Rightarrow> 'a option) \<Rightarrow> 'a list \<Rightarrow> 'a list option" where
  "update_back f xs =
     (if xs = [] then None else map_option (\<lambda>x. butlast xs @ [x]) (f (last xs)))"

definition decode_field ::
  "float_charconv \<Rightarrow> Section \<Rightarrow> string \<Rightarrow> string \<Rightarrow> SessionDocument \<Rightarrow> SessionDocument option" where
  "decode_field cc sec key v doc =
     (case sec of
        SecCapture \<Rightarrow>
          map_option (\<lambda>xs. doc\<lparr>captures := xs\<rparr>) (update_back (capture_field cc key v) (captures doc))
      | SecEntry \<Rightarrow>
          map_option (\<lambda>xs. doc\<lparr>entries := xs\<rparr>) (update_back (entry_field key v) (entries doc))
      | SecPane \<Rightarrow>
          map_option (\<lambda>xs. doc\<lparr>panes := xs\<rparr>) (update_back (pane_field cc key v) (panes doc))
      | SecTf \<Rightarrow>
          map_option (\<lambda>xs. doc\<lparr>transferFunctions := xs\<rparr>)
            (update_back (tf_field cc key v) (transferFunctions doc))
      | SecAverage \<Rightarrow>
          Option.bind (average doc)
            (\<lambda>a. map_option (\<lambda>a'. doc\<lparr>average := Some a'\<rparr>) (average_field key v a))
      | SecRouting \<Rightarrow>
          Option.bind (routing doc)
            (\<lambda>r. map_option (\<lambda>r'. doc\<lparr>routing := Some r'\<rparr>) (routing_field key v r))
      | SecNone \<Rightarrow> None)"

definition decode_line ::
  "float_charconv \<Rightarrow> string \<Rightarrow> Section \<times> SessionDocument \<Rightarrow> (Section \<times> SessionDocument) option" where
  "decode_line cc line st =
     (let (sec, doc) = st in
      if line = [] then Some (sec, doc)
      else if line = ''[capture]'' then
        Some (SecCapture, doc\<lparr>captures := captures doc @ [CaptureMeta_default]\<rparr>)
      else if line = ''[entry]'' then
        Some (SecEntry, doc\<lparr>entries := entries doc @ [LibraryEntry_default]\<rparr>)
      else if line = ''[pane]'' then
        Some (SecPane, doc\<lparr>panes := panes doc @ [PaneSpec_default]\<rparr>)
      else if line = ''[tf]'' then
        Some (SecTf, doc\<lparr>transferFunctions := transferFunctions doc @ [TransferFunctionSpec_default]\<rparr>)
      else if line = ''[average]'' then
        Some (SecAverage, doc\<lparr>average := Some AverageSpec_default\<rparr>)
      else if line = ''[routing]'' then
        Some (SecRouting, doc\<lparr>routing := Some RoutingSpec_default\<rparr>)
      else case splitLine line of
             None \<Rightarrow> None
           | Some (key, v) \<Rightarrow> map_option (\<lambda>doc'. (sec, doc')) (decode_field cc sec key (unescape v) doc))"

fun decode_lines ::
  "float_charconv \<Rightarrow> string list \<Rightarrow> Section \<times> SessionDocument \<Rightarrow> (Section \<times> SessionDocument) option" where
  "decode_lines cc [] st = Some st"
| "decode_lines cc (line # ls) st = Option.bind (decode_line cc line st) (decode_lines cc ls)"

text \<open>\<^verbatim>\<open>bound\<close> is a fact about the machine the file is opened on, recomputed at every decode.\<close>

definition bind_routing :: "CurrentDevice option \<Rightarrow> SessionDocument \<Rightarrow> SessionDocument" where
  "bind_routing dev doc =
     doc\<lparr>routing := map_option (\<lambda>r. r\<lparr>r_bound :=
        (case dev of
           None \<Rightarrow> False
         | Some d \<Rightarrow> cd_name d = r_deviceName r \<and> cd_inputChannelCount d = r_inputChannelCount r)\<rparr>)
        (routing doc)\<rparr>"

text \<open>The status and what the caller's \<open>out\<close> holds afterwards.\<close>

definition decodeIndex ::
  "float_charconv \<Rightarrow> string \<Rightarrow> CurrentDevice option \<Rightarrow> SessionDocument \<Rightarrow> DecodeStatus \<times> SessionDocument"
where
  "decodeIndex cc s dev out =
     (case split_lines s of
        [] \<Rightarrow> (Malformed, out)
      | first # rest \<Rightarrow>
          (case splitLine first of
             None \<Rightarrow> (Malformed, out)
           | Some (key, v) \<Rightarrow>
               if key \<noteq> ''schema'' then (Malformed, out)
               else case tryParse from_chars_i32 v of
                      None \<Rightarrow> (Malformed, out)
                    | Some version \<Rightarrow>
                        if version > kSchemaVersion then (NewerSchema, out)
                        else case decode_lines cc rest
                                    (SecNone, SessionDocument_default\<lparr>schemaVersion := version\<rparr>) of
                               None \<Rightarrow> (Malformed, out)
                             | Some (_, doc) \<Rightarrow> (Ok, bind_routing dev doc)))"

section \<open>What a document may hold\<close>

text \<open>
  Integer fields are in the range of their C++ type, floating-point fields are not NaN, and no text
  field ends in a carriage return (the one condition the types do not give, see
  \<open>decodeIndex_drops_cr\<close> below).
\<close>

definition CaptureMeta_ok :: "CaptureMeta \<Rightarrow> bool" where
  "CaptureMeta_ok m \<longleftrightarrow>
     no_trailing_cr (m_id m) \<and> is_int64 (m_capturedAtUnixMs m) \<and> no_trailing_cr (m_deviceName m) \<and>
     no_trailing_cr (m_channelRoles m) \<and> \<not> is_nan64 (m_sampleRate m) \<and> is_int32 (m_fftSize m) \<and>
     no_trailing_cr (m_window m) \<and> no_trailing_cr (m_averagingType m) \<and>
     is_int32 (m_averagingDepth m) \<and> \<not> is_nan64 (m_effectiveAverages m) \<and>
     is_int32 (m_appliedDelaySamples m) \<and> \<not> is_nan32 (m_calibrationOffsetDb m)"

definition LibraryEntry_ok :: "LibraryEntry \<Rightarrow> bool" where
  "LibraryEntry_ok e \<longleftrightarrow> no_trailing_cr (e_traceId e) \<and> no_trailing_cr (e_name e) \<and>
     no_trailing_cr (e_group e) \<and> is_int32 (e_shadeIndex e)"

definition PaneSpec_ok :: "PaneSpec \<Rightarrow> bool" where
  "PaneSpec_ok p \<longleftrightarrow> no_trailing_cr (p_view p) \<and> \<not> is_nan32 (p_weight p)"

definition TransferFunctionSpec_ok :: "TransferFunctionSpec \<Rightarrow> bool" where
  "TransferFunctionSpec_ok tf \<longleftrightarrow> no_trailing_cr (tf_name tf) \<and>
     is_int32 (tf_measurementChannel tf) \<and> is_int32 (tf_referenceChannel tf) \<and>
     is_int32 (tf_delaySamples tf) \<and> \<not> is_nan64 (tf_trimDb tf) \<and> is_int32 (tf_fifoDepth tf)"

definition SessionDocument_ok :: "SessionDocument \<Rightarrow> bool" where
  "SessionDocument_ok doc \<longleftrightarrow>
     is_int32 (schemaVersion doc) \<and>
     list_all CaptureMeta_ok (captures doc) \<and> list_all LibraryEntry_ok (entries doc) \<and>
     list_all PaneSpec_ok (panes doc) \<and> list_all TransferFunctionSpec_ok (transferFunctions doc) \<and>
     pred_option (\<lambda>a. list_all no_trailing_cr (av_members a)) (average doc) \<and>
     pred_option (\<lambda>r. no_trailing_cr (r_deviceName r) \<and> is_int32 (r_inputChannelCount r)) (routing doc)"

section \<open>The lines the encoder writes\<close>

definition unlines :: "string list \<Rightarrow> string" where
  "unlines ls = concat (map (\<lambda>l. l @ [newline]) ls)"

lemma unlines_simps [simp]:
  "unlines [] = []"
  "unlines (l # ls) = l @ newline # unlines ls"
  "unlines (ls @ ms) = unlines ls @ unlines ms"
  by (simp_all add: unlines_def)

definition capture_lines :: "float_charconv \<Rightarrow> CaptureMeta \<Rightarrow> string list" where
  "capture_lines cc m = ''[capture]'' # map (\<lambda>(key, v). field_line key v)
     [(''id'', m_id m), (''capturedAtUnixMs'', to_chars_int (m_capturedAtUnixMs m)),
      (''deviceName'', m_deviceName m), (''channelRoles'', m_channelRoles m),
      (''sampleRate'', to_chars_double cc (m_sampleRate m)),
      (''fftSize'', to_chars_int (m_fftSize m)), (''window'', m_window m),
      (''averagingType'', m_averagingType m), (''averagingDepth'', to_chars_int (m_averagingDepth m)),
      (''effectiveAverages'', to_chars_double cc (m_effectiveAverages m)),
      (''appliedDelaySamples'', to_chars_int (m_appliedDelaySamples m)),
      (''calibrationOffsetDb'', to_chars_float cc (m_calibrationOffsetDb m)),
      (''calibrationUnit'', if m_calibrationUnit m = DbSpl then ''dbspl'' else ''dbfs'')]"

definition entry_lines :: "LibraryEntry \<Rightarrow> string list" where
  "entry_lines e = ''[entry]'' # map (\<lambda>(key, v). field_line key v)
     [(''traceId'', e_traceId e), (''name'', e_name e), (''group'', e_group e),
      (''shadeIndex'', to_chars_int (e_shadeIndex e)), (''visible'', if e_visible e then ''1'' else ''0'')]"

definition pane_lines :: "float_charconv \<Rightarrow> PaneSpec \<Rightarrow> string list" where
  "pane_lines cc p = ''[pane]'' # map (\<lambda>(key, v). field_line key v)
     [(''view'', p_view p), (''weight'', to_chars_float cc (p_weight p))]"

definition tf_lines :: "float_charconv \<Rightarrow> TransferFunctionSpec \<Rightarrow> string list" where
  "tf_lines cc tf = ''[tf]'' # map (\<lambda>(key, v). field_line key v)
     [(''name'', tf_name tf), (''measurementChannel'', to_chars_int (tf_measurementChannel tf)),
      (''referenceChannel'', to_chars_int (tf_referenceChannel tf)),
      (''delaySamples'', to_chars_int (tf_delaySamples tf)),
      (''trimDb'', to_chars_double cc (tf_trimDb tf)),
      (''polarity'', if tf_polarityInverted tf then ''1'' else ''0''),
      (''memberOfAverage'', if tf_memberOfAverage tf then ''1'' else ''0''),
      (''averagingMode'', if tf_averagingMode tf = Pinned then ''pinned'' else ''global''),
      (''fifoDepth'', to_chars_int (tf_fifoDepth tf))]"

definition average_lines :: "AverageSpec option \<Rightarrow> string list" where
  "average_lines av =
     (case av of
        None \<Rightarrow> []
      | Some a \<Rightarrow> ''[average]'' # field_line ''mode'' (if av_mode a = Power then ''power'' else ''db'') #
                  map (field_line ''member'') (av_members a))"

definition routing_lines :: "RoutingSpec option \<Rightarrow> string list" where
  "routing_lines ro =
     (case ro of
        None \<Rightarrow> []
      | Some r \<Rightarrow> [''[routing]'', field_line ''deviceName'' (r_deviceName r),
                   field_line ''inputChannelCount'' (to_chars_int (r_inputChannelCount r))])"

definition body_lines :: "float_charconv \<Rightarrow> SessionDocument \<Rightarrow> string list" where
  "body_lines cc doc =
     concat (map (capture_lines cc) (captures doc)) @ concat (map entry_lines (entries doc)) @
     concat (map (pane_lines cc) (panes doc)) @ concat (map (tf_lines cc) (transferFunctions doc)) @
     average_lines (average doc) @ routing_lines (routing doc)"

lemma foldl_unlines:
  "(\<And>out x. f out x = out @ unlines (g x)) \<Longrightarrow>
     foldl f out xs = out @ unlines (concat (map g xs))"
  by (induction xs arbitrary: out) simp_all

lemmas write_simps = writeNumeric_def writeLine_field_line Let_def

lemma encode_capture_lines: "encode_capture cc out m = out @ unlines (capture_lines cc m)"
  by (simp add: encode_capture_def capture_lines_def write_simps)

lemma encode_entry_lines: "encode_entry out e = out @ unlines (entry_lines e)"
  by (simp add: encode_entry_def entry_lines_def write_simps)

lemma encode_pane_lines: "encode_pane cc out p = out @ unlines (pane_lines cc p)"
  by (simp add: encode_pane_def pane_lines_def write_simps)

lemma encode_tf_lines: "encode_tf cc out tf = out @ unlines (tf_lines cc tf)"
  by (simp add: encode_tf_def tf_lines_def write_simps)

lemma foldl_members:
  "foldl (\<lambda>out member. out @ field_line ''member'' member @ [newline]) out ms =
     out @ unlines (map (field_line ''member'') ms)"
  by (induction ms arbitrary: out) simp_all

lemma encode_average_lines: "encode_average out av = out @ unlines (average_lines av)"
  by (simp add: encode_average_def average_lines_def write_simps foldl_members split: option.split)

lemma encode_routing_lines: "encode_routing out ro = out @ unlines (routing_lines ro)"
  by (simp add: encode_routing_def routing_lines_def write_simps split: option.split)

lemma encodeIndex_lines:
  "encodeIndex cc doc =
     unlines (field_line ''schema'' (to_chars_int (schemaVersion doc)) # body_lines cc doc)"
  by (simp add: encodeIndex_def body_lines_def write_simps encode_average_lines encode_routing_lines
        foldl_unlines [OF encode_capture_lines] foldl_unlines [OF encode_entry_lines]
        foldl_unlines [OF encode_pane_lines] foldl_unlines [OF encode_tf_lines])

section \<open>Reading them back\<close>

lemma field_line_neq: "CHR ''='' \<notin> set line \<Longrightarrow> field_line key v \<noteq> line"
  by (auto simp: field_line_def)

lemma decode_line_field_line:
  "CHR ''='' \<notin> set key \<Longrightarrow>
     decode_line cc (field_line key v) (sec, doc) =
       map_option (\<lambda>doc'. (sec, doc')) (decode_field cc sec key v doc)"
  by (simp add: decode_line_def splitLine_field_line field_line_neq)

lemma update_back_snoc [simp]: "update_back f (xs @ [x]) = map_option (\<lambda>y. xs @ [y]) (f x)"
  by (simp add: update_back_def)

lemma decode_lines_append:
  "decode_lines cc (ls @ ms) st = Option.bind (decode_lines cc ls st) (decode_lines cc ms)"
  by (induction ls arbitrary: st) (auto split: bind_split)

lemma flag_value_simps [simp]: "flag_value ''1'' = Some True" "flag_value ''0'' = Some False"
  by (simp_all add: flag_value_def)

lemma tryParse_i32 [simp]: "is_int32 i \<Longrightarrow> tryParse from_chars_i32 (to_chars_int i) = Some i"
  by (rule i32.tryParse_to)

lemma tryParse_i64 [simp]: "is_int64 i \<Longrightarrow> tryParse from_chars_i64 (to_chars_int i) = Some i"
  by (rule i64.tryParse_to)

lemma tryParse_double:
  "charconv_exact cc \<Longrightarrow> \<not> is_nan64 x \<Longrightarrow>
     tryParse (from_chars_double cc) (to_chars_double cc x) = Some x"
  by (rule numeric_text.tryParse_to [where printable = "\<lambda>x. \<not> is_nan64 x"])
     (simp_all add: charconv_exact_def)

lemma tryParse_float:
  "charconv_exact cc \<Longrightarrow> \<not> is_nan32 x \<Longrightarrow>
     tryParse (from_chars_float cc) (to_chars_float cc x) = Some x"
  by (rule numeric_text.tryParse_to [where printable = "\<lambda>x. \<not> is_nan32 x"])
     (simp_all add: charconv_exact_def)

lemmas decode_simps = decode_line_field_line decode_field_def tryParse_double tryParse_float

lemma decode_capture_lines:
  assumes "charconv_exact cc" and "CaptureMeta_ok m"
  shows "decode_lines cc (capture_lines cc m) (sec, doc) =
           Some (SecCapture, doc\<lparr>captures := captures doc @ [m]\<rparr>)"
proof (cases m)
  case (fields i t d r s f w a n e l c u)
  show ?thesis
    using assms unfolding fields
    by (cases u)
       (simp_all add: capture_lines_def CaptureMeta_ok_def decode_simps capture_field_def
          CaptureMeta_default_def decode_line_def [of cc "''[capture]''"])
qed

lemma decode_entry_lines:
  assumes "LibraryEntry_ok e"
  shows "decode_lines cc (entry_lines e) (sec, doc) =
           Some (SecEntry, doc\<lparr>entries := entries doc @ [e]\<rparr>)"
proof (cases e)
  case (fields i n g s v)
  show ?thesis
    using assms unfolding fields
    by (simp add: entry_lines_def LibraryEntry_ok_def decode_simps entry_field_def
          LibraryEntry_default_def decode_line_def [of cc "''[entry]''"])
qed

lemma decode_pane_lines:
  assumes "charconv_exact cc" and "PaneSpec_ok p"
  shows "decode_lines cc (pane_lines cc p) (sec, doc) =
           Some (SecPane, doc\<lparr>panes := panes doc @ [p]\<rparr>)"
proof (cases p)
  case (fields v w)
  show ?thesis
    using assms unfolding fields
    by (simp add: pane_lines_def PaneSpec_ok_def decode_simps pane_field_def
          PaneSpec_default_def decode_line_def [of cc "''[pane]''"])
qed

lemma decode_tf_lines:
  assumes "charconv_exact cc" and "TransferFunctionSpec_ok tf"
  shows "decode_lines cc (tf_lines cc tf) (sec, doc) =
           Some (SecTf, doc\<lparr>transferFunctions := transferFunctions doc @ [tf]\<rparr>)"
proof (cases tf)
  case (fields n mc rc d t p mem m f)
  show ?thesis
    using assms unfolding fields
    by (cases m)
       (simp_all add: tf_lines_def TransferFunctionSpec_ok_def decode_simps tf_field_def
          TransferFunctionSpec_default_def decode_line_def [of cc "''[tf]''"])
qed

lemma decode_member_lines:
  "average doc = Some a \<Longrightarrow>
     decode_lines cc (map (field_line ''member'') ms) (SecAverage, doc) =
       Some (SecAverage, doc\<lparr>average := Some (a\<lparr>av_members := av_members a @ ms\<rparr>)\<rparr>)"
  by (induction ms arbitrary: a doc) (simp_all add: decode_simps average_field_def)

text \<open>Lines that take a document to another one, whatever section they are met in.\<close>

definition reads :: "float_charconv \<Rightarrow> string list \<Rightarrow> SessionDocument \<Rightarrow> SessionDocument \<Rightarrow> bool" where
  "reads cc ls doc doc' \<longleftrightarrow> (\<forall>sec. \<exists>sec'. decode_lines cc ls (sec, doc) = Some (sec', doc'))"

lemma reads_append [intro]:
  "reads cc ls doc doc' \<Longrightarrow> reads cc ms doc' doc'' \<Longrightarrow> reads cc (ls @ ms) doc doc''"
  unfolding reads_def decode_lines_append by (metis bind.bind_lunit)

lemma reads_each:
  assumes step: "\<And>x sec doc. P x \<Longrightarrow> decode_lines cc (lines_for x) (sec, doc) = Some (sec', upd [x] doc)"
    and upd: "\<And>doc. upd [] doc = doc" "\<And>x xs doc. upd xs (upd [x] doc) = upd (x # xs) doc"
    and "list_all P xs"
  shows "reads cc (concat (map lines_for xs)) doc (upd xs doc)"
  using assms(4)
proof (induction xs arbitrary: doc)
  case Nil
  then show ?case by (simp add: reads_def upd)
next
  case (Cons x xs)
  then have "reads cc (lines_for x) doc (upd [x] doc)"
    using step by (simp add: reads_def)
  moreover have "reads cc (concat (map lines_for xs)) (upd [x] doc) (upd xs (upd [x] doc))"
    using Cons by simp
  ultimately have "reads cc (lines_for x @ concat (map lines_for xs)) doc (upd xs (upd [x] doc))"
    by (rule reads_append)
  then show ?case
    by (simp only: upd(2) list.map concat.simps)
qed

lemma reads_captures:
  "charconv_exact cc \<Longrightarrow> list_all CaptureMeta_ok ms \<Longrightarrow>
     reads cc (concat (map (capture_lines cc) ms)) doc (doc\<lparr>captures := captures doc @ ms\<rparr>)"
  by (rule reads_each [where upd = "\<lambda>ms doc. doc\<lparr>captures := captures doc @ ms\<rparr>",
        OF decode_capture_lines]) simp_all

lemma reads_entries:
  "list_all LibraryEntry_ok es \<Longrightarrow>
     reads cc (concat (map entry_lines es)) doc (doc\<lparr>entries := entries doc @ es\<rparr>)"
  by (rule reads_each [where upd = "\<lambda>es doc. doc\<lparr>entries := entries doc @ es\<rparr>",
        OF decode_entry_lines]) simp_all

lemma reads_panes:
  "charconv_exact cc \<Longrightarrow> list_all PaneSpec_ok ps \<Longrightarrow>
     reads cc (concat (map (pane_lines cc) ps)) doc (doc\<lparr>panes := panes doc @ ps\<rparr>)"
  by (rule reads_each [where upd = "\<lambda>ps doc. doc\<lparr>panes := panes doc @ ps\<rparr>",
        OF decode_pane_lines]) simp_all

lemma reads_tfs:
  "charconv_exact cc \<Longrightarrow> list_all TransferFunctionSpec_ok ts \<Longrightarrow>
     reads cc (concat (map (tf_lines cc) ts)) doc
       (doc\<lparr>transferFunctions := transferFunctions doc @ ts\<rparr>)"
  by (rule reads_each [where upd = "\<lambda>ts doc. doc\<lparr>transferFunctions := transferFunctions doc @ ts\<rparr>",
        OF decode_tf_lines]) simp_all

lemma reads_average: "average doc = None \<Longrightarrow> reads cc (average_lines av) doc (doc\<lparr>average := av\<rparr>)"
proof (cases av)
  case None
  assume "average doc = None"
  then show ?thesis
    by (simp add: reads_def None average_lines_def)
next
  case (Some a)
  show ?thesis
    by (cases a; cases "av_mode a")
       (simp_all add: reads_def Some average_lines_def decode_simps average_field_def
          AverageSpec_default_def decode_line_def [of cc "''[average]''"] decode_member_lines)
qed

lemma reads_routing:
  assumes "pred_option (\<lambda>r. no_trailing_cr (r_deviceName r) \<and> is_int32 (r_inputChannelCount r)) ro"
    and "routing doc = None"
  shows "reads cc (routing_lines ro) doc (doc\<lparr>routing := map_option (r_bound_update (\<lambda>_. False)) ro\<rparr>)"
proof (cases ro)
  case None
  then show ?thesis
    using assms by (simp add: reads_def routing_lines_def)
next
  case (Some r)
  then show ?thesis
    using assms
    by (cases r)
       (simp add: reads_def routing_lines_def decode_simps routing_field_def RoutingSpec_default_def
          decode_line_def [of cc "''[routing]''"])
qed

lemma reads_body:
  assumes "charconv_exact cc" and "SessionDocument_ok doc"
  shows "reads cc (body_lines cc doc) (SessionDocument_default\<lparr>schemaVersion := schemaVersion doc\<rparr>)
           (doc\<lparr>routing := map_option (r_bound_update (\<lambda>_. False)) (routing doc)\<rparr>)"
proof (cases doc)
  case (fields v ms es ps ts a r)
  let ?d0 = "SessionDocument_default\<lparr>schemaVersion := v\<rparr>"
  let ?d4 = "?d0\<lparr>captures := ms, entries := es, panes := ps, transferFunctions := ts\<rparr>"
  have ok: "list_all CaptureMeta_ok ms" "list_all LibraryEntry_ok es" "list_all PaneSpec_ok ps"
    "list_all TransferFunctionSpec_ok ts"
    "pred_option (\<lambda>r. no_trailing_cr (r_deviceName r) \<and> is_int32 (r_inputChannelCount r)) r"
    using assms by (simp_all add: SessionDocument_ok_def fields)
  have "reads cc (concat (map (capture_lines cc) ms)) ?d0 (?d0\<lparr>captures := ms\<rparr>)"
    using reads_captures [OF assms(1) ok(1), of ?d0] by (simp add: SessionDocument_default_def)
  moreover have "reads cc (concat (map entry_lines es)) (?d0\<lparr>captures := ms\<rparr>)
      (?d0\<lparr>captures := ms, entries := es\<rparr>)"
    using reads_entries [OF ok(2), of cc "?d0\<lparr>captures := ms\<rparr>"]
    by (simp add: SessionDocument_default_def)
  moreover have "reads cc (concat (map (pane_lines cc) ps)) (?d0\<lparr>captures := ms, entries := es\<rparr>)
      (?d0\<lparr>captures := ms, entries := es, panes := ps\<rparr>)"
    using reads_panes [OF assms(1) ok(3), of "?d0\<lparr>captures := ms, entries := es\<rparr>"]
    by (simp add: SessionDocument_default_def)
  moreover have "reads cc (concat (map (tf_lines cc) ts))
      (?d0\<lparr>captures := ms, entries := es, panes := ps\<rparr>) ?d4"
    using reads_tfs [OF assms(1) ok(4), of "?d0\<lparr>captures := ms, entries := es, panes := ps\<rparr>"]
    by (simp add: SessionDocument_default_def)
  moreover have "reads cc (average_lines a) ?d4 (?d4\<lparr>average := a\<rparr>)"
    by (rule reads_average) (simp add: SessionDocument_default_def)
  moreover have "reads cc (routing_lines r) (?d4\<lparr>average := a\<rparr>)
      (?d4\<lparr>average := a, routing := map_option (r_bound_update (\<lambda>_. False)) r\<rparr>)"
    using reads_routing [OF ok(5), of "?d4\<lparr>average := a\<rparr>" cc] by (simp add: SessionDocument_default_def)
  ultimately have "reads cc (body_lines cc doc) ?d0
      (?d4\<lparr>average := a, routing := map_option (r_bound_update (\<lambda>_. False)) r\<rparr>)"
    unfolding body_lines_def fields SessionDocument.select_convs by (intro reads_append)
  then show ?thesis
    by (simp add: fields SessionDocument_default_def)
qed

section \<open>The lines survive the file\<close>

definition line_ok :: "string \<Rightarrow> bool" where
  "line_ok l \<longleftrightarrow> newline \<notin> set l \<and> stripTrailingCr l = l"

lemma line_ok_field [simp]: "newline \<notin> set key \<Longrightarrow> no_trailing_cr v \<Longrightarrow> line_ok (field_line key v)"
  by (simp add: line_ok_def line_simps)

lemma no_trailing_cr_int [simp]: "no_trailing_cr (to_chars_int i)"
  using to_chars_int_plain [of i] by (metis last_in_set no_trailing_cr_def)

lemma no_trailing_cr_double:
  "charconv_exact cc \<Longrightarrow> \<not> is_nan64 x \<Longrightarrow> no_trailing_cr (to_chars_double cc x)"
  by (rule numeric_text.to_no_trailing_cr
        [where printable = "\<lambda>x. \<not> is_nan64 x" and from_chars = "from_chars_double cc"])
     (simp_all add: charconv_exact_def)

lemma no_trailing_cr_float:
  "charconv_exact cc \<Longrightarrow> \<not> is_nan32 x \<Longrightarrow> no_trailing_cr (to_chars_float cc x)"
  by (rule numeric_text.to_no_trailing_cr
        [where printable = "\<lambda>x. \<not> is_nan32 x" and from_chars = "from_chars_float cc"])
     (simp_all add: charconv_exact_def)

lemma no_trailing_cr_words [simp]:
  "no_trailing_cr ''1''" "no_trailing_cr ''0''" "no_trailing_cr ''dbspl''" "no_trailing_cr ''dbfs''"
  "no_trailing_cr ''pinned''" "no_trailing_cr ''global''" "no_trailing_cr ''power''" "no_trailing_cr ''db''"
  by (simp_all add: no_trailing_cr_def)

lemma line_ok_markers [simp]:
  "line_ok ''[capture]''" "line_ok ''[entry]''" "line_ok ''[pane]''" "line_ok ''[tf]''"
  "line_ok ''[average]''" "line_ok ''[routing]''"
  by (simp_all add: line_ok_def stripTrailingCr_def)

lemma list_all_concat_map: "list_all P (concat (map f xs)) \<longleftrightarrow> list_all (\<lambda>x. list_all P (f x)) xs"
  by (induction xs) simp_all

lemma section_lines_ok:
  assumes "charconv_exact cc"
  shows "CaptureMeta_ok m \<Longrightarrow> list_all line_ok (capture_lines cc m)"
    and "LibraryEntry_ok e \<Longrightarrow> list_all line_ok (entry_lines e)"
    and "PaneSpec_ok p \<Longrightarrow> list_all line_ok (pane_lines cc p)"
    and "TransferFunctionSpec_ok tf \<Longrightarrow> list_all line_ok (tf_lines cc tf)"
  using assms
  by (simp_all add: capture_lines_def CaptureMeta_ok_def entry_lines_def LibraryEntry_ok_def
        pane_lines_def PaneSpec_ok_def tf_lines_def TransferFunctionSpec_ok_def
        no_trailing_cr_double no_trailing_cr_float)

lemma average_lines_ok:
  "pred_option (\<lambda>a. list_all no_trailing_cr (av_members a)) av \<Longrightarrow> list_all line_ok (average_lines av)"
  by (cases av) (simp_all add: average_lines_def list.pred_map comp_def list.pred_mono_strong)

lemma routing_lines_ok:
  "pred_option (\<lambda>r. no_trailing_cr (r_deviceName r) \<and> is_int32 (r_inputChannelCount r)) ro \<Longrightarrow>
     list_all line_ok (routing_lines ro)"
  by (cases ro) (simp_all add: routing_lines_def)

lemma body_lines_ok:
  assumes "charconv_exact cc" and "SessionDocument_ok doc"
  shows "list_all line_ok (body_lines cc doc)"
  using assms(2) section_lines_ok [OF assms(1)] average_lines_ok routing_lines_ok
  unfolding body_lines_def SessionDocument_ok_def list_all_append list_all_concat_map
  by (blast intro: list.pred_mono_strong)

lemma split_lines_unlines: "list_all line_ok ls \<Longrightarrow> split_lines (unlines ls) = ls @ [[]]"
  unfolding unlines_def
  by (subst split_lines_concat) (auto simp: line_ok_def list_all_iff map_idI)

lemma decode_line_blank [simp]: "decode_line cc [] st = Some st"
  by (cases st) (simp add: decode_line_def)

lemma bind_routing_forgets:
  "bind_routing dev (doc\<lparr>routing := map_option (r_bound_update (\<lambda>_. b)) (routing doc)\<rparr>) =
     bind_routing dev doc"
  by (cases "routing doc"; cases dev) (simp_all add: bind_routing_def)

text \<open>How \<open>decodeIndex\<close> reads a file whose first line states the schema.\<close>

lemma decodeIndex_schema_line:
  assumes "split_lines s = field_line ''schema'' (to_chars_int v) # rest" and "is_int32 v"
  shows "decodeIndex cc s dev out =
           (if kSchemaVersion < v then (NewerSchema, out)
            else case decode_lines cc rest (SecNone, SessionDocument_default\<lparr>schemaVersion := v\<rparr>) of
                   None \<Rightarrow> (Malformed, out)
                 | Some (_, doc) \<Rightarrow> (Ok, bind_routing dev doc))"
proof -
  have "escape (to_chars_int v) = to_chars_int v"
    using to_chars_int_no_escape by simp
  then show ?thesis
    using assms by (simp add: decodeIndex_def splitLine_field_line)
qed

lemma decode_encode_index:
  assumes "charconv_exact cc" and "SessionDocument_ok doc" and "schemaVersion doc \<le> kSchemaVersion"
  shows "decodeIndex cc (encodeIndex cc doc) dev out = (Ok, bind_routing dev doc)"
proof -
  have v: "is_int32 (schemaVersion doc)"
    using assms(2) by (simp add: SessionDocument_ok_def)
  have "split_lines (encodeIndex cc doc) =
      field_line ''schema'' (to_chars_int (schemaVersion doc)) # body_lines cc doc @ [[]]"
    using body_lines_ok [OF assms(1,2)] by (subst encodeIndex_lines, subst split_lines_unlines) simp_all
  moreover obtain sec where "decode_lines cc (body_lines cc doc)
      (SecNone, SessionDocument_default\<lparr>schemaVersion := schemaVersion doc\<rparr>) =
      Some (sec, doc\<lparr>routing := map_option (r_bound_update (\<lambda>_. False)) (routing doc)\<rparr>)"
    using reads_body [OF assms(1,2)] unfolding reads_def by blast
  ultimately show ?thesis
    using assms(3) v
    by (simp add: decodeIndex_schema_line decode_lines_append bind_routing_forgets)
qed

section \<open>Properties\<close>

text \<open>
  Property C16: A session index round-trips.  Decoding what \<open>encodeIndex\<close> wrote gives status Ok and the
  very same document, every capture, entry, pane, transfer function, average member and routing field
  of it, with \<^verbatim>\<open>bound\<close> alone recomputed against the device that is open now.  It takes the documented
  exactness of the standard library's floating-point formats, fields in the range of their types and no
  text field ending in a carriage return.
\<close>

theorem decodeIndex_encodeIndex:
  assumes "charconv_exact cc" and "SessionDocument_ok doc" and "schemaVersion doc \<le> kSchemaVersion"
  shows "decodeIndex cc (encodeIndex cc doc) dev out = (Ok, bind_routing dev doc)"
  using assms by (rule decode_encode_index)

text \<open>
  A pair of formats that meets the law: bit patterns printed as decimal numbers.  A document with
  something in every section, an equals sign, a newline and a backslash in its texts.
\<close>

definition word_chars :: "'a::len word \<Rightarrow> string" where
  "word_chars w = decimal (unat w)"

definition word_from_chars :: "nat \<Rightarrow> string \<Rightarrow> ('a::len word \<times> string) option" where
  "word_from_chars n s =
     map_option (\<lambda>(i, rest). (word_of_int i, rest)) (from_chars_int 0 (2 ^ n - 1) s)"

definition sample_charconv :: float_charconv where
  "sample_charconv = \<lparr>to_chars_double = word_chars, from_chars_double = word_from_chars 64,
     to_chars_float = word_chars, from_chars_float = word_from_chars 32\<rparr>"

definition sample_document :: SessionDocument where
  "sample_document = \<lparr>schemaVersion = 3,
     captures = [CaptureMeta_default\<lparr>m_id := ''capture-0'', m_capturedAtUnixMs := 1787000000000,
        m_channelRoles := ''ch0=reference,ch1=measurement'', m_fftSize := 4096,
        m_calibrationUnit := DbSpl\<rparr>],
     entries = [LibraryEntry_default\<lparr>e_traceId := ''capture-0'',
        e_name := [CHR ''a'', newline, backslash, CHR ''='']\<rparr>],
     panes = [PaneSpec_default],
     transferFunctions = [TransferFunctionSpec_default\<lparr>tf_name := ''left'', tf_delaySamples := -7,
        tf_averagingMode := Pinned\<rparr>],
     average = Some \<lparr>av_mode = Power, av_members = [''left'', ''left'']\<rparr>,
     routing = Some \<lparr>r_deviceName = ''usb'', r_inputChannelCount = 2, r_bound = False\<rparr>\<rparr>"

lemma word_text:
  assumes "n = LENGTH('a::len)"
  shows "numeric_text (word_chars :: 'a word \<Rightarrow> string) (word_from_chars n) P"
proof
  fix x :: "'a word"
  have "int (unat x) \<le> 2 ^ n - 1"
    using unsigned_less [of x, where ?'a = int] assms by simp
  then have "from_chars_int 0 (2 ^ n - 1) (to_chars_int (int (unat x))) = Some (int (unat x), [])"
    by (intro from_to_chars_int) simp_all
  then show "word_from_chars n (word_chars x) = Some (x, [])"
    by (simp add: word_from_chars_def word_chars_def to_chars_int_def)
  show "word_chars x \<noteq> []" and "carriage_return \<notin> set (word_chars x)"
    using to_chars_int_plain [of "int (unat x)"] by (simp_all add: word_chars_def to_chars_int_def)
qed

lemma sample_charconv_exact: "charconv_exact sample_charconv"
  by (simp add: charconv_exact_def sample_charconv_def word_text)

lemma sample_document_ok: "SessionDocument_ok sample_document"
  by (simp add: sample_document_def SessionDocument_ok_def CaptureMeta_ok_def LibraryEntry_ok_def
        PaneSpec_ok_def TransferFunctionSpec_ok_def is_int32_def is_int64_def is_nan64_def is_nan32_def
        no_trailing_cr_def CaptureMeta_default_def LibraryEntry_default_def PaneSpec_default_def
        TransferFunctionSpec_default_def)

theorem decodeIndex_encodeIndex_witness:
  "charconv_exact sample_charconv \<and> SessionDocument_ok sample_document \<and>
   decodeIndex sample_charconv (encodeIndex sample_charconv sample_document)
     (Some \<lparr>cd_name = ''usb'', cd_inputChannelCount = 2\<rparr>) SessionDocument_default =
   (Ok, sample_document\<lparr>routing := Some \<lparr>r_deviceName = ''usb'', r_inputChannelCount = 2, r_bound = True\<rparr>\<rparr>)"
  using decodeIndex_encodeIndex [OF sample_charconv_exact sample_document_ok,
      of "Some \<lparr>cd_name = ''usb'', cd_inputChannelCount = 2\<rparr>" SessionDocument_default]
    sample_charconv_exact sample_document_ok
  by (simp add: bind_routing_def sample_document_def kSchemaVersion_def)

text \<open>
  A file of a newer schema is refused before any of its content is interpreted: whatever
  follows the first line, well formed or not, the status is NewerSchema and the caller's document is
  left as it was.
\<close>

theorem decodeIndex_newer_schema:
  assumes "kSchemaVersion < v" and "v \<le> 2 ^ 31 - 1"
  shows "decodeIndex cc (''schema='' @ to_chars_int v @ newline # body) dev out = (NewerSchema, out)"
proof -
  have v: "is_int32 v"
    using assms by (simp add: is_int32_def kSchemaVersion_def)
  have line: "''schema='' @ to_chars_int v @ newline # body =
      field_line ''schema'' (to_chars_int v) @ newline # body"
    by (simp add: field_line_def to_chars_int_no_escape)
  have "line_ok (field_line ''schema'' (to_chars_int v))"
    by simp
  then have "split_lines (''schema='' @ to_chars_int v @ newline # body) =
      field_line ''schema'' (to_chars_int v) # split_lines body"
    unfolding line by (subst split_lines_Cons) (simp_all add: line_ok_def)
  from decodeIndex_schema_line [OF this v] show ?thesis
    using assms by simp
qed

theorem decodeIndex_newer_schema_witness:
  "kSchemaVersion < 4 \<and>
   decodeIndex sample_charconv (''schema='' @ to_chars_int 4 @ newline # ''[future]'') None sample_document =
     (NewerSchema, sample_document)"
  using decodeIndex_newer_schema [of 4 sample_charconv "''[future]''" None sample_document]
  by (simp add: kSchemaVersion_def)

text \<open>The file as a Windows tool may leave it: every newline preceded by a carriage return.\<close>

definition to_crlf :: "string \<Rightarrow> string" where
  "to_crlf s = concat (map (\<lambda>c. if c = newline then [carriage_return, newline] else [c]) s)"

lemma to_crlf_append [simp]: "to_crlf (s @ t) = to_crlf s @ to_crlf t"
  by (simp add: to_crlf_def)

lemma to_crlf_plain: "newline \<notin> set s \<Longrightarrow> to_crlf s = s"
  by (induction s) (auto simp: to_crlf_def)

lemma split_lines_crlf: "carriage_return \<notin> set s \<Longrightarrow> split_lines (to_crlf s) = split_lines s"
proof (induction s rule: length_induct)
  case (1 s)
  show ?case
  proof (cases "newline \<in> set s")
    case False
    then show ?thesis
      by (simp add: to_crlf_plain)
  next
    case True
    then obtain line rest where s: "s = line @ newline # rest" and line: "newline \<notin> set line"
      by (meson split_list_first)
    have "to_crlf s = (line @ [carriage_return]) @ newline # to_crlf rest"
      using line by (simp add: s to_crlf_plain) (simp add: to_crlf_def)
    moreover have "stripTrailingCr line = line"
      using 1 by (intro stripTrailingCr_ident) (auto simp: s no_trailing_cr_def dest: last_in_set)
    moreover have "split_lines (to_crlf rest) = split_lines rest"
      using 1 by (simp add: s)
    moreover have "split_lines ((line @ [carriage_return]) @ newline # to_crlf rest) =
        line # split_lines (to_crlf rest)"
      using line by (subst split_lines_Cons) simp_all
    moreover have "split_lines s = stripTrailingCr line # split_lines rest"
      unfolding s using line by (rule split_lines_Cons)
    ultimately show ?thesis
      by simp
  qed
qed

text \<open>
  A session that crossed a Windows/Unix boundary decodes to the same result: for a file
  without carriage returns, turning every line end into a carriage return and a newline changes
  neither the status nor the document.
\<close>

theorem decodeIndex_crlf:
  assumes "carriage_return \<notin> set s"
  shows "decodeIndex cc (to_crlf s) dev out = decodeIndex cc s dev out"
  by (simp add: decodeIndex_def split_lines_crlf [OF assms])

theorem decodeIndex_crlf_witness:
  "decodeIndex sample_charconv (to_crlf (''schema=1'' @ [newline] @ ''[pane]'' @ [newline])) None SessionDocument_default =
   decodeIndex sample_charconv (''schema=1'' @ [newline] @ ''[pane]'' @ [newline]) None SessionDocument_default"
  by (rule decodeIndex_crlf) simp

text \<open>
  The condition on carriage returns is needed: the writer does not escape them and the reader strips
  one at the end of a line, so a name that ends in one comes back without it.
\<close>

lemma decodeIndex_drops_cr:
  "split_lines (writeLine [] ''name'' (s @ [carriage_return])) = [field_line ''name'' s, []]"
proof -
  have "escape (s @ [carriage_return]) = escape s @ [carriage_return]"
    by (induction s) auto
  then show ?thesis
    using split_lines_Cons [of "field_line ''name'' s @ [carriage_return]" "[]"]
    by (simp add: writeLine_def field_line_def split_lines_last stripTrailingCr_def)
qed

end
