(* ===== verification/Spl_Log.thy ===== *)
theory Spl_Log
  imports Session_Codec Frequency_Weighting
begin

text \<open>
  The text of a sound level log (\<^verbatim>\<open>app/src/export/SplLog.h\<close>, \<^verbatim>\<open>SplSessionHeader.h\<close>): header lines, one row per
  block, and the tolerant reader.  As in the session codec a floating-point value is its bit pattern and the
  standard library's formats are an argument; the floating-point arithmetic behind the one derived column is an
  argument too.  The theory proves that every intact row is read back bit for bit, and that a file cut off at any
  byte still gives every row that is whole and says how many bytes are not.
\<close>

section \<open>Rows and headers\<close>

text \<open>A block as the log sees it (\<^verbatim>\<open>rta::meter::Block\<close> with its floating-point members as bit patterns).\<close>

record LogBlock =
  lb_blockIndex :: uint64_t
  lb_blockSamples :: uint32_t
  lb_droppedSamples :: uint32_t
  lb_sumSquares :: "64 word"
  lb_maxFastDb :: "32 word"
  lb_maxSlowDb :: "32 word"
  lb_peakDb :: "32 word"
  lb_flags :: uint32_t

text \<open>The arithmetic on \<^verbatim>\<open>double\<close> that the derived columns use.\<close>

record double_arith =
  da_of_u32 :: "uint32_t \<Rightarrow> 64 word"
  da_add :: "64 word \<Rightarrow> 64 word \<Rightarrow> 64 word"
  da_mul :: "64 word \<Rightarrow> 64 word \<Rightarrow> 64 word"
  da_div :: "64 word \<Rightarrow> 64 word \<Rightarrow> 64 word"
  da_log10 :: "64 word \<Rightarrow> 64 word"

definition double_10 :: "64 word" where "double_10 = 0x4024000000000000"
definition double_minus_120 :: "64 word" where "double_minus_120 = 0xC05E000000000000"
definition double_minus_200 :: "64 word" where "double_minus_200 = 0xC069000000000000"

text \<open>What the log reads of the configuration.\<close>

record SplLogConfig =
  lc_referenceOffsetDb :: "64 word"
  lc_calibrated :: bool
  lc_segmentBlocks :: uint64_t

record SplLogHeaderInfo =
  hi_weighting :: WeightingType
  hi_detector :: TimeWeighting
  hi_blockSamples :: uint32_t
  hi_sampleRate :: "64 word"
  hi_startedAtUnixMs :: uint64_t
  hi_calibratorLevelDb :: "64 word option"

definition to_chars_word :: "'a::len word \<Rightarrow> string" where
  "to_chars_word w = decimal (unat w)"

text \<open>\<^verbatim>\<open>std::from_chars\<close> on an unsigned type knows no sign.\<close>

definition from_chars_word :: "string \<Rightarrow> ('a::len word \<times> string) option" where
  "from_chars_word s =
     (let ds = takeWhile is_digit s
      in if ds = [] then None
         else if decimal_value ds \<ge> 2 ^ LENGTH('a) then None
         else Some (word_of_nat (decimal_value ds), dropWhile is_digit s))"

definition hash_line :: "string \<Rightarrow> string \<Rightarrow> string \<Rightarrow> string" where
  "hash_line out key v = writeLine (out @ ''# '') key v"

definition logHeader :: "float_charconv \<Rightarrow> double_arith \<Rightarrow> SplLogConfig \<Rightarrow> SplLogHeaderInfo \<Rightarrow> string" where
  "logHeader cc ar config info =
     (let out = hash_line [] ''schema'' (to_chars_word (1 :: uint64_t));
          out = hash_line out ''startedAtUnixMs'' (to_chars_word (hi_startedAtUnixMs info));
          out = hash_line out ''sampleRate'' (to_chars_double cc (hi_sampleRate info));
          out = hash_line out ''blockSamples'' (to_chars_word (hi_blockSamples info));
          out = hash_line out ''weighting'' (weightingType_toString (hi_weighting info));
          out = hash_line out ''detector'' (weighting_toString (hi_detector info));
          out = hash_line out ''calibrationOffsetDb'' (to_chars_double cc (lc_referenceOffsetDb config));
          out = hash_line out ''calibrationUnit'' (if lc_calibrated config then ''dbspl'' else ''dbfs'');
          out = (case hi_calibratorLevelDb info of
                   None \<Rightarrow> out
                 | Some level \<Rightarrow> hash_line out ''calibratorLevelDb'' (to_chars_double cc level))
      in hash_line out ''histogramBaseDb''
           (to_chars_double cc (da_add ar double_minus_120 (lc_referenceOffsetDb config))))"

definition csvHeaderRow :: string where
  "csvHeaderRow = ''blockIndex,blockSamples,droppedSamples,sumSquares,leqDb,maxFastDb,maxSlowDb,peakCDb,flags''"

definition row_leqDb :: "double_arith \<Rightarrow> 64 word \<Rightarrow> LogBlock \<Rightarrow> 64 word" where
  "row_leqDb ar offset b =
     (if lb_blockSamples b > 0 then
        da_add ar (da_mul ar double_10 (da_log10 ar (da_div ar (lb_sumSquares b) (da_of_u32 ar (lb_blockSamples b))))) offset
      else double_minus_200)"

definition row_fields :: "float_charconv \<Rightarrow> double_arith \<Rightarrow> 64 word \<Rightarrow> LogBlock \<Rightarrow> string list" where
  "row_fields cc ar offset b =
     [to_chars_word (lb_blockIndex b), to_chars_word (lb_blockSamples b), to_chars_word (lb_droppedSamples b),
      to_chars_double cc (lb_sumSquares b), to_chars_double cc (row_leqDb ar offset b),
      to_chars_float cc (lb_maxFastDb b), to_chars_float cc (lb_maxSlowDb b), to_chars_float cc (lb_peakDb b),
      to_chars_word (lb_flags b)]"

fun join_commas :: "string list \<Rightarrow> string" where
  "join_commas [] = []"
| "join_commas [f] = f"
| "join_commas (f # fs) = f @ CHR '','' # join_commas fs"

definition logRow :: "float_charconv \<Rightarrow> double_arith \<Rightarrow> 64 word \<Rightarrow> LogBlock \<Rightarrow> string" where
  "logRow cc ar offset b = join_commas (row_fields cc ar offset b) @ [newline]"

section \<open>Reading\<close>

record LogReadResult =
  lr_blocks :: "LogBlock list"
  lr_bytesDiscarded :: nat

fun split_commas :: "string \<Rightarrow> string list" where
  "split_commas [] = [[]]"
| "split_commas (c # s) =
     (if c = CHR '','' then [] # split_commas s
      else (case split_commas s of [] \<Rightarrow> [[c]] | f # fs \<Rightarrow> (c # f) # fs))"

definition parseRow :: "float_charconv \<Rightarrow> string \<Rightarrow> LogBlock option" where
  "parseRow cc line =
     (case split_commas (stripTrailingCr line) of
        [f0, f1, f2, f3, f4, f5, f6, f7, f8] \<Rightarrow>
          (case tryParse from_chars_word f0 of None \<Rightarrow> None | Some i \<Rightarrow>
           case tryParse from_chars_word f1 of None \<Rightarrow> None | Some n \<Rightarrow>
           case tryParse from_chars_word f2 of None \<Rightarrow> None | Some d \<Rightarrow>
           case tryParse (from_chars_double cc) f3 of None \<Rightarrow> None | Some e \<Rightarrow>
           case tryParse (from_chars_double cc) f4 of None \<Rightarrow> None | Some leqDbUnused \<Rightarrow>
           case tryParse (from_chars_float cc) f5 of None \<Rightarrow> None | Some fast \<Rightarrow>
           case tryParse (from_chars_float cc) f6 of None \<Rightarrow> None | Some slow \<Rightarrow>
           case tryParse (from_chars_float cc) f7 of None \<Rightarrow> None | Some peak \<Rightarrow>
           case tryParse from_chars_word f8 of None \<Rightarrow> None | Some flags \<Rightarrow>
           Some \<lparr>lb_blockIndex = i, lb_blockSamples = n, lb_droppedSamples = d, lb_sumSquares = e,
                 lb_maxFastDb = fast, lb_maxSlowDb = slow, lb_peakDb = peak, lb_flags = flags\<rparr>)
      | _ \<Rightarrow> None)"

definition read_line :: "float_charconv \<Rightarrow> string \<Rightarrow> LogReadResult \<Rightarrow> LogReadResult" where
  "read_line cc line result =
     (let content = stripTrailingCr line
      in if take 2 content = ''# '' \<or> content = csvHeaderRow then result
         else case parseRow cc line of
                Some b \<Rightarrow> result\<lparr>lr_blocks := lr_blocks result @ [b]\<rparr>
              | None \<Rightarrow> result\<lparr>lr_bytesDiscarded := lr_bytesDiscarded result + (length line + 1)\<rparr>)"

function read_body_lines :: "float_charconv \<Rightarrow> string \<Rightarrow> LogReadResult \<Rightarrow> LogReadResult" where
  "read_body_lines cc body result =
     (if body = [] then result
      else case dropWhile (\<lambda>c. c \<noteq> newline) body of
             [] \<Rightarrow> result\<lparr>lr_bytesDiscarded := lr_bytesDiscarded result + length body\<rparr>
           | _ # rest \<Rightarrow> read_body_lines cc rest (read_line cc (takeWhile (\<lambda>c. c \<noteq> newline) body) result))"
  by pat_completeness auto
termination
proof (relation "measure (length \<circ> fst \<circ> snd)")
  fix cc :: float_charconv and body c rest and result :: LogReadResult
  assume "dropWhile (\<lambda>c. c \<noteq> newline) body = c # rest"
  then have "length (c # rest) \<le> length body"
    by (metis length_dropWhile_le)
  then show "((cc, rest, read_line cc (takeWhile (\<lambda>c. c \<noteq> newline) body) result), cc, body, result) \<in>
      measure (length \<circ> fst \<circ> snd)"
    by simp
qed simp

declare read_body_lines.simps [simp del]

definition readLog :: "float_charconv \<Rightarrow> string \<Rightarrow> LogReadResult" where
  "readLog cc csvBody = read_body_lines cc csvBody \<lparr>lr_blocks = [], lr_bytesDiscarded = 0\<rparr>"

section \<open>The same row as JSON, and the session header\<close>

definition json_field :: "string \<Rightarrow> string \<Rightarrow> string" where
  "json_field key v = [CHR 0x22] @ key @ [CHR 0x22] @ '':'' @ v"

definition logJson :: "float_charconv \<Rightarrow> double_arith \<Rightarrow> 64 word \<Rightarrow> LogBlock \<Rightarrow> string" where
  "logJson cc ar offset b =
     ''{'' @ join_commas (map2 json_field (split_commas csvHeaderRow) (row_fields cc ar offset b)) @ ''}''"

definition reconstructedElapsedUnixMs :: "uint64_t \<Rightarrow> real \<Rightarrow> uint64_t \<Rightarrow> uint64_t" where
  "reconstructedElapsedUnixMs started rate elapsedSamples =
     (if \<not> rate > 0 then started
      else (let elapsedMs = real (unat elapsedSamples) / rate * 1000 in started + word_of_int \<lfloor>elapsedMs + 0.5\<rfloor>))"

record SplSessionHeaderInfo =
  sh_startedAtUnixMs :: uint64_t
  sh_sampleRate :: "64 word"
  sh_blockSamples :: uint32_t
  sh_channelFiles :: "string list"

definition sessionHeader :: "float_charconv \<Rightarrow> SplSessionHeaderInfo \<Rightarrow> string" where
  "sessionHeader cc info =
     (let out = hash_line [] ''schema'' (to_chars_word (1 :: uint64_t));
          out = hash_line out ''startedAtUnixMs'' (to_chars_word (sh_startedAtUnixMs info));
          out = hash_line out ''sampleRate'' (to_chars_double cc (sh_sampleRate info));
          out = hash_line out ''blockSamples'' (to_chars_word (sh_blockSamples info));
          out = hash_line out ''channelCount'' (decimal (length (sh_channelFiles info)))
      in foldl (\<lambda>out (i, file). hash_line out (''channelFile'' @ decimal i) file) out
           (List.enumerate 0 (sh_channelFiles info)))"


section \<open>Rows come back\<close>

lemma from_to_chars_word: "from_chars_word (to_chars_word w) = Some (w :: 'a::len word, [])"
proof -
  have "\<not> 2 ^ LENGTH('a) \<le> unat w"
    unfolding not_le by (rule unsigned_less)
  then show ?thesis
    by (simp add: from_chars_word_def to_chars_word_def Let_def)
qed

lemma to_chars_word_digits: "c \<in> set (to_chars_word w) \<Longrightarrow> is_digit c"
  by (simp add: to_chars_word_def decimal_digits)

lemma to_chars_word_text: "numeric_text (to_chars_word :: 'a::len word \<Rightarrow> string) from_chars_word (\<lambda>_. True)"
proof
  fix x :: "'a word"
  show "from_chars_word (to_chars_word x) = Some (x, [])"
    by (rule from_to_chars_word)
  show "to_chars_word x \<noteq> []"
    by (simp add: to_chars_word_def)
  show "carriage_return \<notin> set (to_chars_word x)"
    using to_chars_word_digits not_digit_marks(2) by blast
qed

interpretation u64: numeric_text "to_chars_word :: uint64_t \<Rightarrow> string" from_chars_word "\<lambda>_. True"
  by (rule to_chars_word_text)

interpretation u32: numeric_text "to_chars_word :: uint32_t \<Rightarrow> string" from_chars_word "\<lambda>_. True"
  by (rule to_chars_word_text)

text \<open>
  The documented behaviour of the floating-point formats: exact on every value that is not a NaN, and the text is
  made of digits, signs, the point, the exponent mark and the letters of \<open>inf\<close> and \<open>nan\<close>.
\<close>

definition plain_text :: "string \<Rightarrow> bool" where
  "plain_text s \<longleftrightarrow> CHR '','' \<notin> set s \<and> newline \<notin> set s"

definition row_format :: "float_charconv \<Rightarrow> bool" where
  "row_format cc \<longleftrightarrow> charconv_exact cc \<and> (\<forall>x. plain_text (to_chars_double cc x)) \<and> (\<forall>x. plain_text (to_chars_float cc x))"

definition LogBlock_ok :: "double_arith \<Rightarrow> 64 word \<Rightarrow> LogBlock \<Rightarrow> bool" where
  "LogBlock_ok ar offset b \<longleftrightarrow>
     \<not> is_nan64 (lb_sumSquares b) \<and> \<not> is_nan64 (row_leqDb ar offset b) \<and>
     \<not> is_nan32 (lb_maxFastDb b) \<and> \<not> is_nan32 (lb_maxSlowDb b) \<and> \<not> is_nan32 (lb_peakDb b)"

lemma split_commas_plain: "CHR '','' \<notin> set f \<Longrightarrow> split_commas f = [f]"
  by (induction f) auto

lemma split_commas_Cons: "CHR '','' \<notin> set f \<Longrightarrow> split_commas (f @ CHR '','' # s) = f # split_commas s"
  by (induction f) auto

lemma split_join_commas: "fs \<noteq> [] \<Longrightarrow> \<forall>f \<in> set fs. CHR '','' \<notin> set f \<Longrightarrow> split_commas (join_commas fs) = fs"
  by (induction fs rule: join_commas.induct) (simp_all add: split_commas_plain split_commas_Cons)

lemma newline_join_commas: "\<forall>f \<in> set fs. newline \<notin> set f \<Longrightarrow> newline \<notin> set (join_commas fs)"
  by (induction fs rule: join_commas.induct) simp_all

lemma to_chars_word_plain: "plain_text (to_chars_word w)"
proof -
  have "\<not> is_digit CHR '',''" "\<not> is_digit newline"
    by (simp_all add: is_digit_def)
  then show ?thesis
    using to_chars_word_digits unfolding plain_text_def by blast
qed

lemma row_fields_plain: "row_format cc \<Longrightarrow> \<forall>f \<in> set (row_fields cc ar offset b). plain_text f"
  by (simp add: row_fields_def row_format_def to_chars_word_plain)

definition row_text :: "float_charconv \<Rightarrow> double_arith \<Rightarrow> 64 word \<Rightarrow> LogBlock \<Rightarrow> string" where
  "row_text cc ar offset b = join_commas (row_fields cc ar offset b)"

lemma row_text_shape:
  obtains s where "row_text cc ar offset b = to_chars_word (lb_blockIndex b) @ CHR '','' # s"
    "row_text cc ar offset b = butlast (row_text cc ar offset b) @ [last (to_chars_word (lb_flags b))]"
proof -
  have "row_text cc ar offset b \<noteq> []"
    by (simp add: row_text_def row_fields_def)
  moreover have "last (row_text cc ar offset b) = last (to_chars_word (lb_flags b))"
    by (simp add: row_text_def row_fields_def to_chars_word_def)
  ultimately have "row_text cc ar offset b = butlast (row_text cc ar offset b) @ [last (to_chars_word (lb_flags b))]"
    by (metis append_butlast_last_id)
  with that show ?thesis
    by (simp add: row_text_def row_fields_def)
qed

lemma row_text_cr [simp]: "stripTrailingCr (row_text cc ar offset b) = row_text cc ar offset b"
proof (rule stripTrailingCr_ident)
  have "is_digit (last (to_chars_word (lb_flags b)))"
    using to_chars_word_digits [OF last_in_set] by (simp add: to_chars_word_def)
  then show "no_trailing_cr (row_text cc ar offset b)"
    using row_text_shape [of cc ar offset b] not_digit_marks by (metis last_snoc no_trailing_cr_def)
qed

lemma row_not_header: "take 2 (row_text cc ar offset b) \<noteq> ''# ''" "row_text cc ar offset b \<noteq> csvHeaderRow"
proof -
  obtain s where s: "row_text cc ar offset b = to_chars_word (lb_blockIndex b) @ CHR '','' # s"
    by (rule row_text_shape)
  have "is_digit (hd (to_chars_word (lb_blockIndex b)))"
    using to_chars_word_digits [OF hd_in_set] by (simp add: to_chars_word_def)
  then have "is_digit (hd (row_text cc ar offset b))"
    using s by (simp add: to_chars_word_def hd_append)
  then have "hd (row_text cc ar offset b) \<noteq> CHR ''#''" "hd (row_text cc ar offset b) \<noteq> CHR ''b''"
    by (auto simp: is_digit_def)
  then show "take 2 (row_text cc ar offset b) \<noteq> ''# ''" "row_text cc ar offset b \<noteq> csvHeaderRow"
    by (cases "row_text cc ar offset b"; auto simp: csvHeaderRow_def numeral_2_eq_2)+
qed

lemma parseRow_fields:
  assumes "row_format cc" "LogBlock_ok ar offset b" "stripTrailingCr line = row_text cc ar offset b"
  shows "parseRow cc line = Some b"
proof -
  have "split_commas (stripTrailingCr line) = row_fields cc ar offset b"
    unfolding assms(3) row_text_def
    using row_fields_plain [OF assms(1), of ar offset b] by (intro split_join_commas) (auto simp: row_fields_def plain_text_def)
  moreover have "charconv_exact cc"
    using assms(1) by (simp add: row_format_def)
  ultimately show ?thesis
    using assms(2)
    by (simp add: parseRow_def row_fields_def LogBlock_ok_def tryParse_double tryParse_float u64.tryParse_to u32.tryParse_to)
qed

section \<open>A file cut off at any byte\<close>

definition newlines :: "string \<Rightarrow> nat" where
  "newlines s = length (filter (\<lambda>c. c = newline) s)"

definition unfinished :: "string \<Rightarrow> nat" where
  "unfinished s = length (takeWhile (\<lambda>c. c \<noteq> newline) (rev s))"

text \<open>A text as its lines; \<open>eol\<close> is a newline, after a carriage return where the platform's text mode adds one.\<close>

definition file_of :: "string \<Rightarrow> string list \<Rightarrow> string" where
  "file_of cr ls = concat (map (\<lambda>l. l @ cr @ [newline]) ls)"

lemma file_of_simps [simp]:
  "file_of cr [] = []" "file_of cr (l # ls) = l @ cr @ newline # file_of cr ls"
  "file_of cr (ls @ ls') = file_of cr ls @ file_of cr ls'"
  by (simp_all add: file_of_def)

lemma read_body_line:
  "newline \<notin> set l \<Longrightarrow> read_body_lines cc (l @ newline # rest) r = read_body_lines cc rest (read_line cc l r)"
  by (subst read_body_lines.simps) (simp add: dropWhile_append takeWhile_append dropWhile_eq_Nil_conv [THEN iffD2])

lemma read_body_rest:
  assumes "newline \<notin> set rest"
  shows "read_body_lines cc rest r = r\<lparr>lr_bytesDiscarded := lr_bytesDiscarded r + length rest\<rparr>"
proof -
  have "dropWhile (\<lambda>c. c \<noteq> newline) rest = []"
    using assms by (auto simp: dropWhile_eq_Nil_conv)
  then show ?thesis
    by (subst read_body_lines.simps) (simp del: dropWhile_eq_Nil_conv)
qed

lemma read_body_file:
  assumes "list_all (\<lambda>l. newline \<notin> set l) ls" "newline \<notin> set cr" "newline \<notin> set rest"
  shows "read_body_lines cc (file_of cr ls @ rest) r =
    (let r' = fold (\<lambda>l. read_line cc (l @ cr)) ls r in r'\<lparr>lr_bytesDiscarded := lr_bytesDiscarded r' + length rest\<rparr>)"
  using assms(1)
proof (induction ls arbitrary: r)
  case Nil
  then show ?case
    using read_body_rest [OF assms(3)] by simp
next
  case (Cons l ls)
  then show ?case
    using read_body_line [of "l @ cr" cc "file_of cr ls @ rest" r] assms(2) by simp
qed

text \<open>Wherever a file is cut there are whole lines and the start of one more.\<close>

lemma take_file_of:
  assumes "list_all (\<lambda>l. newline \<notin> set l) ls" "newline \<notin> set cr"
  obtains m rest where "take k (file_of cr ls) = file_of cr (take m ls) @ rest" "newline \<notin> set rest" "m \<le> length ls"
  using assms(1)
proof (induction ls arbitrary: k thesis)
  case Nil
  then show ?case
    by force
next
  case (Cons l ls)
  show ?case
  proof (cases "k \<le> length (l @ cr)")
    case True
    have "take k (file_of cr (l # ls)) = file_of cr (take 0 (l # ls)) @ take k (l @ cr)"
      using True by (simp flip: append_assoc)
    moreover have "newline \<notin> set (take k (l @ cr))"
      using Cons.prems(2) assms(2) by (auto dest: in_set_takeD)
    ultimately show ?thesis
      using Cons.prems(1) [of 0] by simp
  next
    case False
    obtain m rest where m: "take (k - length (l @ cr @ [newline])) (file_of cr ls) = file_of cr (take m ls) @ rest"
        "newline \<notin> set rest" "m \<le> length ls"
      using Cons.IH Cons.prems(2) by auto
    have "take k (file_of cr (l # ls)) = file_of cr (take (Suc m) (l # ls)) @ rest"
      using False m(1) take_append [of k "l @ cr @ [newline]" "file_of cr ls"] by simp
    then show ?thesis
      using Cons.prems(1) [of "Suc m"] m by simp
  qed
qed

lemma newlines_file:
  assumes "list_all (\<lambda>l. newline \<notin> set l) ls" "newline \<notin> set cr" "newline \<notin> set rest"
  shows "newlines (file_of cr ls @ rest) = length ls" "unfinished (file_of cr ls @ rest) = length rest"
proof -
  have none: "newline \<notin> set s \<Longrightarrow> filter (\<lambda>c. c = newline) s = []" for s
    by (auto simp: filter_empty_conv)
  show "newlines (file_of cr ls @ rest) = length ls"
    using assms by (induction ls) (simp_all add: newlines_def none)
  have all: "takeWhile (\<lambda>c. c \<noteq> newline) (rev rest @ s) = rev rest @ takeWhile (\<lambda>c. c \<noteq> newline) s" for s
    using assms(3) by (intro takeWhile_append2) auto
  then have "takeWhile (\<lambda>c. c \<noteq> newline) (rev rest) = rev rest"
    by (metis append_Nil2 takeWhile.simps(1))
  then show "unfinished (file_of cr ls @ rest) = length rest"
    by (cases ls rule: rev_cases) (simp_all add: unfinished_def all del: takeWhile_eq_all_conv)
qed

section \<open>The log file\<close>

definition header_lines :: "float_charconv \<Rightarrow> double_arith \<Rightarrow> SplLogConfig \<Rightarrow> SplLogHeaderInfo \<Rightarrow> string list" where
  "header_lines cc ar config info =
     map (\<lambda>(key, v). ''# '' @ field_line key v)
       ([(''schema'', to_chars_word (1 :: uint64_t)), (''startedAtUnixMs'', to_chars_word (hi_startedAtUnixMs info)),
         (''sampleRate'', to_chars_double cc (hi_sampleRate info)), (''blockSamples'', to_chars_word (hi_blockSamples info)),
         (''weighting'', weightingType_toString (hi_weighting info)), (''detector'', weighting_toString (hi_detector info)),
         (''calibrationOffsetDb'', to_chars_double cc (lc_referenceOffsetDb config)),
         (''calibrationUnit'', if lc_calibrated config then ''dbspl'' else ''dbfs'')] @
        (case hi_calibratorLevelDb info of None \<Rightarrow> [] | Some level \<Rightarrow> [(''calibratorLevelDb'', to_chars_double cc level)]) @
        [(''histogramBaseDb'', to_chars_double cc (da_add ar double_minus_120 (lc_referenceOffsetDb config)))])"

lemma logHeader_lines: "logHeader cc ar config info = file_of [] (header_lines cc ar config info)"
  by (simp add: logHeader_def hash_line_def writeLine_field_line header_lines_def Let_def split: option.split)

lemma header_lines_ok:
  "list_all (\<lambda>l. newline \<notin> set l \<and> (\<exists>c s. l = ''# '' @ c # s)) (header_lines cc ar config info)"
  by (auto simp: header_lines_def field_line_def split: option.split)

lemma read_header_line:
  assumes "l = ''# '' @ c # s" "set cr \<subseteq> {carriage_return}" "length cr \<le> 1"
  shows "read_line cc (l @ cr) r = r"
proof -
  have "stripTrailingCr (l @ cr) = l @ butlast cr \<or> stripTrailingCr (l @ cr) = l @ cr \<or> stripTrailingCr (l @ cr) = butlast l"
    using assms(3) by (cases cr) (auto simp: stripTrailingCr_def)
  then have "take 2 (stripTrailingCr (l @ cr)) = ''# ''"
    using assms(1) by auto
  then show ?thesis
    by (simp add: read_line_def)
qed

lemma strip_cr:
  assumes "cr = [] \<or> cr = [carriage_return]" "stripTrailingCr l = l"
  shows "stripTrailingCr (l @ cr) = l"
  using assms by auto

lemma read_column_line:
  assumes "cr = [] \<or> cr = [carriage_return]"
  shows "read_line cc (csvHeaderRow @ cr) r = r"
  using strip_cr [OF assms, of csvHeaderRow] by (simp add: read_line_def stripTrailingCr_def csvHeaderRow_def)

lemma read_rows:
  assumes "row_format cc" "list_all (LogBlock_ok ar offset) bs" "cr = [] \<or> cr = [carriage_return]"
  shows "fold (\<lambda>l. read_line cc (l @ cr)) (map (row_text cc ar offset) bs) r = r\<lparr>lr_blocks := lr_blocks r @ bs\<rparr>"
  using assms(2)
proof (induction bs arbitrary: r)
  case (Cons b bs)
  have line: "stripTrailingCr (row_text cc ar offset b @ cr) = row_text cc ar offset b"
    by (rule strip_cr [OF assms(3)]) simp
  then have "parseRow cc (row_text cc ar offset b @ cr) = Some b"
    using parseRow_fields [OF assms(1) _ line] Cons.prems by simp
  then have "read_line cc (row_text cc ar offset b @ cr) r = r\<lparr>lr_blocks := lr_blocks r @ [b]\<rparr>"
    using line row_not_header by (simp add: read_line_def)
  then show ?case
    using Cons by simp
qed simp

definition log_text :: "float_charconv \<Rightarrow> double_arith \<Rightarrow> SplLogConfig \<Rightarrow> SplLogHeaderInfo \<Rightarrow> LogBlock list \<Rightarrow> string" where
  "log_text cc ar config info bs =
     logHeader cc ar config info @ csvHeaderRow @ [newline] @ concat (map (logRow cc ar (lc_referenceOffsetDb config)) bs)"

definition log_lines :: "float_charconv \<Rightarrow> double_arith \<Rightarrow> SplLogConfig \<Rightarrow> SplLogHeaderInfo \<Rightarrow> LogBlock list \<Rightarrow> string list" where
  "log_lines cc ar config info bs =
     (header_lines cc ar config info @ [csvHeaderRow]) @ map (row_text cc ar (lc_referenceOffsetDb config)) bs"

lemma log_text_lines: "log_text cc ar config info bs = file_of [] (log_lines cc ar config info bs)"
proof -
  have "concat (map (logRow cc ar offset) bs) = file_of [] (map (row_text cc ar offset) bs)" for offset
    by (induction bs) (simp_all add: logRow_def row_text_def)
  then show ?thesis
    by (simp add: log_text_def log_lines_def logHeader_lines)
qed

lemma log_lines_ok: "row_format cc \<Longrightarrow> list_all (\<lambda>l. newline \<notin> set l) (log_lines cc ar config info bs)"
  using header_lines_ok [of cc ar config info] row_fields_plain [of cc ar "lc_referenceOffsetDb config"]
    newline_join_commas [of "row_fields cc ar (lc_referenceOffsetDb config) b" for b]
  by (auto simp: log_lines_def list_all_iff row_text_def plain_text_def csvHeaderRow_def)

lemma crlf_file:
  assumes "list_all (\<lambda>l. newline \<notin> set l) ls"
  shows "to_crlf (file_of [] ls) = file_of [carriage_return] ls"
proof -
  have line: "to_crlf (newline # s) = carriage_return # newline # to_crlf s" for s
    by (simp add: to_crlf_def)
  show ?thesis
    using assms
  proof (induction ls)
    case (Cons l ls)
    then show ?case
      using to_crlf_plain [of l] by (simp add: line)
  qed (simp add: to_crlf_def)
qed

lemma read_some_lines:
  assumes "row_format cc" "list_all (LogBlock_ok ar (lc_referenceOffsetDb config)) bs" "cr = [] \<or> cr = [carriage_return]"
    and "h = length (header_lines cc ar config info) + 1"
  shows "fold (\<lambda>l. read_line cc (l @ cr)) (take m (log_lines cc ar config info bs)) r = r\<lparr>lr_blocks := lr_blocks r @ take (m - h) bs\<rparr>"
proof -
  have "fold (\<lambda>l. read_line cc (l @ cr)) ls r = r"
    if "set ls \<subseteq> set (header_lines cc ar config info @ [csvHeaderRow])" for ls r
    using that
  proof (induction ls arbitrary: r)
    case (Cons l ls)
    have "read_line cc (l @ cr) r = r"
    proof (cases "l = csvHeaderRow")
      case False
      then have "l \<in> set (header_lines cc ar config info)"
        using Cons.prems by simp
      then obtain c s where "l = ''# '' @ c # s"
        using header_lines_ok [of cc ar config info] by (auto simp: list_all_iff)
      then show ?thesis
        using assms(3) by (intro read_header_line) auto
    qed (use read_column_line assms(3) in simp)
    then show ?case
      using Cons by simp
  qed simp
  from this [of "take m (header_lines cc ar config info @ [csvHeaderRow])"]
  have head: "fold (\<lambda>l. read_line cc (l @ cr)) (take m (header_lines cc ar config info @ [csvHeaderRow])) r = r" for r
    using set_take_subset [of m "header_lines cc ar config info @ [csvHeaderRow]"] by blast
  have "take m (log_lines cc ar config info bs) =
      take m (header_lines cc ar config info @ [csvHeaderRow]) @
      map (row_text cc ar (lc_referenceOffsetDb config)) (take (m - h) bs)"
    by (simp add: log_lines_def assms(4) take_map del: append_assoc)
  moreover have "list_all (LogBlock_ok ar (lc_referenceOffsetDb config)) (take (m - h) bs)"
    using assms(2) by (auto simp: list_all_iff dest: in_set_takeD)
  ultimately show ?thesis
    using head read_rows [OF assms(1) _ assms(3)] by simp
qed

lemma readLog_cut:
  assumes "row_format cc" "list_all (LogBlock_ok ar (lc_referenceOffsetDb config)) bs"
    and "csv = (if crlf then to_crlf else id) (log_text cc ar config info bs)"
    and "head = newlines (log_text cc ar config info [])"
  shows "readLog cc (take k csv) =
           \<lparr>lr_blocks = take (newlines (take k csv) - head) bs, lr_bytesDiscarded = unfinished (take k csv)\<rparr>"
    and "newlines csv = head + length bs" "unfinished csv = 0"
proof -
  define cr where "cr = (if crlf then [carriage_return] else [])"
  let ?ls = "log_lines cc ar config info"
  have lines: "list_all (\<lambda>l. newline \<notin> set l) (?ls bs)" "list_all (\<lambda>l. newline \<notin> set l) (?ls [])"
    using log_lines_ok [OF assms(1)] by blast+
  have cr: "cr = [] \<or> cr = [carriage_return]" "newline \<notin> set cr"
    by (simp_all add: cr_def)
  have csv: "csv = file_of cr (?ls bs)"
    using assms(3) crlf_file [OF lines(1)] by (simp add: log_text_lines cr_def)
  have head: "head = length (header_lines cc ar config info) + 1"
    using newlines_file(1) [OF lines(2), of "[]" "[]"] assms(4) by (simp add: log_text_lines log_lines_def)
  show "newlines csv = head + length bs" "unfinished csv = 0"
    using newlines_file [OF lines(1) cr(2), of "[]"] csv head by (simp_all add: log_lines_def)
  obtain m rest where m: "take k csv = file_of cr (take m (?ls bs)) @ rest" "newline \<notin> set rest" "m \<le> length (?ls bs)"
    using take_file_of [OF lines(1) cr(2), of k] csv by blast
  have some: "list_all (\<lambda>l. newline \<notin> set l) (take m (?ls bs))"
    using lines(1) by (auto simp: list_all_iff dest: in_set_takeD)
  show "readLog cc (take k csv) =
           \<lparr>lr_blocks = take (newlines (take k csv) - head) bs, lr_bytesDiscarded = unfinished (take k csv)\<rparr>"
    using read_body_file [OF some cr(2) m(2), of cc] read_some_lines [OF assms(1,2) cr(1) head, of m]
      newlines_file [OF some cr(2) m(2)] m(3)
    by (simp add: readLog_def m(1))
qed

lemma readLog_whole:
  assumes "row_format cc" "list_all (LogBlock_ok ar (lc_referenceOffsetDb config)) bs"
    and "csv = (if crlf then to_crlf else id) (log_text cc ar config info bs)"
  shows "readLog cc csv = \<lparr>lr_blocks = bs, lr_bytesDiscarded = 0\<rparr>"
  using readLog_cut(1) [OF assms refl, of "length csv"] readLog_cut(2,3) [OF assms refl] by simp

text \<open>
  Property C8: a log file that was cut off at any byte, written with either kind of line end, still gives every row
  whose line is complete, each block bit for bit and in order, and reports exactly the bytes after the last line end
  as discarded; a whole file gives all blocks and discards nothing, its header included.
\<close>

theorem readLog_cut_file:
  assumes "row_format cc" and "list_all (LogBlock_ok ar (lc_referenceOffsetDb config)) bs"
    and "csv = (if crlf then to_crlf else id) (log_text cc ar config info bs)"
    and "head = newlines (log_text cc ar config info [])"
  shows "readLog cc (take k csv) =
           \<lparr>lr_blocks = take (newlines (take k csv) - head) bs, lr_bytesDiscarded = unfinished (take k csv)\<rparr> \<and>
         newlines csv = head + length bs \<and> readLog cc csv = \<lparr>lr_blocks = bs, lr_bytesDiscarded = 0\<rparr>"
  using readLog_cut [OF assms] readLog_whole [OF assms(1-3)] by blast

definition sample_arith :: double_arith where
  "sample_arith = \<lparr>da_of_u32 = (\<lambda>n. ucast n), da_add = (\<lambda>x y. x + y), da_mul = (\<lambda>x y. x), da_div = (\<lambda>x y. x),
     da_log10 = (\<lambda>x. x)\<rparr>"

definition sample_row :: LogBlock where
  "sample_row = \<lparr>lb_blockIndex = 7, lb_blockSamples = 48000, lb_droppedSamples = 0, lb_sumSquares = 0x4090000000000000,
     lb_maxFastDb = 0xC2480000, lb_maxSlowDb = 0xC2480000, lb_peakDb = 0xC2000000, lb_flags = 4\<rparr>"

lemma word_chars_plain: "plain_text (word_chars w)"
  using to_chars_word_plain [of w] by (simp add: to_chars_word_def word_chars_def)

lemma sample_row_format: "row_format sample_charconv"
  by (simp add: row_format_def sample_charconv_exact) (simp add: sample_charconv_def word_chars_plain)

definition sample_log_config :: SplLogConfig where
  "sample_log_config = \<lparr>lc_referenceOffsetDb = 0, lc_calibrated = False, lc_segmentBlocks = 3600\<rparr>"

definition sample_log_info :: SplLogHeaderInfo where
  "sample_log_info = \<lparr>hi_weighting = WeightA, hi_detector = Fast, hi_blockSamples = 48000,
     hi_sampleRate = 0x40E7700000000000, hi_startedAtUnixMs = 1787000000000, hi_calibratorLevelDb = None\<rparr>"

lemma sample_row_ok: "LogBlock_ok sample_arith 0 sample_row"
  by (simp add: LogBlock_ok_def sample_row_def sample_arith_def row_leqDb_def double_10_def is_nan64_def is_nan32_def)

theorem readLog_cut_file_witness:
  "readLog sample_charconv (to_crlf (log_text sample_charconv sample_arith sample_log_config sample_log_info [sample_row])) =
     \<lparr>lr_blocks = [sample_row], lr_bytesDiscarded = 0\<rparr> \<and>
   readLog sample_charconv (take 5 (to_crlf (log_text sample_charconv sample_arith sample_log_config sample_log_info [sample_row]))) =
     \<lparr>lr_blocks = [], lr_bytesDiscarded = 5\<rparr>"
proof -
  let ?text = "log_text sample_charconv sample_arith sample_log_config sample_log_info [sample_row]"
  have "list_all (LogBlock_ok sample_arith (lc_referenceOffsetDb sample_log_config)) [sample_row]"
    using sample_row_ok by (simp add: sample_log_config_def)
  note read = readLog_cut_file [OF sample_row_format this refl refl, where crlf = True and info = sample_log_info and k = 5]
  have "take 5 (to_crlf ?text) = ''# sch''"
    by (simp add: log_text_def logHeader_def hash_line_def writeLine_def to_crlf_def Let_def sample_log_info_def
        sample_log_config_def)
  then have "newlines (take 5 (to_crlf ?text)) = 0" "unfinished (take 5 (to_crlf ?text)) = 5"
    by (simp_all add: newlines_def unfinished_def)
  with read show ?thesis
    by simp
qed

end
