(* ===== verification/Spl_Log_Writer.thy ===== *)
theory Spl_Log_Writer
  imports Spl_Log "HOL-Library.Sublist"
begin

text \<open>
  The log on disk (\<^verbatim>\<open>app/src/export/SplLogWriter.cpp\<close>): segments of a bounded number of blocks, a new generation when
  the weighting changes, nothing ever deleted.  Opening a file and writing to it have outcomes of their own, which are
  arguments: whether the file opens, and how many bytes reach it.  A stream that has failed writes nothing more until
  it is opened again.  The theory proves that whatever the outcomes are no file holds anything but a beginning of its
  segment, and that the failure flag is down only when every block is on disk.
\<close>

section \<open>The writer\<close>

type_synonym disk = "string \<Rightarrow> string option"

record SplLogWriter =
  lw_basePath :: string
  lw_config :: SplLogConfig
  lw_info :: SplLogHeaderInfo
  lw_segmentBlocks :: uint64_t
  lw_segmentIndex :: uint64_t
  lw_logGeneration :: uint64_t
  lw_blocksInSegment :: uint64_t
  lw_stream :: "string option"
  lw_streamGood :: bool
  lw_segmentPaths :: "string list"
  lw_writeFailed :: bool

text \<open>The platform: number formats, arithmetic, and whether text mode writes a carriage return before each newline.\<close>

record platform =
  pf_charconv :: float_charconv
  pf_arith :: double_arith
  pf_crlf :: bool

definition text_mode :: "platform \<Rightarrow> string \<Rightarrow> string" where
  "text_mode pf s = (if pf_crlf pf then to_crlf s else s)"

text \<open>Inserting text and flushing: \<open>n\<close> bytes reach the file.\<close>

definition stream_put :: "platform \<Rightarrow> nat \<Rightarrow> string \<Rightarrow> SplLogWriter \<times> disk \<Rightarrow> SplLogWriter \<times> disk" where
  "stream_put pf n s wd =
     (let (w, d) = wd; bytes = text_mode pf s
      in case lw_stream w of
           None \<Rightarrow> (w\<lparr>lw_streamGood := False\<rparr>, d)
         | Some p \<Rightarrow>
             (if \<not> lw_streamGood w then (w, d)
              else (w\<lparr>lw_streamGood := (length bytes \<le> n)\<rparr>,
                    d(p \<mapsto> (case d p of None \<Rightarrow> [] | Some old \<Rightarrow> old) @ take n bytes))))"

definition segment_path :: "string \<Rightarrow> nat \<Rightarrow> nat \<Rightarrow> string" where
  "segment_path base generation index = base @ ''.gen'' @ decimal generation @ ''.seg'' @ decimal index @ ''.csv''"

definition openSegment :: "platform \<Rightarrow> bool \<times> nat \<Rightarrow> SplLogWriter \<times> disk \<Rightarrow> SplLogWriter \<times> disk" where
  "openSegment pf opens_n wd =
     (let (opens, n) = opens_n; (w, d) = wd;
          path = segment_path (lw_basePath w) (unat (lw_logGeneration w)) (unat (lw_segmentIndex w));
          (w, d) = (if opens then (w\<lparr>lw_stream := Some path, lw_streamGood := True\<rparr>, d(path \<mapsto> []))
                    else (w\<lparr>lw_stream := None, lw_streamGood := False\<rparr>, d));
          w = (if lw_stream w = None then w\<lparr>lw_writeFailed := True\<rparr> else w);
          (w, d) = stream_put pf n (logHeader (pf_charconv pf) (pf_arith pf) (lw_config w) (lw_info w) @
                                    csvHeaderRow @ [newline]) (w, d)
      in (w\<lparr>lw_segmentPaths := lw_segmentPaths w @ [path], lw_blocksInSegment := 0\<rparr>, d))"

definition SplLogWriter_new ::
  "platform \<Rightarrow> bool \<times> nat \<Rightarrow> string \<Rightarrow> SplLogConfig \<Rightarrow> SplLogHeaderInfo \<Rightarrow> uint64_t \<Rightarrow> disk \<Rightarrow> SplLogWriter \<times> disk"
where
  "SplLogWriter_new pf out basePath config info segmentBlocks d =
     openSegment pf out
       (\<lparr>lw_basePath = basePath, lw_config = config, lw_info = info, lw_segmentBlocks = segmentBlocks,
         lw_segmentIndex = 0, lw_logGeneration = 0, lw_blocksInSegment = 0, lw_stream = None, lw_streamGood = True,
         lw_segmentPaths = [], lw_writeFailed = False\<rparr>, d)"

definition SplLogWriter_write ::
  "platform \<Rightarrow> bool \<times> nat \<Rightarrow> nat \<Rightarrow> LogBlock \<Rightarrow> SplLogWriter \<times> disk \<Rightarrow> SplLogWriter \<times> disk"
where
  "SplLogWriter_write pf out n b wd =
     (let (w, d) = wd;
          (w, d) = (if lw_blocksInSegment w \<ge> lw_segmentBlocks w
                    then openSegment pf out (w\<lparr>lw_segmentIndex := lw_segmentIndex w + 1\<rparr>, d) else (w, d));
          (w, d) = stream_put pf n (logRow (pf_charconv pf) (pf_arith pf) (lc_referenceOffsetDb (lw_config w)) b) (w, d);
          w = (if \<not> lw_streamGood w then w\<lparr>lw_writeFailed := True\<rparr> else w)
      in (w\<lparr>lw_blocksInSegment := lw_blocksInSegment w + 1\<rparr>, d))"

definition SplLogWriter_reconfigure ::
  "platform \<Rightarrow> bool \<times> nat \<Rightarrow> WeightingType \<Rightarrow> TimeWeighting \<Rightarrow> SplLogWriter \<times> disk \<Rightarrow> SplLogWriter \<times> disk"
where
  "SplLogWriter_reconfigure pf out weighting detector wd =
     (let (w, d) = wd
      in if weighting = hi_weighting (lw_info w) \<and> detector = hi_detector (lw_info w) then (w, d)
         else openSegment pf out
                (w\<lparr>lw_info := (lw_info w)\<lparr>hi_weighting := weighting, hi_detector := detector\<rparr>,
                   lw_logGeneration := lw_logGeneration w + 1, lw_segmentIndex := 0\<rparr>, d))"

definition forceStreamFailureForTest :: "SplLogWriter \<Rightarrow> SplLogWriter" where
  "forceStreamFailureForTest w = w\<lparr>lw_streamGood := False\<rparr>"

text \<open>The session header is written once, in binary mode.\<close>

definition writeSessionHeaderFile :: "platform \<Rightarrow> bool \<times> nat \<Rightarrow> string \<Rightarrow> SplSessionHeaderInfo \<Rightarrow> disk \<Rightarrow> disk" where
  "writeSessionHeaderFile pf out path info d =
     (if fst out then d(path \<mapsto> take (snd out) (sessionHeader (pf_charconv pf) info)) else d)"

section \<open>What should be on disk\<close>

datatype writer_op =
    WriteBlock "bool \<times> nat" nat LogBlock
  | Reconfigure "bool \<times> nat" WeightingType TimeWeighting

fun writer_step :: "platform \<Rightarrow> writer_op \<Rightarrow> SplLogWriter \<times> disk \<Rightarrow> SplLogWriter \<times> disk" where
  "writer_step pf (WriteBlock out n b) = SplLogWriter_write pf out n b"
| "writer_step pf (Reconfigure out weighting detector) = SplLogWriter_reconfigure pf out weighting detector"

type_synonym segments = "(SplLogHeaderInfo \<times> LogBlock list) list"

text \<open>The segments that a sequence of calls asks for: the latest one last.\<close>

fun segments_step :: "nat \<Rightarrow> writer_op \<Rightarrow> segments \<Rightarrow> segments" where
  "segments_step limit (WriteBlock _ _ b) segs =
     (if length (snd (last segs)) \<ge> limit then segs @ [(fst (last segs), [b])]
      else butlast segs @ [(fst (last segs), snd (last segs) @ [b])])"
| "segments_step limit (Reconfigure _ weighting detector) segs =
     (let info = fst (last segs)
      in if weighting = hi_weighting info \<and> detector = hi_detector info then segs
         else segs @ [(info\<lparr>hi_weighting := weighting, hi_detector := detector\<rparr>, [])])"

fun written_block :: "writer_op \<Rightarrow> LogBlock list" where
  "written_block (WriteBlock _ _ b) = [b]"
| "written_block (Reconfigure _ _ _) = []"

lemma segments_step_blocks:
  assumes "segs \<noteq> []"
  shows "concat (map snd (segments_step limit op segs)) = concat (map snd segs) @ written_block op"
    and "segments_step limit op segs \<noteq> []"
proof -
  have "concat (map snd segs) = concat (map snd (butlast segs)) @ snd (last segs)"
    using assms by (cases segs rule: rev_cases) simp_all
  then show "concat (map snd (segments_step limit op segs)) = concat (map snd segs) @ written_block op"
    by (cases op) (simp_all add: Let_def)
  show "segments_step limit op segs \<noteq> []"
    using assms by (cases op) (simp_all add: Let_def)
qed

section \<open>Paths\<close>

lemma digits_then:
  assumes "decimal g @ CHR ''.'' # s = decimal g' @ CHR ''.'' # s'"
  shows "g = g' \<and> s = s'"
proof -
  have "\<not> is_digit CHR ''.''"
    by (simp add: is_digit_def)
  then have "takeWhile is_digit (decimal n @ CHR ''.'' # t) = decimal n" for n t
    using decimal_digits by (subst takeWhile_append2) auto
  then have same: "decimal g = decimal g'"
    using assms by metis
  then have "g = g'"
    using decimal_value_decimal by metis
  then show ?thesis
    using assms by simp
qed

lemma segment_path_inj: "segment_path base g s = segment_path base g' s' \<longleftrightarrow> g = g' \<and> s = s'"
proof
  assume "segment_path base g s = segment_path base g' s'"
  then have "decimal g @ CHR ''.'' # ''seg'' @ decimal s @ ''.csv'' = decimal g' @ CHR ''.'' # ''seg'' @ decimal s' @ ''.csv''"
    by (simp add: segment_path_def)
  from digits_then [OF this] have "g = g'" "decimal s @ CHR ''.'' # ''csv'' = decimal s' @ CHR ''.'' # ''csv''"
    by simp_all
  with digits_then [OF this(2)] show "g = g' \<and> s = s'"
    by simp
qed simp

section \<open>Every file is a beginning of its segment\<close>

definition seg_bytes :: "platform \<Rightarrow> SplLogConfig \<Rightarrow> SplLogHeaderInfo \<times> LogBlock list \<Rightarrow> string" where
  "seg_bytes pf config seg = text_mode pf (log_text (pf_charconv pf) (pf_arith pf) config (fst seg) (snd seg))"

lemma text_mode_append: "text_mode pf (s @ t) = text_mode pf s @ text_mode pf t"
  by (simp add: text_mode_def)

lemma seg_bytes_snoc:
  "seg_bytes pf config (info, bs @ [b]) = seg_bytes pf config (info, bs) @
     text_mode pf (logRow (pf_charconv pf) (pf_arith pf) (lc_referenceOffsetDb config) b)"
proof -
  have "log_text cc ar config info (bs @ [b]) = log_text cc ar config info bs @ logRow cc ar (lc_referenceOffsetDb config) b"
    for cc ar
    by (simp add: log_text_def)
  then show ?thesis
    by (simp add: seg_bytes_def text_mode_append)
qed

definition beginning :: "string option \<Rightarrow> string \<Rightarrow> bool" where
  "beginning content whole \<longleftrightarrow> (\<forall>s. content = Some s \<longrightarrow> prefix s whole)"

type_synonym entries = "((nat \<times> nat) \<times> SplLogHeaderInfo \<times> LogBlock list) list"

definition key_path :: "string \<Rightarrow> nat \<times> nat \<Rightarrow> string" where
  "key_path base k = segment_path base (fst k) (snd k)"

lemma key_path_inj [simp]: "key_path base k = key_path base k' \<longleftrightarrow> k = k'"
  by (auto simp: key_path_def segment_path_inj prod_eq_iff)

definition files_inv :: "platform \<Rightarrow> string \<Rightarrow> SplLogConfig \<Rightarrow> disk \<Rightarrow> entries \<Rightarrow> SplLogWriter \<times> disk \<Rightarrow> bool" where
  "files_inv pf base config d0 es wd \<longleftrightarrow>
     (let (w, d) = wd
      in distinct (map fst es) \<and> lw_segmentPaths w = map (key_path base) (map fst es) \<and> lw_basePath w = base \<and>
         lw_config w = config \<and>
         (\<forall>e \<in> set es. beginning (d (key_path base (fst e))) (seg_bytes pf config (snd e))) \<and>
         (\<not> lw_writeFailed w \<longrightarrow>
            (\<forall>e \<in> set es. snd (snd e) \<noteq> [] \<longrightarrow> d (key_path base (fst e)) = Some (seg_bytes pf config (snd e)))) \<and>
         (\<forall>p. p \<notin> key_path base ` fst ` set es \<longrightarrow> d p = d0 p))"

definition stream_inv ::
  "platform \<Rightarrow> string \<Rightarrow> SplLogConfig \<Rightarrow> (nat \<times> nat) \<times> SplLogHeaderInfo \<times> LogBlock list \<Rightarrow> SplLogWriter \<times> disk \<Rightarrow> bool"
where
  "stream_inv pf base config e wd \<longleftrightarrow>
     (let (w, d) = wd
      in lw_info w = fst (snd e) \<and> (unat (lw_logGeneration w), unat (lw_segmentIndex w)) = fst e \<and>
         unat (lw_blocksInSegment w) = length (snd (snd e)) \<and>
         (case lw_stream w of
            None \<Rightarrow> lw_writeFailed w
          | Some p \<Rightarrow> p = key_path base (fst e) \<and> (lw_streamGood w \<longrightarrow> d p = Some (seg_bytes pf config (snd e)))))"

lemma openSegment_inv:
  assumes inv: "files_inv pf base config d0 es (w, d)" and key: "k = (unat (lw_logGeneration w), unat (lw_segmentIndex w))"
    and fresh: "k \<notin> fst ` set es" "d0 (key_path base k) = None"
  shows "files_inv pf base config d0 (es @ [(k, lw_info w, [])]) (openSegment pf out (w, d))"
    and "stream_inv pf base config (k, lw_info w, []) (openSegment pf out (w, d))"
    and "lw_segmentBlocks (fst (openSegment pf out (w, d))) = lw_segmentBlocks w"
proof -
  obtain opens n where out: "out = (opens, n)"
    by fastforce
  let ?path = "key_path base k"
  have path: "segment_path base (unat (lw_logGeneration w)) (unat (lw_segmentIndex w)) = ?path"
    by (simp add: key key_path_def)
  have config: "lw_config w = config" "lw_basePath w = base"
    using inv by (simp_all add: files_inv_def)
  have "?path \<notin> key_path base ` fst ` set es"
    using fresh(1) by force
  then have absent: "d ?path = None"
    using inv fresh(2) by (simp add: files_inv_def)
  have head: "text_mode pf (logHeader (pf_charconv pf) (pf_arith pf) config info @ csvHeaderRow @ [newline]) =
      seg_bytes pf config (info, [])" for info
    by (simp add: seg_bytes_def log_text_def)
  have other: "?path \<noteq> key_path base (fst e)" if "e \<in> set es" for e
    using fresh(1) that by auto
  show "lw_segmentBlocks (fst (openSegment pf out (w, d))) = lw_segmentBlocks w"
    by (simp add: openSegment_def stream_put_def Let_def out path)
  show "stream_inv pf base config (k, lw_info w, []) (openSegment pf out (w, d))"
    by (simp add: openSegment_def stream_put_def Let_def out path config head stream_inv_def key [symmetric])
  show "files_inv pf base config d0 (es @ [(k, lw_info w, [])]) (openSegment pf out (w, d))"
    using inv fresh other absent
    by (auto simp: openSegment_def stream_put_def Let_def out path config head files_inv_def beginning_def take_is_prefix)
qed

lemma put_row_inv:
  assumes inv: "files_inv pf base config d0 (es @ [(k, info, bs)]) (w, d)" "stream_inv pf base config (k, info, bs) (w, d)"
    and put: "stream_put pf n (logRow (pf_charconv pf) (pf_arith pf) (lc_referenceOffsetDb config) b) (w, d) = (w1, d1)"
    and flag: "w2 = (if \<not> lw_streamGood w1 then w1\<lparr>lw_writeFailed := True\<rparr> else w1)"
    and count: "length bs < 2 ^ 64 - 1"
  shows "files_inv pf base config d0 (es @ [(k, info, bs @ [b])]) (w2\<lparr>lw_blocksInSegment := lw_blocksInSegment w2 + 1\<rparr>, d1)"
    and "stream_inv pf base config (k, info, bs @ [b]) (w2\<lparr>lw_blocksInSegment := lw_blocksInSegment w2 + 1\<rparr>, d1)"
    and "lw_segmentBlocks w2 = lw_segmentBlocks w"
proof -
  let ?row = "text_mode pf (logRow (pf_charconv pf) (pf_arith pf) (lc_referenceOffsetDb config) b)"
  let ?path = "key_path base k"
  have other: "?path \<noteq> key_path base (fst e)" if "e \<in> set es" for e
    using inv(1) that by (auto simp: files_inv_def)
  have more: "unat (lw_blocksInSegment w + 1) = Suc (length bs)"
    using inv(2) count by (simp add: stream_inv_def unat_word_ariths)
  have frame: "w1 = w\<lparr>lw_streamGood := lw_streamGood w1\<rparr>"
    using put by (auto simp: stream_put_def Let_def split: option.splits if_splits)
  consider "\<not> lw_streamGood w1" "d1 = d" | "lw_stream w = Some ?path" "lw_streamGood w" "lw_streamGood w1 = (length ?row \<le> n)"
      "d1 = d(?path \<mapsto> seg_bytes pf config (info, bs) @ take n ?row)"
    using put inv(2) by (auto simp: stream_put_def stream_inv_def Let_def split: option.splits if_splits)
  note results = this
  have w2: "w2 = w\<lparr>lw_streamGood := lw_streamGood w1, lw_writeFailed := lw_writeFailed w \<or> \<not> lw_streamGood w1\<rparr>"
    using flag by (subst (asm) (2 3) frame) (auto split: if_splits)
  show "lw_segmentBlocks w2 = lw_segmentBlocks w"
    by (simp add: w2)
  from results show "stream_inv pf base config (k, info, bs @ [b]) (w2\<lparr>lw_blocksInSegment := lw_blocksInSegment w2 + 1\<rparr>, d1)"
    using inv(2) more by cases (auto simp: stream_inv_def w2 seg_bytes_snoc split: option.splits)
  have grow: "prefix s (seg_bytes pf config (info, bs @ [b]))" if "prefix s (seg_bytes pf config (info, bs))" for s
    using that by (simp add: seg_bytes_snoc)
  from results show "files_inv pf base config d0 (es @ [(k, info, bs @ [b])]) (w2\<lparr>lw_blocksInSegment := lw_blocksInSegment w2 + 1\<rparr>, d1)"
  proof cases
    case 1
    then show ?thesis
      using inv(1) grow by (auto simp: files_inv_def w2 beginning_def)
  next
    case 2
    then show ?thesis
      using inv(1) other by (auto simp: files_inv_def w2 beginning_def seg_bytes_snoc take_is_prefix)
  qed
qed

section \<open>Any sequence of calls\<close>

definition writer_inv ::
  "platform \<Rightarrow> string \<Rightarrow> SplLogConfig \<Rightarrow> uint64_t \<Rightarrow> disk \<Rightarrow> nat \<Rightarrow> segments \<Rightarrow> SplLogWriter \<times> disk \<Rightarrow> bool"
where
  "writer_inv pf base config limit d0 n segs wd \<longleftrightarrow>
     (\<exists>es g s info bs.
        segs = map snd es @ [(info, bs)] \<and> files_inv pf base config d0 (es @ [((g, s), info, bs)]) wd \<and>
        stream_inv pf base config ((g, s), info, bs) wd \<and> lw_segmentBlocks (fst wd) = limit \<and>
        (\<forall>k \<in> fst ` set es. fst k < g \<or> fst k = g \<and> snd k < s) \<and> g \<le> n \<and> s \<le> n \<and> length bs \<le> n)"

lemma files_inv_fields:
  assumes "files_inv pf base config d0 es (w, d)" "lw_segmentPaths w' = lw_segmentPaths w" "lw_basePath w' = lw_basePath w"
    "lw_config w' = lw_config w" "lw_writeFailed w' = lw_writeFailed w"
  shows "files_inv pf base config d0 es (w', d)"
  using assms by (simp add: files_inv_def)

lemma unat_succ: "unat (x :: uint64_t) \<le> n \<Longrightarrow> n + 1 < 2 ^ 64 \<Longrightarrow> unat (x + 1) = Suc (unat x)"
  by (simp add: unat_word_ariths)

lemma open_next:
  assumes inv: "files_inv pf base config d0 (es @ [((g, s), info, bs)]) (w, d)"
    and old: "\<forall>k \<in> fst ` set es. fst k < g \<or> fst k = g \<and> snd k < s"
    and fresh: "\<forall>k. d0 (key_path base k) = None"
    and after: "g < g' \<or> g = g' \<and> s < s'"
    and w': "unat (lw_logGeneration w') = g'" "unat (lw_segmentIndex w') = s'" "lw_segmentPaths w' = lw_segmentPaths w"
      "lw_basePath w' = lw_basePath w" "lw_config w' = lw_config w" "lw_writeFailed w' = lw_writeFailed w"
  shows "files_inv pf base config d0 ((es @ [((g, s), info, bs)]) @ [((g', s'), lw_info w', [])]) (openSegment pf out (w', d))"
    and "stream_inv pf base config ((g', s'), lw_info w', []) (openSegment pf out (w', d))"
    and "lw_segmentBlocks (fst (openSegment pf out (w', d))) = lw_segmentBlocks w'"
    and "\<forall>k \<in> fst ` set (es @ [((g, s), info, bs)]). fst k < g' \<or> fst k = g' \<and> snd k < s'"
proof -
  show before: "\<forall>k \<in> fst ` set (es @ [((g, s), info, bs)]). fst k < g' \<or> fst k = g' \<and> snd k < s'"
    using old after by fastforce
  then have "(g', s') \<notin> fst ` set (es @ [((g, s), info, bs)])"
    by (metis fst_conv less_irrefl snd_conv)
  moreover have "files_inv pf base config d0 (es @ [((g, s), info, bs)]) (w', d)"
    by (rule files_inv_fields [OF inv]) (use w' in simp_all)
  ultimately show "files_inv pf base config d0 ((es @ [((g, s), info, bs)]) @ [((g', s'), lw_info w', [])]) (openSegment pf out (w', d))"
    "stream_inv pf base config ((g', s'), lw_info w', []) (openSegment pf out (w', d))"
    "lw_segmentBlocks (fst (openSegment pf out (w', d))) = lw_segmentBlocks w'"
    using openSegment_inv [of pf base config d0 "es @ [((g, s), info, bs)]" w' d "(g', s')" out] fresh w'(1,2) by simp_all
qed

lemma put_row_step:
  assumes inv: "files_inv pf base config d0 (es @ [(k, info, bs)]) wd" "stream_inv pf base config (k, info, bs) wd"
    and count: "length bs < 2 ^ 64 - 1"
    and wd': "wd' = (let (w, d) = stream_put pf n (logRow (pf_charconv pf) (pf_arith pf) (lc_referenceOffsetDb (lw_config (fst wd))) b) wd;
                     w = (if \<not> lw_streamGood w then w\<lparr>lw_writeFailed := True\<rparr> else w)
                 in (w\<lparr>lw_blocksInSegment := lw_blocksInSegment w + 1\<rparr>, d))"
  shows "files_inv pf base config d0 (es @ [(k, info, bs @ [b])]) wd'"
    and "stream_inv pf base config (k, info, bs @ [b]) wd'" "lw_segmentBlocks (fst wd') = lw_segmentBlocks (fst wd)"
proof -
  obtain w d where wd: "wd = (w, d)"
    by fastforce
  have config: "lw_config w = config"
    using inv(1) by (simp add: files_inv_def wd)
  obtain w1 d1 where put: "stream_put pf n (logRow (pf_charconv pf) (pf_arith pf) (lc_referenceOffsetDb config) b) (w, d) = (w1, d1)"
    by fastforce
  show "files_inv pf base config d0 (es @ [(k, info, bs @ [b])]) wd'" "stream_inv pf base config (k, info, bs @ [b]) wd'"
    "lw_segmentBlocks (fst wd') = lw_segmentBlocks (fst wd)"
    using put_row_inv [OF inv [unfolded wd] put refl count] by (simp_all add: wd' wd put config Let_def)
qed

lemma writer_step_inv:
  assumes inv: "writer_inv pf base config limit d0 n segs wd" and room: "n + 1 < 2 ^ 64 - 1"
    and fresh: "\<forall>k. d0 (key_path base k) = None"
  shows "writer_inv pf base config limit d0 (Suc n) (segments_step (unat limit) op segs) (writer_step pf op wd)"
proof -
  obtain es g s info bs where st: "segs = map snd es @ [(info, bs)]" "files_inv pf base config d0 (es @ [((g, s), info, bs)]) wd"
      "stream_inv pf base config ((g, s), info, bs) wd" "lw_segmentBlocks (fst wd) = limit"
      "\<forall>k \<in> fst ` set es. fst k < g \<or> fst k = g \<and> snd k < s" "g \<le> n" "s \<le> n" "length bs \<le> n"
    using inv by (auto simp: writer_inv_def)
  obtain w d where wd: "wd = (w, d)"
    by fastforce
  have at: "lw_info w = info" "unat (lw_logGeneration w) = g" "unat (lw_segmentIndex w) = s" "unat (lw_blocksInSegment w) = length bs"
    using st(3) by (simp_all add: stream_inv_def wd)
  show ?thesis
  proof (cases op)
    case (WriteBlock out m b)
    show ?thesis
    proof (cases "lw_blocksInSegment w \<ge> lw_segmentBlocks w")
      case True
      let ?w = "w\<lparr>lw_segmentIndex := lw_segmentIndex w + 1\<rparr>"
      have "unat (lw_segmentIndex w + 1) = Suc s"
        using unat_succ [of "lw_segmentIndex w" n] st(7) at(3) room by simp
      then have opened: "files_inv pf base config d0 ((es @ [((g, s), info, bs)]) @ [((g, Suc s), info, [])]) (openSegment pf out (?w, d))"
          "stream_inv pf base config ((g, Suc s), info, []) (openSegment pf out (?w, d))"
          "lw_segmentBlocks (fst (openSegment pf out (?w, d))) = limit"
          "\<forall>k \<in> fst ` set (es @ [((g, s), info, bs)]). fst k < g \<or> fst k = g \<and> snd k < Suc s"
        using open_next [OF st(2) [unfolded wd] st(5) fresh, where g' = g and s' = "Suc s" and w' = ?w] at st(4) by (simp_all add: wd)
      have "writer_step pf op wd = (let (w, d) = stream_put pf m (logRow (pf_charconv pf) (pf_arith pf)
          (lc_referenceOffsetDb (lw_config (fst (openSegment pf out (?w, d))))) b) (openSegment pf out (?w, d));
          w = (if \<not> lw_streamGood w then w\<lparr>lw_writeFailed := True\<rparr> else w)
        in (w\<lparr>lw_blocksInSegment := lw_blocksInSegment w + 1\<rparr>, d))"
        using True WriteBlock by (simp add: SplLogWriter_write_def wd Let_def split_beta)
      note written = put_row_step [OF opened(1,2) _ this]
      moreover have "segments_step (unat limit) op segs = map snd (es @ [((g, s), info, bs)]) @ [(info, [b])]"
        using True WriteBlock st(1,4) at(4) by (simp add: wd word_le_nat_alt)
      ultimately show ?thesis
        unfolding writer_inv_def using opened(3,4) st(6,7) room by fastforce
    next
      case False
      have "writer_step pf op wd = (let (w, d) = stream_put pf m (logRow (pf_charconv pf) (pf_arith pf)
          (lc_referenceOffsetDb (lw_config (fst wd))) b) wd;
          w = (if \<not> lw_streamGood w then w\<lparr>lw_writeFailed := True\<rparr> else w)
        in (w\<lparr>lw_blocksInSegment := lw_blocksInSegment w + 1\<rparr>, d))"
        using False WriteBlock by (simp add: SplLogWriter_write_def wd Let_def split_beta)
      note written = put_row_step [OF st(2,3) _ this]
      moreover have "segments_step (unat limit) op segs = map snd es @ [(info, bs @ [b])]"
        using False WriteBlock st(1,4) at(4) by (simp add: wd word_le_nat_alt)
      ultimately show ?thesis
        unfolding writer_inv_def using st(4-8) room by fastforce
    qed
  next
    case (Reconfigure out weighting detector)
    show ?thesis
    proof (cases "weighting = hi_weighting info \<and> detector = hi_detector info")
      case True
      then show ?thesis
        unfolding writer_inv_def using Reconfigure st at
        by (fastforce simp: SplLogWriter_reconfigure_def wd)
    next
      case False
      let ?info = "info\<lparr>hi_weighting := weighting, hi_detector := detector\<rparr>"
      let ?w = "w\<lparr>lw_info := ?info, lw_logGeneration := lw_logGeneration w + 1, lw_segmentIndex := 0\<rparr>"
      have "unat (lw_logGeneration w + 1) = Suc g"
        using unat_succ [of "lw_logGeneration w" n] st(6) at(2) room by simp
      then have opened: "files_inv pf base config d0 ((es @ [((g, s), info, bs)]) @ [((Suc g, 0), ?info, [])]) (openSegment pf out (?w, d))"
          "stream_inv pf base config ((Suc g, 0), ?info, []) (openSegment pf out (?w, d))"
          "lw_segmentBlocks (fst (openSegment pf out (?w, d))) = limit"
          "\<forall>k \<in> fst ` set (es @ [((g, s), info, bs)]). fst k < Suc g \<or> fst k = Suc g \<and> snd k < 0"
        using open_next [OF st(2) [unfolded wd] st(5) fresh, where g' = "Suc g" and s' = 0 and w' = ?w] at st(4) by (simp_all add: wd)
      moreover have "writer_step pf op wd = openSegment pf out (?w, d)"
        using False Reconfigure at(1) by (auto simp: SplLogWriter_reconfigure_def wd)
      moreover have "segments_step (unat limit) op segs = map snd (es @ [((g, s), info, bs)]) @ [(?info, [])]"
        using False Reconfigure st(1) by (simp add: Let_def)
      ultimately show ?thesis
        unfolding writer_inv_def using st(6,7) by fastforce
    qed
  qed
qed

lemma writer_new_inv:
  assumes "\<forall>k. d0 (key_path base k) = None"
  shows "writer_inv pf base config limit d0 0 [(info, [])] (SplLogWriter_new pf out base config info limit d0)"
proof -
  let ?w = "\<lparr>lw_basePath = base, lw_config = config, lw_info = info, lw_segmentBlocks = limit,
         lw_segmentIndex = 0, lw_logGeneration = 0, lw_blocksInSegment = 0, lw_stream = None, lw_streamGood = True,
         lw_segmentPaths = [], lw_writeFailed = False\<rparr>"
  have "files_inv pf base config d0 [] (?w, d0)"
    by (simp add: files_inv_def)
  from openSegment_inv [OF this, of "(0, 0)" out] assms show ?thesis
    unfolding writer_inv_def by (intro exI [of _ "[]"] exI [of _ 0] exI [of _ info]) (simp add: SplLogWriter_new_def)
qed

lemma writer_run_inv:
  assumes "\<forall>k. d0 (key_path base k) = None" "writer_inv pf base config limit d0 n segs wd" "n + length ops < 2 ^ 64 - 1"
  shows "writer_inv pf base config limit d0 (n + length ops)
    (fold (segments_step (unat limit)) ops segs) (fold (writer_step pf) ops wd)"
  using assms(2,3)
proof (induction ops arbitrary: n segs wd)
  case (Cons op ops)
  from writer_step_inv [OF Cons.prems(1) _ assms(1)] Cons.prems(2)
  have "writer_inv pf base config limit d0 (Suc n) (segments_step (unat limit) op segs) (writer_step pf op wd)"
    by simp
  from Cons.IH [OF this] Cons.prems(2) show ?case
    by simp
qed simp

lemma segments_run_blocks:
  assumes "segs \<noteq> []" "\<forall>seg \<in> set segs. length (snd seg) \<le> max 1 limit"
  shows "concat (map snd (fold (segments_step limit) ops segs)) = concat (map snd segs) @ concat (map written_block ops)"
    and "\<forall>seg \<in> set (fold (segments_step limit) ops segs). length (snd seg) \<le> max 1 limit"
proof -
  have "concat (map snd (fold (segments_step limit) ops segs)) = concat (map snd segs) @ concat (map written_block ops) \<and>
      (\<forall>seg \<in> set (fold (segments_step limit) ops segs). length (snd seg) \<le> max 1 limit)"
    using assms
  proof (induction ops arbitrary: segs)
    case (Cons op ops)
    have "\<forall>seg \<in> set (segments_step limit op segs). length (snd seg) \<le> max 1 limit"
    proof -
      obtain old seg where segs: "segs = old @ [seg]"
        using Cons.prems(1) by (cases segs rule: rev_cases) auto
      show ?thesis
        using Cons.prems(2) by (cases op) (auto simp: Let_def segs)
    qed
    then show ?case
      using Cons.IH [of "segments_step limit op segs"] segments_step_blocks [OF Cons.prems(1), of limit op] by simp
  qed simp
  then show "concat (map snd (fold (segments_step limit) ops segs)) = concat (map snd segs) @ concat (map written_block ops)"
    "\<forall>seg \<in> set (fold (segments_step limit) ops segs). length (snd seg) \<le> max 1 limit"
    by simp_all
qed

section \<open>What a reader finds\<close>

definition blocks_on_disk :: "platform \<Rightarrow> disk \<Rightarrow> string \<Rightarrow> LogBlock list" where
  "blocks_on_disk pf d p = (case d p of None \<Rightarrow> [] | Some s \<Rightarrow> lr_blocks (readLog (pf_charconv pf) s))"

lemma read_segment:
  assumes "row_format (pf_charconv pf)" "list_all (LogBlock_ok (pf_arith pf) (lc_referenceOffsetDb config)) (snd seg)"
  shows "beginning (d p) (seg_bytes pf config seg) \<Longrightarrow> prefix (blocks_on_disk pf d p) (snd seg)"
    and "d p = Some (seg_bytes pf config seg) \<Longrightarrow> blocks_on_disk pf d p = snd seg"
proof -
  have bytes: "seg_bytes pf config seg =
      (if pf_crlf pf then to_crlf else id) (log_text (pf_charconv pf) (pf_arith pf) config (fst seg) (snd seg))"
    by (simp add: seg_bytes_def text_mode_def)
  show "prefix (blocks_on_disk pf d p) (snd seg)" if "beginning (d p) (seg_bytes pf config seg)"
  proof (cases "d p")
    case (Some s)
    then have "s = take (length s) (seg_bytes pf config seg)"
      using that by (auto simp: beginning_def prefix_def)
    then show ?thesis
      using readLog_cut(1) [OF assms bytes refl, of "length s"] Some
      by (metis LogReadResult.select_convs(1) blocks_on_disk_def option.simps(5) take_is_prefix)
  qed (simp add: blocks_on_disk_def)
  show "blocks_on_disk pf d p = snd seg" if "d p = Some (seg_bytes pf config seg)"
    using readLog_whole [OF assms bytes] that by (simp add: blocks_on_disk_def)
qed

lemma writer_files:
  assumes "row_format (pf_charconv pf)" and "length ops < 2 ^ 64 - 1" and "\<forall>g s. d0 (segment_path base g s) = None"
    and "list_all (LogBlock_ok (pf_arith pf) (lc_referenceOffsetDb config)) (concat (map written_block ops))"
    and "fold (writer_step pf) ops (SplLogWriter_new pf out base config info limit d0) = (w, d)"
    and "segs = fold (segments_step (unat limit)) ops [(info, [])]"
  shows "distinct (lw_segmentPaths w) \<and>
     list_all2 (\<lambda>p seg. prefix (blocks_on_disk pf d p) (snd seg) \<and> length (snd seg) \<le> max 1 (unat limit))
       (lw_segmentPaths w) segs \<and>
     concat (map snd segs) = concat (map written_block ops) \<and>
     (\<not> lw_writeFailed w \<longrightarrow> concat (map (blocks_on_disk pf d) (lw_segmentPaths w)) = concat (map written_block ops)) \<and>
     (\<forall>p. p \<notin> set (lw_segmentPaths w) \<longrightarrow> d p = d0 p)"
proof -
  have fresh: "\<forall>k. d0 (key_path base k) = None"
    using assms(3) by (simp add: key_path_def)
  have "writer_inv pf base config limit d0 (0 + length ops) (fold (segments_step (unat limit)) ops [(info, [])])
      (fold (writer_step pf) ops (SplLogWriter_new pf out base config info limit d0))"
    by (rule writer_run_inv [OF fresh writer_new_inv [OF fresh]]) (use assms(2) in simp)
  then have "writer_inv pf base config limit d0 (length ops) segs (w, d)"
    by (simp add: assms(5,6))
  then obtain es where es: "files_inv pf base config d0 es (w, d)" "segs = map snd es"
    by (fastforce simp: writer_inv_def)
  have blocks: "concat (map snd segs) = concat (map written_block ops)"
      "\<forall>seg \<in> set segs. length (snd seg) \<le> max 1 (unat limit)"
    using segments_run_blocks [of "[(info, [])]" "unat limit" ops] assms(6) by simp_all
  have ok: "list_all (LogBlock_ok (pf_arith pf) (lc_referenceOffsetDb config)) (snd (snd e))" if "e \<in> set es" for e
    using assms(4) that unfolding blocks(1) [symmetric] es(2) by (auto simp: list_all_iff)
  have paths: "lw_segmentPaths w = map (\<lambda>e. key_path base (fst e)) es"
    using es(1) by (simp add: files_inv_def comp_def)
  have "distinct (map (key_path base) (map fst es))"
    using es(1) by (subst distinct_map) (auto simp: files_inv_def intro: inj_onI)
  then have "distinct (lw_segmentPaths w)"
    by (simp add: paths comp_def)
  moreover have "list_all2 (\<lambda>p seg. prefix (blocks_on_disk pf d p) (snd seg) \<and> length (snd seg) \<le> max 1 (unat limit))
       (lw_segmentPaths w) segs"
    using read_segment(1) [OF assms(1) ok] es blocks(2)
    by (auto simp: paths list_all2_map1 list_all2_map2 files_inv_def intro!: list.rel_refl_strong)
  moreover have "concat (map (blocks_on_disk pf d) (lw_segmentPaths w)) = concat (map written_block ops)"
    if flag: "\<not> lw_writeFailed w"
  proof -
    have "blocks_on_disk pf d (key_path base (fst e)) = snd (snd e)" if "e \<in> set es" for e
    proof (cases "snd (snd e) = []")
      case True
      then show ?thesis
        using read_segment(1) [OF assms(1) ok [OF that]] es(1) that by (fastforce simp: files_inv_def)
    next
      case False
      then show ?thesis
        using read_segment(2) [OF assms(1) ok [OF that]] es(1) that flag by (auto simp: files_inv_def)
    qed
    then show ?thesis
      unfolding blocks(1) [symmetric] es(2) paths by (simp add: comp_def cong: map_cong)
  qed
  moreover have "\<forall>p. p \<notin> set (lw_segmentPaths w) \<longrightarrow> d p = d0 p"
    using es(1) by (simp add: files_inv_def paths image_image)
  ultimately show ?thesis
    using blocks(1) by blast
qed

text \<open>Without a change of weighting the segments are numbered from zero.\<close>

fun is_write :: "writer_op \<Rightarrow> bool" where
  "is_write (WriteBlock _ _ _) = True"
| "is_write (Reconfigure _ _ _) = False"

lemma openSegment_names:
  assumes "openSegment pf out (w, d) = (w', d')"
  shows "lw_logGeneration w' = lw_logGeneration w" "lw_segmentIndex w' = lw_segmentIndex w" "lw_basePath w' = lw_basePath w"
    "lw_segmentPaths w' = lw_segmentPaths w @ [segment_path (lw_basePath w) (unat (lw_logGeneration w)) (unat (lw_segmentIndex w))]"
  using assms by (auto simp: openSegment_def stream_put_def Let_def split: prod.splits if_splits)

lemma put_names:
  assumes "stream_put pf n s (w, d) = (w', d')"
  shows "lw_logGeneration w' = lw_logGeneration w" "lw_segmentIndex w' = lw_segmentIndex w" "lw_basePath w' = lw_basePath w"
    "lw_segmentPaths w' = lw_segmentPaths w"
  using assms by (auto simp: stream_put_def Let_def split: option.splits if_splits)

definition names_inv :: "string \<Rightarrow> nat \<Rightarrow> SplLogWriter \<Rightarrow> bool" where
  "names_inv base n w \<longleftrightarrow> lw_logGeneration w = 0 \<and> lw_basePath w = base \<and> unat (lw_segmentIndex w) \<le> n \<and>
     lw_segmentPaths w = map (segment_path base 0) [0..<Suc (unat (lw_segmentIndex w))]"

lemma write_names:
  assumes inv: "names_inv base n w" and room: "n + 1 < 2 ^ 64" and w': "SplLogWriter_write pf out k b (w, d) = (w', d')"
  shows "names_inv base (Suc n) w'"
proof -
  obtain w1 d1 where w1: "(if lw_blocksInSegment w \<ge> lw_segmentBlocks w
      then openSegment pf out (w\<lparr>lw_segmentIndex := lw_segmentIndex w + 1\<rparr>, d) else (w, d)) = (w1, d1)"
    by fastforce
  obtain w2 d2 where w2: "stream_put pf k (logRow (pf_charconv pf) (pf_arith pf) (lc_referenceOffsetDb (lw_config w1)) b) (w1, d1) = (w2, d2)"
    by fastforce
  have fields: "lw_logGeneration w' = lw_logGeneration w2" "lw_segmentIndex w' = lw_segmentIndex w2" "lw_basePath w' = lw_basePath w2"
      "lw_segmentPaths w' = lw_segmentPaths w2"
    using w' w1 w2 by (auto simp: SplLogWriter_write_def Let_def split: if_splits)
  have "names_inv base (Suc n) w1"
  proof (cases "lw_blocksInSegment w \<ge> lw_segmentBlocks w")
    case True
    then have o: "openSegment pf out (w\<lparr>lw_segmentIndex := lw_segmentIndex w + 1\<rparr>, d) = (w1, d1)"
      using w1 by simp
    have "unat (lw_segmentIndex w + 1) = Suc (unat (lw_segmentIndex w))"
      using unat_succ [of "lw_segmentIndex w" n] inv room by (simp add: names_inv_def)
    then show ?thesis
      using openSegment_names [OF o] inv by (simp add: names_inv_def)
  next
    case False
    then show ?thesis
      using w1 inv by (auto simp: names_inv_def)
  qed
  then show ?thesis
    using fields put_names [OF w2] by (simp add: names_inv_def)
qed

lemma writes_names:
  assumes "list_all is_write ops" "length ops < 2 ^ 64 - 1"
    and "fold (writer_step pf) ops (SplLogWriter_new pf out base config info limit d0) = (w, d)"
  shows "lw_segmentPaths w = map (segment_path base 0) [0..<length (lw_segmentPaths w)]"
proof -
  have "names_inv base (length ops) (fst (fold (writer_step pf) ops (SplLogWriter_new pf out base config info limit d0)))"
    using assms(1,2)
  proof (induction ops rule: rev_induct)
    case Nil
    obtain w d where "SplLogWriter_new pf out base config info limit d0 = (w, d)"
      by fastforce
    then show ?case
      using openSegment_names [of pf out _ d0 w d] by (simp add: names_inv_def SplLogWriter_new_def)
  next
    case (snoc op ops)
    obtain o1 k b where "op = WriteBlock o1 k b"
      using snoc.prems(1) by (cases op) auto
    obtain w d where wd: "fold (writer_step pf) ops (SplLogWriter_new pf out base config info limit d0) = (w, d)"
      by fastforce
    obtain w' d' where "SplLogWriter_write pf o1 k b (w, d) = (w', d')"
      by fastforce
    with write_names [OF _ _ this, of base "length ops"] show ?case
      using snoc wd \<open>op = WriteBlock o1 k b\<close> by simp
  qed
  then show ?thesis
    using assms(3) by (simp add: names_inv_def)
qed

text \<open>
  Property C9: whatever the outcomes of opening and writing are, the segments of a log have different files, each at
  most \<open>segmentBlocks\<close> blocks (one when that is zero), no other file is touched, and every file read back gives a
  beginning of the blocks of its own segment and nothing else; as long as the failure flag is down, the files in order
  give exactly the blocks written, across rotations and changes of weighting.
\<close>

theorem log_files_hold_blocks:
  assumes "row_format (pf_charconv pf)" and "length ops < 2 ^ 64 - 1" and "\<forall>g s. d0 (segment_path base g s) = None"
    and "list_all (LogBlock_ok (pf_arith pf) (lc_referenceOffsetDb config)) (concat (map written_block ops))"
    and "fold (writer_step pf) ops (SplLogWriter_new pf out base config info limit d0) = (w, d)"
    and "segs = fold (segments_step (unat limit)) ops [(info, [])]"
  shows "distinct (lw_segmentPaths w) \<and>
     list_all2 (\<lambda>p seg. prefix (blocks_on_disk pf d p) (snd seg) \<and> length (snd seg) \<le> max 1 (unat limit))
       (lw_segmentPaths w) segs \<and>
     concat (map snd segs) = concat (map written_block ops) \<and>
     (\<not> lw_writeFailed w \<longrightarrow> concat (map (blocks_on_disk pf d) (lw_segmentPaths w)) = concat (map written_block ops)) \<and>
     (\<forall>p. p \<notin> set (lw_segmentPaths w) \<longrightarrow> d p = d0 p)"
  using assms by (rule writer_files)

definition sample_platform :: platform where
  "sample_platform = \<lparr>pf_charconv = sample_charconv, pf_arith = sample_arith, pf_crlf = True\<rparr>"

text \<open>Room for all of a segment with one block.\<close>

definition sample_room :: nat where
  "sample_room = length (seg_bytes sample_platform sample_log_config (sample_log_info, [sample_row]))"

theorem log_files_hold_blocks_witness:
  "\<exists>w d. fold (writer_step sample_platform) (replicate 2 (WriteBlock (True, sample_room) sample_room sample_row))
       (SplLogWriter_new sample_platform (True, sample_room) ''ch0'' sample_log_config sample_log_info 1 (\<lambda>_. None)) = (w, d) \<and>
     \<not> lw_writeFailed w \<and> length (lw_segmentPaths w) = 2 \<and>
     concat (map (blocks_on_disk sample_platform d) (lw_segmentPaths w)) = [sample_row, sample_row]"
proof -
  let ?ops = "replicate 2 (WriteBlock (True, sample_room) sample_room sample_row)"
  let ?start = "SplLogWriter_new sample_platform (True, sample_room) ''ch0'' sample_log_config sample_log_info 1 (\<lambda>_. None)"
  let ?head = "logHeader (pf_charconv sample_platform) (pf_arith sample_platform) sample_log_config sample_log_info @ csvHeaderRow @ [newline]"
  let ?row = "logRow (pf_charconv sample_platform) (pf_arith sample_platform) (lc_referenceOffsetDb sample_log_config) sample_row"
  obtain w d where run: "fold (writer_step sample_platform) ?ops ?start = (w, d)"
    by fastforce
  have "sample_room = length (text_mode sample_platform ?head) + length (text_mode sample_platform ?row)"
    by (simp add: sample_room_def seg_bytes_def log_text_def text_mode_append [symmetric] flip: length_append)
  then have fits: "length (text_mode sample_platform ?head) \<le> sample_room" "length (text_mode sample_platform ?row) \<le> sample_room"
    by simp_all
  have state: "\<not> lw_writeFailed w" "length (lw_segmentPaths w) = 2"
    using run fits by (auto simp: numeral_2_eq_2 SplLogWriter_new_def SplLogWriter_write_def openSegment_def stream_put_def Let_def)
  have "list_all (LogBlock_ok (pf_arith sample_platform) (lc_referenceOffsetDb sample_log_config)) (concat (map written_block ?ops))"
    using sample_row_ok by (simp add: sample_platform_def sample_log_config_def numeral_2_eq_2)
  moreover have "row_format (pf_charconv sample_platform)"
    by (simp add: sample_platform_def sample_row_format)
  ultimately have "\<not> lw_writeFailed w \<longrightarrow> concat (map (blocks_on_disk sample_platform d) (lw_segmentPaths w)) = concat (map written_block ?ops)"
    using log_files_hold_blocks [OF _ _ _ _ run refl] by simp
  then show ?thesis
    using run state by (simp add: numeral_2_eq_2)
qed

end
