(* ===== verification/Spl_Log_Pipeline.thy ===== *)
theory Spl_Log_Pipeline
  imports Spl_Log_Writer Ring_Buffer Spl_Session
begin

text \<open>
  From the analysis thread to the disk (\<^verbatim>\<open>app/src/export/SplLogPipeline.cpp\<close>): one bounded queue per logged channel,
  filled by the analysis thread, which never waits, and emptied by a writer thread that owns every file.  The writer
  thread is a machine that makes one step at a time, reading one block or moving to the next channel, interleaved with
  the pushes in any order; the queue is the ring buffer, whose operations are taken as single steps here (their own
  interleaving is the subject of \<open>Ring_Concurrent\<close>).  The files of each channel, which lie under its own base path,
  are a component of their own.
\<close>

section \<open>State\<close>

record SplLogChannelSpec =
  sp_channel :: int
  sp_basePath :: string
  sp_info :: SplLogHeaderInfo

record SplLogEnableParams =
  ep_config :: SplLogConfig
  ep_channels :: "SplLogChannelSpec list"
  ep_sessionHeaderPath :: string
  ep_startedAtUnixMs :: uint64_t
  ep_queueCapacityBlocks :: nat

definition SplLogEnableParams_default :: SplLogEnableParams where
  "SplLogEnableParams_default = \<lparr>ep_config = \<lparr>lc_referenceOffsetDb = 0, lc_calibrated = False, lc_segmentBlocks = 3600\<rparr>,
     ep_channels = [], ep_sessionHeaderPath = [], ep_startedAtUnixMs = 0, ep_queueCapacityBlocks = 256\<rparr>"

record ChannelSink =
  sk_channel :: int
  sk_ring :: "LogBlock ring"
  sk_writer :: "SplLogWriter option"
  sk_dropped :: uint64_t
  sk_writeFailed :: bool

text \<open>Where the writer thread is: \<open>Draining\<close> carries whether this is the pass after the stop and the next slot.\<close>

datatype writer_position = NoThread | SettingUp | LoopTop | Draining bool nat | Closing

record SplLogPipeline =
  pl_sinks :: "ChannelSink option list"
  pl_running :: bool
  pl_pendingParams :: SplLogEnableParams
  pl_lastDropped :: "uint64_t list"
  pl_lastWriteFailed :: "bool list"
  pl_thread :: writer_position
  pl_files :: "nat \<Rightarrow> disk"
  pl_header :: disk

definition SplLogPipeline_new :: SplLogPipeline where
  "SplLogPipeline_new = \<lparr>pl_sinks = replicate kMaxLoggedChannels None, pl_running = False,
     pl_pendingParams = SplLogEnableParams_default, pl_lastDropped = replicate kMaxLoggedChannels 0,
     pl_lastWriteFailed = replicate kMaxLoggedChannels False, pl_thread = NoThread, pl_files = (\<lambda>_ _. None),
     pl_header = (\<lambda>_. None)\<rparr>"

definition LogBlock_default :: LogBlock where
  "LogBlock_default = \<lparr>lb_blockIndex = 0, lb_blockSamples = 0, lb_droppedSamples = 0, lb_sumSquares = 0,
     lb_maxFastDb = 0xC3480000, lb_maxSlowDb = 0xC3480000, lb_peakDb = 0xC3480000, lb_flags = 0\<rparr>"

section \<open>The analysis thread's calls\<close>

fun enable_sinks :: "nat \<Rightarrow> SplLogChannelSpec list \<Rightarrow> ChannelSink option list \<Rightarrow> ring_error + ChannelSink option list" where
  "enable_sinks capacity [] sinks = Inr sinks"
| "enable_sinks capacity (spec # specs) sinks =
     (case channel_index (sp_channel spec) of
        None \<Rightarrow> enable_sinks capacity specs sinks
      | Some i \<Rightarrow>
          (case RingBuffer_new LogBlock_default capacity of
             Inl err \<Rightarrow> Inl err
           | Inr r \<Rightarrow>
               enable_sinks capacity specs (sinks[i := Some \<lparr>sk_channel = sp_channel spec, sk_ring = r, sk_writer = None,
                 sk_dropped = 0, sk_writeFailed = False\<rparr>])))"

text \<open>\<^verbatim>\<open>enable\<close> once its call of \<^verbatim>\<open>disable\<close> has returned: no writer thread exists.\<close>

definition pipeline_enable :: "SplLogEnableParams \<Rightarrow> SplLogPipeline \<Rightarrow> ring_error + SplLogPipeline" where
  "pipeline_enable params p =
     (let p = p\<lparr>pl_lastDropped := map (\<lambda>_. 0) (pl_lastDropped p), pl_lastWriteFailed := map (\<lambda>_. False) (pl_lastWriteFailed p)\<rparr>
      in case enable_sinks (ep_queueCapacityBlocks params) (ep_channels params) (pl_sinks p) of
           Inl err \<Rightarrow> Inl err
         | Inr sinks \<Rightarrow>
             Inr (p\<lparr>pl_sinks := sinks, pl_pendingParams := params, pl_running := True, pl_thread := SettingUp\<rparr>))"

text \<open>\<^verbatim>\<open>disable\<close> up to its join, which waits until the writer thread has returned.\<close>

definition pipeline_disable :: "SplLogPipeline \<Rightarrow> SplLogPipeline" where
  "pipeline_disable p = p\<lparr>pl_running := False\<rparr>"

definition pushBlock :: "int \<Rightarrow> LogBlock \<Rightarrow> SplLogPipeline \<Rightarrow> SplLogPipeline option" where
  "pushBlock channel b p =
     (case channel_index channel of
        None \<Rightarrow> Some p
      | Some i \<Rightarrow>
          (case pl_sinks p ! i of
             None \<Rightarrow> Some p
           | Some sink \<Rightarrow>
               (case RingBuffer_write (sk_ring sink) [b] of
                  None \<Rightarrow> None
                | Some (ok, r) \<Rightarrow>
                    Some (p\<lparr>pl_sinks := (pl_sinks p)[i := Some
                      (if ok then sink\<lparr>sk_ring := r\<rparr> else sink\<lparr>sk_ring := r, sk_dropped := sk_dropped sink + 1\<rparr>)]\<rparr>))))"

definition pipeline_droppedBlocks :: "int \<Rightarrow> SplLogPipeline \<Rightarrow> uint64_t" where
  "pipeline_droppedBlocks channel p =
     (case channel_index channel of
        None \<Rightarrow> 0
      | Some i \<Rightarrow> (case pl_sinks p ! i of None \<Rightarrow> pl_lastDropped p ! i | Some sink \<Rightarrow> sk_dropped sink))"

definition pipeline_writeFailed :: "int \<Rightarrow> SplLogPipeline \<Rightarrow> bool" where
  "pipeline_writeFailed channel p =
     (case channel_index channel of
        None \<Rightarrow> False
      | Some i \<Rightarrow> (case pl_sinks p ! i of None \<Rightarrow> pl_lastWriteFailed p ! i | Some sink \<Rightarrow> sk_writeFailed sink))"

section \<open>The writer thread\<close>

text \<open>Outcomes of one step: of each file it opens, and of the row it writes.\<close>

record step_outcome =
  so_open :: "nat \<Rightarrow> bool \<times> nat"
  so_write :: nat

fun setup_channels ::
  "platform \<Rightarrow> (nat \<Rightarrow> bool \<times> nat) \<Rightarrow> SplLogConfig \<Rightarrow> nat \<Rightarrow> SplLogChannelSpec list \<Rightarrow>
     ChannelSink option list \<times> (nat \<Rightarrow> disk) \<Rightarrow> string list \<Rightarrow> (ChannelSink option list \<times> (nat \<Rightarrow> disk)) \<times> string list"
where
  "setup_channels pf outs config j [] sf channelFiles = (sf, channelFiles)"
| "setup_channels pf outs config j (spec # specs) sf channelFiles =
     (case channel_index (sp_channel spec) of
        None \<Rightarrow> setup_channels pf outs config (Suc j) specs sf channelFiles
      | Some i \<Rightarrow>
          (case fst sf ! i of
             None \<Rightarrow> setup_channels pf outs config (Suc j) specs sf channelFiles
           | Some sink \<Rightarrow>
               (let (w, d) = SplLogWriter_new pf (outs j) (sp_basePath spec) config (sp_info spec) (lc_segmentBlocks config) (snd sf i);
                    sink = sink\<lparr>sk_writer := Some w, sk_writeFailed := sk_writeFailed sink \<or> lw_writeFailed w\<rparr>
                in setup_channels pf outs config (Suc j) specs ((fst sf)[i := Some sink], (snd sf)(i := d))
                     (channelFiles @ [last (lw_segmentPaths w)]))))"

definition setupWriters :: "platform \<Rightarrow> (nat \<Rightarrow> bool \<times> nat) \<Rightarrow> SplLogPipeline \<Rightarrow> SplLogPipeline" where
  "setupWriters pf outs p =
     (let params = pl_pendingParams p; specs = ep_channels params;
          ((sinks, files), channelFiles) =
            setup_channels pf outs (ep_config params) 0 specs (pl_sinks p, pl_files p) [];
          info = \<lparr>sh_startedAtUnixMs = ep_startedAtUnixMs params,
                  sh_sampleRate = (case specs of [] \<Rightarrow> 0 | spec # _ \<Rightarrow> hi_sampleRate (sp_info spec)),
                  sh_blockSamples = (case specs of [] \<Rightarrow> 0 | spec # _ \<Rightarrow> hi_blockSamples (sp_info spec)),
                  sh_channelFiles = channelFiles\<rparr>
      in p\<lparr>pl_sinks := sinks, pl_files := files,
           pl_header := (if ep_sessionHeaderPath params = [] then pl_header p
                         else writeSessionHeaderFile pf (outs (length specs)) (ep_sessionHeaderPath params) info (pl_header p))\<rparr>)"

text \<open>One step of \<^verbatim>\<open>drainOnce\<close> at slot \<open>i\<close>: a block is written and the slot is looked at again, or the slot is left.\<close>

definition drain_step :: "platform \<Rightarrow> step_outcome \<Rightarrow> bool \<Rightarrow> nat \<Rightarrow> SplLogPipeline \<Rightarrow> SplLogPipeline option" where
  "drain_step pf out final i p =
     (case pl_sinks p ! i of
        None \<Rightarrow> Some (p\<lparr>pl_thread := Draining final (Suc i)\<rparr>)
      | Some sink \<Rightarrow>
          (case (RingBuffer_read (sk_ring sink) 1, sk_writer sink) of
             (Some ([], r), Some w) \<Rightarrow>
               Some (p\<lparr>pl_sinks := (pl_sinks p)[i := Some (sink\<lparr>sk_ring := r,
                          sk_writeFailed := sk_writeFailed sink \<or> lw_writeFailed w\<rparr>)],
                       pl_thread := Draining final (Suc i)\<rparr>)
           | (Some (b # _, r), Some w) \<Rightarrow>
               (let (w', d) = SplLogWriter_write pf (so_open out 0) (so_write out) b (w, pl_files p i)
                in Some (p\<lparr>pl_sinks := (pl_sinks p)[i := Some (sink\<lparr>sk_ring := r, sk_writer := Some w'\<rparr>)],
                           pl_files := (pl_files p)(i := d)\<rparr>))
           | _ \<Rightarrow> None))"

definition close_all :: "SplLogPipeline \<Rightarrow> SplLogPipeline" where
  "close_all p =
     p\<lparr>pl_lastDropped := map2 (\<lambda>sink old. case sink of None \<Rightarrow> old | Some s \<Rightarrow> sk_dropped s) (pl_sinks p) (pl_lastDropped p),
       pl_lastWriteFailed := map2 (\<lambda>sink old. case sink of None \<Rightarrow> old | Some s \<Rightarrow> sk_writeFailed s) (pl_sinks p) (pl_lastWriteFailed p),
       pl_sinks := map (\<lambda>_. None) (pl_sinks p), pl_thread := NoThread\<rparr>"

definition writer_thread_step :: "platform \<Rightarrow> step_outcome \<Rightarrow> SplLogPipeline \<Rightarrow> SplLogPipeline option" where
  "writer_thread_step pf out p =
     (case pl_thread p of
        NoThread \<Rightarrow> Some p
      | SettingUp \<Rightarrow> Some ((setupWriters pf (so_open out) p)\<lparr>pl_thread := LoopTop\<rparr>)
      | LoopTop \<Rightarrow> Some (p\<lparr>pl_thread := Draining (\<not> pl_running p) 0\<rparr>)
      | Draining final i \<Rightarrow>
          (if i < kMaxLoggedChannels then drain_step pf out final i p
           else Some (p\<lparr>pl_thread := (if final then Closing else LoopTop)\<rparr>))
      | Closing \<Rightarrow> Some (close_all p))"

section \<open>Schedules\<close>

text \<open>A session: pushes and writer steps in any order, the stop request, then writer steps alone.\<close>

datatype pipeline_event = PushBlock int LogBlock | WriterStep step_outcome

fun pipeline_step :: "platform \<Rightarrow> pipeline_event \<Rightarrow> SplLogPipeline \<Rightarrow> SplLogPipeline option" where
  "pipeline_step pf (PushBlock channel b) p = pushBlock channel b p"
| "pipeline_step pf (WriterStep out) p = writer_thread_step pf out p"

fun pushed_to :: "int \<Rightarrow> pipeline_event list \<Rightarrow> LogBlock list" where
  "pushed_to channel [] = []"
| "pushed_to channel (PushBlock c b # es) = (if c = channel then b # pushed_to channel es else pushed_to channel es)"
| "pushed_to channel (WriterStep _ # es) = pushed_to channel es"

section \<open>One channel's blocks\<close>

lemma channel_index_iff: "channel_index c = Some i \<longleftrightarrow> c = int i \<and> i < kMaxLoggedChannels"
  by (auto simp: channel_index_def)

text \<open>A slot the last pass has left, or the thread past its passes.\<close>

fun settled :: "nat \<Rightarrow> writer_position \<Rightarrow> bool" where
  "settled i (Draining final c) \<longleftrightarrow> final \<and> i < c"
| "settled i Closing \<longleftrightarrow> True"
| "settled i _ \<longleftrightarrow> False"

text \<open>Everything accepted is written or waiting, in the order of the pushes; everything else is counted.\<close>

definition queue_inv :: "LogBlock list \<Rightarrow> LogBlock list \<Rightarrow> ChannelSink \<Rightarrow> bool" where
  "queue_inv pushes written sink \<longleftrightarrow>
     ring_inv (sk_ring sink) \<and> subseq (written @ ring_contents (sk_ring sink)) pushes \<and>
     length written + length (ring_contents (sk_ring sink)) + unat (sk_dropped sink) = length pushes"

definition wrote ::
  "platform \<Rightarrow> SplLogConfig \<Rightarrow> SplLogChannelSpec \<Rightarrow> LogBlock list \<Rightarrow> SplLogWriter \<times> disk \<Rightarrow> bool"
where
  "wrote pf config spec written wd \<longleftrightarrow>
     (\<exists>ops out. list_all is_write ops \<and> concat (map written_block ops) = written \<and>
        fold (writer_step pf) ops (SplLogWriter_new pf out (sp_basePath spec) config (sp_info spec)
          (lc_segmentBlocks config) (\<lambda>_. None)) = wd)"

definition sink_inv ::
  "platform \<Rightarrow> SplLogConfig \<Rightarrow> SplLogChannelSpec \<Rightarrow> LogBlock list \<Rightarrow> bool \<Rightarrow> bool \<Rightarrow> ChannelSink \<Rightarrow> disk \<Rightarrow> bool"
where
  "sink_inv pf config spec pushes setup left sink d \<longleftrightarrow>
     (\<exists>written. queue_inv pushes written sink \<and>
        (if setup then written = [] \<and> d = (\<lambda>_. None)
         else \<exists>w. sk_writer sink = Some w \<and> wrote pf config spec written (w, d) \<and>
                (left \<longrightarrow> ring_contents (sk_ring sink) = [] \<and> (lw_writeFailed w \<longrightarrow> sk_writeFailed sink))))"

lemma queue_push:
  assumes inv: "queue_inv pushes written sink" and few: "length pushes < 2 ^ 64 - 1"
  obtains sink' where "map_option (\<lambda>(ok, r). if ok then sink\<lparr>sk_ring := r\<rparr> else sink\<lparr>sk_ring := r, sk_dropped := sk_dropped sink + 1\<rparr>)
      (RingBuffer_write (sk_ring sink) [b]) = Some sink'"
    "queue_inv (pushes @ [b]) written sink'" "sk_writer sink' = sk_writer sink"
proof -
  let ?r = "sk_ring sink"
  have r: "ring_inv ?r" "in_memory [b]"
    using inv by (simp_all add: queue_inv_def in_memory_def)
  show ?thesis
  proof (cases "length (ring_contents ?r) + length [b] \<le> length (storage ?r)")
    case True
    then obtain r' where r': "RingBuffer_write ?r [b] = Some (True, r')" "ring_inv r'" "ring_contents r' = ring_contents ?r @ [b]"
      using RingBuffer_write_fits [OF r] by blast
    have "subseq ((written @ ring_contents ?r) @ [b]) (pushes @ [b])"
      unfolding subseq_append using inv by (simp add: queue_inv_def)
    then have "queue_inv (pushes @ [b]) written (sink\<lparr>sk_ring := r'\<rparr>)"
      using inv r' by (simp add: queue_inv_def)
    then show ?thesis
      using that r'(1) by simp
  next
    case False
    then have full: "RingBuffer_write ?r [b] = Some (False, ?r)"
      using RingBuffer_write_full [OF r] by simp
    have "unat (sk_dropped sink + 1) = Suc (unat (sk_dropped sink))"
      using unat_succ [of "sk_dropped sink" "length pushes"] inv few by (simp add: queue_inv_def)
    moreover have "subseq (written @ ring_contents ?r) (pushes @ [b])"
      using inv by (simp add: queue_inv_def subseq_rev_drop_many)
    ultimately have "queue_inv (pushes @ [b]) written (sink\<lparr>sk_dropped := sk_dropped sink + 1\<rparr>)"
      using inv by (simp add: queue_inv_def)
    then show ?thesis
      using that full by simp
  qed
qed

lemma queue_pop:
  assumes inv: "queue_inv pushes written sink"
  obtains r where "RingBuffer_read (sk_ring sink) 1 = Some ([], r)" "ring_contents (sk_ring sink) = []" "ring_contents r = []"
      "queue_inv pushes written (sink\<lparr>sk_ring := r\<rparr>)"
  | b r where "RingBuffer_read (sk_ring sink) 1 = Some ([b], r)" "length (ring_contents (sk_ring sink)) = Suc (length (ring_contents r))"
      "queue_inv pushes (written @ [b]) (sink\<lparr>sk_ring := r\<rparr>)"
proof -
  let ?r = "sk_ring sink"
  have "ring_inv ?r"
    using inv by (simp add: queue_inv_def)
  then obtain r where r: "RingBuffer_read ?r 1 = Some (take 1 (ring_contents ?r), r)" "ring_inv r" "ring_contents r = drop 1 (ring_contents ?r)"
    using RingBuffer_read_contents [of ?r 1] by auto
  show ?thesis
  proof (cases "ring_contents ?r")
    case Nil
    then show ?thesis
      using that(1) [of r] r inv by (simp add: queue_inv_def)
  next
    case (Cons b bs)
    then show ?thesis
      using that(2) [of b r] r inv by (simp add: queue_inv_def)
  qed
qed

lemma wrote_next:
  assumes "wrote pf config spec written (w, d)" "SplLogWriter_write pf out n b (w, d) = (w', d')"
  shows "wrote pf config spec (written @ [b]) (w', d')"
proof -
  obtain ops out0 where ops: "list_all is_write ops" "concat (map written_block ops) = written"
      "fold (writer_step pf) ops (SplLogWriter_new pf out0 (sp_basePath spec) config (sp_info spec)
          (lc_segmentBlocks config) (\<lambda>_. None)) = (w, d)"
    using assms(1) by (auto simp: wrote_def)
  show ?thesis
    unfolding wrote_def
    by (rule exI [of _ "ops @ [WriteBlock out n b]"], rule exI [of _ out0]) (use ops assms(2) in simp)
qed

section \<open>All channels\<close>

definition spec_at :: "SplLogEnableParams \<Rightarrow> nat \<Rightarrow> SplLogChannelSpec option" where
  "spec_at params i = find (\<lambda>spec. sp_channel spec = int i) (ep_channels params)"

definition slot_inv ::
  "platform \<Rightarrow> SplLogEnableParams \<Rightarrow> pipeline_event list \<Rightarrow> writer_position \<Rightarrow> nat \<Rightarrow> ChannelSink option \<Rightarrow> disk \<Rightarrow> bool"
where
  "slot_inv pf params es th i slot d \<longleftrightarrow>
     (case (spec_at params i, slot) of
        (None, None) \<Rightarrow> True
      | (Some spec, Some sink) \<Rightarrow>
          sink_inv pf (ep_config params) spec (pushed_to (int i) es) (th = SettingUp) (settled i th) sink d
      | _ \<Rightarrow> False)"

definition pipeline_inv :: "platform \<Rightarrow> SplLogEnableParams \<Rightarrow> pipeline_event list \<Rightarrow> SplLogPipeline \<Rightarrow> bool" where
  "pipeline_inv pf params es p \<longleftrightarrow>
     pl_pendingParams p = params \<and> length (pl_sinks p) = kMaxLoggedChannels \<and> pl_thread p \<noteq> NoThread \<and>
     length (pl_lastDropped p) = kMaxLoggedChannels \<and> length (pl_lastWriteFailed p) = kMaxLoggedChannels \<and>
     (\<forall>i < kMaxLoggedChannels. slot_inv pf params es (pl_thread p) i (pl_sinks p ! i) (pl_files p i))"

lemma pushed_to_append [simp]: "pushed_to c (es @ es') = pushed_to c es @ pushed_to c es'"
  by (induction es rule: pushed_to.induct) simp_all

lemma pushed_to_length: "length (pushed_to c es) \<le> length es"
  by (induction es rule: pushed_to.induct) (auto intro: le_SucI)

lemma slot_inv_cong:
  assumes "pushed_to (int i) es = pushed_to (int i) es'" "(th = SettingUp) = (th' = SettingUp)" "settled i th = settled i th'"
  shows "slot_inv pf params es th i slot d = slot_inv pf params es' th' i slot d"
  using assms by (simp add: slot_inv_def split: option.split)

lemma slots_update:
  assumes inv: "pipeline_inv pf params es p" and i: "i < kMaxLoggedChannels"
    and p': "pl_pendingParams p' = pl_pendingParams p" "pl_lastDropped p' = pl_lastDropped p"
      "pl_lastWriteFailed p' = pl_lastWriteFailed p" "pl_sinks p' = (pl_sinks p)[i := slot]" "pl_files p' = (pl_files p)(i := d)"
    and slot: "slot_inv pf params es' (pl_thread p') i slot d"
    and th: "pl_thread p' \<noteq> NoThread" "(pl_thread p = SettingUp) = (pl_thread p' = SettingUp)"
    and rest: "\<forall>j. j \<noteq> i \<longrightarrow> pushed_to (int j) es = pushed_to (int j) es' \<and> settled j (pl_thread p) = settled j (pl_thread p')"
  shows "pipeline_inv pf params es' p'"
proof -
  have "slot_inv pf params es' (pl_thread p') j (pl_sinks p' ! j) (pl_files p' j)" if "j < kMaxLoggedChannels" for j
  proof (cases "j = i")
    case True
    then show ?thesis
      using inv slot i p' by (simp add: pipeline_inv_def)
  next
    case False
    then show ?thesis
      using inv that p'(4,5) slot_inv_cong [of j es es' "pl_thread p" "pl_thread p'"] rest th(2)
      by (auto simp: pipeline_inv_def)
  qed
  then show ?thesis
    using inv p' th by (simp add: pipeline_inv_def)
qed

lemma sink_push:
  assumes inv: "sink_inv pf config spec pushes setup False sink d" and few: "length pushes < 2 ^ 64 - 1"
  obtains sink' where "map_option (\<lambda>(ok, r). if ok then sink\<lparr>sk_ring := r\<rparr> else sink\<lparr>sk_ring := r, sk_dropped := sk_dropped sink + 1\<rparr>)
      (RingBuffer_write (sk_ring sink) [b]) = Some sink'"
    "sink_inv pf config spec (pushes @ [b]) setup False sink' d"
proof -
  obtain written where w: "queue_inv pushes written sink" and rest: "if setup then written = [] \<and> d = (\<lambda>_. None)
      else \<exists>w. sk_writer sink = Some w \<and> wrote pf config spec written (w, d)"
    using inv by (auto simp: sink_inv_def split: if_splits)
  from queue_push [OF w few, of b] obtain sink' where
    "map_option (\<lambda>(ok, r). if ok then sink\<lparr>sk_ring := r\<rparr> else sink\<lparr>sk_ring := r, sk_dropped := sk_dropped sink + 1\<rparr>)
      (RingBuffer_write (sk_ring sink) [b]) = Some sink'"
    "queue_inv (pushes @ [b]) written sink'" "sk_writer sink' = sk_writer sink"
    by blast
  moreover from this(2,3) rest have "sink_inv pf config spec (pushes @ [b]) setup False sink' d"
    unfolding sink_inv_def by (intro exI [of _ written]) simp
  ultimately show ?thesis
    using that by blast
qed

lemma push_inv:
  assumes inv: "pipeline_inv pf params es p" and open_pass: "\<forall>i. \<not> settled i (pl_thread p)" and few: "length es < 2 ^ 64 - 1"
  obtains p' where "pushBlock channel b p = Some p'" "pipeline_inv pf params (es @ [PushBlock channel b]) p'"
    "pl_thread p' = pl_thread p" "pl_running p' = pl_running p"
proof (cases "channel_index channel")
  case None
  then have "channel \<noteq> int i" if "i < kMaxLoggedChannels" for i
    using that by (auto simp: channel_index_def split: if_splits)
  then have "slot_inv pf params (es @ [PushBlock channel b]) (pl_thread p) i = slot_inv pf params es (pl_thread p) i"
    if "i < kMaxLoggedChannels" for i
    using that by (intro ext slot_inv_cong) simp_all
  then have "pipeline_inv pf params (es @ [PushBlock channel b]) p"
    using inv by (simp add: pipeline_inv_def)
  then show ?thesis
    using that None by (simp add: pushBlock_def)
next
  case (Some i)
  then have i: "channel = int i" "i < kMaxLoggedChannels"
    by (simp_all add: channel_index_iff)
  have slot: "slot_inv pf params es (pl_thread p) i (pl_sinks p ! i) (pl_files p i)"
    using inv i(2) by (simp add: pipeline_inv_def)
  note step = slots_update [OF inv i(2), where es' = "es @ [PushBlock channel b]" and d = "pl_files p i"]
  have th: "pl_thread p \<noteq> NoThread"
    using inv by (simp add: pipeline_inv_def)
  show ?thesis
  proof (cases "pl_sinks p ! i")
    case None
    then have "slot_inv pf params (es @ [PushBlock channel b]) (pl_thread p) i None (pl_files p i)"
      using slot by (simp add: slot_inv_def split: option.splits)
    then have "pipeline_inv pf params (es @ [PushBlock channel b]) p"
      using step [of p None] th i list_update_id [of "pl_sinks p" i] by (simp add: None)
    then show ?thesis
      using that None Some by (simp add: pushBlock_def)
  next
    case sink: (Some sink)
    then obtain spec where spec: "spec_at params i = Some spec"
      "sink_inv pf (ep_config params) spec (pushed_to (int i) es) (pl_thread p = SettingUp) False sink (pl_files p i)"
      using slot open_pass by (auto simp: slot_inv_def split: option.splits)
    have "length (pushed_to (int i) es) < 2 ^ 64 - 1"
      using few pushed_to_length [of "int i" es] by simp
    from sink_push [OF spec(2) this, of b] obtain sink' where sink':
      "map_option (\<lambda>(ok, r). if ok then sink\<lparr>sk_ring := r\<rparr> else sink\<lparr>sk_ring := r, sk_dropped := sk_dropped sink + 1\<rparr>)
        (RingBuffer_write (sk_ring sink) [b]) = Some sink'"
      "sink_inv pf (ep_config params) spec (pushed_to (int i) es @ [b]) (pl_thread p = SettingUp) False sink' (pl_files p i)"
      by blast
    let ?p = "p\<lparr>pl_sinks := (pl_sinks p)[i := Some sink']\<rparr>"
    have "pushBlock channel b p = Some ?p"
      using sink'(1) sink Some by (auto simp: pushBlock_def split: option.splits)
    moreover have "pipeline_inv pf params (es @ [PushBlock channel b]) ?p"
      by (rule step [of ?p "Some sink'"]) (use sink'(2) spec(1) th i open_pass in \<open>simp_all add: slot_inv_def\<close>)
    ultimately show ?thesis
      using that by simp
  qed
qed

section \<open>The writer's steps\<close>

definition queued :: "SplLogPipeline \<Rightarrow> nat" where
  "queued p = sum_list (map (\<lambda>slot. case slot of None \<Rightarrow> 0 | Some sink \<Rightarrow> length (ring_contents (sk_ring sink))) (pl_sinks p))"

lemma queued_update:
  assumes "i < length (pl_sinks p)" "pl_sinks p ! i = Some sink" "pl_sinks p' = (pl_sinks p)[i := Some sink']"
  shows "queued p' + length (ring_contents (sk_ring sink)) = queued p + length (ring_contents (sk_ring sink'))"
proof -
  let ?f = "\<lambda>slot. case slot of None \<Rightarrow> 0 | Some sink \<Rightarrow> length (ring_contents (sk_ring sink))"
  have "?f (pl_sinks p ! i) \<le> sum_list (map ?f (pl_sinks p))"
    using assms(1) by (intro member_le_sum_list) auto
  then show ?thesis
    using assms by (simp add: queued_def map_update sum_list_update)
qed

lemma drain_inv:
  assumes inv: "pipeline_inv pf params es p" and th: "pl_thread p = Draining final i" and i: "i < kMaxLoggedChannels"
  obtains p' where "drain_step pf out final i p = Some p'" "pipeline_inv pf params es p'" "pl_running p' = pl_running p"
    "pl_thread p' = Draining final (Suc i) \<and> queued p' = queued p \<or> pl_thread p' = pl_thread p \<and> queued p' < queued p"
proof -
  have slot: "slot_inv pf params es (pl_thread p) i (pl_sinks p ! i) (pl_files p i)" and len: "i < length (pl_sinks p)"
    using inv i by (simp_all add: pipeline_inv_def)
  note step = slots_update [OF inv i, where es' = es]
  have others: "\<forall>j. j \<noteq> i \<longrightarrow> settled j (pl_thread p) = settled j (Draining final (Suc i))"
    by (auto simp: th)
  show ?thesis
  proof (cases "pl_sinks p ! i")
    case None
    let ?p = "p\<lparr>pl_thread := Draining final (Suc i)\<rparr>"
    have "slot_inv pf params es (Draining final (Suc i)) i None (pl_files p i)"
      using slot None by (simp add: slot_inv_def split: option.splits)
    then have "pipeline_inv pf params es ?p"
      using step [where p' = ?p and slot = None and d = "pl_files p i"] others th list_update_id [of "pl_sinks p" i]
      by (simp add: None)
    then show ?thesis
      using that None by (simp add: drain_step_def queued_def)
  next
    case (Some sink)
    then obtain spec written w where spec: "spec_at params i = Some spec"
        and q: "queue_inv (pushed_to (int i) es) written sink"
        and w: "sk_writer sink = Some w" "wrote pf (ep_config params) spec written (w, pl_files p i)"
      using slot th by (auto simp: slot_inv_def sink_inv_def split: option.splits)
    from q show ?thesis
    proof (cases rule: queue_pop)
      case (1 r)
      let ?sink = "sink\<lparr>sk_ring := r, sk_writeFailed := sk_writeFailed sink \<or> lw_writeFailed w\<rparr>"
      let ?p = "p\<lparr>pl_sinks := (pl_sinks p)[i := Some ?sink], pl_thread := Draining final (Suc i)\<rparr>"
      have "queue_inv (pushed_to (int i) es) written ?sink"
        using 1(4) by (simp add: queue_inv_def)
      then have "slot_inv pf params es (Draining final (Suc i)) i (Some ?sink) (pl_files p i)"
        using spec w 1(3) by (auto simp: slot_inv_def sink_inv_def)
      then have "pipeline_inv pf params es ?p"
        using step [where p' = ?p and slot = "Some ?sink" and d = "pl_files p i"] others th by simp
      moreover have "queued ?p = queued p"
        using queued_update [OF len Some, of ?p ?sink] 1(2,3) by simp
      ultimately show ?thesis
        using that Some 1(1) w(1) by (simp add: drain_step_def)
    next
      case (2 b r)
      obtain w' d' where row: "SplLogWriter_write pf (so_open out 0) (so_write out) b (w, pl_files p i) = (w', d')"
        by fastforce
      let ?sink = "sink\<lparr>sk_ring := r, sk_writer := Some w'\<rparr>"
      let ?p = "p\<lparr>pl_sinks := (pl_sinks p)[i := Some ?sink], pl_files := (pl_files p)(i := d')\<rparr>"
      have "queue_inv (pushed_to (int i) es) (written @ [b]) ?sink"
        using 2(3) by (simp add: queue_inv_def)
      then have "slot_inv pf params es (pl_thread p) i (Some ?sink) d'"
        using spec wrote_next [OF w(2) row] th by (auto simp: slot_inv_def sink_inv_def)
      then have "pipeline_inv pf params es ?p"
        using step [where p' = ?p and slot = "Some ?sink" and d = d'] th by simp
      moreover have "queued ?p < queued p"
        using queued_update [OF len Some, of ?p ?sink] 2(2) by simp
      ultimately show ?thesis
        using that Some 2(1) w(1) row by (simp add: drain_step_def)
    qed
  qed
qed

text \<open>The channels that \<open>setup_channels\<close> still has ahead are as the enabling call left them.\<close>

lemma setup_channels_slot:
  assumes "distinct (map sp_channel specs)" "i < length (fst sf)" "setup_channels pf outs config j specs sf cf = ((sinks', files'), cf')"
  shows "length sinks' = length (fst sf) \<and>
     (case find (\<lambda>spec. sp_channel spec = int i) specs of
        None \<Rightarrow> sinks' ! i = fst sf ! i \<and> files' i = snd sf i
      | Some spec \<Rightarrow>
          (i < kMaxLoggedChannels \<longrightarrow>
             (case fst sf ! i of
                None \<Rightarrow> sinks' ! i = None \<and> files' i = snd sf i
              | Some sink \<Rightarrow>
                  (\<exists>out w. SplLogWriter_new pf out (sp_basePath spec) config (sp_info spec) (lc_segmentBlocks config) (snd sf i) =
                     (w, files' i) \<and>
                     sinks' ! i = Some (sink\<lparr>sk_writer := Some w, sk_writeFailed := sk_writeFailed sink \<or> lw_writeFailed w\<rparr>)))))"
  using assms
proof (induction specs arbitrary: j sf cf)
  case (Cons spec specs)
  show ?case
  proof (cases "channel_index (sp_channel spec)")
    case None
    then have "setup_channels pf outs config (Suc j) specs sf cf = ((sinks', files'), cf')"
      using Cons.prems(3) by simp
    from Cons.IH [OF _ _ this] Cons.prems None show ?thesis
      by (auto simp: channel_index_def split: if_splits option.splits)
  next
    case (Some k)
    show ?thesis
    proof (cases "fst sf ! k")
      case none: None
      then have "setup_channels pf outs config (Suc j) specs sf cf = ((sinks', files'), cf')"
        using Cons.prems(3) Some by simp
      from Cons.IH [OF _ _ this] Cons.prems none Some show ?thesis
        by (auto simp: channel_index_iff find_None_iff split: option.splits)
    next
      case sink: (Some sink)
      obtain w d where w: "SplLogWriter_new pf (outs j) (sp_basePath spec) config (sp_info spec) (lc_segmentBlocks config) (snd sf k) = (w, d)"
        by fastforce
      let ?sf = "((fst sf)[k := Some (sink\<lparr>sk_writer := Some w, sk_writeFailed := sk_writeFailed sink \<or> lw_writeFailed w\<rparr>)], (snd sf)(k := d))"
      have rec: "setup_channels pf outs config (Suc j) specs ?sf (cf @ [last (lw_segmentPaths w)]) = ((sinks', files'), cf')"
        using Cons.prems(3) Some sink w by simp
      have k: "sp_channel spec = int k"
        using Some by (simp add: channel_index_iff)
      show ?thesis
      proof (cases "k = i")
        case True
        then have "find (\<lambda>spec. sp_channel spec = int i) specs = None"
          using Cons.prems(1) k by (force simp: find_None_iff)
        then have "length sinks' = length (fst sf)" "files' i = d"
            "sinks' ! i = Some (sink\<lparr>sk_writer := Some w, sk_writeFailed := sk_writeFailed sink \<or> lw_writeFailed w\<rparr>)"
          using Cons.IH [OF _ _ rec] Cons.prems(1,2) True by simp_all
        then show ?thesis
          using True k sink w by (simp del: split_paired_Ex) blast
      next
        case False
        then have same: "fst ?sf ! i = fst sf ! i" "snd ?sf i = snd sf i" "length (fst ?sf) = length (fst sf)"
          by simp_all
        have skip: "find (\<lambda>spec. sp_channel spec = int i) (spec # specs) = find (\<lambda>spec. sp_channel spec = int i) specs"
          using False k by simp
        show ?thesis
          using Cons.IH [OF _ _ rec] Cons.prems(1,2) unfolding same skip by simp
      qed
    qed
  qed
qed simp

lemma setup_inv:
  assumes inv: "pipeline_inv pf params es p" and th: "pl_thread p = SettingUp" and distinct: "distinct (map sp_channel (ep_channels params))"
  shows "pipeline_inv pf params es ((setupWriters pf outs p)\<lparr>pl_thread := LoopTop\<rparr>)"
    and "pl_running (setupWriters pf outs p) = pl_running p" "queued (setupWriters pf outs p) = queued p"
proof -
  obtain sinks files cf where made: "setup_channels pf outs (ep_config params) 0 (ep_channels params) (pl_sinks p, pl_files p) [] = ((sinks, files), cf)"
    by (metis surj_pair)
  have params: "pl_pendingParams p = params" and len: "length (pl_sinks p) = kMaxLoggedChannels"
    using inv by (simp_all add: pipeline_inv_def)
  have fields: "pl_sinks (setupWriters pf outs p) = sinks" "pl_files (setupWriters pf outs p) = files"
      "pl_pendingParams (setupWriters pf outs p) = params" "pl_lastDropped (setupWriters pf outs p) = pl_lastDropped p"
      "pl_lastWriteFailed (setupWriters pf outs p) = pl_lastWriteFailed p"
    using made params by (simp_all add: setupWriters_def Let_def)
  show "pl_running (setupWriters pf outs p) = pl_running p"
    using made params by (simp add: setupWriters_def Let_def)
  have each: "slot_inv pf params es LoopTop i (sinks ! i) (files i) \<and>
      (case sinks ! i of None \<Rightarrow> pl_sinks p ! i = None
       | Some sink \<Rightarrow> map_option sk_ring (pl_sinks p ! i) = Some (sk_ring sink))" if i: "i < kMaxLoggedChannels" for i
  proof -
    have slot: "slot_inv pf params es SettingUp i (pl_sinks p ! i) (pl_files p i)"
      using inv th i by (simp add: pipeline_inv_def)
    note after = setup_channels_slot [OF distinct _ made, of i, simplified len spec_at_def [symmetric]]
    show ?thesis
    proof (cases "spec_at params i")
      case None
      then show ?thesis
        using slot after i len by (auto simp: slot_inv_def spec_at_def split: option.splits)
    next
      case (Some spec)
      then obtain sink written where sink: "pl_sinks p ! i = Some sink" "queue_inv (pushed_to (int i) es) [] sink" "pl_files p i = (\<lambda>_. None)"
        using slot by (auto simp: slot_inv_def sink_inv_def split: option.splits)
      then obtain out w where w: "SplLogWriter_new pf out (sp_basePath spec) (ep_config params) (sp_info spec)
            (lc_segmentBlocks (ep_config params)) (\<lambda>_. None) = (w, files i)"
          "sinks ! i = Some (sink\<lparr>sk_writer := Some w, sk_writeFailed := sk_writeFailed sink \<or> lw_writeFailed w\<rparr>)"
        using after i len Some by (auto simp: spec_at_def)
      have "wrote pf (ep_config params) spec [] (w, files i)"
        unfolding wrote_def by (rule exI [of _ "[]"], rule exI [of _ out]) (use w(1) in simp)
      moreover have "queue_inv (pushed_to (int i) es) [] (sink\<lparr>sk_writer := Some w, sk_writeFailed := sk_writeFailed sink \<or> lw_writeFailed w\<rparr>)"
        using sink(2) by (simp add: queue_inv_def)
      ultimately show ?thesis
        using Some sink(1) w(2) by (auto simp: slot_inv_def sink_inv_def)
    qed
  qed
  have len': "length sinks = kMaxLoggedChannels"
    using setup_channels_slot [OF distinct _ made, of 0] len by (simp add: kMaxLoggedChannels_def)
  show "pipeline_inv pf params es ((setupWriters pf outs p)\<lparr>pl_thread := LoopTop\<rparr>)"
    using inv each len' by (simp add: pipeline_inv_def fields)
  have "map (\<lambda>slot. case slot of None \<Rightarrow> 0 | Some sink \<Rightarrow> length (ring_contents (sk_ring sink))) sinks =
      map (\<lambda>slot. case slot of None \<Rightarrow> 0 | Some sink \<Rightarrow> length (ring_contents (sk_ring sink))) (pl_sinks p)"
    by (rule nth_equalityI) (use each len len' in \<open>fastforce split: option.splits\<close>)+
  then show "queued (setupWriters pf outs p) = queued p"
    by (simp add: queued_def fields)
qed

section \<open>From the first push to the end of the thread\<close>

text \<open>How many steps the writer thread still makes at most once the stop is requested.\<close>

fun steps_left :: "writer_position \<Rightarrow> nat" where
  "steps_left NoThread = 0"
| "steps_left Closing = 1"
| "steps_left (Draining True i) = 2 + (kMaxLoggedChannels - i)"
| "steps_left LoopTop = 3 + kMaxLoggedChannels"
| "steps_left SettingUp = 4 + kMaxLoggedChannels"
| "steps_left (Draining False i) = 4 + kMaxLoggedChannels + (kMaxLoggedChannels - i)"

fun in_session :: "writer_position \<Rightarrow> bool" where
  "in_session SettingUp \<longleftrightarrow> True"
| "in_session LoopTop \<longleftrightarrow> True"
| "in_session (Draining final _) \<longleftrightarrow> \<not> final"
| "in_session _ \<longleftrightarrow> False"

lemma in_session_unsettled: "in_session th \<Longrightarrow> \<not> settled i th" "in_session th \<Longrightarrow> th \<noteq> Closing"
  by (cases th; simp)+

lemma thread_inv:
  assumes inv: "pipeline_inv pf params es p" and distinct: "distinct (map sp_channel (ep_channels params))"
    and busy: "pl_thread p \<noteq> Closing"
  obtains p' where "writer_thread_step pf out p = Some p'" "pipeline_inv pf params es p'" "pl_running p' = pl_running p"
    "\<not> pl_running p \<Longrightarrow> queued p' + steps_left (pl_thread p') < queued p + steps_left (pl_thread p)"
    "pl_running p \<Longrightarrow> in_session (pl_thread p) \<Longrightarrow> in_session (pl_thread p')"
proof (cases "pl_thread p")
  case NoThread
  then show ?thesis
    using inv by (simp add: pipeline_inv_def)
next
  case SettingUp
  then show ?thesis
    using that setup_inv [OF inv SettingUp distinct, of "so_open out"] by (simp add: writer_thread_step_def queued_def)
next
  case LoopTop
  have "slot_inv pf params es (Draining (\<not> pl_running p) 0) i slot d = slot_inv pf params es (pl_thread p) i slot d" for i slot d
    by (rule slot_inv_cong) (simp_all add: LoopTop)
  then have "pipeline_inv pf params es (p\<lparr>pl_thread := Draining (\<not> pl_running p) 0\<rparr>)"
    using inv by (simp add: pipeline_inv_def)
  then show ?thesis
    using that LoopTop by (simp add: writer_thread_step_def queued_def)
next
  case (Draining final i)
  show ?thesis
  proof (cases "i < kMaxLoggedChannels")
    case True
    then obtain p' where p': "drain_step pf out final i p = Some p'" "pipeline_inv pf params es p'" "pl_running p' = pl_running p"
        "pl_thread p' = Draining final (Suc i) \<and> queued p' = queued p \<or> pl_thread p' = pl_thread p \<and> queued p' < queued p"
      using drain_inv [OF inv Draining, of out] by blast
    moreover have "queued p' + steps_left (pl_thread p') < queued p + steps_left (pl_thread p)"
      using p'(4) Draining True by (cases final) auto
    moreover have "in_session (pl_thread p')" if "in_session (pl_thread p)"
      using that p'(4) Draining by auto
    ultimately show ?thesis
      using that Draining True by (simp add: writer_thread_step_def)
  next
    case False
    let ?p = "p\<lparr>pl_thread := (if final then Closing else LoopTop)\<rparr>"
    have "slot_inv pf params es (pl_thread ?p) k slot d = slot_inv pf params es (pl_thread p) k slot d" if "k < kMaxLoggedChannels" for k slot d
      using that False by (intro slot_inv_cong) (simp_all add: Draining)
    then have "pipeline_inv pf params es ?p"
      using inv by (simp add: pipeline_inv_def)
    then show ?thesis
      using that Draining False by (cases final) (simp_all add: writer_thread_step_def queued_def)
  qed
next
  case Closing
  then show ?thesis
    using busy by simp
qed

lemma session_run:
  assumes "distinct (map sp_channel (ep_channels params))"
    and "pipeline_inv pf params hist p" "pl_running p" "in_session (pl_thread p)" "length hist + length es < 2 ^ 64 - 1"
  obtains p' where "fold_opt (pipeline_step pf) es p = Some p'" "pipeline_inv pf params (hist @ es) p'" "in_session (pl_thread p')"
  using assms(2-5)
proof (induction es arbitrary: hist p thesis)
  case (Cons e es)
  have "\<exists>p'. pipeline_step pf e p = Some p' \<and> pipeline_inv pf params (hist @ [e]) p' \<and> pl_running p' \<and> in_session (pl_thread p')"
  proof (cases e)
    case (PushBlock channel b)
    then show ?thesis
      using push_inv [OF Cons.prems(2), of channel b] Cons.prems in_session_unsettled(1) by (metis add_lessD1 pipeline_step.simps(1))
  next
    case (WriterStep out)
    obtain p' where p': "writer_thread_step pf out p = Some p'" "pipeline_inv pf params hist p'" "pl_running p'" "in_session (pl_thread p')"
      using thread_inv [OF Cons.prems(2) assms(1) in_session_unsettled(2) [OF Cons.prems(4)], of out] Cons.prems(3,4) by metis
    have "slot_inv pf params (hist @ [e]) th i slot d = slot_inv pf params hist th i slot d" for th i slot d
      by (rule slot_inv_cong) (simp_all add: WriterStep)
    then have "pipeline_inv pf params (hist @ [e]) p'"
      using p'(2) by (simp add: pipeline_inv_def)
    then show ?thesis
      using p' WriterStep by simp
  qed
  then obtain p' where "pipeline_step pf e p = Some p'" "pipeline_inv pf params (hist @ [e]) p'" "pl_running p'" "in_session (pl_thread p')"
    by blast
  with Cons.IH [where hist = "hist @ [e]" and p = p'] Cons.prems(1,5) show ?case
    by auto
qed simp

text \<open>After the stop the thread ends within that many steps, and what it leaves is its state at the end of the last pass.\<close>

lemma thread_ends:
  assumes "distinct (map sp_channel (ep_channels params))"
    and "pipeline_inv pf params es p" "\<not> pl_running p" "queued p + steps_left (pl_thread p) \<le> length outs"
  obtains p' where "fold_opt (writer_thread_step pf) outs p = Some (close_all p')" "pipeline_inv pf params es p'"
    "pl_thread p' = Closing"
  using assms(2-4)
proof (induction outs arbitrary: p thesis)
  case Nil
  then have "steps_left (pl_thread p) = 0"
    by simp
  then show ?case
    using Nil.prems(2) by (cases "pl_thread p" rule: steps_left.cases) (simp_all add: pipeline_inv_def)
next
  case (Cons out outs)
  show ?case
  proof (cases "pl_thread p = Closing")
    case True
    have stay: "fold_opt (writer_thread_step pf) os q = Some q" if "pl_thread q = NoThread" for os q
      using that by (induction os) (simp_all add: writer_thread_step_def)
    have "writer_thread_step pf out p = Some (close_all p)"
      using True by (simp add: writer_thread_step_def)
    moreover have "pl_thread (close_all p) = NoThread"
      by (simp add: close_all_def)
    ultimately show ?thesis
      using Cons.prems(1) [OF _ Cons.prems(2) True] stay by simp
  next
    case False
    then obtain p' where p': "writer_thread_step pf out p = Some p'" "pipeline_inv pf params es p'" "\<not> pl_running p'"
        "queued p' + steps_left (pl_thread p') < queued p + steps_left (pl_thread p)"
      using thread_inv [OF Cons.prems(2) assms(1) False, of out] Cons.prems(3) by metis
    with Cons.IH [of p'] Cons.prems(1,4) show ?thesis
      by auto
  qed
qed

section \<open>A whole session\<close>

definition pipeline_idle :: "SplLogPipeline \<Rightarrow> bool" where
  "pipeline_idle p \<longleftrightarrow> pl_sinks p = replicate kMaxLoggedChannels None \<and> length (pl_lastDropped p) = kMaxLoggedChannels \<and>
     length (pl_lastWriteFailed p) = kMaxLoggedChannels \<and> pl_thread p = NoThread"

lemma enable_sinks_slot:
  assumes "enable_sinks cap specs sinks = Inr sinks'" "cap \<le> 2 ^ 63" "i < length sinks" "length sinks = kMaxLoggedChannels"
  shows "length sinks' = length sinks \<and>
     (case find (\<lambda>spec. sp_channel spec = int i) specs of
        None \<Rightarrow> sinks' ! i = sinks ! i
      | Some spec \<Rightarrow> (\<exists>r ch. ring_inv r \<and> ring_contents r = [] \<and> sinks' ! i =
          Some \<lparr>sk_channel = ch, sk_ring = r, sk_writer = None, sk_dropped = 0, sk_writeFailed = False\<rparr>))"
  using assms(1,3,4)
proof (induction specs arbitrary: sinks)
  case (Cons spec specs)
  show ?case
  proof (cases "channel_index (sp_channel spec)")
    case None
    then show ?thesis
      using Cons by (auto simp: channel_index_def split: if_splits)
  next
    case (Some k)
    obtain r where r: "RingBuffer_new LogBlock_default cap = Inr r"
      using Cons.prems(1) Some by (auto split: sum.splits)
    then have "0 < cap"
      by (auto simp: RingBuffer_new_def split: if_splits)
    then have ring: "ring_inv r" "ring_contents r = []"
      using RingBuffer_new_inv [of cap LogBlock_default] assms(2) r by auto
    let ?new = "Some \<lparr>sk_channel = sp_channel spec, sk_ring = r, sk_writer = None, sk_dropped = 0, sk_writeFailed = False\<rparr>"
    have rec: "enable_sinks cap specs (sinks[k := ?new]) = Inr sinks'"
      using Cons.prems(1) Some r by simp
    have k: "sp_channel spec = int k"
      using Some by (simp add: channel_index_iff)
    show ?thesis
      using Cons.IH [OF rec] Cons.prems(2,3) k ring
      by (cases "k = i"; cases "find (\<lambda>spec. sp_channel spec = int i) specs") auto
  qed
qed simp

lemma enable_inv:
  assumes "pipeline_enable params p0 = Inr p" "pipeline_idle p0" "ep_queueCapacityBlocks params \<le> 2 ^ 63" "pl_files p0 = (\<lambda>_ _. None)"
  shows "pipeline_inv pf params [] p" "pl_running p" "in_session (pl_thread p)"
proof -
  obtain sinks where sinks: "enable_sinks (ep_queueCapacityBlocks params) (ep_channels params) (pl_sinks p0) = Inr sinks"
      and p: "pl_sinks p = sinks" "pl_running p" "pl_thread p = SettingUp" "pl_files p = pl_files p0" "pl_pendingParams p = params"
        "length (pl_lastDropped p) = kMaxLoggedChannels" "length (pl_lastWriteFailed p) = kMaxLoggedChannels"
    using assms(1,2) by (auto simp: pipeline_enable_def pipeline_idle_def Let_def split: sum.splits)
  have len: "length (pl_sinks p0) = kMaxLoggedChannels"
    using assms(2) by (simp add: pipeline_idle_def)
  have "slot_inv pf params [] SettingUp i (sinks ! i) (\<lambda>_. None)" if i: "i < kMaxLoggedChannels" for i
    using enable_sinks_slot [OF sinks assms(3), of i] i len assms(2)
    by (cases "spec_at params i")
       (auto simp: slot_inv_def spec_at_def sink_inv_def queue_inv_def pipeline_idle_def)
  moreover have "length sinks = kMaxLoggedChannels"
    using enable_sinks_slot [OF sinks assms(3), of 0] len by (simp add: kMaxLoggedChannels_def)
  ultimately show "pipeline_inv pf params [] p" "pl_running p" "in_session (pl_thread p)"
    using p assms(4) by (simp_all add: pipeline_inv_def)
qed

lemma steps_left_bound: "steps_left th \<le> 4 + 2 * kMaxLoggedChannels"
  by (cases th rule: steps_left.cases) auto

lemma closed_files:
  assumes inv: "pipeline_inv pf params es p" "pl_thread p = Closing" and spec: "spec_at params i = Some spec" "i < kMaxLoggedChannels"
    and rows: "row_format (pf_charconv pf)" "list_all (LogBlock_ok (pf_arith pf) (lc_referenceOffsetDb (ep_config params))) (pushed_to (int i) es)"
    and few: "length es < 2 ^ 64 - 1"
  obtains logged segs n where "subseq logged (pushed_to (int i) es)"
    "length logged + unat (pipeline_droppedBlocks (int i) (close_all p)) = length (pushed_to (int i) es)"
    "concat segs = logged" "length segs = n"
    "list_all2 (\<lambda>k seg. prefix (blocks_on_disk pf (pl_files (close_all p) i) (segment_path (sp_basePath spec) 0 k)) seg) [0..<n] segs"
    "\<not> pipeline_writeFailed (int i) (close_all p) \<Longrightarrow>
       concat (map (\<lambda>k. blocks_on_disk pf (pl_files (close_all p) i) (segment_path (sp_basePath spec) 0 k)) [0..<n]) = logged"
    "\<forall>q. q \<notin> segment_path (sp_basePath spec) 0 ` {0..<n} \<longrightarrow> pl_files (close_all p) i q = None"
proof -
  obtain sink w logged where sink: "pl_sinks p ! i = Some sink" "queue_inv (pushed_to (int i) es) logged sink"
      "sk_writer sink = Some w" "wrote pf (ep_config params) spec logged (w, pl_files p i)" "ring_contents (sk_ring sink) = []"
      "lw_writeFailed w \<longrightarrow> sk_writeFailed sink"
  proof -
    have "slot_inv pf params es Closing i (pl_sinks p ! i) (pl_files p i)"
      using inv spec(2) by (simp add: pipeline_inv_def)
    then show ?thesis
      using that spec(1) by (auto simp: slot_inv_def sink_inv_def split: option.splits)
  qed
  obtain ops out where ops: "list_all is_write ops" "concat (map written_block ops) = logged"
      "fold (writer_step pf) ops (SplLogWriter_new pf out (sp_basePath spec) (ep_config params) (sp_info spec)
          (lc_segmentBlocks (ep_config params)) (\<lambda>_. None)) = (w, pl_files p i)"
    using sink(4) by (auto simp: wrote_def)
  have q: "subseq logged (pushed_to (int i) es)" "length logged + unat (sk_dropped sink) = length (pushed_to (int i) es)"
    using sink(2,5) by (simp_all add: queue_inv_def)
  have "list_all is_write xs \<Longrightarrow> length (concat (map written_block xs)) = length xs" for xs
  proof (induction xs)
    case (Cons op xs)
    then show ?case
      by (cases op) auto
  qed simp
  then have "length ops = length logged"
    using ops(1,2) by metis
  then have small: "length ops < 2 ^ 64 - 1"
    using q(2) pushed_to_length [of "int i" es] few by simp
  have "list_all (LogBlock_ok (pf_arith pf) (lc_referenceOffsetDb (ep_config params))) (concat (map written_block ops))"
    using rows(2) ops(2) list_emb_set [OF q(1)] by (fastforce simp: list_all_iff)
  from writer_files [OF rows(1) small _ this ops(3) refl]
  have files: "\<not> lw_writeFailed w \<longrightarrow> concat (map (blocks_on_disk pf (pl_files p i)) (lw_segmentPaths w)) = logged"
      "\<forall>q. q \<notin> set (lw_segmentPaths w) \<longrightarrow> pl_files p i q = None"
    using ops(2) by simp_all
  define segs where
    "segs = map snd (fold (segments_step (unat (lc_segmentBlocks (ep_config params)))) ops [(sp_info spec, [])])"
  have segs: "concat segs = logged"
      "list_all2 (\<lambda>p' seg. prefix (blocks_on_disk pf (pl_files p i) p') seg) (lw_segmentPaths w) segs"
    using writer_files [OF rows(1) small _ \<open>list_all _ (concat (map written_block ops))\<close> ops(3) refl] ops(2)
    unfolding segs_def by (auto simp: list_all2_map2 intro: list.rel_mono_strong)
  define n where "n = length (lw_segmentPaths w)"
  have paths: "lw_segmentPaths w = map (segment_path (sp_basePath spec) 0) [0..<n]"
    unfolding n_def by (rule writes_names [OF ops(1) small ops(3)])
  have slots: "i < length (pl_sinks p)" "length (pl_sinks p) = length (pl_lastDropped p)" "length (pl_sinks p) = length (pl_lastWriteFailed p)"
    using inv(1) spec(2) by (simp_all add: pipeline_inv_def)
  have idx: "channel_index (int i) = Some i"
    using spec(2) by (simp add: channel_index_iff)
  have "pipeline_droppedBlocks (int i) (close_all p) = sk_dropped sink" "pipeline_writeFailed (int i) (close_all p) = sk_writeFailed sink"
    using slots sink(1) idx by (simp_all add: pipeline_droppedBlocks_def pipeline_writeFailed_def close_all_def)
  moreover have "pl_files (close_all p) = pl_files p"
    by (simp add: close_all_def)
  ultimately show ?thesis
    using q(2) files sink(6)
  proof (intro that [of logged segs n])
    show "subseq logged (pushed_to (int i) es)" "concat segs = logged" by (fact q(1), fact segs(1))
    show "length segs = n" using list_all2_lengthD [OF segs(2)] by (simp add: n_def)
    show "list_all2 (\<lambda>k seg. prefix (blocks_on_disk pf (pl_files (close_all p) i) (segment_path (sp_basePath spec) 0 k)) seg) [0..<n] segs"
      if "pl_files (close_all p) = pl_files p"
      using segs(2) unfolding paths list_all2_map1 that .
  qed (auto simp: paths comp_def)
qed

text \<open>
  Property C4: from \<^verbatim>\<open>enable\<close> to the return of \<^verbatim>\<open>disable\<close>, in whatever order pushes and writer steps interleave and
  whatever opening and writing files does, no access is out of bounds or through a missing writer, and once the stop is
  requested the writer thread ends within as many steps as blocks are queued and slots are left to visit.  What it
  leaves behind for a channel accounts for every block pushed: a block is handed to the writer, in order, or counted
  by \<^verbatim>\<open>droppedBlocks\<close>.  The blocks handed over fall into consecutive segments, one per file, and each file, read back,
  gives a beginning of its segment.  Unless \<^verbatim>\<open>writeFailed\<close> is up the files, read in order, give all of them; if it is
  up, what a file lacks is neither on disk nor counted.
\<close>

theorem log_pipeline_accounts:
  assumes "pipeline_enable params p0 = Inr p" and "pipeline_idle p0" and "pl_files p0 = (\<lambda>_ _. None)"
    and "ep_queueCapacityBlocks params \<le> 2 ^ 63" and "distinct (map sp_channel (ep_channels params))"
    and "spec \<in> set (ep_channels params)" and "channel_index (sp_channel spec) = Some i"
    and "length es < 2 ^ 64 - 1" and "pushes = pushed_to (sp_channel spec) es" and "row_format (pf_charconv pf)"
    and "list_all (LogBlock_ok (pf_arith pf) (lc_referenceOffsetDb (ep_config params))) pushes"
  shows "\<exists>p1. fold_opt (pipeline_step pf) es p = Some p1 \<and>
     (\<forall>outs. queued p1 + 4 + 2 * kMaxLoggedChannels \<le> length outs \<longrightarrow>
        (\<exists>p2 logged segs n. fold_opt (writer_thread_step pf) outs (pipeline_disable p1) = Some p2 \<and> pl_thread p2 = NoThread \<and>
           subseq logged pushes \<and> length logged + unat (pipeline_droppedBlocks (sp_channel spec) p2) = length pushes \<and>
           concat segs = logged \<and> length segs = n \<and>
           list_all2 (\<lambda>k seg. prefix (blocks_on_disk pf (pl_files p2 i) (segment_path (sp_basePath spec) 0 k)) seg) [0..<n] segs \<and>
           (\<not> pipeline_writeFailed (sp_channel spec) p2 \<longrightarrow>
              concat (map (\<lambda>k. blocks_on_disk pf (pl_files p2 i) (segment_path (sp_basePath spec) 0 k)) [0..<n]) = logged) \<and>
           (\<forall>q. q \<notin> segment_path (sp_basePath spec) 0 ` {0..<n} \<longrightarrow> pl_files p2 i q = None)))"
proof -
  have i: "sp_channel spec = int i" "i < kMaxLoggedChannels"
    using assms(7) by (simp_all add: channel_index_iff)
  have spec: "spec_at params i = Some spec"
  proof -
    obtain spec' where s: "spec_at params i = Some spec'"
      using assms(6) i(1) by (cases "spec_at params i") (auto simp: spec_at_def find_None_iff)
    then have "spec' \<in> set (ep_channels params)" "sp_channel spec' = int i"
      by (auto simp: spec_at_def find_Some_iff)
    then show ?thesis
      using s assms(5,6) i(1) by (auto simp: distinct_map inj_on_def)
  qed
  note start = enable_inv(1) [OF assms(1,2,4,3), of pf] enable_inv(2,3) [OF assms(1,2,4,3)]
  obtain p1 where p1: "fold_opt (pipeline_step pf) es p = Some p1" "pipeline_inv pf params ([] @ es) p1" "in_session (pl_thread p1)"
    using session_run [OF assms(5) start] assms(8) by auto
  let ?stop = "pipeline_disable p1"
  have stop: "pipeline_inv pf params es ?stop" "\<not> pl_running ?stop" "queued ?stop = queued p1" "pl_thread ?stop = pl_thread p1"
    using p1(2) by (simp_all add: pipeline_disable_def pipeline_inv_def queued_def)
  have rows: "list_all (LogBlock_ok (pf_arith pf) (lc_referenceOffsetDb (ep_config params))) (pushed_to (int i) es)"
    using assms(9,11) i(1) by simp
  have "\<exists>p2 logged segs n. fold_opt (writer_thread_step pf) outs ?stop = Some p2 \<and> pl_thread p2 = NoThread \<and>
      subseq logged pushes \<and> length logged + unat (pipeline_droppedBlocks (sp_channel spec) p2) = length pushes \<and>
      concat segs = logged \<and> length segs = n \<and>
      list_all2 (\<lambda>k seg. prefix (blocks_on_disk pf (pl_files p2 i) (segment_path (sp_basePath spec) 0 k)) seg) [0..<n] segs \<and>
      (\<not> pipeline_writeFailed (sp_channel spec) p2 \<longrightarrow>
         concat (map (\<lambda>k. blocks_on_disk pf (pl_files p2 i) (segment_path (sp_basePath spec) 0 k)) [0..<n]) = logged) \<and>
      (\<forall>q. q \<notin> segment_path (sp_basePath spec) 0 ` {0..<n} \<longrightarrow> pl_files p2 i q = None)"
    if "queued p1 + 4 + 2 * kMaxLoggedChannels \<le> length outs" for outs
  proof -
    have "queued ?stop + steps_left (pl_thread ?stop) \<le> length outs"
      using that steps_left_bound [of "pl_thread p1"] stop(3,4) by simp
    from thread_ends [OF assms(5) stop(1,2) this] obtain p' where
      p': "fold_opt (writer_thread_step pf) outs ?stop = Some (close_all p')" "pipeline_inv pf params es p'" "pl_thread p' = Closing"
      by blast
    have "pl_thread (close_all p') = NoThread"
      by (simp add: close_all_def)
    with closed_files [OF p'(2,3) spec i(2) assms(10) rows assms(8)] p'(1) show ?thesis
      unfolding assms(9) i(1) by metis
  qed
  with p1(1) show ?thesis
    by blast
qed

definition sample_params :: SplLogEnableParams where
  "sample_params = SplLogEnableParams_default\<lparr>ep_config := sample_log_config,
     ep_channels := [\<lparr>sp_channel = 0, sp_basePath = ''ch0'', sp_info = sample_log_info\<rparr>], ep_queueCapacityBlocks := 1\<rparr>"

text \<open>Two blocks into a queue for one, with the writer thread not yet running.\<close>

theorem log_pipeline_accounts_witness:
  "\<exists>p p1 p2 logged. pipeline_enable sample_params SplLogPipeline_new = Inr p \<and>
     fold_opt (pipeline_step sample_platform) [PushBlock 0 sample_row, PushBlock 0 sample_row] p = Some p1 \<and>
     fold_opt (writer_thread_step sample_platform)
       (replicate (queued p1 + 132) \<lparr>so_open = (\<lambda>_. (True, sample_room)), so_write = sample_room\<rparr>) (pipeline_disable p1) = Some p2 \<and>
     pl_thread p2 = NoThread \<and> length logged + unat (pipeline_droppedBlocks 0 p2) = 2 \<and> subseq logged [sample_row, sample_row]"
proof -
  let ?es = "[PushBlock 0 sample_row, PushBlock 0 sample_row]"
  obtain r where "RingBuffer_new LogBlock_default 1 = Inr r"
    using RingBuffer_new_inv [of 1 LogBlock_default] by auto
  then obtain p where p: "pipeline_enable sample_params SplLogPipeline_new = Inr p"
    by (simp add: pipeline_enable_def sample_params_def channel_index_def kMaxLoggedChannels_def SplLogPipeline_new_def Let_def)
  have idle: "pipeline_idle SplLogPipeline_new" "pl_files SplLogPipeline_new = (\<lambda>_ _. None)"
    by (simp_all add: pipeline_idle_def SplLogPipeline_new_def)
  have one: "ep_queueCapacityBlocks sample_params \<le> 2 ^ 63" "distinct (map sp_channel (ep_channels sample_params))"
      "\<lparr>sp_channel = 0, sp_basePath = ''ch0'', sp_info = sample_log_info\<rparr> \<in> set (ep_channels sample_params)"
      "channel_index (sp_channel \<lparr>sp_channel = 0, sp_basePath = ''ch0'', sp_info = sample_log_info\<rparr>) = Some 0"
    by (simp_all add: sample_params_def channel_index_def kMaxLoggedChannels_def)
  have fmt: "row_format (pf_charconv sample_platform)"
    by (simp add: sample_platform_def sample_row_format)
  have rows: "list_all (LogBlock_ok (pf_arith sample_platform) (lc_referenceOffsetDb (ep_config sample_params)))
      (pushed_to (sp_channel \<lparr>sp_channel = 0, sp_basePath = ''ch0'', sp_info = sample_log_info\<rparr>) ?es)"
    using sample_row_ok by (simp add: sample_platform_def sample_params_def sample_log_config_def)
  have few: "length ?es < 2 ^ 64 - 1"
    by simp
  from log_pipeline_accounts [OF p idle one few refl fmt rows] obtain p1 where
    p1: "fold_opt (pipeline_step sample_platform) ?es p = Some p1" and
    stop: "\<forall>outs. queued p1 + 4 + 2 * kMaxLoggedChannels \<le> length outs \<longrightarrow>
      (\<exists>p2 logged. fold_opt (writer_thread_step sample_platform) outs (pipeline_disable p1) = Some p2 \<and> pl_thread p2 = NoThread \<and>
         subseq logged [sample_row, sample_row] \<and> length logged + unat (pipeline_droppedBlocks 0 p2) = 2)"
    by fastforce
  show ?thesis
    using p p1 stop [rule_format, of "replicate (queued p1 + 132) \<lparr>so_open = (\<lambda>_. (True, sample_room)), so_write = sample_room\<rparr>"]
    by (auto simp: kMaxLoggedChannels_def)
qed

end
