(* ===== verification/Spl_Feed.thy ===== *)
theory Spl_Feed
  imports Spl_Channel Spl_Log_Pipeline
begin

text \<open>
  The sound level half of the analysis thread (\<^verbatim>\<open>app/src/measure/AnalysisThreadSpl.cpp\<close>, \<^verbatim>\<open>AnalysisThreadSplState.h\<close>, the
  publish of \<^verbatim>\<open>AnalysisPublish.cpp\<close>): taking over a request, feeding one hop through session, channel state and log
  pipeline, and filling the published view.  What an alarm publishes is proved in \<open>Spl_Alarm_Path\<close>.
\<close>

section \<open>State\<close>

text \<open>
  What the thread reads of its surroundings: how the machine represents a block and a number, and the clock.
\<close>

record spl_env =
  en_block :: "Block \<Rightarrow> LogBlock"
  en_double :: "real \<Rightarrow> 64 word"
  en_clockMs :: uint64_t

record AnalysisThreadSplState =
  as_session :: SplSession
  as_sessionEpoch :: uint64_t
  as_requestConfig :: SplConfig
  as_requestChannels :: "int list"
  as_requestEnable :: bool
  as_requestLogDirectory :: string
  as_requestCalibratorLevelDb :: "real option"
  as_requestPending :: bool
  as_blockCounts :: "uint64_t list"
  as_flagsSeen :: "uint32_t list"
  as_droppedSamples :: "uint64_t list"
  as_channelStates :: "SplChannelState option list"
  as_logPipeline :: SplLogPipeline
  as_logDroppedBlocks :: "uint64_t list"
  as_logWriteFailed :: "bool list"
  as_calibrationInvalid :: "bool list"

definition AnalysisThreadSplState_new :: AnalysisThreadSplState where
  "AnalysisThreadSplState_new =
     \<lparr>as_session = SplSession_new, as_sessionEpoch = 0, as_requestConfig = SplConfig_default, as_requestChannels = [],
      as_requestEnable = False, as_requestLogDirectory = [], as_requestCalibratorLevelDb = None, as_requestPending = False,
      as_blockCounts = replicate kMaxLoggedChannels 0, as_flagsSeen = replicate kMaxLoggedChannels 0,
      as_droppedSamples = replicate kMaxLoggedChannels 0, as_channelStates = replicate kMaxLoggedChannels None,
      as_logPipeline = SplLogPipeline_new, as_logDroppedBlocks = replicate kMaxLoggedChannels 0,
      as_logWriteFailed = replicate kMaxLoggedChannels False, as_calibrationInvalid = replicate kMaxLoggedChannels False\<rparr>"

section \<open>Requests\<close>

definition enableSplLogging ::
  "SplConfig \<Rightarrow> int list \<Rightarrow> string \<Rightarrow> real option \<Rightarrow> AnalysisThreadSplState \<Rightarrow> AnalysisThreadSplState"
where
  "enableSplLogging config channels logDirectory calibratorLevelDb a =
     a\<lparr>as_requestConfig := config, as_requestChannels := channels, as_requestEnable := True,
       as_requestLogDirectory := logDirectory, as_requestCalibratorLevelDb := calibratorLevelDb, as_requestPending := True\<rparr>"

definition disableSplLogging :: "AnalysisThreadSplState \<Rightarrow> AnalysisThreadSplState" where
  "disableSplLogging a =
     a\<lparr>as_requestEnable := False, as_requestChannels := [], as_requestLogDirectory := [],
       as_requestCalibratorLevelDb := None, as_requestPending := True\<rparr>"

definition setCalibrationInvalid :: "int \<Rightarrow> bool \<Rightarrow> AnalysisThreadSplState \<Rightarrow> AnalysisThreadSplState" where
  "setCalibrationInvalid channel invalid a =
     (if channel < 0 \<or> nat channel \<ge> length (as_calibrationInvalid a) then a
      else a\<lparr>as_calibrationInvalid := (as_calibrationInvalid a)[nat channel := invalid]\<rparr>)"

text \<open>Reading one of the published mirrors.\<close>

definition mirror :: "'v \<Rightarrow> 'v list \<Rightarrow> int \<Rightarrow> 'v" where
  "mirror absent values channel = (if channel < 0 \<or> nat channel \<ge> length values then absent else values ! nat channel)"

definition set_mirror :: "int \<Rightarrow> 'v \<Rightarrow> 'v list \<Rightarrow> 'v list" where
  "set_mirror channel v values = (if nat channel < length values then values[nat channel := v] else values)"

text \<open>\<^verbatim>\<open>disable\<close> with its join: the writer thread's remaining steps, whose outcomes are \<open>outs\<close>.\<close>

definition pipeline_stop :: "platform \<Rightarrow> step_outcome list \<Rightarrow> SplLogPipeline \<Rightarrow> SplLogPipeline option" where
  "pipeline_stop pf outs p = (if pl_running p then fold_opt (writer_thread_step pf) outs (pipeline_disable p) else Some p)"

fun new_channel_states :: "SplConfig \<Rightarrow> real \<Rightarrow> int list \<Rightarrow> SplChannelState option list \<Rightarrow> SplChannelState option list" where
  "new_channel_states config rate [] states = states"
| "new_channel_states config rate (ch # chs) states =
     new_channel_states config rate chs
       (if ch < 0 \<or> nat ch \<ge> length states then states else states[nat ch := Some (SplChannelState_new config rate)])"

definition log_params :: "spl_env \<Rightarrow> SplConfig \<Rightarrow> real \<Rightarrow> int list \<Rightarrow> string \<Rightarrow> real option \<Rightarrow> SplLogEnableParams" where
  "log_params env config rate channels dir calibratorLevelDb =
     SplLogEnableParams_default
       \<lparr>ep_config := \<lparr>lc_referenceOffsetDb = en_double env (cf_referenceOffsetDb config), lc_calibrated = cf_calibrated config,
                      lc_segmentBlocks = cf_segmentBlocks config\<rparr>,
        ep_startedAtUnixMs := en_clockMs env, ep_sessionHeaderPath := dir @ ''/session.header.txt'',
        ep_channels := map (\<lambda>ch. \<lparr>sp_channel = ch, sp_basePath = dir @ ''/ch'' @ to_chars_int ch,
             sp_info = \<lparr>hi_weighting = WeightA, hi_detector = Fast, hi_blockSamples = blockSamplesFor (cf_blockSeconds config) rate,
                        hi_sampleRate = en_double env rate, hi_startedAtUnixMs = en_clockMs env,
                        hi_calibratorLevelDb = map_option (en_double env) calibratorLevelDb\<rparr>\<rparr>)
          (filter (\<lambda>ch. \<not> (ch < 0 \<or> nat ch \<ge> kMaxLoggedChannels)) channels)\<rparr>"

datatype feed_error = SessionError spl_error | RingError ring_error | Undefined

definition applyPendingSplRequest ::
  "spl_env \<Rightarrow> platform \<Rightarrow> step_outcome list \<Rightarrow> real \<Rightarrow> uint64_t \<Rightarrow> AnalysisThreadSplState \<Rightarrow> feed_error + AnalysisThreadSplState"
where
  "applyPendingSplRequest env pf outs rate lastEpoch a =
     (if \<not> as_requestPending a then Inr a
      else (let a = a\<lparr>as_requestPending := False, as_sessionEpoch := lastEpoch\<rparr>;
                config = as_requestConfig a; channels = as_requestChannels a; enable = as_requestEnable a
            in case (if enable then SplSession_start config rate channels (as_session a)
                     else Inr (SplSession_stop (as_session a))) of
                 Inl err \<Rightarrow> Inl (SessionError err)
               | Inr session \<Rightarrow>
                   (let none = map (\<lambda>_. None) (as_channelStates a);
                        states = (if enable then new_channel_states config rate channels none else none)
                    in case pipeline_stop pf outs (as_logPipeline a) of
                         None \<Rightarrow> Inl Undefined
                       | Some p \<Rightarrow>
                           (case (if enable \<and> as_requestLogDirectory a \<noteq> []
                                  then pipeline_enable (log_params env config rate channels (as_requestLogDirectory a)
                                         (as_requestCalibratorLevelDb a)) p
                                  else Inr p) of
                              Inl err \<Rightarrow> Inl (RingError err)
                            | Inr p \<Rightarrow>
                                Inr (a\<lparr>as_session := session, as_channelStates := states, as_logPipeline := p,
                                       as_blockCounts := map (\<lambda>_. 0) (as_blockCounts a),
                                       as_flagsSeen := map (\<lambda>_. 0) (as_flagsSeen a),
                                       as_droppedSamples := map (\<lambda>_. 0) (as_droppedSamples a),
                                       as_logDroppedBlocks := map (\<lambda>_. 0) (as_logDroppedBlocks a),
                                       as_logWriteFailed := map (\<lambda>_. False) (as_logWriteFailed a),
                                       as_calibrationInvalid := map (\<lambda>_. False) (as_calibrationInvalid a)\<rparr>)))))"

section \<open>One hop\<close>

text \<open>
  Every chain's closed blocks of this hop with the windows ending at them, block by block; \<open>None\<close> where a chain has
  closed fewer blocks than the last one, which the code would index past its end.
\<close>

definition chains_at_close :: "int \<Rightarrow> SplSession \<Rightarrow> ChainBlockAtClose list list option" where
  "chains_at_close channel s =
     (let ws = take 3 (ss_weightings s);
          newly = (\<lambda>w. newlyClosedBlocks channel w s);
          closedCount = (if ws = [] then 0 else length (newly (last ws)))
      in if list_all (\<lambda>w. closedCount \<le> length (newly w)) ws
         then Some (map (\<lambda>i. map (\<lambda>w. \<lparr>cc_weighting = w, cc_block = newly w ! i,
                                       cc_window = windowAtClose (newly w) (session_window channel w s) i\<rparr>) ws) [0..<closedCount])
         else None)"

definition feed_channel :: "int \<Rightarrow> uint64_t \<Rightarrow> real list \<Rightarrow> SplSession \<times> SplChannelState \<Rightarrow> (SplSession \<times> SplChannelState) option" where
  "feed_channel channel busDropCount hop ss =
     (case feedHop channel hop (noteDropCount channel busDropCount (fst ss)) of
        None \<Rightarrow> None
      | Some s \<Rightarrow>
          (case chains_at_close channel s of
             None \<Rightarrow> None
           | Some events \<Rightarrow> Some (s, feedLnTicks (newlyTickedLnLevelsDb channel WeightA s) (fold onBlockClosed events (snd ss)))))"

definition push_blocks :: "spl_env \<Rightarrow> int \<Rightarrow> Block list \<Rightarrow> SplLogPipeline \<Rightarrow> SplLogPipeline option" where
  "push_blocks env channel bs p = fold_opt (pushBlock channel) (map (en_block env) bs) p"

definition feedSpl ::
  "spl_env \<Rightarrow> int \<Rightarrow> uint64_t \<Rightarrow> uint64_t \<Rightarrow> real list \<Rightarrow> AnalysisThreadSplState \<Rightarrow> AnalysisThreadSplState option"
where
  "feedSpl env channel lastEpoch busDropCount hop a =
     (if as_sessionEpoch a \<noteq> lastEpoch then Some a
      else if \<not> logsChannel channel (as_session a) then Some a
      else (case (case as_channelStates a ! nat channel of
                    None \<Rightarrow> map_option (\<lambda>s. (s, None)) (feedHop channel hop (noteDropCount channel busDropCount (as_session a)))
                  | Some cs \<Rightarrow> map_option (\<lambda>(s, cs). (s, Some cs)) (feed_channel channel busDropCount hop (as_session a, cs))) of
              None \<Rightarrow> None
            | Some (s, state) \<Rightarrow>
                (case push_blocks env channel (newlyClosedBlocks channel WeightA s) (as_logPipeline a) of
                   None \<Rightarrow> None
                 | Some p \<Rightarrow>
                     Some (a\<lparr>as_session := s, as_channelStates := (as_channelStates a)[nat channel := state],
                             as_logPipeline := p,
                             as_logDroppedBlocks := set_mirror channel (pipeline_droppedBlocks channel p) (as_logDroppedBlocks a),
                             as_logWriteFailed := set_mirror channel (pipeline_writeFailed channel p) (as_logWriteFailed a),
                             as_blockCounts := set_mirror channel (session_blockCount channel s) (as_blockCounts a),
                             as_flagsSeen := set_mirror channel (session_flagsSeen channel s) (as_flagsSeen a),
                             as_droppedSamples := set_mirror channel (session_droppedSamplesTotal channel s) (as_droppedSamples a)\<rparr>))))"

section \<open>The published view\<close>

record SplPublishInput =
  pi_config :: "SplConfig option"
  pi_sampleRate :: real
  pi_latestBlock :: "Block option"
  pi_window :: "Block list"
  pi_metricWindows :: "Block list list"
  pi_refusedMetrics :: nat
  pi_overflowedLnTicks :: uint64_t
  pi_blockSecondsTooSmall :: bool
  pi_channelState :: "SplChannelState option"
  pi_logDroppedBlocks :: uint64_t
  pi_logWriteFailed :: bool
  pi_calibrationInvalid :: bool

definition fillSplPublishScalars ::
  "SplPublishInput \<Rightarrow> nat \<Rightarrow> uint64_t \<Rightarrow> bool \<Rightarrow> SplChannelState option \<Rightarrow> uint64_t \<Rightarrow> bool \<Rightarrow> bool \<Rightarrow> SplPublishInput"
where
  "fillSplPublishScalars input refused overflowed tooSmall state dropped failed invalid =
     input\<lparr>pi_refusedMetrics := refused, pi_overflowedLnTicks := overflowed, pi_blockSecondsTooSmall := tooSmall,
           pi_channelState := state, pi_logDroppedBlocks := dropped, pi_logWriteFailed := failed,
           pi_calibrationInvalid := invalid\<rparr>"

definition first_logged :: "SplSession \<Rightarrow> int option" where
  "first_logged s = find (\<lambda>ch. logsChannel ch s) (map int [0..<kMaxLoggedChannels])"

definition fillSplPublishInput :: "AnalysisThreadSplState \<Rightarrow> SplPublishInput \<Rightarrow> SplPublishInput" where
  "fillSplPublishInput a input =
     (let s = as_session a
      in if \<not> ss_running s then input
         else (case first_logged s of
                 None \<Rightarrow> input
               | Some channel \<Rightarrow>
                   (case latestBlock channel s of
                      None \<Rightarrow> input
                    | Some b \<Rightarrow>
                        fillSplPublishScalars
                          (input\<lparr>pi_config := Some (ss_config s), pi_sampleRate := ss_sampleRate s, pi_latestBlock := Some b,
                                 pi_window := session_window_first channel s,
                                 pi_metricWindows := fillMetricWindows channel kMaxMetrics s\<rparr>)
                          (ss_refusedMetrics s) (session_overflowedLnTicks channel WeightA s) (ss_blockSecondsTooSmall s)
                          (as_channelStates a ! nat channel) (mirror 0 (as_logDroppedBlocks a) channel)
                          (mirror False (as_logWriteFailed a) channel) (mirror False (as_calibrationInvalid a) channel))))"

definition metric_reading :: "SplPublishInput \<Rightarrow> SplConfig \<Rightarrow> nat \<Rightarrow> SplMetricSpec \<Rightarrow> SplMetricReading" where
  "metric_reading input config i spec =
     (let windowBlocks = (if ms_windowBlocks spec = 0 then 1 else ms_windowBlocks spec);
          source = (if pi_metricWindows input \<noteq> []
                    then (if i < length (pi_metricWindows input) then pi_metricWindows input ! i else [])
                    else pi_window input);
          tail = window_tail windowBlocks source;
          result = combineBlocks tail (pi_sampleRate input) (cf_referenceOffsetDb config) windowBlocks
      in \<lparr>mr_id = ms_id spec, mr_valueDb = (case win_leqDb result of None \<Rightarrow> measure_kLevelFloorDb | Some leq \<Rightarrow> leq),
          mr_leqBufferFill = bufferFill result\<rparr>)"

definition buildSplBlockView :: "SplPublishInput \<Rightarrow> meter_error + SplBlockView option" where
  "buildSplBlockView input =
     (case (pi_config input, pi_latestBlock input) of
        (Some config, Some b) \<Rightarrow>
          (let view = SplBlockView_default
                 \<lparr>vw_blockIndex := blockIndex b, vw_blockSamples := blk_samples b, vw_sampleRate := pi_sampleRate input,
                  vw_referenceOffsetDb := cf_referenceOffsetDb config, vw_calibrated := cf_calibrated config,
                  vw_flags := blk_flags b, vw_droppedSamples := blk_dropped b,
                  vw_maxFastDb := blk_maxFastDb b + cf_referenceOffsetDb config,
                  vw_maxSlowDb := blk_maxSlowDb b + cf_referenceOffsetDb config,
                  vw_peakCDb := blk_peakDb b + cf_referenceOffsetDb config,
                  vw_refusedMetrics := word_of_nat (pi_refusedMetrics input),
                  vw_lnTicksOverflowed := ucast (pi_overflowedLnTicks input),
                  vw_blockSecondsBelowRecommendedFloor := pi_blockSecondsTooSmall input,
                  vw_metrics := map2 (metric_reading input config) [0..<length (cf_metrics config)] (cf_metrics config)\<rparr>
           in case (case pi_channelState input of None \<Rightarrow> Inr view | Some state \<Rightarrow> fillPublish state view) of
                Inl err \<Rightarrow> Inl err
              | Inr view \<Rightarrow>
                  Inr (Some (view\<lparr>vw_logDroppedBlocks := ucast (pi_logDroppedBlocks input),
                                  vw_logWriteFailed := pi_logWriteFailed input,
                                  vw_calibrationInvalid := pi_calibrationInvalid input\<rparr>)))
      | _ \<Rightarrow> Inr None)"

end
