(* ===== verification/Spl_Alarm_Path.thy ===== *)
theory Spl_Alarm_Path
  imports Spl_Feed
begin

text \<open>
  One alarm followed through the whole sound level path: from the request that starts logging, through the session's
  weighted chains and the channel's state, fed hop by hop, to the state in the published view.  The chains of a channel
  close their blocks in lockstep, every closed block shows each alarm the latest blocks of its own weighting, and so
  the published state is a function of the samples.
\<close>

section \<open>Chains close in lockstep\<close>

lemma distinct_named_weightings: "distinct ws \<Longrightarrow> distinct (named_weightings ws specs)"
  by (induction ws specs rule: named_weightings.induct) auto

lemma distinct_session_weightings: "distinct (session_weightings specs)"
  using distinct_named_weightings [of "[]" specs] by (simp add: session_weightings_def Let_def)

lemma weightings_at_most_three:
  assumes "distinct (ws :: WeightingType list)"
  shows "length ws \<le> 3"
proof -
  have "set ws \<subseteq> {WeightA, WeightC, WeightZ}"
    by (auto intro: WeightingType.exhaust)
  then have "card (set ws) \<le> card {WeightA, WeightC, WeightZ}"
    by (intro card_mono) simp_all
  then show ?thesis
    using assms by (simp add: distinct_card)
qed

lemma chain_inv_blocks:
  assumes "chain_inv n rate cap stream blocks c"
  shows "length blocks = length stream div unat n" "0 < unat n" "0 < cap" "ch_window c = latest cap blocks"
    and "map block_facts blocks = weighted_blocks n rate (ch_weighting c) stream"
proof -
  obtain wg where wg: "Weighting_new (ch_weighting c) rate = Inr wg" "meter_inv n wg stream blocks (ch_meter c)"
    and c: "sm_readyCount (ch_meter c) = 0" "0 < cap" "ch_window c = latest cap blocks"
    using assms unfolding chain_inv_def by blast
  show facts: "map block_facts blocks = weighted_blocks n rate (ch_weighting c) stream"
    using meter_invE(12) [OF wg(2)] wg(1) c(1) by (simp add: weighted_blocks_def meter_queue_def)
  show "length blocks = length stream div unat n"
    using arg_cong [OF facts, of length] wg(1) by (simp add: weighted_blocks_def)
  show "0 < unat n" "0 < cap" "ch_window c = latest cap blocks"
    using c meter_invE(3) [OF wg(2)] by simp_all
qed

lemma feed_chains_blocks:
  assumes "list_all2 (chain_inv n rate cap stream) Bs cs" and "length hop \<le> kReadyBufferCapacity * unat n"
  shows "\<exists>cs'. feed_chains hop cs = Some cs' \<and> map ch_weighting cs' = map ch_weighting cs \<and>
           list_all2 (chain_inv n rate cap (stream @ hop)) (map2 (\<lambda>B c. B @ ch_newlyClosed c) Bs cs') cs'"
  using assms(1)
proof (induction Bs cs rule: list_all2_induct)
  case (Cons B Bs c cs)
  obtain c' where "feed_chain hop c = Some c'" "ch_weighting c' = ch_weighting c"
      "chain_inv n rate cap (stream @ hop) (B @ ch_newlyClosed c') c'"
    by (rule feed_chain_inv [OF Cons(1) assms(2)])
  with Cons.IH show ?case
    by fastforce
qed simp

text \<open>The windows an alarm is shown, one per closed block.\<close>

definition windows_of :: "nat \<Rightarrow> 'b list \<Rightarrow> 'b list list" where
  "windows_of cap B = map (\<lambda>k. latest cap (take (Suc k) B)) [0..<length B]"

lemma windows_of_Nil [simp]: "windows_of cap [] = []"
  by (simp add: windows_of_def)

lemma windows_of_snoc: "windows_of cap (B @ [b]) = windows_of cap B @ [latest cap (B @ [b])]"
  by (simp add: windows_of_def)

lemma find_by_key:
  assumes "distinct (map f xs)" "i < length xs"
  shows "find (\<lambda>x. f x = f (xs ! i)) xs = Some (xs ! i)"
  using assms by (auto simp: find_Some_iff nth_eq_iff_index_eq distinct_conv_nth intro!: exI [of _ i])

lemma find_in_map: "w \<in> set ws \<Longrightarrow> (\<And>v. f (g v) = v) \<Longrightarrow> find (\<lambda>x. f x = w) (map g ws) = Some (g w)"
  by (induction ws) auto

lemma fold_closed: "fold channel_step (map BlocksClosed events) cs = fold onBlockClosed events cs"
  by (induction events arbitrary: cs) simp_all

lemma closed_blocks_map [simp]: "closed_blocks (map BlocksClosed events) = events"
  by (induction events) simp_all

lemma at_most_one_more:
  assumes "(h :: nat) \<le> b" "0 < b"
  shows "(l + h) div b = l div b \<or> (l + h) div b = Suc (l div b)"
proof -
  have "l div b \<le> (l + h) div b" "(l + h) div b \<le> (l + b) div b"
    using assms(1) by (intro div_le_mono; simp)+
  moreover have "(l + b) div b = Suc (l div b)"
    using assms(2) by simp
  ultimately show ?thesis
    by linarith
qed

lemma windowAtClose_single: "full \<noteq> [] \<Longrightarrow> windowAtClose [b] full 0 = full"
  by (cases full) (simp_all add: windowAtClose_def)

section \<open>What one hop shows the channel state\<close>

definition session_chains_inv ::
  "uint32_t \<Rightarrow> real \<Rightarrow> nat \<Rightarrow> WeightingType list \<Rightarrow> uint64_t \<Rightarrow> int \<Rightarrow> real list \<Rightarrow> Block list list \<Rightarrow> SplSession \<Rightarrow> bool"
where
  "session_chains_inv n rate cap ws K channel stream Bs s \<longleftrightarrow>
     ss_weightings s = ws \<and> length (ss_channels s) = kMaxLoggedChannels \<and>
     (\<exists>st. ss_channels s ! nat channel = Some st \<and> map ch_weighting (st_chains st) = ws \<and>
       list_all2 (chain_inv n rate cap stream) Bs (st_chains st) \<and>
       (st_dropBaselineSet st \<longrightarrow> st_lastBusDropCount st = K))"

lemma same_drops_note:
  assumes inv: "session_chains_inv n rate cap ws K channel stream Bs s" and idx: "channel_index channel = Some (nat channel)"
  shows "session_chains_inv n rate cap ws K channel stream Bs (noteDropCount channel K s)"
proof -
  have "nat channel < kMaxLoggedChannels"
    using idx by (auto simp: channel_index_def split: if_splits)
  then show ?thesis
    using inv idx by (auto simp: session_chains_inv_def noteDropCount_def)
qed

lemma session_chain_at:
  assumes "ss_channels s ! nat channel = Some st" "channel_index channel = Some (nat channel)"
    and "distinct (map ch_weighting (st_chains st))" "i < length (st_chains st)"
  shows "session_chain channel (ch_weighting (st_chains st ! i)) s = Some (st_chains st ! i)"
  using find_by_key [OF assms(3,4)] assms(1,2) by (simp add: session_chain_def session_state_def)

lemma hop_blocks:
  assumes inv: "session_chains_inv n rate cap ws K channel stream Bs s" and idx: "channel_index channel = Some (nat channel)"
    and ws: "distinct ws" "ws \<noteq> []" and hop: "length hop \<le> unat n"
  obtains s' Cs d where "feedHop channel hop s = Some s'" "d \<le> 1" "length Cs = length ws"
    "session_chains_inv n rate cap ws K channel (stream @ hop) (map2 (@) Bs Cs) s'"
    "\<forall>i < length ws. newlyClosedBlocks channel (ws ! i) s' = Cs ! i \<and> length (Cs ! i) = d \<and>
       session_window channel (ws ! i) s' = latest cap (Bs ! i @ Cs ! i)" "0 < cap" "length Bs = length ws"
proof -
  obtain st where st: "ss_channels s ! nat channel = Some st" "map ch_weighting (st_chains st) = ws"
      "list_all2 (chain_inv n rate cap stream) Bs (st_chains st)" "st_dropBaselineSet st \<longrightarrow> st_lastBusDropCount st = K"
    using inv by (auto simp: session_chains_inv_def)
  have "length hop \<le> kReadyBufferCapacity * unat n"
    using hop by (simp add: kReadyBufferCapacity_def kScratchSamples_def)
  then obtain cs' where cs': "feed_chains hop (st_chains st) = Some cs'" "map ch_weighting cs' = ws"
      "list_all2 (chain_inv n rate cap (stream @ hop)) (map2 (\<lambda>B c. B @ ch_newlyClosed c) Bs cs') cs'"
    using feed_chains_blocks [OF st(3), of hop] st(2) by auto
  let ?st = "st\<lparr>st_chains := cs'\<rparr>" let ?Cs = "map ch_newlyClosed cs'"
  let ?s = "s\<lparr>ss_channels := (ss_channels s)[nat channel := Some ?st]\<rparr>"
  have lens: "length Bs = length ws" "length cs' = length ws"
    using list_all2_lengthD [OF st(3)] arg_cong [OF st(2), of length] arg_cong [OF cs'(2), of length] by simp_all
  have i: "nat channel < length (ss_channels s)"
    using inv idx by (auto simp: session_chains_inv_def channel_index_def split: if_splits)
  have run: "feedHop channel hop s = Some ?s"
    using st(1) cs'(1) idx by (simp add: feedHop_def)
  have map2: "map2 (\<lambda>B c. B @ ch_newlyClosed c) Bs cs' = map2 (@) Bs ?Cs"
    by (simp add: zip_map2 comp_def case_prod_beta)
  have inv': "session_chains_inv n rate cap ws K channel (stream @ hop) (map2 (@) Bs ?Cs) ?s"
    using inv st(4) cs'(2,3) i map2 by (simp add: session_chains_inv_def)
  define d where "d = (length stream + length hop) div unat n - length stream div unat n"
  have chain: "chain_inv n rate cap stream (Bs ! i) (st_chains st ! i)"
      "chain_inv n rate cap (stream @ hop) (Bs ! i @ ch_newlyClosed (cs' ! i)) (cs' ! i)" if "i < length ws" for i
    using list_all2_nthD [OF st(3), of i] list_all2_nthD [OF cs'(3), of i] lens that by simp_all
  have at: "session_chain channel (ws ! i) ?s = Some (cs' ! i)" if "i < length ws" for i
  proof -
    have w: "ch_weighting (cs' ! i) = ws ! i"
      using arg_cong [OF cs'(2), of "\<lambda>l. l ! i"] lens that by simp
    have "session_chain channel (ch_weighting (st_chains ?st ! i)) ?s = Some (st_chains ?st ! i)"
      by (rule session_chain_at) (use i idx cs'(2) ws(1) lens that in simp_all)
    then show ?thesis
      by (simp add: w)
  qed
  have "length (ch_newlyClosed (cs' ! i)) = d" if "i < length ws" for i
    using chain_inv_blocks(1) [OF chain(1) [OF that]] chain_inv_blocks(1) [OF chain(2) [OF that]]
    by (simp add: d_def)
  moreover have "0 < length ws"
    using ws(2) by simp
  then have "0 < unat n" "0 < cap"
    using chain_inv_blocks(2,3) [OF chain(1)] by blast+
  then have "d \<le> 1"
    using at_most_one_more [OF hop, of "length stream"] by (auto simp: d_def)
  ultimately show thesis
    using that [of ?s d ?Cs] run inv' lens at chain_inv_blocks(4) [OF chain(2)] \<open>0 < cap\<close>
    by (simp add: newlyClosedBlocks_def session_window_def)
qed

text \<open>
  The state after a stream: every alarm of a weighting the session has was shown, block by block, the latest blocks of
  this weighting.
\<close>

definition feed_inv :: "SplConfig \<Rightarrow> real \<Rightarrow> uint64_t \<Rightarrow> int \<Rightarrow> real list \<Rightarrow> SplSession \<times> SplChannelState \<Rightarrow> bool" where
  "feed_inv config rate K channel stream ss \<longleftrightarrow>
     (let n = session_block_samples config rate; cap = session_capacity config;
          ws = session_weightings (take kMaxMetrics (cf_metrics config))
      in \<exists>Bs es. session_chains_inv n rate cap ws K channel stream Bs (fst ss) \<and>
           snd ss = fold channel_step es (SplChannelState_new config rate) \<and>
           (\<forall>i < length ws. map fst (observations (Some (ws ! i)) (closed_blocks es)) = windows_of cap (Bs ! i)))"

definition close_event :: "WeightingType list \<Rightarrow> (WeightingType \<Rightarrow> Block) \<Rightarrow> (WeightingType \<Rightarrow> Block list) \<Rightarrow> ChainBlockAtClose list" where
  "close_event ws b win = map (\<lambda>w. \<lparr>cc_weighting = w, cc_block = b w, cc_window = win w\<rparr>) ws"

lemma observe_close_event: "w \<in> set ws \<Longrightarrow> map fst (observations (Some w) [close_event ws b win]) = [win w]"
  using find_in_map [of w ws cc_weighting "\<lambda>w. \<lparr>cc_weighting = w, cc_block = b w, cc_window = win w\<rparr>"]
  by (simp add: observations_def map_filter_def close_event_def observe_def)

lemma chains_at_close_lockstep:
  assumes "ss_weightings s = ws" "distinct ws" "ws \<noteq> []" "d \<le> 1"
    and "\<forall>w \<in> set ws. length (newlyClosedBlocks channel w s) = d \<and> (d = 1 \<longrightarrow> session_window channel w s \<noteq> [])"
  shows "chains_at_close channel s = Some (if d = 0 then []
    else [close_event ws (\<lambda>w. newlyClosedBlocks channel w s ! 0) (\<lambda>w. session_window channel w s)])"
proof -
  let ?newly = "\<lambda>w. newlyClosedBlocks channel w s" and ?win = "\<lambda>w. session_window channel w s"
  have len: "length (?newly w) = d" if "w \<in> set ws" for w
    using assms(5) that by blast
  have ws: "take 3 ws = ws" "length (?newly (last ws)) = d" "list_all (\<lambda>w. d \<le> length (?newly w)) ws"
    using weightings_at_most_three [OF assms(2)] len assms(3) by (simp_all add: list_all_iff)
  have at: "chains_at_close channel s =
      Some (map (\<lambda>i. map (\<lambda>w. \<lparr>cc_weighting = w, cc_block = ?newly w ! i, cc_window = windowAtClose (?newly w) (?win w) i\<rparr>) ws)
        [0..<d])"
    by (simp only: chains_at_close_def Let_def assms(1) ws if_True if_not_P [OF assms(3)])
  show ?thesis
  proof (cases "d = 0")
    case True
    then show ?thesis
      by (simp add: at)
  next
    case False
    then have d: "d = 1"
      using assms(4) by simp
    have "windowAtClose (?newly w) (?win w) 0 = ?win w" if w: "w \<in> set ws" for w
    proof -
      obtain b where "?newly w = [b]"
        using len [OF w] d by (cases "?newly w") simp_all
      then show ?thesis
        using assms(5) w d by (simp add: windowAtClose_single)
    qed
    then show ?thesis
      by (simp add: at d close_event_def cong: map_cong)
  qed
qed

interpretation feed: hop_fed "feed_channel channel K" "feed_inv config rate K channel"
  "\<lambda>hop. length hop \<le> unat (session_block_samples config rate) \<and> channel_index channel \<noteq> None"
  for channel K config rate
proof
  fix stream hop :: "real list" and ss :: "SplSession \<times> SplChannelState" and channel K config rate
  define n where "n = session_block_samples config rate"
  define cap where "cap = session_capacity config"
  define ws where "ws = session_weightings (take kMaxMetrics (cf_metrics config))"
  note defs = n_def [symmetric] cap_def [symmetric] ws_def [symmetric]
  assume "feed_inv config rate K channel stream ss"
    and ok: "length hop \<le> unat (session_block_samples config rate) \<and> channel_index channel \<noteq> None"
  then obtain Bs es where inv: "session_chains_inv n rate cap ws K channel stream Bs (fst ss)"
      "snd ss = fold channel_step es (SplChannelState_new config rate)"
      "\<forall>i < length ws. map fst (observations (Some (ws ! i)) (closed_blocks es)) = windows_of cap (Bs ! i)"
    unfolding feed_inv_def Let_def defs by blast
  have idx: "channel_index channel = Some (nat channel)"
    using ok by (auto simp: channel_index_def split: if_splits)
  have hop: "length hop \<le> unat n"
    using ok by (simp add: n_def)
  have ws: "distinct ws" "ws \<noteq> []"
    by (simp_all add: ws_def distinct_session_weightings session_weightings_cover)
  obtain s' Cs d where s': "feedHop channel hop (noteDropCount channel K (fst ss)) = Some s'" "d \<le> 1" "length Cs = length ws"
      "session_chains_inv n rate cap ws K channel (stream @ hop) (map2 (@) Bs Cs) s'"
    and new: "\<forall>i < length ws. newlyClosedBlocks channel (ws ! i) s' = Cs ! i \<and> length (Cs ! i) = d \<and>
       session_window channel (ws ! i) s' = latest cap (Bs ! i @ Cs ! i)" and len: "0 < cap" "length Bs = length ws"
    by (rule hop_blocks [OF same_drops_note [OF inv(1) idx] idx ws hop])
  let ?b = "\<lambda>w. newlyClosedBlocks channel w s' ! 0" let ?win = "\<lambda>w. session_window channel w s'"
  define events where "events = (if d = 0 then [] else [close_event ws ?b ?win])"
  have "ss_weightings s' = ws"
    using s'(4) by (simp add: session_chains_inv_def)
  moreover have "\<forall>w \<in> set ws. length (newlyClosedBlocks channel w s') = d \<and> (d = 1 \<longrightarrow> session_window channel w s' \<noteq> [])"
  proof
    fix w assume "w \<in> set ws"
    then obtain i where "i < length ws" "w = ws ! i"
      by (auto simp: in_set_conv_nth)
    then have "length (newlyClosedBlocks channel w s') = d" "session_window channel w s' = latest cap (Bs ! i @ Cs ! i)"
        "length (Cs ! i) = d"
      using new by simp_all
    then show "length (newlyClosedBlocks channel w s') = d \<and> (d = 1 \<longrightarrow> session_window channel w s' \<noteq> [])"
      using len(1) by (auto simp: latest_def)
  qed
  ultimately have close: "chains_at_close channel s' = Some events"
    using chains_at_close_lockstep [OF _ ws s'(2)] by (simp add: events_def)
  let ?ticks = "newlyTickedLnLevelsDb channel WeightA s'"
  let ?es = "es @ map BlocksClosed events @ [LnTicks ?ticks]"
  have run: "feed_channel channel K hop ss = Some (s', feedLnTicks ?ticks (fold onBlockClosed events (snd ss)))"
    using s'(1) close by (simp add: feed_channel_def)
  have "feedLnTicks ?ticks (fold onBlockClosed events (snd ss)) = fold channel_step ?es (SplChannelState_new config rate)"
    by (simp add: inv(2) fold_closed)
  moreover have "map fst (observations (Some (ws ! i)) (closed_blocks ?es)) = windows_of cap (map2 (@) Bs Cs ! i)"
    if "i < length ws" for i
  proof (cases "d = 0")
    case True
    then show ?thesis
      using inv(3) new that len(2) s'(3) by (simp add: events_def observations_def map_filter_def)
  next
    case False
    have "length (Cs ! i) = 1"
      using new that False s'(2) by simp
    then obtain b where "Cs ! i = [b]"
      by (cases "Cs ! i") simp_all
    moreover have "map fst (observations (Some (ws ! i)) events) = [?win (ws ! i)]"
      using observe_close_event [of "ws ! i" ws ?b ?win] False that by (simp add: events_def)
    ultimately show ?thesis
      using inv(3) new that len(2) s'(3) False by (simp add: windows_of_snoc)
  qed
  ultimately show "\<exists>ss'. feed_channel channel K hop ss = Some ss' \<and> feed_inv config rate K channel (stream @ hop) ss'"
    using run s'(4) unfolding feed_inv_def Let_def defs
    by (intro exI [of _ "(s', feedLnTicks ?ticks (fold onBlockClosed events (snd ss)))"] conjI exI [of _ "map2 (@) Bs Cs"]
        exI [of _ ?es]) (simp_all del: fold_append append_assoc)
qed

lemma new_chains_blocks:
  "new_chains config rate cap ws = Inr cs \<Longrightarrow> 0 < cap \<Longrightarrow>
     map ch_weighting cs = ws \<and> list_all2 (chain_inv (session_block_samples config rate) rate cap []) (map (\<lambda>_. []) ws) cs"
proof (induction ws arbitrary: cs)
  case (Cons w ws)
  then obtain c cs' where "Chain_new config w rate cap = Inr c" "new_chains config rate cap ws = Inr cs'" "cs = c # cs'"
    by (auto split: sum.splits)
  with Cons show ?case
    using Chain_new_inv by fastforce
qed simp

lemma feed_inv_start:
  assumes "SplSession_start config rate channels s0 = Inr s" "length (ss_channels s0) = kMaxLoggedChannels"
    and "channel \<in> set channels" "channel_index channel = Some i"
  shows "feed_inv config rate K channel [] (s, SplChannelState_new config rate)"
proof -
  let ?ws = "session_weightings (take kMaxMetrics (cf_metrics config))"
  obtain config' cs where f: "new_chains config' rate (session_capacity config) ?ws = Inr cs"
    "session_block_samples config' rate = session_block_samples config rate"
    "ss_channels s ! i = Some \<lparr>st_chains = cs, st_lastBusDropCount = 0, st_dropBaselineSet = False\<rparr>"
    "length (ss_channels s) = kMaxLoggedChannels" "ss_weightings s = ?ws"
    by (rule session_start_fresh [OF assms refl refl])
  have "i = nat channel"
    using assms(4) by (auto simp: channel_index_def split: if_splits)
  then have "session_chains_inv (session_block_samples config rate) rate (session_capacity config) ?ws K channel []
      (map (\<lambda>_. []) ?ws) s"
    using new_chains_blocks [OF f(1) session_capacity_pos] f(2-) by (simp add: session_chains_inv_def)
  moreover have "map fst (observations (Some w) (closed_blocks [])) = []" for w
    by (simp add: observations_def map_filter_def)
  ultimately show ?thesis
    unfolding feed_inv_def Let_def by (intro exI [of _ "map (\<lambda>_. []) ?ws"] exI [of _ "[]"]) simp
qed

section \<open>The level an alarm judges\<close>

lemma last_blocks_energy:
  assumes "map blk_sumSquares B = map (\<lambda>k. energy (take b (drop (k * b) y))) [0..<N]" "m \<le> N"
  shows "sum_list (map blk_sumSquares (drop (N - m) B)) = energy (take (m * b) (drop ((N - m) * b) y))"
proof -
  have "sum_list (map (\<lambda>k. energy (take b (drop (k * b) y))) [p..<p + m]) = energy (take (m * b) (drop (p * b) y))" for p
  proof (induction m)
    case (Suc m)
    have "take (Suc m * b) (drop (p * b) y) = take (m * b) (drop (p * b) y) @ take b (drop ((p + m) * b) y)"
      using take_add [of "m * b" b "drop (p * b) y"] by (simp add: add.commute add_mult_distrib)
    then show ?case
      using Suc by (simp add: energy_append)
  qed (simp add: energy_def)
  from this [of "N - m"] show ?thesis
    using assms(2) by (simp add: assms(1) drop_upt flip: drop_map) (simp add: drop_map)
qed

lemma weighted_blocks_plain:
  assumes "map block_facts B = weighted_blocks n rate w stream" "Weighting_new w rate = Inr wg"
  shows "\<forall>b \<in> set B. plain_block n b"
    and "map blk_sumSquares B =
      map (\<lambda>k. energy (take (unat n) (drop (k * unat n) (fst (Weighting_process wg stream))))) [0..<length stream div unat n]"
proof -
  let ?block = "stream_block n stream (fst (Weighting_process wg stream))"
  have facts: "map block_facts B = map ?block [0..<length stream div unat n]"
    using assms by (simp add: weighted_blocks_def)
  have "map blk_sumSquares B = map (\<lambda>(i, s, d, e, f). e) (map block_facts B)"
    by (simp add: block_facts_def)
  then show "map blk_sumSquares B =
      map (\<lambda>k. energy (take (unat n) (drop (k * unat n) (fst (Weighting_process wg stream))))) [0..<length stream div unat n]"
    by (simp add: facts stream_block_def)
  show "\<forall>b \<in> set B. plain_block n b"
  proof
    fix b assume "b \<in> set B"
    then have "block_facts b \<in> set (map ?block [0..<length stream div unat n])"
      unfolding facts [symmetric] by simp
    then obtain k where "block_facts b = ?block k"
      by auto
    then show "plain_block n b"
      by (auto simp: block_facts_def stream_block_def plain_block_def overload_flag_def flagMask_def kExcludingFlags_def)
  qed
qed

definition window_level :: "real \<Rightarrow> real list \<Rightarrow> real" where
  "window_level offset xs = (if 0 < energy xs then 10 * log 10 (energy xs / real (length xs)) else kLevelFloorDb) + offset"

lemma window_tail_latest:
  "unat m \<le> cap \<Longrightarrow> window_tail m (latest cap B) = drop (length B - unat m) B"
  by (auto simp: window_tail_def latest_def min_def intro: arg_cong)

lemma reading_of_window:
  assumes "\<forall>b \<in> set B. plain_block n b" "length B * unat n < 2 ^ 64" "0 < unat n"
  shows "alarm_reading spec rate offset (latest cap B) =
    (let m = unat (spec_windowBlocks spec); bs = drop (length B - m) B; e = sum_list (map blk_sumSquares bs)
     in if m = 0 \<or> cap < m \<or> length B < m then None
        else Some ((if 0 < e then 10 * log 10 (e / real (m * unat n)) else kLevelFloorDb) + offset))"
proof -
  define m where "m = unat (spec_windowBlocks spec)"
  let ?bs = "drop (length B - m) B"
  show ?thesis
  proof (cases "cap < m")
    case True
    then have "length (window_tail (spec_windowBlocks spec) (latest cap B)) \<noteq> m"
      by (simp add: window_tail_def latest_def)
    then show ?thesis
      using True by (simp add: alarm_reading_def Let_def m_def)
  next
    case False
    then have tail: "window_tail (spec_windowBlocks spec) (latest cap B) = ?bs"
      by (simp add: window_tail_latest m_def)
    have "length ?bs * unat n \<le> length B * unat n"
      by (rule mult_le_mono1) simp
    then have "length ?bs * unat n < 2 ^ 64"
      using assms(2) by (rule le_less_trans)
    moreover have "\<forall>b \<in> set ?bs. plain_block n b"
      using assms(1) by (blast dest: in_set_dropD)
    ultimately have "\<forall>b \<in> set ?bs. plain_block n b" "length ?bs * unat n < 2 ^ 64"
      by blast+
    from combine_plain_window [OF this assms(3)] show ?thesis
      using False by (auto simp: alarm_reading_def Let_def tail simp flip: m_def)
  qed
qed


lemma map_filter_None: "(\<And>x. x \<in> set xs \<Longrightarrow> f x = None) \<Longrightarrow> List.map_filter f xs = []"
  by (induction xs) (simp_all add: map_filter_def)

lemma judged_values: "map snd (judged spec rate offset obs) = List.map_filter (alarm_reading spec rate offset) (map fst obs)"
  by (induction obs) (auto simp: judged_def map_filter_def split: option.splits)

lemma judged_last:
  assumes "\<forall>b \<in> set B. plain_block n b" "length B * unat n < 2 ^ 64" "0 < unat n" "map fst obs = windows_of cap B"
    and js: "js = judged spec rate offset obs" and m: "m = unat (spec_windowBlocks spec)"
    and e: "e = sum_list (map blk_sumSquares (drop (length B - m) B))"
  shows "js = [] \<longleftrightarrow> m = 0 \<or> cap < m \<or> length B < m"
    and "js \<noteq> [] \<Longrightarrow> snd (last js) = (if 0 < e then 10 * log 10 (e / real (m * unat n)) else kLevelFloorDb) + offset"
proof -
  let ?reading = "alarm_reading spec rate offset"
  have small: "\<forall>b \<in> set (take k B). plain_block n b" "length (take k B) * unat n < 2 ^ 64" for k
  proof -
    have "length (take k B) * unat n \<le> length B * unat n"
      by (rule mult_le_mono1) simp
    then show "length (take k B) * unat n < 2 ^ 64"
      using assms(2) by (rule le_less_trans)
    show "\<forall>b \<in> set (take k B). plain_block n b"
      using assms(1) by (blast dest: in_set_takeD)
  qed
  note reading = reading_of_window [OF small assms(3), of spec rate offset cap, folded m, unfolded Let_def]
  have vals: "map snd js = List.map_filter ?reading (windows_of cap B)"
    by (simp add: js judged_values assms(4))
  have filling: "js = []" if "m = 0 \<or> cap < m \<or> length B < m"
  proof -
    have "map snd js = []"
      unfolding vals using that by (intro map_filter_None) (auto simp: windows_of_def reading min_def)
    then show ?thesis
      by simp
  qed
  have full: "js \<noteq> [] \<and> snd (last js) = (if 0 < e then 10 * log 10 (e / real (m * unat n)) else kLevelFloorDb) + offset"
    if ok: "\<not> (m = 0 \<or> cap < m \<or> length B < m)"
  proof -
    let ?v = "(if 0 < e then 10 * log 10 (e / real (m * unat n)) else kLevelFloorDb) + offset"
    obtain B' b where "B = B' @ [b]"
      using ok by (cases B rule: rev_cases) auto
    then have "windows_of cap B = windows_of cap B' @ [latest cap B]"
      by (simp add: windows_of_snoc)
    moreover have "?reading (latest cap B) = Some ?v"
      using reading [of "length B"] ok by (simp add: e)
    ultimately have "map snd js = List.map_filter ?reading (windows_of cap B') @ [?v]"
      by (simp add: vals map_filter_def)
    then show ?thesis
      by (metis Nil_is_map_conv append_is_Nil_conv last_map last_snoc not_Cons_self2)
  qed
  show "js = [] \<longleftrightarrow> m = 0 \<or> cap < m \<or> length B < m"
    using filling full by blast
  show "snd (last js) = (if 0 < e then 10 * log 10 (e / real (m * unat n)) else kLevelFloorDb) + offset" if "js \<noteq> []"
    using filling full that by blast
qed

text \<open>What alarm number \<open>j\<close> says after a stream, and what it should say by the samples alone.\<close>

definition alarm_verdict :: "SplConfig \<Rightarrow> real \<Rightarrow> SplAlarmSpec \<Rightarrow> real list \<Rightarrow> SplAlarmState" where
  "alarm_verdict config rate spec weighted =
     (let b = unat (session_block_samples config rate); m = unat (spec_windowBlocks spec); N = length weighted div b
      in if m = 0 \<or> session_capacity config < m \<or> N < m then AlarmFilling
         else if window_level (cf_referenceOffsetDb config) (take (m * b) (drop ((N - m) * b) weighted)) > spec_limitDb spec
         then AlarmFired else AlarmClear)"

lemma feed_inv_alarm:
  assumes inv: "feed_inv config rate K channel stream (s, cs)" and small: "length stream < 2 ^ 64"
    and j: "j < length (cf_alarms config)" "spec = cf_alarms config ! j"
    and w: "fst (metric_of (cf_metrics config) spec) = Some w" "Weighting_new w rate = Inr wg"
      "w \<in> set (session_weightings (take kMaxMetrics (cf_metrics config)))"
    and view: "fillPublish cs v = Inr view"
  shows "rd_state (vw_alarms view ! j) = alarm_verdict config rate spec (fst (Weighting_process wg stream))"
proof -
  define n where "n = session_block_samples config rate"
  define cap where "cap = session_capacity config"
  define ws where "ws = session_weightings (take kMaxMetrics (cf_metrics config))"
  define y where "y = fst (Weighting_process wg stream)"
  define m where "m = unat (spec_windowBlocks spec)"
  note defs = n_def [symmetric] cap_def [symmetric] ws_def [symmetric]
  obtain Bs es where inv: "session_chains_inv n rate cap ws K channel stream Bs s"
      "cs = fold channel_step es (SplChannelState_new config rate)"
      "\<forall>i < length ws. map fst (observations (Some (ws ! i)) (closed_blocks es)) = windows_of cap (Bs ! i)"
    using inv unfolding feed_inv_def Let_def defs fst_conv snd_conv by blast
  obtain i where i: "i < length ws" "ws ! i = w"
    using w(3) unfolding defs by (auto simp: in_set_conv_nth)
  obtain st :: ChannelState where st: "map ch_weighting (st_chains st) = ws" "list_all2 (chain_inv n rate cap stream) Bs (st_chains st)"
    using inv(1) unfolding session_chains_inv_def by blast
  define B where "B = Bs ! i"
  have "i < length (st_chains st)"
    using i(1) st(1) by (metis length_map)
  then have "chain_inv n rate cap stream B (st_chains st ! i)"
    using list_all2_nthD2 [OF st(2)] by (simp add: B_def)
  moreover have "ch_weighting (st_chains st ! i) = w"
    using i st(1) \<open>i < length (st_chains st)\<close> by (metis nth_map)
  ultimately have B: "length B = length stream div unat n" "0 < unat n" "map block_facts B = weighted_blocks n rate w stream"
    using chain_inv_blocks [of n rate cap stream B "st_chains st ! i"] by simp_all
  note plain = weighted_blocks_plain [OF B(3) w(2), folded y_def]
  have len: "length y = length stream"
    by (simp add: y_def)
  define js where "js = judged spec rate (cf_referenceOffsetDb config) (observations (Some w) (closed_blocks es))"
  have small': "length B * unat n < 2 ^ 64"
    using le_less_trans [OF div_times_less_eq_dividend [of "length stream" "unat n"] small] by (simp only: B(1))
  have obs: "map fst (observations (Some w) (closed_blocks es)) = windows_of cap B"
    using inv(3) i by (auto simp: B_def)
  note judged = judged_last [OF plain(1) small' B(2) obs js_def m_def refl]
  have window: "snd (last js) =
      window_level (cf_referenceOffsetDb config) (take (m * unat n) (drop ((length B - m) * unat n) y))" if "js \<noteq> []"
  proof -
    have m: "m \<le> length B"
      using judged(1) that by simp
    have "m * unat n \<le> length y - (length B - m) * unat n"
    proof -
      have "length B * unat n \<le> length y"
        by (simp add: B(1) len)
      then show ?thesis
        using m by (simp add: diff_mult_distrib)
    qed
    then have "length (take (m * unat n) (drop ((length B - m) * unat n) y)) = m * unat n"
      by simp
    then show ?thesis
      using judged(2) [OF that] last_blocks_energy [OF plain(2) m [unfolded B(1)]] by (simp add: window_level_def B(1))
  qed
  have "vw_alarms view = map (\<lambda>spec. SplAlarm_report (alarm_alone config rate (closed_blocks es) spec)) (cf_alarms config)"
    using view published_readings [OF inv(2)] by (auto simp: fillPublish_def Let_def split: sum.splits)
  then have "rd_state (vw_alarms view ! j) = (if js = [] then AlarmFilling else if snd (last js) > spec_limitDb spec
      then AlarmFired else AlarmClear)"
    using j alarm_alone_state [of js spec rate config "closed_blocks es"] w(1) by (simp add: js_def)
  then show ?thesis
    using judged(1) window B(1) len
    by (simp add: alarm_verdict_def Let_def flip: n_def cap_def m_def y_def)
qed

section \<open>The thread's whole path\<close>

definition sink_ok :: "int \<Rightarrow> SplLogPipeline \<Rightarrow> bool" where
  "sink_ok channel p \<longleftrightarrow> nat channel < length (pl_sinks p) \<and>
     (case pl_sinks p ! nat channel of None \<Rightarrow> True | Some sink \<Rightarrow> ring_inv (sk_ring sink))"

lemma pushBlock_ok:
  assumes "sink_ok channel p" "channel_index channel = Some (nat channel)"
  shows "\<exists>p'. pushBlock channel b p = Some p' \<and> sink_ok channel p'"
proof (cases "pl_sinks p ! nat channel")
  case None
  then show ?thesis
    using assms by (simp add: pushBlock_def)
next
  case (Some sink)
  have ring: "ring_inv (sk_ring sink)" "in_memory [b]"
    using assms(1) Some by (simp_all add: sink_ok_def in_memory_def)
  obtain ok r where "RingBuffer_write (sk_ring sink) [b] = Some (ok, r)" "ring_inv r"
  proof (cases "length (ring_contents (sk_ring sink)) + length [b] \<le> length (storage (sk_ring sink))")
    case True
    then show ?thesis
      using RingBuffer_write_fits [OF ring True] that by metis
  next
    case False
    then show ?thesis
      using RingBuffer_write_full [OF ring] ring that by (metis not_le)
  qed
  then show ?thesis
    using assms Some by (auto simp: pushBlock_def sink_ok_def)
qed

lemma push_blocks_ok:
  assumes "sink_ok channel p" "channel_index channel = Some (nat channel)"
  shows "\<exists>p'. push_blocks env channel bs p = Some p' \<and> sink_ok channel p'"
  using assms(1)
proof (induction bs arbitrary: p)
  case (Cons b bs)
  obtain p' where "pushBlock channel (en_block env b) p = Some p'" "sink_ok channel p'"
    using pushBlock_ok [OF Cons.prems assms(2)] by blast
  then show ?case
    using Cons.IH [of p'] by (simp add: push_blocks_def)
qed (simp add: push_blocks_def)

lemma feed_channel_frame:
  assumes "feed_channel channel K hop ss = Some (s', cs')"
  shows "ss_running s' = ss_running (fst ss)" "ss_config s' = ss_config (fst ss)"
    and "\<forall>j. j \<noteq> nat channel \<longrightarrow> ss_channels s' ! j = ss_channels (fst ss) ! j"
proof -
  let ?s = "noteDropCount channel K (fst ss)"
  have noted: "ss_running ?s = ss_running (fst ss)" "ss_config ?s = ss_config (fst ss)"
      "\<forall>j. j \<noteq> nat channel \<longrightarrow> ss_channels ?s ! j = ss_channels (fst ss) ! j"
    by (auto simp: noteDropCount_def channel_index_def Let_def split: option.split)
  have run: "feedHop channel hop ?s = Some s'"
    using assms by (auto simp: feed_channel_def split: option.splits)
  have "ss_running s' = ss_running ?s" "ss_config s' = ss_config ?s" "\<forall>j. j \<noteq> nat channel \<longrightarrow> ss_channels s' ! j = ss_channels ?s ! j"
    using run by (auto simp: feedHop_def channel_index_def split: option.splits if_splits)
  with noted show "ss_running s' = ss_running (fst ss)" "ss_config s' = ss_config (fst ss)"
      "\<forall>j. j \<noteq> nat channel \<longrightarrow> ss_channels s' ! j = ss_channels (fst ss) ! j"
    by simp_all
qed

definition thread_fed ::
  "SplConfig \<Rightarrow> real \<Rightarrow> uint64_t \<Rightarrow> int \<Rightarrow> uint64_t \<Rightarrow> real list \<Rightarrow> AnalysisThreadSplState \<Rightarrow> bool"
where
  "thread_fed config rate K channel epoch stream a \<longleftrightarrow>
     as_sessionEpoch a = epoch \<and> ss_running (as_session a) \<and> sink_ok channel (as_logPipeline a) \<and>
     nat channel < length (as_channelStates a) \<and>
     (\<forall>j. j \<noteq> nat channel \<longrightarrow> j < kMaxLoggedChannels \<longrightarrow> ss_channels (as_session a) ! j = None) \<and>
     (\<exists>cs. as_channelStates a ! nat channel = Some cs \<and> feed_inv config rate K channel stream (as_session a, cs))"

lemma feed_inv_logs:
  assumes "feed_inv config rate K channel stream (s, cs)" "ss_running s" "channel_index channel = Some (nat channel)"
  shows "logsChannel channel s"
proof -
  let ?ws = "session_weightings (take kMaxMetrics (cf_metrics config))"
  obtain st where "ss_channels s ! nat channel = Some st" "map ch_weighting (st_chains st) = ?ws"
    using assms(1) unfolding feed_inv_def Let_def session_chains_inv_def fst_conv by blast
  then show ?thesis
    using assms(2,3) session_weightings_cover(3) [of "take kMaxMetrics (cf_metrics config)"]
    by (auto simp: logsChannel_def session_state_def)
qed

interpretation feeding: hop_fed "feedSpl env channel epoch K" "thread_fed config rate K channel epoch"
  "\<lambda>hop. length hop \<le> unat (session_block_samples config rate) \<and> channel_index channel \<noteq> None"
  for env channel epoch K config rate
proof
  fix stream hop :: "real list" and a env channel epoch K config rate
  assume inv: "thread_fed config rate K channel epoch stream a"
    and ok: "length hop \<le> unat (session_block_samples config rate) \<and> channel_index channel \<noteq> None"
  have idx: "channel_index channel = Some (nat channel)"
    using ok by (auto simp: channel_index_def split: if_splits)
  obtain cs where cs: "as_channelStates a ! nat channel = Some cs" "feed_inv config rate K channel stream (as_session a, cs)"
    using inv by (auto simp: thread_fed_def)
  obtain s' cs' where fed: "feed_channel channel K hop (as_session a, cs) = Some (s', cs')"
      "feed_inv config rate K channel (stream @ hop) (s', cs')"
    using feed.step_inv [OF cs(2) ok] by (metis surj_pair)
  obtain p where p: "push_blocks env channel (newlyClosedBlocks channel WeightA s') (as_logPipeline a) = Some p" "sink_ok channel p"
    using push_blocks_ok [OF _ idx, of "as_logPipeline a"] inv unfolding thread_fed_def by blast
  have "logsChannel channel (as_session a)"
    using feed_inv_logs [OF cs(2) _ idx] inv by (simp add: thread_fed_def)
  then show "\<exists>a'. feedSpl env channel epoch K hop a = Some a' \<and> thread_fed config rate K channel epoch (stream @ hop) a'"
    using inv cs(1) fed p feed_channel_frame [OF fed(1)] by (auto simp: feedSpl_def thread_fed_def)
qed

section \<open>From the request to the published alarm\<close>

lemma thread_fed_start:
  assumes start: "applyPendingSplRequest env pf [] rate epoch (enableSplLogging config [channel] dir cal AnalysisThreadSplState_new) = Inr a"
    and idx: "channel_index channel = Some (nat channel)"
  shows "thread_fed config rate K channel epoch [] a"
proof -
  have c: "\<not> channel < 0" "nat channel < kMaxLoggedChannels"
    using idx by (auto simp: channel_index_def split: if_splits)
  let ?params = "log_params env config rate [channel] dir cal"
  obtain s p where s: "SplSession_start config rate [channel] SplSession_new = Inr s"
    and p: "(if dir \<noteq> [] then pipeline_enable ?params SplLogPipeline_new else Inr SplLogPipeline_new) = Inr p"
    and a: "as_sessionEpoch a = epoch" "as_session a = s" "as_logPipeline a = p"
      "as_channelStates a = (replicate kMaxLoggedChannels None)[nat channel := Some (SplChannelState_new config rate)]"
    using start c
    by (auto simp: applyPendingSplRequest_def enableSplLogging_def AnalysisThreadSplState_new_def Let_def pipeline_stop_def
        SplLogPipeline_new_def split: sum.splits if_splits)
  have len: "length (ss_channels SplSession_new) = kMaxLoggedChannels"
    by (simp add: SplSession_new_def)
  have inv: "feed_inv config rate K channel [] (s, SplChannelState_new config rate)"
    by (rule feed_inv_start [OF s len _ idx]) simp
  have run: "ss_running s"
    by (rule session_start_fresh [OF s len _ idx refl refl]) simp_all
  have sink: "sink_ok channel p"
  proof (cases "dir = []")
    case True
    then show ?thesis
      using p c(2) by (auto simp: sink_ok_def SplLogPipeline_new_def)
  next
    case False
    then obtain sinks where sinks: "enable_sinks (ep_queueCapacityBlocks ?params) (ep_channels ?params) (pl_sinks SplLogPipeline_new) = Inr sinks"
        "pl_sinks p = sinks"
      using p by (auto simp: pipeline_enable_def SplLogPipeline_new_def Let_def split: sum.splits)
    have "ep_queueCapacityBlocks ?params \<le> 2 ^ 63" "length (pl_sinks SplLogPipeline_new) = kMaxLoggedChannels"
        "pl_sinks SplLogPipeline_new ! nat channel = None"
      using c by (simp_all add: log_params_def SplLogEnableParams_default_def SplLogPipeline_new_def)
    then show ?thesis
      using enable_sinks_slot [OF sinks(1), of "nat channel"] c sinks(2) by (auto simp: sink_ok_def split: option.splits)
  qed
  have other: "\<forall>j. j \<noteq> nat channel \<longrightarrow> j < kMaxLoggedChannels \<longrightarrow> ss_channels s ! j = None"
    using s idx by (auto simp: SplSession_start_def SplSession_stop_def SplSession_new_def Let_def split: sum.splits)
  show ?thesis
    using a inv run sink other c by (simp add: thread_fed_def)
qed


lemma first_logged_only:
  assumes "thread_fed config rate K channel epoch stream a" "channel_index channel = Some (nat channel)"
  shows "first_logged (as_session a) = Some channel"
proof -
  obtain cs where "feed_inv config rate K channel stream (as_session a, cs)" "ss_running (as_session a)"
    using assms(1) by (auto simp: thread_fed_def)
  then have "logsChannel channel (as_session a)"
    using feed_inv_logs assms(2) by blast
  moreover have "\<not> logsChannel (int j) (as_session a)" if "j < kMaxLoggedChannels" "j \<noteq> nat channel" for j
    using assms(1) that by (simp add: thread_fed_def logsChannel_def session_state_def channel_index_def)
  moreover have c: "channel = int (nat channel)" "nat channel < kMaxLoggedChannels"
    using assms(2) by (auto simp: channel_index_def split: if_splits)
  ultimately have "find (\<lambda>ch. logsChannel ch (as_session a)) (map int [0..<kMaxLoggedChannels]) = Some (int (nat channel))"
    by (auto simp: find_Some_iff intro!: exI [of _ "nat channel"])
  then show ?thesis
    using c(1) by (simp add: first_logged_def)
qed

lemma feed_inv_latest:
  assumes "feed_inv config rate K channel stream (s, cs)" "channel_index channel = Some (nat channel)"
    and "unat (session_block_samples config rate) \<le> length stream"
  shows "latestBlock channel s \<noteq> None"
proof -
  let ?n = "session_block_samples config rate" and ?cap = "session_capacity config"
  let ?ws = "session_weightings (take kMaxMetrics (cf_metrics config))"
  obtain st Bs where st: "ss_channels s ! nat channel = Some st" "map ch_weighting (st_chains st) = ?ws"
      "list_all2 (chain_inv ?n rate ?cap stream) Bs (st_chains st)"
    using assms(1) unfolding feed_inv_def Let_def session_chains_inv_def fst_conv by blast
  obtain c cs' where cs': "st_chains st = c # cs'"
    using st(2) session_weightings_cover(3) [of "take kMaxMetrics (cf_metrics config)"] by (cases "st_chains st") auto
  then obtain B where "chain_inv ?n rate ?cap stream B c"
    using st(3) by (auto simp: list_all2_Cons2)
  note B = chain_inv_blocks [OF this]
  have "0 < length B"
    using B(1,2) assms(3) by (simp add: div_greater_zero_iff)
  then have "length B - ?cap < length B"
    using B(3) by simp
  then have "ch_window c \<noteq> []"
    using B(4) by (simp add: latest_def)
  then show ?thesis
    using st(1) cs' assms(2) by (simp add: latestBlock_def session_state_def)
qed


lemma feed_inv_publishes:
  assumes "feed_inv config rate K channel stream (s, cs)" "list_all (\<lambda>n. 0 \<le> n \<and> n \<le> 100) (cf_lnPercents config)"
  obtains view where "fillPublish cs v = Inr view"
proof -
  obtain es where "cs = fold channel_step es (SplChannelState_new config rate)"
    using assms(1) unfolding feed_inv_def Let_def snd_conv by blast
  then have percents: "cs_lnPercents cs = cf_lnPercents config"
    using channel_after_fold [of es "SplChannelState_new config rate"]
    by (simp add: channel_after_def SplChannelState_new_def Let_def split_beta)
  obtain dbs where "percentile_slots (cs_lnHistogram cs) (cf_lnPercents config) = Inr dbs"
    by (rule percentile_slots_ok [OF assms(2)])
  then show thesis
    using that by (simp add: fillPublish_def Let_def percents)
qed

text \<open>
  Property C3: a published alarm is decided by the samples alone.  Take a thread that was asked to log one channel, with
  or without log files, and any split of the samples into hops no longer than a block, with no drop reported: the feed
  succeeds, and the published alarm is Fired or Clear according to the level of the last full window of its metric's
  weighted samples, and Filling as long as there is no such window, which includes for ever when the alarm's window
  is longer than that of every accepted metric or than 3600 blocks.
\<close>

theorem published_alarm_by_samples:
  assumes "applyPendingSplRequest env pf [] rate epoch (enableSplLogging config [channel] dir cal AnalysisThreadSplState_new) = Inr a"
    and "channel_index channel = Some (nat channel)" and "n = session_block_samples config rate"
    and "list_all (\<lambda>hop. length hop \<le> unat n) hops" and "unat n \<le> length (concat hops)" "length (concat hops) < 2 ^ 64"
    and "list_all (\<lambda>n. 0 \<le> n \<and> n \<le> 100) (cf_lnPercents config)"
    and "j < length (cf_alarms config)" and "spec = cf_alarms config ! j"
    and "fst (metric_of (cf_metrics config) spec) = Some w" and "Weighting_new w rate = Inr wg"
    and "w \<in> set (session_weightings (take kMaxMetrics (cf_metrics config)))"
  shows "\<exists>a' view. fold_opt (feedSpl env channel epoch K) hops a = Some a' \<and>
           buildSplBlockView (fillSplPublishInput a' input) = Inr (Some view) \<and>
           rd_state (vw_alarms view ! j) = alarm_verdict config rate spec (fst (Weighting_process wg (concat hops)))"
proof -
  have "list_all (\<lambda>hop. length hop \<le> unat (session_block_samples config rate) \<and> channel_index channel \<noteq> None) hops"
    using assms(2-4) by (simp add: list_all_iff)
  then obtain a' where run: "fold_opt (feedSpl env channel epoch K) hops a = Some a'"
      and fed: "thread_fed config rate K channel epoch (concat hops) a'"
    by (rule feeding.run_from_empty [OF thread_fed_start [OF assms(1,2)]])
  then obtain cs where cs: "as_channelStates a' ! nat channel = Some cs" "ss_running (as_session a')"
      "feed_inv config rate K channel (concat hops) (as_session a', cs)"
    by (auto simp: thread_fed_def)
  obtain b where b: "latestBlock channel (as_session a') = Some b"
    using feed_inv_latest [OF cs(3) assms(2)] assms(3,5) by blast
  let ?input = "fillSplPublishInput a' input"
  have input: "pi_config ?input = Some (ss_config (as_session a'))" "pi_latestBlock ?input = Some b" "pi_channelState ?input = Some cs"
    using first_logged_only [OF fed assms(2)] b cs(1,2) by (simp_all add: fillSplPublishInput_def fillSplPublishScalars_def Let_def)
  have "\<exists>v view. fillPublish cs v = Inr view \<and>
      (\<exists>view'. buildSplBlockView ?input = Inr (Some view') \<and> vw_alarms view' = vw_alarms view)"
  proof -
    have "\<exists>view. fillPublish cs v = Inr view" for v
      by (rule feed_inv_publishes [OF cs(3) assms(7)]) blast
    then show ?thesis
      unfolding buildSplBlockView_def input Let_def prod.case option.case
      by (auto split: sum.splits) (metis Inl_Inr_False)
  qed
  then show ?thesis
    using run feed_inv_alarm [OF cs(3) assms(6,8-12)] by metis
qed

definition alarmed_config :: SplConfig where
  "alarmed_config = sample_config\<lparr>cf_alarms :=
     [\<lparr>spec_metricId = ''LZeq'', spec_limitDb = 10, spec_windowBlocks = 2\<rparr>,
      \<lparr>spec_metricId = ''LZeq'', spec_limitDb = 10, spec_windowBlocks = 3\<rparr>]\<rparr>"


theorem published_alarm_by_samples_witness:
  "\<exists>env pf input a a' view.
     applyPendingSplRequest env pf [] 2 1 (enableSplLogging alarmed_config [0] [] None AnalysisThreadSplState_new) = Inr a \<and>
     fold_opt (feedSpl env 0 1 7) [[0, 0], [10, 10], [10, 10]] a = Some a' \<and>
     buildSplBlockView (fillSplPublishInput a' input) = Inr (Some view) \<and>
     rd_state (vw_alarms view ! 0) = AlarmFired \<and> rd_state (vw_alarms view ! 1) = AlarmFilling"
proof -
  let ?hops = "[[0, 0], [10, 10], [10, 10]] :: real list list"
  fix env :: spl_env and pf :: platform and input :: SplPublishInput
  obtain wg where wg: "Weighting_new WeightZ 2 = Inr wg" "cas_sections (wg_cascade wg) = []"
    by (simp add: Weighting_new_def BiquadCascade_new_def)
  have n: "session_block_samples alarmed_config 2 = 2" and cap: "session_capacity alarmed_config = 2"
    by (simp_all add: session_block_samples_def blockSamplesFor_def alarmed_config_def sample_config_def SplConfig_default_def
        session_capacity_def longest_window_def kMaxMetrics_def kMaxWindowBlocks_def max_def)
  have idx: "channel_index 0 = Some (nat 0)"
    by (simp add: channel_index_def kMaxLoggedChannels_def)
  obtain s where "SplSession_start alarmed_config 2 [0] SplSession_new = Inr s"
    by (simp add: SplSession_start_def Let_def channel_index_def kMaxLoggedChannels_def Chain_new_def SplMeter_new_def
        Weighting_new_def BlockAccumulator_new_def Detector_new_def session_weightings_def alarmed_config_def sample_config_def
        SplConfig_default_def refusedMetricCount_def acceptedMetricCount_def kMaxMetrics_def split: sum.splits)
  then obtain a where a: "applyPendingSplRequest env pf [] 2 1 (enableSplLogging alarmed_config [0] [] None AnalysisThreadSplState_new) = Inr a"
    by (simp add: applyPendingSplRequest_def enableSplLogging_def AnalysisThreadSplState_new_def Let_def pipeline_stop_def
        SplLogPipeline_new_def)
  have hops: "list_all (\<lambda>hop. length hop \<le> unat (2 :: uint32_t)) ?hops" "unat (2 :: uint32_t) \<le> length (concat ?hops)"
      "length (concat ?hops) < 2 ^ 64" "list_all (\<lambda>n. 0 \<le> n \<and> n \<le> 100) (cf_lnPercents alarmed_config)"
    by (simp_all add: alarmed_config_def sample_config_def SplConfig_default_def)
  have alarms: "j < length (cf_alarms alarmed_config)"
      "fst (metric_of (cf_metrics alarmed_config) (cf_alarms alarmed_config ! j)) = Some WeightZ" if "j \<in> {0, 1}" for j
    using that by (auto simp: alarmed_config_def sample_config_def metric_of_def)
  have z: "WeightZ \<in> set (session_weightings (take kMaxMetrics (cf_metrics alarmed_config)))"
    by (simp add: session_weightings_def alarmed_config_def sample_config_def kMaxMetrics_def)
  note published = published_alarm_by_samples [OF a idx n [symmetric] hops(1-4) alarms(1) refl alarms(2) wg(1) z,
      where K = 7 and input = input]
  obtain a' view where "fold_opt (feedSpl env 0 1 7) ?hops a = Some a'"
      "buildSplBlockView (fillSplPublishInput a' input) = Inr (Some view)"
      "rd_state (vw_alarms view ! 0) = alarm_verdict alarmed_config 2 (cf_alarms alarmed_config ! 0) (concat ?hops)"
    using published [of 0] by (auto simp: Z_is_flat wg)
  moreover have "rd_state (vw_alarms view ! 1) = alarm_verdict alarmed_config 2 (cf_alarms alarmed_config ! 1) (concat ?hops)"
    using published [of 1] calculation by (auto simp: Z_is_flat wg)
  moreover have "cf_alarms alarmed_config ! 0 = \<lparr>spec_metricId = ''LZeq'', spec_limitDb = 10, spec_windowBlocks = 2\<rparr>"
      "cf_alarms alarmed_config ! 1 = \<lparr>spec_metricId = ''LZeq'', spec_limitDb = 10, spec_windowBlocks = 3\<rparr>"
      "cf_referenceOffsetDb alarmed_config = 0"
    by (simp_all add: alarmed_config_def sample_config_def SplConfig_default_def)
  then have "alarm_verdict alarmed_config 2 (cf_alarms alarmed_config ! 0) (concat ?hops) = AlarmFired"
      "alarm_verdict alarmed_config 2 (cf_alarms alarmed_config ! 1) (concat ?hops) = AlarmFilling"
    by (simp_all add: alarm_verdict_def Let_def n cap window_level_def energy_def log_100)
  ultimately show ?thesis
    using a by metis
qed

end
