(* ===== verification/Spl_Log_Header.thy ===== *)
theory Spl_Log_Header
  imports Spl_Log
begin

text \<open>
  The reader of a log's header (\<^verbatim>\<open>app/src/export/SplLogHeaderParse.h\<close>).  The theory says what it returns for a file
  that was cut off at any byte: nothing as long as one of the required lines is missing, and afterwards every fact
  the header states whose line is there.
\<close>

section \<open>The parser\<close>

definition parseWeightingType :: "string \<Rightarrow> WeightingType option" where
  "parseWeightingType s =
     (if s = ''A'' then Some WeightA else if s = ''C'' then Some WeightC else if s = ''Z'' then Some WeightZ else None)"

definition parseTimeWeighting :: "string \<Rightarrow> TimeWeighting option" where
  "parseTimeWeighting s =
     (if s = ''Fast'' then Some Fast else if s = ''Slow'' then Some Slow else if s = ''Impulse'' then Some Impulse else None)"

record SplLogHeaderParsed =
  hp_info :: SplLogHeaderInfo
  hp_referenceOffsetDb :: "64 word"
  hp_calibrated :: bool

definition SplLogHeaderParsed_default :: SplLogHeaderParsed where
  "SplLogHeaderParsed_default =
     \<lparr>hp_info = \<lparr>hi_weighting = WeightA, hi_detector = Fast, hi_blockSamples = 0, hi_sampleRate = 0, hi_startedAtUnixMs = 0,
                hi_calibratorLevelDb = None\<rparr>, hp_referenceOffsetDb = 0, hp_calibrated = False\<rparr>"

text \<open>The locals of the loop: what was parsed, and which required lines were seen.\<close>

record header_state =
  hs_parsed :: SplLogHeaderParsed
  hs_weighting :: bool
  hs_detector :: bool
  hs_blockSamples :: bool
  hs_sampleRate :: bool
  hs_offset :: bool

text \<open>
  \<^verbatim>\<open>tryParse\<close> with its output argument: \<^verbatim>\<open>std::from_chars\<close> stores the number it found also when characters are left
  over and the result is false.
\<close>

definition tryParse_into :: "(string \<Rightarrow> ('a \<times> string) option) \<Rightarrow> string \<Rightarrow> 'a \<Rightarrow> 'a \<times> bool" where
  "tryParse_into from_chars v out =
     (if v = [] then (out, False)
      else case from_chars v of None \<Rightarrow> (out, False) | Some (x, rest) \<Rightarrow> (x, rest = []))"

lemma tryParse_into_parsed: "tryParse from_chars v = Some x \<Longrightarrow> tryParse_into from_chars v out = (x, True)"
  by (auto simp: tryParse_def tryParse_into_def split: if_splits option.splits)

definition with_info :: "(SplLogHeaderInfo \<Rightarrow> SplLogHeaderInfo) \<Rightarrow> header_state \<Rightarrow> header_state" where
  "with_info f s = s\<lparr>hs_parsed := (hs_parsed s)\<lparr>hp_info := f (hp_info (hs_parsed s))\<rparr>\<rparr>"

definition header_field :: "float_charconv \<Rightarrow> string \<Rightarrow> string \<Rightarrow> header_state \<Rightarrow> header_state" where
  "header_field cc key v s =
     (let i = hp_info (hs_parsed s)
      in
      if key = ''startedAtUnixMs'' then
        with_info (\<lambda>i. i\<lparr>hi_startedAtUnixMs := fst (tryParse_into from_chars_word v (hi_startedAtUnixMs i))\<rparr>) s
      else if key = ''sampleRate'' then
        (let (x, parsed) = tryParse_into (from_chars_double cc) v (hi_sampleRate i)
         in (with_info (\<lambda>i. i\<lparr>hi_sampleRate := x\<rparr>) s)\<lparr>hs_sampleRate := (parsed \<or> hs_sampleRate s)\<rparr>)
      else if key = ''blockSamples'' then
        (let (x, parsed) = tryParse_into from_chars_word v (hi_blockSamples i)
         in (with_info (\<lambda>i. i\<lparr>hi_blockSamples := x\<rparr>) s)\<lparr>hs_blockSamples := (parsed \<or> hs_blockSamples s)\<rparr>)
      else if key = ''weighting'' then
        (case parseWeightingType v of
           None \<Rightarrow> s | Some x \<Rightarrow> (with_info (\<lambda>i. i\<lparr>hi_weighting := x\<rparr>) s)\<lparr>hs_weighting := True\<rparr>)
      else if key = ''detector'' then
        (case parseTimeWeighting v of
           None \<Rightarrow> s | Some x \<Rightarrow> (with_info (\<lambda>i. i\<lparr>hi_detector := x\<rparr>) s)\<lparr>hs_detector := True\<rparr>)
      else if key = ''calibrationOffsetDb'' then
        (let (x, parsed) = tryParse_into (from_chars_double cc) v (hp_referenceOffsetDb (hs_parsed s))
         in s\<lparr>hs_parsed := (hs_parsed s)\<lparr>hp_referenceOffsetDb := x\<rparr>, hs_offset := (parsed \<or> hs_offset s)\<rparr>)
      else if key = ''calibrationUnit'' then s\<lparr>hs_parsed := (hs_parsed s)\<lparr>hp_calibrated := (v = ''dbspl'')\<rparr>\<rparr>
      else if key = ''calibratorLevelDb'' then
        (case tryParse (from_chars_double cc) v of
           None \<Rightarrow> s | Some x \<Rightarrow> with_info (\<lambda>i. i\<lparr>hi_calibratorLevelDb := Some x\<rparr>) s)
      else s)"

definition header_content :: "float_charconv \<Rightarrow> string \<Rightarrow> header_state \<Rightarrow> header_state" where
  "header_content cc content s = (case splitLine content of None \<Rightarrow> s | Some (key, v) \<Rightarrow> header_field cc key v s)"

function header_loop :: "float_charconv \<Rightarrow> string \<Rightarrow> header_state \<Rightarrow> header_state" where
  "header_loop cc body s =
     (case dropWhile (\<lambda>c. c \<noteq> newline) body of
        [] \<Rightarrow> s
      | _ # rest \<Rightarrow>
          (let line = stripTrailingCr (takeWhile (\<lambda>c. c \<noteq> newline) body)
           in if take 2 line \<noteq> ''# '' then s else header_loop cc rest (header_content cc (drop 2 line) s)))"
  by pat_completeness auto
termination
proof (relation "measure (length \<circ> fst \<circ> snd)")
  fix cc :: float_charconv and body c rest line and s :: header_state
  assume "dropWhile (\<lambda>c. c \<noteq> newline) body = c # rest"
  then have "length (c # rest) \<le> length body"
    by (metis length_dropWhile_le)
  then show "((cc, rest, header_content cc (drop 2 line) s), cc, body, s) \<in> measure (length \<circ> fst \<circ> snd)"
    by simp
qed simp

declare header_loop.simps [simp del]

definition parseLogHeader :: "float_charconv \<Rightarrow> string \<Rightarrow> SplLogHeaderParsed option" where
  "parseLogHeader cc csvBody =
     (let s = header_loop cc csvBody \<lparr>hs_parsed = SplLogHeaderParsed_default, hs_weighting = False, hs_detector = False,
                hs_blockSamples = False, hs_sampleRate = False, hs_offset = False\<rparr>
      in if \<not> hs_weighting s \<or> \<not> hs_detector s \<or> \<not> hs_blockSamples s \<or> \<not> hs_sampleRate s \<or> \<not> hs_offset s
         then None else Some (hs_parsed s))"

section \<open>A header cut off at any byte\<close>

definition header_format :: "float_charconv \<Rightarrow> bool" where
  "header_format cc \<longleftrightarrow> row_format cc \<and> (\<forall>x. backslash \<notin> set (to_chars_double cc x))"

lemma header_loop_line:
  assumes "newline \<notin> set l" "stripTrailingCr l = ''# '' @ content"
  shows "header_loop cc (l @ newline # rest) s = header_loop cc rest (header_content cc content s)"
  using assms by (subst header_loop.simps) (simp add: dropWhile_append takeWhile_append dropWhile_eq_Nil_conv [THEN iffD2])

lemma header_loop_rest:
  assumes "newline \<notin> set rest"
  shows "header_loop cc rest s = s"
proof -
  have "dropWhile (\<lambda>c. c \<noteq> newline) rest = []"
    using assms by (auto simp: dropWhile_eq_Nil_conv)
  then show ?thesis
    by (subst header_loop.simps) (simp del: dropWhile_eq_Nil_conv)
qed

lemma header_loop_columns:
  assumes "cr = [] \<or> cr = [carriage_return]"
  shows "header_loop cc (csvHeaderRow @ cr @ newline # rest) s = s"
proof -
  have "stripTrailingCr (csvHeaderRow @ cr) = csvHeaderRow"
    using assms by (auto simp: stripTrailingCr_def csvHeaderRow_def)
  moreover have "newline \<notin> set (csvHeaderRow @ cr)"
    using assms by (auto simp: csvHeaderRow_def)
  ultimately show ?thesis
    using assms by (subst header_loop.simps)
      (simp add: csvHeaderRow_def [THEN arg_cong, of "take 2"] dropWhile_append takeWhile_append dropWhile_eq_Nil_conv [THEN iffD2] flip: append_assoc)
qed

text \<open>The fields of a header as the loop meets them.\<close>

definition header_fields :: "float_charconv \<Rightarrow> double_arith \<Rightarrow> SplLogConfig \<Rightarrow> SplLogHeaderInfo \<Rightarrow> (string \<times> string) list" where
  "header_fields cc ar config info =
     [(''schema'', to_chars_word (1 :: uint64_t)), (''startedAtUnixMs'', to_chars_word (hi_startedAtUnixMs info)),
      (''sampleRate'', to_chars_double cc (hi_sampleRate info)), (''blockSamples'', to_chars_word (hi_blockSamples info)),
      (''weighting'', weightingType_toString (hi_weighting info)), (''detector'', weighting_toString (hi_detector info)),
      (''calibrationOffsetDb'', to_chars_double cc (lc_referenceOffsetDb config)),
      (''calibrationUnit'', if lc_calibrated config then ''dbspl'' else ''dbfs'')] @
     (case hi_calibratorLevelDb info of None \<Rightarrow> [] | Some level \<Rightarrow> [(''calibratorLevelDb'', to_chars_double cc level)]) @
     [(''histogramBaseDb'', to_chars_double cc (da_add ar double_minus_120 (lc_referenceOffsetDb config)))]"

lemma header_lines_fields:
  "header_lines cc ar config info = map (\<lambda>(key, v). ''# '' @ field_line key v) (header_fields cc ar config info)"
  by (simp add: header_lines_def header_fields_def)

definition HeaderInfo_ok :: "double_arith \<Rightarrow> SplLogConfig \<Rightarrow> SplLogHeaderInfo \<Rightarrow> bool" where
  "HeaderInfo_ok ar config info \<longleftrightarrow>
     \<not> is_nan64 (hi_sampleRate info) \<and> \<not> is_nan64 (lc_referenceOffsetDb config) \<and>
     \<not> is_nan64 (da_add ar double_minus_120 (lc_referenceOffsetDb config)) \<and>
     (case hi_calibratorLevelDb info of None \<Rightarrow> True | Some level \<Rightarrow> \<not> is_nan64 level)"

definition plain_field :: "string \<times> string \<Rightarrow> bool" where
  "plain_field f \<longleftrightarrow> CHR ''='' \<notin> set (fst f) \<and> newline \<notin> set (fst f) \<and> escape (snd f) = snd f \<and> no_trailing_cr (snd f) \<and> snd f \<noteq> []"

lemma word_field: "escape (to_chars_word w) = to_chars_word w" "no_trailing_cr (to_chars_word w)" "to_chars_word w \<noteq> []"
proof -
  have "\<not> is_digit newline" "\<not> is_digit backslash"
    by (simp_all add: is_digit_def)
  then show "escape (to_chars_word w) = to_chars_word w"
    using to_chars_word_digits by (intro escape_plain) blast+
  show "to_chars_word w \<noteq> []"
    by (simp add: to_chars_word_def)
  then show "no_trailing_cr (to_chars_word w)"
    using to_chars_word_digits not_digit_marks(2) last_in_set unfolding no_trailing_cr_def by metis
qed

lemma double_field:
  assumes "header_format cc" "\<not> is_nan64 x"
  shows "escape (to_chars_double cc x) = to_chars_double cc x" "no_trailing_cr (to_chars_double cc x)" "to_chars_double cc x \<noteq> []"
proof -
  have fmt: "numeric_text (to_chars_double cc) (from_chars_double cc) (\<lambda>x. \<not> is_nan64 x)"
    using assms(1) by (simp add: header_format_def row_format_def charconv_exact_def)
  show "no_trailing_cr (to_chars_double cc x)" "to_chars_double cc x \<noteq> []"
    using numeric_text.to_no_trailing_cr [OF fmt] numeric_text.to_nonempty [OF fmt] assms(2) by blast+
  show "escape (to_chars_double cc x) = to_chars_double cc x"
    using assms(1) by (intro escape_plain) (simp_all add: header_format_def row_format_def plain_text_def)
qed

lemma name_field:
  "escape (weightingType_toString w) = weightingType_toString w" "no_trailing_cr (weightingType_toString w)" "weightingType_toString w \<noteq> []"
  "escape (weighting_toString d) = weighting_toString d" "no_trailing_cr (weighting_toString d)" "weighting_toString d \<noteq> []"
  by (cases w; simp add: no_trailing_cr_def)+
     (cases d; simp add: weighting_toString_def no_trailing_cr_def)+

lemma header_fields_plain:
  assumes "header_format cc" "HeaderInfo_ok ar config info"
  shows "list_all plain_field (header_fields cc ar config info)"
  using assms(2)
  by (auto simp: header_fields_def plain_field_def HeaderInfo_ok_def word_field name_field double_field [OF assms(1)]
      no_trailing_cr_def [of "''dbspl''"] no_trailing_cr_def [of "''dbfs''"] split: option.split)

lemma header_content_field:
  assumes "plain_field (key, v)"
  shows "header_content cc (field_line key v) s = header_field cc key v s"
  using assms by (simp add: header_content_def plain_field_def splitLine_field_line)


lemma header_loop_fields:
  assumes "list_all plain_field fs" "cr = [] \<or> cr = [carriage_return]"
  shows "header_loop cc (file_of cr (map (\<lambda>(key, v). ''# '' @ field_line key v) fs) @ rest) s =
    header_loop cc rest (fold (\<lambda>(key, v). header_field cc key v) fs s)"
  using assms(1)
proof (induction fs arbitrary: s)
  case (Cons f fs)
  obtain key v where f: "f = (key, v)"
    by fastforce
  let ?l = "''# '' @ field_line key v"
  have ok: "plain_field (key, v)"
    using Cons.prems f by simp
  then have "no_trailing_cr ?l" "newline \<notin> set (?l @ cr)"
    using assms(2) escape_no_newline [of v] by (auto simp: plain_field_def no_trailing_cr_def field_line_def)
  moreover from this have "stripTrailingCr (?l @ cr) = ?l"
    by (intro strip_cr [OF assms(2)] stripTrailingCr_ident)
  ultimately have "header_loop cc ((?l @ cr) @ newline # r) s = header_loop cc r (header_content cc (field_line key v) s)" for r
    by (intro header_loop_line) simp_all
  then show ?case
    using Cons header_content_field [OF ok] by (simp add: f)
qed simp

text \<open>What the header says in its first \<open>m\<close> lines.\<close>

definition header_facts :: "SplLogConfig \<Rightarrow> SplLogHeaderInfo \<Rightarrow> nat \<Rightarrow> SplLogHeaderParsed option" where
  "header_facts config info m =
     (if m < 7 then None
      else Some \<lparr>hp_info = info\<lparr>hi_calibratorLevelDb := (if m < 9 then None else hi_calibratorLevelDb info)\<rparr>,
                 hp_referenceOffsetDb = lc_referenceOffsetDb config, hp_calibrated = (lc_calibrated config \<and> 8 \<le> m)\<rparr>)"

definition header_result :: "header_state \<Rightarrow> SplLogHeaderParsed option" where
  "header_result s =
     (if \<not> hs_weighting s \<or> \<not> hs_detector s \<or> \<not> hs_blockSamples s \<or> \<not> hs_sampleRate s \<or> \<not> hs_offset s
      then None else Some (hs_parsed s))"

definition header_start :: header_state where
  "header_start = \<lparr>hs_parsed = SplLogHeaderParsed_default, hs_weighting = False, hs_detector = False,
     hs_blockSamples = False, hs_sampleRate = False, hs_offset = False\<rparr>"

lemma parseLogHeader_result: "parseLogHeader cc body = header_result (header_loop cc body header_start)"
  by (simp add: parseLogHeader_def header_result_def header_start_def Let_def)

lemma parse_names [simp]:
  "parseWeightingType (weightingType_toString w) = Some w" "parseTimeWeighting (weighting_toString d) = Some d"
  by (cases w; simp add: parseWeightingType_def) (cases d; simp add: parseTimeWeighting_def weighting_toString_def)

lemma header_fields_result:
  assumes "header_format cc" "HeaderInfo_ok ar config info"
  shows "header_result (fold (\<lambda>(key, v). header_field cc key v) (take m (header_fields cc ar config info)) header_start) =
    header_facts config info m"
proof -
  have exact: "charconv_exact cc"
    using assms(1) by (simp add: header_format_def row_format_def)
  note eval = header_fields_def header_field_def with_info_def header_result_def header_facts_def header_start_def
    SplLogHeaderParsed_default_def tryParse_double [OF exact]
    tryParse_into_parsed [OF tryParse_double [OF exact]] tryParse_into_parsed [OF u64.tryParse_to] tryParse_into_parsed [OF u32.tryParse_to]
  obtain w d n r t c where info: "info = \<lparr>hi_weighting = w, hi_detector = d, hi_blockSamples = n, hi_sampleRate = r,
      hi_startedAtUnixMs = t, hi_calibratorLevelDb = c\<rparr>"
    by (cases info) blast
  have ok: "\<not> is_nan64 r" "\<not> is_nan64 (lc_referenceOffsetDb config)" "\<And>x. c = Some x \<Longrightarrow> \<not> is_nan64 x"
    using assms(2) by (auto simp: HeaderInfo_ok_def info)
  consider "m \<in> {0, 1, 2, 3, 4, 5, 6}" | "m = 7" | "m = 8" | "9 \<le> m"
    by fastforce
  then show ?thesis
  proof cases
    case 1
    then show ?thesis
      by (elim insertE emptyE; simp add: eval info ok)
  next
    case 4
    then obtain k where m: "m = Suc (Suc (Suc (Suc (Suc (Suc (Suc (Suc (Suc k))))))))"
      by (metis add_Suc add_0 le_Suc_ex numeral_nat)
    then show ?thesis
      by (cases c; cases k; simp add: eval info ok)
  qed (simp_all add: eval info ok)
qed


lemma header_loop_cut:
  assumes "header_format cc" "HeaderInfo_ok ar config info" "cr = [] \<or> cr = [carriage_return]" "newline \<notin> set rest"
  shows "header_result (header_loop cc (file_of cr (take m (log_lines cc ar config info bs)) @ rest) header_start) =
    header_facts config info m"
proof -
  let ?fs = "header_fields cc ar config info"
  let ?line = "\<lambda>(key, v). ''# '' @ field_line key v"
  let ?state = "\<lambda>m. fold (\<lambda>(key, v). header_field cc key v) (take m ?fs) header_start"
  have plain: "list_all plain_field (take m ?fs)" for m
    using header_fields_plain [OF assms(1,2)] by (auto simp: list_all_iff dest: in_set_takeD)
  have lines: "log_lines cc ar config info bs = map ?line ?fs @ csvHeaderRow # map (row_text cc ar (lc_referenceOffsetDb config)) bs"
    by (simp add: log_lines_def header_lines_fields)
  show ?thesis
  proof (cases "m \<le> length ?fs")
    case True
    then have "take m (log_lines cc ar config info bs) = map ?line (take m ?fs)"
      by (simp add: lines take_map)
    then show ?thesis
      using header_loop_fields [OF plain assms(3), of cc m rest] header_loop_rest [OF assms(4)]
        header_fields_result [OF assms(1,2), of m] by simp
  next
    case False
    then obtain k where m: "m = Suc (length ?fs + k)"
      by (metis add_Suc less_iff_Suc_add not_le)
    let ?rest = "file_of cr (take k (map (row_text cc ar (lc_referenceOffsetDb config)) bs)) @ rest"
    have "take m (log_lines cc ar config info bs) =
        map ?line (take (length ?fs) ?fs) @ csvHeaderRow # take k (map (row_text cc ar (lc_referenceOffsetDb config)) bs)"
      by (simp add: lines m)
    then have "header_loop cc (file_of cr (take m (log_lines cc ar config info bs)) @ rest) header_start =
        header_loop cc (csvHeaderRow @ cr @ newline # ?rest) (?state (length ?fs))"
      using header_loop_fields [OF plain assms(3), of cc "length ?fs" "csvHeaderRow @ cr @ newline # ?rest"] by simp
    also have "\<dots> = ?state m"
      using header_loop_columns [OF assms(3)] by (simp add: m)
    finally show ?thesis
      using header_fields_result [OF assms(1,2), of m] by simp
  qed
qed

lemma parse_header_cut:
  assumes "header_format cc" and "HeaderInfo_ok ar config info"
    and "csv = (if crlf then to_crlf else id) (log_text cc ar config info bs)"
  shows "parseLogHeader cc (take k csv) = header_facts config info (newlines (take k csv)) \<and>
         parseLogHeader cc csv =
           Some \<lparr>hp_info = info, hp_referenceOffsetDb = lc_referenceOffsetDb config, hp_calibrated = lc_calibrated config\<rparr>"
proof -
  define cr where "cr = (if crlf then [carriage_return] else [])"
  let ?ls = "log_lines cc ar config info bs"
  have cr: "cr = [] \<or> cr = [carriage_return]" "newline \<notin> set cr"
    by (simp_all add: cr_def)
  have lines: "list_all (\<lambda>l. newline \<notin> set l) ?ls"
    using assms(1) by (intro log_lines_ok) (simp add: header_format_def)
  have csv: "csv = file_of cr ?ls"
    using assms(3) crlf_file [OF lines] by (simp add: log_text_lines cr_def)
  have cut: "parseLogHeader cc (take k csv) = header_facts config info (newlines (take k csv))" for k
  proof -
    obtain m rest where m: "take k csv = file_of cr (take m ?ls) @ rest" "newline \<notin> set rest" "m \<le> length ?ls"
      using take_file_of [OF lines cr(2), of k] csv by blast
    have "list_all (\<lambda>l. newline \<notin> set l) (take m ?ls)"
      using lines by (auto simp: list_all_iff dest: in_set_takeD)
    then have "newlines (take k csv) = m"
      using newlines_file(1) [OF _ cr(2) m(2)] m(1,3) by simp
    then show ?thesis
      using header_loop_cut [OF assms(1,2) cr(1) m(2), of m bs] m(1) by (simp add: parseLogHeader_result)
  qed
  have "9 \<le> newlines csv"
    using newlines_file(1) [OF lines cr(2), of "[]"] csv by (simp add: log_lines_def header_lines_def)
  then have "header_facts config info (newlines csv) =
      Some \<lparr>hp_info = info, hp_referenceOffsetDb = lc_referenceOffsetDb config, hp_calibrated = lc_calibrated config\<rparr>"
    by (simp add: header_facts_def)
  then show ?thesis
    using cut [of k] cut [of "length csv"] by simp
qed

text \<open>
  The header of a log file that was cut off at any byte, written with either kind of line end, is read as
  follows.  With fewer than seven whole lines, up to the calibration offset, nothing is returned.  With exactly seven
  the offset is returned, but a calibrated log reads as uncalibrated; with eight everything but the level of the
  calibrator is returned; from nine lines on every fact of the header is returned bit for bit, whatever rows follow.
\<close>

theorem parseLogHeader_cut_file:
  assumes "header_format cc" and "HeaderInfo_ok ar config info"
    and "csv = (if crlf then to_crlf else id) (log_text cc ar config info bs)"
  shows "parseLogHeader cc (take k csv) = header_facts config info (newlines (take k csv)) \<and>
         parseLogHeader cc csv =
           Some \<lparr>hp_info = info, hp_referenceOffsetDb = lc_referenceOffsetDb config, hp_calibrated = lc_calibrated config\<rparr>"
  by (rule parse_header_cut [OF assms])

lemma sample_header_format: "header_format sample_charconv"
proof -
  have "backslash \<notin> set (word_chars w)" for w :: "64 word"
    using to_chars_word_digits [of backslash w] by (auto simp: to_chars_word_def word_chars_def is_digit_def)
  then show ?thesis
    by (simp add: header_format_def sample_row_format) (simp add: sample_charconv_def)
qed

theorem parseLogHeader_cut_file_witness:
  "(let config = sample_log_config\<lparr>lc_calibrated := True\<rparr>;
        csv = to_crlf (log_text sample_charconv sample_arith config sample_log_info [sample_row])
    in parseLogHeader sample_charconv csv =
         Some \<lparr>hp_info = sample_log_info, hp_referenceOffsetDb = 0, hp_calibrated = True\<rparr> \<and>
       parseLogHeader sample_charconv [] = None)"
proof -
  let ?config = "sample_log_config\<lparr>lc_calibrated := True\<rparr>"
  have "HeaderInfo_ok sample_arith ?config sample_log_info"
    by (simp add: HeaderInfo_ok_def sample_arith_def sample_log_config_def sample_log_info_def double_minus_120_def is_nan64_def)
  from parseLogHeader_cut_file [OF sample_header_format this refl, where crlf = True and bs = "[sample_row]" and k = 0] show ?thesis
    by (simp add: Let_def sample_log_config_def header_facts_def newlines_def)
qed

end
