(* ===== verification/Calibration.thy ===== *)
theory Calibration
  imports Spl_Meter Routing_Plan
begin

text \<open>
  The calibration checks of a sound level session (\<^verbatim>\<open>app/src/measure/CalibrationSession.cpp\<close>,
  \<^verbatim>\<open>CalibrationChannel.h\<close>, \<^verbatim>\<open>CalibratedSplConfig.h\<close>): a check at the start, a check at the end, the drift
  between them and the verdict.  The records are generic in the type of a level: a real number here, a bit pattern
  where the record is written to a file.
\<close>

section \<open>Data\<close>

record 'd CalibrationLevel =
  cl_nominalDb :: 'd
  cl_operatorSupplied :: bool

datatype CalibrationVerdict = Pass | Fail

record 'd CalibrationCheck =
  ck_level :: "'d CalibrationLevel"
  ck_measuredLevelDb :: 'd
  ck_offsetDb :: 'd
  ck_unixMs :: uint64_t

record 'd CalibrationReportFields =
  rf_performed :: bool
  rf_start :: "'d CalibrationCheck"
  rf_end :: "'d CalibrationCheck"
  rf_driftDb :: 'd
  rf_verdict :: "CalibrationVerdict option"
  rf_clause :: string

definition kIec60942Level94Db :: real where "kIec60942Level94Db = 94"
definition kIec60942Level114Db :: real where "kIec60942Level114Db = 114"
definition kMaxDriftDb :: real where "kMaxDriftDb = 0.5"
definition kClause :: string where "kClause = ''ISO 1996-2:2017 cl. 5.2''"

definition calibrationLevel :: "real \<Rightarrow> real CalibrationLevel" where
  "calibrationLevel nominalDb =
     \<lparr>cl_nominalDb = nominalDb, cl_operatorSupplied = (nominalDb \<noteq> kIec60942Level94Db \<and> nominalDb \<noteq> kIec60942Level114Db)\<rparr>"

definition CalibrationCheck_default :: "real CalibrationCheck" where
  "CalibrationCheck_default =
     \<lparr>ck_level = \<lparr>cl_nominalDb = kIec60942Level94Db, cl_operatorSupplied = False\<rparr>, ck_measuredLevelDb = 0, ck_offsetDb = 0, ck_unixMs = 0\<rparr>"

definition verdictForDrift :: "real \<Rightarrow> CalibrationVerdict" where
  "verdictForDrift driftDb = (if driftDb \<le> kMaxDriftDb then Pass else Fail)"

section \<open>One check\<close>

text \<open>\<open>None\<close> stands for an exception of a constructor, which ends the process, and for a push that never returns.\<close>

definition measureRawZLevelDb :: "real list \<Rightarrow> real \<Rightarrow> real option" where
  "measureRawZLevelDb samples rate =
     (if samples = [] \<or> \<not> rate > 0 then Some measure_kLevelFloorDb
      else
        let scratch = SplConfig_default\<lparr>cf_blockSeconds := real (length samples) / rate, cf_referenceOffsetDb := 0\<rparr>
        in case SplMeter_new scratch WeightZ rate of
             Inl _ \<Rightarrow> None
           | Inr meter \<Rightarrow>
               (case SplMeter_push samples meter of
                  None \<Rightarrow> None
                | Some meter \<Rightarrow>
                    (case fst (SplMeter_poll meter) of
                       None \<Rightarrow> Some measure_kLevelFloorDb
                     | Some block \<Rightarrow> Some (blockLevelDb block 0))))"

definition buildCheck :: "real CalibrationLevel \<Rightarrow> real list \<Rightarrow> real \<Rightarrow> uint64_t \<Rightarrow> real CalibrationCheck option" where
  "buildCheck level samples rate unixMs =
     (case measureRawZLevelDb samples rate of
        None \<Rightarrow> None
      | Some measured \<Rightarrow>
          Some \<lparr>ck_level = level, ck_measuredLevelDb = measured,
                ck_offsetDb = calibrationOffsetDb (cl_nominalDb level) measured, ck_unixMs = unixMs\<rparr>)"

section \<open>The session\<close>

record CalibrationSession =
  cal_start :: "real CalibrationCheck option"
  cal_end :: "real CalibrationCheck option"

definition CalibrationSession_new :: CalibrationSession where
  "CalibrationSession_new = \<lparr>cal_start = None, cal_end = None\<rparr>"

definition recordStartCheck ::
  "real CalibrationLevel \<Rightarrow> real list \<Rightarrow> real \<Rightarrow> uint64_t \<Rightarrow> CalibrationSession \<Rightarrow> CalibrationSession option" where
  "recordStartCheck level samples rate unixMs s =
     (if samples = [] \<or> \<not> rate > 0 then Some s
      else case buildCheck level samples rate unixMs of
             None \<Rightarrow> None
           | Some check \<Rightarrow> Some (s\<lparr>cal_end := None, cal_start := Some check\<rparr>))"

definition recordEndCheck ::
  "real CalibrationLevel \<Rightarrow> real list \<Rightarrow> real \<Rightarrow> uint64_t \<Rightarrow> CalibrationSession \<Rightarrow> CalibrationSession option" where
  "recordEndCheck level samples rate unixMs s =
     (if samples = [] \<or> \<not> rate > 0 then Some s
      else case buildCheck level samples rate unixMs of
             None \<Rightarrow> None
           | Some check \<Rightarrow> Some (s\<lparr>cal_end := Some check\<rparr>))"

definition driftDb :: "CalibrationSession \<Rightarrow> real option" where
  "driftDb s =
     (case (cal_start s, cal_end s) of
        (Some a, Some b) \<Rightarrow> Some \<bar>ck_offsetDb b - ck_offsetDb a\<bar>
      | _ \<Rightarrow> None)"

definition verdict :: "CalibrationSession \<Rightarrow> CalibrationVerdict option" where
  "verdict s = (case driftDb s of None \<Rightarrow> None | Some drift \<Rightarrow> Some (verdictForDrift drift))"

definition CalibrationReportFields_default :: "real CalibrationReportFields" where
  "CalibrationReportFields_default =
     \<lparr>rf_performed = False, rf_start = CalibrationCheck_default, rf_end = CalibrationCheck_default, rf_driftDb = 0,
      rf_verdict = None, rf_clause = []\<rparr>"

definition reportFields :: "CalibrationSession \<Rightarrow> real CalibrationReportFields" where
  "reportFields s =
     (let fields = CalibrationReportFields_default\<lparr>rf_clause := kClause\<rparr>
      in case (cal_start s, cal_end s) of
           (Some a, Some b) \<Rightarrow>
             fields\<lparr>rf_performed := True, rf_start := a, rf_end := b, rf_driftDb := the (driftDb s), rf_verdict := verdict s\<rparr>
         | _ \<Rightarrow> fields)"

text \<open>The precondition \<^verbatim>\<open>hasStartCheck()\<close> is the domain.\<close>

definition referenceOffsetDb :: "CalibrationSession \<Rightarrow> real option" where
  "referenceOffsetDb s = map_option ck_offsetDb (cal_start s)"

definition calibratedSplLogConfig :: "CalibrationSession \<Rightarrow> (SplConfig \<times> real) option" where
  "calibratedSplLogConfig s =
     (case cal_start s of
        None \<Rightarrow> None
      | Some a \<Rightarrow> Some (SplConfig_default\<lparr>cf_referenceOffsetDb := ck_offsetDb a, cf_calibrated := True\<rparr>, cl_nominalDb (ck_level a)))"

section \<open>The channel of a check\<close>

definition calibrationMeasurementChannel :: "RoutingPlan \<Rightarrow> int \<Rightarrow> int option" where
  "calibrationMeasurementChannel plan routeIndex =
     (if routeIndex < 0 \<or> nat routeIndex \<ge> length (routes plan) then None
      else Some (measurementChannel (routes plan ! nat routeIndex)))"

datatype CalibrationChannelDecision = Write | RefuseChannelMismatch | RefuseNoMeasurementChannel

definition decideCalibrationRecordChannel :: "int \<Rightarrow> int \<Rightarrow> CalibrationChannelDecision" where
  "decideCalibrationRecordChannel startChannel endChannel =
     (if startChannel < 0 \<or> endChannel < 0 then RefuseNoMeasurementChannel
      else if startChannel \<noteq> endChannel then RefuseChannelMismatch
      else Write)"

section \<open>What a check measures\<close>

text \<open>The level of a capture: ten times the logarithm of its mean square.\<close>

definition capture_level :: "real list \<Rightarrow> real" where
  "capture_level xs =
     (if energy xs > 0 then 10 * log 10 (energy xs / real (length xs)) else kLevelFloorDb)"

lemma block_of_whole_capture:
  assumes "0 < length xs" "length xs < 2 ^ 32" "0 < rate"
  shows "unat (blockSamplesFor (real (length xs) / rate) rate) = length xs"
proof -
  have "\<lfloor>real (length xs) / rate * rate + 1 / 2\<rfloor> = int (length xs)"
    using assms(3) by (simp add: floor_unique)
  moreover have "real (length xs) / rate > 0" "real (length xs) / rate * rate = real (length xs)"
    using assms(1,3) by (simp_all add: zero_less_divide_iff)
  moreover have "\<not> real (length xs) + 1 / 2 < 1"
    using assms(1) by linarith
  moreover have "unat (word_of_int (int (length xs)) :: uint32_t) = length xs"
    using assms(2) by (simp add: unsigned_of_nat take_bit_nat_eq_self)
  ultimately show ?thesis
    using assms(3) by (simp add: blockSamplesFor_def)
qed

lemma new_scratch_meter:
  assumes "0 < length xs" "length xs < 2 ^ 32" "0 < rate"
  obtains m where "SplMeter_new (SplConfig_default\<lparr>cf_blockSeconds := real (length xs) / rate, cf_referenceOffsetDb := 0\<rparr>) WeightZ rate = Inr m"
    "unat (acc_blockSamples (sm_accumulator m)) = length xs" "cas_sections (wg_cascade (sm_main m)) = []"
proof -
  have "blockSamplesFor (real (length xs) / rate) rate \<noteq> 0"
    using block_of_whole_capture [OF assms] assms(1) by auto
  then show thesis
    using that block_of_whole_capture [OF assms] assms(3)
    by (simp add: SplMeter_new_def Weighting_new_def BlockAccumulator_new_def Detector_new_def BiquadCascade_new_def)
qed

lemma measured_level:
  assumes "0 < length xs" "length xs < 2 ^ 32" "0 < rate"
  shows "measureRawZLevelDb xs rate = Some (capture_level xs)"
proof -
  obtain m where m: "SplMeter_new (SplConfig_default\<lparr>cf_blockSeconds := real (length xs) / rate, cf_referenceOffsetDb := 0\<rparr>) WeightZ rate = Inr m"
      "unat (acc_blockSamples (sm_accumulator m)) = length xs" "cas_sections (wg_cascade (sm_main m)) = []"
    by (rule new_scratch_meter [OF assms])
  let ?n = "acc_blockSamples (sm_accumulator m)"
  have len: "length xs \<le> kReadyBufferCapacity * unat ?n"
    using m(2) by (simp add: kReadyBufferCapacity_def kScratchSamples_def)
  obtain bs m1 m2 where push: "SplMeter_push xs m = Some m1" "meter_drain m1 = (bs, m2)"
      "meter_inv ?n (sm_main m) ([] @ xs) ([] @ bs) m2" "sm_readyCount m2 = 0"
    by (rule push_drain [OF SplMeter_new_inv(1) [OF m(1)] SplMeter_new_inv(2) [OF m(1)] len])
  have "map block_facts bs = [stream_block ?n xs xs 0]"
    using meter_invE(12) [OF push(3)] push(4) assms(1) m(2) by (simp add: meter_queue_def Z_is_flat [OF m(3)])
  then obtain b where b: "bs = [b]" "block_facts b = stream_block ?n xs xs 0"
    by auto
  have "fst (SplMeter_poll m1) = Some b"
    using push(2) b(1) by (subst (asm) meter_drain.simps) (auto split: prod.splits option.splits)
  moreover have "blk_samples b = ?n" "blk_sumSquares b = energy xs"
    using b(2) m(2) by (simp_all add: block_facts_def stream_block_def)
  moreover have "?n \<noteq> 0"
    using m(2) assms(1) by auto
  ultimately show ?thesis
    using m push(1) assms by (simp add: measureRawZLevelDb_def blockLevelDb_def capture_level_def)
qed

section \<open>Any sequence of checks\<close>

datatype check_kind = StartCheck | EndCheck

record check_call =
  cc_kind :: check_kind
  cc_level :: "real CalibrationLevel"
  cc_samples :: "real list"
  cc_rate :: real
  cc_unixMs :: uint64_t

definition do_check :: "check_call \<Rightarrow> CalibrationSession \<Rightarrow> CalibrationSession option" where
  "do_check c =
     (case cc_kind c of StartCheck \<Rightarrow> recordStartCheck | EndCheck \<Rightarrow> recordEndCheck)
       (cc_level c) (cc_samples c) (cc_rate c) (cc_unixMs c)"

definition usable :: "check_call \<Rightarrow> bool" where
  "usable c \<longleftrightarrow> cc_samples c \<noteq> [] \<and> cc_rate c > 0"

text \<open>What a check should hold, said of its samples.\<close>

definition check_of :: "check_call \<Rightarrow> real CalibrationCheck" where
  "check_of c =
     \<lparr>ck_level = cc_level c, ck_measuredLevelDb = capture_level (cc_samples c),
      ck_offsetDb = cl_nominalDb (cc_level c) - capture_level (cc_samples c), ck_unixMs = cc_unixMs c\<rparr>"

text \<open>The bracket of a history, latest call first: the last start check and the last end check after it.\<close>

fun bracket :: "check_call list \<Rightarrow> check_call option \<times> check_call option" where
  "bracket [] = (None, None)"
| "bracket (c # earlier) =
     (if cc_kind c = StartCheck then (Some c, None) else (fst (bracket earlier), Some c))"

definition calibration_report :: "check_call list \<Rightarrow> real CalibrationReportFields" where
  "calibration_report calls =
     (case bracket (rev (filter usable calls)) of
        (Some a, Some b) \<Rightarrow>
          (let drift = \<bar>ck_offsetDb (check_of b) - ck_offsetDb (check_of a)\<bar>
           in \<lparr>rf_performed = True, rf_start = check_of a, rf_end = check_of b, rf_driftDb = drift,
               rf_verdict = Some (if drift \<le> 1 / 2 then Pass else Fail), rf_clause = kClause\<rparr>)
      | _ \<Rightarrow> CalibrationReportFields_default\<lparr>rf_clause := kClause\<rparr>)"

definition session_of :: "check_call option \<times> check_call option \<Rightarrow> CalibrationSession" where
  "session_of br = \<lparr>cal_start = map_option check_of (fst br), cal_end = map_option check_of (snd br)\<rparr>"

lemma do_check_bracket:
  assumes "length (cc_samples c) < 2 ^ 32"
  shows "do_check c (session_of (bracket earlier)) =
    Some (session_of (bracket (if usable c then c # earlier else earlier)))"
proof (cases "usable c")
  case True
  then have "buildCheck (cc_level c) (cc_samples c) (cc_rate c) (cc_unixMs c) = Some (check_of c)"
    using measured_level [of "cc_samples c" "cc_rate c"] assms
    by (simp add: buildCheck_def check_of_def usable_def calibrationOffsetDb_def)
  then show ?thesis
    using True
    by (cases "cc_kind c") (simp_all add: do_check_def recordStartCheck_def recordEndCheck_def usable_def session_of_def)
next
  case False
  then show ?thesis
    by (auto simp: do_check_def recordStartCheck_def recordEndCheck_def usable_def split: check_kind.split)
qed

lemma checks_bracket:
  assumes "list_all (\<lambda>c. length (cc_samples c) < 2 ^ 32) calls"
  shows "fold_opt do_check calls (session_of (bracket earlier)) =
    Some (session_of (bracket (rev (filter usable calls) @ earlier)))"
  using assms
proof (induction calls arbitrary: earlier)
  case (Cons c calls)
  then show ?case
    using do_check_bracket [of c earlier] by simp
qed simp

lemma reportFields_session: "reportFields (session_of br) =
    (case br of
       (Some a, Some b) \<Rightarrow>
          (let drift = \<bar>ck_offsetDb (check_of b) - ck_offsetDb (check_of a)\<bar>
           in \<lparr>rf_performed = True, rf_start = check_of a, rf_end = check_of b, rf_driftDb = drift,
               rf_verdict = Some (if drift \<le> 1 / 2 then Pass else Fail), rf_clause = kClause\<rparr>)
      | _ \<Rightarrow> CalibrationReportFields_default\<lparr>rf_clause := kClause\<rparr>)"
  by (auto simp: session_of_def reportFields_def driftDb_def verdict_def verdictForDrift_def kMaxDriftDb_def Let_def
      CalibrationReportFields_default_def split: prod.split option.split)

text \<open>
  Property C10: after any sequence of start and end checks the report states what the samples say.  Calls without
  samples or without a sample rate do not count.  A calibration was performed if a check that counts ended the bracket
  of the last start check; an end check of an earlier bracket is never paired with it.  The measured levels are ten
  times the logarithm of the mean square of the captures, the drift is the distance of the two corrections, in either
  direction, and the verdict is a pass up to half a decibel, the bound included.
\<close>

theorem calibration_report_by_samples:
  assumes "list_all (\<lambda>c. length (cc_samples c) < 2 ^ 32) calls"
  shows "\<exists>s. fold_opt do_check calls CalibrationSession_new = Some s \<and> reportFields s = calibration_report calls"
proof -
  have "CalibrationSession_new = session_of (bracket [])"
    by (simp add: CalibrationSession_new_def session_of_def)
  then show ?thesis
    using checks_bracket [OF assms, of "[]"] by (simp add: reportFields_session calibration_report_def)
qed

theorem calibration_report_by_samples_witness:
  "\<exists>s. fold_opt do_check
     [\<lparr>cc_kind = StartCheck, cc_level = calibrationLevel 94, cc_samples = [1, 1], cc_rate = 48000, cc_unixMs = 1\<rparr>,
      \<lparr>cc_kind = EndCheck, cc_level = calibrationLevel 94, cc_samples = [10], cc_rate = 48000, cc_unixMs = 2\<rparr>,
      \<lparr>cc_kind = EndCheck, cc_level = calibrationLevel 94, cc_samples = [], cc_rate = 48000, cc_unixMs = 3\<rparr>]
     CalibrationSession_new = Some s \<and>
     rf_performed (reportFields s) \<and> rf_driftDb (reportFields s) = 20 \<and> rf_verdict (reportFields s) = Some Fail"
proof -
  let ?calls = "[\<lparr>cc_kind = StartCheck, cc_level = calibrationLevel 94, cc_samples = [1, 1], cc_rate = 48000, cc_unixMs = 1\<rparr>,
      \<lparr>cc_kind = EndCheck, cc_level = calibrationLevel 94, cc_samples = [10], cc_rate = 48000, cc_unixMs = 2\<rparr>,
      \<lparr>cc_kind = EndCheck, cc_level = calibrationLevel 94, cc_samples = [], cc_rate = 48000, cc_unixMs = 3\<rparr>]"
  have "log 10 (100 :: real) = 2"
    using log_pow_cancel [of 10 2] by simp
  then have "rf_performed (calibration_report ?calls) \<and> rf_driftDb (calibration_report ?calls) = 20 \<and>
      rf_verdict (calibration_report ?calls) = Some Fail"
    by (simp add: calibration_report_def usable_def check_of_def capture_level_def energy_def calibrationLevel_def Let_def)
  then show ?thesis
    using calibration_report_by_samples [of ?calls] by (auto simp del: fold_opt.simps)
qed

end
