(* ===== verification/Calibration_Record.thy ===== *)
theory Calibration_Record
  imports Spl_Log_Header Calibration
begin

text \<open>
  The record of a calibration beside its log (\<^verbatim>\<open>app/src/export/SplCalibrationRecord.h\<close>): the text that is written after
  the end check and its reader.  A level is its bit pattern here.
\<close>

section \<open>Data\<close>

datatype CalibrationRecordRefusal = NoRefusal | ChannelMismatch | NoMeasurementChannel

record SplCalibrationRecordInfo =
  cr_fields :: "64 word CalibrationReportFields"
  cr_channel :: int
  cr_startBlockIndex :: uint64_t
  cr_endBlockIndex :: uint64_t
  cr_refusal :: CalibrationRecordRefusal
  cr_offsetApplied :: bool

definition double_94 :: "64 word" where "double_94 = 0x4057800000000000"

definition blank_check :: "64 word CalibrationCheck" where
  "blank_check = \<lparr>ck_level = \<lparr>cl_nominalDb = double_94, cl_operatorSupplied = False\<rparr>, ck_measuredLevelDb = 0, ck_offsetDb = 0, ck_unixMs = 0\<rparr>"

definition SplCalibrationRecordInfo_default :: SplCalibrationRecordInfo where
  "SplCalibrationRecordInfo_default =
     \<lparr>cr_fields = \<lparr>rf_performed = False, rf_start = blank_check, rf_end = blank_check, rf_driftDb = 0, rf_verdict = None, rf_clause = []\<rparr>,
      cr_channel = 0, cr_startBlockIndex = 0, cr_endBlockIndex = 0, cr_refusal = NoRefusal, cr_offsetApplied = True\<rparr>"

section \<open>Writing\<close>

definition flag_chars :: "bool \<Rightarrow> string" where
  "flag_chars b = to_chars_word (if b then 1 else 0 :: uint64_t)"

definition calibrationRecordText :: "float_charconv \<Rightarrow> SplCalibrationRecordInfo \<Rightarrow> string" where
  "calibrationRecordText cc info =
     (let fields = cr_fields info;
          out = hash_line [] ''calibrationPerformed'' (flag_chars (rf_performed fields))
      in if \<not> rf_performed fields then out
         else
           let out = hash_line out ''offsetApplied'' (flag_chars (cr_offsetApplied info));
               out = (if cr_refusal info = NoRefusal then
                        (let out = hash_line out ''channel'' (to_chars_int (cr_channel info));
                             out = hash_line out ''startBlockIndex'' (to_chars_word (cr_startBlockIndex info))
                         in hash_line out ''endBlockIndex'' (to_chars_word (cr_endBlockIndex info)))
                      else hash_line out ''refusalReason''
                             (if cr_refusal info = ChannelMismatch then ''channelMismatch'' else ''noMeasurementChannel''));
               out = hash_line out ''startMeasuredLevelDb'' (to_chars_double cc (ck_measuredLevelDb (rf_start fields)));
               out = hash_line out ''startNominalLevelDb'' (to_chars_double cc (cl_nominalDb (ck_level (rf_start fields))));
               out = hash_line out ''startOperatorSupplied'' (flag_chars (cl_operatorSupplied (ck_level (rf_start fields))));
               out = hash_line out ''startUnixMs'' (to_chars_word (ck_unixMs (rf_start fields)));
               out = hash_line out ''endMeasuredLevelDb'' (to_chars_double cc (ck_measuredLevelDb (rf_end fields)));
               out = hash_line out ''endNominalLevelDb'' (to_chars_double cc (cl_nominalDb (ck_level (rf_end fields))));
               out = hash_line out ''endOperatorSupplied'' (flag_chars (cl_operatorSupplied (ck_level (rf_end fields))));
               out = hash_line out ''endUnixMs'' (to_chars_word (ck_unixMs (rf_end fields)));
               out = (if cr_refusal info = NoRefusal then
                        (let out = hash_line out ''driftDb'' (to_chars_double cc (rf_driftDb fields))
                         in hash_line out ''verdict'' (if rf_verdict fields = Some Pass then ''pass'' else ''fail''))
                      else out)
           in hash_line out ''clause'' (rf_clause fields))"

section \<open>Reading\<close>

definition with_start :: "(64 word CalibrationCheck \<Rightarrow> 64 word CalibrationCheck) \<Rightarrow> SplCalibrationRecordInfo \<Rightarrow> SplCalibrationRecordInfo" where
  "with_start f i = i\<lparr>cr_fields := (cr_fields i)\<lparr>rf_start := f (rf_start (cr_fields i))\<rparr>\<rparr>"

definition with_end :: "(64 word CalibrationCheck \<Rightarrow> 64 word CalibrationCheck) \<Rightarrow> SplCalibrationRecordInfo \<Rightarrow> SplCalibrationRecordInfo" where
  "with_end f i = i\<lparr>cr_fields := (cr_fields i)\<lparr>rf_end := f (rf_end (cr_fields i))\<rparr>\<rparr>"

text \<open>One field of a check: its key after \<^verbatim>\<open>start\<close> or \<^verbatim>\<open>end\<close>.\<close>

definition check_measured :: "float_charconv \<Rightarrow> string \<Rightarrow> 64 word CalibrationCheck \<Rightarrow> 64 word CalibrationCheck" where
  "check_measured cc v c = c\<lparr>ck_measuredLevelDb := fst (tryParse_into (from_chars_double cc) v (ck_measuredLevelDb c))\<rparr>"

definition check_nominal :: "float_charconv \<Rightarrow> string \<Rightarrow> 64 word CalibrationCheck \<Rightarrow> 64 word CalibrationCheck" where
  "check_nominal cc v c =
     c\<lparr>ck_level := (ck_level c)\<lparr>cl_nominalDb := fst (tryParse_into (from_chars_double cc) v (cl_nominalDb (ck_level c)))\<rparr>\<rparr>"

definition check_supplied :: "string \<Rightarrow> 64 word CalibrationCheck \<Rightarrow> 64 word CalibrationCheck" where
  "check_supplied v c =
     (case tryParse from_chars_i32 v of None \<Rightarrow> c | Some x \<Rightarrow> c\<lparr>ck_level := (ck_level c)\<lparr>cl_operatorSupplied := (x \<noteq> 0)\<rparr>\<rparr>)"

definition check_unixMs :: "string \<Rightarrow> 64 word CalibrationCheck \<Rightarrow> 64 word CalibrationCheck" where
  "check_unixMs v c = c\<lparr>ck_unixMs := fst (tryParse_into from_chars_word v (ck_unixMs c))\<rparr>"

text \<open>The state of the loop: the record and \<^verbatim>\<open>sawPerformed\<close>; \<open>None\<close> is its early return.\<close>

definition record_field :: "float_charconv \<Rightarrow> string \<Rightarrow> string \<Rightarrow> SplCalibrationRecordInfo \<times> bool \<Rightarrow> (SplCalibrationRecordInfo \<times> bool) option" where
  "record_field cc key v s =
     (let (i, saw) = s
      in
      if key = ''calibrationPerformed'' then
        (case tryParse from_chars_i32 v of
           None \<Rightarrow> None
         | Some x \<Rightarrow> Some (i\<lparr>cr_fields := (cr_fields i)\<lparr>rf_performed := (x \<noteq> 0)\<rparr>\<rparr>, True))
      else
        Some
          (if key = ''channel'' then i\<lparr>cr_channel := fst (tryParse_into from_chars_i32 v (cr_channel i))\<rparr>
           else if key = ''startBlockIndex'' then i\<lparr>cr_startBlockIndex := fst (tryParse_into from_chars_word v (cr_startBlockIndex i))\<rparr>
           else if key = ''endBlockIndex'' then i\<lparr>cr_endBlockIndex := fst (tryParse_into from_chars_word v (cr_endBlockIndex i))\<rparr>
           else if key = ''startMeasuredLevelDb'' then with_start (check_measured cc v) i
           else if key = ''startNominalLevelDb'' then with_start (check_nominal cc v) i
           else if key = ''startOperatorSupplied'' then with_start (check_supplied v) i
           else if key = ''startUnixMs'' then with_start (check_unixMs v) i
           else if key = ''endMeasuredLevelDb'' then with_end (check_measured cc v) i
           else if key = ''endNominalLevelDb'' then with_end (check_nominal cc v) i
           else if key = ''endOperatorSupplied'' then with_end (check_supplied v) i
           else if key = ''endUnixMs'' then with_end (check_unixMs v) i
           else if key = ''driftDb'' then
             i\<lparr>cr_fields := (cr_fields i)\<lparr>rf_driftDb := fst (tryParse_into (from_chars_double cc) v (rf_driftDb (cr_fields i)))\<rparr>\<rparr>
           else if key = ''verdict'' then
             i\<lparr>cr_fields := (cr_fields i)\<lparr>rf_verdict := Some (if v = ''pass'' then Pass else Fail)\<rparr>\<rparr>
           else if key = ''refusalReason'' then
             i\<lparr>cr_refusal := (if v = ''channelMismatch'' then ChannelMismatch else NoMeasurementChannel)\<rparr>
           else if key = ''offsetApplied'' then
             (case tryParse from_chars_i32 v of None \<Rightarrow> i | Some x \<Rightarrow> i\<lparr>cr_offsetApplied := (x \<noteq> 0)\<rparr>)
           else i, saw))"

definition record_line :: "float_charconv \<Rightarrow> string \<Rightarrow> SplCalibrationRecordInfo \<times> bool \<Rightarrow> (SplCalibrationRecordInfo \<times> bool) option" where
  "record_line cc rawLine s =
     (let line = stripTrailingCr rawLine
      in if take 2 line \<noteq> ''# '' then Some s
         else case splitLine (drop 2 line) of None \<Rightarrow> Some s | Some (key, v) \<Rightarrow> record_field cc key v s)"

function record_loop :: "float_charconv \<Rightarrow> string \<Rightarrow> SplCalibrationRecordInfo \<times> bool \<Rightarrow> (SplCalibrationRecordInfo \<times> bool) option" where
  "record_loop cc t s =
     (if t = [] then Some s
      else case record_line cc (takeWhile (\<lambda>c. c \<noteq> newline) t) s of
             None \<Rightarrow> None
           | Some s' \<Rightarrow> record_loop cc (tl (dropWhile (\<lambda>c. c \<noteq> newline) t)) s')"
  by pat_completeness auto
termination
proof (relation "measure (length \<circ> fst \<circ> snd)")
  fix cc :: float_charconv and t :: string and s s' :: "SplCalibrationRecordInfo \<times> bool"
  assume "t \<noteq> []"
  then have "length (tl (dropWhile (\<lambda>c. c \<noteq> newline) t)) < length t"
    by (cases t) (auto intro: le_imp_less_Suc order_trans [OF diff_le_self length_dropWhile_le])
  then show "((cc, tl (dropWhile (\<lambda>c. c \<noteq> newline) t), s'), cc, t, s) \<in> measure (length \<circ> fst \<circ> snd)"
    by simp
qed simp

declare record_loop.simps [simp del]

definition parseCalibrationRecord :: "float_charconv \<Rightarrow> string \<Rightarrow> SplCalibrationRecordInfo option" where
  "parseCalibrationRecord cc t =
     (case record_loop cc t (SplCalibrationRecordInfo_default, False) of
        None \<Rightarrow> None
      | Some (info, sawPerformed) \<Rightarrow>
          if \<not> sawPerformed then None
          else if rf_performed (cr_fields info) then Some (info\<lparr>cr_fields := (cr_fields info)\<lparr>rf_clause := kClause\<rparr>\<rparr>)
          else Some info)"

section \<open>Round trip\<close>

lemma record_loop_line:
  assumes "newline \<notin> set l"
  shows "record_loop cc (l @ newline # rest) s = Option.bind (record_line cc l s) (record_loop cc rest)"
  using assms
  by (subst record_loop.simps)
    (simp add: dropWhile_append takeWhile_append dropWhile_eq_Nil_conv [THEN iffD2] split: option.split)

lemma record_loop_Nil [simp]: "record_loop cc [] s = Some s"
  by (subst record_loop.simps) simp

lemma record_loop_last:
  assumes "newline \<notin> set l" "l \<noteq> []"
  shows "record_loop cc l s = record_line cc l s"
proof -
  have "takeWhile (\<lambda>c. c \<noteq> newline) l = l" "dropWhile (\<lambda>c. c \<noteq> newline) l = []"
    using assms(1) by (auto simp: takeWhile_eq_all_conv dropWhile_eq_Nil_conv)
  then show ?thesis
    using assms(2) by (subst record_loop.simps) (simp del: takeWhile_eq_all_conv dropWhile_eq_Nil_conv split: option.split)
qed

text \<open>The fields of a record in the order they are written.\<close>

definition check_fields :: "float_charconv \<Rightarrow> string \<Rightarrow> 64 word CalibrationCheck \<Rightarrow> (string \<times> string) list" where
  "check_fields cc which c =
     [(which @ ''MeasuredLevelDb'', to_chars_double cc (ck_measuredLevelDb c)),
      (which @ ''NominalLevelDb'', to_chars_double cc (cl_nominalDb (ck_level c))),
      (which @ ''OperatorSupplied'', flag_chars (cl_operatorSupplied (ck_level c))),
      (which @ ''UnixMs'', to_chars_word (ck_unixMs c))]"

definition record_fields :: "float_charconv \<Rightarrow> SplCalibrationRecordInfo \<Rightarrow> (string \<times> string) list" where
  "record_fields cc info =
     (let f = cr_fields info
      in (''calibrationPerformed'', flag_chars (rf_performed f)) #
         (if \<not> rf_performed f then []
          else (''offsetApplied'', flag_chars (cr_offsetApplied info)) #
            (if cr_refusal info = NoRefusal then
               [(''channel'', to_chars_int (cr_channel info)), (''startBlockIndex'', to_chars_word (cr_startBlockIndex info)),
                (''endBlockIndex'', to_chars_word (cr_endBlockIndex info))]
             else [(''refusalReason'', if cr_refusal info = ChannelMismatch then ''channelMismatch'' else ''noMeasurementChannel'')]) @
            check_fields cc ''start'' (rf_start f) @ check_fields cc ''end'' (rf_end f) @
            (if cr_refusal info = NoRefusal then
               [(''driftDb'', to_chars_double cc (rf_driftDb f)), (''verdict'', if rf_verdict f = Some Pass then ''pass'' else ''fail'')]
             else []) @
            [(''clause'', rf_clause f)]))"

lemma record_text_fields:
  "calibrationRecordText cc info = file_of [] (map (\<lambda>(key, v). ''# '' @ field_line key v) (record_fields cc info))"
  by (simp add: calibrationRecordText_def record_fields_def check_fields_def hash_line_def writeLine_field_line Let_def)

lemma record_loop_fields:
  assumes "list_all plain_field fs" "cr = [] \<or> cr = [carriage_return]"
  shows "record_loop cc (file_of cr (map (\<lambda>(key, v). ''# '' @ field_line key v) fs) @ rest) s =
    Option.bind (fold_opt (\<lambda>(key, v). record_field cc key v) fs s) (record_loop cc rest)"
  using assms(1)
proof (induction fs arbitrary: s)
  case (Cons f fs)
  obtain key v where f: "f = (key, v)"
    by fastforce
  let ?l = "''# '' @ field_line key v"
  have ok: "plain_field (key, v)"
    using Cons.prems f by simp
  have "no_trailing_cr ?l" "newline \<notin> set (?l @ cr)"
    using ok assms(2) escape_no_newline [of v] by (auto simp: plain_field_def no_trailing_cr_def field_line_def)
  moreover from this have "stripTrailingCr (?l @ cr) = ?l"
    by (intro strip_cr [OF assms(2)] stripTrailingCr_ident)
  then have "record_line cc (?l @ cr) s = record_field cc key v s"
    using ok by (simp add: record_line_def splitLine_field_line plain_field_def)
  ultimately have "record_loop cc ((?l @ cr) @ newline # r) s = Option.bind (record_field cc key v s) (record_loop cc r)" for r
    using record_loop_line [of "?l @ cr"] by metis
  then show ?case
    using Cons by (simp add: f split: option.split)
qed simp

definition RecordInfo_ok :: "SplCalibrationRecordInfo \<Rightarrow> bool" where
  "RecordInfo_ok info \<longleftrightarrow>
     (let f = cr_fields info
      in is_int32 (cr_channel info) \<and> rf_clause f = kClause \<and> (cr_refusal info = NoRefusal \<longrightarrow> rf_verdict f \<noteq> None) \<and>
         list_all (\<lambda>x. \<not> is_nan64 x)
           [ck_measuredLevelDb (rf_start f), cl_nominalDb (ck_level (rf_start f)), ck_measuredLevelDb (rf_end f),
            cl_nominalDb (ck_level (rf_end f)), rf_driftDb f])"

text \<open>What a record keeps: not the corrections, and of a refused one neither channel, blocks, drift nor verdict.\<close>

definition recorded :: "SplCalibrationRecordInfo \<Rightarrow> SplCalibrationRecordInfo" where
  "recorded info =
     (let f = cr_fields info; d = SplCalibrationRecordInfo_default
      in if \<not> rf_performed f then d
         else if cr_refusal info = NoRefusal then
           info\<lparr>cr_fields := f\<lparr>rf_start := (rf_start f)\<lparr>ck_offsetDb := 0\<rparr>, rf_end := (rf_end f)\<lparr>ck_offsetDb := 0\<rparr>\<rparr>\<rparr>
         else d\<lparr>cr_refusal := cr_refusal info, cr_offsetApplied := cr_offsetApplied info,
                cr_fields := f\<lparr>rf_start := (rf_start f)\<lparr>ck_offsetDb := 0\<rparr>, rf_end := (rf_end f)\<lparr>ck_offsetDb := 0\<rparr>,
                  rf_driftDb := 0, rf_verdict := None\<rparr>\<rparr>)"

lemma flag_chars_field:
  "escape (flag_chars b) = flag_chars b" "no_trailing_cr (flag_chars b)" "flag_chars b \<noteq> []"
  by (simp_all add: flag_chars_def word_field)

lemma parse_flag: "tryParse from_chars_i32 (flag_chars b) = Some (if b then 1 else 0)"
proof -
  have "flag_chars b = to_chars_int (if b then 1 else 0)"
    by (simp add: flag_chars_def to_chars_word_def to_chars_int_def)
  then show ?thesis
    using i32.tryParse_to [of "if b then 1 else 0"] by (simp add: is_int32_def)
qed

lemma int_field: "escape (to_chars_int i) = to_chars_int i" "no_trailing_cr (to_chars_int i)" "to_chars_int i \<noteq> []"
proof -
  show "escape (to_chars_int i) = to_chars_int i" "to_chars_int i \<noteq> []"
    using to_chars_int_plain [of i] to_chars_int_no_escape [of i] by simp_all
  then show "no_trailing_cr (to_chars_int i)"
    using to_chars_int_plain [of i] last_in_set [of "to_chars_int i"] unfolding no_trailing_cr_def by metis
qed

lemma record_fields_plain:
  assumes "header_format cc" "RecordInfo_ok info"
  shows "list_all plain_field (record_fields cc info)"
proof -
  have "escape kClause = kClause" "no_trailing_cr kClause" "kClause \<noteq> []"
    by (simp_all add: kClause_def no_trailing_cr_def)
  moreover have "no_trailing_cr ''pass''" "no_trailing_cr ''fail''" "no_trailing_cr ''channelMismatch''" "no_trailing_cr ''noMeasurementChannel''"
    by (simp_all add: no_trailing_cr_def)
  ultimately show ?thesis
    using assms(2)
    by (simp add: record_fields_def check_fields_def plain_field_def RecordInfo_ok_def Let_def word_field int_field flag_chars_field
        double_field [OF assms(1)])
qed

lemma parse_check:
  assumes "charconv_exact cc"
  shows "\<not> is_nan64 x \<Longrightarrow> check_measured cc (to_chars_double cc x) c = c\<lparr>ck_measuredLevelDb := x\<rparr>"
    "\<not> is_nan64 x \<Longrightarrow> check_nominal cc (to_chars_double cc x) c = c\<lparr>ck_level := (ck_level c)\<lparr>cl_nominalDb := x\<rparr>\<rparr>"
    "check_supplied (flag_chars b) c = c\<lparr>ck_level := (ck_level c)\<lparr>cl_operatorSupplied := b\<rparr>\<rparr>"
    "check_unixMs (to_chars_word t) c = c\<lparr>ck_unixMs := t\<rparr>"
  by (simp_all add: check_measured_def check_nominal_def check_supplied_def check_unixMs_def parse_flag
      tryParse_into_parsed [OF tryParse_double [OF assms]] tryParse_into_parsed [OF u64.tryParse_to])

lemma parse_fields:
  assumes "header_format cc" "RecordInfo_ok info"
  shows "\<exists>info'. fold_opt (\<lambda>(key, v). record_field cc key v) (record_fields cc info) (SplCalibrationRecordInfo_default, False) =
    Some (info', True) \<and> recorded info = (if rf_performed (cr_fields info') then info'\<lparr>cr_fields := (cr_fields info')\<lparr>rf_clause := kClause\<rparr>\<rparr> else info')"
proof -
  have exact: "charconv_exact cc"
    using assms(1) by (simp add: header_format_def row_format_def)
  obtain p a b d v c ch i j r o' where info: "info = \<lparr>cr_fields = \<lparr>rf_performed = p, rf_start = a, rf_end = b, rf_driftDb = d,
      rf_verdict = v, rf_clause = c\<rparr>, cr_channel = ch, cr_startBlockIndex = i, cr_endBlockIndex = j, cr_refusal = r, cr_offsetApplied = o'\<rparr>"
    by (metis (full_types) CalibrationReportFields.surjective SplCalibrationRecordInfo.surjective old.unit.exhaust)
  have ok: "is_int32 ch" "c = kClause" "\<not> is_nan64 (ck_measuredLevelDb a)" "\<not> is_nan64 (cl_nominalDb (ck_level a))"
      "\<not> is_nan64 (ck_measuredLevelDb b)" "\<not> is_nan64 (cl_nominalDb (ck_level b))" "\<not> is_nan64 d" "r = NoRefusal \<Longrightarrow> v \<noteq> None"
    using assms(2) by (simp_all add: RecordInfo_ok_def info)
  have verdict: "r = NoRefusal \<Longrightarrow> v \<noteq> Some Pass \<Longrightarrow> v = Some Fail"
    using ok(8) by (cases "the v") auto
  have refusal: "r \<noteq> NoRefusal \<Longrightarrow> r \<noteq> ChannelMismatch \<Longrightarrow> r = NoMeasurementChannel"
    by (cases r) simp_all
  show ?thesis
    using verdict refusal
    by (cases p; cases "r = NoRefusal")
      (simp_all add: info record_fields_def check_fields_def record_field_def Let_def parse_flag ok parse_check [OF exact]
        with_start_def with_end_def tryParse_into_parsed [OF tryParse_double [OF exact]] tryParse_into_parsed [OF u64.tryParse_to]
        tryParse_into_parsed [OF i32.tryParse_to] recorded_def SplCalibrationRecordInfo_default_def blank_check_def)
qed

text \<open>
  A record reads back as it was written, with either kind of line end: both checks with their levels and times bit
  for bit, the channel and the blocks it covers, the drift and the verdict; of a refused record the checks and the
  reason, but neither channel, blocks, drift nor verdict; and a calibration that was not performed as such.
\<close>

lemma parseCalibrationRecord_roundtrip:
  assumes "header_format cc" and "RecordInfo_ok info"
  shows "parseCalibrationRecord cc ((if crlf then to_crlf else id) (calibrationRecordText cc info)) = Some (recorded info)"
proof -
  define cr where "cr = (if crlf then [carriage_return] else [])"
  let ?fs = "record_fields cc info"
  have plain: "list_all plain_field ?fs"
    by (rule record_fields_plain [OF assms])
  have "list_all (\<lambda>l. newline \<notin> set l) (map (\<lambda>(key, v). ''# '' @ field_line key v) ?fs)"
    using plain by (auto simp: list_all_iff plain_field_def field_line_def)
  then have "(if crlf then to_crlf else id) (calibrationRecordText cc info) = file_of cr (map (\<lambda>(key, v). ''# '' @ field_line key v) ?fs) @ []"
    by (simp add: record_text_fields cr_def crlf_file)
  then show ?thesis
    using parse_fields [OF assms] record_loop_fields [OF plain, of cr cc "[]"]
    by (auto simp: parseCalibrationRecord_def cr_def)
qed

text \<open>
  A record that was cut off after its first line is accepted: the calibration counts as performed, and every level,
  block and time has the value of an empty record.  A number in front of other characters is taken over as well.
\<close>

lemma cut_record_is_trusted:
  assumes "rf_performed (cr_fields info)"
  shows "parseCalibrationRecord cc (take 24 (calibrationRecordText cc info)) =
    Some (SplCalibrationRecordInfo_default\<lparr>cr_fields := (cr_fields SplCalibrationRecordInfo_default)
      \<lparr>rf_performed := True, rf_clause := kClause\<rparr>\<rparr>)"
proof -
  let ?l = "''# calibrationPerformed=1''"
  have one: "flag_chars True = ''1''"
    by (simp add: flag_chars_def to_chars_word_def decimal.simps) code_simp
  have "\<exists>rest. calibrationRecordText cc info = ?l @ rest"
    using assms by (simp add: record_text_fields record_fields_def Let_def one field_line_def)
  then have "take 24 (calibrationRecordText cc info) = ?l"
    by auto
  moreover have "record_line cc ?l s = record_field cc ''calibrationPerformed'' ''1'' s" for s
    by (simp add: record_line_def stripTrailingCr_def splitLine_def)
  moreover have "tryParse from_chars_i32 ''1'' = Some 1"
    using parse_flag [of True] by (simp add: one)
  ultimately show ?thesis
    by (simp add: parseCalibrationRecord_def record_loop_last record_field_def)
qed

lemma number_prefix_is_taken: "fst (tryParse_into from_chars_i32 ''12x'' 0) = 12"
  by (simp add: tryParse_into_def from_chars_i32_def from_chars_int_def is_digit_def decimal_value_def)

end
