(* ===== verification/Calibration_Flow.thy ===== *)
theory Calibration_Flow
  imports Calibration_Record
begin

text \<open>
  The calibration flow of the composition root (\<^verbatim>\<open>app/src/MainComponentCalibration.cpp\<close>, and of
  \<^verbatim>\<open>MainComponentSpl.cpp\<close> the decision when a log starts and ends): the two buttons, the capture that is polled for,
  the log that is restarted with the measured offset, and the record that is written next to it.  The readouts are
  left out.
\<close>

section \<open>Logging\<close>

datatype SplLoggingAction = NoOp | Disable | EnableFresh

definition decideSplLoggingAction :: "bool \<Rightarrow> bool \<Rightarrow> uint64_t \<Rightarrow> uint64_t \<Rightarrow> SplLoggingAction" where
  "decideSplLoggingAction wasActive isActive lastEpoch currentEpoch =
     (if \<not> wasActive \<and> \<not> isActive then NoOp
      else if wasActive \<and> \<not> isActive then Disable
      else if \<not> wasActive \<and> isActive then EnableFresh
      else if lastEpoch = currentEpoch then NoOp else EnableFresh)"

text \<open>The first argument is what \<^verbatim>\<open>formatUtcTimestamp\<close> makes of the clock, to the second.\<close>

definition sessionFolderName :: "string \<Rightarrow> uint64_t \<Rightarrow> string" where
  "sessionFolderName utc epoch = utc @ ''-e'' @ to_chars_word epoch"

definition captureTimedOut :: "real \<Rightarrow> real \<Rightarrow> real \<Rightarrow> bool" where
  "captureTimedOut armedAtMs nowMs timeoutMs \<longleftrightarrow> nowMs - armedAtMs > timeoutMs"

section \<open>The state and its surroundings\<close>

text \<open>The calls the component makes to the analysis thread, in order.\<close>

datatype analysis_call =
    ArmLocateCapture int nat
  | EnableSplLogging SplConfig "int list" string "real option"
  | DisableSplLogging
  | SetCalibrationInvalid int bool

record calibration_flow =
  fl_session :: CalibrationSession
  fl_armed :: bool
  fl_isStart :: bool
  fl_armedAtMs :: real
  fl_lastHandled :: "nat option"
  fl_channel :: int
  fl_startChannel :: int
  fl_refused :: bool
  fl_loggingActive :: bool
  fl_lastEpoch :: uint64_t
  fl_sessionDir :: string
  fl_loggedChannels :: "int list"
  fl_hasCalibratedOffset :: bool
  fl_calls :: "analysis_call list"
  fl_disk :: "string \<rightharpoonup> string"

definition flow_new :: calibration_flow where
  "flow_new =
     \<lparr>fl_session = CalibrationSession_new, fl_armed = False, fl_isStart = False, fl_armedAtMs = 0, fl_lastHandled = None,
      fl_channel = -1, fl_startChannel = -1, fl_refused = False, fl_loggingActive = False, fl_lastEpoch = 0,
      fl_sessionDir = [], fl_loggedChannels = [], fl_hasCalibratedOffset = False, fl_calls = [], fl_disk = Map.empty\<rparr>"

text \<open>
  What is outside: the bit pattern of a level, the number format, the full path of a session folder.  A tick of the
  timer sees the clocks, the configuration, the epoch and rate of the bus, the block counters of the analysis thread,
  and the capture the analysis thread has published, with the address that tells it from the one before.  What the
  disk does to a file written in this tick is \<open>tk_disk\<close>: \<open>None\<close> if it cannot be opened, otherwise how many bytes
  arrive; the file was truncated when it was opened, so fewer bytes than the text has leave its beginning.
\<close>

record flow_world =
  fw_bits :: "real \<Rightarrow> 64 word"
  fw_charconv :: float_charconv
  fw_path :: "string \<Rightarrow> string"

record flow_tick =
  tk_capture :: "(nat \<times> real list) option"
  tk_sampleRate :: real
  tk_unixMs :: uint64_t
  tk_hiResMs :: real
  tk_utc :: string
  tk_config :: ChannelConfig
  tk_numChannels :: int
  tk_epoch :: uint64_t
  tk_blockCount :: "int \<Rightarrow> uint64_t"
  tk_disk :: "nat option"

definition kCalibrationCaptureLength :: nat where "kCalibrationCaptureLength = 8192"
definition kCalibrationRouteIndex :: int where "kCalibrationRouteIndex = 0"
definition kCalibrationCaptureTimeoutMs :: real where "kCalibrationCaptureTimeoutMs = 5000"

definition call_analysis :: "analysis_call \<Rightarrow> calibration_flow \<Rightarrow> calibration_flow" where
  "call_analysis c s = s\<lparr>fl_calls := fl_calls s @ [c]\<rparr>"

section \<open>Operations\<close>

definition startFreshSplLogWithConfig ::
  "flow_world \<Rightarrow> flow_tick \<Rightarrow> SplConfig \<Rightarrow> real option \<Rightarrow> calibration_flow \<Rightarrow> calibration_flow" where
  "startFreshSplLogWithConfig fw tk config calibratorLevelDb s =
     (let (found, buf) = channelsWithRole (tk_config tk) Measurement (replicate (nat kMaxChannels) 0);
          channels = take found buf;
          dir = fw_path fw (sessionFolderName (tk_utc tk) (tk_epoch tk));
          s = s\<lparr>fl_sessionDir := dir, fl_loggedChannels := channels, fl_hasCalibratedOffset := (calibratorLevelDb \<noteq> None)\<rparr>
      in call_analysis (EnableSplLogging config channels dir calibratorLevelDb) s)"

definition startFreshSplLog :: "flow_world \<Rightarrow> flow_tick \<Rightarrow> calibration_flow \<Rightarrow> calibration_flow" where
  "startFreshSplLog fw tk s = startFreshSplLogWithConfig fw tk SplConfig_default None s"

definition pollSplLogging :: "flow_world \<Rightarrow> bool \<Rightarrow> flow_tick \<Rightarrow> calibration_flow \<Rightarrow> calibration_flow" where
  "pollSplLogging fw active tk s =
     (let action = decideSplLoggingAction (fl_loggingActive s) active (fl_lastEpoch s) (tk_epoch tk)
      in if action = NoOp then s
         else
           let wasActive = fl_loggingActive s;
               s = s\<lparr>fl_loggingActive := active, fl_lastEpoch := tk_epoch tk\<rparr>
           in if action = Disable then call_analysis DisableSplLogging s
              else startFreshSplLog fw tk (if wasActive then call_analysis DisableSplLogging s else s))"

definition arm_capture :: "bool \<Rightarrow> real \<Rightarrow> calibration_flow \<Rightarrow> calibration_flow" where
  "arm_capture isStart nowMs s =
     (call_analysis (ArmLocateCapture kCalibrationRouteIndex kCalibrationCaptureLength) s)
       \<lparr>fl_armed := True, fl_isStart := isStart, fl_armedAtMs := nowMs\<rparr>"

definition calibrationStartClicked :: "bool \<Rightarrow> real \<Rightarrow> calibration_flow \<Rightarrow> calibration_flow" where
  "calibrationStartClicked outputBusy nowMs s = (if outputBusy then s else arm_capture True nowMs s)"

definition calibrationEndClicked :: "bool \<Rightarrow> real \<Rightarrow> calibration_flow \<Rightarrow> calibration_flow" where
  "calibrationEndClicked outputBusy nowMs s =
     (if outputBusy then s
      else if cal_start (fl_session s) = None then s
      else arm_capture False nowMs s)"

text \<open>\<open>None\<close>: the precondition of \<^verbatim>\<open>calibratedSplLogConfig\<close>, a start check, is not met.\<close>

definition restartSplLoggingForCalibration :: "flow_world \<Rightarrow> flow_tick \<Rightarrow> calibration_flow \<Rightarrow> calibration_flow option" where
  "restartSplLoggingForCalibration fw tk s =
     (if \<not> fl_loggingActive s then Some s
      else
        let s = call_analysis DisableSplLogging s
        in case calibratedSplLogConfig (fl_session s) of
             None \<Rightarrow> None
           | Some (config, calibratorLevelDb) \<Rightarrow>
               Some (call_analysis (SetCalibrationInvalid (fl_startChannel s) False)
                 (startFreshSplLogWithConfig fw tk config (Some calibratorLevelDb) s)))"

definition bits_check :: "(real \<Rightarrow> 64 word) \<Rightarrow> real CalibrationCheck \<Rightarrow> 64 word CalibrationCheck" where
  "bits_check bits c =
     \<lparr>ck_level = \<lparr>cl_nominalDb = bits (cl_nominalDb (ck_level c)), cl_operatorSupplied = cl_operatorSupplied (ck_level c)\<rparr>,
      ck_measuredLevelDb = bits (ck_measuredLevelDb c), ck_offsetDb = bits (ck_offsetDb c), ck_unixMs = ck_unixMs c\<rparr>"

definition bits_fields :: "(real \<Rightarrow> 64 word) \<Rightarrow> real CalibrationReportFields \<Rightarrow> 64 word CalibrationReportFields" where
  "bits_fields bits f =
     \<lparr>rf_performed = rf_performed f, rf_start = bits_check bits (rf_start f), rf_end = bits_check bits (rf_end f),
      rf_driftDb = bits (rf_driftDb f), rf_verdict = rf_verdict f, rf_clause = rf_clause f\<rparr>"

definition writeCalibrationRecordFile :: "flow_world \<Rightarrow> nat option \<Rightarrow> string \<Rightarrow> SplCalibrationRecordInfo \<Rightarrow> calibration_flow \<Rightarrow> calibration_flow" where
  "writeCalibrationRecordFile fw outcome path info s =
     (case outcome of
        None \<Rightarrow> s
      | Some arrived \<Rightarrow> s\<lparr>fl_disk := (fl_disk s)(path \<mapsto> take arrived (calibrationRecordText (fw_charconv fw) info))\<rparr>)"

definition calibration_path :: "calibration_flow \<Rightarrow> string" where
  "calibration_path s = fl_sessionDir s @ ''/calibration.txt''"

definition writeCalibrationRecordAndUpdateInvalidFlag :: "flow_world \<Rightarrow> flow_tick \<Rightarrow> calibration_flow \<Rightarrow> calibration_flow" where
  "writeCalibrationRecordAndUpdateInvalidFlag fw tk s =
     (if fl_sessionDir s = [] then s
      else
        let fields = reportFields (fl_session s)
        in if \<not> rf_performed fields then s
           else
             let decision = decideCalibrationRecordChannel (fl_startChannel s) (fl_channel s);
                 info = SplCalibrationRecordInfo_default\<lparr>cr_fields := bits_fields (fw_bits fw) fields,
                   cr_offsetApplied := fl_hasCalibratedOffset s\<rparr>
             in if decision \<noteq> Write then
                  writeCalibrationRecordFile fw (tk_disk tk) (calibration_path s)
                    (info\<lparr>cr_fields := (cr_fields info)\<lparr>rf_verdict := None\<rparr>,
                      cr_refusal := (if decision = RefuseChannelMismatch then ChannelMismatch else NoMeasurementChannel)\<rparr>)
                    (s\<lparr>fl_refused := True\<rparr>)
                else
                  let blockCount = tk_blockCount tk (fl_channel s);
                      info = info\<lparr>cr_channel := fl_channel s, cr_startBlockIndex := 0,
                        cr_endBlockIndex := (if blockCount > 0 then blockCount - 1 else 0)\<rparr>;
                      s = writeCalibrationRecordFile fw (tk_disk tk) (calibration_path s) info (s\<lparr>fl_refused := False\<rparr>)
                  in call_analysis (SetCalibrationInvalid (fl_channel s) (rf_verdict fields = Some Fail)) s)"

definition resolve_channel :: "flow_tick \<Rightarrow> int" where
  "resolve_channel tk =
     (case calibrationMeasurementChannel (planRouting (tk_config tk) (tk_numChannels tk)) kCalibrationRouteIndex of
        None \<Rightarrow> -1 | Some ch \<Rightarrow> ch)"

text \<open>The part of \<^verbatim>\<open>pollCalibrationPipeline\<close> that handles a new capture.\<close>

definition handle_capture :: "flow_world \<Rightarrow> flow_tick \<Rightarrow> nat \<Rightarrow> real list \<Rightarrow> calibration_flow \<Rightarrow> calibration_flow option" where
  "handle_capture fw tk address samples s =
     (let level = calibrationLevel kIec60942Level94Db;
          s = s\<lparr>fl_lastHandled := Some address, fl_armed := False, fl_channel := resolve_channel tk\<rparr>
      in if fl_isStart s then
           let s = s\<lparr>fl_startChannel := fl_channel s\<rparr>
           in case recordStartCheck level samples (tk_sampleRate tk) (tk_unixMs tk) (fl_session s) of
                None \<Rightarrow> None
              | Some session \<Rightarrow> restartSplLoggingForCalibration fw tk (s\<lparr>fl_session := session\<rparr>)
         else
           case recordEndCheck level samples (tk_sampleRate tk) (tk_unixMs tk) (fl_session s) of
             None \<Rightarrow> None
           | Some session \<Rightarrow> Some (writeCalibrationRecordAndUpdateInvalidFlag fw tk (s\<lparr>fl_session := session\<rparr>)))"

definition new_capture :: "flow_tick \<Rightarrow> calibration_flow \<Rightarrow> (nat \<times> real list) option" where
  "new_capture tk s =
     (if \<not> fl_armed s then None
      else case tk_capture tk of
             None \<Rightarrow> None
           | Some (address, samples) \<Rightarrow> if fl_lastHandled s = Some address then None else Some (address, samples))"

definition pollCalibrationPipeline :: "flow_world \<Rightarrow> flow_tick \<Rightarrow> calibration_flow \<Rightarrow> calibration_flow option" where
  "pollCalibrationPipeline fw tk s =
     (if \<not> fl_armed s then Some s
      else case new_capture tk s of
             Some (address, samples) \<Rightarrow> handle_capture fw tk address samples s
           | None \<Rightarrow>
               Some (if captureTimedOut (fl_armedAtMs s) (tk_hiResMs tk) kCalibrationCaptureTimeoutMs
                     then s\<lparr>fl_armed := False\<rparr> else s))"

datatype flow_event =
    ClickStart bool real
  | ClickEnd bool real
  | PollCalibration flow_tick
  | PollLogging bool flow_tick

fun flow_step :: "flow_world \<Rightarrow> flow_event \<Rightarrow> calibration_flow \<Rightarrow> calibration_flow option" where
  "flow_step fw (ClickStart busy nowMs) s = Some (calibrationStartClicked busy nowMs s)"
| "flow_step fw (ClickEnd busy nowMs) s = Some (calibrationEndClicked busy nowMs s)"
| "flow_step fw (PollCalibration tk) s = pollCalibrationPipeline fw tk s"
| "flow_step fw (PollLogging active tk) s = Some (pollSplLogging fw active tk s)"

section \<open>The history of captures\<close>

text \<open>One handled capture: the check it makes, the channel it came from and what the disk did in that tick.\<close>

definition capture_call :: "bool \<Rightarrow> flow_tick \<Rightarrow> real list \<Rightarrow> check_call" where
  "capture_call isStart tk samples =
     \<lparr>cc_kind = (if isStart then StartCheck else EndCheck), cc_level = calibrationLevel 94, cc_samples = samples,
      cc_rate = tk_sampleRate tk, cc_unixMs = tk_unixMs tk\<rparr>"

type_synonym capture_log = "(check_call \<times> int \<times> nat option) list"

text \<open>A run, with the captures that were handled, latest first.\<close>

fun flow_run :: "flow_world \<Rightarrow> flow_event list \<Rightarrow> calibration_flow \<times> capture_log \<Rightarrow> (calibration_flow \<times> capture_log) option" where
  "flow_run fw [] sl = Some sl"
| "flow_run fw (ev # evs) sl =
     (case flow_step fw ev (fst sl) of
        None \<Rightarrow> None
      | Some s \<Rightarrow>
          flow_run fw evs (s,
            (case ev of
               PollCalibration tk \<Rightarrow>
                 (case new_capture tk (fst sl) of
                    None \<Rightarrow> [] | Some (address, samples) \<Rightarrow> [(capture_call (fl_isStart (fst sl)) tk samples, resolve_channel tk, tk_disk tk)])
             | _ \<Rightarrow> []) @ snd sl))"

text \<open>A capture has samples, fewer than fit a counter, and a rate.\<close>

fun tick_ok :: "flow_event \<Rightarrow> bool" where
  "tick_ok (PollCalibration tk) \<longleftrightarrow>
     (case tk_capture tk of None \<Rightarrow> True | Some (address, samples) \<Rightarrow> samples \<noteq> [] \<and> length samples < 2 ^ 32 \<and> 0 < tk_sampleRate tk)"
| "tick_ok _ \<longleftrightarrow> True"

section \<open>The record on disk\<close>

definition start_entry :: "capture_log \<Rightarrow> (check_call \<times> int \<times> nat option) option" where
  "start_entry hist = find (\<lambda>e. cc_kind (fst e) = StartCheck) hist"

text \<open>What the record says that is written after the capture at the head of the history.\<close>

definition record_after :: "flow_world \<Rightarrow> capture_log \<Rightarrow> SplCalibrationRecordInfo \<Rightarrow> bool" where
  "record_after fw hist info \<longleftrightarrow>
     (\<exists>b chb out earlier a cha out0.
        hist = (b, chb, out) # earlier \<and> cc_kind b = EndCheck \<and> start_entry earlier = Some (a, cha, out0) \<and>
        (let f = cr_fields info; bits = fw_bits fw;
             drift = \<bar>capture_level (cc_samples b) - capture_level (cc_samples a)\<bar>;
             decision = decideCalibrationRecordChannel cha chb
         in rf_performed f \<and>
            ck_measuredLevelDb (rf_start f) = bits (capture_level (cc_samples a)) \<and> ck_unixMs (rf_start f) = cc_unixMs a \<and>
            ck_measuredLevelDb (rf_end f) = bits (capture_level (cc_samples b)) \<and> ck_unixMs (rf_end f) = cc_unixMs b \<and>
            (decision = Write \<longrightarrow>
               cr_refusal info = NoRefusal \<and> cr_channel info = chb \<and> cr_startBlockIndex info = 0 \<and>
               rf_driftDb f = bits drift \<and> rf_verdict f = Some (if drift \<le> 1 / 2 then Pass else Fail)) \<and>
            (decision = RefuseChannelMismatch \<longrightarrow> cr_refusal info = ChannelMismatch \<and> rf_verdict f = None) \<and>
            (decision = RefuseNoMeasurementChannel \<longrightarrow> cr_refusal info = NoMeasurementChannel \<and> rf_verdict f = None)))"

text \<open>A log that was opened with the correction of one of the start checks.\<close>

definition log_opened_with :: "capture_log \<Rightarrow> analysis_call list \<Rightarrow> string \<Rightarrow> bool" where
  "log_opened_with hist calls dir \<longleftrightarrow>
     (\<exists>config channels level a ch.
        EnableSplLogging config channels dir (Some level) \<in> set calls \<and> (a, ch) \<in> set hist \<and> cc_kind a = StartCheck \<and>
        cf_calibrated config \<and> cf_referenceOffsetDb config = 94 - capture_level (cc_samples a))"

lemma log_opened_mono:
  "log_opened_with hist calls dir \<Longrightarrow> log_opened_with (later @ hist) (calls @ calls') dir"
  unfolding log_opened_with_def by (metis Un_iff set_append)

lemma resolve_channel_range: "-1 \<le> resolve_channel tk" "resolve_channel tk < 64"
proof -
  let ?plan = "planRouting (tk_config tk) (tk_numChannels tk)"
  have range: "0 \<le> measurementChannel r \<and> measurementChannel r < 64" if "r \<in> set (routes ?plan)" for r
    using planRouting_route [OF that] by (simp add: clamp_def kMaxChannels_def split: if_splits)
  then have "routes ?plan \<noteq> [] \<Longrightarrow> 0 \<le> measurementChannel (routes ?plan ! 0) \<and> measurementChannel (routes ?plan ! 0) < 64"
    by simp
  then show "-1 \<le> resolve_channel tk" "resolve_channel tk < 64"
    by (auto simp: resolve_channel_def calibrationMeasurementChannel_def kCalibrationRouteIndex_def)
qed

lemma bracket_start: "fst (bracket (map fst hist)) = map_option fst (start_entry hist)"
  by (induction hist) (auto simp: start_entry_def)

text \<open>
  The bytes of a record on disk: those of the text that was written, or the beginning of it that arrived; the text,
  read back.
\<close>

definition recorded_at :: "flow_world \<Rightarrow> capture_log \<Rightarrow> analysis_call list \<Rightarrow> string \<Rightarrow> string \<Rightarrow> bool" where
  "recorded_at fw hist calls path bytes \<longleftrightarrow>
     (\<exists>later now dir info t arrived.
        hist = later @ now \<and> record_after fw now info \<and> path = dir @ ''/calibration.txt'' \<and>
        snd (snd (hd now)) = Some arrived \<and> bytes = take arrived t \<and>
        parseCalibrationRecord (fw_charconv fw) t = Some info \<and>
        (cr_offsetApplied info \<longrightarrow> log_opened_with now calls dir) \<and>
        (rf_verdict (cr_fields info) = Some Fail \<longrightarrow> SetCalibrationInvalid (cr_channel info) True \<in> set calls))"

lemma recorded_at_mono: "recorded_at fw hist calls path t \<Longrightarrow> recorded_at fw (later @ hist) (calls @ calls') path t"
proof -
  assume "recorded_at fw hist calls path t"
  then obtain before now dir info whole arrived where "hist = before @ now" "record_after fw now info" "path = dir @ ''/calibration.txt''"
      "snd (snd (hd now)) = Some arrived" "t = take arrived whole"
      "parseCalibrationRecord (fw_charconv fw) whole = Some info" "cr_offsetApplied info \<longrightarrow> log_opened_with now calls dir"
      "rf_verdict (cr_fields info) = Some Fail \<longrightarrow> SetCalibrationInvalid (cr_channel info) True \<in> set calls"
    unfolding recorded_at_def by blast
  then show ?thesis
    unfolding recorded_at_def using log_opened_mono [of now calls dir "[]" calls']
    by (intro exI [of _ "later @ before"] exI [of _ now] exI [of _ dir] exI [of _ info] exI [of _ whole] exI [of _ arrived]) auto
qed

definition entry_ok :: "check_call \<times> int \<times> nat option \<Rightarrow> bool" where
  "entry_ok e \<longleftrightarrow>
     usable (fst e) \<and> length (cc_samples (fst e)) < 2 ^ 32 \<and> cc_level (fst e) = calibrationLevel 94 \<and>
     -1 \<le> fst (snd e) \<and> fst (snd e) < 64"

definition flow_inv :: "flow_world \<Rightarrow> capture_log \<Rightarrow> calibration_flow \<Rightarrow> bool" where
  "flow_inv fw hist s \<longleftrightarrow>
     list_all entry_ok hist \<and> fl_session s = session_of (bracket (map fst hist)) \<and>
     fl_startChannel s = (case start_entry hist of None \<Rightarrow> -1 | Some e \<Rightarrow> fst (snd e)) \<and>
     (fl_hasCalibratedOffset s \<longrightarrow> log_opened_with hist (fl_calls s) (fl_sessionDir s)) \<and>
     (\<forall>path t. fl_disk s path = Some t \<longrightarrow> recorded_at fw hist (fl_calls s) path t)"

lemma flow_inv_frame:
  "flow_inv fw hist s \<Longrightarrow> fl_session s' = fl_session s \<Longrightarrow> fl_startChannel s' = fl_startChannel s \<Longrightarrow>
   fl_hasCalibratedOffset s' = fl_hasCalibratedOffset s \<Longrightarrow> fl_sessionDir s' = fl_sessionDir s \<Longrightarrow> fl_disk s' = fl_disk s \<Longrightarrow>
   fl_calls s' = fl_calls s @ calls \<Longrightarrow> flow_inv fw hist s'"
  unfolding flow_inv_def using log_opened_mono [of hist _ _ "[]"] recorded_at_mono [of fw hist _ _ _ "[]"] by auto

lemma flow_inv_fresh:
  assumes "flow_inv fw hist s" and "level \<noteq> None \<Longrightarrow> log_opened_with hist (fl_calls (startFreshSplLogWithConfig fw tk config level s))
      (fw_path fw (sessionFolderName (tk_utc tk) (tk_epoch tk)))"
  shows "flow_inv fw hist (startFreshSplLogWithConfig fw tk config level s)"
  using assms recorded_at_mono [of fw hist "fl_calls s" _ _ "[]"]
  unfolding flow_inv_def startFreshSplLogWithConfig_def call_analysis_def Let_def
  by (auto split: prod.splits)

lemma pollSplLogging_inv:
  assumes "flow_inv fw hist s"
  shows "flow_inv fw hist (pollSplLogging fw active tk s)"
proof -
  have plain: "flow_inv fw hist (s\<lparr>fl_loggingActive := active, fl_lastEpoch := tk_epoch tk, fl_calls := fl_calls s @ calls\<rparr>)" for calls
    by (rule flow_inv_frame [OF assms, where calls = calls]) simp_all
  show ?thesis
    using assms plain [of "[]"] plain [of "[DisableSplLogging]"]
    by (auto simp: pollSplLogging_def Let_def startFreshSplLog_def call_analysis_def intro!: flow_inv_fresh)
qed

lemma clicks_inv:
  assumes "flow_inv fw hist s"
  shows "flow_inv fw hist (calibrationStartClicked busy nowMs s)" "flow_inv fw hist (calibrationEndClicked busy nowMs s)"
proof -
  have "flow_inv fw hist (arm_capture isStart nowMs s)" for isStart
    by (rule flow_inv_frame [OF assms, where calls = "[ArmLocateCapture kCalibrationRouteIndex kCalibrationCaptureLength]"])
       (simp_all add: arm_capture_def call_analysis_def)
  then show "flow_inv fw hist (calibrationStartClicked busy nowMs s)" "flow_inv fw hist (calibrationEndClicked busy nowMs s)"
    using assms by (simp_all add: calibrationStartClicked_def calibrationEndClicked_def)
qed

text \<open>A capture is recorded in the session.\<close>

lemma capture_recorded:
  fixes isStart :: bool
  assumes "flow_inv fw hist s" "samples \<noteq> []" "length samples < 2 ^ 32" "0 < tk_sampleRate tk"
  defines "e \<equiv> (capture_call isStart tk samples, resolve_channel tk, tk_disk tk)"
  shows "entry_ok e"
    "do_check (fst e) (fl_session s) = Some (session_of (bracket (map fst (e # hist))))"
proof -
  show "entry_ok e"
    using assms resolve_channel_range [of tk] by (simp add: entry_ok_def usable_def capture_call_def)
  moreover have "fl_session s = session_of (bracket (map fst hist))"
    using assms(1) by (simp add: flow_inv_def)
  ultimately show "do_check (fst e) (fl_session s) = Some (session_of (bracket (map fst (e # hist))))"
    using do_check_bracket [of "fst e" "map fst hist"] by (simp add: entry_ok_def)
qed

lemma handle_start_inv:
  assumes "flow_inv fw hist s" "samples \<noteq> []" "length samples < 2 ^ 32" "0 < tk_sampleRate tk" "fl_isStart s"
  shows "\<exists>s'. handle_capture fw tk address samples s = Some s' \<and>
    flow_inv fw ((capture_call True tk samples, resolve_channel tk, tk_disk tk) # hist) s'"
proof -
  let ?e = "(capture_call True tk samples, resolve_channel tk, tk_disk tk)"
  note rec = capture_recorded [OF assms(1-4), where isStart = True]
  let ?session = "session_of (bracket (map fst (?e # hist)))"
  define s1 where "s1 = s\<lparr>fl_lastHandled := Some address, fl_armed := False, fl_channel := resolve_channel tk,
    fl_startChannel := resolve_channel tk, fl_session := ?session\<rparr>"
  have start: "cc_kind (fst ?e) = StartCheck"
    by (simp add: capture_call_def)
  have step: "handle_capture fw tk address samples s = restartSplLoggingForCalibration fw tk s1"
    using rec(2) assms(5)
    by (simp add: handle_capture_def Let_def do_check_def capture_call_def s1_def kIec60942Level94Db_def)
  have inv1: "flow_inv fw (?e # hist) s1"
    using assms(1) rec(1) recorded_at_mono [of fw hist "fl_calls s" _ _ "[?e]" "[]"] log_opened_mono [of hist "fl_calls s" _ "[?e]" "[]"] start
    unfolding flow_inv_def s1_def by (auto simp: start_entry_def)
  have config: "calibratedSplLogConfig ?session =
      Some (SplConfig_default\<lparr>cf_referenceOffsetDb := 94 - capture_level samples, cf_calibrated := True\<rparr>, 94)"
    by (simp add: session_of_def calibratedSplLogConfig_def check_of_def capture_call_def calibrationLevel_def)
  show ?thesis
  proof (cases "fl_loggingActive s")
    case True
    let ?config = "SplConfig_default\<lparr>cf_referenceOffsetDb := 94 - capture_level samples, cf_calibrated := True\<rparr>"
    let ?s2 = "startFreshSplLogWithConfig fw tk ?config (Some 94) (call_analysis DisableSplLogging s1)"
    have "flow_inv fw (?e # hist) (call_analysis DisableSplLogging s1)"
      by (rule flow_inv_frame [OF inv1, where calls = "[DisableSplLogging]"]) (simp_all add: call_analysis_def)
    then have "flow_inv fw (?e # hist) ?s2"
    proof (rule flow_inv_fresh)
      show "log_opened_with (?e # hist) (fl_calls ?s2) (fw_path fw (sessionFolderName (tk_utc tk) (tk_epoch tk)))"
        unfolding log_opened_with_def
        by (rule exI [of _ ?config], rule exI [of _ "case_prod take (channelsWithRole (tk_config tk) Measurement (replicate (nat kMaxChannels) 0))"],
            rule exI [of _ 94], rule exI [of _ "fst ?e"], rule exI [of _ "snd ?e"])
          (simp add: startFreshSplLogWithConfig_def call_analysis_def Let_def capture_call_def split: prod.splits)
    qed
    then have "flow_inv fw (?e # hist) (call_analysis (SetCalibrationInvalid (fl_startChannel s1) False) ?s2)"
      by (rule flow_inv_frame [where calls = "[SetCalibrationInvalid (fl_startChannel s1) False]"]) (simp_all add: call_analysis_def)
    then show ?thesis
      using True step config by (simp add: restartSplLoggingForCalibration_def s1_def call_analysis_def Let_def)
  next
    case False
    then show ?thesis
      using step inv1 by (simp add: restartSplLoggingForCalibration_def s1_def)
  qed
qed

text \<open>The record of a completed bracket, as the two branches of the code fill it in.\<close>

definition bracket_info :: "flow_world \<Rightarrow> flow_tick \<Rightarrow> calibration_flow \<Rightarrow> SplCalibrationRecordInfo" where
  "bracket_info fw tk s =
     (let fields = reportFields (fl_session s);
          decision = decideCalibrationRecordChannel (fl_startChannel s) (fl_channel s);
          info = SplCalibrationRecordInfo_default\<lparr>cr_fields := bits_fields (fw_bits fw) fields, cr_offsetApplied := fl_hasCalibratedOffset s\<rparr>;
          blockCount = tk_blockCount tk (fl_channel s)
      in if decision \<noteq> Write
         then info\<lparr>cr_fields := (cr_fields info)\<lparr>rf_verdict := None\<rparr>,
                cr_refusal := (if decision = RefuseChannelMismatch then ChannelMismatch else NoMeasurementChannel)\<rparr>
         else info\<lparr>cr_channel := fl_channel s, cr_startBlockIndex := 0,
                cr_endBlockIndex := (if blockCount > 0 then blockCount - 1 else 0)\<rparr>)"

lemma write_record_effect:
  "\<exists>calls. fl_calls (writeCalibrationRecordAndUpdateInvalidFlag fw tk s) = fl_calls s @ calls"
  "fl_session (writeCalibrationRecordAndUpdateInvalidFlag fw tk s) = fl_session s"
  "fl_startChannel (writeCalibrationRecordAndUpdateInvalidFlag fw tk s) = fl_startChannel s"
  "fl_hasCalibratedOffset (writeCalibrationRecordAndUpdateInvalidFlag fw tk s) = fl_hasCalibratedOffset s"
  "fl_sessionDir (writeCalibrationRecordAndUpdateInvalidFlag fw tk s) = fl_sessionDir s"
  "fl_disk (writeCalibrationRecordAndUpdateInvalidFlag fw tk s) = fl_disk s \<or>
   rf_performed (reportFields (fl_session s)) \<and>
   (\<exists>arrived. tk_disk tk = Some arrived \<and>
     fl_disk (writeCalibrationRecordAndUpdateInvalidFlag fw tk s) =
       (fl_disk s)(fl_sessionDir s @ ''/calibration.txt'' \<mapsto>
          take arrived (calibrationRecordText (fw_charconv fw) (bracket_info fw tk s))))"
  by (cases "tk_disk tk"; auto simp: writeCalibrationRecordAndUpdateInvalidFlag_def writeCalibrationRecordFile_def call_analysis_def
      Let_def bracket_info_def calibration_path_def)+

lemma failure_is_shown:
  assumes "fl_sessionDir s \<noteq> []" "rf_performed (reportFields (fl_session s))"
    and "rf_verdict (cr_fields (recorded (bracket_info fw tk s))) = Some Fail"
  shows "SetCalibrationInvalid (cr_channel (recorded (bracket_info fw tk s))) True
    \<in> set (fl_calls (writeCalibrationRecordAndUpdateInvalidFlag fw tk s))"
proof -
  have "decideCalibrationRecordChannel (fl_startChannel s) (fl_channel s) = Write"
    using assms(3) by (auto simp: bracket_info_def recorded_def Let_def SplCalibrationRecordInfo_default_def split: if_splits)
  then show ?thesis
    using assms
    by (simp add: writeCalibrationRecordAndUpdateInvalidFlag_def writeCalibrationRecordFile_def call_analysis_def Let_def
        bracket_info_def recorded_def bits_fields_def SplCalibrationRecordInfo_default_def split: option.split)
qed

lemma bracket_info_said:
  assumes bits: "\<forall>x. \<not> is_nan64 (fw_bits fw x)"
    and s: "fl_session s = session_of (bracket (map fst ((b, chb, out) # hist)))" "cc_kind b = EndCheck" "fl_channel s = chb"
      "fl_startChannel s = (case start_entry hist of None \<Rightarrow> -1 | Some e \<Rightarrow> fst (snd e))"
    and ok: "list_all entry_ok ((b, chb, out) # hist)"
    and performed: "rf_performed (reportFields (fl_session s))"
  shows "RecordInfo_ok (bracket_info fw tk s)" "record_after fw ((b, chb, out) # hist) (recorded (bracket_info fw tk s))"
    "cr_offsetApplied (recorded (bracket_info fw tk s)) = fl_hasCalibratedOffset s"
proof -
  have "fl_session s = session_of (map_option fst (start_entry hist), Some b)"
    using s(1,2) by (simp add: bracket_start)
  moreover from this obtain a cha out0 where a: "start_entry hist = Some (a, cha, out0)"
    using performed by (cases "start_entry hist") (auto simp: session_of_def reportFields_def CalibrationReportFields_default_def)
  ultimately have fields: "reportFields (fl_session s) =
      (let drift = \<bar>ck_offsetDb (check_of b) - ck_offsetDb (check_of a)\<bar>
       in \<lparr>rf_performed = True, rf_start = check_of a, rf_end = check_of b, rf_driftDb = drift,
           rf_verdict = Some (if drift \<le> 1 / 2 then Pass else Fail), rf_clause = kClause\<rparr>)"
    by (simp add: reportFields_session)
  have "(a, cha, out0) \<in> set hist"
    using a unfolding start_entry_def by (metis find_Some_iff nth_mem)
  then have "entry_ok (a, cha, out0)" "entry_ok (b, chb, out)"
    using ok by (auto simp: list_all_iff)
  then have drift: "\<bar>ck_offsetDb (check_of b) - ck_offsetDb (check_of a)\<bar> =
      \<bar>capture_level (cc_samples b) - capture_level (cc_samples a)\<bar>"
    by (simp add: entry_ok_def check_of_def calibrationLevel_def abs_minus_commute)
  have said: "reportFields (fl_session s) =
      \<lparr>rf_performed = True, rf_start = check_of a, rf_end = check_of b,
       rf_driftDb = \<bar>capture_level (cc_samples b) - capture_level (cc_samples a)\<bar>,
       rf_verdict = Some (if \<bar>capture_level (cc_samples b) - capture_level (cc_samples a)\<bar> \<le> 1 / 2 then Pass else Fail),
       rf_clause = kClause\<rparr>"
    by (simp only: fields drift Let_def)
  have ch: "is_int32 chb" "fl_startChannel s = cha"
    using \<open>entry_ok (b, chb, out)\<close> s(4) a by (simp_all add: entry_ok_def is_int32_def)
  note info = bracket_info_def Let_def said s(3) ch(2) bits_fields_def bits_check_def
  show "RecordInfo_ok (bracket_info fw tk s)"
    using bits ch(1) by (simp add: info RecordInfo_ok_def SplCalibrationRecordInfo_default_def is_int32_def)
  show "cr_offsetApplied (recorded (bracket_info fw tk s)) = fl_hasCalibratedOffset s"
    by (simp add: info recorded_def)
  show "record_after fw ((b, chb, out) # hist) (recorded (bracket_info fw tk s))"
    unfolding record_after_def
    by (rule exI [of _ b], rule exI [of _ chb], rule exI [of _ out], rule exI [of _ hist], rule exI [of _ a], rule exI [of _ cha],
        rule exI [of _ out0])
      (cases "decideCalibrationRecordChannel cha chb"; simp add: s(2) a info recorded_def check_of_def SplCalibrationRecordInfo_default_def)
qed

lemma handle_end_inv:
  assumes world: "\<forall>x. \<not> is_nan64 (fw_bits fw x)" "header_format (fw_charconv fw)"
    and inv: "flow_inv fw hist s" and samples: "samples \<noteq> []" "length samples < 2 ^ 32" "0 < tk_sampleRate tk"
    and ending: "\<not> fl_isStart s"
  shows "\<exists>s'. handle_capture fw tk address samples s = Some s' \<and>
    flow_inv fw ((capture_call False tk samples, resolve_channel tk, tk_disk tk) # hist) s'"
proof -
  let ?b = "capture_call False tk samples" and ?ch = "resolve_channel tk"
  let ?now = "(?b, ?ch, tk_disk tk) # hist"
  note rec = capture_recorded [OF inv samples, where isStart = False]
  define s1 where "s1 = s\<lparr>fl_lastHandled := Some address, fl_armed := False, fl_channel := ?ch, fl_session := session_of (bracket (map fst ?now))\<rparr>"
  let ?s2 = "writeCalibrationRecordAndUpdateInvalidFlag fw tk s1"
  have b: "cc_kind ?b = EndCheck"
    by (simp add: capture_call_def)
  have step: "handle_capture fw tk address samples s = Some ?s2"
    using rec(2) ending
    by (simp add: handle_capture_def Let_def do_check_def capture_call_def s1_def kIec60942Level94Db_def)
  have inv1: "flow_inv fw ?now s1"
    using inv rec(1) recorded_at_mono [of fw hist "fl_calls s" _ _ "[(?b, ?ch, tk_disk tk)]" "[]"]
      log_opened_mono [of hist "fl_calls s" _ "[(?b, ?ch, tk_disk tk)]" "[]"] b
    unfolding flow_inv_def s1_def by (auto simp: start_entry_def)
  obtain calls where calls: "fl_calls ?s2 = fl_calls s1 @ calls"
    using write_record_effect(1) by blast
  have "flow_inv fw ?now ?s2"
  proof (cases "fl_disk ?s2 = fl_disk s1")
    case True
    then show ?thesis
      by (intro flow_inv_frame [OF inv1 _ _ _ _ _ calls]) (simp_all add: write_record_effect)
  next
    case False
    then have dir: "fl_sessionDir s1 \<noteq> []"
      by (auto simp: writeCalibrationRecordAndUpdateInvalidFlag_def)
    from False obtain arrived where performed: "rf_performed (reportFields (fl_session s1))" and disk: "tk_disk tk = Some arrived"
        "fl_disk ?s2 = (fl_disk s1)(fl_sessionDir s1 @ ''/calibration.txt'' \<mapsto>
          take arrived (calibrationRecordText (fw_charconv fw) (bracket_info fw tk s1)))"
      using write_record_effect(6) [of fw tk s1] by blast
    have start: "fl_startChannel s1 = (case start_entry hist of None \<Rightarrow> -1 | Some e \<Rightarrow> fst (snd e))"
      using inv by (simp add: flow_inv_def s1_def)
    have entries: "list_all entry_ok ?now"
      using inv1 by (simp add: flow_inv_def)
    note said = bracket_info_said [OF world(1) _ b _ start entries performed, of tk]
    have ok: "RecordInfo_ok (bracket_info fw tk s1)" "record_after fw ?now (recorded (bracket_info fw tk s1))"
        "cr_offsetApplied (recorded (bracket_info fw tk s1)) = fl_hasCalibratedOffset s1"
      by (rule said; simp add: s1_def)+
    have "parseCalibrationRecord (fw_charconv fw) (calibrationRecordText (fw_charconv fw) (bracket_info fw tk s1)) =
        Some (recorded (bracket_info fw tk s1))"
      using parseCalibrationRecord_roundtrip [OF world(2) ok(1), of False] by simp
    moreover have "fl_hasCalibratedOffset s1 \<longrightarrow> log_opened_with ?now (fl_calls ?s2) (fl_sessionDir s1)"
      using inv1 log_opened_mono [of ?now "fl_calls s1" _ "[]" calls] by (simp add: flow_inv_def calls)
    ultimately have new: "recorded_at fw ?now (fl_calls ?s2) (fl_sessionDir s1 @ ''/calibration.txt'')
        (take arrived (calibrationRecordText (fw_charconv fw) (bracket_info fw tk s1)))"
      unfolding recorded_at_def using ok(2,3) failure_is_shown [OF dir performed, of fw tk] disk(1)
      by (intro exI [of _ "[]"] exI [of _ ?now] exI [of _ "fl_sessionDir s1"] exI [of _ "recorded (bracket_info fw tk s1)"]
          exI [of _ "calibrationRecordText (fw_charconv fw) (bracket_info fw tk s1)"] exI [of _ arrived]) simp
    have "flow_inv fw ?now (s1\<lparr>fl_calls := fl_calls ?s2\<rparr>)"
      by (rule flow_inv_frame [OF inv1, where calls = calls]) (simp_all add: calls)
    then show ?thesis
      using new by (auto simp: flow_inv_def disk write_record_effect)
  qed
  with step show ?thesis
    by blast
qed

section \<open>Any run\<close>

lemma flow_step_inv:
  assumes "\<forall>x. \<not> is_nan64 (fw_bits fw x)" "header_format (fw_charconv fw)" "flow_inv fw hist s" "tick_ok ev"
  shows "\<exists>s' hist'. flow_run fw [ev] (s, hist) = Some (s', hist') \<and> flow_inv fw hist' s'"
proof (cases ev)
  case (PollCalibration tk)
  show ?thesis
  proof (cases "new_capture tk s")
    case None
    moreover have "flow_inv fw hist (s\<lparr>fl_armed := False\<rparr>)"
      by (rule flow_inv_frame [OF assms(3), where calls = "[]"]) simp_all
    ultimately show ?thesis
      using assms(3) by (simp add: PollCalibration pollCalibrationPipeline_def)
  next
    case (Some c)
    obtain address samples where c: "c = (address, samples)"
      by fastforce
    have ok: "samples \<noteq> []" "length samples < 2 ^ 32" "0 < tk_sampleRate tk" "fl_armed s"
      using Some assms(4) by (auto simp: PollCalibration c new_capture_def split: if_splits option.splits)
    then show ?thesis
      using Some handle_start_inv [OF assms(3) ok(1-3), of address] handle_end_inv [OF assms(1-3) ok(1-3), of address]
      by (cases "fl_isStart s") (auto simp: PollCalibration pollCalibrationPipeline_def c)
  qed
qed (use assms(3) clicks_inv pollSplLogging_inv in simp_all)

lemma flow_run_append: "flow_run fw (evs @ evs') sl = Option.bind (flow_run fw evs sl) (flow_run fw evs')"
  by (induction evs arbitrary: sl) (simp_all split: option.split)

lemma flow_run_inv:
  assumes "\<forall>x. \<not> is_nan64 (fw_bits fw x)" "header_format (fw_charconv fw)" "list_all tick_ok events" "flow_inv fw hist s"
  shows "\<exists>s' hist'. flow_run fw events (s, hist) = Some (s', hist') \<and> flow_inv fw hist' s'"
  using assms(3,4)
proof (induction events arbitrary: s hist)
  case (Cons ev events)
  obtain s1 hist1 where "flow_run fw [ev] (s, hist) = Some (s1, hist1)" "flow_inv fw hist1 s1"
    using flow_step_inv [OF assms(1,2) Cons.prems(2), of ev] Cons.prems(1) by auto
  moreover from this have "flow_run fw (ev # events) (s, hist) = flow_run fw events (s1, hist1)"
    using flow_run_append [of fw "[ev]" events "(s, hist)"] by (simp del: flow_run.simps)
  ultimately show ?case
    using Cons.IH [of hist1 s1] Cons.prems(1) by simp
qed simp


definition sample_world :: flow_world where
  "sample_world = \<lparr>fw_bits = (\<lambda>x. 0), fw_charconv = sample_charconv, fw_path = (\<lambda>name. ''spl/'' @ name)\<rparr>"

definition sample_tick :: "(nat \<times> real list) option \<Rightarrow> flow_tick" where
  "sample_tick capture =
     \<lparr>tk_capture = capture, tk_sampleRate = 48000, tk_unixMs = 1, tk_hiResMs = 0, tk_utc = ''t'',
      tk_config = ChannelConfig_new\<lparr>cc_roles := [Reference, Measurement] @ replicate 62 Unused\<rparr>, tk_numChannels = 2,
      tk_epoch = 3, tk_blockCount = (\<lambda>_. 5), tk_disk = Some 10000\<rparr>"

definition sample_events :: "flow_event list" where
  "sample_events =
     [PollLogging True (sample_tick None), ClickStart False 0, PollCalibration (sample_tick (Some (1, [1]))),
      ClickEnd False 0, PollCalibration (sample_tick (Some (2, [10])))]"

lemma sample_channel: "resolve_channel (sample_tick c) = 1"
  by (simp add: resolve_channel_def sample_tick_def) code_simp

lemma sample_run_writes:
  "\<exists>s hist. flow_run sample_world sample_events (flow_new, []) = Some (s, hist) \<and>
     fl_disk s ''spl/t-e3/calibration.txt'' \<noteq> None \<and> fl_startChannel s = 1 \<and> fl_channel s = 1"
proof -
  have folder: "sessionFolderName ''t'' 3 = ''t-e3''"
    by (simp add: sessionFolderName_def) code_simp
  have levels: "measureRawZLevelDb [1] 48000 = Some (capture_level [1])" "measureRawZLevelDb [10] 48000 = Some (capture_level [10])"
    by (simp_all add: measured_level)
  obtain n chans where chans: "channelsWithRole (tk_config (sample_tick None)) Measurement (replicate (nat kMaxChannels) 0) = (n, chans)"
    by fastforce
  have ch: "resolve_channel (sample_tick c) = 1" "channelsWithRole (tk_config (sample_tick c)) Measurement (replicate (nat kMaxChannels) 0) = (n, chans)"
      "tk_capture (sample_tick c) = c" "tk_sampleRate (sample_tick c) = 48000" "tk_utc (sample_tick c) = ''t''" "tk_epoch (sample_tick c) = 3" "tk_disk (sample_tick c) = Some 10000" for c
    using chans by (simp_all add: sample_channel) (simp_all add: sample_tick_def)
  show ?thesis
    by (simp add: sample_events_def flow_new_def ch pollSplLogging_def decideSplLoggingAction_def startFreshSplLog_def Let_def
        startFreshSplLogWithConfig_def call_analysis_def calibrationStartClicked_def calibrationEndClicked_def arm_capture_def
        pollCalibrationPipeline_def new_capture_def handle_capture_def recordStartCheck_def recordEndCheck_def buildCheck_def levels
        CalibrationSession_new_def restartSplLoggingForCalibration_def calibratedSplLogConfig_def sample_world_def folder
        writeCalibrationRecordAndUpdateInvalidFlag_def reportFields_def decideCalibrationRecordChannel_def
        writeCalibrationRecordFile_def calibration_path_def)
qed


text \<open>
  Two start checks in one second open the same folder: the epoch, which the name relies on, is the epoch of the bus and
  does not change when a calibration restarts the log.
\<close>

lemma restarted_log_reuses_folder:
  assumes "restartSplLoggingForCalibration fw tk s = Some s1" "restartSplLoggingForCalibration fw tk' s1 = Some s2"
    and "fl_loggingActive s" "tk_utc tk' = tk_utc tk" "tk_epoch tk' = tk_epoch tk"
  shows "fl_sessionDir s2 = fl_sessionDir s1"
  using assms
  by (auto simp: restartSplLoggingForCalibration_def startFreshSplLogWithConfig_def call_analysis_def Let_def
      split: option.splits prod.splits)

end
