(* ===== verification/Trace_Blob.thy ===== *)
theory Trace_Blob
  imports Session_Codec
begin

text \<open>
  A stored trace (\<^verbatim>\<open>app/src/trace/Trace.h\<close>) and its binary form (\<^verbatim>\<open>app/src/trace/TraceBlobCodec.cpp\<close>).  A
  \<^verbatim>\<open>float\<close> is its bit pattern, so \<^verbatim>\<open>std::bit_cast\<close> between \<^verbatim>\<open>float\<close> and \<^verbatim>\<open>std::uint32_t\<close> is the identity.
  A reader takes the bytes that are left and gives the value and the rest, or \<open>None\<close> when there are too few.
\<close>

section \<open>Trace\<close>

datatype Field = Magnitude | Phase | Coherence

record Trace =
  tr_meta :: CaptureMeta
  tr_magnitude :: "32 word list"
  tr_phase :: "32 word list"
  tr_coherence :: "32 word list"

definition pointCountFor :: "int \<Rightarrow> nat" where
  "pointCountFor fftSize = (if fftSize > 0 then nat fftSize div 2 + 1 else 0)"

definition Trace_make :: "CaptureMeta \<Rightarrow> 32 word list \<Rightarrow> Trace option" where
  "Trace_make meta magnitudeDb =
     (if length magnitudeDb \<noteq> pointCountFor (m_fftSize meta) \<or> magnitudeDb = [] then None
      else Some \<lparr>tr_meta = meta, tr_magnitude = magnitudeDb, tr_phase = [], tr_coherence = []\<rparr>)"

text \<open>\<^verbatim>\<open>setPhase\<close> and \<^verbatim>\<open>setCoherence\<close>: \<open>None\<close> is the returned false, which leaves the trace alone.\<close>

definition setPhase :: "32 word list \<Rightarrow> Trace \<Rightarrow> Trace option" where
  "setPhase phase t =
     (if length phase \<noteq> length (tr_magnitude t) then None else Some (t\<lparr>tr_phase := phase\<rparr>))"

definition setCoherence :: "32 word list \<Rightarrow> Trace \<Rightarrow> Trace option" where
  "setCoherence coherence t =
     (if length coherence \<noteq> length (tr_magnitude t) then None else Some (t\<lparr>tr_coherence := coherence\<rparr>))"

fun Trace_field :: "Trace \<Rightarrow> Field \<Rightarrow> 32 word list" where
  "Trace_field t Magnitude = tr_magnitude t"
| "Trace_field t Phase = tr_phase t"
| "Trace_field t Coherence = tr_coherence t"

definition Trace_has :: "Trace \<Rightarrow> Field \<Rightarrow> bool" where
  "Trace_has t f \<longleftrightarrow> Trace_field t f \<noteq> []"

definition pointCount :: "Trace \<Rightarrow> nat" where
  "pointCount t = length (tr_magnitude t)"

text \<open>What \<^verbatim>\<open>make\<close> and the two setters establish: one axis, and every field present has its length.\<close>

definition Trace_ok :: "Trace \<Rightarrow> bool" where
  "Trace_ok t \<longleftrightarrow>
     length (tr_magnitude t) = pointCountFor (m_fftSize (tr_meta t)) \<and> tr_magnitude t \<noteq> [] \<and>
     (tr_phase t = [] \<or> length (tr_phase t) = length (tr_magnitude t)) \<and>
     (tr_coherence t = [] \<or> length (tr_coherence t) = length (tr_magnitude t))"

section \<open>The bytes\<close>

definition kMagnitudeBit :: uint32_t where "kMagnitudeBit = push_bit 0 1"
definition kPhaseBit :: uint32_t where "kPhaseBit = push_bit 1 1"
definition kCoherenceBit :: uint32_t where "kCoherenceBit = push_bit 2 1"

definition appendU32 :: "byte list \<Rightarrow> uint32_t \<Rightarrow> byte list" where
  "appendU32 out v =
     foldl (\<lambda>out shift. out @ [ucast (drop_bit shift v AND 0xFF)]) out [0, 8, 16, 24]"

definition readU32 :: "byte list \<Rightarrow> (uint32_t \<times> byte list) option" where
  "readU32 bs =
     (if length bs < 4 then None
      else Some (foldl (\<lambda>v i. v OR push_bit (8 * i) (ucast (bs ! i))) 0 [0..<4], drop 4 bs))"

definition appendFloats :: "byte list \<Rightarrow> 32 word list \<Rightarrow> byte list" where
  "appendFloats out values = foldl appendU32 out values"

fun readFloats :: "byte list \<Rightarrow> nat \<Rightarrow> (32 word list \<times> byte list) option" where
  "readFloats bs 0 = Some ([], bs)"
| "readFloats bs (Suc n) =
     Option.bind (readU32 bs) (\<lambda>(f, bs').
       map_option (\<lambda>(fs, rest). (f # fs, rest)) (readFloats bs' n))"

definition byte_of_char :: "char \<Rightarrow> byte" where
  "byte_of_char c = word_of_nat (of_char c)"

definition char_of_byte :: "byte \<Rightarrow> char" where
  "char_of_byte b = char_of (unat b)"

definition encodeTraceBlob :: "Trace \<Rightarrow> byte list" where
  "encodeTraceBlob t =
     (let out = map byte_of_char ''RTAT'';
          out = appendU32 out (word_of_nat (pointCount t));
          presence = (0 :: uint32_t);
          presence = (if Trace_has t Magnitude then presence OR kMagnitudeBit else presence);
          presence = (if Trace_has t Phase then presence OR kPhaseBit else presence);
          presence = (if Trace_has t Coherence then presence OR kCoherenceBit else presence);
          out = appendU32 out presence;
          out = appendU32 out (word_of_nat (length (m_id (tr_meta t))));
          out = out @ map byte_of_char (m_id (tr_meta t));
          out = (if Trace_has t Magnitude then appendFloats out (Trace_field t Magnitude) else out);
          out = (if Trace_has t Phase then appendFloats out (Trace_field t Phase) else out);
          out = (if Trace_has t Coherence then appendFloats out (Trace_field t Coherence) else out)
      in out)"

text \<open>The optional fields behind the magnitude: read and attached only when their bit is set.\<close>

definition read_optional ::
  "bool \<Rightarrow> (32 word list \<Rightarrow> Trace \<Rightarrow> Trace option) \<Rightarrow> nat \<Rightarrow> Trace \<times> byte list \<Rightarrow> (Trace \<times> byte list) option"
where
  "read_optional present set_it n st =
     (let (t, bs) = st in
      if present then
        Option.bind (readFloats bs n) (\<lambda>(fs, bs'). map_option (\<lambda>t'. (t', bs')) (set_it fs t))
      else Some (t, bs))"

definition read_body :: "CaptureMeta \<Rightarrow> byte list \<Rightarrow> Trace option" where
  "read_body meta blob = do {
     (pointCount, blob) \<leftarrow> readU32 blob;
     if unat pointCount \<noteq> pointCountFor (m_fftSize meta) then None else do {
       (presence, blob) \<leftarrow> readU32 blob;
       (idLen, blob) \<leftarrow> readU32 blob;
       if length blob < unat idLen then None
       else if map char_of_byte (take (unat idLen) blob) \<noteq> m_id meta then None
       else if presence AND kMagnitudeBit = 0 then None
       else do {
         (magnitude, blob) \<leftarrow> readFloats (drop (unat idLen) blob) (unat pointCount);
         trace \<leftarrow> Trace_make meta magnitude;
         st \<leftarrow> read_optional (presence AND kPhaseBit \<noteq> 0) setPhase (unat pointCount) (trace, blob);
         (trace, blob) \<leftarrow> read_optional (presence AND kCoherenceBit \<noteq> 0) setCoherence (unat pointCount) st;
         if blob \<noteq> [] then None else Some trace
       }
     }
   }"

definition decodeTraceBlob ::
  "byte list \<Rightarrow> CaptureMeta \<Rightarrow> Trace option \<Rightarrow> DecodeStatus \<times> Trace option" where
  "decodeTraceBlob blob meta out =
     (if length blob < 4 \<or> take 4 blob \<noteq> map byte_of_char ''RTAT'' then (Malformed, out)
      else case read_body meta (drop 4 blob) of
             None \<Rightarrow> (Malformed, out)
           | Some t \<Rightarrow> (Ok, Some t))"

section \<open>Reading back what was appended\<close>

definition u32_bytes :: "uint32_t \<Rightarrow> byte list" where
  "u32_bytes v = map (\<lambda>s. ucast (drop_bit s v)) [0, 8, 16, 24]"

lemma ucast_and_255: "(ucast (w AND 0xFF) :: byte) = ucast (w :: uint32_t)"
proof -
  have "(0xFF :: uint32_t) = mask 8"
    by (simp add: mask_eq_exp_minus_1)
  then show ?thesis
    by (simp only: flip: take_bit_eq_mask) (rule bit_word_eqI, simp add: bit_simps)
qed

lemma appendU32_bytes: "appendU32 out v = out @ u32_bytes v"
  by (simp add: appendU32_def u32_bytes_def ucast_and_255)

lemma length_u32_bytes [simp]: "length (u32_bytes v) = 4"
  by (simp add: u32_bytes_def)

lemma readU32_bytes [simp]: "readU32 (u32_bytes v @ rest) = Some (v, rest)"
proof -
  let ?w = "foldl (\<lambda>x i. x OR push_bit (8 * i) (ucast ((u32_bytes v @ rest) ! i))) 0 [0..<4] :: uint32_t"
  have "?w = v"
  proof (rule bit_word_eqI)
    fix n
    assume "n < LENGTH(32)"
    consider "n < 8" | "8 \<le> n" "n < 16" | "16 \<le> n" "n < 24" | "24 \<le> n"
      by linarith
    then show "bit ?w n \<longleftrightarrow> bit v n"
      using \<open>n < LENGTH(32)\<close>
      by cases (auto simp: upt_conv_Cons u32_bytes_def bit_simps nth_append)
  qed
  then show ?thesis
    by (simp add: readU32_def)
qed

lemma byte_high: "8 \<le> n \<Longrightarrow> \<not> bit (b :: byte) n"
  using bit_imp_le_length [of b n] by auto

lemma length_4: "length xs = 4 \<Longrightarrow> \<exists>a b c d. xs = [a, b, c, d]"
  by (simp add: numeral_eq_Suc length_Suc_conv) blast

lemma readU32_Some: "readU32 bs = Some (v, rest) \<longleftrightarrow> bs = u32_bytes v @ rest"
proof
  assume read: "readU32 bs = Some (v, rest)"
  then have rest: "rest = drop 4 bs" and "length (take 4 bs) = 4"
    by (auto simp: readU32_def split: if_splits)
  then obtain a b c d where "take 4 bs = [a, b, c, d]"
    using length_4 by blast
  then have bs: "bs = a # b # c # d # rest"
    using append_take_drop_id [of 4 bs] rest by simp
  show "bs = u32_bytes v @ rest"
    using read unfolding bs
    by (auto simp: readU32_def upt_conv_Cons u32_bytes_def bit_simps byte_high
        intro!: bit_word_eqI)
qed simp

lemma appendFloats_bytes: "appendFloats out fs = out @ concat (map u32_bytes fs)"
  by (induction fs arbitrary: out) (simp_all add: appendFloats_def appendU32_bytes)

lemma readFloats_bytes [simp]:
  "readFloats (concat (map u32_bytes fs) @ rest) (length fs) = Some (fs, rest)"
  by (induction fs) simp_all

lemma readFloats_bytes_only [simp]: "readFloats (concat (map u32_bytes fs)) (length fs) = Some (fs, [])"
  using readFloats_bytes [of fs "[]"] by simp

lemma char_byte_inverse [simp]: "char_of_byte (byte_of_char c) = c"
  by (simp add: char_of_byte_def byte_of_char_def unat_of_nat)

lemma char_byte_comp [simp]: "char_of_byte \<circ> byte_of_char = id"
  by (simp add: fun_eq_iff)

lemma readFloats_Some:
  "readFloats bs n = Some (fs, rest) \<longleftrightarrow> bs = concat (map u32_bytes fs) @ rest \<and> length fs = n"
proof (induction n arbitrary: bs fs)
  case 0
  then show ?case by auto
next
  case (Suc n)
  then show ?case
    by (cases fs) (auto simp: Option.bind_eq_Some_conv readU32_Some)
qed

text \<open>The four groups of the blob, and the presence word a trace has.\<close>

definition presence_of :: "Trace \<Rightarrow> uint32_t" where
  "presence_of t =
     (if Trace_has t Magnitude then kMagnitudeBit else 0) OR
     (if Trace_has t Phase then kPhaseBit else 0) OR
     (if Trace_has t Coherence then kCoherenceBit else 0)"

definition blob_layout :: "uint32_t \<Rightarrow> Trace \<Rightarrow> byte list" where
  "blob_layout presence t =
     map byte_of_char ''RTAT'' @ u32_bytes (word_of_nat (pointCount t)) @ u32_bytes presence @
     u32_bytes (word_of_nat (length (m_id (tr_meta t)))) @ map byte_of_char (m_id (tr_meta t)) @
     concat (map u32_bytes (tr_magnitude t)) @ concat (map u32_bytes (tr_phase t)) @
     concat (map u32_bytes (tr_coherence t))"

lemma encodeTraceBlob_layout: "encodeTraceBlob t = blob_layout (presence_of t) t"
  by (simp add: encodeTraceBlob_def blob_layout_def presence_of_def appendU32_bytes appendFloats_bytes
        Trace_has_def Let_def or.assoc)

lemma presence_bits:
  "presence_of t AND kMagnitudeBit = 0 \<longleftrightarrow> tr_magnitude t = []"
  "presence_of t AND kPhaseBit = 0 \<longleftrightarrow> tr_phase t = []"
  "presence_of t AND kCoherenceBit = 0 \<longleftrightarrow> tr_coherence t = []"
  by (simp_all add: presence_of_def kMagnitudeBit_def kPhaseBit_def kCoherenceBit_def Trace_has_def)

lemma pointCountFor_bound: "is_int32 n \<Longrightarrow> pointCountFor n < 2 ^ 32"
  by (auto simp: pointCountFor_def is_int32_def)

text \<open>What the reader accepts: exactly the layouts of well-formed traces, any presence word whose known bits fit.\<close>

definition presence_fits :: "uint32_t \<Rightarrow> Trace \<Rightarrow> bool" where
  "presence_fits presence t \<longleftrightarrow>
     presence AND kMagnitudeBit \<noteq> 0 \<and>
     (presence AND kPhaseBit \<noteq> 0 \<longleftrightarrow> tr_phase t \<noteq> []) \<and>
     (presence AND kCoherenceBit \<noteq> 0 \<longleftrightarrow> tr_coherence t \<noteq> [])"

lemma read_body_layout:
  assumes ok: "Trace_ok t" and fits: "presence_fits presence t"
    and size: "pointCountFor (m_fftSize (tr_meta t)) < 2 ^ 32" "length (m_id (tr_meta t)) < 2 ^ 32"
  shows "read_body (tr_meta t) (drop 4 (blob_layout presence t)) = Some t"
proof (cases t)
  case (fields meta mag ph co)
  have n: "unat (word_of_nat (length mag) :: uint32_t) = length mag"
    using ok size(1) by (simp add: Trace_ok_def fields unat_of_nat)
  have l: "unat (word_of_nat (length (m_id meta)) :: uint32_t) = length (m_id meta)"
    using size(2) by (simp add: fields unat_of_nat)
  have mag: "length mag = pointCountFor (m_fftSize meta)" "mag \<noteq> []"
    and ph: "ph = [] \<or> length ph = length mag" and co: "co = [] \<or> length co = length mag"
    using ok by (auto simp: Trace_ok_def fields)
  have rph: "ph \<noteq> [] \<Longrightarrow> readFloats (concat (map u32_bytes ph) @ rest) (length mag) = Some (ph, rest)" for rest
    using ph by (metis readFloats_bytes)
  have rph': "ph \<noteq> [] \<Longrightarrow> readFloats (concat (map u32_bytes ph)) (length mag) = Some (ph, [])"
    using ph by (metis readFloats_bytes_only)
  have rco: "co \<noteq> [] \<Longrightarrow> readFloats (concat (map u32_bytes co)) (length mag) = Some (co, [])"
    using co by (metis readFloats_bytes_only)
  show ?thesis
    using fits ph co unfolding fields
    by (cases "ph = []"; cases "co = []")
       (simp_all add: read_body_def blob_layout_def presence_fits_def pointCount_def n l mag(1)[symmetric]
          mag(2) Trace_make_def read_optional_def rph rph' rco setPhase_def setCoherence_def)
qed

lemma byte_char_inverse [simp]: "byte_of_char (char_of_byte b) = b"
proof -
  have "unat b < 256"
    using unsigned_less [of b, where ?'a = nat] by simp
  then show ?thesis
    by (simp add: char_of_byte_def byte_of_char_def of_char_of)
qed

text \<open>One optional field, for a setter that refuses a length other than the magnitude's.\<close>

lemma read_optional_Some:
  assumes "read_optional present set_it n (t, bs) = Some (t', bs')"
    and set_it: "\<And>fs. set_it fs t = (if length fs \<noteq> n then None else Some (upd fs t))" and "upd [] t = t" and "n \<noteq> 0"
  shows "\<exists>fs. t' = upd fs t \<and> bs = concat (map u32_bytes fs) @ bs' \<and> (present \<longleftrightarrow> fs \<noteq> []) \<and>
              (fs = [] \<or> length fs = n)"
proof (cases present)
  case True
  then obtain fs where "bs = concat (map u32_bytes fs) @ bs'" "length fs = n" "set_it fs t = Some t'"
    using assms(1) by (auto simp: read_optional_def Option.bind_eq_Some_conv readFloats_Some)
  moreover from this have "t' = upd fs t" "fs \<noteq> []"
    using set_it \<open>n \<noteq> 0\<close> by auto
  ultimately show ?thesis
    using True by blast
next
  case False
  then have "t' = upd [] t" "bs = concat (map u32_bytes []) @ bs'"
    using assms by (simp_all add: read_optional_def)
  with False show ?thesis
    by blast
qed

lemma read_tail:
  assumes "Trace_make meta mag = Some t0"
    and "read_optional (presence AND kPhaseBit \<noteq> 0) setPhase (length mag) (t0, bs) = Some (t1, bs1)"
    and "read_optional (presence AND kCoherenceBit \<noteq> 0) setCoherence (length mag) (t1, bs1) = Some (t, [])"
    and "presence AND kMagnitudeBit \<noteq> 0"
  shows "Trace_ok t \<and> tr_meta t = meta \<and> tr_magnitude t = mag \<and> presence_fits presence t \<and>
         bs = concat (map u32_bytes (tr_phase t)) @ concat (map u32_bytes (tr_coherence t))"
proof -
  have t0: "t0 = \<lparr>tr_meta = meta, tr_magnitude = mag, tr_phase = [], tr_coherence = []\<rparr>"
    and mag: "mag \<noteq> []" "length mag = pointCountFor (m_fftSize meta)"
    using assms(1) by (auto simp: Trace_make_def split: if_splits)
  have "\<exists>ph. t1 = t0\<lparr>tr_phase := ph\<rparr> \<and> bs = concat (map u32_bytes ph) @ bs1 \<and>
      (presence AND kPhaseBit \<noteq> 0 \<longleftrightarrow> ph \<noteq> []) \<and> (ph = [] \<or> length ph = length mag)"
    by (rule read_optional_Some [OF assms(2)]) (simp_all add: setPhase_def t0 mag(1))
  then obtain ph where ph: "t1 = t0\<lparr>tr_phase := ph\<rparr>" "bs = concat (map u32_bytes ph) @ bs1"
    "presence AND kPhaseBit \<noteq> 0 \<longleftrightarrow> ph \<noteq> []" "ph = [] \<or> length ph = length mag"
    by blast
  have "\<exists>co. t = t1\<lparr>tr_coherence := co\<rparr> \<and> bs1 = concat (map u32_bytes co) @ [] \<and>
      (presence AND kCoherenceBit \<noteq> 0 \<longleftrightarrow> co \<noteq> []) \<and> (co = [] \<or> length co = length mag)"
    by (rule read_optional_Some [OF assms(3)]) (simp_all add: setCoherence_def t0 ph(1) mag(1))
  then obtain co where co: "t = t1\<lparr>tr_coherence := co\<rparr>" "bs1 = concat (map u32_bytes co)"
    "presence AND kCoherenceBit \<noteq> 0 \<longleftrightarrow> co \<noteq> []" "co = [] \<or> length co = length mag"
    by auto
  show ?thesis
    using ph(3,4) co(3,4) assms(4) mag
    by (simp add: Trace_ok_def presence_fits_def co(1,2) ph(1,2) t0)
qed

lemma read_body_Some:
  assumes "read_body meta bs = Some t"
  shows "Trace_ok t \<and> tr_meta t = meta \<and> pointCount t < 2 ^ 32 \<and> length (m_id meta) < 2 ^ 32 \<and>
         (\<exists>presence. presence_fits presence t \<and> map byte_of_char ''RTAT'' @ bs = blob_layout presence t)"
proof -
  obtain pc presence idLen b mag b1 t0 st where
    bs: "bs = u32_bytes pc @ u32_bytes presence @ u32_bytes idLen @ b" and
    pc: "unat pc = pointCountFor (m_fftSize meta)" and
    ident: "unat idLen \<le> length b" "map char_of_byte (take (unat idLen) b) = m_id meta" and
    mbit: "presence AND kMagnitudeBit \<noteq> 0" and
    mag: "drop (unat idLen) b = concat (map u32_bytes mag) @ b1" "length mag = unat pc" and
    t0: "Trace_make meta mag = Some t0" and
    st: "read_optional (presence AND kPhaseBit \<noteq> 0) setPhase (unat pc) (t0, b1) = Some st"
        "read_optional (presence AND kCoherenceBit \<noteq> 0) setCoherence (unat pc) st = Some (t, [])"
    using assms
    by (auto simp: read_body_def Option.bind_eq_Some_conv readU32_Some readFloats_Some not_less
          split: if_splits)
  have tail: "Trace_ok t" "tr_meta t = meta" "tr_magnitude t = mag" "presence_fits presence t"
    "b1 = concat (map u32_bytes (tr_phase t)) @ concat (map u32_bytes (tr_coherence t))"
    using read_tail [OF t0, of presence b1 "fst st" "snd st" t] st mbit mag(2) by auto
  have take: "take (unat idLen) b = map byte_of_char (m_id meta)"
    by (simp add: ident(2)[symmetric] comp_def)
  have idLen: "length (m_id meta) = unat idLen"
    using ident by (metis length_map length_take min.absorb2)
  moreover have "pc = word_of_nat (pointCount t)"
    using mag(2) tail(3) by (simp add: pointCount_def)
  moreover have "b = map byte_of_char (m_id meta) @ concat (map u32_bytes mag) @ b1"
    using append_take_drop_id [of "unat idLen" b] take mag(1) by simp
  ultimately have "map byte_of_char ''RTAT'' @ bs = blob_layout presence t"
    by (simp add: blob_layout_def bs tail)
  moreover have "pointCount t < 2 ^ 32" "length (m_id meta) < 2 ^ 32"
    using mag(2) tail(3) unsigned_less [of pc] unsigned_less [of idLen] by (simp_all add: pointCount_def idLen)
  ultimately show ?thesis
    using tail by blast
qed

lemma blob_layout_magic: "take 4 (blob_layout presence t) = map byte_of_char ''RTAT''"
  by (simp add: blob_layout_def)

lemma presence_of_fits: "Trace_ok t \<Longrightarrow> presence_fits (presence_of t) t"
  by (simp add: presence_fits_def presence_bits Trace_ok_def)

lemma decode_encode_blob:
  assumes "Trace_ok t" and "is_int32 (m_fftSize (tr_meta t))" and "length (m_id (tr_meta t)) < 2 ^ 32"
  shows "decodeTraceBlob (encodeTraceBlob t) (tr_meta t) out = (Ok, Some t)"
proof -
  have "4 \<le> length (encodeTraceBlob t)"
    by (simp add: encodeTraceBlob_layout blob_layout_def)
  then show ?thesis
    using read_body_layout [OF assms(1) presence_of_fits [OF assms(1)] pointCountFor_bound [OF assms(2)] assms(3)]
    by (simp add: decodeTraceBlob_def encodeTraceBlob_layout blob_layout_magic)
qed

section \<open>Properties\<close>

text \<open>
  Property C18: A stored trace round-trips bit for bit.  Decoding the blob of a well-formed trace
  against its own metadata gives Ok and that trace: the magnitude, phase and coherence that were there,
  the same float bits, and the absent ones still absent.
\<close>

theorem decodeTraceBlob_encodeTraceBlob:
  assumes "Trace_ok t" and "is_int32 (m_fftSize (tr_meta t))" and "length (m_id (tr_meta t)) < 2 ^ 32"
  shows "decodeTraceBlob (encodeTraceBlob t) (tr_meta t) out = (Ok, Some t)"
  using assms by (rule decode_encode_blob)

definition sample_trace :: Trace where
  "sample_trace = \<lparr>tr_meta = CaptureMeta_default\<lparr>m_id := ''capture-1'', m_fftSize := 4\<rparr>,
     tr_magnitude = [0xC2200000, 0xC1A00000, 0xC0000000], tr_phase = [0, 0x3F800000, 0x80000000],
     tr_coherence = []\<rparr>"

lemma sample_trace_ok:
  "Trace_ok sample_trace" "is_int32 (m_fftSize (tr_meta sample_trace))"
  "length (m_id (tr_meta sample_trace)) < 2 ^ 32"
  by (simp_all add: sample_trace_def Trace_ok_def pointCountFor_def is_int32_def CaptureMeta_default_def)

theorem decodeTraceBlob_encodeTraceBlob_witness:
  "Trace_ok sample_trace \<and>
   decodeTraceBlob (encodeTraceBlob sample_trace) (tr_meta sample_trace) None = (Ok, Some sample_trace)"
  using decodeTraceBlob_encodeTraceBlob [OF sample_trace_ok, of None] sample_trace_ok by simp

lemma blob_by_groups:
  "blob = blob_layout presence t \<longleftrightarrow>
     length blob = length (encodeTraceBlob t) \<and> take 8 blob = take 8 (encodeTraceBlob t) \<and>
     take 4 (drop 8 blob) = u32_bytes presence \<and> drop 12 blob = drop 12 (encodeTraceBlob t)"
proof -
  define front rest where "front = map byte_of_char ''RTAT'' @ u32_bytes (word_of_nat (pointCount t))"
    and "rest = u32_bytes (word_of_nat (length (m_id (tr_meta t)))) @ map byte_of_char (m_id (tr_meta t)) @
       concat (map u32_bytes (tr_magnitude t)) @ concat (map u32_bytes (tr_phase t)) @ concat (map u32_bytes (tr_coherence t))"
  have layout: "blob_layout q t = front @ u32_bytes q @ rest" "length front = 8" for q
    by (simp_all add: blob_layout_def front_def rest_def)
  have enc: "take 8 (encodeTraceBlob t) = front" "drop 12 (encodeTraceBlob t) = rest"
      "length (encodeTraceBlob t) = 12 + length rest"
    by (simp_all add: encodeTraceBlob_layout layout)
  have "blob = take 8 blob @ take 4 (drop 8 blob) @ drop 12 blob"
    using append_take_drop_id [of 8 blob] append_take_drop_id [of 4 "drop 8 blob"] by simp
  then have "take 8 blob = front \<Longrightarrow> take 4 (drop 8 blob) = u32_bytes presence \<Longrightarrow> drop 12 blob = rest \<Longrightarrow>
      blob = blob_layout presence t"
    unfolding layout(1) by metis
  moreover have "length (blob_layout presence t) = 12 + length rest" "take 8 (blob_layout presence t) = front"
    "take 4 (drop 8 (blob_layout presence t)) = u32_bytes presence" "drop 12 (blob_layout presence t) = rest"
    by (simp_all add: layout)
  ultimately show ?thesis
    unfolding enc by metis
qed

text \<open>
  Property C19: the decoder accepts the encodings, read with an open mind about the presence word, and nothing else.
  For any bytes and any metadata it says Ok with the trace \<open>t\<close> exactly if \<open>t\<close> is well formed and carries that
  metadata, its sizes fit their 32-bit fields, every byte before and after the presence word is the one the encoder
  writes for \<open>t\<close>, and the presence word has the magnitude bit, the phase bit just when \<open>t\<close> has a phase and the
  coherence bit just when it has a coherence; the 29 bits without a meaning are not looked at.  So a truncated blob,
  one with bytes left over, one with another id or point count and one whose planes do not match its presence word
  are all refused, and a refusal leaves the caller's slot as it was.
\<close>

theorem decodeTraceBlob_accepts_only_encodings:
  "(\<forall>t. decodeTraceBlob blob meta out = (Ok, Some t) \<longleftrightarrow>
      Trace_ok t \<and> tr_meta t = meta \<and> pointCount t < 2 ^ 32 \<and> length (m_id meta) < 2 ^ 32 \<and>
      length blob = length (encodeTraceBlob t) \<and> take 8 blob = take 8 (encodeTraceBlob t) \<and>
      (\<exists>presence. take 4 (drop 8 blob) = u32_bytes presence \<and> presence AND kMagnitudeBit \<noteq> 0 \<and>
         (presence AND kPhaseBit \<noteq> 0 \<longleftrightarrow> tr_phase t \<noteq> []) \<and> (presence AND kCoherenceBit \<noteq> 0 \<longleftrightarrow> tr_coherence t \<noteq> [])) \<and>
      drop 12 blob = drop 12 (encodeTraceBlob t)) \<and>
   ((\<exists>t. decodeTraceBlob blob meta out = (Ok, Some t)) \<or> decodeTraceBlob blob meta out = (Malformed, out))"
proof (intro conjI allI)
  fix t
  let ?shape = "Trace_ok t \<and> tr_meta t = meta \<and> pointCount t < 2 ^ 32 \<and> length (m_id meta) < 2 ^ 32 \<and>
      (\<exists>presence. presence_fits presence t \<and> blob = blob_layout presence t)"
  have "decodeTraceBlob blob meta out = (Ok, Some t) \<longleftrightarrow> ?shape"
  proof
    assume "decodeTraceBlob blob meta out = (Ok, Some t)"
    then have read: "read_body meta (drop 4 blob) = Some t" "take 4 blob = map byte_of_char ''RTAT''"
      by (auto simp: decodeTraceBlob_def split: if_splits option.splits)
    then show ?shape
      using read_body_Some [OF read(1)] append_take_drop_id [of 4 blob] by metis
  next
    assume shape: ?shape
    then obtain presence where presence: "presence_fits presence t" "blob = blob_layout presence t" by blast
    have "pointCountFor (m_fftSize (tr_meta t)) < 2 ^ 32" using shape by (auto simp: Trace_ok_def pointCount_def)
    then have "read_body meta (drop 4 blob) = Some t"
      using read_body_layout [of t presence] shape presence by simp
    then show "decodeTraceBlob blob meta out = (Ok, Some t)"
      using blob_layout_magic [of presence t] by (simp add: decodeTraceBlob_def presence(2)) (simp add: blob_layout_def)
  qed
  then show "decodeTraceBlob blob meta out = (Ok, Some t) \<longleftrightarrow>
      Trace_ok t \<and> tr_meta t = meta \<and> pointCount t < 2 ^ 32 \<and> length (m_id meta) < 2 ^ 32 \<and>
      length blob = length (encodeTraceBlob t) \<and> take 8 blob = take 8 (encodeTraceBlob t) \<and>
      (\<exists>presence. take 4 (drop 8 blob) = u32_bytes presence \<and> presence AND kMagnitudeBit \<noteq> 0 \<and>
         (presence AND kPhaseBit \<noteq> 0 \<longleftrightarrow> tr_phase t \<noteq> []) \<and> (presence AND kCoherenceBit \<noteq> 0 \<longleftrightarrow> tr_coherence t \<noteq> [])) \<and>
      drop 12 blob = drop 12 (encodeTraceBlob t)"
    unfolding blob_by_groups presence_fits_def by blast
next
  show "(\<exists>t. decodeTraceBlob blob meta out = (Ok, Some t)) \<or> decodeTraceBlob blob meta out = (Malformed, out)"
    by (auto simp: decodeTraceBlob_def split: option.splits)
qed

end
