(* ===== verification/Session_Store.thy ===== *)
theory Session_Store
  imports Trace_Blob
begin

text \<open>
  The session on disk (\<^verbatim>\<open>app/src/trace/SessionStore.cpp\<close>).  The file system is a map from paths to bytes,
  changed by the calls the code makes; every call has an outcome of its own: it succeeds, it fails after
  some of its effect, or the process dies in it.  The outcomes are an argument, so a statement about all
  of them covers full disks, lost handles and power cuts.  A write reaches the disk as a prefix of its
  bytes; a rename happens or does not, as POSIX promises.
\<close>

section \<open>The file system\<close>

type_synonym path = string
type_synonym files = "path \<Rightarrow> byte list option"

datatype outcome = Done | Fails nat | Dies nat

datatype fs_op =
    CreateDirectories path
  | OpenTrunc path
  | WriteClose path "byte list"
  | Rename path path
  | Remove path

text \<open>The effect of a call of which \<open>n\<close> bytes (or, for the atomic ones, none or all) got through.\<close>

fun partial_effect :: "nat \<Rightarrow> fs_op \<Rightarrow> files \<Rightarrow> files" where
  "partial_effect n (CreateDirectories p) fs = fs"
| "partial_effect n (OpenTrunc p) fs = (if n = 0 then fs else fs(p \<mapsto> []))"
| "partial_effect n (WriteClose p bs) fs = fs(p \<mapsto> take n bs)"
| "partial_effect n (Rename p q) fs = (if n = 0 then fs else fs(q := fs p, p := None))"
| "partial_effect n (Remove p) fs = (if n = 0 then fs else fs(p := None))"

fun full_effect :: "fs_op \<Rightarrow> files \<Rightarrow> files" where
  "full_effect (CreateDirectories p) fs = fs"
| "full_effect (OpenTrunc p) fs = fs(p \<mapsto> [])"
| "full_effect (WriteClose p bs) fs = fs(p \<mapsto> bs)"
| "full_effect (Rename p q) fs = fs(q := fs p, p := None)"
| "full_effect (Remove p) fs = fs(p := None)"

text \<open>A rename or a removal that reports an error has not happened.\<close>

fun failed_effect :: "nat \<Rightarrow> fs_op \<Rightarrow> files \<Rightarrow> files" where
  "failed_effect n (Rename p q) fs = fs"
| "failed_effect n (Remove p) fs = fs"
| "failed_effect n call fs = partial_effect n call fs"

text \<open>
  One call: what to do when it succeeds and when it reports an error.  \<open>None\<close> as the status is a
  process that died.
\<close>

datatype StoreStatus = StoreOk | NotFound | StoreMalformed | StoreNewerSchema | IoError

type_synonym outcomes = "nat \<Rightarrow> outcome"

definition fs_call ::
  "outcome \<Rightarrow> fs_op \<Rightarrow> (files \<Rightarrow> files \<times> StoreStatus option) \<Rightarrow> (files \<Rightarrow> files \<times> StoreStatus option) \<Rightarrow>
     files \<Rightarrow> files \<times> StoreStatus option" where
  "fs_call oc call on_error on_ok fs =
     (case oc of
        Done \<Rightarrow> on_ok (full_effect call fs)
      | Fails n \<Rightarrow> on_error (failed_effect n call fs)
      | Dies n \<Rightarrow> (partial_effect n call fs, None))"

section \<open>Paths\<close>

text \<open>\<^verbatim>\<open>operator/\<close> of \<^verbatim>\<open>std::filesystem::path\<close>: an absolute right side replaces the left one.\<close>

definition path_div :: "path \<Rightarrow> string \<Rightarrow> path" where
  "path_div p s = (if s \<noteq> [] \<and> hd s = CHR ''/'' then s else p @ ''/'' @ s)"

definition kIndexName :: string where "kIndexName = ''session.index''"
definition kIndexTmpName :: string where "kIndexTmpName = ''session.index.tmp''"
definition kTracesDirName :: string where "kTracesDirName = ''traces''"
definition kTraceBlobExt :: string where "kTraceBlobExt = ''.bin''"
definition kTraceBlobTmpExt :: string where "kTraceBlobTmpExt = ''.bin.tmp''"
definition kMaxTraceIdLength :: nat where "kMaxTraceIdLength = 128"

text \<open>\<^verbatim>\<open>std::isalnum\<close> in the C locale, or an underscore or a hyphen.\<close>

definition is_alnum :: "char \<Rightarrow> bool" where
  "is_alnum c \<longleftrightarrow>
     (let n = (of_char c :: nat) in 48 \<le> n \<and> n \<le> 57 \<or> 65 \<le> n \<and> n \<le> 90 \<or> 97 \<le> n \<and> n \<le> 122)"

definition isValidTraceId :: "string \<Rightarrow> bool" where
  "isValidTraceId ident \<longleftrightarrow>
     \<not> (ident = [] \<or> length ident > kMaxTraceIdLength) \<and>
     list_all (\<lambda>c. is_alnum c \<or> c = CHR ''_'' \<or> c = CHR ''-'') ident"

fun fromDecodeStatus :: "DecodeStatus \<Rightarrow> StoreStatus" where
  "fromDecodeStatus Ok = StoreOk"
| "fromDecodeStatus Malformed = StoreMalformed"
| "fromDecodeStatus NewerSchema = StoreNewerSchema"

definition traceBlobPath :: "path \<Rightarrow> string \<Rightarrow> path" where
  "traceBlobPath root ident = path_div (path_div root kTracesDirName) (ident @ kTraceBlobExt)"

definition traceBlobTmpPath :: "path \<Rightarrow> string \<Rightarrow> path" where
  "traceBlobTmpPath root ident = path_div (path_div root kTracesDirName) (ident @ kTraceBlobTmpExt)"

section \<open>The store\<close>

definition SessionStore_writeIndex ::
  "outcomes \<Rightarrow> float_charconv \<Rightarrow> path \<Rightarrow> SessionDocument \<Rightarrow> files \<Rightarrow> files \<times> StoreStatus option" where
  "SessionStore_writeIndex os cc root doc fs =
     (let tmpPath = path_div root kIndexTmpName;
          finalPath = path_div root kIndexName;
          stamped = doc\<lparr>schemaVersion := kSchemaVersion\<rparr>;
          io_error = (\<lambda>fs. (fs, Some IoError))
      in fs_call (os 0) (CreateDirectories root) io_error
           (fs_call (os 1) (OpenTrunc tmpPath) io_error
             (fs_call (os 2) (WriteClose tmpPath (map byte_of_char (encodeIndex cc stamped))) io_error
               (fs_call (os 3) (Rename tmpPath finalPath) io_error
                 (\<lambda>fs. (fs, Some StoreOk))))) fs)"

text \<open>Opening for reading may fail, which the code reports as not found.\<close>

definition SessionStore_readIndex ::
  "bool \<Rightarrow> float_charconv \<Rightarrow> path \<Rightarrow> files \<Rightarrow> SessionDocument \<Rightarrow> StoreStatus \<times> SessionDocument" where
  "SessionStore_readIndex opens cc root fs out =
     (case fs (path_div root kIndexName) of
        None \<Rightarrow> (NotFound, out)
      | Some content \<Rightarrow>
          if \<not> opens then (NotFound, out)
          else let (st, out') = decodeIndex cc (map char_of_byte content) None out
               in (fromDecodeStatus st, out'))"

definition writeTrace ::
  "outcomes \<Rightarrow> path \<Rightarrow> Trace \<Rightarrow> files \<Rightarrow> files \<times> StoreStatus option" where
  "writeTrace os root t fs =
     (let ident = m_id (tr_meta t) in
      if \<not> isValidTraceId ident then (fs, Some StoreMalformed)
      else
        let tracesDir = path_div root kTracesDirName;
            finalPath = traceBlobPath root ident;
            tmpPath = traceBlobTmpPath root ident;
            blob = encodeTraceBlob t;
            io_error = (\<lambda>fs. (fs, Some IoError));
            cleanup = fs_call (os 4) (Remove tmpPath) io_error io_error
        in fs_call (os 0) (CreateDirectories tracesDir) io_error
             (fs_call (os 1) (OpenTrunc tmpPath) cleanup
               (fs_call (os 2) (WriteClose tmpPath blob) cleanup
                 (fs_call (os 3) (Rename tmpPath finalPath) cleanup
                   (\<lambda>fs. (fs, Some StoreOk))))) fs)"

text \<open>\<open>opens\<close>, \<open>sized\<close> and \<open>reads_all\<close>: whether the stream opens, reports its size and delivers it.\<close>

definition readTrace ::
  "bool \<Rightarrow> bool \<Rightarrow> bool \<Rightarrow> path \<Rightarrow> CaptureMeta \<Rightarrow> files \<Rightarrow> Trace option \<Rightarrow> StoreStatus \<times> Trace option" where
  "readTrace opens sized reads_all root meta fs out =
     (if \<not> isValidTraceId (m_id meta) then (StoreMalformed, out)
      else case fs (traceBlobPath root (m_id meta)) of
             None \<Rightarrow> (NotFound, out)
           | Some blob \<Rightarrow>
               if \<not> opens then (NotFound, out)
               else if \<not> sized then (IoError, out)
               else if blob \<noteq> [] \<and> \<not> reads_all then (IoError, out)
               else let (st, out') = decodeTraceBlob blob meta out in (fromDecodeStatus st, out'))"

section \<open>Commit by rename\<close>

text \<open>
  Both writers have one shape: fill a temporary file, then rename it over the final one.  What that
  shape guarantees under every outcome is proved once, for any way of cleaning up that touches only the
  temporary file.
\<close>

lemmas fs_effects = partial_effect.simps full_effect.simps failed_effect.simps

definition commit_write ::
  "outcomes \<Rightarrow> path \<Rightarrow> path \<Rightarrow> path \<Rightarrow> byte list \<Rightarrow> (files \<Rightarrow> files \<times> StoreStatus option) \<Rightarrow>
     files \<Rightarrow> files \<times> StoreStatus option" where
  "commit_write os dir tmp final bs cleanup =
     fs_call (os 0) (CreateDirectories dir) (\<lambda>fs. (fs, Some IoError))
       (fs_call (os 1) (OpenTrunc tmp) cleanup
         (fs_call (os 2) (WriteClose tmp bs) cleanup
           (fs_call (os 3) (Rename tmp final) cleanup
             (\<lambda>fs. (fs, Some StoreOk)))))"

locale commit =
  fixes tmp final :: path
    and cleanup :: "files \<Rightarrow> files \<times> StoreStatus option"
  assumes distinct_paths: "tmp \<noteq> final"
    and cleanup_frame: "p \<noteq> tmp \<Longrightarrow> fst (cleanup fs) p = fs p"
    and cleanup_status: "snd (cleanup fs) \<noteq> Some StoreOk"
begin

lemma commit_frame:
  "p \<noteq> tmp \<Longrightarrow> p \<noteq> final \<Longrightarrow> fst (commit_write os dir tmp final bs cleanup fs) p = fs p"
  by (auto simp: commit_write_def fs_call_def cleanup_frame split: outcome.split)

lemma commit_all_or_nothing:
  "fst (commit_write os dir tmp final bs cleanup fs) final = fs final \<or>
   fst (commit_write os dir tmp final bs cleanup fs) final = Some bs"
  using distinct_paths
  by (auto simp: commit_write_def fs_call_def cleanup_frame split: outcome.split)

lemma commit_ok:
  "snd (commit_write os dir tmp final bs cleanup fs) = Some StoreOk \<Longrightarrow>
     fst (commit_write os dir tmp final bs cleanup fs) final = Some bs \<and>
     fst (commit_write os dir tmp final bs cleanup fs) tmp = None"
  using distinct_paths cleanup_status
  by (auto simp: commit_write_def fs_call_def split: outcome.splits)

lemma commit_error:
  "snd (commit_write os dir tmp final bs cleanup fs) = Some IoError \<Longrightarrow>
     fst (commit_write os dir tmp final bs cleanup fs) final = fs final"
  using distinct_paths
  by (auto simp: commit_write_def fs_call_def cleanup_frame split: outcome.splits)

end

lemma path_div_name: "s \<noteq> [] \<Longrightarrow> hd s \<noteq> CHR ''/'' \<Longrightarrow> path_div p s = p @ ''/'' @ s"
  by (simp add: path_div_def)

lemma index_paths:
  "path_div root kIndexTmpName = root @ ''/session.index.tmp''"
  "path_div root kIndexName = root @ ''/session.index''"
  by (simp_all add: path_div_name kIndexTmpName_def kIndexName_def)

lemma blob_paths_differ: "traceBlobTmpPath root ident \<noteq> traceBlobPath root ident"
  by (simp add: traceBlobTmpPath_def traceBlobPath_def path_div_def kTraceBlobTmpExt_def kTraceBlobExt_def)

interpretation index_commit: commit "path_div root kIndexTmpName" "path_div root kIndexName"
  "\<lambda>fs. (fs, Some IoError)" for root
  by unfold_locales (simp_all add: index_paths)

interpretation trace_commit: commit "traceBlobTmpPath root ident" "traceBlobPath root ident"
  "fs_call (os 4) (Remove (traceBlobTmpPath root ident)) (\<lambda>fs. (fs, Some IoError)) (\<lambda>fs. (fs, Some IoError))"
  for root ident and os :: outcomes
  by unfold_locales (simp_all add: blob_paths_differ fs_call_def split: outcome.split)

lemma writeIndex_commit:
  "SessionStore_writeIndex os cc root doc fs =
     commit_write os root (path_div root kIndexTmpName) (path_div root kIndexName)
       (map byte_of_char (encodeIndex cc (doc\<lparr>schemaVersion := kSchemaVersion\<rparr>)))
       (\<lambda>fs. (fs, Some IoError)) fs"
  by (simp add: SessionStore_writeIndex_def commit_write_def Let_def)

lemma writeTrace_commit:
  "isValidTraceId (m_id (tr_meta t)) \<Longrightarrow>
   writeTrace os root t fs =
     commit_write os (path_div root kTracesDirName) (traceBlobTmpPath root (m_id (tr_meta t)))
       (traceBlobPath root (m_id (tr_meta t))) (encodeTraceBlob t)
       (fs_call (os 4) (Remove (traceBlobTmpPath root (m_id (tr_meta t))))
          (\<lambda>fs. (fs, Some IoError)) (\<lambda>fs. (fs, Some IoError))) fs"
  by (simp add: writeTrace_def commit_write_def Let_def)

section \<open>Paths stay apart\<close>

lemma valid_chars:
  assumes "isValidTraceId ident"
  shows "ident \<noteq> []" "CHR ''/'' \<notin> set ident" "backslash \<notin> set ident" "CHR ''.'' \<notin> set ident"
  using assms by (auto simp: isValidTraceId_def list_all_iff is_alnum_def Let_def)

lemma blob_paths:
  assumes "isValidTraceId ident"
  shows "traceBlobPath root ident = root @ ''/traces/'' @ ident @ ''.bin''"
    and "traceBlobTmpPath root ident = root @ ''/traces/'' @ ident @ ''.bin.tmp''"
proof -
  have "hd ident \<noteq> CHR ''/''" "ident \<noteq> []"
    using valid_chars [OF assms] by (metis list.set_sel(1), simp)
  then show "traceBlobPath root ident = root @ ''/traces/'' @ ident @ ''.bin''"
    and "traceBlobTmpPath root ident = root @ ''/traces/'' @ ident @ ''.bin.tmp''"
    by (simp_all add: traceBlobPath_def traceBlobTmpPath_def path_div_name kTracesDirName_def
          kTraceBlobExt_def kTraceBlobTmpExt_def)
qed

lemma suffix_clash: "i @ ''.bin.tmp'' \<noteq> j @ ''.bin''"
proof
  assume "i @ ''.bin.tmp'' = j @ ''.bin''"
  then have "last (i @ ''.bin.tmp'') = last (j @ ''.bin'')"
    by (rule arg_cong)
  then show False
    by simp
qed

lemma blob_paths_apart:
  assumes "isValidTraceId i" and "isValidTraceId j" and "i \<noteq> j"
  shows "traceBlobPath root j \<noteq> traceBlobPath root i" "traceBlobPath root j \<noteq> traceBlobTmpPath root i"
  using assms suffix_clash [of i j] by (auto simp: blob_paths)

lemma blob_index_apart:
  assumes "isValidTraceId i"
  shows "path_div root kIndexName \<noteq> traceBlobPath root i" "path_div root kIndexName \<noteq> traceBlobTmpPath root i"
  using assms by (simp_all add: blob_paths index_paths)

section \<open>Properties\<close>

text \<open>
  Property C17: An interrupted save costs nothing that was saved.  The index on disk was written by an
  earlier \<open>SessionStore_writeIndex\<close>; then whatever happens to the calls of a new one, failures, torn writes or the
  death of the process at any point, opening the session afterwards gives either the earlier document
  whole or the new one whole: the new one whenever the call reports Ok, the earlier one whenever it
  reports an error.
\<close>

theorem writeIndex_crash_safe:
  fixes doc0 doc :: SessionDocument
  defines "stamp \<equiv> \<lambda>d. d\<lparr>schemaVersion := kSchemaVersion\<rparr>"
  assumes cc: "charconv_exact cc" and ok: "SessionDocument_ok doc0" "SessionDocument_ok doc"
    and old: "fs (path_div root kIndexName) = Some (map byte_of_char (encodeIndex cc (stamp doc0)))"
    and run: "SessionStore_writeIndex os cc root doc fs = (fs', st)"
  shows "SessionStore_readIndex True cc root fs' out = (StoreOk, bind_routing None (stamp doc0)) \<and> st \<noteq> Some StoreOk \<or>
         SessionStore_readIndex True cc root fs' out = (StoreOk, bind_routing None (stamp doc)) \<and> st \<noteq> Some IoError"
proof -
  let ?final = "path_div root kIndexName" and ?tmp = "path_div root kIndexTmpName"
  let ?new = "map byte_of_char (encodeIndex cc (stamp doc))"
  have reads: "SessionStore_readIndex True cc root fs' out = (StoreOk, bind_routing None (stamp d))"
    if "fs' ?final = Some (map byte_of_char (encodeIndex cc (stamp d)))" "SessionDocument_ok d" for d
  proof -
    have "SessionDocument_ok (stamp d)"
      using that(2) by (simp add: SessionDocument_ok_def stamp_def is_int32_def kSchemaVersion_def)
    with that(1) cc show ?thesis
      by (simp add: SessionStore_readIndex_def decode_encode_index stamp_def)
  qed
  have run': "commit_write os root ?tmp ?final ?new (\<lambda>fs. (fs, Some IoError)) fs = (fs', st)"
    using run by (simp add: writeIndex_commit stamp_def)
  note facts = index_commit.commit_all_or_nothing [of os root root ?new fs]
    index_commit.commit_ok [of os root root ?new fs] index_commit.commit_error [of os root root ?new fs]
  show ?thesis
    using facts old reads [of doc0] reads [of doc] ok unfolding run' by auto
qed

definition sample_disk :: files where
  "sample_disk = (\<lambda>_. None)(path_div ''s'' kIndexName \<mapsto>
     map byte_of_char (encodeIndex sample_charconv (sample_document\<lparr>schemaVersion := kSchemaVersion\<rparr>)))"

text \<open>The power goes three bytes into the temporary file.\<close>

theorem writeIndex_crash_safe_witness:
  "let doc = sample_document\<lparr>panes := []\<rparr>;
       (fs', st) = SessionStore_writeIndex (\<lambda>i. if i = 2 then Dies 3 else Done) sample_charconv ''s'' doc sample_disk
   in st = None \<and>
      fst (SessionStore_readIndex True sample_charconv ''s'' fs' SessionDocument_default) = StoreOk"
proof -
  let ?os = "\<lambda>i :: nat. if i = 2 then Dies 3 else Done"
  let ?run = "SessionStore_writeIndex ?os sample_charconv ''s'' (sample_document\<lparr>panes := []\<rparr>) sample_disk"
  have ok: "SessionDocument_ok (sample_document\<lparr>panes := []\<rparr>)"
    using sample_document_ok by (simp add: SessionDocument_ok_def)
  have died: "snd ?run = None"
    by (simp add: SessionStore_writeIndex_def fs_call_def Let_def)
  obtain fs' st where run: "?run = (fs', st)"
    by fastforce
  moreover have "fst (SessionStore_readIndex True sample_charconv ''s'' fs' SessionDocument_default) = StoreOk"
    using writeIndex_crash_safe [OF sample_charconv_exact sample_document_ok ok _ run, of SessionDocument_default]
    by (auto simp: sample_disk_def)
  ultimately show ?thesis
    using died by (simp add: Let_def)
qed

text \<open>
  Property C20: Storing a trace touches that trace only.  Under every outcome of its calls, including
  the death of the process, the index and every trace with another id read as before; and an id that
  could leave the directory, one with a separator, a dot or no character at all, is refused before any
  file is touched.
\<close>

theorem writeTrace_isolated:
  assumes "writeTrace os root t fs = (fs', st)"
  shows "SessionStore_readIndex opens cc root fs' doc = SessionStore_readIndex opens cc root fs doc \<and>
         (\<forall>meta out. m_id meta \<noteq> m_id (tr_meta t) \<longrightarrow>
            readTrace opens sized all root meta fs' out = readTrace opens sized all root meta fs out) \<and>
         (\<not> isValidTraceId (m_id (tr_meta t)) \<longrightarrow> fs' = fs \<and> st = Some StoreMalformed)"
proof (cases "isValidTraceId (m_id (tr_meta t))")
  case False
  then show ?thesis
    using assms by (simp add: writeTrace_def)
next
  case True
  let ?i = "m_id (tr_meta t)"
  have frame: "fs' p = fs p" if "p \<noteq> traceBlobTmpPath root ?i" "p \<noteq> traceBlobPath root ?i" for p
    using trace_commit.commit_frame [OF that, of os "path_div root kTracesDirName" "encodeTraceBlob t" os fs]
      assms by (simp add: writeTrace_commit [OF True])
  have "fs' (path_div root kIndexName) = fs (path_div root kIndexName)"
    using blob_index_apart [OF True] by (intro frame)
  moreover have "fs' (traceBlobPath root j) = fs (traceBlobPath root j)"
    if "isValidTraceId j" "j \<noteq> ?i" for j
    using blob_paths_apart [OF True that(1)] that(2) by (intro frame) auto
  ultimately show ?thesis
    using True by (auto simp: SessionStore_readIndex_def readTrace_def)
qed

theorem writeTrace_isolated_witness:
  "let (fs', st) = writeTrace (\<lambda>i. if i = 3 then Dies 0 else Done) ''s'' sample_trace sample_disk
   in SessionStore_readIndex True sample_charconv ''s'' fs' SessionDocument_default =
      SessionStore_readIndex True sample_charconv ''s'' sample_disk SessionDocument_default"
  using writeTrace_isolated [of "\<lambda>i. if i = 3 then Dies 0 else Done" "''s''" sample_trace sample_disk
      "fst (writeTrace (\<lambda>i. if i = 3 then Dies 0 else Done) ''s'' sample_trace sample_disk)"
      "snd (writeTrace (\<lambda>i. if i = 3 then Dies 0 else Done) ''s'' sample_trace sample_disk)"
      True sample_charconv SessionDocument_default]
  by (simp add: case_prod_unfold)

text \<open>
  A trace is stored whole or not at all.  Under every outcome of the calls of
  \<open>writeTrace\<close>, reading that trace afterwards gives the trace itself, bit for bit, or exactly what
  reading it gave before; the trace itself whenever the call reports Ok, what was there before whenever
  it reports an error.
\<close>

theorem writeTrace_all_or_nothing:
  assumes ok: "Trace_ok t" "is_int32 (m_fftSize (tr_meta t))"
    and run: "writeTrace os root t fs = (fs', st)"
  shows "readTrace True True True root (tr_meta t) fs' out = (StoreOk, Some t) \<and> st \<noteq> Some IoError \<or>
         readTrace True True True root (tr_meta t) fs' out = readTrace True True True root (tr_meta t) fs out \<and>
           st \<noteq> Some StoreOk"
proof (cases "isValidTraceId (m_id (tr_meta t))")
  case False
  then show ?thesis
    using run by (auto simp: writeTrace_def)
next
  case True
  let ?p = "traceBlobPath root (m_id (tr_meta t))" and ?dir = "path_div root kTracesDirName"
  have "length (m_id (tr_meta t)) < 2 ^ 32"
    using True by (simp add: isValidTraceId_def kMaxTraceIdLength_def)
  then have "readTrace True True True root (tr_meta t) fs' out = (StoreOk, Some t)"
    if "fs' ?p = Some (encodeTraceBlob t)"
    using that True ok by (simp add: readTrace_def decode_encode_blob)
  moreover have "readTrace True True True root (tr_meta t) fs' out =
      readTrace True True True root (tr_meta t) fs out" if "fs' ?p = fs ?p"
    using that by (simp add: readTrace_def)
  moreover note trace_commit.commit_all_or_nothing [of os ?dir root "m_id (tr_meta t)" "encodeTraceBlob t" os fs]
    trace_commit.commit_ok [of os ?dir root "m_id (tr_meta t)" "encodeTraceBlob t" os fs]
    trace_commit.commit_error [of os ?dir root "m_id (tr_meta t)" "encodeTraceBlob t" os fs]
  ultimately show ?thesis
    using run unfolding writeTrace_commit [OF True] by auto
qed

theorem writeTrace_all_or_nothing_witness:
  "Trace_ok sample_trace \<and>
   (let (fs', st) = writeTrace (\<lambda>_. Done) ''s'' sample_trace sample_disk
    in st = Some StoreOk \<and>
       readTrace True True True ''s'' (tr_meta sample_trace) fs' None = (StoreOk, Some sample_trace))"
proof -
  let ?run = "writeTrace (\<lambda>_. Done) ''s'' sample_trace sample_disk"
  have "snd ?run = Some StoreOk"
    by (simp add: writeTrace_def fs_call_def Let_def sample_trace_def CaptureMeta_default_def
          isValidTraceId_def is_alnum_def kMaxTraceIdLength_def)
  then obtain fs' where run: "?run = (fs', Some StoreOk)"
    by (metis prod.collapse)
  then show ?thesis
    using writeTrace_all_or_nothing [OF sample_trace_ok(1,2) run, of None] sample_trace_ok(1) by simp
qed

end
