(* ===== verification/Report_Payload.thy ===== *)
theory Report_Payload
  imports Calibration_Flow Spl_Log_Writer Spl_Channel Session_Store Doubles
begin

text \<open>
  What a report is made of (\<^verbatim>\<open>app/src/export/SplReportPayloadBuilder.cpp\<close>): the log segments of a session folder read
  back in order, the calibration record next to them, the level of the whole session, the history and its markers.
\<close>

section \<open>Numbers read from a file\<close>

text \<open>
  The value of a finite \<^verbatim>\<open>double\<close> and \<^verbatim>\<open>float\<close> by its bits.  Bits of an infinity or a NaN have no value here: what is
  proved of a report asks for finite numbers in its files.
\<close>

definition is_finite64 :: "64 word \<Rightarrow> bool" where
  "is_finite64 b \<longleftrightarrow> take_bit 11 (drop_bit 52 b) \<noteq> 2 ^ 11 - 1"

definition is_finite32 :: "32 word \<Rightarrow> bool" where
  "is_finite32 b \<longleftrightarrow> take_bit 8 (drop_bit 23 b) \<noteq> 2 ^ 8 - 1"

definition double_value :: "64 word \<Rightarrow> real" where
  "double_value b =
     (let e = unat (take_bit 11 (drop_bit 52 b)); m = unat (take_bit 52 b);
          magnitude = (if e = 0 then real m / 2 ^ 1074 else real (2 ^ 52 + m) * 2 ^ e / 2 ^ 1075)
      in if bit b 63 then - magnitude else magnitude)"

definition float_value :: "32 word \<Rightarrow> real" where
  "float_value b =
     (let e = unat (take_bit 8 (drop_bit 23 b)); m = unat (take_bit 23 b);
          magnitude = (if e = 0 then real m / 2 ^ 149 else real (2 ^ 23 + m) * 2 ^ e / 2 ^ 150)
      in if bit b 31 then - magnitude else magnitude)"

definition block_of_row :: "LogBlock \<Rightarrow> Block" where
  "block_of_row b =
     \<lparr>blockIndex = lb_blockIndex b, blk_samples = lb_blockSamples b, blk_dropped = lb_droppedSamples b,
      blk_sumSquares = double_value (lb_sumSquares b), blk_maxFastDb = float_value (lb_maxFastDb b),
      blk_maxSlowDb = float_value (lb_maxSlowDb b), blk_peakDb = float_value (lb_peakDb b), blk_flags = lb_flags b\<rparr>"

definition value_check :: "64 word CalibrationCheck \<Rightarrow> real CalibrationCheck" where
  "value_check c =
     \<lparr>ck_level = \<lparr>cl_nominalDb = double_value (cl_nominalDb (ck_level c)), cl_operatorSupplied = cl_operatorSupplied (ck_level c)\<rparr>,
      ck_measuredLevelDb = double_value (ck_measuredLevelDb c), ck_offsetDb = double_value (ck_offsetDb c), ck_unixMs = ck_unixMs c\<rparr>"

definition value_fields :: "64 word CalibrationReportFields \<Rightarrow> real CalibrationReportFields" where
  "value_fields f =
     \<lparr>rf_performed = rf_performed f, rf_start = value_check (rf_start f), rf_end = value_check (rf_end f),
      rf_driftDb = double_value (rf_driftDb f), rf_verdict = rf_verdict f, rf_clause = rf_clause f\<rparr>"

section \<open>The payload\<close>

record ReportMetricResult =
  me_id :: string
  me_weighting :: WeightingType
  me_detector :: TimeWeighting
  me_intervalSeconds :: real
  me_leqDb :: "real option"
  me_lmaxDb :: "real option"
  me_lminDb :: "real option"
  me_lpeakDb :: "real option"
  me_selDb :: "real option"
  me_lnDb :: "real option list"
  me_lnPercents :: "real list"

record ReportDoseResult =
  dr_label :: string
  dr_settings :: DoseSettings
  dr_percent :: "real option"
  dr_projectedPercent :: "real option"
  dr_elapsedSeconds :: real
  dr_twaDb :: "real option"
  dr_exposureLevel8hDb :: "real option"

record ReportAlarmResult =
  ar_metricId :: string
  ar_limitDb :: real
  ar_windowBlocks :: uint64_t
  ar_state :: SplAlarmState
  ar_headroomDb :: "real option"

record ReportValidity =
  va_totalBlocks :: uint64_t
  va_excludedBlocks :: uint64_t
  va_overloadBlocks :: uint64_t
  va_underRangeBlocks :: uint64_t
  va_droppedBlocks :: uint64_t
  va_gapBlocks :: uint64_t
  va_droppedSamplesTotal :: uint64_t
  va_refusedMetrics :: uint32_t
  va_segmentPaths :: "string list"
  va_bytesDiscarded :: uint64_t
  va_lnDoseAlarmFromLiveSession :: bool
  va_excludedBlockRange :: "(uint64_t \<times> uint64_t) option"

record ReportHistorySeries =
  hs_metricId :: string
  hs_points :: "(uint64_t \<times> double) list"

record ReportPayload =
  rp_venue :: string
  rp_event :: string
  rp_operatorName :: string
  rp_company :: string
  rp_engineer :: string
  rp_productionCompany :: string
  rp_notes :: string
  rp_appName :: string
  rp_appVersion :: string
  rp_buildId :: string
  rp_device :: string
  rp_channel :: string
  rp_sampleRate :: real
  rp_calibration :: "real CalibrationReportFields"
  rp_calibrationChannelRefusal :: CalibrationRecordRefusal
  rp_calibrationOffsetApplied :: bool
  rp_config :: SplConfig
  rp_alarms :: "ReportAlarmResult list"
  rp_metrics :: "ReportMetricResult list"
  rp_dose :: "ReportDoseResult list"
  rp_history :: "ReportHistorySeries list"
  rp_markers :: "SplMarker list"
  rp_validity :: ReportValidity
  rp_logSegments :: "string list"

definition ReportMetricResult_default :: ReportMetricResult where
  "ReportMetricResult_default =
     \<lparr>me_id = [], me_weighting = WeightA, me_detector = Fast, me_intervalSeconds = 0, me_leqDb = None, me_lmaxDb = None,
      me_lminDb = None, me_lpeakDb = None, me_selDb = None, me_lnDb = replicate 6 None, me_lnPercents = replicate 6 0\<rparr>"

definition ReportDoseResult_default :: ReportDoseResult where
  "ReportDoseResult_default =
     \<lparr>dr_label = [], dr_settings = DoseSettings_default, dr_percent = None, dr_projectedPercent = None, dr_elapsedSeconds = 0,
      dr_twaDb = None, dr_exposureLevel8hDb = None\<rparr>"

definition ReportValidity_default :: ReportValidity where
  "ReportValidity_default =
     \<lparr>va_totalBlocks = 0, va_excludedBlocks = 0, va_overloadBlocks = 0, va_underRangeBlocks = 0, va_droppedBlocks = 0,
      va_gapBlocks = 0, va_droppedSamplesTotal = 0, va_refusedMetrics = 0, va_segmentPaths = [], va_bytesDiscarded = 0,
      va_lnDoseAlarmFromLiveSession = False, va_excludedBlockRange = None\<rparr>"

definition ReportPayload_default :: ReportPayload where
  "ReportPayload_default =
     \<lparr>rp_venue = [], rp_event = [], rp_operatorName = [], rp_company = [], rp_engineer = [], rp_productionCompany = [],
      rp_notes = [], rp_appName = [], rp_appVersion = [], rp_buildId = [], rp_device = [], rp_channel = [], rp_sampleRate = 0,
      rp_calibration = CalibrationReportFields_default, rp_calibrationChannelRefusal = NoRefusal,
      rp_calibrationOffsetApplied = True, rp_config = SplConfig_default, rp_alarms = [], rp_metrics = [],
      rp_dose = replicate 2 ReportDoseResult_default, rp_history = [], rp_markers = [], rp_validity = ReportValidity_default,
      rp_logSegments = []\<rparr>"

definition SplMarker_default :: SplMarker where
  "SplMarker_default =
     \<lparr>mk_blockIndex = 0, mk_kind = MarkerNote, mk_direction = 0, mk_quantity = [], mk_metricIndex = None, mk_window = 0, mk_value = 0\<rparr>"

section \<open>The segments of a channel\<close>

text \<open>\<^verbatim>\<open>std::stoull\<close> on digits; \<open>None\<close> is its \<^verbatim>\<open>std::out_of_range\<close>.\<close>

definition stoull :: "string \<Rightarrow> nat option" where
  "stoull ds = (if decimal_value ds < 2 ^ 64 then Some (decimal_value ds) else None)"

text \<open>The outer \<open>None\<close> is an exception, the inner one a name that is not a segment's.\<close>

definition parseGenSeg :: "string \<Rightarrow> string \<Rightarrow> (nat \<times> nat) option option" where
  "parseGenSeg name basename =
     (let start = basename @ ''.gen''
      in if take (length start) name \<noteq> start then Some None
         else
           let rest = drop (length start) name; genDigits = takeWhile is_digit rest
           in if genDigits = [] then Some None
              else case stoull genDigits of
                     None \<Rightarrow> None
                   | Some gen \<Rightarrow>
                       (let rest = dropWhile is_digit rest
                        in if take 4 rest \<noteq> ''.seg'' then Some None
                           else
                             let rest = drop 4 rest; segDigits = takeWhile is_digit rest
                             in if segDigits = [] then Some None
                                else case stoull segDigits of
                                       None \<Rightarrow> None
                                     | Some seg \<Rightarrow> if dropWhile is_digit rest \<noteq> ''.csv'' then Some None else Some (Some (gen, seg))))"

text \<open>A name whose number does not fit stops the whole export instead of being skipped.\<close>

lemma stray_name_aborts: "parseGenSeg ''ch0.gen99999999999999999999.seg0.csv'' ''ch0'' = None"
  by (simp add: parseGenSeg_def stoull_def decimal_value_def is_digit_def Let_def)

record ChannelLog =
  chl_blocks :: "LogBlock list"
  chl_bytesDiscarded :: nat
  chl_segmentRawBytes :: "string list"
  chl_segmentPaths :: "string list"
  chl_header :: "SplLogHeaderParsed option"

definition ChannelLog_empty :: ChannelLog where
  "ChannelLog_empty = \<lparr>chl_blocks = [], chl_bytesDiscarded = 0, chl_segmentRawBytes = [], chl_segmentPaths = [], chl_header = None\<rparr>"

text \<open>A folder as the iterator shows it: names in any order, each with whether it is a regular file.\<close>

record folder =
  fo_path :: string
  fo_entries :: "(string \<times> bool) list option"
  fo_disk :: disk

definition readWholeFile :: "folder \<Rightarrow> string \<Rightarrow> string" where
  "readWholeFile fo path = (case fo_disk fo path of None \<Rightarrow> [] | Some s \<Rightarrow> s)"

fun segment_files :: "string \<Rightarrow> string \<Rightarrow> (string \<times> bool) list \<Rightarrow> (nat \<times> nat \<times> string) list option" where
  "segment_files dir basename [] = Some []"
| "segment_files dir basename ((name, regular) # es) =
     (if \<not> regular then segment_files dir basename es
      else case parseGenSeg name basename of
             None \<Rightarrow> None
           | Some None \<Rightarrow> segment_files dir basename es
           | Some (Some (gen, seg)) \<Rightarrow> map_option ((#) (gen, seg, path_div dir name)) (segment_files dir basename es))"

text \<open>
  \<^verbatim>\<open>std::sort\<close> by generation, then by segment.  Where two names denote the same pair, which takes leading zeros, the
  code leaves their order open; here it is that of the iterator.
\<close>

definition sort_files :: "(nat \<times> nat \<times> string) list \<Rightarrow> (nat \<times> nat \<times> string) list" where
  "sort_files files = sort_key fst (sort_key (\<lambda>f. fst (snd f)) files)"

definition read_segment_file :: "float_charconv \<Rightarrow> folder \<Rightarrow> nat \<times> nat \<times> string \<Rightarrow> ChannelLog \<Rightarrow> ChannelLog" where
  "read_segment_file cc fo f result =
     (let path = snd (snd f); raw = readWholeFile fo path; part = readLog cc raw
      in \<lparr>chl_blocks = chl_blocks result @ lr_blocks part, chl_bytesDiscarded = chl_bytesDiscarded result + lr_bytesDiscarded part,
          chl_segmentRawBytes = chl_segmentRawBytes result @ [raw], chl_segmentPaths = chl_segmentPaths result @ [path],
          chl_header = (case parseLogHeader cc raw of None \<Rightarrow> chl_header result | Some h \<Rightarrow> Some h)\<rparr>)"

definition readChannelLog :: "float_charconv \<Rightarrow> folder \<Rightarrow> int \<Rightarrow> ChannelLog option" where
  "readChannelLog cc fo channel =
     (let basename = ''ch'' @ to_chars_int channel
      in case fo_entries fo of
           None \<Rightarrow> Some ChannelLog_empty
         | Some es \<Rightarrow>
             (case segment_files (fo_path fo) basename es of
                None \<Rightarrow> None
              | Some files \<Rightarrow> Some (fold (read_segment_file cc fo) (sort_files files) ChannelLog_empty)))"

section \<open>History and markers\<close>

text \<open>\<^verbatim>\<open>std::log10\<close> of a finite number.\<close>

definition std_log10 :: "real \<Rightarrow> double" where
  "std_log10 x = (if x > 0 then Fin (log 10 x) else if x = 0 then NegInf else NaN)"

text \<open>
  A block of digital silence has no energy, so its logarithm, and with it the value of its point, is \<open>-\<infinity>\<close>; the floor
  stands only for a block without samples.
\<close>

definition point_level :: "Block \<Rightarrow> real \<Rightarrow> double" where
  "point_level b offset =
     (if blk_samples b > 0
      then (case std_log10 (blk_sumSquares b / real (unat (blk_samples b))) of
              Fin l \<Rightarrow> Fin (10 * l + offset)
            | special \<Rightarrow> special)
      else Fin kLevelFloorDb)"

definition history_block :: "string \<Rightarrow> real \<Rightarrow> Block \<Rightarrow> ReportHistorySeries \<times> SplMarker list \<Rightarrow> ReportHistorySeries \<times> SplMarker list" where
  "history_block metricId offset b sm =
     (let (series, markers) = sm;
          series = (if \<not> hasFlag (blk_flags b) CalibrationInvalid
                    then series\<lparr>hs_points := hs_points series @ [(blockIndex b, point_level b offset)]\<rparr> else series);
          markers = (if hasFlag (blk_flags b) BlockFlag.Overload
                     then markers @ [SplMarker_default\<lparr>mk_blockIndex := blockIndex b, mk_kind := MarkerOverload,
                            mk_quantity := marker_quantity metricId\<rparr>] else markers);
          markers = (if hasFlag (blk_flags b) BlockFlag.Gap
                     then markers @ [SplMarker_default\<lparr>mk_blockIndex := blockIndex b, mk_kind := MarkerGap,
                            mk_quantity := marker_quantity metricId\<rparr>] else markers)
      in (series, markers))"

definition appendHistoryAndMarkers :: "int \<Rightarrow> Block list \<Rightarrow> real \<Rightarrow> ReportPayload \<Rightarrow> ReportPayload" where
  "appendHistoryAndMarkers channel blocks offset payload =
     (let metricId = ''ch'' @ to_chars_int channel;
          (series, markers) = fold (history_block metricId offset) blocks
            (\<lparr>hs_metricId = metricId, hs_points = []\<rparr>, rp_markers payload);
          payload = payload\<lparr>rp_markers := markers\<rparr>
      in if hs_points series \<noteq> [] then payload\<lparr>rp_history := rp_history payload @ [series]\<rparr> else payload)"

section \<open>The builder\<close>

record SplReportBuildRequest =
  rq_channels :: "int list"
  rq_venue :: string
  rq_event :: string
  rq_operatorName :: string
  rq_company :: string
  rq_engineer :: string
  rq_productionCompany :: string
  rq_notes :: string
  rq_appName :: string
  rq_appVersion :: string
  rq_buildId :: string
  rq_device :: string
  rq_liveView :: "SplBlockView option"

record SplReportBuildResult =
  rr_payload :: "ReportPayload option"
  rr_channelsWithNoLog :: "int list"

text \<open>The locals of the loop over the channels.\<close>

record build_state =
  bs_payload :: ReportPayload
  bs_segmentBytes :: "string list"
  bs_firstHeader :: "SplLogHeaderParsed option"
  bs_any :: bool
  bs_noLog :: "int list"

definition bracket_applies :: "SplCalibrationRecordInfo option \<Rightarrow> int \<Rightarrow> bool" where
  "bracket_applies record channel =
     (case record of
        None \<Rightarrow> False
      | Some info \<Rightarrow> rf_performed (cr_fields info) \<and> cr_channel info = channel \<and> rf_verdict (cr_fields info) = Some Fail)"

definition mark_invalid :: "uint64_t \<Rightarrow> uint64_t \<Rightarrow> Block \<Rightarrow> Block" where
  "mark_invalid startIndex endIndex b =
     (if blockIndex b \<ge> startIndex \<and> blockIndex b \<le> endIndex then b\<lparr>blk_flags := blk_flags b OR flagMask CalibrationInvalid\<rparr> else b)"

definition count_validity :: "ChannelLog \<Rightarrow> Block list \<Rightarrow> WindowResult \<Rightarrow> ReportValidity \<Rightarrow> ReportValidity" where
  "count_validity chlog blocks whole v =
     v\<lparr>va_segmentPaths := va_segmentPaths v @ chl_segmentPaths chlog,
       va_bytesDiscarded := va_bytesDiscarded v + word_of_nat (chl_bytesDiscarded chlog),
       va_totalBlocks := va_totalBlocks v + word_of_nat (length blocks),
       va_excludedBlocks := va_excludedBlocks v + excludedBlocks whole,
       va_overloadBlocks := va_overloadBlocks v + overloadBlocks whole,
       va_underRangeBlocks := va_underRangeBlocks v + underRangeBlocks whole,
       va_droppedBlocks := va_droppedBlocks v + droppedBlocks whole,
       va_gapBlocks := va_gapBlocks v + gapBlocks whole,
       va_droppedSamplesTotal := va_droppedSamplesTotal v + droppedSamplesTotal whole\<rparr>"

definition channel_metric :: "int \<Rightarrow> ChannelLog \<Rightarrow> WindowResult \<Rightarrow> ReportMetricResult" where
  "channel_metric channel chlog whole =
     (let metric = ReportMetricResult_default\<lparr>me_id := ''ch'' @ to_chars_int channel\<rparr>;
          metric = (case chl_header chlog of
                      None \<Rightarrow> metric
                    | Some h \<Rightarrow> metric\<lparr>me_weighting := hi_weighting (hp_info h), me_detector := hi_detector (hp_info h)\<rparr>);
          metric = metric\<lparr>me_intervalSeconds := win_seconds whole, me_leqDb := win_leqDb whole,
                     me_lmaxDb := Some (win_maxFastDb whole), me_lpeakDb := Some (win_peakDb whole)\<rparr>
      in case win_leqDb whole of
           Some leq \<Rightarrow> if win_seconds whole > 0 then metric\<lparr>me_selDb := Some (leq + 10 * log 10 (win_seconds whole))\<rparr> else metric
         | None \<Rightarrow> metric)"

definition build_channel ::
  "float_charconv \<Rightarrow> folder \<Rightarrow> SplCalibrationRecordInfo option \<Rightarrow> int \<Rightarrow> build_state \<Rightarrow> build_state option" where
  "build_channel cc fo record channel s =
     (case readChannelLog cc fo channel of
        None \<Rightarrow> None
      | Some chlog \<Rightarrow>
          if chl_segmentPaths chlog = [] then Some (s\<lparr>bs_noLog := bs_noLog s @ [channel]\<rparr>)
          else
            let applies = bracket_applies record channel;
                blocks = map block_of_row (chl_blocks chlog);
                blocks = (if applies then map (mark_invalid (cr_startBlockIndex (the record)) (cr_endBlockIndex (the record))) blocks
                          else blocks);
                payload = bs_payload s;
                payload = (if applies
                           then payload\<lparr>rp_validity := (rp_validity payload)\<lparr>va_excludedBlockRange :=
                                  Some (cr_startBlockIndex (the record), cr_endBlockIndex (the record))\<rparr>\<rparr>
                           else payload);
                offset = (case chl_header chlog of None \<Rightarrow> 0 | Some h \<Rightarrow> double_value (hp_referenceOffsetDb h));
                sampleRate = (case chl_header chlog of None \<Rightarrow> 0 | Some h \<Rightarrow> double_value (hi_sampleRate (hp_info h)));
                whole = combineBlocks blocks sampleRate offset (word_of_nat (length blocks));
                payload = payload\<lparr>rp_validity := count_validity chlog blocks whole (rp_validity payload)\<rparr>;
                payload = appendHistoryAndMarkers channel blocks offset payload;
                payload = payload\<lparr>rp_metrics := rp_metrics payload @ [channel_metric channel chlog whole]\<rparr>
            in Some (s\<lparr>bs_payload := payload, bs_segmentBytes := bs_segmentBytes s @ chl_segmentRawBytes chlog,
                 bs_firstHeader := (if bs_firstHeader s = None then chl_header chlog else bs_firstHeader s), bs_any := True\<rparr>))"

definition alarm_row :: "SplAlarmReading \<Rightarrow> ReportAlarmResult" where
  "alarm_row a =
     \<lparr>ar_metricId = rd_metricId a, ar_limitDb = rd_limitDb a, ar_windowBlocks = rd_windowBlocks a, ar_state = rd_state a,
      ar_headroomDb = rd_headroomDb a\<rparr>"

definition add_live_view :: "SplBlockView option \<Rightarrow> ReportPayload \<Rightarrow> ReportPayload" where
  "add_live_view view payload =
     (let payload = payload\<lparr>rp_validity := (rp_validity payload)\<lparr>va_lnDoseAlarmFromLiveSession := (view \<noteq> None)\<rparr>\<rparr>
      in case view of
           None \<Rightarrow> payload
         | Some live \<Rightarrow>
             (let payload = payload\<lparr>rp_validity := (rp_validity payload)\<lparr>va_refusedMetrics := vw_refusedMetrics live\<rparr>\<rparr>;
                  payload = payload\<lparr>rp_alarms := rp_alarms payload @ map alarm_row (vw_alarms live)\<rparr>;
                  payload = payload\<lparr>rp_dose := fold (\<lambda>i dose. dose[i := (dose ! i)\<lparr>dr_percent := vw_dosePercent live ! i,
                                dr_projectedPercent := vw_doseProjected live ! i\<rparr>])
                              [0..<min (length (rp_dose payload)) (length (vw_dosePercent live))] (rp_dose payload)\<rparr>
              in case rp_metrics payload of
                   [] \<Rightarrow> payload
                 | m # ms \<Rightarrow> payload\<lparr>rp_metrics := m\<lparr>me_lnDb := vw_lnDb live, me_lnPercents := cf_lnPercents SplConfig_default\<rparr> # ms\<rparr>))"

definition request_payload :: "SplReportBuildRequest \<Rightarrow> SplCalibrationRecordInfo option \<Rightarrow> ReportPayload" where
  "request_payload rq record =
     (let payload = ReportPayload_default\<lparr>rp_venue := rq_venue rq, rp_event := rq_event rq, rp_operatorName := rq_operatorName rq,
            rp_company := rq_company rq, rp_engineer := rq_engineer rq, rp_productionCompany := rq_productionCompany rq,
            rp_notes := rq_notes rq, rp_appName := rq_appName rq, rp_appVersion := rq_appVersion rq, rp_buildId := rq_buildId rq,
            rp_device := rq_device rq\<rparr>
      in case record of
           None \<Rightarrow> payload
         | Some info \<Rightarrow> payload\<lparr>rp_calibration := value_fields (cr_fields info), rp_calibrationChannelRefusal := cr_refusal info,
               rp_calibrationOffsetApplied := cr_offsetApplied info\<rparr>)"

definition folder_record :: "float_charconv \<Rightarrow> folder \<Rightarrow> SplCalibrationRecordInfo option" where
  "folder_record cc fo =
     (let calPath = path_div (fo_path fo) ''calibration.txt''
      in if fo_disk fo calPath \<noteq> None then parseCalibrationRecord cc (readWholeFile fo calPath) else None)"

text \<open>\<open>None\<close>: the exception of \<^verbatim>\<open>parseGenSeg\<close> leaves the builder.\<close>

definition buildReportPayload :: "float_charconv \<Rightarrow> folder \<Rightarrow> SplReportBuildRequest \<Rightarrow> SplReportBuildResult option" where
  "buildReportPayload cc fo rq =
     (let record = folder_record cc fo;
          start = \<lparr>bs_payload = request_payload rq record, bs_segmentBytes = [], bs_firstHeader = None, bs_any = False, bs_noLog = []\<rparr>
      in case fold_opt (build_channel cc fo record) (rq_channels rq) start of
           None \<Rightarrow> None
         | Some s \<Rightarrow>
             (let payload = bs_payload s;
                  payload = (case bs_firstHeader s of
                               None \<Rightarrow> payload
                             | Some h \<Rightarrow> payload\<lparr>rp_config := (rp_config payload)\<lparr>cf_referenceOffsetDb := double_value (hp_referenceOffsetDb h),
                                   cf_calibrated := hp_calibrated h\<rparr>, rp_sampleRate := double_value (hi_sampleRate (hp_info h))\<rparr>);
                  payload = add_live_view (rq_liveView rq) payload;
                  payload = payload\<lparr>rp_logSegments := bs_segmentBytes s\<rparr>
              in Some \<lparr>rr_payload = (if bs_any s then Some payload else None), rr_channelsWithNoLog = bs_noLog s\<rparr>))"

section \<open>Segments in order\<close>

definition key_less :: "nat \<times> nat \<Rightarrow> nat \<times> nat \<Rightarrow> bool" where
  "key_less a b \<longleftrightarrow> fst a < fst b \<or> fst a = fst b \<and> snd a < snd b"

text \<open>The writer numbers its segments in increasing order.\<close>

definition keys_inv :: "string \<Rightarrow> nat \<Rightarrow> (nat \<times> nat) list \<Rightarrow> SplLogWriter \<Rightarrow> bool" where
  "keys_inv base n ks w \<longleftrightarrow>
     lw_basePath w = base \<and> lw_segmentPaths w = map (key_path base) ks \<and> sorted_wrt key_less ks \<and> ks \<noteq> [] \<and>
     last ks = (unat (lw_logGeneration w), unat (lw_segmentIndex w)) \<and> list_all (\<lambda>k. fst k \<le> n \<and> snd k \<le> n) ks"

lemma openSegment_keys:
  "lw_segmentPaths (fst (openSegment pf out (w, d))) =
     lw_segmentPaths w @ [key_path (lw_basePath w) (unat (lw_logGeneration w), unat (lw_segmentIndex w))]"
  "lw_basePath (fst (openSegment pf out (w, d))) = lw_basePath w"
  "lw_logGeneration (fst (openSegment pf out (w, d))) = lw_logGeneration w"
  "lw_segmentIndex (fst (openSegment pf out (w, d))) = lw_segmentIndex w"
  by (simp_all add: openSegment_names key_path_def split_beta) (auto simp: openSegment_def stream_put_def Let_def split: prod.split)

lemma keys_after_last:
  assumes "sorted_wrt key_less ks" "ks \<noteq> []" "key_less (last ks) k"
  shows "sorted_wrt key_less (ks @ [k])"
proof -
  have "key_less x k" if "x \<in> set ks" for x
  proof -
    obtain us where us: "ks = us @ [last ks]"
      using assms(2) by (metis append_butlast_last_id)
    then have "x = last ks \<or> key_less x (last ks)"
      using assms(1) that by (metis (no_types, lifting) Un_iff empty_iff list.set(1) list.set(2) insert_iff set_append sorted_wrt_append)
    then show ?thesis
      using assms(3) by (auto simp: key_less_def)
  qed
  then show ?thesis
    using assms(1) by (simp add: sorted_wrt_append)
qed

lemma keys_open:
  assumes inv: "keys_inv base n ks w" and more: "n + 1 < 2 ^ 64"
    and w': "lw_basePath w' = base" "lw_segmentPaths w' = lw_segmentPaths w"
      "key_less (last ks) (unat (lw_logGeneration w'), unat (lw_segmentIndex w'))"
      "unat (lw_logGeneration w') \<le> Suc n" "unat (lw_segmentIndex w') \<le> Suc n"
  shows "\<exists>ks'. keys_inv base (Suc n) ks' (fst (openSegment pf out (w', d)))"
  using inv w' keys_after_last [of ks "(unat (lw_logGeneration w'), unat (lw_segmentIndex w'))"]
  by (intro exI [of _ "ks @ [(unat (lw_logGeneration w'), unat (lw_segmentIndex w'))]"])
    (auto simp: keys_inv_def openSegment_keys list_all_iff intro: le_SucI)

lemma keys_step:
  assumes inv: "keys_inv base n ks w" and more: "n + 1 < 2 ^ 64"
  shows "\<exists>ks'. keys_inv base (Suc n) ks' (fst (writer_step pf op (w, d)))"
proof -
  have same: "keys_inv base (Suc n) ks w"
    using inv by (auto simp: keys_inv_def list_all_iff intro: le_SucI)
  have last: "unat (lw_logGeneration w) \<le> n" "unat (lw_segmentIndex w) \<le> n" "last ks = (unat (lw_logGeneration w), unat (lw_segmentIndex w))"
      "lw_basePath w = base"
    using inv last_in_set [of ks] by (auto simp: keys_inv_def list_all_iff)
  show ?thesis
  proof (cases op)
    case (WriteBlock out k b)
    define wd1 where "wd1 = (if lw_blocksInSegment w \<ge> lw_segmentBlocks w
      then openSegment pf out (w\<lparr>lw_segmentIndex := lw_segmentIndex w + 1\<rparr>, d) else (w, d))"
    have "\<exists>ks'. keys_inv base (Suc n) ks' (fst wd1)"
    proof (cases "lw_blocksInSegment w \<ge> lw_segmentBlocks w")
      case True
      have "unat (lw_segmentIndex w + 1) = Suc (unat (lw_segmentIndex w))"
        using unat_succ [of "lw_segmentIndex w" n] last(2) more by simp
      then show ?thesis
        using keys_open [OF inv more, of "w\<lparr>lw_segmentIndex := lw_segmentIndex w + 1\<rparr>" pf out d] True last
        by (simp add: wd1_def key_less_def)
    qed (use same in \<open>auto simp: wd1_def\<close>)
    moreover obtain w1 d1 where w1: "wd1 = (w1, d1)"
      by fastforce
    moreover obtain w2 d2 where w2: "stream_put pf k (logRow (pf_charconv pf) (pf_arith pf) (lc_referenceOffsetDb (lw_config w1)) b) (w1, d1) = (w2, d2)"
      by fastforce
    moreover have "fst (writer_step pf op (w, d)) =
        (let w = (if \<not> lw_streamGood w2 then w2\<lparr>lw_writeFailed := True\<rparr> else w2) in w\<lparr>lw_blocksInSegment := lw_blocksInSegment w + 1\<rparr>)"
      using w1 w2 by (simp add: WriteBlock SplLogWriter_write_def Let_def wd1_def [symmetric])
    ultimately show ?thesis
      using put_names [OF w2] by (auto simp: keys_inv_def Let_def)
  next
    case (Reconfigure out weighting detector)
    have "unat (lw_logGeneration w + 1) = Suc (unat (lw_logGeneration w))"
      using unat_succ [of "lw_logGeneration w" n] last(1) more by simp
    then show ?thesis
      using keys_open [OF inv more, of "w\<lparr>lw_info := (lw_info w)\<lparr>hi_weighting := weighting, hi_detector := detector\<rparr>,
          lw_logGeneration := lw_logGeneration w + 1, lw_segmentIndex := 0\<rparr>" pf out d] same last
      by (auto simp: Reconfigure SplLogWriter_reconfigure_def key_less_def)
  qed
qed

lemma segment_keys:
  assumes "fold (writer_step pf) ops (SplLogWriter_new pf out base config info limit d0) = (w, d)" "length ops < 2 ^ 64 - 1"
  obtains ks where "lw_segmentPaths w = map (key_path base) ks" "sorted_wrt key_less ks" "\<forall>k \<in> set ks. fst k < 2 ^ 64 \<and> snd k < 2 ^ 64"
proof -
  have run: "\<exists>ks'. keys_inv base (n + length ops) ks' (fst (fold (writer_step pf) ops (v, e)))"
    if "keys_inv base n ks v" "n + length ops < 2 ^ 64 - 1" for n ks v e
    using that
  proof (induction ops arbitrary: n ks v e)
    case (Cons op ops)
    obtain ks' where "keys_inv base (Suc n) ks' (fst (writer_step pf op (v, e)))"
      using keys_step [OF Cons.prems(1), of pf op e] Cons.prems(2) by auto
    then show ?case
      using Cons.IH [of "Suc n" ks' "fst (writer_step pf op (v, e))" "snd (writer_step pf op (v, e))"] Cons.prems(2) by simp
  qed auto
  have "keys_inv base 0 [(0, 0)] (fst (SplLogWriter_new pf out base config info limit d0))"
    by (simp add: SplLogWriter_new_def keys_inv_def openSegment_keys)
  then obtain ks where ks: "keys_inv base (length ops) ks w"
    using run [of 0 "[(0, 0)]" "fst (SplLogWriter_new pf out base config info limit d0)" "snd (SplLogWriter_new pf out base config info limit d0)"] assms by auto
  show thesis
  proof (rule that [of ks])
    show "\<forall>k \<in> set ks. fst k < 2 ^ 64 \<and> snd k < 2 ^ 64"
      using ks assms(2) by (fastforce simp: keys_inv_def list_all_iff)
  qed (use ks in \<open>simp_all add: keys_inv_def\<close>)
qed

section \<open>The folder read back\<close>

text \<open>Sorting twice, stably, sorts by generation and then segment.\<close>

lemma insort_key_lex:
  assumes "sorted_wrt (\<lambda>a b. f a < f b \<or> f a = f b \<and> g a \<le> g b) ys" "\<forall>y \<in> set ys. g x \<le> (g y :: nat)"
  shows "sorted_wrt (\<lambda>a b. f a < f b \<or> f a = f b \<and> g a \<le> g b) (insort_key f x ys)"
  using assms by (induction ys) (auto simp: set_insort_key)

lemma sort_files_sorted:
  "sorted_wrt (\<lambda>a b. fst a < fst b \<or> fst a = fst b \<and> fst (snd a) \<le> fst (snd b)) (sort_files files)"
proof -
  have "sorted_wrt (\<lambda>a b. fst a < fst b \<or> fst a = fst b \<and> g a \<le> (g b :: nat)) (sort_key fst xs)"
    if "sorted (map g xs)" for g and xs :: "(nat \<times> nat \<times> string) list"
    using that
  proof (induction xs)
    case (Cons x xs)
    then show ?case
      by (auto intro!: insort_key_lex simp: sort_key_def [symmetric])
  qed simp
  from this [of "\<lambda>f. fst (snd f)" "sort_key (\<lambda>f. fst (snd f)) files"] show ?thesis
    by (simp add: sort_files_def)
qed

lemma strict_list_unique:
  assumes "\<And>a b. R a b \<Longrightarrow> \<not> R b a" "sorted_wrt R xs" "sorted_wrt R ys" "set xs = set ys"
  shows "xs = ys"
  using assms(2-4)
proof (induction xs arbitrary: ys)
  case (Cons x xs)
  then obtain y ys' where ys: "ys = y # ys'"
    by (cases ys) auto
  have "x = y"
  proof (rule ccontr)
    assume "x \<noteq> y"
    then have "x \<in> set ys'" "y \<in> set xs"
      using Cons.prems(3) by (auto simp: ys)
    then show False
      using Cons.prems(1,2) assms(1) [of x y] by (auto simp: ys)
  qed
  moreover have "x \<notin> set xs" "y \<notin> set ys'"
    using Cons.prems(1,2) assms(1) by (auto simp: ys)
  ultimately have "set xs = set ys'"
    using Cons.prems(3) by (auto simp: ys)
  then show ?case
    using Cons.IH [of ys'] Cons.prems(1,2) \<open>x = y\<close> by (simp add: ys)
qed simp

definition file_key :: "nat \<times> nat \<times> string \<Rightarrow> nat \<times> nat" where
  "file_key f = (fst f, fst (snd f))"

lemma sort_files_unique:
  assumes "sorted_wrt key_less (map file_key ks)" "set files = set ks" "distinct files"
  shows "sort_files files = ks"
proof -
  let ?less = "\<lambda>a b. key_less (file_key a) (file_key b)"
  have asym: "?less a b \<Longrightarrow> \<not> ?less b a" for a b
    by (auto simp: key_less_def)
  have ks: "sorted_wrt ?less ks"
    using assms(1) by (simp add: sorted_wrt_map)
  have set: "set (sort_files files) = set ks" and dist: "distinct (sort_files files)"
    using assms(2,3) by (simp_all add: sort_files_def)
  have differ: "a = b" if "a \<in> set ks" "b \<in> set ks" "file_key a = file_key b" for a b
    using ks that by (induction ks) (auto simp: key_less_def)
  have "sorted_wrt ?less (sort_files files)"
    unfolding sorted_wrt_iff_nth_less
  proof (intro allI impI)
    fix i j
    assume ij: "i < j" "j < length (sort_files files)"
    let ?a = "sort_files files ! i" and ?b = "sort_files files ! j"
    have "?a \<noteq> ?b"
      using ij nth_eq_iff_index_eq [OF dist, of i j] by simp
    moreover have "?a \<in> set ks" "?b \<in> set ks"
      using ij unfolding set [symmetric] by simp_all
    ultimately have "file_key ?a \<noteq> file_key ?b"
      using differ by blast
    moreover have "fst ?a < fst ?b \<or> fst ?a = fst ?b \<and> fst (snd ?a) \<le> fst (snd ?b)"
      using sort_files_sorted [of files] ij by (simp add: sorted_wrt_iff_nth_less)
    ultimately show "?less ?a ?b"
      by (auto simp: key_less_def file_key_def)
  qed
  then show ?thesis
    using strict_list_unique [of ?less, OF asym _ ks set] by simp
qed

text \<open>A segment's name is recognised, whatever its numbers.\<close>

lemma takeWhile_digits: "\<not> is_digit c \<Longrightarrow> takeWhile is_digit (decimal n @ c # s) = decimal n"
  using decimal_digits by (subst takeWhile_append2) auto

lemma dropWhile_digits: "\<not> is_digit c \<Longrightarrow> dropWhile is_digit (decimal n @ c # s) = c # s"
  using decimal_digits by (subst dropWhile_append2) auto

lemma parse_segment_name:
  assumes "g < 2 ^ 64" "s < 2 ^ 64"
  shows "parseGenSeg (segment_path basename g s) basename = Some (Some (g, s))"
proof -
  have dot: "\<not> is_digit CHR ''.''"
    by (simp add: is_digit_def)
  have "segment_path basename g s = (basename @ ''.gen'') @ decimal g @ CHR ''.'' # ''seg'' @ decimal s @ CHR ''.'' # ''csv''"
    by (simp add: segment_path_def)
  then show ?thesis
    using assms by (simp add: parseGenSeg_def Let_def takeWhile_digits [OF dot] dropWhile_digits [OF dot] stoull_def)
qed

abbreviation slash :: char where "slash \<equiv> CHR ''/''"

text \<open>The iterator shows the files of the folder, each once.\<close>

definition folder_lists :: "folder \<Rightarrow> (string \<times> bool) list \<Rightarrow> bool" where
  "folder_lists fo es \<longleftrightarrow>
     fo_entries fo = Some es \<and> distinct (map fst es) \<and> (\<forall>e \<in> set es. slash \<notin> set (fst e)) \<and>
     (\<forall>n. slash \<notin> set n \<longrightarrow> (n, True) \<in> set es \<longleftrightarrow> fo_disk fo (path_div (fo_path fo) n) \<noteq> None)"

lemma path_of_name: "slash \<notin> set n \<Longrightarrow> path_div dir n = dir @ slash # n"
  by (cases n) (auto simp: path_div_def)

lemma segment_files_some:
  assumes "\<forall>e \<in> set es. slash \<notin> set (fst e) \<and> (snd e \<longrightarrow> parseGenSeg (fst e) basename \<noteq> None)" "distinct (map fst es)"
  shows "\<exists>fs. segment_files dir basename es = Some fs \<and> distinct fs \<and>
    (\<forall>g s p. (g, s, p) \<in> set fs \<longleftrightarrow> (\<exists>n. (n, True) \<in> set es \<and> parseGenSeg n basename = Some (Some (g, s)) \<and> p = path_div dir n))"
  using assms
proof (induction es)
  case (Cons e es)
  obtain n r where e: "e = (n, r)"
    by fastforce
  obtain fs where fs: "segment_files dir basename es = Some fs" "distinct fs"
      "\<forall>g s p. (g, s, p) \<in> set fs \<longleftrightarrow> (\<exists>n. (n, True) \<in> set es \<and> parseGenSeg n basename = Some (Some (g, s)) \<and> p = path_div dir n)"
    using Cons by auto
  have new: "(g, s, path_div dir n) \<notin> set fs" for g s
  proof
    assume "(g, s, path_div dir n) \<in> set fs"
    then obtain n' where "(n', True) \<in> set es" "path_div dir n = path_div dir n'"
      using fs(3) by blast
    moreover from this have "n' = n"
      using Cons.prems(1) by (fastforce simp: e path_of_name)
    ultimately show False
      using Cons.prems(2) by (force simp: e)
  qed
  show ?case
  proof (cases "r \<and> (\<exists>gs. parseGenSeg n basename = Some (Some gs))")
    case True
    then obtain g s where "r" "parseGenSeg n basename = Some (Some (g, s))"
      by auto
    then show ?thesis
      using fs new by (intro exI [of _ "(g, s, path_div dir n) # fs"]) (auto simp: e)
  next
    case False
    then have "segment_files dir basename (e # es) = Some fs"
      using fs(1) Cons.prems(1) by (auto simp: e split: option.split)
    then show ?thesis
      using fs(2,3) False by (intro exI [of _ fs]) (auto simp: e)
  qed
qed simp

text \<open>
  A folder that holds the log of a channel: its files of that name are the writer's, and what else lies in it does not
  look like a segment.
\<close>

definition channel_basename :: "int \<Rightarrow> string" where
  "channel_basename channel = ''ch'' @ to_chars_int channel"

definition holds_log :: "folder \<Rightarrow> int \<Rightarrow> disk \<Rightarrow> bool" where
  "holds_log fo channel d \<longleftrightarrow>
     (\<exists>es. folder_lists fo es) \<and>
     (\<forall>g s. fo_disk fo (segment_path (fo_path fo @ slash # channel_basename channel) g s) =
              d (segment_path (fo_path fo @ slash # channel_basename channel) g s)) \<and>
     (\<forall>n. slash \<notin> set n \<and> fo_disk fo (fo_path fo @ slash # n) \<noteq> None \<longrightarrow>
        parseGenSeg n (channel_basename channel) = Some None \<or>
        (\<exists>g < 2 ^ 64. \<exists>s < 2 ^ 64. n = segment_path (channel_basename channel) g s))"

lemma segment_name_plain: "slash \<notin> set (segment_path (channel_basename channel) g s)"
proof -
  have "\<not> is_digit slash"
    by (simp add: is_digit_def)
  then have "slash \<notin> set (decimal n)" for n
    using decimal_digits by blast
  then show ?thesis
    by (simp add: segment_path_def channel_basename_def to_chars_int_def)
qed

lemma segment_in_folder: "segment_path (dir @ slash # basename) g s = dir @ slash # segment_path basename g s"
  by (simp add: segment_path_def)

lemma folder_segments:
  assumes holds: "holds_log fo channel d" and base: "base = fo_path fo @ slash # channel_basename channel"
    and ks: "sorted_wrt key_less ks" "\<forall>k \<in> set ks. fst k < 2 ^ 64 \<and> snd k < 2 ^ 64"
    and only: "\<forall>g s. d (segment_path base g s) \<noteq> None \<longrightarrow> (g, s) \<in> set ks"
  shows "\<exists>es fs. fo_entries fo = Some es \<and> segment_files (fo_path fo) (channel_basename channel) es = Some fs \<and>
    sort_files fs = map (\<lambda>k. (fst k, snd k, key_path base k)) (filter (\<lambda>k. d (key_path base k) \<noteq> None) ks)"
proof -
  let ?bn = "channel_basename channel"
  obtain es where es: "folder_lists fo es"
    using holds by (auto simp: holds_log_def)
  have path: "path_div (fo_path fo) n = fo_path fo @ slash # n" if "slash \<notin> set n" for n
    using that by (rule path_of_name)
  have listed: "(n, True) \<in> set es \<longleftrightarrow> fo_disk fo (fo_path fo @ slash # n) \<noteq> None" if "slash \<notin> set n" for n
    using es that path [OF that] by (simp add: folder_lists_def)
  have plain: "slash \<notin> set n" if "(n, r) \<in> set es" for n r
    using es that by (force simp: folder_lists_def)
  have known: "parseGenSeg n ?bn = Some None \<or> (\<exists>g < 2 ^ 64. \<exists>s < 2 ^ 64. n = segment_path ?bn g s)" if "(n, True) \<in> set es" for n
    using holds that listed [OF plain [OF that]] plain [OF that] unfolding holds_log_def by blast
  have parses: "\<forall>e \<in> set es. slash \<notin> set (fst e) \<and> (snd e \<longrightarrow> parseGenSeg (fst e) ?bn \<noteq> None)"
  proof (intro ballI conjI impI)
    fix e
    assume e: "e \<in> set es"
    show "slash \<notin> set (fst e)"
      using plain [of "fst e" "snd e"] e by simp
    assume "snd e"
    then have "(fst e, True) \<in> set es"
      using e by (cases e) simp
    then show "parseGenSeg (fst e) ?bn \<noteq> None"
      using known parse_segment_name by fastforce
  qed
  have "distinct (map fst es)"
    using es by (simp add: folder_lists_def)
  from segment_files_some [OF parses this, of "fo_path fo"] obtain fs where fs:
      "segment_files (fo_path fo) ?bn es = Some fs" "distinct fs"
      "\<forall>g s p. (g, s, p) \<in> set fs \<longleftrightarrow> (\<exists>n. (n, True) \<in> set es \<and> parseGenSeg n ?bn = Some (Some (g, s)) \<and> p = path_div (fo_path fo) n)"
    by blast
  let ?files = "map (\<lambda>k. (fst k, snd k, key_path base k)) (filter (\<lambda>k. d (key_path base k) \<noteq> None) ks)"
  have disk: "fo_disk fo (segment_path base g s) = d (segment_path base g s)" for g s
    using holds by (simp add: holds_log_def base)
  have "(g, s, p) \<in> set fs \<longleftrightarrow> (g, s) \<in> set ks \<and> d (segment_path base g s) \<noteq> None \<and> p = segment_path base g s" for g s p
  proof
    assume "(g, s, p) \<in> set fs"
    then obtain n where n: "(n, True) \<in> set es" "parseGenSeg n ?bn = Some (Some (g, s))" "p = path_div (fo_path fo) n"
      using fs(3) by blast
    then obtain g' s' where gs: "g' < 2 ^ 64" "s' < 2 ^ 64" "n = segment_path ?bn g' s'"
      using known by fastforce
    then have same: "g' = g" "s' = s"
      using n(2) parse_segment_name [of g' s' ?bn] by simp_all
    then have p: "p = segment_path base g s"
      using n(3) gs(3) path [OF segment_name_plain] by (simp add: base segment_in_folder)
    have "fo_disk fo (segment_path base g s) \<noteq> None"
      using listed [OF segment_name_plain] n(1) gs(3) same by (simp add: base segment_in_folder)
    then show "(g, s) \<in> set ks \<and> d (segment_path base g s) \<noteq> None \<and> p = segment_path base g s"
      using only p by (simp add: disk)
  next
    assume a: "(g, s) \<in> set ks \<and> d (segment_path base g s) \<noteq> None \<and> p = segment_path base g s"
    then have "(segment_path ?bn g s, True) \<in> set es"
      using listed [OF segment_name_plain] disk [of g s] by (simp add: base segment_in_folder)
    moreover have "parseGenSeg (segment_path ?bn g s) ?bn = Some (Some (g, s))"
      using a ks(2) by (intro parse_segment_name) auto
    ultimately show "(g, s, p) \<in> set fs"
      using fs(3) a path [OF segment_name_plain] by (auto simp: base segment_in_folder)
  qed
  then have "f \<in> set fs \<longleftrightarrow> f \<in> set ?files" for f
    by (cases f) (force simp: key_path_def image_iff)
  then have "set fs = set ?files"
    by blast
  moreover have "map file_key ?files = filter (\<lambda>k. d (key_path base k) \<noteq> None) ks"
    by (simp add: comp_def file_key_def)
  then have "sorted_wrt key_less (map file_key ?files)"
    using ks(1) by (simp only: sorted_wrt_filter)
  ultimately have "sort_files fs = ?files"
    using fs(2) by (intro sort_files_unique)
  then show ?thesis
    using es fs(1) by (auto simp: folder_lists_def)
qed

section \<open>The channel's log read back\<close>

lemma read_files:
  "chl_blocks (fold (read_segment_file cc fo) fs r) =
     chl_blocks r @ concat (map (\<lambda>f. lr_blocks (readLog cc (readWholeFile fo (snd (snd f))))) fs)"
  "chl_segmentPaths (fold (read_segment_file cc fo) fs r) = chl_segmentPaths r @ map (\<lambda>f. snd (snd f)) fs"
  "chl_segmentRawBytes (fold (read_segment_file cc fo) fs r) = chl_segmentRawBytes r @ map (\<lambda>f. readWholeFile fo (snd (snd f))) fs"
  by (induction fs arbitrary: r) (simp_all add: read_segment_file_def Let_def)

lemma read_header:
  assumes "\<And>f h. f \<in> set fs \<Longrightarrow> parseLogHeader cc (readWholeFile fo (snd (snd f))) = Some h \<Longrightarrow> P h"
    and "\<And>h. chl_header r = Some h \<Longrightarrow> P h"
  shows "\<And>h. chl_header (fold (read_segment_file cc fo) fs r) = Some h \<Longrightarrow> P h"
    and "f \<in> set fs \<Longrightarrow> parseLogHeader cc (readWholeFile fo (snd (snd f))) \<noteq> None \<Longrightarrow>
      chl_header (fold (read_segment_file cc fo) fs r) \<noteq> None"
proof -
  have keep: "chl_header r \<noteq> None \<Longrightarrow> chl_header (fold (read_segment_file cc fo) fs r) \<noteq> None" for fs r
    by (induction fs arbitrary: r) (auto simp: read_segment_file_def Let_def split: option.split)
  have keeps: "P h"
    if "\<And>f h. f \<in> set fs \<Longrightarrow> parseLogHeader cc (readWholeFile fo (snd (snd f))) = Some h \<Longrightarrow> P h"
      "\<And>h. chl_header r = Some h \<Longrightarrow> P h" "chl_header (fold (read_segment_file cc fo) fs r) = Some h" for fs r h
    using that
  proof (induction fs arbitrary: r)
    case (Cons f fs)
    have later: "P h'" if "f' \<in> set fs" "parseLogHeader cc (readWholeFile fo (snd (snd f'))) = Some h'" for f' h'
      using Cons.prems(1) [of f' h'] that by simp
    have first: "P h'" if "chl_header (read_segment_file cc fo f r) = Some h'" for h'
      using that Cons.prems(1) [of f h'] Cons.prems(2) [of h']
      by (auto simp: read_segment_file_def Let_def split: option.splits)
    show ?case
      by (rule Cons.IH [OF later first]) (use Cons.prems(3) in simp_all)
  qed simp
  show "P h" if "chl_header (fold (read_segment_file cc fo) fs r) = Some h" for h
    by (rule keeps [OF assms that])
  show "chl_header (fold (read_segment_file cc fo) fs r) \<noteq> None"
    if "f \<in> set fs" "parseLogHeader cc (readWholeFile fo (snd (snd f))) \<noteq> None"
    using that(1)
  proof (induction fs arbitrary: r)
    case (Cons f' fs)
    show ?case
    proof (cases "f = f'")
      case True
      then have "chl_header (read_segment_file cc fo f' r) \<noteq> None"
        using that(2) by (auto simp: read_segment_file_def Let_def)
      then show ?thesis
        using keep by simp
    next
      case False
      then show ?thesis
        using Cons by simp
    qed
  qed simp
qed

definition same_log :: "SplLogHeaderInfo \<Rightarrow> SplLogHeaderInfo \<Rightarrow> bool" where
  "same_log info i \<longleftrightarrow> (\<exists>w t. i = info\<lparr>hi_weighting := w, hi_detector := t\<rparr>)"

lemma same_log_run:
  assumes "list_all (\<lambda>seg. same_log info (fst seg)) segs" "segs \<noteq> []"
  shows "list_all (\<lambda>seg. same_log info (fst seg)) (fold (segments_step limit) ops segs)"
  using assms
proof (induction ops arbitrary: segs)
  case (Cons op ops)
  obtain old seg where segs: "segs = old @ [seg]"
    using Cons.prems(2) by (cases segs rule: rev_cases) auto
  obtain w t where "fst seg = info\<lparr>hi_weighting := w, hi_detector := t\<rparr>"
    using Cons.prems(1) by (auto simp: segs same_log_def)
  then have "list_all (\<lambda>seg. same_log info (fst seg)) (segments_step limit op segs)"
    using Cons.prems(1) by (cases op) (auto simp: segs Let_def same_log_def intro!: exI)
  moreover have "segments_step limit op segs \<noteq> []"
    using segments_step_blocks(2) [OF Cons.prems(2)] by blast
  ultimately show ?case
    using Cons.IH by simp
qed simp

text \<open>A file that is a beginning of a segment, read.\<close>

lemma read_beginning:
  assumes fmt: "header_format cc" "HeaderInfo_ok ar config info" "list_all (LogBlock_ok ar (lc_referenceOffsetDb config)) bs"
    and csv: "csv = (if crlf then to_crlf else id) (log_text cc ar config info bs)" "prefix raw csv"
  shows "parseLogHeader cc raw = Some h \<Longrightarrow>
      hp_referenceOffsetDb h = lc_referenceOffsetDb config \<and> hi_sampleRate (hp_info h) = hi_sampleRate info"
    and "lr_blocks (readLog cc raw) \<noteq> [] \<Longrightarrow> parseLogHeader cc raw \<noteq> None"
proof -
  obtain k where k: "raw = take k csv"
    using csv(2) by (metis append_eq_conv_conj prefix_def)
  have rows: "row_format cc"
    using fmt(1) by (simp add: header_format_def)
  have head: "parseLogHeader cc raw = header_facts config info (newlines raw)"
    using parse_header_cut [OF fmt(1,2) csv(1), of k] k by simp
  then show "parseLogHeader cc raw = Some h \<Longrightarrow>
      hp_referenceOffsetDb h = lc_referenceOffsetDb config \<and> hi_sampleRate (hp_info h) = hi_sampleRate info"
    by (auto simp: header_facts_def split: if_splits)
  have "newlines (log_text cc ar config info []) = length (log_lines cc ar config info [])"
    using newlines_file(1) [OF log_lines_ok [OF rows], of "[]" "[]" ar config info "[]"] by (simp add: log_text_lines)
  then have "9 \<le> newlines (log_text cc ar config info [])"
    by (simp add: log_lines_def header_lines_def)
  then show "parseLogHeader cc raw \<noteq> None" if "lr_blocks (readLog cc raw) \<noteq> []"
    using readLog_cut(1) [OF rows fmt(3) csv(1) refl, of k] that k head by (auto simp: header_facts_def)
qed

text \<open>The writer's segments as the folder shows them: their keys in order and what each file begins.\<close>

lemma written_segments:
  assumes run: "fold (writer_step pf) ops (SplLogWriter_new pf out base config info limit d0) = (w, d)" "length ops < 2 ^ 64 - 1"
    and fresh: "\<forall>g s. d0 (segment_path base g s) = None"
  obtains es where "lw_segmentPaths w = map (\<lambda>e. key_path base (fst e)) es" "sorted_wrt key_less (map fst es)"
    "\<forall>e \<in> set es. fst (fst e) < 2 ^ 64 \<and> snd (fst e) < 2 ^ 64"
    "\<forall>e \<in> set es. beginning (d (key_path base (fst e))) (seg_bytes pf config (snd e)) \<and> same_log info (fst (snd e))"
    "concat (map (\<lambda>e. snd (snd e)) es) = concat (map written_block ops)"
    "\<forall>g s. d (segment_path base g s) \<noteq> None \<longrightarrow> (g, s) \<in> fst ` set es"
proof -
  have none: "\<forall>k. d0 (key_path base k) = None"
    using fresh by (simp add: key_path_def)
  let ?segs = "fold (segments_step (unat limit)) ops [(info, [])]"
  have "writer_inv pf base config limit d0 (0 + length ops) ?segs (fold (writer_step pf) ops (SplLogWriter_new pf out base config info limit d0))"
    by (rule writer_run_inv [OF none writer_new_inv [OF none]]) (use run(2) in simp)
  then have "writer_inv pf base config limit d0 (length ops) ?segs (w, d)"
    by (simp add: run(1))
  then obtain es where es: "files_inv pf base config d0 es (w, d)" "?segs = map snd es"
    by (fastforce simp: writer_inv_def)
  obtain ks where ks: "lw_segmentPaths w = map (key_path base) ks" "sorted_wrt key_less ks" "\<forall>k \<in> set ks. fst k < 2 ^ 64 \<and> snd k < 2 ^ 64"
    by (rule segment_keys [OF run])
  have paths: "lw_segmentPaths w = map (key_path base) (map fst es)"
    using es(1) by (simp add: files_inv_def)
  have "inj (key_path base)"
    by (rule injI) simp
  moreover have "map (key_path base) ks = map (key_path base) (map fst es)"
    using ks(1) paths by (rule trans [OF sym])
  ultimately have keys: "ks = map fst es"
    by (simp only: inj_map_eq_map)
  have logs: "list_all (\<lambda>seg. same_log info (fst seg)) ?segs"
  proof (rule same_log_run)
    have "same_log info info"
      unfolding same_log_def by (rule exI [of _ "hi_weighting info"], rule exI [of _ "hi_detector info"]) simp
    then show "list_all (\<lambda>seg. same_log info (fst seg)) [(info, [])]"
      by simp
  qed simp
  show thesis
  proof (rule that [of es])
    show "lw_segmentPaths w = map (\<lambda>e. key_path base (fst e)) es"
      using paths by (simp add: comp_def)
    show "sorted_wrt key_less (map fst es)" "\<forall>e \<in> set es. fst (fst e) < 2 ^ 64 \<and> snd (fst e) < 2 ^ 64"
      using ks(2,3) by (simp_all add: keys)
    show "\<forall>e \<in> set es. beginning (d (key_path base (fst e))) (seg_bytes pf config (snd e)) \<and> same_log info (fst (snd e))"
      using es logs by (auto simp: files_inv_def list_all_iff)
    show "concat (map (\<lambda>e. snd (snd e)) es) = concat (map written_block ops)"
      using segments_run_blocks(1) [of "[(info, [])]" "unat limit" ops] es(2) by (simp add: comp_def)
    show "\<forall>g s. d (segment_path base g s) \<noteq> None \<longrightarrow> (g, s) \<in> fst ` set es"
    proof (intro allI impI)
      fix g s
      assume "d (segment_path base g s) \<noteq> None"
      then have "d (key_path base (g, s)) \<noteq> d0 (key_path base (g, s))"
        using none by (simp add: key_path_def)
      then have "key_path base (g, s) \<in> key_path base ` fst ` set es"
        using es(1) unfolding files_inv_def by auto
      then show "(g, s) \<in> fst ` set es"
        by (auto simp del: image_eqI) (force simp: image_iff)
    qed
  qed
qed

lemma channel_log:
  assumes run: "fold (writer_step pf) ops (SplLogWriter_new pf out base config info limit d0) = (w, d)" "length ops < 2 ^ 64 - 1"
    and fresh: "\<forall>g s. d0 (segment_path base g s) = None"
    and fmt: "header_format (pf_charconv pf)" "HeaderInfo_ok (pf_arith pf) config info"
    and rows: "list_all (LogBlock_ok (pf_arith pf) (lc_referenceOffsetDb config)) (concat (map written_block ops))"
    and folder: "holds_log fo channel d" "base = fo_path fo @ slash # channel_basename channel"
  shows "\<exists>chlog. readChannelLog (pf_charconv pf) fo channel = Some chlog \<and>
    chl_blocks chlog = concat (map (blocks_on_disk pf d) (lw_segmentPaths w)) \<and>
    chl_segmentRawBytes chlog = map (the \<circ> d) (filter (\<lambda>p. d p \<noteq> None) (lw_segmentPaths w)) \<and>
    (\<forall>h. chl_header chlog = Some h \<longrightarrow>
       hp_referenceOffsetDb h = lc_referenceOffsetDb config \<and> hi_sampleRate (hp_info h) = hi_sampleRate info) \<and>
    (chl_blocks chlog \<noteq> [] \<longrightarrow> chl_header chlog \<noteq> None \<and> chl_segmentPaths chlog \<noteq> [])"
proof -
  let ?cc = "pf_charconv pf"
  obtain es where es: "lw_segmentPaths w = map (\<lambda>e. key_path base (fst e)) es" "sorted_wrt key_less (map fst es)"
    "\<forall>e \<in> set es. fst (fst e) < 2 ^ 64 \<and> snd (fst e) < 2 ^ 64"
    "\<forall>e \<in> set es. beginning (d (key_path base (fst e))) (seg_bytes pf config (snd e)) \<and> same_log info (fst (snd e))"
    "concat (map (\<lambda>e. snd (snd e)) es) = concat (map written_block ops)"
    "\<forall>g s. d (segment_path base g s) \<noteq> None \<longrightarrow> (g, s) \<in> fst ` set es"
    by (rule written_segments [OF run fresh])
  let ?present = "filter (\<lambda>k. d (key_path base k) \<noteq> None) (map fst es)"
  let ?files = "map (\<lambda>k. (fst k, snd k, key_path base k)) ?present"
  have keys: "\<forall>k \<in> set (map fst es). fst k < 2 ^ 64 \<and> snd k < 2 ^ 64"
      "\<forall>g s. d (segment_path base g s) \<noteq> None \<longrightarrow> (g, s) \<in> set (map fst es)"
    using es(3,6) by auto
  obtain names fs where fs: "fo_entries fo = Some names" "segment_files (fo_path fo) (channel_basename channel) names = Some fs"
      "sort_files fs = ?files"
    using folder_segments [OF folder es(2) keys] by blast
  define chlog where "chlog = fold (read_segment_file ?cc fo) ?files ChannelLog_empty"
  have read: "readChannelLog ?cc fo channel = Some chlog"
    using fs by (simp add: readChannelLog_def chlog_def channel_basename_def)
  have disk: "fo_disk fo (key_path base k) = d (key_path base k)" for k
    using folder by (simp add: holds_log_def key_path_def)
  have content: "readWholeFile fo (key_path base k) = the (d (key_path base k))" if "d (key_path base k) \<noteq> None" for k
    using that by (auto simp: readWholeFile_def disk)
  have blocks: "chl_blocks chlog = concat (map (blocks_on_disk pf d) (lw_segmentPaths w))"
  proof -
    have "concat (map (\<lambda>k. lr_blocks (readLog ?cc (readWholeFile fo (key_path base k)))) (filter (\<lambda>k. d (key_path base k) \<noteq> None) ks)) =
        concat (map (\<lambda>k. blocks_on_disk pf d (key_path base k)) ks)" for ks
      by (induction ks) (auto simp: blocks_on_disk_def readWholeFile_def disk)
    from this [of "map fst es"] show ?thesis
      by (simp add: chlog_def read_files ChannelLog_empty_def es(1) comp_def)
  qed
  have raw: "chl_segmentRawBytes chlog = map (the \<circ> d) (filter (\<lambda>p. d p \<noteq> None) (lw_segmentPaths w))"
  proof -
    have "map (\<lambda>k. readWholeFile fo (key_path base k)) (filter (\<lambda>k. d (key_path base k) \<noteq> None) ks) =
        map (the \<circ> d) (filter (\<lambda>p. d p \<noteq> None) (map (key_path base) ks))" for ks
      by (induction ks) (auto simp: content)
    from this [of "map fst es"] show ?thesis
      by (simp add: chlog_def read_files ChannelLog_empty_def es(1) comp_def)
  qed
  have each: "(parseLogHeader ?cc (readWholeFile fo (snd (snd f))) = Some h \<longrightarrow>
        hp_referenceOffsetDb h = lc_referenceOffsetDb config \<and> hi_sampleRate (hp_info h) = hi_sampleRate info) \<and>
      (lr_blocks (readLog ?cc (readWholeFile fo (snd (snd f)))) \<noteq> [] \<longrightarrow> parseLogHeader ?cc (readWholeFile fo (snd (snd f))) \<noteq> None)"
    if mem: "f \<in> set ?files" for f h
  proof -
    obtain e where e: "e \<in> set es" "d (key_path base (fst e)) \<noteq> None" "snd (snd f) = key_path base (fst e)"
      using mem by auto
    obtain i where i: "fst (snd e) = info\<lparr>hi_weighting := fst i, hi_detector := snd i\<rparr>"
      using es(4) e(1) by (auto simp: same_log_def)
    have ok: "HeaderInfo_ok (pf_arith pf) config (fst (snd e))" "list_all (LogBlock_ok (pf_arith pf) (lc_referenceOffsetDb config)) (snd (snd e))"
      using fmt(2) rows e(1) unfolding es(5) [symmetric] by (auto simp: i HeaderInfo_ok_def list_all_iff)
    have csv: "seg_bytes pf config (snd e) = (if pf_crlf pf then to_crlf else id) (log_text ?cc (pf_arith pf) config (fst (snd e)) (snd (snd e)))"
      by (simp add: seg_bytes_def text_mode_def)
    have "prefix (readWholeFile fo (snd (snd f))) (seg_bytes pf config (snd e))"
      using es(4) e content by (auto simp: beginning_def)
    from read_beginning [OF fmt(1) ok csv this] show ?thesis
      by (auto simp: i)
  qed
  have header: "hp_referenceOffsetDb h = lc_referenceOffsetDb config \<and> hi_sampleRate (hp_info h) = hi_sampleRate info"
    if "chl_header chlog = Some h" for h
    using read_header(1) [where P = "\<lambda>h. hp_referenceOffsetDb h = lc_referenceOffsetDb config \<and> hi_sampleRate (hp_info h) = hi_sampleRate info"
        and fs = ?files and r = ChannelLog_empty and cc = ?cc and fo = fo] each that
    by (simp add: chlog_def ChannelLog_empty_def)
  have present: "chl_header chlog \<noteq> None \<and> chl_segmentPaths chlog \<noteq> []" if some: "chl_blocks chlog \<noteq> []"
  proof -
    have some_nonempty: "concat (map g xs) \<noteq> [] \<Longrightarrow> \<exists>x \<in> set xs. g x \<noteq> []" for g :: "nat \<times> nat \<times> string \<Rightarrow> LogBlock list" and xs
      by auto
    have "concat (map (\<lambda>f. lr_blocks (readLog ?cc (readWholeFile fo (snd (snd f))))) ?files) \<noteq> []"
      using some unfolding chlog_def read_files by (simp add: ChannelLog_empty_def)
    from some_nonempty [OF this] obtain f where f: "f \<in> set ?files" "lr_blocks (readLog ?cc (readWholeFile fo (snd (snd f)))) \<noteq> []"
      by blast
    have "chl_header chlog \<noteq> None"
      unfolding chlog_def
      by (rule read_header(2) [where P = "\<lambda>h. True", OF _ _ f(1)]) (use each [OF f(1)] f(2) in auto)
    moreover from f(1) have "?files \<noteq> []" by (metis list.set(1) empty_iff)
    then have "chl_segmentPaths chlog \<noteq> []"
      unfolding chlog_def read_files by (simp del: filter_empty_conv map_is_Nil_conv add: append_is_Nil_conv list.map_disc_iff)
    ultimately show ?thesis
      by blast
  qed
  show ?thesis
    using read blocks raw header present by blast
qed

end
