(* ===== verification/Session_Report.thy ===== *)
theory Session_Report
  imports Report_Payload
begin

text \<open>
  The report of a logged session, from the writers' operations to the payload: every level comes from the blocks on
  disk that no calibration failure excludes.
\<close>

section \<open>What a window counts\<close>

definition counted :: "Block \<Rightarrow> bool" where
  "counted b \<longleftrightarrow> \<not> hasFlag (blk_flags b) CalibrationInvalid"

abbreviation total_samples :: "Block list \<Rightarrow> nat" where
  "total_samples bs \<equiv> \<Sum>b \<leftarrow> bs. unat (blk_samples b)"

definition session_level :: "Block list \<Rightarrow> real \<Rightarrow> real option" where
  "session_level bs offset =
     (let e = (\<Sum>b \<leftarrow> bs. blk_sumSquares b); n = total_samples bs
      in if n = 0 then None
         else Some ((if e > 0 then 10 * log 10 (e / real n) else kLevelFloorDb) + offset))"

definition session_max :: "(Block \<Rightarrow> real) \<Rightarrow> Block list \<Rightarrow> real \<Rightarrow> real" where
  "session_max f bs offset = (if total_samples bs = 0 then kLevelFloorDb else fold (\<lambda>b m. max m (f b)) bs kLevelFloorDb + offset)"

lemma count_flags_frame:
  "excludedBlocks (count_flags r b) = excludedBlocks r" "win_leqDb (count_flags r b) = win_leqDb r"
  "win_maxFastDb (count_flags r b) = win_maxFastDb r" "win_peakDb (count_flags r b) = win_peakDb r"
  by (simp_all add: count_flags_def Let_def)

lemma combine_step:
  "cs_sumSquares (combine_block b cs) = cs_sumSquares cs + (if counted b then blk_sumSquares b else 0)"
  "cs_samples (combine_block b cs) = cs_samples cs + (if counted b then ucast (blk_samples b) else 0)"
  "cs_maxFast (combine_block b cs) = (if counted b then max (cs_maxFast cs) (blk_maxFastDb b) else cs_maxFast cs)"
  "cs_peak (combine_block b cs) = (if counted b then max (cs_peak cs) (blk_peakDb b) else cs_peak cs)"
  "excludedBlocks (cs_result (combine_block b cs)) = excludedBlocks (cs_result cs) + (if counted b then 0 else 1)"
  "win_leqDb (cs_result (combine_block b cs)) = win_leqDb (cs_result cs)"
  "win_maxFastDb (cs_result (combine_block b cs)) = win_maxFastDb (cs_result cs)"
  "win_peakDb (cs_result (combine_block b cs)) = win_peakDb (cs_result cs)"
  by (simp_all add: combine_block_def Let_def counted_def hasFlag_def kExcludingFlags_def count_flags_frame)

lemma combine_counted:
  "cs_sumSquares (fold combine_block bs cs) = cs_sumSquares cs + (\<Sum>b \<leftarrow> filter counted bs. blk_sumSquares b)"
  "cs_samples (fold combine_block bs cs) = cs_samples cs + word_of_nat (total_samples (filter counted bs))"
  "cs_maxFast (fold combine_block bs cs) = fold (\<lambda>b m. max m (blk_maxFastDb b)) (filter counted bs) (cs_maxFast cs)"
  "cs_peak (fold combine_block bs cs) = fold (\<lambda>b m. max m (blk_peakDb b)) (filter counted bs) (cs_peak cs)"
  "excludedBlocks (cs_result (fold combine_block bs cs)) =
     excludedBlocks (cs_result cs) + word_of_nat (length (filter (Not \<circ> counted) bs))"
  "win_leqDb (cs_result (fold combine_block bs cs)) = win_leqDb (cs_result cs)"
  "win_maxFastDb (cs_result (fold combine_block bs cs)) = win_maxFastDb (cs_result cs)"
  "win_peakDb (cs_result (fold combine_block bs cs)) = win_peakDb (cs_result cs)"
  by (induction bs arbitrary: cs) (simp_all add: combine_step)

lemma combineBlocks_counted:
  assumes "total_samples (filter counted bs) < 2 ^ 64"
  shows "win_leqDb (combineBlocks bs rate offset w) = session_level (filter counted bs) offset"
    "win_maxFastDb (combineBlocks bs rate offset w) = session_max blk_maxFastDb (filter counted bs) offset"
    "win_peakDb (combineBlocks bs rate offset w) = session_max blk_peakDb (filter counted bs) offset"
    "win_seconds (combineBlocks bs rate offset w) = (if rate > 0 then real (total_samples (filter counted bs)) / rate else 0)"
    "excludedBlocks (combineBlocks bs rate offset w) = word_of_nat (length (filter (Not \<circ> counted) bs))"
proof -
  define n where "n = total_samples (filter counted bs)"
  have n: "unat (word_of_nat n :: uint64_t) = n"
    using assms unfolding n_def by (rule unat_nat64)
  note run = combine_counted [of bs combine_start, folded n_def]
  have start: "cs_sumSquares combine_start = 0" "cs_samples combine_start = 0" "cs_maxFast combine_start = kLevelFloorDb"
      "cs_peak combine_start = kLevelFloorDb" "excludedBlocks (cs_result combine_start) = 0"
      "win_leqDb (cs_result combine_start) = None" "win_maxFastDb (cs_result combine_start) = kLevelFloorDb"
      "win_peakDb (cs_result combine_start) = kLevelFloorDb"
    by (simp_all add: combine_start_def WindowResult_default_def)
  have pos: "0 < cs_samples (fold combine_block bs combine_start) \<longleftrightarrow> n \<noteq> 0"
    using n by (simp add: run start word_less_nat_alt)
  show "win_leqDb (combineBlocks bs rate offset w) = session_level (filter counted bs) offset"
    "win_maxFastDb (combineBlocks bs rate offset w) = session_max blk_maxFastDb (filter counted bs) offset"
    "win_peakDb (combineBlocks bs rate offset w) = session_max blk_peakDb (filter counted bs) offset"
    "win_seconds (combineBlocks bs rate offset w) = (if rate > 0 then real (total_samples (filter counted bs)) / rate else 0)"
    "excludedBlocks (combineBlocks bs rate offset w) = word_of_nat (length (filter (Not \<circ> counted) bs))"
    unfolding combineBlocks_def Let_def session_level_def session_max_def n_def [symmetric]
    using pos n by (simp_all add: run start)
qed

section \<open>The history strip\<close>

lemma history_blocks:
  "hs_points (fst (fold (history_block metricId offset) bs sm)) =
     hs_points (fst sm) @ map (\<lambda>b. (blockIndex b, point_level b offset)) (filter counted bs)"
  "hs_metricId (fst (fold (history_block metricId offset) bs sm)) = hs_metricId (fst sm)"
  by (induction bs arbitrary: sm) (simp_all add: history_block_def Let_def split_beta counted_def)

text \<open>The markers of a block: a clipped waveform, then lost samples.\<close>

definition block_markers :: "int \<Rightarrow> Block \<Rightarrow> SplMarker list" where
  "block_markers channel b =
     (let marker = (\<lambda>kind. SplMarker_default\<lparr>mk_blockIndex := blockIndex b, mk_kind := kind,
                      mk_quantity := marker_quantity (''ch'' @ to_chars_int channel)\<rparr>)
      in (if hasFlag (blk_flags b) BlockFlag.Overload then [marker MarkerOverload] else []) @
         (if hasFlag (blk_flags b) BlockFlag.Gap then [marker MarkerGap] else []))"

lemma history_markers:
  "snd (fold (history_block (''ch'' @ to_chars_int channel) offset) bs sm) = snd sm @ concat (map (block_markers channel) bs)"
  by (induction bs arbitrary: sm) (simp_all add: history_block_def block_markers_def Let_def split_beta)

definition channel_history :: "int \<Rightarrow> Block list \<Rightarrow> real \<Rightarrow> ReportHistorySeries list" where
  "channel_history channel valid offset =
     (if valid = [] then []
      else [\<lparr>hs_metricId = ''ch'' @ to_chars_int channel, hs_points = map (\<lambda>b. (blockIndex b, point_level b offset)) valid\<rparr>])"

lemma history_appended:
  "rp_history (appendHistoryAndMarkers channel bs offset payload) =
     rp_history payload @ channel_history channel (filter counted bs) offset"
  "rp_markers (appendHistoryAndMarkers channel bs offset payload) = rp_markers payload @ concat (map (block_markers channel) bs)"
  "rp_metrics (appendHistoryAndMarkers channel bs offset payload) = rp_metrics payload"
  "rp_validity (appendHistoryAndMarkers channel bs offset payload) = rp_validity payload"
proof -
  define m where "m = ''ch'' @ to_chars_int channel"
  obtain series markers where h: "fold (history_block m offset) bs (\<lparr>hs_metricId = m, hs_points = []\<rparr>, rp_markers payload) =
      (series, markers)"
    by fastforce
  have "series = \<lparr>hs_metricId = m, hs_points = map (\<lambda>b. (blockIndex b, point_level b offset)) (filter counted bs)\<rparr>"
    using history_blocks [of m offset bs "(\<lparr>hs_metricId = m, hs_points = []\<rparr>, rp_markers payload)"]
    by (cases series) (simp add: h)
  then show "rp_history (appendHistoryAndMarkers channel bs offset payload) =
     rp_history payload @ channel_history channel (filter counted bs) offset"
    unfolding appendHistoryAndMarkers_def channel_history_def m_def [symmetric] Let_def h
    by (simp del: filter_empty_conv)
  have "markers = rp_markers payload @ concat (map (block_markers channel) bs)"
    using history_markers [of channel offset bs "(\<lparr>hs_metricId = m, hs_points = []\<rparr>, rp_markers payload)", folded m_def] h by simp
  then show "rp_markers (appendHistoryAndMarkers channel bs offset payload) = rp_markers payload @ concat (map (block_markers channel) bs)"
    unfolding appendHistoryAndMarkers_def m_def [symmetric] Let_def h by simp
  show "rp_metrics (appendHistoryAndMarkers channel bs offset payload) = rp_metrics payload"
    "rp_validity (appendHistoryAndMarkers channel bs offset payload) = rp_validity payload"
    unfolding appendHistoryAndMarkers_def m_def [symmetric] Let_def h by simp_all
qed

section \<open>Blocks in a failed bracket\<close>

definition in_failed_bracket :: "SplCalibrationRecordInfo option \<Rightarrow> int \<Rightarrow> Block \<Rightarrow> bool" where
  "in_failed_bracket cal channel b \<longleftrightarrow>
     (case cal of
        None \<Rightarrow> False
      | Some info \<Rightarrow> rf_performed (cr_fields info) \<and> rf_verdict (cr_fields info) = Some Fail \<and> cr_channel info = channel \<and>
          cr_startBlockIndex info \<le> blockIndex b \<and> blockIndex b \<le> cr_endBlockIndex info)"

definition trusted_blocks :: "SplCalibrationRecordInfo option \<Rightarrow> int \<Rightarrow> Block list \<Rightarrow> Block list" where
  "trusted_blocks cal channel = filter (\<lambda>b. counted b \<and> \<not> in_failed_bracket cal channel b)"

lemma counted_mark: "counted (mark_invalid s e b) \<longleftrightarrow> counted b \<and> \<not> (s \<le> blockIndex b \<and> blockIndex b \<le> e)"
proof -
  have "(f OR 8) AND 8 = (8 :: uint32_t)" for f :: uint32_t
    by (simp add: bit.conj_disj_distrib2)
  then show ?thesis
    by (simp add: counted_def mark_invalid_def hasFlag_def flagMask_def)
qed

definition bracketed :: "SplCalibrationRecordInfo option \<Rightarrow> int \<Rightarrow> Block list \<Rightarrow> Block list" where
  "bracketed cal channel blocks =
     (if bracket_applies cal channel
      then map (mark_invalid (cr_startBlockIndex (the cal)) (cr_endBlockIndex (the cal))) blocks else blocks)"

lemma filter_marked: "filter counted (map (mark_invalid s e) bs) = filter (\<lambda>b. counted b \<and> \<not> (s \<le> blockIndex b \<and> blockIndex b \<le> e)) bs"
proof -
  have same: "mark_invalid s e b = b" if "\<not> (s \<le> blockIndex b \<and> blockIndex b \<le> e)" for b
    using that by (auto simp: mark_invalid_def)
  show ?thesis
    by (induction bs) (auto simp: counted_mark same)
qed

lemma counted_bracketed:
  "filter counted (bracketed cal channel bs) = trusted_blocks cal channel bs"
  "length (bracketed cal channel bs) = length bs"
proof -
  show "filter counted (bracketed cal channel bs) = trusted_blocks cal channel bs"
  proof (cases cal)
    case (Some info)
    then show ?thesis
      by (auto simp: bracketed_def trusted_blocks_def bracket_applies_def in_failed_bracket_def filter_marked intro!: filter_cong)
  qed (simp add: bracketed_def trusted_blocks_def bracket_applies_def in_failed_bracket_def)
  show "length (bracketed cal channel bs) = length bs"
    by (simp add: bracketed_def)
qed

text \<open>A failed calibration leaves the facts about the signal itself as they were.\<close>

lemma markers_bracketed:
  "concat (map (block_markers channel) (bracketed cal channel bs)) = concat (map (block_markers channel) bs)"
proof -
  have "(f OR 8) AND 1 = f AND (1 :: uint32_t)" "(f OR 8) AND 16 = f AND (16 :: uint32_t)" for f :: uint32_t
    by (simp_all add: bit.conj_disj_distrib2)
  then have "block_markers channel (mark_invalid s e b) = block_markers channel b" for s e b
    by (simp add: block_markers_def mark_invalid_def hasFlag_def flagMask_def)
  then show ?thesis
    by (simp add: bracketed_def comp_def)
qed

section \<open>A channel that was logged\<close>

text \<open>All that happened to the writer of a channel: how its files were opened, what it was told to write, how each call ended.\<close>

record logged_channel =
  lg_opened :: "bool \<times> nat"
  lg_config :: SplLogConfig
  lg_info :: SplLogHeaderInfo
  lg_limit :: uint64_t
  lg_before :: disk
  lg_ops :: "writer_op list"

definition log_base :: "folder \<Rightarrow> int \<Rightarrow> string" where
  "log_base fo channel = fo_path fo @ slash # channel_basename channel"

definition log_left :: "platform \<Rightarrow> folder \<Rightarrow> int \<Rightarrow> logged_channel \<Rightarrow> SplLogWriter \<times> disk" where
  "log_left pf fo channel lg =
     fold (writer_step pf) (lg_ops lg)
       (SplLogWriter_new pf (lg_opened lg) (log_base fo channel) (lg_config lg) (lg_info lg) (lg_limit lg) (lg_before lg))"

definition log_written :: "logged_channel \<Rightarrow> LogBlock list" where
  "log_written lg = concat (map written_block (lg_ops lg))"

text \<open>The rows complete on disk, and their blocks.\<close>

definition disk_rows :: "platform \<Rightarrow> folder \<Rightarrow> int \<Rightarrow> logged_channel \<Rightarrow> LogBlock list" where
  "disk_rows pf fo channel lg =
     concat (map (blocks_on_disk pf (snd (log_left pf fo channel lg))) (lw_segmentPaths (fst (log_left pf fo channel lg))))"

definition disk_blocks :: "platform \<Rightarrow> folder \<Rightarrow> int \<Rightarrow> logged_channel \<Rightarrow> Block list" where
  "disk_blocks pf fo channel lg = map block_of_row (disk_rows pf fo channel lg)"

definition disk_files :: "platform \<Rightarrow> folder \<Rightarrow> int \<Rightarrow> logged_channel \<Rightarrow> string list" where
  "disk_files pf fo channel lg =
     (let (w, d) = log_left pf fo channel lg in map (the \<circ> d) (filter (\<lambda>p. d p \<noteq> None) (lw_segmentPaths w)))"

abbreviation log_offset :: "logged_channel \<Rightarrow> real" where
  "log_offset lg \<equiv> double_value (lc_referenceOffsetDb (lg_config lg))"

abbreviation log_rate :: "logged_channel \<Rightarrow> real" where
  "log_rate lg \<equiv> double_value (hi_sampleRate (lg_info lg))"

text \<open>The log names files of its own, what is written to it are numbers, and the folder holds what the writer left.\<close>

definition LogBlock_finite :: "LogBlock \<Rightarrow> bool" where
  "LogBlock_finite b \<longleftrightarrow>
     is_finite64 (lb_sumSquares b) \<and> is_finite32 (lb_maxFastDb b) \<and> is_finite32 (lb_maxSlowDb b) \<and> is_finite32 (lb_peakDb b)"

definition record_finite :: "SplCalibrationRecordInfo \<Rightarrow> bool" where
  "record_finite info \<longleftrightarrow>
     is_finite64 (rf_driftDb (cr_fields info)) \<and>
     list_all (\<lambda>c. is_finite64 (cl_nominalDb (ck_level c)) \<and> is_finite64 (ck_measuredLevelDb c) \<and> is_finite64 (ck_offsetDb c))
       [rf_start (cr_fields info), rf_end (cr_fields info)]"

definition log_ok :: "platform \<Rightarrow> folder \<Rightarrow> int \<Rightarrow> logged_channel \<Rightarrow> bool" where
  "log_ok pf fo channel lg \<longleftrightarrow>
     length (lg_ops lg) < 2 ^ 32 \<and>
     (\<forall>g s. lg_before lg (segment_path (log_base fo channel) g s) = None) \<and>
     HeaderInfo_ok (pf_arith pf) (lg_config lg) (lg_info lg) \<and>
     list_all (LogBlock_ok (pf_arith pf) (lc_referenceOffsetDb (lg_config lg))) (log_written lg) \<and>
     is_finite64 (lc_referenceOffsetDb (lg_config lg)) \<and> is_finite64 (hi_sampleRate (lg_info lg)) \<and>
     list_all LogBlock_finite (log_written lg) \<and>
     holds_log fo channel (snd (log_left pf fo channel lg))"

lemma written_at_most: "length (concat (map written_block ops)) \<le> length ops"
proof (induction ops)
  case (Cons op ops)
  then show ?case
    by (cases op) simp_all
qed simp

lemma prefixes_length:
  "list_all2 (\<lambda>p seg. prefix (f p) (snd seg) \<and> Q seg) ps segs \<Longrightarrow> length (concat (map f ps)) \<le> length (concat (map snd segs))"
  by (induction rule: list_all2_induct) (auto dest: prefix_length_le intro: add_mono)

lemma disk_rows_facts:
  assumes "log_ok pf fo channel lg" "header_format (pf_charconv pf)"
  shows "length (disk_rows pf fo channel lg) < 2 ^ 32"
    and "\<not> lw_writeFailed (fst (log_left pf fo channel lg)) \<Longrightarrow> disk_rows pf fo channel lg = log_written lg"
proof -
  obtain w d where run: "log_left pf fo channel lg = (w, d)"
    by fastforce
  have rows: "row_format (pf_charconv pf)"
    using assms(2) by (simp add: header_format_def)
  have "length (lg_ops lg) < 2 ^ 64 - 1"
    using assms(1) by (simp add: log_ok_def)
  from writer_files [OF rows this _ _ run [unfolded log_left_def] refl] assms(1)
  have files: "list_all2 (\<lambda>p seg. prefix (blocks_on_disk pf d p) (snd seg) \<and> length (snd seg) \<le> max 1 (unat (lg_limit lg)))
       (lw_segmentPaths w) (fold (segments_step (unat (lg_limit lg))) (lg_ops lg) [(lg_info lg, [])])"
     "concat (map snd (fold (segments_step (unat (lg_limit lg))) (lg_ops lg) [(lg_info lg, [])])) = log_written lg"
     "\<not> lw_writeFailed w \<longrightarrow> concat (map (blocks_on_disk pf d) (lw_segmentPaths w)) = log_written lg"
    unfolding log_ok_def log_written_def by blast+
  have "length (concat (map (blocks_on_disk pf d) (lw_segmentPaths w))) \<le> length (log_written lg)"
    using prefixes_length [OF files(1)] by (simp only: files(2))
  also have "\<dots> \<le> length (lg_ops lg)"
    unfolding log_written_def by (rule written_at_most)
  finally show "length (disk_rows pf fo channel lg) < 2 ^ 32"
    using assms(1) by (simp add: disk_rows_def run log_ok_def)
  show "\<not> lw_writeFailed (fst (log_left pf fo channel lg)) \<Longrightarrow> disk_rows pf fo channel lg = log_written lg"
    using files(3) by (simp add: run disk_rows_def)
qed

lemma samples_bound: "total_samples bs \<le> length bs * (2 ^ 32 - 1)"
proof (induction bs)
  case (Cons b bs)
  have "unat (blk_samples b) < 2 ^ 32"
    using unsigned_less [of "blk_samples b"] by simp
  then show ?case
    using Cons.IH by simp
qed simp

lemma read_logged_channel:
  assumes "log_ok pf fo channel lg" "header_format (pf_charconv pf)" "disk_rows pf fo channel lg \<noteq> []"
  obtains chlog h where "readChannelLog (pf_charconv pf) fo channel = Some chlog" "chl_blocks chlog = disk_rows pf fo channel lg"
    "chl_segmentRawBytes chlog = disk_files pf fo channel lg" "chl_header chlog = Some h" "chl_segmentPaths chlog \<noteq> []"
    "hp_referenceOffsetDb h = lc_referenceOffsetDb (lg_config lg)" "hi_sampleRate (hp_info h) = hi_sampleRate (lg_info lg)"
proof -
  obtain w d where run: "log_left pf fo channel lg = (w, d)"
    by fastforce
  have few: "length (lg_ops lg) < 2 ^ 64 - 1"
    using assms(1) by (simp add: log_ok_def)
  have "\<exists>chlog. readChannelLog (pf_charconv pf) fo channel = Some chlog \<and>
    chl_blocks chlog = concat (map (blocks_on_disk pf d) (lw_segmentPaths w)) \<and>
    chl_segmentRawBytes chlog = map (the \<circ> d) (filter (\<lambda>p. d p \<noteq> None) (lw_segmentPaths w)) \<and>
    (\<forall>h. chl_header chlog = Some h \<longrightarrow>
       hp_referenceOffsetDb h = lc_referenceOffsetDb (lg_config lg) \<and> hi_sampleRate (hp_info h) = hi_sampleRate (lg_info lg)) \<and>
    (chl_blocks chlog \<noteq> [] \<longrightarrow> chl_header chlog \<noteq> None \<and> chl_segmentPaths chlog \<noteq> [])"
    by (rule channel_log [OF run [unfolded log_left_def] few _ assms(2)])
      (use assms(1) in \<open>simp_all add: log_ok_def log_written_def log_base_def run\<close>)
  then show thesis
    using assms(3) that by (auto simp: disk_rows_def disk_files_def run)
qed

section \<open>The row of a channel\<close>

definition metric_states ::
  "SplCalibrationRecordInfo option \<Rightarrow> platform \<Rightarrow> folder \<Rightarrow> int \<times> logged_channel \<Rightarrow> ReportMetricResult \<Rightarrow> bool" where
  "metric_states cal pf fo cl m \<longleftrightarrow>
     (let (channel, lg) = cl; trusted = trusted_blocks cal channel (disk_blocks pf fo channel lg)
      in me_id m = ''ch'' @ to_chars_int channel \<and>
         me_leqDb m = session_level trusted (log_offset lg) \<and>
         me_lmaxDb m = Some (session_max blk_maxFastDb trusted (log_offset lg)) \<and>
         me_lpeakDb m = Some (session_max blk_peakDb trusted (log_offset lg)) \<and>
         me_intervalSeconds m = (if log_rate lg > 0 then real (total_samples trusted) / log_rate lg else 0))"

definition history_of ::
  "SplCalibrationRecordInfo option \<Rightarrow> platform \<Rightarrow> folder \<Rightarrow> int \<times> logged_channel \<Rightarrow> ReportHistorySeries list" where
  "history_of cal pf fo cl =
     (let (channel, lg) = cl
      in channel_history channel (trusted_blocks cal channel (disk_blocks pf fo channel lg)) (log_offset lg))"

definition markers_of :: "platform \<Rightarrow> folder \<Rightarrow> int \<times> logged_channel \<Rightarrow> SplMarker list" where
  "markers_of pf fo cl = (let (channel, lg) = cl in concat (map (block_markers channel) (disk_blocks pf fo channel lg)))"

definition blocks_of :: "platform \<Rightarrow> folder \<Rightarrow> int \<times> logged_channel \<Rightarrow> Block list" where
  "blocks_of pf fo cl = (let (channel, lg) = cl in disk_blocks pf fo channel lg)"

definition excluded_of :: "SplCalibrationRecordInfo option \<Rightarrow> platform \<Rightarrow> folder \<Rightarrow> int \<times> logged_channel \<Rightarrow> nat" where
  "excluded_of cal pf fo cl =
     (let (channel, lg) = cl; blocks = disk_blocks pf fo channel lg in length blocks - length (trusted_blocks cal channel blocks))"

definition usable_log :: "platform \<Rightarrow> folder \<Rightarrow> int \<times> logged_channel \<Rightarrow> bool" where
  "usable_log pf fo cl \<longleftrightarrow> (let (channel, lg) = cl in log_ok pf fo channel lg \<and> disk_rows pf fo channel lg \<noteq> [])"

definition failed_range :: "SplCalibrationRecordInfo option \<Rightarrow> int list \<Rightarrow> (uint64_t \<times> uint64_t) option \<Rightarrow> (uint64_t \<times> uint64_t) option" where
  "failed_range cal channels old =
     (if list_ex (bracket_applies cal) channels then Some (cr_startBlockIndex (the cal), cr_endBlockIndex (the cal)) else old)"

lemma excluded_length: "length (filter (Not \<circ> P) bs) = length bs - length (filter P bs)"
  using sum_length_filter_compl [of P bs] by (simp add: comp_def)

lemma metric_fields:
  "me_id (channel_metric channel chlog whole) = ''ch'' @ to_chars_int channel"
  "me_leqDb (channel_metric channel chlog whole) = win_leqDb whole"
  "me_lmaxDb (channel_metric channel chlog whole) = Some (win_maxFastDb whole)"
  "me_lpeakDb (channel_metric channel chlog whole) = Some (win_peakDb whole)"
  "me_intervalSeconds (channel_metric channel chlog whole) = win_seconds whole"
  by (simp_all add: channel_metric_def Let_def split: option.split)

lemma appended_frame:
  "rp_calibration (appendHistoryAndMarkers channel bs offset payload) = rp_calibration payload"
  by (simp add: appendHistoryAndMarkers_def Let_def split_beta)

text \<open>What turns of the loop add to the payload.\<close>

definition channels_added ::
  "SplCalibrationRecordInfo option \<Rightarrow> platform \<Rightarrow> folder \<Rightarrow> (int \<times> logged_channel) list \<Rightarrow> build_state \<Rightarrow> build_state \<Rightarrow> bool"
where
  "channels_added cal pf fo cls s s' \<longleftrightarrow>
     (let p = bs_payload s; p' = bs_payload s'; v = rp_validity p; v' = rp_validity p'
      in (cls \<noteq> [] \<longrightarrow> bs_any s') \<and> bs_noLog s' = bs_noLog s \<and>
         bs_segmentBytes s' = bs_segmentBytes s @ concat (map (\<lambda>(channel, lg). disk_files pf fo channel lg) cls) \<and>
         (\<exists>ms. rp_metrics p' = rp_metrics p @ ms \<and> list_all2 (metric_states cal pf fo) cls ms) \<and>
         rp_history p' = rp_history p @ concat (map (history_of cal pf fo) cls) \<and>
         rp_markers p' = rp_markers p @ concat (map (markers_of pf fo) cls) \<and>
         rp_calibration p' = rp_calibration p \<and>
         va_totalBlocks v' = va_totalBlocks v + word_of_nat (\<Sum>cl \<leftarrow> cls. length (blocks_of pf fo cl)) \<and>
         va_excludedBlocks v' = va_excludedBlocks v + word_of_nat (\<Sum>cl \<leftarrow> cls. excluded_of cal pf fo cl) \<and>
         va_excludedBlockRange v' = failed_range cal (map fst cls) (va_excludedBlockRange v))"

lemma build_logged_channel:
  assumes ok: "usable_log pf fo (channel, lg)" "header_format (pf_charconv pf)"
  shows "\<exists>s'. build_channel (pf_charconv pf) fo cal channel s = Some s' \<and> channels_added cal pf fo [(channel, lg)] s s'"
proof -
  have lg: "log_ok pf fo channel lg" "disk_rows pf fo channel lg \<noteq> []"
    using ok(1) by (simp_all add: usable_log_def)
  obtain chlog h where chlog: "readChannelLog (pf_charconv pf) fo channel = Some chlog" "chl_blocks chlog = disk_rows pf fo channel lg"
    "chl_segmentRawBytes chlog = disk_files pf fo channel lg" "chl_header chlog = Some h" "chl_segmentPaths chlog \<noteq> []"
    "hp_referenceOffsetDb h = lc_referenceOffsetDb (lg_config lg)" "hi_sampleRate (hp_info h) = hi_sampleRate (lg_info lg)"
    by (rule read_logged_channel [OF lg(1) ok(2) lg(2)])
  let ?blocks = "disk_blocks pf fo channel lg"
  let ?marked = "bracketed cal channel ?blocks"
  have marked: "(if bracket_applies cal channel
        then map (mark_invalid (cr_startBlockIndex (the cal)) (cr_endBlockIndex (the cal))) (map block_of_row (disk_rows pf fo channel lg))
        else map block_of_row (disk_rows pf fo channel lg)) = ?marked"
    by (simp add: bracketed_def disk_blocks_def)
  define whole where "whole = combineBlocks ?marked (log_rate lg) (log_offset lg) (word_of_nat (length ?marked))"
  have "total_samples (trusted_blocks cal channel ?blocks) \<le> length ?blocks * (2 ^ 32 - 1)"
    using samples_bound [of "trusted_blocks cal channel ?blocks"] by (rule order_trans) (simp add: trusted_blocks_def)
  moreover have "length ?blocks < 2 ^ 32"
    using disk_rows_facts(1) [OF lg(1) ok(2)] by (simp add: disk_blocks_def)
  then have "length ?blocks * (2 ^ 32 - 1) < 2 ^ 64"
    by simp
  ultimately have "total_samples (filter counted ?marked) < 2 ^ 64"
    unfolding counted_bracketed by (rule le_less_trans)
  note said = combineBlocks_counted [OF this, of "log_rate lg" "log_offset lg" "word_of_nat (length ?marked)",
      folded whole_def, unfolded excluded_length counted_bracketed]
  have "metric_states cal pf fo (channel, lg) (channel_metric channel chlog whole)"
    by (simp add: metric_states_def metric_fields said)
  then show ?thesis
    unfolding build_channel_def chlog(1) option.case Let_def chlog(2,3,4,6,7) marked whole_def [symmetric] if_not_P [OF chlog(5)]
    by (simp add: channels_added_def history_appended appended_frame count_validity_def counted_bracketed markers_bracketed history_of_def markers_of_def
        blocks_of_def
        excluded_of_def failed_range_def said Let_def)
qed

section \<open>All channels\<close>

lemma channels_added_trans:
  assumes "channels_added cal pf fo [cl] s s1" "channels_added cal pf fo cls s1 s2" "cls = [] \<longrightarrow> s2 = s1"
  shows "channels_added cal pf fo (cl # cls) s s2"
  using assms by (auto simp: channels_added_def failed_range_def Let_def list_all2_Cons1)

lemma build_channels:
  assumes "header_format (pf_charconv pf)" "list_all (usable_log pf fo) cls"
  shows "\<exists>s'. fold_opt (build_channel (pf_charconv pf) fo cal) (map fst cls) s = Some s' \<and>
    channels_added cal pf fo cls s s' \<and> (cls = [] \<longrightarrow> s' = s)"
  using assms(2)
proof (induction cls arbitrary: s)
  case Nil
  then show ?case
    by (simp add: channels_added_def failed_range_def)
next
  case (Cons cl cls)
  then obtain s1 where one: "build_channel (pf_charconv pf) fo cal (fst cl) s = Some s1" "channels_added cal pf fo [cl] s s1"
    using build_logged_channel [OF _ assms(1), of fo "fst cl" "snd cl" cal s] by auto
  obtain s2 where "fold_opt (build_channel (pf_charconv pf) fo cal) (map fst cls) s1 = Some s2"
      "channels_added cal pf fo cls s1 s2" "cls = [] \<longrightarrow> s2 = s1"
    using Cons by fastforce
  then show ?case
    using one channels_added_trans [OF one(2)] by auto
qed

lemma live_frame:
  "rp_history (add_live_view view payload) = rp_history payload"
  "rp_markers (add_live_view view payload) = rp_markers payload"
  "rp_calibration (add_live_view view payload) = rp_calibration payload"
  "va_totalBlocks (rp_validity (add_live_view view payload)) = va_totalBlocks (rp_validity payload)"
  "va_excludedBlocks (rp_validity (add_live_view view payload)) = va_excludedBlocks (rp_validity payload)"
  "va_excludedBlockRange (rp_validity (add_live_view view payload)) = va_excludedBlockRange (rp_validity payload)"
  by (simp_all add: add_live_view_def Let_def split: option.split list.split)

lemma live_metrics:
  assumes "list_all2 (metric_states cal pf fo) cls (rp_metrics payload)"
  shows "list_all2 (metric_states cal pf fo) cls (rp_metrics (add_live_view view payload))"
proof -
  have "metric_states cal pf fo cl (m\<lparr>me_lnDb := a, me_lnPercents := b\<rparr>) = metric_states cal pf fo cl m" for cl m a b
    by (simp add: metric_states_def split_beta Let_def)
  then show ?thesis
    using assms by (auto simp: add_live_view_def Let_def list_all2_Cons2 split: option.split list.split)
qed

lemma request_frame:
  "rp_metrics (request_payload rq cal) = []" "rp_history (request_payload rq cal) = []"
  "rp_markers (request_payload rq cal) = []"
  "rp_validity (request_payload rq cal) = ReportValidity_default"
  "rp_calibration (request_payload rq cal) =
     (case cal of None \<Rightarrow> CalibrationReportFields_default | Some info \<Rightarrow> value_fields (cr_fields info))"
  by (simp_all add: request_payload_def ReportPayload_default_def Let_def split: option.split)

lemma excluded_at_most: "excluded_of cal pf fo cl \<le> length (blocks_of pf fo cl)"
  by (simp add: excluded_of_def blocks_of_def split_beta Let_def)

lemma blocks_few:
  assumes "usable_log pf fo cl" "header_format (pf_charconv pf)"
  shows "length (blocks_of pf fo cl) < 2 ^ 32"
  using assms disk_rows_facts(1) [of pf fo "fst cl" "snd cl"]
  by (simp add: blocks_of_def usable_log_def disk_blocks_def split_beta Let_def)

lemma sum_list_few:
  assumes "\<forall>x \<in> set xs. f x < 2 ^ 32" "length xs < (2 :: nat) ^ 32"
  shows "(\<Sum>x \<leftarrow> xs. f x :: nat) < 2 ^ 64"
proof -
  have "(\<Sum>x \<leftarrow> xs. f x) \<le> (\<Sum>x \<leftarrow> xs. 2 ^ 32)"
    using assms(1) by (intro sum_list_mono) (auto intro: less_imp_le)
  also have "\<dots> = length xs * 2 ^ 32"
    by (simp add: sum_list_triv)
  also have "\<dots> < 2 ^ 64"
    using assms(2) by simp
  finally show ?thesis .
qed

section \<open>The report\<close>

text \<open>
  Property C1: the report of logged channels says what is on disk and what the calibration allows, in whatever order the
  folder lists its files and wherever the last file of a log was cut.  Each requested channel has one row: its level,
  maxima and duration are those of the complete rows on disk that carry no exclusion flag and do not lie in a failed
  calibration bracket of that very channel, shifted by the offset of the log's header; its history shows exactly these
  blocks, one of digital silence at \<open>-\<infinity>\<close>; every clipped block and every gap on disk has its marker, excluded or not; the counts of blocks and of excluded blocks add up over the channels; the bytes of the log files follow in
  the order they were written.  If no write failed, the blocks on disk are all blocks that were logged.
\<close>

theorem report_of_logged_session:
  assumes "header_format (pf_charconv pf)" and "rq_channels rq = map fst logs" and "logs \<noteq> []" and "length logs < 2 ^ 32"
    and "list_all (usable_log pf fo) logs" and "cal = folder_record (pf_charconv pf) fo"
    and "\<forall>info. cal = Some info \<longrightarrow> record_finite info"
  shows "\<exists>payload. buildReportPayload (pf_charconv pf) fo rq = Some \<lparr>rr_payload = Some payload, rr_channelsWithNoLog = []\<rparr> \<and>
    list_all2 (metric_states cal pf fo) logs (rp_metrics payload) \<and>
    rp_history payload = concat (map (history_of cal pf fo) logs) \<and>
    rp_markers payload = concat (map (markers_of pf fo) logs) \<and>
    rp_calibration payload =
      (case cal of None \<Rightarrow> CalibrationReportFields_default | Some info \<Rightarrow> value_fields (cr_fields info)) \<and>
    unat (va_totalBlocks (rp_validity payload)) = (\<Sum>cl \<leftarrow> logs. length (blocks_of pf fo cl)) \<and>
    unat (va_excludedBlocks (rp_validity payload)) = (\<Sum>cl \<leftarrow> logs. excluded_of cal pf fo cl) \<and>
    va_excludedBlockRange (rp_validity payload) = failed_range cal (rq_channels rq) None \<and>
    rp_logSegments payload = concat (map (\<lambda>(channel, lg). disk_files pf fo channel lg) logs) \<and>
    (\<forall>(channel, lg) \<in> set logs. \<not> lw_writeFailed (fst (log_left pf fo channel lg)) \<longrightarrow>
       blocks_of pf fo (channel, lg) = map block_of_row (log_written lg))"
proof -
  let ?start = "\<lparr>bs_payload = request_payload rq cal, bs_segmentBytes = [], bs_firstHeader = None, bs_any = False, bs_noLog = []\<rparr>"
  obtain s where s: "fold_opt (build_channel (pf_charconv pf) fo cal) (rq_channels rq) ?start = Some s"
      "channels_added cal pf fo logs ?start s"
    using build_channels [OF assms(1,5), of cal ?start] assms(2) by auto
  define payload where "payload = add_live_view (rq_liveView rq) (case bs_firstHeader s of None \<Rightarrow> bs_payload s
      | Some h \<Rightarrow> (bs_payload s)\<lparr>rp_config := (rp_config (bs_payload s))\<lparr>cf_referenceOffsetDb := double_value (hp_referenceOffsetDb h),
          cf_calibrated := hp_calibrated h\<rparr>, rp_sampleRate := double_value (hi_sampleRate (hp_info h))\<rparr>)"
  have built: "buildReportPayload (pf_charconv pf) fo rq =
      Some \<lparr>rr_payload = Some (payload\<lparr>rp_logSegments := bs_segmentBytes s\<rparr>), rr_channelsWithNoLog = []\<rparr>"
    using s assms(3) by (simp add: buildReportPayload_def assms(6) [symmetric] payload_def channels_added_def Let_def)
  have fields: "list_all2 (metric_states cal pf fo) logs (rp_metrics payload)"
      "rp_history payload = concat (map (history_of cal pf fo) logs)"
      "rp_markers payload = concat (map (markers_of pf fo) logs)"
      "rp_calibration payload = (case cal of None \<Rightarrow> CalibrationReportFields_default | Some info \<Rightarrow> value_fields (cr_fields info))"
      "va_totalBlocks (rp_validity payload) = word_of_nat (\<Sum>cl \<leftarrow> logs. length (blocks_of pf fo cl))"
      "va_excludedBlocks (rp_validity payload) = word_of_nat (\<Sum>cl \<leftarrow> logs. excluded_of cal pf fo cl)"
      "va_excludedBlockRange (rp_validity payload) = failed_range cal (rq_channels rq) None"
    unfolding payload_def using s(2) assms(2)
    by (auto simp: live_frame channels_added_def request_frame ReportValidity_default_def Let_def intro!: live_metrics split: option.split)
  have few: "\<forall>cl \<in> set logs. length (blocks_of pf fo cl) < 2 ^ 32"
    using blocks_few [OF _ assms(1)] assms(5) by (auto simp: list_all_iff)
  then have "\<forall>cl \<in> set logs. excluded_of cal pf fo cl < 2 ^ 32"
    using excluded_at_most le_less_trans by blast
  note small = sum_list_few [OF few assms(4)] sum_list_few [OF this assms(4)]
  then have "unat (va_totalBlocks (rp_validity payload)) = (\<Sum>cl \<leftarrow> logs. length (blocks_of pf fo cl))"
      "unat (va_excludedBlocks (rp_validity payload)) = (\<Sum>cl \<leftarrow> logs. excluded_of cal pf fo cl)"
    unfolding fields(5,6) by (simp_all only: unat_nat64)
  moreover have "bs_segmentBytes s = concat (map (\<lambda>(channel, lg). disk_files pf fo channel lg) logs)"
    using s(2) by (simp add: channels_added_def Let_def)
  moreover have "\<forall>(channel, lg) \<in> set logs. \<not> lw_writeFailed (fst (log_left pf fo channel lg)) \<longrightarrow>
       blocks_of pf fo (channel, lg) = map block_of_row (log_written lg)"
    using disk_rows_facts(2) [OF _ assms(1)] assms(5) by (auto simp: list_all_iff usable_log_def blocks_of_def disk_blocks_def)
  ultimately show ?thesis
    using built fields by (intro exI [of _ "payload\<lparr>rp_logSegments := bs_segmentBytes s\<rparr>"] conjI) simp_all
qed

definition sample_run :: logged_channel where
  "sample_run =
     \<lparr>lg_opened = (True, sample_room), lg_config = sample_log_config, lg_info = sample_log_info, lg_limit = 10,
      lg_before = (\<lambda>_. None), lg_ops = [WriteBlock (True, sample_room) sample_room sample_row]\<rparr>"

definition sample_folder :: folder where
  "sample_folder =
     (let fo = \<lparr>fo_path = ''spl'', fo_entries = Some [(''ch0.gen0.seg0.csv'', True)], fo_disk = (\<lambda>_. None)\<rparr>
      in fo\<lparr>fo_disk := snd (log_left sample_platform fo 0 sample_run)\<rparr>)"

definition sample_request :: SplReportBuildRequest where
  "sample_request =
     \<lparr>rq_channels = [0], rq_venue = [], rq_event = [], rq_operatorName = [], rq_company = [], rq_engineer = [],
      rq_productionCompany = [], rq_notes = [], rq_appName = [], rq_appVersion = [], rq_buildId = [], rq_device = [],
      rq_liveView = None\<rparr>"

lemma sample_name: "segment_path ''ch0'' 0 0 = ''ch0.gen0.seg0.csv''" "channel_basename 0 = ''ch0''"
proof -
  have "decimal 0 = ''0''"
    by code_simp
  then show "segment_path ''ch0'' 0 0 = ''ch0.gen0.seg0.csv''" "channel_basename 0 = ''ch0''"
    by (simp_all add: segment_path_def channel_basename_def to_chars_int_def)
qed

lemma sample_left:
  assumes "fo_path fo = ''spl''"
  shows "\<exists>w d. log_left sample_platform fo 0 sample_run = (w, d) \<and> \<not> lw_writeFailed w \<and>
    (\<forall>p. d p \<noteq> None \<longleftrightarrow> p = ''spl/ch0.gen0.seg0.csv'')"
proof -
  have base: "log_base fo 0 = ''spl/ch0''" "segment_path ''spl/ch0'' 0 0 = ''spl/ch0.gen0.seg0.csv''"
    using assms sample_name segment_in_folder [of "''spl''" "''ch0''" 0 0] by (simp_all add: log_base_def)
  obtain w d where run: "log_left sample_platform fo 0 sample_run = (w, d)"
    by fastforce
  let ?head = "logHeader (pf_charconv sample_platform) (pf_arith sample_platform) sample_log_config sample_log_info @ csvHeaderRow @ [newline]"
  let ?row = "logRow (pf_charconv sample_platform) (pf_arith sample_platform) (lc_referenceOffsetDb sample_log_config) sample_row"
  have "sample_room = length (text_mode sample_platform ?head) + length (text_mode sample_platform ?row)"
    by (simp add: sample_room_def seg_bytes_def log_text_def text_mode_append [symmetric] flip: length_append)
  then have fits: "length (text_mode sample_platform ?head) \<le> sample_room" "length (text_mode sample_platform ?row) \<le> sample_room"
    by simp_all
  have state: "\<not> lw_writeFailed w" "lw_segmentPaths w = [''spl/ch0.gen0.seg0.csv'']"
    using run fits base by (auto simp: log_left_def sample_run_def SplLogWriter_new_def SplLogWriter_write_def openSegment_def stream_put_def Let_def)
  have "concat (map (blocks_on_disk sample_platform d) (lw_segmentPaths w)) = concat (map written_block (lg_ops sample_run))"
      "\<forall>p. p \<notin> set (lw_segmentPaths w) \<longrightarrow> d p = None"
    using writer_files [OF _ _ _ _ run [unfolded log_left_def] refl] state(1) sample_row_ok
    by (simp_all add: sample_platform_def sample_row_format sample_run_def sample_log_config_def)
  then show ?thesis
    using run state by (auto simp: sample_run_def blocks_on_disk_def split: option.splits)
qed

lemma log_left_path: "fo_path fo = fo_path fo' \<Longrightarrow> log_left pf fo channel lg = log_left pf fo' channel lg"
  by (simp add: log_left_def log_base_def)

lemma sample_folder_left:
  obtains w d where "sample_folder = \<lparr>fo_path = ''spl'', fo_entries = Some [(''ch0.gen0.seg0.csv'', True)], fo_disk = d\<rparr>"
    "log_left sample_platform sample_folder 0 sample_run = (w, d)" "\<not> lw_writeFailed w"
    "\<forall>p. d p \<noteq> None \<longleftrightarrow> p = ''spl/ch0.gen0.seg0.csv''"
proof -
  let ?fo = "\<lparr>fo_path = ''spl'', fo_entries = Some [(''ch0.gen0.seg0.csv'', True)], fo_disk = (\<lambda>_. None)\<rparr>"
  have "fo_path ?fo = ''spl''"
    by simp
  from sample_left [OF this] obtain w d where left: "log_left sample_platform ?fo 0 sample_run = (w, d)" "\<not> lw_writeFailed w"
      "\<forall>p. d p \<noteq> None \<longleftrightarrow> p = ''spl/ch0.gen0.seg0.csv''"
    by (elim exE conjE) (rule that)
  moreover from left(1) have fo: "sample_folder = \<lparr>fo_path = ''spl'', fo_entries = Some [(''ch0.gen0.seg0.csv'', True)], fo_disk = d\<rparr>"
    by (simp add: sample_folder_def)
  moreover have "log_left sample_platform sample_folder 0 sample_run = (w, d)"
    unfolding left(1) [symmetric] by (rule log_left_path) (simp add: fo)
  ultimately show thesis
    by (intro that)
qed

lemma sample_log_ok: "usable_log sample_platform sample_folder (0, sample_run)"
proof -
  obtain w d where fo: "sample_folder = \<lparr>fo_path = ''spl'', fo_entries = Some [(''ch0.gen0.seg0.csv'', True)], fo_disk = d\<rparr>"
      "log_left sample_platform sample_folder 0 sample_run = (w, d)" and left: "\<not> lw_writeFailed w"
      "\<forall>p. d p \<noteq> None \<longleftrightarrow> p = ''spl/ch0.gen0.seg0.csv''"
    by (rule sample_folder_left)
  have lists: "folder_lists sample_folder [(''ch0.gen0.seg0.csv'', True)]"
    using left(2) by (auto simp: folder_lists_def fo(1) path_of_name)
  have "holds_log sample_folder 0 d"
    unfolding holds_log_def
  proof (intro conjI allI impI)
    show "\<exists>es. folder_lists sample_folder es"
      using lists by blast
    show "fo_disk sample_folder (segment_path (fo_path sample_folder @ slash # channel_basename 0) g s) =
        d (segment_path (fo_path sample_folder @ slash # channel_basename 0) g s)" for g s
      by (simp add: fo(1))
  next
    fix n
    assume "slash \<notin> set n \<and> fo_disk sample_folder (fo_path sample_folder @ slash # n) \<noteq> None"
    then have "n = segment_path (channel_basename 0) 0 0"
      using left(2) by (simp add: fo(1) sample_name)
    then show "parseGenSeg n (channel_basename 0) = Some None \<or>
        (\<exists>g < 2 ^ 64. \<exists>s < 2 ^ 64. n = segment_path (channel_basename 0) g s)"
      by (intro disjI2 exI [of _ 0] conjI) simp_all
  qed
  moreover have "HeaderInfo_ok sample_arith sample_log_config sample_log_info"
    by (simp add: HeaderInfo_ok_def sample_arith_def sample_log_config_def sample_log_info_def double_minus_120_def is_nan64_def)
  moreover have "is_finite64 0" "is_finite64 (hi_sampleRate sample_log_info)" "LogBlock_finite sample_row"
    by (simp_all add: is_finite64_def is_finite32_def LogBlock_finite_def sample_row_def sample_log_info_def)
  ultimately have ok: "log_ok sample_platform sample_folder 0 sample_run"
    using sample_row_ok
    unfolding log_ok_def fo(2)
    by (simp add: sample_run_def log_written_def) (simp add: sample_platform_def sample_log_config_def)
  moreover have "disk_rows sample_platform sample_folder 0 sample_run = [sample_row]"
  proof -
    have "header_format (pf_charconv sample_platform)"
      using sample_header_format by (simp add: sample_platform_def)
    from disk_rows_facts(2) [OF ok this] left(1) show ?thesis
      unfolding fo(2) by (simp add: log_written_def) (simp add: sample_run_def)
  qed
  ultimately show ?thesis
    by (simp add: usable_log_def)
qed

lemma sample_no_record: "folder_record sample_charconv sample_folder = None"
proof -
  obtain d where fo: "sample_folder = \<lparr>fo_path = ''spl'', fo_entries = Some [(''ch0.gen0.seg0.csv'', True)], fo_disk = d\<rparr>"
      "\<forall>p. d p \<noteq> None \<longleftrightarrow> p = ''spl/ch0.gen0.seg0.csv''"
    by (rule sample_folder_left) auto
  have "path_div ''spl'' ''calibration.txt'' = ''spl/calibration.txt''"
    by (simp add: path_of_name)
  moreover have "d ''spl/calibration.txt'' = None"
    using fo(2) [rule_format, of "''spl/calibration.txt''"] by simp
  ultimately show ?thesis
    by (simp add: folder_record_def fo(1))
qed

theorem report_of_logged_session_witness:
  "\<exists>payload m. buildReportPayload sample_charconv sample_folder sample_request =
       Some \<lparr>rr_payload = Some payload, rr_channelsWithNoLog = []\<rparr> \<and>
     rp_metrics payload = [m] \<and> me_leqDb m = Some (10 * log 10 (1024 / 48000)) \<and>
     rp_history payload = [\<lparr>hs_metricId = ''ch0'', hs_points = [(7, Fin (10 * log 10 (1024 / 48000)))]\<rparr>] \<and> rp_markers payload = [] \<and>
     unat (va_totalBlocks (rp_validity payload)) = 1 \<and> unat (va_excludedBlocks (rp_validity payload)) = 0"
proof -
  have cc: "pf_charconv sample_platform = sample_charconv"
    by (simp add: sample_platform_def)
  have request: "rq_channels sample_request = map fst [(0, sample_run)]"
    by (simp add: sample_request_def)
  have logs: "[(0, sample_run)] \<noteq> []" "length [(0 :: int, sample_run)] < 2 ^ 32" "list_all (usable_log sample_platform sample_folder) [(0, sample_run)]"
    using sample_log_ok by simp_all
  from report_of_logged_session [OF _ request logs refl, unfolded cc, OF sample_header_format]
  obtain payload where payload: "buildReportPayload sample_charconv sample_folder sample_request =
       Some \<lparr>rr_payload = Some payload, rr_channelsWithNoLog = []\<rparr>"
     "list_all2 (metric_states None sample_platform sample_folder) [(0, sample_run)] (rp_metrics payload)"
     "rp_history payload = history_of None sample_platform sample_folder (0, sample_run)"
     "rp_markers payload = markers_of sample_platform sample_folder (0, sample_run)"
     "unat (va_totalBlocks (rp_validity payload)) = length (blocks_of sample_platform sample_folder (0, sample_run))"
     "unat (va_excludedBlocks (rp_validity payload)) = excluded_of None sample_platform sample_folder (0, sample_run)"
     "\<not> lw_writeFailed (fst (log_left sample_platform sample_folder 0 sample_run)) \<longrightarrow>
        blocks_of sample_platform sample_folder (0, sample_run) = map block_of_row (log_written sample_run)"
    unfolding sample_no_record by auto
  have "\<not> lw_writeFailed (fst (log_left sample_platform sample_folder 0 sample_run))"
    by (rule sample_folder_left) simp
  then have blocks: "disk_blocks sample_platform sample_folder 0 sample_run = [block_of_row sample_row]"
    using payload(7) by (simp add: blocks_of_def log_written_def sample_run_def)
  have trusted: "trusted_blocks None 0 [block_of_row sample_row] = [block_of_row sample_row]"
    by (simp add: trusted_blocks_def counted_def in_failed_bracket_def block_of_row_def sample_row_def hasFlag_def flagMask_def)
  have zero_text: "to_chars_int 0 = ''0''"
    using sample_name(2) by (simp add: channel_basename_def)
  have number: "double_value 0x4090000000000000 = 1024" "double_value 0 = 0"
    by (simp_all add: double_value_def Let_def drop_bit_eq_div take_bit_eq_mod)
  have "session_level [block_of_row sample_row] (log_offset sample_run) = Some (10 * log 10 (1024 / 48000))"
    by (simp add: session_level_def block_of_row_def sample_row_def sample_run_def sample_log_config_def number)
  moreover have "history_of None sample_platform sample_folder (0, sample_run) =
      [\<lparr>hs_metricId = ''ch0'', hs_points = [(7, Fin (10 * log 10 (1024 / 48000)))]\<rparr>]"
    by (simp add: history_of_def blocks trusted channel_history_def zero_text)
      (simp add: point_level_def std_log10_def block_of_row_def sample_row_def sample_run_def sample_log_config_def number)
  moreover have "markers_of sample_platform sample_folder (0, sample_run) = []"
    by (simp add: markers_of_def blocks block_markers_def block_of_row_def sample_row_def hasFlag_def flagMask_def)
  ultimately show ?thesis
    using payload(1-6) by (auto simp: list_all2_Cons1 metric_states_def blocks trusted blocks_of_def excluded_of_def Let_def)
qed

section \<open>The dose table\<close>

text \<open>
  Nothing gives the dose rows of a payload a label, and \<^verbatim>\<open>renderDose\<close> leaves out rows without one: no report shows a dose.
\<close>

lemma labels_kept:
  "map dr_label (dose[i := (dose ! i)\<lparr>dr_percent := a, dr_projectedPercent := b\<rparr>]) = map dr_label dose"
  by (cases "i < length dose") (simp_all add: map_update list_update_same_conv list_update_beyond)

lemma labels_kept_fold:
  "map dr_label (fold (\<lambda>i dose. dose[i := (dose ! i)\<lparr>dr_percent := f i, dr_projectedPercent := g i\<rparr>]) is dose) = map dr_label dose"
  by (induction "is" arbitrary: dose) (simp_all add: labels_kept)

lemma live_labels: "map dr_label (rp_dose (add_live_view view payload)) = map dr_label (rp_dose payload)"
  by (simp add: add_live_view_def labels_kept_fold Let_def split: option.split list.split)

lemma build_channel_dose:
  assumes "build_channel cc fo cal channel s = Some s'"
  shows "rp_dose (bs_payload s') = rp_dose (bs_payload s)"
  using assms
  by (auto simp: build_channel_def appendHistoryAndMarkers_def Let_def split_beta split: option.splits if_splits)

lemma build_channels_dose:
  assumes "fold_opt (build_channel cc fo cal) channels s = Some s'"
  shows "rp_dose (bs_payload s') = rp_dose (bs_payload s)"
  using assms
proof (induction channels arbitrary: s)
  case (Cons c cs)
  then show ?case
    by (auto simp: build_channel_dose split: option.splits)
qed simp

lemma dose_rows_unlabelled:
  assumes "buildReportPayload cc fo rq = Some \<lparr>rr_payload = Some payload, rr_channelsWithNoLog = none\<rparr>"
  shows "map dr_label (rp_dose payload) = [[], []]"
proof -
  have start: "map dr_label (rp_dose (request_payload rq cal)) = [[], []]" for cal
    by (simp add: request_payload_def ReportPayload_default_def ReportDoseResult_default_def Let_def numeral_2_eq_2 split: option.split)
  show ?thesis
    using assms
    by (auto simp: buildReportPayload_def Let_def live_labels build_channels_dose start split: option.splits if_splits)
qed

end
