(* ===== verification/Report_Hash.thy ===== *)
theory Report_Hash
  imports Prelude
begin

unbundle bit_operations_syntax

text \<open>
  The hash that a report prints over its log segments (\<^verbatim>\<open>app/src/export/SplReportHash.cpp\<close>), proved to be SHA-256 as
  FIPS 180-4 defines it.
\<close>

section \<open>The code\<close>

definition kK :: "uint32_t list" where
  "kK = [
    0x428a2f98, 0x71374491, 0xb5c0fbcf, 0xe9b5dba5, 0x3956c25b, 0x59f111f1, 0x923f82a4, 0xab1c5ed5,
    0xd807aa98, 0x12835b01, 0x243185be, 0x550c7dc3, 0x72be5d74, 0x80deb1fe, 0x9bdc06a7, 0xc19bf174,
    0xe49b69c1, 0xefbe4786, 0x0fc19dc6, 0x240ca1cc, 0x2de92c6f, 0x4a7484aa, 0x5cb0a9dc, 0x76f988da,
    0x983e5152, 0xa831c66d, 0xb00327c8, 0xbf597fc7, 0xc6e00bf3, 0xd5a79147, 0x06ca6351, 0x14292967,
    0x27b70a85, 0x2e1b2138, 0x4d2c6dfc, 0x53380d13, 0x650a7354, 0x766a0abb, 0x81c2c92e, 0x92722c85,
    0xa2bfe8a1, 0xa81a664b, 0xc24b8b70, 0xc76c51a3, 0xd192e819, 0xd6990624, 0xf40e3585, 0x106aa070,
    0x19a4c116, 0x1e376c08, 0x2748774c, 0x34b0bcb5, 0x391c0cb3, 0x4ed8aa4a, 0x5b9cca4f, 0x682e6ff3,
    0x748f82ee, 0x78a5636f, 0x84c87814, 0x8cc70208, 0x90befffa, 0xa4506ceb, 0xbef9a3f7, 0xc67178f2]"

definition rotr :: "uint32_t \<Rightarrow> nat \<Rightarrow> uint32_t" where
  "rotr x n = (drop_bit n x) OR (push_bit (32 - n) x)"

function pad_loop :: "8 word list \<Rightarrow> 8 word list" where
  "pad_loop msg = (if length msg mod 64 \<noteq> 56 then pad_loop (msg @ [0]) else msg)"
  by pat_completeness auto
termination
proof (relation "measure (\<lambda>msg. (let r = length msg mod 64 in if r \<le> 56 then 56 - r else 120 - r))")
  fix msg :: "8 word list"
  define r where "r = length msg mod 64"
  assume "length msg mod 64 \<noteq> 56"
  moreover have "Suc (length msg) mod 64 = (if r = 63 then 0 else Suc r)" "r < 64"
    by (auto simp: r_def mod_Suc)
  ultimately show "(msg @ [0], msg) \<in> measure (\<lambda>msg. (let r = length msg mod 64 in if r \<le> 56 then 56 - r else 120 - r))"
    by (auto simp: Let_def simp flip: r_def)
qed simp

declare pad_loop.simps [simp del]

definition sha256_message :: "string \<Rightarrow> 8 word list" where
  "sha256_message data =
     (let msg = map of_char data;
          bitLen = (word_of_nat (length msg) :: uint64_t) * 8;
          msg = pad_loop (msg @ [0x80])
      in foldl (\<lambda>msg i. msg @ [ucast (drop_bit (i * 8) bitLen)]) msg (rev [0..<8]))"

definition load_word :: "8 word list \<Rightarrow> nat \<Rightarrow> nat \<Rightarrow> uint32_t" where
  "load_word msg chunk i =
     push_bit 24 (ucast (msg ! (chunk + i * 4))) OR push_bit 16 (ucast (msg ! (chunk + i * 4 + 1))) OR
     push_bit 8 (ucast (msg ! (chunk + i * 4 + 2))) OR ucast (msg ! (chunk + i * 4 + 3))"

definition schedule_step :: "nat \<Rightarrow> uint32_t list \<Rightarrow> uint32_t list" where
  "schedule_step s w =
     (let s0 = rotr (w ! (s - 15)) 7 XOR rotr (w ! (s - 15)) 18 XOR drop_bit 3 (w ! (s - 15));
          s1 = rotr (w ! (s - 2)) 17 XOR rotr (w ! (s - 2)) 19 XOR drop_bit 10 (w ! (s - 2))
      in w[s := w ! (s - 16) + s0 + w ! (s - 7) + s1])"

definition schedule :: "8 word list \<Rightarrow> nat \<Rightarrow> uint32_t list" where
  "schedule msg chunk =
     fold schedule_step [16..<64] (fold (\<lambda>i w. w[i := load_word msg chunk i]) [0..<16] (replicate 64 0))"

type_synonym sha_vars = "uint32_t \<times> uint32_t \<times> uint32_t \<times> uint32_t \<times> uint32_t \<times> uint32_t \<times> uint32_t \<times> uint32_t"

definition sha_round :: "uint32_t list \<Rightarrow> nat \<Rightarrow> sha_vars \<Rightarrow> sha_vars" where
  "sha_round w s v =
     (let (a, b, c, d, e, f, g, hh) = v;
          bigS1 = rotr e 6 XOR rotr e 11 XOR rotr e 25;
          ch = (e AND f) XOR (NOT e AND g);
          temp1 = hh + bigS1 + ch + kK ! s + w ! s;
          bigS0 = rotr a 2 XOR rotr a 13 XOR rotr a 22;
          maj = (a AND b) XOR (a AND c) XOR (b AND c);
          temp2 = bigS0 + maj
      in (temp1 + temp2, a, b, c, d + temp1, e, f, g))"

definition sha_chunk :: "8 word list \<Rightarrow> nat \<Rightarrow> sha_vars \<Rightarrow> sha_vars" where
  "sha_chunk msg chunk h =
     (let w = schedule msg chunk;
          (a, b, c, d, e, f, g, hh) = fold (sha_round w) [0..<64] h;
          (h0, h1, h2, h3, h4, h5, h6, h7) = h
      in (h0 + a, h1 + b, h2 + c, h3 + d, h4 + e, h5 + f, h6 + g, h7 + hh))"

function sha_loop :: "8 word list \<Rightarrow> nat \<Rightarrow> sha_vars \<Rightarrow> sha_vars" where
  "sha_loop msg chunk h = (if chunk < length msg then sha_loop msg (chunk + 64) (sha_chunk msg chunk h) else h)"
  by pat_completeness auto
termination
  by (relation "measure (\<lambda>(msg, chunk, h). length msg - chunk)") auto

declare sha_loop.simps [simp del]

definition sha_start :: sha_vars where
  "sha_start = (0x6a09e667, 0xbb67ae85, 0x3c6ef372, 0xa54ff53a, 0x510e527f, 0x9b05688c, 0x1f83d9ab, 0x5be0cd19)"

definition sha256Digest :: "string \<Rightarrow> sha_vars" where
  "sha256Digest data = sha_loop (sha256_message data) 0 sha_start"

definition sha_words :: "sha_vars \<Rightarrow> uint32_t list" where
  "sha_words v = (let (a, b, c, d, e, f, g, h) = v in [a, b, c, d, e, f, g, h])"

definition kHex :: string where "kHex = ''0123456789abcdef''"

definition sha256Hex :: "string \<Rightarrow> string" where
  "sha256Hex data =
     concat (map (\<lambda>word. map (\<lambda>shift. kHex ! unat (drop_bit shift word AND 0xF)) [28, 24, 20, 16, 12, 8, 4, 0])
       (sha_words (sha256Digest data)))"

section \<open>The standard\<close>

text \<open>FIPS 180-4, section 4.1.2, with the rotation of words of the library.\<close>

definition fips_Ch :: "uint32_t \<Rightarrow> uint32_t \<Rightarrow> uint32_t \<Rightarrow> uint32_t" where
  "fips_Ch x y z = (x AND y) XOR (NOT x AND z)"
definition fips_Maj :: "uint32_t \<Rightarrow> uint32_t \<Rightarrow> uint32_t \<Rightarrow> uint32_t" where
  "fips_Maj x y z = (x AND y) XOR (x AND z) XOR (y AND z)"
definition fips_Sigma0 :: "uint32_t \<Rightarrow> uint32_t" where
  "fips_Sigma0 x = word_rotr 2 x XOR word_rotr 13 x XOR word_rotr 22 x"
definition fips_Sigma1 :: "uint32_t \<Rightarrow> uint32_t" where
  "fips_Sigma1 x = word_rotr 6 x XOR word_rotr 11 x XOR word_rotr 25 x"
definition fips_sigma0 :: "uint32_t \<Rightarrow> uint32_t" where
  "fips_sigma0 x = word_rotr 7 x XOR word_rotr 18 x XOR drop_bit 3 x"
definition fips_sigma1 :: "uint32_t \<Rightarrow> uint32_t" where
  "fips_sigma1 x = word_rotr 17 x XOR word_rotr 19 x XOR drop_bit 10 x"

text \<open>Section 5.1.1 in bytes: the message, one bit, as few zeros as reach 56 modulo 64, the length in bits.\<close>

definition big_endian :: "nat \<Rightarrow> nat \<Rightarrow> 8 word list" where
  "big_endian n v = map (\<lambda>i. word_of_nat (v div 256 ^ (n - 1 - i))) [0..<n]"

definition fips_pad :: "8 word list \<Rightarrow> 8 word list" where
  "fips_pad m = m @ 0x80 # replicate ((64 + 55 - length m mod 64) mod 64) 0 @ big_endian 8 (8 * length m)"

text \<open>Sections 5.2.1 and 6.2.2.\<close>

definition be_word :: "8 word list \<Rightarrow> uint32_t" where
  "be_word bs = word_of_nat (foldl (\<lambda>n b. 256 * n + unat b) 0 bs)"

fun fips_W :: "8 word list \<Rightarrow> nat \<Rightarrow> uint32_t" where
  "fips_W M t =
     (if t < 16 then be_word (take 4 (drop (4 * t) M))
      else fips_sigma1 (fips_W M (t - 2)) + fips_W M (t - 7) + fips_sigma0 (fips_W M (t - 15)) + fips_W M (t - 16))"

declare fips_W.simps [simp del]

fun fips_state :: "8 word list \<Rightarrow> sha_vars \<Rightarrow> nat \<Rightarrow> sha_vars" where
  "fips_state M h 0 = h"
| "fips_state M h (Suc t) =
     (case fips_state M h t of
        (a, b, c, d, e, f, g, hh) \<Rightarrow>
          (let T1 = hh + fips_Sigma1 e + fips_Ch e f g + kK ! t + fips_W M t; T2 = fips_Sigma0 a + fips_Maj a b c
           in (T1 + T2, a, b, c, d + T1, e, f, g)))"

definition fips_compress :: "sha_vars \<Rightarrow> 8 word list \<Rightarrow> sha_vars" where
  "fips_compress h M =
     (case (h, fips_state M h 64) of
        ((h0, h1, h2, h3, h4, h5, h6, h7), (a, b, c, d, e, f, g, hh)) \<Rightarrow>
          (h0 + a, h1 + b, h2 + c, h3 + d, h4 + e, h5 + f, h6 + g, h7 + hh))"

definition fips_blocks :: "8 word list \<Rightarrow> 8 word list list" where
  "fips_blocks m = map (\<lambda>i. take 64 (drop (64 * i) m)) [0..<length m div 64]"

definition fips_digest :: "8 word list \<Rightarrow> sha_vars" where
  "fips_digest m = foldl fips_compress sha_start (fips_blocks (fips_pad m))"

section \<open>Padding\<close>

lemma pad_loop_zeros: "pad_loop msg = msg @ replicate ((64 + 56 - length msg mod 64) mod 64) 0"
proof (induction msg rule: pad_loop.induct)
  case (1 msg)
  define r where "r = length msg mod 64"
  show ?case
  proof (cases "r = 56")
    case True
    then show ?thesis
      by (subst pad_loop.simps) (simp flip: r_def)
  next
    case False
    have r: "Suc (length msg) mod 64 = (if r = 63 then 0 else Suc r)" "r < 64"
      by (auto simp: r_def mod_Suc)
    have "(120 - r) mod 64 = Suc ((120 - Suc (length msg) mod 64) mod 64)"
      using False r by (cases "r < 56") (auto simp: mod_if)
    then have "pad_loop (msg @ [0]) = msg @ replicate ((64 + 56 - r) mod 64) 0"
      using 1 False by (simp add: r_def)
    then show ?thesis
      using False by (subst pad_loop.simps) (simp flip: r_def)
  qed
qed

lemma ucast_drop_bit: "(ucast (drop_bit k (w :: uint64_t)) :: 8 word) = word_of_nat (unat w div 2 ^ k)"
proof -
  have "unat (drop_bit k w) = unat w div 2 ^ k"
    by (rule trans [OF unat_drop_bit_eq drop_bit_eq_div])
  moreover have "(ucast (drop_bit k w) :: 8 word) = word_of_nat (unat (drop_bit k w))"
    by simp
  ultimately show ?thesis
    by simp
qed

lemma length_bytes:
  assumes "l < 2 ^ 61"
  shows "map (\<lambda>i. ucast (drop_bit (i * 8) ((word_of_nat l :: uint64_t) * 8)) :: 8 word) (rev [0..<8]) = big_endian 8 (8 * l)"
proof -
  have "(word_of_nat l :: uint64_t) * 8 = word_of_nat (8 * l)"
    by simp
  moreover have "unat (word_of_nat m :: uint64_t) = m" if "m < 2 ^ 64" for m
    using that by (simp add: unat_of_nat)
  from this [of "8 * l"] have "8 * l < 2 ^ 64 \<Longrightarrow> unat (word_of_nat (8 * l) :: uint64_t) = 8 * l" .
  moreover have "8 * l < 2 ^ 64"
    using assms by simp
  ultimately have bitLen: "unat ((word_of_nat l :: uint64_t) * 8) = 8 * l"
    by metis
  have "(256 :: nat) ^ k = 2 ^ (k * 8)" for k
    using power_mult [of "2 :: nat" 8 k] by (simp add: mult.commute)
  then show ?thesis
    by (simp add: big_endian_def ucast_drop_bit bitLen rev_map upt_rec)
qed

lemma sha256_message_pad:
  assumes "length data < 2 ^ 61"
  shows "sha256_message data = fips_pad (map of_char data)"
proof -
  have snoc: "foldl (\<lambda>msg i. msg @ [f i]) msg xs = msg @ map f xs" for f :: "nat \<Rightarrow> 8 word" and msg xs
    by (induction xs arbitrary: msg) simp_all
  have "(64 + 56 - Suc n mod 64) mod 64 = (64 + 55 - n mod 64) mod 64" for n :: nat
    by (cases "n mod 64 = 63") (simp_all add: mod_Suc)
  then show ?thesis
    using length_bytes [OF assms] by (simp add: sha256_message_def fips_pad_def pad_loop_zeros snoc Let_def)
qed

section \<open>Rotations\<close>

lemma rotr_is_rotation:
  assumes "0 < n" "n < 32"
  shows "rotr x n = word_rotr n x"
proof (rule bit_word_eqI)
  fix k assume "k < LENGTH(32)"
  then have k: "k < 32"
    by simp
  show "bit (rotr x n) k = bit (word_rotr n x) k"
  proof (cases "k + n < 32")
    case True
    then have "\<not> 32 - n \<le> k"
      using assms by linarith
    then show ?thesis
      using True k by (simp add: rotr_def bit_simps add.commute)
  next
    case False
    then have "(k + n) mod 32 = k - (32 - n)" "32 - n \<le> k"
      using assms k by (simp_all add: mod_if)
    moreover have "\<not> bit x (n + k)"
      using False bit_imp_le_length [of x "n + k"] by auto
    ultimately show ?thesis
      using k by (simp add: rotr_def bit_simps)
  qed
qed

section \<open>The schedule\<close>

lemma byte_sum:
  fixes b0 b1 b2 b3 :: "8 word"
  shows "push_bit 24 (ucast b0) OR push_bit 16 (ucast b1) OR push_bit 8 (ucast b2) OR ucast b3 = be_word [b0, b1, b2, b3]"
proof -
  have lt: "n < 8" if "bit b n" for b :: "8 word" and n
    using bit_imp_le_length [OF that] by simp
  have "push_bit 24 (ucast b0 :: uint32_t) OR push_bit 16 (ucast b1) OR push_bit 8 (ucast b2) OR ucast b3 =
      push_bit 24 (ucast b0) + (push_bit 16 (ucast b1) + (push_bit 8 (ucast b2) + ucast b3))"
    by (subst disjunctive_add; (subst disjunctive_add)?; (subst disjunctive_add)?)
       (auto simp: bit_simps disjunctive_add dest!: lt)
  also have "\<dots> = 256 * (256 * (256 * ucast b0 + ucast b1) + ucast b2) + ucast b3"
    by (simp add: push_bit_eq_mult distrib_left mult.commute)
  also have "\<dots> = be_word [b0, b1, b2, b3]"
    by (simp add: be_word_def)
  finally show ?thesis .
qed


lemma load_word_be:
  assumes "chunk + 64 \<le> length msg" "i < 16"
  shows "load_word msg chunk i = be_word (take 4 (drop (4 * i) (take 64 (drop chunk msg))))"
proof -
  have "take 4 (drop (4 * i) (take 64 (drop chunk msg))) =
      [msg ! (chunk + i * 4), msg ! (chunk + i * 4 + 1), msg ! (chunk + i * 4 + 2), msg ! (chunk + i * 4 + 3)]"
    using assms by (intro nth_equalityI) (auto simp: less_Suc_eq numeral_eq_Suc ac_simps)
  then show ?thesis
    by (simp add: load_word_def byte_sum)
qed

lemma fill_words: "k \<le> length w \<Longrightarrow> fold (\<lambda>i w. w[i := f i]) [0..<k] w = map f [0..<k] @ drop k w"
proof (induction k)
  case (Suc k)
  then show ?case
    using Cons_nth_drop_Suc [of k w, symmetric] by (simp add: list_update_append)
qed simp

lemma schedule_W:
  assumes "chunk + 64 \<le> length msg" "M = take 64 (drop chunk msg)" "t < 64"
  shows "schedule msg chunk ! t = fips_W M t"
proof -
  let ?w = "fold (\<lambda>i w. w[i := load_word msg chunk i]) [0..<16] (replicate 64 0)"
  have start: "length ?w = 64" "\<forall>t < 16. ?w ! t = fips_W M t"
    using load_word_be [OF assms(1)] by (simp_all add: fill_words nth_append assms(2) fips_W.simps)
  have "length (fold schedule_step [16..<16 + k] ?w) = 64 \<and> (\<forall>t < 16 + k. fold schedule_step [16..<16 + k] ?w ! t = fips_W M t)"
    if "k \<le> 48" for k
    using that
  proof (induction k)
    case (Suc k)
    define v where "v = fold schedule_step [16..<16 + k] ?w"
    have v: "length v = 64" "\<And>t. t < 16 + k \<Longrightarrow> v ! t = fips_W M t"
      using Suc by (simp_all add: v_def)
    have next_word: "schedule_step (16 + k) v = v[16 + k := fips_W M (16 + k)]"
      by (subst fips_W.simps)
        (simp add: schedule_step_def v rotr_is_rotation fips_sigma0_def fips_sigma1_def Let_def ac_simps)
    have "fold schedule_step [16..<16 + Suc k] ?w = v[16 + k := fips_W M (16 + k)]"
      using next_word by (simp only: v_def add_Suc_right upt_Suc le_add1 if_True fold_append fold.simps comp_def id_def)
    then show ?case
      using v Suc.prems by (auto simp: less_Suc_eq nth_list_update)
  qed (use start in simp)
  from this [of 48] show ?thesis
    using assms(3) by (simp add: schedule_def)
qed

lemma rounds_state:
  assumes "\<And>t. t < k \<Longrightarrow> w ! t = fips_W M t"
  shows "fold (sha_round w) [0..<k] h = fips_state M h k"
  using assms
proof (induction k)
  case (Suc k)
  then show ?case
    by (simp add: sha_round_def rotr_is_rotation fips_Sigma0_def fips_Sigma1_def fips_Ch_def fips_Maj_def Let_def
        split: prod.split)
qed simp

lemma sha_chunk_compress:
  assumes "chunk + 64 \<le> length msg"
  shows "sha_chunk msg chunk h = fips_compress h (take 64 (drop chunk msg))"
  using rounds_state [of 64 "schedule msg chunk" "take 64 (drop chunk msg)" h] schedule_W [OF assms refl]
  by (simp add: sha_chunk_def fips_compress_def Let_def split: prod.split)

lemma sha_loop_blocks:
  assumes "length msg = 64 * (k + n)"
  shows "sha_loop msg (64 * k) h = foldl fips_compress h (map (\<lambda>i. take 64 (drop (64 * i) msg)) [k..<k + n])"
  using assms
proof (induction n arbitrary: k h)
  case 0
  then show ?case
    by (subst sha_loop.simps) simp
next
  case (Suc n)
  have "sha_loop msg (64 * k) h = sha_loop msg (64 * Suc k) (fips_compress h (take 64 (drop (64 * k) msg)))"
    using Suc.prems sha_chunk_compress [of "64 * k" msg h] by (subst sha_loop.simps) (simp add: algebra_simps)
  moreover have "[k..<k + Suc n] = k # [Suc k..<Suc k + n]"
    by (simp add: upt_conv_Cons del: upt_Suc)
  ultimately show ?case
    using Suc.IH [of "Suc k"] Suc.prems by (simp del: upt_Suc)
qed

lemma fips_pad_length: "length (fips_pad m) mod 64 = 0"
proof -
  define r where "r = length m mod 64"
  have len: "length (fips_pad m) = length m + (9 + (119 - r) mod 64)"
    by (simp add: fips_pad_def big_endian_def flip: r_def)
  have "r < 64"
    by (simp add: r_def)
  then have "(r + (9 + (119 - r) mod 64)) mod 64 = 0"
    by (cases "r \<le> 55") (auto simp: mod_if)
  then show ?thesis
    unfolding len by (metis mod_add_left_eq r_def)
qed

text \<open>The digest the code computes is the one the standard defines.\<close>

lemma sha256Digest_fips:
  assumes "length data < 2 ^ 61"
  shows "sha256Digest data = fips_digest (map of_char data)"
proof -
  let ?m = "fips_pad (map of_char data)"
  have "length ?m = 64 * (0 + length ?m div 64)"
    using mult_div_mod_eq [of 64 "length ?m"] fips_pad_length [of "map of_char data"] by simp
  from sha_loop_blocks [OF this] show ?thesis
    by (simp add: sha256Digest_def sha256_message_pad [OF assms] fips_digest_def fips_blocks_def)
qed


section \<open>The hexadecimal text\<close>

definition hex_digit :: "char \<Rightarrow> nat" where
  "hex_digit c = length (takeWhile (\<lambda>x. x \<noteq> c) kHex)"

definition hex_word :: "string \<Rightarrow> uint32_t" where
  "hex_word s = word_of_nat (foldl (\<lambda>n c. 16 * n + hex_digit c) 0 s)"

definition hex_words :: "string \<Rightarrow> uint32_t list" where
  "hex_words s = map (\<lambda>i. hex_word (take 8 (drop (8 * i) s))) [0..<length s div 8]"

definition word_hex :: "uint32_t \<Rightarrow> string" where
  "word_hex w = map (\<lambda>shift. kHex ! unat (drop_bit shift w AND 0xF)) [28, 24, 20, 16, 12, 8, 4, 0]"

lemma hex_digit_nth: "n < 16 \<Longrightarrow> hex_digit (kHex ! n) = n"
proof -
  have "list_all (\<lambda>n. hex_digit (kHex ! n) = n) [0..<16]"
    by code_simp
  then show "n < 16 \<Longrightarrow> hex_digit (kHex ! n) = n"
    unfolding list_all_iff set_upt by simp
qed

lemma nibble: "unat (drop_bit s w AND 0xF :: uint32_t) = unat w div 2 ^ s mod 16"
proof -
  have "drop_bit s w AND 0xF = take_bit 4 (drop_bit s w)"
    by (simp add: take_bit_eq_mask mask_eq_exp_minus_1)
  then have "unat (drop_bit s w AND 0xF) = take_bit 4 (drop_bit s (unat w))"
    by (simp only: unsigned_take_bit_eq unat_drop_bit_eq)
  then show ?thesis
    by (simp only: take_bit_eq_mod drop_bit_eq_div) simp
qed

lemma horner_digits:
  fixes a7 :: nat
  assumes "16 * a7 + d6 = a6" "16 * a6 + d5 = a5" "16 * a5 + d4 = a4" "16 * a4 + d3 = a3" "16 * a3 + d2 = a2"
    "16 * a2 + d1 = a1" "16 * a1 + d0 = u"
  shows "268435456 * a7 + 16777216 * d6 + 1048576 * d5 + 65536 * d4 + 4096 * d3 + 256 * d2 + 16 * d1 + d0 = u"
  using assms by linarith

lemma nibbles_value:
  assumes "u < (2 :: nat) ^ 32"
  shows "268435456 * (u div 268435456 mod 16) + 16777216 * (u div 16777216 mod 16) + 1048576 * (u div 1048576 mod 16) +
    65536 * (u div 65536 mod 16) + 4096 * (u div 4096 mod 16) + 256 * (u div 256 mod 16) + 16 * (u div 16 mod 16) + u mod 16 = u"
proof -
  have step: "16 * (u div 2 ^ (s + 4)) + u div 2 ^ s mod 16 = u div 2 ^ s" for s
    using mult_div_mod_eq [of 16 "u div 2 ^ s"] by (simp add: power_add div_mult2_eq)
  have top: "u div 268435456 mod 16 = u div 268435456"
    using assms by (simp add: less_mult_imp_div_less)
  show ?thesis
    unfolding top
    by (rule horner_digits [OF step [of 24, simplified] step [of 20, simplified] step [of 16, simplified]
          step [of 12, simplified] step [of 8, simplified] step [of 4, simplified] mult_div_mod_eq])
qed

lemma hex_word_inverse: "hex_word (word_hex w) = w"
proof -
  have "unat w < 2 ^ 32"
    using unsigned_less [where 'a = nat, of w] by simp
  then have "foldl (\<lambda>n c. 16 * n + hex_digit c) 0 (word_hex w) = unat w"
    using nibbles_value [of "unat w"] by (simp add: word_hex_def hex_digit_nth nibble)
  then show ?thesis
    by (simp add: hex_word_def)
qed

lemma hex_words_concat: "hex_words (concat (map word_hex ws)) = ws"
proof -
  have len: "length (word_hex w) = 8" for w
    by (simp add: word_hex_def)
  have total: "length (concat (map word_hex ws)) = 8 * length ws" for ws
    by (induction ws) (simp_all add: len)
  have "take 8 (drop (8 * i) (concat (map word_hex ws))) = word_hex (ws ! i)" if "i < length ws" for i ws
    using that
  proof (induction ws arbitrary: i)
    case (Cons w ws)
    then show ?case
      by (cases i) (simp_all add: len)
  qed simp
  then show ?thesis
    by (intro nth_equalityI) (simp_all add: hex_words_def total hex_word_inverse)
qed

lemma sha256Hex_text: "sha256Hex data = concat (map word_hex (sha_words (sha256Digest data)))"
  by (simp add: sha256Hex_def word_hex_def [abs_def])

lemma sha256Hex_digits: "set (sha256Hex data) \<subseteq> set kHex"
proof -
  have "set (word_hex w) \<subseteq> set kHex" for w
  proof -
    have "unat (drop_bit s w AND 0xF) < length kHex" for s
      by (simp add: nibble kHex_def)
    then show ?thesis
      unfolding word_hex_def set_map by (auto simp del: drop_bit_0 list.map)
  qed
  then have "set (concat (map word_hex ws)) \<subseteq> set kHex" for ws
    by (induction ws) simp_all
  then show ?thesis
    by (simp add: sha256Hex_text)
qed

text \<open>
  Property C11: reading back the hash printed in a report gives the SHA-256 digest of the bytes as FIPS 180-4 defines it
  (padding as a closed form, rotations of words, schedule and rounds as recurrences, blocks as a list), and the text
  is 64 lower-case hexadecimal digits.
\<close>

theorem sha256Hex_is_fips:
  assumes "length data < 2 ^ 61"
  shows "hex_words (sha256Hex data) = sha_words (fips_digest (map of_char data)) \<and>
         length (sha256Hex data) = 64 \<and> set (sha256Hex data) \<subseteq> set kHex"
proof -
  have "length (word_hex w) = 8" for w
    by (simp add: word_hex_def)
  then have "length (concat (map word_hex ws)) = 8 * length ws" for ws
    by (induction ws) simp_all
  moreover have "length (sha_words v) = 8" for v
    by (simp add: sha_words_def split: prod.split)
  ultimately show ?thesis
    using hex_words_concat sha256Digest_fips [OF assms] sha256Hex_digits [of data] by (simp add: sha256Hex_text)
qed

text \<open>The first test vector of the standard.\<close>

lemma sha256Hex_abc: "sha256Hex ''abc'' = ''ba7816bf8f01cfea414140de5dae2223b00361a396177a9cb410ff61f20015ad''"
  by code_simp

theorem sha256Hex_is_fips_witness:
  "sha256Hex ''abc'' = ''ba7816bf8f01cfea414140de5dae2223b00361a396177a9cb410ff61f20015ad'' \<and>
   hex_words (sha256Hex ''abc'') = sha_words (fips_digest [0x61, 0x62, 0x63])"
proof -
  have "map of_char ''abc'' = [0x61, 0x62, 0x63 :: 8 word]"
    by simp
  then show ?thesis
    using sha256Hex_is_fips [of "''abc''"] sha256Hex_abc by simp
qed

end
