(* ===== verification/Report_Render.thy ===== *)
theory Report_Render
  imports Session_Report Report_Hash Ramped_Gain
begin

text \<open>
  The document of a report (\<^verbatim>\<open>app/src/export/SplReport.cpp\<close>, \<^verbatim>\<open>SplReportSections.cpp\<close>,
  \<^verbatim>\<open>SplReportHistorySections.cpp\<close>): what a user typed stays text, and the history strip stays in its frame.
\<close>

section \<open>Numbers as text\<close>

text \<open>
  The library's formats are arguments: \<open>nt_fixed n\<close> for n decimals (\<^verbatim>\<open>std::format\<close>, a fixed stream and, with six,
  \<^verbatim>\<open>std::to_string\<close>), \<open>nt_stream\<close> for a stream's default, \<open>nt_special\<close> for
  an infinity or a NaN under \<^verbatim>\<open>std::to_string\<close>.
\<close>

record number_text =
  nt_fixed :: "nat \<Rightarrow> real \<Rightarrow> string"
  nt_stream :: "real \<Rightarrow> string"
  nt_special :: "double \<Rightarrow> string"

text \<open>\<^verbatim>\<open>static_cast<long long>\<close> of a value in its range.\<close>

definition truncated :: "real \<Rightarrow> int" where
  "truncated x = (if x \<ge> 0 then \<lfloor>x\<rfloor> else \<lceil>x\<rceil>)"

definition formatHz :: "real \<Rightarrow> string" where
  "formatHz hz = to_chars_int (lround hz) @ '' Hz''"

definition formatTrim :: "number_text \<Rightarrow> real \<Rightarrow> string" where
  "formatTrim nt trimDb = nt_fixed nt 1 trimDb @ '' dB''"

section \<open>Pieces of the document\<close>

definition escape_char :: "char \<Rightarrow> string" where
  "escape_char c =
     (if c = CHR ''&'' then ''&amp;'' else if c = CHR ''<'' then ''&lt;'' else if c = CHR ''>'' then ''&gt;''
      else if c = CHR 0x22 then ''&quot;'' else [c])"

definition escapeHtml :: "string \<Rightarrow> string" where
  "escapeHtml s = concat (map escape_char s)"

definition html_section :: "string \<Rightarrow> string \<Rightarrow> string \<Rightarrow> string" where
  "html_section ident title body =
     ''<section class=\"section\" id=\"'' @ ident @ ''\"><h2>'' @ escapeHtml title @ ''</h2>'' @ body @ ''</section>''"

definition kv :: "string \<Rightarrow> string \<Rightarrow> string" where
  "kv label v = ''<div class=\"kv\"><span class=\"label\">'' @ escapeHtml label @ ''</span><span class=\"value\">'' @ v @ ''</span></div>''"

definition absentSpan :: "string \<Rightarrow> string" where
  "absentSpan reason = ''<span class=\"absent\">absent ('' @ escapeHtml reason @ '')</span>''"

definition dbOrAbsent :: "number_text \<Rightarrow> real option \<Rightarrow> string" where
  "dbOrAbsent nt v = (case v of Some x \<Rightarrow> escapeHtml (formatTrim nt x) | None \<Rightarrow> absentSpan ''no data'')"

definition detectorLetter :: "TimeWeighting \<Rightarrow> string" where
  "detectorLetter d = (case d of Fast \<Rightarrow> ''F'' | Slow \<Rightarrow> ''S'' | Impulse \<Rightarrow> ''I'')"

definition percentText :: "number_text \<Rightarrow> real \<Rightarrow> string" where
  "percentText nt percent =
     (if percent = of_int (truncated percent) then to_chars_int (truncated percent) else nt_stream nt percent)"

definition intervalText :: "real \<Rightarrow> string" where
  "intervalText seconds =
     (let whole = truncated (seconds + 0.5)
      in if whole > 0 \<and> whole mod 3600 = 0 then to_chars_int (whole div 3600) @ ''h''
         else if whole > 0 \<and> whole mod 60 = 0 then to_chars_int (whole div 60) @ ''min''
         else to_chars_int whole @ ''s'')"

definition lnLabel :: "number_text \<Rightarrow> WeightingType \<Rightarrow> TimeWeighting \<Rightarrow> real \<Rightarrow> real \<Rightarrow> string" where
  "lnLabel nt w d percent windowSeconds =
     ''L_'' @ weightingType_toString w @ detectorLetter d @ percentText nt percent @ '','' @ intervalText windowSeconds"

definition percentDisplay :: "number_text \<Rightarrow> real \<Rightarrow> string" where
  "percentDisplay nt percent = nt_fixed nt 1 percent @ '' %''"

definition secondsDisplay :: "number_text \<Rightarrow> real \<Rightarrow> string" where
  "secondsDisplay nt seconds = nt_fixed nt 1 seconds @ '' s''"

definition exchangeRateDisplay :: "number_text \<Rightarrow> real \<Rightarrow> string" where
  "exchangeRateDisplay nt q = nt_fixed nt 7 q"

definition percentOrAbsent :: "number_text \<Rightarrow> real option \<Rightarrow> string" where
  "percentOrAbsent nt v = (case v of Some x \<Rightarrow> escapeHtml (percentDisplay nt x) | None \<Rightarrow> absentSpan ''no data'')"

definition stateLabel :: "SplAlarmState \<Rightarrow> string" where
  "stateLabel s = (case s of AlarmFilling \<Rightarrow> ''Filling'' | AlarmClear \<Rightarrow> ''Clear'' | AlarmFired \<Rightarrow> ''Fired'')"

definition stateClass :: "SplAlarmState \<Rightarrow> string" where
  "stateClass s = (case s of AlarmFilling \<Rightarrow> ''state-filling'' | AlarmClear \<Rightarrow> ''state-clear'' | AlarmFired \<Rightarrow> ''state-fired'')"

section \<open>The sections\<close>

definition renderIdentification :: "ReportPayload \<Rightarrow> string" where
  "renderIdentification p =
     html_section ''identification'' ''Identification''
       (kv ''Venue'' (escapeHtml (rp_venue p)) @ kv ''Event'' (escapeHtml (rp_event p)) @
        kv ''Operator'' (escapeHtml (rp_operatorName p)) @ kv ''Company'' (escapeHtml (rp_company p)) @
        kv ''Engineer'' (escapeHtml (rp_engineer p)) @ kv ''Production company'' (escapeHtml (rp_productionCompany p)) @
        kv ''Notes'' (escapeHtml (rp_notes p)))"

definition renderInstrument :: "ReportPayload \<Rightarrow> string" where
  "renderInstrument p =
     html_section ''instrument'' ''Instrument''
       (kv ''Application'' (escapeHtml (rp_appName p) @ '' '' @ escapeHtml (rp_appVersion p)) @
        kv ''Build'' (escapeHtml (rp_buildId p)) @ kv ''Device'' (escapeHtml (rp_device p)) @
        kv ''Channel'' (escapeHtml (rp_channel p)) @ kv ''Sample rate'' (escapeHtml (formatHz (rp_sampleRate p))) @
        ''<p class=\"honesty\">Analytic frequency weighting is verified within 0.05 dB of '' @
        ''IEC 61672-1:2013 Table 3 (not Table 2); the digital filter's approximation error '' @
        ''is published beside it. This report makes no claim of conformance to any '' @
        ''IEC 61672-1 accuracy class. The instrument's linear operating range, overload and '' @
        ''under-range behaviour have not been verified against IEC 61672-1 clause 3.28's '' @
        ''validity definition.</p>'' @
        ''<p class=\"honesty\">Wave 4b (the served viewer) was cut before shipping '' @
        ''(owner decision, 2026-09-25); record sec.12 constraint 2's rounding '' @
        ''obligation is therefore recorded as untested for the viewer.</p>'')"

text \<open>The early returns of \<^verbatim>\<open>renderCalibration\<close> are the branches of the last two parts.\<close>

definition renderCalibration :: "number_text \<Rightarrow> ReportPayload \<Rightarrow> string" where
  "renderCalibration nt p =
     (let c = rp_calibration p
      in html_section ''calibration'' ''Calibration''
       (if \<not> rf_performed c then ''<p>calibration check not performed.</p>''
        else
          kv ''Pre-check level'' (escapeHtml (formatTrim nt (ck_measuredLevelDb (rf_start c)))) @
          kv ''Pre-check time (ms, Unix epoch)'' (to_chars_word (ck_unixMs (rf_start c))) @
          kv ''Post-check level'' (escapeHtml (formatTrim nt (ck_measuredLevelDb (rf_end c)))) @
          kv ''Post-check time (ms, Unix epoch)'' (to_chars_word (ck_unixMs (rf_end c))) @
          kv ''Calibrator nominal level''
            (escapeHtml (formatTrim nt (cl_nominalDb (ck_level (rf_start c)))) @
             (if cl_operatorSupplied (ck_level (rf_start c)) then '' (operator-supplied)'' else [])) @
          kv ''Compared against'' (escapeHtml (rf_clause c)) @
          (if \<not> rp_calibrationOffsetApplied p
           then ''<p class=\"honesty\">This log's levels are NOT calibrated: the offset this '' @
                ''calibration check measured was never applied to it (SPL logging was not yet '' @
                ''running when the START check completed, or this log was started independently '' @
                ''of that check).</p>''
           else []) @
          (if rp_calibrationChannelRefusal p \<noteq> NoRefusal
           then
             (let reason =
                (if rp_calibrationChannelRefusal p = ChannelMismatch
                 then ''the start and end checks were measured on DIFFERENT channels '' @
                      ''(a role was reassigned between them) -- no drift verdict is '' @
                      ''meaningful between two different signal paths.''
                 else ''no measurement channel could be resolved for this calibration '' @
                      ''(an empty routing plan, or a calibrator-only rig) -- no drift '' @
                      ''verdict is written.'')
              in ''<p class=\"honesty\">Calibration refused: '' @ reason @ ''</p>'')
           else
             kv ''Drift'' (escapeHtml (formatTrim nt (rf_driftDb c))) @
             (case rf_verdict c of
                Some v \<Rightarrow> kv ''Verdict'' (if v = Pass then ''Pass'' else ''Fail'')
              | None \<Rightarrow> []))))"

definition setting_metric_row :: "real \<Rightarrow> SplMetricSpec \<Rightarrow> string" where
  "setting_metric_row blockSeconds m =
     ''<tr><td>'' @ escapeHtml (ms_id m) @ ''</td><td>'' @ weightingType_toString (ms_weighting m) @ ''</td><td>'' @
     weighting_toString (ms_detector m) @ ''</td><td>'' @
     escapeHtml (intervalText (real (unat (ms_windowBlocks m)) * blockSeconds)) @ ''</td></tr>''"

definition setting_alarm_row :: "number_text \<Rightarrow> real \<Rightarrow> SplAlarmSpec \<Rightarrow> string" where
  "setting_alarm_row nt blockSeconds a =
     ''<tr><td>'' @ escapeHtml (spec_metricId a) @ ''</td><td>'' @ escapeHtml (formatTrim nt (spec_limitDb a)) @ ''</td><td>'' @
     escapeHtml (intervalText (real (unat (spec_windowBlocks a)) * blockSeconds)) @ ''</td></tr>''"

definition alarm_status_row :: "number_text \<Rightarrow> ReportAlarmResult \<Rightarrow> string" where
  "alarm_status_row nt a =
     ''<tr><td>'' @ escapeHtml (ar_metricId a) @ ''</td><td class=\"'' @ stateClass (ar_state a) @ ''\">'' @ stateLabel (ar_state a) @
     (if ar_state a = AlarmFilling then '' -- window not yet full, not compared'' else []) @ ''</td><td>'' @
     dbOrAbsent nt (ar_headroomDb a) @ ''</td></tr>''"

definition setting_dose_row :: "number_text \<Rightarrow> nat \<Rightarrow> DoseSettings \<Rightarrow> string" where
  "setting_dose_row nt i d =
     ''<tr><td>'' @ decimal (i + 1) @ ''</td><td>'' @ escapeHtml (formatTrim nt (criterionLevelDb d)) @ ''</td><td>'' @
     escapeHtml (exchangeRateDisplay nt (dose_q d)) @ ''</td><td>'' @ escapeHtml (formatTrim nt (thresholdDb d)) @ ''</td><td>'' @
     escapeHtml (intervalText (criterionSeconds d)) @ ''</td></tr>''"

definition renderSettings :: "number_text \<Rightarrow> ReportPayload \<Rightarrow> string" where
  "renderSettings nt p =
     (let cfg = rp_config p
      in html_section ''settings'' ''Settings''
       (kv ''Block interval'' (escapeHtml (secondsDisplay nt (cf_blockSeconds cfg))) @
        kv ''Reference offset'' (escapeHtml (formatTrim nt (cf_referenceOffsetDb cfg))) @
        kv ''Calibrated'' (if cf_calibrated cfg then ''yes'' else ''no'') @
        kv ''Log span'' (escapeHtml (intervalText (cf_logSpanSeconds cfg))) @
        kv ''Segment size (blocks)'' (to_chars_word (cf_segmentBlocks cfg)) @
        ''<table><tr><th>Metric</th><th>Weighting</th><th>Detector</th>'' @ ''<th>Window</th></tr>'' @
        concat (map (setting_metric_row (cf_blockSeconds cfg)) (cf_metrics cfg)) @ ''</table>'' @
        ''<table><tr><th>Alarm on</th><th>Limit</th><th>Window</th></tr>'' @
        concat (map (setting_alarm_row nt (cf_blockSeconds cfg)) (cf_alarms cfg)) @ ''</table>'' @
        (if rp_alarms p \<noteq> []
         then ''<table><tr><th>Alarm status</th><th>State</th><th>Headroom</th></tr>'' @
              concat (map (alarm_status_row nt) (rp_alarms p)) @ ''</table>''
         else []) @
        ''<table><tr><th>Dose preset</th><th>L_c</th><th>q</th><th>Threshold</th>'' @ ''<th>T_c</th></tr>'' @
        concat (map2 (setting_dose_row nt) [0..<length (cf_dose cfg)] (cf_dose cfg)) @ ''</table>''))"

definition ln_row :: "number_text \<Rightarrow> ReportMetricResult \<Rightarrow> real option \<Rightarrow> real \<Rightarrow> string" where
  "ln_row nt m v percent =
     ''<tr><td>'' @ escapeHtml (lnLabel nt (me_weighting m) (me_detector m) percent (me_intervalSeconds m)) @ ''</td><td>'' @
     dbOrAbsent nt v @ ''</td></tr>''"

definition metric_table :: "number_text \<Rightarrow> ReportMetricResult \<Rightarrow> string" where
  "metric_table nt m =
     ''<h3>'' @ escapeHtml (me_id m) @ '' ('' @ weightingType_toString (me_weighting m) @ weighting_toString (me_detector m) @
     '')</h3><table>'' @
     ''<tr><td>Leq ('' @ escapeHtml (intervalText (me_intervalSeconds m)) @ '')</td><td>'' @ dbOrAbsent nt (me_leqDb m) @ ''</td></tr>'' @
     ''<tr><td>Lmax</td><td>'' @ dbOrAbsent nt (me_lmaxDb m) @ ''</td></tr>'' @
     ''<tr><td>Lmin</td><td>'' @ dbOrAbsent nt (me_lminDb m) @ ''</td></tr>'' @
     ''<tr><td>Lpeak (C, sampled)</td><td>'' @ dbOrAbsent nt (me_lpeakDb m) @ ''</td></tr>'' @
     ''<tr><td>SEL</td><td>'' @ dbOrAbsent nt (me_selDb m) @ ''</td></tr>'' @
     concat (map2 (ln_row nt m) (me_lnDb m) (me_lnPercents m)) @ ''</table>''"

definition renderMetrics :: "number_text \<Rightarrow> ReportPayload \<Rightarrow> string" where
  "renderMetrics nt p =
     html_section ''results'' ''Results per configured metric'' (concat (map (metric_table nt) (rp_metrics p)))"

definition dose_row :: "number_text \<Rightarrow> ReportDoseResult \<Rightarrow> string" where
  "dose_row nt d =
     (if dr_label d = [] then []
      else ''<tr><td>'' @ escapeHtml (dr_label d) @ ''</td><td>'' @ percentOrAbsent nt (dr_percent d) @ ''</td><td>'' @
           percentOrAbsent nt (dr_projectedPercent d) @ ''</td><td>'' @ escapeHtml (intervalText (dr_elapsedSeconds d)) @ ''</td><td>'' @
           escapeHtml (intervalText (criterionSeconds (dr_settings d))) @ ''</td><td>'' @ dbOrAbsent nt (dr_twaDb d) @ ''</td><td>'' @
           dbOrAbsent nt (dr_exposureLevel8hDb d) @ ''</td></tr>'')"

definition renderDose :: "number_text \<Rightarrow> ReportPayload \<Rightarrow> string" where
  "renderDose nt p =
     html_section ''dose'' ''Dose''
       (''<table><tr><th>Preset</th><th>D%</th><th>Projected D%</th>'' @
        ''<th>Elapsed</th><th>Criterion</th><th>TWA</th><th>L_EX,8h</th></tr>'' @
        concat (map (dose_row nt) (rp_dose p)) @ ''</table>'')"

section \<open>The history strip\<close>

definition kW :: real where "kW = 1000"
definition kH :: real where "kH = 120"
definition kFloor :: real where "kFloor = -20"
definition kCeil :: real where "kCeil = 140"

text \<open>The smallest and largest block index drawn so far.\<close>

type_synonym strip_scale = "uint64_t option \<times> uint64_t option"

definition scan_index :: "uint64_t \<Rightarrow> strip_scale \<Rightarrow> strip_scale" where
  "scan_index i fl =
     (let (first, final) = fl
      in (if first = None \<or> i < the first then Some i else first, if final = None \<or> i > the final then Some i else final))"

definition strip_scale :: "ReportPayload \<Rightarrow> strip_scale" where
  "strip_scale p =
     (let fl = fold (\<lambda>series. fold (\<lambda>pt. scan_index (fst pt)) (hs_points series)) (rp_history p) (None, None);
          fl = fold (\<lambda>marker. scan_index (mk_blockIndex marker)) (rp_markers p) fl
      in case va_excludedBlockRange (rp_validity p) of
           None \<Rightarrow> fl
         | Some (lo, hi) \<Rightarrow> scan_index hi (scan_index lo fl))"

definition strip_span :: "strip_scale \<Rightarrow> real" where
  "strip_span fl =
     (case fl of
        (Some first, Some final) \<Rightarrow> if final > first then real (unat (final - first)) else 1
      | _ \<Rightarrow> 1)"

definition xFor :: "strip_scale \<Rightarrow> uint64_t \<Rightarrow> real" where
  "xFor fl idx =
     (case fst fl of
        None \<Rightarrow> 0
      | Some first \<Rightarrow>
          (let delta = (if idx \<ge> first then real (unat (idx - first)) else 0) in delta / strip_span fl * kW))"

text \<open>\<^verbatim>\<open>std::min (std::max (valueDb, kFloor), kCeil)\<close>: an infinity is clamped like a number, a NaN passes through.\<close>

definition clamp_level :: "double \<Rightarrow> double" where
  "clamp_level valueDb =
     (let m = (if dlt valueDb (Fin kFloor) then Fin kFloor else valueDb) in if dlt (Fin kCeil) m then Fin kCeil else m)"

definition yFor :: "double \<Rightarrow> double" where
  "yFor valueDb =
     (case clamp_level valueDb of
        Fin clamped \<Rightarrow> Fin (kH - (clamped - kFloor) / (kCeil - kFloor) * kH)
      | _ \<Rightarrow> NaN)"

definition to_string_double :: "number_text \<Rightarrow> double \<Rightarrow> string" where
  "to_string_double nt y = (case y of Fin r \<Rightarrow> nt_fixed nt 6 r | special \<Rightarrow> nt_special nt special)"

definition excluded_rect :: "number_text \<Rightarrow> strip_scale \<Rightarrow> (uint64_t \<times> uint64_t) option \<Rightarrow> string" where
  "excluded_rect nt fl excluded =
     (case excluded of
        None \<Rightarrow> []
      | Some (lo, hi) \<Rightarrow>
          (let x1 = xFor fl lo; x2 = xFor fl hi
           in ''<rect class=\"excluded-region\" x=\"'' @ nt_fixed nt 6 (min x1 x2) @ ''\" y=\"0\" width=\"'' @
              nt_fixed nt 6 (max x1 x2 - min x1 x2) @ ''\" height=\"120\" />''))"

definition strip_point :: "number_text \<Rightarrow> strip_scale \<Rightarrow> uint64_t \<times> double \<Rightarrow> string" where
  "strip_point nt fl pt = nt_fixed nt 6 (xFor fl (fst pt)) @ '','' @ to_string_double nt (yFor (snd pt)) @ '' ''"

definition strip_trace :: "number_text \<Rightarrow> strip_scale \<Rightarrow> ReportHistorySeries \<Rightarrow> string" where
  "strip_trace nt fl series =
     (if hs_points series = [] then []
      else ''<polyline class=\"trace\" points=\"'' @ concat (map (strip_point nt fl) (hs_points series)) @ ''\" />'')"

definition marker_class :: "SplMarkerKind \<Rightarrow> string" where
  "marker_class k =
     (if k = MarkerAlarm then ''marker-alarm'' else if k = MarkerOverload then ''marker-overload''
      else if k = MarkerGap then ''marker-gap'' else [])"

definition strip_marker :: "number_text \<Rightarrow> strip_scale \<Rightarrow> SplMarker \<Rightarrow> string" where
  "strip_marker nt fl marker =
     (let cls = marker_class (mk_kind marker)
      in if cls = [] then []
         else let x = nt_fixed nt 6 (xFor fl (mk_blockIndex marker))
              in ''<line class=\"'' @ cls @ ''\" x1=\"'' @ x @ ''\" x2=\"'' @ x @ ''\" y1=\"0\" y2=\"120\" />'')"

definition renderHistory :: "number_text \<Rightarrow> ReportPayload \<Rightarrow> string" where
  "renderHistory nt p =
     (let fl = strip_scale p
      in html_section ''history'' ''Time history''
        (''<svg class=\"strip\" viewBox=\"0 0 1000 120\" '' @ ''xmlns=\"http://www.w3.org/2000/svg\">'' @
         excluded_rect nt fl (va_excludedBlockRange (rp_validity p)) @ concat (map (strip_trace nt fl) (rp_history p)) @
         concat (map (strip_marker nt fl) (rp_markers p)) @ ''</svg>''))"

definition renderValidity :: "ReportPayload \<Rightarrow> string" where
  "renderValidity p =
     (let v = rp_validity p
      in html_section ''validity'' ''Validity''
       (kv ''Total blocks'' (to_chars_word (va_totalBlocks v)) @
        kv ''Excluded from compliance windows'' (to_chars_word (va_excludedBlocks v)) @
        kv ''Overload blocks'' (to_chars_word (va_overloadBlocks v)) @
        kv ''Under-range blocks'' (to_chars_word (va_underRangeBlocks v)) @
        kv ''Dropped blocks'' (to_chars_word (va_droppedBlocks v)) @
        kv ''Gap blocks'' (to_chars_word (va_gapBlocks v)) @
        kv ''Total samples lost to gaps'' (to_chars_word (va_droppedSamplesTotal v)) @
        kv ''Refused metrics (configured beyond the cap)'' (to_chars_word (va_refusedMetrics v)) @
        kv ''Bytes discarded (truncated final line)'' (to_chars_word (va_bytesDiscarded v)) @
        kv ''Ln / dose / alarm source''
          (if va_lnDoseAlarmFromLiveSession v then ''live session, read at export time''
           else ''unavailable -- session was not live when this report was built'') @
        kv ''Excluded block range (calibration invalid)''
          (case va_excludedBlockRange v of
             Some (lo, hi) \<Rightarrow> to_chars_word lo @ '' .. '' @ to_chars_word hi
           | None \<Rightarrow> ''none'') @
        ''<table><tr><th>Segment</th></tr>'' @
        concat (map (\<lambda>seg. ''<tr><td>'' @ escapeHtml seg @ ''</td></tr>'') (va_segmentPaths v)) @ ''</table>'' @
        ''<p class=\"honesty\">This report's content list is assembled from market '' @
        ''practice; it is not claimed conformant with ISO 1996-2:2017 clause 13, '' @
        ''whose body is paywalled and unread by this project.</p>'' @
        ''<p class=\"honesty\">Alarm transition markers are not recorded in this log '' @ ''format.</p>''))"

definition renderIntegrity :: "ReportPayload \<Rightarrow> string" where
  "renderIntegrity p =
     html_section ''integrity'' ''Integrity''
       (kv ''SHA-256 over the log segments''
          (''<span class=\"hash\">'' @ sha256Hex (concat (rp_logSegments p)) @ ''</span>'') @
        ''<p class=\"honesty\">A tamper-evidence hash, not a signature: a signature '' @
        ''needs a key and a story about where the key lives, which this project does '' @ ''not have.</p>'')"

section \<open>The document\<close>

definition kReportStyle :: string where
  "kReportStyle = newline # unlines
    ['':root {'',
     ''  --bg: #17181c; --panel: #1f2126; --ink: #e8e6e1; --dim: #9a988f;'',
     ''  --line: #2c2e34; --amber: #e0a028; --ice: #6fb8c9; --bad: #c4453a;'',
     ''}'',
     ''* { box-sizing: border-box; }'',
     ''body {'',
     ''  margin: 0; padding: 24px; background: var(--bg); color: var(--ink);'',
     ''  font-family: \"IBM Plex Sans\", Arial, sans-serif; font-size: 14px;'',
     ''  line-height: 1.45;'',
     ''}'',
     ''h1 { font-family: \"Saira Condensed\", Arial, sans-serif; font-weight: 600;'',
     ''  letter-spacing: 0.02em; margin: 0 0 4px 0; }'',
     ''h2 { font-family: \"Saira Condensed\", Arial, sans-serif; font-weight: 600;'',
     ''  border-bottom: 1px solid var(--line); padding-bottom: 4px; margin: 0 0 10px 0; }'',
     ''.subtitle { color: var(--dim); margin: 0 0 20px 0; }'',
     ''.section { background: var(--panel); border: 1px solid var(--line);'',
     ''  border-radius: 6px; padding: 16px 20px; margin: 0 0 16px 0; }'',
     ''.section.collapsed > *:not(h2) { display: none; }'',
     ''.kv { display: grid; grid-template-columns: 220px 1fr; gap: 4px 12px;'',
     ''  margin: 2px 0; }'',
     ''.kv .label { color: var(--dim); }'',
     ''.kv .value { font-family: \"IBM Plex Mono\", monospace; }'',
     ''table { border-collapse: collapse; width: 100%; margin: 6px 0; }'',
     ''th, td { text-align: left; padding: 4px 10px; border-bottom: 1px solid var(--line);'',
     ''  font-family: \"IBM Plex Mono\", monospace; font-size: 13px; }'',
     ''th { color: var(--dim); font-family: \"IBM Plex Sans\", sans-serif; font-weight: 600; }'',
     ''.state-fired { color: var(--bad); font-weight: 600; }'',
     ''.state-clear { color: var(--ink); }'',
     ''.state-filling { color: var(--dim); }'',
     ''.absent { color: var(--dim); font-style: italic; }'',
     ''.honesty { color: var(--dim); font-size: 12px; border-top: 1px solid var(--line);'',
     ''  padding-top: 10px; margin-top: 10px; }'',
     ''.hash { font-family: \"IBM Plex Mono\", monospace; word-break: break-all; }'',
     ''.strip { width: 100%; height: 120px; background: #14151a; border-radius: 4px; }'',
     ''.strip .trace { fill: none; stroke: var(--ice); stroke-width: 1.5; }'',
     ''.strip .marker-alarm { stroke: var(--bad); }'',
     ''.strip .marker-overload { stroke: var(--amber); }'',
     ''.strip .marker-gap { stroke: var(--dim); stroke-dasharray: 2 2; }'',
     ''.strip .excluded-region { fill: var(--bad); opacity: 0.12; }'']"

definition kReportScript :: string where
  "kReportScript = newline # unlines
    [''(function () {'',
     ''  \"use strict\";'',
     ''  var sections = document.querySelectorAll(\".section > h2\");'',
     ''  for (var i = 0; i < sections.length; i++) {'',
     ''    var heading = sections[i];'',
     ''    heading.style.cursor = \"pointer\";'',
     ''    heading.addEventListener(\"click\", function (evt) {'',
     ''      var body = evt.currentTarget.parentElement;'',
     ''      body.classList.toggle(\"collapsed\");'',
     ''    });'',
     ''  }'',
     ''})();'']"

definition documentShell :: "string \<Rightarrow> string \<Rightarrow> string \<Rightarrow> string" where
  "documentShell title bodyExtra sections =
     ''<!DOCTYPE html><html lang=\"en\"><head><meta charset=\"utf-8\">'' @ ''<title>'' @ escapeHtml title @ ''</title>'' @
     ''<style>'' @ kReportStyle @ ''</style>'' @ ''</head><body>'' @
     ''<h1>SPL measurement report</h1><p class=\"subtitle\">rtatool</p>'' @ bodyExtra @ sections @
     ''<script>'' @ kReportScript @ ''</script>'' @ ''</body></html>''"

definition renderReport :: "number_text \<Rightarrow> ReportPayload \<Rightarrow> string" where
  "renderReport nt p =
     (let sections = renderIdentification p @ renderInstrument p @ renderCalibration nt p @ renderSettings nt p @
            renderMetrics nt p @ renderDose nt p @ renderHistory nt p @ renderValidity p @ renderIntegrity p;
          payloadJson = ''<script>window.__SPL_PAYLOAD__ = {\"frozen\":true};</script>''
      in documentShell (if rp_event p = [] then ''SPL report'' else rp_event p) payloadJson sections)"

definition renderViewerShell :: string where
  "renderViewerShell =
     documentShell ''SPL viewer'' []
       (''<p class=\"honesty\">This is the viewer shell with no payload embedded. '' @
        ''Wave 4b (the served viewer) was cut before shipping (owner decision, '' @
        ''2026-09-25); record sec.12 constraint 2's rounding obligation is '' @
        ''therefore recorded as untested for the viewer.</p>'')"

section \<open>Tags\<close>

text \<open>What a browser takes for markup: every run from an opening to the next closing angle bracket.\<close>

fun tags_from :: "string option \<Rightarrow> string \<Rightarrow> string list" where
  "tags_from None [] = []"
| "tags_from (Some t) [] = [rev t]"
| "tags_from None (c # s) = tags_from (if c = CHR ''<'' then Some [] else None) s"
| "tags_from (Some t) (c # s) = (if c = CHR ''>'' then rev t # tags_from None s else tags_from (Some (c # t)) s)"

definition tags :: "string \<Rightarrow> string list" where
  "tags s = tags_from None s"

fun in_tag_after :: "bool \<Rightarrow> string \<Rightarrow> bool" where
  "in_tag_after b [] = b"
| "in_tag_after b (c # s) = in_tag_after (if b then c \<noteq> CHR ''>'' else c = CHR ''<'') s"

text \<open>A browser reads the four entities back.\<close>

fun html_text :: "string \<Rightarrow> string" where
  "html_text [] = []"
| "html_text (c # s) =
     (if c \<noteq> CHR ''&'' then c # html_text s
      else if take 4 s = ''amp;'' then CHR ''&'' # html_text (drop 4 s)
      else if take 3 s = ''lt;'' then CHR ''<'' # html_text (drop 3 s)
      else if take 3 s = ''gt;'' then CHR ''>'' # html_text (drop 3 s)
      else if take 5 s = ''quot;'' then CHR 0x22 # html_text (drop 5 s)
      else c # html_text s)"

lemma html_text_escape: "html_text (escapeHtml s) = s"
  by (induction s) (auto simp: escapeHtml_def escape_char_def)

lemma escapeHtml_plain: "CHR ''<'' \<notin> set (escapeHtml s)" "CHR ''>'' \<notin> set (escapeHtml s)"
  by (auto simp: escapeHtml_def escape_char_def split: if_splits)

text \<open>Two texts with the same markup, both ending outside of a tag.\<close>

definition same_markup :: "string \<Rightarrow> string \<Rightarrow> bool" where
  "same_markup a b \<longleftrightarrow> \<not> in_tag_after False a \<and> \<not> in_tag_after False b \<and> tags a = tags b"

lemma tags_append: "\<not> in_tag_after (t \<noteq> None) a \<Longrightarrow> tags_from t (a @ b) = tags_from t a @ tags_from None b"
  by (induction t a rule: tags_from.induct) (auto split: if_splits)

lemma in_tag_append: "in_tag_after x (a @ b) = in_tag_after (in_tag_after x a) b"
  by (induction a arbitrary: x) auto

lemma same_markup_append: "same_markup a b \<Longrightarrow> same_markup c d \<Longrightarrow> same_markup (a @ c) (b @ d)"
  using tags_append [of None a c] tags_append [of None b d]
  by (simp add: same_markup_def tags_def in_tag_append)

lemma plain_tags: "CHR ''<'' \<notin> set s \<Longrightarrow> tags_from None s = [] \<and> \<not> in_tag_after False s"
  by (induction s) auto

lemma same_markup_text: "CHR ''<'' \<notin> set a \<Longrightarrow> CHR ''<'' \<notin> set b \<Longrightarrow> same_markup a b"
  by (simp add: same_markup_def tags_def plain_tags)

lemma same_markup_escaped: "same_markup (escapeHtml a) (escapeHtml b)"
  by (rule same_markup_text) (rule escapeHtml_plain)+

lemma same_markup_refl: "\<not> in_tag_after False a \<Longrightarrow> same_markup a a"
  by (simp add: same_markup_def)

lemma same_markup_concat: "list_all2 (\<lambda>x y. same_markup (f x) (g y)) xs ys \<Longrightarrow> same_markup (concat (map f xs)) (concat (map g ys))"
  by (induction rule: list_all2_induct) (auto intro: same_markup_append same_markup_refl)

lemma numbers_plain:
  "CHR ''<'' \<notin> set (to_chars_word (w :: 'a::len word))" "CHR ''<'' \<notin> set (decimal n)"
  using to_chars_word_digits [of "CHR ''<''" w] decimal_digits [of "CHR ''<''" n] by (auto simp: is_digit_def)

lemma kv_markup: "same_markup v w \<Longrightarrow> same_markup (kv label v) (kv label w)"
  unfolding kv_def by (intro same_markup_append same_markup_escaped) (simp_all add: same_markup_refl)

lemma section_markup:
  assumes "same_markup a b" "CHR ''>'' \<notin> set ident"
  shows "same_markup (html_section ident title a) (html_section ident title b)"
proof -
  have inside: "in_tag_after True s" if "CHR ''>'' \<notin> set s" for s
    using that by (induction s) auto
  define pre where "pre = ''<section class=\"section\" id=\"'' @ ident @ ''\"><h2>''"
  have "\<not> in_tag_after False pre"
    using assms(2) inside by (simp add: pre_def in_tag_append)
  moreover have "html_section ident title x = pre @ escapeHtml title @ ''</h2>'' @ x @ ''</section>''" for x
    by (simp add: html_section_def pre_def)
  ultimately show ?thesis
    by (simp only:) (intro same_markup_append same_markup_escaped assms(1); simp add: same_markup_refl)
qed

lemma absent_closed: "\<not> in_tag_after False (absentSpan reason)"
  unfolding absentSpan_def by (simp add: in_tag_append plain_tags escapeHtml_plain)

lemma escaped_closed: "\<not> in_tag_after False (escapeHtml s)"
  by (simp add: plain_tags escapeHtml_plain)

lemma value_markup:
  "same_markup (dbOrAbsent nt v) (dbOrAbsent nt v)" "same_markup (percentOrAbsent nt v) (percentOrAbsent nt v)"
  "same_markup (to_chars_word w) (to_chars_word w)" "same_markup (decimal n) (decimal n)"
  "same_markup (weightingType_toString wt) (weightingType_toString wt)" "same_markup (weighting_toString tw) (weighting_toString tw)"
  by (auto simp: same_markup_def dbOrAbsent_def percentOrAbsent_def absent_closed escaped_closed plain_tags numbers_plain
      weighting_toString_def split: option.split TimeWeighting.split) (cases wt; simp)+

lemmas markup_parts = same_markup_append same_markup_escaped kv_markup section_markup value_markup

text \<open>Other texts wherever a user, a device or a file name can put one.\<close>

definition retext :: "(string \<Rightarrow> string) \<Rightarrow> ReportPayload \<Rightarrow> ReportPayload" where
  "retext f p =
     p\<lparr>rp_venue := f (rp_venue p), rp_event := f (rp_event p), rp_operatorName := f (rp_operatorName p),
       rp_company := f (rp_company p), rp_engineer := f (rp_engineer p), rp_productionCompany := f (rp_productionCompany p),
       rp_notes := f (rp_notes p), rp_appName := f (rp_appName p), rp_appVersion := f (rp_appVersion p),
       rp_buildId := f (rp_buildId p), rp_device := f (rp_device p), rp_channel := f (rp_channel p),
       rp_calibration := (rp_calibration p)\<lparr>rf_clause := f (rf_clause (rp_calibration p))\<rparr>,
       rp_config := (rp_config p)\<lparr>cf_metrics := map (\<lambda>m. m\<lparr>ms_id := f (ms_id m)\<rparr>) (cf_metrics (rp_config p)),
         cf_alarms := map (\<lambda>a. a\<lparr>spec_metricId := f (spec_metricId a)\<rparr>) (cf_alarms (rp_config p))\<rparr>,
       rp_alarms := map (\<lambda>a. a\<lparr>ar_metricId := f (ar_metricId a)\<rparr>) (rp_alarms p),
       rp_metrics := map (\<lambda>m. m\<lparr>me_id := f (me_id m)\<rparr>) (rp_metrics p),
       rp_dose := map (\<lambda>d. d\<lparr>dr_label := f (dr_label d)\<rparr>) (rp_dose p),
       rp_history := map (\<lambda>h. h\<lparr>hs_metricId := f (hs_metricId h)\<rparr>) (rp_history p),
       rp_markers := map (\<lambda>m. m\<lparr>mk_quantity := f (mk_quantity m)\<rparr>) (rp_markers p),
       rp_validity := (rp_validity p)\<lparr>va_segmentPaths := map f (va_segmentPaths (rp_validity p))\<rparr>\<rparr>"

lemma identification_markup: "same_markup (renderIdentification p) (renderIdentification (retext f p))"
  unfolding renderIdentification_def by (intro markup_parts) simp

lemma instrument_markup: "same_markup (renderInstrument p) (renderInstrument (retext f p))"
  unfolding renderInstrument_def by (intro markup_parts) (simp_all add: same_markup_refl)

lemma retext_fields:
  "rp_calibrationOffsetApplied (retext f p) = rp_calibrationOffsetApplied p"
  "rp_calibrationChannelRefusal (retext f p) = rp_calibrationChannelRefusal p"
  "rp_calibration (retext f p) = (rp_calibration p)\<lparr>rf_clause := f (rf_clause (rp_calibration p))\<rparr>"
  "rp_logSegments (retext f p) = rp_logSegments p"
  by (simp_all add: retext_def)

lemma calibration_markup: "same_markup (renderCalibration nt p) (renderCalibration nt (retext f p))"
proof -
  have refused: "same_markup
      (if r = ChannelMismatch
       then ''the start and end checks were measured on DIFFERENT channels '' @
            ''(a role was reassigned between them) -- no drift verdict is '' @ ''meaningful between two different signal paths.''
       else ''no measurement channel could be resolved for this calibration '' @
            ''(an empty routing plan, or a calibrator-only rig) -- no drift '' @ ''verdict is written.'')
      (if r = ChannelMismatch
       then ''the start and end checks were measured on DIFFERENT channels '' @
            ''(a role was reassigned between them) -- no drift verdict is '' @ ''meaningful between two different signal paths.''
       else ''no measurement channel could be resolved for this calibration '' @
            ''(an empty routing plan, or a calibrator-only rig) -- no drift '' @ ''verdict is written.'')" for r
    by (rule same_markup_refl) simp
  have verdict_text: "same_markup (case v of Some v \<Rightarrow> kv ''Verdict'' (if v = Pass then ''Pass'' else ''Fail'') | None \<Rightarrow> [])
      (case v of Some v \<Rightarrow> kv ''Verdict'' (if v = Pass then ''Pass'' else ''Fail'') | None \<Rightarrow> [])" for v
    by (cases v) (simp_all add: same_markup_refl kv_markup)
  show ?thesis
    unfolding renderCalibration_def Let_def retext_fields
    by (rule section_markup, simp only: CalibrationReportFields.simps split: if_split, intro conjI impI markup_parts refused verdict_text)
      (auto intro!: same_markup_refl simp: numbers_plain plain_tags verdict_text [unfolded same_markup_def, THEN conjunct1])
qed

lemma concat_rows: "(\<And>x. x \<in> set xs \<Longrightarrow> same_markup (r x) (r' x)) \<Longrightarrow> same_markup (concat (map r xs)) (concat (map r' xs))"
  by (intro same_markup_concat) (simp add: list.rel_refl_strong)

lemma metric_row_markup: "same_markup (setting_metric_row b m) (setting_metric_row b (m\<lparr>ms_id := s\<rparr>))"
  unfolding setting_metric_row_def by (cases m, simp only: SplMetricSpec.simps) (intro markup_parts; simp add: same_markup_refl)

lemma alarm_row_markup: "same_markup (setting_alarm_row nt b a) (setting_alarm_row nt b (a\<lparr>spec_metricId := s\<rparr>))"
  unfolding setting_alarm_row_def by (cases a, simp only: SplAlarmSpec.simps) (intro markup_parts; simp add: same_markup_refl)

lemma dose_setting_markup: "same_markup (setting_dose_row nt i d) (setting_dose_row nt i d)"
  unfolding setting_dose_row_def by (intro markup_parts; simp add: same_markup_refl)

lemma status_row_markup: "same_markup (alarm_status_row nt a) (alarm_status_row nt (a\<lparr>ar_metricId := s\<rparr>))"
proof -
  have cell: "same_markup (x @ (''</td><td class=\"'' @ stateClass k @ ''\">'') @ y) (x' @ (''</td><td class=\"'' @ stateClass k @ ''\">'') @ y')"
    if "same_markup x x'" "same_markup y y'" for x x' y y' k
    by (rule same_markup_append [OF that(1) same_markup_append [OF _ that(2)]], rule same_markup_refl)
      (cases k; simp add: stateClass_def)
  have label: "same_markup (stateLabel k) (stateLabel k)" for k
    by (cases k) (simp_all add: stateLabel_def same_markup_refl)
  have filling: "same_markup (if b then '' -- window not yet full, not compared'' else [])
      (if b then '' -- window not yet full, not compared'' else [])" for b
    by (simp add: same_markup_refl)
  have shape: "alarm_status_row nt a =
      (''<tr><td>'' @ escapeHtml (ar_metricId a)) @ (''</td><td class=\"'' @ stateClass (ar_state a) @ ''\">'') @ stateLabel (ar_state a) @
      (if ar_state a = AlarmFilling then '' -- window not yet full, not compared'' else []) @ ''</td><td>'' @
      dbOrAbsent nt (ar_headroomDb a) @ ''</td></tr>''" for a
    by (simp only: alarm_status_row_def append_assoc)
  show ?thesis
    unfolding shape by (cases a, simp only: ReportAlarmResult.simps) (intro cell label filling markup_parts; simp add: same_markup_refl)
qed

lemma settings_markup: "same_markup (renderSettings nt p) (renderSettings nt (retext f p))"
proof -
  have yes: "same_markup (if b then ''yes'' else ''no'') (if b then ''yes'' else ''no'')" for b
    by (simp add: same_markup_refl)
  have doses: "same_markup (concat (map2 (setting_dose_row nt) is ds)) (concat (map2 (setting_dose_row nt) is ds))" for "is" ds
    by (rule concat_rows) (auto intro: dose_setting_markup)
  have alarms: "same_markup
      (if as \<noteq> [] then ''<table><tr><th>Alarm status</th><th>State</th><th>Headroom</th></tr>'' @
         concat (map (alarm_status_row nt) as) @ ''</table>'' else [])
      (if map (\<lambda>a. a\<lparr>ar_metricId := f (ar_metricId a)\<rparr>) as \<noteq> []
       then ''<table><tr><th>Alarm status</th><th>State</th><th>Headroom</th></tr>'' @
         concat (map (alarm_status_row nt) (map (\<lambda>a. a\<lparr>ar_metricId := f (ar_metricId a)\<rparr>) as)) @ ''</table>'' else [])" for as
  proof (cases "as = []")
    case False
    have "same_markup (concat (map (alarm_status_row nt) as))
        (concat (map (alarm_status_row nt) (map (\<lambda>a. a\<lparr>ar_metricId := f (ar_metricId a)\<rparr>) as)))"
      unfolding list.map_comp by (rule concat_rows) (simp add: status_row_markup)
    then show ?thesis
      unfolding if_P [OF False] by (simp only: False map_is_Nil_conv not_False_eq_True if_True)
        (intro markup_parts; simp add: same_markup_refl)
  qed (simp add: same_markup_refl)
  have config: "rp_config (retext f p) = (rp_config p)\<lparr>cf_metrics := map (\<lambda>m. m\<lparr>ms_id := f (ms_id m)\<rparr>) (cf_metrics (rp_config p)),
         cf_alarms := map (\<lambda>a. a\<lparr>spec_metricId := f (spec_metricId a)\<rparr>) (cf_alarms (rp_config p))\<rparr>"
      "rp_alarms (retext f p) = map (\<lambda>a. a\<lparr>ar_metricId := f (ar_metricId a)\<rparr>) (rp_alarms p)"
    by (simp_all add: retext_def)
  have metrics: "same_markup (concat (map (setting_metric_row b) ms)) (concat (map (setting_metric_row b) (map (\<lambda>m. m\<lparr>ms_id := f (ms_id m)\<rparr>) ms)))" for b ms
    unfolding list.map_comp by (rule concat_rows) (simp add: metric_row_markup)
  have limits: "same_markup (concat (map (setting_alarm_row nt b) as))
      (concat (map (setting_alarm_row nt b) (map (\<lambda>a. a\<lparr>spec_metricId := f (spec_metricId a)\<rparr>) as)))" for b as
    unfolding list.map_comp by (rule concat_rows) (simp add: alarm_row_markup)
  show ?thesis
    unfolding renderSettings_def Let_def config
    by (rule section_markup, cases "rp_config p", simp only: SplConfig.simps, intro markup_parts yes doses alarms metrics limits)
      (simp_all add: same_markup_refl)
qed

lemma ln_row_markup: "same_markup (ln_row nt m v x) (ln_row nt (m\<lparr>me_id := s\<rparr>) v x)"
  unfolding ln_row_def by (cases m, simp only: ReportMetricResult.simps) (intro markup_parts; simp add: same_markup_refl)

lemma metric_table_markup: "same_markup (metric_table nt m) (metric_table nt (m\<lparr>me_id := s\<rparr>))"
proof -
  have lns: "same_markup (concat (map2 (ln_row nt m) vs xs)) (concat (map2 (ln_row nt (m\<lparr>me_id := s\<rparr>)) vs xs))" for vs xs
    by (rule concat_rows) (auto intro: ln_row_markup)
  have fields: "me_lnDb (m\<lparr>me_id := s\<rparr>) = me_lnDb m" "me_lnPercents (m\<lparr>me_id := s\<rparr>) = me_lnPercents m"
      "me_weighting (m\<lparr>me_id := s\<rparr>) = me_weighting m" "me_detector (m\<lparr>me_id := s\<rparr>) = me_detector m"
      "me_intervalSeconds (m\<lparr>me_id := s\<rparr>) = me_intervalSeconds m" "me_leqDb (m\<lparr>me_id := s\<rparr>) = me_leqDb m"
      "me_lmaxDb (m\<lparr>me_id := s\<rparr>) = me_lmaxDb m" "me_lminDb (m\<lparr>me_id := s\<rparr>) = me_lminDb m"
      "me_lpeakDb (m\<lparr>me_id := s\<rparr>) = me_lpeakDb m" "me_selDb (m\<lparr>me_id := s\<rparr>) = me_selDb m"
    by simp_all
  show ?thesis
    unfolding metric_table_def fields by (intro markup_parts lns) (simp_all add: same_markup_refl)
qed

lemma metrics_markup: "same_markup (renderMetrics nt p) (renderMetrics nt (retext f p))"
proof -
  have "rp_metrics (retext f p) = map (\<lambda>m. m\<lparr>me_id := f (me_id m)\<rparr>) (rp_metrics p)"
    by (simp add: retext_def)
  then show ?thesis
    unfolding renderMetrics_def
    by (simp only: list.map_comp) (rule section_markup, rule concat_rows, simp_all add: metric_table_markup)
qed

lemma dose_row_markup:
  assumes "s = [] \<longleftrightarrow> dr_label d = []"
  shows "same_markup (dose_row nt d) (dose_row nt (d\<lparr>dr_label := s\<rparr>))"
proof (cases "s = []")
  case False
  have fields: "dr_percent (d\<lparr>dr_label := s\<rparr>) = dr_percent d" "dr_projectedPercent (d\<lparr>dr_label := s\<rparr>) = dr_projectedPercent d"
      "dr_elapsedSeconds (d\<lparr>dr_label := s\<rparr>) = dr_elapsedSeconds d" "dr_settings (d\<lparr>dr_label := s\<rparr>) = dr_settings d"
      "dr_twaDb (d\<lparr>dr_label := s\<rparr>) = dr_twaDb d" "dr_exposureLevel8hDb (d\<lparr>dr_label := s\<rparr>) = dr_exposureLevel8hDb d"
      "dr_label (d\<lparr>dr_label := s\<rparr>) = s"
    by simp_all
  have "dr_label d \<noteq> []"
    using False assms by simp
  then show ?thesis
    unfolding dose_row_def fields if_not_P [OF False] if_not_P [OF \<open>dr_label d \<noteq> []\<close>]
    by (intro markup_parts) (simp_all add: same_markup_refl)
qed (use assms in \<open>simp add: dose_row_def same_markup_refl\<close>)

lemma doses_markup:
  assumes "\<forall>d \<in> set (rp_dose p). f (dr_label d) = [] \<longleftrightarrow> dr_label d = []"
  shows "same_markup (renderDose nt p) (renderDose nt (retext f p))"
proof -
  have rows: "same_markup (concat (map (dose_row nt) (rp_dose p)))
      (concat (map (dose_row nt) (map (\<lambda>d. d\<lparr>dr_label := f (dr_label d)\<rparr>) (rp_dose p))))"
    unfolding list.map_comp by (rule concat_rows) (use assms in \<open>simp add: dose_row_markup\<close>)
  have "rp_dose (retext f p) = map (\<lambda>d. d\<lparr>dr_label := f (dr_label d)\<rparr>) (rp_dose p)"
    by (simp add: retext_def)
  then show ?thesis
    unfolding renderDose_def by (simp only:) (rule section_markup, intro markup_parts rows; simp add: same_markup_refl)+
qed

section \<open>The strip is the same\<close>

definition plain_numbers :: "number_text \<Rightarrow> bool" where
  "plain_numbers nt \<longleftrightarrow>
     (\<forall>n x. CHR ''<'' \<notin> set (nt_fixed nt n x) \<and> CHR ''>'' \<notin> set (nt_fixed nt n x)) \<and>
     (\<forall>x. CHR ''<'' \<notin> set (nt_special nt x) \<and> CHR ''>'' \<notin> set (nt_special nt x))"

lemma inside_tag: "CHR ''>'' \<notin> set s \<Longrightarrow> in_tag_after True s"
  by (induction s) auto

lemma strip_closed:
  assumes "plain_numbers nt"
  shows "\<not> in_tag_after False (excluded_rect nt fl excluded)" "\<not> in_tag_after False (strip_trace nt fl series)"
    "\<not> in_tag_after False (strip_marker nt fl marker)"
proof -
  have n: "in_tag_after True (nt_fixed nt k x)" for k x
    using assms by (intro inside_tag) (simp add: plain_numbers_def)
  have y: "in_tag_after True (to_string_double nt y)" for y
    using assms n by (cases y) (auto intro: inside_tag simp: to_string_double_def plain_numbers_def)
  have pts: "in_tag_after True (concat (map (strip_point nt fl) pts))" for pts
    by (induction pts) (simp_all add: in_tag_append strip_point_def n y)
  show "\<not> in_tag_after False (excluded_rect nt fl excluded)"
    by (auto simp: excluded_rect_def Let_def in_tag_append n split: option.split)
  show "\<not> in_tag_after False (strip_trace nt fl series)"
    by (simp add: strip_trace_def in_tag_append pts)
  show "\<not> in_tag_after False (strip_marker nt fl marker)"
    by (simp add: strip_marker_def marker_class_def in_tag_append n Let_def)
qed

lemma history_fields:
  "rp_history (retext f p) = map (\<lambda>h. h\<lparr>hs_metricId := f (hs_metricId h)\<rparr>) (rp_history p)"
  "rp_markers (retext f p) = map (\<lambda>m. m\<lparr>mk_quantity := f (mk_quantity m)\<rparr>) (rp_markers p)"
  "va_excludedBlockRange (rp_validity (retext f p)) = va_excludedBlockRange (rp_validity p)"
  by (simp_all add: retext_def)

lemma history_same: "renderHistory nt (retext f p) = renderHistory nt p"
proof -
  have "strip_scale (retext f p) = strip_scale p"
    unfolding strip_scale_def history_fields by (simp add: fold_map comp_def)
  moreover have "strip_trace nt fl (h\<lparr>hs_metricId := s\<rparr>) = strip_trace nt fl h" "strip_marker nt fl (m\<lparr>mk_quantity := s\<rparr>) = strip_marker nt fl m" for fl h m s
    by (simp_all add: strip_trace_def strip_marker_def Let_def)
  ultimately show ?thesis
    unfolding renderHistory_def history_fields by (simp add: comp_def)
qed

lemma history_markup:
  assumes "plain_numbers nt"
  shows "same_markup (renderHistory nt p) (renderHistory nt (retext f p))"
proof -
  have rows: "\<not> in_tag_after False (concat (map r xs))" if "\<And>x. \<not> in_tag_after False (r x)" for r :: "'a \<Rightarrow> string" and xs
    using that by (induction xs) (simp_all add: in_tag_append)
  show ?thesis
    unfolding history_same
    unfolding renderHistory_def Let_def
    by (rule section_markup, rule same_markup_refl) (simp_all add: in_tag_append rows strip_closed [OF assms])
qed

section \<open>The whole document\<close>

lemma validity_markup: "same_markup (renderValidity p) (renderValidity (retext f p))"
proof -
  have v: "rp_validity (retext f p) = (rp_validity p)\<lparr>va_segmentPaths := map f (va_segmentPaths (rp_validity p))\<rparr>"
    by (simp add: retext_def)
  have paths: "same_markup (concat (map (\<lambda>seg. ''<tr><td>'' @ escapeHtml seg @ ''</td></tr>'') ps))
      (concat (map (\<lambda>seg. ''<tr><td>'' @ escapeHtml seg @ ''</td></tr>'') (map f ps)))" for ps
    unfolding list.map_comp comp_def by (rule concat_rows) (intro markup_parts; simp add: same_markup_refl)
  have source: "same_markup (if b then ''live session, read at export time'' else ''unavailable -- session was not live when this report was built'')
      (if b then ''live session, read at export time'' else ''unavailable -- session was not live when this report was built'')" for b
    by (rule same_markup_refl) simp
  have span: "same_markup (case r of Some (lo, hi) \<Rightarrow> to_chars_word lo @ '' .. '' @ to_chars_word hi | None \<Rightarrow> ''none'')
      (case r of Some (lo, hi) \<Rightarrow> to_chars_word lo @ '' .. '' @ to_chars_word hi | None \<Rightarrow> ''none'')" for r :: "(uint64_t \<times> uint64_t) option"
    by (rule same_markup_refl) (auto simp: in_tag_append plain_tags numbers_plain split: option.split)
  show ?thesis
    unfolding renderValidity_def Let_def v
    by (rule section_markup, cases "rp_validity p", simp only: ReportValidity.simps, intro markup_parts paths source span)
      (simp_all add: same_markup_refl)
qed

lemma hash_plain: "CHR ''<'' \<notin> set (sha256Hex s)" "CHR ''>'' \<notin> set (sha256Hex s)"
proof -
  have "set (sha256Hex s) \<subseteq> set kHex"
    by (rule sha256Hex_digits)
  then show "CHR ''<'' \<notin> set (sha256Hex s)" "CHR ''>'' \<notin> set (sha256Hex s)"
    by (auto simp: kHex_def)
qed

lemma integrity_markup: "same_markup (renderIntegrity p) (renderIntegrity (retext f p))"
  unfolding renderIntegrity_def retext_fields
  by (rule section_markup, intro markup_parts) (simp_all add: same_markup_refl plain_tags hash_plain)

lemma shell_parts:
  "\<not> in_tag_after False (''<style>'' @ kReportStyle @ ''</style>'' @ ''</head><body>'' @
     ''<h1>SPL measurement report</h1><p class=\"subtitle\">rtatool</p>'' @ ''<script>window.__SPL_PAYLOAD__ = {\"frozen\":true};</script>'')"
  by code_simp

lemma documentShell_tags:
  assumes "same_markup a b"
  shows "tags (documentShell title ''<script>window.__SPL_PAYLOAD__ = {\"frozen\":true};</script>'' a) =
    tags (documentShell title' ''<script>window.__SPL_PAYLOAD__ = {\"frozen\":true};</script>'' b)"
proof -
  define pre where "pre = ''<!DOCTYPE html><html lang=\"en\"><head><meta charset=\"utf-8\">'' @ ''<title>''"
  define mid where "mid = ''</title>'' @ ''<style>'' @ kReportStyle @ ''</style>'' @ ''</head><body>'' @
     ''<h1>SPL measurement report</h1><p class=\"subtitle\">rtatool</p>'' @ ''<script>window.__SPL_PAYLOAD__ = {\"frozen\":true};</script>''"
  define post where "post = ''<script>'' @ kReportScript @ ''</script>'' @ ''</body></html>''"
  have shape: "documentShell t ''<script>window.__SPL_PAYLOAD__ = {\"frozen\":true};</script>'' x =
      pre @ escapeHtml t @ mid @ x @ post" for t x
    by (simp add: documentShell_def pre_def mid_def post_def)
  have closed: "\<not> in_tag_after False pre" "\<not> in_tag_after False mid"
    using shell_parts by (simp_all add: pre_def mid_def in_tag_append)
  have "same_markup (pre @ escapeHtml title @ mid @ a) (pre @ escapeHtml title' @ mid @ b)"
    by (intro same_markup_append same_markup_escaped assms) (simp_all add: same_markup_refl closed)
  then show ?thesis
    unfolding shape
    using tags_append [of None "pre @ escapeHtml title @ mid @ a" post] tags_append [of None "pre @ escapeHtml title' @ mid @ b" post]
    by (simp add: same_markup_def tags_def)
qed

text \<open>
  Property C5: nothing that a user typed, a device reported or a file is called can change the structure of a report.
  Replacing every such text of the payload by any other leaves the sequence of tags of the document as it is, attributes
  included (a dose row is left out if its label is empty, so labels stay empty or not); and reading the escaped text as
  a browser does gives the text back.
\<close>

theorem report_markup_fixed:
  assumes "plain_numbers nt" and "\<forall>d \<in> set (rp_dose p). f (dr_label d) = [] \<longleftrightarrow> dr_label d = []"
  shows "tags (renderReport nt (retext f p)) = tags (renderReport nt p) \<and> html_text (escapeHtml s) = s"
proof -
  have "same_markup
     (renderIdentification p @ renderInstrument p @ renderCalibration nt p @ renderSettings nt p @
      renderMetrics nt p @ renderDose nt p @ renderHistory nt p @ renderValidity p @ renderIntegrity p)
     (renderIdentification (retext f p) @ renderInstrument (retext f p) @ renderCalibration nt (retext f p) @
      renderSettings nt (retext f p) @ renderMetrics nt (retext f p) @ renderDose nt (retext f p) @
      renderHistory nt (retext f p) @ renderValidity (retext f p) @ renderIntegrity (retext f p))"
    by (intro same_markup_append identification_markup instrument_markup calibration_markup settings_markup metrics_markup
        doses_markup assms history_markup validity_markup integrity_markup)
  from documentShell_tags [OF this, symmetric] show ?thesis
    unfolding renderReport_def Let_def by (intro conjI html_text_escape)
qed

definition sample_numbers :: number_text where
  "sample_numbers = \<lparr>nt_fixed = (\<lambda>n x. ''0''), nt_stream = (\<lambda>x. ''0''), nt_special = (\<lambda>x. ''nan'')\<rparr>"

definition sample_report :: ReportPayload where
  "sample_report = ReportPayload_default\<lparr>rp_venue := ''hall'',
     rp_metrics := [ReportMetricResult_default\<lparr>me_id := ''ch0'', me_leqDb := Some 90\<rparr>],
     rp_dose := [ReportDoseResult_default\<lparr>dr_label := ''NIOSH''\<rparr>, ReportDoseResult_default]\<rparr>"

theorem report_markup_fixed_witness:
  "tags (renderReport sample_numbers (retext (\<lambda>s. if s = [] then [] else ''<script>'') sample_report)) =
     tags (renderReport sample_numbers sample_report)"
proof -
  have "plain_numbers sample_numbers"
    by (simp add: plain_numbers_def sample_numbers_def)
  moreover have "\<forall>d \<in> set (rp_dose sample_report). (if dr_label d = [] then [] else ''<script>'') = [] \<longleftrightarrow> dr_label d = []"
    by simp
  ultimately show ?thesis
    using report_markup_fixed [of sample_numbers sample_report "\<lambda>s. if s = [] then [] else ''<script>''" "[]"] by blast
qed

section \<open>The strip stays in its frame\<close>

definition drawn_indices :: "ReportPayload \<Rightarrow> uint64_t list" where
  "drawn_indices p =
     concat (map (\<lambda>series. map fst (hs_points series)) (rp_history p)) @ map mk_blockIndex (rp_markers p) @
     (case va_excludedBlockRange (rp_validity p) of None \<Rightarrow> [] | Some (lo, hi) \<Rightarrow> [lo, hi])"

lemma strip_scale_drawn: "strip_scale p = fold scan_index (drawn_indices p) (None, None)"
proof -
  have points: "fold (\<lambda>series. fold (\<lambda>pt. scan_index (fst pt)) (hs_points series)) hs fl =
      fold scan_index (concat (map (\<lambda>series. map fst (hs_points series)) hs)) fl" for hs fl
    by (induction hs arbitrary: fl) (simp_all add: fold_map comp_def)
  have markers: "fold (\<lambda>marker. scan_index (mk_blockIndex marker)) ms fl = fold scan_index (map mk_blockIndex ms) fl" for ms fl
    by (simp add: fold_map comp_def)
  show ?thesis
    unfolding strip_scale_def drawn_indices_def Let_def points markers
    by (cases "va_excludedBlockRange (rp_validity p)") (simp_all split: prod.split)
qed

lemma scan_more:
  "fold scan_index is (Some a, Some b) = (Some (Min (insert a (set is))), Some (Max (insert b (set is))))"
proof (induction "is" arbitrary: a b)
  case (Cons i "is")
  have "scan_index i (Some a, Some b) = (Some (min a i), Some (max b i))"
    by (auto simp: scan_index_def min_def max_def)
  moreover have "Min (insert (min a i) (set is)) = Min (insert a (insert i (set is)))"
    "Max (insert (max b i) (set is)) = Max (insert b (insert i (set is)))"
    by (cases "set is = {}"; simp add: min.assoc max.assoc)+
  ultimately show ?case
    by (simp add: Cons.IH del: Min_insert Max_insert)
qed simp

lemma scan_all:
  assumes "is \<noteq> []"
  shows "fold scan_index is (None, None) = (Some (Min (set is)), Some (Max (set is)))"
  using assms
proof (cases "is")
  case (Cons i js)
  have "scan_index i (None, None) = (Some i, Some i)"
    by (simp add: scan_index_def)
  then show ?thesis
    by (simp add: Cons scan_more del: Min_insert Max_insert)
qed simp

lemma xFor_linear:
  assumes "i \<in> set (drawn_indices p)"
  defines "lo \<equiv> Min (set (drawn_indices p))" and "hi \<equiv> Max (set (drawn_indices p))"
  shows "xFor (strip_scale p) i = (if lo < hi then (real (unat i) - real (unat lo)) / (real (unat hi) - real (unat lo)) * kW else 0)"
    and "lo \<le> i" "i \<le> hi"
proof -
  have some: "drawn_indices p \<noteq> []"
    using assms(1) by auto
  show range: "lo \<le> i" "i \<le> hi"
    unfolding lo_def hi_def using assms(1) by simp_all
  have scale: "strip_scale p = (Some lo, Some hi)"
    unfolding strip_scale_drawn lo_def hi_def by (rule scan_all [OF some])
  have diff: "real (unat (x - lo)) = real (unat x) - real (unat lo)" if "lo \<le> x" for x
    using that by (simp add: unat_sub word_le_nat_alt of_nat_diff del: of_nat_unat)
  show "xFor (strip_scale p) i = (if lo < hi then (real (unat i) - real (unat lo)) / (real (unat hi) - real (unat lo)) * kW else 0)"
    using range order_antisym [of lo i] order_trans [of i hi lo] by (auto simp: xFor_def strip_span_def scale diff Let_def not_less simp del: of_nat_unat)
qed

lemma yFor_frame:
  "u \<noteq> NaN \<Longrightarrow> \<exists>y. yFor u = Fin y \<and> 0 \<le> y \<and> y \<le> 120"
  "dle u v \<Longrightarrow> dle (yFor v) (yFor u)"
proof -
  show "u \<noteq> NaN \<Longrightarrow> \<exists>y. yFor u = Fin y \<and> 0 \<le> y \<and> y \<le> 120"
    by (cases u) (auto simp: yFor_def clamp_level_def kH_def kFloor_def kCeil_def)
  show "dle u v \<Longrightarrow> dle (yFor v) (yFor u)"
    by (cases u; cases v) (auto simp: yFor_def clamp_level_def kH_def kFloor_def kCeil_def dle_def deq_def)
qed

text \<open>
  Property C38: everything the history strip draws lies in its view box of 1000 by 120: the horizontal position is the
  linear map of the block indices of everything drawn (trace, markers and excluded range) onto 0 to 1000, so order is
  kept and the first index is at the left edge and, if there is more than one, the last at the right edge; levels,
  infinite ones included, are clamped between top and bottom, louder not below quieter.  Only a NaN has no place, and a
  point is one only where a log states a negative energy.
\<close>

theorem strip_in_frame:
  assumes "i \<in> set (drawn_indices p)" and "j \<in> set (drawn_indices p)"
  shows "0 \<le> xFor (strip_scale p) i \<and> xFor (strip_scale p) i \<le> 1000 \<and>
    (i \<le> j \<longrightarrow> xFor (strip_scale p) i \<le> xFor (strip_scale p) j) \<and>
    xFor (strip_scale p) (Min (set (drawn_indices p))) = 0 \<and>
    (i < j \<longrightarrow> xFor (strip_scale p) (Max (set (drawn_indices p))) = 1000) \<and>
    (u \<noteq> NaN \<longrightarrow> (\<exists>y. yFor u = Fin y \<and> 0 \<le> y \<and> y \<le> 120)) \<and> (dle u v \<longrightarrow> dle (yFor v) (yFor u))"
proof -
  let ?lo = "Min (set (drawn_indices p))" and ?hi = "Max (set (drawn_indices p))"
  have some: "set (drawn_indices p) \<noteq> {}"
    using assms(1) by auto
  then have ends: "?lo \<in> set (drawn_indices p)" "?hi \<in> set (drawn_indices p)"
    by (simp_all add: Min_in Max_in)
  note x = xFor_linear [of _ p]
  have order: "real (unat ?lo) \<le> real (unat i)" "real (unat i) \<le> real (unat ?hi)"
    using x(2,3) [OF assms(1)] by (simp_all add: word_le_nat_alt del: of_nat_unat)
  define q where "q = (real (unat i) - real (unat ?lo)) / (real (unat ?hi) - real (unat ?lo))"
  have "q \<le> 1" "0 \<le> q"
    unfolding q_def using order by (auto simp: divide_le_eq_1 less_le simp del: of_nat_unat)
  then have "0 \<le> xFor (strip_scale p) i" "xFor (strip_scale p) i \<le> 1000"
    unfolding x(1) [OF assms(1)] q_def [symmetric] by (simp_all add: kW_def)
  moreover have "xFor (strip_scale p) i \<le> xFor (strip_scale p) j" if "i \<le> j"
    using that order by (simp add: x(1) [OF assms(1)] x(1) [OF assms(2)] kW_def word_le_nat_alt word_less_nat_alt divide_right_mono del: of_nat_unat)
  moreover have "xFor (strip_scale p) ?lo = 0"
    by (simp add: x(1) [OF ends(1)])
  moreover have "xFor (strip_scale p) ?hi = 1000" if "i < j"
  proof -
    have "?lo < ?hi"
      using that x(2) [OF assms(1)] x(3) [OF assms(2)] by (meson le_less_trans less_le_trans)
    then show ?thesis
      by (simp add: x(1) [OF ends(2)] kW_def word_less_nat_alt del: of_nat_unat)
  qed
  moreover note yFor_frame [of u] yFor_frame(2) [of u v]
  ultimately show ?thesis
    by blast
qed

theorem strip_in_frame_witness:
  "let p = ReportPayload_default\<lparr>rp_history := [\<lparr>hs_metricId = ''ch0'', hs_points = [(3, NegInf), (4, Fin 90)]\<rparr>],
        rp_markers := [SplMarker_default\<lparr>mk_blockIndex := 5, mk_kind := MarkerOverload\<rparr>]\<rparr>
   in 0 \<le> xFor (strip_scale p) 3 \<and> xFor (strip_scale p) 3 \<le> xFor (strip_scale p) 5 \<and> xFor (strip_scale p) 5 = 1000 \<and>
      (\<exists>y. yFor NegInf = Fin y \<and> y \<le> 120) \<and> dle (yFor (Fin 90)) (yFor NegInf)"
proof -
  let ?p = "ReportPayload_default\<lparr>rp_history := [\<lparr>hs_metricId = ''ch0'', hs_points = [(3, NegInf), (4, Fin 90)]\<rparr>],
        rp_markers := [SplMarker_default\<lparr>mk_blockIndex := 5, mk_kind := MarkerOverload\<rparr>]\<rparr>"
  have drawn: "set (drawn_indices ?p) = {3, 4, 5}"
    by (simp add: drawn_indices_def ReportPayload_default_def ReportValidity_default_def SplMarker_default_def)
  have last: "Max {3, 4, 5 :: uint64_t} = 5"
    by simp
  from strip_in_frame [of 3 ?p 5 NegInf "Fin 90", unfolded drawn last]
  show ?thesis
    by (auto simp: Let_def dle_def deq_def)
qed

end
