(* ===== verification/Trace_Library.thy ===== *)
theory Trace_Library
  imports Trace_Blob
begin

text \<open>
  The user's library of stored traces (\<^verbatim>\<open>app/src/trace/TraceLibrary.h\<close>, \<^verbatim>\<open>TraceLibrary.cpp\<close>) and the
  store of impulse responses beside it (\<^verbatim>\<open>app/src/trace/IrStore.h\<close>).  The two parallel vectors, the
  revision counter at its width and the generation are the state; every public operation is a function
  on it, and \<open>apply_op\<close> runs any of them.
\<close>

section \<open>State\<close>

record TraceLibrary =
  lib_entries :: "LibraryEntry list"
  lib_traces :: "Trace list"
  lib_revision :: uint64_t
  lib_generation :: uint64_t

text \<open>The process-wide counter is the argument and the second result.\<close>

definition nextGeneration :: "uint64_t \<Rightarrow> uint64_t \<times> uint64_t" where
  "nextGeneration counter = (counter, counter + 1)"

definition TraceLibrary_new :: "uint64_t \<Rightarrow> TraceLibrary \<times> uint64_t" where
  "TraceLibrary_new counter =
     (let (g, counter') = nextGeneration counter
      in (\<lparr>lib_entries = [], lib_traces = [], lib_revision = 0, lib_generation = g\<rparr>, counter'))"

section \<open>Lookup\<close>

fun index_from :: "LibraryEntry list \<Rightarrow> string \<Rightarrow> nat" where
  "index_from [] ident = 0"
| "index_from (e # es) ident = (if e_traceId e = ident then 0 else Suc (index_from es ident))"

definition indexOf :: "TraceLibrary \<Rightarrow> string \<Rightarrow> nat" where
  "indexOf lib ident = index_from (lib_entries lib) ident"

text \<open>A pointer into the vector is the index it points at.\<close>

definition findEntry :: "TraceLibrary \<Rightarrow> string \<Rightarrow> nat option" where
  "findEntry lib ident =
     (let i = indexOf lib ident in if i < length (lib_entries lib) then Some i else None)"

definition lib_entry :: "TraceLibrary \<Rightarrow> string \<Rightarrow> LibraryEntry option" where
  "lib_entry lib ident =
     (let i = indexOf lib ident in if i < length (lib_entries lib) then Some (lib_entries lib ! i) else None)"

definition lib_trace :: "TraceLibrary \<Rightarrow> string \<Rightarrow> Trace option" where
  "lib_trace lib ident =
     (let i = indexOf lib ident in if i < length (lib_entries lib) then Some (lib_traces lib ! i) else None)"

section \<open>Shade indices\<close>

definition mark_used :: "string \<Rightarrow> bool list \<Rightarrow> LibraryEntry \<Rightarrow> bool list" where
  "mark_used grp used e =
     (if e_group e \<noteq> grp \<or> e_shadeIndex e < 0 then used
      else let idx = nat (e_shadeIndex e);
               used = (if idx \<ge> length used then used @ replicate (idx + 1 - length used) False else used)
           in used[idx := True])"

fun first_clear :: "nat \<Rightarrow> bool list \<Rightarrow> nat" where
  "first_clear i [] = i"
| "first_clear i (u # us) = (if \<not> u then i else first_clear (Suc i) us)"

text \<open>\<^verbatim>\<open>static_cast<int>\<close> of a size.\<close>

definition int_of_size :: "nat \<Rightarrow> int" where
  "int_of_size n = sint (word_of_nat n :: 32 word)"

definition nextFreeShadeIndex :: "TraceLibrary \<Rightarrow> string \<Rightarrow> int" where
  "nextFreeShadeIndex lib grp =
     int_of_size (first_clear 0 (foldl (mark_used grp) [] (lib_entries lib)))"

section \<open>Operations\<close>

definition lib_add :: "TraceLibrary \<Rightarrow> Trace \<Rightarrow> string \<Rightarrow> string \<Rightarrow> string \<times> TraceLibrary" where
  "lib_add lib newTrace name grp =
     (let ident = m_id (tr_meta newTrace) in
      if findEntry lib ident \<noteq> None then ([], lib)
      else let shade = nextFreeShadeIndex lib grp in
           (ident, lib\<lparr>
              lib_entries := lib_entries lib @ [\<lparr>e_traceId = ident, e_name = name, e_group = grp,
                                            e_shadeIndex = shade, e_visible = True\<rparr>],
              lib_traces := lib_traces lib @ [newTrace],
              lib_revision := lib_revision lib + 1\<rparr>))"

definition lib_rename :: "TraceLibrary \<Rightarrow> string \<Rightarrow> string \<Rightarrow> bool \<times> TraceLibrary" where
  "lib_rename lib ident name =
     (case findEntry lib ident of
        None \<Rightarrow> (False, lib)
      | Some i \<Rightarrow>
          let e = lib_entries lib ! i in
          if e_name e = name then (True, lib)
          else (True, lib\<lparr>lib_entries := (lib_entries lib)[i := e\<lparr>e_name := name\<rparr>], lib_revision := lib_revision lib + 1\<rparr>))"

definition lib_setVisible :: "TraceLibrary \<Rightarrow> string \<Rightarrow> bool \<Rightarrow> bool \<times> TraceLibrary" where
  "lib_setVisible lib ident visible =
     (case findEntry lib ident of
        None \<Rightarrow> (False, lib)
      | Some i \<Rightarrow>
          let e = lib_entries lib ! i in
          if e_visible e = visible then (True, lib)
          else (True, lib\<lparr>lib_entries := (lib_entries lib)[i := e\<lparr>e_visible := visible\<rparr>], lib_revision := lib_revision lib + 1\<rparr>))"

definition lib_setGroup :: "TraceLibrary \<Rightarrow> string \<Rightarrow> string \<Rightarrow> bool \<times> TraceLibrary" where
  "lib_setGroup lib ident grp =
     (case findEntry lib ident of
        None \<Rightarrow> (False, lib)
      | Some i \<Rightarrow>
          let e = lib_entries lib ! i in
          if e_group e = grp then (True, lib)
          else (True, lib\<lparr>lib_entries := (lib_entries lib)[i := e\<lparr>e_group := grp\<rparr>], lib_revision := lib_revision lib + 1\<rparr>))"

definition lib_setShadeIndex :: "TraceLibrary \<Rightarrow> string \<Rightarrow> int \<Rightarrow> bool \<times> TraceLibrary" where
  "lib_setShadeIndex lib ident shadeIndex =
     (case findEntry lib ident of
        None \<Rightarrow> (False, lib)
      | Some i \<Rightarrow>
          let e = lib_entries lib ! i in
          if e_shadeIndex e = shadeIndex then (True, lib)
          else (True, lib\<lparr>lib_entries := (lib_entries lib)[i := e\<lparr>e_shadeIndex := shadeIndex\<rparr>],
                          lib_revision := lib_revision lib + 1\<rparr>))"

fun solo_sweep :: "string \<Rightarrow> LibraryEntry list \<Rightarrow> bool \<Rightarrow> LibraryEntry list \<times> bool" where
  "solo_sweep ident [] changed = ([], changed)"
| "solo_sweep ident (e # es) changed =
     (let shouldBeVisible = (e_traceId e = ident);
          (e', changed) = (if e_visible e \<noteq> shouldBeVisible then (e\<lparr>e_visible := shouldBeVisible\<rparr>, True)
                           else (e, changed));
          (es', changed) = solo_sweep ident es changed
      in (e' # es', changed))"

definition lib_soloOnly :: "TraceLibrary \<Rightarrow> string \<Rightarrow> TraceLibrary" where
  "lib_soloOnly lib ident =
     (if findEntry lib ident = None then lib
      else let (es, changed) = solo_sweep ident (lib_entries lib) False;
               lib = lib\<lparr>lib_entries := es\<rparr>
           in if changed then lib\<lparr>lib_revision := lib_revision lib + 1\<rparr> else lib)"

definition lib_clear :: "TraceLibrary \<Rightarrow> TraceLibrary" where
  "lib_clear lib =
     (if lib_entries lib = [] then lib
      else lib\<lparr>lib_entries := [], lib_traces := [], lib_revision := lib_revision lib + 1\<rparr>)"

text \<open>A call to the library, and the state it leaves.\<close>

datatype LibOp =
    OpAdd Trace string string
  | OpRename string string
  | OpSetVisible string bool
  | OpSetGroup string string
  | OpSetShadeIndex string int
  | OpSoloOnly string
  | OpClear

fun apply_op :: "LibOp \<Rightarrow> TraceLibrary \<Rightarrow> TraceLibrary" where
  "apply_op (OpAdd t n g) lib = snd (lib_add lib t n g)"
| "apply_op (OpRename i n) lib = snd (lib_rename lib i n)"
| "apply_op (OpSetVisible i v) lib = snd (lib_setVisible lib i v)"
| "apply_op (OpSetGroup i g) lib = snd (lib_setGroup lib i g)"
| "apply_op (OpSetShadeIndex i s) lib = snd (lib_setShadeIndex lib i s)"
| "apply_op (OpSoloOnly i) lib = lib_soloOnly lib i"
| "apply_op OpClear lib = lib_clear lib"

section \<open>Invariant\<close>

definition lib_inv :: "TraceLibrary \<Rightarrow> bool" where
  "lib_inv lib \<longleftrightarrow>
     map e_traceId (lib_entries lib) = map (\<lambda>t. m_id (tr_meta t)) (lib_traces lib) \<and>
     distinct (map (\<lambda>t. m_id (tr_meta t)) (lib_traces lib))"

lemma index_from_le: "index_from es ident \<le> length es"
  by (induction es) auto

lemma index_from_less: "index_from es ident < length es \<longleftrightarrow> ident \<in> set (map e_traceId es)"
  by (induction es) auto

lemma index_from_nth: "index_from es ident < length es \<Longrightarrow> e_traceId (es ! index_from es ident) = ident"
  by (induction es) auto

lemma index_from_unique:
  "distinct (map e_traceId es) \<Longrightarrow> i < length es \<Longrightarrow> index_from es (e_traceId (es ! i)) = i"
proof (induction es arbitrary: i)
  case (Cons e es)
  then show ?case
    by (cases i) auto
qed simp

lemma findEntry_None: "findEntry lib ident = None \<longleftrightarrow> ident \<notin> set (map e_traceId (lib_entries lib))"
  using index_from_less [of "lib_entries lib" ident] by (simp add: findEntry_def indexOf_def Let_def)

lemma findEntry_Some:
  "findEntry lib ident = Some i \<Longrightarrow> i < length (lib_entries lib) \<and> e_traceId (lib_entries lib ! i) = ident"
  using index_from_nth [of "lib_entries lib" ident]
  by (auto simp: findEntry_def indexOf_def Let_def split: if_splits)

lemma lib_inv_lengths: "lib_inv lib \<Longrightarrow> length (lib_traces lib) = length (lib_entries lib)"
  unfolding lib_inv_def by (metis length_map)

lemma lib_inv_ids:
  "lib_inv lib \<Longrightarrow> (\<lambda>t. m_id (tr_meta t)) ` set (lib_traces lib) = e_traceId ` set (lib_entries lib)"
  unfolding lib_inv_def by (metis list.set_map)

lemma map_update_same: "i < length xs \<Longrightarrow> f y = f (xs ! i) \<Longrightarrow> map f (xs[i := y]) = map f xs"
  by (metis list_update_id map_update)

text \<open>
  The contract the four setters share: unknown id, nothing changes; known id, the field reads as asked,
  no other field, entry or trace changes, and the revision moves exactly when the field did.
\<close>

locale library_setter =
  fixes op :: "TraceLibrary \<Rightarrow> string \<Rightarrow> 'v \<Rightarrow> bool \<times> TraceLibrary"
    and get :: "LibraryEntry \<Rightarrow> 'v"
    and upd :: "'v \<Rightarrow> LibraryEntry \<Rightarrow> LibraryEntry"
  assumes op_unknown: "findEntry lib ident = None \<Longrightarrow> op lib ident v = (False, lib)"
    and op_same: "findEntry lib ident = Some i \<Longrightarrow> get (lib_entries lib ! i) = v \<Longrightarrow> op lib ident v = (True, lib)"
    and op_change: "findEntry lib ident = Some i \<Longrightarrow> get (lib_entries lib ! i) \<noteq> v \<Longrightarrow>
      op lib ident v = (True, lib\<lparr>lib_entries := (lib_entries lib)[i := upd v (lib_entries lib ! i)],
                                  lib_revision := lib_revision lib + 1\<rparr>)"
    and get_upd: "get (upd v e) = v"
    and id_upd: "e_traceId (upd v e) = e_traceId e"
begin

lemma op_cases:
  "snd (op lib ident v) = lib \<or>
   (\<exists>i. i < length (lib_entries lib) \<and> get (lib_entries lib ! i) \<noteq> v \<and>
        snd (op lib ident v) = lib\<lparr>lib_entries := (lib_entries lib)[i := upd v (lib_entries lib ! i)],
                                   lib_revision := lib_revision lib + 1\<rparr>)"
proof (cases "findEntry lib ident")
  case None
  then show ?thesis
    by (simp add: op_unknown)
next
  case (Some i)
  then show ?thesis
    using op_same [OF Some] op_change [OF Some] findEntry_Some [OF Some] by (metis snd_conv)
qed

lemma op_ids: "map e_traceId (lib_entries (snd (op lib ident v))) = map e_traceId (lib_entries lib)"
  using op_cases [of lib ident v] by (auto simp: map_update_same id_upd)

lemma op_traces: "lib_traces (snd (op lib ident v)) = lib_traces lib"
  using op_cases [of lib ident v] by auto

lemma op_inv: "lib_inv lib \<Longrightarrow> lib_inv (snd (op lib ident v))"
  unfolding lib_inv_def op_ids op_traces .

lemma op_revision:
  "if lib_entries (snd (op lib ident v)) = lib_entries lib then snd (op lib ident v) = lib
   else lib_revision (snd (op lib ident v)) = lib_revision lib + 1"
proof -
  have "upd v e \<noteq> e \<and> e \<noteq> upd v e" if "get e \<noteq> v" for e
    using that get_upd by metis
  then show ?thesis
    using op_cases [of lib ident v] by (auto simp: list_update_same_conv)
qed

end

interpretation rename: library_setter lib_rename e_name "\<lambda>v. e_name_update (\<lambda>_. v)"
  by unfold_locales (simp_all add: lib_rename_def Let_def)

interpretation set_visible: library_setter lib_setVisible e_visible "\<lambda>v. e_visible_update (\<lambda>_. v)"
  by unfold_locales (simp_all add: lib_setVisible_def Let_def)

interpretation set_group: library_setter lib_setGroup e_group "\<lambda>v. e_group_update (\<lambda>_. v)"
  by unfold_locales (simp_all add: lib_setGroup_def Let_def)

interpretation set_shade: library_setter lib_setShadeIndex e_shadeIndex "\<lambda>v. e_shadeIndex_update (\<lambda>_. v)"
  by unfold_locales (simp_all add: lib_setShadeIndex_def Let_def)

lemma solo_sweep_eq:
  "solo_sweep ident es changed =
     (map (\<lambda>e. e\<lparr>e_visible := (e_traceId e = ident)\<rparr>) es,
      changed \<or> map (\<lambda>e. e\<lparr>e_visible := (e_traceId e = ident)\<rparr>) es \<noteq> es)"
proof (induction es arbitrary: changed)
  case (Cons e es)
  then show ?case
    by (cases e) (auto simp: Let_def)
qed simp

lemma soloOnly_eq:
  "lib_soloOnly lib ident =
     (let es = map (\<lambda>e. e\<lparr>e_visible := (e_traceId e = ident)\<rparr>) (lib_entries lib) in
      if findEntry lib ident = None \<or> es = lib_entries lib then lib
      else lib\<lparr>lib_entries := es, lib_revision := lib_revision lib + 1\<rparr>)"
  by (simp add: lib_soloOnly_def solo_sweep_eq Let_def)

lemma add_eq:
  "snd (lib_add lib t n g) =
     (if m_id (tr_meta t) \<in> set (map e_traceId (lib_entries lib)) then lib
      else lib\<lparr>lib_entries := lib_entries lib @ [\<lparr>e_traceId = m_id (tr_meta t), e_name = n, e_group = g,
                  e_shadeIndex = nextFreeShadeIndex lib g, e_visible = True\<rparr>],
               lib_traces := lib_traces lib @ [t], lib_revision := lib_revision lib + 1\<rparr>)"
  using findEntry_None [of lib "m_id (tr_meta t)"] by (auto simp: lib_add_def Let_def)

lemma apply_op_inv: "lib_inv lib \<Longrightarrow> lib_inv (apply_op op lib)"
proof (cases op)
  case (OpAdd t n g)
  assume inv: "lib_inv lib"
  then show ?thesis
    using lib_inv_ids [OF inv] by (auto simp: OpAdd add_eq lib_inv_def)
qed (simp_all add: rename.op_inv set_visible.op_inv set_group.op_inv set_shade.op_inv soloOnly_eq Let_def
      lib_clear_def, simp_all add: lib_inv_def comp_def)

lemma apply_op_revision:
  "if lib_entries (apply_op op lib) = lib_entries lib then apply_op op lib = lib
   else lib_revision (apply_op op lib) = lib_revision lib + 1"
  using rename.op_revision set_visible.op_revision set_group.op_revision set_shade.op_revision
  by (cases op) (simp_all add: add_eq soloOnly_eq Let_def lib_clear_def)

section \<open>Lookups under the invariant\<close>

lemma lib_entry_iff:
  assumes "lib_inv lib"
  shows "lib_entry lib ident = Some e \<longleftrightarrow> e \<in> set (lib_entries lib) \<and> e_traceId e = ident"
proof -
  have "distinct (map e_traceId (lib_entries lib))"
    using assms by (simp add: lib_inv_def)
  then show ?thesis
    using index_from_nth [of "lib_entries lib" ident] index_from_unique [of "lib_entries lib"]
    by (auto simp: lib_entry_def indexOf_def Let_def in_set_conv_nth)
qed

lemma lib_trace_iff:
  assumes "lib_inv lib"
  shows "lib_trace lib ident = Some t \<longleftrightarrow> t \<in> set (lib_traces lib) \<and> m_id (tr_meta t) = ident"
proof -
  have ids: "e_traceId (lib_entries lib ! i) = m_id (tr_meta (lib_traces lib ! i))"
    if "i < length (lib_entries lib)" for i
    using assms that lib_inv_lengths [OF assms] unfolding lib_inv_def by (metis nth_map)
  have "distinct (map e_traceId (lib_entries lib))"
    using assms by (simp add: lib_inv_def)
  then show ?thesis
    using index_from_nth [of "lib_entries lib" ident] index_from_unique [of "lib_entries lib"]
      lib_inv_lengths [OF assms] ids
    by (auto simp: lib_trace_def indexOf_def Let_def in_set_conv_nth)
qed

lemma fold_apply_op_inv: "lib_inv lib \<Longrightarrow> lib_inv (fold apply_op ops lib)"
  by (induction ops arbitrary: lib) (simp_all add: apply_op_inv)

lemma new_inv: "lib_inv (fst (TraceLibrary_new c))"
  by (simp add: lib_inv_def TraceLibrary_new_def nextGeneration_def)

section \<open>Shade indices\<close>

lemma mark_used_nth:
  "(k < length (mark_used g used e) \<and> mark_used g used e ! k) \<longleftrightarrow>
     (k < length used \<and> used ! k) \<or> (e_group e = g \<and> e_shadeIndex e = int k)"
  by (auto simp: mark_used_def Let_def nth_append nth_list_update)

lemma used_nth:
  "(k < length (foldl (mark_used g) [] es) \<and> foldl (mark_used g) [] es ! k) \<longleftrightarrow>
     (\<exists>e \<in> set es. e_group e = g \<and> e_shadeIndex e = int k)"
  by (induction es rule: rev_induct) (auto simp: mark_used_nth)

lemma first_clear_spec:
  "\<exists>n. first_clear i us = i + n \<and> n \<le> length us \<and> (\<forall>j < n. us ! j) \<and> (n < length us \<longrightarrow> \<not> us ! n)"
proof (induction us arbitrary: i)
  case (Cons u us)
  show ?case
  proof (cases u)
    case True
    obtain n where "first_clear (Suc i) us = Suc i + n" "n \<le> length us" "\<forall>j < n. us ! j"
      "n < length us \<longrightarrow> \<not> us ! n"
      using Cons.IH [of "Suc i"] by blast
    then show ?thesis
      using True by (intro exI [of _ "Suc n"]) (auto simp: nth_Cons split: nat.split)
  qed simp
qed simp

definition shades_in :: "TraceLibrary \<Rightarrow> string \<Rightarrow> int set" where
  "shades_in lib g = e_shadeIndex ` {e \<in> set (lib_entries lib). e_group e = g}"

lemma nextFree_raw:
  obtains n where "first_clear 0 (foldl (mark_used g) [] (lib_entries lib)) = n"
    "n \<le> length (lib_entries lib)" "int n \<notin> shades_in lib g" "\<And>k. k < n \<Longrightarrow> int k \<in> shades_in lib g"
proof -
  let ?used = "foldl (mark_used g) [] (lib_entries lib)"
  obtain n where n: "first_clear 0 ?used = n" "n \<le> length ?used" "\<forall>j < n. ?used ! j"
    "n < length ?used \<longrightarrow> \<not> ?used ! n"
    using first_clear_spec [of 0 ?used] by auto
  have used: "int k \<in> shades_in lib g \<longleftrightarrow> k < length ?used \<and> ?used ! k" for k
    unfolding used_nth by (force simp: shades_in_def)
  have below: "int k \<in> shades_in lib g" if "k < n" for k
    using that n used by auto
  have "n = card (int ` {..<n})"
    by (simp add: card_image)
  also have "\<dots> \<le> card (shades_in lib g)"
    using below by (intro card_mono) (auto simp: shades_in_def)
  also have "\<dots> \<le> card {e \<in> set (lib_entries lib). e_group e = g}"
    unfolding shades_in_def by (rule card_image_le) simp
  also have "\<dots> \<le> card (set (lib_entries lib))"
    by (rule card_mono) auto
  also have "\<dots> \<le> length (lib_entries lib)"
    by (rule card_length)
  finally show thesis
    using that [of n] n used below by auto
qed

lemma int_of_size_small: "n < 2 ^ 31 \<Longrightarrow> int_of_size n = int n"
  unfolding int_of_size_def
  by (subst signed_of_nat) (simp add: signed_take_bit_int_eq_self)

section \<open>Properties\<close>

text \<open>
  Whatever sequence of calls a library has been through, its two vectors describe each
  other: looking an id up gives the one stored trace that carries it, and its entry is the one entry
  with that id; an id has an entry exactly when it has a trace.
\<close>

theorem library_lookup_exact:
  fixes ops c
  defines "lib \<equiv> fold apply_op ops (fst (TraceLibrary_new c))"
  shows "(lib_trace lib ident = Some t \<longleftrightarrow> t \<in> set (lib_traces lib) \<and> m_id (tr_meta t) = ident) \<and>
         (lib_entry lib ident = Some e \<longleftrightarrow> e \<in> set (lib_entries lib) \<and> e_traceId e = ident) \<and>
         (lib_trace lib ident = None \<longleftrightarrow> lib_entry lib ident = None)"
proof -
  have "lib_inv lib"
    unfolding lib_def by (rule fold_apply_op_inv [OF new_inv])
  then show ?thesis
    by (simp add: lib_trace_iff lib_entry_iff) (simp add: lib_trace_def lib_entry_def Let_def)
qed

text \<open>
  Property C21: The revision answers "has anything changed?".  After any sequence of fewer than
  \<open>2 ^ 64\<close> calls, a revision that reads as before means that the library is as before: every entry,
  every trace.  So a caller may key a cache on it.
\<close>

theorem revision_detects_change:
  assumes "length ops < 2 ^ 64" and "lib_revision (fold apply_op ops lib) = lib_revision lib"
  shows "fold apply_op ops lib = lib"
proof -
  have "\<exists>k \<le> length ops. lib_revision (fold apply_op ops lib) = lib_revision lib + word_of_nat k \<and>
      (k = 0 \<longrightarrow> fold apply_op ops lib = lib)" for lib
  proof (induction ops arbitrary: lib)
    case (Cons op ops)
    obtain k where k: "k \<le> length ops"
      "lib_revision (fold apply_op ops (apply_op op lib)) = lib_revision (apply_op op lib) + word_of_nat k"
      "k = 0 \<longrightarrow> fold apply_op ops (apply_op op lib) = apply_op op lib"
      using Cons.IH by blast
    show ?case
    proof (cases "apply_op op lib = lib")
      case True
      with k show ?thesis
        by (intro exI [of _ k]) auto
    next
      case False
      then have "lib_revision (apply_op op lib) = lib_revision lib + 1"
        using apply_op_revision [of op lib] by (auto split: if_splits)
      with k show ?thesis
        by (intro exI [of _ "Suc k"]) simp
    qed
  qed simp
  then obtain k where k: "k \<le> length ops" "(word_of_nat k :: uint64_t) = 0"
    "k = 0 \<longrightarrow> fold apply_op ops lib = lib"
    using assms(2) by (metis add_cancel_left_right)
  from k(2) have "(2 ^ 64 :: nat) dvd k"
    by (simp add: word_of_nat_eq_0_iff)
  with k assms(1) show ?thesis
    by (auto dest: dvd_imp_le)
qed

definition sample_library :: TraceLibrary where
  "sample_library = snd (lib_add (fst (TraceLibrary_new 5)) sample_trace ''near'' ''left'')"

theorem revision_detects_change_witness:
  "fold apply_op [OpSetVisible ''capture-1'' True, OpRename ''gone'' ''x'', OpSoloOnly ''capture-1''] sample_library
     = sample_library"
  by (rule revision_detects_change)
     (simp_all add: sample_library_def add_eq TraceLibrary_new_def nextGeneration_def sample_trace_def
        CaptureMeta_default_def lib_setVisible_def lib_rename_def soloOnly_eq findEntry_def indexOf_def)

text \<open>
  A newly added trace gets the lowest shade its group does not use yet.  For a library of
  fewer than \<open>2 ^ 31\<close> entries the index is between zero and the number of entries (so the narrowing to
  \<^verbatim>\<open>int\<close> loses nothing), no trace of the group has it, and every smaller one is taken.
\<close>

theorem nextFreeShadeIndex_least:
  assumes "length (lib_entries lib) < 2 ^ 31"
  shows "0 \<le> nextFreeShadeIndex lib g \<and> nextFreeShadeIndex lib g \<le> int (length (lib_entries lib)) \<and>
         nextFreeShadeIndex lib g \<notin> shades_in lib g \<and>
         {0..<nextFreeShadeIndex lib g} \<subseteq> shades_in lib g"
proof -
  obtain n where n: "first_clear 0 (foldl (mark_used g) [] (lib_entries lib)) = n"
    "n \<le> length (lib_entries lib)" "int n \<notin> shades_in lib g" "\<And>k. k < n \<Longrightarrow> int k \<in> shades_in lib g"
    using nextFree_raw [of g lib] by metis
  then have eq: "nextFreeShadeIndex lib g = int n"
    using assms by (simp add: nextFreeShadeIndex_def int_of_size_small)
  have "{0..<int n} \<subseteq> shades_in lib g"
    using n(4) by (metis atLeastLessThan_iff nonneg_int_cases of_nat_less_iff subsetI)
  then show ?thesis
    using n eq by simp
qed

theorem nextFreeShadeIndex_least_witness:
  "nextFreeShadeIndex sample_library ''left'' = 1 \<and> 1 \<notin> shades_in sample_library ''left'' \<and>
   {0..<1} \<subseteq> shades_in sample_library ''left''"
proof -
  have "nextFreeShadeIndex sample_library ''left'' = 1"
    by (simp add: sample_library_def add_eq TraceLibrary_new_def nextGeneration_def nextFreeShadeIndex_def
          int_of_size_small mark_used_def)
  moreover have "length (lib_entries sample_library) < 2 ^ 31"
    by (simp add: sample_library_def add_eq TraceLibrary_new_def nextGeneration_def)
  ultimately show ?thesis
    using nextFreeShadeIndex_least [of sample_library "''left''"] by simp
qed

section \<open>Impulse responses\<close>

text \<open>
  \<^verbatim>\<open>IrStore\<close>: ids with their impulse responses, oldest first; \<open>'ir\<close> stands for the shared pointer, a null
  result of \<^verbatim>\<open>find\<close> is \<open>None\<close>.
\<close>

definition kCapacity :: nat where
  "kCapacity = 8"

fun replace_ir :: "string \<Rightarrow> 'ir \<Rightarrow> (string \<times> 'ir) list \<Rightarrow> (string \<times> 'ir) list option" where
  "replace_ir traceId ir [] = None"
| "replace_ir traceId ir (entry # rest) =
     (if fst entry = traceId then Some ((fst entry, ir) # rest)
      else map_option (\<lambda>rest'. entry # rest') (replace_ir traceId ir rest))"

definition IrStore_add :: "string \<Rightarrow> 'ir \<Rightarrow> (string \<times> 'ir) list \<Rightarrow> (string \<times> 'ir) list" where
  "IrStore_add traceId ir store =
     (case replace_ir traceId ir store of
        Some store' \<Rightarrow> store'
      | None \<Rightarrow>
          let store = store @ [(traceId, ir)]
          in if length store > kCapacity then tl store else store)"

fun IrStore_find :: "string \<Rightarrow> (string \<times> 'ir) list \<Rightarrow> 'ir option" where
  "IrStore_find traceId [] = None"
| "IrStore_find traceId (entry # rest) =
     (if fst entry = traceId then Some (snd entry) else IrStore_find traceId rest)"

lemma IrStore_find_map_of: "IrStore_find ident store = map_of store ident"
  by (induction store) auto

lemma replace_ir_None: "replace_ir ident ir store = None \<longleftrightarrow> ident \<notin> fst ` set store"
  by (induction store) auto

lemma replace_ir_Some:
  "replace_ir ident ir store = Some store' \<Longrightarrow>
     map fst store' = map fst store \<and> map_of store' = (map_of store)(ident \<mapsto> ir)"
  by (induction store arbitrary: store') (auto split: if_splits)

definition ir_inv :: "(string \<times> 'ir) list \<Rightarrow> bool" where
  "ir_inv store \<longleftrightarrow> length store \<le> kCapacity \<and> distinct (map fst store)"

lemma IrStore_add_inv: "ir_inv store \<Longrightarrow> ir_inv (IrStore_add ident ir store)"
proof (cases "replace_ir ident ir store")
  case None
  assume "ir_inv store"
  moreover have "ident \<notin> fst ` set store"
    using None by (simp add: replace_ir_None)
  ultimately show ?thesis
    by (cases store) (auto simp: IrStore_add_def None ir_inv_def kCapacity_def Let_def
        replace_ir_None [THEN iffD2])
next
  case (Some store')
  assume "ir_inv store"
  with replace_ir_Some [OF Some] show ?thesis
    unfolding IrStore_add_def ir_inv_def by (metis Some length_map option.simps(5))
qed

lemma IrStore_add_find:
  assumes "ir_inv store"
  shows "map_of (IrStore_add ident ir store) =
           (if ident \<in> fst ` set store \<or> length store < kCapacity then (map_of store)(ident \<mapsto> ir)
            else ((map_of store)(fst (hd store) := None))(ident \<mapsto> ir))"
proof (cases "replace_ir ident ir store")
  case None
  then have new: "ident \<notin> fst ` set store"
    by (simp add: replace_ir_None)
  show ?thesis
  proof (cases "length store < kCapacity")
    case True
    then show ?thesis
      using None new by (auto simp: IrStore_add_def map_add_def fun_eq_iff map_of_eq_None_iff [THEN iffD2]
          split: option.split)
  next
    case False
    with assms obtain e rest where "store = e # rest" "length rest = 7" "fst e \<notin> fst ` set rest"
      by (cases store) (auto simp: ir_inv_def kCapacity_def)
    then show ?thesis
      using None new
      by (auto simp: IrStore_add_def Let_def kCapacity_def map_add_def fun_eq_iff map_of_eq_None_iff [THEN iffD2]
          split: option.split)
  qed
next
  case (Some store')
  then have "ident \<in> fst ` set store"
    by (metis option.distinct(1) replace_ir_None)
  with replace_ir_Some [OF Some] show ?thesis
    by (simp add: IrStore_add_def Some)
qed

text \<open>
  The store of impulse responses is a bounded map with first-in first-out eviction.  From
  the empty store, after any sequence of additions it holds at most eight responses under distinct ids;
  one more addition makes the new response the one found under its id, replaces in place when the id is
  known, and evicts the oldest id, and only that one, when a ninth would be stored.
\<close>

theorem IrStore_bounded_fifo:
  fixes adds :: "(string \<times> 'ir) list"
  defines "store \<equiv> fold (\<lambda>(i, r). IrStore_add i r) adds []"
  shows "length store \<le> kCapacity \<and> distinct (map fst store) \<and>
         (\<forall>other. IrStore_find other (IrStore_add ident ir store) =
            (if other = ident then Some ir
             else if IrStore_find ident store = None \<and> length store = kCapacity \<and> other = fst (hd store) then None
             else IrStore_find other store))"
proof -
  have "ir_inv s \<Longrightarrow> ir_inv (fold (\<lambda>(i, r). IrStore_add i r) adds s)" for s :: "(string \<times> 'ir) list"
    by (induction adds arbitrary: s) (auto simp: IrStore_add_inv)
  then have inv: "ir_inv store"
    unfolding store_def by (simp add: ir_inv_def)
  moreover have "length store < kCapacity \<longleftrightarrow> length store \<noteq> kCapacity"
    using inv by (auto simp: ir_inv_def)
  ultimately show ?thesis
    using IrStore_add_find [OF inv, of ident ir]
    by (auto simp: ir_inv_def IrStore_find_map_of map_of_eq_None_iff)
qed

end
