(* ===== verification/Api_Policy.thy ===== *)
theory Api_Policy
  imports Session_Text
begin

text \<open>
  The read-only HTTP interface (\<^verbatim>\<open>app/src/api/ApiPolicy.cpp\<close>, \<^verbatim>\<open>ApiSettings.h\<close>, \<^verbatim>\<open>ApiRoutes.cpp\<close> and the
  handlers of \<^verbatim>\<open>ApiServer.cpp\<close>): the five controls before routing, the sliding-window rate limiter, and one
  request from its decoded header fields to its response.  Parsing of the wire is the HTTP library's; the
  serialisers are an argument.  Times are nanoseconds of the steady clock.  A response records how many
  times the publish slot was loaded for it, the work the limiter exists to bound.
\<close>

section \<open>Settings and controls\<close>

record ApiSettings =
  api_enabled :: bool
  api_bindAddress :: string
  api_port :: int
  api_token :: string
  api_maxRequestsPerSecond :: int
  api_maxPointsPerResponse :: int
  api_maxRequestBodyBytes :: int
  api_corsOrigins :: "string list"
  api_allowLanBind :: bool

definition ApiSettings_default :: ApiSettings where
  "ApiSettings_default = \<lparr>api_enabled = False, api_bindAddress = ''127.0.0.1'', api_port = 4736,
     api_token = [], api_maxRequestsPerSecond = 30, api_maxPointsPerResponse = 8192,
     api_maxRequestBodyBytes = 8192, api_corsOrigins = [], api_allowLanBind = False\<rparr>"

datatype Method = Get | Head | Options | Other

datatype Verdict = Serve | NotModified

definition lowerAscii :: "char \<Rightarrow> char" where
  "lowerAscii c =
     (let n = (of_char c :: nat) in if 65 \<le> n \<and> n \<le> 90 then char_of (n - 65 + 97) else c)"

fun equalsAsciiCaseInsensitive :: "string \<Rightarrow> string \<Rightarrow> bool" where
  "equalsAsciiCaseInsensitive [] [] = True"
| "equalsAsciiCaseInsensitive (a # as) (b # bs) =
     (lowerAscii a = lowerAscii b \<and> equalsAsciiCaseInsensitive as bs)"
| "equalsAsciiCaseInsensitive _ _ = False"

definition portEquals :: "string \<Rightarrow> int \<Rightarrow> bool" where
  "portEquals token expected =
     (case from_chars_i32 token of
        Some (parsed, rest) \<Rightarrow> rest = [] \<and> parsed = expected
      | None \<Rightarrow> False)"

definition isLoopbackBindAddress :: "string \<Rightarrow> bool" where
  "isLoopbackBindAddress address \<longleftrightarrow>
     address = ''127.0.0.1'' \<or> address = ''::1'' \<or> address = ''[::1]''"

text \<open>\<^verbatim>\<open>host.find("]:")\<close>: what stands before the first closing bracket with a colon, and what after.\<close>

fun find_close :: "string \<Rightarrow> (string \<times> string) option" where
  "find_close (c # d # s) =
     (if c = CHR '']'' \<and> d = CHR '':'' then Some ([], s)
      else map_option (\<lambda>(before, after). (c # before, after)) (find_close (d # s)))"
| "find_close _ = None"

text \<open>\<^verbatim>\<open>host.rfind(':')\<close>, as the parts before and after it.\<close>

definition split_last_colon :: "string \<Rightarrow> (string \<times> string) option" where
  "split_last_colon host =
     (case dropWhile (\<lambda>c. c \<noteq> CHR '':'') (rev host) of
        [] \<Rightarrow> None
      | _ # before \<Rightarrow> Some (rev before, rev (takeWhile (\<lambda>c. c \<noteq> CHR '':'') (rev host))))"

definition kAllowed :: "string list" where
  "kAllowed = [''127.0.0.1'', ''localhost'', ''[::1]'']"

definition split_host :: "string \<Rightarrow> (string \<times> string) option" where
  "split_host host =
     (if host \<noteq> [] \<and> hd host = CHR ''['' then
        map_option (\<lambda>(before, after). (before @ '']'', after)) (find_close host)
      else split_last_colon host)"

definition hostIsAllowed :: "string \<Rightarrow> int \<Rightarrow> bool" where
  "hostIsAllowed host port =
     (case split_host host of
        None \<Rightarrow> False
      | Some (name, portToken) \<Rightarrow>
          if \<not> portEquals portToken port then False
          else list_ex (\<lambda>allowed. equalsAsciiCaseInsensitive name allowed) kAllowed)"

definition methodOf :: "string \<Rightarrow> Method" where
  "methodOf verb =
     (if verb = ''GET'' then Get else if verb = ''HEAD'' then Head
      else if verb = ''OPTIONS'' then Options else Other)"

definition methodIsAllowed :: "Method \<Rightarrow> bool" where
  "methodIsAllowed m \<longleftrightarrow> m = Get \<or> m = Head \<or> m = Options"

definition bearerAccepted :: "string \<Rightarrow> ApiSettings \<Rightarrow> bool" where
  "bearerAccepted header settings =
     (if api_token settings = [] then True
      else if length header \<le> length ''Bearer '' then False
      else if \<not> equalsAsciiCaseInsensitive (take (length ''Bearer '') header) ''Bearer '' then False
      else drop (length ''Bearer '') header = api_token settings)"

definition clampPoints :: "int \<Rightarrow> ApiSettings \<Rightarrow> int" where
  "clampPoints requested settings =
     (if requested \<le> 0 \<or> requested > api_maxPointsPerResponse settings
      then api_maxPointsPerResponse settings else requested)"

definition bodyIsAcceptable :: "int \<Rightarrow> ApiSettings \<Rightarrow> bool" where
  "bodyIsAcceptable bodyBytes settings \<longleftrightarrow>
     bodyBytes \<ge> 0 \<and> bodyBytes \<le> api_maxRequestBodyBytes settings"

text \<open>The refusal's wording is for the operator; which refusal it is decides.\<close>

datatype StartRefusal = LanBindRequested | NotLoopback

definition startRefusal :: "ApiSettings \<Rightarrow> StartRefusal option" where
  "startRefusal settings =
     (if api_allowLanBind settings then Some LanBindRequested
      else if \<not> isLoopbackBindAddress (api_bindAddress settings) then Some NotLoopback
      else None)"

definition etagFor :: "uint64_t \<Rightarrow> string" where
  "etagFor sequence = CHR 0x22 # decimal (unat sequence) @ [CHR 0x22]"

definition conditionalVerdict :: "string \<Rightarrow> uint64_t option \<Rightarrow> uint64_t \<Rightarrow> Verdict" where
  "conditionalVerdict ifNoneMatch since sequence =
     (if ifNoneMatch \<noteq> [] then
        if ifNoneMatch = ''*'' then NotModified
        else if ifNoneMatch = etagFor sequence then NotModified else Serve
      else case since of
             Some s \<Rightarrow> if s = sequence then NotModified else Serve
           | None \<Rightarrow> Serve)"

datatype PreRoutingRefusal =
    NoRefusal | MultipleHostHeaders | HostNotAllowed | MethodNotAllowed | Unauthorized | BodyTooLarge

record PreRoutingInputs =
  in_hostHeaderCount :: int
  in_hostHeaderValue :: string
  in_boundPort :: int
  in_method :: Method
  in_authorizationHeader :: string
  in_declaredBodyBytes :: int

definition decidePreRoutingRefusal :: "PreRoutingInputs \<Rightarrow> ApiSettings \<Rightarrow> PreRoutingRefusal" where
  "decidePreRoutingRefusal i settings =
     (if in_hostHeaderCount i > 1 then MultipleHostHeaders
      else if \<not> hostIsAllowed (in_hostHeaderValue i) (in_boundPort i) then HostNotAllowed
      else if \<not> methodIsAllowed (in_method i) then MethodNotAllowed
      else if \<not> bearerAccepted (in_authorizationHeader i) settings then Unauthorized
      else if \<not> bodyIsAcceptable (in_declaredBodyBytes i) settings then BodyTooLarge
      else NoRefusal)"

section \<open>Rate limiter\<close>

record RateLimiter =
  rl_admissions :: "int list"
  rl_maxPerSecond :: int

definition RateLimiter_new :: "int \<Rightarrow> RateLimiter" where
  "RateLimiter_new maxPerSecond = \<lparr>rl_admissions = [], rl_maxPerSecond = maxPerSecond\<rparr>"

definition kWindow :: int where
  "kWindow = 1000000000"

definition admit :: "RateLimiter \<Rightarrow> int \<Rightarrow> bool \<times> RateLimiter" where
  "admit l now =
     (if rl_maxPerSecond l \<le> 0 then (False, l)
      else let l = l\<lparr>rl_admissions := dropWhile (\<lambda>t. now - t \<ge> kWindow) (rl_admissions l)\<rparr>
           in if int (length (rl_admissions l)) \<ge> rl_maxPerSecond l then (False, l)
              else (True, l\<lparr>rl_admissions := rl_admissions l @ [now]\<rparr>))"

section \<open>One request\<close>

record HttpRequest =
  rq_verb :: string
  rq_path :: string
  rq_hostCount :: int
  rq_host :: string
  rq_authorization :: string
  rq_contentLength :: uint64_t
  rq_points :: "string option"
  rq_since :: "string option"
  rq_ifNoneMatch :: string

record HttpResponse =
  rs_status :: int
  rs_allow :: bool
  rs_authenticate :: bool
  rs_etag :: "string option"
  rs_body :: "string option"
  rs_loads :: nat

definition plain_response :: "int \<Rightarrow> HttpResponse" where
  "plain_response status = \<lparr>rs_status = status, rs_allow = False, rs_authenticate = False,
     rs_etag = None, rs_body = None, rs_loads = 0\<rparr>"

definition declaredBodyBytes :: "HttpRequest \<Rightarrow> int" where
  "declaredBodyBytes req =
     (let declared = uint (rq_contentLength req); ceiling = 2 ^ 63 - 1
      in if declared > ceiling then ceiling else declared)"

definition requestedPoints :: "HttpRequest \<Rightarrow> int" where
  "requestedPoints req =
     (case rq_points req of
        None \<Rightarrow> 0
      | Some raw \<Rightarrow>
          (case from_chars_i64 raw of
             Some (parsed, rest) \<Rightarrow> if rest \<noteq> [] then 0 else parsed
           | None \<Rightarrow> 0))"

text \<open>\<^verbatim>\<open>from_chars\<close> into an unsigned type accepts no minus sign.\<close>

definition from_chars_u64 :: "string \<Rightarrow> (uint64_t \<times> string) option" where
  "from_chars_u64 s =
     (if s \<noteq> [] \<and> hd s = CHR ''-'' then None
      else map_option (\<lambda>(i, rest). (word_of_int i, rest)) (from_chars_int 0 (2 ^ 64 - 1) s))"

definition sinceParam :: "HttpRequest \<Rightarrow> uint64_t option" where
  "sinceParam req =
     (case rq_since req of
        None \<Rightarrow> None
      | Some raw \<Rightarrow>
          (case from_chars_u64 raw of
             Some (parsed, rest) \<Rightarrow> if rest \<noteq> [] then None else Some parsed
           | None \<Rightarrow> None))"

definition apiRoutes :: "string list" where
  "apiRoutes = [''status'', ''snapshot'', ''transfer'', ''mtw'', ''bands'', ''spectrum'', ''average'', ''positions'']"

text \<open>
  \<open>latest\<close> is what the publish slot holds: nothing yet, or a snapshot with its sequence number;
  \<open>body path snapshot points\<close> is the serialiser of a route.
\<close>

definition api_serve ::
  "(string \<Rightarrow> 's \<Rightarrow> int \<Rightarrow> string) \<Rightarrow> ApiSettings \<Rightarrow> (uint64_t \<times> 's) option \<Rightarrow> HttpRequest \<Rightarrow> string \<Rightarrow> HttpResponse"
where
  "api_serve body settings latest req path =
     (let points = clampPoints (requestedPoints req) settings in
      case latest of
        None \<Rightarrow> (plain_response 503)\<lparr>rs_loads := 1\<rparr>
      | Some (sequence, snapshot) \<Rightarrow>
          let response = (plain_response 200)\<lparr>rs_loads := 1, rs_etag := Some (etagFor sequence)\<rparr>
          in if conditionalVerdict (rq_ifNoneMatch req) (sinceParam req) sequence = NotModified
             then response\<lparr>rs_status := 304\<rparr>
             else response\<lparr>rs_body := Some (body path snapshot points)\<rparr>)"

definition api_route ::
  "(string \<Rightarrow> 's \<Rightarrow> int \<Rightarrow> string) \<Rightarrow> ApiSettings \<Rightarrow> (uint64_t \<times> 's) option \<Rightarrow> HttpRequest \<Rightarrow> HttpResponse" where
  "api_route body settings latest req =
     (case filter (\<lambda>p. rq_path req = ''/api/v1/'' @ p) apiRoutes of
        [] \<Rightarrow> plain_response 404
      | path # _ \<Rightarrow>
          (case methodOf (rq_verb req) of
             Options \<Rightarrow> (plain_response 204)\<lparr>rs_allow := True\<rparr>
           | Other \<Rightarrow> plain_response 404
           | _ \<Rightarrow> api_serve body settings latest req path))"

definition pre_inputs :: "int \<Rightarrow> HttpRequest \<Rightarrow> PreRoutingInputs" where
  "pre_inputs boundPort req =
     \<lparr>in_hostHeaderCount = rq_hostCount req, in_hostHeaderValue = rq_host req, in_boundPort = boundPort,
      in_method = methodOf (rq_verb req), in_authorizationHeader = rq_authorization req,
      in_declaredBodyBytes = declaredBodyBytes req\<rparr>"

text \<open>The pre-routing handler: the response it ends the request with, or \<open>None\<close> to route it.\<close>

definition api_pre_routing ::
  "ApiSettings \<Rightarrow> int \<Rightarrow> int \<Rightarrow> HttpRequest \<Rightarrow> RateLimiter \<Rightarrow> HttpResponse option \<times> RateLimiter" where
  "api_pre_routing settings boundPort now req limiter =
     (case decidePreRoutingRefusal (pre_inputs boundPort req) settings of
        MultipleHostHeaders \<Rightarrow> (Some (plain_response 400), limiter)
      | HostNotAllowed \<Rightarrow> (Some (plain_response 403), limiter)
      | MethodNotAllowed \<Rightarrow> (Some ((plain_response 405)\<lparr>rs_allow := True\<rparr>), limiter)
      | Unauthorized \<Rightarrow> (Some ((plain_response 401)\<lparr>rs_authenticate := True\<rparr>), limiter)
      | BodyTooLarge \<Rightarrow> (Some (plain_response 413), limiter)
      | NoRefusal \<Rightarrow>
          if methodOf (rq_verb req) \<noteq> Options then
            (let (admitted, limiter) = admit limiter now
             in if \<not> admitted then (Some (plain_response 429), limiter) else (None, limiter))
          else (None, limiter))"

definition api_handle ::
  "(string \<Rightarrow> 's \<Rightarrow> int \<Rightarrow> string) \<Rightarrow> ApiSettings \<Rightarrow> int \<Rightarrow> int \<times> (uint64_t \<times> 's) option \<times> HttpRequest \<Rightarrow>
     RateLimiter \<Rightarrow> HttpResponse \<times> RateLimiter" where
  "api_handle body settings boundPort ev limiter =
     (let (now, latest, req) = ev;
          (ended, limiter) = api_pre_routing settings boundPort now req limiter
      in case ended of
           Some response \<Rightarrow> (response, limiter)
         | None \<Rightarrow> (api_route body settings latest req, limiter))"

fun api_run ::
  "(string \<Rightarrow> 's \<Rightarrow> int \<Rightarrow> string) \<Rightarrow> ApiSettings \<Rightarrow> int \<Rightarrow> (int \<times> (uint64_t \<times> 's) option \<times> HttpRequest) list \<Rightarrow>
     RateLimiter \<Rightarrow> HttpResponse list" where
  "api_run body settings boundPort [] limiter = []"
| "api_run body settings boundPort (ev # evs) limiter =
     (let (response, limiter) = api_handle body settings boundPort ev limiter
      in response # api_run body settings boundPort evs limiter)"

section \<open>The Host allowlist\<close>

lemma equals_lower: "equalsAsciiCaseInsensitive a b \<longleftrightarrow> map lowerAscii a = map lowerAscii b"
  by (induction a b rule: equalsAsciiCaseInsensitive.induct) auto

lemma lower_allowed: "map (map lowerAscii) kAllowed = kAllowed"
  by (simp add: kAllowed_def lowerAscii_def)

lemma list_ex_allowed:
  "list_ex (\<lambda>allowed. equalsAsciiCaseInsensitive name allowed) kAllowed \<longleftrightarrow> map lowerAscii name \<in> set kAllowed"
proof -
  have "map lowerAscii name \<in> set kAllowed \<longleftrightarrow> map lowerAscii name \<in> map lowerAscii ` set kAllowed"
    using lower_allowed by (metis list.set_map)
  then show ?thesis
    by (auto simp: list_ex_iff equals_lower)
qed

lemma lowerAscii_other: "lowerAscii c = d \<Longrightarrow> \<not> (97 \<le> (of_char d :: nat) \<and> (of_char d :: nat) \<le> 122) \<Longrightarrow> c = d"
  by (auto simp: lowerAscii_def Let_def split: if_splits)

lemma parsed_digits:
  "from_chars_int lo hi tok = Some (p, []) \<Longrightarrow> c \<in> set tok \<Longrightarrow> is_digit c \<or> c = CHR ''-''"
  by (cases tok) (auto simp: from_chars_int_def Let_def split: if_splits)

lemma portEquals_iff: "portEquals tok p \<longleftrightarrow> from_chars_i32 tok = Some (p, [])"
  by (auto simp: portEquals_def split: option.split)

lemma port_no_colon: "from_chars_i32 tok = Some (p, []) \<Longrightarrow> CHR '':'' \<notin> set tok"
  using parsed_digits by (fastforce simp: from_chars_i32_def is_digit_def)

lemma split_last_colon_Some:
  "split_last_colon host = Some (name, tok) \<Longrightarrow> host = name @ '':'' @ tok"
proof -
  assume split: "split_last_colon host = Some (name, tok)"
  then obtain c before where drop: "dropWhile (\<lambda>c. c \<noteq> CHR '':'') (rev host) = c # before"
    and parts: "name = rev before" "tok = rev (takeWhile (\<lambda>c. c \<noteq> CHR '':'') (rev host))"
    by (auto simp: split_last_colon_def split: list.splits)
  from drop have "c = CHR '':''"
    using hd_dropWhile [of "\<lambda>c. c \<noteq> CHR '':''" "rev host"] by auto
  moreover have "rev host = takeWhile (\<lambda>c. c \<noteq> CHR '':'') (rev host) @ c # before"
    using takeWhile_dropWhile_id [of "\<lambda>c. c \<noteq> CHR '':''" "rev host"] drop by simp
  then have "host = rev before @ c # rev (takeWhile (\<lambda>c. c \<noteq> CHR '':'') (rev host))"
    by (metis append.assoc append_Cons append_Nil rev.simps(2) rev_append rev_rev_ident)
  ultimately show ?thesis
    by (simp add: parts)
qed

lemma split_last_colon_append:
  "CHR '':'' \<notin> set tok \<Longrightarrow> split_last_colon (name @ '':'' @ tok) = Some (name, tok)"
  by (simp add: split_last_colon_def dropWhile_append takeWhile_append
        dropWhile_eq_Nil_conv [THEN iffD2] takeWhile_eq_all_conv [THEN iffD2] split: list.split)

lemma find_close_Some: "find_close host = Some (before, after) \<Longrightarrow> host = before @ '']:'' @ after"
  by (induction host arbitrary: before rule: find_close.induct) (auto split: if_splits)

lemma hostIsAllowed_split:
  "hostIsAllowed host port \<longleftrightarrow>
     (\<exists>name tok. split_host host = Some (name, tok) \<and> from_chars_i32 tok = Some (port, []) \<and>
        map lowerAscii name \<in> set kAllowed)"
  unfolding hostIsAllowed_def list_ex_allowed portEquals_iff by (auto split: option.split)

lemma split_host_Some: "split_host host = Some (name, tok) \<Longrightarrow> host = name @ '':'' @ tok"
proof (cases "host \<noteq> [] \<and> hd host = CHR ''[''")
  case True
  moreover assume "split_host host = Some (name, tok)"
  ultimately obtain before where "find_close host = Some (before, tok)" "name = before @ '']''"
    unfolding split_host_def by (cases "find_close host") auto
  then show ?thesis
    using find_close_Some by simp
next
  case False
  moreover assume "split_host host = Some (name, tok)"
  ultimately have "split_last_colon host = Some (name, tok)"
    unfolding split_host_def by (simp only: if_False)
  then show ?thesis
    by (rule split_last_colon_Some)
qed

lemma split_host_allowed:
  assumes "map lowerAscii name \<in> set kAllowed" and "CHR '':'' \<notin> set tok"
  shows "split_host (name @ '':'' @ tok) = Some (name, tok)"
proof (cases "map lowerAscii name = ''[::1]''")
  case True
  then have "name = ''[::1]''"
    by (auto simp: map_eq_Cons_conv dest!: lowerAscii_other)
  then show ?thesis
    by (simp add: split_host_def)
next
  case False
  with assms(1) obtain c s where "name = c # s" "lowerAscii c \<noteq> CHR ''[''"
    by (auto simp: kAllowed_def map_eq_Cons_conv)
  then show ?thesis
    using split_last_colon_append [OF assms(2), of name] by (auto simp: split_host_def lowerAscii_def)
qed

text \<open>
  The Host allowlist is exact.  A header value passes exactly when it is one of the three
  loopback names, in any ASCII case, a colon, and a text that as a whole reads as the bound port; no
  prefix, suffix or embedded occurrence of them is enough.
\<close>

theorem hostIsAllowed_iff:
  "hostIsAllowed host port \<longleftrightarrow>
     (\<exists>name tok. host = name @ '':'' @ tok \<and>
        map lowerAscii name \<in> {''127.0.0.1'', ''localhost'', ''[::1]''} \<and> from_chars_i32 tok = Some (port, []))"
proof -
  have "{''127.0.0.1'', ''localhost'', ''[::1]''} = set kAllowed"
    by (simp add: kAllowed_def)
  then show ?thesis
    unfolding hostIsAllowed_split
    using split_host_Some split_host_allowed port_no_colon by metis
qed

section \<open>The sliding window\<close>

definition in_window :: "int \<Rightarrow> int \<Rightarrow> bool" where
  "in_window t x \<longleftrightarrow> t \<le> x \<and> x < t + kWindow"

text \<open>
  What the limiter remembers of the admissions \<open>adm\<close> so far: those not yet a window old at its last
  pruning.  No window of one second ever held more than the maximum.
\<close>

definition limiter_inv :: "int \<Rightarrow> RateLimiter \<Rightarrow> int list \<Rightarrow> int \<Rightarrow> bool" where
  "limiter_inv m l adm now0 \<longleftrightarrow>
     rl_maxPerSecond l = m \<and> sorted adm \<and> (\<forall>x \<in> set adm. x \<le> now0) \<and>
     (\<exists>p \<le> now0. rl_admissions l = dropWhile (\<lambda>t. p - t \<ge> kWindow) adm) \<and>
     (\<forall>t. length (filter (in_window t) adm) \<le> nat m)"

lemma dropWhile_old:
  "sorted adm \<Longrightarrow> dropWhile (\<lambda>t. p - t \<ge> kWindow) adm = filter (\<lambda>t. p - t < kWindow) adm"
proof (induction adm)
  case (Cons a adm)
  then show ?case
    by (cases "p - a \<ge> kWindow") (auto intro!: filter_True [symmetric])
qed simp

lemma dropWhile_dropWhile_old:
  "p \<le> q \<Longrightarrow> dropWhile (\<lambda>t. q - t \<ge> kWindow) (dropWhile (\<lambda>t. p - t \<ge> kWindow) adm) =
     dropWhile (\<lambda>t. q - t \<ge> kWindow) adm"
  by (induction adm) auto

lemma filter_length_mono: "(\<And>x. x \<in> set xs \<Longrightarrow> P x \<Longrightarrow> Q x) \<Longrightarrow> length (filter P xs) \<le> length (filter Q xs)"
  by (induction xs) auto

lemma admit_inv:
  assumes inv: "limiter_inv m l adm now0" and le: "now0 \<le> now" and run: "admit l now = (ok, l')"
  shows "limiter_inv m l' (if ok then adm @ [now] else adm) now"
    and "ok \<longleftrightarrow> int (length (filter (\<lambda>t. now - t < kWindow) adm)) < m"
proof -
  let ?q = "filter (\<lambda>t. now - t < kWindow) adm"
  from inv obtain p where p: "p \<le> now0" "rl_admissions l = dropWhile (\<lambda>t. p - t \<ge> kWindow) adm"
    and m: "rl_maxPerSecond l = m" and srt: "sorted adm" and bd: "\<forall>x \<in> set adm. x \<le> now0"
    and cnt: "\<forall>t. length (filter (in_window t) adm) \<le> nat m"
    unfolding limiter_inv_def by blast
  have q: "dropWhile (\<lambda>t. now - t \<ge> kWindow) (rl_admissions l) = ?q"
    unfolding p(2) using p(1) le by (subst dropWhile_dropWhile_old) (simp_all add: dropWhile_old [OF srt])
  have q': "?q = dropWhile (\<lambda>t. now - t \<ge> kWindow) adm"
    by (simp add: dropWhile_old [OF srt])
  show ok: "ok \<longleftrightarrow> int (length ?q) < m"
    using run m by (auto simp: admit_def q Let_def split: if_splits)
  show "limiter_inv m l' (if ok then adm @ [now] else adm) now"
  proof (cases ok)
    case False
    then have "l' = l \<or> l' = l\<lparr>rl_admissions := ?q\<rparr>"
      using run by (auto simp: admit_def q Let_def split: if_splits)
    moreover have "p \<le> now" "\<forall>x \<in> set adm. x \<le> now"
      using p le bd by auto
    ultimately show ?thesis
      using m srt cnt p False q' by (auto simp: limiter_inv_def)
  next
    case True
    then have l': "l' = l\<lparr>rl_admissions := ?q @ [now]\<rparr>" and room: "length ?q < nat m"
      using run ok by (auto simp: admit_def q Let_def split: if_splits)
    have srt': "sorted (adm @ [now])"
      using srt bd le by (auto simp: sorted_append)
    have "?q @ [now] = dropWhile (\<lambda>t. now - t \<ge> kWindow) (adm @ [now])"
      unfolding dropWhile_old [OF srt'] by (simp add: kWindow_def)
    moreover have "length (filter (in_window t) (adm @ [now])) \<le> nat m" for t
    proof (cases "in_window t now")
      case True
      then have "length (filter (in_window t) adm) \<le> length ?q"
        by (intro filter_length_mono) (auto simp: in_window_def)
      then show ?thesis
        using room by simp
    next
      case False
      then show ?thesis
        using cnt by simp
    qed
    ultimately show ?thesis
      using m srt' bd le \<open>ok\<close> by (auto simp: limiter_inv_def l')
  qed
qed

lemma limiter_inv_later: "limiter_inv m l adm now0 \<Longrightarrow> now0 \<le> now \<Longrightarrow> limiter_inv m l adm now"
  unfolding limiter_inv_def by (meson order_trans)

section \<open>Requests\<close>

definition api_passes :: "ApiSettings \<Rightarrow> int \<Rightarrow> int \<times> 'p \<times> HttpRequest \<Rightarrow> bool" where
  "api_passes settings boundPort ev \<longleftrightarrow>
     decidePreRoutingRefusal (pre_inputs boundPort (snd (snd ev))) settings = NoRefusal"

lemma api_refused:
  "\<not> api_passes settings boundPort ev \<Longrightarrow>
     snd (api_handle body settings boundPort ev l) = l \<and> rs_loads (fst (api_handle body settings boundPort ev l)) = 0"
  by (cases ev)
     (auto simp: api_passes_def api_handle_def api_pre_routing_def plain_response_def
       split: PreRoutingRefusal.split)

lemma loads_le_1: "rs_loads (api_route body settings latest req) \<le> 1"
  by (auto simp: api_route_def api_serve_def plain_response_def Let_def
      split: list.split Method.split option.split prod.split)

text \<open>A request either leaves the limiter alone and loads nothing, or is decided by \<open>admit\<close>.\<close>

lemma api_handle_cases:
  fixes ev :: "int \<times> (uint64_t \<times> 's) option \<times> HttpRequest"
  obtains "snd (api_handle body settings boundPort ev l) = l"
      "rs_loads (fst (api_handle body settings boundPort ev l)) = 0"
  | ok l' where "admit l (fst ev) = (ok, l')" "snd (api_handle body settings boundPort ev l) = l'"
      "rs_loads (fst (api_handle body settings boundPort ev l)) \<le> (if ok then 1 else 0)"
proof (cases "api_passes settings boundPort ev")
  case False
  then show thesis
    using api_refused [OF False, of body l] that(1) by simp
next
  case True
  obtain now latest req where ev: "ev = (now, latest, req)"
    by (cases ev)
  obtain ok l' where adm: "admit l now = (ok, l')"
    by fastforce
  show thesis
  proof (cases "methodOf (rq_verb req) = Options")
    case True
    with \<open>api_passes settings boundPort ev\<close> show thesis
      by (intro that(1))
         (auto simp: ev api_passes_def api_handle_def api_pre_routing_def api_route_def plain_response_def
           split: list.split)
  next
    case False
    with \<open>api_passes settings boundPort ev\<close> show thesis
      using loads_le_1 [of body settings latest req]
      by (intro that(2) [of ok l'])
         (auto simp: ev adm api_passes_def api_handle_def api_pre_routing_def plain_response_def)
  qed
qed

definition loads_in ::
  "int \<Rightarrow> (int \<times> (uint64_t \<times> 's) option \<times> HttpRequest) list \<Rightarrow> HttpResponse list \<Rightarrow> nat" where
  "loads_in t evs rs =
     sum_list (map (\<lambda>(ev, r). if in_window t (fst ev) then rs_loads r else 0) (zip evs rs))"

lemma loads_bounded:
  "limiter_inv m l adm now0 \<Longrightarrow> sorted (now0 # map fst evs) \<Longrightarrow>
     length (filter (in_window t) adm) + loads_in t evs (api_run body settings boundPort evs l) \<le> nat m"
proof (induction evs arbitrary: l adm now0)
  case Nil
  then show ?case
    by (simp add: loads_in_def limiter_inv_def)
next
  case (Cons ev evs)
  let ?l1 = "snd (api_handle body settings boundPort ev l)"
  let ?r = "fst (api_handle body settings boundPort ev l)"
  have later: "now0 \<le> fst ev" "sorted (fst ev # map fst evs)"
    using Cons.prems by auto
  have "\<exists>adm1. limiter_inv m ?l1 adm1 (fst ev) \<and>
      length (filter (in_window t) adm) + (if in_window t (fst ev) then rs_loads ?r else 0)
        \<le> length (filter (in_window t) adm1)"
  proof (cases rule: api_handle_cases [of body settings boundPort ev l])
    case 1
    then show ?thesis
      using limiter_inv_later [OF Cons.prems(1) later(1)] by auto
  next
    case (2 ok l')
    then show ?thesis
      using admit_inv(1) [OF Cons.prems(1) later(1) 2(1)]
      by (intro exI [of _ "if ok then adm @ [fst ev] else adm"]) auto
  qed
  then obtain adm1 where "limiter_inv m ?l1 adm1 (fst ev)"
    and le: "length (filter (in_window t) adm) + (if in_window t (fst ev) then rs_loads ?r else 0)
        \<le> length (filter (in_window t) adm1)"
    by blast
  from Cons.IH [OF this(1) later(2)] le show ?case
    by (simp add: loads_in_def case_prod_beta)
qed

text \<open>
  Property C23: The rate limit is a hard bound on the work done for remote callers.  However requests
  arrive, in any second of the clock, aligned or not, the publish slot is loaded at most
  \<open>maxRequestsPerSecond\<close> times on their behalf.
\<close>

theorem api_loads_bounded:
  assumes "sorted (map fst evs)"
  shows "loads_in t evs (api_run body settings boundPort evs (RateLimiter_new (api_maxRequestsPerSecond settings)))
           \<le> nat (api_maxRequestsPerSecond settings)"
proof -
  let ?t0 = "Min (insert 0 (set (map fst evs)))"
  have "limiter_inv (api_maxRequestsPerSecond settings)
      (RateLimiter_new (api_maxRequestsPerSecond settings)) [] ?t0"
    unfolding limiter_inv_def RateLimiter_new_def by (intro conjI exI [of _ ?t0]) simp_all
  moreover have "sorted (?t0 # map fst evs)"
    using assms by auto
  ultimately show ?thesis
    using loads_bounded [of _ _ "[]" ?t0 evs t body settings boundPort] by simp
qed

definition sample_request :: HttpRequest where
  "sample_request = \<lparr>rq_verb = ''GET'', rq_path = ''/api/v1/status'', rq_hostCount = 1,
     rq_host = ''LOCALHOST:4736'', rq_authorization = [], rq_contentLength = 0, rq_points = None,
     rq_since = None, rq_ifNoneMatch = []\<rparr>"

definition sample_events :: "(int \<times> (uint64_t \<times> nat) option \<times> HttpRequest) list" where
  "sample_events = [(1, None, sample_request), (2, Some (7, 0), sample_request)]"

theorem api_loads_bounded_witness:
  "loads_in 0 sample_events
     (api_run (\<lambda>_ _ _. []) (ApiSettings_default\<lparr>api_maxRequestsPerSecond := 1\<rparr>) 4736 sample_events
        (RateLimiter_new 1)) \<le> 1"
  using api_loads_bounded [of sample_events 0 "\<lambda>_ _ _. []" "ApiSettings_default\<lparr>api_maxRequestsPerSecond := 1\<rparr>" 4736]
  by (simp add: sample_events_def)

text \<open>
  Property C24: A refused request costs no one else anything.  Dropping from any history the requests
  that fail one of the five controls (a forged Host, a missing token, an oversized body) changes no
  response to the others: such requests cannot use up the quota of a legitimate client.
\<close>

theorem api_refused_noninterference:
  "map snd (filter (\<lambda>(ev, r). api_passes settings boundPort ev)
      (zip evs (api_run body settings boundPort evs limiter))) =
   api_run body settings boundPort (filter (api_passes settings boundPort) evs) limiter"
proof (induction evs arbitrary: limiter)
  case (Cons ev evs)
  then show ?case
    using api_refused [of settings boundPort ev body limiter] by (auto simp: case_prod_beta)
qed simp

end
