(* ===== verification/Spec2Isabelle.thy ===== *)
theory Spec2Isabelle
  imports Ring_Concurrent Spectrum_Frames Capture_Gate Analysis_Drain Output_Swap Level_Histogram
    Spl_Alarm_Path Report_Render Trace_Library Session_Store Api_Policy Capture_Sequencer
begin

text \<open>
  Verification development for RTA Tool, a real-time audio analyser in C++ (\<^verbatim>\<open>core/\<close>: signal processing
  and meters; \<^verbatim>\<open>platform/\<close>: the audio callback and what it shares with other threads; \<^verbatim>\<open>app/\<close>: the
  measurement threads, sessions, exports, the HTTP interface and the JUCE user interface).

  \<^bold>\<open>The program and its parts.\<close>  A device callback pushes blocks into one lock-free ring per routed
  channel; the analysis thread drains the rings in paired hops, feeds analysers and meters, and publishes
  snapshots; a resync protocol empties all rings at one point so that channels stay aligned.  In the other
  direction an output engine renders a generator through click-free gains into the device's buffers.
  Meters accumulate blocks, windows, percentiles and doses.  What the user keeps of a measurement goes
  into a library of traces and into a session folder: a text index and one binary blob per trace.

  \<^bold>\<open>The theories.\<close>
  \<^item> \<open>Prelude\<close>, \<open>Doubles\<close>: machine types, bounds-checked block copies, \<^verbatim>\<open>std::bit_ceil\<close>, IEEE comparisons.
  \<^item> \<open>Ring_Buffer\<close>, \<open>Ring_Concurrent\<close> (\<^verbatim>\<open>core/include/rta/dsp/RingBuffer.h\<close>): the ring's operations on its
    64-bit counters, all-or-nothing writes and refinement of a bounded queue; then write, peek and discard
    at the granularity of atomic accesses and single element copies, interleaved freely: FIFO order and
    absence of data races.
  \<^item> \<open>Spectrum_Frames\<close> (\<^verbatim>\<open>core/src/dsp/SpectrumEngine.cpp\<close>): the sample path up to the frames analysed.
  \<^item> \<open>Channel_Config\<close>, \<open>Capture_Bus\<close>, \<open>Capture_Gate\<close> (\<^verbatim>\<open>platform/types/\<close>): channel roles, the bus with one
    call at a time (accounting of every block, alignment after a resync), and the gate protocol between
    callback, consumer and device thread.
  \<^item> \<open>Routing_Plan\<close>, \<open>Analysis_Drain\<close> (\<^verbatim>\<open>app/src/measure/\<close>): pairing of measurement and reference channels,
    the paired drain and the raw capture.
  \<^item> \<open>Sample_Source\<close>, \<open>Ramped_Gain\<close>, \<open>Mls\<close>, \<open>Prng\<close>, \<open>Generators\<close>, \<open>Sweep\<close> (\<^verbatim>\<open>core/src/gen\<close>,
    \<^verbatim>\<open>core/include/rta/gen\<close>): the generators, the contract a block source meets, full periods, closed forms.
  \<^item> \<open>Output_Engine\<close>, \<open>Output_Swap\<close> (\<^verbatim>\<open>platform/types/src/OutputEngine.cpp\<close>, \<^verbatim>\<open>OutputPolicy.h\<close>): rendering,
    arming, quiescence, and the protocol that lets another thread replace the source.
  \<^item> \<open>Level_Meters\<close>, \<open>Level_Histogram\<close>, \<open>Measurement_Blocks\<close> (\<^verbatim>\<open>core/src/meter\<close>): detector, Leq, dose,
    percentiles from saturating bins, one-second blocks, windows, alarms.
  \<^item> \<open>Session_Text\<close>, \<open>Session_Codec\<close>, \<open>Trace_Blob\<close>, \<open>Trace_Library\<close>, \<open>Session_Store\<close> (\<^verbatim>\<open>app/src/trace\<close>): the
    text layer, the index, the traces and their blobs, the library with its revision counter, the folder
    on disk.
  \<^item> \<open>Spl_History\<close> (\<^verbatim>\<open>app/src/measure/SplHistory.cpp\<close>, \<^verbatim>\<open>SplAlarms.cpp\<close>): the rolling history of a logged channel
    and the alarms over its sliding window.
  \<^item> \<open>Frequency_Weighting\<close> (\<^verbatim>\<open>core/src/dsp/Weighting.cpp\<close>, \<^verbatim>\<open>Biquad.h\<close>): the A and C weightings as biquad cascades, their
    response against the analytic curves, stability.
  \<^item> \<open>Spl_Meter\<close>, \<open>Spl_Session\<close> (\<^verbatim>\<open>app/src/measure/SplMeter.cpp\<close>, \<^verbatim>\<open>SplSession.cpp\<close>): one weighted meter fed in hops, the
    chains of the logged channels and the windows handed to the metrics.
  \<^item> \<open>Spl_Channel\<close> (\<^verbatim>\<open>app/src/measure/SplChannelState.cpp\<close>): what a channel remembers between publishes; grouping alarms by
    weighting cannot be seen from outside.
  \<^item> \<open>Spl_Log\<close>, \<open>Spl_Log_Writer\<close>, \<open>Spl_Log_Pipeline\<close> (\<^verbatim>\<open>app/src/export\<close>): the log's text and its reader on files cut
    anywhere, the segments a writer leaves on disk when operations fail, and the queue and thread between the
    analysis thread and the writer: every block is handed to the writer or counted as dropped, and the files hold
    the beginnings of its segments, all of them unless a failed write is reported.
  \<^item> \<open>Spl_Log_Header\<close>, \<open>Report_Hash\<close> (\<^verbatim>\<open>app/src/export/SplLogHeaderParse.h\<close>, \<^verbatim>\<open>SplReportHash.cpp\<close>): the facts read back
    from a log's header, of a file cut anywhere; the digest a report prints is SHA-256.
  \<^item> \<open>Spl_Feed\<close>, \<open>Spl_Alarm_Path\<close> (\<^verbatim>\<open>app/src/measure/AnalysisThreadSpl.cpp\<close>, \<^verbatim>\<open>AnalysisPublish.cpp\<close>): requests, one hop
    through session, channel state and log, the published view; an alarm followed from the samples to the view.
  \<^item> \<open>Calibration\<close>, \<open>Calibration_Record\<close>, \<open>Calibration_Flow\<close> (\<^verbatim>\<open>app/src/measure/CalibrationSession.cpp\<close>,
    \<^verbatim>\<open>app/src/export/SplCalibrationRecord.h\<close>, \<^verbatim>\<open>app/src/MainComponentCalibration.cpp\<close> and the logging poll): checks at the start
    and the end, drift and verdict; the record on disk and what a cut file reads as; the timer's polls that tie
    captures, log folders and record together.
  \<^item> \<open>Report_Payload\<close>, \<open>Session_Report\<close> (\<^verbatim>\<open>app/src/export/SplReportPayloadBuilder.cpp\<close>): the log segments of a folder
    found, sorted and read back, the calibration record applied, the figures of a report; then from the writers'
    operations to the report: what its levels and counts are made of.
  \<^item> \<open>Report_Render\<close> (\<^verbatim>\<open>app/src/export/SplReport.cpp\<close>, \<^verbatim>\<open>SplReportSections.cpp\<close>,
    \<^verbatim>\<open>SplReportHistorySections.cpp\<close>): the HTML document of a report; no text of a user changes its markup, and the
    history strip stays in its frame.
  \<^item> \<open>Capture_Sequencer\<close> (\<^verbatim>\<open>app/src/measure/CaptureSequencer.cpp\<close>, \<^verbatim>\<open>core/src/dsp/OverloadDetector.cpp\<close>): captures at
    a sequence of positions, one window each; a refused window stores nothing and the sequence moves on.
  \<^item> \<open>Api_Policy\<close> (\<^verbatim>\<open>app/src/api\<close>): the controls before routing, the rate limiter and one request through the
    handlers of the read-only HTTP interface.

  \<^bold>\<open>How state and effects are modelled.\<close>  A class is a \<open>record\<close> of its members, a member function a function
  on that record that returns the new state; an exception, a refused call or undefined behaviour is a
  value (\<open>None\<close>, \<open>Inl\<close>, a status).  Counters, registers and file words keep their width and wrap.  Threads
  are \<open>inductive\<close> step relations over the atomic accesses of each thread; memory is sequentially
  consistent, which is stronger than the acquire/release orders in the code give.  The file system is a
  map from paths to bytes with an outcome for every call, among them the death of the process; a write to an open
  stream may stop after any number of bytes, for the log as for the calibration record.

  \<^bold>\<open>Idealisations.\<close>  In the meters, gains and generators a finite \<^verbatim>\<open>float\<close> or \<^verbatim>\<open>double\<close> is a real number,
  arithmetic is exact and the narrowing from \<^verbatim>\<open>double\<close> to \<^verbatim>\<open>float\<close> is the identity; where the code tests for
  NaN and infinities these are values of \<open>double\<close> (\<open>Doubles\<close>).  In the codecs a floating-point value is its
  bit pattern.  The standard library's printing and reading of floating-point numbers is an argument
  (\<open>float_charconv\<close>); its documented exactness, \<open>charconv_exact\<close>, is a hypothesis of the session theorems.
  A report is about files with finite numbers in them; the logarithm of a silent block's energy is \<open>-\<infinity>\<close> there, as in
  the code.  The run of loud samples a meter counts is an unbounded \<^verbatim>\<open>int\<close>, and the space \<^verbatim>\<open>reserve\<close> asks for is taken as
  the capacity.  The formats of \<^verbatim>\<open>std::format\<close> and the
  streams (\<open>number_text\<close>), the discrete Fourier transform, window functions, the double arithmetic behind the log's level column
  (\<open>double_arith\<close>), the bit pattern of a logged block (\<open>spl_env\<close>) and the clock are arguments as well.  A log stream that
  failed writes nothing more, and the log files of two channels are separate disks.

  \<^bold>\<open>Contracts as locales.\<close>  \<open>numeric_text\<close> (a number format that round-trips: session integers, the log's words), \<open>library_setter\<close> (the four
  setters of the library), \<open>commit\<close> (write a temporary file, rename it over the final one), \<open>sample_source\<close>
  and \<open>bounded_source\<close> (what the output engine needs of a generator), \<open>hop_fed\<close> (a machine whose state after any
  hops is determined by the stream they make up) and the ring contracts are stated once and interpreted on the
  definitions of the code.

  \<^bold>\<open>Loops and bounds.\<close>  Every loop of the code is a terminating function: structural recursion or a measure
  (\<open>bit_ceil_from\<close>, the drain loops, \<open>split_lines\<close>, \<open>decimal\<close>).  The one bound given from outside is the number
  of polls in \<open>poll_all\<close>, four: the capacity of the queue of closed blocks, so that no block is left behind.

  \<^bold>\<open>Not modelled.\<close>  The Fourier transform, filter banks, equaliser, impulse-response and transfer-function
  numerics of \<^verbatim>\<open>core/src/dsp\<close>, \<^verbatim>\<open>core/src/eq\<close>, \<^verbatim>\<open>core/src/ir\<close> (floating-point numerics whose correctness is a
  matter of rounding error); the JUCE user interface (\<^verbatim>\<open>app/src/view\<close>, \<^verbatim>\<open>MainComponent\<close>, \<^verbatim>\<open>ui/\<close>), device access
  (\<^verbatim>\<open>platform/src/AudioIo.cpp\<close>), the sockets, threads and JSON bodies of the HTTP server, tools and vendored libraries.
\<close>

end
